(* ===== verification/Mille_Prelude.thy ===== *)
theory Mille_Prelude
  imports Main "HOL-Library.AList" "HOL-Library.Multiset" "HOL-Library.Word"
begin

text \<open>
  Shared material of the development: JavaScript \<open>Map\<close> and \<open>Set\<close> values (association lists and
  duplicate-free lists in insertion order), \<open>Array.prototype.sort\<close> with a numeric comparator,
  results of code that can throw, and the lemma collections the component theories use.

  Numbers. Every number of the modelled code that is used as an id, a length, a version or a
  timestamp is an integer; it is an \<open>int\<close> (or a \<open>nat\<close> where the code cannot make it negative).
  Strings. A JavaScript string is a sequence of 16-bit code units (\<open>jstring\<close>) where the code reads
  its units; where it is only a key or a path it is a HOL \<open>string\<close>.
\<close>

named_theorems jmap_simps \<open>lookup and key facts of JavaScript maps and sets\<close>
named_theorems codec_simps \<open>round-trip equations of the byte codecs\<close>

section \<open>Strings and bytes\<close>

type_synonym code_unit = "16 word"
type_synonym jstring = "code_unit list"
type_synonym byte = "8 word"
type_synonym bytes = "byte list"

text \<open>A string literal of the source, as code units.\<close>

definition js :: "string \<Rightarrow> jstring" where
  "js s = map of_char s"

section \<open>Results of code that can throw\<close>

text \<open>\<open>Inl e\<close> is a thrown error, \<open>Inr x\<close> a returned value; \<open>rbind\<close> sequences two steps.\<close>

definition rbind :: "'e + 'a \<Rightarrow> ('a \<Rightarrow> 'e + 'b) \<Rightarrow> 'e + 'b" where
  "rbind r f = (case r of Inl e \<Rightarrow> Inl e | Inr x \<Rightarrow> f x)"

lemma rbind_simps [simp]:
  "rbind (Inl e) f = Inl e"
  "rbind (Inr x) f = f x"
  by (simp_all add: rbind_def)

lemma rbind_eq_Inr:
  "rbind r f = Inr y \<longleftrightarrow> (\<exists>x. r = Inr x \<and> f x = Inr y)"
  by (cases r) simp_all

lemma rbind_InrE:
  assumes "rbind r f = Inr y"
  obtains x where "r = Inr x" "f x = Inr y"
  using assms by (auto simp: rbind_eq_Inr)

lemma rbind_eq_Inl:
  "rbind r f = Inl e \<longleftrightarrow> r = Inl e \<or> (\<exists>x. r = Inr x \<and> f x = Inl e)"
  by (cases r) simp_all

section \<open>JavaScript maps\<close>

text \<open>
  A \<open>Map\<close> keeps its keys in insertion order: setting a present key keeps its position, setting a
  new one appends it. \<^const>\<open>AList.update\<close> does exactly this, \<^const>\<open>AList.delete\<close> removes a
  key, \<^const>\<open>map_of\<close> reads one.
\<close>

type_synonym ('k, 'v) jmap = "('k \<times> 'v) list"

abbreviation jm_get :: "('k, 'v) jmap \<Rightarrow> 'k \<Rightarrow> 'v option" where
  "jm_get m k \<equiv> map_of m k"

abbreviation jm_set :: "'k \<Rightarrow> 'v \<Rightarrow> ('k, 'v) jmap \<Rightarrow> ('k, 'v) jmap" where
  "jm_set k v m \<equiv> AList.update k v m"

abbreviation jm_delete :: "'k \<Rightarrow> ('k, 'v) jmap \<Rightarrow> ('k, 'v) jmap" where
  "jm_delete k m \<equiv> AList.delete k m"

definition jm_has :: "('k, 'v) jmap \<Rightarrow> 'k \<Rightarrow> bool" where
  "jm_has m k \<longleftrightarrow> map_of m k \<noteq> None"

abbreviation jm_keys :: "('k, 'v) jmap \<Rightarrow> 'k list" where
  "jm_keys m \<equiv> map fst m"

definition jm_wf :: "('k, 'v) jmap \<Rightarrow> bool" where
  "jm_wf m \<longleftrightarrow> distinct (map fst m)"

lemma jm_get_set [simp, jmap_simps]:
  "jm_get (jm_set k v m) k' = (if k' = k then Some v else jm_get m k')"
  by (simp add: update_conv')

lemma jm_get_delete [simp, jmap_simps]:
  "jm_get (jm_delete k m) k' = (if k' = k then None else jm_get m k')"
  by (simp add: delete_conv')

lemma jm_has_iff: "jm_has m k \<longleftrightarrow> k \<in> set (jm_keys m)"
  by (simp add: jm_has_def map_of_eq_None_iff)

lemma jm_has_set [simp, jmap_simps]: "jm_has (jm_set k v m) k' \<longleftrightarrow> k' = k \<or> jm_has m k'"
  by (simp add: jm_has_def)

lemma jm_has_delete [simp, jmap_simps]: "jm_has (jm_delete k m) k' \<longleftrightarrow> k' \<noteq> k \<and> jm_has m k'"
  by (simp add: jm_has_def)

lemma jm_has_Nil [simp]: "\<not> jm_has [] k"
  by (simp add: jm_has_def)

lemma jm_wf_Nil [simp]: "jm_wf []"
  by (simp add: jm_wf_def)

lemma jm_wf_set [simp, intro]: "jm_wf m \<Longrightarrow> jm_wf (jm_set k v m)"
  by (simp add: jm_wf_def distinct_update)

lemma jm_wf_delete [simp, intro]: "jm_wf m \<Longrightarrow> jm_wf (jm_delete k m)"
  by (simp add: jm_wf_def distinct_delete)

lemma keys_jm_set [simp, jmap_simps]: "fst ` set (jm_set k v m) = insert k (fst ` set m)"
  by (simp add: dom_update)

lemma keys_jm_delete [simp, jmap_simps]: "fst ` set (jm_delete k m) = fst ` set m - {k}"
  using arg_cong [OF AList.delete_keys, of set k m] by simp

lemma length_jm_delete:
  assumes "jm_wf m"
  shows "length (jm_delete k m) = length m - (if jm_has m k then 1 else 0)"
proof -
  have "length (jm_delete k m) = length (removeAll k (map fst m))"
    by (metis AList.delete_keys length_map)
  also have "\<dots> = length (map fst m) - (if k \<in> set (map fst m) then 1 else 0)"
    using assms by (simp add: jm_wf_def distinct_remove1_removeAll [symmetric] length_remove1)
  finally show ?thesis by (simp add: jm_has_iff)
qed

lemma jm_get_map_of_Some: "jm_get m k = Some v \<Longrightarrow> jm_has m k"
  by (simp add: jm_has_def)

text \<open>Folding deletions and insertions over a list of keys.\<close>

lemma jm_get_fold_delete:
  "jm_get (fold jm_delete ks m) k = (if k \<in> set ks then None else jm_get m k)"
  by (induction ks arbitrary: m) auto

lemma jm_wf_fold_delete: "jm_wf m \<Longrightarrow> jm_wf (fold jm_delete ks m)"
  by (induction ks arbitrary: m) auto

lemma jm_get_fold_set:
  "distinct (map fst kvs) \<Longrightarrow>
   jm_get (fold (\<lambda>(k, v). jm_set k v) kvs m) k =
     (case map_of kvs k of Some v \<Rightarrow> Some v | None \<Rightarrow> jm_get m k)"
  by (induction kvs arbitrary: m)
     (auto split: option.splits dest: map_of_SomeD simp: rev_image_eqI map_of_eq_None_iff)

lemma jm_wf_fold_set: "jm_wf m \<Longrightarrow> jm_wf (fold (\<lambda>(k, v). jm_set k v) kvs m)"
  by (induction kvs arbitrary: m) auto

lemma set_jm_set_subset: "set (jm_set k v m) \<subseteq> insert (k, v) (set m)"
  by (induction m) auto

lemma jm_set_fresh: "\<not> jm_has m k \<Longrightarrow> jm_set k v m = m @ [(k, v)]"
  by (induction m) (auto simp: jm_has_def split: if_splits)

lemma fold_set_fresh:
  "distinct (map fst (m @ kvs)) \<Longrightarrow> fold (\<lambda>(k, v). jm_set k v) kvs m = m @ kvs"
proof (induction kvs arbitrary: m)
  case (Cons kv kvs)
  then have "\<not> jm_has m (fst kv)" by (auto simp: jm_has_iff)
  then have "jm_set (fst kv) (snd kv) m = m @ [kv]" by (simp add: jm_set_fresh)
  with Cons.IH [of "m @ [kv]"] Cons.prems show ?case by (simp add: case_prod_beta)
qed simp

section \<open>JavaScript sets\<close>

text \<open>A \<open>Set\<close> keeps its members in insertion order.\<close>

type_synonym 'a jset = "'a list"

definition jset_add :: "'a \<Rightarrow> 'a jset \<Rightarrow> 'a jset" where
  "jset_add x s = (if x \<in> set s then s else s @ [x])"

abbreviation jset_del :: "'a \<Rightarrow> 'a jset \<Rightarrow> 'a jset" where
  "jset_del x s \<equiv> removeAll x s"

text \<open>\<open>new Set(xs)\<close>.\<close>

definition jset_of :: "'a list \<Rightarrow> 'a jset" where
  "jset_of xs = fold jset_add xs []"

lemma set_jset_add [simp, jmap_simps]: "set (jset_add x s) = insert x (set s)"
  by (auto simp: jset_add_def)

lemma distinct_jset_add [simp, intro]: "distinct s \<Longrightarrow> distinct (jset_add x s)"
  by (simp add: jset_add_def)

lemma set_fold_jset_add [simp]: "set (fold jset_add xs s) = set xs \<union> set s"
  by (induction xs arbitrary: s) auto

lemma distinct_fold_jset_add: "distinct s \<Longrightarrow> distinct (fold jset_add xs s)"
  by (induction xs arbitrary: s) auto

lemma set_jset_of [simp]: "set (jset_of xs) = set xs"
  by (simp add: jset_of_def)

lemma distinct_jset_of [simp]: "distinct (jset_of xs)"
  by (simp add: jset_of_def distinct_fold_jset_add)

lemma set_fold_jset_del [simp]: "set (fold jset_del xs s) = set s - set xs"
  by (induction xs arbitrary: s) auto

lemma distinct_fold_jset_del: "distinct s \<Longrightarrow> distinct (fold jset_del xs s)"
  by (induction xs arbitrary: s) (simp_all add: distinct_removeAll)

section \<open>Sorting with a numeric comparator\<close>

text \<open>
  \<open>Array.prototype.sort\<close> with a comparator is a stable sort: an element goes before another when
  the comparator is negative, and equal ones keep their order. Insertion from the right is such a
  sort; \<open>js_sort_unique\<close> below shows that for the comparators of the code no other result is
  possible, so the choice of algorithm does not matter.
\<close>

fun insort_by :: "('a \<Rightarrow> 'a \<Rightarrow> int) \<Rightarrow> 'a \<Rightarrow> 'a list \<Rightarrow> 'a list" where
  "insort_by cmp x [] = [x]"
| "insort_by cmp x (y # ys) = (if cmp x y \<le> 0 then x # y # ys else y # insort_by cmp x ys)"

definition js_sort :: "('a \<Rightarrow> 'a \<Rightarrow> int) \<Rightarrow> 'a list \<Rightarrow> 'a list" where
  "js_sort cmp xs = foldr (insort_by cmp) xs []"

lemma js_sort_simps [simp]:
  "js_sort cmp [] = []"
  "js_sort cmp (x # xs) = insort_by cmp x (js_sort cmp xs)"
  by (simp_all add: js_sort_def)

lemma mset_insort_by [simp]: "mset (insort_by cmp x xs) = add_mset x (mset xs)"
  by (induction xs) auto

lemma mset_js_sort [simp]: "mset (js_sort cmp xs) = mset xs"
  by (induction xs) auto

lemma set_js_sort [simp]: "set (js_sort cmp xs) = set xs"
  by (metis mset_js_sort set_mset_mset)

lemma length_js_sort [simp]: "length (js_sort cmp xs) = length xs"
  by (metis mset_js_sort size_mset)

lemma distinct_js_sort [simp]: "distinct (js_sort cmp xs) = distinct xs"
  by (rule mset_eq_imp_distinct_iff) simp

lemma set_insort_by [simp]: "set (insort_by cmp x xs) = insert x (set xs)"
  by (induction xs) auto

text \<open>What \<open>sort\<close> asks of a comparator: a total preorder read off its sign.\<close>

locale js_comparator =
  fixes cmp :: "'a \<Rightarrow> 'a \<Rightarrow> int"
  assumes cmp_total: "cmp x y \<le> 0 \<or> cmp y x \<le> 0"
    and cmp_trans: "cmp x y \<le> 0 \<Longrightarrow> cmp y z \<le> 0 \<Longrightarrow> cmp x z \<le> 0"
begin

lemma sorted_insort_by:
  "sorted_wrt (\<lambda>a b. cmp a b \<le> 0) xs \<Longrightarrow> sorted_wrt (\<lambda>a b. cmp a b \<le> 0) (insort_by cmp x xs)"
proof (induction xs)
  case (Cons y ys)
  then show ?case
    using cmp_total [of x y] by (auto intro: cmp_trans)
qed simp

lemma sorted_js_sort: "sorted_wrt (\<lambda>a b. cmp a b \<le> 0) (js_sort cmp xs)"
  by (induction xs) (auto intro: sorted_insort_by)

end

text \<open>A comparator whose ties are equal elements has exactly one sorted result.\<close>

locale js_total_comparator = js_comparator +
  assumes cmp_antisym: "cmp x y \<le> 0 \<Longrightarrow> cmp y x \<le> 0 \<Longrightarrow> x = y"
begin

lemma sorted_perm_unique:
  "sorted_wrt (\<lambda>a b. cmp a b \<le> 0) xs \<Longrightarrow> sorted_wrt (\<lambda>a b. cmp a b \<le> 0) ys \<Longrightarrow>
   mset xs = mset ys \<Longrightarrow> xs = ys"
proof (induction xs arbitrary: ys)
  case Nil
  then show ?case by simp
next
  case (Cons x xs)
  then obtain y ys' where ys: "ys = y # ys'"
    by (cases ys) auto
  have "x = y"
  proof (rule ccontr)
    assume "x \<noteq> y"
    moreover from Cons.prems(3) ys have "x \<in> set (y # ys')" "y \<in> set (x # xs)"
      by (metis list.set_intros(1) mset_eq_setD)+
    ultimately have "x \<in> set ys'" "y \<in> set xs" by auto
    with Cons.prems(1,2) ys have "cmp x y \<le> 0" "cmp y x \<le> 0" by auto
    with \<open>x \<noteq> y\<close> show False by (blast dest: cmp_antisym)
  qed
  with Cons ys show ?case by simp
qed

lemma js_sort_unique:
  assumes "sorted_wrt (\<lambda>a b. cmp a b \<le> 0) ys" and "mset ys = mset xs"
  shows "ys = js_sort cmp xs"
  by (rule sorted_perm_unique [OF assms(1) sorted_js_sort]) (simp add: assms(2))

lemma js_sort_idem: "sorted_wrt (\<lambda>a b. cmp a b \<le> 0) xs \<Longrightarrow> js_sort cmp xs = xs"
  using js_sort_unique [of xs xs] by simp

end

end
