(* ===== verification/Natural_Sort.thy ===== *)
theory Natural_Sort
  imports Mille_Prelude "HOL-Library.List_Lexorder" "HOL-Library.Product_Lexorder"
begin

text \<open>
  Natural filename comparison (\<open>packages/mille/src/natural-sort.ts\<close>): runs of digits compare by
  value, other characters by their ASCII-folded code. The model follows the two-index loop; the
  indices are the suffixes still to read. The theory shows that the comparator is a total order on
  strings by relating it to the lexicographic order of a tokenisation, so that every sort that
  uses it has one result.
\<close>

definition is_digit :: "code_unit \<Rightarrow> bool" where
  "is_digit c \<longleftrightarrow> 48 \<le> c \<and> c \<le> 57"

definition fold_case :: "code_unit \<Rightarrow> code_unit" where
  "fold_case c = (if 65 \<le> c \<and> c \<le> 90 then c + 32 else c)"

lemma dropWhile_digit_shorter:
  "is_digit c \<Longrightarrow> length (dropWhile is_digit (c # cs)) < Suc (length cs)"
  by (simp add: length_dropWhile_le le_imp_less_Suc)

text \<open>
  The loop of \<open>compareNaturalNames\<close>: \<open>left\<close> and \<open>right\<close> are the whole strings, the last two
  arguments what \<open>left.slice(a)\<close> and \<open>right.slice(b)\<close> are when an iteration starts.
\<close>

function compare_from :: "jstring \<Rightarrow> jstring \<Rightarrow> jstring \<Rightarrow> jstring \<Rightarrow> int" where
  "compare_from left right (ac # as) (bc # bs) =
     (if is_digit ac \<and> is_digit bc then
        let aRun = takeWhile is_digit (ac # as);
            bRun = takeWhile is_digit (bc # bs);
            aDigits = dropWhile (\<lambda>c. c = 48) aRun;
            bDigits = dropWhile (\<lambda>c. c = 48) bRun;
            magnitude = int (length aDigits) - int (length bDigits);
            runLength = int (length aRun) - int (length bRun)
        in if magnitude \<noteq> 0 then magnitude
           else if aDigits \<noteq> bDigits then (if aDigits < bDigits then -1 else 1)
           else if runLength \<noteq> 0 then runLength
           else compare_from left right (dropWhile is_digit (ac # as)) (dropWhile is_digit (bc # bs))
      else if fold_case ac \<noteq> fold_case bc then uint (fold_case ac) - uint (fold_case bc)
      else if ac \<noteq> bc then uint ac - uint bc
      else compare_from left right as bs)"
| "compare_from left right [] bs = int (length left) - int (length right)"
| "compare_from left right (ac # as) [] = int (length left) - int (length right)"
  by pat_completeness auto
termination
  by (relation "measure (\<lambda>(l, r, as, bs). length as)")
     (auto simp: dropWhile_digit_shorter simp del: dropWhile.simps)

definition compareNaturalNames :: "jstring \<Rightarrow> jstring \<Rightarrow> int" where
  "compareNaturalNames left right = compare_from left right left right"

section \<open>The tokenisation behind the order\<close>

text \<open>
  A digit run becomes the number of its significant digits, the digits and the length of the run,
  under the rank of the digit \<open>0\<close>; any other unit becomes its folded code and its own. No folded
  code lies among the digits, so one rank separates the two kinds of token.
\<close>

function tokens :: "jstring \<Rightarrow> (int \<times> int list) list" where
  "tokens [] = []"
| "tokens (c # cs) =
     (if is_digit c then
        let run = takeWhile is_digit (c # cs); digits = dropWhile (\<lambda>c. c = 48) run
        in (48, int (length digits) # map uint digits @ [int (length run)])
           # tokens (dropWhile is_digit (c # cs))
      else (uint (fold_case c), [uint c]) # tokens cs)"
  by pat_completeness auto
termination
  by (relation "measure length") (auto simp: dropWhile_digit_shorter simp del: dropWhile.simps)

declare compare_from.simps [simp del] tokens.simps [simp del]

lemma tokens_Nil [simp]: "tokens [] = []"
  by (subst tokens.simps) simp

lemma tokens_eq_Nil [simp]: "tokens cs = [] \<longleftrightarrow> cs = []" "[] = tokens cs \<longleftrightarrow> cs = []"
  by (cases cs; simp add: tokens.simps Let_def)+

lemma Nil_less_tokens [simp]: "[] < tokens cs \<longleftrightarrow> cs \<noteq> []"
  by (cases "tokens cs") (metis Nil_less_Cons tokens_eq_Nil(1) less_irrefl)+

lemma fold_case_not_digit: "\<not> is_digit c \<Longrightarrow> uint (fold_case c) < 48 \<or> 57 < uint (fold_case c)"
  by (auto simp: is_digit_def fold_case_def word_le_def uint_word_ariths)

lemma fold_case_digit: "is_digit c \<Longrightarrow> 48 \<le> uint (fold_case c) \<and> uint (fold_case c) \<le> 57"
  by (auto simp: is_digit_def fold_case_def word_le_def)

lemma digit_list_less:
  "length xs = length ys \<Longrightarrow>
   (map uint xs @ us < map uint ys @ (vs :: int list)) =
     (xs < ys \<or> xs = ys \<and> us < vs)"
  by (induction xs ys rule: list_induct2) (auto simp: word_less_def word_uint_eq_iff)

lemma digit_list_eq:
  "length xs = length ys \<Longrightarrow>
   map uint xs @ [u] = map uint ys @ [v :: int] \<longleftrightarrow> xs = ys \<and> u = v"
  by (simp add: inj_map_eq_map word_uint_eq_iff inj_def)

text \<open>The sign of a comparison, as a relation between the two token lists.\<close>

definition sign_agrees :: "int \<Rightarrow> (int \<times> int list) list \<Rightarrow> (int \<times> int list) list \<Rightarrow> bool" where
  "sign_agrees d ts us \<longleftrightarrow> (d < 0 \<longleftrightarrow> ts < us) \<and> (d = 0 \<longleftrightarrow> ts = us)"

lemma sign_agrees_run:
  fixes xs ys :: jstring
  assumes "xs = ys \<Longrightarrow> m = n \<Longrightarrow> sign_agrees d ts us"
  shows "sign_agrees
     (if int (length xs) - int (length ys) \<noteq> 0 then int (length xs) - int (length ys)
      else if xs \<noteq> ys then (if xs < ys then -1 else 1)
      else if m - n \<noteq> 0 then m - n else d)
     ((48, int (length xs) # map uint xs @ [m]) # ts)
     ((48, int (length ys) # map uint ys @ [n]) # us)"
  using assms
  by (auto simp: sign_agrees_def digit_list_less digit_list_eq less_prod_def split: if_splits)

lemma sign_agrees_char:
  assumes "\<not> (is_digit a \<and> is_digit b)" and "a = b \<Longrightarrow> sign_agrees d ts us"
  shows "sign_agrees
     (if fold_case a \<noteq> fold_case b then uint (fold_case a) - uint (fold_case b)
      else if a \<noteq> b then uint a - uint b else d)
     ((if is_digit a then (48, k) else (uint (fold_case a), [uint a])) # ts)
     ((if is_digit b then (48, l) else (uint (fold_case b), [uint b])) # us)"
proof -
  have "fold_case a \<noteq> fold_case b" if "is_digit a \<noteq> is_digit b"
    using that fold_case_digit fold_case_not_digit by (metis not_le)
  with assms fold_case_digit [of a] fold_case_digit [of b]
    fold_case_not_digit [of a] fold_case_not_digit [of b]
  show ?thesis
    by (auto simp: sign_agrees_def less_prod_def word_uint_eq_iff split: if_splits)
qed

lemma tokens_Cons:
  "\<exists>k. tokens (c # cs) =
     (if is_digit c then (48, k) else (uint (fold_case c), [uint c])) # tl (tokens (c # cs))"
  by (cases "is_digit c") (auto simp: tokens.simps(2) Let_def)

lemma length_dropWhile_digit:
  "length (dropWhile is_digit cs) = length cs - length (takeWhile is_digit cs)"
  by (metis add_diff_cancel_left' length_append takeWhile_dropWhile_id)

lemma compare_from_sign:
  "int (length left) - int (length right) = int (length as) - int (length bs) \<Longrightarrow>
   sign_agrees (compare_from left right as bs) (tokens as) (tokens bs)"
proof (induction left right as bs rule: compare_from.induct)
  case (1 left right ac as bc bs)
  let ?ar = "takeWhile is_digit (ac # as)" and ?br = "takeWhile is_digit (bc # bs)"
  let ?ad = "dropWhile (\<lambda>c. c = 48) ?ar" and ?bd = "dropWhile (\<lambda>c. c = 48) ?br"
  let ?d = "compare_from left right (dropWhile is_digit (ac # as)) (dropWhile is_digit (bc # bs))"
  show ?case
  proof (cases "is_digit ac \<and> is_digit bc")
    case True
    have rest: "sign_agrees ?d (tokens (dropWhile is_digit (ac # as)))
        (tokens (dropWhile is_digit (bc # bs)))"
      if "?ad = ?bd" "int (length ?ar) = int (length ?br)"
    proof (rule "1.IH"(1) [OF True refl refl refl refl refl refl])
      show "int (length left) - int (length right) =
          int (length (dropWhile is_digit (ac # as))) - int (length (dropWhile is_digit (bc # bs)))"
        using "1.prems" that(2) length_takeWhile_le [of is_digit "ac # as"]
          length_takeWhile_le [of is_digit "bc # bs"]
        by (simp only: length_dropWhile_digit of_nat_diff)
    qed (use that in simp_all)
    show ?thesis
      using sign_agrees_run [OF rest] True
      by (simp add: compare_from.simps(1) tokens.simps(2) Let_def
            del: takeWhile.simps dropWhile.simps split del: if_split)
  next
    case False
    define ts us where "ts = tl (tokens (ac # as))" and "us = tl (tokens (bc # bs))"
    obtain k l where tok: "tokens (ac # as) =
          (if is_digit ac then (48, k) else (uint (fold_case ac), [uint ac])) # ts"
        "tokens (bc # bs) =
          (if is_digit bc then (48, l) else (uint (fold_case bc), [uint bc])) # us"
      unfolding ts_def us_def using tokens_Cons [of ac as] tokens_Cons [of bc bs] by blast
    have "sign_agrees (compare_from left right as bs) ts us" if "ac = bc"
      using that False "1.IH"(2) "1.prems"
      by (auto simp: ts_def us_def tokens.simps(2))
    then show ?thesis
      unfolding tok compare_from.simps(1) if_not_P [OF False]
      by (rule sign_agrees_char [OF False])
  qed
qed (auto simp: sign_agrees_def compare_from.simps)

lemma compareNaturalNames_sign:
  "sign_agrees (compareNaturalNames x y) (tokens x) (tokens y)"
  unfolding compareNaturalNames_def by (rule compare_from_sign) simp

section \<open>The tokenisation loses nothing\<close>

lemma dropWhile_zeros:
  "xs = replicate (length xs - length (dropWhile (\<lambda>c. c = z) xs)) z @ dropWhile (\<lambda>c. c = z) xs"
proof (induction xs)
  case (Cons x xs)
  then show ?case
    using length_dropWhile_le [of "\<lambda>c. c = z" xs] by (auto simp: Suc_diff_le)
qed simp

lemma tokens_inject: "tokens x = tokens y \<Longrightarrow> x = y"
proof (induction x arbitrary: y rule: tokens.induct)
  case 1
  then show ?case by (metis tokens_Nil tokens_eq_Nil)
next
  case (2 c cs)
  from "2.prems" obtain d ds where y: "y = d # ds"
    by (metis list.exhaust tokens_eq_Nil(1))
  have same: "is_digit c = is_digit d"
    using "2.prems" fold_case_not_digit [of c] fold_case_not_digit [of d]
    by (auto simp: y tokens.simps(2) Let_def split: if_splits)
  show ?case
  proof (cases "is_digit c")
    case True
    let ?cr = "takeWhile is_digit (c # cs)" and ?dr = "takeWhile is_digit (d # ds)"
    from True same "2.prems" have len: "length ?cr = length ?dr"
        and sig: "dropWhile (\<lambda>c. c = 48) ?cr = dropWhile (\<lambda>c. c = 48) ?dr"
        and rest: "tokens (dropWhile is_digit (c # cs)) = tokens (dropWhile is_digit (d # ds))"
      by (simp_all add: y tokens.simps(2) Let_def digit_list_eq del: takeWhile.simps dropWhile.simps)
    have "?cr = ?dr"
      by (metis dropWhile_zeros len sig)
    moreover have "dropWhile is_digit (c # cs) = dropWhile is_digit (d # ds)"
      by (rule "2.IH"(1) [OF True refl refl rest])
    ultimately show ?thesis
      unfolding y by (metis takeWhile_dropWhile_id)
  next
    case False
    with same "2.prems" have "c = d" "tokens cs = tokens ds"
      by (simp_all add: y tokens.simps(2) word_uint_eq_iff)
    with "2.IH"(2) [OF False] show ?thesis by (simp add: y)
  qed
qed

text \<open>The comparator is a total order whose ties are equal strings.\<close>

lemma natural_neg: "compareNaturalNames x y < 0 \<longleftrightarrow> tokens x < tokens y"
  and natural_zero: "compareNaturalNames x y = 0 \<longleftrightarrow> x = y"
  using compareNaturalNames_sign [of x y] by (auto simp: sign_agrees_def dest: tokens_inject)

lemma natural_le: "compareNaturalNames x y \<le> 0 \<longleftrightarrow> tokens x \<le> tokens y"
  using natural_neg [of x y] natural_zero [of x y] tokens_inject [of x y]
  by (auto simp: le_less)

interpretation natural: js_total_comparator compareNaturalNames
  by unfold_locales (auto simp: natural_le dest: tokens_inject)

lemma natural_pos: "0 < compareNaturalNames x y \<longleftrightarrow> compareNaturalNames y x < 0"
  using natural_le [of x y] natural_neg [of y x] by (auto simp: not_le)

section \<open>Digit runs compare by value\<close>

definition digit_value :: "jstring \<Rightarrow> int" where
  "digit_value ds = foldl (\<lambda>v c. 10 * v + (uint c - 48)) 0 ds"

lemma digit_value_acc:
  "foldl (\<lambda>v c. 10 * v + (uint c - 48)) a ds = a * 10 ^ length ds + digit_value ds"
proof (induction ds arbitrary: a)
  case (Cons d ds)
  have "digit_value (d # ds) = (uint d - 48) * 10 ^ length ds + digit_value ds"
    using Cons.IH [of "uint d - 48"] by (simp add: digit_value_def)
  with Cons.IH [of "10 * a + (uint d - 48)"] show ?case
    by (simp add: ring_distribs)
qed (simp add: digit_value_def)

lemma digit_value_Cons:
  "digit_value (d # ds) = (uint d - 48) * 10 ^ length ds + digit_value ds"
  using digit_value_acc [of "uint d - 48" ds] by (simp add: digit_value_def)

lemma digit_value_Nil [simp]: "digit_value [] = 0"
  by (simp add: digit_value_def)

lemma digit_value_bounds:
  "list_all is_digit ds \<Longrightarrow> 0 \<le> digit_value ds \<and> digit_value ds < 10 ^ length ds"
proof (induction ds)
  case (Cons d ds)
  then have d: "0 \<le> uint d - 48" "uint d - 48 \<le> 9"
    by (auto simp: is_digit_def word_le_def)
  then have "(uint d - 48) * 10 ^ length ds \<le> 9 * 10 ^ length ds"
    by (intro mult_right_mono) auto
  moreover have "0 \<le> digit_value ds" "digit_value ds < 10 ^ length ds"
    using Cons by auto
  moreover have "0 \<le> (uint d - 48) * 10 ^ length ds" using d(1) by simp
  ultimately show ?case unfolding digit_value_Cons length_Cons power_Suc by linarith
qed simp

lemma digit_value_strip [simp]: "digit_value (dropWhile (\<lambda>c. c = 48) ds) = digit_value ds"
  by (induction ds) (auto simp: digit_value_Cons)

lemma digit_value_less:
  "length ds = length es \<Longrightarrow> list_all is_digit ds \<Longrightarrow> list_all is_digit es \<Longrightarrow>
   digit_value ds < digit_value es \<Longrightarrow> ds < es"
proof (induction ds es rule: list_induct2)
  case (Cons d ds e es)
  show ?case
  proof (cases "uint d < uint e \<or> d = e")
    case True
    with Cons show ?thesis by (auto simp: digit_value_Cons word_less_def)
  next
    case False
    then have "uint e + 1 \<le> uint d" by (auto simp: word_uint_eq_iff)
    then have "(uint e - 48 + 1) * 10 ^ length ds \<le> (uint d - 48) * 10 ^ length ds"
      by (intro mult_right_mono) auto
    moreover have "0 \<le> digit_value ds" "digit_value es < 10 ^ length es"
      using digit_value_bounds [of ds] digit_value_bounds [of es] Cons.prems by auto
    ultimately have "digit_value (e # es) < digit_value (d # ds)"
      using Cons.hyps by (simp add: digit_value_Cons algebra_simps)
    with Cons.prems show ?thesis by simp
  qed
qed simp

lemma digit_value_shorter:
  assumes "list_all is_digit ds" "list_all is_digit es"
    and "ds = dropWhile (\<lambda>c. c = 48) ds" and "digit_value ds < digit_value es"
  shows "length ds \<le> length es"
proof (cases ds)
  case (Cons d ds')
  with assms(3) have "d \<noteq> 48"
    by (metis (mono_tags, lifting) dropWhile_eq_Cons_conv)
  with assms(1) Cons have "1 \<le> uint d - 48"
    by (auto simp: is_digit_def word_le_def word_uint_eq_iff)
  then have "1 * 10 ^ length ds' \<le> (uint d - 48) * 10 ^ length ds'"
    by (intro mult_right_mono) auto
  moreover have "0 \<le> digit_value ds'"
    using digit_value_bounds [of ds'] assms(1) Cons by auto
  moreover have "digit_value ds < 10 ^ length es"
    using assms(4) digit_value_bounds [OF assms(2)] by linarith
  ultimately have "(10::int) ^ length ds' < 10 ^ length es"
    unfolding Cons digit_value_Cons by linarith
  then show ?thesis by (simp add: Cons)
qed simp

lemma tokens_append:
  "p = [] \<or> \<not> is_digit (last p) \<Longrightarrow> tokens (p @ q) = tokens p @ tokens q"
proof (induction p rule: tokens.induct)
  case (2 c cs)
  then have nd: "\<not> is_digit (last (c # cs))" by simp
  show ?case
  proof (cases "is_digit c")
    case True
    have drop: "dropWhile is_digit ((c # cs) @ q) = dropWhile is_digit (c # cs) @ q"
      by (rule dropWhile_append1 [of "last (c # cs)"]) (use nd in auto)
    have take: "takeWhile is_digit ((c # cs) @ q) = takeWhile is_digit (c # cs)"
      by (rule takeWhile_append1 [of "last (c # cs)"]) (use nd in auto)
    have "dropWhile is_digit (c # cs) = [] \<or> \<not> is_digit (last (dropWhile is_digit (c # cs)))"
      using nd by (metis dropWhile_eq_Nil_conv last_appendR takeWhile_dropWhile_id)
    note IH = "2.IH"(1) [OF True refl refl this]
    show ?thesis
      using True drop take IH
      by (simp add: tokens.simps(2) [of c] Let_def del: takeWhile.simps dropWhile.simps)
  next
    case False
    with nd have "cs = [] \<or> \<not> is_digit (last cs)" by (auto split: if_splits)
    with False "2.IH"(2) show ?thesis by (simp add: tokens.simps(2))
  qed
qed simp

lemma tokens_run:
  assumes "list_all is_digit ds" "ds \<noteq> []" "s = [] \<or> \<not> is_digit (hd s)"
  shows "tokens (ds @ s) =
    (let sig = dropWhile (\<lambda>c. c = 48) ds
     in (48, int (length sig) # map uint sig @ [int (length ds)]) # tokens s)"
proof -
  obtain d ds' where ds: "ds = d # ds'" using assms(2) by (cases ds) auto
  have "takeWhile is_digit (ds @ s) = ds" "dropWhile is_digit (ds @ s) = s"
    using assms by (cases s; simp add: takeWhile_append2 list_all_iff)+
  with assms ds show ?thesis
    by (simp add: tokens.simps(2) [of d] Let_def del: takeWhile.simps dropWhile.simps)
qed

lemma list_less_append [simp]: "(p @ x < p @ (y :: 'a :: linorder list)) = (x < y)"
  by (induction p) simp_all

lemma compare_numeric:
  assumes p: "p = [] \<or> \<not> is_digit (last p)"
    and ds: "list_all is_digit ds" "ds \<noteq> []" and es: "list_all is_digit es" "es \<noteq> []"
    and s: "s = [] \<or> \<not> is_digit (hd s)" and t: "t = [] \<or> \<not> is_digit (hd t)"
    and less: "digit_value ds < digit_value es"
  shows "compareNaturalNames (p @ ds @ s) (p @ es @ t) < 0"
proof -
  let ?ds = "dropWhile (\<lambda>c. c = 48) ds" and ?es = "dropWhile (\<lambda>c. c = 48) es"
  have digs: "list_all is_digit ?ds" "list_all is_digit ?es"
    using ds(1) es(1) by (auto simp: list_all_iff dest: set_dropWhileD)
  from less have "digit_value ?ds < digit_value ?es" by simp
  with digs have "length ?ds < length ?es \<or> length ?ds = length ?es \<and> ?ds < ?es"
    using digit_value_shorter [of ?ds ?es] digit_value_less [of ?ds ?es] by fastforce
  then show ?thesis
    unfolding natural_neg tokens_append [OF p] tokens_run [OF ds s] tokens_run [OF es t]
    by (auto simp: Let_def less_prod_def digit_list_less)
qed

section \<open>Properties\<close>

text \<open>
  C23: \<open>compareNaturalNames\<close> is a strict total order on strings: it is zero exactly on equal strings,
  swapping the arguments flips its sign, and its non-positive pairs compose. A sort by it is
  therefore deterministic, whatever the engine's algorithm.
\<close>

theorem natural_total_order:
  "(compareNaturalNames x y = 0 \<longleftrightarrow> x = y)
   \<and> (0 < compareNaturalNames x y \<longleftrightarrow> compareNaturalNames y x < 0)
   \<and> (compareNaturalNames x y \<le> 0 \<longrightarrow> compareNaturalNames y z \<le> 0 \<longrightarrow>
      compareNaturalNames x z \<le> 0)"
  using natural_zero natural_pos natural.cmp_trans by blast

theorem natural_total_order_witness:
  "compareNaturalNames (js ''a2'') (js ''a10'') \<le> 0
   \<and> compareNaturalNames (js ''a10'') (js ''B1'') \<le> 0
   \<and> compareNaturalNames (js ''a2'') (js ''B1'') \<le> 0"
proof -
  have "compareNaturalNames (js ''a2'') (js ''a10'') \<le> 0"
    and "compareNaturalNames (js ''a10'') (js ''B1'') \<le> 0"
    by (simp_all add: compareNaturalNames_def compare_from.simps js_def is_digit_def fold_case_def)
  with natural_total_order [of "js ''a2''" "js ''a10''" "js ''B1''"] show ?thesis by blast
qed

text \<open>
  Two names with the same prefix compare by the value of the digit runs that follow it, whatever
  the runs' lengths and leading zeros and whatever comes after them: the run of smaller value makes
  the smaller name, so \<open>file2\<close> sorts before \<open>file10\<close>.
\<close>

theorem natural_numeric_runs:
  assumes "p = [] \<or> \<not> is_digit (last p)"
    and "list_all is_digit ds" "ds \<noteq> []" "list_all is_digit es" "es \<noteq> []"
    and "s = [] \<or> \<not> is_digit (hd s)" "t = [] \<or> \<not> is_digit (hd t)"
    and "digit_value ds < digit_value es"
  shows "compareNaturalNames (p @ ds @ s) (p @ es @ t) < 0"
  using assms by (rule compare_numeric)

theorem natural_numeric_runs_witness:
  "compareNaturalNames (js ''file'' @ js ''002'' @ js ''.z'') (js ''file'' @ js ''10'' @ js ''.a'') < 0"
  by (rule natural_numeric_runs) (simp_all add: js_def is_digit_def digit_value_def)

end
