(* ===== verification/Wire_Bytes.thy ===== *)
theory Wire_Bytes
  imports Mille_Prelude
begin

text \<open>
  Fixed-width integers on the wire (\<open>DataView\<close> getters and setters) and the contract every codec of
  the wire formats meets: decoding undoes encoding whatever follows, and a decoder's answer does
  not depend on the bytes after the ones it consumed.
\<close>

section \<open>Fixed-width integers\<close>

text \<open>\<open>DataView.setUint\<^emph>\<open>n\<close>\<close> and \<open>getUint\<^emph>\<open>n\<close>\<close>, little endian; big endian is the reverse.\<close>

fun le_bytes :: "nat \<Rightarrow> nat \<Rightarrow> bytes" where
  "le_bytes 0 v = []"
| "le_bytes (Suc n) v = of_nat v # le_bytes n (v div 256)"

fun le_value :: "bytes \<Rightarrow> nat" where
  "le_value [] = 0"
| "le_value (b # bs) = unat b + 256 * le_value bs"

definition be_bytes :: "nat \<Rightarrow> nat \<Rightarrow> bytes" where
  "be_bytes n v = rev (le_bytes n v)"

definition be_value :: "bytes \<Rightarrow> nat" where
  "be_value bs = le_value (rev bs)"

lemma length_le_bytes [simp]: "length (le_bytes n v) = n"
  by (induction n arbitrary: v) auto

lemma length_be_bytes [simp]: "length (be_bytes n v) = n"
  by (simp add: be_bytes_def)

lemma le_value_le_bytes: "le_value (le_bytes n v) = v mod 256 ^ n"
proof (induction n arbitrary: v)
  case (Suc n)
  have "v mod (256 * 256 ^ n) = 256 * (v div 256 mod 256 ^ n) + v mod 256"
    by (simp add: mod_mult2_eq)
  with Suc show ?case by (simp add: unat_of_nat)
qed simp

lemma le_roundtrip [simp, codec_simps]: "v < 256 ^ n \<Longrightarrow> le_value (le_bytes n v) = v"
  by (simp add: le_value_le_bytes)

lemma be_roundtrip [simp, codec_simps]: "v < 256 ^ n \<Longrightarrow> be_value (be_bytes n v) = v"
  by (simp add: be_value_def be_bytes_def)

lemma unat_byte_less: "unat (b :: byte) < 256"
  using unsigned_less [of b] by simp

lemma le_value_less: "le_value bs < 256 ^ length bs"
proof (induction bs)
  case (Cons b bs)
  have "unat b + 256 * le_value bs < 256 * (le_value bs + 1)"
    using unat_byte_less [of b] by simp
  also have "\<dots> \<le> 256 * 256 ^ length bs"
    using Cons by (intro mult_left_mono) auto
  finally show ?case by simp
qed simp

lemma be_value_less: "be_value bs < 256 ^ length bs"
  using le_value_less [of "rev bs"] by (simp add: be_value_def)

section \<open>Decoders\<close>

text \<open>A decoder takes the unread bytes and returns a value and what is left, or throws.\<close>

type_synonym ('e, 'a) decoder = "bytes \<Rightarrow> 'e + ('a \<times> bytes)"

text \<open>
  A decoder is local when extending the input extends only what is left: what it returned was read
  from a prefix.
\<close>

definition local_decoder :: "('e, 'a) decoder \<Rightarrow> bool" where
  "local_decoder dec \<longleftrightarrow>
     (\<forall>bs x r s. dec bs = Inr (x, r) \<longrightarrow> dec (bs @ s) = Inr (x, r @ s))"

lemma local_decoderI:
  "(\<And>bs x r s. dec bs = Inr (x, r) \<Longrightarrow> dec (bs @ s) = Inr (x, r @ s)) \<Longrightarrow> local_decoder dec"
  by (simp add: local_decoder_def)

lemma local_decoderD: "local_decoder dec \<Longrightarrow> dec bs = Inr (x, r) \<Longrightarrow> dec (bs @ s) = Inr (x, r @ s)"
  by (simp add: local_decoder_def)

lemma local_return: "local_decoder (\<lambda>bs. Inr (x, bs))"
  by (simp add: local_decoder_def)

lemma local_throw: "local_decoder (\<lambda>bs. Inl e)"
  by (simp add: local_decoder_def)

lemma local_rbind:
  assumes "local_decoder d" and "\<And>x. local_decoder (f x)"
  shows "local_decoder (\<lambda>bs. rbind (d bs) (\<lambda>(x, bs'). f x bs'))"
  using assms
  by (intro local_decoderI) (fastforce simp: rbind_eq_Inr dest: local_decoderD)

lemma local_if:
  "local_decoder d \<Longrightarrow> local_decoder d' \<Longrightarrow> local_decoder (\<lambda>bs. if P then d bs else d' bs)"
  by (cases P) simp_all

text \<open>Reading \<open>n\<close> elements in a row.\<close>

fun read_times :: "nat \<Rightarrow> ('e, 'a) decoder \<Rightarrow> ('e, 'a list) decoder" where
  "read_times 0 d bs = Inr ([], bs)"
| "read_times (Suc n) d bs =
     rbind (d bs) (\<lambda>(x, bs'). rbind (read_times n d bs') (\<lambda>(xs, bs''). Inr (x # xs, bs'')))"

lemma local_read_times: "local_decoder d \<Longrightarrow> local_decoder (read_times n d)"
proof (induction n)
  case (Suc n)
  then have "local_decoder (\<lambda>bs. rbind (d bs) (\<lambda>(x, bs').
      rbind (read_times n d bs') (\<lambda>(xs, bs''). Inr (x # xs, bs''))))"
    by (intro local_rbind local_return)
  then show ?case by (simp add: local_decoder_def)
qed (simp add: local_decoder_def)

lemma length_read_times: "read_times n d bs = Inr (xs, r) \<Longrightarrow> length xs = n"
  by (induction n arbitrary: bs xs r) (auto simp: rbind_eq_Inr)

section \<open>The codec contract\<close>

text \<open>
  \<open>enc\<close> writes a valid value, \<open>dec\<close> reads it back whatever follows. Sequences, and therefore every
  length-prefixed vector of the formats, inherit it.
\<close>

locale wire_codec =
  fixes enc :: "'a \<Rightarrow> bytes"
    and dec :: "('e, 'a) decoder"
    and valid :: "'a \<Rightarrow> bool"
  assumes dec_enc: "valid x \<Longrightarrow> dec (enc x @ r) = Inr (x, r)"
    and dec_local: "local_decoder dec"
begin

lemma dec_enc_all:
  "list_all valid xs \<Longrightarrow> read_times (length xs) dec (concat (map enc xs) @ r) = Inr (xs, r)"
  by (induction xs) (simp_all add: dec_enc)

text \<open>No encoding is a proper prefix of another: a truncated one cannot decode to nothing left.\<close>

lemma truncated_not_complete:
  assumes "valid x" "enc x = p @ s" "s \<noteq> []"
  shows "dec p \<noteq> Inr (y, [])"
proof
  assume "dec p = Inr (y, [])"
  then have "dec (p @ s) = Inr (y, s)"
    using local_decoderD [OF dec_local] by fastforce
  moreover have "dec (p @ s) = Inr (x, [])"
    using dec_enc [OF assms(1), of "[]"] assms(2) by simp
  ultimately show False using assms(3) by simp
qed

lemma enc_inject: "valid x \<Longrightarrow> valid y \<Longrightarrow> enc x = enc y \<Longrightarrow> x = y"
  using dec_enc [of x "[]"] dec_enc [of y "[]"] by simp

end

text \<open>A fixed number of bytes.\<close>

definition read_bytes :: "'e \<Rightarrow> nat \<Rightarrow> ('e, bytes) decoder" where
  "read_bytes e n bs = (if length bs < n then Inl e else Inr (take n bs, drop n bs))"

lemma local_read_bytes: "local_decoder (read_bytes e n)"
  by (auto simp: local_decoder_def read_bytes_def)

lemma read_bytes_append: "length xs = n \<Longrightarrow> read_bytes e n (xs @ r) = Inr (xs, r)"
  by (simp add: read_bytes_def)

end
