(* ===== verification/Text_Encoding.thy ===== *)
theory Text_Encoding
  imports Mille_Prelude
begin

text \<open>
  The text codecs of the JavaScript runtime that the wire codecs call: \<open>TextEncoder.encode\<close>
  (UTF-16 code units to UTF-8, a lone surrogate becoming U+FFFD) and \<open>TextDecoder.decode\<close> with
  label \<open>utf-8\<close>, both the replacing and the fatal form, which also drop a leading byte-order mark.
  The decoder is the Encoding standard's state machine. The round trip is what the entry and
  frame codecs rely on.
\<close>

section \<open>UTF-16\<close>

definition high_surrogate :: "code_unit \<Rightarrow> bool" where
  "high_surrogate u \<longleftrightarrow> 0xD800 \<le> unat u \<and> unat u \<le> 0xDBFF"

definition low_surrogate :: "code_unit \<Rightarrow> bool" where
  "low_surrogate u \<longleftrightarrow> 0xDC00 \<le> unat u \<and> unat u \<le> 0xDFFF"

text \<open>The code points of a string, lone surrogates replaced.\<close>

fun scalars :: "jstring \<Rightarrow> nat list" where
  "scalars [] = []"
| "scalars [u] = [if high_surrogate u \<or> low_surrogate u then 0xFFFD else unat u]"
| "scalars (u # v # us) =
     (if high_surrogate u then
        if low_surrogate v
        then (0x10000 + (unat u - 0xD800) * 0x400 + (unat v - 0xDC00)) # scalars us
        else 0xFFFD # scalars (v # us)
      else if low_surrogate u then 0xFFFD # scalars (v # us)
      else unat u # scalars (v # us))"

text \<open>A string without lone surrogates.\<close>

fun well_formed :: "jstring \<Rightarrow> bool" where
  "well_formed [] \<longleftrightarrow> True"
| "well_formed [u] \<longleftrightarrow> \<not> high_surrogate u \<and> \<not> low_surrogate u"
| "well_formed (u # v # us) \<longleftrightarrow>
     (if high_surrogate u then low_surrogate v \<and> well_formed us
      else \<not> low_surrogate u \<and> well_formed (v # us))"

definition code_point_units :: "nat \<Rightarrow> jstring" where
  "code_point_units c =
     (if c < 0x10000 then [of_nat c]
      else [of_nat (0xD800 + (c - 0x10000) div 0x400), of_nat (0xDC00 + (c - 0x10000) mod 0x400)])"

section \<open>UTF-8\<close>

definition utf8_char :: "nat \<Rightarrow> bytes" where
  "utf8_char c =
     (if c < 0x80 then [of_nat c]
      else if c < 0x800 then [of_nat (0xC0 + c div 0x40), of_nat (0x80 + c mod 0x40)]
      else if c < 0x10000 then
        [of_nat (0xE0 + c div 0x1000), of_nat (0x80 + c div 0x40 mod 0x40), of_nat (0x80 + c mod 0x40)]
      else
        [of_nat (0xF0 + c div 0x40000), of_nat (0x80 + c div 0x1000 mod 0x40),
         of_nat (0x80 + c div 0x40 mod 0x40), of_nat (0x80 + c mod 0x40)])"

definition text_encode :: "jstring \<Rightarrow> bytes" where
  "text_encode s = concat (map utf8_char (scalars s))"

text \<open>
  The decoder: the code point read so far, the continuation bytes still needed and the bounds of
  the next one. \<open>None\<close> in the result is a decoding error; an unexpected byte is read again as the
  start of a new sequence.
\<close>

function utf8_run :: "nat \<Rightarrow> nat \<Rightarrow> nat \<Rightarrow> nat \<Rightarrow> bytes \<Rightarrow> nat option list" where
  "utf8_run cp 0 lo hi [] = []"
| "utf8_run cp (Suc n) lo hi [] = [None]"
| "utf8_run cp 0 lo hi (b # bs) =
     (let v = unat b in
      if v \<le> 0x7F then Some v # utf8_run 0 0 0x80 0xBF bs
      else if 0xC2 \<le> v \<and> v \<le> 0xDF then utf8_run (v mod 0x20) 1 0x80 0xBF bs
      else if 0xE0 \<le> v \<and> v \<le> 0xEF then
        utf8_run (v mod 0x10) 2 (if v = 0xE0 then 0xA0 else 0x80) (if v = 0xED then 0x9F else 0xBF) bs
      else if 0xF0 \<le> v \<and> v \<le> 0xF4 then
        utf8_run (v mod 0x8) 3 (if v = 0xF0 then 0x90 else 0x80) (if v = 0xF4 then 0x8F else 0xBF) bs
      else None # utf8_run 0 0 0x80 0xBF bs)"
| "utf8_run cp (Suc n) lo hi (b # bs) =
     (let v = unat b in
      if lo \<le> v \<and> v \<le> hi then
        let c = cp * 0x40 + v mod 0x40 in
        if n = 0 then Some c # utf8_run 0 0 0x80 0xBF bs else utf8_run c n 0x80 0xBF bs
      else None # utf8_run 0 0 0x80 0xBF (b # bs))"
  by pat_completeness auto
termination
  by (relation "measures [\<lambda>(c, n, lo, hi, bs). length bs, \<lambda>(c, n, lo, hi, bs). n]") auto

declare utf8_run.simps(3,4) [simp del]

abbreviation utf8_decode :: "bytes \<Rightarrow> nat option list" where
  "utf8_decode bs \<equiv> utf8_run 0 0 0x80 0xBF bs"

text \<open>A leading byte-order mark is dropped.\<close>

definition strip_bom :: "nat list \<Rightarrow> nat list" where
  "strip_bom cs = (case cs of c # cs' \<Rightarrow> if c = 0xFEFF then cs' else cs | [] \<Rightarrow> [])"

definition units_of :: "nat list \<Rightarrow> jstring" where
  "units_of cs = concat (map code_point_units (strip_bom cs))"

text \<open>\<open>new TextDecoder('utf-8').decode\<close> and the form with \<open>fatal: true\<close> (\<open>None\<close>: it throws).\<close>

definition text_decode :: "bytes \<Rightarrow> jstring" where
  "text_decode bs = units_of (map (\<lambda>t. case t of Some c \<Rightarrow> c | None \<Rightarrow> 0xFFFD) (utf8_decode bs))"

definition text_decode_fatal :: "bytes \<Rightarrow> jstring option" where
  "text_decode_fatal bs =
     (let ts = utf8_decode bs in
      if None \<in> set ts then None else Some (units_of (map the ts)))"

section \<open>The round trip\<close>

definition is_scalar :: "nat \<Rightarrow> bool" where
  "is_scalar c \<longleftrightarrow> c < 0x110000 \<and> \<not> (0xD800 \<le> c \<and> c \<le> 0xDFFF)"

lemma unat_byte [simp]: "n < 256 \<Longrightarrow> unat (of_nat n :: byte) = n"
  by (simp add: unat_of_nat)

lemma unat_unit [simp]: "n < 65536 \<Longrightarrow> unat (of_nat n :: code_unit) = n"
  by (simp add: unat_of_nat)

lemma unat_unit_less: "unat (u :: code_unit) < 65536"
  using unsigned_less [of u] by simp

lemma utf8_run_cont:
  assumes "unat b = 0x80 + m" "m < 0x40" "lo \<le> 0x80 + m" "0x80 + m \<le> hi"
  shows "utf8_run cp (Suc n) lo hi (b # bs) =
    (if n = 0 then Some (cp * 0x40 + m) # utf8_decode bs else utf8_run (cp * 0x40 + m) n 0x80 0xBF bs)"
proof -
  have "(0x80 + m) mod 0x40 = m" using assms(2) mod_mult_self3 [of 2 "0x40" m] by simp
  with assms show ?thesis by (simp add: utf8_run.simps Let_def)
qed

lemma utf8_decode_lead1:
  "unat b \<le> 0x7F \<Longrightarrow> utf8_decode (b # bs) = Some (unat b) # utf8_decode bs"
  by (simp add: utf8_run.simps Let_def)

lemma utf8_decode_lead2:
  "unat b = 0xC0 + m \<Longrightarrow> 2 \<le> m \<Longrightarrow> m < 0x20 \<Longrightarrow>
   utf8_decode (b # bs) = utf8_run m (Suc 0) 0x80 0xBF bs"
proof -
  assume "unat b = 0xC0 + m" "2 \<le> m" "m < 0x20"
  moreover from this have "(0xC0 + m) mod 0x20 = m" using mod_mult_self3 [of 6 "0x20" m] by simp
  ultimately show ?thesis by (simp add: utf8_run.simps Let_def)
qed

lemma utf8_decode_lead3:
  "unat b = 0xE0 + m \<Longrightarrow> m < 0x10 \<Longrightarrow>
   utf8_decode (b # bs) =
     utf8_run m (Suc (Suc 0)) (if m = 0 then 0xA0 else 0x80) (if m = 0xD then 0x9F else 0xBF) bs"
proof -
  assume "unat b = 0xE0 + m" "m < 0x10"
  moreover from this have "(0xE0 + m) mod 0x10 = m" using mod_mult_self3 [of 14 "0x10" m] by simp
  ultimately show ?thesis by (auto simp: utf8_run.simps Let_def numeral_2_eq_2 [symmetric])
qed

lemma utf8_decode_lead4:
  "unat b = 0xF0 + m \<Longrightarrow> m \<le> 4 \<Longrightarrow>
   utf8_decode (b # bs) =
     utf8_run m (Suc (Suc (Suc 0))) (if m = 0 then 0x90 else 0x80) (if m = 4 then 0x8F else 0xBF) bs"
proof -
  assume "unat b = 0xF0 + m" "m \<le> 4"
  moreover from this have "(0xF0 + m) mod 0x8 = m" using mod_mult_self3 [of 30 "0x8" m] by simp
  ultimately show ?thesis by (auto simp: utf8_run.simps Let_def numeral_3_eq_3 [symmetric])
qed

lemma of_nat_byte: "n < 256 \<Longrightarrow> \<exists>b :: byte. of_nat n = b \<and> unat b = n"
  by simp

lemma utf8_decode_char2:
  assumes "0x80 \<le> c" "c < 0x800"
  shows "utf8_decode (utf8_char c @ bs) = Some c # utf8_decode bs"
proof -
  let ?h = "c div 0x40" and ?l = "c mod 0x40"
  have h: "2 \<le> ?h" "?h < 0x20" and l: "?l < 0x40" using assms by auto
  obtain b1 b2 :: byte where b: "of_nat (0xC0 + ?h) = b1" "unat b1 = 0xC0 + ?h"
      "of_nat (0x80 + ?l) = b2" "unat b2 = 0x80 + ?l"
    using of_nat_byte [of "0xC0 + ?h"] of_nat_byte [of "0x80 + ?l"] h l by fastforce
  have "utf8_char c = [b1, b2]"
    using assms unfolding utf8_char_def b(1,3) by simp
  then show ?thesis
    using utf8_decode_lead2 [OF b(2) h] utf8_run_cont [OF b(4) l] l by simp
qed

lemma three_byte_bounds:
  fixes h m l c :: nat
  assumes "(h * 0x40 + m) * 0x40 + l = c" "m < 0x40" "l < 0x40" "0x800 \<le> c"
    "\<not> (0xD800 \<le> c \<and> c \<le> 0xDFFF)"
  shows "(if h = 0 then 0xA0 else 0x80) \<le> 0x80 + m"
    and "0x80 + m \<le> (if h = 0xD then 0x9F else 0xBF)"
  using assms by (auto split: if_split)

lemma four_byte_bounds:
  fixes h k m l c :: nat
  assumes "((h * 0x40 + k) * 0x40 + m) * 0x40 + l = c" "k < 0x40" "m < 0x40" "l < 0x40"
    "0x10000 \<le> c" "c < 0x110000"
  shows "(if h = 0 then 0x90 else 0x80) \<le> 0x80 + k"
    and "0x80 + k \<le> (if h = 4 then 0x8F else 0xBF)"
  using assms by (auto split: if_split)

lemma utf8_decode_three:
  assumes "unat b1 = 0xE0 + h" "unat b2 = 0x80 + m" "unat b3 = 0x80 + l"
    and "h < 0x10" "m < 0x40" "l < 0x40"
    and b: "(if h = 0 then 0xA0 else 0x80) \<le> 0x80 + m" "0x80 + m \<le> (if h = 0xD then 0x9F else 0xBF)"
  shows "utf8_decode (b1 # b2 # b3 # bs) = Some ((h * 0x40 + m) * 0x40 + l) # utf8_decode bs"
  unfolding utf8_decode_lead3 [OF assms(1,4)] utf8_run_cont [OF assms(2,5) b]
  using utf8_run_cont [OF assms(3,6), of "0x80" "0xBF"] assms(6) by simp

lemma utf8_decode_four:
  assumes "unat b1 = 0xF0 + h" "unat b2 = 0x80 + k" "unat b3 = 0x80 + m" "unat b4 = 0x80 + l"
    and "h \<le> 4" "k < 0x40" "m < 0x40" "l < 0x40"
    and b: "(if h = 0 then 0x90 else 0x80) \<le> 0x80 + k" "0x80 + k \<le> (if h = 4 then 0x8F else 0xBF)"
  shows "utf8_decode (b1 # b2 # b3 # b4 # bs) =
    Some (((h * 0x40 + k) * 0x40 + m) * 0x40 + l) # utf8_decode bs"
  unfolding utf8_decode_lead4 [OF assms(1,5)] utf8_run_cont [OF assms(2,6) b]
  using utf8_run_cont [OF assms(3,7), of "0x80" "0xBF"] assms(7)
    utf8_run_cont [OF assms(4,8), of "0x80" "0xBF"] assms(8) by simp

lemma utf8_decode_char3:
  assumes "0x800 \<le> c" "c < 0x10000" "\<not> (0xD800 \<le> c \<and> c \<le> 0xDFFF)"
  shows "utf8_decode (utf8_char c @ bs) = Some c # utf8_decode bs"
proof -
  let ?h = "c div 0x1000" and ?m = "c div 0x40 mod 0x40" and ?l = "c mod 0x40"
  have h: "?h < 0x10" and m: "?m < 0x40" and l: "?l < 0x40" using assms by auto
  have x: "?h * 0x40 + ?m = c div 0x40"
    using div_mult_mod_eq [of "c div 0x40" "0x40"] by (simp add: div_mult2_eq [symmetric])
  have y: "c div 0x40 * 0x40 + ?l = c" by (rule div_mult_mod_eq)
  from x y have c: "(?h * 0x40 + ?m) * 0x40 + ?l = c" by simp
  note lohi = three_byte_bounds [OF c m l assms(1,3)]
  obtain b1 b2 b3 :: byte where b: "of_nat (0xE0 + ?h) = b1" "unat b1 = 0xE0 + ?h"
      "of_nat (0x80 + ?m) = b2" "unat b2 = 0x80 + ?m" "of_nat (0x80 + ?l) = b3" "unat b3 = 0x80 + ?l"
    using of_nat_byte [of "0xE0 + ?h"] of_nat_byte [of "0x80 + ?m"] of_nat_byte [of "0x80 + ?l"] h m l
    by fastforce
  have "utf8_char c = [b1, b2, b3]"
    using assms unfolding utf8_char_def b(1,3,5) by simp
  then show ?thesis
    using utf8_decode_three [OF b(2,4,6) h m l lohi] unfolding c by simp
qed

lemma utf8_decode_char4:
  assumes "0x10000 \<le> c" "c < 0x110000"
  shows "utf8_decode (utf8_char c @ bs) = Some c # utf8_decode bs"
proof -
  let ?h = "c div 0x40000" and ?k = "c div 0x1000 mod 0x40"
    and ?m = "c div 0x40 mod 0x40" and ?l = "c mod 0x40"
  have h: "?h \<le> 4" and k: "?k < 0x40" and m: "?m < 0x40" and l: "?l < 0x40" using assms by auto
  have x: "?h * 0x40 + ?k = c div 0x1000"
    using div_mult_mod_eq [of "c div 0x1000" "0x40"] by (simp add: div_mult2_eq [symmetric])
  have y: "c div 0x1000 * 0x40 + ?m = c div 0x40"
    using div_mult_mod_eq [of "c div 0x40" "0x40"] by (simp add: div_mult2_eq [symmetric])
  have z: "c div 0x40 * 0x40 + ?l = c" by (rule div_mult_mod_eq)
  from x y z have c: "((?h * 0x40 + ?k) * 0x40 + ?m) * 0x40 + ?l = c" by simp
  note lohi = four_byte_bounds [OF c k m l assms]
  obtain b1 b2 b3 b4 :: byte where b: "of_nat (0xF0 + ?h) = b1" "unat b1 = 0xF0 + ?h"
      "of_nat (0x80 + ?k) = b2" "unat b2 = 0x80 + ?k" "of_nat (0x80 + ?m) = b3" "unat b3 = 0x80 + ?m"
      "of_nat (0x80 + ?l) = b4" "unat b4 = 0x80 + ?l"
    using of_nat_byte [of "0xF0 + ?h"] of_nat_byte [of "0x80 + ?k"]
      of_nat_byte [of "0x80 + ?m"] of_nat_byte [of "0x80 + ?l"] h k m l
    by fastforce
  have "utf8_char c = [b1, b2, b3, b4]"
    using assms unfolding utf8_char_def b(1,3,5,7) by simp
  then show ?thesis
    using utf8_decode_four [OF b(2,4,6,8) h k m l lohi] unfolding c by simp
qed

lemma utf8_decode_char:
  assumes "is_scalar c"
  shows "utf8_decode (utf8_char c @ bs) = Some c # utf8_decode bs"
proof -
  consider (one) "c < 0x80" | (two) "0x80 \<le> c" "c < 0x800"
    | (three) "0x800 \<le> c" "c < 0x10000" | (four) "0x10000 \<le> c" by linarith
  then show ?thesis
  proof cases
    case one
    then show ?thesis using utf8_decode_lead1 [of "of_nat c"] by (simp add: utf8_char_def)
  next
    case two
    then show ?thesis by (rule utf8_decode_char2)
  next
    case three
    with assms show ?thesis by (intro utf8_decode_char3) (simp_all add: is_scalar_def)
  next
    case four
    with assms show ?thesis by (intro utf8_decode_char4) (simp_all add: is_scalar_def)
  qed
qed

lemma utf8_decode_chars:
  "list_all is_scalar cs \<Longrightarrow> utf8_decode (concat (map utf8_char cs)) = map Some cs"
  by (induction cs) (simp_all add: utf8_decode_char)

lemma scalars_scalar: "list_all is_scalar (scalars s)"
proof (induction s rule: scalars.induct)
  case (2 u)
  then show ?case using unat_unit_less [of u]
    by (auto simp: is_scalar_def high_surrogate_def low_surrogate_def)
next
  case (3 u v us)
  then show ?case using unat_unit_less [of u]
    by (auto simp: is_scalar_def high_surrogate_def low_surrogate_def)
qed simp

lemma pair_units:
  assumes "high_surrogate u" "low_surrogate v"
  shows "code_point_units (0x10000 + (unat u - 0xD800) * 0x400 + (unat v - 0xDC00)) = [u, v]"
proof -
  define h l where "h = unat u - 0xD800" and "l = unat v - 0xDC00"
  have hl: "h < 0x400" "l < 0x400" "unat u = 0xD800 + h" "unat v = 0xDC00 + l"
    using assms by (auto simp: h_def l_def high_surrogate_def low_surrogate_def)
  then have "(h * 0x400 + l) div 0x400 = h" "(h * 0x400 + l) mod 0x400 = l" by simp_all
  moreover have "of_nat (0xD800 + h) = u" "of_nat (0xDC00 + l) = v"
    unfolding hl(3,4) [symmetric] by simp_all
  ultimately show ?thesis
    unfolding h_def [symmetric] l_def [symmetric] add.assoc
    by (simp add: code_point_units_def del: of_nat_add of_nat_mult)
qed

lemma units_scalars: "well_formed s \<Longrightarrow> concat (map code_point_units (scalars s)) = s"
proof (induction s rule: scalars.induct)
  case (2 u)
  then show ?case using unat_unit_less [of u] by (simp add: code_point_units_def)
next
  case (3 u v us)
  then show ?case using unat_unit_less [of u] pair_units [of u v]
    by (auto simp: code_point_units_def split: if_splits)
qed simp

text \<open>A string survives encoding when it has no lone surrogate and no leading byte-order mark.\<close>

definition text_safe :: "jstring \<Rightarrow> bool" where
  "text_safe s \<longleftrightarrow> well_formed s \<and> (s = [] \<or> hd s \<noteq> 0xFEFF)"

lemma strip_bom_scalars: "text_safe s \<Longrightarrow> strip_bom (scalars s) = scalars s"
  unfolding text_safe_def
  by (cases s rule: scalars.cases)
     (auto simp: strip_bom_def high_surrogate_def low_surrogate_def word_unat_eq_iff split: if_splits)

lemma text_roundtrip: "text_safe s \<Longrightarrow> text_decode (text_encode s) = s"
  by (simp add: text_decode_def text_encode_def utf8_decode_chars scalars_scalar units_of_def
        strip_bom_scalars units_scalars comp_def text_safe_def)

lemma text_roundtrip_fatal: "text_safe s \<Longrightarrow> text_decode_fatal (text_encode s) = Some s"
  by (simp add: text_decode_fatal_def text_encode_def utf8_decode_chars scalars_scalar units_of_def
        strip_bom_scalars units_scalars comp_def text_safe_def)

end
