(* ===== verification/Mirror.thy ===== *)
theory Mirror
  imports Mille_Prelude
begin

text \<open>
  The client's viewport mirror (\<open>packages/mille/src/mirror.ts\<close>): the entry record that crosses the
  wire, the working state the reducer transforms, its empty value and its copy. Maps and sets are
  kept in insertion order, as the code iterates them.
\<close>

record client_entry =
  ce_id :: int
  ce_parentId :: "int option"
  ce_name :: jstring
  ce_kind :: int
  ce_size :: int
  ce_mtimeMs :: int
  ce_ctimeMs :: int
  ce_symlinkTargetIsDir :: "bool option"
  ce_pathSegments :: "jstring list option"
  ce_isIgnored :: bool
  ce_isReadonly :: bool
  ce_isHidden :: bool

text \<open>A decoration on the wire; an absent field is \<open>None\<close>.\<close>

record decoration =
  dec_letter :: "string option"
  dec_badge :: "string option"
  dec_color :: "string option"
  dec_tooltip :: "string option"
  dec_propagate :: "bool option"

datatype load_state = Loading | LoadError "string \<times> string"

text \<open>An active (\<open>Loading\<close>) or failed directory read with its code and message.\<close>

record directory_load =
  dl_generation :: int
  dl_state :: load_state

record mirror =
  byId :: "(int, client_entry) jmap"
  children :: "(int, int list) jmap"
  orderedChildren :: "int jset"
  directChildCounts :: "(int, int) jmap"
  pendingExpansions :: "int jset"
  directoryLoads :: "(int, directory_load) jmap"
  expanded :: "int jset"
  viewportIds :: "int jset"
  roots :: "int list"
  treeVersion :: int
  projectionVersion :: int
  decorationVersion :: int
  showHiddenFiles :: bool
  showIgnoredFiles :: bool
  compactFolders :: bool
  decorations :: "(int, decoration list) jmap"
  volatileSubtrees :: "int jset"
  lruTouch :: "(int, int) jmap"
  lruCounter :: int

definition createMirror :: mirror where
  "createMirror = \<lparr>
     byId = [], children = [], orderedChildren = [], directChildCounts = [],
     pendingExpansions = [], directoryLoads = [], expanded = [], viewportIds = [],
     roots = [], treeVersion = 0, projectionVersion = 0, decorationVersion = 0,
     showHiddenFiles = True, showIgnoredFiles = True, compactFolders = False,
     decorations = [], volatileSubtrees = [], lruTouch = [], lruCounter = 0 \<rparr>"

text \<open>A copy of every container; the entry records themselves are shared and never changed.\<close>

definition cloneMirror :: "mirror \<Rightarrow> mirror" where
  "cloneMirror m = \<lparr>
     byId = byId m, children = children m, orderedChildren = orderedChildren m,
     directChildCounts = directChildCounts m, pendingExpansions = pendingExpansions m,
     directoryLoads = directoryLoads m, expanded = expanded m, viewportIds = viewportIds m,
     roots = roots m, treeVersion = treeVersion m, projectionVersion = projectionVersion m,
     decorationVersion = decorationVersion m, showHiddenFiles = showHiddenFiles m,
     showIgnoredFiles = showIgnoredFiles m, compactFolders = compactFolders m,
     decorations = decorations m, volatileSubtrees = volatileSubtrees m,
     lruTouch = lruTouch m, lruCounter = lruCounter m \<rparr>"

lemma cloneMirror_id [simp]: "cloneMirror m = m"
  by (simp add: cloneMirror_def)

text \<open>
  What every mirror satisfies: no map has a key twice, no set a member twice, an entry is stored
  under its own id, and only entries the client holds have a touch time.
\<close>

definition mirror_wf :: "mirror \<Rightarrow> bool" where
  "mirror_wf m \<longleftrightarrow>
     jm_wf (byId m) \<and> jm_wf (children m) \<and> distinct (orderedChildren m)
     \<and> jm_wf (directChildCounts m) \<and> distinct (pendingExpansions m) \<and> jm_wf (directoryLoads m)
     \<and> distinct (expanded m) \<and> distinct (viewportIds m) \<and> jm_wf (decorations m)
     \<and> distinct (volatileSubtrees m) \<and> jm_wf (lruTouch m)
     \<and> (\<forall>(id, e) \<in> set (byId m). ce_id e = id)
     \<and> (\<forall>id \<in> fst ` set (lruTouch m). jm_has (byId m) id)"

lemma mirror_wf_create [simp]: "mirror_wf createMirror"
  by (simp add: mirror_wf_def createMirror_def)

section \<open>Visibility of an entry\<close>

text \<open>\<open>isVisibleEntry\<close> of \<open>entry-visibility.ts\<close>.\<close>

definition isVisibleEntry :: "client_entry \<Rightarrow> bool \<Rightarrow> bool \<Rightarrow> bool \<Rightarrow> bool" where
  "isVisibleEntry entry includeIgnored showHidden showIgnored =
     (if includeIgnored then True
      else if ce_name entry \<in> {js ''.DS_Store'', js ''Thumbs.db'', js ''desktop.ini'', js ''.git''}
      then False
      else (showHidden \<or> \<not> ce_isHidden entry) \<and> (showIgnored \<or> \<not> ce_isIgnored entry))"

end
