(* ===== verification/Bincode.thy ===== *)
theory Bincode
  imports Wire_Bytes Text_Encoding Mirror
begin

unbundle bit_operations_syntax

text \<open>
  The bincode codec of entry records (\<open>packages/mille/src/decode.ts\<close> and \<open>entry-codec.ts\<close>). The
  writer is modelled with its growable buffer and write position, the reader by the bytes it has
  not consumed. Pure encoders between the two say what the format is; the theory shows that the
  writer appends exactly those bytes, that the reader inverts them, that the writer throws exactly
  on numbers it cannot represent, and that no truncated buffer decodes.
\<close>

section \<open>Reader\<close>

datatype bincode_error =
    TruncatedBuffer | InvalidBool | U128Unsupported | UnknownMarker | UnsafeU64 | UnsafeI64
  | InvalidOptionTag | TrailingBytes | NumberRange | InvalidArrayLength

definition MAX_SAFE :: int where
  "MAX_SAFE = 9007199254740991"

definition readU8 :: "(bincode_error, nat) decoder" where
  "readU8 bs = (case bs of [] \<Rightarrow> Inl TruncatedBuffer | b # r \<Rightarrow> Inr (unat b, r))"

definition readBool :: "(bincode_error, bool) decoder" where
  "readBool bs = rbind (readU8 bs) (\<lambda>(b, r).
     if b \<noteq> 0 \<and> b \<noteq> 1 then Inl InvalidBool else Inr (b = 1, r))"

definition readUint :: "nat \<Rightarrow> (bincode_error, nat) decoder" where
  "readUint n bs = rbind (read_bytes TruncatedBuffer n bs) (\<lambda>(b, r). Inr (le_value b, r))"

definition readVarintU64 :: "(bincode_error, nat) decoder" where
  "readVarintU64 bs = rbind (readU8 bs) (\<lambda>(head, r).
     if head < 251 then Inr (head, r)
     else if head = 251 then readUint 2 r
     else if head = 252 then readUint 4 r
     else if head = 253 then readUint 8 r
     else if head = 254 then Inl U128Unsupported
     else Inl UnknownMarker)"

definition readVarintI64 :: "(bincode_error, int) decoder" where
  "readVarintI64 bs = rbind (readVarintU64 bs) (\<lambda>(u, r).
     Inr (drop_bit 1 (int u) XOR (- (int u AND 1)), r))"

definition readVarintU64AsNumber :: "(bincode_error, int) decoder" where
  "readVarintU64AsNumber bs = rbind (readVarintU64 bs) (\<lambda>(v, r).
     if int v > MAX_SAFE then Inl UnsafeU64 else Inr (int v, r))"

definition readVarintI64AsNumber :: "(bincode_error, int) decoder" where
  "readVarintI64AsNumber bs = rbind (readVarintI64 bs) (\<lambda>(v, r).
     if v > MAX_SAFE \<or> v < - MAX_SAFE then Inl UnsafeI64 else Inr (v, r))"

text \<open>
  A length beyond \<open>MAX_SAFE\<close> is rounded by \<open>Number\<close> in the code; it stays larger than any buffer,
  so the read fails as truncated either way.
\<close>

definition readString :: "(bincode_error, jstring) decoder" where
  "readString bs = rbind (readVarintU64 bs) (\<lambda>(len, r).
     rbind (read_bytes TruncatedBuffer len r) (\<lambda>(slice, r'). Inr (text_decode slice, r')))"

definition readOption :: "(bincode_error, 'a) decoder \<Rightarrow> (bincode_error, 'a option) decoder" where
  "readOption readSome bs = rbind (readU8 bs) (\<lambda>(tag, r).
     if tag = 0 then Inr (None, r)
     else if tag = 1 then rbind (readSome r) (\<lambda>(x, r'). Inr (Some x, r'))
     else Inl InvalidOptionTag)"

text \<open>\<open>new Array(len)\<close> throws when \<open>len\<close> is not below \<open>2^32\<close>.\<close>

definition readVec :: "(bincode_error, 'a) decoder \<Rightarrow> (bincode_error, 'a list) decoder" where
  "readVec readElem bs = rbind (readVarintU64 bs) (\<lambda>(len, r).
     if len \<ge> 2 ^ 32 then Inl InvalidArrayLength else read_times len readElem r)"

definition readClientEntry :: "(bincode_error, client_entry) decoder" where
  "readClientEntry bs =
     rbind (readVarintU64AsNumber bs) (\<lambda>(id, bs).
     rbind (readOption readVarintU64AsNumber bs) (\<lambda>(parentId, bs).
     rbind (readString bs) (\<lambda>(name, bs).
     rbind (readU8 bs) (\<lambda>(kind, bs).
     rbind (readVarintU64AsNumber bs) (\<lambda>(size, bs).
     rbind (readVarintI64AsNumber bs) (\<lambda>(mtimeMs, bs).
     rbind (readVarintI64AsNumber bs) (\<lambda>(ctimeMs, bs).
     rbind (readOption readBool bs) (\<lambda>(symlinkTargetIsDir, bs).
     rbind (readOption (readVec readString) bs) (\<lambda>(pathSegments, bs).
     rbind (readBool bs) (\<lambda>(isIgnored, bs).
     rbind (readBool bs) (\<lambda>(isReadonly, bs).
     rbind (readBool bs) (\<lambda>(isHidden, bs).
       Inr (\<lparr> ce_id = id, ce_parentId = parentId, ce_name = name, ce_kind = int kind, ce_size = size,
              ce_mtimeMs = mtimeMs, ce_ctimeMs = ctimeMs, ce_symlinkTargetIsDir = symlinkTargetIsDir,
              ce_pathSegments = pathSegments, ce_isIgnored = isIgnored, ce_isReadonly = isReadonly,
              ce_isHidden = isHidden \<rparr>, bs)))))))))))))"

definition decodeClientEntries :: "bytes \<Rightarrow> bincode_error + client_entry list" where
  "decodeClientEntries buffer =
     rbind (readVarintU64AsNumber buffer) (\<lambda>(len, r).
       if len \<ge> 2 ^ 32 then Inl InvalidArrayLength
       else rbind (read_times (nat len) readClientEntry r) (\<lambda>(entries, r').
         if r' \<noteq> [] then Inl TrailingBytes else Inr entries))"

text \<open>The bulk row payload of the native snapshot: an entry followed by its place in the tree.\<close>

record visible_row = client_entry +
  vr_depth :: int
  vr_hasChildren :: bool
  vr_isExpanded :: bool

definition readEnrichedRow :: "(bincode_error, visible_row) decoder" where
  "readEnrichedRow bs =
     rbind (readVarintU64AsNumber bs) (\<lambda>(id, bs).
     rbind (readOption readVarintU64AsNumber bs) (\<lambda>(parentId, bs).
     rbind (readString bs) (\<lambda>(name, bs).
     rbind (readU8 bs) (\<lambda>(kind, bs).
     rbind (readVarintU64AsNumber bs) (\<lambda>(size, bs).
     rbind (readVarintI64AsNumber bs) (\<lambda>(mtimeMs, bs).
     rbind (readVarintI64AsNumber bs) (\<lambda>(ctimeMs, bs).
     rbind (readOption readBool bs) (\<lambda>(symlinkTargetIsDir, bs).
     rbind (readOption (readVec readString) bs) (\<lambda>(pathSegments, bs).
     rbind (readBool bs) (\<lambda>(isIgnored, bs).
     rbind (readBool bs) (\<lambda>(isReadonly, bs).
     rbind (readBool bs) (\<lambda>(isHidden, bs).
     rbind (readVarintU64AsNumber bs) (\<lambda>(depth, bs).
     rbind (readBool bs) (\<lambda>(hasChildren, bs).
     rbind (readBool bs) (\<lambda>(isExpanded, bs).
       Inr (\<lparr> ce_id = id, ce_parentId = parentId, ce_name = name, ce_kind = int kind, ce_size = size,
              ce_mtimeMs = mtimeMs, ce_ctimeMs = ctimeMs, ce_symlinkTargetIsDir = symlinkTargetIsDir,
              ce_pathSegments = pathSegments, ce_isIgnored = isIgnored, ce_isReadonly = isReadonly,
              ce_isHidden = isHidden, vr_depth = depth, vr_hasChildren = hasChildren,
              vr_isExpanded = isExpanded \<rparr>, bs))))))))))))))))"

definition decodeBulkRows :: "bytes \<Rightarrow> bincode_error + visible_row list" where
  "decodeBulkRows buffer =
     rbind (readVarintU64 buffer) (\<lambda>(len, r).
       if len \<ge> 2 ^ 32 then Inl InvalidArrayLength
       else rbind (read_times len readEnrichedRow r) (\<lambda>(rows, r').
         if r' \<noteq> [] then Inl TrailingBytes else Inr rows))"

section \<open>Writer\<close>

record bincode_writer =
  w_bytes :: bytes
  w_pos :: nat

definition new_writer :: bincode_writer where
  "new_writer = \<lparr> w_bytes = replicate 256 0, w_pos = 0 \<rparr>"

text \<open>
  The doubling loop. The code has no guard against a capacity of 0; the buffer starts at 256 bytes
  and only grows, so the guard is never taken.
\<close>

function grow_capacity :: "nat \<Rightarrow> nat \<Rightarrow> nat" where
  "grow_capacity capacity required =
     (if capacity = 0 then required
      else if capacity < required then grow_capacity (capacity * 2) required else capacity)"
  by pat_completeness auto
termination
  by (relation "measure (\<lambda>(c, r). r - c)") auto

declare grow_capacity.simps [simp del]

definition ensure :: "nat \<Rightarrow> bincode_writer \<Rightarrow> bincode_writer" where
  "ensure len w =
     (let required = w_pos w + len in
      if required \<le> length (w_bytes w) then w
      else let capacity = grow_capacity (length (w_bytes w)) required
           in w\<lparr> w_bytes := w_bytes w @ replicate (capacity - length (w_bytes w)) 0 \<rparr>)"

text \<open>Store bytes at the write position and advance it.\<close>

definition put :: "bytes \<Rightarrow> bincode_writer \<Rightarrow> bincode_writer" where
  "put bs w = w\<lparr> w_bytes := take (w_pos w) (w_bytes w) @ bs @ drop (w_pos w + length bs) (w_bytes w),
                 w_pos := w_pos w + length bs \<rparr>"

definition writeU8 :: "int \<Rightarrow> bincode_writer \<Rightarrow> bincode_writer" where
  "writeU8 v w = put [of_int v] (ensure 1 w)"

definition writeBool :: "bool \<Rightarrow> bincode_writer \<Rightarrow> bincode_writer" where
  "writeBool b w = writeU8 (if b then 1 else 0) w"

definition writeVarintU64 :: "int \<Rightarrow> bincode_writer \<Rightarrow> bincode_error + bincode_writer" where
  "writeVarintU64 v w =
     (if v > MAX_SAFE \<or> v < - MAX_SAFE \<or> v < 0 then Inl NumberRange
      else if v < 251 then Inr (writeU8 v w)
      else if v \<le> 0xFFFF then Inr (put (251 # le_bytes 2 (nat v)) (ensure 3 w))
      else if v \<le> 0xFFFFFFFF then Inr (put (252 # le_bytes 4 (nat v)) (ensure 5 w))
      else Inr (put (253 # le_bytes 8 (nat v)) (ensure 9 w)))"

definition writeVarintI64 :: "int \<Rightarrow> bincode_writer \<Rightarrow> bincode_error + bincode_writer" where
  "writeVarintI64 v w =
     (if v > MAX_SAFE \<or> v < - MAX_SAFE then Inl NumberRange
      else let zigzag = (if v \<ge> 0 then v * 2 else - v * 2 - 1) in
        if zigzag < 251 then Inr (writeU8 zigzag w)
        else if zigzag \<le> 0xFFFF then Inr (put (251 # le_bytes 2 (nat zigzag)) (ensure 3 w))
        else if zigzag \<le> 0xFFFFFFFF then Inr (put (252 # le_bytes 4 (nat zigzag)) (ensure 5 w))
        else Inr (put (253 # le_bytes 8 (nat zigzag)) (ensure 9 w)))"

definition writeString :: "jstring \<Rightarrow> bincode_writer \<Rightarrow> bincode_error + bincode_writer" where
  "writeString s w =
     (let encoded = text_encode s in
      rbind (writeVarintU64 (int (length encoded)) w) (\<lambda>w.
        Inr (put encoded (ensure (length encoded) w))))"

definition writeOption ::
  "('a \<Rightarrow> bincode_writer \<Rightarrow> bincode_error + bincode_writer) \<Rightarrow> 'a option \<Rightarrow> bincode_writer
   \<Rightarrow> bincode_error + bincode_writer" where
  "writeOption writeSome v w =
     (case v of None \<Rightarrow> Inr (writeU8 0 w) | Some x \<Rightarrow> writeSome x (writeU8 1 w))"

fun write_all ::
  "('a \<Rightarrow> bincode_writer \<Rightarrow> bincode_error + bincode_writer) \<Rightarrow> 'a list \<Rightarrow> bincode_writer
   \<Rightarrow> bincode_error + bincode_writer" where
  "write_all f [] w = Inr w"
| "write_all f (x # xs) w = rbind (f x w) (\<lambda>w. write_all f xs w)"

definition writeSegments :: "jstring list \<Rightarrow> bincode_writer \<Rightarrow> bincode_error + bincode_writer" where
  "writeSegments segs w =
     rbind (writeVarintU64 (int (length segs)) w) (\<lambda>w. write_all writeString segs w)"

definition writeClientEntry :: "client_entry \<Rightarrow> bincode_writer \<Rightarrow> bincode_error + bincode_writer" where
  "writeClientEntry e w =
     rbind (writeVarintU64 (ce_id e) w) (\<lambda>w.
     rbind (writeOption writeVarintU64 (ce_parentId e) w) (\<lambda>w.
     rbind (writeString (ce_name e) w) (\<lambda>w.
     rbind (writeVarintU64 (ce_size e) (writeU8 (ce_kind e) w)) (\<lambda>w.
     rbind (writeVarintI64 (ce_mtimeMs e) w) (\<lambda>w.
     rbind (writeVarintI64 (ce_ctimeMs e) w) (\<lambda>w.
     rbind (writeOption (\<lambda>b w. Inr (writeBool b w)) (ce_symlinkTargetIsDir e) w) (\<lambda>w.
     rbind (writeOption writeSegments (ce_pathSegments e) w) (\<lambda>w.
       Inr (writeBool (ce_isHidden e)
             (writeBool (ce_isReadonly e) (writeBool (ce_isIgnored e) w)))))))))))"

definition finish :: "bincode_writer \<Rightarrow> bytes" where
  "finish w = take (w_pos w) (w_bytes w)"

definition encodeClientEntries :: "client_entry list \<Rightarrow> bincode_error + bytes" where
  "encodeClientEntries entries =
     rbind (writeVarintU64 (int (length entries)) new_writer) (\<lambda>w.
     rbind (write_all writeClientEntry entries w) (\<lambda>w. Inr (finish w)))"

section \<open>The format\<close>

definition enc_u64 :: "nat \<Rightarrow> bytes" where
  "enc_u64 v =
     (if v < 251 then [of_nat v]
      else if v \<le> 0xFFFF then 251 # le_bytes 2 v
      else if v \<le> 0xFFFFFFFF then 252 # le_bytes 4 v
      else 253 # le_bytes 8 v)"

definition zigzag :: "int \<Rightarrow> nat" where
  "zigzag v = nat (if v \<ge> 0 then v * 2 else - v * 2 - 1)"

definition enc_bool :: "bool \<Rightarrow> bytes" where
  "enc_bool b = [if b then 1 else 0]"

definition enc_option :: "('a \<Rightarrow> bytes) \<Rightarrow> 'a option \<Rightarrow> bytes" where
  "enc_option enc v = (case v of None \<Rightarrow> [0] | Some x \<Rightarrow> 1 # enc x)"

definition enc_vec :: "('a \<Rightarrow> bytes) \<Rightarrow> 'a list \<Rightarrow> bytes" where
  "enc_vec enc xs = enc_u64 (length xs) @ concat (map enc xs)"

definition enc_string :: "jstring \<Rightarrow> bytes" where
  "enc_string s = enc_u64 (length (text_encode s)) @ text_encode s"

definition enc_entry :: "('x) client_entry_scheme \<Rightarrow> bytes" where
  "enc_entry e =
     enc_u64 (nat (ce_id e)) @ enc_option (\<lambda>i. enc_u64 (nat i)) (ce_parentId e)
     @ enc_string (ce_name e) @ [of_int (ce_kind e)] @ enc_u64 (nat (ce_size e))
     @ enc_u64 (zigzag (ce_mtimeMs e)) @ enc_u64 (zigzag (ce_ctimeMs e))
     @ enc_option enc_bool (ce_symlinkTargetIsDir e)
     @ enc_option (enc_vec enc_string) (ce_pathSegments e)
     @ enc_bool (ce_isIgnored e) @ enc_bool (ce_isReadonly e) @ enc_bool (ce_isHidden e)"

definition enc_row :: "visible_row \<Rightarrow> bytes" where
  "enc_row r = enc_entry r @ enc_u64 (nat (vr_depth r))
     @ enc_bool (vr_hasChildren r) @ enc_bool (vr_isExpanded r)"

definition safe_nat :: "int \<Rightarrow> bool" where
  "safe_nat i \<longleftrightarrow> 0 \<le> i \<and> i \<le> MAX_SAFE"

definition safe_int :: "int \<Rightarrow> bool" where
  "safe_int i \<longleftrightarrow> - MAX_SAFE \<le> i \<and> i \<le> MAX_SAFE"

text \<open>
  The strings the codec preserves: no lone surrogate, no leading byte-order mark, and an encoded
  length that is a safe integer.
\<close>

definition safe_string :: "jstring \<Rightarrow> bool" where
  "safe_string s \<longleftrightarrow> text_safe s \<and> int (length (text_encode s)) \<le> MAX_SAFE"

definition safe_entry :: "('x) client_entry_scheme \<Rightarrow> bool" where
  "safe_entry e \<longleftrightarrow>
     safe_nat (ce_id e) \<and> pred_option safe_nat (ce_parentId e) \<and> safe_string (ce_name e)
     \<and> 0 \<le> ce_kind e \<and> ce_kind e \<le> 255 \<and> safe_nat (ce_size e)
     \<and> safe_int (ce_mtimeMs e) \<and> safe_int (ce_ctimeMs e)
     \<and> pred_option (\<lambda>segs. length segs < 2 ^ 32 \<and> list_all safe_string segs) (ce_pathSegments e)"

section \<open>The reader meets the codec contract\<close>

lemma local_readU8: "local_decoder readU8"
  by (auto simp: local_decoder_def readU8_def split: list.splits)

lemma local_readBool: "local_decoder readBool"
  unfolding readBool_def by (intro local_rbind local_readU8 local_if local_return local_throw)

lemma local_readUint: "local_decoder (readUint n)"
  unfolding readUint_def by (intro local_rbind local_read_bytes local_return)

lemma local_readVarintU64: "local_decoder readVarintU64"
  unfolding readVarintU64_def
  by (intro local_rbind local_readU8 local_if local_return local_throw local_readUint)

lemma local_readVarintI64: "local_decoder readVarintI64"
  unfolding readVarintI64_def by (intro local_rbind local_readVarintU64 local_return)

lemma local_readVarintU64AsNumber: "local_decoder readVarintU64AsNumber"
  unfolding readVarintU64AsNumber_def
  by (intro local_rbind local_readVarintU64 local_if local_return local_throw)

lemma local_readVarintI64AsNumber: "local_decoder readVarintI64AsNumber"
  unfolding readVarintI64AsNumber_def
  by (intro local_rbind local_readVarintI64 local_if local_return local_throw)

lemma local_readString: "local_decoder readString"
  unfolding readString_def
  by (intro local_rbind local_readVarintU64 local_read_bytes local_return)

lemma local_readOption: "local_decoder d \<Longrightarrow> local_decoder (readOption d)"
  unfolding readOption_def by (intro local_rbind local_readU8 local_if local_return local_throw)

lemma local_readVec: "local_decoder d \<Longrightarrow> local_decoder (readVec d)"
  unfolding readVec_def
  by (intro local_rbind local_readVarintU64 local_if local_throw local_read_times)

lemmas local_readers = local_readU8 local_readBool local_readVarintU64AsNumber
  local_readVarintI64AsNumber local_readString local_readOption local_readVec

lemma local_readClientEntry: "local_decoder readClientEntry"
  unfolding readClientEntry_def by (intro local_rbind local_readers local_return)

lemma local_readEnrichedRow: "local_decoder readEnrichedRow"
  unfolding readEnrichedRow_def by (intro local_rbind local_readers local_return)

lemma readU8_byte [codec_simps]: "readU8 (b # r) = Inr (unat b, r)"
  by (simp add: readU8_def)

interpretation u64: wire_codec enc_u64 readVarintU64 "\<lambda>v. v < 2 ^ 64"
proof
  show "readVarintU64 (enc_u64 v @ r) = Inr (v, r)" if "v < 2 ^ 64" for v r
    using that
    by (auto simp: enc_u64_def readVarintU64_def readU8_byte readUint_def read_bytes_append)
qed (rule local_readVarintU64)

lemma zigzag_decode: "drop_bit 1 (int (zigzag v)) XOR (- (int (zigzag v) AND 1)) = v"
proof (cases "v \<ge> 0")
  case True
  then show ?thesis by (simp add: zigzag_def drop_bit_eq_div and_one_eq)
next
  case False
  then have "int (zigzag v) = 2 * (- v - 1) + 1" by (simp add: zigzag_def)
  then have "drop_bit 1 (int (zigzag v)) = - v - 1" "int (zigzag v) AND 1 = 1"
    unfolding and_one_eq by (simp add: drop_bit_eq_div, presburger)
  then show ?thesis by (simp add: not_eq_complement)
qed

interpretation num: wire_codec "\<lambda>i. enc_u64 (nat i)" readVarintU64AsNumber safe_nat
proof
  show "readVarintU64AsNumber (enc_u64 (nat i) @ r) = Inr (i, r)" if "safe_nat i" for i r
  proof -
    have "nat i < 2 ^ 64" using that by (auto simp: safe_nat_def MAX_SAFE_def nat_less_iff)
    from u64.dec_enc [OF this] that show ?thesis
      by (simp add: readVarintU64AsNumber_def safe_nat_def)
  qed
qed (rule local_readVarintU64AsNumber)

interpretation inum: wire_codec "\<lambda>i. enc_u64 (zigzag i)" readVarintI64AsNumber safe_int
proof
  show "readVarintI64AsNumber (enc_u64 (zigzag i) @ r) = Inr (i, r)" if "safe_int i" for i r
  proof -
    have "zigzag i < 2 ^ 64" using that by (auto simp: zigzag_def safe_int_def MAX_SAFE_def)
    from u64.dec_enc [OF this] that show ?thesis
      unfolding readVarintI64AsNumber_def readVarintI64_def
      by (simp add: zigzag_decode [unfolded One_nat_def] safe_int_def)
  qed
qed (rule local_readVarintI64AsNumber)

interpretation boolc: wire_codec enc_bool readBool "\<lambda>_. True"
proof
  show "readBool (enc_bool b @ r) = Inr (b, r)" for b r
    by (simp add: enc_bool_def readBool_def readU8_byte)
qed (rule local_readBool)

interpretation str: wire_codec enc_string readString safe_string
proof
  show "readString (enc_string s @ r) = Inr (s, r)" if "safe_string s" for s r
    using that
    by (simp add: readString_def enc_string_def u64.dec_enc read_bytes_append text_roundtrip
          safe_string_def MAX_SAFE_def)
qed (rule local_readString)

text \<open>Options and vectors of a codec are codecs.\<close>

lemma wire_codec_option:
  assumes "wire_codec enc dec valid"
  shows "wire_codec (enc_option enc) (readOption dec) (pred_option valid)"
proof
  show "readOption dec (enc_option enc v @ r) = Inr (v, r)" if "pred_option valid v" for v r
    using that wire_codec.dec_enc [OF assms]
    by (cases v) (simp_all add: readOption_def enc_option_def readU8_byte)
  show "local_decoder (readOption dec)"
    by (rule local_readOption [OF wire_codec.dec_local [OF assms]])
qed

lemma wire_codec_vec:
  assumes "wire_codec enc dec valid"
  shows "wire_codec (enc_vec enc) (readVec dec) (\<lambda>xs. length xs < 2 ^ 32 \<and> list_all valid xs)"
proof
  show "readVec dec (enc_vec enc xs @ r) = Inr (xs, r)"
    if "length xs < 2 ^ 32 \<and> list_all valid xs" for xs r
    using that wire_codec.dec_enc_all [OF assms]
    by (simp add: readVec_def enc_vec_def u64.dec_enc)
  show "local_decoder (readVec dec)"
    by (rule local_readVec [OF wire_codec.dec_local [OF assms]])
qed

interpretation pid: wire_codec "enc_option (\<lambda>i. enc_u64 (nat i))" "readOption readVarintU64AsNumber"
    "pred_option safe_nat"
  by (rule wire_codec_option) (rule num.wire_codec_axioms)

interpretation bopt: wire_codec "enc_option enc_bool" "readOption readBool" "pred_option (\<lambda>_. True)"
  by (rule wire_codec_option) (rule boolc.wire_codec_axioms)

interpretation segs: wire_codec "enc_option (enc_vec enc_string)" "readOption (readVec readString)"
    "pred_option (\<lambda>xs. length xs < 2 ^ 32 \<and> list_all safe_string xs)"
  by (rule wire_codec_option wire_codec_vec str.wire_codec_axioms)+

lemmas field_codecs = num.dec_enc inum.dec_enc boolc.dec_enc str.dec_enc pid.dec_enc bopt.dec_enc
  segs.dec_enc

lemma pred_option_True [simp]: "pred_option (\<lambda>_. True) v"
  by (cases v) simp_all

lemma kind_byte: "0 \<le> k \<Longrightarrow> k \<le> 255 \<Longrightarrow> uint (of_int k :: byte) = k"
  by (simp add: uint_word_of_int_eq take_bit_int_eq_self)

interpretation entry: wire_codec enc_entry readClientEntry safe_entry
proof
  show "readClientEntry (enc_entry e @ r) = Inr (e, r)" if "safe_entry e" for e r
    using that
    by (simp add: safe_entry_def readClientEntry_def enc_entry_def field_codecs readU8_byte kind_byte)
qed (rule local_readClientEntry)

interpretation row: wire_codec enc_row readEnrichedRow "\<lambda>r. safe_entry r \<and> safe_nat (vr_depth r)"
proof
  show "readEnrichedRow (enc_row e @ r) = Inr (e, r)" if "safe_entry e \<and> safe_nat (vr_depth e)" for e r
    using that
    by (simp add: safe_entry_def readEnrichedRow_def enc_row_def enc_entry_def field_codecs
          readU8_byte kind_byte)
qed (rule local_readEnrichedRow)

section \<open>The writer appends exactly the format\<close>

definition writer_wf :: "bincode_writer \<Rightarrow> bool" where
  "writer_wf w \<longleftrightarrow> 0 < length (w_bytes w) \<and> w_pos w \<le> length (w_bytes w)"

lemma writer_wf_new: "writer_wf new_writer"
  by (simp add: writer_wf_def new_writer_def)

lemma grow_capacity_bounds: "0 < c \<Longrightarrow> c \<le> grow_capacity c r \<and> r \<le> grow_capacity c r"
proof (induction c r rule: grow_capacity.induct)
  case (1 c r)
  then show ?case by (subst (1 2) grow_capacity.simps) auto
qed

lemma ensure_room:
  assumes "writer_wf w"
  shows "writer_wf (ensure n w)" "w_pos (ensure n w) = w_pos w" "finish (ensure n w) = finish w"
    "w_pos w + n \<le> length (w_bytes (ensure n w))"
  using assms grow_capacity_bounds [of "length (w_bytes w)" "w_pos w + n"]
  by (auto simp: ensure_def writer_wf_def finish_def Let_def)

lemma put_ensure:
  assumes "writer_wf w" "n = length bs"
  shows "writer_wf (put bs (ensure n w))" "finish (put bs (ensure n w)) = finish w @ bs"
  using ensure_room [OF assms(1), of n] assms
  by (auto simp: put_def writer_wf_def finish_def)

text \<open>A step that appends given bytes, and one that throws.\<close>

definition writes :: "(bincode_writer \<Rightarrow> bincode_error + bincode_writer) \<Rightarrow> bytes \<Rightarrow> bool" where
  "writes f bs \<longleftrightarrow>
     (\<forall>w. writer_wf w \<longrightarrow> (\<exists>w'. f w = Inr w' \<and> writer_wf w' \<and> finish w' = finish w @ bs))"

definition fails :: "(bincode_writer \<Rightarrow> bincode_error + bincode_writer) \<Rightarrow> bool" where
  "fails f \<longleftrightarrow> (\<forall>w. writer_wf w \<longrightarrow> f w = Inl NumberRange)"

lemma writes_put: "n = length bs \<Longrightarrow> writes (\<lambda>w. Inr (put bs (ensure n w))) bs"
  by (simp add: writes_def put_ensure)

lemma writes_return: "writes Inr []"
  by (simp add: writes_def)

lemma writes_rbind: "writes f a \<Longrightarrow> writes g b \<Longrightarrow> writes (\<lambda>w. rbind (f w) g) (a @ b)"
  by (fastforce simp: writes_def)

lemma fails_rbind1: "fails f \<Longrightarrow> fails (\<lambda>w. rbind (f w) g)"
  by (simp add: fails_def)

lemma fails_rbind2: "writes f a \<Longrightarrow> fails g \<Longrightarrow> fails (\<lambda>w. rbind (f w) g)"
  by (fastforce simp: fails_def writes_def)

text \<open>The contract of a writer method: it appends the encoding of what it accepts, else it throws.\<close>

locale wire_writer =
  fixes wr :: "'a \<Rightarrow> bincode_writer \<Rightarrow> bincode_error + bincode_writer"
    and enc :: "'a \<Rightarrow> bytes"
    and ok :: "'a \<Rightarrow> bool"
  assumes wr_ok: "ok x \<Longrightarrow> writes (wr x) (enc x)"
    and wr_bad: "\<not> ok x \<Longrightarrow> fails (wr x)"
begin

lemma write_all_ok: "list_all ok xs \<Longrightarrow> writes (write_all wr xs) (concat (map enc xs))"
proof (induction xs)
  case Nil
  then show ?case by (simp add: writes_def)
next
  case (Cons x xs)
  then show ?case using writes_rbind [OF wr_ok, of x "write_all wr xs"] by (simp add: writes_def)
qed

lemma write_all_bad: "\<not> list_all ok xs \<Longrightarrow> fails (write_all wr xs)"
proof (induction xs)
  case (Cons x xs)
  show ?case
  proof (cases "ok x")
    case True
    with Cons have "fails (write_all wr xs)" by simp
    with fails_rbind2 [OF wr_ok [OF True]] show ?thesis by (simp add: fails_def)
  next
    case False
    then show ?thesis using fails_rbind1 [OF wr_bad] by (simp add: fails_def)
  qed
qed simp

end

lemma writes_writeU8: "writes (\<lambda>w. Inr (writeU8 v w)) [of_int v]"
  by (simp add: writeU8_def writes_def put_ensure)

lemma writes_writeBool: "writes (\<lambda>w. Inr (writeBool b w)) (enc_bool b)"
  using writes_writeU8 [of "if b then 1 else 0"] by (auto simp: writeBool_def enc_bool_def)

lemma of_int_byte: "0 \<le> v \<Longrightarrow> of_nat (nat v) = (of_int v :: byte)"
  by (metis nat_0_le of_int_of_nat_eq)

lemma writes_varint:
  assumes "0 \<le> v"
  shows "writes (\<lambda>w.
      if v < 251 then Inr (writeU8 v w)
      else if v \<le> 0xFFFF then Inr (put (251 # le_bytes 2 (nat v)) (ensure 3 w))
      else if v \<le> 0xFFFFFFFF then Inr (put (252 # le_bytes 4 (nat v)) (ensure 5 w))
      else Inr (put (253 # le_bytes 8 (nat v)) (ensure 9 w))) (enc_u64 (nat v))"
  using assms writes_writeU8 [of v] of_int_byte [OF assms]
  by (auto simp: enc_u64_def writes_put nat_less_iff nat_le_iff)

interpretation wnum: wire_writer writeVarintU64 "\<lambda>i. enc_u64 (nat i)" safe_nat
proof
  show "writes (writeVarintU64 i) (enc_u64 (nat i))" if "safe_nat i" for i
    using writes_varint [of i] that by (simp add: writeVarintU64_def [abs_def] safe_nat_def MAX_SAFE_def)
  show "fails (writeVarintU64 i)" if "\<not> safe_nat i" for i
    using that by (auto simp: fails_def writeVarintU64_def safe_nat_def)
qed

interpretation winum: wire_writer writeVarintI64 "\<lambda>i. enc_u64 (zigzag i)" safe_int
proof
  show "writes (writeVarintI64 i) (enc_u64 (zigzag i))" if "safe_int i" for i
    using writes_varint [of "if i \<ge> 0 then i * 2 else - i * 2 - 1"] that
    by (auto simp: writeVarintI64_def [abs_def] zigzag_def safe_int_def Let_def MAX_SAFE_def)
  show "fails (writeVarintI64 i)" if "\<not> safe_int i" for i
    using that by (auto simp: fails_def writeVarintI64_def safe_int_def)
qed

abbreviation fits :: "jstring \<Rightarrow> bool" where
  "fits s \<equiv> safe_nat (int (length (text_encode s)))"

interpretation wstr: wire_writer writeString enc_string fits
proof
  show "writes (writeString s) (enc_string s)" if "fits s" for s
    using writes_rbind [OF wnum.wr_ok [OF that] writes_put [OF refl, of "text_encode s"]]
    by (simp add: writeString_def [abs_def] enc_string_def Let_def)
  show "fails (writeString s)" if "\<not> fits s" for s
    using fails_rbind1 [OF wnum.wr_bad [OF that]] by (simp add: writeString_def [abs_def] Let_def)
qed

lemma wire_writer_option:
  assumes "wire_writer wr enc ok"
  shows "wire_writer (writeOption wr) (enc_option enc) (pred_option ok)"
proof
  show "writes (writeOption wr v) (enc_option enc v)" if "pred_option ok v" for v
  proof (cases v)
    case None
    then show ?thesis
      using writes_writeU8 [of 0] by (simp add: writeOption_def [abs_def] enc_option_def)
  next
    case (Some x)
    with that wire_writer.wr_ok [OF assms, of x] writes_rbind [OF writes_writeU8 [of 1]]
    show ?thesis by (fastforce simp: writeOption_def [abs_def] enc_option_def)
  qed
  show "fails (writeOption wr v)" if "\<not> pred_option ok v" for v
    using that wire_writer.wr_bad [OF assms] fails_rbind2 [OF writes_writeU8 [of 1]]
    by (cases v) (fastforce simp: writeOption_def [abs_def])+
qed

interpretation wsegs: wire_writer writeSegments "enc_vec enc_string"
    "\<lambda>xs. safe_nat (int (length xs)) \<and> list_all fits xs"
proof
  show "writes (writeSegments xs) (enc_vec enc_string xs)"
    if "safe_nat (int (length xs)) \<and> list_all fits xs" for xs
    using writes_rbind [OF wnum.wr_ok wstr.write_all_ok, of "int (length xs)" xs] that
    by (simp add: writeSegments_def [abs_def] enc_vec_def)
  show "fails (writeSegments xs)" if "\<not> (safe_nat (int (length xs)) \<and> list_all fits xs)" for xs
    using that fails_rbind1 [OF wnum.wr_bad] fails_rbind2 [OF wnum.wr_ok wstr.write_all_bad]
    unfolding writeSegments_def [abs_def] by blast
qed

text \<open>An entry is written field by field: a sequence of steps that each append or throw.\<close>

fun seq :: "(bincode_writer \<Rightarrow> bincode_error + bincode_writer) list \<Rightarrow> bincode_writer
    \<Rightarrow> bincode_error + bincode_writer" where
  "seq [] w = Inr w"
| "seq (f # fs) w = rbind (f w) (seq fs)"

definition step_ok :: "(bincode_writer \<Rightarrow> bincode_error + bincode_writer) \<Rightarrow> bytes \<Rightarrow> bool \<Rightarrow> bool" where
  "step_ok f bs ok \<longleftrightarrow> (if ok then writes f bs else fails f)"

lemma seq_fun: "seq [] = Inr" "seq (f # fs) = (\<lambda>w. rbind (f w) (seq fs))"
  by (rule ext, simp)+

lemma step_seq_Nil: "step_ok (seq []) [] True"
  by (simp add: step_ok_def writes_def)

lemma step_seq_Cons:
  "step_ok f a p \<Longrightarrow> step_ok (seq fs) b q \<Longrightarrow> step_ok (seq (f # fs)) (a @ b) (p \<and> q)"
  using writes_rbind [of f a "seq fs" b] fails_rbind1 [of f "seq fs"] fails_rbind2 [of f a "seq fs"]
  by (cases p; cases q) (simp_all add: step_ok_def writes_def fails_def)

lemma step_writer: "wire_writer wr enc ok \<Longrightarrow> step_ok (wr x) (enc x) (ok x)"
  by (simp add: step_ok_def wire_writer.wr_ok wire_writer.wr_bad)

lemma step_writes: "writes f bs \<Longrightarrow> step_ok f bs True"
  by (simp add: step_ok_def)

lemma rbind_Inr_right [simp]: "rbind r Inr = r"
  by (cases r) simp_all

lemma writeClientEntry_seq:
  "writeClientEntry e = seq
     [writeVarintU64 (ce_id e), writeOption writeVarintU64 (ce_parentId e), writeString (ce_name e),
      \<lambda>w. Inr (writeU8 (ce_kind e) w), writeVarintU64 (ce_size e), writeVarintI64 (ce_mtimeMs e),
      writeVarintI64 (ce_ctimeMs e),
      writeOption (\<lambda>b w. Inr (writeBool b w)) (ce_symlinkTargetIsDir e),
      writeOption writeSegments (ce_pathSegments e), \<lambda>w. Inr (writeBool (ce_isIgnored e) w),
      \<lambda>w. Inr (writeBool (ce_isReadonly e) w), \<lambda>w. Inr (writeBool (ce_isHidden e) w)]"
  by (simp add: writeClientEntry_def [abs_def] seq_fun)

text \<open>What the writer accepts: safe integers. It does not look at the strings' contents.\<close>

definition encodable :: "client_entry \<Rightarrow> bool" where
  "encodable e \<longleftrightarrow>
     safe_nat (ce_id e) \<and> pred_option safe_nat (ce_parentId e) \<and> fits (ce_name e)
     \<and> safe_nat (ce_size e) \<and> safe_int (ce_mtimeMs e) \<and> safe_int (ce_ctimeMs e)
     \<and> pred_option (\<lambda>xs. safe_nat (int (length xs)) \<and> list_all fits xs) (ce_pathSegments e)"

interpretation wbool: wire_writer "\<lambda>b w. Inr (writeBool b w)" enc_bool "\<lambda>_. True"
  by unfold_locales (simp_all add: writes_writeBool)

lemmas entry_steps = step_seq_Cons step_seq_Nil step_writes [OF writes_writeU8]
  step_writes [OF writes_writeBool] step_writer [OF wnum.wire_writer_axioms]
  step_writer [OF winum.wire_writer_axioms] step_writer [OF wstr.wire_writer_axioms]
  step_writer [OF wire_writer_option [OF wnum.wire_writer_axioms]]
  step_writer [OF wire_writer_option [OF wsegs.wire_writer_axioms]]
  step_writer [OF wire_writer_option [OF wbool.wire_writer_axioms]]

lemma step_writeClientEntry: "step_ok (writeClientEntry e) (enc_entry e) (encodable e)"
proof -
  have "step_ok (writeClientEntry e)
    (enc_u64 (nat (ce_id e)) @ enc_option (\<lambda>i. enc_u64 (nat i)) (ce_parentId e)
     @ enc_string (ce_name e) @ [of_int (ce_kind e)] @ enc_u64 (nat (ce_size e))
     @ enc_u64 (zigzag (ce_mtimeMs e)) @ enc_u64 (zigzag (ce_ctimeMs e))
     @ enc_option enc_bool (ce_symlinkTargetIsDir e)
     @ enc_option (enc_vec enc_string) (ce_pathSegments e)
     @ enc_bool (ce_isIgnored e) @ enc_bool (ce_isReadonly e) @ enc_bool (ce_isHidden e) @ [])
    (safe_nat (ce_id e) \<and> pred_option safe_nat (ce_parentId e) \<and> fits (ce_name e) \<and> True
     \<and> safe_nat (ce_size e) \<and> safe_int (ce_mtimeMs e) \<and> safe_int (ce_ctimeMs e)
     \<and> pred_option (\<lambda>_. True) (ce_symlinkTargetIsDir e)
     \<and> pred_option (\<lambda>xs. safe_nat (int (length xs)) \<and> list_all fits xs) (ce_pathSegments e)
     \<and> True \<and> True \<and> True \<and> True)"
    unfolding writeClientEntry_seq by (rule entry_steps)+
  then show ?thesis by (simp add: enc_entry_def encodable_def)
qed

interpretation wentry: wire_writer writeClientEntry enc_entry encodable
  using step_writeClientEntry by unfold_locales (auto simp: step_ok_def split: if_splits)

lemma encodeClientEntries_eq:
  "encodeClientEntries es =
     (if safe_nat (int (length es)) \<and> list_all encodable es then Inr (enc_vec enc_entry es)
      else Inl NumberRange)"
proof -
  let ?f = "\<lambda>w. rbind (writeVarintU64 (int (length es)) w) (write_all writeClientEntry es)"
  have eq: "encodeClientEntries es = rbind (?f new_writer) (\<lambda>w. Inr (finish w))"
    by (cases "writeVarintU64 (int (length es)) new_writer") (simp_all add: encodeClientEntries_def)
  have empty: "finish new_writer = []" by (simp add: finish_def new_writer_def)
  show ?thesis
  proof (cases "safe_nat (int (length es)) \<and> list_all encodable es")
    case True
    then have "writes ?f (enc_vec enc_entry es)"
      using writes_rbind [OF wnum.wr_ok wentry.write_all_ok, of "int (length es)" es]
      by (simp add: enc_vec_def)
    with True empty writer_wf_new show ?thesis by (fastforce simp: eq writes_def)
  next
    case False
    then have "fails ?f"
      using fails_rbind1 [OF wnum.wr_bad] fails_rbind2 [OF wnum.wr_ok wentry.write_all_bad] by blast
    with False writer_wf_new show ?thesis by (simp add: eq fails_def)
  qed
qed

lemma safe_entry_encodable: "safe_entry e \<Longrightarrow> encodable e"
  by (auto simp: safe_entry_def encodable_def safe_string_def safe_nat_def MAX_SAFE_def
        option.pred_set list_all_iff)

section \<open>Whole buffers\<close>

lemma decodeClientEntries_enc:
  assumes "length es < 2 ^ 32" "list_all safe_entry es"
  shows "decodeClientEntries (enc_vec enc_entry es) = Inr es"
proof -
  have "safe_nat (int (length es))" using assms(1) by (simp add: safe_nat_def MAX_SAFE_def)
  from num.dec_enc [OF this, of "concat (map enc_entry es)"]
    entry.dec_enc_all [OF assms(2), of "[]"] assms(1)
  show ?thesis by (simp add: decodeClientEntries_def enc_vec_def)
qed

lemma decodeBulkRows_enc:
  assumes "length rs < 2 ^ 32" "list_all (\<lambda>r. safe_entry r \<and> safe_nat (vr_depth r)) rs"
  shows "decodeBulkRows (enc_vec enc_row rs) = Inr rs"
  using u64.dec_enc [of "length rs" "concat (map enc_row rs)"]
    row.dec_enc_all [OF assms(2), of "[]"] assms(1)
  by (simp add: decodeBulkRows_def enc_vec_def)

text \<open>The entry buffer as one decoder, to reuse the contract's truncation lemma.\<close>

definition entries_decoder :: "(bincode_error, client_entry list) decoder" where
  "entries_decoder bs = rbind (readVarintU64AsNumber bs) (\<lambda>(len, r).
     if len \<ge> 2 ^ 32 then Inl InvalidArrayLength else read_times (nat len) readClientEntry r)"

lemma decodeClientEntries_alt:
  "decodeClientEntries bs = Inr es \<longleftrightarrow> entries_decoder bs = Inr (es, [])"
  by (auto simp: decodeClientEntries_def entries_decoder_def rbind_eq_Inr split: if_splits)

interpretation entries: wire_codec "enc_vec enc_entry" entries_decoder
    "\<lambda>es. length es < 2 ^ 32 \<and> list_all safe_entry es"
proof
  show "entries_decoder (enc_vec enc_entry es @ r) = Inr (es, r)"
    if "length es < 2 ^ 32 \<and> list_all safe_entry es" for es r
  proof -
    have "safe_nat (int (length es))" using that by (simp add: safe_nat_def MAX_SAFE_def)
    from num.dec_enc [OF this] entry.dec_enc_all that show ?thesis
      by (simp add: entries_decoder_def enc_vec_def)
  qed
  show "local_decoder entries_decoder"
    unfolding entries_decoder_def
    by (intro local_rbind local_if local_throw local_read_times local_readVarintU64AsNumber
          local_readClientEntry)
qed

text \<open>A leading byte-order mark does not survive the reader's \<open>TextDecoder\<close>.\<close>

lemma scalars_bom: "scalars (0xFEFF # s) = 0xFEFF # scalars s"
  by (cases s) (simp_all add: high_surrogate_def low_surrogate_def)

lemma readString_bom:
  assumes "well_formed s" "int (length (text_encode (0xFEFF # s))) \<le> MAX_SAFE"
  shows "readString (enc_string (0xFEFF # s) @ r) = Inr (s, r)"
proof -
  have "text_decode (text_encode (0xFEFF # s)) = s"
    using scalars_scalar [of "0xFEFF # s"] assms(1)
    by (simp add: text_decode_def text_encode_def utf8_decode_chars scalars_bom units_of_def
          strip_bom_def units_scalars comp_def utf8_decode_char)
  with assms(2) show ?thesis
    by (simp add: readString_def enc_string_def u64.dec_enc read_bytes_append MAX_SAFE_def)
qed

section \<open>Properties\<close>


definition sample_entry :: client_entry where
  "sample_entry = \<lparr> ce_id = 7, ce_parentId = Some 300, ce_name = js ''a.ts'', ce_kind = 0,
     ce_size = 70000, ce_mtimeMs = -5, ce_ctimeMs = 0, ce_symlinkTargetIsDir = None,
     ce_pathSegments = Some [js ''src''], ce_isIgnored = False, ce_isReadonly = True,
     ce_isHidden = False \<rparr>"

lemma sample_entry_safe: "safe_entry sample_entry"
  by (simp add: sample_entry_def safe_entry_def safe_nat_def safe_int_def safe_string_def
        text_safe_def MAX_SAFE_def js_def high_surrogate_def low_surrogate_def text_encode_def
        utf8_char_def)


text \<open>
  The encoder is total on what it accepts and refuses the rest: it returns a buffer exactly when
  the number of entries and every numeric field of every entry are safe integers of the right sign,
  and otherwise it throws the range error; no other error and no partial buffer is possible.
\<close>

theorem encode_accepts_iff:
  "encodeClientEntries es =
     (if safe_nat (int (length es)) \<and> list_all encodable es then Inr (enc_vec enc_entry es)
      else Inl NumberRange)"
  by (rule encodeClientEntries_eq)

text \<open>
  A truncated entry buffer is always rejected: no proper prefix of an encoded list decodes, so a
  reader never mistakes a cut-off payload for a shorter list.
\<close>

theorem truncated_entries_rejected:
  assumes "length es < 2 ^ 32" and "list_all safe_entry es"
    and "encodeClientEntries es = Inr (p @ s)" and "s \<noteq> []"
  shows "\<exists>e. decodeClientEntries p = Inl e"
proof -
  from assms(3) have "enc_vec enc_entry es = p @ s"
    by (auto simp: encodeClientEntries_eq split: if_splits)
  then have "decodeClientEntries p \<noteq> Inr ys" for ys
    using entries.truncated_not_complete [of es p s ys] assms(1,2,4)
    by (simp add: decodeClientEntries_alt)
  then show ?thesis by (cases "decodeClientEntries p") auto
qed

theorem truncated_entries_rejected_witness:
  "\<exists>p s e. encodeClientEntries [sample_entry] = Inr (p @ s) \<and> s \<noteq> []
     \<and> decodeClientEntries p = Inl e"
proof -
  have "encodeClientEntries [sample_entry] = Inr ([] @ enc_vec enc_entry [sample_entry])"
    using sample_entry_safe
    by (simp add: encodeClientEntries_eq safe_entry_encodable safe_nat_def MAX_SAFE_def)
  moreover have "enc_vec enc_entry [sample_entry] \<noteq> []"
    by (simp add: enc_vec_def enc_u64_def)
  ultimately show ?thesis
    using truncated_entries_rejected [of "[sample_entry]" "[]" "enc_vec enc_entry [sample_entry]"]
      sample_entry_safe by fastforce
qed

text \<open>
  The bulk row decoder reads the bincode format of the native snapshot: for every list of rows
  whose numbers are safe and whose strings are well formed it returns exactly those rows and
  consumes the whole buffer.
\<close>

theorem bulk_rows_decoded:
  assumes "length rs < 2 ^ 32" and "list_all (\<lambda>r. safe_entry r \<and> safe_nat (vr_depth r)) rs"
  shows "decodeBulkRows (enc_vec enc_row rs) = Inr rs"
  using assms by (rule decodeBulkRows_enc)

definition sample_row :: visible_row where
  "sample_row = client_entry.extend sample_entry
     \<lparr> vr_depth = 2, vr_hasChildren = False, vr_isExpanded = True \<rparr>"

theorem bulk_rows_decoded_witness:
  "decodeBulkRows (enc_vec enc_row [sample_row]) = Inr [sample_row]"
proof (rule bulk_rows_decoded)
  show "list_all (\<lambda>r. safe_entry r \<and> safe_nat (vr_depth r)) [sample_row]"
    using sample_entry_safe
    by (simp add: sample_row_def sample_entry_def client_entry.defs safe_entry_def safe_nat_def
          MAX_SAFE_def)
qed simp

text \<open>
  A file name that starts with a byte-order mark (U+FEFF) loses it on the wire: the entry that
  arrives is the entry that was sent with the mark cut off its name, because the reader's
  \<open>TextDecoder\<close> strips it.
\<close>

theorem bom_name_is_stripped:
  assumes "safe_entry (e\<lparr> ce_name := s \<rparr>)"
    and "int (length (text_encode (0xFEFF # s))) \<le> MAX_SAFE"
  shows "\<exists>buffer. encodeClientEntries [e\<lparr> ce_name := 0xFEFF # s \<rparr>] = Inr buffer
     \<and> decodeClientEntries buffer = Inr [e\<lparr> ce_name := s \<rparr>]"
proof -
  let ?e = "e\<lparr> ce_name := 0xFEFF # s \<rparr>"
  have wf: "well_formed s"
    using assms(1) by (simp add: safe_entry_def safe_string_def text_safe_def)
  have "readClientEntry (enc_entry ?e @ []) = Inr (e\<lparr> ce_name := s \<rparr>, [])"
    using assms
    by (simp add: safe_entry_def readClientEntry_def enc_entry_def field_codecs readU8_byte kind_byte
          readString_bom [OF wf] del: append_Nil2)
  moreover have "encodable ?e"
    using safe_entry_encodable [OF assms(1)] assms(2) by (simp add: encodable_def safe_nat_def)
  ultimately show ?thesis
    using num.dec_enc [of 1 "enc_entry ?e"]
    by (simp add: encodeClientEntries_eq decodeClientEntries_def enc_vec_def safe_nat_def MAX_SAFE_def)
qed

theorem bom_name_is_stripped_witness:
  "\<exists>buffer. encodeClientEntries [sample_entry\<lparr> ce_name := 0xFEFF # js ''a'' \<rparr>] = Inr buffer
     \<and> decodeClientEntries buffer = Inr [sample_entry\<lparr> ce_name := js ''a'' \<rparr>]"
proof (rule bom_name_is_stripped)
  show "safe_entry (sample_entry\<lparr> ce_name := js ''a'' \<rparr>)"
    using sample_entry_safe
    by (simp add: safe_entry_def safe_string_def text_safe_def js_def high_surrogate_def
          low_surrogate_def text_encode_def utf8_char_def MAX_SAFE_def)
  show "int (length (text_encode (0xFEFF # js ''a''))) \<le> MAX_SAFE"
    by (simp add: js_def high_surrogate_def low_surrogate_def text_encode_def utf8_char_def
          MAX_SAFE_def)
qed

end
