(* ===== verification/Child_Lists.thy ===== *)
theory Child_Lists
  imports Wire_Bytes
begin

text \<open>
  The packed child-order codec (\<open>packages/mille/src/child-list-codec.ts\<close>): a map from parent id to
  its children in display order, in one buffer of 8-byte aligned records. Ids are stored as
  \<open>float64\<close>, children as \<open>uint32\<close> when all of them fit. The encoder fills a zeroed buffer at
  increasing offsets, the decoder reads at offsets and checks everything it reads.
\<close>

section \<open>Integers as float64\<close>

text \<open>
  \<open>DataView.setFloat64\<close> of an integer in \<open>[0, 2^53)\<close>: exponent \<open>e\<close> with \<open>2^e \<le> n < 2^(e+1)\<close>, and
  the remaining bits left-aligned in the 52-bit fraction.
\<close>

fun top_bit :: "nat \<Rightarrow> nat" where
  "top_bit n = (if n < 2 then 0 else Suc (top_bit (n div 2)))"

declare top_bit.simps [simp del]

definition f64_bits :: "nat \<Rightarrow> nat" where
  "f64_bits n =
     (if n = 0 then 0
      else let e = top_bit n in (1023 + e) * 2 ^ 52 + (n - 2 ^ e) * 2 ^ (52 - e))"

text \<open>
  \<open>DataView.getFloat64\<close> followed by \<open>Number.isSafeInteger\<close>: the integer a bit pattern stands for, or
  \<open>None\<close> for a fraction, an infinity, a NaN or an integer beyond \<open>2^53 - 1\<close>. Negative zero is 0.
\<close>

definition f64_safe_int :: "nat \<Rightarrow> int option" where
  "f64_safe_int w =
     (let s = w div 2 ^ 63; ex = w div 2 ^ 52 mod 2 ^ 11; man = w mod 2 ^ 52
      in if ex = 0 then (if man = 0 then Some 0 else None)
         else if ex > 1075 then None
         else if 2 ^ (1075 - ex) dvd 2 ^ 52 + man
         then Some ((if s = 0 then 1 else -1) * int ((2 ^ 52 + man) div 2 ^ (1075 - ex)))
         else None)"

lemma top_bit_bounds: "0 < n \<Longrightarrow> 2 ^ top_bit n \<le> n \<and> n < 2 ^ Suc (top_bit n)"
proof (induction n rule: top_bit.induct)
  case (1 n)
  show ?case
  proof (cases "n < 2")
    case True
    with 1 show ?thesis by (simp add: top_bit.simps)
  next
    case False
    define p :: nat where "p = 2 ^ top_bit (n div 2)"
    from False "1.IH" have "p \<le> n div 2" "n div 2 < 2 * p" by (auto simp: p_def)
    then have "2 * p \<le> n" "n < 4 * p" by arith+
    with False show ?thesis by (simp add: top_bit.simps [of n] p_def)
  qed
qed

lemma top_bit_le: "0 < n \<Longrightarrow> n < 2 ^ 53 \<Longrightarrow> top_bit n \<le> 52"
proof (rule ccontr)
  assume n: "0 < n" "n < 2 ^ 53" and "\<not> top_bit n \<le> 52"
  then have "(2::nat) ^ 53 \<le> 2 ^ top_bit n" by (intro power_increasing) auto
  with n top_bit_bounds [OF n(1)] show False by linarith
qed

lemma f64_fields:
  fixes E m :: nat
  assumes "E < 2 ^ 11" "m < 2 ^ 52"
  shows "(E * 2 ^ 52 + m) div 2 ^ 63 = 0" "(E * 2 ^ 52 + m) div 2 ^ 52 mod 2 ^ 11 = E"
    "(E * 2 ^ 52 + m) mod 2 ^ 52 = m"
  using assms by simp_all

lemma f64_fraction:
  fixes n e :: nat
  assumes "2 ^ e \<le> n" "n < 2 ^ Suc e" "e \<le> 52"
  shows "(n - 2 ^ e) * 2 ^ (52 - e) < 2 ^ 52"
    and "2 ^ 52 + (n - 2 ^ e) * 2 ^ (52 - e) = n * 2 ^ (52 - e)"
proof -
  have p: "(2::nat) ^ e * 2 ^ (52 - e) = 2 ^ 52"
    using assms(3) by (metis le_add_diff_inverse power_add)
  have "(n - 2 ^ e) * 2 ^ (52 - e) < 2 ^ e * 2 ^ (52 - e)"
    using assms(1,2) by (intro mult_strict_right_mono) auto
  then show "(n - 2 ^ e) * 2 ^ (52 - e) < 2 ^ 52" unfolding p .
  have "2 ^ 52 + (n - 2 ^ e) * 2 ^ (52 - e) = (2 ^ e + (n - 2 ^ e)) * 2 ^ (52 - e)"
    unfolding p [symmetric] by (simp only: distrib_right)
  with assms(1) show "2 ^ 52 + (n - 2 ^ e) * 2 ^ (52 - e) = n * 2 ^ (52 - e)" by simp
qed

lemma f64_roundtrip:
  assumes "n < 2 ^ 53"
  shows "f64_safe_int (f64_bits n) = Some (int n)"
proof (cases "n = 0")
  case True
  then show ?thesis by (simp add: f64_bits_def f64_safe_int_def)
next
  case False
  define e where "e = top_bit n"
  define m where "m = (n - 2 ^ e) * 2 ^ (52 - e)"
  from False assms have e: "2 ^ e \<le> n" "n < 2 ^ Suc e" "e \<le> 52"
    using top_bit_bounds [of n] top_bit_le [of n] by (auto simp: e_def)
  note fr = f64_fraction [OF e, folded m_def]
  have bits: "f64_bits n = (1023 + e) * 2 ^ 52 + m"
    using False by (simp add: f64_bits_def e_def m_def Let_def)
  have E: "1023 + e < 2 ^ 11" using e(3) by simp
  have k: "1075 - (1023 + e) = 52 - e" by simp
  show ?thesis
    unfolding f64_safe_int_def bits f64_fields [OF E fr(1)] Let_def k fr(2)
    using e(3) by simp
qed

lemma f64_bits_less: "n < 2 ^ 53 \<Longrightarrow> f64_bits n < 256 ^ 8"
proof (cases "n = 0")
  case False
  assume n: "n < 2 ^ 53"
  define e where "e = top_bit n"
  from False n have e: "2 ^ e \<le> n" "n < 2 ^ Suc e" "e \<le> 52"
    using top_bit_bounds [of n] top_bit_le [of n] by (auto simp: e_def)
  have "(1023 + e) * 2 ^ 52 + (n - 2 ^ e) * 2 ^ (52 - e) < (1023 + e) * 2 ^ 52 + 2 ^ 52"
    using f64_fraction(1) [OF e] by linarith
  also have "\<dots> \<le> 1076 * 2 ^ 52" using e(3) by simp
  finally show ?thesis using False by (simp add: f64_bits_def e_def [symmetric] Let_def)
qed (simp add: f64_bits_def)

lemma f64_magnitude:
  fixes m k :: nat
  assumes "m < 2 ^ 52"
  shows "int ((2 ^ 52 + m) div 2 ^ k) < 2 ^ 53"
proof -
  have "(2 ^ 52 + m) div 2 ^ k \<le> 2 ^ 52 + m" by (rule div_le_dividend)
  also have "\<dots> < 2 ^ 53" using assms by simp
  finally show ?thesis by (metis of_nat_less_iff of_nat_numeral of_nat_power)
qed

lemma f64_safe_bounds:
  assumes "f64_safe_int w = Some i"
  shows "\<bar>i\<bar> < 2 ^ 53"
proof -
  define man where "man = w mod 2 ^ 52"
  define ex where "ex = w div 2 ^ 52 mod 2 ^ 11"
  have "int ((2 ^ 52 + man) div 2 ^ (1075 - ex)) < 2 ^ 53"
    by (rule f64_magnitude) (simp add: man_def)
  with assms show ?thesis
    unfolding f64_safe_int_def Let_def man_def [symmetric] ex_def [symmetric]
    by (auto split: if_splits)
qed

section \<open>Encoder\<close>

datatype child_list_error =
    IdRange | TruncatedHeader | InvalidMagic | TruncatedRecord nat | InvalidParentId
  | InvalidWidth nat | TruncatedChildren | InvalidChildId | DuplicateParent | TrailingChildBytes

definition MAGIC :: nat where
  "MAGIC = 0x314c434d"

definition HEADER_BYTES :: nat where
  "HEADER_BYTES = 8"

definition RECORD_HEADER_BYTES :: nat where
  "RECORD_HEADER_BYTES = 16"

definition MAX_UINT32 :: int where
  "MAX_UINT32 = 0xffffffff"

definition is_id :: "int \<Rightarrow> bool" where
  "is_id v \<longleftrightarrow> \<bar>v\<bar> < 2 ^ 53 \<and> 0 \<le> v"

definition assertId :: "int \<Rightarrow> child_list_error + unit" where
  "assertId v = (if \<not> is_id v then Inl IdRange else Inr ())"

definition align8 :: "nat \<Rightarrow> nat" where
  "align8 v = (v + 7) div 8 * 8"

type_synonym child_record = "int \<times> int list \<times> nat"

text \<open>The first pass: check every id, choose the width of each record, add up the length.\<close>

fun child_width :: "int list \<Rightarrow> nat \<Rightarrow> child_list_error + nat" where
  "child_width [] width = Inr width"
| "child_width (cid # ids) width =
     rbind (assertId cid) (\<lambda>_. child_width ids (if cid > MAX_UINT32 then 8 else width))"

fun plan_records :: "(int, int list) jmap \<Rightarrow> nat \<Rightarrow> child_list_error + (child_record list \<times> nat)" where
  "plan_records [] byteLength = Inr ([], byteLength)"
| "plan_records ((parentId, ids) # ls) byteLength =
     rbind (assertId parentId) (\<lambda>_.
     rbind (child_width ids 4) (\<lambda>width.
     rbind (plan_records ls (byteLength + align8 (RECORD_HEADER_BYTES + length ids * width)))
       (\<lambda>(records, total). Inr ((parentId, ids, width) # records, total))))"

text \<open>The second pass: \<open>DataView\<close> setters at increasing offsets.\<close>

definition set_at :: "nat \<Rightarrow> bytes \<Rightarrow> bytes \<Rightarrow> bytes" where
  "set_at off bs buf = take off buf @ bs @ drop (off + length bs) buf"

definition setFloat64 :: "nat \<Rightarrow> int \<Rightarrow> bytes \<Rightarrow> bytes" where
  "setFloat64 off v buf = set_at off (le_bytes 8 (f64_bits (nat v))) buf"

definition setUint32 :: "nat \<Rightarrow> nat \<Rightarrow> bytes \<Rightarrow> bytes" where
  "setUint32 off v buf = set_at off (le_bytes 4 v) buf"

fun put_ids :: "nat \<Rightarrow> int list \<Rightarrow> nat \<Rightarrow> bytes \<Rightarrow> bytes" where
  "put_ids width [] off buf = buf"
| "put_ids width (cid # ids) off buf =
     put_ids width ids (off + width)
       (if width = 4 then setUint32 off (nat cid) buf else setFloat64 off cid buf)"

fun put_records :: "child_record list \<Rightarrow> nat \<Rightarrow> bytes \<Rightarrow> bytes" where
  "put_records [] off buf = buf"
| "put_records ((parentId, ids, width) # records) off buf =
     put_records records (off + align8 (RECORD_HEADER_BYTES + length ids * width))
       (put_ids width ids (off + RECORD_HEADER_BYTES)
         (set_at (off + 12) [of_nat width]
           (setUint32 (off + 8) (length ids) (setFloat64 off parentId buf))))"

definition encodeChildLists :: "(int, int list) jmap \<Rightarrow> child_list_error + bytes" where
  "encodeChildLists ls =
     rbind (plan_records ls HEADER_BYTES) (\<lambda>(records, byteLength).
       Inr (put_records records HEADER_BYTES
         (setUint32 4 (length records) (setUint32 0 MAGIC (replicate byteLength 0)))))"

section \<open>Decoder\<close>

definition getUint32 :: "bytes \<Rightarrow> nat \<Rightarrow> nat" where
  "getUint32 buf off = le_value (take 4 (drop off buf))"

definition getFloat64 :: "bytes \<Rightarrow> nat \<Rightarrow> int option" where
  "getFloat64 buf off = f64_safe_int (le_value (take 8 (drop off buf)))"

definition getUint8 :: "bytes \<Rightarrow> nat \<Rightarrow> nat" where
  "getUint8 buf off = le_value (take 1 (drop off buf))"

text \<open>The typed-array views: 32-bit ids as they are, 64-bit ones checked.\<close>

definition uint32_view :: "bytes \<Rightarrow> nat \<Rightarrow> nat \<Rightarrow> int list" where
  "uint32_view buf off n = map (\<lambda>i. int (getUint32 buf (off + 4 * i))) [0..<n]"

fun float64_view :: "bytes \<Rightarrow> nat \<Rightarrow> nat \<Rightarrow> child_list_error + int list" where
  "float64_view buf off 0 = Inr []"
| "float64_view buf off (Suc n) =
     (case getFloat64 buf off of
        None \<Rightarrow> Inl InvalidChildId
      | Some cid \<Rightarrow> if cid < 0 then Inl InvalidChildId
          else rbind (float64_view buf (off + 8) n) (\<lambda>ids. Inr (cid # ids)))"

fun decode_records ::
  "bytes \<Rightarrow> nat \<Rightarrow> nat \<Rightarrow> nat \<Rightarrow> (int, int list) jmap \<Rightarrow> child_list_error + ((int, int list) jmap \<times> nat)"
where
  "decode_records buf index 0 offset ls = Inr (ls, offset)"
| "decode_records buf index (Suc left) offset ls =
     (if offset + RECORD_HEADER_BYTES > length buf then Inl (TruncatedRecord index)
      else case getFloat64 buf offset of
        None \<Rightarrow> Inl InvalidParentId
      | Some parentId \<Rightarrow>
        if parentId < 0 then Inl InvalidParentId
        else let n = getUint32 buf (offset + 8);
                 width = getUint8 buf (offset + 12);
                 nextOffset = offset + align8 (RECORD_HEADER_BYTES + n * width)
        in if width \<noteq> 4 \<and> width \<noteq> 8 then Inl (InvalidWidth width)
           else if nextOffset > length buf then Inl TruncatedChildren
           else rbind (if width = 4
                       then Inr (uint32_view buf (offset + RECORD_HEADER_BYTES) n)
                       else float64_view buf (offset + RECORD_HEADER_BYTES) n) (\<lambda>ids.
             if jm_has ls parentId then Inl DuplicateParent
             else decode_records buf (Suc index) left nextOffset (jm_set parentId ids ls)))"

definition decodeChildLists :: "bytes \<Rightarrow> child_list_error + (int, int list) jmap" where
  "decodeChildLists buf =
     (if length buf < HEADER_BYTES then Inl TruncatedHeader
      else if getUint32 buf 0 \<noteq> MAGIC then Inl InvalidMagic
      else rbind (decode_records buf 0 (getUint32 buf 4) HEADER_BYTES []) (\<lambda>(ls, offset).
        if offset \<noteq> length buf then Inl TrailingChildBytes else Inr ls))"

section \<open>The buffer the encoder builds\<close>

definition id_bytes :: "nat \<Rightarrow> int \<Rightarrow> bytes" where
  "id_bytes width cid = (if width = 4 then le_bytes 4 (nat cid) else le_bytes 8 (f64_bits (nat cid)))"

fun record_size :: "child_record \<Rightarrow> nat" where
  "record_size (p, ids, width) = align8 (RECORD_HEADER_BYTES + length ids * width)"

fun record_bytes :: "child_record \<Rightarrow> bytes" where
  "record_bytes (p, ids, width) =
     le_bytes 8 (f64_bits (nat p)) @ le_bytes 4 (length ids) @ [of_nat width] @ replicate 3 0
     @ concat (map (id_bytes width) ids)
     @ replicate (record_size (p, ids, width) - (16 + length ids * width)) 0"

definition width_of :: "int list \<Rightarrow> nat" where
  "width_of ids = (if \<exists>cid \<in> set ids. cid > MAX_UINT32 then 8 else 4)"

definition record_of :: "int \<times> int list \<Rightarrow> child_record" where
  "record_of kv = (fst kv, snd kv, width_of (snd kv))"

lemma align8_ge: "v \<le> align8 v"
  by (simp add: align8_def)

lemma set_at_middle:
  "length pre = off \<Longrightarrow> length mid = length bs \<Longrightarrow> set_at off bs (pre @ mid @ post) = pre @ bs @ post"
  by (simp add: set_at_def)

lemma put_ids_eq:
  assumes "width = 4 \<or> width = 8"
  shows "length pre = off \<Longrightarrow>
    put_ids width ids off (pre @ replicate (length ids * width) 0 @ post) =
    pre @ concat (map (id_bytes width) ids) @ post"
proof (induction ids arbitrary: off pre)
  case (Cons cid ids)
  let ?z = "replicate (length ids * width) (0 :: byte) @ post"
  have z: "replicate (length (cid # ids) * width) (0 :: byte) @ post = replicate width 0 @ ?z"
    by (simp add: replicate_add)
  have len: "length (pre @ id_bytes width cid) = off + width"
    using Cons.prems assms by (auto simp: id_bytes_def)
  have "(if width = 4 then setUint32 off (nat cid) (pre @ replicate width 0 @ ?z)
         else setFloat64 off cid (pre @ replicate width 0 @ ?z)) = (pre @ id_bytes width cid) @ ?z"
    using Cons.prems assms
    by (auto simp: setUint32_def setFloat64_def id_bytes_def set_at_middle simp del: replicate.simps)
  with Cons.IH [OF len] show ?case unfolding z by simp
qed simp

lemma put_record_eq:
  assumes "width = 4 \<or> width = 8" "length pre = off"
  shows "put_ids width ids (off + RECORD_HEADER_BYTES)
     (set_at (off + 12) [of_nat width]
       (setUint32 (off + 8) (length ids)
         (setFloat64 off p (pre @ replicate (record_size (p, ids, width)) 0 @ post)))) =
     pre @ record_bytes (p, ids, width) @ post"
proof -
  let ?pad = "replicate (record_size (p, ids, width) - (16 + length ids * width)) (0 :: byte)"
  let ?P = "le_bytes 8 (f64_bits (nat p))" and ?L = "le_bytes 4 (length ids)"
  have "16 + length ids * width \<le> record_size (p, ids, width)"
    using align8_ge [of "16 + length ids * width"] by (simp add: RECORD_HEADER_BYTES_def)
  then have "record_size (p, ids, width) =
      8 + (4 + (1 + (3 + (length ids * width + (record_size (p, ids, width) - (16 + length ids * width))))))"
    by simp
  then have z: "replicate (record_size (p, ids, width)) (0 :: byte) =
      replicate 8 0 @ replicate 4 0 @ [0] @ replicate 3 0 @ replicate (length ids * width) 0 @ ?pad"
    by (metis replicate_add replicate_0 replicate_Suc One_nat_def)
  have 1: "setFloat64 off p (pre @ replicate 8 0 @ r) = pre @ ?P @ r" for r
    unfolding setFloat64_def using assms(2) by (intro set_at_middle) simp_all
  have 2: "setUint32 (off + 8) (length ids) (pre @ ?P @ replicate 4 0 @ r) = pre @ ?P @ ?L @ r" for r
    using set_at_middle [of "pre @ ?P" "off + 8" "replicate 4 0" ?L r] assms(2)
    by (simp add: setUint32_def)
  have 3: "set_at (off + 12) [b] (pre @ ?P @ ?L @ [0] @ r) = pre @ ?P @ ?L @ [b] @ r" for b r
    using set_at_middle [of "pre @ ?P @ ?L" "off + 12" "[0]" "[b]" r] assms(2) by simp
  have 4: "put_ids width ids (off + 16)
      (pre @ ?P @ ?L @ [b] @ replicate 3 0 @ replicate (length ids * width) 0 @ r) =
      pre @ ?P @ ?L @ [b] @ replicate 3 0 @ concat (map (id_bytes width) ids) @ r" for b r
    using put_ids_eq [OF assms(1), of "pre @ ?P @ ?L @ [b] @ replicate 3 0" "off + 16" ids r] assms(2)
    by simp
  show ?thesis
    unfolding z append_assoc 1 2 3 RECORD_HEADER_BYTES_def 4 by simp
qed


lemma width_of_cases: "width_of ids = 4 \<or> width_of ids = 8"
  by (simp add: width_of_def)

lemma put_records_eq:
  "list_all (\<lambda>(p, ids, w). w = 4 \<or> w = 8) rs \<Longrightarrow> length pre = off \<Longrightarrow>
   put_records rs off (pre @ replicate (sum_list (map record_size rs)) 0) =
   pre @ concat (map record_bytes rs)"
proof (induction rs arbitrary: off pre)
  case (Cons r rs)
  obtain p ids w where r: "r = (p, ids, w)" by (cases r)
  with Cons.prems have w: "w = 4 \<or> w = 8" by simp
  have len: "length (record_bytes r) = record_size r"
    using w align8_ge [of "16 + length ids * w"]
    by (auto simp: r id_bytes_def RECORD_HEADER_BYTES_def length_concat comp_def sum_list_triv)
  have z: "pre @ replicate (sum_list (map record_size (r # rs))) 0 =
      pre @ replicate (record_size r) 0 @ replicate (sum_list (map record_size rs)) 0"
    by (simp add: replicate_add)
  have "put_records (r # rs) off (pre @ replicate (sum_list (map record_size (r # rs))) 0) =
      put_records rs (off + record_size r)
        ((pre @ record_bytes r) @ replicate (sum_list (map record_size rs)) 0)"
    unfolding z using put_record_eq [OF w Cons.prems(2)] by (simp add: r del: record_bytes.simps)
  also have "\<dots> = (pre @ record_bytes r) @ concat (map record_bytes rs)"
    using Cons.prems len by (intro Cons.IH) auto
  finally show ?case by simp
qed simp

definition valid_lists :: "(int, int list) jmap \<Rightarrow> bool" where
  "valid_lists ls = list_all (\<lambda>(p, ids). is_id p \<and> list_all is_id ids) ls"

lemma child_width_eq:
  "child_width ids w =
     (if list_all is_id ids then Inr (if \<exists>cid \<in> set ids. cid > MAX_UINT32 then 8 else w) else Inl IdRange)"
  by (induction ids arbitrary: w) (auto simp: assertId_def)

lemma plan_records_eq:
  "plan_records ls n =
     (if valid_lists ls
      then Inr (map record_of ls, n + sum_list (map record_size (map record_of ls)))
      else Inl IdRange)"
proof (induction ls arbitrary: n)
  case (Cons kv ls)
  obtain p ids where kv: "kv = (p, ids)" by (cases kv)
  show ?case
    using Cons.IH
    by (cases "is_id p"; cases "list_all is_id ids")
       (simp_all add: kv valid_lists_def child_width_eq assertId_def record_of_def width_of_def
          split: if_splits)
qed (simp add: valid_lists_def)

lemma encodeChildLists_eq:
  "encodeChildLists ls =
     (if valid_lists ls
      then Inr (le_bytes 4 MAGIC @ le_bytes 4 (length ls)
        @ concat (map record_bytes (map record_of ls)))
      else Inl IdRange)"
proof (cases "valid_lists ls")
  case True
  let ?R = "map record_of ls" and ?H = "le_bytes 4 MAGIC @ le_bytes 4 (length ls)"
  let ?Z = "replicate (sum_list (map record_size ?R)) (0 :: byte)"
  have "setUint32 4 (length ls) (setUint32 0 MAGIC (replicate 4 0 @ replicate 4 0 @ ?Z)) = ?H @ ?Z"
    using set_at_middle [of "[]" 0 "replicate 4 0" "le_bytes 4 MAGIC"]
      set_at_middle [of "le_bytes 4 MAGIC" 4 "replicate 4 0" "le_bytes 4 (length ls)"]
    by (simp add: setUint32_def)
  moreover have "replicate (8 + sum_list (map record_size ?R)) (0 :: byte) =
      replicate 4 0 @ replicate 4 0 @ ?Z"
    by (simp add: replicate_add numeral_eq_Suc)
  moreover have "list_all (\<lambda>(p, ids, w). w = 4 \<or> w = 8) ?R"
    using width_of_cases by (auto simp: record_of_def list_all_iff)
  ultimately show ?thesis
    using True put_records_eq [of ?R ?H 8]
    by (simp add: encodeChildLists_def plan_records_eq HEADER_BYTES_def)
qed (simp add: encodeChildLists_def plan_records_eq)

section \<open>Reading it back\<close>

lemma is_id_nat: "is_id v \<Longrightarrow> nat v < 2 ^ 53 \<and> int (nat v) = v"
  by (auto simp: is_id_def)

lemma getFloat64_at:
  assumes "is_id v"
  shows "getFloat64 (pre @ le_bytes 8 (f64_bits (nat v)) @ r) (length pre) = Some v"
  using is_id_nat [OF assms] f64_bits_less [of "nat v"] f64_roundtrip [of "nat v"]
  by (simp add: getFloat64_def)

lemma getUint32_at:
  "n < 256 ^ 4 \<Longrightarrow> getUint32 (pre @ le_bytes 4 n @ r) (length pre) = n"
  using le_roundtrip [of n 4] by (simp add: getUint32_def)

lemma getUint8_at: "w < 256 \<Longrightarrow> getUint8 (pre @ of_nat w # r) (length pre) = w"
  by (simp add: getUint8_def unat_of_nat)

lemma uint32_view_Suc:
  "uint32_view buf off (Suc n) = int (getUint32 buf off) # uint32_view buf (off + 4) n"
  by (simp add: uint32_view_def upt_conv_Cons map_Suc_upt [symmetric] comp_def ac_simps
      del: upt_Suc)

lemma uint32_view_at:
  "list_all (\<lambda>v. 0 \<le> v \<and> v \<le> MAX_UINT32) ids \<Longrightarrow>
   uint32_view (pre @ concat (map (id_bytes 4) ids) @ r) (length pre) (length ids) = ids"
proof (induction ids arbitrary: pre)
  case (Cons v ids)
  then have "0 \<le> v" "v \<le> 4294967295" by (simp_all add: MAX_UINT32_def)
  then have "nat v < 256 ^ 4" by (simp add: nat_less_iff)
  with Cons.prems getUint32_at [of "nat v" pre "concat (map (id_bytes 4) ids) @ r"]
    Cons.IH [of "pre @ id_bytes 4 v"]
  show ?case by (simp add: uint32_view_Suc id_bytes_def [of 4 v])
qed (simp add: uint32_view_def)

lemma float64_view_at:
  "list_all is_id ids \<Longrightarrow>
   float64_view (pre @ concat (map (id_bytes 8) ids) @ r) (length pre) (length ids) = Inr ids"
proof (induction ids arbitrary: pre)
  case (Cons v ids)
  then have "0 \<le> v" by (simp add: is_id_def)
  with Cons.prems getFloat64_at [of v pre "concat (map (id_bytes 8) ids) @ r"]
    Cons.IH [of "pre @ id_bytes 8 v"]
  show ?case by (simp add: id_bytes_def [of 8 v])
qed simp

definition record_ok :: "int \<times> int list \<Rightarrow> bool" where
  "record_ok kv \<longleftrightarrow> is_id (fst kv) \<and> list_all is_id (snd kv) \<and> length (snd kv) < 2 ^ 32"

text \<open>One turn of the decoder's loop on an encoded record.\<close>

lemma decode_record_at:
  assumes ok: "record_ok kv" and fresh: "\<not> jm_has ls (fst kv)"
  shows "decode_records (pre @ record_bytes (record_of kv) @ post) i (Suc left) (length pre) ls =
    decode_records (pre @ record_bytes (record_of kv) @ post) (Suc i) left
      (length pre + record_size (record_of kv)) (ls @ [kv])"
proof -
  obtain p ids where kv: "kv = (p, ids)" by (cases kv)
  define w where "w = width_of ids"
  define P where "P = le_bytes 8 (f64_bits (nat p))"
  define L where "L = le_bytes 4 (length ids)"
  define pad where "pad = replicate (record_size (p, ids, w) - (16 + length ids * w)) (0 :: byte)"
  define C where "C = concat (map (id_bytes w) ids)"
  define buf where "buf = pre @ record_bytes (record_of kv) @ post"
  have buf: "buf = pre @ P @ L @ of_nat w # replicate 3 0 @ C @ pad @ post"
    by (simp add: buf_def kv record_of_def w_def P_def L_def pad_def C_def)
  have w: "w = 4 \<or> w = 8" by (simp add: w_def width_of_cases)
  from ok kv have p: "is_id p" and ids: "list_all is_id ids" and n: "length ids < 256 ^ 4"
    by (simp_all add: record_ok_def)
  have lens: "length P = 8" "length L = 4" "length C = length ids * w"
    using w by (auto simp: P_def L_def C_def id_bytes_def length_concat comp_def sum_list_triv)
  have size: "16 + length ids * w \<le> record_size (p, ids, w)"
    using align8_ge [of "16 + length ids * w"] by (simp add: RECORD_HEADER_BYTES_def)
  have lenbuf: "length buf = length pre + record_size (p, ids, w) + length post"
    using size by (simp add: buf lens pad_def)
  have r1: "getFloat64 buf (length pre) = Some p"
    unfolding buf P_def by (rule getFloat64_at [OF p])
  have r2: "getUint32 buf (length pre + 8) = length ids"
    using getUint32_at [OF n, of "pre @ P"] by (simp add: buf lens L_def)
  have r3: "getUint8 buf (length pre + 12) = w"
    using getUint8_at [of w "pre @ P @ L"] w by (auto simp: buf lens)
  have r4: "(if w = 4 then Inr (uint32_view buf (length pre + 16) (length ids))
       else float64_view buf (length pre + 16) (length ids)) = Inr ids"
  proof (cases "w = 4")
    case True
    then have "list_all (\<lambda>v. 0 \<le> v \<and> v \<le> MAX_UINT32) ids"
      using ids by (auto simp: w_def width_of_def list_all_iff is_id_def split: if_splits)
    from uint32_view_at [OF this, of "pre @ P @ L @ of_nat w # replicate 3 0" "pad @ post"] True
    show ?thesis by (simp add: buf lens C_def)
  next
    case False
    with w have "w = 8" by simp
    with float64_view_at [OF ids, of "pre @ P @ L @ of_nat w # replicate 3 0" "pad @ post"]
    show ?thesis by (simp add: buf lens C_def)
  qed
  have sz: "align8 (16 + length ids * v) = record_size (p, ids, v)" for v
    by (simp add: RECORD_HEADER_BYTES_def)
  have "0 \<le> p" using p by (simp add: is_id_def)
  with r1 r2 r3 r4 w size lenbuf fresh show ?thesis
    unfolding buf_def [symmetric]
    by (elim disjE)
       (simp_all add: RECORD_HEADER_BYTES_def kv sz record_of_def jm_set_fresh w_def [symmetric]
        Let_def del: record_size.simps)
qed

lemma decode_records_at:
  "list_all record_ok kvs \<Longrightarrow> distinct (map fst (ls @ kvs)) \<Longrightarrow>
   decode_records (pre @ concat (map (record_bytes \<circ> record_of) kvs)) i (length kvs) (length pre) ls =
     Inr (ls @ kvs, length pre + sum_list (map (record_size \<circ> record_of) kvs))"
proof (induction kvs arbitrary: pre i ls)
  case (Cons kv kvs)
  have len: "length (record_bytes (record_of kv)) = record_size (record_of kv)"
    using width_of_cases [of "snd kv"] align8_ge [of "16 + length (snd kv) * width_of (snd kv)"]
    by (auto simp: record_of_def id_bytes_def RECORD_HEADER_BYTES_def length_concat comp_def
        sum_list_triv)
  have fresh: "\<not> jm_has ls (fst kv)" using Cons.prems(2) by (auto simp: jm_has_iff)
  have ok: "record_ok kv" "list_all record_ok kvs" "distinct (map fst ((ls @ [kv]) @ kvs))"
    using Cons.prems by auto
  show ?case
    using decode_record_at [OF ok(1) fresh, of pre "concat (map (record_bytes \<circ> record_of) kvs)" i]
      Cons.IH [OF ok(2,3), of "pre @ record_bytes (record_of kv)"]
    by (simp add: len ac_simps comp_def del: decode_records.simps)
qed simp

lemma length_encoding:
  "length (concat (map (record_bytes \<circ> record_of) kvs)) = sum_list (map (record_size \<circ> record_of) kvs)"
proof (induction kvs)
  case (Cons kv kvs)
  have len: "length (record_bytes (record_of kv)) = record_size (record_of kv)"
    using width_of_cases [of "snd kv"] align8_ge [of "16 + length (snd kv) * width_of (snd kv)"]
    by (auto simp: record_of_def id_bytes_def RECORD_HEADER_BYTES_def length_concat comp_def
        sum_list_triv)
  with Cons show ?case by simp
qed simp

lemma decode_encode:
  assumes "jm_wf ls" "list_all (\<lambda>(p, ids). is_id p \<and> list_all is_id ids) ls"
    and "length ls < 2 ^ 32" "list_all (\<lambda>(p, ids). length ids < 2 ^ 32) ls"
  shows "\<exists>buf. encodeChildLists ls = Inr buf \<and> decodeChildLists buf = Inr ls"
proof -
  let ?M = "le_bytes 4 MAGIC" and ?N = "le_bytes 4 (length ls)"
  let ?C = "concat (map (record_bytes \<circ> record_of) ls)"
  have enc: "encodeChildLists ls = Inr (?M @ ?N @ ?C)"
    using assms(2) by (simp add: encodeChildLists_eq valid_lists_def)
  have m: "getUint32 (?M @ ?N @ ?C) 0 = MAGIC"
    using getUint32_at [of MAGIC "[]"] by (simp add: MAGIC_def)
  have n: "getUint32 (?M @ ?N @ ?C) 4 = length ls"
    using getUint32_at [of "length ls" ?M] assms(3) by simp
  have "list_all record_ok ls"
    using assms(2,4) by (auto simp: list_all_iff record_ok_def)
  then have d: "decode_records ((?M @ ?N) @ ?C) 0 (length ls) (length (?M @ ?N)) [] =
      Inr (ls, length (?M @ ?N) + length ?C)"
    unfolding length_encoding using assms(1) by (subst decode_records_at) (auto simp: jm_wf_def)
  have "decodeChildLists (?M @ ?N @ ?C) = Inr ls"
    using m n d by (simp add: decodeChildLists_def HEADER_BYTES_def del: length_encoding)
  with enc show ?thesis by blast
qed

text \<open>What the decoder lets through.\<close>

lemma getUint32_bound: "getUint32 buf off < 2 ^ 32"
proof -
  have "le_value (take 4 (drop off buf)) < 256 ^ length (take 4 (drop off buf))"
    by (rule le_value_less)
  also have "\<dots> \<le> 256 ^ 4" by (rule power_increasing) auto
  finally show ?thesis by (simp add: getUint32_def)
qed

lemma uint32_view_ids: "list_all is_id (uint32_view buf off n)"
proof -
  have "is_id (int (getUint32 buf k))" for k
    using getUint32_bound [of buf k] by (simp add: is_id_def)
  then show ?thesis by (simp add: uint32_view_def list_all_iff)
qed

lemma float64_view_ids:
  "float64_view buf off n = Inr ids \<Longrightarrow> list_all is_id ids \<and> length ids = n"
  by (induction n arbitrary: off ids)
     (auto simp: rbind_eq_Inr getFloat64_def is_id_def dest: f64_safe_bounds
        split: option.splits if_splits)

definition weight :: "(int, int list) jmap \<Rightarrow> nat" where
  "weight ls = sum_list (map (\<lambda>(p, ids). 16 + 4 * length ids) ls)"

lemma decode_records_sound:
  assumes "decode_records buf i k off ls = Inr (out, off')"
    and "jm_wf ls" "valid_lists ls" "8 + weight ls \<le> off" "off \<le> length buf"
  shows "jm_wf out \<and> valid_lists out \<and> length out = length ls + k \<and> 8 + weight out \<le> off' \<and> off' \<le> length buf"
  using assms
proof (induction k arbitrary: i off ls)
  case (Suc k)
  define n where "n = getUint32 buf (off + 8)"
  define w where "w = getUint8 buf (off + 12)"
  define next' where "next' = off + align8 (16 + n * w)"
  from Suc.prems(1) obtain p ids where
    p: "getFloat64 buf off = Some p" "0 \<le> p" and w: "w = 4 \<or> w = 8" and nxt: "next' \<le> length buf"
    and ids: "(if w = 4 then Inr (uint32_view buf (off + 16) n) else float64_view buf (off + 16) n) = Inr ids"
    and fresh: "\<not> jm_has ls p"
    and rest: "decode_records buf (Suc i) k next' (jm_set p ids ls) = Inr (out, off')"
    by (auto simp: Let_def rbind_eq_Inr n_def w_def next'_def RECORD_HEADER_BYTES_def
        split: if_splits option.splits)
  have idsok: "list_all is_id ids" "length ids = n"
    using ids float64_view_ids uint32_view_ids by (auto simp: uint32_view_def split: if_splits)
  have pok: "is_id p"
    using f64_safe_bounds [OF p(1) [unfolded getFloat64_def]] p(2) by (simp add: is_id_def)
  have "16 + n * w \<le> align8 (16 + n * w)" by (rule align8_ge)
  with w have "8 + weight (ls @ [(p, ids)]) \<le> next'"
    using Suc.prems(4) idsok(2) by (auto simp: weight_def next'_def)
  moreover have "jm_wf (ls @ [(p, ids)])" "valid_lists (ls @ [(p, ids)])"
    using Suc.prems(2,3) fresh pok idsok by (auto simp: jm_wf_def valid_lists_def jm_has_iff)
  ultimately show ?case
    using Suc.IH [of "Suc i" next' "ls @ [(p, ids)]"] rest nxt by (simp add: jm_set_fresh [OF fresh])
qed (simp add: weight_def)

section \<open>Properties\<close>

text \<open>
  C21: a map from distinct non-negative safe-integer parents to lists of such ids is encoded, and
  decoding the buffer gives the same map: same parents in the same order, same children in the same
  order, whether a record was packed as 32-bit or as 64-bit ids.
\<close>

theorem child_lists_roundtrip:
  assumes "jm_wf ls" "list_all (\<lambda>(p, ids). is_id p \<and> list_all is_id ids) ls"
    and "length ls < 2 ^ 32" "list_all (\<lambda>(p, ids). length ids < 2 ^ 32) ls"
  shows "\<exists>buf. encodeChildLists ls = Inr buf \<and> decodeChildLists buf = Inr ls"
  using assms by (rule decode_encode)

theorem child_lists_roundtrip_witness:
  "\<exists>buf. encodeChildLists [(7, [1, 2, 3]), (0, []), (9, [2 ^ 40, 5])] = Inr buf
     \<and> decodeChildLists buf = Inr [(7, [1, 2, 3]), (0, []), (9, [2 ^ 40, 5])]"
  by (rule child_lists_roundtrip) (simp_all add: jm_wf_def is_id_def)

text \<open>
  The encoder throws its range error exactly when some parent or child id is not a non-negative
  safe integer, and never another error.
\<close>

theorem encode_child_lists_error:
  "encodeChildLists ls = Inl e \<longleftrightarrow>
     e = IdRange \<and> \<not> list_all (\<lambda>(p, ids). is_id p \<and> list_all is_id ids) ls"
  by (auto simp: encodeChildLists_eq valid_lists_def split: if_splits)

text \<open>
  Whatever bytes arrive, a successful decode has distinct parents, only non-negative safe-integer
  ids, exactly the announced number of records, and no more records and ids than the buffer pays
  for: 16 bytes a record and at least 4 a child.
\<close>

theorem decode_child_lists_sound:
  assumes "decodeChildLists buf = Inr ls"
  shows "jm_wf ls \<and> list_all (\<lambda>(p, ids). is_id p \<and> list_all is_id ids) ls
    \<and> length ls = getUint32 buf 4
    \<and> 8 + sum_list (map (\<lambda>(p, ids). 16 + 4 * length ids) ls) \<le> length buf"
proof -
  from assms obtain off where "decode_records buf 0 (getUint32 buf 4) 8 [] = Inr (ls, off)"
    "8 \<le> length buf"
    by (auto simp: decodeChildLists_def HEADER_BYTES_def rbind_eq_Inr split: if_splits)
  from decode_records_sound [OF this(1)] this(2) show ?thesis
    by (auto simp: valid_lists_def weight_def)
qed

theorem decode_child_lists_sound_witness:
  "\<exists>buf. decodeChildLists buf = Inr [(0, [70, 71])] \<and> getUint32 buf 4 = 1 \<and> 32 \<le> length buf"
proof -
  have "\<exists>buf. encodeChildLists [(0, [70, 71])] = Inr buf \<and> decodeChildLists buf = Inr [(0, [70, 71])]"
    by (rule decode_encode) (simp_all add: jm_wf_def is_id_def)
  then obtain buf where "decodeChildLists buf = Inr [(0, [70, 71])]" by blast
  with decode_child_lists_sound [OF this] show ?thesis by auto
qed

end
