(* ===== verification/Child_Order.thy ===== *)
theory Child_Order
  imports Mirror Natural_Sort
begin

text \<open>
  Display order of siblings (\<open>isExpandableEntry\<close>, \<open>sortChildrenByName\<close> and the cache of
  \<open>createSortedChildrenLookup\<close> in \<open>packages/mille/src/mirror-snapshot.ts\<close>): directories and links to
  directories first, then by natural name, then by id. The comparator is a total order for every
  entry map, so the order of the ids on the wire cannot show.
\<close>

definition isExpandableEntry :: "client_entry \<Rightarrow> bool" where
  "isExpandableEntry e \<longleftrightarrow> ce_kind e = 1 \<or> ce_symlinkTargetIsDir e = Some True"

definition sort_kind :: "client_entry option \<Rightarrow> int" where
  "sort_kind eo = (case eo of Some e \<Rightarrow> if isExpandableEntry e then 0 else 1 | None \<Rightarrow> 1)"

definition sort_name :: "client_entry option \<Rightarrow> jstring" where
  "sort_name eo = (case eo of Some e \<Rightarrow> ce_name e | None \<Rightarrow> [])"

definition child_cmp :: "(int, client_entry) jmap \<Rightarrow> int \<Rightarrow> int \<Rightarrow> int" where
  "child_cmp by_id a b =
     (let ea = jm_get by_id a; eb = jm_get by_id b; ka = sort_kind ea; kb = sort_kind eb
      in if ka \<noteq> kb then ka - kb
         else let na = sort_name ea; nb = sort_name eb
         in if na = nb then a - b else compareNaturalNames na nb)"

definition sortChildrenByName :: "int list \<Rightarrow> (int, client_entry) jmap \<Rightarrow> int list" where
  "sortChildrenByName ids by_id = js_sort (child_cmp by_id) ids"

text \<open>The lookup with its cache: a cached order is returned, a computed one is stored.\<close>

definition sortedChildrenFor ::
  "(int, client_entry) jmap \<Rightarrow> int jset \<Rightarrow> int \<Rightarrow> int list \<Rightarrow> (int, int list) jmap
    \<Rightarrow> int list \<times> (int, int list) jmap"
where
  "sortedChildrenFor by_id orderedParents parentId ids cache =
     (if parentId \<in> set orderedParents then (ids, cache)
      else case jm_get cache parentId of
        Some cached \<Rightarrow> (cached, cache)
      | None \<Rightarrow> let sorted = sortChildrenByName ids by_id
                in (sorted, jm_set parentId sorted cache))"

section \<open>The order is total\<close>

lemma child_cmp_eq:
  "child_cmp by_id a b =
     (if sort_kind (jm_get by_id a) \<noteq> sort_kind (jm_get by_id b)
      then sort_kind (jm_get by_id a) - sort_kind (jm_get by_id b)
      else if sort_name (jm_get by_id a) = sort_name (jm_get by_id b) then a - b
      else compareNaturalNames (sort_name (jm_get by_id a)) (sort_name (jm_get by_id b)))"
  by (simp add: child_cmp_def Let_def)

interpretation child_order: js_total_comparator "child_cmp by_id" for by_id
proof unfold_locales
  fix a b c
  show "child_cmp by_id a b \<le> 0 \<or> child_cmp by_id b a \<le> 0"
    using natural.cmp_total [of "sort_name (jm_get by_id a)"] by (auto simp: child_cmp_eq)
  show "a = b" if "child_cmp by_id a b \<le> 0" "child_cmp by_id b a \<le> 0"
    using that natural.cmp_antisym [of "sort_name (jm_get by_id a)" "sort_name (jm_get by_id b)"]
    by (auto simp: child_cmp_eq split: if_splits)
  show "child_cmp by_id a c \<le> 0" if "child_cmp by_id a b \<le> 0" "child_cmp by_id b c \<le> 0"
    using that
      natural.cmp_trans [of "sort_name (jm_get by_id a)" "sort_name (jm_get by_id b)" "sort_name (jm_get by_id c)"]
      natural.cmp_antisym [of "sort_name (jm_get by_id a)" "sort_name (jm_get by_id b)"]
    by (auto simp: child_cmp_eq split: if_splits)
qed

text \<open>Every cached order is the order the mirror's child list would be sorted into.\<close>

definition cache_ok :: "mirror \<Rightarrow> (int, int list) jmap \<Rightarrow> bool" where
  "cache_ok m cache \<longleftrightarrow>
     (\<forall>p ids. jm_get cache p = Some ids \<longrightarrow>
        (\<exists>raw. jm_get (children m) p = Some raw \<and> ids = sortChildrenByName raw (byId m)))"

definition display_children :: "mirror \<Rightarrow> int \<Rightarrow> int list \<Rightarrow> int list" where
  "display_children m p ids =
     (if p \<in> set (orderedChildren m) then ids else sortChildrenByName ids (byId m))"

lemma cache_ok_Nil [simp]: "cache_ok m []"
  by (simp add: cache_ok_def)

lemma sortedChildrenFor_cached:
  assumes "cache_ok m cache" "jm_get (children m) p = Some ids"
  shows "\<exists>cache'. sortedChildrenFor (byId m) (orderedChildren m) p ids cache
      = (display_children m p ids, cache') \<and> cache_ok m cache'"
proof (cases "jm_get cache p")
  case (Some x)
  with assms have "x = sortChildrenByName ids (byId m)" by (fastforce simp: cache_ok_def)
  with Some assms(1) show ?thesis by (simp add: sortedChildrenFor_def display_children_def)
qed (use assms in \<open>auto simp: sortedChildrenFor_def display_children_def cache_ok_def Let_def\<close>)

lemma set_display_children [simp]: "set (display_children m p ids) = set ids"
  by (simp add: display_children_def sortChildrenByName_def)

lemma length_display_children [simp]: "length (display_children m p ids) = length ids"
  by (simp add: display_children_def sortChildrenByName_def)

section \<open>Properties\<close>

text \<open>
  The display order depends only on which ids are siblings, never on the order they arrive in,
  and every directory or link to a directory comes before every other entry.
\<close>

theorem child_order_canonical:
  "(mset xs = mset ys \<longrightarrow> sortChildrenByName xs by_id = sortChildrenByName ys by_id)
   \<and> mset (sortChildrenByName xs by_id) = mset xs
   \<and> sorted_wrt (\<lambda>a b. child_cmp by_id a b \<le> 0 \<and> sort_kind (jm_get by_id a) \<le> sort_kind (jm_get by_id b))
       (sortChildrenByName xs by_id)"
proof (intro conjI impI)
  show "sortChildrenByName xs by_id = sortChildrenByName ys by_id" if "mset xs = mset ys"
    using that unfolding sortChildrenByName_def
    by (intro child_order.js_sort_unique) (simp_all add: child_order.sorted_js_sort)
  have "child_cmp by_id a b \<le> 0 \<Longrightarrow> sort_kind (jm_get by_id a) \<le> sort_kind (jm_get by_id b)" for a b
    by (auto simp: child_cmp_eq split: if_splits)
  then show "sorted_wrt (\<lambda>a b. child_cmp by_id a b \<le> 0 \<and> sort_kind (jm_get by_id a) \<le> sort_kind (jm_get by_id b))
       (sortChildrenByName xs by_id)"
    unfolding sortChildrenByName_def
    using child_order.sorted_js_sort [of by_id xs] by (auto elim: sorted_wrt_mono_rel [rotated])
qed (simp add: sortChildrenByName_def)

theorem child_order_canonical_witness:
  "sortChildrenByName [3, 1, 2] [] = sortChildrenByName [2, 3, 1] []
   \<and> sortChildrenByName [3, 1, 2] [] = [1, 2, 3]"
proof -
  have "sortChildrenByName [3, 1, 2] [] = [1, 2, 3]"
    by (simp add: sortChildrenByName_def child_cmp_eq)
  with child_order_canonical [of "[3, 1, 2]" "[2, 3, 1]" "[]"] show ?thesis by simp
qed

end
