(* ===== verification/Mirror_Reducer.thy ===== *)
theory Mirror_Reducer
  imports Child_Order Bincode Child_Lists
begin

text \<open>
  The mirror's reducer (\<open>packages/mille/src/mirror-reducer.ts\<close>): snapshot, delta, directory-load and
  lookup frames applied to the working state, with least-recently-used eviction to a cap. A payload
  that does not decode is an error of the whole frame; the state the client holds is then unchanged.

  \<open>JSON.parse\<close> of the two legacy JSON payloads is a parameter: a function from the string to the
  value it stands for, or an error where it throws. A \<open>Record<string, V>\<close> whose keys are the decimal
  forms of ids is a map from those ids, in the order \<open>Object.entries\<close> lists it.
\<close>

datatype reducer_error = EntryError bincode_error | ChildListError child_list_error | JsonError

text \<open>An error of a nested decoder becomes the reducer's own.\<close>

definition lift_error :: "('e \<Rightarrow> 'f) \<Rightarrow> 'e + 'a \<Rightarrow> 'f + 'a" where
  "lift_error f r = (case r of Inl e \<Rightarrow> Inl (f e) | Inr x \<Rightarrow> Inr x)"

section \<open>Eviction and touch times\<close>

definition DEFAULT_MIRROR_CAP :: nat where
  "DEFAULT_MIRROR_CAP = 4096"

definition MAX_SAFE_INTEGER :: int where
  "MAX_SAFE_INTEGER = 2 ^ 53 - 1"

text \<open>What eviction and removal both delete for one id.\<close>

definition drop_aliases :: "int \<Rightarrow> mirror \<Rightarrow> mirror" where
  "drop_aliases cid s = s\<lparr>
     byId := jm_delete cid (byId s),
     children := jm_delete cid (children s),
     orderedChildren := jset_del cid (orderedChildren s),
     directChildCounts := jm_delete cid (directChildCounts s),
     pendingExpansions := jset_del cid (pendingExpansions s),
     directoryLoads := jm_delete cid (directoryLoads s),
     expanded := jset_del cid (expanded s),
     viewportIds := jset_del cid (viewportIds s),
     volatileSubtrees := jset_del cid (volatileSubtrees s) \<rparr>"

definition evict_one :: "int \<Rightarrow> mirror \<Rightarrow> mirror" where
  "evict_one cid s = (let s' = drop_aliases cid s in s'\<lparr>lruTouch := jm_delete cid (lruTouch s')\<rparr>)"

definition touch_of :: "mirror \<Rightarrow> int \<Rightarrow> int" where
  "touch_of s cid = (case jm_get (lruTouch s) cid of Some t \<Rightarrow> t | None \<Rightarrow> 0)"

text \<open>Oldest first, ties by id; a candidate is \<open>(id, touch)\<close>.\<close>

definition evict_cmp :: "int \<times> int \<Rightarrow> int \<times> int \<Rightarrow> int" where
  "evict_cmp a b = (if snd a - snd b \<noteq> 0 then snd a - snd b else fst a - fst b)"

definition candidates :: "mirror \<Rightarrow> int jset \<Rightarrow> (int \<times> int) list" where
  "candidates s activeIds =
     map (\<lambda>cid. (cid, touch_of s cid)) (filter (\<lambda>cid. cid \<notin> set activeIds) (jm_keys (byId s)))"

fun evict_loop :: "nat \<Rightarrow> (int \<times> int) list \<Rightarrow> mirror \<Rightarrow> mirror" where
  "evict_loop toEvict [] s = s"
| "evict_loop toEvict (c # cs) s =
     (if toEvict = 0 then s else evict_loop (toEvict - 1) cs (evict_one (fst c) s))"

definition evictToCap :: "mirror \<Rightarrow> nat \<Rightarrow> int jset \<Rightarrow> mirror" where
  "evictToCap s cap activeIds =
     (if length (byId s) \<le> cap then s
      else evict_loop (length (byId s) - cap) (js_sort evict_cmp (candidates s activeIds)) s)"

definition activeSet :: "mirror \<Rightarrow> int jset" where
  "activeSet s =
     fold jset_add (viewportIds s) (fold jset_add (pendingExpansions s)
       (fold jset_add (expanded s) (fold jset_add (roots s) [])))"

text \<open>Touch times compressed to 1, 2, 3, ... in the map's order when the counter runs out.\<close>

definition compressed :: "(int, int) jmap \<Rightarrow> (int, int) jmap" where
  "compressed tm = zip (jm_keys tm) (map int [1..<Suc (length tm)])"

definition touch :: "int \<Rightarrow> mirror \<Rightarrow> mirror" where
  "touch cid s0 =
     (let s1 = s0\<lparr>lruCounter := lruCounter s0 + 1\<rparr>;
          s2 = (if lruCounter s1 \<ge> MAX_SAFE_INTEGER
                then s1\<lparr>lruCounter := int (length (byId s1)), lruTouch := compressed (lruTouch s1)\<rparr>
                else s1)
      in s2\<lparr>lruTouch := jm_set cid (lruCounter s2) (lruTouch s2)\<rparr>)"

section \<open>Frames\<close>

record visibility =
  vis_hidden :: bool
  vis_ignored :: bool
  vis_compact :: "bool option"

record inbound_snapshot =
  sn_version :: int
  sn_roots :: "int list"
  sn_mirror :: "bytes option"
  sn_entriesJson :: "string option"
  sn_directChildCounts :: "(int, int) jmap"
  sn_visibleCount :: int
  sn_visibility :: "visibility option"

record inbound_delta =
  de_version :: int
  de_changedIds :: "int list"
  de_addedRows :: "bytes option"
  de_viewportPatch :: "bytes option"
  de_entriesJson :: "string option"
  de_childSetChanged :: "int list option"
  de_removedIds :: "int list"
  de_directChildCounts :: "(int, int) jmap"
  de_childLists :: "(int, int list) jmap option"
  de_childListsBin :: "bytes option"
  de_coarseSubtrees :: "int list"
  de_subtreeDirty :: "int list"
  de_subtreeResynced :: "int list"
  de_visibility :: "visibility option"
  de_decorationChangedIds :: "int list option"
  de_decorationsJson :: "string option"
  de_roots :: "int list option"
  de_viewportIds :: "int list option"

text \<open>\<open>JSON.parse\<close> on the two JSON payloads.\<close>

record json_parsers =
  parse_entries :: "string \<Rightarrow> client_entry list option"
  parse_decorations :: "string \<Rightarrow> (int, decoration list) jmap option"

definition decodeEntries :: "bytes \<Rightarrow> reducer_error + client_entry list" where
  "decodeEntries bs = lift_error EntryError (decodeClientEntries bs)"

definition decodeEntryPayload ::
  "json_parsers \<Rightarrow> bytes option \<Rightarrow> string option \<Rightarrow> reducer_error + client_entry list"
where
  "decodeEntryPayload J binary json =
     (case binary of
        Some bs \<Rightarrow> decodeEntries bs
      | None \<Rightarrow>
        (case json of
           Some s \<Rightarrow>
             if length s > 0
             then (case parse_entries J s of Some es \<Rightarrow> Inr es | None \<Rightarrow> Inl JsonError)
             else Inr []
         | None \<Rightarrow> Inr []))"

definition decodeDeltaEntryPayload :: "json_parsers \<Rightarrow> inbound_delta \<Rightarrow> reducer_error + client_entry list" where
  "decodeDeltaEntryPayload J msg =
     (if de_addedRows msg = None \<and> de_viewportPatch msg = None
      then decodeEntryPayload J None (de_entriesJson msg)
      else rbind (case de_addedRows msg of Some bs \<Rightarrow> decodeEntries bs | None \<Rightarrow> Inr []) (\<lambda>added.
           rbind (case de_viewportPatch msg of Some bs \<Rightarrow> decodeEntries bs | None \<Rightarrow> Inr []) (\<lambda>patch.
           Inr (added @ patch))))"

section \<open>Snapshot\<close>

definition fresh_mirror :: "mirror \<Rightarrow> inbound_snapshot \<Rightarrow> mirror" where
  "fresh_mirror prev msg = \<lparr>
     byId = [], children = [], orderedChildren = [], directChildCounts = [],
     pendingExpansions = [], directoryLoads = [],
     expanded = expanded prev, viewportIds = viewportIds prev,
     roots = sn_roots msg, treeVersion = sn_version msg,
     projectionVersion = projectionVersion prev + 1, decorationVersion = 0,
     showHiddenFiles = (case sn_visibility msg of Some v \<Rightarrow> vis_hidden v | None \<Rightarrow> True),
     showIgnoredFiles = (case sn_visibility msg of Some v \<Rightarrow> vis_ignored v | None \<Rightarrow> True),
     compactFolders = (case sn_visibility msg of
        Some v \<Rightarrow> (case vis_compact v of Some b \<Rightarrow> b | None \<Rightarrow> False) | None \<Rightarrow> False),
     decorations = [], volatileSubtrees = [], lruTouch = [], lruCounter = 0 \<rparr>"

definition store_entry :: "client_entry \<Rightarrow> mirror \<Rightarrow> mirror" where
  "store_entry e s = touch (ce_id e) (s\<lparr>byId := jm_set (ce_id e) e (byId s)\<rparr>)"

definition add_child :: "client_entry \<Rightarrow> (int, int list) jmap \<Rightarrow> (int, int list) jmap" where
  "add_child e kids =
     (case ce_parentId e of
        None \<Rightarrow> kids
      | Some p \<Rightarrow>
        (case jm_get kids p of
           None \<Rightarrow> jm_set p [ce_id e] kids
         | Some existing \<Rightarrow> jm_set p (existing @ [ce_id e]) kids))"

text \<open>The inline comparator of the snapshot path.\<close>

definition snapshot_rank :: "client_entry option \<Rightarrow> int" where
  "snapshot_rank eo =
     (case eo of
        Some e \<Rightarrow> if ce_kind e = 1 \<or> ce_symlinkTargetIsDir e = Some True then 0 else 1
      | None \<Rightarrow> 1)"

definition snapshot_cmp :: "(int, client_entry) jmap \<Rightarrow> int \<Rightarrow> int \<Rightarrow> int" where
  "snapshot_cmp by_id a b =
     (let ea = jm_get by_id a; eb = jm_get by_id b; ka = snapshot_rank ea; kb = snapshot_rank eb
      in if ka \<noteq> kb then ka - kb
         else let na = (case ea of Some e \<Rightarrow> ce_name e | None \<Rightarrow> []);
                  nb = (case eb of Some e \<Rightarrow> ce_name e | None \<Rightarrow> [])
         in if na = nb then a - b else compareNaturalNames na nb)"

definition order_children :: "int \<times> int list \<Rightarrow> mirror \<Rightarrow> mirror" where
  "order_children kv s = s\<lparr>
     children := jm_set (fst kv) (js_sort (snapshot_cmp (byId s)) (snd kv)) (children s),
     orderedChildren := jset_add (fst kv) (orderedChildren s) \<rparr>"

definition merge_counts :: "(int, int) jmap \<Rightarrow> mirror \<Rightarrow> mirror" where
  "merge_counts counts s =
     s\<lparr>directChildCounts := fold (\<lambda>(k, v). jm_set k v) counts (directChildCounts s)\<rparr>"

definition applySnapshot ::
  "json_parsers \<Rightarrow> mirror \<Rightarrow> inbound_snapshot \<Rightarrow> nat \<Rightarrow> reducer_error + mirror"
where
  "applySnapshot J prev msg mirrorCap =
     rbind (decodeEntryPayload J (sn_mirror msg) (sn_entriesJson msg)) (\<lambda>entries.
       let s0 = fresh_mirror prev msg;
           s1 = fold store_entry entries s0;
           s2 = s1\<lparr>children := fold add_child entries (children s1)\<rparr>;
           s3 = fold order_children (children s2) s2;
           s4 = merge_counts (sn_directChildCounts msg) s3
       in Inr (evictToCap s4 mirrorCap (activeSet s4)))"

section \<open>Delta\<close>

definition apply_visibility :: "visibility option \<Rightarrow> mirror \<Rightarrow> mirror" where
  "apply_visibility vo s =
     (case vo of
        None \<Rightarrow> s
      | Some v \<Rightarrow> s\<lparr>showHiddenFiles := vis_hidden v, showIgnoredFiles := vis_ignored v,
          compactFolders := (case vis_compact v of Some b \<Rightarrow> b | None \<Rightarrow> False),
          projectionVersion := projectionVersion s + 1\<rparr>)"

definition coarsen :: "int \<Rightarrow> mirror \<Rightarrow> mirror" where
  "coarsen rootId s = s\<lparr>
     children := jm_delete rootId (children s),
     orderedChildren := jset_del rootId (orderedChildren s),
     pendingExpansions := jset_add rootId (pendingExpansions s) \<rparr>"

definition incoming_child_lists :: "inbound_delta \<Rightarrow> reducer_error + (int, int list) jmap" where
  "incoming_child_lists msg =
     (case de_childListsBin msg of
        Some bs \<Rightarrow> lift_error ChildListError (decodeChildLists bs)
      | None \<Rightarrow> Inr (case de_childLists msg of Some ls \<Rightarrow> ls | None \<Rightarrow> []))"

definition add_opt :: "int option \<Rightarrow> int jset \<Rightarrow> int jset" where
  "add_opt po s = (case po of Some p \<Rightarrow> jset_add p s | None \<Rightarrow> s)"

text \<open>The parents a merged entry asks to rebuild.\<close>

definition entry_rebuilds ::
  "int jset \<Rightarrow> client_entry option \<Rightarrow> client_entry \<Rightarrow> int jset \<Rightarrow> int jset"
where
  "entry_rebuilds viewport prev e parents =
     (case prev of
        Some pe \<Rightarrow>
          if ce_parentId pe \<noteq> ce_parentId e
          then add_opt (ce_parentId e) (add_opt (ce_parentId pe) parents)
          else parents
      | None \<Rightarrow>
          if ce_parentId e \<noteq> None \<and> ce_id e \<notin> set viewport
          then add_opt (ce_parentId e) parents else parents)"

definition merge_entry :: "int jset \<Rightarrow> client_entry \<Rightarrow> mirror \<times> int jset \<Rightarrow> mirror \<times> int jset" where
  "merge_entry viewport e sp =
     (case sp of (s, parents) \<Rightarrow>
        (store_entry e s, entry_rebuilds viewport (jm_get (byId s) (ce_id e)) e parents))"

definition remove_entry :: "int \<Rightarrow> mirror \<times> int jset \<Rightarrow> mirror \<times> int jset" where
  "remove_entry cid sp =
     (case sp of (s, parents) \<Rightarrow>
        (drop_aliases cid s,
         case jm_get (byId s) cid of
           Some prev \<Rightarrow> add_opt (ce_parentId prev) parents
         | None \<Rightarrow> parents))"

text \<open>Clear the spinner when the frame counts the parent's children and no load task owns it.\<close>

definition settle_pending :: "(int, int) jmap \<Rightarrow> int \<Rightarrow> mirror \<Rightarrow> mirror" where
  "settle_pending counts p s =
     (if \<not> jm_has (directoryLoads s) p \<and> jm_has counts p
      then s\<lparr>pendingExpansions := jset_del p (pendingExpansions s)\<rparr> else s)"

definition group_by_parent :: "int jset \<Rightarrow> (int, client_entry) jmap \<Rightarrow> (int, int list) jmap" where
  "group_by_parent parents by_id =
     fold (\<lambda>(cid, e) m.
       case ce_parentId e of
         None \<Rightarrow> m
       | Some p \<Rightarrow>
         if p \<notin> set parents then m
         else (case jm_get m p of
                 None \<Rightarrow> jm_set p [cid] m
               | Some ids \<Rightarrow> jm_set p (ids @ [cid]) m)) by_id []"

definition rebuild_parent ::
  "(int, int list) jmap \<Rightarrow> (int, int) jmap \<Rightarrow> int \<Rightarrow> mirror \<Rightarrow> mirror"
where
  "rebuild_parent byParent counts p s =
     (let fresh = (case jm_get byParent p of Some ids \<Rightarrow> ids | None \<Rightarrow> []);
          s1 = (if length fresh = 0 then s\<lparr>children := jm_delete p (children s)\<rparr>
                else s\<lparr>children := jm_set p fresh (children s)\<rparr>);
          s2 = s1\<lparr>orderedChildren := jset_del p (orderedChildren s1)\<rparr>
      in settle_pending counts p s2)"

definition install_list :: "(int, int) jmap \<Rightarrow> int \<times> int list \<Rightarrow> mirror \<Rightarrow> mirror" where
  "install_list counts kv s =
     settle_pending counts (fst kv)
       (s\<lparr>children := jm_set (fst kv) (snd kv) (children s),
          orderedChildren := jset_add (fst kv) (orderedChildren s)\<rparr>)"

definition decorate ::
  "(int, decoration list) jmap \<Rightarrow> int \<Rightarrow> mirror \<Rightarrow> mirror"
where
  "decorate parsed cid s =
     (case jm_get parsed cid of
        None \<Rightarrow> s\<lparr>decorations := jm_delete cid (decorations s)\<rparr>
      | Some decs \<Rightarrow>
          if length decs = 0 then s\<lparr>decorations := jm_delete cid (decorations s)\<rparr>
          else s\<lparr>decorations := jm_set cid decs (decorations s)\<rparr>)"

definition apply_decorations :: "json_parsers \<Rightarrow> inbound_delta \<Rightarrow> mirror \<Rightarrow> mirror" where
  "apply_decorations J msg s =
     (let changed = (case de_decorationChangedIds msg of Some ids \<Rightarrow> ids | None \<Rightarrow> [])
      in if length changed > 0
         then let parsed = (case de_decorationsJson msg of
                    Some str \<Rightarrow>
                      if length str > 0
                      then (case parse_decorations J str of Some d \<Rightarrow> d | None \<Rightarrow> [])
                      else []
                  | None \<Rightarrow> []);
                  s1 = fold (decorate parsed) changed s
              in s1\<lparr>decorationVersion := decorationVersion s1 + 1\<rparr>
         else s)"

text \<open>Replacing the roots by an equal list keeps the old array; as a value that is the same list.\<close>

definition apply_roots :: "int list option \<Rightarrow> mirror \<Rightarrow> mirror" where
  "apply_roots ro s =
     (case ro of
        None \<Rightarrow> s
      | Some incoming \<Rightarrow> s\<lparr>roots := (if roots s = incoming then roots s else incoming)\<rparr>)"

text \<open>The part of \<open>applyDelta\<close> after its payloads are decoded, up to the eviction.\<close>

definition delta_head :: "inbound_delta \<Rightarrow> mirror \<Rightarrow> mirror" where
  "delta_head msg s =
     (let s1 = s\<lparr>treeVersion := max (treeVersion s) (de_version msg)\<rparr>;
          s2 = apply_visibility (de_visibility msg) s1;
          s3 = (case de_viewportIds msg of
                  None \<Rightarrow> s2 | Some ids \<Rightarrow> s2\<lparr>viewportIds := jset_of ids\<rparr>)
      in fold coarsen (de_coarseSubtrees msg) s3)"

definition delta_entries ::
  "inbound_delta \<Rightarrow> client_entry list \<Rightarrow> (int, int list) jmap \<Rightarrow> mirror \<Rightarrow> mirror \<times> int jset"
where
  "delta_entries msg entries ls s =
     (let viewport = jset_of (case de_viewportIds msg of Some ids \<Rightarrow> ids | None \<Rightarrow> []);
          parents0 = jset_of (case de_childSetChanged msg of Some ps \<Rightarrow> ps | None \<Rightarrow> []);
          s1 = (if length entries > 0 \<or> length ls > 0
                then s\<lparr>projectionVersion := projectionVersion s + 1\<rparr> else s);
          parents1 = fold jset_del (jm_keys ls) parents0
      in fold remove_entry (de_removedIds msg) (fold (merge_entry viewport) entries (s1, parents1)))"

definition delta_children ::
  "inbound_delta \<Rightarrow> (int, int list) jmap \<Rightarrow> mirror \<times> int jset \<Rightarrow> mirror"
where
  "delta_children msg ls sp =
     (case sp of (s, parents) \<Rightarrow>
        let counts = de_directChildCounts msg;
            s1 = (if length parents > 0
                  then fold (rebuild_parent (group_by_parent parents (byId s)) counts) parents s
                  else s)
        in fold (install_list counts) ls s1)"

definition delta_tail :: "json_parsers \<Rightarrow> inbound_delta \<Rightarrow> mirror \<Rightarrow> mirror" where
  "delta_tail J msg s =
     (let s1 = merge_counts (de_directChildCounts msg) s;
          s2 = s1\<lparr>volatileSubtrees := fold jset_add (de_subtreeDirty msg) (volatileSubtrees s1)\<rparr>;
          s3 = s2\<lparr>volatileSubtrees := fold jset_del (de_subtreeResynced msg) (volatileSubtrees s2)\<rparr>;
          s4 = s3\<lparr>lruTouch := fold jm_delete (de_removedIds msg) (lruTouch s3)\<rparr>;
          s5 = apply_decorations J msg s4;
          s6 = s5\<lparr>decorations := fold jm_delete (de_removedIds msg) (decorations s5)\<rparr>
      in apply_roots (de_roots msg) s6)"

definition delta_merged ::
  "json_parsers \<Rightarrow> inbound_delta \<Rightarrow> client_entry list \<Rightarrow> (int, int list) jmap \<Rightarrow> mirror \<Rightarrow> mirror"
where
  "delta_merged J msg entries ls s =
     delta_tail J msg (delta_children msg ls (delta_entries msg entries ls (delta_head msg s)))"

definition applyDelta ::
  "json_parsers \<Rightarrow> mirror \<Rightarrow> inbound_delta \<Rightarrow> nat \<Rightarrow> reducer_error + mirror"
where
  "applyDelta J state msg mirrorCap =
     (let nxt = cloneMirror state
      in rbind (incoming_child_lists msg) (\<lambda>ls.
         rbind (decodeDeltaEntryPayload J msg) (\<lambda>entries.
         let merged = delta_merged J msg entries ls nxt
         in Inr (evictToCap merged mirrorCap (activeSet merged)))))"

section \<open>Directory loads and lookups\<close>

datatype load_msg_state = LoadStarted | LoadComplete | LoadFailed | LoadCancelled

record inbound_directory_load =
  il_id :: int
  il_generation :: int
  il_state :: load_msg_state
  il_error :: "(string \<times> string) option"

definition applyDirectoryLoad :: "mirror \<Rightarrow> inbound_directory_load \<Rightarrow> mirror" where
  "applyDirectoryLoad state msg =
     (let nxt = cloneMirror state; i = il_id msg
      in if (case jm_get (directoryLoads nxt) i of
               Some current \<Rightarrow> il_generation msg < dl_generation current | None \<Rightarrow> False)
         then state
         else let s = (case il_state msg of
                LoadStarted \<Rightarrow> nxt\<lparr>
                  directoryLoads := jm_set i \<lparr>dl_generation = il_generation msg, dl_state = Loading\<rparr>
                    (directoryLoads nxt),
                  pendingExpansions := jset_add i (pendingExpansions nxt)\<rparr>
              | LoadFailed \<Rightarrow> nxt\<lparr>
                  directoryLoads := jm_set i \<lparr>dl_generation = il_generation msg,
                      dl_state = LoadError (case il_error msg of
                         Some e \<Rightarrow> e | None \<Rightarrow> (''EUNKNOWN'', ''Directory listing failed''))\<rparr>
                    (directoryLoads nxt),
                  pendingExpansions := jset_del i (pendingExpansions nxt)\<rparr>
              | _ \<Rightarrow> nxt\<lparr>
                  directoryLoads := jm_delete i (directoryLoads nxt),
                  pendingExpansions := jset_del i (pendingExpansions nxt)\<rparr>)
              in s\<lparr>projectionVersion := projectionVersion s + 1\<rparr>)"

definition hydrateLookupEntries :: "mirror \<Rightarrow> client_entry list \<Rightarrow> int \<Rightarrow> nat \<Rightarrow> mirror" where
  "hydrateLookupEntries state entries version mirrorCap =
     (if length entries = 0 then state
      else let nxt = cloneMirror state;
               s1 = nxt\<lparr>treeVersion := max (treeVersion nxt) version,
                        projectionVersion := projectionVersion nxt + 1\<rparr>;
               active0 = activeSet s1;
               (s2, active) = fold (\<lambda>e (s, act). (store_entry e s, jset_add (ce_id e) act))
                                entries (s1, active0)
           in evictToCap s2 mirrorCap active)"

end
