(* ===== verification/Mirror_Invariant.thy ===== *)
theory Mirror_Invariant
  imports Mirror_Reducer
begin

text \<open>
  What the reducer guarantees: eviction removes the least recently touched inactive entries and no
  more than needed, every frame keeps the mirror well formed, versions never go back, and the child
  lists a frame carries are the ones the client shows.
\<close>

section \<open>Eviction\<close>

lemma evict_cmp_le:
  "evict_cmp a b \<le> 0 \<longleftrightarrow> snd a < snd b \<or> snd a = snd b \<and> fst a \<le> fst b"
  by (auto simp: evict_cmp_def)

interpretation evict_order: js_total_comparator evict_cmp
  by unfold_locales (auto simp: evict_cmp_le prod_eq_iff)

lemma evict_loop_fold: "evict_loop n cs s = fold evict_one (map fst (take n cs)) s"
  by (induction n cs s rule: evict_loop.induct) (auto simp: take_Cons' split: if_splits)

definition victims :: "mirror \<Rightarrow> nat \<Rightarrow> int jset \<Rightarrow> int list" where
  "victims s cap act =
     map fst (take (length (byId s) - cap) (js_sort evict_cmp (candidates s act)))"

lemma evictToCap_eq: "evictToCap s cap act = fold evict_one (victims s cap act) s"
  by (simp add: evictToCap_def evict_loop_fold victims_def)

lemma evict_one_fields [simp]:
  "byId (evict_one c s) = jm_delete c (byId s)"
  "children (evict_one c s) = jm_delete c (children s)"
  "orderedChildren (evict_one c s) = jset_del c (orderedChildren s)"
  "directChildCounts (evict_one c s) = jm_delete c (directChildCounts s)"
  "pendingExpansions (evict_one c s) = jset_del c (pendingExpansions s)"
  "directoryLoads (evict_one c s) = jm_delete c (directoryLoads s)"
  "expanded (evict_one c s) = jset_del c (expanded s)"
  "viewportIds (evict_one c s) = jset_del c (viewportIds s)"
  "volatileSubtrees (evict_one c s) = jset_del c (volatileSubtrees s)"
  "lruTouch (evict_one c s) = jm_delete c (lruTouch s)"
  "roots (evict_one c s) = roots s" "treeVersion (evict_one c s) = treeVersion s"
  "projectionVersion (evict_one c s) = projectionVersion s"
  "decorationVersion (evict_one c s) = decorationVersion s"
  "decorations (evict_one c s) = decorations s" "lruCounter (evict_one c s) = lruCounter s"
  "showHiddenFiles (evict_one c s) = showHiddenFiles s"
  "showIgnoredFiles (evict_one c s) = showIgnoredFiles s"
  "compactFolders (evict_one c s) = compactFolders s"
  by (simp_all add: evict_one_def drop_aliases_def Let_def)

text \<open>A fold of operations that commute with a projection.\<close>

lemma fold_field: "(\<And>x s. g (f x s) = h x (g s)) \<Longrightarrow> g (fold f xs s) = fold h xs (g s)"
  by (induction xs arbitrary: s) auto

lemma fold_keeps: "(\<And>x s. g (f x s) = g s) \<Longrightarrow> g (fold f xs s) = g s"
  by (induction xs arbitrary: s) auto

lemma fold_removeAll: "fold removeAll xs ys = filter (\<lambda>y. y \<notin> set xs) ys"
  by (induction xs arbitrary: ys) (auto simp: removeAll_filter_not_eq intro!: filter_cong)

lemma evictToCap_fields [simp]:
  "roots (evictToCap s cap act) = roots s" "treeVersion (evictToCap s cap act) = treeVersion s"
  "projectionVersion (evictToCap s cap act) = projectionVersion s"
  "decorationVersion (evictToCap s cap act) = decorationVersion s"
  "decorations (evictToCap s cap act) = decorations s"
  "lruCounter (evictToCap s cap act) = lruCounter s"
  "showHiddenFiles (evictToCap s cap act) = showHiddenFiles s"
  "showIgnoredFiles (evictToCap s cap act) = showIgnoredFiles s"
  "compactFolders (evictToCap s cap act) = compactFolders s"
  unfolding evictToCap_eq by (rule fold_keeps, simp)+

lemma evictToCap_maps:
  "byId (evictToCap s cap act) = fold jm_delete (victims s cap act) (byId s)"
  "children (evictToCap s cap act) = fold jm_delete (victims s cap act) (children s)"
  "directChildCounts (evictToCap s cap act) = fold jm_delete (victims s cap act) (directChildCounts s)"
  "directoryLoads (evictToCap s cap act) = fold jm_delete (victims s cap act) (directoryLoads s)"
  "lruTouch (evictToCap s cap act) = fold jm_delete (victims s cap act) (lruTouch s)"
  "orderedChildren (evictToCap s cap act) = fold jset_del (victims s cap act) (orderedChildren s)"
  "pendingExpansions (evictToCap s cap act) = fold jset_del (victims s cap act) (pendingExpansions s)"
  "expanded (evictToCap s cap act) = fold jset_del (victims s cap act) (expanded s)"
  "viewportIds (evictToCap s cap act) = fold jset_del (victims s cap act) (viewportIds s)"
  "volatileSubtrees (evictToCap s cap act) = fold jset_del (victims s cap act) (volatileSubtrees s)"
  unfolding evictToCap_eq by (rule fold_field, simp)+

lemma set_candidates:
  "fst ` set (candidates s act) = {c \<in> fst ` set (byId s). c \<notin> set act}"
  by (force simp: candidates_def)

lemma victims_subset: "set (victims s cap act) \<subseteq> {c \<in> fst ` set (byId s). c \<notin> set act}"
proof -
  have "set (victims s cap act) \<subseteq> fst ` set (candidates s act)"
    unfolding victims_def by (force dest: in_set_takeD)
  then show ?thesis unfolding set_candidates .
qed

lemma active_not_victim: "c \<in> set act \<Longrightarrow> c \<notin> set (victims s cap act)"
  using victims_subset by blast

lemma distinct_victims:
  assumes "jm_wf (byId s)"
  shows "distinct (victims s cap act)"
proof -
  have c: "map fst (candidates s act) = filter (\<lambda>c. c \<notin> set act) (jm_keys (byId s))"
    by (simp add: candidates_def comp_def)
  have "distinct (map fst (js_sort evict_cmp (candidates s act))) = distinct (map fst (candidates s act))"
    by (rule mset_eq_imp_distinct_iff) (simp only: mset_map mset_js_sort)
  then have "distinct (map fst (js_sort evict_cmp (candidates s act)))"
    using assms by (simp add: c jm_wf_def)
  then show ?thesis unfolding victims_def take_map [symmetric] by (rule distinct_take)
qed

definition active_count :: "mirror \<Rightarrow> int jset \<Rightarrow> nat" where
  "active_count s act = length (filter (\<lambda>c. c \<in> set act) (jm_keys (byId s)))"

lemma length_victims:
  "length (victims s cap act) = min (length (byId s) - cap) (length (byId s) - active_count s act)"
proof -
  have "length (candidates s act) + active_count s act = length (byId s)"
    using sum_length_filter_compl [of "\<lambda>c. c \<in> set act" "jm_keys (byId s)"]
    by (simp add: candidates_def active_count_def add.commute)
  then show ?thesis by (simp add: victims_def)
qed

lemma length_fold_delete:
  "jm_wf m \<Longrightarrow> distinct ks \<Longrightarrow> set ks \<subseteq> fst ` set m \<Longrightarrow>
   length (fold jm_delete ks m) = length m - length ks"
proof (induction ks arbitrary: m)
  case (Cons k ks)
  then have "jm_has m k" by (simp add: jm_has_iff)
  moreover have "set ks \<subseteq> fst ` set (jm_delete k m)" using Cons.prems by auto
  ultimately show ?case
    using Cons.IH [of "jm_delete k m"] Cons.prems by (simp add: length_jm_delete)
qed simp

lemma length_evictToCap:
  assumes "jm_wf (byId s)"
  shows "length (byId (evictToCap s cap act)) =
    (if length (byId s) \<le> cap then length (byId s) else max cap (active_count s act))"
proof -
  have "active_count s act \<le> length (byId s)"
    unfolding active_count_def by (metis length_filter_le length_map)
  moreover have "set (victims s cap act) \<subseteq> fst ` set (byId s)"
    using victims_subset by blast
  then have "length (byId (evictToCap s cap act)) = length (byId s) - length (victims s cap act)"
    unfolding evictToCap_maps by (intro length_fold_delete assms distinct_victims)
  ultimately show ?thesis unfolding length_victims by auto
qed

text \<open>A victim sorts before every inactive entry that stays.\<close>

lemma victim_older:
  assumes wf: "jm_wf (byId s)" and x: "x \<in> set (victims s cap act)"
    and y: "y \<in> fst ` set (byId s)" "y \<notin> set act" "y \<notin> set (victims s cap act)"
  shows "touch_of s x < touch_of s y \<or> touch_of s x = touch_of s y \<and> x < y"
proof -
  let ?S = "js_sort evict_cmp (candidates s act)" and ?n = "length (byId s) - cap"
  have cand: "c \<in> set (candidates s act) \<Longrightarrow> snd c = touch_of s (fst c)" for c
    by (auto simp: candidates_def)
  from x obtain a where a: "a \<in> set (take ?n ?S)" "fst a = x" by (auto simp: victims_def)
  have "(y, touch_of s y) \<in> set ?S" using y(1,2) by (force simp: candidates_def)
  then obtain b where b: "b \<in> set ?S" "fst b = y" by force
  have "b \<notin> set (take ?n ?S)" using y(3) b(2) by (force simp: victims_def)
  with b(1) have b': "b \<in> set (drop ?n ?S)" by (metis append_take_drop_id Un_iff set_append)
  have "sorted_wrt (\<lambda>a b. evict_cmp a b \<le> 0) (take ?n ?S @ drop ?n ?S)"
    using evict_order.sorted_js_sort [of "candidates s act"] by simp
  then have "evict_cmp a b \<le> 0" using a(1) b' unfolding sorted_wrt_append by blast
  moreover have "snd a = touch_of s x" "snd b = touch_of s y"
    using cand a b by (auto dest: in_set_takeD)
  moreover have "x \<noteq> y" using x y(3) by blast
  ultimately show ?thesis using a(2) b(2) by (auto simp: evict_cmp_le)
qed

section \<open>Well-formedness\<close>

text \<open>
  The invariant up to a set \<open>R\<close> of removed ids whose touch times are still to be dropped; with it,
  every touch time is positive and not in the future.
\<close>

definition wf_upto :: "int set \<Rightarrow> mirror \<Rightarrow> bool" where
  "wf_upto R m \<longleftrightarrow>
     jm_wf (byId m) \<and> jm_wf (children m) \<and> distinct (orderedChildren m)
     \<and> jm_wf (directChildCounts m) \<and> distinct (pendingExpansions m) \<and> jm_wf (directoryLoads m)
     \<and> distinct (expanded m) \<and> distinct (viewportIds m) \<and> jm_wf (decorations m)
     \<and> distinct (volatileSubtrees m) \<and> jm_wf (lruTouch m)
     \<and> (\<forall>k e. jm_get (byId m) k = Some e \<longrightarrow> ce_id e = k)
     \<and> (\<forall>k t. jm_get (lruTouch m) k = Some t \<longrightarrow>
          (jm_has (byId m) k \<or> k \<in> R) \<and> 0 < t \<and> t \<le> lruCounter m)
     \<and> 0 \<le> lruCounter m"

definition mirror_inv :: "mirror \<Rightarrow> bool" where
  "mirror_inv m \<longleftrightarrow>
     mirror_wf m \<and> 0 \<le> lruCounter m \<and> list_all (\<lambda>(k, t). 0 < t \<and> t \<le> lruCounter m) (lruTouch m)"

lemma jm_wf_get: "jm_wf m \<Longrightarrow> jm_get m k = Some v \<longleftrightarrow> (k, v) \<in> set m"
  by (simp add: jm_wf_def)

lemma mirror_inv_iff: "mirror_inv m \<longleftrightarrow> wf_upto {} m"
proof (cases "jm_wf (byId m) \<and> jm_wf (lruTouch m)")
  case True
  then show ?thesis
    by (auto simp: mirror_inv_def mirror_wf_def wf_upto_def jm_wf_get list_all_iff)
qed (auto simp: mirror_inv_def mirror_wf_def wf_upto_def)

lemma wf_drop_aliases: "wf_upto R m \<Longrightarrow> wf_upto (insert c R) (drop_aliases c m)"
  by (auto simp: wf_upto_def drop_aliases_def distinct_removeAll)

lemma wf_evict_one: "wf_upto R m \<Longrightarrow> wf_upto R (evict_one c m)"
  by (auto simp: wf_upto_def distinct_removeAll)

lemma wf_evictToCap: "wf_upto R m \<Longrightarrow> wf_upto R (evictToCap m cap act)"
  unfolding evictToCap_eq by (rule fold_invariant [where Q = "\<lambda>_. True"]) (auto intro: wf_evict_one)

lemma keys_compressed: "map fst (compressed tm) = map fst tm"
  by (simp add: compressed_def del: upt_Suc)

lemma compressed_bound:
  assumes "(k, t) \<in> set (compressed tm)"
  shows "k \<in> fst ` set tm \<and> 0 < t \<and> t \<le> int (length tm)"
proof -
  from assms have "k \<in> set (jm_keys tm)" "t \<in> set (map int [1..<Suc (length tm)])"
    unfolding compressed_def by (auto dest: set_zip_leftD set_zip_rightD)
  then show ?thesis by auto
qed

lemma jm_wf_compressed [simp]: "jm_wf (compressed tm) = jm_wf tm"
  by (simp add: jm_wf_def keys_compressed)

lemma touch_times_le_size:
  assumes "wf_upto {} m"
  shows "length (lruTouch m) \<le> length (byId m)"
proof -
  have "set (map fst (lruTouch m)) \<subseteq> set (map fst (byId m))"
    using assms by (auto simp: wf_upto_def jm_has_iff jm_wf_get)
  then have "card (set (map fst (lruTouch m))) \<le> card (set (map fst (byId m)))"
    by (rule card_mono [rotated]) simp
  moreover have "card (set (map fst (lruTouch m))) = length (lruTouch m)"
    "card (set (map fst (byId m))) = length (byId m)"
    using assms by (metis distinct_card length_map wf_upto_def jm_wf_def)+
  ultimately show ?thesis by simp
qed

lemma touch_fields [simp]:
  "byId (touch c s) = byId s" "children (touch c s) = children s"
  "orderedChildren (touch c s) = orderedChildren s"
  "directChildCounts (touch c s) = directChildCounts s"
  "pendingExpansions (touch c s) = pendingExpansions s"
  "directoryLoads (touch c s) = directoryLoads s" "expanded (touch c s) = expanded s"
  "viewportIds (touch c s) = viewportIds s" "roots (touch c s) = roots s"
  "treeVersion (touch c s) = treeVersion s" "projectionVersion (touch c s) = projectionVersion s"
  "decorationVersion (touch c s) = decorationVersion s" "decorations (touch c s) = decorations s"
  "volatileSubtrees (touch c s) = volatileSubtrees s"
  "showHiddenFiles (touch c s) = showHiddenFiles s"
  "showIgnoredFiles (touch c s) = showIgnoredFiles s" "compactFolders (touch c s) = compactFolders s"
  by (simp_all add: touch_def Let_def)

lemma wf_touch:
  assumes "wf_upto {} m" "jm_has (byId m) c"
  shows "wf_upto {} (touch c m)"
proof (cases "lruCounter m + 1 \<ge> MAX_SAFE_INTEGER")
  case True
  have "byId m \<noteq> []" using assms(2) by auto
  with True assms touch_times_le_size [OF assms(1)] show ?thesis
    by (auto simp: wf_upto_def touch_def Let_def jm_has_iff jm_wf_get dest!: compressed_bound split: if_splits)
next
  case False
  with assms show ?thesis
    by (auto simp: wf_upto_def touch_def Let_def split: if_splits) (fastforce)+
qed

lemma wf_store_entry:
  assumes "wf_upto {} m"
  shows "wf_upto {} (store_entry e m)"
  unfolding store_entry_def
  by (rule wf_touch) (use assms in \<open>auto simp: wf_upto_def\<close>)

lemma wf_coarsen: "wf_upto R m \<Longrightarrow> wf_upto R (coarsen c m)"
  by (auto simp: wf_upto_def coarsen_def distinct_removeAll)

lemma wf_visibility: "wf_upto R m \<Longrightarrow> wf_upto R (apply_visibility v m)"
  by (cases v) (auto simp: wf_upto_def apply_visibility_def)

lemma wf_delta_head: "wf_upto R m \<Longrightarrow> wf_upto R (delta_head msg m)"
proof -
  assume "wf_upto R m"
  then have "wf_upto R (apply_visibility (de_visibility msg)
      (m\<lparr>treeVersion := max (treeVersion m) (de_version msg)\<rparr>))"
    by (intro wf_visibility) (simp add: wf_upto_def)
  then have "wf_upto R (case de_viewportIds msg of
      None \<Rightarrow> apply_visibility (de_visibility msg) (m\<lparr>treeVersion := max (treeVersion m) (de_version msg)\<rparr>)
    | Some ids \<Rightarrow> apply_visibility (de_visibility msg)
        (m\<lparr>treeVersion := max (treeVersion m) (de_version msg)\<rparr>)\<lparr>viewportIds := jset_of ids\<rparr>)"
    by (auto simp: wf_upto_def split: option.split)
  then show ?thesis
    unfolding delta_head_def Let_def
    by (rule fold_invariant [where Q = "\<lambda>_. True", rotated]) (auto intro: wf_coarsen)
qed

lemma wf_merge_entries:
  "wf_upto {} (fst sp) \<Longrightarrow> wf_upto {} (fst (fold (merge_entry vp) es sp))"
  by (induction es arbitrary: sp) (simp_all add: merge_entry_def wf_store_entry case_prod_beta)

lemma wf_remove_entries:
  "wf_upto R (fst sp) \<Longrightarrow> wf_upto (set ids \<union> R) (fst (fold remove_entry ids sp))"
proof (induction ids arbitrary: sp R)
  case (Cons i ids)
  then have "wf_upto (insert i R) (fst (remove_entry i sp))"
    by (simp add: remove_entry_def case_prod_beta wf_drop_aliases)
  from Cons.IH [OF this] show ?case by simp
qed simp

lemma wf_delta_entries:
  assumes "wf_upto {} m"
  shows "wf_upto (set (de_removedIds msg)) (fst (delta_entries msg es ls m))"
proof -
  have "wf_upto {} (fst (if length es > 0 \<or> length ls > 0
      then m\<lparr>projectionVersion := projectionVersion m + 1\<rparr> else m, ps))" for ps :: "int jset"
    using assms by (simp add: wf_upto_def)
  from wf_remove_entries [OF wf_merge_entries [OF this]] show ?thesis
    unfolding delta_entries_def Let_def by simp
qed

lemma wf_settle: "wf_upto R m \<Longrightarrow> wf_upto R (settle_pending counts p m)"
  by (auto simp: wf_upto_def settle_pending_def distinct_removeAll)

lemma wf_rebuild: "wf_upto R m \<Longrightarrow> wf_upto R (rebuild_parent g counts p m)"
  unfolding rebuild_parent_def Let_def
  by (rule wf_settle) (auto simp: wf_upto_def distinct_removeAll)

lemma wf_install: "wf_upto R m \<Longrightarrow> wf_upto R (install_list counts kv m)"
  unfolding install_list_def by (rule wf_settle) (auto simp: wf_upto_def)

lemma wf_delta_children: "wf_upto R (fst sp) \<Longrightarrow> wf_upto R (delta_children msg ls sp)"
  unfolding delta_children_def Let_def case_prod_beta
  by (rule fold_invariant [where Q = "\<lambda>_. True"])
     (auto intro: wf_install wf_rebuild fold_invariant [where Q = "\<lambda>_. True" and P = "wf_upto R"])

lemma wf_decorate: "wf_upto R m \<Longrightarrow> wf_upto R (decorate parsed c m)"
  by (auto simp: wf_upto_def decorate_def split: option.split)

lemma wf_apply_decorations: "wf_upto R m \<Longrightarrow> wf_upto R (apply_decorations J msg m)"
proof -
  assume "wf_upto R m"
  then have "wf_upto R (fold (decorate parsed) ids m)" for parsed ids
    by (rule fold_invariant [where Q = "\<lambda>_. True", rotated]) (auto intro: wf_decorate)
  then have "wf_upto R ((fold (decorate parsed) ids m)\<lparr>decorationVersion := v\<rparr>)" for parsed ids v
    by (simp add: wf_upto_def)
  with \<open>wf_upto R m\<close> show ?thesis by (simp add: apply_decorations_def Let_def)
qed

lemma wf_roots: "wf_upto R m \<Longrightarrow> wf_upto R (apply_roots ro m)"
  by (cases ro) (auto simp: wf_upto_def apply_roots_def)

lemma wf_counts: "wf_upto R m \<Longrightarrow> wf_upto R (merge_counts counts m)"
  by (simp add: wf_upto_def merge_counts_def jm_wf_fold_set)

lemma wf_drop_touch:
  "wf_upto (set ids) m \<Longrightarrow> wf_upto {} (m\<lparr>lruTouch := fold jm_delete ids (lruTouch m)\<rparr>)"
  by (auto simp: wf_upto_def jm_wf_fold_delete jm_get_fold_delete split: if_splits)

lemma wf_volatile:
  "wf_upto R m \<Longrightarrow> distinct vs \<Longrightarrow> wf_upto R (m\<lparr>volatileSubtrees := vs\<rparr>)"
  by (simp add: wf_upto_def)

lemma wf_decorations:
  "wf_upto R m \<Longrightarrow> jm_wf ds \<Longrightarrow> wf_upto R (m\<lparr>decorations := ds\<rparr>)"
  by (simp add: wf_upto_def)

lemma wf_upto_parts:
  "wf_upto R m \<Longrightarrow> distinct (volatileSubtrees m)" "wf_upto R m \<Longrightarrow> jm_wf (decorations m)"
  by (simp_all add: wf_upto_def)

lemma wf_delta_tail:
  "wf_upto (set (de_removedIds msg)) m \<Longrightarrow> wf_upto {} (delta_tail J msg m)"
proof -
  assume "wf_upto (set (de_removedIds msg)) m"
  then have 1: "wf_upto (set (de_removedIds msg)) (merge_counts (de_directChildCounts msg) m)"
    by (rule wf_counts)
  let ?c = "merge_counts (de_directChildCounts msg) m"
  have "wf_upto {} (?c\<lparr>volatileSubtrees := fold jset_del (de_subtreeResynced msg)
      (fold jset_add (de_subtreeDirty msg) (volatileSubtrees ?c)),
      lruTouch := fold jm_delete (de_removedIds msg) (lruTouch ?c)\<rparr>)"
    using wf_drop_touch [OF wf_volatile [OF 1]]
      distinct_fold_jset_del [OF distinct_fold_jset_add [OF wf_upto_parts(1) [OF 1]]] by simp
  then have "wf_upto {} (apply_decorations J msg (?c\<lparr>volatileSubtrees :=
      fold jset_del (de_subtreeResynced msg) (fold jset_add (de_subtreeDirty msg) (volatileSubtrees ?c)),
      lruTouch := fold jm_delete (de_removedIds msg) (lruTouch ?c)\<rparr>))"
    by (rule wf_apply_decorations)
  from wf_roots [OF wf_decorations [OF this jm_wf_fold_delete [OF wf_upto_parts(2) [OF this]]]]
  show ?thesis by (simp add: delta_tail_def Let_def)
qed

lemma wf_delta_merged: "wf_upto {} m \<Longrightarrow> wf_upto {} (delta_merged J msg es ls m)"
  unfolding delta_merged_def
  by (intro wf_delta_tail wf_delta_children wf_delta_entries wf_delta_head)

lemma applyDelta_eq:
  assumes "applyDelta J m msg cap = Inr m'"
  obtains ls es where "incoming_child_lists msg = Inr ls" "decodeDeltaEntryPayload J msg = Inr es"
    "m' = evictToCap (delta_merged J msg es ls m) cap (activeSet (delta_merged J msg es ls m))"
  using assms by (auto simp: applyDelta_def Let_def rbind_eq_Inr)

lemma inv_applyDelta: "mirror_inv m \<Longrightarrow> applyDelta J m msg cap = Inr m' \<Longrightarrow> mirror_inv m'"
  unfolding mirror_inv_iff by (elim applyDelta_eq) (simp add: wf_evictToCap wf_delta_merged)

lemma jm_wf_add_child: "jm_wf kids \<Longrightarrow> jm_wf (add_child e kids)"
  by (auto simp: add_child_def split: option.split)

lemma inv_applySnapshot:
  assumes "mirror_inv m" "applySnapshot J m msg cap = Inr m'"
  shows "mirror_inv m'"
proof -
  from assms(2) obtain es where m': "m' = (
      let s1 = fold store_entry es (fresh_mirror m msg);
          s2 = s1\<lparr>children := fold add_child es (children s1)\<rparr>;
          s3 = fold order_children (children s2) s2;
          s4 = merge_counts (sn_directChildCounts msg) s3
      in evictToCap s4 cap (activeSet s4))"
    by (auto simp: applySnapshot_def rbind_eq_Inr Let_def)
  define s1 where "s1 = fold store_entry es (fresh_mirror m msg)"
  define s2 where "s2 = s1\<lparr>children := fold add_child es (children s1)\<rparr>"
  have "wf_upto {} (fresh_mirror m msg)"
    using assms(1) unfolding mirror_inv_iff by (auto simp: wf_upto_def fresh_mirror_def)
  then have 1: "wf_upto {} s1"
    unfolding s1_def
    by (rule fold_invariant [where Q = "\<lambda>_. True", rotated]) (auto intro: wf_store_entry)
  then have "jm_wf (fold add_child es (children s1))"
    by (intro fold_invariant [where Q = "\<lambda>_. True" and P = jm_wf])
       (auto intro: jm_wf_add_child simp: wf_upto_def)
  with 1 have "wf_upto {} s2" by (simp add: s2_def wf_upto_def)
  then have "wf_upto {} (fold order_children (children s2) s2)"
    by (rule fold_invariant [where Q = "\<lambda>_. True", rotated])
       (auto simp: wf_upto_def order_children_def)
  then show ?thesis
    unfolding mirror_inv_iff m' Let_def s1_def [symmetric] s2_def [symmetric]
    by (intro wf_evictToCap wf_counts)
qed

lemma inv_applyDirectoryLoad: "mirror_inv m \<Longrightarrow> mirror_inv (applyDirectoryLoad m msg)"
  unfolding mirror_inv_iff
  by (cases "il_state msg")
     (auto simp: applyDirectoryLoad_def Let_def wf_upto_def distinct_removeAll split: option.split)

lemma hydrate_fold:
  "fold (\<lambda>e (s, act). (store_entry e s, jset_add (ce_id e) act)) es (s, act) =
     (fold store_entry es s, fold jset_add (map ce_id es) act)"
  by (induction es arbitrary: s act) simp_all

lemma hydrate_eq:
  "es \<noteq> [] \<Longrightarrow> hydrateLookupEntries m es v cap =
     (let s1 = m\<lparr>treeVersion := max (treeVersion m) v, projectionVersion := projectionVersion m + 1\<rparr>
      in evictToCap (fold store_entry es s1) cap (fold jset_add (map ce_id es) (activeSet s1)))"
  by (simp add: hydrateLookupEntries_def hydrate_fold Let_def)

lemma inv_hydrate:
  assumes "mirror_inv m"
  shows "mirror_inv (hydrateLookupEntries m es v cap)"
proof (cases "es = []")
  case False
  define s1 where
    "s1 = m\<lparr>treeVersion := max (treeVersion m) v, projectionVersion := projectionVersion m + 1\<rparr>"
  have "wf_upto {} s1" using assms unfolding mirror_inv_iff by (simp add: s1_def wf_upto_def)
  then have "wf_upto {} (fold store_entry es s1)"
    by (rule fold_invariant [where Q = "\<lambda>_. True", rotated]) (auto intro: wf_store_entry)
  then show ?thesis
    unfolding mirror_inv_iff hydrate_eq [OF False] Let_def s1_def [symmetric]
    by (rule wf_evictToCap)
qed (use assms in \<open>simp add: hydrateLookupEntries_def\<close>)

section \<open>What a frame leaves in each field\<close>

definition store_all :: "client_entry list \<Rightarrow> (int, client_entry) jmap \<Rightarrow> (int, client_entry) jmap" where
  "store_all es = fold (\<lambda>e. jm_set (ce_id e) e) es"

lemma jm_get_store_all:
  "jm_get (store_all es m) k =
     (case find (\<lambda>e. ce_id e = k) (rev es) of Some e \<Rightarrow> Some e | None \<Rightarrow> jm_get m k)"
proof (induction es arbitrary: m)
  case (Cons e es)
  have "find P (xs @ [x]) = (case find P xs of Some y \<Rightarrow> Some y | None \<Rightarrow> if P x then Some x else None)"
    for P :: "client_entry \<Rightarrow> bool" and xs x
    by (induction xs) auto
  with Cons show ?case by (auto simp: store_all_def split: option.split)
qed (simp add: store_all_def)

lemma store_entry_fields [simp]:
  "byId (store_entry e s) = jm_set (ce_id e) e (byId s)"
  "children (store_entry e s) = children s" "orderedChildren (store_entry e s) = orderedChildren s"
  "expanded (store_entry e s) = expanded s" "viewportIds (store_entry e s) = viewportIds s"
  "pendingExpansions (store_entry e s) = pendingExpansions s"
  "directChildCounts (store_entry e s) = directChildCounts s"
  "directoryLoads (store_entry e s) = directoryLoads s"
  "roots (store_entry e s) = roots s" "treeVersion (store_entry e s) = treeVersion s"
  by (simp_all add: store_entry_def)

lemma store_entries_fields [simp]:
  "byId (fold store_entry es s) = store_all es (byId s)"
  "children (fold store_entry es s) = children s"
  "orderedChildren (fold store_entry es s) = orderedChildren s"
  "expanded (fold store_entry es s) = expanded s"
  "viewportIds (fold store_entry es s) = viewportIds s"
  "pendingExpansions (fold store_entry es s) = pendingExpansions s"
  "directChildCounts (fold store_entry es s) = directChildCounts s"
  "directoryLoads (fold store_entry es s) = directoryLoads s"
  "roots (fold store_entry es s) = roots s" "treeVersion (fold store_entry es s) = treeVersion s"
  by (auto simp: store_all_def intro!: fold_keeps [of _ store_entry] fold_field [of byId store_entry])

lemma delta_head_fields [simp]:
  "byId (delta_head msg s) = byId s" "expanded (delta_head msg s) = expanded s"
  "roots (delta_head msg s) = roots s"
  "treeVersion (delta_head msg s) = max (treeVersion s) (de_version msg)"
proof -
  have c: "byId (fold coarsen cs t) = byId t" "expanded (fold coarsen cs t) = expanded t"
    "roots (fold coarsen cs t) = roots t" "treeVersion (fold coarsen cs t) = treeVersion t" for cs t
    by (auto simp: coarsen_def intro!: fold_keeps)
  show "byId (delta_head msg s) = byId s" "expanded (delta_head msg s) = expanded s"
    "roots (delta_head msg s) = roots s"
    "treeVersion (delta_head msg s) = max (treeVersion s) (de_version msg)"
    by (simp_all add: delta_head_def Let_def c apply_visibility_def split: option.split)
qed

lemma merge_entries_fst: "fst (fold (merge_entry vp) es sp) = fold store_entry es (fst sp)"
  by (induction es arbitrary: sp) (simp_all add: merge_entry_def case_prod_beta)

lemma remove_entries_fst: "fst (fold remove_entry ids sp) = fold drop_aliases ids (fst sp)"
  by (induction ids arbitrary: sp) (simp_all add: remove_entry_def case_prod_beta)

lemma drop_all_fields [simp]:
  "byId (fold drop_aliases ids s) = fold jm_delete ids (byId s)"
  "expanded (fold drop_aliases ids s) = fold jset_del ids (expanded s)"
  "roots (fold drop_aliases ids s) = roots s" "treeVersion (fold drop_aliases ids s) = treeVersion s"
  by (auto simp: drop_aliases_def intro!: fold_keeps fold_field [of byId] fold_field [of expanded])

lemma delta_entries_fields [simp]:
  "byId (fst (delta_entries msg es ls s)) = fold jm_delete (de_removedIds msg) (store_all es (byId s))"
  "expanded (fst (delta_entries msg es ls s)) = fold jset_del (de_removedIds msg) (expanded s)"
  "roots (fst (delta_entries msg es ls s)) = roots s"
  "treeVersion (fst (delta_entries msg es ls s)) = treeVersion s"
  by (simp_all add: delta_entries_def Let_def merge_entries_fst remove_entries_fst)

text \<open>The operations on child lists touch child lists and spinners only.\<close>

lemma settle_fields [simp]:
  "byId (settle_pending c p s) = byId s" "expanded (settle_pending c p s) = expanded s"
  "roots (settle_pending c p s) = roots s" "treeVersion (settle_pending c p s) = treeVersion s"
  "children (settle_pending c p s) = children s"
  "orderedChildren (settle_pending c p s) = orderedChildren s"
  by (simp_all add: settle_pending_def)

lemma rebuild_fields [simp]:
  "byId (rebuild_parent g c p s) = byId s" "expanded (rebuild_parent g c p s) = expanded s"
  "roots (rebuild_parent g c p s) = roots s" "treeVersion (rebuild_parent g c p s) = treeVersion s"
  "orderedChildren (rebuild_parent g c p s) = jset_del p (orderedChildren s)"
  by (simp_all add: rebuild_parent_def Let_def)

lemma install_fields [simp]:
  "byId (install_list c kv s) = byId s" "expanded (install_list c kv s) = expanded s"
  "roots (install_list c kv s) = roots s" "treeVersion (install_list c kv s) = treeVersion s"
  "children (install_list c kv s) = jm_set (fst kv) (snd kv) (children s)"
  "orderedChildren (install_list c kv s) = jset_add (fst kv) (orderedChildren s)"
  by (simp_all add: install_list_def)

lemma rebuild_all_fields [simp]:
  "byId (fold (rebuild_parent g c) ps s) = byId s"
  "expanded (fold (rebuild_parent g c) ps s) = expanded s"
  "roots (fold (rebuild_parent g c) ps s) = roots s"
  "treeVersion (fold (rebuild_parent g c) ps s) = treeVersion s"
  "orderedChildren (fold (rebuild_parent g c) ps s) = fold jset_del ps (orderedChildren s)"
  by (auto intro!: fold_keeps fold_field [of orderedChildren])

lemma install_all_fields [simp]:
  "byId (fold (install_list c) ls s) = byId s"
  "expanded (fold (install_list c) ls s) = expanded s"
  "roots (fold (install_list c) ls s) = roots s"
  "treeVersion (fold (install_list c) ls s) = treeVersion s"
  by (auto intro!: fold_keeps)

lemma install_all_children:
  "children (fold (install_list c) ls s) = fold (\<lambda>(k, v). jm_set k v) ls (children s)"
  "set (orderedChildren (fold (install_list c) ls s)) = fst ` set ls \<union> set (orderedChildren s)"
  by (induction ls arbitrary: s) auto

lemma delta_children_fields [simp]:
  "byId (delta_children msg ls sp) = byId (fst sp)"
  "expanded (delta_children msg ls sp) = expanded (fst sp)"
  "roots (delta_children msg ls sp) = roots (fst sp)"
  "treeVersion (delta_children msg ls sp) = treeVersion (fst sp)"
  by (simp_all add: delta_children_def Let_def case_prod_beta)

lemma decorate_fields [simp]:
  "byId (decorate d c s) = byId s" "expanded (decorate d c s) = expanded s"
  "roots (decorate d c s) = roots s" "treeVersion (decorate d c s) = treeVersion s"
  "children (decorate d c s) = children s" "orderedChildren (decorate d c s) = orderedChildren s"
  by (simp_all add: decorate_def split: option.split)

lemma apply_decorations_fields [simp]:
  "byId (apply_decorations J msg s) = byId s" "expanded (apply_decorations J msg s) = expanded s"
  "roots (apply_decorations J msg s) = roots s"
  "treeVersion (apply_decorations J msg s) = treeVersion s"
  "children (apply_decorations J msg s) = children s"
  "orderedChildren (apply_decorations J msg s) = orderedChildren s"
proof -
  have d: "byId (fold (decorate d) cs t) = byId t" "expanded (fold (decorate d) cs t) = expanded t"
    "roots (fold (decorate d) cs t) = roots t" "treeVersion (fold (decorate d) cs t) = treeVersion t"
    "children (fold (decorate d) cs t) = children t"
    "orderedChildren (fold (decorate d) cs t) = orderedChildren t" for d cs t
    by (auto intro!: fold_keeps)
  show "byId (apply_decorations J msg s) = byId s" "expanded (apply_decorations J msg s) = expanded s"
    "roots (apply_decorations J msg s) = roots s"
    "treeVersion (apply_decorations J msg s) = treeVersion s"
    "children (apply_decorations J msg s) = children s"
    "orderedChildren (apply_decorations J msg s) = orderedChildren s"
    by (simp_all add: apply_decorations_def Let_def d)
qed

lemma delta_tail_fields [simp]:
  "byId (delta_tail J msg s) = byId s" "expanded (delta_tail J msg s) = expanded s"
  "treeVersion (delta_tail J msg s) = treeVersion s"
  "roots (delta_tail J msg s) = (case de_roots msg of Some r \<Rightarrow> r | None \<Rightarrow> roots s)"
  "children (delta_tail J msg s) = children s"
  "orderedChildren (delta_tail J msg s) = orderedChildren s"
  by (simp_all add: delta_tail_def Let_def apply_roots_def merge_counts_def split: option.split)

lemma delta_merged_fields:
  "byId (delta_merged J msg es ls s) = fold jm_delete (de_removedIds msg) (store_all es (byId s))"
  "expanded (delta_merged J msg es ls s) = fold jset_del (de_removedIds msg) (expanded s)"
  "roots (delta_merged J msg es ls s) = (case de_roots msg of Some r \<Rightarrow> r | None \<Rightarrow> roots s)"
  "treeVersion (delta_merged J msg es ls s) = max (treeVersion s) (de_version msg)"
  by (simp_all add: delta_merged_def split: option.split)

lemma jm_get_rebuild_all:
  "jm_get (children (fold (rebuild_parent g c) ps s)) p =
     (if p \<in> set ps
      then (case jm_get g p of Some (x # xs) \<Rightarrow> Some (x # xs) | _ \<Rightarrow> None)
      else jm_get (children s) p)"
proof (induction ps arbitrary: s)
  case (Cons q ps)
  have "jm_get (children (rebuild_parent g c q s)) p =
      (if p = q then (case jm_get g p of Some (x # xs) \<Rightarrow> Some (x # xs) | _ \<Rightarrow> None)
       else jm_get (children s) p)"
    by (auto simp: rebuild_parent_def Let_def split: option.split list.split)
  with Cons [of "rebuild_parent g c q s"] show ?case by (cases "p = q") simp_all
qed simp

text \<open>The parents to rebuild only grow while entries are merged and removed.\<close>

lemma set_add_opt: "set s \<subseteq> set (add_opt po s)"
  by (auto simp: add_opt_def split: option.split)

lemma entry_rebuilds_grows: "set ps \<subseteq> set (entry_rebuilds vp prev e ps)"
proof -
  have "set ps \<subseteq> set (add_opt r (add_opt q ps))" for r q
    using set_add_opt by blast
  then show ?thesis using set_add_opt by (simp add: entry_rebuilds_def split: option.split)
qed

lemma merge_entries_grows: "set (snd sp) \<subseteq> set (snd (fold (merge_entry vp) es sp))"
proof (induction es arbitrary: sp)
  case (Cons e es)
  have "set (snd sp) \<subseteq> set (snd (merge_entry vp e sp))"
    using entry_rebuilds_grows by (simp add: merge_entry_def case_prod_beta)
  with Cons [of "merge_entry vp e sp"] show ?case by auto
qed simp

lemma remove_entries_grows: "set (snd sp) \<subseteq> set (snd (fold remove_entry ids sp))"
proof (induction ids arbitrary: sp)
  case (Cons i ids)
  have "set (snd sp) \<subseteq> set (snd (remove_entry i sp))"
    using set_add_opt by (simp add: remove_entry_def case_prod_beta split: option.split)
  with Cons [of "remove_entry i sp"] show ?case by auto
qed simp

lemma announced_parent_rebuilt:
  assumes "de_childSetChanged msg = Some ps" "p \<in> set ps" "\<not> jm_has ls p"
  shows "p \<in> set (snd (delta_entries msg es ls s))"
proof -
  have "p \<in> set (fold jset_del (jm_keys ls) (jset_of ps))"
    using assms(2,3) by (simp add: jm_has_iff)
  then have "p \<in> set (snd (fold (merge_entry v) es (t, fold jset_del (jm_keys ls) (jset_of ps))))" for v t
    using merge_entries_grows [of "(t, fold jset_del (jm_keys ls) (jset_of ps))" v es]
    by (auto simp del: set_fold_jset_del)
  then have "p \<in> set (snd (fold remove_entry R
      (fold (merge_entry v) es (t, fold jset_del (jm_keys ls) (jset_of ps)))))" for R v t
    by (rule subsetD [OF remove_entries_grows])
  with assms(1) show ?thesis by (simp add: delta_entries_def Let_def)
qed

lemma delta_children_lists:
  assumes "jm_wf ls"
  shows "jm_get (children (delta_children msg ls sp)) p =
     (case jm_get ls p of
        Some ids \<Rightarrow> Some ids
      | None \<Rightarrow>
        if p \<in> set (snd sp)
        then (case jm_get (group_by_parent (snd sp) (byId (fst sp))) p of
                Some (x # xs) \<Rightarrow> Some (x # xs) | _ \<Rightarrow> None)
        else jm_get (children (fst sp)) p)"
    and "p \<in> set (orderedChildren (delta_children msg ls sp)) \<longleftrightarrow>
       jm_has ls p \<or> p \<in> set (orderedChildren (fst sp)) \<and> p \<notin> set (snd sp)"
proof -
  let ?s1 = "if length (snd sp) > 0
      then fold (rebuild_parent (group_by_parent (snd sp) (byId (fst sp))) (de_directChildCounts msg))
        (snd sp) (fst sp) else fst sp"
  have d: "delta_children msg ls sp = fold (install_list (de_directChildCounts msg)) ls ?s1"
    by (simp add: delta_children_def Let_def case_prod_beta)
  show "jm_get (children (delta_children msg ls sp)) p =
     (case jm_get ls p of
        Some ids \<Rightarrow> Some ids
      | None \<Rightarrow>
        if p \<in> set (snd sp)
        then (case jm_get (group_by_parent (snd sp) (byId (fst sp))) p of
                Some (x # xs) \<Rightarrow> Some (x # xs) | _ \<Rightarrow> None)
        else jm_get (children (fst sp)) p)"
    unfolding d install_all_children(1) using assms
    by (simp add: jm_get_fold_set jm_wf_def jm_get_rebuild_all split: option.split)
  show "p \<in> set (orderedChildren (delta_children msg ls sp)) \<longleftrightarrow>
       jm_has ls p \<or> p \<in> set (orderedChildren (fst sp)) \<and> p \<notin> set (snd sp)"
    unfolding d install_all_children(2) by (auto simp: jm_has_iff)
qed

text \<open>Eviction leaves the active set alone.\<close>

lemma fold_jset_del_disjoint: "set xs \<inter> set ys = {} \<Longrightarrow> fold jset_del xs ys = ys"
  by (auto simp: fold_removeAll filter_id_conv)

lemma set_activeSet:
  "set (activeSet s) = set (roots s) \<union> set (expanded s) \<union> set (pendingExpansions s) \<union> set (viewportIds s)"
  by (auto simp: activeSet_def)

lemma distinct_activeSet: "distinct (activeSet s)"
  by (simp add: activeSet_def distinct_fold_jset_add)

lemma evict_keeps_active:
  assumes "set (activeSet s) \<subseteq> set act"
  shows "activeSet (evictToCap s cap act) = activeSet s"
    and "expanded (evictToCap s cap act) = expanded s"
    and "viewportIds (evictToCap s cap act) = viewportIds s"
    and "pendingExpansions (evictToCap s cap act) = pendingExpansions s"
proof -
  have *: "set (victims s cap act) \<inter> set (activeSet s) = {}"
    using assms active_not_victim by blast
  then show e: "expanded (evictToCap s cap act) = expanded s"
    and v: "viewportIds (evictToCap s cap act) = viewportIds s"
    and p: "pendingExpansions (evictToCap s cap act) = pendingExpansions s"
    unfolding set_activeSet evictToCap_maps by (blast intro: fold_jset_del_disjoint)+
  show "activeSet (evictToCap s cap act) = activeSet s" by (simp add: activeSet_def e v p)
qed

lemma active_count_le: "jm_wf (byId s) \<Longrightarrow> active_count s act \<le> length act"
proof -
  assume "jm_wf (byId s)"
  then have "distinct (filter (\<lambda>c. c \<in> set act) (jm_keys (byId s)))"
    unfolding jm_wf_def by (rule distinct_filter)
  then have "active_count s act = card (set (filter (\<lambda>c. c \<in> set act) (jm_keys (byId s))))"
    unfolding active_count_def by (rule distinct_card [symmetric])
  also have "\<dots> \<le> card (set act)" by (rule card_mono) auto
  also have "\<dots> \<le> length act" by (rule card_length)
  finally show ?thesis .
qed

lemma length_evict_active:
  assumes "jm_wf (byId s)"
  shows "length (byId (evictToCap s cap act)) \<le> max cap (length act)"
  using length_evictToCap [OF assms, of cap act] active_count_le [OF assms, of act] by auto

lemma evict_get:
  "jm_get (byId (evictToCap s cap act)) c = (if c \<in> set (victims s cap act) then None else jm_get (byId s) c)"
  by (simp add: evictToCap_maps jm_get_fold_delete)

section \<open>Reachable mirrors\<close>

text \<open>The frames a client applies, from an empty mirror on.\<close>

inductive mirror_reachable :: "json_parsers \<Rightarrow> mirror \<Rightarrow> bool" for J where
  start: "mirror_reachable J createMirror"
| snapshot: "mirror_reachable J m \<Longrightarrow> applySnapshot J m sn cap = Inr m' \<Longrightarrow> mirror_reachable J m'"
| delta: "mirror_reachable J m \<Longrightarrow> applyDelta J m de cap = Inr m' \<Longrightarrow> mirror_reachable J m'"
| load: "mirror_reachable J m \<Longrightarrow> mirror_reachable J (applyDirectoryLoad m il)"
| lookup: "mirror_reachable J m \<Longrightarrow> mirror_reachable J (hydrateLookupEntries m es v cap)"

lemma mirror_inv_create: "mirror_inv createMirror"
  by (simp add: mirror_inv_def createMirror_def mirror_wf_def)

lemma reachable_inv: "mirror_reachable J m \<Longrightarrow> mirror_inv m"
  by (induction rule: mirror_reachable.induct)
     (auto intro: mirror_inv_create inv_applySnapshot inv_applyDelta inv_applyDirectoryLoad inv_hydrate)

lemma mirror_inv_wf: "mirror_inv m \<Longrightarrow> jm_wf (byId m)"
  by (simp add: mirror_inv_def mirror_wf_def)

text \<open>An empty frame, the base of the concrete frames below.\<close>

definition empty_delta :: inbound_delta where
  "empty_delta = \<lparr>de_version = 0, de_changedIds = [], de_addedRows = None, de_viewportPatch = None,
     de_entriesJson = None, de_childSetChanged = None, de_removedIds = [], de_directChildCounts = [],
     de_childLists = None, de_childListsBin = None, de_coarseSubtrees = [], de_subtreeDirty = [],
     de_subtreeResynced = [], de_visibility = None, de_decorationChangedIds = None,
     de_decorationsJson = None, de_roots = None, de_viewportIds = None\<rparr>"

definition plain_entry :: "int \<Rightarrow> int option \<Rightarrow> int \<Rightarrow> client_entry" where
  "plain_entry i p k = \<lparr>ce_id = i, ce_parentId = p, ce_name = js ''n'', ce_kind = k, ce_size = 0,
     ce_mtimeMs = 0, ce_ctimeMs = 0, ce_symlinkTargetIsDir = None, ce_pathSegments = None,
     ce_isIgnored = False, ce_isReadonly = False, ce_isHidden = False\<rparr>"

definition no_json :: json_parsers where
  "no_json = \<lparr>parse_entries = (\<lambda>_. None), parse_decorations = (\<lambda>_. None)\<rparr>"

section \<open>Properties\<close>

text \<open>
  C3: every mirror a client can reach by applying frames is well formed: no map has a key twice and no
  set a member twice, an entry is stored under its own id, only held entries have a touch time, and
  touch times lie between 1 and the counter, also after the counter was compressed.
\<close>

theorem reachable_mirror_wf:
  assumes "mirror_reachable J m"
  shows "mirror_wf m \<and> list_all (\<lambda>(k, t). 0 < t \<and> t \<le> lruCounter m) (lruTouch m)"
  using reachable_inv [OF assms] by (simp add: mirror_inv_def)

theorem reachable_mirror_wf_witness:
  "mirror_wf (applyDirectoryLoad createMirror
     \<lparr>il_id = 4, il_generation = 1, il_state = LoadStarted, il_error = None\<rparr>)"
  using reachable_mirror_wf [OF mirror_reachable.load [OF mirror_reachable.start [of no_json]]] by blast

text \<open>
  C4: eviction to a cap. The active entries all stay; the size afterwards is the old one when it
  fitted, else the larger of the cap and the number of active entries held; an evicted entry was touched
  before every inactive entry that stays (ties by id), and nothing keyed by an evicted id remains in
  the child lists, counts, loads or touch times.
\<close>

theorem evict_to_cap_spec:
  assumes "jm_wf (byId s)"
  shows "let t = evictToCap s cap act in
    length (byId t) =
      (if length (byId s) \<le> cap then length (byId s)
       else max cap (length (filter (\<lambda>c. c \<in> set act) (jm_keys (byId s)))))
    \<and> (\<forall>c \<in> set act. jm_get (byId t) c = jm_get (byId s) c)
    \<and> (\<forall>x y. jm_has (byId s) x \<and> \<not> jm_has (byId t) x \<and> jm_has (byId t) y \<and> y \<notin> set act \<longrightarrow>
         touch_of s x < touch_of s y \<or> touch_of s x = touch_of s y \<and> x < y)
    \<and> (\<forall>x. jm_has (byId s) x \<and> \<not> jm_has (byId t) x \<longrightarrow>
         \<not> jm_has (children t) x \<and> \<not> jm_has (directChildCounts t) x
         \<and> \<not> jm_has (directoryLoads t) x \<and> \<not> jm_has (lruTouch t) x)"
proof -
  define t where "t = evictToCap s cap act"
  have get: "jm_has (byId t) x \<longleftrightarrow> jm_has (byId s) x \<and> x \<notin> set (victims s cap act)" for x
    by (simp add: t_def jm_has_def evict_get)
  have older: "touch_of s x < touch_of s y \<or> touch_of s x = touch_of s y \<and> x < y"
    if "jm_has (byId s) x" "\<not> jm_has (byId t) x" "jm_has (byId t) y" "y \<notin> set act" for x y
    using that victim_older [OF assms(1), of x cap act y]
    unfolding get by (simp add: jm_has_iff)
  have gone: "\<not> jm_has (children t) x \<and> \<not> jm_has (directChildCounts t) x
      \<and> \<not> jm_has (directoryLoads t) x \<and> \<not> jm_has (lruTouch t) x"
    if "jm_has (byId s) x" "\<not> jm_has (byId t) x" for x
    using that by (simp add: get) (simp add: t_def jm_has_def evictToCap_maps jm_get_fold_delete)
  show ?thesis
    unfolding t_def [symmetric] Let_def
    using length_evictToCap [OF assms(1), of cap act] older gone active_not_victim
    by (auto simp: t_def active_count_def evict_get)
qed

theorem evict_to_cap_spec_witness:
  "let s = createMirror\<lparr>byId := [(1, plain_entry 1 None 1), (2, plain_entry 2 (Some 1) 0),
             (3, plain_entry 3 (Some 1) 0)], lruTouch := [(1, 1), (2, 3), (3, 2)]\<rparr>
   in length (byId (evictToCap s 2 [1])) = 2 \<and> jm_keys (byId (evictToCap s 2 [1])) = [1, 2]"
proof -
  let ?s = "createMirror\<lparr>byId := [(1, plain_entry 1 None 1), (2, plain_entry 2 (Some 1) 0),
             (3, plain_entry 3 (Some 1) 0)], lruTouch := [(1, 1), (2, 3), (3, 2)]\<rparr>"
  have "jm_wf (byId ?s)" by (simp add: jm_wf_def)
  from evict_to_cap_spec [OF this, of 2 "[1]"] have "length (byId (evictToCap ?s 2 [1])) = 2"
    by (simp add: Let_def)
  moreover have "jm_keys (byId (evictToCap ?s 2 [1])) = [1, 2]" by code_simp
  ultimately show ?thesis by (simp add: Let_def)
qed

text \<open>
  C11: after a delta, an active id (root, expanded, pending or in the viewport) is absent when the frame
  removed it, else holds the last record the frame carried for it, else what it held before; the tree
  version is the maximum of the old one and the frame's; the mirror holds at most the cap, or the
  active set where that is larger.
\<close>

theorem delta_lookup:
  assumes "mirror_inv m" "applyDelta J m msg cap = Inr m'" "decodeDeltaEntryPayload J msg = Inr es"
    and "c \<in> set (activeSet m')"
  shows "jm_get (byId m') c =
      (if c \<in> set (de_removedIds msg) then None
       else case find (\<lambda>e. ce_id e = c) (rev es) of Some e \<Rightarrow> Some e | None \<Rightarrow> jm_get (byId m) c)
    \<and> treeVersion m' = max (treeVersion m) (de_version msg)
    \<and> length (byId m') \<le> max cap (length (activeSet m'))"
proof -
  from assms(2) obtain ls es' where "decodeDeltaEntryPayload J msg = Inr es'"
    and m'': "m' = evictToCap (delta_merged J msg es' ls m) cap (activeSet (delta_merged J msg es' ls m))"
    by (elim applyDelta_eq)
  with assms(3) have m': "m' = evictToCap (delta_merged J msg es ls m) cap (activeSet (delta_merged J msg es ls m))"
    by simp
  let ?d = "delta_merged J msg es ls m"
  have act: "activeSet m' = activeSet ?d" unfolding m' by (rule evict_keeps_active) simp
  have "wf_upto {} ?d" using assms(1) unfolding mirror_inv_iff by (rule wf_delta_merged)
  then have "jm_wf (byId ?d)" by (simp only: wf_upto_def)
  then have "length (byId m') \<le> max cap (length (activeSet m'))"
    unfolding act unfolding m' by (rule length_evict_active)
  moreover have "jm_get (byId m') c = jm_get (byId ?d) c"
    using active_not_victim [OF assms(4) [unfolded act], of ?d cap] unfolding m' evict_get by simp
  moreover have "treeVersion m' = max (treeVersion m) (de_version msg)"
    by (simp add: m' delta_merged_fields)
  moreover have "jm_get (byId ?d) c =
      (if c \<in> set (de_removedIds msg) then None
       else case find (\<lambda>e. ce_id e = c) (rev es) of Some e \<Rightarrow> Some e | None \<Rightarrow> jm_get (byId m) c)"
    by (simp add: delta_merged_fields jm_get_fold_delete jm_get_store_all)
  ultimately show ?thesis by simp
qed

theorem delta_lookup_witness:
  "\<exists>m'. applyDelta no_json (createMirror\<lparr>treeVersion := 7, roots := [1], byId := [(1, plain_entry 1 None 1)]\<rparr>)
       (empty_delta\<lparr>de_version := 3\<rparr>) 10 = Inr m'
     \<and> jm_get (byId m') 1 = Some (plain_entry 1 None 1) \<and> treeVersion m' = 7"
proof -
  let ?m = "createMirror\<lparr>treeVersion := 7, roots := [1], byId := [(1, plain_entry 1 None 1)]\<rparr>"
  let ?d = "empty_delta\<lparr>de_version := 3\<rparr>"
  have es: "decodeDeltaEntryPayload no_json ?d = Inr []" "incoming_child_lists ?d = Inr []"
    by (simp_all add: decodeDeltaEntryPayload_def decodeEntryPayload_def incoming_child_lists_def
        empty_delta_def)
  let ?d' = "delta_merged no_json ?d [] [] ?m"
  obtain m' where m': "applyDelta no_json ?m ?d 10 = Inr m'" "m' = evictToCap ?d' 10 (activeSet ?d')"
    by (simp add: applyDelta_def es Let_def)
  have "mirror_inv ?m"
    by (simp add: mirror_inv_def mirror_wf_def createMirror_def jm_wf_def plain_entry_def)
  moreover have "1 \<in> set (activeSet m')"
    by (simp add: m'(2) set_activeSet delta_merged_fields empty_delta_def)
  ultimately show ?thesis
    using delta_lookup [OF _ m'(1) es(1), of 1] m'(1) by (auto simp: createMirror_def empty_delta_def)
qed

text \<open>
  C12: child lists after a delta, for a parent that is active and not removed. A list the frame carries
  replaces the old one and is marked as the host's order. A parent the frame only announces loses that
  mark and is never recorded as empty: either its held children are listed or nothing is known.
\<close>

theorem delta_child_lists:
  assumes "applyDelta J m msg cap = Inr m'" "incoming_child_lists msg = Inr ls" "jm_wf ls"
    and "p \<in> set (activeSet m')"
  shows "(\<forall>ids. jm_get ls p = Some ids \<longrightarrow>
            jm_get (children m') p = Some ids \<and> p \<in> set (orderedChildren m'))
    \<and> (p \<in> set (case de_childSetChanged msg of Some ps \<Rightarrow> ps | None \<Rightarrow> []) \<and> \<not> jm_has ls p \<longrightarrow>
            jm_get (children m') p \<noteq> Some [] \<and> p \<notin> set (orderedChildren m'))"
proof -
  from assms(1) obtain ls' es where ls': "incoming_child_lists msg = Inr ls'"
    and m'': "m' = evictToCap (delta_merged J msg es ls' m) cap (activeSet (delta_merged J msg es ls' m))"
    by (elim applyDelta_eq)
  with assms(2) have m': "m' = evictToCap (delta_merged J msg es ls m) cap (activeSet (delta_merged J msg es ls m))"
    by simp
  let ?d = "delta_merged J msg es ls m"
  define sp where "sp = delta_entries msg es ls (delta_head msg m)"
  have act: "activeSet m' = activeSet ?d" unfolding m' by (rule evict_keeps_active) simp
  have nv: "p \<notin> set (victims ?d cap (activeSet ?d))"
    using assms(4) unfolding act by (rule active_not_victim)
  have c: "jm_get (children m') p = jm_get (children (delta_children msg ls sp)) p"
    using nv unfolding m' evictToCap_maps
    by (simp add: jm_get_fold_delete delta_merged_def sp_def)
  have o: "p \<in> set (orderedChildren m') \<longleftrightarrow> p \<in> set (orderedChildren (delta_children msg ls sp))"
    using nv unfolding m' evictToCap_maps by (simp add: delta_merged_def sp_def)
  have "p \<in> set (snd sp)"
    if "p \<in> set (case de_childSetChanged msg of Some ps \<Rightarrow> ps | None \<Rightarrow> [])" "\<not> jm_has ls p"
    using that
    by (cases "de_childSetChanged msg") (auto simp: sp_def intro: announced_parent_rebuilt)
  then show ?thesis
    unfolding c o delta_children_lists [OF assms(3)]
    by (auto simp: jm_has_def split: option.split list.split)
qed

theorem delta_child_lists_witness:
  "\<exists>m'. applyDelta no_json (createMirror\<lparr>expanded := [1]\<rparr>)
       (empty_delta\<lparr>de_childLists := Some [(1, [5, 4])]\<rparr>) 10 = Inr m'
     \<and> jm_get (children m') 1 = Some [5, 4] \<and> 1 \<in> set (orderedChildren m')"
proof -
  let ?m = "createMirror\<lparr>expanded := [1]\<rparr>" and ?d = "empty_delta\<lparr>de_childLists := Some [(1, [5, 4])]\<rparr>"
  have es: "decodeDeltaEntryPayload no_json ?d = Inr []" and ls: "incoming_child_lists ?d = Inr [(1, [5, 4])]"
    by (simp_all add: decodeDeltaEntryPayload_def decodeEntryPayload_def incoming_child_lists_def
        empty_delta_def)
  let ?d' = "delta_merged no_json ?d [] [(1, [5, 4])] ?m"
  obtain m' where m': "applyDelta no_json ?m ?d 10 = Inr m'" "m' = evictToCap ?d' 10 (activeSet ?d')"
    by (simp add: applyDelta_def es ls Let_def)
  have "1 \<in> set (activeSet m')"
    unfolding m'(2) evict_keeps_active [OF order_refl] set_activeSet
    by (simp add: delta_merged_fields createMirror_def empty_delta_def)
  with delta_child_lists [OF m'(1) ls, of 1] m'(1) show ?thesis by (auto simp: jm_wf_def)
qed

text \<open>
  Directory-load frames carry a generation. One older than the recorded load changes nothing; any
  other sets exactly that directory: a started load shows the spinner and is recorded, a failed one is
  recorded with its error (or the default one) and hides the spinner, a finished or cancelled one
  leaves neither. Other directories keep their records and spinners.
\<close>

theorem directory_load_spec:
  "let m' = applyDirectoryLoad m msg; i = il_id msg;
       stale = (\<exists>r. jm_get (directoryLoads m) i = Some r \<and> il_generation msg < dl_generation r)
   in (stale \<longrightarrow> m' = m)
    \<and> (\<not> stale \<longrightarrow>
        (i \<in> set (pendingExpansions m') \<longleftrightarrow> il_state msg = LoadStarted)
        \<and> jm_get (directoryLoads m') i =
            (case il_state msg of
               LoadStarted \<Rightarrow> Some \<lparr>dl_generation = il_generation msg, dl_state = Loading\<rparr>
             | LoadFailed \<Rightarrow> Some \<lparr>dl_generation = il_generation msg,
                 dl_state = LoadError (case il_error msg of
                   Some e \<Rightarrow> e | None \<Rightarrow> (''EUNKNOWN'', ''Directory listing failed''))\<rparr>
             | _ \<Rightarrow> None))
    \<and> (\<forall>j. j \<noteq> i \<longrightarrow>
        jm_get (directoryLoads m') j = jm_get (directoryLoads m) j
        \<and> (j \<in> set (pendingExpansions m') \<longleftrightarrow> j \<in> set (pendingExpansions m)))"
  by (cases "il_state msg")
     (simp_all add: applyDirectoryLoad_def Let_def split: option.split)

theorem directory_load_spec_witness:
  "let m = createMirror\<lparr>directoryLoads := [(4, \<lparr>dl_generation = 3, dl_state = Loading\<rparr>)]\<rparr>
   in applyDirectoryLoad m \<lparr>il_id = 4, il_generation = 2, il_state = LoadComplete, il_error = None\<rparr> = m"
  using directory_load_spec [of "createMirror\<lparr>directoryLoads := [(4, \<lparr>dl_generation = 3, dl_state = Loading\<rparr>)]\<rparr>"
      "\<lparr>il_id = 4, il_generation = 2, il_state = LoadComplete, il_error = None\<rparr>"]
  by (simp add: Let_def createMirror_def)

text \<open>
  A resolved path chain survives its own eviction pass whatever the cap, the ids that were active
  keep their entries, and no child list appears or changes for an id that is still held.
\<close>

theorem lookup_chain_survives:
  assumes "distinct (map ce_id es)"
  shows "let m' = hydrateLookupEntries m es v cap in
    (\<forall>e \<in> set es. jm_get (byId m') (ce_id e) = Some e)
    \<and> (\<forall>c \<in> set (activeSet m). c \<notin> ce_id ` set es \<longrightarrow> jm_get (byId m') c = jm_get (byId m) c)
    \<and> (\<forall>c. jm_get (children m') c = None \<or> jm_get (children m') c = jm_get (children m) c)
    \<and> treeVersion m \<le> treeVersion m'"
proof (cases "es = []")
  case False
  define s1 where
    "s1 = m\<lparr>treeVersion := max (treeVersion m) v, projectionVersion := projectionVersion m + 1\<rparr>"
  define act where "act = fold jset_add (map ce_id es) (activeSet s1)"
  have m': "hydrateLookupEntries m es v cap = evictToCap (fold store_entry es s1) cap act"
    by (simp add: hydrate_eq [OF False] Let_def s1_def act_def)
  have act: "set act = ce_id ` set es \<union> set (activeSet m)"
    by (simp add: act_def s1_def set_activeSet)
  have "find (\<lambda>x. ce_id x = ce_id e) (rev es) = Some e" if "e \<in> set es" for e
  proof -
    from that obtain y where y: "find (\<lambda>x. ce_id x = ce_id e) (rev es) = Some y"
      by (metis (mono_tags, lifting) find_None_iff not_None_eq set_rev)
    then have "y \<in> set es" "ce_id y = ce_id e" by (auto simp: find_Some_iff nth_mem) (metis nth_mem set_rev length_rev)
    with assms that have "y = e" by (auto simp: distinct_map inj_on_def)
    with y show ?thesis by simp
  qed
  moreover have "find (\<lambda>x. ce_id x = c) (rev es) = None" if "c \<notin> ce_id ` set es" for c
    using that by (auto simp: find_None_iff)
  moreover have "c \<in> set act \<Longrightarrow> c \<notin> set (victims t cap act)" for c t
    by (rule active_not_victim)
  ultimately show ?thesis
    unfolding m' Let_def
    by (auto simp: evict_get act jm_get_store_all evictToCap_maps(2) jm_get_fold_delete s1_def)
qed (simp add: hydrateLookupEntries_def)

theorem lookup_chain_survives_witness:
  "jm_get (byId (hydrateLookupEntries createMirror [plain_entry 1 None 1, plain_entry 2 (Some 1) 0] 5 0)) 2
     = Some (plain_entry 2 (Some 1) 0)"
  using lookup_chain_survives [of "[plain_entry 1 None 1, plain_entry 2 (Some 1) 0]" createMirror 5 0]
  by (simp add: plain_entry_def Let_def)

end
