(* ===== verification/Mirror_Snapshot.thy ===== *)
theory Mirror_Snapshot
  imports Mirror_Reducer
begin

text \<open>
  The consumer-facing view of a mirror (\<open>packages/mille/src/mirror-snapshot.ts\<close>): the flattened
  rows of the expanded tree, their ids, the index of an id, the row count with its pending folders,
  disclosure and load state. Every traversal is the code's loop over an explicit stack, with the
  snapshot's cache of sorted child lists passed along; a stack is a list with its top first. The
  two loops that stop at a limit always end. The other two run until the tree is exhausted and are
  partial: a mirror whose child lists form a cycle makes them run forever.

  The reference for all of them is \<open>tree_rows\<close>, a plain recursion over the tree.
\<close>

type_synonym order_cache = "(int, int list) jmap"

record visible_rows_options =
  vo_offset :: nat
  vo_limit :: nat
  vo_expanded :: "int jset"
  vo_includeIgnored :: "bool option"

text \<open>A row of the flattened tree; \<open>vr_pending\<close> marks a placeholder.\<close>

record snap_row = visible_row +
  vr_pending :: bool

text \<open>\<open>null\<close> holes become absent fields; both are \<open>None\<close> here.\<close>

definition clientEntryToEntry :: "client_entry \<Rightarrow> client_entry" where
  "clientEntryToEntry c = \<lparr>
     ce_id = ce_id c, ce_parentId = ce_parentId c, ce_name = ce_name c, ce_kind = ce_kind c,
     ce_size = ce_size c, ce_mtimeMs = ce_mtimeMs c, ce_ctimeMs = ce_ctimeMs c,
     ce_symlinkTargetIsDir = ce_symlinkTargetIsDir c, ce_pathSegments = ce_pathSegments c,
     ce_isIgnored = ce_isIgnored c, ce_isReadonly = ce_isReadonly c, ce_isHidden = ce_isHidden c \<rparr>"

section \<open>Reads\<close>

definition snapshot_roots :: "mirror \<Rightarrow> client_entry list" where
  "snapshot_roots m =
     concat (map (\<lambda>i. case jm_get (byId m) i of Some e \<Rightarrow> [clientEntryToEntry e] | None \<Rightarrow> []) (roots m))"

definition getById :: "mirror \<Rightarrow> int \<Rightarrow> client_entry option" where
  "getById m i = (case jm_get (byId m) i of Some e \<Rightarrow> Some (clientEntryToEntry e) | None \<Rightarrow> None)"

definition directChildCount :: "mirror \<Rightarrow> int \<Rightarrow> int option" where
  "directChildCount m i = jm_get (directChildCounts m) i"

definition directoryChildrenLoaded :: "mirror \<Rightarrow> int \<Rightarrow> bool" where
  "directoryChildrenLoaded m i = jm_has (directChildCounts m) i"

datatype directory_load_state = StateIdle | StateLoading | StateComplete | StateError string string

definition directoryLoadState :: "mirror \<Rightarrow> int \<Rightarrow> directory_load_state" where
  "directoryLoadState m i =
     (case jm_get (directoryLoads m) i of
        Some r \<Rightarrow>
          (case dl_state r of
             Loading \<Rightarrow> StateLoading
           | LoadError (code, message) \<Rightarrow> StateError code message)
      | None \<Rightarrow>
          if i \<in> set (pendingExpansions m) then StateLoading
          else if jm_has (directChildCounts m) i then StateComplete else StateIdle)"

definition entry_visible :: "mirror \<Rightarrow> bool \<Rightarrow> client_entry \<Rightarrow> bool" where
  "entry_visible m includeIgnored e =
     isVisibleEntry e includeIgnored (showHiddenFiles m) (showIgnoredFiles m)"

text \<open>The answer without a usable child list: the count, else the kind of the entry.\<close>

definition chevron_fallback :: "mirror \<Rightarrow> int \<Rightarrow> bool" where
  "chevron_fallback m i =
     (case jm_get (directChildCounts m) i of
        Some n \<Rightarrow> n > 0
      | None \<Rightarrow> (case jm_get (byId m) i of Some e \<Rightarrow> isExpandableEntry e | None \<Rightarrow> False))"

definition hasChildrenForProjection :: "mirror \<Rightarrow> int \<Rightarrow> bool \<Rightarrow> bool" where
  "hasChildrenForProjection m i includeIgnored =
     (case jm_get (children m) i of
        Some known \<Rightarrow>
          if length known > 0 \<or> i \<in> set (orderedChildren m)
          then list_ex (\<lambda>c. case jm_get (byId m) c of
                 None \<Rightarrow> True | Some child \<Rightarrow> entry_visible m includeIgnored child) known
          else chevron_fallback m i
      | None \<Rightarrow> chevron_fallback m i)"

definition hasChildren :: "mirror \<Rightarrow> int \<Rightarrow> bool" where
  "hasChildren m i = hasChildrenForProjection m i False"

definition getDecorations :: "mirror \<Rightarrow> int \<Rightarrow> decoration list" where
  "getDecorations m i = (case jm_get (decorations m) i of None \<Rightarrow> [] | Some ds \<Rightarrow> ds)"

section \<open>Traversals\<close>

definition placeholder_row :: "int \<Rightarrow> nat \<Rightarrow> snap_row" where
  "placeholder_row i depth = \<lparr>
     ce_id = i, ce_parentId = None, ce_name = [], ce_kind = 0, ce_size = 0, ce_mtimeMs = 0,
     ce_ctimeMs = 0, ce_symlinkTargetIsDir = None, ce_pathSegments = None, ce_isIgnored = False,
     ce_isReadonly = False, ce_isHidden = False,
     vr_depth = int depth, vr_hasChildren = False, vr_isExpanded = False, vr_pending = True \<rparr>"

definition entry_row :: "mirror \<Rightarrow> int jset \<Rightarrow> bool \<Rightarrow> int \<Rightarrow> nat \<Rightarrow> client_entry \<Rightarrow> snap_row" where
  "entry_row m expd incl i depth e =
     (let b = clientEntryToEntry e in \<lparr>
     ce_id = ce_id b, ce_parentId = ce_parentId b, ce_name = ce_name b, ce_kind = ce_kind b,
     ce_size = ce_size b, ce_mtimeMs = ce_mtimeMs b, ce_ctimeMs = ce_ctimeMs b,
     ce_symlinkTargetIsDir = ce_symlinkTargetIsDir b, ce_pathSegments = ce_pathSegments b,
     ce_isIgnored = ce_isIgnored b, ce_isReadonly = ce_isReadonly b, ce_isHidden = ce_isHidden b,
     vr_depth = int depth, vr_hasChildren = hasChildrenForProjection m i incl,
     vr_isExpanded = (i \<in> set expd), vr_pending = False \<rparr>)"

text \<open>The children pushed above the rest of the stack, first child on top.\<close>

definition push_children :: "mirror \<Rightarrow> int jset \<Rightarrow> int \<Rightarrow> order_cache \<Rightarrow> int list \<times> order_cache" where
  "push_children m expd i cache =
     (if i \<in> set expd
      then (case jm_get (children m) i of
              Some kids \<Rightarrow> sortedChildrenFor (byId m) (orderedChildren m) i kids cache
            | None \<Rightarrow> ([], cache))
      else ([], cache))"

function (sequential) visibleRows_loop ::
  "mirror \<Rightarrow> int jset \<Rightarrow> bool \<Rightarrow> nat \<Rightarrow> nat \<Rightarrow> order_cache \<Rightarrow> (int \<times> nat) list \<Rightarrow> nat \<Rightarrow> snap_row list
    \<Rightarrow> snap_row list \<times> order_cache"
where
  "visibleRows_loop m expd incl offset limit cache [] skipped out = (out, cache)"
| "visibleRows_loop m expd incl offset limit cache ((i, depth) # stack) skipped out =
     (case jm_get (byId m) i of
        None \<Rightarrow>
          if skipped < offset
          then visibleRows_loop m expd incl offset limit cache stack (skipped + 1) out
          else let out' = out @ [placeholder_row i depth]
               in if length out' \<ge> limit then (out', cache)
                  else visibleRows_loop m expd incl offset limit cache stack skipped out'
      | Some entry \<Rightarrow>
          if \<not> entry_visible m incl entry
          then visibleRows_loop m expd incl offset limit cache stack skipped out
          else if skipped < offset
          then let kc = push_children m expd i cache
               in visibleRows_loop m expd incl offset limit (snd kc)
                    (map (\<lambda>k. (k, depth + 1)) (fst kc) @ stack) (skipped + 1) out
          else let out' = out @ [entry_row m expd incl i depth entry]
               in if length out' \<ge> limit then (out', cache)
                  else let kc = push_children m expd i cache
                       in visibleRows_loop m expd incl offset limit (snd kc)
                            (map (\<lambda>k. (k, depth + 1)) (fst kc) @ stack) skipped out')"
  by pat_completeness auto

termination
  by (relation "measures [\<lambda>(m, expd, incl, offset, limit, cache, stack, skipped, out).
        (offset - skipped) + (limit - length out),
      \<lambda>(m, expd, incl, offset, limit, cache, stack, skipped, out). length stack]")
     auto

definition visibleRows :: "mirror \<Rightarrow> order_cache \<Rightarrow> visible_rows_options \<Rightarrow> snap_row list \<times> order_cache" where
  "visibleRows m cache opts =
     (let incl = (case vo_includeIgnored opts of Some b \<Rightarrow> b | None \<Rightarrow> False)
      in if vo_limit opts = 0 then ([], cache)
         else visibleRows_loop m (vo_expanded opts) incl (vo_offset opts) (vo_limit opts) cache
                (map (\<lambda>i. (i, 0)) (roots m)) 0 [])"

function (sequential) visibleRowIds_loop ::
  "mirror \<Rightarrow> int jset \<Rightarrow> bool \<Rightarrow> nat \<Rightarrow> nat \<Rightarrow> order_cache \<Rightarrow> int list \<Rightarrow> nat \<Rightarrow> int list
    \<Rightarrow> int list \<times> order_cache"
where
  "visibleRowIds_loop m expd incl offset limit cache [] skipped out = (out, cache)"
| "visibleRowIds_loop m expd incl offset limit cache (i # stack) skipped out =
     (if (case jm_get (byId m) i of Some entry \<Rightarrow> \<not> entry_visible m incl entry | None \<Rightarrow> False)
      then visibleRowIds_loop m expd incl offset limit cache stack skipped out
      else let out' = (if skipped < offset then out else out @ [i]);
               skipped' = (if skipped < offset then skipped + 1 else skipped)
      in if \<not> skipped < offset \<and> length out' \<ge> limit then (out', cache)
         else let kc = (if jm_has (byId m) i then push_children m expd i cache else ([], cache))
              in visibleRowIds_loop m expd incl offset limit (snd kc) (fst kc @ stack) skipped' out')"
  by pat_completeness auto

termination
  by (relation "measures [\<lambda>(m, expd, incl, offset, limit, cache, stack, skipped, out).
        (offset - skipped) + (limit - length out),
      \<lambda>(m, expd, incl, offset, limit, cache, stack, skipped, out). length stack]")
     (auto split: if_splits)

definition visibleRowIds :: "mirror \<Rightarrow> order_cache \<Rightarrow> visible_rows_options \<Rightarrow> int list \<times> order_cache" where
  "visibleRowIds m cache opts =
     (let incl = (case vo_includeIgnored opts of Some b \<Rightarrow> b | None \<Rightarrow> False)
      in if vo_limit opts = 0 then ([], cache)
         else visibleRowIds_loop m (vo_expanded opts) incl (vo_offset opts) (vo_limit opts) cache
                (roots m) 0 [])"

partial_function (option) visibleRowIndex_loop ::
  "mirror \<Rightarrow> int jset \<Rightarrow> bool \<Rightarrow> int \<Rightarrow> order_cache \<Rightarrow> int list \<Rightarrow> nat \<Rightarrow> (nat option \<times> order_cache) option"
where
  [code]: "visibleRowIndex_loop m expd incl target cache stack index =
     (case stack of
        [] \<Rightarrow> Some (None, cache)
      | i # rest \<Rightarrow>
        (case jm_get (byId m) i of
           None \<Rightarrow>
             if i = target then Some (Some index, cache)
             else visibleRowIndex_loop m expd incl target cache rest (index + 1)
         | Some entry \<Rightarrow>
             if \<not> entry_visible m incl entry
             then visibleRowIndex_loop m expd incl target cache rest index
             else if i = target then Some (Some index, cache)
             else visibleRowIndex_loop m expd incl target (snd (push_children m expd i cache))
                    (fst (push_children m expd i cache) @ rest) (index + 1)))"

definition visibleRowIndex ::
  "mirror \<Rightarrow> order_cache \<Rightarrow> int \<Rightarrow> int jset \<Rightarrow> bool \<Rightarrow> (nat option \<times> order_cache) option"
where
  "visibleRowIndex m cache target expd incl =
     visibleRowIndex_loop m expd incl target cache (roots m) 0"

partial_function (option) visibleRowCount_loop ::
  "mirror \<Rightarrow> int jset \<Rightarrow> bool \<Rightarrow> int list \<Rightarrow> nat \<Rightarrow> int jset \<Rightarrow> (nat \<times> int jset) option"
where
  [code]: "visibleRowCount_loop m expd incl stack known pending =
     (case stack of
        [] \<Rightarrow> Some (known, pending)
      | i # rest \<Rightarrow>
        (case jm_get (byId m) i of
           None \<Rightarrow> visibleRowCount_loop m expd incl rest known pending
         | Some entry \<Rightarrow>
             if \<not> entry_visible m incl entry
             then visibleRowCount_loop m expd incl rest known pending
             else if i \<in> set expd
             then (case jm_get (children m) i of
                     Some kids \<Rightarrow> visibleRowCount_loop m expd incl (kids @ rest) (known + 1) pending
                   | None \<Rightarrow> visibleRowCount_loop m expd incl rest (known + 1) (jset_add i pending))
             else visibleRowCount_loop m expd incl rest (known + 1) pending))"

definition visibleRowCount :: "mirror \<Rightarrow> int jset \<Rightarrow> bool \<Rightarrow> (nat \<times> int jset) option" where
  "visibleRowCount m expd incl =
     (case visibleRowCount_loop m expd incl (roots m) 0 [] of
        None \<Rightarrow> None
      | Some (known, pending) \<Rightarrow> Some (known, fold jset_add (pendingExpansions m) pending))"

section \<open>Reference: the tree, recursively\<close>

definition shown_children :: "mirror \<Rightarrow> int jset \<Rightarrow> int \<Rightarrow> int list" where
  "shown_children m expd i =
     (if i \<in> set expd
      then (case jm_get (children m) i of Some kids \<Rightarrow> display_children m i kids | None \<Rightarrow> [])
      else [])"

text \<open>Rows below one id to a bounded depth: \<open>(id, depth)\<close> in display order.\<close>

fun tree_rows :: "mirror \<Rightarrow> int jset \<Rightarrow> bool \<Rightarrow> nat \<Rightarrow> int \<Rightarrow> nat \<Rightarrow> (int \<times> nat) list" where
  "tree_rows m expd incl 0 i d = []"
| "tree_rows m expd incl (Suc n) i d =
     (case jm_get (byId m) i of
        None \<Rightarrow> [(i, d)]
      | Some e \<Rightarrow>
          if entry_visible m incl e
          then (i, d) # concat (map (\<lambda>k. tree_rows m expd incl n k (d + 1)) (shown_children m expd i))
          else [])"

text \<open>
  The expanded part of the tree has no cycle: a height exists that falls along every child list.
\<close>

definition tree_ranked :: "mirror \<Rightarrow> int jset \<Rightarrow> (int \<Rightarrow> nat) \<Rightarrow> bool" where
  "tree_ranked m expd rank \<longleftrightarrow>
     (\<forall>i \<in> set expd. case jm_get (children m) i of
        Some kids \<Rightarrow> list_all (\<lambda>k. rank k < rank i) kids | None \<Rightarrow> True)"

definition rows_below :: "mirror \<Rightarrow> int jset \<Rightarrow> bool \<Rightarrow> (int \<Rightarrow> nat) \<Rightarrow> int \<times> nat \<Rightarrow> (int \<times> nat) list" where
  "rows_below m expd incl rank id_d =
     tree_rows m expd incl (Suc (rank (fst id_d))) (fst id_d) (snd id_d)"

definition all_rows :: "mirror \<Rightarrow> int jset \<Rightarrow> bool \<Rightarrow> (int \<Rightarrow> nat) \<Rightarrow> (int \<times> nat) list" where
  "all_rows m expd incl rank = concat (map (\<lambda>i. rows_below m expd incl rank (i, 0)) (roots m))"

definition render_row :: "mirror \<Rightarrow> int jset \<Rightarrow> bool \<Rightarrow> int \<times> nat \<Rightarrow> snap_row" where
  "render_row m expd incl id_d =
     (case jm_get (byId m) (fst id_d) of
        None \<Rightarrow> placeholder_row (fst id_d) (snd id_d)
      | Some e \<Rightarrow> entry_row m expd incl (fst id_d) (snd id_d) e)"

lemma shown_children_ranked:
  "tree_ranked m expd rank \<Longrightarrow> k \<in> set (shown_children m expd i) \<Longrightarrow> rank k < rank i"
  by (cases "jm_get (children m) i"; cases "i \<in> set expd")
     (force simp: tree_ranked_def shown_children_def list_all_iff)+

lemma tree_rows_fuel:
  "tree_ranked m expd rank \<Longrightarrow> rank i < f \<Longrightarrow> rank i < f' \<Longrightarrow>
   tree_rows m expd incl f i d = tree_rows m expd incl f' i d"
proof (induction f arbitrary: f' i d)
  case (Suc f)
  from Suc.prems obtain g where f': "f' = Suc g" by (cases f') auto
  have "tree_rows m expd incl f k (d + 1) = tree_rows m expd incl g k (d + 1)"
    if "k \<in> set (shown_children m expd i)" for k
    using Suc.IH [OF Suc.prems(1), of k g] shown_children_ranked [OF Suc.prems(1) that] Suc.prems f'
    by auto
  then show ?case by (auto simp: f' split: option.split cong: map_cong)
qed simp

lemma rows_below_eq:
  assumes "tree_ranked m expd rank"
  shows "rows_below m expd incl rank (i, d) =
     (case jm_get (byId m) i of
        None \<Rightarrow> [(i, d)]
      | Some e \<Rightarrow>
          if entry_visible m incl e
          then (i, d) # concat (map (rows_below m expd incl rank)
                 (map (\<lambda>k. (k, d + 1)) (shown_children m expd i)))
          else [])"
proof -
  have "tree_rows m expd incl (rank i) k (d + 1) = rows_below m expd incl rank (k, d + 1)"
    if "k \<in> set (shown_children m expd i)" for k
    unfolding rows_below_def fst_conv snd_conv
    by (rule tree_rows_fuel [OF assms]) (simp_all add: shown_children_ranked [OF assms that])
  then have eq: "map (\<lambda>k. tree_rows m expd incl (rank i) k (d + 1)) (shown_children m expd i) =
      map (rows_below m expd incl rank) (map (\<lambda>k. (k, d + 1)) (shown_children m expd i))"
    unfolding map_map comp_def by (rule map_cong [OF refl])
  show ?thesis
    by (simp only: rows_below_def [of m expd incl rank "(i, d)"] fst_conv snd_conv tree_rows.simps eq)
qed

lemma push_children_eq:
  assumes "cache_ok m cache"
  shows "fst (push_children m expd i cache) = shown_children m expd i
    \<and> cache_ok m (snd (push_children m expd i cache))"
  using assms sortedChildrenFor_cached [OF assms, of i]
  by (fastforce simp: push_children_def shown_children_def split: option.split)

section \<open>The loops compute the reference\<close>

lemma visibleRows_loop_eq:
  "tree_ranked m expd rank \<Longrightarrow> cache_ok m cache \<Longrightarrow> length out < limit \<Longrightarrow>
   (skipped < offset \<longrightarrow> out = []) \<Longrightarrow>
   fst (visibleRows_loop m expd incl offset limit cache stack skipped out) =
     out @ take (limit - length out) (drop (offset - skipped)
       (map (render_row m expd incl) (concat (map (rows_below m expd incl rank) stack))))
   \<and> cache_ok m (snd (visibleRows_loop m expd incl offset limit cache stack skipped out))"
proof (induction m expd incl offset limit cache stack skipped out rule: visibleRows_loop.induct)
  case (2 m expd incl offset limit cache i depth stack skipped out)
  note eq = rows_below_eq [OF "2.prems"(1), of incl i depth]
  note push = push_children_eq [OF "2.prems"(2), of expd i]
  have tk: "take (limit - length out) (x # xs) = x # take (limit - Suc (length out)) xs" for x and xs :: "snap_row list"
    using "2.prems"(3) by (simp add: take_Cons')
  have dr: "skipped < offset \<Longrightarrow> drop (offset - skipped) (x # xs) = drop (offset - Suc skipped) xs"
    for x and xs :: "snap_row list"
    by (simp add: drop_Cons')
  show ?case
  proof (cases "jm_get (byId m) i")
    case None
    then show ?thesis
      using "2.IH"(1,2) "2.prems" by (auto simp: eq Let_def tk dr render_row_def)
  next
    case (Some e)
    then show ?thesis
      using "2.IH"(3-) "2.prems" push by (auto simp: eq Let_def tk dr render_row_def)
  qed
qed simp

text \<open>The ids-only loop is the row loop without the payload.\<close>

lemma visibleRowIds_loop_eq:
  "(\<And>i e. jm_get (byId m) i = Some e \<Longrightarrow> ce_id e = i) \<Longrightarrow> length out < limit \<Longrightarrow>
   visibleRowIds_loop m expd incl offset limit cache (map fst stack) skipped (map ce_id out) =
     map_prod (map ce_id) (\<lambda>c. c) (visibleRows_loop m expd incl offset limit cache stack skipped out)"
proof (induction m expd incl offset limit cache stack skipped out rule: visibleRows_loop.induct)
  case (2 m expd incl offset limit cache i depth stack skipped out)
  have row: "ce_id (placeholder_row i depth) = i"
    "jm_get (byId m) i = Some e \<Longrightarrow> ce_id (entry_row m expd incl i depth e) = i" for e
    using "2.prems"(1) by (simp_all add: placeholder_row_def entry_row_def clientEntryToEntry_def Let_def)
  have kids: "map fst (map (\<lambda>k. (k, depth + 1)) ks @ stack) = ks @ map fst stack" for ks
    by (simp add: comp_def)
  show ?case
  proof (cases "jm_get (byId m) i")
    case None
    then show ?thesis
      using "2.IH"(1,2) "2.prems" row(1) by (auto simp: Let_def jm_has_def)
  next
    case (Some e)
    then show ?thesis
      using "2.IH"(3-) [OF Some] "2.prems" row(2) [OF Some] kids by (auto simp: Let_def jm_has_def)
  qed
qed simp

section \<open>Index and count\<close>

definition ids_below :: "mirror \<Rightarrow> int jset \<Rightarrow> bool \<Rightarrow> (int \<Rightarrow> nat) \<Rightarrow> int \<Rightarrow> int list" where
  "ids_below m expd incl rank i = map fst (rows_below m expd incl rank (i, 0))"

lemma tree_rows_depth: "map fst (tree_rows m expd incl f i d) = map fst (tree_rows m expd incl f i d')"
proof (induction f arbitrary: i d d')
  case (Suc f)
  have e: "(\<lambda>k. map fst (tree_rows m expd incl f k (Suc d))) =
      (\<lambda>k. map fst (tree_rows m expd incl f k (Suc d')))"
    by (rule ext, rule Suc)
  show ?case by (simp add: map_concat comp_def e split: option.split)
qed simp

lemma ids_below_depth: "map fst (rows_below m expd incl rank (i, d)) = ids_below m expd incl rank i"
  unfolding ids_below_def rows_below_def fst_conv snd_conv by (rule tree_rows_depth)

lemma ids_below_eq:
  assumes "tree_ranked m expd rank"
  shows "ids_below m expd incl rank i =
     (case jm_get (byId m) i of
        None \<Rightarrow> [i]
      | Some e \<Rightarrow>
          if entry_visible m incl e
          then i # concat (map (ids_below m expd incl rank) (shown_children m expd i)) else [])"
  unfolding ids_below_def [of m expd incl rank i] rows_below_eq [OF assms]
  by (simp add: map_concat comp_def ids_below_depth split: option.split)

text \<open>Rows still to come, the number that falls in every turn of the loops.\<close>

definition ids_of_stack :: "mirror \<Rightarrow> int jset \<Rightarrow> bool \<Rightarrow> (int \<Rightarrow> nat) \<Rightarrow> int list \<Rightarrow> int list" where
  "ids_of_stack m expd incl rank st = concat (map (ids_below m expd incl rank) st)"

lemma ids_of_stack_simps [simp]:
  "ids_of_stack m expd incl rank [] = []"
  "ids_of_stack m expd incl rank (i # st) = ids_below m expd incl rank i @ ids_of_stack m expd incl rank st"
  "ids_of_stack m expd incl rank (xs @ ys) = ids_of_stack m expd incl rank xs @ ids_of_stack m expd incl rank ys"
  by (simp_all add: ids_of_stack_def)

lemma ids_below_stack:
  assumes "tree_ranked m expd rank"
  shows "ids_below m expd incl rank i =
     (case jm_get (byId m) i of
        None \<Rightarrow> [i]
      | Some e \<Rightarrow>
          if entry_visible m incl e
          then i # ids_of_stack m expd incl rank (shown_children m expd i) else [])"
  by (simp add: ids_below_eq [OF assms] ids_of_stack_def split: option.split)

definition first_index :: "int \<Rightarrow> int list \<Rightarrow> nat option" where
  "first_index t xs = (if t \<in> set xs then Some (length (takeWhile (\<lambda>x. x \<noteq> t) xs)) else None)"

lemma first_index_simps [simp]:
  "first_index t [] = None"
  "first_index t (x # xs) = (if x = t then Some 0 else map_option Suc (first_index t xs))"
  by (simp_all add: first_index_def)

lemma visibleRowIndex_loop_eq:
  assumes "tree_ranked m expd rank"
  shows "cache_ok m cache \<Longrightarrow> \<exists>cache'. cache_ok m cache' \<and>
    visibleRowIndex_loop m expd incl t cache st index =
      Some (map_option (\<lambda>p. index + p) (first_index t (ids_of_stack m expd incl rank st)), cache')"
proof (induction st arbitrary: cache index
    rule: wf_induct_rule [OF wf_measures, of "[\<lambda>st. length (ids_of_stack m expd incl rank st), length]"])
  case (1 st)
  note eq = ids_below_stack [OF assms, of incl]
  show ?case
  proof (cases st)
    case Nil
    then show ?thesis using "1.prems" by (subst visibleRowIndex_loop.simps) auto
  next
    case (Cons i rest)
    note push = push_children_eq [OF "1.prems", of expd i]
    have opt: "map_option ((+) (Suc index)) r = map_option ((+) index) (map_option Suc r)" for r
      by (cases r) auto
    have IH: "\<exists>cache''. cache_ok m cache'' \<and> visibleRowIndex_loop m expd incl t cache' st' index' =
        Some (map_option ((+) index') (first_index t (ids_of_stack m expd incl rank st')), cache'')"
      if "length (ids_of_stack m expd incl rank st') < length (ids_of_stack m expd incl rank st)
        \<or> length (ids_of_stack m expd incl rank st') = length (ids_of_stack m expd incl rank st)
          \<and> length st' < length st" "cache_ok m cache'" for st' index' cache'
      using "1.IH" [of st' cache' index'] that by auto
    show ?thesis
    proof (cases "jm_get (byId m) i")
      case None
      then show ?thesis
        using IH [of rest cache "Suc index"] "1.prems"
        by (subst visibleRowIndex_loop.simps) (auto simp: Cons eq opt)
    next
      case (Some e)
      then show ?thesis
        using IH [of rest cache index] IH [of "shown_children m expd i @ rest" _ "Suc index"] "1.prems" push
        by (subst visibleRowIndex_loop.simps) (auto simp: Cons eq opt)
    qed
  qed
qed

text \<open>A row counted as known is one whose entry is held; a folder waits when its list is missing.\<close>

definition held :: "mirror \<Rightarrow> int \<Rightarrow> bool" where
  "held m i \<longleftrightarrow> jm_has (byId m) i"

definition waiting :: "mirror \<Rightarrow> int jset \<Rightarrow> int \<Rightarrow> bool" where
  "waiting m expd i \<longleftrightarrow> held m i \<and> i \<in> set expd \<and> \<not> jm_has (children m) i"

lemma mset_ids_of_stack:
  "mset xs = mset ys \<Longrightarrow> mset (ids_of_stack m expd incl rank xs) = mset (ids_of_stack m expd incl rank ys)"
proof -
  assume "mset xs = mset ys"
  have "mset (ids_of_stack m expd incl rank zs) = (\<Sum>z \<in># mset zs. mset (ids_below m expd incl rank z))"
    for zs by (induction zs) auto
  with \<open>mset xs = mset ys\<close> show ?thesis by simp
qed

lemma visibleRowCount_loop_eq:
  assumes "tree_ranked m expd rank"
  shows "\<exists>pending'. visibleRowCount_loop m expd incl st known pending =
      Some (known + length (filter (held m) (ids_of_stack m expd incl rank st)), pending')
    \<and> set pending' = set pending \<union> {i \<in> set (ids_of_stack m expd incl rank st). waiting m expd i}"
proof (induction st arbitrary: known pending
    rule: wf_induct_rule [OF wf_measures, of "[\<lambda>st. length (ids_of_stack m expd incl rank st), length]"])
  case (1 st)
  note eq = ids_below_stack [OF assms, of incl]
  show ?case
  proof (cases st)
    case Nil
    then show ?thesis by (subst visibleRowCount_loop.simps) auto
  next
    case (Cons i rest)
    have IH: "\<exists>pending'. visibleRowCount_loop m expd incl st' known' pend =
        Some (known' + length (filter (held m) (ids_of_stack m expd incl rank st')), pending')
      \<and> set pending' = set pend \<union> {i \<in> set (ids_of_stack m expd incl rank st'). waiting m expd i}"
      if "length (ids_of_stack m expd incl rank st') < length (ids_of_stack m expd incl rank st)
        \<or> length (ids_of_stack m expd incl rank st') = length (ids_of_stack m expd incl rank st)
          \<and> length st' < length st" for st' known' pend
      using "1.IH" [of st' known' pend] that by auto
    show ?thesis
    proof (cases "jm_get (byId m) i")
      case None
      then show ?thesis
        using IH [of rest known pending]
        by (subst visibleRowCount_loop.simps) (auto simp: Cons eq held_def waiting_def jm_has_def)
    next
      case (Some e)
      show ?thesis
      proof (cases "\<exists>kids. entry_visible m incl e \<and> i \<in> set expd \<and> jm_get (children m) i = Some kids")
        case True
        then obtain kids where k: "entry_visible m incl e" "i \<in> set expd" "jm_get (children m) i = Some kids"
          by blast
        have ms: "mset (ids_of_stack m expd incl rank kids) =
            mset (ids_of_stack m expd incl rank (shown_children m expd i))"
          using k by (intro mset_ids_of_stack)
            (simp add: shown_children_def display_children_def sortChildrenByName_def)
        have "length (filter (held m) (ids_of_stack m expd incl rank kids)) =
            length (filter (held m) (ids_of_stack m expd incl rank (shown_children m expd i)))"
          using ms by (metis mset_filter size_mset)
        with Some k show ?thesis
          using IH [of "kids @ rest" "Suc known" pending] mset_eq_length [OF ms] mset_eq_setD [OF ms]
          by (subst visibleRowCount_loop.simps) (auto simp: Cons eq held_def waiting_def jm_has_def)
      next
        case False
        with Some show ?thesis
          using IH [of rest known pending] IH [of rest "Suc known" pending] IH [of rest "Suc known" "jset_add i pending"]
          by (subst visibleRowCount_loop.simps)
             (auto simp: Cons eq held_def waiting_def jm_has_def shown_children_def split: option.splits)
      qed
    qed
  qed
qed

lemma map_fst_all_rows:
  "map fst (all_rows m expd incl rank) = ids_of_stack m expd incl rank (roots m)"
  by (simp add: all_rows_def ids_of_stack_def map_concat comp_def ids_below_depth)

lemma all_rows_stack:
  "all_rows m expd incl rank = concat (map (rows_below m expd incl rank) (map (\<lambda>i. (i, 0)) (roots m)))"
  by (simp add: all_rows_def comp_def)

lemma mirror_wf_ids: "mirror_wf m \<Longrightarrow> jm_get (byId m) i = Some e \<Longrightarrow> ce_id e = i"
  by (auto simp: mirror_wf_def dest: map_of_SomeD)

text \<open>A small tree for the concrete instances: root 1 with the directory 2 and the file 3 below.\<close>

definition demo_entry :: "int \<Rightarrow> int option \<Rightarrow> string \<Rightarrow> int \<Rightarrow> client_entry" where
  "demo_entry i p n k = \<lparr>ce_id = i, ce_parentId = p, ce_name = js n, ce_kind = k, ce_size = 0,
     ce_mtimeMs = 0, ce_ctimeMs = 0, ce_symlinkTargetIsDir = None, ce_pathSegments = None,
     ce_isIgnored = False, ce_isReadonly = False, ce_isHidden = False\<rparr>"

definition demo_mirror :: mirror where
  "demo_mirror = createMirror\<lparr>
     roots := [1], children := [(1, [3, 2])], orderedChildren := [1],
     byId := [(1, demo_entry 1 None ''r'' 1), (2, demo_entry 2 (Some 1) ''d'' 1)]\<rparr>"

lemma demo_ranked: "tree_ranked demo_mirror [1] (\<lambda>i. if i = 1 then 1 else 0)"
  by (simp add: tree_ranked_def demo_mirror_def createMirror_def)

lemma demo_rows:
  "all_rows demo_mirror [1] False (\<lambda>i. if i = 1 then 1 else 0) = [(1, 0), (3, 1), (2, 1)]"
  by (simp add: all_rows_def rows_below_def demo_mirror_def createMirror_def
      shown_children_def display_children_def entry_visible_def isVisibleEntry_def demo_entry_def js_def)

section \<open>Properties\<close>

text \<open>
  C2: on a tree without cycles, \<open>visibleRows\<close> returns exactly the requested window of the rows of the
  recursive flattening: the rows from \<open>offset\<close> on, at most \<open>limit\<close> of them, each rendered from its
  entry or as a placeholder, whatever earlier reads left in the order cache; and the cache stays valid.
\<close>

theorem visible_rows_window:
  assumes "tree_ranked m (vo_expanded opts) rank" "cache_ok m cache"
  shows "let incl = (case vo_includeIgnored opts of Some b \<Rightarrow> b | None \<Rightarrow> False) in
    fst (visibleRows m cache opts) =
      take (vo_limit opts) (drop (vo_offset opts)
        (map (render_row m (vo_expanded opts) incl) (all_rows m (vo_expanded opts) incl rank)))
    \<and> cache_ok m (snd (visibleRows m cache opts))"
proof (cases "vo_limit opts = 0")
  case False
  with visibleRows_loop_eq [OF assms, of "[]" "vo_limit opts" 0 "vo_offset opts"]
  show ?thesis by (simp add: visibleRows_def Let_def all_rows_stack)
qed (use assms(2) in \<open>simp add: visibleRows_def\<close>)

theorem visible_rows_window_witness:
  "map ce_id (fst (visibleRows demo_mirror []
     \<lparr>vo_offset = 1, vo_limit = 5, vo_expanded = [1], vo_includeIgnored = None\<rparr>)) = [3, 2]"
proof -
  have row: "ce_id (render_row demo_mirror [1] False r) = fst r" if "r \<in> {(3, 1), (2, 1)}" for r
    using that
    by (auto simp: render_row_def placeholder_row_def entry_row_def clientEntryToEntry_def Let_def
        demo_mirror_def demo_entry_def)
  have "fst (visibleRows demo_mirror []
      \<lparr>vo_offset = 1, vo_limit = 5, vo_expanded = [1], vo_includeIgnored = None\<rparr>) =
      take 5 (drop 1 (map (render_row demo_mirror [1] False) [(1, 0), (3, 1), (2, 1)]))"
    using visible_rows_window [of demo_mirror
        "\<lparr>vo_offset = 1, vo_limit = 5, vo_expanded = [1], vo_includeIgnored = None\<rparr>"
        "\<lambda>i. if i = 1 then 1 else 0" "[]"] demo_ranked demo_rows
    by (simp add: Let_def)
  then show ?thesis using row by simp
qed

text \<open>
  The payload-free traversal agrees with the full one: in a well-formed mirror \<open>visibleRowIds\<close>
  returns the ids of the rows \<open>visibleRows\<close> returns for the same options, and leaves the same cache.
\<close>

theorem visible_row_ids_agree:
  assumes "mirror_wf m"
  shows "visibleRowIds m cache opts =
    map_prod (map ce_id) (\<lambda>c. c) (visibleRows m cache opts)"
proof (cases "vo_limit opts = 0")
  case False
  then have "visibleRowIds_loop m expd incl offset (vo_limit opts) cache
        (map fst (map (\<lambda>i. (i, 0 :: nat)) (roots m))) 0 (map ce_id ([] :: snap_row list)) =
      map_prod (map ce_id) (\<lambda>c. c) (visibleRows_loop m expd incl offset (vo_limit opts) cache
        (map (\<lambda>i. (i, 0)) (roots m)) 0 [])" for expd incl offset
    by (intro visibleRowIds_loop_eq mirror_wf_ids [OF assms]) simp_all
  with False show ?thesis by (simp add: visibleRowIds_def visibleRows_def Let_def comp_def)
qed (simp add: visibleRowIds_def visibleRows_def)

theorem visible_row_ids_agree_witness:
  "visibleRowIds createMirror [] \<lparr>vo_offset = 0, vo_limit = 5, vo_expanded = [], vo_includeIgnored = None\<rparr> =
   map_prod (map ce_id) (\<lambda>c. c)
     (visibleRows createMirror [] \<lparr>vo_offset = 0, vo_limit = 5, vo_expanded = [], vo_includeIgnored = None\<rparr>)"
  by (rule visible_row_ids_agree) simp

text \<open>
  On a tree without cycles, \<open>visibleRowIndex\<close> returns, and its answer is the position of the id's
  first row in the flattened tree, or nothing when the id has no row.
\<close>

theorem visible_row_index_position:
  assumes "tree_ranked m expd rank" "cache_ok m cache"
  shows "\<exists>cache'. cache_ok m cache' \<and>
    visibleRowIndex m cache t expd incl =
      Some (let ids = map fst (all_rows m expd incl rank)
            in if t \<in> set ids then Some (length (takeWhile (\<lambda>x. x \<noteq> t) ids)) else None, cache')"
  using visibleRowIndex_loop_eq [OF assms, of incl t "roots m" 0]
  by (simp add: visibleRowIndex_def Let_def map_fst_all_rows first_index_def option.map_ident)

theorem visible_row_index_position_witness:
  "\<exists>cache'. cache_ok demo_mirror cache' \<and>
    visibleRowIndex demo_mirror [] 2 [1] False = Some (Some 2, cache')"
  using visible_row_index_position [OF demo_ranked cache_ok_Nil, of 2 False]
  unfolding demo_rows by (simp add: Let_def numeral_2_eq_2)

text \<open>
  On a tree without cycles, \<open>visibleRowCount\<close> returns; \<open>known\<close> is the number of rows whose entry
  is held, which leaves out the placeholder rows, and the pending folders are the expanded rows without
  a child list together with the expansions still in flight.
\<close>

theorem visible_row_count_spec:
  assumes "tree_ranked m expd rank"
  shows "\<exists>pending. visibleRowCount m expd incl =
      Some (length (filter (\<lambda>r. jm_has (byId m) (fst r)) (all_rows m expd incl rank)), pending)
    \<and> set pending = set (pendingExpansions m) \<union>
        {i \<in> fst ` set (all_rows m expd incl rank). jm_has (byId m) i \<and> i \<in> set expd \<and> \<not> jm_has (children m) i}"
proof -
  have len: "length (filter (\<lambda>r. jm_has (byId m) (fst r)) xs) = length (filter (held m) (map fst xs))"
    for xs :: "(int \<times> nat) list"
    by (simp add: filter_map comp_def held_def)
  have st: "fst ` set (all_rows m expd incl rank) = set (ids_of_stack m expd incl rank (roots m))"
    unfolding map_fst_all_rows [symmetric] by simp
  show ?thesis
    using visibleRowCount_loop_eq [OF assms, of incl "roots m" 0 "[]"]
    unfolding len map_fst_all_rows st
    by (auto simp: visibleRowCount_def waiting_def held_def)
qed

theorem visible_row_count_spec_witness:
  "\<exists>pending. visibleRowCount demo_mirror [1] False = Some (2, pending) \<and> set pending = {}"
proof -
  have facts: "jm_has (byId demo_mirror) 1" "jm_has (byId demo_mirror) 2" "\<not> jm_has (byId demo_mirror) 3"
    "jm_has (children demo_mirror) 1" "pendingExpansions demo_mirror = []"
    by (simp_all add: demo_mirror_def createMirror_def jm_has_def)
  from visible_row_count_spec [OF demo_ranked, of False] obtain pending where
    c: "visibleRowCount demo_mirror [1] False =
      Some (length (filter (\<lambda>r. jm_has (byId demo_mirror) (fst r))
        (all_rows demo_mirror [1] False (\<lambda>i. if i = 1 then 1 else 0))), pending)"
    and p: "set pending = set (pendingExpansions demo_mirror) \<union>
        {i \<in> fst ` set (all_rows demo_mirror [1] False (\<lambda>i. if i = 1 then 1 else 0)).
           jm_has (byId demo_mirror) i \<and> i \<in> set [1] \<and> \<not> jm_has (children demo_mirror) i}"
    by (elim exE conjE)
  have "visibleRowCount demo_mirror [1] False = Some (2, pending)"
    using c unfolding demo_rows by (simp add: facts)
  moreover have "set pending = {}" using p unfolding demo_rows by (simp add: facts)
  ultimately show ?thesis by blast
qed

text \<open>
  Disclosure. Without a child list, or with an empty one the host did not send, a folder that was
  never counted shows its chevron exactly when it can have children, and a counted one exactly when the
  count is positive; an empty list from the host hides it.
\<close>

theorem chevron_rule:
  assumes "jm_get (byId m) i = Some e"
    and "jm_get (children m) i = None \<or> jm_get (children m) i = Some []"
  shows "hasChildren m i \<longleftrightarrow>
    \<not> (jm_get (children m) i = Some [] \<and> i \<in> set (orderedChildren m))
    \<and> (case jm_get (directChildCounts m) i of
         Some n \<Rightarrow> 0 < n | None \<Rightarrow> ce_kind e = 1 \<or> ce_symlinkTargetIsDir e = Some True)"
  using assms
  by (auto simp: hasChildren_def hasChildrenForProjection_def chevron_fallback_def isExpandableEntry_def
      split: option.splits)

theorem chevron_rule_witness: "hasChildren demo_mirror 2"
  using chevron_rule [of demo_mirror 2 "demo_entry 2 (Some 1) ''d'' 1"]
  by (simp add: demo_mirror_def createMirror_def demo_entry_def)

end
