(* ===== verification/Session_Delta.thy ===== *)
theory Session_Delta
  imports Mille_Prelude
begin

text \<open>
  Per-session deltas on the host (\<open>packages/mille/src/delta.ts\<close>): a global change set cut down to
  what one session knows or has expanded, and the fold of a posted delta into the session.
\<close>

record reparent_entry =
  rp_id :: int
  rp_oldParentId :: "int option"
  rp_newParentId :: "int option"

record change_set =
  cs_changedIds :: "int list"
  cs_subtreeRootsChanged :: "int list"
  cs_childSetChanged :: "int list"
  cs_projectionChanged :: "bool option"
  cs_reparentedIds :: "reparent_entry list"
  cs_fromVersion :: int
  cs_toVersion :: int

record session_view =
  sv_expanded :: "int jset"
  sv_knownIds :: "int jset"

record session_delta =
  sd_version :: int
  sd_changedIds :: "int list"
  sd_childSetChanged :: "int list"
  sd_removedIds :: "int list"
  sd_addedIds :: "int list"
  sd_reparentedIds :: "reparent_entry list"

definition computeSessionDelta :: "change_set \<Rightarrow> session_view \<Rightarrow> session_delta" where
  "computeSessionDelta cs s = \<lparr>
     sd_version = cs_toVersion cs,
     sd_changedIds = filter (\<lambda>i. i \<in> set (sv_knownIds s)) (cs_changedIds cs),
     sd_childSetChanged =
       filter (\<lambda>p. p \<in> set (sv_expanded s) \<or> p \<in> set (sv_knownIds s)) (cs_childSetChanged cs),
     sd_removedIds = [],
     sd_addedIds = [],
     sd_reparentedIds = filter (\<lambda>r. rp_id r \<in> set (sv_knownIds s)) (cs_reparentedIds cs) \<rparr>"

definition applyDeltaToSession :: "session_delta \<Rightarrow> session_view \<Rightarrow> session_view" where
  "applyDeltaToSession d s =
     (let s1 = s\<lparr>sv_knownIds := fold jset_add (sd_addedIds d) (sv_knownIds s)\<rparr>
      in s1\<lparr>sv_knownIds := fold jset_del (sd_removedIds d) (sv_knownIds s1)\<rparr>)"

lemma applyDeltaToSession_known:
  "set (sv_knownIds (applyDeltaToSession d s)) =
     (set (sv_knownIds s) \<union> set (sd_addedIds d)) - set (sd_removedIds d)"
  by (auto simp: applyDeltaToSession_def Let_def)

lemma computed_delta_keeps_session: "applyDeltaToSession (computeSessionDelta cs s) s = s"
  by (simp add: applyDeltaToSession_def computeSessionDelta_def Let_def)

text \<open>A session that knows more is told at least as much, in the same order.\<close>

lemma computeSessionDelta_mono:
  assumes "set (sv_knownIds s) \<subseteq> set (sv_knownIds t)" "set (sv_expanded s) \<subseteq> set (sv_expanded t)"
  shows "filter (\<lambda>i. i \<in> set (sv_knownIds s)) (sd_changedIds (computeSessionDelta cs t)) =
      sd_changedIds (computeSessionDelta cs s)"
    and "set (sd_childSetChanged (computeSessionDelta cs s)) \<subseteq> set (sd_childSetChanged (computeSessionDelta cs t))"
  using assms by (auto simp: computeSessionDelta_def intro!: filter_cong)

end
