(* ===== verification/Decoration_Store.thy ===== *)
theory Decoration_Store
  imports Mirror
begin

text \<open>
  The decoration store (\<open>packages/mille/src/decorations.ts\<close>): decorations by entry and provider, its
  version and its change listeners. A listener is an opaque identity; \<open>bump\<close> returns the calls it
  makes, in order.
\<close>

record decoration_store =
  ds_decorations :: "(int, (string, decoration) jmap) jmap"
  ds_version :: int
  ds_listeners :: "int jset"

definition empty_store :: decoration_store where
  "empty_store = \<lparr>ds_decorations = [], ds_version = 0, ds_listeners = []\<rparr>"

definition getMerged :: "decoration_store \<Rightarrow> int \<Rightarrow> decoration list" where
  "getMerged s i =
     (case jm_get (ds_decorations s) i of
        None \<Rightarrow> [] | Some per \<Rightarrow> if length per = 0 then [] else map snd per)"

definition setForProvider ::
  "string \<Rightarrow> int \<Rightarrow> decoration option \<Rightarrow> decoration_store \<Rightarrow> bool \<times> decoration_store"
where
  "setForProvider pid i dec s =
     (let per = jm_get (ds_decorations s) i;
          hadValue = (case per of Some p \<Rightarrow> jm_has p pid | None \<Rightarrow> False)
      in case dec of
           None \<Rightarrow>
             if \<not> hadValue then (False, s)
             else let p' = jm_delete pid (the per)
                  in (True, s\<lparr>ds_decorations :=
                        (if length p' = 0 then jm_delete i (ds_decorations s)
                         else jm_set i p' (ds_decorations s))\<rparr>)
         | Some d \<Rightarrow>
             (case per of
                None \<Rightarrow> (True, s\<lparr>ds_decorations := jm_set i [(pid, d)] (ds_decorations s)\<rparr>)
              | Some p \<Rightarrow> (True, s\<lparr>ds_decorations := jm_set i (jm_set pid d p) (ds_decorations s)\<rparr>)))"

text \<open>One pass over the entries; an entry left without decorations is dropped.\<close>

fun remove_pass ::
  "string \<Rightarrow> (int, (string, decoration) jmap) jmap \<Rightarrow> int list \<times> (int, (string, decoration) jmap) jmap"
where
  "remove_pass pid [] = ([], [])"
| "remove_pass pid ((i, per) # rest) =
     (let (affected, rest') = remove_pass pid rest
      in if jm_has per pid
         then (i # affected,
               if length (jm_delete pid per) = 0 then rest' else (i, jm_delete pid per) # rest')
         else (affected, (i, per) # rest'))"

definition removeProvider :: "string \<Rightarrow> decoration_store \<Rightarrow> int list \<times> decoration_store" where
  "removeProvider pid s =
     (let (affected, ds) = remove_pass pid (ds_decorations s) in (affected, s\<lparr>ds_decorations := ds\<rparr>))"

definition bump :: "int list \<Rightarrow> decoration_store \<Rightarrow> (int \<times> int list) list \<times> decoration_store" where
  "bump changed s =
     (if length changed = 0 then ([], s)
      else (map (\<lambda>l. (l, changed)) (ds_listeners s), s\<lparr>ds_version := ds_version s + 1\<rparr>))"

definition onChange :: "int \<Rightarrow> decoration_store \<Rightarrow> decoration_store" where
  "onChange l s = s\<lparr>ds_listeners := jset_add l (ds_listeners s)\<rparr>"

definition disposeListener :: "int \<Rightarrow> decoration_store \<Rightarrow> decoration_store" where
  "disposeListener l s = s\<lparr>ds_listeners := jset_del l (ds_listeners s)\<rparr>"

section \<open>Slots\<close>

text \<open>The abstract store: one decoration per entry and provider.\<close>

definition slot :: "decoration_store \<Rightarrow> int \<Rightarrow> string \<Rightarrow> decoration option" where
  "slot s i pid = (case jm_get (ds_decorations s) i of None \<Rightarrow> None | Some per \<Rightarrow> jm_get per pid)"

text \<open>Keys are distinct and no entry is kept without a decoration.\<close>

definition store_wf :: "decoration_store \<Rightarrow> bool" where
  "store_wf s \<longleftrightarrow> jm_wf (ds_decorations s)
     \<and> list_all (\<lambda>(i, per). jm_wf per \<and> per \<noteq> []) (ds_decorations s)"

lemma store_wf_get:
  "store_wf s \<longleftrightarrow> jm_wf (ds_decorations s)
     \<and> (\<forall>i per. jm_get (ds_decorations s) i = Some per \<longrightarrow> jm_wf per \<and> per \<noteq> [])"
  by (cases "jm_wf (ds_decorations s)") (auto simp: store_wf_def jm_wf_def list_all_iff)

lemma store_wf_empty: "store_wf empty_store"
  by (simp add: store_wf_def empty_store_def)

lemma jm_wf_single [simp]: "jm_wf [kv]"
  by (simp add: jm_wf_def)

lemma length_jm_delete_0: "length (jm_delete k m) = 0 \<longleftrightarrow> fst ` set m \<subseteq> {k}"
  by (metis Diff_eq_empty_iff image_is_empty keys_jm_delete length_0_conv set_empty)

lemma jm_set_not_Nil [simp]: "jm_set k v m \<noteq> []"
  by (cases m) auto

lemma wf_setForProvider: "store_wf s \<Longrightarrow> store_wf (snd (setForProvider pid i dec s))"
  by (auto simp: store_wf_get setForProvider_def Let_def split: option.splits if_splits)

lemma slot_setForProvider:
  assumes "store_wf s"
  shows "slot (snd (setForProvider pid i dec s)) j q = (if j = i \<and> q = pid then dec else slot s j q)"
proof (cases "jm_get (ds_decorations s) i")
  case None
  then show ?thesis
    by (auto simp: slot_def setForProvider_def Let_def jm_has_def split: option.splits)
next
  case (Some per)
  have "jm_delete pid per = [] \<Longrightarrow> q \<noteq> pid \<Longrightarrow> jm_get per q = None"
    by (metis jm_get_delete map_of.simps(1))
  with Some show ?thesis
    by (auto simp: slot_def setForProvider_def Let_def jm_has_def split: option.splits)
qed

lemma remove_pass_spec:
  assumes "jm_wf ds"
  shows "(j \<in> set (fst (remove_pass pid ds)) \<longleftrightarrow> (\<exists>per. jm_get ds j = Some per \<and> jm_has per pid))
    \<and> jm_get (snd (remove_pass pid ds)) j =
       (case jm_get ds j of
          None \<Rightarrow> None
        | Some per \<Rightarrow> if jm_has per pid \<and> jm_delete pid per = [] then None else Some (jm_delete pid per))
    \<and> fst ` set (snd (remove_pass pid ds)) \<subseteq> fst ` set ds
    \<and> jm_wf (snd (remove_pass pid ds)) \<and> distinct (fst (remove_pass pid ds))
    \<and> set (fst (remove_pass pid ds)) \<subseteq> fst ` set ds"
  using assms
proof (induction ds)
  case (Cons kv ds)
  obtain i per where kv: "kv = (i, per)" by (cases kv)
  have idem: "\<not> jm_has per' pid \<Longrightarrow> jm_delete pid per' = per'" for per' :: "(string, decoration) jmap"
    by (simp add: jm_has_iff)
  from Cons have "jm_wf ds" "i \<notin> fst ` set ds" by (auto simp: kv jm_wf_def)
  with Cons.IH have IH: "(j \<in> set (fst (remove_pass pid ds)) \<longleftrightarrow> (\<exists>per. jm_get ds j = Some per \<and> jm_has per pid))"
    "jm_get (snd (remove_pass pid ds)) j =
       (case jm_get ds j of
          None \<Rightarrow> None
        | Some per \<Rightarrow> if jm_has per pid \<and> jm_delete pid per = [] then None else Some (jm_delete pid per))"
    "fst ` set (snd (remove_pass pid ds)) \<subseteq> fst ` set ds"
    "jm_wf (snd (remove_pass pid ds))" "distinct (fst (remove_pass pid ds))"
    "set (fst (remove_pass pid ds)) \<subseteq> fst ` set ds" by auto
  have "jm_get ds i = None" using \<open>i \<notin> fst ` set ds\<close> by (simp add: map_of_eq_None_iff)
  with IH \<open>i \<notin> fst ` set ds\<close> show ?case
    by (cases "j = i")
       (auto simp: kv case_prod_beta Let_def idem jm_wf_def map_of_eq_None_iff split: option.splits)
qed simp

lemma slot_removeProvider:
  assumes "store_wf s"
  shows "slot (snd (removeProvider pid s)) j q = (if q = pid then None else slot s j q)"
    and "j \<in> set (fst (removeProvider pid s)) \<longleftrightarrow> slot s j pid \<noteq> None"
proof -
  have wf: "jm_wf (ds_decorations s)" using assms by (simp add: store_wf_def)
  note spec = remove_pass_spec [OF wf, of j pid]
  have nil: "jm_delete pid per = [] \<Longrightarrow> q \<noteq> pid \<Longrightarrow> jm_get per q = None" for per :: "(string, decoration) jmap"
    by (metis jm_get_delete map_of.simps(1))
  show "slot (snd (removeProvider pid s)) j q = (if q = pid then None else slot s j q)"
    using spec nil
    by (auto simp: slot_def removeProvider_def case_prod_beta jm_has_def split: option.splits)
  show "j \<in> set (fst (removeProvider pid s)) \<longleftrightarrow> slot s j pid \<noteq> None"
    using spec by (auto simp: slot_def removeProvider_def case_prod_beta jm_has_def split: option.splits)
qed

lemma wf_removeProvider:
  assumes "store_wf s"
  shows "store_wf (snd (removeProvider pid s))"
proof -
  have wf: "jm_wf (ds_decorations s)" using assms by (simp add: store_wf_def)
  have idem: "jm_get per pid = None \<Longrightarrow> jm_delete pid per = per" for per :: "(string, decoration) jmap"
    by (simp add: map_of_eq_None_iff)
  show ?thesis
    using assms remove_pass_spec [OF wf, of _ pid] idem
    by (auto simp: store_wf_get removeProvider_def case_prod_beta jm_has_def
        split: option.splits if_splits)
qed

definition demo_decoration :: decoration where
  "demo_decoration = \<lparr>dec_letter = Some ''M'', dec_badge = None, dec_color = None, dec_tooltip = None,
     dec_propagate = None\<rparr>"

section \<open>Properties\<close>

text \<open>
  The store is one slot per entry and provider. Setting or clearing a slot changes that slot only
  and reports a change exactly when it stored something or removed something; dropping a provider
  clears its slots only and returns exactly the entries that had one; every operation keeps the store
  free of empty entries.
\<close>

theorem decoration_slots:
  assumes "store_wf s"
  shows "slot (snd (setForProvider pid i dec s)) j q = (if j = i \<and> q = pid then dec else slot s j q)
    \<and> (fst (setForProvider pid i dec s) \<longleftrightarrow> dec \<noteq> None \<or> slot s i pid \<noteq> None)
    \<and> slot (snd (removeProvider pid s)) j q = (if q = pid then None else slot s j q)
    \<and> (j \<in> set (fst (removeProvider pid s)) \<longleftrightarrow> slot s j pid \<noteq> None)
    \<and> store_wf (snd (setForProvider pid i dec s)) \<and> store_wf (snd (removeProvider pid s))"
proof -
  have "fst (setForProvider pid i dec s) \<longleftrightarrow> dec \<noteq> None \<or> slot s i pid \<noteq> None"
    by (auto simp: setForProvider_def slot_def Let_def jm_has_def split: option.splits)
  with assms show ?thesis
    by (simp add: slot_setForProvider slot_removeProvider wf_setForProvider wf_removeProvider)
qed

theorem decoration_slots_witness:
  "slot (snd (setForProvider ''git'' 4 (Some demo_decoration) empty_store)) 4 ''git'' = Some demo_decoration"
  using decoration_slots [OF store_wf_empty, of "''git''" 4 "Some demo_decoration" 4 "''git''"] by simp

end
