(* ===== verification/Channel_Contract.thy ===== *)
theory Channel_Contract
  imports Mille_Prelude
begin

text \<open>
  What every transport of the explorer promises (\<open>packages/mille/src/channel/types.ts\<close>) and the
  listener bookkeeping all of them share (\<open>channel/emitter.ts\<close>). A channel is observed through the
  log of what it does; the contract is a locale over its operations, interpreted by each transport.
\<close>

section \<open>States, close codes and events\<close>

datatype channel_state = Open | Closing | Closed

datatype close_code =
    LOCAL_CLOSE | REMOTE_CLOSE | TRANSPORT_ERROR | PROTOCOL_ERROR | BACKPRESSURE | AUTH_REJECTED

text \<open>
  \<open>Posted\<close>: the transport took a message or frame. \<open>Emit\<close>: dispatch of an inbound message starts,
  \<open>Heard\<close>: one listener is called with it. \<open>CloseEmitted\<close>: the close event is dispatched.
  \<open>CloseReplayed\<close>: one late subscriber is told of the close. \<open>DrainResolved\<close>: the promise of one
  \<open>drain()\<close> call resolves.
\<close>

datatype ('o, 'i) channel_event =
    Posted 'o | Emit 'i | Heard int 'i | CloseEmitted close_code | CloseReplayed int close_code
  | DrainResolved nat | StreamEnded | StreamDestroyed | Warned

text \<open>What a listener may do to its channel while it is being called.\<close>

datatype 'o client_op = CSend 'o | CDrain nat | CClose

section \<open>Listener sets\<close>

text \<open>
  A listener is identified by its function reference; a subscription remembers it and whether it was
  disposed.
\<close>

record listener_set =
  ls_listeners :: "int jset"
  ls_subs :: "(int \<times> bool) list"

definition new_listeners :: listener_set where
  "new_listeners = \<lparr>ls_listeners = [], ls_subs = []\<rparr>"

definition add_listener :: "int \<Rightarrow> listener_set \<Rightarrow> nat \<times> listener_set" where
  "add_listener f s =
     (length (ls_subs s),
      s\<lparr>ls_listeners := jset_add f (ls_listeners s), ls_subs := ls_subs s @ [(f, False)]\<rparr>)"

definition dispose_listener :: "nat \<Rightarrow> listener_set \<Rightarrow> listener_set" where
  "dispose_listener n s =
     (if n < length (ls_subs s) \<and> \<not> snd (ls_subs s ! n)
      then s\<lparr>ls_subs := (ls_subs s)[n := (fst (ls_subs s ! n), True)],
             ls_listeners := jset_del (fst (ls_subs s ! n)) (ls_listeners s)\<rparr>
      else s)"

definition clear_listeners :: "listener_set \<Rightarrow> listener_set" where
  "clear_listeners s = s\<lparr>ls_listeners := []\<rparr>"

text \<open>
  \<open>emit\<close> calls the listeners of a copy made first; \<open>react\<close> is what a listener does to the surrounding
  state. A listener that throws is logged and the walk goes on, so a throw is a reaction too.
\<close>

fun emit_to :: "int list \<Rightarrow> (int \<Rightarrow> 's \<Rightarrow> 's) \<Rightarrow> 's \<Rightarrow> 's" where
  "emit_to [] react s = s"
| "emit_to (l # ls) react s = emit_to ls react (react l s)"

lemma dispose_idempotent: "dispose_listener n (dispose_listener n s) = dispose_listener n s"
  by (simp add: dispose_listener_def)

text \<open>A second disposal does not remove a listener that was added again in between.\<close>

lemma dispose_twice_keeps_readded:
  assumes "n < length (ls_subs s)" "f = fst (ls_subs s ! n)"
  shows "f \<in> set (ls_listeners (dispose_listener n (snd (add_listener f (dispose_listener n s)))))"
  using assms by (simp add: dispose_listener_def add_listener_def nth_append)

section \<open>The contract\<close>

definition close_count :: "('o, 'i) channel_event list \<Rightarrow> nat" where
  "close_count es = length (filter (\<lambda>e. case e of CloseEmitted c \<Rightarrow> True | _ \<Rightarrow> False) es)"

definition is_emit :: "('o, 'i) channel_event \<Rightarrow> bool" where
  "is_emit e = (case e of Emit m \<Rightarrow> True | _ \<Rightarrow> False)"

definition is_close :: "('o, 'i) channel_event \<Rightarrow> bool" where
  "is_close e = (case e of CloseEmitted c \<Rightarrow> True | _ \<Rightarrow> False)"

text \<open>What one operation may add to the log of a channel that was open, or was not.\<close>

fun step_events :: "bool \<Rightarrow> bool \<Rightarrow> ('o, 'i) channel_event list \<Rightarrow> bool" where
  "step_events was_open is_open [] = (was_open = is_open)"
| "step_events was_open is_open (e # es) =
     (if is_close e then was_open \<and> step_events False is_open es
      else if is_emit e then was_open \<and> step_events was_open is_open es
      else step_events was_open is_open es)"

text \<open>A log in which at most one close event appears and no dispatch starts after it.\<close>

definition orderly :: "('o, 'i) channel_event list \<Rightarrow> bool" where
  "orderly es \<longleftrightarrow> close_count es \<le> 1
     \<and> (\<forall>pre e post. es = pre @ e # post \<longrightarrow> is_close e \<longrightarrow> \<not> list_ex is_emit post)"

lemma step_events_append:
  "step_events a b es \<Longrightarrow> step_events b c es' \<Longrightarrow> step_events a c (es @ es')"
  by (induction es arbitrary: a) (auto split: if_splits)

lemma step_events_closed: "step_events False b es \<Longrightarrow> \<not> b \<and> \<not> list_ex is_emit es \<and> \<not> list_ex is_close es"
  by (induction es) (auto split: if_splits)

lemma close_count_simps [simp]:
  "close_count [] = 0"
  "close_count (e # es) = (if is_close e then Suc (close_count es) else close_count es)"
  by (simp_all add: close_count_def is_close_def)

lemma close_count_0: "close_count es = 0 \<longleftrightarrow> \<not> list_ex is_close es"
  by (induction es) auto

lemma step_events_orderly:
  assumes "step_events a b es"
  shows "orderly es \<and> (a \<longrightarrow> close_count es = (if b then 0 else 1))"
proof -
  have count: "close_count es \<le> 1 \<and> (a \<longrightarrow> close_count es = (if b then 0 else 1))"
    using assms
  proof (induction es arbitrary: a)
    case (Cons e es)
    show ?case
    proof (cases "is_close e")
      case True
      with Cons.prems have "a" "step_events False b es" by auto
      with step_events_closed [OF this(2)] True show ?thesis by (simp add: close_count_0)
    next
      case False
      with Cons show ?thesis by (auto split: if_splits)
    qed
  qed simp
  moreover have "\<not> list_ex is_emit post" if "es = pre @ e # post" "is_close e" for pre e post
    using assms unfolding that(1)
  proof (induction pre arbitrary: a)
    case Nil
    with that(2) show ?case by (auto dest: step_events_closed)
  qed (auto split: if_splits)
  ultimately show ?thesis by (simp add: orderly_def)
qed

text \<open>One state follows from another by events that fit.\<close>

definition log_extends ::
  "('s \<Rightarrow> bool) \<Rightarrow> ('s \<Rightarrow> ('o, 'i) channel_event list) \<Rightarrow> 's \<Rightarrow> 's \<Rightarrow> bool"
where
  "log_extends is_open log s t \<longleftrightarrow>
     (\<exists>es. log t = log s @ es \<and> step_events (is_open s) (is_open t) es)"

lemma log_extends_refl: "log_extends is_open log s s"
  by (simp add: log_extends_def)

lemma log_extends_trans:
  "log_extends is_open log s t \<Longrightarrow> log_extends is_open log t u \<Longrightarrow> log_extends is_open log s u"
  unfolding log_extends_def by (metis append.assoc step_events_append)

lemma log_extends_fold:
  assumes "\<And>x s. log_extends is_open log s (f x s)"
  shows "log_extends is_open log s (fold f xs s)"
  by (induction xs arbitrary: s) (auto intro: log_extends_refl log_extends_trans assms)

lemma log_extends_emit_to:
  assumes "\<And>l s. log_extends is_open log s (react l s)"
  shows "log_extends is_open log s (emit_to ls react s)"
  by (induction ls arbitrary: s) (auto intro: log_extends_refl log_extends_trans assms)

text \<open>
  The interface: operations on a state, whether it is open, and its log. Every operation adds events
  that fit; an open channel that an operation closes emits its close event in that operation.
\<close>

locale explorer_channel =
  fixes run :: "'op \<Rightarrow> 's \<Rightarrow> 's"
    and is_open :: "'s \<Rightarrow> bool"
    and log :: "'s \<Rightarrow> ('o, 'i) channel_event list"
  assumes run_log: "\<exists>es. log (run op s) = log s @ es \<and> step_events (is_open s) (is_open (run op s)) es"
begin

lemma run_all_log:
  "\<exists>es. log (fold run ops s) = log s @ es \<and> step_events (is_open s) (is_open (fold run ops s)) es"
proof (induction ops arbitrary: s)
  case (Cons op ops)
  obtain es where es: "log (run op s) = log s @ es" "step_events (is_open s) (is_open (run op s)) es"
    using run_log by blast
  obtain es' where "log (fold run ops (run op s)) = log (run op s) @ es'"
    "step_events (is_open (run op s)) (is_open (fold run ops (run op s))) es'"
    using Cons by blast
  with es show ?case by (auto intro!: exI [of _ "es @ es'"] step_events_append)
qed auto

lemma session_orderly:
  assumes "is_open s" "log s = []"
  shows "orderly (log (fold run ops s))
    \<and> close_count (log (fold run ops s)) = (if is_open (fold run ops s) then 0 else 1)"
  using run_all_log [of ops s] assms step_events_orderly by fastforce

lemma closed_stays_closed: "\<not> is_open s \<Longrightarrow> \<not> is_open (fold run ops s)"
  using run_all_log [of ops s] step_events_closed by fastforce

end

end
