(* ===== verification/Json.thy ===== *)
theory Json
  imports Natural_Sort Text_Encoding
begin

text \<open>
  \<open>JSON.stringify\<close> and \<open>JSON.parse\<close> of the language, on code units. A number with an integral value is
  \<open>JNum\<close>; any other number is \<open>JReal\<close> with the text it was written as, since the modelled code only
  passes such numbers on. Objects are key-value lists in property order.
\<close>

datatype json =
    JNull | JBool bool | JNum int | JReal jstring | JStr jstring
  | JArr "json list" | JObj "(jstring \<times> json) list"

section \<open>Stringify\<close>

definition digit_char :: "nat \<Rightarrow> code_unit" where
  "digit_char n = of_nat (48 + n)"

fun digits :: "nat \<Rightarrow> jstring" where
  "digits n = (if n < 10 then [digit_char n] else digits (n div 10) @ [digit_char (n mod 10)])"

declare digits.simps [simp del]

definition int_text :: "int \<Rightarrow> jstring" where
  "int_text i = (if i < 0 then 45 # digits (nat (- i)) else digits (nat i))"

definition hex_digit :: "nat \<Rightarrow> code_unit" where
  "hex_digit n = of_nat (if n < 10 then 48 + n else 87 + n)"

definition hex4 :: "code_unit \<Rightarrow> jstring" where
  "hex4 u = [hex_digit (unat u div 4096), hex_digit (unat u div 256 mod 16),
     hex_digit (unat u div 16 mod 16), hex_digit (unat u mod 16)]"

text \<open>Short escapes: the escaped unit and the letter after the backslash.\<close>

definition escapes :: "(code_unit \<times> code_unit) list" where
  "escapes = [(34, 34), (92, 92), (8, 98), (12, 102), (10, 110), (13, 114), (9, 116)]"

definition quote_unit :: "code_unit \<Rightarrow> jstring" where
  "quote_unit u =
     (case map_of escapes u of
        Some e \<Rightarrow> [92, e]
      | None \<Rightarrow> if unat u < 32 \<or> high_surrogate u \<or> low_surrogate u then 92 # 117 # hex4 u else [u])"

fun quote_units :: "jstring \<Rightarrow> jstring" where
  "quote_units [] = []"
| "quote_units [u] = quote_unit u"
| "quote_units (u # v # us) =
     (if high_surrogate u \<and> low_surrogate v then u # v # quote_units us
      else quote_unit u @ quote_units (v # us))"

definition quote :: "jstring \<Rightarrow> jstring" where
  "quote s = 34 # quote_units s @ [34]"

fun commas :: "jstring list \<Rightarrow> jstring" where
  "commas [] = []"
| "commas [x] = x"
| "commas (x # y # zs) = x @ 44 # commas (y # zs)"

fun stringify :: "json \<Rightarrow> jstring" where
  "stringify JNull = js ''null''"
| "stringify (JBool b) = (if b then js ''true'' else js ''false'')"
| "stringify (JNum i) = int_text i"
| "stringify (JReal t) = t"
| "stringify (JStr s) = quote s"
| "stringify (JArr xs) = 91 # commas (map stringify xs) @ [93]"
| "stringify (JObj kvs) = 123 # commas (map (\<lambda>(k, v). quote k @ 58 # stringify v) kvs) @ [125]"

section \<open>Parse\<close>

definition is_ws :: "code_unit \<Rightarrow> bool" where
  "is_ws c \<longleftrightarrow> c = 32 \<or> c = 9 \<or> c = 10 \<or> c = 13"

definition skip_ws :: "jstring \<Rightarrow> jstring" where
  "skip_ws s = dropWhile is_ws s"

definition hex_value :: "code_unit \<Rightarrow> nat option" where
  "hex_value c =
     (let n = unat c in
      if 48 \<le> n \<and> n \<le> 57 then Some (n - 48)
      else if 97 \<le> n \<and> n \<le> 102 then Some (n - 87)
      else if 65 \<le> n \<and> n \<le> 70 then Some (n - 55) else None)"

text \<open>Letters after a backslash, the solidus included.\<close>

definition unescapes :: "(code_unit \<times> code_unit) list" where
  "unescapes = [(34, 34), (92, 92), (47, 47), (98, 8), (102, 12), (110, 10), (114, 13), (116, 9)]"

text \<open>One unit of a string literal: as written, or behind a backslash.\<close>

definition read_unit :: "jstring \<Rightarrow> (code_unit \<times> jstring) option" where
  "read_unit s =
     (case s of
        [] \<Rightarrow> None
      | c # r \<Rightarrow>
        if c \<noteq> 92 then (if unat c < 32 then None else Some (c, r))
        else (case r of
           [] \<Rightarrow> None
         | e # r' \<Rightarrow>
           if e \<noteq> 117 then map_option (\<lambda>u. (u, r')) (map_of unescapes e)
           else (case r' of
              a # b # c # d # r'' \<Rightarrow>
                (case (hex_value a, hex_value b, hex_value c, hex_value d) of
                   (Some p, Some q, Some m, Some n) \<Rightarrow>
                     Some (of_nat (p * 4096 + q * 256 + m * 16 + n), r'')
                 | _ \<Rightarrow> None)
            | _ \<Rightarrow> None)))"

lemma read_unit_shorter: "read_unit s = Some (u, r) \<Longrightarrow> length r < length s"
  by (auto simp: read_unit_def split: list.splits if_splits option.splits prod.splits)

function unquote :: "jstring \<Rightarrow> (jstring \<times> jstring) option" where
  "unquote s =
     (case s of
        [] \<Rightarrow> None
      | c # r \<Rightarrow>
        if c = 34 then Some ([], r)
        else (case read_unit s of
           None \<Rightarrow> None
         | Some (u, r') \<Rightarrow>
           (case unquote r' of None \<Rightarrow> None | Some (us, r'') \<Rightarrow> Some (u # us, r''))))"
  by pat_completeness auto

termination
  by (relation "measure length") (auto dest: read_unit_shorter)

declare unquote.simps [simp del]

text \<open>Number literals: sign, integer part, fraction, exponent.\<close>

definition read_fraction :: "jstring \<Rightarrow> (jstring \<times> jstring) option" where
  "read_fraction s =
     (case s of
        c # r \<Rightarrow>
          if c = 46
          then (if takeWhile is_digit r = [] then None
                else Some (takeWhile is_digit r, dropWhile is_digit r))
          else Some ([], s)
      | [] \<Rightarrow> Some ([], []))"

definition read_exponent :: "jstring \<Rightarrow> (int \<times> jstring) option" where
  "read_exponent s =
     (case s of
        c # r \<Rightarrow>
          if c = 101 \<or> c = 69
          then (let neg = (case r of d # _ \<Rightarrow> d = 45 | [] \<Rightarrow> False);
                    r' = (case r of d # t \<Rightarrow> if d = 45 \<or> d = 43 then t else r | [] \<Rightarrow> r);
                    ds = takeWhile is_digit r'
                in if ds = [] then None
                   else Some ((if neg then -1 else 1) * digit_value ds, dropWhile is_digit r'))
          else Some (0, s)
      | [] \<Rightarrow> Some (0, []))"

definition number_value :: "bool \<Rightarrow> int \<Rightarrow> int \<Rightarrow> jstring \<Rightarrow> json" where
  "number_value neg mant e token =
     (let sgn = (if neg then -1 else 1) in
      if 0 \<le> e then JNum (sgn * mant * 10 ^ nat e)
      else if 10 ^ nat (- e) dvd mant then JNum (sgn * (mant div 10 ^ nat (- e)))
      else JReal token)"

definition parse_number :: "jstring \<Rightarrow> (json \<times> jstring) option" where
  "parse_number s =
     (let neg = (case s of c # _ \<Rightarrow> c = 45 | [] \<Rightarrow> False);
          s1 = (if neg then tl s else s);
          ip = takeWhile is_digit s1;
          r1 = dropWhile is_digit s1
      in if ip = [] \<or> (hd ip = 48 \<and> length ip > 1) then None
         else (case read_fraction r1 of
            None \<Rightarrow> None
          | Some (fp, r2) \<Rightarrow>
            (case read_exponent r2 of
               None \<Rightarrow> None
             | Some (ex, r3) \<Rightarrow>
               Some (number_value neg (digit_value (ip @ fp)) (ex - int (length fp))
                       (take (length s - length r3) s), r3))))"

definition literal :: "string \<Rightarrow> json \<Rightarrow> jstring \<Rightarrow> (json \<times> jstring) option" where
  "literal w v s = (if take (length w) s = js w then Some (v, drop (length w) s) else None)"

text \<open>Later members of an object replace earlier ones with the same key.\<close>

definition make_object :: "(jstring \<times> json) list \<Rightarrow> json" where
  "make_object kvs = JObj (fold (\<lambda>(k, v). jm_set k v) kvs [])"

text \<open>
  Recursive descent. The fuel is spent once per nested value and once per element; twice the length
  of the text is always enough for a text that \<open>stringify\<close> wrote.
\<close>

fun parse_value :: "nat \<Rightarrow> jstring \<Rightarrow> (json \<times> jstring) option"
  and parse_elems :: "nat \<Rightarrow> jstring \<Rightarrow> (json list \<times> jstring) option"
  and parse_members :: "nat \<Rightarrow> jstring \<Rightarrow> ((jstring \<times> json) list \<times> jstring) option"
where
  "parse_value 0 s = None"
| "parse_value (Suc n) s =
     (case skip_ws s of
        [] \<Rightarrow> None
      | c # r \<Rightarrow>
        if c = 123
        then (case skip_ws r of
                [] \<Rightarrow> None
              | d # t \<Rightarrow>
                if d = 125 then Some (JObj [], t)
                else map_option (apfst make_object) (parse_members n (d # t)))
        else if c = 91
        then (case skip_ws r of
                [] \<Rightarrow> None
              | d # t \<Rightarrow>
                if d = 93 then Some (JArr [], t)
                else map_option (apfst JArr) (parse_elems n (d # t)))
        else if c = 34 then map_option (apfst JStr) (unquote r)
        else if c = 110 then literal ''null'' JNull (c # r)
        else if c = 116 then literal ''true'' (JBool True) (c # r)
        else if c = 102 then literal ''false'' (JBool False) (c # r)
        else parse_number (c # r))"
| "parse_elems 0 s = None"
| "parse_elems (Suc n) s =
     (case parse_value n s of
        None \<Rightarrow> None
      | Some (v, r) \<Rightarrow>
        (case skip_ws r of
           [] \<Rightarrow> None
         | c # t \<Rightarrow>
           if c = 93 then Some ([v], t)
           else if c = 44 then map_option (apfst ((#) v)) (parse_elems n t)
           else None))"
| "parse_members 0 s = None"
| "parse_members (Suc n) s =
     (case skip_ws s of
        [] \<Rightarrow> None
      | q # r \<Rightarrow>
        if q \<noteq> 34 then None
        else (case unquote r of
           None \<Rightarrow> None
         | Some (k, r1) \<Rightarrow>
           (case skip_ws r1 of
              [] \<Rightarrow> None
            | c # r2 \<Rightarrow>
              if c \<noteq> 58 then None
              else (case parse_value n r2 of
                 None \<Rightarrow> None
               | Some (v, r3) \<Rightarrow>
                 (case skip_ws r3 of
                    [] \<Rightarrow> None
                  | d # t \<Rightarrow>
                    if d = 125 then Some ([(k, v)], t)
                    else if d = 44 then map_option (apfst ((#) (k, v))) (parse_members n t)
                    else None)))))"

text \<open>\<open>None\<close> is the \<open>SyntaxError\<close> of \<open>JSON.parse\<close>.\<close>

definition json_parse :: "jstring \<Rightarrow> json option" where
  "json_parse s =
     (case parse_value (2 * length s + 2) s of
        None \<Rightarrow> None
      | Some (v, r) \<Rightarrow> if skip_ws r = [] then Some v else None)"

section \<open>Parsing what was written\<close>

text \<open>What may follow a value inside a document.\<close>

definition value_end :: "jstring \<Rightarrow> bool" where
  "value_end r \<longleftrightarrow> (case r of [] \<Rightarrow> True | c # _ \<Rightarrow> c = 44 \<or> c = 93 \<or> c = 125)"

subsection \<open>Numbers\<close>

lemma unat_digit_char: "n < 10 \<Longrightarrow> unat (digit_char n) = 48 + n"
  unfolding digit_char_def by (rule unat_unit) simp

lemma digit_unit: "n < 10 \<Longrightarrow> is_digit (digit_char n)"
  by (simp add: is_digit_def word_le_nat_alt unat_digit_char)

lemma digits_nonempty [simp]: "digits n \<noteq> []"
  by (subst digits.simps) simp

lemma digits_all: "list_all is_digit (digits n)"
proof (induction n rule: digits.induct)
  case (1 n)
  have "list_all is_digit (if n < 10 then [digit_char n] else digits (n div 10) @ [digit_char (n mod 10)])"
    using 1 digit_unit by simp
  then show ?case by (subst digits.simps)
qed

lemma digit_value_snoc: "digit_value (ds @ [d]) = digit_value ds * 10 + (uint d - 48)"
  by (simp add: digit_value_def)

lemma digit_value_digits: "digit_value (digits n) = int n"
proof (induction n rule: digits.induct)
  case (1 n)
  have u: "uint (digit_char m) - 48 = int m" if "m < 10" for m
    using that by (simp add: uint_nat unat_digit_char)
  show ?case
  proof (cases "n < 10")
    case True
    then show ?thesis using u digit_value_snoc [of "[]"] by (subst digits.simps) simp
  next
    case False
    have "int (n div 10) * 10 + int (n mod 10) = int (n div 10 * 10 + n mod 10)"
      by (simp only: of_nat_add of_nat_mult of_nat_numeral)
    also have "\<dots> = int n" by (simp only: div_mult_mod_eq)
    finally have "int (n div 10) * 10 + int (n mod 10) = int n" .
    moreover have "digit_value (digits n) = digit_value (digits (n div 10)) * 10 + int (n mod 10)"
      using False u [of "n mod 10"] by (subst digits.simps) (simp add: digit_value_snoc)
    ultimately show ?thesis using "1.IH" [OF False] by simp
  qed
qed

lemma hd_digits: "10 \<le> n \<Longrightarrow> hd (digits n) \<noteq> 48"
proof (induction n rule: digits.induct)
  case (1 n)
  show ?case
  proof (cases "n div 10 < 10")
    case True
    with 1 have "0 < n div 10" "n div 10 < 10" by auto
    then have "hd (digits (n div 10)) \<noteq> 48"
      by (subst digits.simps) (simp add: word_unat_eq_iff unat_digit_char)
    with 1 show ?thesis by (subst digits.simps) simp
  next
    case False
    with 1 show ?thesis by (subst digits.simps) simp
  qed
qed

lemma length_digits_small: "n < 10 \<Longrightarrow> length (digits n) = 1"
  by (subst digits.simps) simp

lemma takeWhile_digits:
  assumes "value_end r"
  shows "takeWhile is_digit (digits n @ r) = digits n" "dropWhile is_digit (digits n @ r) = r"
proof -
  have "\<not> is_digit (44 :: code_unit)" "\<not> is_digit (93 :: code_unit)" "\<not> is_digit (125 :: code_unit)"
    by (simp_all add: is_digit_def)
  with assms have r: "takeWhile is_digit r = []" "dropWhile is_digit r = r"
    by (auto simp: value_end_def split: list.splits)
  have all: "\<And>x. x \<in> set (digits n) \<Longrightarrow> is_digit x"
    using digits_all [of n] by (simp add: list_all_iff)
  show "takeWhile is_digit (digits n @ r) = digits n" "dropWhile is_digit (digits n @ r) = r"
    using all r by (simp_all add: takeWhile_append2 dropWhile_append2)
qed

lemma hd_digits_minus: "hd (digits n) \<noteq> 45"
  using digits_all [of n] by (cases "digits n") (auto simp: is_digit_def)

lemma parse_number_int:
  assumes "value_end r"
  shows "parse_number (int_text i @ r) = Some (JNum i, r)"
proof -
  have fr: "read_fraction r = Some ([], r)" "read_exponent r = Some (0, r)"
    using assms by (auto simp: value_end_def read_fraction_def read_exponent_def split: list.splits)
  have lead: "\<not> (hd (digits n) = 48 \<and> length (digits n) > 1)" for n
    using hd_digits [of n] length_digits_small [of n] by (cases "n < 10") auto
  have ne: "\<not> (case digits n @ r of [] \<Rightarrow> False | c # x \<Rightarrow> c = 45)" for n
    using hd_digits_minus [of n] by (cases "digits n") auto
  show ?thesis
  proof (cases "i < 0")
    case True
    then show ?thesis
      using lead [of "nat (- i)"]
      by (simp add: int_text_def parse_number_def Let_def takeWhile_digits [OF assms] fr
          number_value_def digit_value_digits)
  next
    case False
    then show ?thesis
      using lead [of "nat i"] ne [of "nat i"]
      by (simp add: int_text_def parse_number_def Let_def takeWhile_digits [OF assms] fr
          number_value_def digit_value_digits)
  qed
qed

subsection \<open>Strings\<close>

lemma hex_value_digit: "n < 16 \<Longrightarrow> hex_value (hex_digit n) = Some n"
  by (simp add: hex_value_def hex_digit_def Let_def unat_of_nat)

lemma hex_sum:
  "n div 4096 * 4096 + n div 256 mod 16 * 256 + n div 16 mod 16 * 16 + n mod 16 = (n :: nat)"
proof -
  define a b c where "a = n div 16" and "b = a div 16" and "c = b div 16"
  have "a * 16 + n mod 16 = n" "b * 16 + a mod 16 = a" "c * 16 + b mod 16 = b"
    unfolding a_def b_def c_def by (rule div_mult_mod_eq)+
  then have "c * 4096 + b mod 16 * 256 + a mod 16 * 16 + n mod 16 = n" by simp
  moreover have "n div 4096 = c" "n div 256 = b"
    unfolding a_def b_def c_def by (simp_all add: div_mult2_eq [symmetric])
  ultimately show ?thesis by (simp add: a_def [symmetric])
qed

lemma read_unit_hex4: "read_unit (92 # 117 # hex4 u @ r) = Some (u, r)"
proof -
  have u: "unat u < 65536" by (rule unat_unit_less)
  then have "unat u div 4096 < 16" by (simp add: less_mult_imp_div_less)
  then have "hex_value (hex_digit (unat u div 4096)) = Some (unat u div 4096)"
    by (rule hex_value_digit)
  moreover have "of_nat (unat u div 4096 * 4096 + unat u div 256 mod 16 * 256
      + unat u div 16 mod 16 * 16 + unat u mod 16) = u"
    unfolding hex_sum by simp
  ultimately show ?thesis
    by (simp add: read_unit_def hex4_def hex_value_digit del: of_nat_add of_nat_mult)
qed

lemma read_unit_quote: "read_unit (quote_unit u @ r) = Some (u, r)"
proof (cases "map_of escapes u")
  case None
  then have "u \<noteq> 92" by (auto simp: escapes_def split: if_splits)
  with None show ?thesis
    using read_unit_hex4 [of u r] by (auto simp: quote_unit_def read_unit_def [of "u # r"])
next
  case (Some e)
  then show ?thesis
    by (auto simp: quote_unit_def read_unit_def escapes_def unescapes_def split: if_splits)
qed

lemma hd_quote_unit: "\<exists>c t. quote_unit u = c # t \<and> c \<noteq> 34"
  by (auto simp: quote_unit_def escapes_def split: option.split if_splits)

lemma unquote_unit:
  assumes "read_unit (x @ r) = Some (u, r)" "x \<noteq> []" "hd x \<noteq> 34"
  shows "unquote (x @ r) = (case unquote r of None \<Rightarrow> None | Some (us, t) \<Rightarrow> Some (u # us, t))"
  using assms by (subst unquote.simps) (cases x, auto)

lemma unquote_quote: "unquote (quote_units s @ 34 # r) = Some (s, r)"
proof (induction s rule: quote_units.induct)
  case 1
  then show ?case by (subst unquote.simps) simp
next
  case (2 u)
  have "unquote (34 # r) = Some ([], r)" by (subst unquote.simps) simp
  with unquote_unit [OF read_unit_quote, of u "34 # r"] hd_quote_unit [of u] show ?case by auto
next
  case (3 u v us)
  show ?case
  proof (cases "high_surrogate u \<and> low_surrogate v")
    case True
    have raw: "read_unit ([w] @ x) = Some (w, x)" "hd [w] \<noteq> 34" if "unat w \<ge> 55296" for w x
      using that by (auto simp: read_unit_def)
    have "unat u \<ge> 55296" "unat v \<ge> 55296" using True by (auto simp: high_surrogate_def low_surrogate_def)
    with True "3.IH"(1) show ?thesis
      using unquote_unit [OF raw(1), of u "v # quote_units us @ 34 # r"]
        unquote_unit [OF raw(1), of v "quote_units us @ 34 # r"] raw(2)
      by auto
  next
    case False
    with "3.IH"(2) show ?thesis
      using unquote_unit [OF read_unit_quote, of u "quote_units (v # us) @ 34 # r"] hd_quote_unit [of u]
      by auto
  qed
qed

subsection \<open>Documents\<close>

text \<open>Values that survive the trip: integral numbers, objects with distinct keys.\<close>

fun json_ok :: "json \<Rightarrow> bool" where
  "json_ok (JReal t) = False"
| "json_ok (JArr xs) = list_all json_ok xs"
| "json_ok (JObj kvs) = (distinct (map fst kvs) \<and> list_all (\<lambda>(k, v). json_ok v) kvs)"
| "json_ok v = True"

lemma int_text_start: "\<exists>c t. int_text i = c # t \<and> (is_digit c \<or> c = 45)"
  using digits_all [of "nat i"] by (cases "digits (nat i)") (auto simp: int_text_def)

lemma stringify_start:
  assumes "json_ok v"
  shows "\<exists>c t. stringify v = c # t \<and> \<not> is_ws c \<and> c \<noteq> 93 \<and> c \<noteq> 125"
proof (cases v)
  case (JNum i)
  obtain c t where "int_text i = c # t" "is_digit c \<or> c = 45" using int_text_start by blast
  then show ?thesis using JNum by (auto simp: is_ws_def is_digit_def)
qed (use assms in \<open>auto simp: js_def is_ws_def quote_def\<close>)

lemma skip_ws_stringify: "json_ok v \<Longrightarrow> skip_ws (stringify v @ r) = stringify v @ r"
  using stringify_start [of v] by (auto simp: skip_ws_def)

lemma skip_ws_mark: "\<not> is_ws c \<Longrightarrow> skip_ws (c # r) = c # r"
  by (simp add: skip_ws_def)

lemma marks_not_ws [simp]:
  "\<not> is_ws 34" "\<not> is_ws 44" "\<not> is_ws 58" "\<not> is_ws 91" "\<not> is_ws 93" "\<not> is_ws 123" "\<not> is_ws 125"
  by (simp_all add: is_ws_def)

definition parses :: "json \<Rightarrow> bool" where
  "parses v \<longleftrightarrow> (\<forall>f r. value_end r \<longrightarrow> 2 * length (stringify v) \<le> f \<longrightarrow>
     parse_value f (stringify v @ r) = Some (v, r))"

lemma value_end_marks [simp]: "value_end (44 # r)" "value_end (93 # r)" "value_end (125 # r)"
  by (simp_all add: value_end_def)

lemma parse_elems_commas:
  "list_all (\<lambda>x. parses x \<and> json_ok x) xs \<Longrightarrow> xs \<noteq> [] \<Longrightarrow>
   2 * length (commas (map stringify xs)) + 1 \<le> f \<Longrightarrow>
   parse_elems f (commas (map stringify xs) @ 93 # r) = Some (xs, r)"
proof (induction xs arbitrary: f)
  case (Cons x xs)
  obtain n where f: "f = Suc n" using Cons.prems(3) by (cases f) auto
  show ?case
  proof (cases xs)
    case Nil
    with Cons.prems f have "parse_value n (stringify x @ 93 # r) = Some (x, 93 # r)"
      by (simp add: parses_def)
    with Nil f show ?thesis by (simp add: skip_ws_mark)
  next
    case (Cons y ys)
    have "parse_value n (stringify x @ 44 # t) = Some (x, 44 # t)" for t
      using Cons.prems f Cons by (simp add: parses_def)
    moreover have "parse_elems n (commas (map stringify xs) @ 93 # r) = Some (xs, r)"
      using Cons.prems f Cons by (intro Cons.IH) auto
    ultimately show ?thesis using f Cons by (simp add: skip_ws_mark)
  qed
qed simp

definition member_text :: "jstring \<times> json \<Rightarrow> jstring" where
  "member_text kv = quote (fst kv) @ 58 # stringify (snd kv)"

lemma parse_members_commas:
  "list_all (\<lambda>kv. parses (snd kv) \<and> json_ok (snd kv)) kvs \<Longrightarrow> kvs \<noteq> [] \<Longrightarrow>
   2 * length (commas (map member_text kvs)) + 1 \<le> f \<Longrightarrow>
   parse_members f (commas (map member_text kvs) @ 125 # r) = Some (kvs, r)"
proof (induction kvs arbitrary: f)
  case (Cons kv kvs)
  obtain n where f: "f = Suc n" using Cons.prems(3) by (cases f) auto
  obtain k v where kv: "kv = (k, v)" by (cases kv)
  show ?case
  proof (cases kvs)
    case Nil
    with Cons.prems f kv have "parse_value n (stringify v @ 125 # r) = Some (v, 125 # r)"
      by (simp add: parses_def member_text_def)
    with Nil f kv show ?thesis
      by (simp add: skip_ws_mark member_text_def quote_def unquote_quote)
  next
    case (Cons y ys)
    have "parse_value n (stringify v @ 44 # t) = Some (v, 44 # t)" for t
      using Cons.prems f Cons kv by (simp add: parses_def member_text_def)
    moreover have "parse_members n (commas (map member_text kvs) @ 125 # r) = Some (kvs, r)"
      using Cons.prems f Cons by (intro Cons.IH) (auto simp: member_text_def quote_def)
    ultimately show ?thesis
      using f Cons kv by (simp add: skip_ws_mark member_text_def [of "(k, v)"] quote_def unquote_quote)
  qed
qed simp

lemma commas_start:
  "xs \<noteq> [] \<Longrightarrow> hd xs = c # t \<Longrightarrow> \<exists>t'. commas xs = c # t'"
  by (induction xs rule: commas.induct) auto

lemma parse_number_start:
  assumes "is_digit c \<or> c = 45"
  shows "parse_value (Suc n) (c # s) = parse_number (c # s)"
proof -
  have "\<not> is_ws c" "c \<noteq> 123" "c \<noteq> 91" "c \<noteq> 34" "c \<noteq> 110" "c \<noteq> 116" "c \<noteq> 102"
    using assms by (auto simp: is_digit_def is_ws_def)
  then show ?thesis by (simp add: skip_ws_mark)
qed

lemma stringify_object: "stringify (JObj kvs) = 123 # commas (map member_text kvs) @ [125]"
proof -
  have "map (\<lambda>(k, v). quote k @ 58 # stringify v) kvs = map member_text kvs"
    by (rule map_cong) (auto simp: member_text_def)
  then show ?thesis by (simp only: stringify.simps)
qed

lemma parses_all: "json_ok v \<Longrightarrow> parses v"
proof (induction v)
  case (JNum i)
  obtain c t where c: "int_text i = c # t" "is_digit c \<or> c = 45" using int_text_start by blast
  have "parse_value f (int_text i @ r) = Some (JNum i, r)"
    if r: "value_end r" and f: "2 * length (int_text i) \<le> f" for f r
  proof -
    obtain n where "f = Suc n" using f c(1) by (cases f) auto
    with parse_number_start [OF c(2), of n "t @ r"] parse_number_int [OF r, of i] c(1)
    show ?thesis by simp
  qed
  then show ?case by (simp add: parses_def)
next
  case (JArr xs)
  then have ok: "list_all (\<lambda>x. parses x \<and> json_ok x) xs" by (auto simp: list_all_iff)
  have "parse_value f (stringify (JArr xs) @ r) = Some (JArr xs, r)"
    if F: "2 * length (stringify (JArr xs)) \<le> f" for f r
  proof -
    obtain n where f: "f = Suc n" using F by (cases f) auto
    show ?thesis
    proof (cases "xs = []")
      case False
      then obtain c t where c: "hd (map stringify xs) = c # t" "\<not> is_ws c" "c \<noteq> 93"
        using stringify_start [of "hd xs"] ok by (cases xs) auto
      obtain t' where t': "commas (map stringify xs) = c # t'"
        using commas_start [OF _ c(1)] False by auto
      have "parse_elems n (commas (map stringify xs) @ 93 # r) = Some (xs, r)"
        using F f by (intro parse_elems_commas [OF ok False]) simp
      then show ?thesis using f t' c by (simp add: skip_ws_mark)
    qed (use f in \<open>simp add: skip_ws_mark\<close>)
  qed
  then show ?case by (simp add: parses_def)
next
  case (JObj kvs)
  then have ok: "list_all (\<lambda>kv. parses (snd kv) \<and> json_ok (snd kv)) kvs"
    by (fastforce simp: list_all_iff)
  have obj: "make_object kvs = JObj kvs"
    using JObj.prems fold_set_fresh [of "[]" kvs] by (simp add: make_object_def)
  have "parse_value f (stringify (JObj kvs) @ r) = Some (JObj kvs, r)"
    if F: "2 * length (stringify (JObj kvs)) \<le> f" for f r
  proof -
    obtain n where f: "f = Suc n" using F by (cases f) auto
    show ?thesis
    proof (cases "kvs = []")
      case False
      then have c: "hd (map member_text kvs) = 34 # tl (member_text (hd kvs))"
        by (cases kvs) (simp_all add: member_text_def quote_def)
      obtain t' where t': "commas (map member_text kvs) = 34 # t'"
        using commas_start [OF _ c] False by auto
      have "parse_members n (commas (map member_text kvs) @ 125 # r) = Some (kvs, r)"
        using F f by (intro parse_members_commas [OF ok False]) (simp add: stringify_object del: stringify.simps)
      then show ?thesis
        using f t' obj by (simp add: skip_ws_mark stringify_object del: stringify.simps)
    qed (use f in \<open>simp add: skip_ws_mark\<close>)
  qed
  then show ?case by (simp only: parses_def) blast
next
  case (JStr s)
  have "parse_value f (quote s @ r) = Some (JStr s, r)" if "2 * length (quote s) \<le> f" for f r
    using that by (cases f) (simp_all add: quote_def skip_ws_mark unquote_quote)
  then show ?case by (simp add: parses_def)
next
  case JNull
  have "parse_value f (js ''null'' @ r) = Some (JNull, r)" if "8 \<le> f" for f r
    using that by (cases f) (simp_all add: js_def skip_ws_def is_ws_def literal_def)
  then show ?case by (simp add: parses_def js_def)
next
  case (JBool b)
  have "parse_value f (js ''true'' @ r) = Some (JBool True, r)"
    "parse_value f (js ''false'' @ r) = Some (JBool False, r)" if "8 \<le> f" for f r
    using that by (cases f; simp add: js_def skip_ws_def is_ws_def literal_def)+
  then show ?case by (auto simp: parses_def js_def)
qed simp

lemma json_roundtrip: "json_ok v \<Longrightarrow> json_parse (stringify v) = Some v"
proof -
  assume "json_ok v"
  from parses_all [OF this] have "parse_value (2 * length (stringify v) + 2) (stringify v @ []) = Some (v, [])"
    by (simp only: parses_def value_end_def list.case simp_thms le_add1)
  then show ?thesis by (simp add: json_parse_def skip_ws_def del: parse_value.simps)
qed

subsection \<open>Written text is well-formed UTF-16\<close>

definition plain_unit :: "code_unit \<Rightarrow> bool" where
  "plain_unit u \<longleftrightarrow> \<not> high_surrogate u \<and> \<not> low_surrogate u"

lemma well_formed_append: "well_formed a \<Longrightarrow> well_formed b \<Longrightarrow> well_formed (a @ b)"
proof (induction a rule: well_formed.induct)
  case (2 u)
  then show ?case by (cases b) auto
qed (auto split: if_splits)

lemma well_formed_plain: "list_all plain_unit s \<Longrightarrow> well_formed s"
  by (induction s rule: well_formed.induct) (auto simp: plain_unit_def)

lemma plain_small: "unat u < 55296 \<Longrightarrow> plain_unit u"
  by (simp add: plain_unit_def high_surrogate_def low_surrogate_def)

lemma plain_digit: "is_digit u \<Longrightarrow> plain_unit u"
  by (rule plain_small) (simp add: is_digit_def word_le_nat_alt)

lemma plain_hex: "n < 16 \<Longrightarrow> plain_unit (hex_digit n)"
  by (rule plain_small) (simp add: hex_digit_def unat_of_nat)

lemma plain_quote_unit: "list_all plain_unit (quote_unit u)"
proof -
  have "unat u div 4096 < 16" using unat_unit_less [of u] by (simp add: less_mult_imp_div_less)
  then have "list_all plain_unit (hex4 u)" by (simp add: hex4_def plain_hex)
  moreover have "plain_unit e" if "map_of escapes u = Some e" for e
    using that by (auto simp: escapes_def plain_small split: if_splits)
  ultimately show ?thesis
    by (auto simp: quote_unit_def plain_small plain_unit_def [of u] split: option.split)
qed

lemma well_formed_quote_units: "well_formed (quote_units s)"
proof (induction s rule: quote_units.induct)
  case (3 u v us)
  then show ?case
    by (auto intro: well_formed_append well_formed_plain [OF plain_quote_unit])
qed (auto intro: well_formed_plain [OF plain_quote_unit])

lemma well_formed_quote: "well_formed (quote s)"
proof -
  have "well_formed ([34] @ quote_units s @ [34])"
    by (intro well_formed_append well_formed_quote_units well_formed_plain) (simp_all add: plain_small)
  then show ?thesis by (simp add: quote_def)
qed

lemma well_formed_Cons: "plain_unit c \<Longrightarrow> well_formed s \<Longrightarrow> well_formed (c # s)"
  using well_formed_append [of "[c]" s] by (simp add: plain_unit_def)

lemma well_formed_commas: "list_all well_formed xs \<Longrightarrow> well_formed (commas xs)"
  by (induction xs rule: commas.induct)
     (auto intro!: well_formed_append well_formed_Cons simp: plain_small)

lemma well_formed_stringify: "json_ok v \<Longrightarrow> well_formed (stringify v)"
proof (induction v)
  case (JNum i)
  have "list_all plain_unit (digits n)" for n
    using digits_all [of n] plain_digit by (simp add: list_all_iff)
  then have "list_all plain_unit (int_text i)" by (auto simp: int_text_def plain_small)
  then show ?case by (simp add: well_formed_plain)
next
  case (JArr xs)
  then have "well_formed (commas (map stringify xs))"
    by (intro well_formed_commas) (auto simp: list_all_iff)
  then show ?case
    by (auto intro!: well_formed_Cons well_formed_append simp: plain_small plain_unit_def [symmetric])
next
  case (JObj kvs)
  have "well_formed (member_text kv)" if "kv \<in> set kvs" for kv
  proof -
    have "well_formed (stringify (snd kv))"
      using JObj that by (cases kv) (auto simp: list_all_iff)
    then show ?thesis
      unfolding member_text_def by (intro well_formed_append well_formed_quote well_formed_Cons plain_small) simp_all
  qed
  then have "well_formed (commas (map member_text kvs))"
    by (intro well_formed_commas) (auto simp: list_all_iff)
  then show ?case
    unfolding stringify_object
    by (auto intro!: well_formed_Cons well_formed_append simp: plain_small plain_unit_def [symmetric])
next
  case (JStr s)
  then show ?case by (simp add: well_formed_quote)
next
  case JNull
  have "list_all plain_unit (js ''null'')" by (simp add: js_def plain_small)
  then show ?case by (simp only: stringify.simps well_formed_plain)
next
  case (JBool b)
  have "list_all plain_unit (js ''true'')" "list_all plain_unit (js ''false'')"
    by (simp_all add: js_def plain_small)
  then show ?case by (simp only: stringify.simps well_formed_plain if_split) blast
qed simp

lemma text_safe_stringify:
  assumes "json_ok v"
  shows "text_safe (stringify v)"
proof -
  have "hd (stringify v) \<noteq> 65279"
  proof (cases v)
    case (JNum i)
    then show ?thesis using int_text_start [of i] by (auto simp: is_digit_def)
  qed (use assms in \<open>auto simp: js_def quote_def\<close>)
  then show ?thesis using well_formed_stringify [OF assms] by (simp add: text_safe_def)
qed

end
