(* ===== verification/Stream_Limits.thy ===== *)
theory Stream_Limits
  imports Mille_Prelude
begin

text \<open>
  Wire constants and bounds of the framed stream (\<open>packages/mille/src/stream/limits.ts\<close>). An input
  limit may be any number; one that is not an integer is \<open>NotInteger\<close>.
\<close>

datatype js_number = Integer int | NotInteger

definition WIRE_MAGIC :: bytes where
  "WIRE_MAGIC = [0x4d, 0x4c, 0x4c, 0x45]"

definition WIRE_MAJOR :: byte where
  "WIRE_MAJOR = 1"

definition WIRE_MINOR :: byte where
  "WIRE_MINOR = 0"

definition FRAME_HEADER_BYTES :: nat where
  "FRAME_HEADER_BYTES = 20"

definition KNOWN_FLAGS :: nat where
  "KNOWN_FLAGS = 0"

record limits =
  maxMetadataBytes :: nat
  maxAttachments :: nat
  maxFrameBytes :: nat
  outboundSoftBytes :: nat
  outboundHardBytes :: nat

record limits_input =
  in_maxMetadataBytes :: "js_number option"
  in_maxAttachments :: "js_number option"
  in_maxFrameBytes :: "js_number option"
  in_outboundSoftBytes :: "js_number option"
  in_outboundHardBytes :: "js_number option"

definition MiB :: nat where
  "MiB = 1024 * 1024"

definition DEFAULT_LIMITS :: limits where
  "DEFAULT_LIMITS = \<lparr>
     maxMetadataBytes = 4 * MiB, maxAttachments = 32, maxFrameBytes = 32 * MiB,
     outboundSoftBytes = 8 * MiB, outboundHardBytes = 32 * MiB \<rparr>"

datatype limits_error = NotPositive string | MetadataAboveFrame | SoftAboveHard

definition positiveInt :: "string \<Rightarrow> js_number option \<Rightarrow> nat \<Rightarrow> limits_error + nat" where
  "positiveInt name v fallback =
     (case v of
        None \<Rightarrow> Inr fallback
      | Some (Integer i) \<Rightarrow> if i \<le> 0 then Inl (NotPositive name) else Inr (nat i)
      | Some NotInteger \<Rightarrow> Inl (NotPositive name))"

definition resolveLimits :: "limits_input \<Rightarrow> limits_error + limits" where
  "resolveLimits input =
     rbind (positiveInt ''maxFrameBytes'' (in_maxFrameBytes input) (maxFrameBytes DEFAULT_LIMITS)) (\<lambda>frame.
     rbind (positiveInt ''maxAttachments'' (in_maxAttachments input) (maxAttachments DEFAULT_LIMITS)) (\<lambda>atts.
     rbind (positiveInt ''outboundHardBytes'' (in_outboundHardBytes input) (outboundHardBytes DEFAULT_LIMITS)) (\<lambda>hard.
     rbind (if in_maxMetadataBytes input = None
            then Inr (min (maxMetadataBytes DEFAULT_LIMITS) frame)
            else positiveInt ''maxMetadataBytes'' (in_maxMetadataBytes input) (maxMetadataBytes DEFAULT_LIMITS)) (\<lambda>meta.
     rbind (if in_outboundSoftBytes input = None
            then Inr (min (outboundSoftBytes DEFAULT_LIMITS) hard)
            else positiveInt ''outboundSoftBytes'' (in_outboundSoftBytes input) (outboundSoftBytes DEFAULT_LIMITS)) (\<lambda>soft.
       if meta > frame then Inl MetadataAboveFrame
       else if soft > hard then Inl SoftAboveHard
       else Inr \<lparr>maxMetadataBytes = meta, maxAttachments = atts, maxFrameBytes = frame,
                 outboundSoftBytes = soft, outboundHardBytes = hard\<rparr>)))))"

text \<open>Limits a channel works with: positive, the inner bounds below the outer ones.\<close>

definition coherent :: "limits \<Rightarrow> bool" where
  "coherent l \<longleftrightarrow> 0 < maxMetadataBytes l \<and> 0 < maxAttachments l \<and> 0 < maxFrameBytes l
     \<and> 0 < outboundSoftBytes l \<and> 0 < outboundHardBytes l
     \<and> maxMetadataBytes l \<le> maxFrameBytes l \<and> outboundSoftBytes l \<le> outboundHardBytes l"

lemma positiveInt_pos: "positiveInt name v d = Inr n \<Longrightarrow> 0 < d \<Longrightarrow> 0 < n"
  by (auto simp: positiveInt_def split: option.splits js_number.splits if_splits)

lemma default_limits_pos:
  "0 < maxMetadataBytes DEFAULT_LIMITS" "0 < maxAttachments DEFAULT_LIMITS"
  "0 < maxFrameBytes DEFAULT_LIMITS" "0 < outboundSoftBytes DEFAULT_LIMITS"
  "0 < outboundHardBytes DEFAULT_LIMITS"
  by (simp_all add: DEFAULT_LIMITS_def MiB_def)

lemma resolved_coherent:
  assumes "resolveLimits input = Inr l"
  shows "coherent l"
  using assms unfolding resolveLimits_def
proof (elim rbind_InrE)
  fix frame atts hard meta soft
  assume f: "positiveInt ''maxFrameBytes'' (in_maxFrameBytes input) (maxFrameBytes DEFAULT_LIMITS) = Inr frame"
    and a: "positiveInt ''maxAttachments'' (in_maxAttachments input) (maxAttachments DEFAULT_LIMITS) = Inr atts"
    and h: "positiveInt ''outboundHardBytes'' (in_outboundHardBytes input) (outboundHardBytes DEFAULT_LIMITS) = Inr hard"
    and m: "(if in_maxMetadataBytes input = None then Inr (min (maxMetadataBytes DEFAULT_LIMITS) frame)
       else positiveInt ''maxMetadataBytes'' (in_maxMetadataBytes input) (maxMetadataBytes DEFAULT_LIMITS)) = Inr meta"
    and s: "(if in_outboundSoftBytes input = None then Inr (min (outboundSoftBytes DEFAULT_LIMITS) hard)
       else positiveInt ''outboundSoftBytes'' (in_outboundSoftBytes input) (outboundSoftBytes DEFAULT_LIMITS)) = Inr soft"
    and l: "(if meta > frame then Inl MetadataAboveFrame else if soft > hard then Inl SoftAboveHard
       else Inr \<lparr>maxMetadataBytes = meta, maxAttachments = atts, maxFrameBytes = frame,
                 outboundSoftBytes = soft, outboundHardBytes = hard\<rparr>) = Inr l"
  have pos: "0 < frame" "0 < atts" "0 < hard"
    using positiveInt_pos [OF f] positiveInt_pos [OF a] positiveInt_pos [OF h] default_limits_pos
    by simp_all
  have "0 < meta" "0 < soft"
    using m s pos default_limits_pos
    by (auto split: if_splits elim: positiveInt_pos)
  with pos l show ?thesis by (auto simp: coherent_def split: if_splits)
qed

text \<open>Lowering only the outer bounds never fails: the inner ones follow.\<close>

definition positive_or_absent :: "js_number option \<Rightarrow> bool" where
  "positive_or_absent v =
     (case v of None \<Rightarrow> True | Some (Integer i) \<Rightarrow> 0 < i | Some NotInteger \<Rightarrow> False)"

lemma positiveInt_accepts: "positive_or_absent v \<Longrightarrow> \<exists>n. positiveInt name v d = Inr n"
  by (auto simp: positiveInt_def positive_or_absent_def split: option.splits js_number.splits)

lemma outer_bounds_suffice:
  assumes "in_maxMetadataBytes input = None" "in_outboundSoftBytes input = None"
    and "positive_or_absent (in_maxFrameBytes input)" "positive_or_absent (in_maxAttachments input)"
    and "positive_or_absent (in_outboundHardBytes input)"
  shows "\<exists>l. resolveLimits input = Inr l"
proof -
  obtain f where f: "positiveInt ''maxFrameBytes'' (in_maxFrameBytes input) (maxFrameBytes DEFAULT_LIMITS) = Inr f"
    using positiveInt_accepts [OF assms(3)] by blast
  obtain a where a: "positiveInt ''maxAttachments'' (in_maxAttachments input) (maxAttachments DEFAULT_LIMITS) = Inr a"
    using positiveInt_accepts [OF assms(4)] by blast
  obtain h where h: "positiveInt ''outboundHardBytes'' (in_outboundHardBytes input) (outboundHardBytes DEFAULT_LIMITS) = Inr h"
    using positiveInt_accepts [OF assms(5)] by blast
  show ?thesis by (simp add: resolveLimits_def f a h assms(1,2))
qed

end
