(* ===== verification/Frame_Codec.thy ===== *)
theory Frame_Codec
  imports Json Stream_Limits Wire_Bytes
begin

text \<open>
  Messages to frames and back (\<open>packages/mille/src/stream/codec.ts\<close>): binary views are pulled out of the
  message and appended raw behind the JSON metadata, the decoder puts them back. A message is a
  JavaScript value as the encoder can tell them apart; an object on its own path (a cycle) is
  \<open>VCyclic\<close> where it is met again. Property order is the order \<open>Object.entries\<close> gives; assigning the
  property \<open>__proto__\<close> sets a prototype instead and leaves no property behind.
\<close>

datatype jsval =
    VUndefined | VNull | VBool bool | VNum int | VReal jstring | VNonFinite | VStr jstring
  | VOpaque | VShared | VBytes bytes | VCyclic | VExotic
  | VArr "jsval list" | VObj "(jstring \<times> jsval) list"

datatype frame_error =
    NonFiniteNumber | UnsupportedType | SharedMemory | TooManyAttachments | CyclicObject
  | UnsupportedPrototype | NotRepresentable | MetadataTooLarge | FrameTooLarge | ShortHeader | BadMagic
  | UnsupportedMajor | UnknownFlags | AttachmentCountLimit | BodyLength | InvalidUtf8 | InvalidJson
  | TableSum | PlaceholderRange | PastEnd

unbundle bit_operations_syntax

section \<open>Pulling out attachments\<close>

definition mille_key :: jstring where
  "mille_key = js ''$mille''"

definition index_key :: jstring where
  "index_key = js ''i''"

definition proto_key :: jstring where
  "proto_key = js ''__proto__''"

definition placeholder :: "nat \<Rightarrow> json" where
  "placeholder i = JObj [(mille_key, JStr (js ''bin'')), (index_key, JNum (int i))]"

text \<open>
  The result of \<open>extract\<close> is what \<open>JSON.stringify\<close> sees: \<open>None\<close> is \<open>undefined\<close>, which it writes as
  \<open>null\<close> inside an array.
\<close>

fun extract_value :: "limits \<Rightarrow> jsval \<Rightarrow> bytes list \<Rightarrow> frame_error + (json option \<times> bytes list)"
  and extract_items :: "limits \<Rightarrow> jsval list \<Rightarrow> bytes list \<Rightarrow> frame_error + (json list \<times> bytes list)"
  and extract_members ::
    "limits \<Rightarrow> (jstring \<times> jsval) list \<Rightarrow> bytes list \<Rightarrow> frame_error + ((jstring \<times> json) list \<times> bytes list)"
where
  "extract_value L VNull as = Inr (Some JNull, as)"
| "extract_value L (VStr s) as = Inr (Some (JStr s), as)"
| "extract_value L (VBool b) as = Inr (Some (JBool b), as)"
| "extract_value L (VNum i) as = Inr (Some (JNum i), as)"
| "extract_value L (VReal t) as = Inr (Some (JReal t), as)"
| "extract_value L VNonFinite as = Inl NonFiniteNumber"
| "extract_value L VUndefined as = Inr (None, as)"
| "extract_value L VOpaque as = Inl UnsupportedType"
| "extract_value L VShared as = Inl SharedMemory"
| "extract_value L (VBytes bs) as =
     (if length as \<ge> maxAttachments L then Inl TooManyAttachments
      else let as' = as @ [bs] in Inr (Some (placeholder (length as' - 1)), as'))"
| "extract_value L VCyclic as = Inl CyclicObject"
| "extract_value L VExotic as = Inl UnsupportedPrototype"
| "extract_value L (VArr xs) as = rbind (extract_items L xs as) (\<lambda>(js, as'). Inr (Some (JArr js), as'))"
| "extract_value L (VObj kvs) as = rbind (extract_members L kvs as) (\<lambda>(ms, as'). Inr (Some (JObj ms), as'))"
| "extract_items L [] as = Inr ([], as)"
| "extract_items L (x # xs) as =
     rbind (extract_value L x as) (\<lambda>(jo, as').
     rbind (extract_items L xs as') (\<lambda>(js, as'').
       Inr ((case jo of Some j \<Rightarrow> j | None \<Rightarrow> JNull) # js, as'')))"
| "extract_members L [] as = Inr ([], as)"
| "extract_members L (kv # kvs) as =
     (if snd kv = VUndefined then extract_members L kvs as
      else rbind (extract_value L (snd kv) as) (\<lambda>(jo, as').
           rbind (extract_members L kvs as') (\<lambda>(ms, as'').
             Inr (case jo of
                    Some j \<Rightarrow> if fst kv = proto_key then ms else (fst kv, j) # ms
                  | None \<Rightarrow> ms, as''))))"

section \<open>Putting them back\<close>

definition isBinaryPlaceholder :: "(jstring \<times> json) list \<Rightarrow> bool" where
  "isBinaryPlaceholder kvs \<longleftrightarrow>
     jm_get kvs mille_key = Some (JStr (js ''bin''))
     \<and> (case jm_get kvs index_key of Some (JNum i) \<Rightarrow> True | Some (JReal t) \<Rightarrow> True | _ \<Rightarrow> False)"

definition placeholder_target :: "(jstring \<times> json) list \<Rightarrow> bytes list \<Rightarrow> frame_error + jsval" where
  "placeholder_target kvs as =
     (case jm_get kvs index_key of
        Some (JNum i) \<Rightarrow>
          if i < 0 \<or> i \<ge> int (length as) then Inl PlaceholderRange else Inr (VBytes (as ! nat i))
      | _ \<Rightarrow> Inl PlaceholderRange)"

fun reconstruct :: "json \<Rightarrow> bytes list \<Rightarrow> frame_error + jsval"
  and reconstruct_items :: "json list \<Rightarrow> bytes list \<Rightarrow> frame_error + jsval list"
  and reconstruct_members :: "(jstring \<times> json) list \<Rightarrow> bytes list \<Rightarrow> frame_error + (jstring \<times> jsval) list"
where
  "reconstruct JNull as = Inr VNull"
| "reconstruct (JBool b) as = Inr (VBool b)"
| "reconstruct (JNum i) as = Inr (VNum i)"
| "reconstruct (JReal t) as = Inr (VReal t)"
| "reconstruct (JStr s) as = Inr (VStr s)"
| "reconstruct (JArr xs) as = rbind (reconstruct_items xs as) (\<lambda>vs. Inr (VArr vs))"
| "reconstruct (JObj kvs) as =
     (if isBinaryPlaceholder kvs then placeholder_target kvs as
      else rbind (reconstruct_members kvs as) (\<lambda>ms. Inr (VObj ms)))"
| "reconstruct_items [] as = Inr []"
| "reconstruct_items (x # xs) as =
     rbind (reconstruct x as) (\<lambda>v. rbind (reconstruct_items xs as) (\<lambda>vs. Inr (v # vs)))"
| "reconstruct_members [] as = Inr []"
| "reconstruct_members (kv # kvs) as =
     rbind (reconstruct (snd kv) as) (\<lambda>v. rbind (reconstruct_members kvs as) (\<lambda>ms.
       Inr (if fst kv = proto_key then ms else (fst kv, v) # ms)))"

section \<open>Frames\<close>

definition total_bytes :: "bytes list \<Rightarrow> nat" where
  "total_bytes as = sum_list (map length as)"

definition encodeFrame :: "jsval \<Rightarrow> limits \<Rightarrow> frame_error + bytes" where
  "encodeFrame message L =
     rbind (extract_value L message []) (\<lambda>(metadata, as).
     (case metadata of
        None \<Rightarrow> Inl NotRepresentable
      | Some j \<Rightarrow>
        let metaBytes = text_encode (stringify j);
            total = FRAME_HEADER_BYTES + length metaBytes + length as * 4 + total_bytes as
        in if length metaBytes > maxMetadataBytes L then Inl MetadataTooLarge
           else if total > maxFrameBytes L then Inl FrameTooLarge
           else Inr (WIRE_MAGIC @ [WIRE_MAJOR, WIRE_MINOR] @ be_bytes 2 0
             @ be_bytes 4 (length metaBytes) @ be_bytes 4 (length as) @ be_bytes 4 (total_bytes as)
             @ metaBytes @ concat (map (\<lambda>a. be_bytes 4 (length a)) as) @ concat as)))"

record frame_header =
  fh_metadataLength :: nat
  fh_attachmentCount :: nat
  fh_attachmentBytes :: nat
  fh_totalLength :: nat

definition get_be :: "nat \<Rightarrow> bytes \<Rightarrow> nat \<Rightarrow> nat" where
  "get_be n bs off = be_value (take n (drop off bs))"

definition parseHeader :: "bytes \<Rightarrow> limits \<Rightarrow> frame_error + frame_header" where
  "parseHeader header L =
     (if length header < FRAME_HEADER_BYTES then Inl ShortHeader
      else if take (length WIRE_MAGIC) header \<noteq> WIRE_MAGIC then Inl BadMagic
      else if header ! 4 \<noteq> WIRE_MAJOR then Inl UnsupportedMajor
      else if get_be 2 header 6 AND KNOWN_FLAGS \<noteq> get_be 2 header 6 then Inl UnknownFlags
      else let metadataLength = get_be 4 header 8;
               attachmentCount = get_be 4 header 12;
               attachmentBytes = get_be 4 header 16;
               totalLength = FRAME_HEADER_BYTES + metadataLength + attachmentCount * 4 + attachmentBytes
      in if metadataLength > maxMetadataBytes L then Inl MetadataTooLarge
         else if attachmentCount > maxAttachments L then Inl AttachmentCountLimit
         else if totalLength > maxFrameBytes L then Inl FrameTooLarge
         else Inr \<lparr>fh_metadataLength = metadataLength, fh_attachmentCount = attachmentCount,
                   fh_attachmentBytes = attachmentBytes, fh_totalLength = totalLength\<rparr>)"

fun slices :: "nat list \<Rightarrow> bytes \<Rightarrow> bytes list" where
  "slices [] bs = []"
| "slices (n # ns) bs = take n bs # slices ns (drop n bs)"

definition decodeFrame :: "bytes \<Rightarrow> frame_header \<Rightarrow> frame_error + jsval" where
  "decodeFrame frame h =
     (if length frame \<noteq> fh_totalLength h then Inl BodyLength
      else let metaBytes = take (fh_metadataLength h) (drop FRAME_HEADER_BYTES frame);
               offset = FRAME_HEADER_BYTES + fh_metadataLength h
      in case text_decode_fatal metaBytes of
           None \<Rightarrow> Inl InvalidUtf8
         | Some json \<Rightarrow>
           (case json_parse json of
              None \<Rightarrow> Inl InvalidJson
            | Some metadata \<Rightarrow>
              let lengths = map (\<lambda>i. get_be 4 frame (offset + i * 4)) [0..<fh_attachmentCount h]
              in if sum_list lengths \<noteq> fh_attachmentBytes h then Inl TableSum
                 else reconstruct metadata
                        (slices lengths (drop (offset + fh_attachmentCount h * 4) frame))))"

section \<open>Values that survive\<close>

text \<open>
  Messages the codec reproduces: no undefined, opaque or fractional part, objects with distinct keys,
  none of them \<open>__proto__\<close>, and no object that looks like a placeholder.
\<close>

definition looks_like_placeholder :: "(jstring \<times> jsval) list \<Rightarrow> bool" where
  "looks_like_placeholder kvs \<longleftrightarrow>
     jm_get kvs mille_key = Some (VStr (js ''bin''))
     \<and> (case jm_get kvs index_key of Some (VNum i) \<Rightarrow> True | Some (VReal t) \<Rightarrow> True | _ \<Rightarrow> False)"

fun wire_value :: "jsval \<Rightarrow> bool" where
  "wire_value VNull = True"
| "wire_value (VBool b) = True"
| "wire_value (VNum i) = True"
| "wire_value (VStr s) = True"
| "wire_value (VBytes bs) = True"
| "wire_value (VArr xs) = list_all wire_value xs"
| "wire_value (VObj kvs) =
     (distinct (map fst kvs) \<and> proto_key \<notin> set (map fst kvs) \<and> \<not> looks_like_placeholder kvs
      \<and> list_all (\<lambda>(k, v). wire_value v) kvs)"
| "wire_value v = False"

text \<open>A value and its metadata have the same strings and numbers at the top.\<close>

definition same_atoms :: "jsval \<Rightarrow> json \<Rightarrow> bool" where
  "same_atoms v j \<longleftrightarrow> (\<forall>s. v = VStr s \<longleftrightarrow> j = JStr s) \<and> (\<forall>i. v = VNum i \<longleftrightarrow> j = JNum i)
     \<and> (\<forall>t. j \<noteq> JReal t) \<and> (\<forall>t. v \<noteq> VReal t)"

lemma placeholder_parts:
  "isBinaryPlaceholder [(mille_key, JStr (js ''bin'')), (index_key, JNum (int i))]"
  "mille_key \<noteq> index_key" "json_ok (placeholder i)"
  by (simp_all add: isBinaryPlaceholder_def mille_key_def index_key_def js_def placeholder_def)

lemma reconstruct_placeholder:
  "i < length as \<Longrightarrow> reconstruct (placeholder i) as = Inr (VBytes (as ! i))"
  using placeholder_parts(1) [of i] placeholder_parts(2)
  by (simp add: placeholder_def placeholder_target_def)

lemma same_atoms_get:
  "map fst ms = map fst kvs \<Longrightarrow> list_all2 (\<lambda>kv m. same_atoms (snd kv) (snd m)) kvs ms \<Longrightarrow>
   rel_option same_atoms (jm_get kvs k) (jm_get ms k)"
proof (induction kvs arbitrary: ms)
  case (Cons kv kvs)
  then obtain m ms' where "ms = m # ms'" by (cases ms) auto
  with Cons show ?case by (cases kv; cases m) auto
qed simp

lemma not_placeholder:
  assumes "map fst ms = map fst kvs" "list_all2 (\<lambda>kv m. same_atoms (snd kv) (snd m)) kvs ms"
    and "\<not> looks_like_placeholder kvs"
  shows "\<not> isBinaryPlaceholder ms"
proof -
  note get = same_atoms_get [OF assms(1,2)]
  have "jm_get kvs mille_key = Some (VStr (js ''bin''))"
    if "jm_get ms mille_key = Some (JStr (js ''bin''))"
    using get [of mille_key] that by (cases "jm_get kvs mille_key") (auto simp: same_atoms_def)
  moreover have "\<exists>i. jm_get kvs index_key = Some (VNum i)"
    if "case jm_get ms index_key of Some (JNum i) \<Rightarrow> True | Some (JReal t) \<Rightarrow> True | _ \<Rightarrow> False"
    using get [of index_key] that
    by (cases "jm_get kvs index_key") (auto simp: same_atoms_def split: option.splits json.splits)
  ultimately show ?thesis
    using assms(3) by (auto simp: isBinaryPlaceholder_def looks_like_placeholder_def)
qed

definition restores :: "json \<Rightarrow> bytes list \<Rightarrow> jsval \<Rightarrow> bool" where
  "restores j as v \<longleftrightarrow> (\<forall>ext. reconstruct j (as @ ext) = Inr v)"

text \<open>Extraction only appends attachments, and reconstruction with them gives the value back.\<close>

lemma restores_append: "restores j as v \<Longrightarrow> restores j (as @ xs) v"
  by (simp add: restores_def)

lemma extract_restores:
  "extract_value L v as = Inr (jo, as') \<Longrightarrow> wire_value v \<Longrightarrow>
     \<exists>j new. jo = Some j \<and> as' = as @ new \<and> json_ok j \<and> same_atoms v j \<and> restores j as' v"
  "extract_items L vs as = Inr (jl, as') \<Longrightarrow> list_all wire_value vs \<Longrightarrow>
     \<exists>new. as' = as @ new \<and> list_all json_ok jl \<and> list_all2 (\<lambda>v j. restores j as' v) vs jl"
  "extract_members L kvs as = Inr (ms, as') \<Longrightarrow> list_all (\<lambda>(k, v). wire_value v) kvs \<Longrightarrow>
     proto_key \<notin> set (map fst kvs) \<Longrightarrow>
     \<exists>new. as' = as @ new \<and> map fst ms = map fst kvs \<and> list_all (\<lambda>(k, j). json_ok j) ms
       \<and> list_all2 (\<lambda>kv m. same_atoms (snd kv) (snd m)) kvs ms
       \<and> list_all2 (\<lambda>kv m. restores (snd m) as' (snd kv)) kvs ms"
proof (induction L v as and L vs as and L kvs as arbitrary: jo as' and jl as' and ms as'
    rule: extract_value_extract_items_extract_members.induct)
  case (10 L bs as)
  then have "jo = Some (placeholder (length as))" "as' = as @ [bs]"
    by (auto simp: Let_def split: if_splits)
  moreover have "restores (placeholder (length as)) (as @ [bs]) (VBytes bs)"
    by (simp add: restores_def reconstruct_placeholder nth_append)
  ultimately show ?case
    using placeholder_parts(3) by (auto simp: same_atoms_def placeholder_def)
next
  case (13 L xs as)
  then obtain jl where "extract_items L xs as = Inr (jl, as')" "jo = Some (JArr jl)"
    by (auto elim!: rbind_InrE)
  moreover from this 13 obtain new where "as' = as @ new" "list_all json_ok jl"
    "list_all2 (\<lambda>v j. restores j as' v) xs jl" by auto
  moreover have "list_all2 (\<lambda>v j. restores j as' v) ys ks \<Longrightarrow> reconstruct_items ks (as' @ ext) = Inr ys"
    for ys ks ext
    by (induction ys ks rule: list_all2_induct) (auto simp: restores_def)
  ultimately show ?case by (auto simp: same_atoms_def restores_def)
next
  case (14 L kvs as)
  then obtain ms where ms: "extract_members L kvs as = Inr (ms, as')" "jo = Some (JObj ms)"
    by (auto elim!: rbind_InrE)
  from 14(3) have kvs: "distinct (map fst kvs)" "proto_key \<notin> set (map fst kvs)"
    "\<not> looks_like_placeholder kvs" "list_all (\<lambda>(k, v). wire_value v) kvs" by simp_all
  from 14(1) [OF ms(1) kvs(4,2)] obtain new where new: "as' = as @ new" "map fst ms = map fst kvs"
    "list_all (\<lambda>(k, j). json_ok j) ms" "list_all2 (\<lambda>kv m. same_atoms (snd kv) (snd m)) kvs ms"
    "list_all2 (\<lambda>kv m. restores (snd m) as' (snd kv)) kvs ms" by blast
  have "list_all2 (\<lambda>kv m. restores (snd m) as' (snd kv)) ys ks \<Longrightarrow> map fst ks = map fst ys \<Longrightarrow>
      proto_key \<notin> set (map fst ys) \<Longrightarrow> reconstruct_members ks (as' @ ext) = Inr ys" for ys ks ext
    by (induction ys ks rule: list_all2_induct) (auto simp: restores_def)
  from this [OF new(5,2) kvs(2)] have "restores (JObj ms) as' (VObj kvs)"
    using not_placeholder [OF new(2,4) kvs(3)] by (simp add: restores_def)
  with new ms kvs show ?case by (auto simp: same_atoms_def)
next
  case (16 L x xs as)
  then obtain jo as1 jl2 where x: "extract_value L x as = Inr (jo, as1)"
    and xs: "extract_items L xs as1 = Inr (jl2, as')"
    and jl: "jl = (case jo of Some j \<Rightarrow> j | None \<Rightarrow> JNull) # jl2"
    by (auto elim!: rbind_InrE)
  from 16 x obtain j new where j: "jo = Some j" "as1 = as @ new" "json_ok j" "restores j as1 x" by auto
  from 16 x xs obtain new2 where n2: "as' = as1 @ new2" "list_all json_ok jl2"
    "list_all2 (\<lambda>v j. restores j as' v) xs jl2" by fastforce
  have "restores j as' x" using restores_append [OF j(4)] n2(1) by simp
  with n2 j jl show ?case by simp
next
  case (18 L kv kvs as)
  from 18(5) have kv: "wire_value (snd kv)" "list_all (\<lambda>(k, v). wire_value v) kvs"
    by (cases kv, simp)+
  then have nu: "snd kv \<noteq> VUndefined" by auto
  from 18(4) nu obtain jo as1 ms2 where x: "extract_value L (snd kv) as = Inr (jo, as1)"
    and xs: "extract_members L kvs as1 = Inr (ms2, as')"
    and ms: "ms = (case jo of Some j \<Rightarrow> if fst kv = proto_key then ms2 else (fst kv, j) # ms2 | None \<Rightarrow> ms2)"
    by (auto elim!: rbind_InrE)
  from 18(2) [OF nu x kv(1)] obtain j new where
    j: "jo = Some j" "as1 = as @ new" "json_ok j" "same_atoms (snd kv) j" "restores j as1 (snd kv)" by blast
  from 18(3) [OF nu xs kv(2)] 18(6) obtain new2 where n2: "as' = as1 @ new2"
    "map fst ms2 = map fst kvs" "list_all (\<lambda>(k, j). json_ok j) ms2"
    "list_all2 (\<lambda>kv m. same_atoms (snd kv) (snd m)) kvs ms2"
    "list_all2 (\<lambda>kv m. restores (snd m) as' (snd kv)) kvs ms2" by auto
  have "restores j as' (snd kv)" using restores_append [OF j(5)] n2(1) by simp
  with n2 j ms 18(6) show ?case by auto
qed (auto simp: same_atoms_def restores_def)

lemma extract_count:
  "extract_value L v as = Inr (jo, as') \<Longrightarrow> length as' \<le> max (length as) (maxAttachments L)"
  "extract_items L vs as = Inr (jl, as') \<Longrightarrow> length as' \<le> max (length as) (maxAttachments L)"
  "extract_members L kvs as = Inr (ms, as') \<Longrightarrow> length as' \<le> max (length as) (maxAttachments L)"
proof (induction L v as and L vs as and L kvs as arbitrary: jo as' and jl as' and ms as'
    rule: extract_value_extract_items_extract_members.induct)
  case (10 L bs as)
  then show ?case by (auto simp: Let_def split: if_splits)
next
  case (16 L x xs as)
  then show ?case by (fastforce elim!: rbind_InrE)
next
  case (18 L kv kvs as)
  then show ?case by (fastforce elim!: rbind_InrE split: if_splits)
qed (auto elim!: rbind_InrE)

section \<open>A frame read back\<close>

lemma get_be_at:
  "length pre = off \<Longrightarrow> v < 256 ^ n \<Longrightarrow> get_be n (pre @ be_bytes n v @ r) off = v"
  by (simp add: get_be_def)

lemma slices_concat: "slices (map length as) (concat as @ r) = as"
  by (induction as arbitrary: r) simp_all

lemma table_at:
  "list_all (\<lambda>a. length a < 2 ^ 32) as \<Longrightarrow> length pre = off \<Longrightarrow>
   map (\<lambda>i. get_be 4 (pre @ concat (map (\<lambda>a. be_bytes 4 (length a)) as) @ r) (off + i * 4)) [0..<length as]
     = map length as"
proof (induction as arbitrary: pre off)
  case (Cons a as)
  let ?t = "concat (map (\<lambda>a. be_bytes 4 (length a)) as) @ r"
  have up: "[0..<length (a # as)] = 0 # map Suc [0..<length as]"
    by (simp add: upt_conv_Cons map_Suc_upt del: upt_Suc)
  have "get_be 4 (pre @ be_bytes 4 (length a) @ ?t) off = length a"
    using Cons.prems by (intro get_be_at) simp_all
  moreover have "map (\<lambda>i. get_be 4 ((pre @ be_bytes 4 (length a)) @ ?t) ((off + 4) + i * 4)) [0..<length as]
      = map length as"
    using Cons.prems by (intro Cons.IH) simp_all
  ultimately show ?case unfolding up by (simp add: comp_def ac_simps)
qed simp

definition header_bytes :: "nat \<Rightarrow> nat \<Rightarrow> nat \<Rightarrow> bytes" where
  "header_bytes m n t =
     WIRE_MAGIC @ [WIRE_MAJOR, WIRE_MINOR] @ be_bytes 2 0 @ be_bytes 4 m @ be_bytes 4 n @ be_bytes 4 t"

lemma length_header_bytes [simp]: "length (header_bytes m n t) = 20"
  by (simp add: header_bytes_def WIRE_MAGIC_def)

lemma parse_header_bytes:
  assumes "m < 2 ^ 32" "n < 2 ^ 32" "t < 2 ^ 32"
    and "m \<le> maxMetadataBytes L" "n \<le> maxAttachments L" "20 + m + n * 4 + t \<le> maxFrameBytes L"
  shows "parseHeader (header_bytes m n t) L =
    Inr \<lparr>fh_metadataLength = m, fh_attachmentCount = n, fh_attachmentBytes = t,
         fh_totalLength = 20 + m + n * 4 + t\<rparr>"
proof -
  let ?p = "WIRE_MAGIC @ [WIRE_MAJOR, WIRE_MINOR]"
  have f: "get_be 2 (header_bytes m n t) 6 = 0"
    using get_be_at [of ?p 6 0 2 "be_bytes 4 m @ be_bytes 4 n @ be_bytes 4 t"]
    by (simp add: header_bytes_def WIRE_MAGIC_def)
  have a: "get_be 4 (header_bytes m n t) 8 = m"
    using get_be_at [of "?p @ be_bytes 2 0" 8 m 4 "be_bytes 4 n @ be_bytes 4 t"] assms(1)
    by (simp add: header_bytes_def WIRE_MAGIC_def)
  have b: "get_be 4 (header_bytes m n t) 12 = n"
    using get_be_at [of "?p @ be_bytes 2 0 @ be_bytes 4 m" 12 n 4 "be_bytes 4 t"] assms(2)
    by (simp add: header_bytes_def WIRE_MAGIC_def)
  have c: "get_be 4 (header_bytes m n t) 16 = t"
    using get_be_at [of "?p @ be_bytes 2 0 @ be_bytes 4 m @ be_bytes 4 n" 16 t 4 "[]"] assms(3)
    by (simp add: header_bytes_def WIRE_MAGIC_def)
  have "take (length WIRE_MAGIC) (header_bytes m n t) = WIRE_MAGIC" "header_bytes m n t ! 4 = WIRE_MAJOR"
    by (simp_all add: header_bytes_def WIRE_MAGIC_def)
  with f a b c assms(4-6) show ?thesis
    by (simp add: parseHeader_def FRAME_HEADER_BYTES_def KNOWN_FLAGS_def Let_def)
qed

text \<open>The bytes behind an encoded message.\<close>

lemma encodeFrame_eq:
  assumes "encodeFrame v L = Inr bs"
  obtains j as where "extract_value L v [] = Inr (Some j, as)"
    "length (text_encode (stringify j)) \<le> maxMetadataBytes L"
    "20 + length (text_encode (stringify j)) + length as * 4 + total_bytes as \<le> maxFrameBytes L"
    "bs = header_bytes (length (text_encode (stringify j))) (length as) (total_bytes as)
       @ text_encode (stringify j) @ concat (map (\<lambda>a. be_bytes 4 (length a)) as) @ concat as"
proof -
  from assms obtain jo as where x: "extract_value L v [] = Inr (jo, as)"
    by (auto simp: encodeFrame_def elim!: rbind_InrE)
  with assms obtain j where j: "jo = Some j"
    by (auto simp: encodeFrame_def split: option.splits)
  show ?thesis
    by (rule that [of j as])
       (use assms x j in \<open>auto simp: encodeFrame_def Let_def FRAME_HEADER_BYTES_def header_bytes_def
          split: if_splits\<close>)
qed

lemma total_bytes_ge: "a \<in> set as \<Longrightarrow> length a \<le> total_bytes as"
  unfolding total_bytes_def by (rule member_le_sum_list) simp_all

lemma length_concat_total: "length (concat as) = total_bytes as"
  by (simp add: length_concat total_bytes_def)

lemma length_table: "length (concat (map (\<lambda>a. be_bytes 4 (length a)) as)) = length as * 4"
  by (induction as) simp_all

text \<open>A frame carries its metadata and attachments to \<open>reconstruct\<close> unchanged.\<close>

lemma decode_frame_bytes:
  assumes "encodeFrame v L = Inr bs" "extract_value L v [] = Inr (Some j, as)" "json_ok j"
    and "maxFrameBytes L < 2 ^ 32"
  shows "\<exists>h. parseHeader (take 20 bs) L = Inr h \<and> fh_totalLength h = length bs
    \<and> decodeFrame bs h = reconstruct j as"
proof -
  from assms(1) obtain j' as' where x: "extract_value L v [] = Inr (Some j', as')"
    and "length (text_encode (stringify j')) \<le> maxMetadataBytes L"
    and "20 + length (text_encode (stringify j')) + length as' * 4 + total_bytes as' \<le> maxFrameBytes L"
    and "bs = header_bytes (length (text_encode (stringify j'))) (length as') (total_bytes as')
       @ text_encode (stringify j') @ concat (map (\<lambda>a. be_bytes 4 (length a)) as') @ concat as'"
    by (rule encodeFrame_eq)
  with assms(2) have m: "length (text_encode (stringify j)) \<le> maxMetadataBytes L"
    and t: "20 + length (text_encode (stringify j)) + length as * 4 + total_bytes as \<le> maxFrameBytes L"
    and bs: "bs = header_bytes (length (text_encode (stringify j))) (length as) (total_bytes as)
       @ text_encode (stringify j) @ concat (map (\<lambda>a. be_bytes 4 (length a)) as) @ concat as"
    by simp_all
  define meta where "meta = text_encode (stringify j)"
  define hb where "hb = header_bytes (length meta) (length as) (total_bytes as)"
  define tb where "tb = concat (map (\<lambda>a. be_bytes 4 (length a)) as)"
  define h where "h = \<lparr>fh_metadataLength = length meta, fh_attachmentCount = length as,
    fh_attachmentBytes = total_bytes as, fh_totalLength = 20 + length meta + length as * 4 + total_bytes as\<rparr>"
  have bs': "bs = hb @ meta @ tb @ concat as" by (simp add: bs meta_def hb_def tb_def)
  have lens: "list_all (\<lambda>a. length a < 2 ^ 32) as"
    using total_bytes_ge [of _ as] t assms(4) by (force simp: list_all_iff)
  have "length as \<le> maxAttachments L" using extract_count(1) [OF assms(2)] by simp
  then have ph: "parseHeader hb L = Inr h"
    unfolding hb_def h_def using t m assms(4) by (intro parse_header_bytes) (auto simp: meta_def)
  have lh: "length hb = 20" and lt: "length tb = length as * 4"
    by (simp_all add: hb_def tb_def length_table)
  have len: "length bs = fh_totalLength h"
    by (simp add: bs' h_def lh lt length_concat_total)
  have dm: "text_decode_fatal meta = Some (stringify j)"
    unfolding meta_def by (rule text_roundtrip_fatal [OF text_safe_stringify [OF assms(3)]])
  have table: "map (\<lambda>i. get_be 4 bs (20 + length meta + i * 4)) [0..<length as] = map length as"
    using table_at [OF lens, of "hb @ meta" "20 + length meta" "concat as"] lh
    by (simp add: bs' tb_def)
  have rest: "drop (20 + length meta + length as * 4) bs = concat as"
    using lh lt by (simp add: bs')
  have mb: "take (length meta) (drop 20 bs) = meta" using lh by (simp add: bs')
  have "decodeFrame bs h = reconstruct j as"
    using len dm table rest mb json_roundtrip [OF assms(3)] slices_concat [of as "[]"]
    by (simp add: decodeFrame_def Let_def FRAME_HEADER_BYTES_def h_def total_bytes_def)
  moreover have "take 20 bs = hb" using lh by (simp add: bs')
  ultimately show ?thesis using ph len by auto
qed

lemma decode_encoded:
  assumes "encodeFrame v L = Inr bs" "wire_value v" "maxFrameBytes L < 2 ^ 32"
  shows "\<exists>h. parseHeader (take 20 bs) L = Inr h \<and> fh_totalLength h = length bs \<and> decodeFrame bs h = Inr v"
proof -
  from assms(1) obtain j as where x: "extract_value L v [] = Inr (Some j, as)"
    by (rule encodeFrame_eq)
  from extract_restores(1) [OF x assms(2)] have ok: "json_ok j" "restores j as v" by auto
  have "reconstruct j as = Inr v" using ok(2) unfolding restores_def by (metis append_Nil2)
  with decode_frame_bytes [OF assms(1) x ok(1) assms(3)] show ?thesis by simp
qed

section \<open>Properties\<close>

text \<open>
  A message that contains an object of the placeholder's own shape is encoded without complaint
  but does not decode: the decoder takes the object for a reference to an attachment that is not
  there.
\<close>

theorem placeholder_collision:
  assumes "encodeFrame (VObj [(mille_key, VStr (js ''bin'')), (index_key, VNum i)]) L = Inr bs"
    and "maxFrameBytes L < 2 ^ 32"
  shows "\<exists>h. parseHeader (take 20 bs) L = Inr h \<and> decodeFrame bs h = Inl PlaceholderRange"
proof -
  let ?kvs = "[(mille_key, JStr (js ''bin'')), (index_key, JNum i)]"
  have keys: "mille_key \<noteq> proto_key" "index_key \<noteq> proto_key" "mille_key \<noteq> index_key"
    by (simp_all add: mille_key_def index_key_def proto_key_def js_def)
  have x: "extract_value L (VObj [(mille_key, VStr (js ''bin'')), (index_key, VNum i)]) [] = Inr (Some (JObj ?kvs), [])"
    using keys by simp
  have "reconstruct (JObj ?kvs) [] = Inl PlaceholderRange"
    using keys by (auto simp: isBinaryPlaceholder_def placeholder_target_def)
  with decode_frame_bytes [OF assms(1) x _ assms(2)] keys show ?thesis by auto
qed

theorem placeholder_collision_witness:
  "\<exists>bs h. encodeFrame (VObj [(mille_key, VStr (js ''bin'')), (index_key, VNum 0)]) DEFAULT_LIMITS = Inr bs
     \<and> parseHeader (take 20 bs) DEFAULT_LIMITS = Inr h \<and> decodeFrame bs h = Inl PlaceholderRange"
proof -
  let ?v = "VObj [(mille_key, VStr (js ''bin'')), (index_key, VNum 0)]"
  have "\<exists>bs. encodeFrame ?v DEFAULT_LIMITS = Inr bs"
    by (simp add: encodeFrame_def mille_key_def index_key_def proto_key_def js_def quote_def quote_unit_def
        escapes_def high_surrogate_def low_surrogate_def int_text_def digits.simps digit_char_def
        text_encode_def utf8_char_def total_bytes_def FRAME_HEADER_BYTES_def DEFAULT_LIMITS_def MiB_def Let_def)
  then obtain bs where bs: "encodeFrame ?v DEFAULT_LIMITS = Inr bs" by blast
  with placeholder_collision [OF bs] show ?thesis by (auto simp: DEFAULT_LIMITS_def MiB_def)
qed

end
