(* ===== verification/Frame_Decoder.thy ===== *)
theory Frame_Decoder
  imports Frame_Codec
begin

text \<open>
  The incremental frame parser (\<open>packages/mille/src/stream/decoder.ts\<close>): a list of chunks, the number of
  buffered bytes and the header of the frame it waits for. The reference is \<open>parse_stream\<close>, which reads
  frames off a whole byte string; the theory shows that the decoder computes it for every division
  of the stream into chunks.
\<close>

record frame_decoder =
  fd_chunks :: "bytes list"
  fd_buffered :: nat
  fd_pending :: "frame_header option"

definition new_decoder :: frame_decoder where
  "new_decoder = \<lparr>fd_chunks = [], fd_buffered = 0, fd_pending = None\<rparr>"

definition reset_decoder :: "frame_decoder \<Rightarrow> frame_decoder" where
  "reset_decoder d = d\<lparr>fd_chunks := [], fd_buffered := 0, fd_pending := None\<rparr>"

text \<open>The copy loop of \<open>#peek\<close>: \<open>need\<close> bytes are missing.\<close>

fun peek_loop :: "nat \<Rightarrow> bytes list \<Rightarrow> bytes \<Rightarrow> frame_error + bytes" where
  "peek_loop need [] out = (if need > 0 then Inl PastEnd else Inr out)"
| "peek_loop need (c # cs) out =
     (let t = min need (length c); out' = out @ take t c
      in if need - t = 0 then Inr out' else peek_loop (need - t) cs out')"

definition peek :: "frame_decoder \<Rightarrow> nat \<Rightarrow> frame_error + bytes" where
  "peek d n =
     (case fd_chunks d of
        first # _ \<Rightarrow> if length first \<ge> n then Inr (take n first) else peek_loop n (fd_chunks d) []
      | [] \<Rightarrow> peek_loop n [] [])"

function take_loop :: "nat \<Rightarrow> bytes list \<Rightarrow> bytes \<Rightarrow> frame_error + (bytes \<times> bytes list)" where
  "take_loop need cs out =
     (if need = 0 then Inr (out, cs)
      else case cs of
        [] \<Rightarrow> Inl PastEnd
      | c # rest \<Rightarrow>
        let t = min need (length c)
        in if t = length c then take_loop (need - t) rest (out @ take t c)
           else take_loop (need - t) (drop t c # rest) (out @ take t c))"
  by pat_completeness auto

termination
  by (relation "measure (\<lambda>(need, cs, out). need + length cs)") (auto simp: min_def split: if_splits)

declare take_loop.simps [simp del]

definition take_bytes :: "frame_decoder \<Rightarrow> nat \<Rightarrow> frame_error + (bytes \<times> frame_decoder)" where
  "take_bytes d n =
     rbind (take_loop n (fd_chunks d) []) (\<lambda>(out, cs).
       Inr (out, d\<lparr>fd_chunks := cs, fd_buffered := fd_buffered d - n\<rparr>))"

text \<open>The header to wait for: the pending one, else a fresh one once 20 bytes are there.\<close>

definition await_header :: "limits \<Rightarrow> frame_decoder \<Rightarrow> frame_error + frame_header option" where
  "await_header L d =
     (case fd_pending d of
        Some h \<Rightarrow> Inr (Some h)
      | None \<Rightarrow>
        if fd_buffered d < FRAME_HEADER_BYTES then Inr None
        else rbind (peek d FRAME_HEADER_BYTES) (\<lambda>hd.
             rbind (parseHeader hd L) (\<lambda>h. Inr (Some h))))"

partial_function (option) push_loop ::
  "limits \<Rightarrow> frame_decoder \<Rightarrow> jsval list \<Rightarrow> (frame_error + (jsval list \<times> frame_decoder)) option"
where
  [code]: "push_loop L d out =
     (case await_header L d of
        Inl e \<Rightarrow> Some (Inl e)
      | Inr None \<Rightarrow> Some (Inr (out, d))
      | Inr (Some h) \<Rightarrow>
        if fd_buffered d < fh_totalLength h then Some (Inr (out, d\<lparr>fd_pending := Some h\<rparr>))
        else (case take_bytes d (fh_totalLength h) of
           Inl e \<Rightarrow> Some (Inl e)
         | Inr (frame, d') \<Rightarrow>
           (case decodeFrame frame h of
              Inl e \<Rightarrow> Some (Inl e)
            | Inr m \<Rightarrow> push_loop L (d'\<lparr>fd_pending := None\<rparr>) (out @ [m]))))"

definition add_chunk :: "bytes \<Rightarrow> frame_decoder \<Rightarrow> frame_decoder" where
  "add_chunk chunk d =
     (if length chunk > 0
      then d\<lparr>fd_chunks := fd_chunks d @ [chunk], fd_buffered := fd_buffered d + length chunk\<rparr>
      else d)"

definition push ::
  "limits \<Rightarrow> frame_decoder \<Rightarrow> bytes \<Rightarrow> (frame_error + (jsval list \<times> frame_decoder)) option"
where
  "push L d chunk = push_loop L (add_chunk chunk d) []"

section \<open>Reference\<close>

function parse_stream :: "limits \<Rightarrow> bytes \<Rightarrow> frame_error + (jsval list \<times> bytes)" where
  "parse_stream L bs =
     (if length bs < 20 then Inr ([], bs)
      else case parseHeader (take 20 bs) L of
        Inl e \<Rightarrow> Inl e
      | Inr h \<Rightarrow>
        if length bs < fh_totalLength h then Inr ([], bs)
        else (case decodeFrame (take (fh_totalLength h) bs) h of
           Inl e \<Rightarrow> Inl e
         | Inr m \<Rightarrow>
           if fh_totalLength h = 0 then Inr ([], bs)
           else rbind (parse_stream L (drop (fh_totalLength h) bs)) (\<lambda>(ms, r). Inr (m # ms, r))))"
  by pat_completeness auto

termination
  by (relation "measure (\<lambda>(L, bs). length bs)") auto

declare parse_stream.simps [simp del]

lemma parseHeader_bounds:
  "parseHeader hdr L = Inr h \<Longrightarrow> 20 \<le> fh_totalLength h \<and> fh_totalLength h \<le> maxFrameBytes L"
  by (auto simp: parseHeader_def Let_def FRAME_HEADER_BYTES_def split: if_splits)

text \<open>More bytes never change what was read before.\<close>

lemma parse_stream_append:
  "parse_stream L a = Inr (ms, r) \<Longrightarrow>
   parse_stream L (a @ b) = rbind (parse_stream L (r @ b)) (\<lambda>(ms', r'). Inr (ms @ ms', r'))"
proof (induction L a arbitrary: ms r rule: parse_stream.induct)
  case (1 L a)
  have trivial: "rbind x (\<lambda>(ms', r'). Inr ([] @ ms', r')) = x"
    for x :: "frame_error + (jsval list \<times> bytes)"
    by (cases x) auto
  show ?case
  proof (cases "length a < 20")
    case True
    with 1 show ?thesis by (subst (asm) parse_stream.simps) (auto simp: trivial [simplified])
  next
    case False
    then have pre: "take 20 (a @ b) = take 20 a" by simp
    show ?thesis
    proof (cases "parseHeader (take 20 a) L")
      case (Inl e)
      with 1(2) False show ?thesis by (subst (asm) parse_stream.simps) simp
    next
      case (Inr h)
      note hb = parseHeader_bounds [OF Inr]
      show ?thesis
      proof (cases "length a < fh_totalLength h")
        case True
        with 1(2) False Inr show ?thesis
          by (subst (asm) parse_stream.simps) (auto simp: trivial [simplified])
      next
        case enough: False
        with 1(2) False Inr obtain m where m: "decodeFrame (take (fh_totalLength h) a) h = Inr m"
          by (subst (asm) parse_stream.simps) (auto split: sum.splits)
        from 1(2) False Inr enough m hb obtain ms2 where
          rest: "parse_stream L (drop (fh_totalLength h) a) = Inr (ms2, r)" and ms: "ms = m # ms2"
          by (subst (asm) parse_stream.simps) (auto elim!: rbind_InrE)
        have "parse_stream L (a @ b) =
            rbind (parse_stream L (drop (fh_totalLength h) a @ b)) (\<lambda>(ms, r). Inr (m # ms, r))"
          using False Inr enough m hb pre by (subst parse_stream.simps) auto
        also have "\<dots> = rbind (parse_stream L (r @ b)) (\<lambda>(ms', r'). Inr (ms @ ms', r'))"
          using 1(1) [OF False Inr enough m _ rest] hb ms
          by (cases "parse_stream L (r @ b)") auto
        finally show ?thesis .
      qed
    qed
  qed
qed

section \<open>The decoder computes the reference\<close>

lemma peek_loop_concat:
  "need \<le> length (concat cs) \<Longrightarrow> peek_loop need cs out = Inr (out @ take need (concat cs))"
proof (induction cs arbitrary: need out)
  case (Cons c cs)
  then show ?case by (cases "need \<le> length c") (auto simp: Let_def min_def)
qed simp

lemma peek_concat:
  "n \<le> length (concat (fd_chunks d)) \<Longrightarrow> peek d n = Inr (take n (concat (fd_chunks d)))"
  using peek_loop_concat [of n "fd_chunks d" "[]"]
  by (cases "fd_chunks d") (auto simp: peek_def simp del: peek_loop.simps)

lemma take_loop_concat:
  "need \<le> length (concat cs) \<Longrightarrow> [] \<notin> set cs \<Longrightarrow>
   \<exists>cs'. take_loop need cs out = Inr (out @ take need (concat cs), cs')
     \<and> concat cs' = drop need (concat cs) \<and> [] \<notin> set cs'"
proof (induction need cs out rule: take_loop.induct)
  case (1 need cs out)
  show ?case
  proof (cases "need = 0")
    case True
    with 1 show ?thesis by (subst take_loop.simps) auto
  next
    case False
    with 1 obtain c rest where cs: "cs = c # rest" by (cases cs) auto
    show ?thesis
    proof (cases "length c \<le> need")
      case True
      with 1(1) [OF False cs, of "length c"] 1(3,4) False cs show ?thesis
        by (subst take_loop.simps) (auto simp: min_def)
    next
      case short: False
      have "take_loop 0 (drop need c # rest) (out @ take need c) = Inr (out @ take need c, drop need c # rest)"
        by (subst take_loop.simps) simp
      with short False 1(4) cs show ?thesis
        by (subst take_loop.simps) (auto simp: min_def Let_def)
    qed
  qed
qed

text \<open>
  The buffered count is right, no chunk is empty, and a pending header is the valid header of the
  frame at the front.
\<close>

definition decoder_wf :: "limits \<Rightarrow> frame_decoder \<Rightarrow> bool" where
  "decoder_wf L d \<longleftrightarrow> fd_buffered d = length (concat (fd_chunks d)) \<and> [] \<notin> set (fd_chunks d)
     \<and> (case fd_pending d of
          None \<Rightarrow> True
        | Some h \<Rightarrow> 20 \<le> fd_buffered d \<and> parseHeader (take 20 (concat (fd_chunks d))) L = Inr h)"

lemma await_header_eq:
  assumes "decoder_wf L d"
  shows "await_header L d =
    (if length (concat (fd_chunks d)) < 20 then Inr None
     else rbind (parseHeader (take 20 (concat (fd_chunks d))) L) (\<lambda>h. Inr (Some h)))"
  using assms peek_concat [of 20 d]
  by (auto simp: await_header_def decoder_wf_def FRAME_HEADER_BYTES_def split: option.splits)

lemma take_bytes_eq:
  assumes "decoder_wf L d" "n \<le> length (concat (fd_chunks d))"
  shows "\<exists>d'. take_bytes d n = Inr (take n (concat (fd_chunks d)), d')
    \<and> concat (fd_chunks d') = drop n (concat (fd_chunks d)) \<and> decoder_wf L (d'\<lparr>fd_pending := None\<rparr>)"
  using take_loop_concat [OF assms(2), of "[]"] assms
  by (auto simp: take_bytes_def decoder_wf_def)

lemma push_loop_eq:
  "decoder_wf L d \<Longrightarrow>
   (case parse_stream L (concat (fd_chunks d)) of
      Inl e \<Rightarrow> push_loop L d out = Some (Inl e)
    | Inr (ms, r) \<Rightarrow> \<exists>d'. push_loop L d out = Some (Inr (out @ ms, d'))
        \<and> concat (fd_chunks d') = r \<and> decoder_wf L d' \<and> fd_buffered d' < max 20 (maxFrameBytes L))"
proof (induction "length (concat (fd_chunks d))" arbitrary: d out rule: less_induct)
  case less
  let ?bs = "concat (fd_chunks d)"
  note wf = \<open>decoder_wf L d\<close>
  have buf: "fd_buffered d = length ?bs" using wf by (simp add: decoder_wf_def)
  note aw = await_header_eq [OF wf]
  show ?case
  proof (cases "length ?bs < 20")
    case True
    then show ?thesis
      using wf aw buf by (subst push_loop.simps, subst parse_stream.simps) auto
  next
    case False
    show ?thesis
    proof (cases "parseHeader (take 20 ?bs) L")
      case (Inl e)
      then show ?thesis using False aw by (subst push_loop.simps, subst parse_stream.simps) simp
    next
      case (Inr h)
      note hb = parseHeader_bounds [OF Inr]
      show ?thesis
      proof (cases "length ?bs < fh_totalLength h")
        case True
        moreover have "decoder_wf L (d\<lparr>fd_pending := Some h\<rparr>)"
          using wf Inr False by (simp add: decoder_wf_def)
        ultimately show ?thesis
          using False aw buf Inr hb by (subst push_loop.simps, subst parse_stream.simps) auto
      next
        case enough: False
        then obtain d' where t: "take_bytes d (fh_totalLength h) = Inr (take (fh_totalLength h) ?bs, d')"
          and d': "concat (fd_chunks d') = drop (fh_totalLength h) ?bs"
          and wf': "decoder_wf L (d'\<lparr>fd_pending := None\<rparr>)"
          using take_bytes_eq [OF wf, of "fh_totalLength h"] by auto
        show ?thesis
        proof (cases "decodeFrame (take (fh_totalLength h) ?bs) h")
          case (Inl e)
          then show ?thesis
            using False aw buf \<open>parseHeader _ L = Inr h\<close> enough t
            by (subst push_loop.simps, subst parse_stream.simps) simp
        next
          case (Inr m)
          have p: "push_loop L d out = push_loop L (d'\<lparr>fd_pending := None\<rparr>) (out @ [m])"
            using False aw buf \<open>parseHeader _ L = Inr h\<close> enough t Inr
            by (subst push_loop.simps) simp
          have q: "parse_stream L ?bs =
              rbind (parse_stream L (concat (fd_chunks (d'\<lparr>fd_pending := None\<rparr>)))) (\<lambda>(ms, r). Inr (m # ms, r))"
            using False \<open>parseHeader _ L = Inr h\<close> enough Inr hb d' by (subst parse_stream.simps) simp
          have "length (concat (fd_chunks (d'\<lparr>fd_pending := None\<rparr>))) < length ?bs"
            using hb enough False by (simp add: d' del: length_concat) arith
          from less.hyps [OF this wf', of "out @ [m]"] show ?thesis
            unfolding p q
            by (cases "parse_stream L (concat (fd_chunks (d'\<lparr>fd_pending := None\<rparr>)))") auto
        qed
      qed
    qed
  qed
qed

lemma wf_add_chunk:
  assumes "decoder_wf L d"
  shows "decoder_wf L (add_chunk chunk d) \<and> concat (fd_chunks (add_chunk chunk d)) = concat (fd_chunks d) @ chunk"
  using assms by (auto simp: decoder_wf_def add_chunk_def split: option.splits)

lemma decoder_wf_push:
  assumes "decoder_wf L d" "push L d chunk = Some (Inr (ms, d'))"
  shows "decoder_wf L d'"
  using push_loop_eq [of L "add_chunk chunk d" "[]"] wf_add_chunk [OF assms(1), of chunk] assms(2)
  unfolding push_def by (auto split: sum.splits prod.splits)

lemma decoder_wf_new: "decoder_wf L new_decoder"
  by (simp add: decoder_wf_def new_decoder_def)

text \<open>A sequence of chunks; the first error ends it.\<close>

fun feed :: "limits \<Rightarrow> frame_decoder \<Rightarrow> bytes list \<Rightarrow> (frame_error + (jsval list \<times> frame_decoder)) option" where
  "feed L d [] = Some (Inr ([], d))"
| "feed L d (c # cs) =
     (case push L d c of
        None \<Rightarrow> None
      | Some (Inl e) \<Rightarrow> Some (Inl e)
      | Some (Inr (ms, d')) \<Rightarrow>
        (case feed L d' cs of
           None \<Rightarrow> None
         | Some (Inl e) \<Rightarrow> Some (Inl e)
         | Some (Inr (ms', d'')) \<Rightarrow> Some (Inr (ms @ ms', d''))))"

lemma parse_stream_error: "parse_stream L a = Inl e \<Longrightarrow> parse_stream L (a @ b) = Inl e"
proof (induction L a rule: parse_stream.induct)
  case (1 L a)
  from 1(2) have len: "\<not> length a < 20" by (subst (asm) parse_stream.simps) (auto split: if_splits)
  then have pre: "take 20 (a @ b) = take 20 a" by simp
  show ?case
  proof (cases "parseHeader (take 20 a) L")
    case (Inl e')
    with 1(2) len pre show ?thesis by (subst (asm) parse_stream.simps, subst parse_stream.simps) simp
  next
    case (Inr h)
    note hb = parseHeader_bounds [OF Inr]
    from 1(2) len Inr have enough: "\<not> length a < fh_totalLength h"
      by (subst (asm) parse_stream.simps) (auto split: if_splits)
    show ?thesis
    proof (cases "decodeFrame (take (fh_totalLength h) a) h")
      case (Inl e')
      with 1(2) len pre \<open>parseHeader _ L = Inr h\<close> enough show ?thesis
        by (subst (asm) parse_stream.simps, subst parse_stream.simps) simp
    next
      case (Inr m)
      with 1(2) len \<open>parseHeader _ L = Inr h\<close> enough hb have "parse_stream L (drop (fh_totalLength h) a) = Inl e"
        by (subst (asm) parse_stream.simps) (auto simp: rbind_eq_Inl split: if_splits)
      with 1(1) [OF len \<open>parseHeader _ L = Inr h\<close> enough Inr] hb Inr len pre \<open>parseHeader _ L = Inr h\<close> enough
      show ?thesis by (subst parse_stream.simps) auto
    qed
  qed
qed

lemma feed_eq:
  "decoder_wf L d \<Longrightarrow> parse_stream L (concat (fd_chunks d) @ concat cs) = Inr (ms, r) \<Longrightarrow> cs \<noteq> [] \<Longrightarrow>
   \<exists>d'. feed L d cs = Some (Inr (ms, d')) \<and> concat (fd_chunks d') = r \<and> decoder_wf L d'"
proof (induction cs arbitrary: d ms)
  case (Cons c cs)
  let ?d = "add_chunk c d"
  have wf: "decoder_wf L ?d" "concat (fd_chunks ?d) = concat (fd_chunks d) @ c"
    using wf_add_chunk [OF Cons.prems(1)] by auto
  have whole: "parse_stream L (concat (fd_chunks ?d) @ concat cs) = Inr (ms, r)"
    using Cons.prems(2) wf(2) by simp
  then obtain ms1 r1 where p1: "parse_stream L (concat (fd_chunks ?d)) = Inr (ms1, r1)"
    using parse_stream_error [of L "concat (fd_chunks ?d)"] by (cases "parse_stream L (concat (fd_chunks ?d))") auto
  from push_loop_eq [OF wf(1), of "[]"] p1 obtain d1 where
    d1: "push L d c = Some (Inr (ms1, d1))" "concat (fd_chunks d1) = r1" "decoder_wf L d1"
    by (auto simp: push_def)
  have "rbind (parse_stream L (concat (fd_chunks d1) @ concat cs)) (\<lambda>(ms', r'). Inr (ms1 @ ms', r')) = Inr (ms, r)"
    using parse_stream_append [OF p1, of "concat cs"] whole d1(2) by simp
  then obtain ms2 where
    p2: "parse_stream L (concat (fd_chunks d1) @ concat cs) = Inr (ms2, r)" "ms = ms1 @ ms2"
    by (auto elim!: rbind_InrE)
  show ?case
  proof (cases "cs = []")
    case True
    with whole p1 have "ms = ms1" "r = r1" by simp_all
    with True d1 show ?thesis by simp
  next
    case False
    from Cons.IH [OF d1(3) p2(1) False] d1 p2(2) show ?thesis by auto
  qed
qed simp

lemma parse_frames:
  assumes "maxFrameBytes L < 2 ^ 32"
  shows "list_all2 (\<lambda>m f. wire_value m \<and> encodeFrame m L = Inr f) msgs frames \<Longrightarrow>
    parse_stream L (concat frames) = Inr (msgs, [])"
proof (induction rule: list_all2_induct)
  case Nil
  then show ?case by (subst parse_stream.simps) simp
next
  case (Cons m msgs f frames)
  from decode_encoded [OF _ _ assms] Cons(1) obtain h where
    h: "parseHeader (take 20 f) L = Inr h" "fh_totalLength h = length f" "decodeFrame f h = Inr m" by blast
  have len: "20 \<le> length f" using parseHeader_bounds [OF h(1)] h(2) by simp
  then have "take 20 (f @ concat frames) = take 20 f" by simp
  with h len Cons.IH show ?case by (subst parse_stream.simps) auto
qed

lemma feed_frames:
  assumes "list_all2 (\<lambda>m f. wire_value m \<and> encodeFrame m L = Inr f) msgs frames"
    and "concat chunks = concat frames" "maxFrameBytes L < 2 ^ 32"
  shows "\<exists>d. feed L new_decoder chunks = Some (Inr (msgs, d)) \<and> fd_buffered d = 0"
proof (cases "chunks = []")
  case True
  with assms(2) have "concat frames = []" by simp
  with parse_frames [OF assms(3,1)] have "msgs = []"
    by (subst (asm) parse_stream.simps) simp
  with True show ?thesis by (simp add: new_decoder_def)
next
  case False
  have "parse_stream L (concat (fd_chunks new_decoder) @ concat chunks) = Inr (msgs, [])"
    using parse_frames [OF assms(3,1)] assms(2) by (simp add: new_decoder_def)
  from feed_eq [OF decoder_wf_new this False] show ?thesis by (auto simp: decoder_wf_def)
qed

lemma default_frame_limit: "maxFrameBytes DEFAULT_LIMITS < 2 ^ 32"
  by (simp add: DEFAULT_LIMITS_def MiB_def)

lemma small_frame:
  "encodeFrame (VNum 7) DEFAULT_LIMITS = Inr (header_bytes 1 0 0 @ [55])"
proof -
  have "text_encode (stringify (JNum 7)) = [55]"
    by (simp add: int_text_def digits.simps digit_char_def text_encode_def utf8_char_def
        high_surrogate_def low_surrogate_def)
  then show ?thesis
    by (simp add: encodeFrame_def header_bytes_def FRAME_HEADER_BYTES_def total_bytes_def
        DEFAULT_LIMITS_def MiB_def Let_def)
qed

section \<open>Properties\<close>

text \<open>
  Messages sent as frames arrive, whatever the chunks. However the bytes of a sequence of encoded
  frames are divided, feeding the chunks to a fresh decoder returns exactly the messages, in order,
  and leaves nothing buffered.
\<close>

theorem frames_delivered:
  assumes "list_all2 (\<lambda>m f. wire_value m \<and> encodeFrame m L = Inr f) msgs frames"
    and "concat chunks = concat frames" "maxFrameBytes L < 2 ^ 32"
  shows "\<exists>d. feed L new_decoder chunks = Some (Inr (msgs, d)) \<and> fd_buffered d = 0"
  using assms by (rule feed_frames)

theorem frames_delivered_witness:
  "\<exists>d. feed DEFAULT_LIMITS new_decoder
     [header_bytes 1 0 0, [55] @ header_bytes 1 0 0 @ [55]] = Some (Inr ([VNum 7, VNum 7], d)) \<and> fd_buffered d = 0"
  using frames_delivered [of DEFAULT_LIMITS "[VNum 7, VNum 7]" "[header_bytes 1 0 0 @ [55], header_bytes 1 0 0 @ [55]]"
      "[header_bytes 1 0 0, [55] @ header_bytes 1 0 0 @ [55]]"] small_frame default_frame_limit
  by simp

text \<open>
  C24: the decoder always answers and never hoards. On every chunk \<open>push\<close> returns messages or throws;
  after a normal return it holds less than one maximal frame, so a length field in a header cannot make
  it keep more, and its state is again consistent.
\<close>

theorem decoder_bounded:
  assumes "decoder_wf L d"
  shows "(\<exists>e. push L d chunk = Some (Inl e))
    \<or> (\<exists>ms d'. push L d chunk = Some (Inr (ms, d')) \<and> decoder_wf L d'
        \<and> fd_buffered d' < max 20 (maxFrameBytes L))"
proof -
  have "decoder_wf L (add_chunk chunk d)" using wf_add_chunk [OF assms] by blast
  from push_loop_eq [OF this, of "[]"] show ?thesis
    unfolding push_def by (auto split: sum.splits prod.splits)
qed

theorem decoder_bounded_witness:
  "\<exists>e. push DEFAULT_LIMITS new_decoder (replicate 20 0) = Some (Inl e)"
proof -
  have "replicate 4 (0 :: byte) \<noteq> WIRE_MAGIC" "length WIRE_MAGIC = 4" by code_simp+
  then have e: "parse_stream DEFAULT_LIMITS (replicate 20 0) = Inl BadMagic"
    by (subst parse_stream.simps) (simp add: parseHeader_def FRAME_HEADER_BYTES_def)
  have "\<nexists>ms d'. push DEFAULT_LIMITS new_decoder (replicate 20 0) = Some (Inr (ms, d'))"
    using push_loop_eq [of DEFAULT_LIMITS "add_chunk (replicate 20 0) new_decoder" "[]"]
      wf_add_chunk [OF decoder_wf_new, of DEFAULT_LIMITS "replicate 20 0"] e
    by (auto simp: push_def new_decoder_def)
  with decoder_bounded [OF decoder_wf_new, of DEFAULT_LIMITS "replicate 20 0"] show ?thesis by blast
qed

end
