(* ===== verification/Framed_Channel.thy ===== *)
theory Framed_Channel
  imports Channel_Contract Frame_Decoder
begin

text \<open>
  The framed stream transport (\<open>packages/mille/src/stream/framed-channel.ts\<close>). \<open>writes n\<close> is what the
  \<open>n\<close>-th \<open>stream.write\<close> does; \<open>react l m\<close> what listener \<open>l\<close> does on message \<open>m\<close>. Stream events reach the
  channel only while its handlers are attached, that is while it is open.
\<close>

datatype write_result = WriteOk | WriteFull | WriteThrows

type_synonym framed_event = "(bytes, jsval) channel_event"

record framed_channel =
  fc_limits :: limits
  fc_state :: channel_state
  fc_closeEvent :: "close_code option"
  fc_queue :: "bytes list"
  fc_queuedBytes :: nat
  fc_enqueuedTotal :: nat
  fc_writtenTotal :: nat
  fc_drainWaiters :: "(nat \<times> nat) list"
  fc_writable :: bool
  fc_softWarned :: bool
  fc_decoder :: frame_decoder
  fc_messages :: "int jset"
  fc_closes :: "int jset"
  fc_writes :: nat
  fc_log :: "framed_event list"

definition new_framed_channel :: "limits \<Rightarrow> framed_channel" where
  "new_framed_channel L = \<lparr>
     fc_limits = L, fc_state = Open, fc_closeEvent = None, fc_queue = [], fc_queuedBytes = 0,
     fc_enqueuedTotal = 0, fc_writtenTotal = 0, fc_drainWaiters = [], fc_writable = True,
     fc_softWarned = False, fc_decoder = new_decoder, fc_messages = [], fc_closes = [],
     fc_writes = 0, fc_log = [] \<rparr>"

definition fc_note :: "framed_event list \<Rightarrow> framed_channel \<Rightarrow> framed_channel" where
  "fc_note es s = s\<lparr>fc_log := fc_log s @ es\<rparr>"

definition overSoftWatermark :: "framed_channel \<Rightarrow> bool" where
  "overSoftWatermark s \<longleftrightarrow> fc_queuedBytes s \<ge> outboundSoftBytes (fc_limits s)"

definition framed_shutdown :: "close_code \<Rightarrow> framed_channel \<Rightarrow> framed_channel" where
  "framed_shutdown code s =
     (if fc_state s \<noteq> Open then s
      else let s1 = s\<lparr>fc_state := Closing, fc_closeEvent := Some code\<rparr>;
               s2 = s1\<lparr>fc_queue := [], fc_queuedBytes := 0, fc_decoder := reset_decoder (fc_decoder s1)\<rparr>;
               s3 = fc_note [if code = LOCAL_CLOSE then StreamEnded else StreamDestroyed] s2;
               waiters = fc_drainWaiters s3;
               s4 = fc_note (map (\<lambda>w. DrainResolved (snd w)) waiters)
                      (s3\<lparr>fc_state := Closed, fc_drainWaiters := []\<rparr>);
               s5 = fc_note [CloseEmitted code] s4
           in s5\<lparr>fc_closes := [], fc_messages := []\<rparr>)"

definition settleDrainWaiters :: "framed_channel \<Rightarrow> framed_channel" where
  "settleDrainWaiters s =
     (let ready = filter (\<lambda>w. fc_writtenTotal s \<ge> fst w) (fc_drainWaiters s)
      in if length ready = 0 then s
         else fc_note (map (\<lambda>w. DrainResolved (snd w)) ready)
                (s\<lparr>fc_drainWaiters := filter (\<lambda>w. fc_writtenTotal s < fst w) (fc_drainWaiters s)\<rparr>))"

definition shift_frame :: "framed_channel \<Rightarrow> framed_channel" where
  "shift_frame s =
     s\<lparr>fc_queue := tl (fc_queue s), fc_queuedBytes := fc_queuedBytes s - length (hd (fc_queue s)),
       fc_writtenTotal := fc_writtenTotal s + length (hd (fc_queue s)), fc_writes := fc_writes s + 1\<rparr>"

definition rearm_warning :: "framed_channel \<Rightarrow> framed_channel" where
  "rearm_warning s =
     (if fc_queuedBytes s < outboundSoftBytes (fc_limits s) then s\<lparr>fc_softWarned := False\<rparr> else s)"

function pump :: "(nat \<Rightarrow> write_result) \<Rightarrow> framed_channel \<Rightarrow> framed_channel" where
  "pump writes s =
     (if fc_writable s \<and> fc_queue s \<noteq> [] \<and> fc_state s = Open
      then if writes (fc_writes s) = WriteThrows then framed_shutdown TRANSPORT_ERROR (shift_frame s)
           else pump writes (fc_note [Posted (hd (fc_queue s))]
                  (if writes (fc_writes s) = WriteFull then (shift_frame s)\<lparr>fc_writable := False\<rparr>
                   else shift_frame s))
      else settleDrainWaiters (rearm_warning s))"
  by pat_completeness auto

termination
  by (relation "measure (\<lambda>(writes, s). length (fc_queue s))") (auto simp: fc_note_def shift_frame_def)

declare pump.simps [simp del]

datatype send_error = NotOpen channel_state | EncodeFailed frame_error | HardLimit

definition framed_send ::
  "(nat \<Rightarrow> write_result) \<Rightarrow> jsval \<Rightarrow> framed_channel \<Rightarrow> send_error option \<times> framed_channel"
where
  "framed_send writes message s =
     (if fc_state s \<noteq> Open then (Some (NotOpen (fc_state s)), s)
      else case encodeFrame message (fc_limits s) of
        Inl e \<Rightarrow> (Some (EncodeFailed e), s)
      | Inr frame \<Rightarrow>
        if fc_queuedBytes s + length frame > outboundHardBytes (fc_limits s)
        then (Some HardLimit, framed_shutdown BACKPRESSURE s)
        else let s1 = s\<lparr>fc_queue := fc_queue s @ [frame],
                        fc_queuedBytes := fc_queuedBytes s + length frame,
                        fc_enqueuedTotal := fc_enqueuedTotal s + length frame\<rparr>;
                 s2 = (if \<not> fc_softWarned s1 \<and> overSoftWatermark s1
                       then fc_note [Warned] (s1\<lparr>fc_softWarned := True\<rparr>) else s1)
             in (None, pump writes s2))"

text \<open>\<open>drain()\<close>; \<open>w\<close> names the promise it returns.\<close>

definition framed_drain :: "nat \<Rightarrow> framed_channel \<Rightarrow> framed_channel" where
  "framed_drain w s =
     (if fc_writtenTotal s \<ge> fc_enqueuedTotal s then fc_note [DrainResolved w] s
      else s\<lparr>fc_drainWaiters := fc_drainWaiters s @ [(fc_enqueuedTotal s, w)]\<rparr>)"

definition framed_client ::
  "(nat \<Rightarrow> write_result) \<Rightarrow> jsval client_op \<Rightarrow> framed_channel \<Rightarrow> framed_channel"
where
  "framed_client writes op s =
     (case op of
        CSend m \<Rightarrow> snd (framed_send writes m s)
      | CDrain w \<Rightarrow> framed_drain w s
      | CClose \<Rightarrow> framed_shutdown LOCAL_CLOSE s)"

definition emit_message ::
  "(nat \<Rightarrow> write_result) \<Rightarrow> (int \<Rightarrow> jsval \<Rightarrow> jsval client_op list) \<Rightarrow> jsval \<Rightarrow> framed_channel \<Rightarrow> framed_channel"
where
  "emit_message writes react m s =
     emit_to (fc_messages s)
       (\<lambda>l t. fold (framed_client writes) (react l m) (fc_note [Heard l m] t)) (fc_note [Emit m] s)"

fun deliver ::
  "(nat \<Rightarrow> write_result) \<Rightarrow> (int \<Rightarrow> jsval \<Rightarrow> jsval client_op list) \<Rightarrow> jsval list \<Rightarrow> framed_channel \<Rightarrow> framed_channel"
where
  "deliver writes react [] s = s"
| "deliver writes react (m # ms) s =
     (if fc_state s \<noteq> Open then s else deliver writes react ms (emit_message writes react m s))"

text \<open>A \<open>push\<close> that does not return would leave the handler running; it always does.\<close>

definition onData ::
  "(nat \<Rightarrow> write_result) \<Rightarrow> (int \<Rightarrow> jsval \<Rightarrow> jsval client_op list) \<Rightarrow> bytes \<Rightarrow> framed_channel \<Rightarrow> framed_channel"
where
  "onData writes react chunk s =
     (if fc_state s \<noteq> Open then s
      else case push (fc_limits s) (fc_decoder s) chunk of
        None \<Rightarrow> s
      | Some (Inl e) \<Rightarrow> framed_shutdown PROTOCOL_ERROR s
      | Some (Inr (ms, d)) \<Rightarrow> deliver writes react ms (s\<lparr>fc_decoder := d\<rparr>))"

definition onDrain :: "(nat \<Rightarrow> write_result) \<Rightarrow> framed_channel \<Rightarrow> framed_channel" where
  "onDrain writes s = (if fc_state s \<noteq> Open then s else pump writes (s\<lparr>fc_writable := True\<rparr>))"

definition onStreamError :: "framed_channel \<Rightarrow> framed_channel" where
  "onStreamError s = (if fc_state s \<noteq> Open then fc_note [Warned] s else framed_shutdown TRANSPORT_ERROR s)"

definition onEnd :: "framed_channel \<Rightarrow> framed_channel" where
  "onEnd s = framed_shutdown REMOTE_CLOSE s"

definition framed_onClose :: "int \<Rightarrow> framed_channel \<Rightarrow> framed_channel" where
  "framed_onClose l s =
     (if fc_state s = Closed
      then fc_note [CloseReplayed l (case fc_closeEvent s of Some c \<Rightarrow> c | None \<Rightarrow> LOCAL_CLOSE)] s
      else s\<lparr>fc_closes := jset_add l (fc_closes s)\<rparr>)"

datatype framed_op =
    FClient "jsval client_op" | FData bytes | FDrain | FError | FEnd | FOnMessage int | FOnClose int

definition run_framed ::
  "(nat \<Rightarrow> write_result) \<Rightarrow> (int \<Rightarrow> jsval \<Rightarrow> jsval client_op list) \<Rightarrow> framed_op \<Rightarrow> framed_channel \<Rightarrow> framed_channel"
where
  "run_framed writes react op s =
     (case op of
        FClient c \<Rightarrow> framed_client writes c s
      | FData chunk \<Rightarrow> onData writes react chunk s
      | FDrain \<Rightarrow> onDrain writes s
      | FError \<Rightarrow> onStreamError s
      | FEnd \<Rightarrow> onEnd s
      | FOnMessage l \<Rightarrow> s\<lparr>fc_messages := jset_add l (fc_messages s)\<rparr>
      | FOnClose l \<Rightarrow> framed_onClose l s)"

definition framed_open :: "framed_channel \<Rightarrow> bool" where
  "framed_open s \<longleftrightarrow> fc_state s = Open"

section \<open>The contract holds\<close>

abbreviation framed_ext :: "framed_channel \<Rightarrow> framed_channel \<Rightarrow> bool" where
  "framed_ext \<equiv> log_extends framed_open fc_log"

lemma fc_note_fields [simp]:
  "fc_state (fc_note es s) = fc_state s" "fc_log (fc_note es s) = fc_log s @ es"
  "fc_queue (fc_note es s) = fc_queue s" "fc_queuedBytes (fc_note es s) = fc_queuedBytes s"
  "fc_enqueuedTotal (fc_note es s) = fc_enqueuedTotal s" "fc_writtenTotal (fc_note es s) = fc_writtenTotal s"
  "fc_limits (fc_note es s) = fc_limits s" "fc_decoder (fc_note es s) = fc_decoder s"
  "fc_drainWaiters (fc_note es s) = fc_drainWaiters s" "fc_writes (fc_note es s) = fc_writes s"
  "fc_writable (fc_note es s) = fc_writable s" "fc_messages (fc_note es s) = fc_messages s"
  by (simp_all add: fc_note_def)

definition quiet :: "framed_event list \<Rightarrow> bool" where
  "quiet es = list_all (\<lambda>e. \<not> is_emit e \<and> \<not> is_close e) es"

lemma quiet_events [simp]:
  "quiet []" "quiet (e # es) \<longleftrightarrow> \<not> is_emit e \<and> \<not> is_close e \<and> quiet es"
  "quiet (es @ es') \<longleftrightarrow> quiet es \<and> quiet es'" "quiet (map (\<lambda>w. DrainResolved (f w)) ws)"
  by (auto simp: quiet_def is_emit_def is_close_def list_all_iff)

lemma event_kinds [simp]:
  "is_emit (Emit m)" "\<not> is_close (Emit m)" "\<not> is_emit (CloseEmitted c)" "is_close (CloseEmitted c)"
  "\<not> is_emit (Posted f)" "\<not> is_close (Posted f)" "\<not> is_emit (Heard l m)" "\<not> is_close (Heard l m)"
  "\<not> is_emit StreamEnded" "\<not> is_close StreamEnded" "\<not> is_emit StreamDestroyed" "\<not> is_close StreamDestroyed"
  "\<not> is_emit Warned" "\<not> is_close Warned" "\<not> is_emit (DrainResolved w)" "\<not> is_close (DrainResolved w)"
  "\<not> is_emit (CloseReplayed l c)" "\<not> is_close (CloseReplayed l c)"
  by (simp_all add: is_emit_def is_close_def)

lemma quiet_step: "quiet es \<Longrightarrow> step_events b b es"
  by (induction es) auto

lemma framed_ext_quiet:
  "fc_state t = fc_state s \<Longrightarrow> fc_log t = fc_log s @ es \<Longrightarrow> quiet es \<Longrightarrow> framed_ext s t"
  by (auto simp: log_extends_def framed_open_def intro!: quiet_step)

lemma framed_ext_shutdown: "framed_ext s (framed_shutdown code s)"
proof (cases "fc_state s = Open")
  case True
  let ?es = "(if code = LOCAL_CLOSE then StreamEnded else StreamDestroyed)
    # map (\<lambda>w. DrainResolved (snd w)) (fc_drainWaiters s) @ [CloseEmitted code]"
  have "step_events True False (map (\<lambda>w. DrainResolved (snd w)) ws @ [CloseEmitted code])" for ws :: "(nat \<times> nat) list"
    by (induction ws) auto
  then have "step_events True False ?es" by auto
  with True show ?thesis
    by (auto simp: log_extends_def framed_open_def framed_shutdown_def Let_def intro!: exI [of _ ?es])
qed (simp add: framed_shutdown_def log_extends_refl)

lemma framed_ext_settle: "framed_ext s (settleDrainWaiters s)"
  by (rule framed_ext_quiet [where es = "drop (length (fc_log s)) (fc_log (settleDrainWaiters s))"])
     (auto simp: settleDrainWaiters_def Let_def)

lemma shift_frame_fields [simp]:
  "fc_state (shift_frame s) = fc_state s" "fc_log (shift_frame s) = fc_log s"
  "fc_limits (shift_frame s) = fc_limits s" "fc_drainWaiters (shift_frame s) = fc_drainWaiters s"
  "fc_enqueuedTotal (shift_frame s) = fc_enqueuedTotal s" "fc_decoder (shift_frame s) = fc_decoder s"
  "fc_queue (shift_frame s) = tl (fc_queue s)"
  by (simp_all add: shift_frame_def)

lemma rearm_warning_fields [simp]:
  "fc_state (rearm_warning s) = fc_state s" "fc_log (rearm_warning s) = fc_log s"
  "fc_limits (rearm_warning s) = fc_limits s" "fc_drainWaiters (rearm_warning s) = fc_drainWaiters s"
  "fc_enqueuedTotal (rearm_warning s) = fc_enqueuedTotal s" "fc_decoder (rearm_warning s) = fc_decoder s"
  "fc_queue (rearm_warning s) = fc_queue s" "fc_queuedBytes (rearm_warning s) = fc_queuedBytes s"
  "fc_writtenTotal (rearm_warning s) = fc_writtenTotal s"
  by (simp_all add: rearm_warning_def)

text \<open>What holds of every turn of the pump, and composes, holds of the pump.\<close>

lemma pump_rel:
  assumes idle: "\<And>s. R s (settleDrainWaiters (rearm_warning s))"
    and post: "\<And>s f q b. fc_queue s = f # q \<Longrightarrow> fc_state s = Open
      \<Longrightarrow> R s (fc_note [Posted f] ((shift_frame s)\<lparr>fc_writable := b\<rparr>))"
    and throw: "\<And>s f q. fc_queue s = f # q \<Longrightarrow> fc_state s = Open
      \<Longrightarrow> R s (framed_shutdown TRANSPORT_ERROR (shift_frame s))"
    and trans: "\<And>s t u. R s t \<Longrightarrow> R t u \<Longrightarrow> R s u"
  shows "R s (pump writes s)"
proof (induction writes s rule: pump.induct)
  case (1 writes s)
  let ?turn = "fc_writable s \<and> fc_queue s \<noteq> [] \<and> fc_state s = Open"
  let ?t = "fc_note [Posted (hd (fc_queue s))]
    (if writes (fc_writes s) = WriteFull then (shift_frame s)\<lparr>fc_writable := False\<rparr> else shift_frame s)"
  show ?case
  proof (cases ?turn)
    case True
    then obtain f q where q: "fc_queue s = f # q" by (cases "fc_queue s") auto
    show ?thesis
    proof (cases "writes (fc_writes s) = WriteThrows")
      case True
      with \<open>?turn\<close> throw [OF q] show ?thesis by (simp add: pump.simps [of writes s])
    next
      case False
      have "R s ?t"
        using post [OF q, of False] post [OF q, of "fc_writable (shift_frame s)"] \<open>?turn\<close> by (simp add: q)
      from trans [OF this "1.IH" [OF \<open>?turn\<close> False]] show ?thesis
        unfolding pump.simps [of writes s] using \<open>?turn\<close> False by simp
    qed
  next
    case False
    with idle show ?thesis by (auto simp: pump.simps [of writes s])
  qed
qed

lemma framed_ext_pump: "framed_ext s (pump writes s)"
proof (rule pump_rel [of framed_ext])
  fix s
  show "framed_ext s (settleDrainWaiters (rearm_warning s))"
    by (rule log_extends_trans [OF framed_ext_quiet [of _ _ "[]"] framed_ext_settle]) simp_all
next
  fix s :: framed_channel and f q b
  show "framed_ext s (fc_note [Posted f] ((shift_frame s)\<lparr>fc_writable := b\<rparr>))"
    by (rule framed_ext_quiet [where es = "[Posted f]"]) simp_all
  show "framed_ext s (framed_shutdown TRANSPORT_ERROR (shift_frame s))"
    by (rule log_extends_trans [OF framed_ext_quiet [of _ _ "[]"] framed_ext_shutdown]) simp_all
qed (rule log_extends_trans)

lemma framed_ext_send: "framed_ext s (snd (framed_send writes m s))"
proof -
  have "framed_ext s (pump writes t)" if "fc_state t = fc_state s" "fc_log t = fc_log s @ es" "quiet es" for t es
    using log_extends_trans [OF framed_ext_quiet [OF that] framed_ext_pump] .
  then show ?thesis
    by (auto simp: framed_send_def Let_def log_extends_refl framed_ext_shutdown split: sum.split)
qed

lemma framed_ext_drain: "framed_ext s (framed_drain w s)"
  by (rule framed_ext_quiet [where es = "drop (length (fc_log s)) (fc_log (framed_drain w s))"])
     (auto simp: framed_drain_def)

lemma framed_ext_client: "framed_ext s (framed_client writes op s)"
  by (cases op) (simp_all add: framed_client_def framed_ext_send framed_ext_drain framed_ext_shutdown)

lemma framed_ext_emit:
  assumes "fc_state s = Open"
  shows "framed_ext s (emit_message writes react m s)"
proof -
  have "framed_ext t (fold (framed_client writes) ops (fc_note [Heard l m] t))" for t l ops
    by (rule log_extends_trans [OF framed_ext_quiet [where es = "[Heard l m]"]
          log_extends_fold [OF framed_ext_client]]) simp_all
  then have "framed_ext (fc_note [Emit m] s) (emit_message writes react m s)"
    unfolding emit_message_def by (rule log_extends_emit_to)
  moreover have "framed_ext s (fc_note [Emit m] s)"
    using assms by (auto simp: log_extends_def framed_open_def)
  ultimately show ?thesis by (rule log_extends_trans [rotated])
qed

lemma framed_ext_deliver: "framed_ext s (deliver writes react ms s)"
  by (induction ms arbitrary: s) (auto intro: log_extends_refl log_extends_trans framed_ext_emit)

lemma framed_ext_run: "framed_ext s (run_framed writes react op s)"
proof (cases op)
  case (FData chunk)
  have "framed_ext s (deliver writes react ms (s\<lparr>fc_decoder := d\<rparr>))" for ms d
    by (rule log_extends_trans [OF framed_ext_quiet [where es = "[]"] framed_ext_deliver]) simp_all
  with FData show ?thesis
    by (auto simp: run_framed_def onData_def log_extends_refl framed_ext_shutdown
        split: option.split sum.split)
next
  case FDrain
  have "framed_ext s (pump writes (s\<lparr>fc_writable := True\<rparr>))"
    by (rule log_extends_trans [OF framed_ext_quiet [where es = "[]"] framed_ext_pump]) simp_all
  with FDrain show ?thesis by (simp add: run_framed_def onDrain_def log_extends_refl)
next
  case FError
  have "framed_ext s (fc_note [Warned] s)" by (rule framed_ext_quiet [where es = "[Warned]"]) simp_all
  with FError show ?thesis by (simp add: run_framed_def onStreamError_def framed_ext_shutdown)
next
  case (FOnMessage l)
  show ?thesis unfolding FOnMessage run_framed_def by (rule framed_ext_quiet [where es = "[]"]) simp_all
next
  case (FOnClose l)
  show ?thesis unfolding FOnClose run_framed_def framed_op.case
    by (rule framed_ext_quiet [where es = "drop (length (fc_log s)) (fc_log (framed_onClose l s))"])
       (auto simp: framed_onClose_def)
qed (simp_all add: run_framed_def onEnd_def framed_ext_client framed_ext_shutdown)

interpretation framed: explorer_channel "run_framed writes react" framed_open fc_log for writes react
  by unfold_locales (use framed_ext_run in \<open>auto simp: log_extends_def\<close>)

section \<open>The queue and its counters\<close>

text \<open>
  The invariant of the outbound side: the byte counter is the queue's, it stays within the hard limit,
  what was enqueued is what was written plus what is queued, and a closed channel queues nothing. The
  inbound side is the decoder's own invariant.
\<close>

definition fc_core :: "framed_channel \<Rightarrow> bool" where
  "fc_core s \<longleftrightarrow>
     fc_queuedBytes s = total_bytes (fc_queue s)
     \<and> fc_queuedBytes s \<le> outboundHardBytes (fc_limits s)
     \<and> (if fc_state s = Open then fc_enqueuedTotal s = fc_writtenTotal s + fc_queuedBytes s
        else fc_queue s = [] \<and> fc_state s = Closed)
     \<and> decoder_wf (fc_limits s) (fc_decoder s)"

definition marks_ok :: "framed_channel \<Rightarrow> bool" where
  "marks_ok s \<longleftrightarrow> list_all (\<lambda>w. fst w \<le> fc_enqueuedTotal s) (fc_drainWaiters s)"

text \<open>While the channel is open, a pending \<open>drain()\<close> is waiting for bytes that are still queued.\<close>

definition waiters_ok :: "framed_channel \<Rightarrow> bool" where
  "waiters_ok s \<longleftrightarrow> marks_ok s
     \<and> (fc_state s = Open \<longrightarrow> list_all (\<lambda>w. fc_writtenTotal s < fst w) (fc_drainWaiters s))"

definition fc_wf :: "limits \<Rightarrow> framed_channel \<Rightarrow> bool" where
  "fc_wf L s \<longleftrightarrow> fc_limits s = L \<and> fc_core s \<and> waiters_ok s"

lemma total_bytes_simps [simp]:
  "total_bytes [] = 0" "total_bytes (f # fs) = length f + total_bytes fs"
  "total_bytes (fs @ gs) = total_bytes fs + total_bytes gs"
  by (simp_all add: total_bytes_def)

lemma fc_wf_new: "fc_wf L (new_framed_channel L)"
  by (simp add: fc_wf_def fc_core_def waiters_ok_def marks_ok_def new_framed_channel_def decoder_wf_new)

lemma shutdown_fields [simp]:
  "fc_limits (framed_shutdown c s) = fc_limits s"
  "fc_enqueuedTotal (framed_shutdown c s) = fc_enqueuedTotal s"
  "fc_writtenTotal (framed_shutdown c s) = fc_writtenTotal s"
  "fc_state s = Open \<Longrightarrow> fc_state (framed_shutdown c s) = Closed"
  "fc_state s = Open \<Longrightarrow> fc_queue (framed_shutdown c s) = []"
  "fc_state s = Open \<Longrightarrow> fc_queuedBytes (framed_shutdown c s) = 0"
  "fc_state s = Open \<Longrightarrow> fc_drainWaiters (framed_shutdown c s) = []"
  "fc_state s = Open \<Longrightarrow> fc_decoder (framed_shutdown c s) = new_decoder"
  "fc_state s \<noteq> Open \<Longrightarrow> framed_shutdown c s = s"
  by (simp_all add: framed_shutdown_def Let_def reset_decoder_def new_decoder_def)

lemma shutdown_wf:
  assumes "fc_state s = Open"
  shows "fc_core (framed_shutdown c s) \<and> waiters_ok (framed_shutdown c s)"
  using assms by (simp add: fc_core_def waiters_ok_def marks_ok_def decoder_wf_new)

lemma settle_waiters_fields [simp]:
  "fc_limits (settleDrainWaiters s) = fc_limits s" "fc_state (settleDrainWaiters s) = fc_state s"
  "fc_queue (settleDrainWaiters s) = fc_queue s" "fc_queuedBytes (settleDrainWaiters s) = fc_queuedBytes s"
  "fc_enqueuedTotal (settleDrainWaiters s) = fc_enqueuedTotal s"
  "fc_writtenTotal (settleDrainWaiters s) = fc_writtenTotal s"
  "fc_decoder (settleDrainWaiters s) = fc_decoder s"
  "fc_drainWaiters (settleDrainWaiters s) = filter (\<lambda>w. fc_writtenTotal s < fst w) (fc_drainWaiters s)"
  by (auto simp: settleDrainWaiters_def Let_def not_le filter_empty_conv intro!: filter_True [symmetric])

lemma core_pump:
  "fc_core s \<and> marks_ok s \<Longrightarrow> fc_core (pump writes s) \<and> marks_ok (pump writes s)
     \<and> fc_limits (pump writes s) = fc_limits s"
proof -
  define R where "R s t \<longleftrightarrow> (fc_core s \<and> marks_ok s \<longrightarrow> fc_core t \<and> marks_ok t \<and> fc_limits t = fc_limits s)" for s t
  have "R s (pump writes s)"
  proof (rule pump_rel [of R])
    fix s
    show "R s (settleDrainWaiters (rearm_warning s))"
      by (auto simp: R_def fc_core_def marks_ok_def list_all_iff)
  next
    fix s :: framed_channel and f q b
    assume "fc_queue s = f # q" "fc_state s = Open"
    then show "R s (fc_note [Posted f] ((shift_frame s)\<lparr>fc_writable := b\<rparr>))"
      by (auto simp: R_def fc_core_def marks_ok_def shift_frame_def)
  next
    fix s :: framed_channel and f q
    assume "fc_queue s = f # q" "fc_state s = Open"
    then show "R s (framed_shutdown TRANSPORT_ERROR (shift_frame s))"
      using shutdown_wf [of "shift_frame s"] by (auto simp: R_def waiters_ok_def)
  qed (auto simp: R_def)
  then show "fc_core s \<and> marks_ok s \<Longrightarrow> ?thesis" by (simp add: R_def)
qed

lemma pump_settled:
  "fc_state (pump writes s) = Open \<Longrightarrow> list_all (\<lambda>w. fc_writtenTotal (pump writes s) < fst w) (fc_drainWaiters (pump writes s))"
proof (induction writes s rule: pump.induct)
  case (1 writes s)
  show ?case
  proof (cases "fc_writable s \<and> fc_queue s \<noteq> [] \<and> fc_state s = Open")
    case True
    with 1 show ?thesis
      by (cases "writes (fc_writes s) = WriteThrows") (simp_all add: pump.simps [of writes s] split del: if_split)
  next
    case False
    then have "pump writes s = settleDrainWaiters (rearm_warning s)" by (auto simp: pump.simps [of writes s])
    then show ?thesis by (simp add: list_all_iff)
  qed
qed

lemma wf_pump:
  "fc_limits s = L \<Longrightarrow> fc_core s \<Longrightarrow> marks_ok s \<Longrightarrow> fc_wf L (pump writes s)"
  using core_pump [of s writes] pump_settled [of writes s] by (simp add: fc_wf_def waiters_ok_def)

lemma wf_shutdown: "fc_wf L s \<Longrightarrow> fc_wf L (framed_shutdown c s)"
  using shutdown_wf [of s c] by (cases "fc_state s = Open") (simp_all add: fc_wf_def)

lemma wf_note [simp]: "fc_wf L (fc_note es s) = fc_wf L s"
  by (simp add: fc_wf_def fc_core_def waiters_ok_def marks_ok_def)

lemma wf_send:
  assumes "fc_wf L s"
  shows "fc_wf L (snd (framed_send writes m s))"
proof -
  have "fc_wf L (pump writes t)"
    if "fc_limits t = fc_limits s" "fc_state t = Open" "fc_queue t = fc_queue s @ [f]" "fc_state s = Open"
      "fc_queuedBytes t = fc_queuedBytes s + length f" "fc_enqueuedTotal t = fc_enqueuedTotal s + length f"
      "fc_writtenTotal t = fc_writtenTotal s" "fc_drainWaiters t = fc_drainWaiters s"
      "fc_decoder t = fc_decoder s" "fc_queuedBytes s + length f \<le> outboundHardBytes (fc_limits s)" for t f
    by (rule wf_pump)
       (use assms that in \<open>auto simp: fc_wf_def fc_core_def waiters_ok_def marks_ok_def list_all_iff\<close>)
  then show ?thesis
    using assms wf_shutdown [of L s] by (auto simp: framed_send_def Let_def split: sum.split)
qed

lemma wf_drain: "fc_wf L s \<Longrightarrow> fc_wf L (framed_drain w s)"
  by (auto simp: framed_drain_def fc_wf_def fc_core_def waiters_ok_def marks_ok_def)

lemma wf_client: "fc_wf L s \<Longrightarrow> fc_wf L (framed_client writes op s)"
  by (cases op) (simp_all add: framed_client_def wf_send wf_drain wf_shutdown)

lemma wf_emit:
  assumes "fc_wf L s"
  shows "fc_wf L (emit_message writes react m s)"
proof -
  have fold: "fc_wf L t \<Longrightarrow> fc_wf L (fold (framed_client writes) ops t)" for ops t
    by (induction ops arbitrary: t) (simp_all add: wf_client)
  have "fc_wf L t \<Longrightarrow> fc_wf L (emit_to ls (\<lambda>l t. fold (framed_client writes) (react l m) (fc_note [Heard l m] t)) t)" for ls t
    by (induction ls arbitrary: t) (simp_all add: fold)
  with assms show ?thesis by (simp add: emit_message_def)
qed

lemma wf_deliver: "fc_wf L s \<Longrightarrow> fc_wf L (deliver writes react ms s)"
  by (induction ms arbitrary: s) (simp_all add: wf_emit)

lemma wf_data:
  assumes "fc_wf L s"
  shows "fc_wf L (onData writes react chunk s)"
proof -
  have d: "decoder_wf L d" if "push L (fc_decoder s) chunk = Some (Inr (ms, d))" for ms d
    using decoder_wf_push [OF _ that] assms by (auto simp: fc_wf_def fc_core_def)
  have "fc_wf L (s\<lparr>fc_decoder := d\<rparr>)" if "push L (fc_decoder s) chunk = Some (Inr (ms, d))" for ms d
    using assms d [OF that] by (auto simp: fc_wf_def fc_core_def waiters_ok_def marks_ok_def)
  moreover have "fc_limits s = L" using assms by (simp add: fc_wf_def)
  ultimately show ?thesis
    using assms wf_shutdown [OF assms]
    by (auto simp: onData_def split: option.split sum.split intro!: wf_deliver)
qed

lemma wf_run: "fc_wf L s \<Longrightarrow> fc_wf L (run_framed writes react op s)"
proof (cases op)
  case FDrain
  assume wf: "fc_wf L s"
  have "fc_wf L (pump writes (s\<lparr>fc_writable := True\<rparr>))"
    by (rule wf_pump) (use wf in \<open>auto simp: fc_wf_def fc_core_def waiters_ok_def marks_ok_def\<close>)
  with wf FDrain show ?thesis by (simp add: run_framed_def onDrain_def)
qed (auto simp: run_framed_def onStreamError_def onEnd_def framed_onClose_def wf_client wf_data wf_shutdown,
     auto simp: fc_wf_def fc_core_def waiters_ok_def marks_ok_def split: if_splits)

lemma wf_session: "fc_wf L s \<Longrightarrow> fc_wf L (fold (run_framed writes react) ops s)"
  by (induction ops arbitrary: s) (simp_all add: wf_run)

section \<open>Order\<close>

fun posted :: "('o, 'i) channel_event list \<Rightarrow> 'o list" where
  "posted [] = []"
| "posted (Posted f # es) = f # posted es"
| "posted (_ # es) = posted es"

fun heard_by :: "int \<Rightarrow> ('o, 'i) channel_event list \<Rightarrow> 'i list" where
  "heard_by l [] = []"
| "heard_by l (Heard k m # es) = (if k = l then m # heard_by l es else heard_by l es)"
| "heard_by l (_ # es) = heard_by l es"

fun resolved :: "('o, 'i) channel_event list \<Rightarrow> nat list" where
  "resolved [] = []"
| "resolved (DrainResolved w # es) = w # resolved es"
| "resolved (_ # es) = resolved es"

lemma posted_append [simp]: "posted (es @ es') = posted es @ posted es'"
  by (induction es rule: posted.induct) simp_all

lemma heard_by_append [simp]: "heard_by l (es @ es') = heard_by l es @ heard_by l es'"
  by (induction l es rule: heard_by.induct) simp_all

lemma resolved_append [simp]: "resolved (es @ es') = resolved es @ resolved es'"
  by (induction es rule: resolved.induct) simp_all

lemma posted_drains [simp]: "posted (map (\<lambda>w. DrainResolved (f w)) ws) = []"
  by (induction ws) simp_all

text \<open>Frames handed to the stream, then the ones waiting.\<close>

definition outbound :: "framed_channel \<Rightarrow> bytes list" where
  "outbound s = posted (fc_log s) @ fc_queue s"

lemma outbound_settle [simp]: "outbound (settleDrainWaiters (rearm_warning s)) = outbound s"
  by (simp add: outbound_def settleDrainWaiters_def Let_def)

lemma outbound_pump: "fc_state (pump writes s) = Open \<Longrightarrow> outbound (pump writes s) = outbound s"
proof -
  define R where "R s t \<longleftrightarrow> (fc_state t = Open \<longrightarrow> fc_state s = Open \<and> outbound t = outbound s)" for s t
  have "R s (pump writes s)"
    by (rule pump_rel [of R]) (auto simp: R_def, simp add: outbound_def)
  then show "fc_state (pump writes s) = Open \<Longrightarrow> ?thesis" by (simp add: R_def)
qed

text \<open>A session that only sends: the frames of the messages that can be encoded.\<close>

fun sending_op :: "framed_op \<Rightarrow> bool" where
  "sending_op (FClient (CSend m)) = True"
| "sending_op (FClient (CDrain w)) = True"
| "sending_op FDrain = True"
| "sending_op _ = False"

fun sent_frames :: "limits \<Rightarrow> framed_op list \<Rightarrow> bytes list" where
  "sent_frames L [] = []"
| "sent_frames L (FClient (CSend m) # ops) =
     (case encodeFrame m L of Inl e \<Rightarrow> sent_frames L ops | Inr f \<Rightarrow> f # sent_frames L ops)"
| "sent_frames L (_ # ops) = sent_frames L ops"

fun sent_messages :: "limits \<Rightarrow> framed_op list \<Rightarrow> jsval list" where
  "sent_messages L [] = []"
| "sent_messages L (FClient (CSend m) # ops) =
     (case encodeFrame m L of Inl e \<Rightarrow> sent_messages L ops | Inr f \<Rightarrow> m # sent_messages L ops)"
| "sent_messages L (_ # ops) = sent_messages L ops"

lemma sent_frames_encode:
  "list_all2 (\<lambda>m f. encodeFrame m L = Inr f) (sent_messages L ops) (sent_frames L ops)"
  by (induction L ops rule: sent_frames.induct) (auto split: sum.split)

lemma outbound_send:
  assumes "fc_state (snd (framed_send writes m s)) = Open" "fc_limits s = L"
  shows "outbound (snd (framed_send writes m s)) = outbound s @ sent_frames L [FClient (CSend m)]"
proof -
  have "fc_state s = Open" using assms(1) by (auto simp: framed_send_def split: if_splits)
  moreover have "outbound (s\<lparr>fc_queue := fc_queue s @ [f], fc_queuedBytes := n, fc_enqueuedTotal := k\<rparr>) = outbound s @ [f]"
    for f n k by (simp add: outbound_def)
  moreover have "outbound (fc_note [Warned] (t\<lparr>fc_softWarned := b\<rparr>)) = outbound t" for t b
    by (simp add: outbound_def)
  ultimately show ?thesis
    using assms by (auto simp: framed_send_def Let_def outbound_pump split: sum.splits if_splits)
qed

lemma outbound_session:
  "list_all sending_op ops \<Longrightarrow> fc_wf L s \<Longrightarrow> fc_state (fold (run_framed writes react) ops s) = Open \<Longrightarrow>
   outbound (fold (run_framed writes react) ops s) = outbound s @ sent_frames L ops"
proof (induction ops arbitrary: s)
  case (Cons op ops)
  let ?s = "run_framed writes react op s"
  have now: "fc_state ?s = Open"
    using framed.closed_stays_closed [of ?s] Cons.prems(3) by (auto simp: framed_open_def)
  have L: "fc_limits s = L" using Cons.prems(2) by (simp add: fc_wf_def)
  have "outbound ?s = outbound s @ sent_frames L [op]"
    using Cons.prems(1) now
  proof (induction op rule: sending_op.induct)
    case (1 m)
    then show ?case using outbound_send [OF _ L] by (simp add: run_framed_def framed_client_def)
  next
    case (2 w)
    then show ?case by (simp add: run_framed_def framed_client_def framed_drain_def outbound_def)
  next
    case 3
    have "outbound (s\<lparr>fc_writable := True\<rparr>) = outbound s" by (simp add: outbound_def)
    with 3 show ?case by (simp add: run_framed_def onDrain_def outbound_pump split: if_splits)
  qed simp_all
  moreover have "sent_frames L (op # ops) = sent_frames L [op] @ sent_frames L ops"
    by (induction op rule: sending_op.induct) (auto split: sum.split)
  ultimately show ?case using Cons.IH [OF _ wf_run [OF Cons.prems(2)]] Cons.prems by simp
qed simp

text \<open>The receiving end, with one listener that only listens.\<close>

definition only_listens :: "int \<Rightarrow> jsval \<Rightarrow> jsval client_op list" where
  "only_listens l m = []"

lemma passive_deliver:
  "fc_state s = Open \<Longrightarrow> fc_messages s = [l] \<Longrightarrow>
   (let t = deliver writes only_listens ms s
    in fc_state t = Open \<and> fc_messages t = [l] \<and> fc_limits t = fc_limits s \<and> fc_decoder t = fc_decoder s
       \<and> heard_by l (fc_log t) = heard_by l (fc_log s) @ ms)"
  by (induction ms arbitrary: s) (simp_all add: emit_message_def only_listens_def Let_def)

lemma passive_feed:
  "fc_state s = Open \<Longrightarrow> fc_messages s = [l] \<Longrightarrow> feed (fc_limits s) (fc_decoder s) chunks = Some (Inr (ms, d)) \<Longrightarrow>
   heard_by l (fc_log (fold (run_framed writes only_listens) (map FData chunks) s)) = heard_by l (fc_log s) @ ms"
proof (induction chunks arbitrary: s ms)
  case (Cons c cs)
  from Cons.prems(3) obtain ms1 d1 ms2 where
    p: "push (fc_limits s) (fc_decoder s) c = Some (Inr (ms1, d1))"
    and f: "feed (fc_limits s) d1 cs = Some (Inr (ms2, d))" and ms: "ms = ms1 @ ms2"
    by (auto split: option.splits sum.splits)
  let ?t = "deliver writes only_listens ms1 (s\<lparr>fc_decoder := d1\<rparr>)"
  have t: "fc_state ?t = Open" "fc_messages ?t = [l]" "fc_limits ?t = fc_limits s" "fc_decoder ?t = d1"
    "heard_by l (fc_log ?t) = heard_by l (fc_log s) @ ms1"
    using passive_deliver [of "s\<lparr>fc_decoder := d1\<rparr>" l writes ms1] Cons.prems by (simp_all add: Let_def)
  have "run_framed writes only_listens (FData c) s = ?t"
    using p Cons.prems(1) by (simp add: run_framed_def onData_def)
  with Cons.IH [OF t(1,2), of ms2] f t ms show ?case by simp
qed simp

section \<open>After the close\<close>

lemma closed_step:
  assumes "fc_state s \<noteq> Open" "fc_writtenTotal s < fc_enqueuedTotal s"
  shows "fc_state (run_framed writes react op s) \<noteq> Open
    \<and> fc_writtenTotal (run_framed writes react op s) = fc_writtenTotal s
    \<and> fc_enqueuedTotal (run_framed writes react op s) = fc_enqueuedTotal s
    \<and> resolved (fc_log (run_framed writes react op s)) = resolved (fc_log s)
    \<and> set (fc_drainWaiters s) \<subseteq> set (fc_drainWaiters (run_framed writes react op s))"
proof (cases op)
  case (FClient c)
  with assms show ?thesis
    by (cases c) (auto simp: run_framed_def framed_client_def framed_send_def framed_drain_def)
qed (use assms in \<open>auto simp: run_framed_def onData_def onDrain_def onStreamError_def onEnd_def framed_onClose_def\<close>)

lemma closed_session:
  assumes "fc_state s \<noteq> Open" "fc_writtenTotal s < fc_enqueuedTotal s"
  shows "resolved (fc_log (fold (run_framed writes react) ops s)) = resolved (fc_log s)
    \<and> set (fc_drainWaiters s) \<subseteq> set (fc_drainWaiters (fold (run_framed writes react) ops s))"
  using assms
proof (induction ops arbitrary: s)
  case (Cons op ops)
  from closed_step [OF Cons.prems, of writes react op] have
    "fc_state (run_framed writes react op s) \<noteq> Open"
    "fc_writtenTotal (run_framed writes react op s) < fc_enqueuedTotal (run_framed writes react op s)"
    using Cons.prems by auto
  from Cons.IH [OF this] closed_step [OF Cons.prems, of writes react op] show ?case by auto
qed simp

text \<open>A stream that is full after every write, and two small messages sent to it.\<close>

definition always_full :: "nat \<Rightarrow> write_result" where
  "always_full n = WriteFull"

definition small_bytes :: bytes where
  "small_bytes = header_bytes 1 0 0 @ [55]"

lemma small_bytes_length: "length small_bytes = 21"
  by (simp add: small_bytes_def header_bytes_def WIRE_MAGIC_def)

lemma full_pump:
  assumes "fc_queue s = f # q" "fc_state s = Open"
  shows "pump always_full s = settleDrainWaiters (rearm_warning
    (if fc_writable s then fc_note [Posted f] ((shift_frame s)\<lparr>fc_writable := False\<rparr>) else s))"
proof -
  have idle: "\<not> fc_writable t \<Longrightarrow> pump always_full t = settleDrainWaiters (rearm_warning t)" for t
    by (subst pump.simps) simp
  have "\<not> fc_writable (fc_note [Posted f] ((shift_frame s)\<lparr>fc_writable := False\<rparr>))" by simp
  from idle [OF this] show ?thesis
    using assms idle [of s] by (cases "fc_writable s") (simp_all add: pump.simps [of always_full s] always_full_def)
qed

lemma small_send:
  assumes "fc_state s = Open" "fc_limits s = DEFAULT_LIMITS" "fc_queuedBytes s + 21 < outboundSoftBytes DEFAULT_LIMITS"
  shows "framed_send writes (VNum 7) s = (None, pump writes
    (s\<lparr>fc_queue := fc_queue s @ [small_bytes], fc_queuedBytes := fc_queuedBytes s + 21,
       fc_enqueuedTotal := fc_enqueuedTotal s + 21\<rparr>))"
proof -
  have enc: "encodeFrame (VNum 7) DEFAULT_LIMITS = Inr small_bytes"
    using small_frame by (simp add: small_bytes_def)
  have "outboundSoftBytes DEFAULT_LIMITS \<le> outboundHardBytes DEFAULT_LIMITS" "0 < outboundSoftBytes DEFAULT_LIMITS"
    by (simp_all add: DEFAULT_LIMITS_def MiB_def)
  with assms small_bytes_length enc show ?thesis
    by (simp add: framed_send_def overSoftWatermark_def Let_def)
qed

definition one_send :: framed_channel where
  "one_send = fold (run_framed always_full only_listens) [FClient (CSend (VNum 7))] (new_framed_channel DEFAULT_LIMITS)"

definition full_session :: framed_channel where
  "full_session = fold (run_framed always_full only_listens) [FClient (CSend (VNum 7)), FClient CClose] one_send"

lemma small_watermark: "42 < outboundSoftBytes DEFAULT_LIMITS"
  by (simp add: DEFAULT_LIMITS_def MiB_def)

lemma one_send_state:
  "fc_state one_send = Open" "fc_limits one_send = DEFAULT_LIMITS" "fc_queuedBytes one_send = 0"
  "fc_queue one_send = []" "\<not> fc_writable one_send" "fc_writtenTotal one_send = 21"
  "fc_enqueuedTotal one_send = 21" "fc_log one_send = [Posted small_bytes]"
proof -
  define s0 where "s0 = new_framed_channel DEFAULT_LIMITS"
  define s1 where "s1 = s0\<lparr>fc_queue := [small_bytes], fc_queuedBytes := 21, fc_enqueuedTotal := 21\<rparr>"
  have s0: "fc_state s0 = Open" "fc_limits s0 = DEFAULT_LIMITS" "fc_queuedBytes s0 = 0" "fc_queue s0 = []"
    "fc_writable s0" "fc_writtenTotal s0 = 0" "fc_enqueuedTotal s0 = 0" "fc_log s0 = []" "fc_drainWaiters s0 = []"
    by (simp_all add: s0_def new_framed_channel_def)
  have "one_send = snd (framed_send always_full (VNum 7) s0)"
    by (simp add: one_send_def s0_def run_framed_def framed_client_def)
  also have "\<dots> = pump always_full s1"
    using small_send [of s0 always_full] small_watermark s0 by (simp add: s1_def)
  also have "\<dots> = settleDrainWaiters (rearm_warning (fc_note [Posted small_bytes] ((shift_frame s1)\<lparr>fc_writable := False\<rparr>)))"
    using full_pump [of s1] s0 by (simp add: s1_def)
  finally have eq: "one_send = \<dots>" .
  show "fc_state one_send = Open" "fc_limits one_send = DEFAULT_LIMITS" "fc_queuedBytes one_send = 0"
    "fc_queue one_send = []" "\<not> fc_writable one_send" "fc_writtenTotal one_send = 21"
    "fc_enqueuedTotal one_send = 21" "fc_log one_send = [Posted small_bytes]"
    unfolding eq using s0 by (simp_all add: s1_def shift_frame_def small_bytes_length settleDrainWaiters_def rearm_warning_def Let_def)
qed

lemma full_session_state:
  "fc_state full_session = Closed" "fc_writtenTotal full_session = 21" "fc_enqueuedTotal full_session = 42"
proof -
  define s1 where "s1 = one_send\<lparr>fc_queue := [small_bytes], fc_queuedBytes := 21, fc_enqueuedTotal := 42\<rparr>"
  have "framed_send always_full (VNum 7) one_send = (None, pump always_full s1)"
    using small_send [of one_send always_full] small_watermark one_send_state by (simp add: s1_def)
  moreover have "pump always_full s1 = settleDrainWaiters (rearm_warning s1)"
    using full_pump [of s1] one_send_state by (simp add: s1_def)
  ultimately have eq: "full_session = framed_shutdown LOCAL_CLOSE (settleDrainWaiters (rearm_warning s1))"
    by (simp add: full_session_def run_framed_def framed_client_def)
  show "fc_state full_session = Closed" "fc_writtenTotal full_session = 21" "fc_enqueuedTotal full_session = 42"
    unfolding eq using one_send_state by (simp_all add: s1_def)
qed

section \<open>Properties\<close>



text \<open>
  The counters never lie. In every session, with listeners that send, drain and close while they are
  called, the byte counter is the length of the queue and stays within the hard limit (CH-003), what was
  enqueued is what was written plus what is queued while the channel is open, every pending drain of an
  open channel waits for bytes that are still queued (CH-004), and a closed channel queues nothing.
\<close>

theorem framed_channel_wf: "fc_wf L (fold (run_framed writes react) ops (new_framed_channel L))"
  by (rule wf_session [OF fc_wf_new])

text \<open>
  One close event, and no dispatch after it (CH-005, CH-006). In every session the close event is
  dispatched once if the channel is no longer open and not at all if it is, and no dispatch of a message
  starts after it.
\<close>

theorem framed_session_orderly:
  "let s = fold (run_framed writes react) ops (new_framed_channel L)
   in orderly (fc_log s) \<and> close_count (fc_log s) = (if fc_state s = Open then 0 else 1)"
  using framed.session_orderly [of "new_framed_channel L" writes react ops]
  by (simp add: Let_def framed_open_def new_framed_channel_def)

text \<open>
  A drain asked for after a close that dropped frames never resolves. On a closed channel whose
  written total is below its enqueued total, \<open>drain()\<close> registers a waiter, and no later operation
  resolves it, although the close itself releases the waiters it finds.
\<close>

theorem drain_after_close_hangs:
  assumes "fc_state s \<noteq> Open" "fc_writtenTotal s < fc_enqueuedTotal s"
  shows "resolved (fc_log (fold (run_framed writes react) (FClient (CDrain w) # ops) s)) = resolved (fc_log s)
    \<and> (fc_enqueuedTotal s, w) \<in> set (fc_drainWaiters (fold (run_framed writes react) (FClient (CDrain w) # ops) s))"
proof -
  have d: "run_framed writes react (FClient (CDrain w)) s
      = s\<lparr>fc_drainWaiters := fc_drainWaiters s @ [(fc_enqueuedTotal s, w)]\<rparr>"
    using assms by (simp add: run_framed_def framed_client_def framed_drain_def)
  have "resolved (fc_log (fold (run_framed writes react) ops (run_framed writes react (FClient (CDrain w)) s)))
      = resolved (fc_log s)
    \<and> set (fc_drainWaiters s @ [(fc_enqueuedTotal s, w)])
      \<subseteq> set (fc_drainWaiters (fold (run_framed writes react) ops (run_framed writes react (FClient (CDrain w)) s)))"
    using closed_session [of "run_framed writes react (FClient (CDrain w)) s" writes react ops] assms
    unfolding d by simp
  then show ?thesis by auto
qed

theorem drain_after_close_hangs_witness:
  "(42, 0) \<in> set (fc_drainWaiters (fold (run_framed always_full only_listens)
     [FClient (CDrain 0), FClient CClose, FDrain, FEnd] full_session))"
  using drain_after_close_hangs [of full_session always_full only_listens 0 "[FClient CClose, FDrain, FEnd]"]
    full_session_state by simp

end
