(* ===== verification/Port_Channel.thy ===== *)
theory Port_Channel
  imports Channel_Contract
begin

text \<open>
  The MessagePort transport (\<open>packages/mille/src/channel/message-port.ts\<close>). \<open>throws n\<close> says whether the
  \<open>n\<close>-th \<open>postMessage\<close> throws; \<open>react l m\<close> is what listener \<open>l\<close> does on message \<open>m\<close>. The port's own
  listener may survive the close on Node, so inbound messages can still arrive at a closed channel.
\<close>

record ('o, 'i) port_channel =
  pc_state :: channel_state
  pc_closeEvent :: "close_code option"
  pc_messages :: "int jset"
  pc_closes :: "int jset"
  pc_posts :: nat
  pc_log :: "('o, 'i) channel_event list"

datatype port_send_error = PortNotOpen channel_state | PostFailed

datatype ('o, 'i) port_op =
    PClient "'o client_op" | PMessage 'i | POnMessage int | POnClose int

definition new_port_channel :: "('o, 'i) port_channel" where
  "new_port_channel = \<lparr>pc_state = Open, pc_closeEvent = None, pc_messages = [], pc_closes = [],
     pc_posts = 0, pc_log = []\<rparr>"

definition port_note :: "('o, 'i) channel_event list \<Rightarrow> ('o, 'i) port_channel \<Rightarrow> ('o, 'i) port_channel" where
  "port_note es s = s\<lparr>pc_log := pc_log s @ es\<rparr>"

definition port_shutdown :: "close_code \<Rightarrow> ('o, 'i) port_channel \<Rightarrow> ('o, 'i) port_channel" where
  "port_shutdown code s =
     (if pc_state s \<noteq> Open then s
      else let s1 = s\<lparr>pc_state := Closing, pc_closeEvent := Some code\<rparr>;
               s2 = port_note [StreamEnded] s1;
               s3 = port_note [CloseEmitted code] (s2\<lparr>pc_state := Closed\<rparr>)
           in s3\<lparr>pc_closes := [], pc_messages := []\<rparr>)"

definition port_send ::
  "(nat \<Rightarrow> bool) \<Rightarrow> 'o \<Rightarrow> ('o, 'i) port_channel \<Rightarrow> port_send_error option \<times> ('o, 'i) port_channel"
where
  "port_send throws m s =
     (if pc_state s \<noteq> Open then (Some (PortNotOpen (pc_state s)), s)
      else let s1 = s\<lparr>pc_posts := pc_posts s + 1\<rparr>
           in if throws (pc_posts s) then (Some PostFailed, port_shutdown TRANSPORT_ERROR s1)
              else (None, port_note [Posted m] s1))"

definition port_close :: "('o, 'i) port_channel \<Rightarrow> ('o, 'i) port_channel" where
  "port_close s = port_shutdown LOCAL_CLOSE s"

definition port_client :: "(nat \<Rightarrow> bool) \<Rightarrow> 'o client_op \<Rightarrow> ('o, 'i) port_channel \<Rightarrow> ('o, 'i) port_channel" where
  "port_client throws op s =
     (case op of
        CSend m \<Rightarrow> snd (port_send throws m s)
      | CDrain w \<Rightarrow> port_note [DrainResolved w] s
      | CClose \<Rightarrow> port_close s)"

definition port_message ::
  "(nat \<Rightarrow> bool) \<Rightarrow> (int \<Rightarrow> 'i \<Rightarrow> 'o client_op list) \<Rightarrow> 'i \<Rightarrow> ('o, 'i) port_channel \<Rightarrow> ('o, 'i) port_channel"
where
  "port_message throws react m s =
     (if pc_state s \<noteq> Open then s
      else emit_to (pc_messages s)
             (\<lambda>l t. fold (port_client throws) (react l m) (port_note [Heard l m] t))
             (port_note [Emit m] s))"

definition port_onClose :: "int \<Rightarrow> ('o, 'i) port_channel \<Rightarrow> ('o, 'i) port_channel" where
  "port_onClose l s =
     (if pc_state s = Closed
      then port_note [CloseReplayed l (case pc_closeEvent s of Some c \<Rightarrow> c | None \<Rightarrow> LOCAL_CLOSE)] s
      else s\<lparr>pc_closes := jset_add l (pc_closes s)\<rparr>)"

definition run_port ::
  "(nat \<Rightarrow> bool) \<Rightarrow> (int \<Rightarrow> 'i \<Rightarrow> 'o client_op list) \<Rightarrow> ('o, 'i) port_op \<Rightarrow> ('o, 'i) port_channel \<Rightarrow> ('o, 'i) port_channel"
where
  "run_port throws react op s =
     (case op of
        PClient c \<Rightarrow> port_client throws c s
      | PMessage m \<Rightarrow> port_message throws react m s
      | POnMessage l \<Rightarrow> s\<lparr>pc_messages := jset_add l (pc_messages s)\<rparr>
      | POnClose l \<Rightarrow> port_onClose l s)"

definition port_open :: "('o, 'i) port_channel \<Rightarrow> bool" where
  "port_open s \<longleftrightarrow> pc_state s = Open"

section \<open>The contract holds\<close>

abbreviation port_ext :: "('o, 'i) port_channel \<Rightarrow> ('o, 'i) port_channel \<Rightarrow> bool" where
  "port_ext \<equiv> log_extends port_open pc_log"

lemma port_note_fields [simp]: "pc_state (port_note es s) = pc_state s" "pc_log (port_note es s) = pc_log s @ es"
  by (simp_all add: port_note_def)

lemma port_ext_note:
  "list_all (\<lambda>e. \<not> is_emit e \<and> \<not> is_close e) es \<Longrightarrow> port_ext s (port_note es s)"
proof -
  assume "list_all (\<lambda>e. \<not> is_emit e \<and> \<not> is_close e) es"
  then have "step_events b b es" for b by (induction es) auto
  then show ?thesis by (auto simp: log_extends_def port_open_def)
qed

lemma port_ext_shutdown: "port_ext s (port_shutdown code s)"
  by (auto simp: port_shutdown_def Let_def log_extends_def port_open_def is_close_def is_emit_def
      intro!: exI [of _ "[StreamEnded, CloseEmitted code]"])

lemma port_ext_posts: "port_ext (s\<lparr>pc_posts := n\<rparr>) t \<Longrightarrow> port_ext s t"
  by (simp add: log_extends_def port_open_def)

lemma port_ext_send: "port_ext s (snd (port_send throws m s))"
proof -
  have "port_ext s (port_note [Posted m] (s\<lparr>pc_posts := n\<rparr>))" for n
    by (rule port_ext_posts, rule port_ext_note) (simp add: is_emit_def is_close_def)
  moreover have "port_ext s (port_shutdown TRANSPORT_ERROR (s\<lparr>pc_posts := n\<rparr>))" for n
    by (rule port_ext_posts, rule port_ext_shutdown)
  ultimately show ?thesis by (simp add: port_send_def Let_def log_extends_refl)
qed

lemma port_ext_client: "port_ext s (port_client throws op s)"
  by (cases op)
     (auto simp: port_client_def port_close_def is_emit_def is_close_def
        intro: port_ext_send port_ext_shutdown port_ext_note)

lemma port_ext_message: "port_ext s (port_message throws react m s)"
proof (cases "pc_state s = Open")
  case True
  have "port_ext t (fold (port_client throws) ops (port_note [Heard l m] t))" for t l ops
    by (rule log_extends_trans [OF port_ext_note]) (auto simp: is_emit_def is_close_def intro: log_extends_fold port_ext_client)
  then have "port_ext (port_note [Emit m] s) (port_message throws react m s)"
    using True unfolding port_message_def by (auto intro: log_extends_emit_to)
  moreover have "port_ext s (port_note [Emit m] s)"
    using True by (auto simp: log_extends_def port_open_def is_emit_def is_close_def)
  ultimately show ?thesis by (rule log_extends_trans [rotated])
qed (simp add: port_message_def log_extends_refl)

lemma port_ext_run: "port_ext s (run_port throws react op s)"
proof (cases op)
  case (POnClose l)
  then show ?thesis
    by (auto simp: run_port_def port_onClose_def is_emit_def is_close_def intro: port_ext_note)
       (simp add: log_extends_def port_open_def)
qed (auto simp: run_port_def intro: port_ext_client port_ext_message,
     simp add: log_extends_def port_open_def)

interpretation port: explorer_channel "run_port throws react" port_open pc_log for throws react
  by unfold_locales (use port_ext_run in \<open>auto simp: log_extends_def\<close>)

lemma emit_listening:
  "(\<And>b. b \<in> set bs \<Longrightarrow> react b m = []) \<Longrightarrow>
   pc_log (emit_to bs (\<lambda>l t. fold (port_client throws) (react l m) (port_note [Heard l m] t)) s)
     = pc_log s @ map (\<lambda>b. Heard b m) bs"
  by (induction bs arbitrary: s) simp_all

section \<open>Properties\<close>

text \<open>
  The MessagePort transport closes once and starts no dispatch afterwards (CH-005, CH-006). In every
  session, with listeners that send and close while they are called and with a port that may throw at
  any post, the close event is dispatched once if the channel is no longer open and not at all if it
  is, and no dispatch of a message starts after it.
\<close>

theorem port_session_orderly:
  "let s = fold (run_port throws react) ops new_port_channel
   in orderly (pc_log s) \<and> close_count (pc_log s) = (if pc_state s = Open then 0 else 1)"
  using port.session_orderly [of new_port_channel throws react ops]
  by (simp add: Let_def port_open_def new_port_channel_def)

text \<open>
  A dispatch under way is not stopped by the close. When the first listener of a message closes the
  channel, every later listener still hears that message, after the close event: \<open>emit\<close> walks the copy
  of the listeners it made before the first call.
\<close>

theorem heard_after_close:
  assumes "pc_state s = Open" "pc_messages s = a # bs" "react a m = [CClose]" "\<And>b. b \<in> set bs \<Longrightarrow> react b m = []"
  shows "pc_log (port_message throws react m s) = pc_log s
    @ [Emit m, Heard a m, StreamEnded, CloseEmitted LOCAL_CLOSE] @ map (\<lambda>b. Heard b m) bs"
  using assms(1-3) emit_listening [of bs react m throws, OF assms(4)]
  by (simp add: port_message_def port_client_def port_close_def port_shutdown_def Let_def)

theorem heard_after_close_witness:
  "pc_log (port_message (\<lambda>n. False) (\<lambda>l m. if l = 1 then [CClose] else []) CHR ''m''
     (new_port_channel\<lparr>pc_messages := [1, 2]\<rparr> :: (char, char) port_channel))
   = [Emit CHR ''m'', Heard 1 CHR ''m'', StreamEnded, CloseEmitted LOCAL_CLOSE, Heard 2 CHR ''m'']"
  using heard_after_close [of "new_port_channel\<lparr>pc_messages := [1, 2]\<rparr> :: (char, char) port_channel" 1 "[2]"
      "\<lambda>l m. if l = 1 then [CClose] else []" "CHR ''m''" "\<lambda>n. False"]
  by (simp add: new_port_channel_def)

end
