(* ===== verification/Session_Policy.thy ===== *)
theory Session_Policy
  imports Mille_Prelude Complex_Main
begin

unbundle bit_operations_syntax

text \<open>
  What a session may do: the session context and its defaults (\<open>packages/mille/src/channel/types.ts\<close>),
  the gate tables and capability mask (\<open>channel/policy.ts\<close>), and the per-session budgets the host
  enforces beside them (\<open>host.ts\<close>: viewport clamp, operation ownership, resync rate).
\<close>

section \<open>Session context\<close>

datatype access = Admin | ReadWrite | ReadOnly

datatype flag_name =
    AllowClientDecorations | AllowProjectionMutation | AllowWorkspaceRootMutation | AllowExternalImport
  | AllowUndo | AllowWorkspaceResync | AllowSearch

text \<open>A number a policy or a frame may carry; one that is not finite is \<open>NonFinite\<close>.\<close>

datatype js_float = Finite rat | NonFinite

record session_policy =
  sp_access :: access
  sp_flags :: "flag_name \<Rightarrow> bool option"
  sp_maxFileBytes :: "js_float option"
  sp_maxViewportRows :: "js_float option"

datatype session_kind = Local | Remote

record session_context =
  cx_kind :: "session_kind option"
  cx_clientId :: "string option"
  cx_peerId :: "string option"
  cx_peerName :: "string option"
  cx_exportId :: "string option"
  cx_policy :: "session_policy option"

record resolved_context =
  rc_kind :: session_kind
  rc_clientId :: "string option"
  rc_peerId :: "string option"
  rc_peerName :: "string option"
  rc_exportId :: "string option"
  rc_policy :: session_policy

definition LOCAL_ADMIN_POLICY :: session_policy where
  "LOCAL_ADMIN_POLICY = \<lparr>sp_access = Admin, sp_flags = (\<lambda>_. Some True), sp_maxFileBytes = None, sp_maxViewportRows = None\<rparr>"

definition READ_ONLY_POLICY :: session_policy where
  "READ_ONLY_POLICY = \<lparr>sp_access = ReadOnly, sp_flags = (\<lambda>_. None), sp_maxFileBytes = None, sp_maxViewportRows = None\<rparr>"

definition resolveSessionContext :: "session_context option \<Rightarrow> resolved_context" where
  "resolveSessionContext context =
     (let kind = (case Option.bind context cx_kind of Some k \<Rightarrow> k | None \<Rightarrow> Local);
          policy = (case Option.bind context cx_policy of
                      Some p \<Rightarrow> p
                    | None \<Rightarrow> if kind = Local then LOCAL_ADMIN_POLICY else READ_ONLY_POLICY)
      in \<lparr>rc_kind = kind, rc_clientId = Option.bind context cx_clientId,
          rc_peerId = Option.bind context cx_peerId, rc_peerName = Option.bind context cx_peerName,
          rc_exportId = Option.bind context cx_exportId, rc_policy = policy\<rparr>)"

section \<open>Gates\<close>

text \<open>
  The tables are object literals, so a name of \<open>Object.prototype\<close> finds an inherited value; that value
  is none of the gates and has no \<open>flag\<close>.
\<close>

datatype gate = Always | Write | Flag flag_name | Inherited

datatype denial = EROFS | EACCES | EEXIST | EBUSY

datatype verdict = Allowed | Denied denial string

definition prototype_names :: "string list" where
  "prototype_names =
     [''constructor'', ''__defineGetter__'', ''__defineSetter__'', ''hasOwnProperty'', ''__lookupGetter__'',
      ''__lookupSetter__'', ''isPrototypeOf'', ''propertyIsEnumerable'', ''toString'', ''valueOf'',
      ''__proto__'', ''toLocaleString'']"

definition table_get :: "(string \<times> gate) list \<Rightarrow> string \<Rightarrow> gate option" where
  "table_get table name =
     (case map_of table name of
        Some g \<Rightarrow> Some g
      | None \<Rightarrow> if name \<in> set prototype_names then Some Inherited else None)"

definition MUTATION_GATES :: "(string \<times> gate) list" where
  "MUTATION_GATES =
     [(''create'', Write), (''rename'', Write), (''move'', Write), (''delete'', Write), (''copy'', Write),
      (''writeFile'', Write), (''readFile'', Always), (''readText'', Always),
      (''copyFromPath'', Flag AllowExternalImport), (''undo'', Flag AllowUndo)]"

definition CALL_GATES :: "(string \<times> gate) list" where
  "CALL_GATES =
     [(''getTreeVersion'', Always), (''capabilities'', Always), (''resolvePath'', Always),
      (''findVisiblePrefix'', Always), (''probeDestination'', Always), (''cancelOperation'', Always),
      (''resync'', Always), (''resyncWorkspace'', Flag AllowWorkspaceResync), (''canUndo'', Flag AllowUndo),
      (''peekUndo'', Flag AllowUndo), (''lastMutation'', Flag AllowUndo),
      (''updateProjectionSettings'', Flag AllowProjectionMutation),
      (''reorderRoots'', Flag AllowWorkspaceRootMutation), (''updateWorkspaceRoots'', Flag AllowWorkspaceRootMutation),
      (''refreshWorkspaceRoots'', Flag AllowWorkspaceRootMutation), (''search'', Flag AllowSearch)]"

definition evaluate :: "resolved_context \<Rightarrow> string \<Rightarrow> gate option \<Rightarrow> verdict" where
  "evaluate ctx name gate =
     (case gate of
        None \<Rightarrow> Allowed
      | Some Always \<Rightarrow> Allowed
      | Some g \<Rightarrow>
        (if sp_access (rc_policy ctx) = Admin then Allowed
         else case g of
           Write \<Rightarrow>
             if sp_access (rc_policy ctx) = ReadOnly
             then Denied EROFS (name @ '' is not permitted on a read-only session'') else Allowed
         | Flag f \<Rightarrow>
             if sp_flags (rc_policy ctx) f = Some True then Allowed
             else Denied EACCES (name @ '' is not permitted for this session'')
         | _ \<Rightarrow> Denied EACCES (name @ '' is not permitted for this session'')))"

definition authorizeMutation :: "resolved_context \<Rightarrow> string \<Rightarrow> verdict" where
  "authorizeMutation ctx op = evaluate ctx op (table_get MUTATION_GATES op)"

definition authorizeCall :: "resolved_context \<Rightarrow> string \<Rightarrow> verdict" where
  "authorizeCall ctx method = evaluate ctx method (table_get CALL_GATES method)"

definition authorizeDecorations :: "resolved_context \<Rightarrow> verdict" where
  "authorizeDecorations ctx = evaluate ctx ''decorations'' (Some (Flag AllowClientDecorations))"

section \<open>Capability mask\<close>

definition CAP_READ_WRITE :: "32 word" where "CAP_READ_WRITE = push_bit 0 1"
definition CAP_READONLY :: "32 word" where "CAP_READONLY = push_bit 2 1"
definition CAP_TRASH :: "32 word" where "CAP_TRASH = push_bit 3 1"
definition CAP_ATOMIC_WRITE :: "32 word" where "CAP_ATOMIC_WRITE = push_bit 4 1"

text \<open>JavaScript's bit operations work on the number modulo \<open>2 ^ 32\<close> and answer a signed number.\<close>

definition effectiveCapabilities :: "resolved_context \<Rightarrow> int \<Rightarrow> int" where
  "effectiveCapabilities ctx native =
     (if sp_access (rc_policy ctx) \<noteq> ReadOnly then native
      else sint ((word_of_int native AND NOT (CAP_READ_WRITE OR CAP_TRASH OR CAP_ATOMIC_WRITE)) OR CAP_READONLY :: 32 word))"

section \<open>Budgets\<close>

definition MAX_OWNED_OPERATIONS :: nat where "MAX_OWNED_OPERATIONS = 64"
definition DEFAULT_REMOTE_MAX_VIEWPORT_ROWS :: int where "DEFAULT_REMOTE_MAX_VIEWPORT_ROWS = 2048"
definition RESYNC_LIMIT :: nat where "RESYNC_LIMIT = 10"
definition RESYNC_WINDOW_MS :: int where "RESYNC_WINDOW_MS = 60000"

definition trunc :: "rat \<Rightarrow> int" where
  "trunc q = (if q < 0 then \<lceil>q\<rceil> else \<lfloor>q\<rfloor>)"

definition viewportRowCap :: "resolved_context \<Rightarrow> int option" where
  "viewportRowCap ctx =
     (case sp_maxViewportRows (rc_policy ctx) of
        Some (Finite q) \<Rightarrow> Some (max 1 (trunc q))
      | _ \<Rightarrow> if sp_access (rc_policy ctx) = Admin then None else Some DEFAULT_REMOTE_MAX_VIEWPORT_ROWS)"

definition authorizeCancel :: "resolved_context \<Rightarrow> string jset \<Rightarrow> string \<Rightarrow> verdict" where
  "authorizeCancel ctx owned operationId =
     (if sp_access (rc_policy ctx) = Admin then Allowed
      else if operationId \<in> set owned then Allowed
      else Denied EACCES ''no such operation for this session'')"

definition normalize_row :: "js_float \<Rightarrow> int" where
  "normalize_row v = (case v of Finite q \<Rightarrow> min 0xffffffff (max 0 (trunc q)) | NonFinite \<Rightarrow> 0)"

record viewport =
  vp_offset :: int
  vp_limit :: int
  vp_overscan :: int

text \<open>The window \<open>handleSetViewport\<close> grants, and whether it warns that it was clamped.\<close>

definition grant_viewport :: "resolved_context \<Rightarrow> js_float \<Rightarrow> js_float \<Rightarrow> js_float option \<Rightarrow> viewport \<times> bool" where
  "grant_viewport ctx offset0 limit0 overscan0 =
     (let offset = normalize_row offset0; limit = normalize_row limit0;
          overscan = normalize_row (case overscan0 of Some v \<Rightarrow> v | None \<Rightarrow> Finite 0)
      in case viewportRowCap ctx of
           None \<Rightarrow> (\<lparr>vp_offset = offset, vp_limit = limit, vp_overscan = overscan\<rparr>, False)
         | Some cap \<Rightarrow>
           if limit + 2 * overscan > cap
           then let limit' = min limit cap; overscan' = min overscan ((cap - limit') div 2)
                in (\<lparr>vp_offset = offset, vp_limit = limit', vp_overscan = overscan'\<rparr>, True)
           else (\<lparr>vp_offset = offset, vp_limit = limit, vp_overscan = overscan\<rparr>, False))"

text \<open>The prefetch a handshake asks for answers to the same cap.\<close>

definition grant_prefetch :: "resolved_context \<Rightarrow> js_float option \<Rightarrow> int" where
  "grant_prefetch ctx requested =
     (let rows = (case requested of Some (Finite q) \<Rightarrow> min 0xffffffff (max 0 (trunc q)) | _ \<Rightarrow> 100)
      in case viewportRowCap ctx of Some cap \<Rightarrow> if rows > cap then cap else rows | None \<Rightarrow> rows)"

text \<open>Sessions by id with the operations each owns; \<open>None\<close> names no operation.\<close>

definition findOperationOwner :: "(nat \<times> string jset) list \<Rightarrow> string \<Rightarrow> nat option" where
  "findOperationOwner sessions operationId = map_option fst (find (\<lambda>s. operationId \<in> set (snd s)) sessions)"

definition owned_by :: "(nat \<times> string jset) list \<Rightarrow> nat \<Rightarrow> string jset" where
  "owned_by sessions session = (case map_of sessions session of Some o' \<Rightarrow> o' | None \<Rightarrow> [])"

definition set_owned :: "nat \<Rightarrow> string jset \<Rightarrow> (nat \<times> string jset) list \<Rightarrow> (nat \<times> string jset) list" where
  "set_owned session ops sessions = map (\<lambda>(s, o'). if s = session then (s, ops) else (s, o')) sessions"

definition claimOperation ::
  "nat \<Rightarrow> string option \<Rightarrow> (nat \<times> string jset) list \<Rightarrow> denial + (string option \<times> (nat \<times> string jset) list)"
where
  "claimOperation session requested sessions =
     (case requested of
        None \<Rightarrow> Inr (None, sessions)
      | Some operationId \<Rightarrow>
        (let owner = findOperationOwner sessions operationId; owned = owned_by sessions session
         in if owner \<noteq> None \<and> owner \<noteq> Some session then Inl EEXIST
            else if operationId \<notin> set owned \<and> length owned \<ge> MAX_OWNED_OPERATIONS then Inl EBUSY
            else Inr (Some operationId, set_owned session (jset_add operationId owned) sessions)))"

definition releaseOperation :: "nat \<Rightarrow> string \<Rightarrow> (nat \<times> string jset) list \<Rightarrow> (nat \<times> string jset) list" where
  "releaseOperation session operationId sessions =
     set_owned session (jset_del operationId (owned_by sessions session)) sessions"

definition checkResyncRate :: "int \<Rightarrow> int list \<Rightarrow> (denial + unit) \<times> int list" where
  "checkResyncRate now stamps =
     (let recent = filter (\<lambda>t. now - t < RESYNC_WINDOW_MS) stamps
      in if length recent \<ge> RESYNC_LIMIT then (Inl EBUSY, recent) else (Inr (), recent @ [now]))"

section \<open>Verdicts\<close>

lemma evaluate_allowed:
  "evaluate ctx name g = Allowed \<longleftrightarrow>
     g = None \<or> g = Some Always \<or> sp_access (rc_policy ctx) = Admin
     \<or> (g = Some Write \<and> sp_access (rc_policy ctx) = ReadWrite)
     \<or> (\<exists>f. g = Some (Flag f) \<and> sp_flags (rc_policy ctx) f = Some True)"
  by (cases "sp_access (rc_policy ctx)") (auto simp: evaluate_def split: option.splits gate.splits)

text \<open>More access and more flags.\<close>

fun access_level :: "access \<Rightarrow> nat" where
  "access_level ReadOnly = 0"
| "access_level ReadWrite = 1"
| "access_level Admin = 2"

definition policy_le :: "session_policy \<Rightarrow> session_policy \<Rightarrow> bool" where
  "policy_le p q \<longleftrightarrow> access_level (sp_access p) \<le> access_level (sp_access q)
     \<and> (\<forall>f. sp_flags p f = Some True \<longrightarrow> sp_flags q f = Some True)"

lemma evaluate_mono:
  assumes "policy_le (rc_policy ctx) (rc_policy ctx')" "evaluate ctx name g = Allowed"
  shows "evaluate ctx' name g = Allowed"
  using assms unfolding evaluate_allowed policy_le_def
  by (cases "sp_access (rc_policy ctx)"; cases "sp_access (rc_policy ctx')") auto

lemma cap_bits:
  "n < 32 \<Longrightarrow> bit CAP_READ_WRITE n \<longleftrightarrow> n = 0" "n < 32 \<Longrightarrow> bit CAP_READONLY n \<longleftrightarrow> n = 2"
  "n < 32 \<Longrightarrow> bit CAP_TRASH n \<longleftrightarrow> n = 3" "n < 32 \<Longrightarrow> bit CAP_ATOMIC_WRITE n \<longleftrightarrow> n = 4"
  unfolding CAP_READ_WRITE_def CAP_READONLY_def CAP_TRASH_def CAP_ATOMIC_WRITE_def bit_push_bit_iff bit_1_iff
  by (auto simp: possible_bit_word)

text \<open>The bits a read-only session is shown.\<close>

lemma effective_bits:
  assumes "sp_access (rc_policy ctx) = ReadOnly" "n < 32"
  shows "bit (word_of_int (effectiveCapabilities ctx native) :: 32 word) n
    \<longleftrightarrow> n = 2 \<or> (bit (word_of_int native :: 32 word) n \<and> n \<noteq> 0 \<and> n \<noteq> 3 \<and> n \<noteq> 4)"
  using assms
  by (auto simp: effectiveCapabilities_def bit_and_iff bit_or_iff bit_not_iff cap_bits possible_bit_word)

section \<open>Operation ownership\<close>

text \<open>Requests of sessions over time: claims, releases (on completion or at the end of a mutation), and a
  session that ends.\<close>

datatype ownership_op = Claim nat "string option" | Release nat string | EndSession nat

definition own_step :: "ownership_op \<Rightarrow> (nat \<times> string jset) list \<Rightarrow> (nat \<times> string jset) list" where
  "own_step op sessions =
     (case op of
        Claim s r \<Rightarrow> (case claimOperation s r sessions of Inl e \<Rightarrow> sessions | Inr (_, sessions') \<Rightarrow> sessions')
      | Release s i \<Rightarrow> releaseOperation s i sessions
      | EndSession s \<Rightarrow> set_owned s [] sessions)"

definition ownership_ok :: "(nat \<times> string jset) list \<Rightarrow> bool" where
  "ownership_ok sessions \<longleftrightarrow>
     distinct (map fst sessions)
     \<and> (\<forall>(s, ops) \<in> set sessions. distinct ops \<and> length ops \<le> MAX_OWNED_OPERATIONS)
     \<and> (\<forall>(s, ops) \<in> set sessions. \<forall>(s', ops') \<in> set sessions. s \<noteq> s' \<longrightarrow> set ops \<inter> set ops' = {})"

lemma map_fst_set_owned [simp]: "map fst (set_owned s ops sessions) = map fst sessions"
  by (induction sessions) (auto simp: set_owned_def)

lemma set_owned_member:
  "(x, xs) \<in> set (set_owned s ops sessions) \<longleftrightarrow>
     (if x = s then xs = ops \<and> s \<in> fst ` set sessions else (x, xs) \<in> set sessions)"
proof (induction sessions)
  case (Cons p sessions)
  then show ?case by (cases p) (auto simp: set_owned_def split: if_splits)
qed (simp add: set_owned_def)

lemma owned_by_member:
  "distinct (map fst sessions) \<Longrightarrow> (s, ops) \<in> set sessions \<Longrightarrow> owned_by sessions s = ops"
  by (simp add: owned_by_def)

lemma owner_found:
  assumes "ownership_ok sessions" "(s, ops) \<in> set sessions" "i \<in> set ops"
  shows "findOperationOwner sessions i = Some s"
proof -
  obtain r where r: "find (\<lambda>s. i \<in> set (snd s)) sessions = Some r"
    using assms(2,3) by (cases "find (\<lambda>s. i \<in> set (snd s)) sessions") (auto simp: find_None_iff)
  then have "r \<in> set sessions" "i \<in> set (snd r)" by (auto simp: find_Some_iff in_set_conv_nth)
  with assms have "fst r = s" unfolding ownership_ok_def by (cases r) fastforce
  with r show ?thesis by (simp add: findOperationOwner_def)
qed

lemma ownership_shrink:
  assumes ok: "ownership_ok sessions" and less: "set ops \<subseteq> set (owned_by sessions s)" "distinct ops"
    "length ops \<le> length (owned_by sessions s)"
  shows "ownership_ok (set_owned s ops sessions)"
  using assms unfolding ownership_ok_def
  by (fastforce simp: set_owned_member owned_by_member split: if_splits)

lemma ownership_claim:
  assumes ok: "ownership_ok sessions" and c: "claimOperation s (Some i) sessions = Inr (r, sessions')"
  shows "ownership_ok sessions'"
proof -
  let ?ops = "jset_add i (owned_by sessions s)"
  have eq: "sessions' = set_owned s ?ops sessions"
    and owner: "findOperationOwner sessions i = None \<or> findOperationOwner sessions i = Some s"
    and room: "i \<in> set (owned_by sessions s) \<or> length (owned_by sessions s) < MAX_OWNED_OPERATIONS"
    using c by (auto simp: claimOperation_def Let_def not_le split: if_splits)
  have mine: "distinct ?ops \<and> length ?ops \<le> MAX_OWNED_OPERATIONS" if "(s, ops) \<in> set sessions" for ops
  proof -
    have "owned_by sessions s = ops" using ok that by (auto simp: ownership_ok_def intro: owned_by_member)
    with ok that room show ?thesis by (fastforce simp: ownership_ok_def jset_add_def)
  qed
  have apart: "set ?ops \<inter> set xs = {}" if "(s, ops) \<in> set sessions" "(x, xs) \<in> set sessions" "x \<noteq> s" for ops x xs
  proof -
    have "owned_by sessions s = ops" using ok that by (auto simp: ownership_ok_def intro: owned_by_member)
    moreover have "i \<notin> set xs" using owner owner_found [OF ok that(2)] that(3) by fastforce
    moreover have "set ops \<inter> set xs = {}" using ok that unfolding ownership_ok_def by fastforce
    ultimately show ?thesis by auto
  qed
  show ?thesis
    unfolding ownership_ok_def
  proof (intro conjI)
    show "distinct (map fst sessions')" using ok by (simp add: eq ownership_ok_def)
    show "\<forall>(x, xs) \<in> set sessions'. distinct xs \<and> length xs \<le> MAX_OWNED_OPERATIONS"
      using ok mine by (fastforce simp: eq set_owned_member ownership_ok_def split: if_splits)
    show "\<forall>(x, xs) \<in> set sessions'. \<forall>(y, ys) \<in> set sessions'. x \<noteq> y \<longrightarrow> set xs \<inter> set ys = {}"
    proof clarify
      fix x xs y ys assume m: "(x, xs) \<in> set sessions'" "(y, ys) \<in> set sessions'" and ne: "x \<noteq> y"
      consider "x = s" | "y = s" | "x \<noteq> s" "y \<noteq> s" by blast
      then show "set xs \<inter> set ys = {}"
      proof cases
        case 1
        with m ne obtain ops where "(s, ops) \<in> set sessions" "xs = ?ops" "(y, ys) \<in> set sessions" "y \<noteq> s"
          by (auto simp: eq set_owned_member)
        with apart [of ops y ys] show ?thesis by (simp add: Int_commute)
      next
        case 2
        with m ne obtain ops where "(s, ops) \<in> set sessions" "ys = ?ops" "(x, xs) \<in> set sessions" "x \<noteq> s"
          by (auto simp: eq set_owned_member)
        with apart [of ops x xs] show ?thesis by (simp add: Int_commute)
      next
        case 3
        with m ne ok show ?thesis unfolding ownership_ok_def by (fastforce simp: eq set_owned_member)
      qed
    qed
  qed
qed

lemma owned_by_distinct: "ownership_ok sessions \<Longrightarrow> distinct (owned_by sessions s)"
  by (auto simp: owned_by_def ownership_ok_def split: option.split dest!: map_of_SomeD)

lemma ownership_step: "ownership_ok sessions \<Longrightarrow> ownership_ok (own_step op sessions)"
proof (cases op)
  case (Claim s r)
  assume "ownership_ok sessions"
  with Claim ownership_claim show ?thesis
    by (cases r) (auto simp: own_step_def claimOperation_def split: sum.split)
next
  case (Release s i)
  assume ok: "ownership_ok sessions"
  have "length (removeAll i xs) \<le> length xs" for xs :: "string list"
    unfolding removeAll_filter_not_eq by (rule length_filter_le)
  with Release ok owned_by_distinct [OF ok] show ?thesis
    by (auto simp: own_step_def releaseOperation_def intro!: ownership_shrink distinct_removeAll)
next
  case (EndSession s)
  assume "ownership_ok sessions"
  with EndSession show ?thesis by (auto simp: own_step_def intro!: ownership_shrink)
qed

lemma ownership_run: "ownership_ok sessions \<Longrightarrow> ownership_ok (fold own_step ops sessions)"
  by (induction ops arbitrary: sessions) (simp_all add: ownership_step)

section \<open>Resync rate\<close>

text \<open>The resyncs that pass, at the given times.\<close>

fun resync_run :: "int list \<Rightarrow> int list \<Rightarrow> int list" where
  "resync_run stamps [] = []"
| "resync_run stamps (now # rest) =
     (case checkResyncRate now stamps of
        (Inl e, stamps') \<Rightarrow> resync_run stamps' rest
      | (Inr _, stamps') \<Rightarrow> now # resync_run stamps' rest)"

definition in_window :: "int \<Rightarrow> int list \<Rightarrow> nat" where
  "in_window t xs = length (filter (\<lambda>a. t - RESYNC_WINDOW_MS < a \<and> a \<le> t) xs)"

lemma in_window_append [simp]: "in_window t (xs @ ys) = in_window t xs + in_window t ys"
  by (simp add: in_window_def)

lemma in_window_le: "in_window t xs \<le> length xs"
  by (simp add: in_window_def)

lemma in_window_none: "(\<And>a. a \<in> set xs \<Longrightarrow> t < a) \<Longrightarrow> in_window t xs = 0"
  by (auto simp: in_window_def filter_empty_conv not_le)

lemma in_window_recent:
  assumes "now \<le> t"
  shows "in_window t (filter (\<lambda>a. now - a < RESYNC_WINDOW_MS) xs) = in_window t xs"
  unfolding in_window_def filter_filter by (rule arg_cong [of _ _ length], rule filter_cong) (use assms in auto)

lemma resync_run_times: "set (resync_run stamps nows) \<subseteq> set nows"
proof (induction nows arbitrary: stamps)
  case (Cons now rest)
  obtain v stamps' where "checkResyncRate now stamps = (v, stamps')" by fastforce
  with Cons [of stamps'] show ?case by (cases v) auto
qed simp

lemma resync_window:
  "sorted nows \<Longrightarrow> length stamps \<le> RESYNC_LIMIT \<Longrightarrow>
   in_window t (stamps @ resync_run stamps nows) \<le> RESYNC_LIMIT"
proof (induction stamps nows rule: resync_run.induct)
  case (1 stamps)
  then show ?case using in_window_le [of t stamps] by simp
next
  case (2 stamps now rest)
  let ?recent = "filter (\<lambda>a. now - a < RESYNC_WINDOW_MS) stamps"
  let ?r = "resync_run stamps (now # rest)"
  show ?case
  proof (cases "t < now")
    case True
    have "now \<le> a" if "a \<in> set ?r" for a
      using that resync_run_times [of stamps "now # rest"] 2(3) by fastforce
    then have "in_window t ?r = 0" by (intro in_window_none) (use True in fastforce)
    with 2(4) in_window_le [of t stamps] show ?thesis by (simp del: resync_run.simps)
  next
    case False
    then have "now \<le> t" by simp
    from in_window_recent [OF this, of stamps] have w: "in_window t stamps = in_window t ?recent" by simp
    show ?thesis
    proof (cases "length ?recent \<ge> RESYNC_LIMIT")
      case True
      then have c: "checkResyncRate now stamps = (Inl EBUSY, ?recent)" by (simp add: checkResyncRate_def)
      have "length ?recent \<le> RESYNC_LIMIT" using 2(4) length_filter_le [of _ stamps] le_trans by blast
      with 2(1) [OF c [symmetric] refl] 2(3) c w show ?thesis by simp
    next
      case False
      then have c: "checkResyncRate now stamps = (Inr (), ?recent @ [now])" by (simp add: checkResyncRate_def Let_def)
      from 2(2) [OF c [symmetric] refl] 2(3) False have
        "in_window t ((?recent @ [now]) @ resync_run (?recent @ [now]) rest) \<le> RESYNC_LIMIT" by simp
      with c w show ?thesis by (simp add: in_window_def)
    qed
  qed
qed

section \<open>Properties\<close>

text \<open>
  A remote session without a policy can only look. It is refused every mutation that writes with
  \<open>EROFS\<close>, external import, undo, the gated calls and client decorations with \<open>EACCES\<close>; it may cancel
  only what it owns, its viewport is capped, and the capabilities it is shown say read-only and neither
  read-write, trash nor atomic write, the other bits being those of the provider.
\<close>

theorem remote_default_read_only:
  assumes "cx_kind cx = Some Remote" "cx_policy cx = None"
  shows "let ctx = resolveSessionContext (Some cx)
    in (op \<in> fst ` set MUTATION_GATES \<longrightarrow> (authorizeMutation ctx op = Allowed \<longleftrightarrow> op \<in> {''readFile'', ''readText''}))
     \<and> (m \<in> fst ` set CALL_GATES \<longrightarrow> (authorizeCall ctx m = Allowed \<longleftrightarrow>
          m \<in> {''getTreeVersion'', ''capabilities'', ''resolvePath'', ''findVisiblePrefix'', ''probeDestination'',
               ''cancelOperation'', ''resync''}))
     \<and> authorizeDecorations ctx \<noteq> Allowed
     \<and> (authorizeCancel ctx owned i = Allowed \<longleftrightarrow> i \<in> set owned)
     \<and> viewportRowCap ctx = Some 2048
     \<and> (\<forall>n < 32. bit (word_of_int (effectiveCapabilities ctx native) :: 32 word) n
          \<longleftrightarrow> n = 2 \<or> (bit (word_of_int native :: 32 word) n \<and> n \<noteq> 0 \<and> n \<noteq> 3 \<and> n \<noteq> 4))"
proof -
  define ctx where "ctx = resolveSessionContext (Some cx)"
  have ctx: "rc_policy ctx = READ_ONLY_POLICY"
    using assms by (simp add: ctx_def resolveSessionContext_def)
  then have ro: "sp_access (rc_policy ctx) = ReadOnly" by (simp add: READ_ONLY_POLICY_def)
  have ev: "evaluate ctx name g = Allowed \<longleftrightarrow> g = None \<or> g = Some Always" for name g
    using ctx by (auto simp: evaluate_allowed READ_ONLY_POLICY_def)
  have "op \<in> fst ` set MUTATION_GATES \<Longrightarrow> authorizeMutation ctx op = Allowed \<longleftrightarrow> op \<in> {''readFile'', ''readText''}"
    by (auto simp: authorizeMutation_def ev table_get_def MUTATION_GATES_def)
  moreover have "m \<in> fst ` set CALL_GATES \<Longrightarrow> authorizeCall ctx m = Allowed \<longleftrightarrow>
    m \<in> {''getTreeVersion'', ''capabilities'', ''resolvePath'', ''findVisiblePrefix'', ''probeDestination'',
         ''cancelOperation'', ''resync''}"
    by (auto simp: authorizeCall_def ev table_get_def CALL_GATES_def)
  moreover have "authorizeDecorations ctx \<noteq> Allowed" by (simp add: authorizeDecorations_def ev)
  moreover have "authorizeCancel ctx owned i = Allowed \<longleftrightarrow> i \<in> set owned"
    using ro by (simp add: authorizeCancel_def)
  moreover have "viewportRowCap ctx = Some 2048"
    using ctx by (simp add: viewportRowCap_def READ_ONLY_POLICY_def DEFAULT_REMOTE_MAX_VIEWPORT_ROWS_def)
  ultimately show ?thesis using effective_bits [OF ro] by (simp add: ctx_def [symmetric])
qed

theorem remote_default_read_only_witness:
  "authorizeMutation (resolveSessionContext (Some \<lparr>cx_kind = Some Remote, cx_clientId = None, cx_peerId = None,
     cx_peerName = None, cx_exportId = None, cx_policy = None\<rparr>)) ''delete'' \<noteq> Allowed"
  using remote_default_read_only [of "\<lparr>cx_kind = Some Remote, cx_clientId = None, cx_peerId = None,
     cx_peerName = None, cx_exportId = None, cx_policy = None\<rparr>" "''delete''"]
  by (simp add: Let_def MUTATION_GATES_def)

text \<open>
  Granting more never takes anything away. When one policy has at least the access and the flags of
  another, every mutation, call, decoration push and cancellation the weaker session may do, the
  stronger may do.
\<close>

theorem grants_monotone:
  assumes "policy_le (rc_policy ctx) (rc_policy ctx')"
  shows "(authorizeMutation ctx op = Allowed \<longrightarrow> authorizeMutation ctx' op = Allowed)
    \<and> (authorizeCall ctx m = Allowed \<longrightarrow> authorizeCall ctx' m = Allowed)
    \<and> (authorizeDecorations ctx = Allowed \<longrightarrow> authorizeDecorations ctx' = Allowed)
    \<and> (authorizeCancel ctx owned i = Allowed \<longrightarrow> authorizeCancel ctx' owned i = Allowed)"
proof -
  have "sp_access (rc_policy ctx) = Admin \<Longrightarrow> sp_access (rc_policy ctx') = Admin"
    using assms by (cases "sp_access (rc_policy ctx')") (auto simp: policy_le_def)
  then have "authorizeCancel ctx owned i = Allowed \<longrightarrow> authorizeCancel ctx' owned i = Allowed"
    by (simp add: authorizeCancel_def)
  then show ?thesis
    using evaluate_mono [OF assms] by (simp add: authorizeMutation_def authorizeCall_def authorizeDecorations_def)
qed

theorem grants_monotone_witness:
  "authorizeMutation (resolveSessionContext None) ''readFile'' = Allowed"
  using grants_monotone [of "(resolveSessionContext None)\<lparr>rc_policy := READ_ONLY_POLICY\<rparr>" "resolveSessionContext None" "''readFile''"]
  by (simp add: policy_le_def resolveSessionContext_def READ_ONLY_POLICY_def LOCAL_ADMIN_POLICY_def
      authorizeMutation_def table_get_def MUTATION_GATES_def evaluate_def)

text \<open>
  A viewport never exceeds its cap and loses no more than it must. Under a cap the granted window is
  the requested limit cut to the cap, with as much of the requested overscan as still fits on both
  sides; the total stays within the cap, which is at least one row.
\<close>

theorem viewport_within_cap:
  assumes "viewportRowCap ctx = Some cap"
  shows "let limit = normalize_row l; overscan = normalize_row (case s of Some v \<Rightarrow> v | None \<Rightarrow> Finite 0);
             v = fst (grant_viewport ctx off l s)
    in 1 \<le> cap \<and> vp_limit v = min limit cap \<and> vp_overscan v = min overscan ((cap - vp_limit v) div 2)
       \<and> 0 \<le> vp_limit v \<and> 0 \<le> vp_overscan v \<and> vp_limit v + 2 * vp_overscan v \<le> cap"
proof -
  define limit where "limit = normalize_row l"
  define overscan where "overscan = normalize_row (case s of Some v \<Rightarrow> v | None \<Rightarrow> Finite 0)"
  have pos: "0 \<le> normalize_row v" for v by (simp add: normalize_row_def split: js_float.split)
  have nonneg: "0 \<le> limit" "0 \<le> overscan" using pos by (simp_all add: limit_def overscan_def)
  have cap: "1 \<le> cap"
    using assms by (auto simp: viewportRowCap_def DEFAULT_REMOTE_MAX_VIEWPORT_ROWS_def split: option.splits js_float.splits if_splits)
  have v: "vp_limit (fst (grant_viewport ctx off l s)) = min limit cap
      \<and> vp_overscan (fst (grant_viewport ctx off l s)) = min overscan ((cap - min limit cap) div 2)"
  proof (cases "limit + 2 * overscan > cap")
    case True
    then show ?thesis
      by (simp add: grant_viewport_def Let_def assms limit_def [symmetric] overscan_def [symmetric])
  next
    case False
    then have "limit \<le> cap" "overscan \<le> (cap - limit) div 2" using nonneg by linarith+
    with False show ?thesis
      by (simp add: grant_viewport_def Let_def assms limit_def [symmetric] overscan_def [symmetric])
  qed
  show ?thesis using v nonneg cap by (simp add: Let_def limit_def [symmetric] overscan_def [symmetric])
qed

theorem viewport_within_cap_witness:
  "vp_limit (fst (grant_viewport ((resolveSessionContext None)\<lparr>rc_policy := READ_ONLY_POLICY\<rparr>) (Finite 0) (Finite 5000) None)) = 2048"
  using viewport_within_cap [of "(resolveSessionContext None)\<lparr>rc_policy := READ_ONLY_POLICY\<rparr>" 2048 "Finite 5000" None "Finite 0"]
  by (simp add: viewportRowCap_def READ_ONLY_POLICY_def DEFAULT_REMOTE_MAX_VIEWPORT_ROWS_def Let_def
      normalize_row_def trunc_def)

text \<open>
  Operations are exclusive. Whatever sessions claim, release and end, in any order, no operation
  is ever owned by two of them and none owns more than 64.
\<close>

theorem operations_exclusive:
  assumes "distinct ids"
  shows "ownership_ok (fold own_step ops (map (\<lambda>i. (i, [])) ids))"
  by (rule ownership_run) (use assms in \<open>auto simp: ownership_ok_def o_def\<close>)

theorem operations_exclusive_witness:
  "ownership_ok (fold own_step [Claim 1 (Some ''a''), Claim 2 (Some ''a''), EndSession 1, Claim 2 (Some ''a'')]
     (map (\<lambda>i. (i, [])) [1, 2]))"
  by (rule operations_exclusive) simp

text \<open>
  The resync budget is a sliding window. For requests at non-decreasing times, every interval of
  60 seconds, wherever it lies, contains at most ten that pass.
\<close>

theorem resync_sliding_window:
  assumes "sorted nows"
  shows "in_window t (resync_run [] nows) \<le> 10"
  using resync_window [OF assms, of "[]" t] by (simp add: RESYNC_LIMIT_def)

theorem resync_sliding_window_witness: "in_window 61000 (resync_run [] (replicate 12 5000 @ replicate 12 61000)) \<le> 10"
  by (rule resync_sliding_window) (simp add: sorted_append)

end
