(* ===== verification/Uri_Paths.thy ===== *)
theory Uri_Paths
  imports Mille_Prelude
begin

text \<open>
  URIs of filesystem providers and their paths (\<open>packages/mille/src/provider/uri.ts\<close> and the \<open>Uri\<close> type
  of \<open>provider/types.ts\<close>). The reference for a path is its list of non-empty segments. \<open>lower\<close> stands
  for \<open>String.prototype.toLowerCase\<close>.
\<close>

record uri =
  u_scheme :: string
  u_authority :: "string option"
  u_path :: string
  u_query :: "string option"
  u_fragment :: "string option"

abbreviation slash :: char where "slash \<equiv> CHR ''/''"

definition backslash :: char where "backslash = CHR 0x5C"

definition posix_slashes :: "string \<Rightarrow> string" where
  "posix_slashes s = map (\<lambda>c. if c = backslash then slash else c) s"

fun collapse_slashes :: "string \<Rightarrow> string" where
  "collapse_slashes [] = []"
| "collapse_slashes [c] = [c]"
| "collapse_slashes (c # d # cs) =
     (if c = slash \<and> d = slash then collapse_slashes (d # cs) else c # collapse_slashes (d # cs))"

definition normalizeUriPath :: "string \<Rightarrow> string" where
  "normalizeUriPath path =
     (let p = posix_slashes path;
          p = (if p \<noteq> [] \<and> hd p = slash then p else slash # p);
          p = collapse_slashes p
      in if length p > 1 \<and> last p = slash then butlast p else p)"

definition createUri :: "string \<Rightarrow> string \<Rightarrow> string option \<Rightarrow> string option \<Rightarrow> string option \<Rightarrow> uri" where
  "createUri scheme path authority query fragment =
     \<lparr>u_scheme = scheme, u_authority = authority, u_path = normalizeUriPath path, u_query = query, u_fragment = fragment\<rparr>"

text \<open>\<open>None\<close> is the error \<open>invalid path segment\<close>.\<close>

definition joinUriPath :: "string \<Rightarrow> string \<Rightarrow> string option" where
  "joinUriPath base name =
     (let b = normalizeUriPath base; n = posix_slashes (dropWhile (\<lambda>c. c = slash) name)
      in if slash \<in> set n \<or> n = ''..'' \<or> n = ''.'' then None
         else Some (if b = ''/'' then slash # n else b @ slash # n))"

text \<open>The text after, and before, the last slash; \<open>None\<close> without one (\<open>lastIndexOf\<close> is \<open>-1\<close>).\<close>

definition after_last_slash :: "string \<Rightarrow> string" where
  "after_last_slash p = rev (takeWhile (\<lambda>c. c \<noteq> slash) (rev p))"

definition before_last_slash :: "string \<Rightarrow> string option" where
  "before_last_slash p =
     (case dropWhile (\<lambda>c. c \<noteq> slash) (rev p) of [] \<Rightarrow> None | _ # r \<Rightarrow> Some (rev r))"

definition basenameUriPath :: "string \<Rightarrow> string" where
  "basenameUriPath path =
     (let p = normalizeUriPath path
      in if p = ''/'' then [] else case before_last_slash p of None \<Rightarrow> p | Some _ \<Rightarrow> after_last_slash p)"

definition dirnameUriPath :: "string \<Rightarrow> string" where
  "dirnameUriPath path =
     (let p = normalizeUriPath path
      in if p = ''/'' then ''/''
         else case before_last_slash p of None \<Rightarrow> ''/'' | Some d \<Rightarrow> if d = [] then ''/'' else d)"

definition uriEquals :: "(string \<Rightarrow> string) \<Rightarrow> uri \<Rightarrow> uri \<Rightarrow> bool \<Rightarrow> bool" where
  "uriEquals lower a b caseSensitive \<longleftrightarrow>
     u_scheme a = u_scheme b
     \<and> (case u_authority a of Some s \<Rightarrow> s | None \<Rightarrow> []) = (case u_authority b of Some s \<Rightarrow> s | None \<Rightarrow> [])
     \<and> (if caseSensitive then normalizeUriPath (u_path a) = normalizeUriPath (u_path b)
        else lower (normalizeUriPath (u_path a)) = lower (normalizeUriPath (u_path b)))"

definition present :: "string \<Rightarrow> string option \<Rightarrow> string" where
  "present mark v = (case v of Some s \<Rightarrow> if s = [] then [] else mark @ s | None \<Rightarrow> [])"

definition formatUri :: "uri \<Rightarrow> string" where
  "formatUri u = u_scheme u @ '':'' @ present ''//'' (u_authority u) @ normalizeUriPath (u_path u)
     @ present ''?'' (u_query u) @ present ''#'' (u_fragment u)"

section \<open>Segments\<close>

fun split_slash :: "string \<Rightarrow> string list" where
  "split_slash [] = [[]]"
| "split_slash (c # cs) =
     (if c = slash then [] # split_slash cs
      else case split_slash cs of s # ss \<Rightarrow> (c # s) # ss | [] \<Rightarrow> [[c]])"

definition segs :: "string \<Rightarrow> string list" where
  "segs p = filter (\<lambda>s. s \<noteq> []) (split_slash p)"

definition segments :: "string \<Rightarrow> string list" where
  "segments p = segs (posix_slashes p)"

fun render :: "string list \<Rightarrow> string" where
  "render [] = []"
| "render (s # ss) = slash # s @ render ss"

definition path_of :: "string list \<Rightarrow> string" where
  "path_of ss = (if ss = [] then ''/'' else render ss)"

definition seg_ok :: "string \<Rightarrow> bool" where
  "seg_ok s \<longleftrightarrow> s \<noteq> [] \<and> slash \<notin> set s \<and> backslash \<notin> set s"

lemma split_slash_cons: "\<exists>s ss. split_slash cs = s # ss"
  by (induction cs) (auto split: list.split)

lemma slash_backslash [simp]: "slash \<noteq> backslash" "backslash \<noteq> slash"
  by (simp_all add: backslash_def)

lemma posix_slashes_simps [simp]:
  "posix_slashes [] = []" "posix_slashes (c # cs) = (if c = backslash then slash else c) # posix_slashes cs"
  "posix_slashes (a @ b) = posix_slashes a @ posix_slashes b" "backslash \<notin> set (posix_slashes a)"
  by (auto simp: posix_slashes_def)

lemma posix_slashes_id: "backslash \<notin> set a \<Longrightarrow> posix_slashes a = a"
  by (induction a) auto

lemma posix_slashes_idem [simp]: "posix_slashes (posix_slashes a) = posix_slashes a"
  by (simp add: posix_slashes_id)

lemma segs_simps [simp]:
  "segs [] = []" "segs (slash # cs) = segs cs"
  by (simp_all add: segs_def)

lemma segs_word: "s \<noteq> [] \<Longrightarrow> slash \<notin> set s \<Longrightarrow> segs (s @ slash # cs) = s # segs cs"
proof -
  assume "s \<noteq> []" "slash \<notin> set s"
  moreover have "slash \<notin> set s \<Longrightarrow> split_slash (s @ slash # cs) = s # split_slash cs"
    by (induction s) auto
  ultimately show ?thesis by (simp add: segs_def)
qed

lemma segs_last_word: "s \<noteq> [] \<Longrightarrow> slash \<notin> set s \<Longrightarrow> segs s = [s]"
proof -
  assume "s \<noteq> []" "slash \<notin> set s"
  moreover have "slash \<notin> set s \<Longrightarrow> split_slash s = [s]" by (induction s) auto
  ultimately show ?thesis by (simp add: segs_def)
qed

lemma segs_ok: "backslash \<notin> set p \<Longrightarrow> list_all seg_ok (segs p)"
proof -
  have "backslash \<notin> set p \<Longrightarrow> s \<in> set (split_slash p) \<Longrightarrow> slash \<notin> set s \<and> backslash \<notin> set s" for s
    by (induction p arbitrary: s) (auto split: if_splits list.splits)
  then show "backslash \<notin> set p \<Longrightarrow> ?thesis" by (auto simp: segs_def list_all_iff seg_ok_def)
qed

lemma segs_render: "list_all seg_ok ss \<Longrightarrow> segs (render ss) = ss"
proof (induction ss)
  case (Cons s ss)
  then have s: "s \<noteq> []" "slash \<notin> set s" by (auto simp: seg_ok_def)
  show ?case
  proof (cases ss)
    case Nil
    with s show ?thesis by (simp add: segs_last_word)
  next
    case (Cons t ts)
    with Cons.IH Cons.prems s show ?thesis using segs_word [of s "t @ render ts"] by simp
  qed
qed simp

lemma collapse_word: "slash \<notin> set s \<Longrightarrow> collapse_slashes (s @ r) = s @ collapse_slashes r"
proof (induction s)
  case (Cons c s)
  then show ?case by (cases "s @ r") auto
qed simp

text \<open>
  Collapsing a text with a leading slash gives its rendered segments, and a slash at the end when the
  text has one.
\<close>

lemma collapse_render:
  "collapse_slashes (slash # q) = render (segs q) @ (if last (slash # q) = slash then ''/'' else [])"
proof (induction q rule: length_induct)
  case (1 q)
  show ?case
  proof (cases q)
    case Nil
    then show ?thesis by simp
  next
    case (Cons c q')
    show ?thesis
    proof (cases "c = slash")
      case True
      with Cons 1 show ?thesis by auto
    next
      case False
      define s where "s = takeWhile (\<lambda>x. x \<noteq> slash) q"
      define r where "r = dropWhile (\<lambda>x. x \<noteq> slash) q"
      have q: "q = s @ r" by (simp add: s_def r_def)
      have s: "s \<noteq> []" "slash \<notin> set s" using False Cons by (auto simp: s_def dest: set_takeWhileD)
      have step: "collapse_slashes (slash # q) = slash # s @ collapse_slashes r"
        using False Cons collapse_word [OF s(2), of r] q by simp
      show ?thesis
      proof (cases r)
        case Nil
        with q s have "last (slash # q) \<noteq> slash" by (metis append_Nil2 last_ConsR last_in_set)
        with Nil q s step show ?thesis by (simp add: segs_last_word)
      next
        case (Cons d r')
        then have d: "d = slash" using hd_dropWhile [of "\<lambda>x. x \<noteq> slash" q] by (simp add: r_def)
        have "length r' < length q" using q Cons s by simp
        with 1 have "collapse_slashes (slash # r') = render (segs r') @ (if last (slash # r') = slash then ''/'' else [])"
          by blast
        with q s step Cons d show ?thesis by (simp add: segs_word)
      qed
    qed
  qed
qed

lemma segs_slashes: "segs q = [] \<Longrightarrow> set q \<subseteq> {slash}"
proof (induction q)
  case (Cons c q)
  obtain s ss where "split_slash q = s # ss" using split_slash_cons by blast
  with Cons show ?case by (auto simp: segs_def split: if_splits)
qed simp

lemma render_last: "list_all seg_ok ss \<Longrightarrow> ss \<noteq> [] \<Longrightarrow> render ss \<noteq> [] \<and> last (render ss) \<noteq> slash"
proof (induction ss)
  case (Cons s ss)
  have "last s \<noteq> slash" using Cons.prems(1) last_in_set [of s] unfolding list.pred_inject seg_ok_def by metis
  with Cons show ?case by (cases "ss = []") (auto simp: seg_ok_def)
qed simp

lemma segments_ok: "list_all seg_ok (segments p)"
  unfolding segments_def by (rule segs_ok) simp

lemma normalize_render: "normalizeUriPath p = path_of (segments p)"
proof -
  define q where "q = (if posix_slashes p \<noteq> [] \<and> hd (posix_slashes p) = slash then tl (posix_slashes p) else posix_slashes p)"
  have lead: "(if posix_slashes p \<noteq> [] \<and> hd (posix_slashes p) = slash then posix_slashes p else slash # posix_slashes p) = slash # q"
    by (cases "posix_slashes p") (auto simp: q_def)
  have seg: "segs q = segments p"
    by (cases "posix_slashes p") (auto simp: q_def segments_def)
  let ?tail = "if last (slash # q) = slash then ''/'' else []"
  have c: "collapse_slashes (slash # q) = render (segments p) @ ?tail"
    using collapse_render [of q] seg by simp
  show ?thesis
  proof (cases "segments p = []")
    case True
    with segs_slashes [of q] seg have "last (slash # q) = slash"
      by (metis insertI1 last_ConsL last_ConsR last_in_set singletonD subsetD)
    with True c lead show ?thesis by (simp add: normalizeUriPath_def Let_def path_of_def)
  next
    case False
    from render_last [OF segments_ok False] have r: "render (segments p) \<noteq> []" "last (render (segments p)) \<noteq> slash"
      by auto
    then have "length (render (segments p)) > 0" by simp
    with False r c lead show ?thesis by (simp add: normalizeUriPath_def Let_def path_of_def)
  qed
qed

lemma render_append [simp]: "render (a @ b) = render a @ render b"
  by (induction a) simp_all

lemma render_no_backslash: "list_all seg_ok ss \<Longrightarrow> backslash \<notin> set (render ss)"
  by (induction ss) (auto simp: seg_ok_def)

lemma segments_path_of: "list_all seg_ok ss \<Longrightarrow> segments (path_of ss) = ss"
  by (simp add: path_of_def segments_def segs_render render_no_backslash posix_slashes_id)

lemma last_slash_render:
  assumes "seg_ok s"
  shows "after_last_slash (render (ss @ [s])) = s" "before_last_slash (render (ss @ [s])) = Some (render ss)"
proof -
  have "slash \<notin> set (rev s)" using assms by (simp add: seg_ok_def)
  then have "takeWhile (\<lambda>c. c \<noteq> slash) (rev s @ slash # r) = rev s"
    "dropWhile (\<lambda>c. c \<noteq> slash) (rev s @ slash # r) = slash # r" for r
    by (subst takeWhile_append2 dropWhile_append2; auto)+
  then show "after_last_slash (render (ss @ [s])) = s" "before_last_slash (render (ss @ [s])) = Some (render ss)"
    by (simp_all add: after_last_slash_def before_last_slash_def)
qed

lemma path_of_root: "list_all seg_ok ss \<Longrightarrow> path_of ss = ''/'' \<longleftrightarrow> ss = []"
  by (metis list.pred_inject(1) path_of_def segments_path_of)

lemma dirname_basename:
  "dirnameUriPath p = path_of (butlast (segments p))"
  "basenameUriPath p = (if segments p = [] then [] else last (segments p))"
proof -
  note ok = segments_ok [of p]
  have "dirnameUriPath p = path_of (butlast (segments p))
      \<and> basenameUriPath p = (if segments p = [] then [] else last (segments p))"
  proof (cases "segments p" rule: rev_cases)
    case Nil
    then show ?thesis by (simp add: dirnameUriPath_def basenameUriPath_def normalize_render path_of_def)
  next
    case (snoc ss s)
    with ok have s: "seg_ok s" by simp
    have "path_of (segments p) = render (ss @ [s])" "path_of (segments p) \<noteq> ''/''"
      using snoc path_of_root [OF ok] by (simp_all add: path_of_def)
    moreover have "render ss = [] \<longleftrightarrow> ss = []" by (cases ss) simp_all
    ultimately show ?thesis
      using snoc last_slash_render [OF s, of ss]
      by (simp add: dirnameUriPath_def basenameUriPath_def normalize_render Let_def path_of_def)
  qed
  then show "dirnameUriPath p = path_of (butlast (segments p))"
    "basenameUriPath p = (if segments p = [] then [] else last (segments p))" by auto
qed

lemma join_segments:
  assumes "joinUriPath base name = Some q" "\<not> set name \<subseteq> {slash}"
  shows "q = path_of (segments base @ [posix_slashes (dropWhile (\<lambda>c. c = slash) name)])
    \<and> seg_ok (posix_slashes (dropWhile (\<lambda>c. c = slash) name))"
proof -
  let ?n = "posix_slashes (dropWhile (\<lambda>c. c = slash) name)"
  have "dropWhile (\<lambda>c. c = slash) name \<noteq> []" using assms(2) by (auto simp: dropWhile_eq_Nil_conv)
  then have n: "?n \<noteq> []" by (simp add: posix_slashes_def)
  have "slash \<notin> set ?n" "q = (if normalizeUriPath base = ''/'' then slash # ?n else normalizeUriPath base @ slash # ?n)"
    using assms(1) by (auto simp: joinUriPath_def Let_def split: if_splits)
  with n show ?thesis
    using path_of_root [OF segments_ok, of base] by (auto simp: normalize_render seg_ok_def path_of_def)
qed

section \<open>Properties\<close>

text \<open>
  C25: paths are lists of segments. Normalization is the rendering of the non-empty segments and keeps
  them, so it is idempotent; \<open>dirname\<close> drops the last segment and \<open>basename\<close> is it; joining a name that
  is not only slashes appends one segment, so that \<open>dirname\<close> and \<open>basename\<close> undo it.
\<close>

theorem uri_paths_are_segments:
  "normalizeUriPath p = path_of (segments p) \<and> segments (normalizeUriPath p) = segments p
   \<and> dirnameUriPath p = path_of (butlast (segments p))
   \<and> basenameUriPath p = (if segments p = [] then [] else last (segments p))
   \<and> (joinUriPath p name = Some q \<longrightarrow> \<not> set name \<subseteq> {slash} \<longrightarrow>
        dirnameUriPath q = normalizeUriPath p
        \<and> basenameUriPath q = posix_slashes (dropWhile (\<lambda>c. c = slash) name))"
proof -
  have "dirnameUriPath q = normalizeUriPath p \<and> basenameUriPath q = posix_slashes (dropWhile (\<lambda>c. c = slash) name)"
    if "joinUriPath p name = Some q" "\<not> set name \<subseteq> {slash}"
  proof -
    from join_segments [OF that] have "segments q = segments p @ [posix_slashes (dropWhile (\<lambda>c. c = slash) name)]"
      using segments_ok [of p] by (simp add: segments_path_of)
    then show ?thesis by (simp add: dirname_basename normalize_render)
  qed
  then show ?thesis
    by (simp add: dirname_basename normalize_render segments_path_of segments_ok)
qed

theorem uri_paths_are_segments_witness:
  "joinUriPath ''a//b/'' ''c'' = Some ''/a/b/c'' \<and> dirnameUriPath ''/a/b/c'' = normalizeUriPath ''a//b/''
   \<and> basenameUriPath ''/a/b/c'' = ''c''"
proof -
  have "joinUriPath ''a//b/'' ''c'' = Some ''/a/b/c''"
    by (simp add: joinUriPath_def normalizeUriPath_def backslash_def Let_def)
  with uri_paths_are_segments [of "''a//b/''" "''c''" "''/a/b/c''"] show ?thesis
    by (simp add: backslash_def)
qed

end
