(* ===== verification/Provider_Registry.thy ===== *)
theory Provider_Registry
  imports Uri_Paths
begin

text \<open>
  Scheme dispatch (\<open>packages/mille/src/provider/registry.ts\<close>). A provider is an object: two providers are
  the same one when their references are. Each registration is remembered with its disposed flag,
  which lives in the closure of its \<open>dispose\<close>. The specification is a stack per scheme: the provider
  given at creation, then the registrations that were not disposed.
\<close>

record provider =
  p_ref :: nat
  p_scheme :: string
  p_capabilities :: int

record slot =
  sl_current :: provider
  sl_shadow :: "provider list"

record registry =
  rg_byScheme :: "(string, slot) jmap"
  rg_regs :: "(provider \<times> bool) list"

datatype registry_error = EmptyScheme | NoProvider string

definition createProviderRegistry :: "provider list \<Rightarrow> registry" where
  "createProviderRegistry initial = \<lparr>
     rg_byScheme = fold (\<lambda>p m. jm_set (p_scheme p) \<lparr>sl_current = p, sl_shadow = []\<rparr> m) initial [],
     rg_regs = []\<rparr>"

definition register :: "provider \<Rightarrow> registry \<Rightarrow> registry_error + (nat \<times> registry)" where
  "register p r =
     (if p_scheme p = [] then Inl EmptyScheme
      else let m = rg_byScheme r;
               slot = (case jm_get m (p_scheme p) of
                         Some s \<Rightarrow> \<lparr>sl_current = p, sl_shadow = sl_shadow s @ [sl_current s]\<rparr>
                       | None \<Rightarrow> \<lparr>sl_current = p, sl_shadow = []\<rparr>)
           in Inr (length (rg_regs r),
                   \<lparr>rg_byScheme = jm_set (p_scheme p) slot m, rg_regs = rg_regs r @ [(p, False)]\<rparr>))"

definition lastIndexOf :: "provider list \<Rightarrow> provider \<Rightarrow> nat option" where
  "lastIndexOf xs p =
     (case filter (\<lambda>i. p_ref (xs ! i) = p_ref p) [0..<length xs] of [] \<Rightarrow> None | i # k \<Rightarrow> Some (last (i # k)))"

definition splice :: "'a list \<Rightarrow> nat \<Rightarrow> 'a list" where
  "splice xs i = take i xs @ drop (Suc i) xs"

definition pop_slot :: "slot \<Rightarrow> string \<Rightarrow> (string, slot) jmap \<Rightarrow> (string, slot) jmap" where
  "pop_slot s scheme m =
     (if sl_shadow s = [] then jm_delete scheme m
      else jm_set scheme \<lparr>sl_current = last (sl_shadow s), sl_shadow = butlast (sl_shadow s)\<rparr> m)"

definition dispose_slot :: "provider \<Rightarrow> (string, slot) jmap \<Rightarrow> (string, slot) jmap" where
  "dispose_slot p m =
     (case jm_get m (p_scheme p) of
        None \<Rightarrow> m
      | Some s \<Rightarrow>
        if p_ref (sl_current s) = p_ref p then pop_slot s (p_scheme p) m
        else (case lastIndexOf (sl_shadow s) p of
                None \<Rightarrow> m
              | Some i \<Rightarrow> jm_set (p_scheme p) (s\<lparr>sl_shadow := splice (sl_shadow s) i\<rparr>) m))"

definition dispose_registration :: "nat \<Rightarrow> registry \<Rightarrow> registry" where
  "dispose_registration n r =
     (if n < length (rg_regs r) \<and> \<not> snd (rg_regs r ! n)
      then \<lparr>rg_byScheme = dispose_slot (fst (rg_regs r ! n)) (rg_byScheme r),
            rg_regs = (rg_regs r)[n := (fst (rg_regs r ! n), True)]\<rparr>
      else r)"

definition get_provider :: "registry \<Rightarrow> string \<Rightarrow> provider option" where
  "get_provider r scheme = map_option sl_current (jm_get (rg_byScheme r) scheme)"

definition list_providers :: "registry \<Rightarrow> (string \<times> int) list" where
  "list_providers r = map (\<lambda>(scheme, s). (scheme, p_capabilities (sl_current s))) (rg_byScheme r)"

definition resolve :: "registry \<Rightarrow> uri \<Rightarrow> registry_error + provider" where
  "resolve r u =
     (case get_provider r (u_scheme u) of None \<Rightarrow> Inl (NoProvider (u_scheme u)) | Some p \<Rightarrow> Inr p)"

datatype registry_op = Register provider | Dispose nat

definition registry_step :: "registry_op \<Rightarrow> registry \<Rightarrow> registry" where
  "registry_step op r =
     (case op of
        Register p \<Rightarrow> (case register p r of Inl e \<Rightarrow> r | Inr (_, r') \<Rightarrow> r')
      | Dispose n \<Rightarrow> dispose_registration n r)"

section \<open>The stack it implements\<close>

definition base_of :: "provider list \<Rightarrow> string \<Rightarrow> provider list" where
  "base_of initial scheme =
     (case filter (\<lambda>p. p_scheme p = scheme) initial of [] \<Rightarrow> [] | p # ps \<Rightarrow> [last (p # ps)])"

definition live :: "registry \<Rightarrow> string \<Rightarrow> provider list" where
  "live r scheme = map fst (filter (\<lambda>(p, disposed). \<not> disposed \<and> p_scheme p = scheme) (rg_regs r))"

definition slot_stack :: "slot option \<Rightarrow> provider list" where
  "slot_stack s = (case s of None \<Rightarrow> [] | Some x \<Rightarrow> sl_shadow x @ [sl_current x])"

definition refines_stack :: "provider list \<Rightarrow> registry \<Rightarrow> bool" where
  "refines_stack initial r \<longleftrightarrow>
     (\<forall>scheme. slot_stack (jm_get (rg_byScheme r) scheme) = base_of initial scheme @ live r scheme)"

text \<open>Every object is registered once, and none of them was given at creation.\<close>

definition each_once :: "provider list \<Rightarrow> registry \<Rightarrow> bool" where
  "each_once initial r \<longleftrightarrow> distinct (map (p_ref \<circ> fst) (rg_regs r))
     \<and> set (map p_ref initial) \<inter> set (map (p_ref \<circ> fst) (rg_regs r)) = {}"

lemma splice_filter:
  assumes "distinct (map p_ref xs)"
  shows "(case lastIndexOf xs p of None \<Rightarrow> xs | Some i \<Rightarrow> splice xs i) = filter (\<lambda>x. p_ref x \<noteq> p_ref p) xs"
proof (cases "\<exists>i < length xs. p_ref (xs ! i) = p_ref p")
  case False
  then have "filter (\<lambda>i. p_ref (xs ! i) = p_ref p) [0..<length xs] = []" by (auto simp: filter_empty_conv)
  moreover have "filter (\<lambda>x. p_ref x \<noteq> p_ref p) xs = xs" using False by (auto simp: in_set_conv_nth intro!: filter_True)
  ultimately show ?thesis by (simp add: lastIndexOf_def)
next
  case True
  then obtain i where i: "i < length xs" "p_ref (xs ! i) = p_ref p" by blast
  have uniq: "j = i" if "j < length xs" "p_ref (xs ! j) = p_ref p" for j
    using nth_eq_iff_index_eq [OF assms, of j i] that i by simp
  define ks where "ks = filter (\<lambda>i. p_ref (xs ! i) = p_ref p) [0..<length xs]"
  have ks: "set ks = {i}" "distinct ks" unfolding ks_def using i by (auto dest: uniq)
  then have "length ks = Suc 0" using distinct_card [of ks] by simp
  then obtain k where k: "ks = [k]" by (cases ks) auto
  with ks(1) have "k = i" by simp
  with k have idx: "lastIndexOf xs p = Some i" unfolding lastIndexOf_def ks_def [symmetric] by simp
  have xs: "xs = take i xs @ xs ! i # drop (Suc i) xs" using i by (simp add: id_take_nth_drop)
  have "x \<in> set (take i xs) \<or> x \<in> set (drop (Suc i) xs) \<Longrightarrow> p_ref x \<noteq> p_ref p" for x
    using assms i(2) by (subst (asm) xs) (auto simp: rev_image_eqI)
  then have "filter (\<lambda>x. p_ref x \<noteq> p_ref p) (take i xs) = take i xs"
    "filter (\<lambda>x. p_ref x \<noteq> p_ref p) (drop (Suc i) xs) = drop (Suc i) xs" by (auto intro!: filter_True)
  then have "filter (\<lambda>x. p_ref x \<noteq> p_ref p) xs = take i xs @ drop (Suc i) xs"
    using i(2) by (subst xs) simp
  with idx show ?thesis by (simp add: splice_def)
qed

lemma create_refines: "refines_stack initial (createProviderRegistry initial)"
proof -
  have "jm_get (fold (\<lambda>p m. jm_set (p_scheme p) \<lparr>sl_current = p, sl_shadow = []\<rparr> m) ps m) scheme =
      (case filter (\<lambda>p. p_scheme p = scheme) ps of
         [] \<Rightarrow> jm_get m scheme | q # qs \<Rightarrow> Some \<lparr>sl_current = last (q # qs), sl_shadow = []\<rparr>)"
    for ps :: "provider list" and m scheme
    by (induction ps arbitrary: m) (auto split: list.split)
  then show ?thesis
    by (simp add: refines_stack_def createProviderRegistry_def slot_stack_def base_of_def live_def split: list.split)
qed

lemma register_refines:
  assumes "refines_stack initial r" "register p r = Inr (n, r')"
  shows "refines_stack initial r'"
proof -
  have l: "live r' scheme = live r scheme @ (if p_scheme p = scheme then [p] else [])" for scheme
    using assms(2) by (auto simp: register_def Let_def live_def split: if_splits)
  have "slot_stack (jm_get (rg_byScheme r') scheme)
      = slot_stack (jm_get (rg_byScheme r) scheme) @ (if p_scheme p = scheme then [p] else [])" for scheme
    using assms(2) by (auto simp: register_def Let_def slot_stack_def split: if_splits option.split)
  with l assms(1) show ?thesis by (simp add: refines_stack_def)
qed

lemma dispose_slot_stack:
  assumes "distinct (map p_ref (slot_stack (jm_get m (p_scheme p))))"
  shows "slot_stack (jm_get (dispose_slot p m) scheme) =
    (if scheme = p_scheme p then filter (\<lambda>x. p_ref x \<noteq> p_ref p) (slot_stack (jm_get m scheme))
     else slot_stack (jm_get m scheme))"
proof (cases "jm_get m (p_scheme p)")
  case None
  then show ?thesis by (simp add: dispose_slot_def slot_stack_def)
next
  case (Some s)
  have d: "distinct (map p_ref (sl_shadow s))" "p_ref (sl_current s) \<notin> p_ref ` set (sl_shadow s)"
    using assms Some by (auto simp: slot_stack_def)
  show ?thesis
  proof (cases "p_ref (sl_current s) = p_ref p")
    case True
    with d(2) have "p_ref x \<noteq> p_ref p" if "x \<in> set (sl_shadow s)" for x using that by (metis imageI)
    then have "filter (\<lambda>x. p_ref x \<noteq> p_ref p) (sl_shadow s) = sl_shadow s" by (simp add: filter_id_conv)
    with True Some show ?thesis by (simp add: dispose_slot_def pop_slot_def slot_stack_def)
  next
    case False
    with Some splice_filter [OF d(1), of p] show ?thesis
      by (cases "lastIndexOf (sl_shadow s) p") (simp_all add: dispose_slot_def slot_stack_def)
  qed
qed

lemma live_disposed:
  assumes "n < length (rg_regs r)" "\<not> snd (rg_regs r ! n)" "distinct (map (p_ref \<circ> fst) (rg_regs r))"
  shows "live (dispose_registration n r) scheme =
    filter (\<lambda>x. p_ref x \<noteq> p_ref (fst (rg_regs r ! n))) (live r scheme)"
proof -
  obtain p where p: "rg_regs r ! n = (p, False)" using assms(2) by (cases "rg_regs r ! n") auto
  define a where "a = take n (rg_regs r)"
  define b where "b = drop (Suc n) (rg_regs r)"
  have regs: "rg_regs r = a @ (p, False) # b" using id_take_nth_drop [OF assms(1)] p by (simp add: a_def b_def)
  have upd: "(rg_regs r)[n := (p, True)] = a @ (p, True) # b"
    using assms(1) by (simp add: a_def b_def upd_conv_take_nth_drop)
  have other: "x \<in> set a \<or> x \<in> set b \<Longrightarrow> p_ref (fst x) \<noteq> p_ref p" for x
    using assms(3) by (auto simp: regs rev_image_eqI)
  have keep: "filter (\<lambda>x. p_ref x \<noteq> p_ref p) (map fst (filter Q c)) = map fst (filter Q c)"
    if "c = a \<or> c = b" for Q c
    by (rule filter_True) (use that other in fastforce)
  show ?thesis
    using assms(1,2) p keep by (auto simp: live_def dispose_registration_def upd) (simp add: regs)
qed

lemma base_of_initial: "set (base_of initial scheme) \<subseteq> set initial"
proof (cases "filter (\<lambda>p. p_scheme p = scheme) initial")
  case (Cons q qs)
  then have "last (q # qs) \<in> set (filter (\<lambda>p. p_scheme p = scheme) initial)" by simp
  then have "last (q # qs) \<in> set initial" by (simp only: set_filter mem_Collect_eq)
  with Cons show ?thesis unfolding base_of_def by (simp del: last.simps)
qed (simp add: base_of_def)

lemma live_registered: "set (live r scheme) \<subseteq> fst ` set (rg_regs r)"
  by (auto simp: live_def)

lemma each_once_apart:
  "each_once initial r \<Longrightarrow> x \<in> set initial \<Longrightarrow> y \<in> fst ` set (rg_regs r) \<Longrightarrow> p_ref x \<noteq> p_ref y"
  unfolding each_once_def by (auto simp: image_iff disjoint_iff)

lemma stack_distinct:
  assumes "each_once initial r"
  shows "distinct (map p_ref (base_of initial scheme @ live r scheme))"
proof -
  have "distinct (map p_ref (live r scheme))"
    using assms distinct_map_filter [of "p_ref \<circ> fst" "rg_regs r"] by (simp add: live_def each_once_def)
  moreover have "distinct (map p_ref (base_of initial scheme))" by (simp add: base_of_def split: list.split)
  moreover have "p_ref x \<noteq> p_ref y" if "x \<in> set (base_of initial scheme)" "y \<in> set (live r scheme)" for x y
    using that each_once_apart [OF assms] subsetD [OF base_of_initial] subsetD [OF live_registered] by metis
  then have "p_ref ` set (base_of initial scheme) \<inter> p_ref ` set (live r scheme) = {}" by (auto simp del: imageE)
  ultimately show ?thesis by simp
qed

lemma dispose_refines:
  assumes "refines_stack initial r" "each_once initial r"
  shows "refines_stack initial (dispose_registration n r)"
proof (cases "n < length (rg_regs r) \<and> \<not> snd (rg_regs r ! n)")
  case True
  define p where "p = fst (rg_regs r ! n)"
  have reg: "p \<in> fst ` set (rg_regs r)" using True by (simp add: p_def)
  have base: "filter (\<lambda>x. p_ref x \<noteq> p_ref p) (base_of initial scheme) = base_of initial scheme" for scheme
    using each_once_apart [OF assms(2) _ reg] base_of_initial by (blast intro!: filter_True)
  have l: "live (dispose_registration n r) scheme = filter (\<lambda>x. p_ref x \<noteq> p_ref p) (live r scheme)" for scheme
    using live_disposed [of n r] True assms(2) by (simp add: p_def each_once_def)
  have other: "filter (\<lambda>x. p_ref x \<noteq> p_ref p) (live r scheme) = live r scheme" if "scheme \<noteq> p_scheme p" for scheme
  proof (rule filter_True, intro ballI notI)
    fix x assume x: "x \<in> set (live r scheme)" "p_ref x = p_ref p"
    then obtain d where d: "(x, d) \<in> set (rg_regs r)" and sx: "p_scheme x = scheme" by (auto simp: live_def)
    from True have "rg_regs r ! n \<in> set (rg_regs r)" by simp
    moreover have "(p_ref \<circ> fst) (x, d) = (p_ref \<circ> fst) (rg_regs r ! n)" using x(2) by (simp add: p_def)
    moreover have "inj_on (p_ref \<circ> fst) (set (rg_regs r))"
      using assms(2) by (simp add: each_once_def distinct_map)
    ultimately have "(x, d) = rg_regs r ! n" using d by (meson inj_onD)
    with sx that show False by (metis fst_conv p_def)
  qed
  have "distinct (map p_ref (slot_stack (jm_get (rg_byScheme r) (p_scheme p))))"
    using assms stack_distinct [OF assms(2), of "p_scheme p"] by (simp add: refines_stack_def)
  note step = dispose_slot_stack [OF this]
  have "rg_byScheme (dispose_registration n r) = dispose_slot p (rg_byScheme r)"
    using True by (simp add: dispose_registration_def p_def)
  then show ?thesis
    using assms(1) step base l other by (simp add: refines_stack_def)
qed (auto simp: dispose_registration_def assms(1))

lemma each_once_step: "each_once initial (registry_step op r) \<Longrightarrow> each_once initial r"
proof (cases op)
  case (Register p)
  moreover assume "each_once initial (registry_step op r)"
  ultimately show ?thesis
    by (auto simp: registry_step_def register_def Let_def each_once_def split: if_splits)
next
  case (Dispose n)
  moreover have "map (p_ref \<circ> fst) (rg_regs (dispose_registration n r)) = map (p_ref \<circ> fst) (rg_regs r)"
    by (simp add: dispose_registration_def map_update list_update_same_conv)
  moreover assume "each_once initial (registry_step op r)"
  ultimately show ?thesis unfolding each_once_def registry_step_def by (simp del: set_map)
qed

lemma step_refines:
  "refines_stack initial r \<Longrightarrow> each_once initial r \<Longrightarrow> refines_stack initial (registry_step op r)"
  by (cases op) (auto simp: registry_step_def dispose_refines register_refines split: sum.split)

lemma registry_refines:
  assumes "each_once initial (fold registry_step ops (createProviderRegistry initial))"
  shows "refines_stack initial (fold registry_step ops (createProviderRegistry initial))"
  using assms
proof (induction ops rule: rev_induct)
  case (snoc op ops)
  let ?r = "fold registry_step ops (createProviderRegistry initial)"
  have "each_once initial ?r" using each_once_step [of initial op ?r] snoc.prems by simp
  with snoc.IH have "refines_stack initial ?r" by blast
  with \<open>each_once initial ?r\<close> show ?case
    by (simp add: step_refines)
qed (simp add: create_refines)

lemma get_of_stack:
  "get_provider r scheme = (let s = slot_stack (jm_get (rg_byScheme r) scheme) in if s = [] then None else Some (last s))"
  by (simp add: get_provider_def slot_stack_def split: option.split)

section \<open>Properties\<close>


definition demo_provider :: "nat \<Rightarrow> provider" where
  "demo_provider n = \<lparr>p_ref = n, p_scheme = ''mem'', p_capabilities = 1\<rparr>"


text \<open>
  An object registered twice is removed from the wrong place. A provider registered, covered by
  another, and registered again is the active one; disposing its first registration makes the scheme
  resolve to the other provider although the latest registration was not disposed.
\<close>

theorem double_registration_demotes:
  assumes "p_ref p \<noteq> p_ref q" "p_scheme p = p_scheme q" "p_scheme p \<noteq> []"
  shows "let r = fold registry_step [Register p, Register q, Register p, Dispose 0] (createProviderRegistry [])
    in last (live r (p_scheme p)) = p \<and> get_provider r (p_scheme p) = Some q"
  using assms
  by (simp add: Let_def registry_step_def register_def dispose_registration_def createProviderRegistry_def live_def
      get_provider_def dispose_slot_def pop_slot_def)

theorem double_registration_demotes_witness:
  "get_provider (fold registry_step [Register (demo_provider 1), Register (demo_provider 2), Register (demo_provider 1), Dispose 0]
     (createProviderRegistry [])) ''mem'' = Some (demo_provider 2)"
  using double_registration_demotes [of "demo_provider 1" "demo_provider 2"] by (simp add: demo_provider_def Let_def)

end
