(* ===== verification/Protocol.thy ===== *)
theory Protocol
  imports Mirror_Reducer Channel_Contract Frame_Codec Session_Policy
begin

text \<open>
  The messages between host and client (\<open>packages/mille/src/protocol.ts\<close>, the error value of
  \<open>errors.ts\<close>). \<open>inbound_frame\<close> is what a client receives, as the client tells the frames apart;
  \<open>outbound_frame\<close> is what a client sends. The bodies of snapshots, deltas and directory loads are the
  records of the mirror reducer.
\<close>

section \<open>Frames and values\<close>

record fs_error =
  er_code :: string
  er_message :: string
  er_path :: "string option"

text \<open>\<open>new FileSystemError(code, message, path)\<close> leaves an empty path out.\<close>

definition FileSystemError :: "string \<Rightarrow> string \<Rightarrow> string option \<Rightarrow> fs_error" where
  "FileSystemError code message path =
     \<lparr>er_code = code, er_message = message, er_path = (if path = Some [] then None else path)\<rparr>"

definition plain_error :: "string \<Rightarrow> string \<Rightarrow> fs_error" where
  "plain_error code message = FileSystemError code message None"

record close_info =
  ci_code :: close_code
  ci_reason :: "string option"

text \<open>What the client reads of a search hit and of an object in a reply.\<close>

record wire_hit =
  wh_id :: int
  wh_score :: int
  wh_matched :: "int list"

record reply_obj =
  ro_id :: "int option"
  ro_version :: "int option"
  ro_entries :: "client_entry list option"
  ro_hits :: "wire_hit list option"
  ro_clipped :: bool

datatype reply = RUndefined | RNull | RNumber int | RBool bool | RText jstring | RObj reply_obj

type_synonym wire_decoration = "int \<times> decoration option"

datatype outbound_frame =
    OutHandshake | OutCall int string "jsval list" | OutMutate int string jsval
  | OutSetExpanded "int list" "int list" | OutSetViewport int int "int option"
  | OutDecorations string "wire_decoration list" bool | OutAck int "int option" | OutDispose

text \<open>The JSON text of a warning, as far as the host writes it itself.\<close>

datatype warning_detail =
    WText string | WClampViewport viewport viewport "int option" | WClampPrefetch int int "int option"

datatype inbound_frame =
    InMalformed
  | InSnapshot inbound_snapshot
  | InDelta inbound_delta bool "int option"
  | InDirectoryLoad inbound_directory_load
  | InResult int reply "fs_error option"
  | InError string string bool "close_code option"
  | InWarning "string option" "warning_detail option"
  | InOther

text \<open>What \<open>channel.send\<close> does: accept the message, refuse it, or close the channel and throw.\<close>

datatype send_outcome = SendOk | SendRefused | SendCloses close_code

section \<open>The envelope\<close>

text \<open>
  \<open>'k' in frame\<close> and the property read, on a value that arrived. Numbers that are not integers are \<open>VReal\<close>
  or \<open>VNonFinite\<close>.
\<close>

definition PROTOCOL_VERSION :: int where "PROTOCOL_VERSION = 1"

record envelope =
  en_v :: jsval
  en_type :: jstring
  en_body :: jsval

definition is_number :: "jsval \<Rightarrow> bool" where
  "is_number v = (case v of VNum n \<Rightarrow> True | VReal r \<Rightarrow> True | VNonFinite \<Rightarrow> True | _ \<Rightarrow> False)"

definition validateFrameVersion :: "jsval \<Rightarrow> envelope option" where
  "validateFrameVersion frame =
     (case frame of
        VObj ps \<Rightarrow>
          (case (map_of ps (js ''v''), map_of ps (js ''type''), map_of ps (js ''body'')) of
             (Some v, Some ty, Some body) \<Rightarrow>
               (case ty of
                  VStr s \<Rightarrow> if is_number v then Some \<lparr>en_v = v, en_type = s, en_body = body\<rparr> else None
                | _ \<Rightarrow> None)
           | _ \<Rightarrow> None)
      | _ \<Rightarrow> None)"

definition isCompatibleVersion :: "jsval \<Rightarrow> bool" where
  "isCompatibleVersion v \<longleftrightarrow> v = VNum PROTOCOL_VERSION"

definition frame :: "jstring \<Rightarrow> jsval \<Rightarrow> jsval" where
  "frame ty body = VObj [(js ''v'', VNum PROTOCOL_VERSION), (js ''type'', VStr ty), (js ''body'', body)]"

text \<open>A frame this side builds passes both gates of the other side.\<close>

lemma frame_accepted:
  "validateFrameVersion (frame ty body) = Some \<lparr>en_v = VNum PROTOCOL_VERSION, en_type = ty, en_body = body\<rparr>
   \<and> isCompatibleVersion (VNum PROTOCOL_VERSION)"
proof -
  have "js ''v'' \<noteq> js ''type''" "js ''v'' \<noteq> js ''body''" "js ''type'' \<noteq> js ''body''" by code_simp+
  then show ?thesis by (auto simp: validateFrameVersion_def frame_def isCompatibleVersion_def is_number_def)
qed

end
