(* ===== verification/Port_Explorer.thy ===== *)
theory Port_Explorer
  imports Protocol Mirror_Invariant Mirror_Snapshot
begin

text \<open>
  The client that lives at the far end of a channel (\<open>packages/mille/src/client-port.ts\<close>): the handshake
  promise, numbered requests and their promises, the mirror and its published snapshot, decoration
  providers, and teardown.

  One step is one task of the event loop: an API call, an inbound frame or the close event of the
  channel, with the microtasks it queues. A call that awaits the handshake is \<open>waiting\<close> until the
  promise settles; the continuations then run in order. Every promise the API returns has a token;
  \<open>fx_settled\<close> records how it settled, once. \<open>net n\<close> says what the \<open>n\<close>-th \<open>channel.send\<close> does: accept the
  message, refuse it, or close the channel and throw, as the transports do at their hard limit.
  Decoration providers answer synchronously.
\<close>

section \<open>Values and state\<close>

text \<open>How an API method reads the reply to its request.\<close>

datatype request_kind = Plain | Lookup | Search | Number string | Object string | IsTrue

record search_hit =
  sh_entry :: client_entry
  sh_score :: int
  sh_matched :: "int list"
  sh_path :: "jstring list"

datatype api_value =
    AReply reply | AId "int option" | ASearch "search_hit list" bool int | ANumber int | ABool bool | AUnit

datatype outcome = Resolved api_value | Rejected fs_error | SendFailed

datatype handshake = HsPending | HsResolved | HsRejected fs_error

datatype request = Call string "jsval list" | Mutate string jsval

datatype deferred = AwaitReady nat | AwaitRequest nat request_kind request | AwaitSend outbound_frame

datatype client_event =
    Sent outbound_frame | Changed | WarningHeard string | ConnectionClosed close_info | UnhandledRejection fs_error

record decoration_provider =
  dp_id :: string
  dp_provide :: "int \<Rightarrow> client_entry option \<Rightarrow> decoration option"
  dp_knownIds :: "int jset"

record port_explorer =
  fx_open :: bool
  fx_sends :: nat
  fx_pending :: "(int, nat \<times> request_kind) jmap"
  fx_nextReqId :: int
  fx_working :: mirror
  fx_published :: mirror
  fx_mirrorCap :: nat
  fx_handshake :: handshake
  fx_waiting :: "deferred list"
  fx_disposed :: bool
  fx_closeReported :: bool
  fx_announcedClose :: "close_info option"
  fx_lastKnownEntryIds :: "int jset"
  fx_decorationProviders :: "(string, decoration_provider) jmap"
  fx_settled :: "(nat, outcome) jmap"
  fx_log :: "client_event list"

section \<open>Promises, teardown and sending\<close>

definition fx_note :: "client_event \<Rightarrow> port_explorer \<Rightarrow> port_explorer" where
  "fx_note e s = s\<lparr>fx_log := fx_log s @ [e]\<rparr>"

text \<open>A promise settles once; later attempts do nothing.\<close>

definition settle :: "nat \<Rightarrow> outcome \<Rightarrow> port_explorer \<Rightarrow> port_explorer" where
  "settle tok out s = (if jm_has (fx_settled s) tok then s else s\<lparr>fx_settled := fx_settled s @ [(tok, out)]\<rparr>)"

definition reject_deferred :: "fs_error \<Rightarrow> deferred \<Rightarrow> port_explorer \<Rightarrow> port_explorer" where
  "reject_deferred err d s =
     (case d of
        AwaitReady tok \<Rightarrow> settle tok (Rejected err) s
      | AwaitRequest tok k r \<Rightarrow> settle tok (Rejected err) s
      | AwaitSend f \<Rightarrow> fx_note (UnhandledRejection err) s)"

definition handshakeReject :: "fs_error \<Rightarrow> port_explorer \<Rightarrow> port_explorer" where
  "handshakeReject err s =
     (if fx_handshake s \<noteq> HsPending then s
      else fold (reject_deferred err) (fx_waiting s) (s\<lparr>fx_handshake := HsRejected err, fx_waiting := []\<rparr>))"

definition reject_pending :: "fs_error \<Rightarrow> port_explorer \<Rightarrow> port_explorer" where
  "reject_pending err s =
     (fold (\<lambda>(_, tok, _). settle tok (Rejected err)) (fx_pending s) s)\<lparr>fx_pending := []\<rparr>"

fun close_code_name :: "close_code \<Rightarrow> string" where
  "close_code_name LOCAL_CLOSE = ''LOCAL_CLOSE''"
| "close_code_name REMOTE_CLOSE = ''REMOTE_CLOSE''"
| "close_code_name TRANSPORT_ERROR = ''TRANSPORT_ERROR''"
| "close_code_name PROTOCOL_ERROR = ''PROTOCOL_ERROR''"
| "close_code_name BACKPRESSURE = ''BACKPRESSURE''"
| "close_code_name AUTH_REJECTED = ''AUTH_REJECTED''"

definition handleChannelClose :: "close_info \<Rightarrow> port_explorer \<Rightarrow> port_explorer" where
  "handleChannelClose closeEvent s =
     (if fx_disposed s \<or> fx_closeReported s then s
      else let s1 = s\<lparr>fx_closeReported := True\<rparr>;
               reason = (case fx_announcedClose s1 of Some r \<Rightarrow> r | None \<Rightarrow> closeEvent);
               err = plain_error ''ECANCELED'' (''connection closed: '' @ close_code_name (ci_code reason))
           in fx_note (ConnectionClosed reason) (reject_pending err (handshakeReject err s1)))"

text \<open>The channel closes once and tells its listener.\<close>

definition channel_close :: "close_info \<Rightarrow> port_explorer \<Rightarrow> port_explorer" where
  "channel_close c s = (if \<not> fx_open s then s else handleChannelClose c (s\<lparr>fx_open := False\<rparr>))"

text \<open>\<open>channel.send\<close>: whether it threw, and the state after it.\<close>

definition channel_send ::
  "(nat \<Rightarrow> send_outcome) \<Rightarrow> outbound_frame \<Rightarrow> port_explorer \<Rightarrow> bool \<times> port_explorer"
where
  "channel_send net f s =
     (if \<not> fx_open s then (True, s)
      else let s1 = s\<lparr>fx_sends := fx_sends s + 1\<rparr>
           in case net (fx_sends s) of
                SendOk \<Rightarrow> (False, fx_note (Sent f) s1)
              | SendRefused \<Rightarrow> (True, s1)
              | SendCloses c \<Rightarrow> (True, channel_close \<lparr>ci_code = c, ci_reason = None\<rparr> s1))"

section \<open>Requests\<close>

definition request_frame :: "int \<Rightarrow> request \<Rightarrow> outbound_frame" where
  "request_frame reqId r = (case r of Call m args \<Rightarrow> OutCall reqId m args | Mutate op args \<Rightarrow> OutMutate reqId op args)"

text \<open>The part of \<open>call\<close> and \<open>mutate\<close> after the handshake.\<close>

definition begin_request ::
  "(nat \<Rightarrow> send_outcome) \<Rightarrow> nat \<Rightarrow> request_kind \<Rightarrow> request \<Rightarrow> port_explorer \<Rightarrow> port_explorer"
where
  "begin_request net tok k r s =
     (if fx_disposed s then settle tok (Rejected (plain_error ''ECANCELED'' ''explorer disposed'')) s
      else let reqId = fx_nextReqId s;
               s1 = s\<lparr>fx_nextReqId := reqId + 1, fx_pending := jm_set reqId (tok, k) (fx_pending s)\<rparr>;
               (threw, s2) = channel_send net (request_frame reqId r) s1
           in if threw then settle tok SendFailed (s2\<lparr>fx_pending := jm_delete reqId (fx_pending s2)\<rparr>) else s2)"

definition run_deferred :: "(nat \<Rightarrow> send_outcome) \<Rightarrow> deferred \<Rightarrow> port_explorer \<Rightarrow> port_explorer" where
  "run_deferred net d s =
     (case d of
        AwaitReady tok \<Rightarrow> settle tok (Resolved AUnit) s
      | AwaitRequest tok k r \<Rightarrow> begin_request net tok k r s
      | AwaitSend f \<Rightarrow> if fx_disposed s then s else snd (channel_send net f s))"

text \<open>\<open>await this.handshakeReady\<close>, for all three users of it.\<close>

definition after_handshake :: "(nat \<Rightarrow> send_outcome) \<Rightarrow> deferred \<Rightarrow> port_explorer \<Rightarrow> port_explorer" where
  "after_handshake net d s =
     (case fx_handshake s of
        HsPending \<Rightarrow> s\<lparr>fx_waiting := fx_waiting s @ [d]\<rparr>
      | HsResolved \<Rightarrow> run_deferred net d s
      | HsRejected err \<Rightarrow> reject_deferred err d s)"

definition handshakeResolve :: "(nat \<Rightarrow> send_outcome) \<Rightarrow> port_explorer \<Rightarrow> port_explorer" where
  "handshakeResolve net s =
     (if fx_handshake s \<noteq> HsPending then s
      else fold (run_deferred net) (fx_waiting s) (s\<lparr>fx_handshake := HsResolved, fx_waiting := []\<rparr>))"

definition sendAfterReady :: "(nat \<Rightarrow> send_outcome) \<Rightarrow> outbound_frame \<Rightarrow> port_explorer \<Rightarrow> port_explorer" where
  "sendAfterReady net f s = after_handshake net (AwaitSend f) s"

definition publishSnapshot :: "port_explorer \<Rightarrow> port_explorer" where
  "publishSnapshot s = fx_note Changed (s\<lparr>fx_published := fx_working s\<rparr>)"

section \<open>Reading replies\<close>

text \<open>Names from the root of a hit down to it; the guard stops a cyclic chain.\<close>

fun hit_path :: "nat \<Rightarrow> (int, client_entry) jmap \<Rightarrow> client_entry option \<Rightarrow> jstring list" where
  "hit_path 0 byid cursor = []"
| "hit_path (Suc guard) byid cursor =
     (case cursor of
        None \<Rightarrow> []
      | Some e \<Rightarrow>
        ce_name e # hit_path guard byid (case ce_parentId e of None \<Rightarrow> None | Some p \<Rightarrow> jm_get byid p))"

definition search_hits :: "wire_hit list \<Rightarrow> client_entry list \<Rightarrow> search_hit list" where
  "search_hits hits entries =
     (let byid = fold (\<lambda>e. jm_set (ce_id e) e) entries []
      in concat (map (\<lambda>h. case jm_get byid (wh_id h) of
           None \<Rightarrow> []
         | Some e \<Rightarrow> [\<lparr>sh_entry = clientEntryToEntry e, sh_score = wh_score h, sh_matched = wh_matched h,
                      sh_path = rev (hit_path 10000 byid (Some e))\<rparr>]) hits))"

text \<open>What the method returns, and the entries and version it merges into the mirror first.\<close>

definition read_reply :: "request_kind \<Rightarrow> reply \<Rightarrow> outcome \<times> (client_entry list \<times> int) option" where
  "read_reply k r =
     (case k of
        Plain \<Rightarrow> (Resolved (AReply r), None)
      | IsTrue \<Rightarrow> (Resolved (ABool (r = RBool True)), None)
      | Number m \<Rightarrow>
          (case r of RNumber n \<Rightarrow> (Resolved (ANumber n), None)
           | _ \<Rightarrow> (Rejected (plain_error ''EUNKNOWN'' (''invalid '' @ m @ '' response'')), None))
      | Object m \<Rightarrow>
          (case r of RObj ob \<Rightarrow> (Resolved (AReply r), None)
           | _ \<Rightarrow> (Rejected (plain_error ''EUNKNOWN'' (''invalid '' @ m @ '' response'')), None))
      | Lookup \<Rightarrow>
          (case r of
             RNumber n \<Rightarrow> (Resolved (AId (Some n)), None)
           | RObj ob \<Rightarrow>
               (case (ro_id ob, ro_version ob, ro_entries ob) of
                  (Some i, Some v, Some es) \<Rightarrow> (Resolved (AId (Some i)), Some (es, v))
                | _ \<Rightarrow> (Resolved (AId None), None))
           | _ \<Rightarrow> (Resolved (AId None), None))
      | Search \<Rightarrow>
          (case r of
             RObj ob \<Rightarrow>
               (case (ro_version ob, ro_hits ob, ro_entries ob) of
                  (Some v, Some hs, Some es) \<Rightarrow>
                    (Resolved (ASearch (search_hits hs es) (ro_clipped ob) v), Some (es, v))
                | _ \<Rightarrow> (Rejected (plain_error ''EUNSUPPORTED'' ''host does not answer search over this channel''), None))
           | _ \<Rightarrow> (Rejected (plain_error ''EUNSUPPORTED'' ''host does not answer search over this channel''), None)))"

definition complete_request :: "nat \<Rightarrow> request_kind \<Rightarrow> reply \<Rightarrow> port_explorer \<Rightarrow> port_explorer" where
  "complete_request tok k r s =
     (let (out, hydrate) = read_reply k r;
          s1 = (case hydrate of
                  None \<Rightarrow> s
                | Some (es, v) \<Rightarrow>
                  publishSnapshot (s\<lparr>fx_working := hydrateLookupEntries (fx_working s) es v (fx_mirrorCap s)\<rparr>))
      in settle tok out s1)"

definition handleResult :: "int \<Rightarrow> reply \<Rightarrow> fs_error option \<Rightarrow> port_explorer \<Rightarrow> port_explorer" where
  "handleResult reqId r err s =
     (case jm_get (fx_pending s) reqId of
        None \<Rightarrow> s
      | Some (tok, k) \<Rightarrow>
        let s1 = s\<lparr>fx_pending := jm_delete reqId (fx_pending s)\<rparr>
        in case err of
             Some e \<Rightarrow> settle tok (Rejected (FileSystemError (er_code e) (er_message e) (er_path e))) s1
           | None \<Rightarrow> complete_request tok k r s1)"

section \<open>Decorations\<close>

definition toWire :: "decoration \<Rightarrow> decoration" where
  "toWire d = \<lparr>dec_letter = None, dec_badge = dec_badge d, dec_color = dec_color d, dec_tooltip = dec_tooltip d,
     dec_propagate = dec_propagate d\<rparr>"

text \<open>Every held entry the provider decorates; these become its known ids.\<close>

definition computeDecorationsForEveryKnownId ::
  "decoration_provider \<Rightarrow> mirror \<Rightarrow> wire_decoration list \<times> decoration_provider"
where
  "computeDecorationsForEveryKnownId p m =
     (let out = concat (map (\<lambda>(i, ce). case dp_provide p i (Some (clientEntryToEntry ce)) of
                                         None \<Rightarrow> [] | Some d \<Rightarrow> [(i, Some (toWire d))]) (byId m))
      in (out, p\<lparr>dp_knownIds := jset_of (map fst out)\<rparr>))"

fun decorate_ids ::
  "bool \<Rightarrow> mirror \<Rightarrow> int list \<Rightarrow> decoration_provider \<Rightarrow> wire_decoration list \<times> decoration_provider"
where
  "decorate_ids includeClears m [] p = ([], p)"
| "decorate_ids includeClears m (i # is) p =
     (case dp_provide p i (map_option clientEntryToEntry (jm_get (byId m) i)) of
        Some d \<Rightarrow>
          (let (out, p') = decorate_ids includeClears m is (p\<lparr>dp_knownIds := jset_add i (dp_knownIds p)\<rparr>)
           in ((i, Some (toWire d)) # out, p'))
      | None \<Rightarrow>
          if i \<in> set (dp_knownIds p) \<or> includeClears
          then (let (out, p') = decorate_ids includeClears m is (p\<lparr>dp_knownIds := jset_del i (dp_knownIds p)\<rparr>)
                in ((i, None) # out, p'))
          else decorate_ids includeClears m is p)"

definition store_provider :: "decoration_provider \<Rightarrow> port_explorer \<Rightarrow> port_explorer" where
  "store_provider p s =
     (if jm_has (fx_decorationProviders s) (dp_id p)
      then s\<lparr>fx_decorationProviders := jm_set (dp_id p) p (fx_decorationProviders s)\<rparr> else s)"

definition pushDecorationsForIds ::
  "(nat \<Rightarrow> send_outcome) \<Rightarrow> int list \<Rightarrow> bool \<Rightarrow> decoration_provider \<Rightarrow> port_explorer \<Rightarrow> port_explorer"
where
  "pushDecorationsForIds net is includeClears p s =
     (if fx_disposed s then s
      else let (entries, p') = decorate_ids includeClears (fx_working s) is p;
               s1 = store_provider p' s
           in if entries = [] then s1
              else sendAfterReady net (OutDecorations (dp_id p) entries False) s1)"

definition push_for ::
  "(nat \<Rightarrow> send_outcome) \<Rightarrow> int list \<Rightarrow> bool \<Rightarrow> string \<Rightarrow> port_explorer \<Rightarrow> port_explorer"
where
  "push_for net is includeClears pid s =
     (if is = [] then s
      else case jm_get (fx_decorationProviders s) pid of
        None \<Rightarrow> s
      | Some p \<Rightarrow> pushDecorationsForIds net is includeClears p s)"

definition recomputeDecorationsForNewIds :: "(nat \<Rightarrow> send_outcome) \<Rightarrow> port_explorer \<Rightarrow> port_explorer" where
  "recomputeDecorationsForNewIds net s =
     (let currentIds = jset_of (jm_keys (byId (fx_working s)));
          addedIds = filter (\<lambda>i. i \<notin> set (fx_lastKnownEntryIds s)) currentIds;
          removedIds = filter (\<lambda>i. i \<notin> set currentIds) (fx_lastKnownEntryIds s);
          s1 = s\<lparr>fx_lastKnownEntryIds := currentIds\<rparr>
      in if fx_decorationProviders s = [] then s1
         else fold (\<lambda>pid t. push_for net removedIds True pid (push_for net addedIds False pid t))
                (jm_keys (fx_decorationProviders s)) s1)"

definition registerDecorationProvider ::
  "(nat \<Rightarrow> send_outcome) \<Rightarrow> decoration_provider \<Rightarrow> port_explorer \<Rightarrow> port_explorer"
where
  "registerDecorationProvider net p0 s =
     (let (initial, p) = computeDecorationsForEveryKnownId (p0\<lparr>dp_knownIds := []\<rparr>) (fx_working s);
          s1 = sendAfterReady net (OutDecorations (dp_id p) initial True) s
      in s1\<lparr>fx_decorationProviders := jm_set (dp_id p) p (fx_decorationProviders s1)\<rparr>)"

text \<open>The provider announces a change; an empty list asks for everything.\<close>

definition provider_changed ::
  "(nat \<Rightarrow> send_outcome) \<Rightarrow> string \<Rightarrow> int list \<Rightarrow> port_explorer \<Rightarrow> port_explorer"
where
  "provider_changed net pid is s =
     (case jm_get (fx_decorationProviders s) pid of
        None \<Rightarrow> s
      | Some p \<Rightarrow>
        if fx_disposed s then s
        else if is = [] then
          (let (full, p') = computeDecorationsForEveryKnownId p (fx_working s)
           in sendAfterReady net (OutDecorations pid full True) (store_provider p' s))
        else pushDecorationsForIds net is False p s)"

definition disposeDecorationProvider ::
  "(nat \<Rightarrow> send_outcome) \<Rightarrow> string \<Rightarrow> port_explorer \<Rightarrow> port_explorer"
where
  "disposeDecorationProvider net pid s =
     (if jm_has (fx_decorationProviders s) pid
      then let s1 = sendAfterReady net (OutDecorations pid [] True) s
           in s1\<lparr>fx_decorationProviders := jm_delete pid (fx_decorationProviders s1)\<rparr>
      else s)"

section \<open>Inbound frames\<close>

text \<open>A payload that does not decode throws out of the handler; the channel logs it and goes on.\<close>

definition handleSnapshot ::
  "json_parsers \<Rightarrow> (nat \<Rightarrow> send_outcome) \<Rightarrow> inbound_snapshot \<Rightarrow> port_explorer \<Rightarrow> port_explorer"
where
  "handleSnapshot J net body s =
     (case applySnapshot J (fx_working s) body (fx_mirrorCap s) of
        Inl e \<Rightarrow> s
      | Inr m \<Rightarrow>
        let s1 = publishSnapshot (s\<lparr>fx_working := m\<rparr>)
        in handshakeResolve net (s1\<lparr>fx_lastKnownEntryIds := jset_of (jm_keys (byId (fx_working s1)))\<rparr>))"

definition handleDelta ::
  "json_parsers \<Rightarrow> (nat \<Rightarrow> send_outcome) \<Rightarrow> inbound_delta \<Rightarrow> bool \<Rightarrow> int option \<Rightarrow> port_explorer \<Rightarrow> port_explorer"
where
  "handleDelta J net body ackRequested ackId s =
     (case applyDelta J (fx_working s) body (fx_mirrorCap s) of
        Inl e \<Rightarrow> s
      | Inr m \<Rightarrow>
        let s1 = recomputeDecorationsForNewIds net (publishSnapshot (s\<lparr>fx_working := m\<rparr>))
        in if ackRequested then snd (channel_send net (OutAck (treeVersion (fx_working s1)) ackId) s1) else s1)"

definition handleError ::
  "string \<Rightarrow> string \<Rightarrow> bool \<Rightarrow> close_code option \<Rightarrow> port_explorer \<Rightarrow> port_explorer"
where
  "handleError code message fatal closeCode s =
     (if fatal
      then let s1 = s\<lparr>fx_announcedClose := Some \<lparr>ci_code = (case closeCode of Some c \<Rightarrow> c | None \<Rightarrow> REMOTE_CLOSE),
                                              ci_reason = Some message\<rparr>\<rparr>
           in channel_close \<lparr>ci_code = LOCAL_CLOSE, ci_reason = Some message\<rparr> s1
      else let err = plain_error code message in reject_pending err (handshakeReject err s))"

definition handleMessage ::
  "json_parsers \<Rightarrow> (nat \<Rightarrow> send_outcome) \<Rightarrow> inbound_frame \<Rightarrow> port_explorer \<Rightarrow> port_explorer"
where
  "handleMessage J net f s =
     (case f of
        InMalformed \<Rightarrow> s
      | InSnapshot body \<Rightarrow> handleSnapshot J net body s
      | InDelta body ack ackId \<Rightarrow> handleDelta J net body ack ackId s
      | InDirectoryLoad body \<Rightarrow> publishSnapshot (s\<lparr>fx_working := applyDirectoryLoad (fx_working s) body\<rparr>)
      | InResult reqId r err \<Rightarrow> handleResult reqId r err s
      | InError code message fatal closeCode \<Rightarrow> handleError code message fatal closeCode s
      | InWarning code detail \<Rightarrow> (case code of Some c \<Rightarrow> fx_note (WarningHeard c) s | None \<Rightarrow> s)
      | InOther \<Rightarrow> s)"

section \<open>The API\<close>

definition new_port_explorer :: "(nat \<Rightarrow> send_outcome) \<Rightarrow> nat \<Rightarrow> port_explorer" where
  "new_port_explorer net cap =
     snd (channel_send net OutHandshake
       \<lparr>fx_open = True, fx_sends = 0, fx_pending = [], fx_nextReqId = 1, fx_working = createMirror,
        fx_published = createMirror, fx_mirrorCap = cap, fx_handshake = HsPending, fx_waiting = [],
        fx_disposed = False, fx_closeReported = False, fx_announcedClose = None, fx_lastKnownEntryIds = [],
        fx_decorationProviders = [], fx_settled = [], fx_log = []\<rparr>)"

definition expand_mirror :: "int list \<Rightarrow> int list \<Rightarrow> mirror \<Rightarrow> mirror" where
  "expand_mirror add remove m =
     (let m1 = fold (\<lambda>i s. s\<lparr>expanded := jset_add i (expanded s), pendingExpansions := jset_add i (pendingExpansions s),
                             directoryLoads := jm_delete i (directoryLoads s)\<rparr>) add m
      in fold (\<lambda>i s. s\<lparr>expanded := jset_del i (expanded s), pendingExpansions := jset_del i (pendingExpansions s),
                       directoryLoads := jm_delete i (directoryLoads s)\<rparr>) remove m1)"

text \<open>
  Whether one of the sets or maps changed on the way: an id added anew, or one removed that was there.
\<close>

fun expand_touches :: "int list \<Rightarrow> int list \<Rightarrow> mirror \<Rightarrow> bool" where
  "expand_touches [] [] m = False"
| "expand_touches [] (i # is) m =
     (i \<in> set (expanded m) \<or> i \<in> set (pendingExpansions m) \<or> jm_has (directoryLoads m) i
      \<or> expand_touches [] is (expand_mirror [] [i] m))"
| "expand_touches (i # is) remove m =
     (i \<notin> set (expanded m) \<or> i \<notin> set (pendingExpansions m) \<or> jm_has (directoryLoads m) i
      \<or> expand_touches is remove (expand_mirror [i] [] m))"

definition setExpanded ::
  "(nat \<Rightarrow> send_outcome) \<Rightarrow> int list \<Rightarrow> int list \<Rightarrow> port_explorer \<Rightarrow> port_explorer"
where
  "setExpanded net add remove s =
     (if add = [] \<and> remove = [] then s
      else let nxt = expand_mirror add remove (cloneMirror (fx_working s));
               s1 = (if expand_touches add remove (fx_working s) then publishSnapshot (s\<lparr>fx_working := nxt\<rparr>) else s)
           in sendAfterReady net (OutSetExpanded add remove) s1)"

definition dispose_explorer :: "(nat \<Rightarrow> send_outcome) \<Rightarrow> port_explorer \<Rightarrow> port_explorer" where
  "dispose_explorer net s =
     (if fx_disposed s then s
      else let s1 = snd (channel_send net OutDispose (s\<lparr>fx_disposed := True\<rparr>));
               s2 = reject_pending (plain_error ''ECANCELED'' ''explorer disposed'') s1
           in channel_close \<lparr>ci_code = LOCAL_CLOSE, ci_reason = None\<rparr> s2)"

text \<open>One task. Frames and the close event reach the client while its channel is open.\<close>

datatype explorer_op =
    Ready nat | Request nat request_kind request | SetExpanded "int list" "int list"
  | SetViewport int int "int option" | RegisterProvider decoration_provider | ProviderChanged string "int list"
  | DisposeProvider string | DisposeExplorer | Frame inbound_frame | ChannelClosed close_info

definition explorer_step ::
  "json_parsers \<Rightarrow> (nat \<Rightarrow> send_outcome) \<Rightarrow> explorer_op \<Rightarrow> port_explorer \<Rightarrow> port_explorer"
where
  "explorer_step J net op s =
     (case op of
        Ready tok \<Rightarrow> after_handshake net (AwaitReady tok) s
      | Request tok k r \<Rightarrow> after_handshake net (AwaitRequest tok k r) s
      | SetExpanded add remove \<Rightarrow> setExpanded net add remove s
      | SetViewport off limit over \<Rightarrow> sendAfterReady net (OutSetViewport off limit over) s
      | RegisterProvider p \<Rightarrow> registerDecorationProvider net p s
      | ProviderChanged pid is \<Rightarrow> provider_changed net pid is s
      | DisposeProvider pid \<Rightarrow> disposeDecorationProvider net pid s
      | DisposeExplorer \<Rightarrow> dispose_explorer net s
      | Frame f \<Rightarrow> if fx_open s then handleMessage J net f s else s
      | ChannelClosed c \<Rightarrow> channel_close c s)"

end
