(* ===== verification/Port_Explorer_Proofs.thy ===== *)
theory Port_Explorer_Proofs
  imports Port_Explorer
begin

text \<open>
  Invariants of the port client and what they give: the published snapshot is the well-formed working
  mirror, request ids are never reused, and every promise the API handed out is settled, awaited or
  pending. \<open>leads\<close> relates the states before and after a piece of a task; it is reflexive and
  transitive, so each primitive of the client needs one lemma.
\<close>

section \<open>Invariants\<close>

text \<open>The mirror is well formed and published; request ids are fresh; a settled handshake has no
  waiters; the close was reported only after the channel closed.\<close>

definition fx_inv :: "port_explorer \<Rightarrow> bool" where
  "fx_inv s \<longleftrightarrow>
     mirror_inv (fx_working s) \<and> fx_published s = fx_working s
     \<and> jm_wf (fx_pending s) \<and> (\<forall>r \<in> fst ` set (fx_pending s). r < fx_nextReqId s)
     \<and> (fx_handshake s \<noteq> HsPending \<longrightarrow> fx_waiting s = [])
     \<and> (fx_closeReported s \<longrightarrow> \<not> fx_open s)"

text \<open>A closed channel has nothing in flight and a settled handshake, unless the client was disposed.\<close>

definition fx_idle_when_closed :: "port_explorer \<Rightarrow> bool" where
  "fx_idle_when_closed s \<longleftrightarrow>
     (\<not> fx_open s \<longrightarrow> fx_disposed s \<or> (fx_pending s = [] \<and> fx_handshake s \<noteq> HsPending))"

definition fx_idle_when_disposed :: "port_explorer \<Rightarrow> bool" where
  "fx_idle_when_disposed s \<longleftrightarrow> (fx_disposed s \<longrightarrow> \<not> fx_open s \<and> fx_pending s = [])"

fun deferred_token :: "deferred \<Rightarrow> nat list" where
  "deferred_token (AwaitReady tok) = [tok]"
| "deferred_token (AwaitRequest tok k r) = [tok]"
| "deferred_token (AwaitSend f) = []"

definition waiting_tokens :: "deferred list \<Rightarrow> nat set" where
  "waiting_tokens ds = set (concat (map deferred_token ds))"

definition accounted :: "port_explorer \<Rightarrow> nat \<Rightarrow> bool" where
  "accounted s tok \<longleftrightarrow> jm_has (fx_settled s) tok \<or> tok \<in> waiting_tokens (fx_waiting s)
     \<or> tok \<in> (\<lambda>x. fst (snd x)) ` set (fx_pending s)"

definition leads :: "port_explorer \<Rightarrow> port_explorer \<Rightarrow> bool" where
  "leads s t \<longleftrightarrow> (fx_inv s \<longrightarrow> fx_inv t \<and> (fx_idle_when_closed s \<longrightarrow> fx_idle_when_closed t)
     \<and> (fx_idle_when_disposed s \<longrightarrow> fx_idle_when_disposed t) \<and> (\<forall>tok. accounted s tok \<longrightarrow> accounted t tok))"

lemma leads_refl [simp, intro]: "leads s s"
  by (simp add: leads_def)

lemma leads_trans [trans]: "leads s t \<Longrightarrow> leads t u \<Longrightarrow> leads s u"
  by (simp add: leads_def)

lemma leads_fold: "(\<And>x s. leads s (f x s)) \<Longrightarrow> leads s (fold f xs s)"
  by (induction xs arbitrary: s) (auto intro: leads_trans)

lemma waiting_tokens_simps [simp]:
  "waiting_tokens [] = {}" "waiting_tokens (d # ds) = set (deferred_token d) \<union> waiting_tokens ds"
  "waiting_tokens (ds @ ds') = waiting_tokens ds \<union> waiting_tokens ds'"
  by (auto simp: waiting_tokens_def)

lemmas leads_defs = leads_def fx_inv_def fx_idle_when_closed_def fx_idle_when_disposed_def accounted_def

section \<open>Primitives\<close>

lemma jm_has_snoc: "jm_has (m @ [(k, v)]) k' \<longleftrightarrow> k' = k \<or> jm_has m k'"
  by (auto simp: jm_has_iff)

lemma leads_note [simp]: "leads s (fx_note e s)"
  by (simp add: leads_defs fx_note_def)

lemma leads_settle [simp]: "leads s (settle tok out s)"
  by (auto simp: leads_defs settle_def jm_has_snoc)

lemma settle_accounts [simp]: "accounted (settle tok out s) tok"
  by (auto simp: accounted_def settle_def jm_has_snoc)

lemma leads_reject_deferred [simp]: "leads s (reject_deferred err d s)"
  by (simp add: reject_deferred_def split: deferred.split)

text \<open>Running a list of deferred steps accounts for the tokens in it.\<close>

lemma fold_accounts:
  assumes step: "\<And>d s. leads s (f d s)"
    and tok: "\<And>d s tok. fx_inv s \<Longrightarrow> tok \<in> set (deferred_token d) \<Longrightarrow> accounted (f d s) tok"
  shows "fx_inv s \<Longrightarrow> accounted s tok \<or> tok \<in> waiting_tokens ds \<Longrightarrow> accounted (fold f ds s) tok"
proof (induction ds arbitrary: s)
  case (Cons d ds)
  have "fx_inv (f d s)" "accounted (f d s) tok \<or> tok \<in> waiting_tokens ds"
    using Cons.prems tok [of s tok d] step [of s d] by (auto simp: leads_def)
  with Cons.IH show ?case by simp
qed simp

lemma reject_deferred_accounts: "tok \<in> set (deferred_token d) \<Longrightarrow> accounted (reject_deferred err d s) tok"
  by (cases d) (simp_all add: reject_deferred_def)

text \<open>Fields a step does not touch.\<close>

lemma settle_promise_fields [simp]:
  "fx_pending (settle tok out s) = fx_pending s" "fx_handshake (settle tok out s) = fx_handshake s"
  "fx_waiting (settle tok out s) = fx_waiting s" "fx_working (settle tok out s) = fx_working s"
  "fx_published (settle tok out s) = fx_published s" "fx_open (settle tok out s) = fx_open s"
  "fx_disposed (settle tok out s) = fx_disposed s" "fx_closeReported (settle tok out s) = fx_closeReported s"
  "fx_nextReqId (settle tok out s) = fx_nextReqId s" "fx_log (settle tok out s) = fx_log s"
  by (simp_all add: settle_def)

lemma note_fields [simp]:
  "fx_pending (fx_note e s) = fx_pending s" "fx_handshake (fx_note e s) = fx_handshake s"
  "fx_waiting (fx_note e s) = fx_waiting s" "fx_working (fx_note e s) = fx_working s"
  "fx_published (fx_note e s) = fx_published s" "fx_open (fx_note e s) = fx_open s"
  "fx_disposed (fx_note e s) = fx_disposed s" "fx_closeReported (fx_note e s) = fx_closeReported s"
  "fx_nextReqId (fx_note e s) = fx_nextReqId s" "fx_settled (fx_note e s) = fx_settled s"
  by (simp_all add: fx_note_def)

lemma fold_settle_promises:
  "fx_pending (fold (\<lambda>(_, tok, _). settle tok out) ps s) = fx_pending s"
  "fx_handshake (fold (\<lambda>(_, tok, _). settle tok out) ps s) = fx_handshake s"
  "fx_waiting (fold (\<lambda>(_, tok, _). settle tok out) ps s) = fx_waiting s"
  "fx_working (fold (\<lambda>(_, tok, _). settle tok out) ps s) = fx_working s"
  "fx_published (fold (\<lambda>(_, tok, _). settle tok out) ps s) = fx_published s"
  "fx_open (fold (\<lambda>(_, tok, _). settle tok out) ps s) = fx_open s"
  "fx_disposed (fold (\<lambda>(_, tok, _). settle tok out) ps s) = fx_disposed s"
  "fx_closeReported (fold (\<lambda>(_, tok, _). settle tok out) ps s) = fx_closeReported s"
  "fx_nextReqId (fold (\<lambda>(_, tok, _). settle tok out) ps s) = fx_nextReqId s"
  by (induction ps arbitrary: s) (simp_all add: case_prod_unfold)

lemma fold_settle_has:
  "jm_has (fx_settled (fold (\<lambda>(_, tok, _). settle tok out) ps s)) t
     \<longleftrightarrow> jm_has (fx_settled s) t \<or> t \<in> (\<lambda>x. fst (snd x)) ` set ps"
proof (induction ps arbitrary: s)
  case (Cons p ps)
  obtain r tok k where "p = (r, tok, k)" by (cases p)
  with Cons show ?case by (auto simp: settle_def jm_has_snoc)
qed simp

lemma reject_pending_fields [simp]:
  "fx_pending (reject_pending err s) = []" "fx_handshake (reject_pending err s) = fx_handshake s"
  "fx_waiting (reject_pending err s) = fx_waiting s" "fx_open (reject_pending err s) = fx_open s"
  "fx_disposed (reject_pending err s) = fx_disposed s" "fx_closeReported (reject_pending err s) = fx_closeReported s"
  by (simp_all add: reject_pending_def fold_settle_promises)

lemma leads_reject_pending [simp]: "leads s (reject_pending err s)"
  by (auto simp: leads_defs reject_pending_def fold_settle_promises fold_settle_has)

lemma fold_reject_fields:
  "fx_pending (fold (reject_deferred err) ds s) = fx_pending s"
  "fx_handshake (fold (reject_deferred err) ds s) = fx_handshake s"
  "fx_waiting (fold (reject_deferred err) ds s) = fx_waiting s"
  "fx_open (fold (reject_deferred err) ds s) = fx_open s"
  "fx_disposed (fold (reject_deferred err) ds s) = fx_disposed s"
  "fx_closeReported (fold (reject_deferred err) ds s) = fx_closeReported s"
  by (induction ds arbitrary: s) (simp_all add: reject_deferred_def split: deferred.split)

lemma handshakeReject_fields [simp]:
  "fx_pending (handshakeReject err s) = fx_pending s" "fx_open (handshakeReject err s) = fx_open s"
  "fx_disposed (handshakeReject err s) = fx_disposed s" "fx_closeReported (handshakeReject err s) = fx_closeReported s"
  "fx_handshake (handshakeReject err s) \<noteq> HsPending"
  by (simp_all add: handshakeReject_def fold_reject_fields)

text \<open>Settling the handshake one way or the other hands the waiters on.\<close>

lemma leads_settle_handshake:
  assumes "fx_handshake s = HsPending" "h \<noteq> HsPending"
    and step: "\<And>d s. leads s (f d s)"
    and tok: "\<And>d s tok. fx_inv s \<Longrightarrow> tok \<in> set (deferred_token d) \<Longrightarrow> accounted (f d s) tok"
  shows "leads s (fold f (fx_waiting s) (s\<lparr>fx_handshake := h, fx_waiting := []\<rparr>))"
proof -
  let ?s = "s\<lparr>fx_handshake := h, fx_waiting := []\<rparr>"
  have "leads ?s (fold f (fx_waiting s) ?s)" by (rule leads_fold) (rule step)
  moreover have "fx_inv s \<Longrightarrow> fx_inv ?s" "fx_idle_when_disposed s \<Longrightarrow> fx_idle_when_disposed ?s"
    "fx_idle_when_closed s \<Longrightarrow> fx_idle_when_closed ?s"
    using assms(2) by (auto simp: fx_inv_def fx_idle_when_disposed_def fx_idle_when_closed_def)
  moreover have "accounted (fold f (fx_waiting s) ?s) t" if "fx_inv s" "accounted s t" for t
    by (rule fold_accounts [OF step tok])
       (use that assms(2) in \<open>auto simp: accounted_def fx_inv_def\<close>)
  ultimately show ?thesis by (simp add: leads_def)
qed

lemma leads_handshakeReject [simp]: "leads s (handshakeReject err s)"
proof (cases "fx_handshake s = HsPending")
  case True
  from leads_settle_handshake [OF this, of "HsRejected err" "reject_deferred err"] True
  show ?thesis by (simp add: handshakeReject_def reject_deferred_accounts)
qed (simp add: handshakeReject_def)

section \<open>Closing and sending\<close>

lemma leads_close [simp]: "leads s (channel_close c s)"
proof (cases "fx_open s \<and> \<not> fx_disposed s \<and> \<not> fx_closeReported s")
  case False
  then consider "\<not> fx_open s" | "fx_open s" "fx_disposed s" | "fx_open s" "fx_closeReported s" by blast
  then show ?thesis
    by cases (auto simp: channel_close_def handleChannelClose_def leads_defs)
next
  case True
  define e where "e = plain_error ''ECANCELED''
    (''connection closed: '' @ close_code_name (ci_code (case fx_announcedClose s of Some r \<Rightarrow> r | None \<Rightarrow> c)))"
  let ?s = "s\<lparr>fx_open := False, fx_closeReported := True\<rparr>"
  define s1 where "s1 = reject_pending e (handshakeReject e ?s)"
  obtain r where eq: "channel_close c s = fx_note (ConnectionClosed r) s1"
    using True by (auto simp: channel_close_def handleChannelClose_def s1_def e_def Let_def)
  have "leads ?s s1"
    unfolding s1_def by (rule leads_trans [OF leads_handshakeReject leads_reject_pending])
  moreover have "fx_inv s \<Longrightarrow> fx_inv ?s" "fx_idle_when_disposed s \<Longrightarrow> fx_idle_when_disposed ?s"
    "accounted s tok \<Longrightarrow> accounted ?s tok" for tok
    by (auto simp: fx_inv_def fx_idle_when_disposed_def accounted_def)
  moreover have "fx_idle_when_closed s1" by (simp add: s1_def fx_idle_when_closed_def)
  ultimately have "leads s s1" by (simp add: leads_def)
  then show ?thesis unfolding eq by (rule leads_trans) simp
qed

lemma close_fields [simp]:
  "fx_open (channel_close c s) = False" "fx_disposed (channel_close c s) = fx_disposed s"
  "fx_disposed s \<Longrightarrow> fx_pending (channel_close c s) = fx_pending s"
  by (simp_all add: channel_close_def handleChannelClose_def Let_def fx_note_def)

lemma leads_count [simp]: "leads s (s\<lparr>fx_sends := n\<rparr>)"
  by (simp add: leads_defs)

lemma leads_send [simp]: "leads s (snd (channel_send net f s))"
proof -
  have "leads s (fx_note (Sent f) (s\<lparr>fx_sends := n\<rparr>))" for n
    by (rule leads_trans [OF leads_count leads_note])
  moreover have "leads s (channel_close c (s\<lparr>fx_sends := n\<rparr>))" for n c
    by (rule leads_trans [OF leads_count leads_close])
  ultimately show ?thesis by (simp add: channel_send_def Let_def split: send_outcome.split)
qed

lemma send_pending:
  "fx_pending (snd (channel_send net f s)) = fx_pending s \<or> fx_pending (snd (channel_send net f s)) = []"
  by (auto simp: channel_send_def channel_close_def handleChannelClose_def Let_def split: send_outcome.split)

lemma delete_new: "\<not> jm_has m k \<Longrightarrow> jm_delete k (jm_set k v m) = m"
  by (simp add: jm_set_fresh jm_has_iff AList.delete_eq filter_id_conv) force

lemma begin_request_leads:
  "leads s (begin_request net tok k r s) \<and> (fx_inv s \<longrightarrow> accounted (begin_request net tok k r s) tok)"
proof (cases "fx_disposed s")
  case live: False
  let ?n = "fx_nextReqId s"
  let ?s1 = "s\<lparr>fx_nextReqId := ?n + 1, fx_pending := jm_set ?n (tok, k) (fx_pending s)\<rparr>"
  define s2 where "s2 = snd (channel_send net (request_frame ?n r) ?s1)"
  define threw where "threw = fst (channel_send net (request_frame ?n r) ?s1)"
  define s3 where "s3 = settle tok SendFailed (s2\<lparr>fx_pending := jm_delete ?n (fx_pending s2)\<rparr>)"
  have eq: "begin_request net tok k r s = (if threw then s3 else s2)"
    using live by (simp add: begin_request_def threw_def s2_def s3_def Let_def case_prod_unfold)
  have "leads s (if threw then s3 else s2) \<and> accounted (if threw then s3 else s2) tok" if inv: "fx_inv s"
  proof -
    have fresh: "\<not> jm_has (fx_pending s) ?n" using inv by (auto simp: fx_inv_def jm_has_iff)
    then have p1: "fx_pending ?s1 = fx_pending s @ [(?n, tok, k)]" by (simp add: jm_set_fresh)
    have keys: "?n \<notin> fst ` set (fx_pending s)" using fresh by (simp add: jm_has_iff)
    show ?thesis
    proof (cases "fx_open s")
      case False
      then have "threw" "s2 = ?s1" by (simp_all add: threw_def s2_def channel_send_def)
      moreover have "s3 = settle tok SendFailed (s\<lparr>fx_nextReqId := ?n + 1\<rparr>)"
        using \<open>s2 = ?s1\<close> fresh by (simp add: s3_def delete_new)
      moreover have "leads s (s\<lparr>fx_nextReqId := ?n + 1\<rparr>)" by (auto simp: leads_defs)
      ultimately show ?thesis by (auto intro: leads_trans)
    next
      case True
      have "leads s ?s1" using True live keys by (auto simp: leads_defs p1 jm_wf_def)
      moreover have "leads ?s1 s2" by (simp add: s2_def)
      ultimately have l2: "leads s s2" by (rule leads_trans)
      have i1: "fx_inv ?s1" using \<open>leads s ?s1\<close> inv by (simp add: leads_def)
      have a1: "accounted ?s1 tok" by (simp add: accounted_def p1)
      from \<open>leads ?s1 s2\<close> i1 a1 have a2: "accounted s2 tok" and i2: "fx_inv s2" by (auto simp: leads_def)
      have p2: "fx_pending s2 = fx_pending s @ [(?n, tok, k)] \<or> fx_pending s2 = []"
        using send_pending [of net "request_frame ?n r" ?s1] p1 by (simp add: s2_def)
      have "fx_inv s3" using i2 by (auto simp: s3_def fx_inv_def)
      moreover have "fx_idle_when_closed s2 \<Longrightarrow> fx_idle_when_closed s3"
        "fx_idle_when_disposed s2 \<Longrightarrow> fx_idle_when_disposed s3"
        by (auto simp: s3_def fx_idle_when_closed_def fx_idle_when_disposed_def)
      moreover have "accounted s3 t" if "accounted s2 t" for t
      proof (cases "t = tok")
        case False
        have "t \<in> (\<lambda>x. fst (snd x)) ` set (jm_delete ?n (fx_pending s2))" if "(q, t, k') \<in> set (fx_pending s2)" for q k'
        proof -
          have "(q, t, k') \<in> set (fx_pending s)" using p2 that False by auto
          then have "q \<noteq> ?n" using keys by force
          with that have "(q, t, k') \<in> set (jm_delete ?n (fx_pending s2))" by (simp add: AList.delete_eq)
          then show ?thesis by force
        qed
        with that show ?thesis by (force simp: s3_def accounted_def settle_def jm_has_snoc)
      qed (simp add: s3_def)
      ultimately have "leads s2 s3" by (simp add: leads_def)
      moreover have "accounted s3 tok" by (simp add: s3_def)
      ultimately show ?thesis using l2 a2 by (auto intro: leads_trans)
    qed
  qed
  then show ?thesis unfolding eq by (auto simp: leads_def)
qed (simp add: begin_request_def)

lemma run_deferred_leads [simp]: "leads s (run_deferred net d s)"
  using begin_request_leads by (simp add: run_deferred_def split: deferred.split)

lemma run_deferred_accounts: "fx_inv s \<Longrightarrow> tok \<in> set (deferred_token d) \<Longrightarrow> accounted (run_deferred net d s) tok"
  using begin_request_leads by (cases d) (simp_all add: run_deferred_def)

lemma after_handshake_leads:
  "leads s (after_handshake net d s)
   \<and> (fx_inv s \<longrightarrow> (\<forall>tok \<in> set (deferred_token d). accounted (after_handshake net d s) tok))"
proof (cases "fx_handshake s")
  case HsPending
  then show ?thesis by (auto simp: after_handshake_def leads_defs)
next
  case HsResolved
  then show ?thesis using run_deferred_accounts by (auto simp: after_handshake_def)
next
  case (HsRejected err)
  then show ?thesis using reject_deferred_accounts by (auto simp: after_handshake_def)
qed

lemma sendAfterReady_leads [simp]: "leads s (sendAfterReady net f s)"
  using after_handshake_leads by (simp add: sendAfterReady_def)

lemma handshakeResolve_leads [simp]: "leads s (handshakeResolve net s)"
proof (cases "fx_handshake s = HsPending")
  case True
  from leads_settle_handshake [OF this, of HsResolved "run_deferred net"] True
  show ?thesis by (simp add: handshakeResolve_def run_deferred_accounts)
qed (simp add: handshakeResolve_def)

section \<open>Tasks\<close>

lemma leads_aux [simp]:
  "leads s (s\<lparr>fx_decorationProviders := ps\<rparr>)" "leads s (s\<lparr>fx_lastKnownEntryIds := is\<rparr>)"
  "leads s (s\<lparr>fx_announcedClose := c\<rparr>)"
  by (simp_all add: leads_defs)

lemma leads_publish:
  "(mirror_inv (fx_working s) \<Longrightarrow> mirror_inv m) \<Longrightarrow> leads s (publishSnapshot (s\<lparr>fx_working := m\<rparr>))"
  by (simp add: leads_defs publishSnapshot_def)

lemma leads_store_provider [simp]: "leads s (store_provider p s)"
  by (simp add: store_provider_def)

lemma leads_pushDecorations [simp]: "leads s (pushDecorationsForIds net is c p s)"
  by (auto simp: pushDecorationsForIds_def Let_def case_prod_unfold intro: leads_trans [OF leads_store_provider sendAfterReady_leads])

lemma leads_push_for [simp]: "leads s (push_for net is c pid s)"
  by (simp add: push_for_def split: option.split)

lemma leads_recompute [simp]: "leads s (recomputeDecorationsForNewIds net s)"
  by (auto simp: recomputeDecorationsForNewIds_def Let_def
      intro!: leads_trans [OF leads_aux(2) leads_fold] intro: leads_trans [OF leads_push_for leads_push_for])

lemma leads_register [simp]: "leads s (registerDecorationProvider net p s)"
  by (auto simp: registerDecorationProvider_def Let_def case_prod_unfold
      intro: leads_trans [OF sendAfterReady_leads leads_aux(1)])

lemma leads_provider_changed [simp]: "leads s (provider_changed net pid is s)"
  by (auto simp: provider_changed_def Let_def case_prod_unfold split: option.split
      intro: leads_trans [OF leads_store_provider sendAfterReady_leads])

lemma leads_disposeProvider [simp]: "leads s (disposeDecorationProvider net pid s)"
  by (auto simp: disposeDecorationProvider_def Let_def intro: leads_trans [OF sendAfterReady_leads leads_aux(1)])

lemma leads_snapshot [simp]: "leads s (handleSnapshot J net body s)"
proof (cases "applySnapshot J (fx_working s) body (fx_mirrorCap s)")
  case (Inr m)
  have "leads s (publishSnapshot (s\<lparr>fx_working := m\<rparr>))" by (rule leads_publish) (rule inv_applySnapshot [OF _ Inr])
  then show ?thesis
    unfolding handleSnapshot_def Let_def Inr sum.case
    by (rule leads_trans [OF leads_trans [OF _ leads_aux(2)] handshakeResolve_leads])
qed (simp add: handleSnapshot_def)

lemma leads_delta [simp]: "leads s (handleDelta J net body ack ackId s)"
proof (cases "applyDelta J (fx_working s) body (fx_mirrorCap s)")
  case (Inr m)
  have "leads s (publishSnapshot (s\<lparr>fx_working := m\<rparr>))" by (rule leads_publish) (rule inv_applyDelta [OF _ Inr])
  then have "leads s (recomputeDecorationsForNewIds net (publishSnapshot (s\<lparr>fx_working := m\<rparr>)))"
    by (rule leads_trans) simp
  then show ?thesis unfolding handleDelta_def Let_def Inr by (auto intro: leads_trans [OF _ leads_send])
qed (simp add: handleDelta_def)

text \<open>A reply takes its request out of the pending map and settles its promise.\<close>

lemma drop_pending:
  assumes "jm_get (fx_pending s) r = Some (tok, k)" "leads (s\<lparr>fx_pending := jm_delete r (fx_pending s)\<rparr>) t" "accounted t tok"
  shows "leads s t"
proof -
  let ?s = "s\<lparr>fx_pending := jm_delete r (fx_pending s)\<rparr>"
  have "fx_inv s \<Longrightarrow> fx_inv ?s" "fx_idle_when_closed s \<Longrightarrow> fx_idle_when_closed ?s"
    "fx_idle_when_disposed s \<Longrightarrow> fx_idle_when_disposed ?s"
    by (auto simp: fx_inv_def fx_idle_when_closed_def fx_idle_when_disposed_def)
  moreover have "accounted ?s u" if "fx_inv s" "accounted s u" "u \<noteq> tok" for u
  proof -
    have "u \<in> (\<lambda>x. fst (snd x)) ` set (jm_delete r (fx_pending s))" if "(q, u, k') \<in> set (fx_pending s)" for q k'
    proof -
      have "q \<noteq> r" using that assms(1) \<open>fx_inv s\<close> \<open>u \<noteq> tok\<close> by (auto simp: fx_inv_def jm_wf_get [symmetric])
      with that have "(q, u, k') \<in> set (jm_delete r (fx_pending s))" by (simp add: AList.delete_eq)
      then show ?thesis by force
    qed
    with that show ?thesis by (force simp: accounted_def)
  qed
  ultimately show ?thesis using assms(2,3) unfolding leads_def by blast
qed

lemma leads_complete: "leads s (complete_request tok k r s) \<and> accounted (complete_request tok k r s) tok"
proof -
  have "leads s (publishSnapshot (s\<lparr>fx_working := hydrateLookupEntries (fx_working s) es v cap\<rparr>))" for es v cap
    by (rule leads_publish) (rule inv_hydrate)
  then show ?thesis
    by (auto simp: complete_request_def Let_def split: prod.split option.split intro: leads_trans [OF _ leads_settle])
qed

lemma leads_result [simp]: "leads s (handleResult r v err s)"
  using leads_complete
  by (auto simp: handleResult_def Let_def split: option.split intro: drop_pending)

lemma leads_error [simp]: "leads s (handleError code message fatal c s)"
  by (auto simp: handleError_def Let_def
      intro: leads_trans [OF leads_aux(3) leads_close] leads_trans [OF leads_handshakeReject leads_reject_pending])

lemma leads_message [simp]: "leads s (handleMessage J net f s)"
proof (cases f)
  case (InDirectoryLoad body)
  then show ?thesis by (simp add: handleMessage_def leads_publish inv_applyDirectoryLoad)
qed (simp_all add: handleMessage_def split: option.split)

lemma inv_expand: "mirror_inv m \<Longrightarrow> mirror_inv (expand_mirror add remove m)"
proof -
  have step: "mirror_inv m \<Longrightarrow> mirror_inv (m\<lparr>expanded := e, pendingExpansions := p, directoryLoads := jm_delete i (directoryLoads m)\<rparr>)"
    if "distinct e" "distinct p" for m e p i
    using that by (auto simp: mirror_inv_def mirror_wf_def)
  have dist: "mirror_inv m \<Longrightarrow> distinct (expanded m) \<and> distinct (pendingExpansions m)" for m
    by (simp add: mirror_inv_def mirror_wf_def)
  have "mirror_inv m \<Longrightarrow> mirror_inv (fold (\<lambda>i s. s\<lparr>expanded := jset_add i (expanded s),
      pendingExpansions := jset_add i (pendingExpansions s), directoryLoads := jm_delete i (directoryLoads s)\<rparr>) is m)" for m "is"
    by (induction "is" arbitrary: m) (simp_all add: step dist)
  moreover have "mirror_inv m \<Longrightarrow> mirror_inv (fold (\<lambda>i s. s\<lparr>expanded := jset_del i (expanded s),
      pendingExpansions := jset_del i (pendingExpansions s), directoryLoads := jm_delete i (directoryLoads s)\<rparr>) is m)" for m "is"
    by (induction "is" arbitrary: m) (simp_all add: step dist distinct_removeAll)
  ultimately show "mirror_inv m \<Longrightarrow> ?thesis" by (simp add: expand_mirror_def)
qed

lemma leads_setExpanded [simp]: "leads s (setExpanded net add remove s)"
proof -
  have "leads s (publishSnapshot (s\<lparr>fx_working := expand_mirror add remove (fx_working s)\<rparr>))"
    by (rule leads_publish) (rule inv_expand)
  then show ?thesis
    by (auto simp: setExpanded_def Let_def intro: leads_trans [OF _ sendAfterReady_leads])
qed

lemma send_disposed [simp]: "fx_disposed (snd (channel_send net f s)) = fx_disposed s"
  by (simp add: channel_send_def Let_def split: send_outcome.split)

lemma leads_dispose [simp]: "leads s (dispose_explorer net s)"
proof (cases "fx_disposed s")
  case False
  let ?d = "s\<lparr>fx_disposed := True\<rparr>"
  let ?t = "dispose_explorer net s"
  have t: "?t = channel_close \<lparr>ci_code = LOCAL_CLOSE, ci_reason = None\<rparr>
     (reject_pending (plain_error ''ECANCELED'' ''explorer disposed'') (snd (channel_send net OutDispose ?d)))"
    using False by (simp add: dispose_explorer_def Let_def)
  have "leads ?d ?t" unfolding t by (rule leads_trans [OF leads_trans [OF leads_send leads_reject_pending] leads_close])
  moreover have "fx_inv s \<Longrightarrow> fx_inv ?d" "fx_idle_when_closed ?d" "accounted s tok \<Longrightarrow> accounted ?d tok" for tok
    by (simp_all add: fx_inv_def fx_idle_when_closed_def accounted_def)
  moreover have "fx_idle_when_disposed ?t" by (simp add: t fx_idle_when_disposed_def)
  ultimately show ?thesis by (simp add: leads_def)
qed (simp add: dispose_explorer_def)

fun issued :: "explorer_op \<Rightarrow> nat list" where
  "issued (Ready tok) = [tok]"
| "issued (Request tok k r) = [tok]"
| "issued _ = []"

lemma explorer_step_leads:
  "leads s (explorer_step J net op s)
   \<and> (fx_inv s \<longrightarrow> (\<forall>tok \<in> set (issued op). accounted (explorer_step J net op s) tok))"
  using after_handshake_leads [of s net]
  by (cases op) (force simp: explorer_step_def)+

lemma new_explorer_ok:
  "fx_inv (new_port_explorer net cap) \<and> fx_idle_when_closed (new_port_explorer net cap)
   \<and> fx_idle_when_disposed (new_port_explorer net cap)"
proof -
  let ?s = "\<lparr>fx_open = True, fx_sends = 0, fx_pending = [], fx_nextReqId = 1, fx_working = createMirror,
        fx_published = createMirror, fx_mirrorCap = cap, fx_handshake = HsPending, fx_waiting = [],
        fx_disposed = False, fx_closeReported = False, fx_announcedClose = None, fx_lastKnownEntryIds = [],
        fx_decorationProviders = [], fx_settled = [], fx_log = []\<rparr>"
  have "fx_inv ?s" "fx_idle_when_closed ?s" "fx_idle_when_disposed ?s"
    by (simp_all add: fx_inv_def fx_idle_when_closed_def fx_idle_when_disposed_def mirror_inv_create)
  then show ?thesis using leads_send [of ?s net OutHandshake] by (simp add: leads_def new_port_explorer_def)
qed

lemma explorer_session:
  "fx_inv s \<and> fx_idle_when_closed s \<and> fx_idle_when_disposed s \<and> (\<forall>tok \<in> T. accounted s tok) \<Longrightarrow>
   (let t = fold (explorer_step J net) ops s
    in fx_inv t \<and> fx_idle_when_closed t \<and> fx_idle_when_disposed t
       \<and> (\<forall>tok \<in> T \<union> set (concat (map issued ops)). accounted t tok))"
proof (induction ops arbitrary: s T)
  case (Cons op ops)
  let ?s = "explorer_step J net op s"
  have "fx_inv ?s \<and> fx_idle_when_closed ?s \<and> fx_idle_when_disposed ?s \<and> (\<forall>tok \<in> T \<union> set (issued op). accounted ?s tok)"
    using explorer_step_leads [of s J net op] Cons.prems by (auto simp: leads_def)
  from Cons.IH [OF this] show ?case by (simp add: Un_assoc)
qed simp

section \<open>Decoration slots at the host\<close>

text \<open>What a decorations frame does to the slots of its provider at the host.\<close>

definition host_slots :: "bool \<Rightarrow> wire_decoration list \<Rightarrow> (int, decoration) jmap \<Rightarrow> (int, decoration) jmap" where
  "host_slots replaceAll entries m =
     fold (\<lambda>(i, d). case d of Some x \<Rightarrow> jm_set i x | None \<Rightarrow> jm_delete i) entries (if replaceAll then [] else m)"

lemma decorate_ids_tracks:
  "set (dp_knownIds p) = fst ` set m \<Longrightarrow> decorate_ids c w is p = (entries, p') \<Longrightarrow>
   set (dp_knownIds p') = fst ` set (host_slots False entries m)"
proof (induction "is" arbitrary: p m entries p')
  case (Cons i "is")
  show ?case
  proof (cases "dp_provide p i (map_option clientEntryToEntry (jm_get (byId w) i))")
    case None
    show ?thesis
    proof (cases "i \<in> set (dp_knownIds p) \<or> c")
      case True
      obtain out q where o: "decorate_ids c w is (p\<lparr>dp_knownIds := jset_del i (dp_knownIds p)\<rparr>) = (out, q)" by fastforce
      have "set (dp_knownIds (p\<lparr>dp_knownIds := jset_del i (dp_knownIds p)\<rparr>)) = fst ` set (jm_delete i m)"
        using Cons.prems(1) by auto
      from Cons.IH [OF this o] Cons.prems(2) None True o show ?thesis by (auto simp: host_slots_def)
    next
      case False
      with Cons None show ?thesis by auto
    qed
  next
    case (Some d)
    obtain out q where o: "decorate_ids c w is (p\<lparr>dp_knownIds := jset_add i (dp_knownIds p)\<rparr>) = (out, q)" by fastforce
    have "set (dp_knownIds (p\<lparr>dp_knownIds := jset_add i (dp_knownIds p)\<rparr>)) = fst ` set (jm_set i (toWire d) m)"
      using Cons.prems(1) by auto
    from Cons.IH [OF this o] Cons.prems(2) Some o show ?thesis by (auto simp: host_slots_def)
  qed
qed (simp add: host_slots_def)

lemma compute_tracks:
  assumes "computeDecorationsForEveryKnownId p w = (entries, p')"
  shows "set (dp_knownIds p') = fst ` set (host_slots True entries m)"
proof -
  have "list_all (\<lambda>x. snd x \<noteq> None) entries"
    using assms by (auto simp: computeDecorationsForEveryKnownId_def Let_def list_all_iff split: option.splits)
  moreover have "list_all (\<lambda>x. snd x \<noteq> None) es \<Longrightarrow> fst ` set (host_slots False es k) = fst ` set k \<union> fst ` set es" for es k
  proof (induction es arbitrary: k)
    case (Cons e es)
    then obtain i x where "e = (i, Some x)" by (cases e) auto
    with Cons.IH [of "jm_set i x k"] Cons.prems show ?case by (simp add: host_slots_def)
  qed (simp add: host_slots_def)
  from this [of entries "[]"] have "list_all (\<lambda>x. snd x \<noteq> None) entries \<Longrightarrow> fst ` set (host_slots True entries m) = fst ` set entries"
    by (simp add: host_slots_def)
  moreover have "p' = p\<lparr>dp_knownIds := jset_of (map fst entries)\<rparr>"
    using assms by (auto simp only: computeDecorationsForEveryKnownId_def Let_def prod.inject)
  then have "set (dp_knownIds p') = fst ` set entries" by simp
  ultimately show ?thesis by simp
qed

text \<open>The letter of a decoration never crosses the wire.\<close>

lemma wire_without_letter:
  "\<forall>(i, d) \<in> set (fst (decorate_ids c w is p)). d = None \<or> dec_letter (the d) = None"
proof (induction "is" arbitrary: p)
  case (Cons i "is")
  then show ?case
    by (auto simp: Let_def toWire_def case_prod_unfold split: option.split if_splits)
qed simp

section \<open>A client disposed before its handshake\<close>

definition stranded :: "port_explorer \<Rightarrow> bool" where
  "stranded s \<longleftrightarrow> \<not> fx_open s \<and> fx_disposed s \<and> fx_handshake s = HsPending"

lemma stranded_wait:
  "stranded s \<Longrightarrow> stranded (after_handshake net d s) \<and> fx_settled (after_handshake net d s) = fx_settled s"
  by (simp add: stranded_def after_handshake_def)

lemma stranded_step:
  "stranded s \<Longrightarrow> stranded (explorer_step J net op s) \<and> fx_settled (explorer_step J net op s) = fx_settled s"
proof (cases op)
  case (SetExpanded add remove)
  assume s: "stranded s"
  then have "stranded (publishSnapshot (s\<lparr>fx_working := m\<rparr>)) \<and> fx_settled (publishSnapshot (s\<lparr>fx_working := m\<rparr>)) = fx_settled s" for m
    by (simp add: stranded_def publishSnapshot_def)
  with s SetExpanded show ?thesis
    by (simp add: explorer_step_def setExpanded_def sendAfterReady_def stranded_wait Let_def)
next
  case (RegisterProvider p)
  assume "stranded s"
  with RegisterProvider stranded_wait [of s net] show ?thesis
    by (simp add: explorer_step_def registerDecorationProvider_def sendAfterReady_def Let_def case_prod_unfold stranded_def)
next
  case (ProviderChanged pid "is")
  assume "stranded s"
  with ProviderChanged show ?thesis
    by (auto simp: explorer_step_def provider_changed_def pushDecorationsForIds_def stranded_def split: option.split)
next
  case (DisposeProvider pid)
  assume "stranded s"
  with DisposeProvider stranded_wait [of s net] show ?thesis
    by (simp add: explorer_step_def disposeDecorationProvider_def sendAfterReady_def Let_def stranded_def)
qed (auto simp: explorer_step_def stranded_wait sendAfterReady_def, auto simp: stranded_def dispose_explorer_def channel_close_def)

lemma stranded_session:
  "stranded s \<Longrightarrow> stranded (fold (explorer_step J net) ops s)
     \<and> fx_settled (fold (explorer_step J net) ops s) = fx_settled s"
  by (induction ops arbitrary: s) (simp_all add: stranded_step)

lemma send_disposing:
  assumes "fx_disposed s"
  shows "fx_handshake (snd (channel_send net f s)) = fx_handshake s \<and> fx_settled (snd (channel_send net f s)) = fx_settled s"
  using assms by (simp add: channel_send_def channel_close_def handleChannelClose_def Let_def split: send_outcome.split)

text \<open>A network that accepts everything, a client on it, and frames for the examples.\<close>

definition accepting :: "nat \<Rightarrow> send_outcome" where
  "accepting n = SendOk"

definition empty_snapshot :: inbound_snapshot where
  "empty_snapshot = \<lparr>sn_version = 1, sn_roots = [], sn_mirror = None, sn_entriesJson = None,
     sn_directChildCounts = [], sn_visibleCount = 0, sn_visibility = None\<rparr>"

lemma new_accepting:
  "fx_open (new_port_explorer accepting cap)" "fx_handshake (new_port_explorer accepting cap) = HsPending"
  "\<not> fx_disposed (new_port_explorer accepting cap)" "fx_settled (new_port_explorer accepting cap) = []"
  "fx_closeReported (new_port_explorer accepting cap) = False" "fx_pending (new_port_explorer accepting cap) = []"
  "fx_waiting (new_port_explorer accepting cap) = []" "fx_nextReqId (new_port_explorer accepting cap) = 1"
  by (simp_all add: new_port_explorer_def channel_send_def accepting_def fx_note_def)

section \<open>Properties\<close>

text \<open>
  C14: what the client publishes is its mirror, and the mirror is sound. After any sequence of API calls,
  frames (malformed ones included), provider changes and transport failures, the published snapshot
  is the current working mirror and that mirror is well formed.
\<close>

theorem client_publishes_sound_mirror:
  "let s = fold (explorer_step J net) ops (new_port_explorer net cap)
   in fx_published s = fx_working s \<and> mirror_wf (fx_working s)"
  using explorer_session [of "new_port_explorer net cap" "{}" J net ops] new_explorer_ok
  by (simp add: Let_def fx_inv_def mirror_inv_def)





text \<open>
  Disposing a client before its handshake strands every caller. The handshake promise is neither
  resolved nor rejected by \<open>dispose()\<close>, so from then on no promise settles any more, whatever happens:
  not those that were waiting and not those of later calls.
\<close>

theorem dispose_before_handshake_strands:
  assumes "\<not> fx_disposed s" "fx_handshake s = HsPending" "fx_pending s = []"
  shows "fx_settled (fold (explorer_step J net) ops (explorer_step J net DisposeExplorer s)) = fx_settled s"
proof -
  let ?d = "s\<lparr>fx_disposed := True\<rparr>"
  let ?s1 = "snd (channel_send net OutDispose ?d)"
  have s1: "fx_handshake ?s1 = HsPending" "fx_settled ?s1 = fx_settled s" "fx_disposed ?s1"
    using send_disposing [of ?d net OutDispose] assms(2) by simp_all
  have "fx_pending ?s1 = []" using send_pending [of net OutDispose ?d] assms(3) by auto
  with s1 have "stranded (dispose_explorer net s) \<and> fx_settled (dispose_explorer net s) = fx_settled s"
    using assms(1)
    by (simp add: dispose_explorer_def Let_def reject_pending_def channel_close_def handleChannelClose_def stranded_def)
  then show ?thesis using stranded_session by (simp add: explorer_step_def)
qed

theorem dispose_before_handshake_strands_witness:
  "\<not> jm_has (fx_settled (fold (explorer_step no_json accepting)
     [DisposeExplorer, Request 2 Plain (Call ''search'' []), Frame (InSnapshot empty_snapshot)]
     (explorer_step no_json accepting (Ready 1) (new_port_explorer accepting 10)))) 1"
proof -
  let ?s = "explorer_step no_json accepting (Ready 1) (new_port_explorer accepting 10)"
  have "\<not> fx_disposed ?s" "fx_handshake ?s = HsPending" "fx_pending ?s = []" "fx_settled ?s = []"
    by (simp_all add: explorer_step_def after_handshake_def new_accepting)
  with dispose_before_handshake_strands [of ?s no_json accepting
      "[Request 2 Plain (Call ''search'' []), Frame (InSnapshot empty_snapshot)]"] show ?thesis by simp
qed

text \<open>
  Fire-and-forget calls on a rejected handshake raise an unhandled rejection. Each such send derives
  a promise from the handshake's without a rejection handler; when the handshake was rejected, or is
  rejected while the send waits, that promise rejects with nobody to catch it.
\<close>

theorem late_sends_reject_unhandled:
  assumes "fx_handshake s = HsRejected err"
  shows "fx_log (explorer_step J net (SetViewport off limit over) s) = fx_log s @ [UnhandledRejection err]"
  using assms
  by (simp add: explorer_step_def sendAfterReady_def after_handshake_def reject_deferred_def fx_note_def)

theorem late_sends_reject_unhandled_witness:
  "fx_log (explorer_step no_json accepting (SetViewport 0 10 None)
     ((new_port_explorer accepting 10)\<lparr>fx_handshake := HsRejected (plain_error ''ECANCELED'' ''x'')\<rparr>))
   = fx_log (new_port_explorer accepting 10) @ [UnhandledRejection (plain_error ''ECANCELED'' ''x'')]"
  using late_sends_reject_unhandled [of "(new_port_explorer accepting 10)\<lparr>fx_handshake := HsRejected (plain_error ''ECANCELED'' ''x'')\<rparr>"]
  by simp

text \<open>
  The client knows which decorations the host holds. Whenever the provider's known ids are the slots
  the host has for it, they still are after the frame of an incremental push (changes, new and removed
  entries) and after a full push has been applied there.
\<close>

theorem decoration_pushes_track_host:
  assumes "set (dp_knownIds p) = fst ` set m"
  shows "(case decorate_ids c w is p of (entries, p') \<Rightarrow>
      set (dp_knownIds p') = fst ` set (host_slots False entries m))
    \<and> (case computeDecorationsForEveryKnownId p w of (entries, p') \<Rightarrow>
      set (dp_knownIds p') = fst ` set (host_slots True entries m))"
  using decorate_ids_tracks [OF assms] compute_tracks by (auto split: prod.split)

theorem decoration_pushes_track_host_witness:
  "case decorate_ids True createMirror [4] \<lparr>dp_id = ''p'', dp_provide = (\<lambda>i e. None), dp_knownIds = [4]\<rparr> of
     (entries, p') \<Rightarrow> set (dp_knownIds p') = fst ` set (host_slots False entries [(4, \<lparr>dec_letter = None, dec_badge = Some ''M'', dec_color = None, dec_tooltip = None, dec_propagate = None\<rparr>)])"
  using decoration_pushes_track_host [of "\<lparr>dp_id = ''p'', dp_provide = (\<lambda>i e. None), dp_knownIds = [4]\<rparr>" "[(4, \<lparr>dec_letter = None, dec_badge = Some ''M'', dec_color = None, dec_tooltip = None, dec_propagate = None\<rparr>)]" True createMirror "[4]"]
  by (simp split: prod.splits)

end
