(* ===== verification/Host.thy ===== *)
theory Host
  imports Protocol Session_Delta Session_Policy Decoration_Store
begin

text \<open>
  The host (\<open>packages/mille/src/host.ts\<close>): its sessions, the fan-out of changes as per-session deltas, and
  the frames that steer a session's view.

  The native explorer is a parameter. A snapshot of it is a record of the functions the host calls on
  one; the definitions take the snapshot they read, and the change set a tick drains, as arguments.
  \<open>net n\<close> says what the \<open>n\<close>-th write to a channel does. Session objects outlive their session: a detached
  one stays in \<open>ho_sessions\<close> with \<open>se_attached\<close> false, as closures of the code still hold it.
\<close>

section \<open>The native snapshot\<close>

record native_snapshot =
  ns_treeVersion :: int
  ns_roots :: "int list"
  ns_getById :: "int \<Rightarrow> client_entry option"
  ns_childrenOf :: "int \<Rightarrow> int list"
  ns_projectedChildrenOf :: "int \<Rightarrow> int list"
  ns_projectedChildCount :: "int \<Rightarrow> int option"
  ns_directoryChildrenLoaded :: "int \<Rightarrow> bool"
  ns_visibleRows :: "int jset \<Rightarrow> int \<Rightarrow> int \<Rightarrow> client_entry list"
  ns_showHiddenFiles :: bool
  ns_showIgnoredFiles :: bool
  ns_compactFolders :: bool

text \<open>A public entry and the mirror's record differ in how they write an absent field.\<close>

definition entryToClient :: "client_entry \<Rightarrow> client_entry" where
  "entryToClient e = \<lparr>ce_id = ce_id e, ce_parentId = ce_parentId e, ce_name = ce_name e, ce_kind = ce_kind e,
     ce_size = ce_size e, ce_mtimeMs = ce_mtimeMs e, ce_ctimeMs = ce_ctimeMs e,
     ce_symlinkTargetIsDir = ce_symlinkTargetIsDir e, ce_pathSegments = ce_pathSegments e,
     ce_isIgnored = ce_isIgnored e, ce_isReadonly = ce_isReadonly e, ce_isHidden = ce_isHidden e\<rparr>"

lemma entryToClient_id [simp]: "entryToClient e = e"
  by (simp add: entryToClient_def)

text \<open>Property order of an object built from these keys: array indices ascending, then the rest.\<close>

definition array_index :: "int \<Rightarrow> bool" where
  "array_index k \<longleftrightarrow> 0 \<le> k \<and> k < 2 ^ 32 - 1"

definition object_of :: "(int, 'v) jmap \<Rightarrow> (int, 'v) jmap" where
  "object_of m = sort_key fst (filter (\<lambda>kv. array_index (fst kv)) m) @ filter (\<lambda>kv. \<not> array_index (fst kv)) m"

text \<open>An integer in a template string.\<close>

fun decimal_nat :: "nat \<Rightarrow> string" where
  "decimal_nat n = (if n < 10 then [char_of (48 + n)] else decimal_nat (n div 10) @ [char_of (48 + n mod 10)])"

declare decimal_nat.simps [simp del]

definition decimal :: "int \<Rightarrow> string" where
  "decimal i = (if i < 0 then CHR ''-'' # decimal_nat (nat (- i)) else decimal_nat (nat i))"

section \<open>State\<close>

record session =
  se_attached :: bool
  se_context :: resolved_context
  se_expanded :: "int jset"
  se_viewport :: viewport
  se_viewportIds :: "int jset"
  se_prefetchRows :: int
  se_packedChildLists :: bool
  se_knownIds :: "int jset"
  se_handshook :: bool
  se_lastRootIds :: "int list"
  se_ackedVersion :: int
  se_ackedId :: "int option"
  se_ackCapable :: bool
  se_ownedOperationIds :: "string jset"
  se_resyncTimes :: "int list"

text \<open>A directory load; its generation is its identity.\<close>

record load_task =
  lt_rootId :: int
  lt_interestedSessions :: "nat jset"
  lt_compactFolders :: bool
  lt_operationId :: "string option"
  lt_cancelled :: bool

text \<open>What the host does to the outside: post a frame, close a channel, cancel a native read, drain the changes.\<close>

datatype host_event = Posted nat inbound_frame | ChannelEnded nat | NativeCancel string | NativeDrain

record host =
  ho_sessions :: "(nat, session) jmap"
  ho_nextSessionId :: nat
  ho_disposed :: bool
  ho_directoryLoads :: "(int, int) jmap"
  ho_tasks :: "(int, load_task) jmap"
  ho_nextGeneration :: int
  ho_watchReady :: bool
  ho_watchGapExpansions :: "int jset"
  ho_ticking :: bool
  ho_pendingCoarse :: "int jset"
  ho_pendingDirty :: "int jset"
  ho_pendingResynced :: "int jset"
  ho_pendingDecorations :: "int jset"
  ho_store :: decoration_store
  ho_ackIdForNextTick :: "int option"
  ho_nextAckId :: int
  ho_sends :: nat
  ho_log :: "host_event list"

definition ho_note :: "host_event \<Rightarrow> host \<Rightarrow> host" where
  "ho_note e h = h\<lparr>ho_log := ho_log h @ [e]\<rparr>"

definition attached :: "nat \<Rightarrow> host \<Rightarrow> bool" where
  "attached sid h = (case jm_get (ho_sessions h) sid of Some s \<Rightarrow> se_attached s | None \<Rightarrow> False)"

definition upd_session :: "nat \<Rightarrow> (session \<Rightarrow> session) \<Rightarrow> host \<Rightarrow> host" where
  "upd_session sid f h =
     (case jm_get (ho_sessions h) sid of
        None \<Rightarrow> h | Some s \<Rightarrow> h\<lparr>ho_sessions := jm_set sid (f s) (ho_sessions h)\<rparr>)"

text \<open>The sessions map, in the order of its iteration.\<close>

definition live :: "host \<Rightarrow> nat list" where
  "live h = map fst (filter (\<lambda>kv. se_attached (snd kv)) (ho_sessions h))"

definition new_session :: "resolved_context \<Rightarrow> session" where
  "new_session ctx = \<lparr>se_attached = True, se_context = ctx, se_expanded = [],
     se_viewport = \<lparr>vp_offset = 0, vp_limit = 0, vp_overscan = 0\<rparr>, se_viewportIds = [], se_prefetchRows = 100,
     se_packedChildLists = False, se_knownIds = [], se_handshook = False, se_lastRootIds = [],
     se_ackedVersion = -1, se_ackedId = Some 0, se_ackCapable = True, se_ownedOperationIds = [], se_resyncTimes = []\<rparr>"

definition attachChannel :: "session_context option \<Rightarrow> host \<Rightarrow> host" where
  "attachChannel context h =
     (if ho_disposed h then h
      else h\<lparr>ho_nextSessionId := ho_nextSessionId h + 1,
             ho_sessions := jm_set (ho_nextSessionId h) (new_session (resolveSessionContext context)) (ho_sessions h),
             ho_ticking := True\<rparr>)"

definition new_host :: host where
  "new_host = \<lparr>ho_sessions = [], ho_nextSessionId = 1, ho_disposed = False, ho_directoryLoads = [], ho_tasks = [],
     ho_nextGeneration = 1, ho_watchReady = False, ho_watchGapExpansions = [], ho_ticking = False,
     ho_pendingCoarse = [], ho_pendingDirty = [], ho_pendingResynced = [], ho_pendingDecorations = [],
     ho_store = empty_store, ho_ackIdForNextTick = None, ho_nextAckId = 1, ho_sends = 0, ho_log = []\<rparr>"

section \<open>Sending and detaching\<close>

definition upd_task :: "int \<Rightarrow> (load_task \<Rightarrow> load_task) \<Rightarrow> host \<Rightarrow> host" where
  "upd_task g f h =
     (case jm_get (ho_tasks h) g of None \<Rightarrow> h | Some t \<Rightarrow> h\<lparr>ho_tasks := jm_set g (f t) (ho_tasks h)\<rparr>)"

definition cancel_native :: "load_task \<Rightarrow> host \<Rightarrow> host" where
  "cancel_native t h = (case lt_operationId t of Some op \<Rightarrow> ho_note (NativeCancel op) h | None \<Rightarrow> h)"

text \<open>\<open>releaseDirectoryLoad\<close> after its notification: the session leaves, the last one cancels the task.\<close>

definition leave_load :: "nat \<Rightarrow> int \<Rightarrow> host \<Rightarrow> host" where
  "leave_load sid g h =
     (case jm_get (ho_tasks h) g of
        None \<Rightarrow> h
      | Some t \<Rightarrow>
        let left = jset_del sid (lt_interestedSessions t);
            h1 = upd_task g (\<lambda>t. t\<lparr>lt_interestedSessions := left\<rparr>) h
        in if left \<noteq> [] then h1
           else cancel_native t (upd_task g (\<lambda>t. t\<lparr>lt_cancelled := True\<rparr>) h1))"

definition drop_load :: "nat \<Rightarrow> int \<Rightarrow> host \<Rightarrow> host" where
  "drop_load sid i h = (case jm_get (ho_directoryLoads h) i of None \<Rightarrow> h | Some g \<Rightarrow> leave_load sid g h)"

definition detachSession :: "nat \<Rightarrow> host \<Rightarrow> host" where
  "detachSession sid h =
     (if \<not> attached sid h then h
      else let h1 = fold (drop_load sid) (se_expanded (the (jm_get (ho_sessions h) sid))) h;
               h2 = ho_note (ChannelEnded sid)
                      (upd_session sid (\<lambda>s. s\<lparr>se_attached := False, se_ownedOperationIds := [], se_resyncTimes := []\<rparr>) h1)
           in if live h2 = [] then h2\<lparr>ho_ticking := False\<rparr> else h2)"

text \<open>\<open>dispose\<close>, up to the native explorer's own disposal; the loads are dropped when their tasks have ended.\<close>

definition dispose_host :: "host \<Rightarrow> host" where
  "dispose_host h =
     (if ho_disposed h then h
      else (fold detachSession (live h) (h\<lparr>ho_disposed := True, ho_ticking := False\<rparr>))\<lparr>ho_directoryLoads := []\<rparr>)"

definition too_large :: "inbound_frame \<Rightarrow> inbound_frame option" where
  "too_large f =
     (case f of
        InResult reqId r err \<Rightarrow>
          Some (InResult reqId RNull (Some \<lparr>er_code = ''EFBIG'', er_message = ''result too large for this channel'', er_path = None\<rparr>))
      | _ \<Rightarrow> None)"

text \<open>
  \<open>send\<close>: a refused result is answered with an error for the same request (its message goes on with the
  channel's own reason); anything else that cannot be sent ends the session. A write to the channel of a detached session throws and changes nothing.
\<close>

definition host_send :: "(nat \<Rightarrow> send_outcome) \<Rightarrow> nat \<Rightarrow> inbound_frame \<Rightarrow> host \<Rightarrow> host" where
  "host_send net sid f h =
     (if \<not> attached sid h then h
      else let h1 = h\<lparr>ho_sends := ho_sends h + 1\<rparr>
           in case net (ho_sends h) of
                SendOk \<Rightarrow> ho_note (Posted sid f) h1
              | SendCloses c \<Rightarrow> detachSession sid h1
              | SendRefused \<Rightarrow>
                (case too_large f of
                   None \<Rightarrow> detachSession sid h1
                 | Some f' \<Rightarrow>
                   let h2 = h1\<lparr>ho_sends := ho_sends h1 + 1\<rparr>
                   in if net (ho_sends h1) = SendOk then ho_note (Posted sid f') h2 else detachSession sid h2))"

definition sendError :: "(nat \<Rightarrow> send_outcome) \<Rightarrow> nat \<Rightarrow> string \<Rightarrow> string \<Rightarrow> host \<Rightarrow> host" where
  "sendError net sid code message h = host_send net sid (InError code message False None) h"

definition sendDirectoryLoad ::
  "(nat \<Rightarrow> send_outcome) \<Rightarrow> nat \<Rightarrow> int \<Rightarrow> int \<Rightarrow> load_msg_state \<Rightarrow> (string \<times> string) option \<Rightarrow> host \<Rightarrow> host"
where
  "sendDirectoryLoad net sid i g st err h =
     host_send net sid (InDirectoryLoad \<lparr>il_id = i, il_generation = g, il_state = st, il_error = err\<rparr>) h"

definition releaseDirectoryLoad :: "(nat \<Rightarrow> send_outcome) \<Rightarrow> nat \<Rightarrow> int \<Rightarrow> host \<Rightarrow> host" where
  "releaseDirectoryLoad net sid i h =
     (case jm_get (ho_directoryLoads h) i of
        None \<Rightarrow> h
      | Some g \<Rightarrow>
        let h1 = upd_task g (\<lambda>t. t\<lparr>lt_interestedSessions := jset_del sid (lt_interestedSessions t)\<rparr>) h
        in leave_load sid g (sendDirectoryLoad net sid i g LoadCancelled None h1))"

section \<open>Subtree markers\<close>

definition markSubtreeCoarse :: "int \<Rightarrow> host \<Rightarrow> host" where
  "markSubtreeCoarse i h = h\<lparr>ho_pendingCoarse := jset_add i (ho_pendingCoarse h)\<rparr>"

definition markSubtreeDirty :: "int \<Rightarrow> host \<Rightarrow> host" where
  "markSubtreeDirty i h =
     h\<lparr>ho_pendingDirty := jset_add i (ho_pendingDirty h), ho_pendingResynced := jset_del i (ho_pendingResynced h)\<rparr>"

definition markSubtreeResynced :: "int \<Rightarrow> host \<Rightarrow> host" where
  "markSubtreeResynced i h =
     h\<lparr>ho_pendingResynced := jset_add i (ho_pendingResynced h), ho_pendingDirty := jset_del i (ho_pendingDirty h)\<rparr>"

section \<open>Viewport patches\<close>

record viewport_patch =
  pa_entries :: "client_entry list"
  pa_counts :: "(int, int) jmap"
  pa_viewportIds :: "int list"

definition viewport_rows :: "session \<Rightarrow> native_snapshot \<Rightarrow> client_entry list" where
  "viewport_rows s snap =
     (let v = se_viewport s; before = min (vp_offset v) (vp_overscan v)
      in ns_visibleRows snap (se_expanded s) (vp_offset v - before)
           (min 0xffffffff (vp_limit v + before + vp_overscan v)))"

definition row_count :: "native_snapshot \<Rightarrow> client_entry \<Rightarrow> (int, int) jmap \<Rightarrow> (int, int) jmap" where
  "row_count snap row counts =
     (case ns_projectedChildCount snap (ce_id row) of
        Some c \<Rightarrow> jm_set (ce_id row) c counts
      | None \<Rightarrow> if ce_kind row = 0 then jm_set (ce_id row) 0 counts else counts)"

definition collectViewportPatch :: "native_snapshot \<Rightarrow> session \<Rightarrow> viewport_patch \<times> session" where
  "collectViewportPatch snap s =
     (let rows = viewport_rows s snap;
          fresh = filter (\<lambda>row. \<not> (ce_id row \<in> set (se_viewportIds s) \<and> ce_pathSegments row = None)) rows
      in (\<lparr>pa_entries = map entryToClient fresh, pa_counts = fold (row_count snap) rows [],
           pa_viewportIds = map ce_id rows\<rparr>,
          s\<lparr>se_knownIds := fold (\<lambda>row. jset_add (ce_id row)) rows (se_knownIds s),
            se_viewportIds := jset_of (map ce_id rows)\<rparr>))"

end
