(* ===== verification/Host_Fanout.thy ===== *)
theory Host_Fanout
  imports Host
begin

text \<open>
  The fan-out of the host (\<open>packages/mille/src/host.ts\<close>): the tick that turns one native change set into a
  delta per session, the snapshot of a handshake, and the replies to viewport and expansion changes.
  \<open>D\<close> prints the decoration payload (\<open>JSON.stringify\<close>); a handler whose encoder throws stops there, with the
  changes it made so far.
\<close>

section \<open>One session's delta\<close>

record batch =
  ba_cs :: change_set
  ba_coarse :: "int list"
  ba_dirty :: "int list"
  ba_resynced :: "int list"
  ba_decorations :: "int list"
  ba_json :: "string option"
  ba_ackId :: "int option"

record scan =
  sc_entries :: "client_entry list"
  sc_counts :: "(int, int) jmap"
  sc_emitted :: "int jset"
  sc_removed :: "int list"
  sc_live :: "int list"
  sc_known :: "int jset"

definition add_count :: "native_snapshot \<Rightarrow> int \<Rightarrow> (int, int) jmap \<Rightarrow> (int, int) jmap" where
  "add_count snap i counts =
     (case ns_projectedChildCount snap i of Some c \<Rightarrow> jm_set i c counts | None \<Rightarrow> counts)"

definition emit_entry :: "native_snapshot \<Rightarrow> int \<Rightarrow> client_entry \<Rightarrow> scan \<Rightarrow> scan" where
  "emit_entry snap i e sc = sc\<lparr>sc_entries := sc_entries sc @ [entryToClient e],
     sc_emitted := jset_add i (sc_emitted sc), sc_counts := add_count snap i (sc_counts sc)\<rparr>"

definition scan_changed :: "native_snapshot \<Rightarrow> int \<Rightarrow> scan \<Rightarrow> scan" where
  "scan_changed snap i sc =
     (if i \<in> set (sc_emitted sc) then sc
      else case ns_getById snap i of
        None \<Rightarrow> sc\<lparr>sc_removed := sc_removed sc @ [i], sc_known := jset_del i (sc_known sc)\<rparr>
      | Some e \<Rightarrow> emit_entry snap i e (sc\<lparr>sc_live := sc_live sc @ [i]\<rparr>))"

definition scan_root :: "native_snapshot \<Rightarrow> int \<Rightarrow> scan \<Rightarrow> scan" where
  "scan_root snap i sc =
     (if i \<in> set (sc_emitted sc) then sc
      else case ns_getById snap i of None \<Rightarrow> sc | Some e \<Rightarrow> emit_entry snap i e sc)"

definition scan_row :: "client_entry \<Rightarrow> scan \<Rightarrow> scan" where
  "scan_row e sc =
     (if ce_id e \<in> set (sc_emitted sc) then sc
      else sc\<lparr>sc_entries := sc_entries sc @ [e], sc_emitted := jset_add (ce_id e) (sc_emitted sc)\<rparr>)"

definition sortedChildIds :: "native_snapshot \<Rightarrow> int \<Rightarrow> int list" where
  "sortedChildIds snap p = ns_projectedChildrenOf snap p"

definition is_directory :: "client_entry \<Rightarrow> bool" where
  "is_directory e \<longleftrightarrow> ce_kind e = 1 \<or> ce_symlinkTargetIsDir e = Some True"

text \<open>The parents whose child set the frame announces: those of the change set and the coarse ones, and every
  expanded sibling a nesting parent among their children may be.\<close>

definition announced_parents :: "native_snapshot \<Rightarrow> int jset \<Rightarrow> int list \<Rightarrow> int list \<Rightarrow> int jset" where
  "announced_parents snap expd changed coarse =
     (let base = fold jset_add coarse (jset_of changed)
      in fold (\<lambda>d. fold (\<lambda>sib acc. if sib \<in> set expd then jset_add sib acc else acc) (ns_childrenOf snap d)) base base)"

definition parent_count :: "native_snapshot \<Rightarrow> int jset \<Rightarrow> int \<Rightarrow> (int, int) jmap \<Rightarrow> (int, int) jmap" where
  "parent_count snap expd p counts =
     (case ns_projectedChildCount snap p of
        Some c \<Rightarrow> jm_set p c counts
      | None \<Rightarrow>
        if p \<in> set expd
        then (case ns_getById snap p of
                Some e \<Rightarrow> if \<not> is_directory e then jm_set p 0 counts else counts
              | None \<Rightarrow> counts)
        else counts)"

definition parent_list :: "native_snapshot \<Rightarrow> int jset \<Rightarrow> int \<Rightarrow> (int, int list) jmap \<Rightarrow> (int, int list) jmap" where
  "parent_list snap expd p ls = (if p \<in> set expd then jm_set p (sortedChildIds snap p) ls else ls)"

definition merge_map :: "('k, 'v) jmap \<Rightarrow> ('k, 'v) jmap \<Rightarrow> ('k, 'v) jmap" where
  "merge_map new old = fold (\<lambda>(k, v). jm_set k v) new old"

definition encode_entries :: "client_entry list \<Rightarrow> bytes option option" where
  "encode_entries es =
     (if es = [] then Some None else case encodeClientEntries es of Inr b \<Rightarrow> Some (Some b) | Inl e \<Rightarrow> None)"

text \<open>The two wire forms of the child lists; \<open>None\<close> when the encoder throws.\<close>

definition encode_lists ::
  "bool \<Rightarrow> (int, int list) jmap \<Rightarrow> ((int, int list) jmap option \<times> bytes option) option"
where
  "encode_lists packed ls =
     (if ls = [] then Some (None, None)
      else if packed then (case encodeChildLists ls of Inr b \<Rightarrow> Some (None, Some b) | Inl e \<Rightarrow> None)
      else Some (Some (object_of ls), None))"

definition snap_visibility :: "native_snapshot \<Rightarrow> visibility" where
  "snap_visibility snap = \<lparr>vis_hidden = ns_showHiddenFiles snap, vis_ignored = ns_showIgnoredFiles snap,
     vis_compact = Some (ns_compactFolders snap)\<rparr>"

text \<open>Everything a session's delta says besides its encoded payloads, and the session after it.\<close>

record delta_plan =
  dp_entries :: "client_entry list"
  dp_lists :: "(int, int list) jmap"
  dp_frame :: inbound_delta

definition changeSetEmpty :: "change_set \<Rightarrow> bool" where
  "changeSetEmpty cs \<longleftrightarrow> cs_changedIds cs = [] \<and> cs_childSetChanged cs = [] \<and> cs_subtreeRootsChanged cs = []
     \<and> cs_reparentedIds cs = [] \<and> cs_projectionChanged cs \<noteq> Some True"

definition plan_delta :: "native_snapshot \<Rightarrow> batch \<Rightarrow> session \<Rightarrow> delta_plan \<times> session" where
  "plan_delta snap b s =
     (let cs = ba_cs b;
          delta = computeSessionDelta cs \<lparr>sv_expanded = se_expanded s, sv_knownIds = se_knownIds s\<rparr>;
          rootIds = ns_roots snap;
          rootsChanged = rootIds \<noteq> se_lastRootIds s;
          known0 = (if rootsChanged then fold jset_add rootIds (se_knownIds s) else se_knownIds s);
          sc1 = fold (scan_changed snap) (sd_changedIds delta)
                  \<lparr>sc_entries = [], sc_counts = [], sc_emitted = [], sc_removed = [], sc_live = [], sc_known = known0\<rparr>;
          parents = announced_parents snap (se_expanded s) (sd_childSetChanged delta) (ba_coarse b);
          sc2 = sc1\<lparr>sc_counts := fold (parent_count snap (se_expanded s)) parents (sc_counts sc1)\<rparr>;
          ls = fold (parent_list snap (se_expanded s)) parents [];
          sc3 = (if rootsChanged then fold (scan_root snap) rootIds sc2 else sc2);
          refresh = (\<not> changeSetEmpty cs \<or> ba_coarse b \<noteq> [] \<or> ba_dirty b \<noteq> [] \<or> ba_resynced b \<noteq> [] \<or> rootsChanged);
          s1 = s\<lparr>se_knownIds := sc_known sc3, se_lastRootIds := (if rootsChanged then rootIds else se_lastRootIds s)\<rparr>;
          (patch, s2) = (if refresh then map_prod Some (\<lambda>t. t) (collectViewportPatch snap s1) else (None, s1));
          sc4 = (case patch of None \<Rightarrow> sc3 | Some p \<Rightarrow> fold scan_row (pa_entries p) sc3);
          counts = (case patch of None \<Rightarrow> sc_counts sc4 | Some p \<Rightarrow> merge_map (pa_counts p) (sc_counts sc4))
      in (\<lparr>dp_entries = sc_entries sc4, dp_lists = ls,
           dp_frame = \<lparr>de_version = sd_version delta, de_changedIds = sc_live sc4, de_addedRows = None,
             de_viewportPatch = None, de_entriesJson = None, de_childSetChanged = Some parents,
             de_removedIds = sc_removed sc4, de_directChildCounts = object_of counts, de_childLists = None,
             de_childListsBin = None, de_coarseSubtrees = ba_coarse b, de_subtreeDirty = ba_dirty b,
             de_subtreeResynced = ba_resynced b,
             de_visibility = (if cs_projectionChanged cs = Some True then Some (snap_visibility snap) else None),
             de_decorationChangedIds = (if ba_decorations b \<noteq> [] then Some (ba_decorations b) else None),
             de_decorationsJson = (if ba_decorations b \<noteq> [] then ba_json b else None),
             de_roots = (if rootsChanged then Some rootIds else None),
             de_viewportIds = map_option pa_viewportIds patch\<rparr>\<rparr>, s2))"

definition seal_delta :: "bool \<Rightarrow> delta_plan \<Rightarrow> inbound_delta option" where
  "seal_delta packed p =
     (case encode_entries (dp_entries p) of
        None \<Rightarrow> None
      | Some eb \<Rightarrow>
        (case encode_lists packed (dp_lists p) of
           None \<Rightarrow> None
         | Some (plain, bin) \<Rightarrow>
             Some ((dp_frame p)\<lparr>de_viewportPatch := eb, de_childLists := plain, de_childListsBin := bin\<rparr>)))"

section \<open>The tick\<close>

datatype tick_outcome = TickQuiet | TickPosted | TickThrew

definition toWireDecoration :: "decoration \<Rightarrow> decoration" where
  "toWireDecoration d = \<lparr>dec_letter = dec_letter d, dec_badge = dec_badge d, dec_color = dec_color d,
     dec_tooltip = dec_tooltip d, dec_propagate = dec_propagate d\<rparr>"

definition decoration_payload :: "decoration_store \<Rightarrow> int list \<Rightarrow> (int, decoration list) jmap" where
  "decoration_payload st ids = object_of (fold (\<lambda>i. jm_set i (map toWireDecoration (getMerged st i))) ids [])"

definition drain_batch ::
  "((int, decoration list) jmap \<Rightarrow> string) \<Rightarrow> change_set \<Rightarrow> host \<Rightarrow> batch \<times> host"
where
  "drain_batch D cs h =
     (\<lparr>ba_cs = cs, ba_coarse = ho_pendingCoarse h, ba_dirty = ho_pendingDirty h, ba_resynced = ho_pendingResynced h,
       ba_decorations = ho_pendingDecorations h,
       ba_json = (if ho_pendingDecorations h \<noteq> []
                  then Some (D (decoration_payload (ho_store h) (ho_pendingDecorations h))) else None),
       ba_ackId = ho_ackIdForNextTick h\<rparr>,
      ho_note NativeDrain
        (h\<lparr>ho_pendingCoarse := [], ho_pendingDirty := [], ho_pendingResynced := [], ho_pendingDecorations := []\<rparr>))"

definition tick_session ::
  "(nat \<Rightarrow> send_outcome) \<Rightarrow> native_snapshot \<Rightarrow> batch \<Rightarrow> nat \<Rightarrow> tick_outcome \<times> host \<Rightarrow> tick_outcome \<times> host"
where
  "tick_session net snap b sid oh =
     (let (out, h) = oh
      in if out = TickThrew \<or> \<not> attached sid h then oh
         else let s = the (jm_get (ho_sessions h) sid)
              in if \<not> se_handshook s then oh
                 else let (p, s') = plan_delta snap b s;
                          h1 = upd_session sid (\<lambda>_. s') h
                      in case seal_delta (se_packedChildLists s) p of
                           None \<Rightarrow> (TickThrew, h1)
                         | Some d \<Rightarrow> (TickPosted, host_send net sid (InDelta d (ba_ackId b \<noteq> None) (ba_ackId b)) h1))"

text \<open>Nothing to say: an empty change set, no marker, no decoration, and every session has these roots.\<close>

definition tick_idle :: "native_snapshot \<Rightarrow> batch \<Rightarrow> host \<Rightarrow> bool" where
  "tick_idle snap b h \<longleftrightarrow>
     changeSetEmpty (ba_cs b) \<and> ba_coarse b = [] \<and> ba_dirty b = [] \<and> ba_resynced b = [] \<and> ba_decorations b = []
     \<and> list_all (\<lambda>sid. let s = the (jm_get (ho_sessions h) sid)
                       in se_handshook s \<longrightarrow> ns_roots snap = se_lastRootIds s) (live h)"

definition tick ::
  "((int, decoration list) jmap \<Rightarrow> string) \<Rightarrow> (nat \<Rightarrow> send_outcome) \<Rightarrow> change_set \<Rightarrow> native_snapshot \<Rightarrow> host
    \<Rightarrow> tick_outcome \<times> host"
where
  "tick D net cs snap h =
     (if ho_disposed h \<or> live h = [] then (TickQuiet, h)
      else let (b, h1) = drain_batch D cs h
           in if tick_idle snap b h1 then (TickQuiet, h1)
              else fold (tick_session net snap b) (live h1) (TickQuiet, h1))"

section \<open>Handshake and viewport\<close>

definition clamp_warning :: "(nat \<Rightarrow> send_outcome) \<Rightarrow> nat \<Rightarrow> warning_detail \<Rightarrow> host \<Rightarrow> host" where
  "clamp_warning net sid detail h = host_send net sid (InWarning (Some ''VIEWPORT_CLAMPED'') (Some detail)) h"

definition requested_prefetch :: "js_float option \<Rightarrow> int" where
  "requested_prefetch requested =
     (case requested of Some (Finite q) \<Rightarrow> min 0xffffffff (max 0 (trunc q)) | _ \<Rightarrow> 100)"

definition root_entries :: "native_snapshot \<Rightarrow> client_entry list" where
  "root_entries snap = map entryToClient (List.map_filter (ns_getById snap) (ns_roots snap))"

definition handleHandshake ::
  "(nat \<Rightarrow> send_outcome) \<Rightarrow> native_snapshot \<Rightarrow> nat \<Rightarrow> js_float option \<Rightarrow> bool \<Rightarrow> host \<Rightarrow> host"
where
  "handleHandshake net snap sid prefetchRows packed h =
     (case jm_get (ho_sessions h) sid of
        None \<Rightarrow> h
      | Some s \<Rightarrow>
        let granted = grant_prefetch (se_context s) prefetchRows;
            es = root_entries snap;
            s' = s\<lparr>se_handshook := True, se_packedChildLists := packed, se_prefetchRows := granted,
                   se_knownIds := fold (\<lambda>e. jset_add (ce_id e)) es (se_knownIds s), se_lastRootIds := ns_roots snap\<rparr>;
            h1 = upd_session sid (\<lambda>_. s') h
        in case encode_entries es of
             None \<Rightarrow> h1
           | Some eb \<Rightarrow>
             let h2 = host_send net sid (InSnapshot \<lparr>sn_version = ns_treeVersion snap, sn_roots = ns_roots snap,
                   sn_mirror = eb, sn_entriesJson = None,
                   sn_directChildCounts = object_of (fold (\<lambda>e. add_count snap (ce_id e)) es []),
                   sn_visibleCount = int (length es), sn_visibility = Some (snap_visibility snap)\<rparr>) h1
             in if requested_prefetch prefetchRows \<noteq> granted
                then clamp_warning net sid
                       (WClampPrefetch (requested_prefetch prefetchRows) granted (viewportRowCap (se_context s))) h2
                else h2)"

text \<open>A delta that only carries a viewport patch.\<close>

definition patch_delta :: "int \<Rightarrow> viewport_patch \<Rightarrow> bytes option \<Rightarrow> inbound_delta" where
  "patch_delta version p eb = \<lparr>de_version = version, de_changedIds = [], de_addedRows = None, de_viewportPatch = eb,
     de_entriesJson = None, de_childSetChanged = Some [], de_removedIds = [],
     de_directChildCounts = object_of (pa_counts p), de_childLists = None, de_childListsBin = None,
     de_coarseSubtrees = [], de_subtreeDirty = [], de_subtreeResynced = [], de_visibility = None,
     de_decorationChangedIds = None, de_decorationsJson = None, de_roots = None,
     de_viewportIds = Some (pa_viewportIds p)\<rparr>"

definition handleSetViewport ::
  "(nat \<Rightarrow> send_outcome) \<Rightarrow> native_snapshot \<Rightarrow> nat \<Rightarrow> js_float \<Rightarrow> js_float \<Rightarrow> js_float option \<Rightarrow> host \<Rightarrow> host"
where
  "handleSetViewport net snap sid offset limit overscan h =
     (case jm_get (ho_sessions h) sid of
        None \<Rightarrow> h
      | Some s \<Rightarrow>
        let (granted, clamped) = grant_viewport (se_context s) offset limit overscan;
            requested = \<lparr>vp_offset = normalize_row offset, vp_limit = normalize_row limit,
                         vp_overscan = normalize_row (case overscan of Some v \<Rightarrow> v | None \<Rightarrow> Finite 0)\<rparr>;
            h1 = (if clamped
                  then clamp_warning net sid (WClampViewport requested granted (viewportRowCap (se_context s))) h else h);
            (p, s') = collectViewportPatch snap ((the (jm_get (ho_sessions h1) sid))\<lparr>se_viewport := granted\<rparr>);
            h2 = upd_session sid (\<lambda>_. s') h1
        in case encode_entries (pa_entries p) of
             None \<Rightarrow> h2
           | Some eb \<Rightarrow> host_send net sid (InDelta (patch_delta (ns_treeVersion snap) p eb) False None) h2)"

end
