(* ===== verification/Host_Loads.thy ===== *)
theory Host_Loads
  imports Host_Fanout
begin

text \<open>
  Expansion and directory loads of the host (\<open>packages/mille/src/host.ts\<close>): \<open>handleSetExpanded\<close>, the shared
  cancellable load of a folder whose children are not known, and the recovery after a resync.

  A load runs as a sequence of tasks: it scans down a compact chain until it has to read a directory, waits
  for the native read, goes on, and at the end flushes a tick and tells the interested sessions. Each
  function below is one such task. \<open>pre\<close> is the change set and snapshot of a tick nested in a handler.
\<close>

section \<open>Expanding\<close>

text \<open>A handler stops when an encoder throws; the flag says that it did.\<close>

definition unless_threw :: "(host \<Rightarrow> bool \<times> host) \<Rightarrow> bool \<times> host \<Rightarrow> bool \<times> host" where
  "unless_threw f th = (if fst th then th else f (snd th))"

definition expand_one :: "nat \<Rightarrow> int \<Rightarrow> host \<Rightarrow> host" where
  "expand_one sid i h =
     (let h1 = upd_session sid (\<lambda>s. s\<lparr>se_expanded := jset_add i (se_expanded s)\<rparr>) h
      in if \<not> ho_watchReady h1 then h1\<lparr>ho_watchGapExpansions := jset_add i (ho_watchGapExpansions h1)\<rparr> else h1)"

definition collapse_one :: "(nat \<Rightarrow> send_outcome) \<Rightarrow> nat \<Rightarrow> int \<Rightarrow> host \<Rightarrow> host" where
  "collapse_one net sid i h =
     releaseDirectoryLoad net sid i (upd_session sid (\<lambda>s. s\<lparr>se_expanded := jset_del i (se_expanded s)\<rparr>) h)"

definition default_viewport :: "nat \<Rightarrow> int list \<Rightarrow> host \<Rightarrow> host" where
  "default_viewport sid add h =
     upd_session sid (\<lambda>s. if vp_limit (se_viewport s) = 0 \<and> add \<noteq> []
       then s\<lparr>se_viewport := \<lparr>vp_offset = 0, vp_limit = se_prefetchRows s, vp_overscan = 0\<rparr>\<rparr> else s) h"

definition set_expanded_head :: "(nat \<Rightarrow> send_outcome) \<Rightarrow> nat \<Rightarrow> int list \<Rightarrow> int list \<Rightarrow> host \<Rightarrow> host" where
  "set_expanded_head net sid add remove h =
     default_viewport sid add (fold (collapse_one net sid) remove (fold (expand_one sid) add h))"

text \<open>
  The watcher is registered: the folders expanded so far, which the host then reads again one by one.
\<close>

definition watch_started :: "host \<Rightarrow> int jset \<times> host" where
  "watch_started h =
     (if ho_disposed h then ([], h)
      else (fold (\<lambda>sid. fold jset_add (se_expanded (the (jm_get (ho_sessions h) sid)))) (live h) (ho_watchGapExpansions h),
            h\<lparr>ho_watchReady := True, ho_watchGapExpansions := []\<rparr>))"

text \<open>The structure of each added folder the snapshot can tell, and the viewport patch.\<close>

definition expansion_lists :: "native_snapshot \<Rightarrow> int list \<Rightarrow> (int, int list) jmap" where
  "expansion_lists snap add =
     fold (\<lambda>i. if sortedChildIds snap i \<noteq> [] \<or> ns_projectedChildCount snap i = Some 0
               then jm_set i (sortedChildIds snap i) else (\<lambda>ls. ls)) add []"

definition expansion_ids :: "native_snapshot \<Rightarrow> int list \<Rightarrow> int list" where
  "expansion_ids snap add = filter (\<lambda>i. sortedChildIds snap i \<noteq> [] \<or> ns_projectedChildCount snap i = Some 0) add"

definition expansion_delta :: "native_snapshot \<Rightarrow> int \<Rightarrow> int list \<Rightarrow> viewport_patch \<Rightarrow> delta_plan" where
  "expansion_delta snap version add p =
     \<lparr>dp_entries = pa_entries p, dp_lists = expansion_lists snap add,
      dp_frame = (patch_delta version p None)\<lparr>de_childSetChanged := Some (expansion_ids snap add),
        de_directChildCounts := object_of (merge_map (pa_counts p) (fold (add_count snap) add []))\<rparr>\<rparr>"

definition expand_reply ::
  "(nat \<Rightarrow> send_outcome) \<Rightarrow> native_snapshot \<Rightarrow> int \<Rightarrow> nat \<Rightarrow> int list \<Rightarrow> host \<Rightarrow> bool \<times> host"
where
  "expand_reply net snap version sid add h =
     (case jm_get (ho_sessions h) sid of
        None \<Rightarrow> (False, h)
      | Some s \<Rightarrow>
        let (p, s') = collectViewportPatch snap s;
            h1 = upd_session sid (\<lambda>_. s') h
        in case seal_delta (se_packedChildLists s) (expansion_delta snap version add p) of
             None \<Rightarrow> (True, h1)
           | Some d \<Rightarrow> (False, host_send net sid (InDelta d False None) h1))"

text \<open>\<open>handleSetExpanded\<close> with \<open>skipLoad\<close>: no load starts and none completes.\<close>

definition republish ::
  "(nat \<Rightarrow> send_outcome) \<Rightarrow> native_snapshot \<Rightarrow> int \<Rightarrow> nat \<Rightarrow> int list \<Rightarrow> host \<Rightarrow> bool \<times> host"
where
  "republish net snap version sid add h = expand_reply net snap version sid add (set_expanded_head net sid add [] h)"

section \<open>Compact chains\<close>

text \<open>The one child that a compact chain goes on with.\<close>

definition only_directory_child :: "native_snapshot \<Rightarrow> int \<Rightarrow> int option" where
  "only_directory_child snap i =
     (case ns_projectedChildrenOf snap i of
        [c] \<Rightarrow> (case ns_getById snap c of
                 Some e \<Rightarrow> if is_directory e then Some (ce_id e) else None
               | None \<Rightarrow> None)
      | _ \<Rightarrow> None)"

fun chain_needs_load :: "nat \<Rightarrow> native_snapshot \<Rightarrow> int \<Rightarrow> int jset \<Rightarrow> bool" where
  "chain_needs_load 0 snap current seen = False"
| "chain_needs_load (Suc n) snap current seen =
     (if current \<in> set seen then False
      else if \<not> ns_directoryChildrenLoaded snap current then True
      else case only_directory_child snap current of
        None \<Rightarrow> False
      | Some c \<Rightarrow> chain_needs_load n snap c (jset_add current seen))"

definition compactChainNeedsLoad :: "native_snapshot \<Rightarrow> int \<Rightarrow> bool" where
  "compactChainNeedsLoad snap rootId = chain_needs_load 256 snap rootId []"

section \<open>Joining a load\<close>

definition join_peer :: "(nat \<Rightarrow> send_outcome) \<Rightarrow> int \<Rightarrow> int \<Rightarrow> nat \<Rightarrow> host \<Rightarrow> host" where
  "join_peer net i g sid h =
     (if attached sid h
         \<and> (case jm_get (ho_sessions h) sid of Some s \<Rightarrow> se_handshook s \<and> i \<in> set (se_expanded s) | None \<Rightarrow> False)
      then sendDirectoryLoad net sid i g LoadStarted None
             (upd_task g (\<lambda>t. t\<lparr>lt_interestedSessions := jset_add sid (lt_interestedSessions t)\<rparr>) h)
      else h)"

definition active_load :: "int \<Rightarrow> host \<Rightarrow> int option" where
  "active_load i h =
     (case jm_get (ho_directoryLoads h) i of
        None \<Rightarrow> None
      | Some g \<Rightarrow> (case jm_get (ho_tasks h) g of
                    Some t \<Rightarrow> if lt_cancelled t then None else Some g | None \<Rightarrow> None))"

definition joinDirectoryLoad :: "(nat \<Rightarrow> send_outcome) \<Rightarrow> nat \<Rightarrow> int \<Rightarrow> bool \<Rightarrow> host \<Rightarrow> host" where
  "joinDirectoryLoad net sid i chained h =
     (case active_load i h of
        Some g \<Rightarrow>
          sendDirectoryLoad net sid i g LoadStarted None
            (upd_task g (\<lambda>t. t\<lparr>lt_interestedSessions := jset_add sid (lt_interestedSessions t)\<rparr>) h)
      | None \<Rightarrow>
          let g = ho_nextGeneration h;
              h1 = h\<lparr>ho_nextGeneration := g + 1,
                     ho_tasks := jm_set g \<lparr>lt_rootId = i, lt_interestedSessions = [], lt_compactFolders = chained,
                                           lt_operationId = None, lt_cancelled = False\<rparr> (ho_tasks h),
                     ho_directoryLoads := jm_set i g (jm_delete i (ho_directoryLoads h))\<rparr>
          in fold (join_peer net i g) (live h1) h1)"

text \<open>One added id: refuse it, complete it at once, remember it as complete, or start its load.\<close>

definition load_one ::
  "(nat \<Rightarrow> send_outcome) \<Rightarrow> native_snapshot \<Rightarrow> nat \<Rightarrow> int \<Rightarrow> int list \<times> host \<Rightarrow> int list \<times> host"
where
  "load_one net snap sid i ch =
     (let (completed, h) = ch
      in case ns_getById snap i of
           None \<Rightarrow>
             (completed, sendDirectoryLoad net sid i 0 LoadFailed
                (Some (''EINVAL'', ''entry '' @ decimal i @ '' is not in the current snapshot'')) h)
         | Some e \<Rightarrow>
             if \<not> is_directory e then (completed, sendDirectoryLoad net sid i 0 LoadComplete None h)
             else if ns_directoryChildrenLoaded snap i
                     \<and> (\<not> ns_compactFolders snap \<or> \<not> compactChainNeedsLoad snap i)
             then (completed @ [i], h)
             else (completed, joinDirectoryLoad net sid i (ns_compactFolders snap) h))"

section \<open>Completing loads\<close>

text \<open>The task of an id, if any, is cancelled and forgotten.\<close>

definition supersede :: "int \<Rightarrow> host \<Rightarrow> host" where
  "supersede i h =
     (case jm_get (ho_directoryLoads h) i of
        None \<Rightarrow> h
      | Some g \<Rightarrow>
        let h1 = (upd_task g (\<lambda>t. t\<lparr>lt_cancelled := True\<rparr>) h)\<lparr>ho_directoryLoads := jm_delete i (ho_directoryLoads h)\<rparr>
        in (case jm_get (ho_tasks h) g of Some t \<Rightarrow> cancel_native t h1 | None \<Rightarrow> h1))"

definition complete_session ::
  "(nat \<Rightarrow> send_outcome) \<Rightarrow> native_snapshot \<Rightarrow> int \<Rightarrow> int list \<Rightarrow> nat option \<Rightarrow> int \<Rightarrow> nat \<Rightarrow> host \<Rightarrow> bool \<times> host"
where
  "complete_session net snap version ids refreshed g sid h =
     (if \<not> attached sid h then (False, h)
      else let s = the (jm_get (ho_sessions h) sid);
               completed = filter (\<lambda>i. i \<in> set (se_expanded s)) ids
           in if \<not> se_handshook s \<or> completed = [] then (False, h)
              else let (threw, h1) = (if refreshed = Some sid then (False, h) else republish net snap version sid completed h)
                   in if threw then (True, h1)
                      else (False, fold (\<lambda>i. sendDirectoryLoad net sid i g LoadComplete None) completed h1))"

definition completeDirectoryLoads ::
  "(nat \<Rightarrow> send_outcome) \<Rightarrow> native_snapshot \<Rightarrow> int \<Rightarrow> int list \<Rightarrow> nat option \<Rightarrow> host \<Rightarrow> bool \<times> host"
where
  "completeDirectoryLoads net snap version ids refreshed h =
     (if ids = [] then (False, h)
      else let h1 = fold supersede ids h;
               g = ho_nextGeneration h1;
               h2 = h1\<lparr>ho_nextGeneration := g + 1\<rparr>
           in fold (\<lambda>sid. unless_threw (complete_session net snap version ids refreshed g sid)) (live h2) (False, h2))"

definition handleSetExpanded ::
  "((int, decoration list) jmap \<Rightarrow> string) \<Rightarrow> (nat \<Rightarrow> send_outcome) \<Rightarrow> native_snapshot \<Rightarrow> change_set \<times> native_snapshot
    \<Rightarrow> int \<Rightarrow> nat \<Rightarrow> int list \<Rightarrow> int list \<Rightarrow> host \<Rightarrow> bool \<times> host"
where
  "handleSetExpanded D net snap pre version sid add remove h =
     (let h1 = set_expanded_head net sid add remove h;
          (completed, h2) = fold (load_one net snap sid) add ([], h1);
          (out, h3) = (if completed \<noteq> [] then tick D net (fst pre) (snd pre) h2 else (TickQuiet, h2))
      in if out = TickThrew then (True, h3)
         else unless_threw (completeDirectoryLoads net (snd pre) version completed (Some sid))
                (expand_reply net snap version sid add h3))"

section \<open>Running a load\<close>

text \<open>How far the loop of \<open>runDirectoryLoad\<close> gets before it has to read a directory.\<close>

datatype load_progress = ReadNeeded int nat | ChainDone | Abandoned

text \<open>\<open>load_scan n\<close>: the loop with \<open>n\<close> of its 256 rounds left, at the directory \<open>current\<close>.\<close>

fun load_scan :: "nat \<Rightarrow> native_snapshot \<Rightarrow> load_task \<Rightarrow> int \<Rightarrow> load_progress" where
  "load_scan 0 snap t current = ChainDone"
| "load_scan (Suc n) snap t current =
     (if lt_cancelled t \<or> lt_interestedSessions t = [] then Abandoned
      else if \<not> ns_directoryChildrenLoaded snap current then ReadNeeded current (Suc n)
      else if \<not> lt_compactFolders t then ChainDone
      else case only_directory_child snap current of
        None \<Rightarrow> ChainDone
      | Some c \<Rightarrow> load_scan n snap t c)"

text \<open>After the read of \<open>current\<close> in round \<open>n\<close>: the rest of that round and the rounds after it.\<close>

fun load_resume :: "nat \<Rightarrow> native_snapshot \<Rightarrow> load_task \<Rightarrow> int \<Rightarrow> load_progress" where
  "load_resume 0 snap t current = ChainDone"
| "load_resume (Suc n) snap t current =
     (if \<not> lt_compactFolders t then ChainDone
      else case only_directory_child snap current of
        None \<Rightarrow> ChainDone
      | Some c \<Rightarrow> load_scan n snap t c)"

definition current_load :: "int \<Rightarrow> load_task \<Rightarrow> host \<Rightarrow> bool" where
  "current_load g t h \<longleftrightarrow> jm_get (ho_directoryLoads h) (lt_rootId t) = Some g"

text \<open>The \<open>finally\<close> clause.\<close>

definition forget_load :: "int \<Rightarrow> load_task \<Rightarrow> host \<Rightarrow> host" where
  "forget_load g t h =
     (if current_load g t h then h\<lparr>ho_directoryLoads := jm_delete (lt_rootId t) (ho_directoryLoads h)\<rparr> else h)"

definition tell_complete ::
  "(nat \<Rightarrow> send_outcome) \<Rightarrow> native_snapshot \<Rightarrow> int \<Rightarrow> int \<Rightarrow> load_task \<Rightarrow> nat \<Rightarrow> host \<Rightarrow> bool \<times> host"
where
  "tell_complete net snap version g t sid h =
     (if \<not> attached sid h then (False, h)
      else let s = the (jm_get (ho_sessions h) sid)
           in if \<not> se_handshook s \<or> lt_rootId t \<notin> set (se_expanded s) then (False, h)
              else let (threw, h1) = (if lt_compactFolders t
                                      then republish net snap version sid [lt_rootId t] h else (False, h))
                   in if threw then (True, h1)
                      else (False, sendDirectoryLoad net sid (lt_rootId t) g LoadComplete None h1))"

text \<open>The end of a load whose chain is read, after its flush.\<close>

definition finish_load ::
  "(nat \<Rightarrow> send_outcome) \<Rightarrow> native_snapshot \<Rightarrow> int \<Rightarrow> int \<Rightarrow> host \<Rightarrow> bool \<times> host"
where
  "finish_load net snap version g h =
     (case jm_get (ho_tasks h) g of
        None \<Rightarrow> (False, h)
      | Some t \<Rightarrow>
        if \<not> current_load g t h \<or> lt_cancelled t then (False, forget_load g t h)
        else let (threw, h1) = fold (\<lambda>sid. unless_threw (tell_complete net snap version g t sid))
                                 (lt_interestedSessions t) (False, h)
             in if threw then (True, h1) else (False, forget_load g t h1))"

definition tell_failed ::
  "(nat \<Rightarrow> send_outcome) \<Rightarrow> int \<Rightarrow> load_task \<Rightarrow> bool \<Rightarrow> string \<times> string \<Rightarrow> nat \<Rightarrow> host \<Rightarrow> host"
where
  "tell_failed net g t cancelled err sid h =
     (if attached sid h \<and> se_handshook (the (jm_get (ho_sessions h) sid))
      then sendDirectoryLoad net sid (lt_rootId t) g (if cancelled then LoadCancelled else LoadFailed)
             (if cancelled then None else Some err) h
      else h)"

text \<open>The \<open>catch\<close> clause after its flush, then \<open>finally\<close>.\<close>

definition fail_load :: "(nat \<Rightarrow> send_outcome) \<Rightarrow> int \<Rightarrow> bool \<Rightarrow> string \<times> string \<Rightarrow> host \<Rightarrow> host" where
  "fail_load net g cancelled err h =
     (case jm_get (ho_tasks h) g of
        None \<Rightarrow> h
      | Some t \<Rightarrow>
        if \<not> current_load g t h then h
        else forget_load g t (fold (tell_failed net g t cancelled err) (lt_interestedSessions t) h))"

section \<open>After a resync\<close>

text \<open>
  The two walks up the tree. They follow parent links of the snapshot until they meet an id again, so on
  a snapshot with finitely many entries they end; \<open>None\<close> is a walk that does not.
\<close>

definition parent_of :: "native_snapshot \<Rightarrow> int \<Rightarrow> int option" where
  "parent_of snap i = Option.bind (ns_getById snap i) ce_parentId"

partial_function (option) covering_root ::
  "native_snapshot \<Rightarrow> int list \<Rightarrow> bool \<Rightarrow> int option \<Rightarrow> int jset \<Rightarrow> int option option"
where
  "covering_root snap rootIds recursive cursor seen =
     (case cursor of
        None \<Rightarrow> Some None
      | Some c \<Rightarrow>
        if c \<in> set rootIds \<or> \<not> recursive \<or> c \<in> set seen then Some (Some c)
        else covering_root snap rootIds recursive (parent_of snap c) (jset_add c seen))"

partial_function (option) collect_ancestors ::
  "native_snapshot \<Rightarrow> int option \<Rightarrow> int jset \<Rightarrow> int jset option"
where
  "collect_ancestors snap p acc =
     (case p of
        None \<Rightarrow> Some acc
      | Some i \<Rightarrow>
        if i \<in> set acc then Some acc
        else collect_ancestors snap (parent_of snap i) (jset_add i acc))"

text \<open>Whether an open directory was covered by the resync and is now fully listed.\<close>

definition recovered :: "native_snapshot \<Rightarrow> int list \<Rightarrow> bool \<Rightarrow> int jset \<Rightarrow> int \<Rightarrow> bool option" where
  "recovered snap rootIds recursive ancestors i =
     Option.bind (covering_root snap rootIds recursive (Some i) []) (\<lambda>cursor.
       let covered = (case cursor of None \<Rightarrow> False | Some c \<Rightarrow> c \<in> set rootIds)
       in Some ((i \<in> set ancestors \<or> covered)
                \<and> ns_directoryChildrenLoaded snap i
                \<and> \<not> (ns_compactFolders snap \<and> compactChainNeedsLoad snap i)))"

text \<open>Folds and filters whose step may not return.\<close>

fun fold_option :: "('a \<Rightarrow> 'b \<Rightarrow> 'b option) \<Rightarrow> 'a list \<Rightarrow> 'b \<Rightarrow> 'b option" where
  "fold_option f [] b = Some b"
| "fold_option f (x # xs) b = Option.bind (f x b) (fold_option f xs)"

definition open_directories :: "host \<Rightarrow> int jset" where
  "open_directories h =
     fold (\<lambda>sid. let s = the (jm_get (ho_sessions h) sid)
                 in if se_handshook s then fold jset_add (se_expanded s) else (\<lambda>acc. acc)) (live h) []"

definition recovered_ids :: "native_snapshot \<Rightarrow> int list \<Rightarrow> bool \<Rightarrow> host \<Rightarrow> int list option" where
  "recovered_ids snap rootIds recursive h =
     Option.bind
       (if ns_compactFolders snap
        then fold_option (\<lambda>r. collect_ancestors snap (parent_of snap r)) (jset_of rootIds) [] else Some [])
       (\<lambda>ancestors.
         fold_option (\<lambda>i acc. map_option (\<lambda>ok. if ok then acc @ [i] else acc)
                                (recovered snap (jset_of rootIds) recursive ancestors i))
           (open_directories h) [])"

definition completeDirectoryLoadsAfterResync ::
  "(nat \<Rightarrow> send_outcome) \<Rightarrow> native_snapshot \<Rightarrow> int \<Rightarrow> int list \<Rightarrow> bool \<Rightarrow> host \<Rightarrow> (bool \<times> host) option"
where
  "completeDirectoryLoadsAfterResync net snap version rootIds recursive h =
     map_option (\<lambda>ids. completeDirectoryLoads net snap version ids None h) (recovered_ids snap rootIds recursive h)"

section \<open>The tasks of a load\<close>

text \<open>
  What a load does next: nothing more, wait for the native read of a directory with the rounds left,
  or flush and finish. \<open>opname\<close> prints the operation id
  \<open>mille:directory:<generation>:<id>:<depth>\<close> of a read.
\<close>

datatype load_next = LoadOver | LoadReading int nat | LoadFlushing

definition load_advance :: "int \<Rightarrow> load_task \<Rightarrow> (int \<Rightarrow> int \<Rightarrow> nat \<Rightarrow> string) \<Rightarrow> load_progress \<Rightarrow> host \<Rightarrow> load_next \<times> host" where
  "load_advance g t opname pr h =
     (case pr of
        Abandoned \<Rightarrow> (LoadOver, forget_load g t h)
      | ReadNeeded current n \<Rightarrow>
          (LoadReading current n, upd_task g (\<lambda>t. t\<lparr>lt_operationId := Some (opname g current (256 - n))\<rparr>) h)
      | ChainDone \<Rightarrow> if current_load g t h \<and> \<not> lt_cancelled t then (LoadFlushing, h) else (LoadOver, forget_load g t h))"

definition start_load ::
  "(int \<Rightarrow> int \<Rightarrow> nat \<Rightarrow> string) \<Rightarrow> native_snapshot \<Rightarrow> int \<Rightarrow> host \<Rightarrow> load_next \<times> host"
where
  "start_load opname snap g h =
     (case jm_get (ho_tasks h) g of
        None \<Rightarrow> (LoadOver, h)
      | Some t \<Rightarrow> load_advance g t opname (load_scan 256 snap t (lt_rootId t)) h)"

definition read_done ::
  "(int \<Rightarrow> int \<Rightarrow> nat \<Rightarrow> string) \<Rightarrow> native_snapshot \<Rightarrow> int \<Rightarrow> int \<Rightarrow> nat \<Rightarrow> host \<Rightarrow> load_next \<times> host"
where
  "read_done opname snap g current n h =
     (let h1 = upd_task g (\<lambda>t. t\<lparr>lt_operationId := None\<rparr>) h
      in case jm_get (ho_tasks h1) g of
           None \<Rightarrow> (LoadOver, h1)
         | Some t \<Rightarrow> load_advance g t opname (load_resume n snap t current) h1)"

end
