(* ===== verification/Host_Client.thy ===== *)
theory Host_Client
  imports Host_Loads Mirror_Invariant
begin

text \<open>
  Host and client together: what a session's deltas leave in the client's mirror. The relation \<open>in_step\<close>
  says that every entry the mirror holds is one the host counts as known to the session and agrees with
  the native snapshot, apart from ids whose change has not been drained yet. The frames of the host keep
  it. Entries are compared without \<open>pathSegments\<close>, which viewport rows carry and plain records do not.
\<close>

section \<open>The relation\<close>

definition raw :: "client_entry \<Rightarrow> client_entry" where
  "raw e = e\<lparr>ce_pathSegments := None\<rparr>"

definition agrees :: "native_snapshot \<Rightarrow> client_entry \<Rightarrow> bool" where
  "agrees snap e \<longleftrightarrow> map_option raw (ns_getById snap (ce_id e)) = Some (raw e)"

definition in_step :: "int set \<Rightarrow> native_snapshot \<Rightarrow> session \<Rightarrow> mirror \<Rightarrow> bool" where
  "in_step pending snap s m \<longleftrightarrow>
     (\<forall>i e. jm_get (byId m) i = Some e \<longrightarrow> i \<in> set (se_knownIds s) \<and> ce_id e = i \<and> (i \<in> pending \<or> agrees snap e))"

text \<open>
  What the host relies on: an entry is found under its own id, rows of the visible tree are entries of the
  snapshot and no more than were asked for, records fit the wire format, children are named by ids (safe
  integers, not negative), and there are fewer than \<open>2 ^ 32\<close> entries and roots.
\<close>

definition snapshot_ok :: "native_snapshot \<Rightarrow> bool" where
  "snapshot_ok snap \<longleftrightarrow>
     (\<forall>i e. ns_getById snap i = Some e \<longrightarrow> ce_id e = i \<and> safe_entry e)
     \<and> (\<forall>expd off lim row. row \<in> set (ns_visibleRows snap expd off lim) \<longrightarrow> agrees snap row \<and> safe_entry row)
     \<and> (\<forall>expd off lim. int (length (ns_visibleRows snap expd off lim)) \<le> max 0 lim)
     \<and> (\<forall>p. length (ns_projectedChildrenOf snap p) < 2 ^ 32 \<and> list_all is_id (ns_projectedChildrenOf snap p))
     \<and> length (ns_roots snap) < 2 ^ 32
     \<and> finite {i. ns_getById snap i \<noteq> None} \<and> card {i. ns_getById snap i \<noteq> None} < 2 ^ 32"

text \<open>Ids whose entry differs between two snapshots.\<close>

definition changed_between :: "native_snapshot \<Rightarrow> native_snapshot \<Rightarrow> int set" where
  "changed_between old new =
     {i. map_option raw (ns_getById old i) \<noteq> map_option raw (ns_getById new i)}"

lemma raw_id [simp]: "ce_id (raw e) = ce_id e"
  by (simp add: raw_def)

lemma get_agrees: "snapshot_ok snap \<Longrightarrow> ns_getById snap i = Some e \<Longrightarrow> ce_id e = i \<and> agrees snap e \<and> safe_entry e"
  by (auto simp: snapshot_ok_def agrees_def)

section \<open>Reading the plan\<close>

text \<open>What every scan of a tick keeps; \<open>K\<close> is what the session knew before the removals.\<close>

definition scan_ok :: "native_snapshot \<Rightarrow> int set \<Rightarrow> scan \<Rightarrow> bool" where
  "scan_ok snap K sc \<longleftrightarrow>
     set (sc_known sc) = K - set (sc_removed sc)
     \<and> set (sc_emitted sc) = ce_id ` set (sc_entries sc)
     \<and> (\<forall>i \<in> set (sc_removed sc). ns_getById snap i = None)
     \<and> (\<forall>e \<in> set (sc_entries sc). ce_id e \<in> K \<and> agrees snap e \<and> safe_entry e)"

lemma scan_okD:
  assumes "scan_ok snap K sc"
  shows "set (sc_known sc) = K - set (sc_removed sc)" "set (sc_emitted sc) = ce_id ` set (sc_entries sc)"
    "\<forall>i \<in> set (sc_removed sc). ns_getById snap i = None"
    "\<forall>e \<in> set (sc_entries sc). ce_id e \<in> K \<and> agrees snap e \<and> safe_entry e"
  using assms by (simp_all add: scan_ok_def)

lemma scan_ok_changed:
  assumes "snapshot_ok snap" "i \<in> K" "scan_ok snap K sc"
  shows "scan_ok snap K (scan_changed snap i sc)
    \<and> (i \<in> set (sc_removed (scan_changed snap i sc)) \<or> i \<in> set (sc_emitted (scan_changed snap i sc)))
    \<and> set (sc_removed sc) \<subseteq> set (sc_removed (scan_changed snap i sc))
    \<and> set (sc_emitted sc) \<subseteq> set (sc_emitted (scan_changed snap i sc))"
  using assms get_agrees [OF assms(1)]
  by (auto simp: scan_ok_def scan_changed_def emit_entry_def split: option.split)

lemma scan_ok_changed_all:
  assumes "snapshot_ok snap" "set is \<subseteq> K" "scan_ok snap K sc"
  shows "scan_ok snap K (fold (scan_changed snap) is sc)
    \<and> set is \<subseteq> set (sc_removed (fold (scan_changed snap) is sc)) \<union> set (sc_emitted (fold (scan_changed snap) is sc))
    \<and> set (sc_removed sc) \<subseteq> set (sc_removed (fold (scan_changed snap) is sc))
    \<and> set (sc_emitted sc) \<subseteq> set (sc_emitted (fold (scan_changed snap) is sc))"
  using assms(2,3)
proof (induction "is" arbitrary: sc)
  case (Cons i "is")
  have *: "scan_ok snap K (scan_changed snap i sc)" using scan_ok_changed [OF assms(1)] Cons.prems by auto
  have "set is \<subseteq> K" using Cons.prems(1) by simp
  from Cons.IH [OF this *] scan_ok_changed [OF assms(1) _ Cons.prems(2), of i] Cons.prems(1) show ?case by auto
qed simp

lemma scan_ok_root:
  assumes "snapshot_ok snap" "i \<in> K" "scan_ok snap K sc"
  shows "scan_ok snap K (scan_root snap i sc)"
  using assms get_agrees [OF assms(1)] by (auto simp: scan_ok_def scan_root_def emit_entry_def split: option.split)

lemma scan_root_fields:
  "sc_known (scan_root snap i sc) = sc_known sc" "sc_removed (scan_root snap i sc) = sc_removed sc"
  "set (sc_emitted sc) \<subseteq> set (sc_emitted (scan_root snap i sc))"
  by (auto simp: scan_root_def emit_entry_def split: option.split)

lemma scan_ok_roots:
  assumes "snapshot_ok snap" "set is \<subseteq> K" "scan_ok snap K sc"
  shows "scan_ok snap K (fold (scan_root snap) is sc)
    \<and> sc_known (fold (scan_root snap) is sc) = sc_known sc
    \<and> sc_removed (fold (scan_root snap) is sc) = sc_removed sc
    \<and> set (sc_emitted sc) \<subseteq> set (sc_emitted (fold (scan_root snap) is sc))"
  using assms(2,3)
proof (induction "is" arbitrary: sc)
  case (Cons i "is")
  have "scan_ok snap K (scan_root snap i sc)" using scan_ok_root [OF assms(1)] Cons.prems by auto
  with Cons.IH [of "scan_root snap i sc"] Cons.prems(1) show ?case by (auto simp: scan_root_fields dest: scan_root_fields(3) [THEN subsetD])
qed simp

lemma scan_row_fields [simp]:
  "sc_known (scan_row e sc) = sc_known sc" "sc_removed (scan_row e sc) = sc_removed sc"
  "sc_live (scan_row e sc) = sc_live sc" "sc_counts (scan_row e sc) = sc_counts sc"
  by (simp_all add: scan_row_def)

lemma scan_rows_fields [simp]:
  "sc_known (fold scan_row es sc) = sc_known sc" "sc_removed (fold scan_row es sc) = sc_removed sc"
  by (induction es arbitrary: sc) simp_all

lemma scan_rows_entries:
  "set (sc_entries (fold scan_row es sc)) \<subseteq> set (sc_entries sc) \<union> set es
   \<and> set (sc_entries sc) \<subseteq> set (sc_entries (fold scan_row es sc))"
proof (induction es arbitrary: sc)
  case (Cons e es)
  from Cons [of "scan_row e sc"] show ?case by (auto simp: scan_row_def split: if_splits)
qed simp

section \<open>Viewport patches\<close>

lemma set_fold_known: "set (fold (\<lambda>row. jset_add (f row)) rows s) = f ` set rows \<union> set s"
  by (induction rows arbitrary: s) auto

lemma collect_patch:
  assumes "snapshot_ok snap" "collectViewportPatch snap s = (p, s')"
  shows "set (se_knownIds s') = set (se_knownIds s) \<union> ce_id ` set (viewport_rows s snap)"
    and "\<forall>e \<in> set (pa_entries p). e \<in> set (viewport_rows s snap) \<and> agrees snap e \<and> safe_entry e"
    and "length (pa_entries p) \<le> length (viewport_rows s snap)"
    and "pa_viewportIds p = map ce_id (viewport_rows s snap)"
proof -
  have rows: "row \<in> set (viewport_rows s snap) \<Longrightarrow> agrees snap row \<and> safe_entry row" for row
    using assms(1) unfolding snapshot_ok_def viewport_rows_def Let_def by blast
  show "set (se_knownIds s') = set (se_knownIds s) \<union> ce_id ` set (viewport_rows s snap)"
    using assms(2) by (auto simp: collectViewportPatch_def Let_def set_fold_known)
  show "\<forall>e \<in> set (pa_entries p). e \<in> set (viewport_rows s snap) \<and> agrees snap e \<and> safe_entry e"
    and "pa_viewportIds p = map ce_id (viewport_rows s snap)"
    using assms(2) rows by (auto simp: collectViewportPatch_def Let_def)
  show "length (pa_entries p) \<le> length (viewport_rows s snap)"
    using assms(2) length_filter_le [of "\<lambda>row. \<not> (ce_id row \<in> set (se_viewportIds s) \<and> ce_pathSegments row = None)"
        "viewport_rows s snap"]
    by (auto simp: collectViewportPatch_def Let_def)
qed

text \<open>A row is held by the snapshot, so no id is both a row and removed.\<close>

lemma row_present: "agrees snap e \<Longrightarrow> ns_getById snap (ce_id e) \<noteq> None"
  by (auto simp: agrees_def)

section \<open>The plan of a delta\<close>

lemma scan_ok_counts [simp]: "scan_ok snap K (sc\<lparr>sc_counts := c\<rparr>) = scan_ok snap K sc"
  by (simp add: scan_ok_def)

text \<open>The scans of one session's delta up to its viewport patch.\<close>

definition tick_scan :: "native_snapshot \<Rightarrow> batch \<Rightarrow> session \<Rightarrow> scan" where
  "tick_scan snap b s =
     (let delta = computeSessionDelta (ba_cs b) \<lparr>sv_expanded = se_expanded s, sv_knownIds = se_knownIds s\<rparr>;
          rootIds = ns_roots snap;
          rootsChanged = rootIds \<noteq> se_lastRootIds s;
          known0 = (if rootsChanged then fold jset_add rootIds (se_knownIds s) else se_knownIds s);
          sc1 = fold (scan_changed snap) (sd_changedIds delta)
                  \<lparr>sc_entries = [], sc_counts = [], sc_emitted = [], sc_removed = [], sc_live = [], sc_known = known0\<rparr>;
          parents = announced_parents snap (se_expanded s) (sd_childSetChanged delta) (ba_coarse b);
          sc2 = sc1\<lparr>sc_counts := fold (parent_count snap (se_expanded s)) parents (sc_counts sc1)\<rparr>
      in if rootsChanged then fold (scan_root snap) rootIds sc2 else sc2)"

lemma tick_scan_ok:
  assumes "snapshot_ok snap"
  shows "\<exists>K. set (se_knownIds s) \<subseteq> K \<and> scan_ok snap K (tick_scan snap b s)
    \<and> set (cs_changedIds (ba_cs b)) \<inter> set (se_knownIds s) \<subseteq>
        set (sc_removed (tick_scan snap b s)) \<union> set (sc_emitted (tick_scan snap b s))"
proof -
  define delta where "delta = computeSessionDelta (ba_cs b) \<lparr>sv_expanded = se_expanded s, sv_knownIds = se_knownIds s\<rparr>"
  define known0 where "known0 = (if ns_roots snap \<noteq> se_lastRootIds s then fold jset_add (ns_roots snap) (se_knownIds s) else se_knownIds s)"
  define sc1 where "sc1 = fold (scan_changed snap) (sd_changedIds delta)
    \<lparr>sc_entries = [], sc_counts = [], sc_emitted = [], sc_removed = [], sc_live = [], sc_known = known0\<rparr>"
  define sc2 where "sc2 = sc1\<lparr>sc_counts := fold (parent_count snap (se_expanded s))
      (announced_parents snap (se_expanded s) (sd_childSetChanged delta) (ba_coarse b)) (sc_counts sc1)\<rparr>"
  have eq: "tick_scan snap b s = (if ns_roots snap \<noteq> se_lastRootIds s then fold (scan_root snap) (ns_roots snap) sc2 else sc2)"
    by (simp add: tick_scan_def delta_def known0_def sc1_def sc2_def Let_def)
  have known: "set (se_knownIds s) \<subseteq> set known0" by (simp add: known0_def)
  have ids: "set (sd_changedIds delta) = set (cs_changedIds (ba_cs b)) \<inter> set (se_knownIds s)"
    by (auto simp: delta_def computeSessionDelta_def)
  have "set (sd_changedIds delta) \<subseteq> set known0" using known ids by auto
  moreover have "scan_ok snap (set known0)
      \<lparr>sc_entries = [], sc_counts = [], sc_emitted = [], sc_removed = [], sc_live = [], sc_known = known0\<rparr>"
    by (simp add: scan_ok_def)
  ultimately have sc1: "scan_ok snap (set known0) sc1"
      "set (sd_changedIds delta) \<subseteq> set (sc_removed sc1) \<union> set (sc_emitted sc1)"
    using scan_ok_changed_all [OF assms] unfolding sc1_def by blast+
  have sc2: "scan_ok snap (set known0) sc2" "sc_removed sc2 = sc_removed sc1" "sc_emitted sc2 = sc_emitted sc1"
    using sc1(1) by (simp_all add: sc2_def)
  show ?thesis
  proof (cases "ns_roots snap \<noteq> se_lastRootIds s")
    case True
    then have "set (ns_roots snap) \<subseteq> set known0" by (simp add: known0_def)
    from scan_ok_roots [OF assms this sc2(1)] sc1(2) sc2 known True show ?thesis
      unfolding eq ids by (intro exI [of _ "set known0"]) auto
  next
    case False
    with sc1(2) sc2 known show ?thesis unfolding eq ids by (intro exI [of _ "set known0"]) auto
  qed
qed

text \<open>Frames whose payload slots are still empty.\<close>

definition unsealed :: "inbound_delta \<Rightarrow> bool" where
  "unsealed d \<longleftrightarrow> de_addedRows d = None \<and> de_viewportPatch d = None \<and> de_entriesJson d = None
     \<and> de_childLists d = None \<and> de_childListsBin d = None"

text \<open>The plan in terms of its scan and of the viewport patch, if it has one.\<close>

lemma plan_delta_cases:
  assumes "plan_delta snap b s = (p, s')"
  obtains s1 where "se_knownIds s1 = sc_known (tick_scan snap b s)" "se_expanded s1 = se_expanded s"
      "se_viewport s1 = se_viewport s" "s' = s1" "dp_entries p = sc_entries (tick_scan snap b s)"
      "de_removedIds (dp_frame p) = sc_removed (tick_scan snap b s)" "unsealed (dp_frame p)"
      "se_attached s1 = se_attached s" "se_handshook s1 = se_handshook s"
    | s1 patch where "se_knownIds s1 = sc_known (tick_scan snap b s)" "se_expanded s1 = se_expanded s"
      "se_viewport s1 = se_viewport s" "collectViewportPatch snap s1 = (patch, s')"
      "dp_entries p = sc_entries (fold scan_row (pa_entries patch) (tick_scan snap b s))"
      "de_removedIds (dp_frame p) = sc_removed (tick_scan snap b s)" "unsealed (dp_frame p)"
      "se_attached s1 = se_attached s" "se_handshook s1 = se_handshook s"
proof -
  let ?sc = "tick_scan snap b s"
  define rc where "rc = (ns_roots snap \<noteq> se_lastRootIds s)"
  define s1 where "s1 = s\<lparr>se_knownIds := sc_known ?sc, se_lastRootIds := (if rc then ns_roots snap else se_lastRootIds s)\<rparr>"
  have s1: "se_knownIds s1 = sc_known ?sc" "se_expanded s1 = se_expanded s" "se_viewport s1 = se_viewport s"
    by (simp_all add: s1_def)
  have s1': "se_attached s1 = se_attached s" "se_handshook s1 = se_handshook s" by (simp_all add: s1_def)
  define refresh where "refresh = (\<not> changeSetEmpty (ba_cs b) \<or> ba_coarse b \<noteq> [] \<or> ba_dirty b \<noteq> [] \<or> ba_resynced b \<noteq> [] \<or> rc)"
  obtain patch s2 where c: "collectViewportPatch snap s1 = (patch, s2)" by fastforce
  show ?thesis
  proof (cases refresh)
    case True
    then have "s' = s2 \<and> dp_entries p = sc_entries (fold scan_row (pa_entries patch) ?sc)
        \<and> de_removedIds (dp_frame p) = sc_removed ?sc \<and> unsealed (dp_frame p)"
      using assms c
      unfolding plan_delta_def Let_def tick_scan_def s1_def rc_def refresh_def
      by (auto simp: unsealed_def split: prod.splits)
    with that(2) [OF s1] c s1' show ?thesis by blast
  next
    case False
    then have "s' = s1 \<and> dp_entries p = sc_entries ?sc \<and> de_removedIds (dp_frame p) = sc_removed ?sc
        \<and> unsealed (dp_frame p)"
      using assms
      unfolding plan_delta_def Let_def tick_scan_def s1_def rc_def refresh_def
      by (auto simp: unsealed_def)
    with that(1) [OF s1] s1' show ?thesis by blast
  qed
qed

lemma plan_facts:
  assumes "snapshot_ok snap" "plan_delta snap b s = (p, s')"
  shows "\<forall>e \<in> set (dp_entries p). ce_id e \<in> set (se_knownIds s') \<and> agrees snap e \<and> safe_entry e"
    and "set (cs_changedIds (ba_cs b)) \<inter> set (se_knownIds s) \<subseteq>
           set (de_removedIds (dp_frame p)) \<union> ce_id ` set (dp_entries p)"
    and "set (se_knownIds s) \<subseteq> set (se_knownIds s') \<union> set (de_removedIds (dp_frame p))"
    and "\<forall>i \<in> set (de_removedIds (dp_frame p)). ns_getById snap i = None"
proof -
  let ?sc = "tick_scan snap b s"
  obtain K where K: "set (se_knownIds s) \<subseteq> K" "scan_ok snap K ?sc"
      "set (cs_changedIds (ba_cs b)) \<inter> set (se_knownIds s) \<subseteq> set (sc_removed ?sc) \<union> set (sc_emitted ?sc)"
    using tick_scan_ok [OF assms(1)] by blast
  have sc: "set (sc_known ?sc) = K - set (sc_removed ?sc)" "set (sc_emitted ?sc) = ce_id ` set (sc_entries ?sc)"
      "\<forall>i \<in> set (sc_removed ?sc). ns_getById snap i = None"
      "\<forall>e \<in> set (sc_entries ?sc). ce_id e \<in> K \<and> agrees snap e \<and> safe_entry e"
    using K(2) by (rule scan_okD)+
  then have sc4: "\<forall>e \<in> set (sc_entries ?sc). ce_id e \<in> set (sc_known ?sc) \<and> agrees snap e \<and> safe_entry e"
    using row_present by (metis DiffI)
  from assms(2)
  have "(\<forall>e \<in> set (dp_entries p). ce_id e \<in> set (se_knownIds s') \<and> agrees snap e \<and> safe_entry e)
    \<and> set (sc_entries ?sc) \<subseteq> set (dp_entries p) \<and> set (sc_known ?sc) \<subseteq> set (se_knownIds s')
    \<and> de_removedIds (dp_frame p) = sc_removed ?sc"
  proof (cases rule: plan_delta_cases)
    case (1 s1)
    with sc4 show ?thesis by auto
  next
    case (2 s1 patch)
    note cp = collect_patch [OF assms(1) 2(4)]
    have "set (dp_entries p) \<subseteq> set (sc_entries ?sc) \<union> set (pa_entries patch)" "set (sc_entries ?sc) \<subseteq> set (dp_entries p)"
      using scan_rows_entries [of "pa_entries patch" ?sc] 2(5) by auto
    with cp(1,2) sc4 2(1,6) show ?thesis by auto
  qed
  with K sc show "\<forall>e \<in> set (dp_entries p). ce_id e \<in> set (se_knownIds s') \<and> agrees snap e \<and> safe_entry e"
    and "set (cs_changedIds (ba_cs b)) \<inter> set (se_knownIds s) \<subseteq>
           set (de_removedIds (dp_frame p)) \<union> ce_id ` set (dp_entries p)"
    and "set (se_knownIds s) \<subseteq> set (se_knownIds s') \<union> set (de_removedIds (dp_frame p))"
    and "\<forall>i \<in> set (de_removedIds (dp_frame p)). ns_getById snap i = None"
    by (auto; blast)+
qed

section \<open>Sizes\<close>

text \<open>No entry is emitted twice.\<close>

definition scan_distinct :: "scan \<Rightarrow> bool" where
  "scan_distinct sc \<longleftrightarrow> distinct (map ce_id (sc_entries sc)) \<and> set (sc_emitted sc) = ce_id ` set (sc_entries sc)"

lemma scan_distinct_steps:
  assumes "snapshot_ok snap" "scan_distinct sc"
  shows "scan_distinct (scan_changed snap i sc)" "scan_distinct (scan_root snap i sc)" "scan_distinct (scan_row e sc)"
    "scan_distinct (sc\<lparr>sc_counts := c\<rparr>)"
  using assms get_agrees [OF assms(1)]
  by (auto simp: scan_distinct_def scan_changed_def scan_root_def scan_row_def emit_entry_def split: option.split)

lemma scan_distinct_folds:
  assumes "snapshot_ok snap" "scan_distinct sc"
  shows "scan_distinct (fold (scan_changed snap) is sc)" "scan_distinct (fold (scan_root snap) is sc)"
    "scan_distinct (fold scan_row es sc)"
  using assms(2)
  by (induction "is" arbitrary: sc, simp_all add: scan_distinct_steps [OF assms(1)])
     (induction es arbitrary: sc, simp_all add: scan_distinct_steps [OF assms(1)])

lemma tick_scan_distinct: "snapshot_ok snap \<Longrightarrow> scan_distinct (tick_scan snap b s)"
  unfolding tick_scan_def Let_def
  by (auto intro!: scan_distinct_folds scan_distinct_steps(4)) (simp_all add: scan_distinct_def)

lemma plan_entries_length:
  assumes "snapshot_ok snap" "plan_delta snap b s = (p, s')"
  shows "length (dp_entries p) < 2 ^ 32"
proof -
  have "distinct (map ce_id (dp_entries p))"
    using assms(2) tick_scan_distinct [OF assms(1), of b s] scan_distinct_folds(3) [OF assms(1) tick_scan_distinct [OF assms(1)]]
    by (cases rule: plan_delta_cases) (simp_all add: scan_distinct_def)
  then have "length (dp_entries p) = card (ce_id ` set (dp_entries p))"
    by (metis distinct_card length_map set_map)
  also have "\<dots> \<le> card {i. ns_getById snap i \<noteq> None}"
    using assms(1) plan_facts(1) [OF assms] row_present by (intro card_mono) (auto simp: snapshot_ok_def)
  finally show ?thesis using assms(1) by (simp add: snapshot_ok_def)
qed

text \<open>Child lists are keyed by expanded parents, each once.\<close>

lemma jm_wf_parent_lists: "jm_wf ls \<Longrightarrow> jm_wf (fold (parent_list snap expd) ps ls)"
  by (induction ps arbitrary: ls) (simp_all add: parent_list_def)

lemma keys_parent_lists:
  "fst ` set (fold (parent_list snap expd) ps ls) \<subseteq> fst ` set ls \<union> set expd"
proof (induction ps arbitrary: ls)
  case (Cons q ps)
  from Cons [of "parent_list snap expd q ls"] show ?case by (auto simp: parent_list_def split: if_splits)
qed simp

lemma parent_list_lengths:
  assumes "\<And>q. length (ns_projectedChildrenOf snap q) < 2 ^ 32" "list_all (\<lambda>(q, ids). length ids < 2 ^ 32) ls"
  shows "list_all (\<lambda>(q, ids). length ids < 2 ^ 32) (fold (parent_list snap expd) ps ls)"
  using assms(2)
proof (induction ps arbitrary: ls)
  case (Cons q ps)
  have "list_all (\<lambda>(q, ids). length ids < 2 ^ 32) (parent_list snap expd q ls)"
    using Cons.prems assms(1) set_jm_set_subset [of q "sortedChildIds snap q" ls]
    by (auto simp: parent_list_def sortedChildIds_def list_all_iff)
  with Cons.IH show ?case by simp
qed simp

lemma map_length_le:
  assumes "jm_wf ls" "fst ` set ls \<subseteq> set xs"
  shows "length ls \<le> length xs"
proof -
  have "length ls = card (fst ` set ls)" using assms(1) by (metis distinct_card jm_wf_def length_map set_map)
  also have "\<dots> \<le> card (set xs)" using assms(2) by (simp add: card_mono)
  also have "\<dots> \<le> length xs" by (rule card_length)
  finally show ?thesis .
qed

lemma plan_lists:
  assumes "plan_delta snap b s = (p, s')"
  obtains ps where "dp_lists p = fold (parent_list snap (se_expanded s)) ps []"
  using assms unfolding plan_delta_def Let_def by (auto split: prod.splits)

section \<open>What arrives\<close>

text \<open>Sizes within the limits of the wire format.\<close>

definition plan_fits :: "delta_plan \<Rightarrow> bool" where
  "plan_fits p \<longleftrightarrow> length (dp_entries p) < 2 ^ 32 \<and> length (dp_lists p) < 2 ^ 32
     \<and> list_all (\<lambda>(q, ids). length ids < 2 ^ 32) (dp_lists p)"

lemma sealed_payloads:
  assumes "seal_delta packed p = Some d" "unsealed (dp_frame p)" "plan_fits p" "jm_wf (dp_lists p)"
    and "list_all safe_entry (dp_entries p)"
  shows "decodeDeltaEntryPayload J d = Inr (dp_entries p) \<and> (\<exists>ls. incoming_child_lists d = Inr ls)
    \<and> de_removedIds d = de_removedIds (dp_frame p)"
proof -
  from assms(1) obtain eb plain bin where e: "encode_entries (dp_entries p) = Some eb"
    and l: "encode_lists packed (dp_lists p) = Some (plain, bin)"
    and d: "d = (dp_frame p)\<lparr>de_viewportPatch := eb, de_childLists := plain, de_childListsBin := bin\<rparr>"
    by (auto simp: seal_delta_def split: option.splits)
  have "decodeDeltaEntryPayload J d = Inr (dp_entries p)"
  proof (cases "dp_entries p = []")
    case True
    with e assms(2) d show ?thesis
      by (simp add: encode_entries_def unsealed_def decodeDeltaEntryPayload_def decodeEntryPayload_def)
  next
    case False
    with e obtain bs where bs: "encodeClientEntries (dp_entries p) = Inr bs" "eb = Some bs"
      by (auto simp: encode_entries_def split: sum.splits)
    then have "bs = enc_vec enc_entry (dp_entries p)" by (simp add: encodeClientEntries_eq split: if_splits)
    with decodeClientEntries_enc [of "dp_entries p"] assms(3,5)
    have "decodeClientEntries bs = Inr (dp_entries p)" by (simp add: plan_fits_def)
    with bs(2) d assms(2) show ?thesis
      by (simp add: unsealed_def decodeDeltaEntryPayload_def decodeEntries_def lift_error_def)
  qed
  moreover have "\<exists>ls. incoming_child_lists d = Inr ls"
  proof (cases bin)
    case None
    with d show ?thesis by (simp add: incoming_child_lists_def)
  next
    case (Some bs)
    with l have bs: "encodeChildLists (dp_lists p) = Inr bs"
      by (auto simp: encode_lists_def split: if_splits sum.splits)
    then have "list_all (\<lambda>(q, ids). is_id q \<and> list_all is_id ids) (dp_lists p)"
      by (simp add: encodeChildLists_eq valid_lists_def split: if_splits)
    from decode_encode [OF assms(4) this] assms(3) bs have "decodeChildLists bs = Inr (dp_lists p)"
      by (auto simp: plan_fits_def)
    with Some d show ?thesis by (simp add: incoming_child_lists_def lift_error_def)
  qed
  ultimately show ?thesis using d by simp
qed

lemma find_rev_Some: "find P (rev xs) = Some x \<Longrightarrow> x \<in> set xs \<and> P x"
  by (metis find_Some_iff length_rev nth_mem set_rev)

lemma held_after_delta:
  assumes "applyDelta J m d cap = Inr m'" "decodeDeltaEntryPayload J d = Inr es" "jm_get (byId m') i = Some e"
  shows "i \<notin> set (de_removedIds d) \<and>
    (e \<in> set es \<and> ce_id e = i \<or> i \<notin> ce_id ` set es \<and> jm_get (byId m) i = Some e)"
proof -
  from assms(1,2) obtain ls where m': "m' = evictToCap (delta_merged J d es ls m) cap (activeSet (delta_merged J d es ls m))"
    by (auto elim!: applyDelta_eq)
  have "jm_get (byId (delta_merged J d es ls m)) i = Some e"
    using assms(3) unfolding m' evict_get by (simp split: if_splits)
  then show ?thesis
    by (auto simp: delta_merged_fields jm_get_fold_delete jm_get_store_all find_None_iff
        split: if_splits option.splits dest: find_rev_Some)
qed

text \<open>
  The heart of the matter: a delta that carries agreeing entries of known ids, and every changed id it does
  not remove, keeps the mirror in step.
\<close>

lemma delta_in_step:
  assumes "in_step pending old s m"
    and "applyDelta J m d cap = Inr m'" "decodeDeltaEntryPayload J d = Inr es"
    and "\<forall>e \<in> set es. ce_id e \<in> set (se_knownIds s') \<and> agrees snap e"
    and "set (se_knownIds s) \<subseteq> set (se_knownIds s') \<union> set (de_removedIds d)"
    and "(pending \<union> changed_between old snap) \<inter> set (se_knownIds s) \<subseteq>
           pending' \<union> set (de_removedIds d) \<union> ce_id ` set es"
  shows "in_step pending' snap s' m'"
  unfolding in_step_def
proof (intro allI impI)
  fix i e assume e: "jm_get (byId m') i = Some e"
  show "i \<in> set (se_knownIds s') \<and> ce_id e = i \<and> (i \<in> pending' \<or> agrees snap e)"
  proof (cases "e \<in> set es \<and> ce_id e = i")
    case True
    with assms(4) show ?thesis by auto
  next
    case False
    with held_after_delta [OF assms(2,3) e] have h: "jm_get (byId m) i = Some e" "i \<notin> set (de_removedIds d)" "i \<notin> ce_id ` set es"
      by auto
    with assms(1) have known: "i \<in> set (se_knownIds s)" "ce_id e = i" "i \<in> pending \<or> agrees old e"
      by (auto simp: in_step_def)
    then have "i \<in> pending' \<or> i \<notin> pending \<union> changed_between old snap" using assms(6) h(2,3) by blast
    moreover have "agrees snap e" if "i \<notin> pending \<union> changed_between old snap"
      using that known(2,3) by (simp add: agrees_def changed_between_def)
    ultimately have "i \<in> pending' \<or> agrees snap e" by blast
    with known assms(5) h(2) show ?thesis by auto
  qed
qed

lemma applyDelta_total:
  assumes "decodeDeltaEntryPayload J d = Inr es" "incoming_child_lists d = Inr ls"
  shows "\<exists>m'. applyDelta J m d cap = Inr m'"
  using assms by (simp add: applyDelta_def Let_def)

lemma plan_delta_fits:
  assumes "snapshot_ok snap" "plan_delta snap b s = (p, s')" "length (se_expanded s) < 2 ^ 32"
  shows "plan_fits p" "jm_wf (dp_lists p)"
proof -
  obtain ps where ls: "dp_lists p = fold (parent_list snap (se_expanded s)) ps []"
    using assms(2) by (rule plan_lists)
  show wf: "jm_wf (dp_lists p)" unfolding ls by (rule jm_wf_parent_lists) simp
  have "length (dp_lists p) \<le> length (se_expanded s)"
    using map_length_le [OF wf] keys_parent_lists [of snap "se_expanded s" ps "[]"] ls by auto
  moreover have "list_all (\<lambda>(q, ids). length ids < 2 ^ 32) (dp_lists p)"
    unfolding ls using assms(1) by (intro parent_list_lengths) (auto simp: snapshot_ok_def)
  ultimately show "plan_fits p"
    using plan_entries_length [OF assms(1,2)] assms(3) by (simp add: plan_fits_def)
qed

text \<open>Lists of ids keyed by ids are encoded, so nothing throws.\<close>

lemma parent_lists_valid:
  assumes "\<And>q. list_all is_id (ns_projectedChildrenOf snap q)" "list_all is_id expd" "valid_lists ls"
  shows "valid_lists (fold (parent_list snap expd) ps ls)"
  using assms(3)
proof (induction ps arbitrary: ls)
  case (Cons q ps)
  have "valid_lists (parent_list snap expd q ls)"
    using Cons.prems assms(1) [of q] assms(2) set_jm_set_subset [of q "sortedChildIds snap q" ls]
    by (auto simp: parent_list_def sortedChildIds_def valid_lists_def list_all_iff)
  with Cons.IH show ?case by simp
qed simp

lemma seal_total:
  assumes "list_all safe_entry (dp_entries p)" "length (dp_entries p) < 2 ^ 32" "valid_lists (dp_lists p)"
  shows "\<exists>d. seal_delta packed p = Some d"
proof -
  have "encodeClientEntries (dp_entries p) = Inr (enc_vec enc_entry (dp_entries p))"
    using assms(1,2) safe_entry_encodable by (auto simp: encodeClientEntries_eq safe_nat_def MAX_SAFE_def list_all_iff)
  then show ?thesis using assms(3) by (simp add: seal_delta_def encode_entries_def encode_lists_def encodeChildLists_eq)
qed

lemma plan_sealed:
  assumes "snapshot_ok snap" "plan_delta snap b s = (p, s')" "length (se_expanded s) < 2 ^ 32" "list_all is_id (se_expanded s)"
  shows "\<exists>d. seal_delta packed p = Some d"
proof (rule seal_total)
  show "list_all safe_entry (dp_entries p)" using plan_facts(1) [OF assms(1,2)] by (simp add: list_all_iff)
  show "length (dp_entries p) < 2 ^ 32" using plan_delta_fits(1) [OF assms(1-3)] by (simp add: plan_fits_def)
  obtain ps where "dp_lists p = fold (parent_list snap (se_expanded s)) ps []" using assms(2) by (rule plan_lists)
  moreover have "list_all is_id (ns_projectedChildrenOf snap q)" for q using assms(1) by (simp add: snapshot_ok_def)
  moreover have "valid_lists []" by (simp add: valid_lists_def)
  ultimately show "valid_lists (dp_lists p)" using assms(4) parent_lists_valid by metis
qed

lemma plan_delta_frame:
  assumes "plan_delta snap b s = (p, s')"
  shows "unsealed (dp_frame p)" "se_attached s' = se_attached s" "se_handshook s' = se_handshook s"
    "se_expanded s' = se_expanded s"
  using assms by (cases rule: plan_delta_cases; auto simp: collectViewportPatch_def Let_def)+

text \<open>One session through one tick.\<close>

lemma tick_in_step:
  assumes "snapshot_ok snap" "plan_delta snap b s = (p, s')" "seal_delta packed p = Some d"
    and "in_step pending old s m" "length (se_expanded s) < 2 ^ 32"
    and "pending \<subseteq> set (cs_changedIds (ba_cs b))"
  shows "\<exists>m'. applyDelta J m d cap = Inr m' \<and> in_step (changed_between old snap) snap s' m'"
proof -
  note facts = plan_facts [OF assms(1,2)]
  have "list_all safe_entry (dp_entries p)" using facts(1) by (simp add: list_all_iff)
  from sealed_payloads [OF assms(3) plan_delta_frame(1) [OF assms(2)] plan_delta_fits [OF assms(1,2,5)] this, of J]
  obtain ls where d: "decodeDeltaEntryPayload J d = Inr (dp_entries p)" "incoming_child_lists d = Inr ls"
      "de_removedIds d = de_removedIds (dp_frame p)"
    by auto
  then obtain m' where m': "applyDelta J m d cap = Inr m'" using applyDelta_total by blast
  have "in_step (changed_between old snap) snap s' m'"
  proof (rule delta_in_step [OF assms(4) m' d(1)])
    show "\<forall>e\<in>set (dp_entries p). ce_id e \<in> set (se_knownIds s') \<and> agrees snap e" using facts(1) by blast
    show "set (se_knownIds s) \<subseteq> set (se_knownIds s') \<union> set (de_removedIds d)" using facts(3) d(3) by simp
    show "(pending \<union> changed_between old snap) \<inter> set (se_knownIds s) \<subseteq>
        changed_between old snap \<union> set (de_removedIds d) \<union> ce_id ` set (dp_entries p)"
      using facts(2) assms(6) d(3) by auto
  qed
  with m' show ?thesis by blast
qed

text \<open>A patch changes nothing but adds agreeing rows.\<close>

lemma rows_bounded:
  assumes "snapshot_ok snap"
  shows "length (viewport_rows s snap) < 2 ^ 32"
proof -
  have le: "int (length (ns_visibleRows snap expd off (min 0xffffffff l))) \<le> 0xffffffff" for expd off l
  proof -
    have "int (length (ns_visibleRows snap expd off (min 0xffffffff l))) \<le> max 0 (min 0xffffffff l)"
      using assms by (simp add: snapshot_ok_def)
    then show ?thesis by linarith
  qed
  have "int (length (viewport_rows s snap)) \<le> 0xffffffff"
    unfolding viewport_rows_def Let_def by (rule le)
  then show ?thesis by simp
qed

lemma patch_in_step:
  assumes "snapshot_ok snap" "collectViewportPatch snap s = (p, s')"
    and "dp_entries q = pa_entries p" "unsealed (dp_frame q)" "de_removedIds (dp_frame q) = []"
    and "seal_delta packed q = Some d" "jm_wf (dp_lists q)" "length (dp_lists q) < 2 ^ 32"
    and "list_all (\<lambda>(k, ids). length ids < 2 ^ 32) (dp_lists q)"
    and "in_step pending snap s m"
  shows "\<exists>m'. applyDelta J m d cap = Inr m' \<and> in_step pending snap s' m'"
proof -
  note cp = collect_patch [OF assms(1,2)]
  have "plan_fits q" using cp(3) rows_bounded [OF assms(1), of s] assms(3,8,9) by (simp add: plan_fits_def)
  moreover have "list_all safe_entry (dp_entries q)" using cp(2) assms(3) by (simp add: list_all_iff)
  ultimately obtain ls where d: "decodeDeltaEntryPayload J d = Inr (dp_entries q)" "incoming_child_lists d = Inr ls"
      "de_removedIds d = []"
    using sealed_payloads [OF assms(6,4) _ assms(7)] assms(5) by metis
  then obtain m' where m': "applyDelta J m d cap = Inr m'" using applyDelta_total by blast
  have "in_step pending snap s' m'"
  proof (rule delta_in_step [OF assms(10) m' d(1)])
    show "\<forall>e\<in>set (dp_entries q). ce_id e \<in> set (se_knownIds s') \<and> agrees snap e" using cp(1,2) assms(3) by auto
    show "set (se_knownIds s) \<subseteq> set (se_knownIds s') \<union> set (de_removedIds d)" using cp(1) by auto
    show "(pending \<union> changed_between snap snap) \<inter> set (se_knownIds s) \<subseteq> pending \<union> set (de_removedIds d) \<union> ce_id ` set (dp_entries q)"
      by (auto simp: changed_between_def)
  qed
  with m' show ?thesis by blast
qed

end
