(* ===== verification/Host_Requests.thy ===== *)
theory Host_Requests
  imports Host_Loads
begin

text \<open>
  Requests to the host (\<open>packages/mille/src/host.ts\<close>): the symlink boundary of restricted sessions, decoration
  pushes, acknowledgements, the serialized mutation queue with its synchronization points, and calls.
  Native operations are asynchronous: a request is checked and handed to the native side in one task, and
  its result arrives in a later one.
\<close>

section \<open>The symlink boundary\<close>

definition ENTRY_KIND_SYMLINK :: int where "ENTRY_KIND_SYMLINK = 2"

fun crosses_from :: "nat \<Rightarrow> native_snapshot \<Rightarrow> int option \<Rightarrow> bool" where
  "crosses_from 0 snap cursor = False"
| "crosses_from (Suc guard) snap cursor =
     (case cursor of
        None \<Rightarrow> False
      | Some c \<Rightarrow>
        (case ns_getById snap c of
           None \<Rightarrow> False
         | Some e \<Rightarrow> if ce_kind e = ENTRY_KIND_SYMLINK then True else crosses_from guard snap (ce_parentId e)))"

definition crossesSymlink :: "native_snapshot \<Rightarrow> int \<Rightarrow> bool" where
  "crossesSymlink snap i = crosses_from 1024 snap (parent_of snap i)"

text \<open>The arguments of a mutation the host itself reads.\<close>

record mutation_args =
  ma_id :: "int option"
  ma_parentId :: "int option"
  ma_newParentId :: "int option"
  ma_operationId :: "string option"
  ma_sourcePath :: "string option"
  ma_dataLength :: int

definition restricted :: "session \<Rightarrow> bool" where
  "restricted s \<longleftrightarrow> sp_access (rc_policy (se_context s)) \<noteq> Admin"

definition assertWithinBoundary :: "native_snapshot \<Rightarrow> session \<Rightarrow> mutation_args \<Rightarrow> fs_error + unit" where
  "assertWithinBoundary snap s args =
     (if restricted s
         \<and> list_ex (\<lambda>v. case v of Some i \<Rightarrow> crossesSymlink snap i | None \<Rightarrow> False)
             [ma_id args, ma_parentId args, ma_newParentId args]
      then Inl (plain_error ''EACCES'' ''target is outside the workspace boundary'') else Inr ())"

text \<open>From an entry up to its root, at most \<open>guard\<close> records.\<close>

fun ancestor_chain :: "nat \<Rightarrow> native_snapshot \<Rightarrow> int option \<Rightarrow> client_entry list" where
  "ancestor_chain 0 snap cursor = []"
| "ancestor_chain (Suc guard) snap cursor =
     (case cursor of
        None \<Rightarrow> []
      | Some c \<Rightarrow>
        (case ns_getById snap c of
           None \<Rightarrow> [] | Some e \<Rightarrow> entryToClient e # ancestor_chain guard snap (ce_parentId e)))"

definition learn :: "nat \<Rightarrow> int list \<Rightarrow> host \<Rightarrow> host" where
  "learn sid ids h = upd_session sid (\<lambda>s. s\<lparr>se_knownIds := fold jset_add ids (se_knownIds s)\<rparr>) h"

definition lookup_obj :: "int \<Rightarrow> int \<Rightarrow> client_entry list \<Rightarrow> reply" where
  "lookup_obj i version es = RObj \<lparr>ro_id = Some i, ro_version = Some version, ro_entries = Some es, ro_hits = None, ro_clipped = False\<rparr>"

text \<open>The answer to \<open>resolvePath\<close> and \<open>findVisiblePrefix\<close> once the native side named an entry.\<close>

definition lookup_answer :: "native_snapshot \<Rightarrow> nat \<Rightarrow> int option \<Rightarrow> host \<Rightarrow> reply \<times> host" where
  "lookup_answer snap sid found h =
     (case found of
        None \<Rightarrow> (RNull, h)
      | Some i \<Rightarrow>
        if restricted (the (jm_get (ho_sessions h) sid)) \<and> crossesSymlink snap i then (RNull, h)
        else let es = ancestor_chain 10000 snap (Some i)
             in (lookup_obj i (ns_treeVersion snap) es, learn sid (map ce_id es) h))"

section \<open>Search\<close>

definition DEFAULT_SEARCH_LIMIT :: int where "DEFAULT_SEARCH_LIMIT = 100"
definition MAX_SEARCH_LIMIT :: int where "MAX_SEARCH_LIMIT = 1000"
definition MAX_SEARCH_QUERY_LENGTH :: nat where "MAX_SEARCH_QUERY_LENGTH = 1024"

record search_options =
  so_includeIgnored :: "bool option"
  so_caseSensitive :: "bool option"
  so_kinds :: "int list option"

definition option_flag :: "(jstring \<times> jsval) list \<Rightarrow> string \<Rightarrow> fs_error + bool option" where
  "option_flag ps flag =
     (case map_of ps (js flag) of
        None \<Rightarrow> Inr None
      | Some VUndefined \<Rightarrow> Inr None
      | Some (VBool b) \<Rightarrow> Inr (Some b)
      | Some _ \<Rightarrow> Inl (plain_error ''EINVAL'' (''search '' @ flag @ '' must be a boolean'')))"

definition kind_list :: "jsval \<Rightarrow> int list option" where
  "kind_list v =
     (case v of
        VArr xs \<Rightarrow>
          if length xs \<le> 8 \<and> list_all (\<lambda>x. case x of VNum k \<Rightarrow> 0 \<le> k \<and> k \<le> 4 | _ \<Rightarrow> False) xs
          then Some (map (\<lambda>x. case x of VNum k \<Rightarrow> k | _ \<Rightarrow> 0) xs) else None
      | _ \<Rightarrow> None)"

definition search_limit :: "(jstring \<times> jsval) list \<Rightarrow> fs_error + int" where
  "search_limit ps =
     (case map_of ps (js ''limit'') of
        None \<Rightarrow> Inr DEFAULT_SEARCH_LIMIT
      | Some VUndefined \<Rightarrow> Inr DEFAULT_SEARCH_LIMIT
      | Some (VNum n) \<Rightarrow>
          if n < 1 then Inl (plain_error ''EINVAL'' ''search limit must be a positive integer'')
          else Inr (min n MAX_SEARCH_LIMIT)
      | Some _ \<Rightarrow> Inl (plain_error ''EINVAL'' ''search limit must be a positive integer''))"

definition search_kinds :: "(jstring \<times> jsval) list \<Rightarrow> fs_error + int list option" where
  "search_kinds ps =
     (case map_of ps (js ''kinds'') of
        None \<Rightarrow> Inr None
      | Some VUndefined \<Rightarrow> Inr None
      | Some v \<Rightarrow>
          (case kind_list v of
             Some ks \<Rightarrow> Inr (Some ks)
           | None \<Rightarrow> Inl (plain_error ''EINVAL'' ''search kinds must be a short list of entry kinds'')))"

definition parseSearchOptions :: "jsval \<Rightarrow> fs_error + (int \<times> search_options)" where
  "parseSearchOptions raw =
     (case raw of
        VUndefined \<Rightarrow> Inr (DEFAULT_SEARCH_LIMIT, \<lparr>so_includeIgnored = None, so_caseSensitive = None, so_kinds = None\<rparr>)
      | VNull \<Rightarrow> Inr (DEFAULT_SEARCH_LIMIT, \<lparr>so_includeIgnored = None, so_caseSensitive = None, so_kinds = None\<rparr>)
      | VBytes bs \<Rightarrow> Inr (DEFAULT_SEARCH_LIMIT, \<lparr>so_includeIgnored = None, so_caseSensitive = None, so_kinds = None\<rparr>)
      | VObj ps \<Rightarrow>
          rbind (search_limit ps) (\<lambda>limit.
          rbind (option_flag ps ''includeIgnored'') (\<lambda>ignored.
          rbind (option_flag ps ''caseSensitive'') (\<lambda>sensitive.
          rbind (search_kinds ps) (\<lambda>kinds.
            Inr (limit, \<lparr>so_includeIgnored = ignored, so_caseSensitive = sensitive, so_kinds = kinds\<rparr>)))))
      | _ \<Rightarrow> Inl (plain_error ''EINVAL'' ''search options must be an object''))"

text \<open>The part of a chain that earlier hits did not bring.\<close>

fun fresh_chain ::
  "nat \<Rightarrow> native_snapshot \<Rightarrow> int option \<Rightarrow> (int, client_entry) jmap \<Rightarrow> (int, client_entry) jmap"
where
  "fresh_chain 0 snap cursor acc = acc"
| "fresh_chain (Suc guard) snap cursor acc =
     (case cursor of
        None \<Rightarrow> acc
      | Some c \<Rightarrow>
        if jm_has acc c then acc
        else (case ns_getById snap c of
                None \<Rightarrow> acc
              | Some e \<Rightarrow> fresh_chain guard snap (ce_parentId e) (jm_set c (entryToClient e) acc)))"

fun search_page ::
  "native_snapshot \<Rightarrow> bool \<Rightarrow> int \<Rightarrow> wire_hit list \<Rightarrow> wire_hit list \<Rightarrow> (int, client_entry) jmap
    \<Rightarrow> wire_hit list \<times> (int, client_entry) jmap"
where
  "search_page snap restr limit [] hits acc = (hits, acc)"
| "search_page snap restr limit (hit # found) hits acc =
     (if int (length hits) = limit then (hits, acc)
      else if ns_getById snap (wh_id hit) = None \<or> (restr \<and> crossesSymlink snap (wh_id hit))
      then search_page snap restr limit found hits acc
      else search_page snap restr limit found (hits @ [hit]) (fresh_chain 10000 snap (Some (wh_id hit)) acc))"

text \<open>\<open>found\<close> is what the engine answers when asked for one hit more than the page.\<close>

definition search_answer :: "native_snapshot \<Rightarrow> nat \<Rightarrow> int \<Rightarrow> wire_hit list \<Rightarrow> host \<Rightarrow> reply \<times> host" where
  "search_answer snap sid limit found h =
     (let (hits, acc) = search_page snap (restricted (the (jm_get (ho_sessions h) sid))) limit found [] []
      in (RObj \<lparr>ro_id = None, ro_version = Some (ns_treeVersion snap), ro_entries = Some (map snd acc),
                ro_hits = Some hits, ro_clipped = int (length found) > limit\<rparr>,
          learn sid (jm_keys acc) h))"

section \<open>Decorations, acknowledgements and warnings\<close>

fun denial_code :: "denial \<Rightarrow> string" where
  "denial_code EROFS = ''EROFS''"
| "denial_code EACCES = ''EACCES''"
| "denial_code EEXIST = ''EEXIST''"
| "denial_code EBUSY = ''EBUSY''"

text \<open>An element of a decorations frame: an id with a decoration or a clearing \<open>null\<close>, or something the host skips.\<close>

datatype decoration_tuple = DTuple int "decoration option" | DSkipped

definition apply_tuple ::
  "string \<Rightarrow> decoration_tuple \<Rightarrow> int jset \<times> decoration_store \<Rightarrow> int jset \<times> decoration_store"
where
  "apply_tuple pid t cs =
     (case t of
        DSkipped \<Rightarrow> cs
      | DTuple i d \<Rightarrow>
        let (changed, st) = cs; (upd, st') = setForProvider pid i d st
        in (if upd then jset_add i changed else changed, st'))"

definition handleDecorations ::
  "(nat \<Rightarrow> send_outcome) \<Rightarrow> nat \<Rightarrow> string option \<Rightarrow> decoration_tuple list option \<Rightarrow> bool \<Rightarrow> host \<Rightarrow> host"
where
  "handleDecorations net sid providerId entries replaceAll h =
     (case authorizeDecorations (se_context (the (jm_get (ho_sessions h) sid))) of
        Denied code message \<Rightarrow> sendError net sid (denial_code code) message h
      | Allowed \<Rightarrow>
        (case (providerId, entries) of
           (Some pid, Some ts) \<Rightarrow>
             if pid = [] then sendError net sid ''EINVAL'' ''malformed decorations frame'' h
             else let (cleared, st0) = (if replaceAll then removeProvider pid (ho_store h) else ([], ho_store h));
                      (changed, st1) = fold (apply_tuple pid) ts (jset_of cleared, st0)
                  in if changed = [] then h\<lparr>ho_store := st1\<rparr>
                     else h\<lparr>ho_store := snd (bump changed st1),
                            ho_pendingDecorations := fold jset_add changed (ho_pendingDecorations h),
                            ho_ticking := ho_ticking h \<or> \<not> ho_disposed h\<rparr>
         | _ \<Rightarrow> sendError net sid ''EINVAL'' ''malformed decorations frame'' h))"

text \<open>
  A decoration provider inside the host's process: \<open>updates\<close> is what it provided for the changed ids, without
  those on which it threw.
\<close>

definition provider_pass ::
  "string \<Rightarrow> (int \<times> decoration option) list \<Rightarrow> decoration_store \<Rightarrow> int list \<times> decoration_store"
where
  "provider_pass pid updates st =
     fold (\<lambda>(i, d) (changed, st). let (upd, st') = setForProvider pid i d st in (if upd then changed @ [i] else changed, st'))
       updates ([], st)"

definition publish_decorations :: "int list \<Rightarrow> decoration_store \<Rightarrow> host \<Rightarrow> host" where
  "publish_decorations changed st h =
     (if changed = [] then h\<lparr>ho_store := st\<rparr>
      else h\<lparr>ho_store := snd (bump changed st), ho_pendingDecorations := fold jset_add changed (ho_pendingDecorations h)\<rparr>)"

definition host_provider_changed :: "string \<Rightarrow> (int \<times> decoration option) list \<Rightarrow> host \<Rightarrow> host" where
  "host_provider_changed pid updates h =
     (let (changed, st) = provider_pass pid updates (ho_store h) in publish_decorations changed st h)"

definition host_provider_disposed :: "string \<Rightarrow> host \<Rightarrow> host" where
  "host_provider_disposed pid h =
     (let (cleared, st) = removeProvider pid (ho_store h) in publish_decorations cleared st h)"

text \<open>An \<open>ack\<close> frame: \<open>version\<close> and \<open>ackId\<close> are \<open>None\<close> when absent, and \<open>Some None\<close> when no safe integer.\<close>

definition handleAck :: "nat \<Rightarrow> int option option \<Rightarrow> int option option \<Rightarrow> host \<Rightarrow> host" where
  "handleAck sid version ackId h =
     (case version of
        Some (Some v) \<Rightarrow>
          if v < 0 then h
          else upd_session sid (\<lambda>s. s\<lparr>se_ackCapable := True, se_ackedVersion := max (se_ackedVersion s) v,
                 se_ackedId :=
                   (case ackId of
                      Some (Some a) \<Rightarrow>
                        if 0 < a \<and> a < ho_nextAckId h
                        then Some (max (case se_ackedId s of Some b \<Rightarrow> b | None \<Rightarrow> 0) a) else se_ackedId s
                    | Some None \<Rightarrow> se_ackedId s
                    | None \<Rightarrow> if se_ackedId s = Some 0 then None else se_ackedId s)\<rparr>) h
      | _ \<Rightarrow> h)"

definition owned_table :: "host \<Rightarrow> (nat \<times> string jset) list" where
  "owned_table h = map (\<lambda>sid. (sid, se_ownedOperationIds (the (jm_get (ho_sessions h) sid)))) (live h)"

text \<open>A native warning; \<open>op\<close> is the operation id its detail names.\<close>

definition forwardWarning ::
  "(nat \<Rightarrow> send_outcome) \<Rightarrow> string \<Rightarrow> string option \<Rightarrow> string option \<Rightarrow> host \<Rightarrow> host"
where
  "forwardWarning net code detail op h =
     (let f = InWarning (Some code) (map_option WText detail)
      in case op of
           None \<Rightarrow> fold (\<lambda>sid. host_send net sid f) (live h) h
         | Some operationId \<Rightarrow>
           (case findOperationOwner (owned_table h) operationId of
              None \<Rightarrow> h
            | Some sid \<Rightarrow>
              let h1 = host_send net sid f h
              in if code = ''OP_COMPLETE'' \<or> code = ''OP_CANCELLED''
                 then upd_session sid (\<lambda>s. s\<lparr>se_ownedOperationIds := jset_del operationId (se_ownedOperationIds s)\<rparr>) h1
                 else h1))"

end
