(* ===== verification/Host_Server.thy ===== *)
theory Host_Server
  imports Host_Requests
begin

text \<open>
  The host as a server (\<open>packages/mille/src/host.ts\<close>): mutations run one at a time on a queue, and a mutation, a
  resync or a change of the roots is answered only after a flushed tick was acknowledged
  (\<open>flushTickAcked\<close>). A step is one task: a frame, the completion of a native operation, an immediate, the
  timeout of a wait, the interval tick.
\<close>

section \<open>State\<close>

datatype host_call =
    GetTreeVersion | Capabilities | ResolvePath string | FindVisiblePrefix string "int option" bool "int list"
  | SearchFor string int search_options | CancelOperation string | Resync int bool | ResyncWorkspace
  | ProbeDestination int string | ReadUndo string | Synchronized string

text \<open>What to send when a synchronization point is over: the reply and the claim to release.\<close>

record answer =
  an_session :: nat
  an_reqId :: int
  an_result :: reply
  an_error :: "fs_error option"
  an_claimed :: "string option"
  an_mutation :: bool

text \<open>
  A wait of \<open>flushTickAcked\<close>: the sessions asked, the version and acknowledgement id they owe. Without a target
  it only yields to the event loop once.
\<close>

record waiter =
  wt_sessions :: "nat list"
  wt_target :: "int option"
  wt_ackId :: int
  wt_answer :: answer

record running =
  rn_session :: nat
  rn_reqId :: int
  rn_op :: string
  rn_claimed :: "string option"

datatype native_event = NativeMutation nat string mutation_args | NativeCall nat host_call

record server =
  sv_host :: host
  sv_queue :: "(nat \<times> int \<times> string \<times> mutation_args) list"
  sv_running :: "running option"
  sv_flushing :: bool
  sv_waiters :: "waiter list"
  sv_calls :: "(nat \<times> int \<times> host_call) list"
  sv_native :: "native_event list"

definition new_server :: server where
  "new_server = \<lparr>sv_host = new_host, sv_queue = [], sv_running = None, sv_flushing = False, sv_waiters = [],
     sv_calls = [], sv_native = []\<rparr>"

section \<open>Synchronization points\<close>

definition handshaken :: "host \<Rightarrow> nat list" where
  "handshaken h = filter (\<lambda>sid. se_handshook (the (jm_get (ho_sessions h) sid))) (live h)"

definition owes_ack :: "host \<Rightarrow> int \<Rightarrow> int \<Rightarrow> nat \<Rightarrow> bool" where
  "owes_ack h target ackId sid =
     (attached sid h
      \<and> (let s = the (jm_get (ho_sessions h) sid)
         in se_ackCapable s
            \<and> (se_ackedVersion s < target \<or> (case se_ackedId s of Some a \<Rightarrow> a < ackId | None \<Rightarrow> False))))"

definition outstanding :: "host \<Rightarrow> waiter \<Rightarrow> nat list" where
  "outstanding h w =
     (case wt_target w of None \<Rightarrow> [] | Some target \<Rightarrow> filter (owes_ack h target (wt_ackId w)) (wt_sessions w))"

text \<open>Send the reply, release the claim; a mutation makes room for the next one.\<close>

definition settle_answer :: "(nat \<Rightarrow> send_outcome) \<Rightarrow> answer \<Rightarrow> server \<Rightarrow> server" where
  "settle_answer net a sv =
     (let h1 = host_send net (an_session a) (InResult (an_reqId a) (an_result a) (an_error a)) (sv_host sv);
          h2 = (case an_claimed a of
                  None \<Rightarrow> h1
                | Some op \<Rightarrow> upd_session (an_session a)
                    (\<lambda>s. s\<lparr>se_ownedOperationIds := jset_del op (se_ownedOperationIds s)\<rparr>) h1)
      in if an_mutation a then sv\<lparr>sv_host := h2, sv_running := None, sv_flushing := False\<rparr> else sv\<lparr>sv_host := h2\<rparr>)"

text \<open>\<open>flushTickAcked\<close> up to its wait; the flag says that the tick threw.\<close>

definition flushTickAcked ::
  "((int, decoration list) jmap \<Rightarrow> string) \<Rightarrow> (nat \<Rightarrow> send_outcome) \<Rightarrow> change_set \<Rightarrow> native_snapshot \<Rightarrow> int \<Rightarrow> answer
    \<Rightarrow> server \<Rightarrow> bool \<times> server"
where
  "flushTickAcked D net cs snap target a sv =
     (let h = sv_host sv; sessions = handshaken h
      in if sessions = []
         then let (out, h1) = tick D net cs snap h
              in if out = TickThrew then (True, sv\<lparr>sv_host := h1\<rparr>)
                 else (False, sv\<lparr>sv_host := h1,
                        sv_waiters := sv_waiters sv @ [\<lparr>wt_sessions = [], wt_target = None, wt_ackId = 0, wt_answer = a\<rparr>]\<rparr>)
         else let ackId = ho_nextAckId h;
                  (out, h1) = tick D net cs snap (h\<lparr>ho_nextAckId := ackId + 1, ho_ackIdForNextTick := Some ackId\<rparr>);
                  h2 = h1\<lparr>ho_ackIdForNextTick := None\<rparr>;
                  w = \<lparr>wt_sessions = sessions, wt_target = Some target, wt_ackId = ackId, wt_answer = a\<rparr>
              in if out = TickThrew then (True, sv\<lparr>sv_host := h2\<rparr>)
                 else if out = TickQuiet \<or> outstanding h2 w = []
                 then (False, sv\<lparr>sv_host := h2, sv_waiters := sv_waiters sv @ [w\<lparr>wt_target := None\<rparr>]\<rparr>)
                 else (False, sv\<lparr>sv_host := h2, sv_waiters := sv_waiters sv @ [w]\<rparr>))"

text \<open>\<open>notifyAckWaiters\<close>: every wait nobody owes an acknowledgement to is over.\<close>

definition finish_waits :: "(nat \<Rightarrow> send_outcome) \<Rightarrow> waiter list \<Rightarrow> server \<Rightarrow> server" where
  "finish_waits net ws sv =
     fold (\<lambda>w. settle_answer net (wt_answer w)) ws (sv\<lparr>sv_waiters := filter (\<lambda>w. w \<notin> set ws) (sv_waiters sv)\<rparr>)"

definition notifyAckWaiters :: "(nat \<Rightarrow> send_outcome) \<Rightarrow> server \<Rightarrow> server" where
  "notifyAckWaiters net sv =
     finish_waits net (filter (\<lambda>w. wt_target w \<noteq> None \<and> outstanding (sv_host sv) w = []) (sv_waiters sv)) sv"

text \<open>The immediates of waits that only yield.\<close>

definition run_immediates :: "(nat \<Rightarrow> send_outcome) \<Rightarrow> server \<Rightarrow> server" where
  "run_immediates net sv = finish_waits net (filter (\<lambda>w. wt_target w = None) (sv_waiters sv)) sv"

text \<open>The timeout of a wait: who still owes an acknowledgement is not waited for again.\<close>

definition time_out :: "(nat \<Rightarrow> send_outcome) \<Rightarrow> waiter \<Rightarrow> server \<Rightarrow> server" where
  "time_out net w sv =
     (if w \<notin> set (sv_waiters sv) \<or> wt_target w = None then sv
      else finish_waits net [w]
             (sv\<lparr>sv_host := fold (\<lambda>sid. upd_session sid (\<lambda>s. s\<lparr>se_ackCapable := False\<rparr>))
                              (outstanding (sv_host sv) w) (sv_host sv)\<rparr>))"

section \<open>Mutations\<close>

definition exceeds :: "int \<Rightarrow> js_float option \<Rightarrow> bool" where
  "exceeds bytes maxBytes = (case maxBytes of Some (Finite q) \<Rightarrow> of_int bytes > q | _ \<Rightarrow> False)"

definition file_too_big :: "native_snapshot \<Rightarrow> session \<Rightarrow> int option \<Rightarrow> bool" where
  "file_too_big snap s i =
     (case Option.bind i (ns_getById snap) of
        Some e \<Rightarrow> exceeds (ce_size e) (sp_maxFileBytes (rc_policy (se_context s))) | None \<Rightarrow> False)"

text \<open>The message of the code also prints the two numbers of bytes.\<close>

definition efbig :: fs_error where
  "efbig = plain_error ''EFBIG'' ''remote export limit''"

text \<open>The checks of \<open>dispatchMutation\<close> before the native call.\<close>

definition mutation_checks :: "native_snapshot \<Rightarrow> session \<Rightarrow> string \<Rightarrow> mutation_args \<Rightarrow> fs_error + unit" where
  "mutation_checks snap s op args =
     (if op \<in> {''create'', ''rename'', ''move'', ''delete'', ''copy'', ''undo''} then Inr ()
      else if op = ''copyFromPath'' then
        (case ma_sourcePath args of
           Some (c # cs) \<Rightarrow> Inr ()
         | _ \<Rightarrow> Inl (plain_error ''EUNKNOWN'' ''copyFromPath requires a non-empty sourcePath string''))
      else if op \<in> {''readFile'', ''readText''} then
        (if file_too_big snap s (ma_id args) then Inl efbig else Inr ())
      else if op = ''writeFile'' then
        (if exceeds (ma_dataLength args) (sp_maxFileBytes (rc_policy (se_context s))) then Inl efbig else Inr ())
      else Inl (plain_error ''EUNKNOWN'' (''unknown op: '' @ op)))"

definition claim :: "nat \<Rightarrow> mutation_args \<Rightarrow> host \<Rightarrow> fs_error + (string option \<times> host)" where
  "claim sid args h =
     (case claimOperation sid (ma_operationId args) (owned_table h) of
        Inl d \<Rightarrow>
          Inl (plain_error (denial_code d)
                 (if d = EEXIST then ''operation '' @ the (ma_operationId args) @ '' is already in progress''
                  else ''session has '' @ decimal (int MAX_OWNED_OPERATIONS) @ '' operations in flight''))
      | Inr (claimed, table) \<Rightarrow>
          Inr (claimed, upd_session sid (\<lambda>s. if se_attached s then s\<lparr>se_ownedOperationIds := owned_by table sid\<rparr>
                 else s\<lparr>se_ownedOperationIds := (case claimed of Some op \<Rightarrow> jset_add op (se_ownedOperationIds s) | None \<Rightarrow> se_ownedOperationIds s)\<rparr>) h))"

text \<open>Policy and boundary, then the claim, then the checks of the dispatch.\<close>

definition admit_mutation ::
  "native_snapshot \<Rightarrow> nat \<Rightarrow> string \<Rightarrow> mutation_args \<Rightarrow> host \<Rightarrow> (fs_error + unit) \<times> string option \<times> host"
where
  "admit_mutation snap sid op args h =
     (let s = the (jm_get (ho_sessions h) sid)
      in case authorizeMutation (se_context s) op of
           Denied code message \<Rightarrow> (Inl (plain_error (denial_code code) message), None, h)
         | Allowed \<Rightarrow>
           (case assertWithinBoundary snap s args of
              Inl e \<Rightarrow> (Inl e, None, h)
            | Inr _ \<Rightarrow>
              (case claim sid args h of
                 Inl e \<Rightarrow> (Inl e, None, h)
               | Inr (claimed, h1) \<Rightarrow> (mutation_checks snap s op args, claimed, h1))))"

text \<open>
  Answer the running mutation after a flush. When the tick of the flush throws on the way to a result, the
  error is answered after a second flush (which drains \<open>snd css\<close>); when that one throws too, nothing is
  answered. The message of such an error is the encoder's.
\<close>

definition flush_mutation ::
  "((int, decoration list) jmap \<Rightarrow> string) \<Rightarrow> (nat \<Rightarrow> send_outcome) \<Rightarrow> change_set \<times> change_set \<Rightarrow> native_snapshot \<Rightarrow> int
    \<Rightarrow> running \<Rightarrow> fs_error + reply \<Rightarrow> server \<Rightarrow> server"
where
  "flush_mutation D net css snap target r result sv =
     (let answer_of = (\<lambda>res. \<lparr>an_session = rn_session r, an_reqId = rn_reqId r,
                               an_result = (case res of Inl e \<Rightarrow> RNull | Inr v \<Rightarrow> v),
                               an_error = (case res of Inl e \<Rightarrow> Some e | Inr v \<Rightarrow> None),
                               an_claimed = rn_claimed r, an_mutation = True\<rparr>);
          release = (\<lambda>sv. sv\<lparr>sv_host := (case rn_claimed r of
                               None \<Rightarrow> sv_host sv
                             | Some op \<Rightarrow> upd_session (rn_session r)
                                 (\<lambda>s. s\<lparr>se_ownedOperationIds := jset_del op (se_ownedOperationIds s)\<rparr>) (sv_host sv)),
                             sv_running := None, sv_flushing := False\<rparr>);
          sv0 = sv\<lparr>sv_flushing := True\<rparr>
      in case result of
           Inl e \<Rightarrow> (case flushTickAcked D net (fst css) snap target (answer_of (Inl e)) sv0 of
                      (threw, sv1) \<Rightarrow> if threw then release sv1 else sv1)
         | Inr v \<Rightarrow>
           (case flushTickAcked D net (fst css) snap target (answer_of (Inr v)) sv0 of
              (threw, sv1) \<Rightarrow>
                if \<not> threw then sv1
                else case flushTickAcked D net (snd css) snap target
                            (answer_of (Inl (plain_error ''EUNKNOWN'' ''encoding failed''))) sv1 of
                       (threw2, sv2) \<Rightarrow> if threw2 then release sv2 else sv2))"

text \<open>The head of the queue starts when nothing runs.\<close>

definition start_mutation ::
  "((int, decoration list) jmap \<Rightarrow> string) \<Rightarrow> (nat \<Rightarrow> send_outcome) \<Rightarrow> change_set \<times> change_set \<Rightarrow> native_snapshot \<Rightarrow> int \<Rightarrow> server \<Rightarrow> server"
where
  "start_mutation D net css snap target sv =
     (case (sv_running sv, sv_queue sv) of
        (None, (sid, reqId, op, args) # rest) \<Rightarrow>
          (let (verdict, claimed, h1) = admit_mutation snap sid op args (sv_host sv);
               r = \<lparr>rn_session = sid, rn_reqId = reqId, rn_op = op, rn_claimed = claimed\<rparr>;
               sv1 = sv\<lparr>sv_host := h1, sv_queue := rest, sv_running := Some r\<rparr>
           in case verdict of
                Inl e \<Rightarrow> flush_mutation D net css snap target r (Inl e) sv1
              | Inr _ \<Rightarrow> sv1\<lparr>sv_native := sv_native sv1 @ [NativeMutation sid op args]\<rparr>)
      | _ \<Rightarrow> sv)"

text \<open>The native operation ended; the number is the byte length of a file's content.\<close>

definition mutation_done ::
  "((int, decoration list) jmap \<Rightarrow> string) \<Rightarrow> (nat \<Rightarrow> send_outcome) \<Rightarrow> change_set \<times> change_set \<Rightarrow> native_snapshot \<Rightarrow> int
    \<Rightarrow> fs_error + (reply \<times> int option) \<Rightarrow> server \<Rightarrow> server"
where
  "mutation_done D net css snap target result sv =
     (case sv_running sv of
        None \<Rightarrow> sv
      | Some r \<Rightarrow>
        if sv_flushing sv then sv
        else let s = the (jm_get (ho_sessions (sv_host sv)) (rn_session r));
                 checked = (case result of
                     Inl e \<Rightarrow> Inl e
                   | Inr (v, bytes) \<Rightarrow>
                       (case bytes of
                          Some n \<Rightarrow> if rn_op r \<in> {''readFile'', ''readText''}
                                       \<and> exceeds n (sp_maxFileBytes (rc_policy (se_context s)))
                                    then Inl efbig else Inr v
                        | None \<Rightarrow> Inr v))
             in flush_mutation D net css snap target r checked sv)"

section \<open>Calls\<close>

text \<open>An argument as the host's checks tell values apart.\<close>

datatype call_arg =
    CaText string | CaNumber int | CaBool bool | CaNull | CaUndefined | CaArray "call_arg list"
  | CaObject "(jstring \<times> jsval) list"

definition arg :: "call_arg list \<Rightarrow> nat \<Rightarrow> call_arg" where
  "arg args n = (if n < length args then args ! n else CaUndefined)"

definition as_options :: "call_arg \<Rightarrow> jsval" where
  "as_options a =
     (case a of CaUndefined \<Rightarrow> VUndefined | CaNull \<Rightarrow> VNull | CaObject ps \<Rightarrow> VObj ps | CaArray xs \<Rightarrow> VArr [] | _ \<Rightarrow> VBool True)"

definition is_safe_id :: "call_arg \<Rightarrow> bool" where
  "is_safe_id a = (case a of CaNumber n \<Rightarrow> is_id n | _ \<Rightarrow> False)"

definition invalid :: "string \<Rightarrow> fs_error + 'a" where
  "invalid message = Inl (plain_error ''EUNKNOWN'' message)"

definition number_arg :: "call_arg \<Rightarrow> int" where
  "number_arg a = (case a of CaNumber n \<Rightarrow> n | _ \<Rightarrow> 0)"

definition parse_prefix :: "call_arg list \<Rightarrow> fs_error + host_call" where
  "parse_prefix args =
     (case (arg args 0, arg args 1, arg args 2, arg args 3) of
        (CaText prefix, from, skip, expd) \<Rightarrow>
          if from \<noteq> CaNull \<and> (case from of CaNumber n \<Rightarrow> False | _ \<Rightarrow> True)
          then invalid ''findVisiblePrefix requires a numeric or null fromId''
          else (case (skip, expd) of
                  (CaBool b, CaArray xs) \<Rightarrow>
                    Inr (FindVisiblePrefix prefix (case from of CaNumber n \<Rightarrow> Some n | _ \<Rightarrow> None) b (jset_of (map number_arg xs)))
                | _ \<Rightarrow> invalid ''findVisiblePrefix requires skipCurrent and expanded'')
      | _ \<Rightarrow> invalid ''findVisiblePrefix requires a prefix'')"

definition parse_search :: "call_arg list \<Rightarrow> fs_error + host_call" where
  "parse_search args =
     (case arg args 0 of
        CaText query \<Rightarrow>
          if length query > MAX_SEARCH_QUERY_LENGTH then Inl (plain_error ''EINVAL'' (''search query exceeds '' @ decimal (int MAX_SEARCH_QUERY_LENGTH) @ '' characters''))
          else rbind (parseSearchOptions (as_options (arg args 1))) (\<lambda>(limit, opts). Inr (SearchFor query limit opts))
      | _ \<Rightarrow> Inl (plain_error ''EINVAL'' ''search requires a query string''))"

text \<open>The argument checks of \<open>dispatchCall\<close>.\<close>

definition parse_call :: "string \<Rightarrow> call_arg list \<Rightarrow> fs_error + host_call" where
  "parse_call method args =
     (if method = ''getTreeVersion'' then Inr GetTreeVersion
      else if method = ''capabilities'' then Inr Capabilities
      else if method = ''updateProjectionSettings'' then
        (case arg args 0 of CaObject ps \<Rightarrow> Inr (Synchronized method)
         | _ \<Rightarrow> invalid ''updateProjectionSettings requires a settings object'')
      else if method = ''reorderRoots'' then
        (case arg args 0 of
           CaArray ids \<Rightarrow> if list_all is_safe_id ids then Inr (Synchronized method)
                          else invalid ''reorderRoots requires an array of non-negative integer ids''
         | _ \<Rightarrow> invalid ''reorderRoots requires an array of non-negative integer ids'')
      else if method = ''updateWorkspaceRoots'' then
        (case arg args 0 of
           CaArray rs \<Rightarrow> if list_all (\<lambda>r. case r of CaText p \<Rightarrow> True | _ \<Rightarrow> False) rs then Inr (Synchronized method)
                         else invalid ''updateWorkspaceRoots requires an array of absolute path strings''
         | _ \<Rightarrow> invalid ''updateWorkspaceRoots requires an array of absolute path strings'')
      else if method = ''refreshWorkspaceRoots'' then Inr (Synchronized method)
      else if method = ''probeDestination'' then
        (case arg args 1 of
           CaText (c # cs) \<Rightarrow> if is_safe_id (arg args 0) then Inr (ProbeDestination (number_arg (arg args 0)) (c # cs))
                              else invalid ''probeDestination requires a parent id and non-empty name''
         | _ \<Rightarrow> invalid ''probeDestination requires a parent id and non-empty name'')
      else if method = ''cancelOperation'' then
        (case arg args 0 of
           CaText (c # cs) \<Rightarrow> Inr (CancelOperation (c # cs))
         | _ \<Rightarrow> invalid ''cancelOperation requires a non-empty operationId'')
      else if method \<in> {''canUndo'', ''peekUndo'', ''lastMutation''} then Inr (ReadUndo method)
      else if method = ''resync'' then
        (case (arg args 0, arg args 1) of
           (CaNumber i, CaBool recursive) \<Rightarrow>
             if is_id i then Inr (Resync i recursive)
             else invalid ''resync requires a non-negative integer id and recursive boolean''
         | _ \<Rightarrow> invalid ''resync requires a non-negative integer id and recursive boolean'')
      else if method = ''resyncWorkspace'' then Inr ResyncWorkspace
      else if method = ''resolvePath'' then
        (case arg args 0 of CaText p \<Rightarrow> Inr (ResolvePath p) | _ \<Rightarrow> invalid ''resolvePath requires a string path'')
      else if method = ''findVisiblePrefix'' then parse_prefix args
      else if method = ''search'' then parse_search args
      else invalid (''unknown method: '' @ method))"

text \<open>What has to hold before the native side is asked: the rate of resyncs, the owner of an operation.\<close>

definition admit_call :: "int \<Rightarrow> nat \<Rightarrow> host_call \<Rightarrow> host \<Rightarrow> (fs_error + unit) \<times> host" where
  "admit_call now sid c h =
     (let s = the (jm_get (ho_sessions h) sid)
      in case c of
           Resync i recursive \<Rightarrow>
             (let (verdict, stamps) = checkResyncRate now (se_resyncTimes s);
                  h1 = upd_session sid (\<lambda>s. s\<lparr>se_resyncTimes := stamps\<rparr>) h
              in (case verdict of
                    Inl d \<Rightarrow> (Inl (plain_error (denial_code d) (''resync rate limit reached ('' @ decimal (int RESYNC_LIMIT) @ '' per minute)'')), h1)
                  | Inr _ \<Rightarrow> (Inr (), h1)))
         | CancelOperation op \<Rightarrow>
             (case authorizeCancel (se_context s) (se_ownedOperationIds s) op of
                Allowed \<Rightarrow> (Inr (), h)
              | Denied code message \<Rightarrow> (Inl (plain_error (denial_code code) message), h))
         | _ \<Rightarrow> (Inr (), h))"

definition call_error :: "(nat \<Rightarrow> send_outcome) \<Rightarrow> nat \<Rightarrow> int \<Rightarrow> fs_error \<Rightarrow> server \<Rightarrow> server" where
  "call_error net sid reqId e sv = sv\<lparr>sv_host := host_send net sid (InResult reqId RNull (Some e)) (sv_host sv)\<rparr>"

definition call_reply :: "(nat \<Rightarrow> send_outcome) \<Rightarrow> nat \<Rightarrow> int \<Rightarrow> reply \<Rightarrow> server \<Rightarrow> server" where
  "call_reply net sid reqId v sv = sv\<lparr>sv_host := host_send net sid (InResult reqId v None) (sv_host sv)\<rparr>"

text \<open>\<open>handleCall\<close> up to the native operation.\<close>

definition handleCall ::
  "(nat \<Rightarrow> send_outcome) \<Rightarrow> int \<Rightarrow> nat \<Rightarrow> int \<Rightarrow> string \<Rightarrow> call_arg list \<Rightarrow> server \<Rightarrow> server"
where
  "handleCall net now sid reqId method args sv =
     (case authorizeCall (se_context (the (jm_get (ho_sessions (sv_host sv)) sid))) method of
        Denied code message \<Rightarrow> call_error net sid reqId (plain_error (denial_code code) message) sv
      | Allowed \<Rightarrow>
        (case parse_call method args of
           Inl e \<Rightarrow> call_error net sid reqId e sv
         | Inr c \<Rightarrow>
           (case admit_call now sid c (sv_host sv) of
              (Inl e, h1) \<Rightarrow> call_error net sid reqId e (sv\<lparr>sv_host := h1\<rparr>)
            | (Inr _, h1) \<Rightarrow> sv\<lparr>sv_host := h1, sv_calls := sv_calls sv @ [(sid, reqId, c)],
                                sv_native := sv_native sv @ [NativeCall sid c]\<rparr>)))"

text \<open>What the native side answers.\<close>

datatype native_answer = NaValue reply | NaEntry "int option" | NaHits "wire_hit list" | NaVersion int | NaFailed fs_error

text \<open>The id a finished resync marks: a file is covered by its directory.\<close>

definition resync_marker :: "client_entry option \<Rightarrow> int \<Rightarrow> int" where
  "resync_marker requested i =
     (case requested of
        Some e \<Rightarrow> if \<not> is_directory e then (case ce_parentId e of Some p \<Rightarrow> p | None \<Rightarrow> i) else i
      | None \<Rightarrow> i)"

definition flush_call ::
  "((int, decoration list) jmap \<Rightarrow> string) \<Rightarrow> (nat \<Rightarrow> send_outcome) \<Rightarrow> change_set \<Rightarrow> native_snapshot \<Rightarrow> int
    \<Rightarrow> nat \<Rightarrow> int \<Rightarrow> int \<Rightarrow> server \<Rightarrow> server"
where
  "flush_call D net cs snap target sid reqId version sv =
     (case flushTickAcked D net cs snap target
             \<lparr>an_session = sid, an_reqId = reqId, an_result = RNumber version, an_error = None, an_claimed = None,
              an_mutation = False\<rparr> sv of
        (threw, sv1) \<Rightarrow> if threw then call_error net sid reqId (plain_error ''EUNKNOWN'' ''encoding failed'') sv1 else sv1)"

text \<open>After a resync: drain, complete the loads it covers, mark the subtrees, flush. A walk that does not end never answers.\<close>

definition resync_done ::
  "((int, decoration list) jmap \<Rightarrow> string) \<Rightarrow> (nat \<Rightarrow> send_outcome) \<Rightarrow> change_set \<times> change_set \<Rightarrow> native_snapshot \<Rightarrow> int
    \<Rightarrow> nat \<Rightarrow> int \<Rightarrow> int \<Rightarrow> int list \<Rightarrow> bool \<Rightarrow> server \<Rightarrow> server"
where
  "resync_done D net css snap target sid reqId version markers recursive sv =
     (let (out, h1) = tick D net (fst css) snap (sv_host sv)
      in if out = TickThrew then call_error net sid reqId (plain_error ''EUNKNOWN'' ''encoding failed'') (sv\<lparr>sv_host := h1\<rparr>)
         else case completeDirectoryLoadsAfterResync net snap target markers recursive h1 of
                None \<Rightarrow> sv\<lparr>sv_host := h1\<rparr>
              | Some (threw, h2) \<Rightarrow>
                if threw then call_error net sid reqId (plain_error ''EUNKNOWN'' ''encoding failed'') (sv\<lparr>sv_host := h2\<rparr>)
                else flush_call D net (snd css) snap target sid reqId version
                       (sv\<lparr>sv_host := fold markSubtreeResynced markers h2\<rparr>))"

text \<open>
  The native answer to a call, the pair \<open>(sid, reqId, c)\<close> being one of \<open>sv_calls\<close>. \<open>nativeCaps\<close> is the engine's
  capability mask, \<open>requested\<close> the entry a resync named and \<open>startRoots\<close> the roots there were when it began.
\<close>

definition call_done ::
  "((int, decoration list) jmap \<Rightarrow> string) \<Rightarrow> (nat \<Rightarrow> send_outcome) \<Rightarrow> change_set \<times> change_set \<Rightarrow> native_snapshot \<Rightarrow> int
    \<Rightarrow> int \<Rightarrow> client_entry option \<Rightarrow> int list \<Rightarrow> nat \<times> int \<times> host_call \<Rightarrow> native_answer \<Rightarrow> server \<Rightarrow> server"
where
  "call_done D net css snap target nativeCaps requested startRoots call ans sv =
     (if call \<notin> set (sv_calls sv) then sv
      else let (sid, reqId, c) = call;
               sv1 = sv\<lparr>sv_calls := remove1 call (sv_calls sv)\<rparr>
           in case (c, ans) of
                (_, NaFailed e) \<Rightarrow> call_error net sid reqId e sv1
              | (GetTreeVersion, _) \<Rightarrow> call_reply net sid reqId (RNumber target) sv1
              | (Capabilities, _) \<Rightarrow>
                  call_reply net sid reqId (RNumber (effectiveCapabilities
                    (se_context (the (jm_get (ho_sessions (sv_host sv1)) sid))) nativeCaps)) sv1
              | (ResolvePath p, NaEntry found) \<Rightarrow>
                  (let (v, h1) = lookup_answer snap sid found (sv_host sv1) in call_reply net sid reqId v (sv1\<lparr>sv_host := h1\<rparr>))
              | (FindVisiblePrefix p from skip expd, NaEntry found) \<Rightarrow>
                  (let (v, h1) = lookup_answer snap sid found (sv_host sv1) in call_reply net sid reqId v (sv1\<lparr>sv_host := h1\<rparr>))
              | (SearchFor q limit opts, NaHits found) \<Rightarrow>
                  (let (v, h1) = search_answer snap sid limit found (sv_host sv1) in call_reply net sid reqId v (sv1\<lparr>sv_host := h1\<rparr>))
              | (Resync i recursive, NaVersion v) \<Rightarrow>
                  resync_done D net css snap target sid reqId v [resync_marker requested i]
                    (recursive \<and> resync_marker requested i = i) sv1
              | (ResyncWorkspace, NaVersion v) \<Rightarrow>
                  resync_done D net css snap target sid reqId v startRoots True sv1
              | (Synchronized m, NaVersion v) \<Rightarrow> flush_call D net (fst css) snap target sid reqId v sv1
              | (_, NaValue v) \<Rightarrow> call_reply net sid reqId v sv1
              | _ \<Rightarrow> sv1)"

section \<open>Frames\<close>

text \<open>What a client may send; a frame that fails the envelope checks is \<open>CMalformed\<close> or has the wrong version.\<close>

datatype client_frame =
    CMalformed | CVersion string | CUnknown string
  | CHandshake "js_float option" bool | CSetExpanded "int list" "int list"
  | CSetViewport js_float js_float "js_float option" | CMutate int string mutation_args
  | CCall int string "call_arg list" | CAck "int option option" "int option option" | CDispose
  | CDecorations "string option" "decoration_tuple list option" bool

definition on_host :: "(host \<Rightarrow> host) \<Rightarrow> server \<Rightarrow> server" where
  "on_host f sv = sv\<lparr>sv_host := f (sv_host sv)\<rparr>"

definition host_message ::
  "((int, decoration list) jmap \<Rightarrow> string) \<Rightarrow> (nat \<Rightarrow> send_outcome) \<Rightarrow> native_snapshot \<Rightarrow> change_set \<times> native_snapshot \<Rightarrow> int
    \<Rightarrow> int \<Rightarrow> nat \<Rightarrow> client_frame \<Rightarrow> server \<Rightarrow> server"
where
  "host_message D net snap pre version now sid f sv =
     (if \<not> attached sid (sv_host sv) then sv
      else let h = sv_host sv; handshook = se_handshook (the (jm_get (ho_sessions h) sid))
           in case f of
                CMalformed \<Rightarrow> on_host (sendError net sid ''EINVAL'' ''malformed frame'') sv
              | CVersion v \<Rightarrow> on_host (sendError net sid ''EUNSUPPORTED'' (''unsupported protocol v'' @ v)) sv
              | CHandshake prefetch packed \<Rightarrow> on_host (handleHandshake net snap sid prefetch packed) sv
              | _ \<Rightarrow>
                if \<not> handshook then on_host (sendError net sid ''EINVAL'' ''expected handshake first'') sv
                else (case f of
                    CSetExpanded add remove \<Rightarrow>
                      on_host (\<lambda>h. snd (handleSetExpanded D net snap pre version sid add remove h)) sv
                  | CSetViewport off limit over \<Rightarrow> on_host (handleSetViewport net snap sid off limit over) sv
                  | CMutate reqId op args \<Rightarrow> sv\<lparr>sv_queue := sv_queue sv @ [(sid, reqId, op, args)]\<rparr>
                  | CCall reqId method args \<Rightarrow> handleCall net now sid reqId method args sv
                  | CAck v a \<Rightarrow>
                      (case v of
                         Some (Some n) \<Rightarrow>
                           if n \<ge> 0 then notifyAckWaiters net (on_host (handleAck sid v a) sv) else sv
                       | _ \<Rightarrow> sv)
                  | CDispose \<Rightarrow> on_host (detachSession sid) sv
                  | CDecorations pid ts replaceAll \<Rightarrow> on_host (handleDecorations net sid pid ts replaceAll) sv
                  | CUnknown ty \<Rightarrow> on_host (sendError net sid ''EINVAL'' (''unknown message type: '' @ ty)) sv
                  | _ \<Rightarrow> sv))"

end
