(* ===== verification/Host_Sync.thy ===== *)
theory Host_Sync
  imports Host_Client Host_Server
begin

text \<open>
  Every session of a host stays in step with the native tree. A client is taken through the frames the host
  posted to it, in order; the invariant \<open>synced\<close> says that the mirror each attached client has after them
  is \<open>in_step\<close> with the current snapshot. It holds in every state the host reaches through frames of its
  clients, ticks, attachments, load tasks and native changes, whatever the transports do.
\<close>

section \<open>Clients\<close>

definition frames_for :: "nat \<Rightarrow> host_event list \<Rightarrow> inbound_frame list" where
  "frames_for sid evs = List.map_filter (\<lambda>e. case e of Posted s f \<Rightarrow> if s = sid then Some f else None | _ \<Rightarrow> None) evs"

text \<open>What a frame does to the mirror of a client; one that does not decode is dropped.\<close>

definition receive :: "json_parsers \<Rightarrow> nat \<Rightarrow> inbound_frame \<Rightarrow> mirror \<Rightarrow> mirror" where
  "receive J cap f m =
     (case f of
        InSnapshot b \<Rightarrow> (case applySnapshot J m b cap of Inr m' \<Rightarrow> m' | Inl e \<Rightarrow> m)
      | InDelta d ack ackId \<Rightarrow> (case applyDelta J m d cap of Inr m' \<Rightarrow> m' | Inl e \<Rightarrow> m)
      | InDirectoryLoad b \<Rightarrow> applyDirectoryLoad m b
      | InResult r (RObj ob) None \<Rightarrow>
          (case (ro_entries ob, ro_version ob) of (Some es, Some v) \<Rightarrow> hydrateLookupEntries m es v cap | _ \<Rightarrow> m)
      | _ \<Rightarrow> m)"

definition mirror_of :: "json_parsers \<Rightarrow> nat \<Rightarrow> nat \<Rightarrow> host_event list \<Rightarrow> mirror" where
  "mirror_of J cap sid evs = fold (receive J cap) (frames_for sid evs) createMirror"

lemma frames_for_append [simp]: "frames_for sid (xs @ ys) = frames_for sid xs @ frames_for sid ys"
  by (simp add: frames_for_def map_filter_def)

lemma frames_for_one [simp]:
  "frames_for sid [Posted s f] = (if s = sid then [f] else [])" "frames_for sid [ChannelEnded s] = []"
  "frames_for sid [NativeCancel x] = []" "frames_for sid [NativeDrain] = []" "frames_for sid [] = []"
  by (simp_all add: frames_for_def map_filter_def)

lemma mirror_of_append [simp]:
  "mirror_of J cap sid (evs @ [Posted s f]) =
     (if s = sid then receive J cap f (mirror_of J cap sid evs) else mirror_of J cap sid evs)"
  "mirror_of J cap sid (evs @ [ChannelEnded s]) = mirror_of J cap sid evs"
  "mirror_of J cap sid (evs @ [NativeCancel x]) = mirror_of J cap sid evs"
  "mirror_of J cap sid (evs @ [NativeDrain]) = mirror_of J cap sid evs"
  by (simp_all add: mirror_of_def)

text \<open>How often the native changes were drained.\<close>

definition drains :: "host \<Rightarrow> nat" where
  "drains h = length (filter (\<lambda>e. e = NativeDrain) (ho_log h))"

section \<open>Steps that change no entry\<close>

text \<open>A session whose client holds the same entries after the step, and which knows at least as much.\<close>

definition calm_at :: "json_parsers \<Rightarrow> nat \<Rightarrow> nat \<Rightarrow> host \<Rightarrow> host \<Rightarrow> bool" where
  "calm_at J cap sid h h' \<longleftrightarrow>
     (\<forall>s'. jm_get (ho_sessions h') sid = Some s' \<longrightarrow>
        (\<exists>s. jm_get (ho_sessions h) sid = Some s \<and> (se_attached s' \<longrightarrow> se_attached s)
             \<and> set (se_knownIds s) \<subseteq> set (se_knownIds s') \<and> (se_handshook s \<longrightarrow> se_handshook s')
             \<and> se_expanded s' = se_expanded s))
     \<and> (jm_get (ho_sessions h') sid = None \<longrightarrow> jm_get (ho_sessions h) sid = None)
     \<and> (jm_get (ho_sessions h) sid = None \<longrightarrow> frames_for sid (ho_log h') = frames_for sid (ho_log h))
     \<and> byId (mirror_of J cap sid (ho_log h')) = byId (mirror_of J cap sid (ho_log h))"

definition calm :: "json_parsers \<Rightarrow> nat \<Rightarrow> host \<Rightarrow> host \<Rightarrow> bool" where
  "calm J cap h h' \<longleftrightarrow> (\<forall>sid. calm_at J cap sid h h') \<and> ho_nextSessionId h' = ho_nextSessionId h
     \<and> ho_disposed h' = ho_disposed h \<and> (jm_wf (ho_sessions h) \<longrightarrow> jm_wf (ho_sessions h'))
     \<and> drains h' = drains h"

lemma calm_refl [simp, intro]: "calm J cap h h"
  by (auto simp: calm_def calm_at_def)

lemma calm_at_trans:
  assumes "calm_at J cap sid h1 h2" "calm_at J cap sid h2 h3"
  shows "calm_at J cap sid h1 h3"
  unfolding calm_at_def
proof (intro conjI allI impI)
  fix s3 assume "jm_get (ho_sessions h3) sid = Some s3"
  with assms(2) obtain s2 where s2: "jm_get (ho_sessions h2) sid = Some s2" "se_attached s3 \<longrightarrow> se_attached s2"
      "set (se_knownIds s2) \<subseteq> set (se_knownIds s3)" "se_handshook s2 \<longrightarrow> se_handshook s3" "se_expanded s3 = se_expanded s2"
    unfolding calm_at_def by blast
  with assms(1) obtain s1 where "jm_get (ho_sessions h1) sid = Some s1" "se_attached s2 \<longrightarrow> se_attached s1"
      "set (se_knownIds s1) \<subseteq> set (se_knownIds s2)" "se_handshook s1 \<longrightarrow> se_handshook s2" "se_expanded s2 = se_expanded s1"
    unfolding calm_at_def by blast
  with s2 show "\<exists>s. jm_get (ho_sessions h1) sid = Some s \<and> (se_attached s3 \<longrightarrow> se_attached s)
      \<and> set (se_knownIds s) \<subseteq> set (se_knownIds s3) \<and> (se_handshook s \<longrightarrow> se_handshook s3) \<and> se_expanded s3 = se_expanded s"
    by (metis subset_trans)
next
  assume "jm_get (ho_sessions h3) sid = None"
  with assms show "jm_get (ho_sessions h1) sid = None" by (simp add: calm_at_def)
next
  assume none: "jm_get (ho_sessions h1) sid = None"
  then have "jm_get (ho_sessions h2) sid = None"
    using assms(1) unfolding calm_at_def by (cases "jm_get (ho_sessions h2) sid") auto
  with none assms show "frames_for sid (ho_log h3) = frames_for sid (ho_log h1)" by (simp add: calm_at_def)
next
  show "byId (mirror_of J cap sid (ho_log h3)) = byId (mirror_of J cap sid (ho_log h1))"
    using assms by (simp add: calm_at_def)
qed

lemma calm_trans: "calm J cap h1 h2 \<Longrightarrow> calm J cap h2 h3 \<Longrightarrow> calm J cap h1 h3"
  unfolding calm_def using calm_at_trans by metis

lemma calm_fold: "(\<And>x h. calm J cap h (f x h)) \<Longrightarrow> calm J cap h (fold f xs h)"
  by (induction xs arbitrary: h) (auto intro: calm_trans)

text \<open>Only the sessions, the log and the counter matter.\<close>

lemma calm_same:
  assumes "ho_sessions h' = ho_sessions h" "ho_log h' = ho_log h" "ho_nextSessionId h' = ho_nextSessionId h"
    and "ho_disposed h' = ho_disposed h"
  shows "calm J cap h h'"
  using assms by (auto simp: calm_def calm_at_def drains_def)

lemma calm_note:
  "calm J cap h (ho_note (ChannelEnded s) h)" "calm J cap h (ho_note (NativeCancel x) h)"
  by (auto simp: calm_def calm_at_def ho_note_def drains_def)

lemma calm_upd_session:
  assumes "\<And>s. (se_attached (f s) \<longrightarrow> se_attached s) \<and> set (se_knownIds s) \<subseteq> set (se_knownIds (f s))
    \<and> (se_handshook s \<longrightarrow> se_handshook (f s)) \<and> se_expanded (f s) = se_expanded s"
  shows "calm J cap h (upd_session sid f h)"
  using assms by (auto simp: calm_def calm_at_def upd_session_def drains_def split: option.split)

lemma calm_upd_task: "calm J cap h (upd_task g f h)"
  by (auto simp: upd_task_def intro: calm_same split: option.split)

lemma calm_cancel_native: "calm J cap h (cancel_native t h)"
  by (auto simp: cancel_native_def calm_note split: option.split)

lemma calm_leave_load: "calm J cap h (leave_load sid g h)"
proof (cases "jm_get (ho_tasks h) g")
  case (Some t)
  let ?left = "jset_del sid (lt_interestedSessions t)"
  let ?h1 = "upd_task g (\<lambda>t. t\<lparr>lt_interestedSessions := ?left\<rparr>) h"
  let ?h2 = "upd_task g (\<lambda>t. t\<lparr>lt_cancelled := True\<rparr>) ?h1"
  have "leave_load sid g h = (if ?left \<noteq> [] then ?h1 else cancel_native t ?h2)"
    using Some by (simp add: leave_load_def Let_def)
  moreover have "calm J cap h ?h1" by (rule calm_upd_task)
  moreover have "calm J cap h (cancel_native t ?h2)"
    by (rule calm_trans [OF calm_trans [OF calm_upd_task calm_upd_task] calm_cancel_native])
  ultimately show ?thesis by (metis (no_types))
qed (simp add: leave_load_def)

lemma calm_drop_load: "calm J cap h (drop_load sid i h)"
  by (auto simp: drop_load_def calm_leave_load split: option.split)

lemma calm_detach: "calm J cap h (detachSession sid h)"
proof -
  let ?h1 = "fold (drop_load sid) (se_expanded (the (jm_get (ho_sessions h) sid))) h"
  let ?h2 = "upd_session sid (\<lambda>s. s\<lparr>se_attached := False, se_ownedOperationIds := [], se_resyncTimes := []\<rparr>) ?h1"
  have "calm J cap h ?h1" by (rule calm_fold) (rule calm_drop_load)
  moreover have "calm J cap ?h1 ?h2" by (rule calm_upd_session) simp
  moreover have "calm J cap ?h2 (ho_note (ChannelEnded sid) ?h2)" by (rule calm_note)
  ultimately have *: "calm J cap h (ho_note (ChannelEnded sid) ?h2)" by (blast intro: calm_trans)
  have "calm J cap h ((ho_note (ChannelEnded sid) ?h2)\<lparr>ho_ticking := False\<rparr>)"
    by (rule calm_trans [OF *]) (rule calm_same; simp)
  with * show ?thesis by (simp add: detachSession_def Let_def)
qed

definition keeps_entries :: "json_parsers \<Rightarrow> nat \<Rightarrow> inbound_frame \<Rightarrow> bool" where
  "keeps_entries J cap f \<longleftrightarrow> (\<forall>m. byId (receive J cap f m) = byId m)"

lemma byId_applyDirectoryLoad [simp]: "byId (applyDirectoryLoad m b) = byId m"
  by (simp add: applyDirectoryLoad_def Let_def split: load_msg_state.split option.split)

lemma keeps_simps [simp]:
  "keeps_entries J cap (InError c msg fatal cc)" "keeps_entries J cap (InWarning c2 w)"
  "keeps_entries J cap (InDirectoryLoad b)" "keeps_entries J cap (InResult r RNull e)"
  "keeps_entries J cap (InResult r v (Some e2))" "keeps_entries J cap (InResult r (RNumber n) e3)"
  by (simp_all add: keeps_entries_def receive_def split: reply.split)

lemma calm_post:
  assumes "keeps_entries J cap f" "attached sid h"
  shows "calm J cap h (ho_note (Posted sid f) (h\<lparr>ho_sends := n\<rparr>))"
  using assms
  by (auto simp: calm_def calm_at_def ho_note_def keeps_entries_def attached_def drains_def split: option.splits)

lemma too_large_keeps: "too_large f = Some f' \<Longrightarrow> keeps_entries J cap f'"
  by (cases f) (auto simp: too_large_def)

lemma calm_sends: "calm J cap h (h\<lparr>ho_sends := n\<rparr>)"
  by (rule calm_same) simp_all

lemma attached_sends [simp]: "attached sid (h\<lparr>ho_sends := n\<rparr>) = attached sid h"
  by (simp add: attached_def)

text \<open>A frame is sent, or an error takes its place, or the session ends.\<close>

lemma host_send_cases:
  assumes "attached sid h"
  obtains n where "host_send net sid f h = ho_note (Posted sid f) (h\<lparr>ho_sends := n\<rparr>)"
    | "calm J cap h (host_send net sid f h)"
proof (cases "net (ho_sends h)")
  case SendOk
  with assms that(1) [of "ho_sends h + 1"] show ?thesis by (simp add: host_send_def)
next
  case (SendCloses c)
  with assms have "host_send net sid f h = detachSession sid (h\<lparr>ho_sends := ho_sends h + 1\<rparr>)" by (simp add: host_send_def)
  with that(2) calm_trans [OF calm_sends calm_detach] show ?thesis by metis
next
  case SendRefused
  show ?thesis
  proof (cases "too_large f")
    case None
    with SendRefused assms have "host_send net sid f h = detachSession sid (h\<lparr>ho_sends := ho_sends h + 1\<rparr>)"
      by (simp add: host_send_def)
    with that(2) calm_trans [OF calm_sends calm_detach] show ?thesis by metis
  next
    case (Some f')
    let ?h2 = "h\<lparr>ho_sends := ho_sends h + 1 + 1\<rparr>"
    have "host_send net sid f h = (if net (ho_sends h + 1) = SendOk then ho_note (Posted sid f') ?h2 else detachSession sid ?h2)"
      using Some SendRefused assms by (simp add: host_send_def)
    moreover have "calm J cap h (ho_note (Posted sid f') ?h2)" using too_large_keeps [OF Some] assms by (rule calm_post)
    moreover have "calm J cap h (detachSession sid ?h2)" by (rule calm_trans [OF calm_sends calm_detach])
    ultimately show ?thesis using that(2) by metis
  qed
qed

lemma calm_send: "keeps_entries J cap f \<Longrightarrow> calm J cap h (host_send net sid f h)"
proof (cases "attached sid h")
  case True
  assume "keeps_entries J cap f"
  then show ?thesis by (cases rule: host_send_cases [OF True, where net = net and f = f and J = J and cap = cap]) (auto simp: True intro: calm_post)
qed (simp add: host_send_def)

section \<open>Detached sessions\<close>

lemma sessions_simps [simp]:
  "ho_sessions (upd_task g f h) = ho_sessions h" "ho_sessions (cancel_native t h) = ho_sessions h"
  "ho_sessions (leave_load sid g h) = ho_sessions h" "ho_sessions (drop_load sid i h) = ho_sessions h"
  "ho_sessions (ho_note e h) = ho_sessions h"
  by (simp_all add: upd_task_def cancel_native_def leave_load_def drop_load_def ho_note_def Let_def split: option.split)

lemma sessions_fold_drop [simp]: "ho_sessions (fold (drop_load sid) is h) = ho_sessions h"
  by (induction "is" arbitrary: h) simp_all

lemma get_upd_session:
  "jm_get (ho_sessions (upd_session sid f h)) sid' =
     (if sid' = sid then map_option f (jm_get (ho_sessions h) sid) else jm_get (ho_sessions h) sid')"
  by (simp add: upd_session_def split: option.split)

lemma get_detach:
  "jm_get (ho_sessions (detachSession sid h)) sid' =
     (if sid' = sid \<and> attached sid h
      then map_option (\<lambda>s. s\<lparr>se_attached := False, se_ownedOperationIds := [], se_resyncTimes := []\<rparr>) (jm_get (ho_sessions h) sid)
      else jm_get (ho_sessions h) sid')"
  by (auto simp: detachSession_def Let_def get_upd_session)

lemma not_attached_detach [simp]: "\<not> attached sid (detachSession sid h)"
  by (auto simp: attached_def get_detach split: option.split)

definition is_result :: "inbound_frame \<Rightarrow> bool" where
  "is_result f = (case f of InResult r v e \<Rightarrow> True | _ \<Rightarrow> False)"

lemma too_large_iff: "too_large f = None \<longleftrightarrow> \<not> is_result f"
  by (simp add: too_large_def is_result_def split: inbound_frame.split)

lemma send_data_cases:
  assumes "attached sid h" "(\<forall>n. net n = SendOk) \<or> \<not> is_result f"
  obtains n where "host_send net sid f h = ho_note (Posted sid f) (h\<lparr>ho_sends := n\<rparr>)"
    | "calm J cap h (host_send net sid f h)" "\<not> attached sid (host_send net sid f h)"
proof (cases "net (ho_sends h) = SendOk")
  case True
  with assms(1) that(1) [of "ho_sends h + 1"] show ?thesis by (simp add: host_send_def)
next
  case False
  then have "too_large f = None" using assms(2) too_large_iff by blast
  with False have eq: "host_send net sid f h = detachSession sid (h\<lparr>ho_sends := ho_sends h + 1\<rparr>)"
    using assms(1) by (cases "net (ho_sends h)") (simp_all add: host_send_def)
  have "calm J cap h (detachSession sid (h\<lparr>ho_sends := ho_sends h + 1\<rparr>))" by (rule calm_trans [OF calm_sends calm_detach])
  with that(2) show ?thesis unfolding eq by simp
qed

section \<open>The invariant\<close>

text \<open>Each session with the snapshot its mirror follows and the ids still to be drained for it.\<close>

definition ok_at :: "json_parsers \<Rightarrow> nat \<Rightarrow> int set \<Rightarrow> native_snapshot \<Rightarrow> nat \<Rightarrow> host \<Rightarrow> bool" where
  "ok_at J cap P snap sid h \<longleftrightarrow>
     (\<forall>s. jm_get (ho_sessions h) sid = Some s \<and> se_attached s \<longrightarrow>
        in_step P snap s (mirror_of J cap sid (ho_log h))
        \<and> (\<not> se_handshook s \<longrightarrow> byId (mirror_of J cap sid (ho_log h)) = []))"

definition ids_ok :: "host \<Rightarrow> bool" where
  "ids_ok h \<longleftrightarrow>
     (\<forall>sid. jm_get (ho_sessions h) sid = None \<longrightarrow> frames_for sid (ho_log h) = [])
     \<and> (\<forall>sid \<ge> ho_nextSessionId h. jm_get (ho_sessions h) sid = None)
     \<and> (ho_disposed h \<longrightarrow> (\<forall>sid. \<not> attached sid h))"

definition synced_by :: "json_parsers \<Rightarrow> nat \<Rightarrow> (nat \<Rightarrow> int set) \<Rightarrow> (nat \<Rightarrow> native_snapshot) \<Rightarrow> host \<Rightarrow> bool" where
  "synced_by J cap P S h \<longleftrightarrow> (\<forall>sid. ok_at J cap (P sid) (S sid) sid h) \<and> ids_ok h"

abbreviation synced :: "json_parsers \<Rightarrow> nat \<Rightarrow> int set \<Rightarrow> native_snapshot \<Rightarrow> host \<Rightarrow> bool" where
  "synced J cap P snap \<equiv> synced_by J cap (\<lambda>_. P) (\<lambda>_. snap)"

lemma ok_at_calm:
  assumes "calm_at J cap sid h h'" "ok_at J cap P snap sid h"
  shows "ok_at J cap P snap sid h'"
  unfolding ok_at_def
proof (intro allI impI)
  fix s' assume s': "jm_get (ho_sessions h') sid = Some s' \<and> se_attached s'"
  with assms(1) obtain s where s: "jm_get (ho_sessions h) sid = Some s" "se_attached s"
      "set (se_knownIds s) \<subseteq> set (se_knownIds s')" "se_handshook s \<longrightarrow> se_handshook s'"
    unfolding calm_at_def by blast
  have b: "byId (mirror_of J cap sid (ho_log h')) = byId (mirror_of J cap sid (ho_log h))"
    using assms(1) by (simp add: calm_at_def)
  show "in_step P snap s' (mirror_of J cap sid (ho_log h'))
      \<and> (\<not> se_handshook s' \<longrightarrow> byId (mirror_of J cap sid (ho_log h')) = [])"
    using assms(2) s unfolding ok_at_def in_step_def b by blast
qed

lemma ids_ok_calm:
  assumes "calm J cap h h'" "ids_ok h"
  shows "ids_ok h'"
proof -
  have none: "jm_get (ho_sessions h') sid = None \<longleftrightarrow> jm_get (ho_sessions h) sid = None" for sid
    using assms(1) unfolding calm_def calm_at_def by (metis option.exhaust option.simps(3))
  have "frames_for sid (ho_log h') = frames_for sid (ho_log h)" if "jm_get (ho_sessions h) sid = None" for sid
    using assms(1) that by (simp add: calm_def calm_at_def)
  moreover have "attached sid h" if "attached sid h'" for sid
    using assms(1) that unfolding calm_def calm_at_def attached_def by (fastforce split: option.splits)
  ultimately show ?thesis using none assms unfolding ids_ok_def calm_def by metis
qed

lemma synced_calm: "calm J cap h h' \<Longrightarrow> synced_by J cap P S h \<Longrightarrow> synced_by J cap P S h'"
  unfolding synced_by_def using ok_at_calm ids_ok_calm by (metis calm_def)

lemma ok_at_not_attached: "\<not> attached sid h \<Longrightarrow> ok_at J cap P snap sid h"
  by (auto simp: ok_at_def attached_def)

text \<open>One session gets a data frame; the others are not concerned.\<close>

lemma synced_data:
  assumes "synced_by J cap P S h" "jm_get (ho_sessions h) sid = Some s" "se_attached s"
    and "se_attached s'" "se_handshook s'" "(\<forall>n. net n = SendOk) \<or> \<not> is_result f"
    and "in_step p' snap' s' (receive J cap f (mirror_of J cap sid (ho_log h)))"
  shows "synced_by J cap (P(sid := p')) (S(sid := snap')) (host_send net sid f (upd_session sid (\<lambda>_. s') h))"
proof -
  let ?h1 = "upd_session sid (\<lambda>_. s') h"
  have h1: "jm_get (ho_sessions ?h1) sid = Some s'" "ho_log ?h1 = ho_log h" "ho_nextSessionId ?h1 = ho_nextSessionId h"
      "sid' \<noteq> sid \<Longrightarrow> jm_get (ho_sessions ?h1) sid' = jm_get (ho_sessions h) sid'" for sid'
    using assms(2) by (simp_all add: upd_session_def)
  have other: "ok_at J cap (P sid') (S sid') sid' ?h1" if "sid' \<noteq> sid" for sid'
    using assms(1) that unfolding synced_by_def ok_at_def by (metis h1(2,4))
  have nd: "\<not> ho_disposed h"
    using assms(1,2,3) by (auto simp: synced_by_def ids_ok_def attached_def split: option.splits)
  then have "\<not> ho_disposed ?h1" by (simp add: upd_session_def split: option.split)
  moreover have "jm_get (ho_sessions ?h1) sid' = None \<longleftrightarrow> jm_get (ho_sessions h) sid' = None" for sid'
    using assms(2) by (simp add: get_upd_session)
  ultimately have ids: "ids_ok ?h1" using assms(1) by (simp add: synced_by_def ids_ok_def h1(2,3))
  have att: "attached sid ?h1" using h1(1) assms(4) by (simp add: attached_def)
  show ?thesis
  proof (cases rule: send_data_cases [OF att assms(6), where J = J and cap = cap])
    case (1 n)
    have "ok_at J cap p' snap' sid (host_send net sid f ?h1)"
      using assms(5,7) h1 by (simp add: 1 ok_at_def ho_note_def)
    moreover have "ok_at J cap (P sid') (S sid') sid' (host_send net sid f ?h1)" if "sid' \<noteq> sid" for sid'
      using other [OF that] that by (auto simp: 1 ok_at_def ho_note_def)
    moreover have "ids_ok (host_send net sid f ?h1)"
      using ids h1(1) by (auto simp: 1 ids_ok_def ho_note_def attached_def)
    ultimately show ?thesis by (simp add: synced_by_def)
  next
    case 2
    have "ok_at J cap p' snap' sid (host_send net sid f ?h1)" using 2(2) by (rule ok_at_not_attached)
    moreover have "ok_at J cap (P sid') (S sid') sid' (host_send net sid f ?h1)" if "sid' \<noteq> sid" for sid'
    proof (rule ok_at_calm)
      show "calm_at J cap sid' ?h1 (host_send net sid f ?h1)" using 2(1) by (simp add: calm_def)
    qed (rule other [OF that])
    ultimately show ?thesis using ids_ok_calm [OF 2(1) ids] by (simp add: synced_by_def)
  qed
qed

section \<open>Ticks\<close>

text \<open>Expansion sets of ids that a JavaScript \<open>Set\<close> can hold.\<close>

definition small :: "host \<Rightarrow> bool" where
  "small h \<longleftrightarrow> (\<forall>sid s. jm_get (ho_sessions h) sid = Some s \<longrightarrow> length (se_expanded s) < 2 ^ 32 \<and> list_all is_id (se_expanded s))"

lemma get_send:
  "jm_get (ho_sessions (host_send net sid f h)) x = Some s' \<Longrightarrow>
     \<exists>s. jm_get (ho_sessions h) x = Some s \<and> se_expanded s' = se_expanded s \<and> (se_attached s' \<longrightarrow> se_attached s)
       \<and> se_handshook s' = se_handshook s \<and> se_knownIds s' = se_knownIds s \<and> se_context s' = se_context s
       \<and> se_viewport s' = se_viewport s \<and> se_viewportIds s' = se_viewportIds s \<and> se_packedChildLists s' = se_packedChildLists s"
  by (auto simp: host_send_def Let_def get_detach ho_note_def split: if_splits send_outcome.splits option.splits)

lemma attached_send: "attached x (host_send net sid f h) \<Longrightarrow> attached x h"
  using get_send [of net sid f h x] by (auto simp: attached_def split: option.splits)

lemma small_host_send: "small h \<Longrightarrow> small (host_send net sid f h)"
  unfolding small_def using get_send by (metis (no_types))

lemma small_upd: "small h \<Longrightarrow> (\<And>s. se_expanded (f s) = se_expanded s) \<Longrightarrow> small (upd_session sid f h)"
  by (auto simp: small_def get_upd_session)

lemma not_live: "sid \<notin> set (live h) \<Longrightarrow> \<not> attached sid h"
  by (auto simp: live_def attached_def image_iff split: option.splits dest!: map_of_SomeD)

lemma agrees_shift: "agrees old e \<Longrightarrow> ce_id e \<in> changed_between old snap \<or> agrees snap e"
  unfolding agrees_def changed_between_def mem_Collect_eq by metis

lemma in_step_shift: "in_step P old s m \<Longrightarrow> in_step (P \<union> changed_between old snap) snap s m"
  unfolding in_step_def using agrees_shift by blast

lemma in_step_empty: "byId m = [] \<Longrightarrow> in_step P snap s m"
  by (simp add: in_step_def)

lemma ok_at_attached:
  assumes "ok_at J cap P snap sid h" "attached sid h"
  obtains s where "jm_get (ho_sessions h) sid = Some s" "se_attached s"
    "in_step P snap s (mirror_of J cap sid (ho_log h))"
    "\<not> se_handshook s \<longrightarrow> byId (mirror_of J cap sid (ho_log h)) = []"
  using assms by (auto simp: ok_at_def attached_def split: option.splits)

lemma synced_upd:
  assumes "synced_by J cap P S h" "ok_at J cap p snap sid h"
  shows "synced_by J cap (P(sid := p)) (S(sid := snap)) h"
  using assms by (simp add: synced_by_def)

lemma tick_session_synced:
  assumes "snapshot_ok snap" "P sid \<subseteq> set (cs_changedIds (ba_cs b))"
    and "tick_session net snap b sid (o0, h0) = (out, h)" "out \<noteq> TickThrew"
    and "synced_by J cap P S h0" "small h0"
  shows "synced_by J cap (P(sid := changed_between (S sid) snap)) (S(sid := snap)) h \<and> small h
    \<and> o0 \<noteq> TickThrew \<and> (\<forall>x. attached x h \<longrightarrow> attached x h0)"
proof (cases "attached sid h0")
  case False
  with assms show ?thesis
    by (auto simp: tick_session_def Let_def split: if_splits intro!: synced_upd ok_at_not_attached)
next
  case True
  have "ok_at J cap (P sid) (S sid) sid h0" using assms(5) by (simp add: synced_by_def)
  then obtain s where s: "jm_get (ho_sessions h0) sid = Some s" "se_attached s"
      "in_step (P sid) (S sid) s (mirror_of J cap sid (ho_log h0))"
      "\<not> se_handshook s \<longrightarrow> byId (mirror_of J cap sid (ho_log h0)) = []"
    using True by (rule ok_at_attached)
  have o0: "o0 \<noteq> TickThrew" using assms(3,4) by (auto simp: tick_session_def Let_def split: if_splits)
  show ?thesis
  proof (cases "se_handshook s")
    case False
    then have "h = h0" using assms(3) True s(1) o0 by (simp add: tick_session_def)
    moreover have "ok_at J cap (changed_between (S sid) snap) snap sid h0"
      using s False by (auto simp: ok_at_def intro: in_step_empty)
    ultimately show ?thesis using assms(5,6) o0 by (auto intro: synced_upd)
  next
    case hs: True
    obtain p s' where ps: "plan_delta snap b s = (p, s')" by fastforce
    then obtain d where d: "seal_delta (se_packedChildLists s) p = Some d"
      and h: "h = host_send net sid (InDelta d (ba_ackId b \<noteq> None) (ba_ackId b)) (upd_session sid (\<lambda>_. s') h0)"
      using assms(3,4) True s(1) hs o0 by (auto simp: tick_session_def Let_def split: option.splits)
    have len: "length (se_expanded s) < 2 ^ 32" using assms(6) s(1) by (simp add: small_def)
    from tick_in_step [OF assms(1) ps d s(3) len assms(2), of J cap]
    have "in_step (changed_between (S sid) snap) snap s'
        (receive J cap (InDelta d (ba_ackId b \<noteq> None) (ba_ackId b)) (mirror_of J cap sid (ho_log h0)))"
      by (auto simp: receive_def)
    with assms(5) s hs plan_delta_frame(2,3) [OF ps]
    have "synced_by J cap (P(sid := changed_between (S sid) snap)) (S(sid := snap)) h"
      unfolding h by (intro synced_data) (auto simp: is_result_def)
    moreover have "small (upd_session sid (\<lambda>_. s') h0)"
      using assms(6) s(1) plan_delta_frame(4) [OF ps] by (auto simp: small_def get_upd_session)
    then have "small h" unfolding h by (rule small_host_send)
    moreover have "attached x h0" if "attached x h" for x
      using attached_send [of x] that plan_delta_frame(2) [OF ps] s
      unfolding h by (fastforce simp: attached_def get_upd_session split: option.splits if_splits)
    ultimately show ?thesis using o0 by blast
  qed
qed

lemma tick_sessions_synced:
  assumes "snapshot_ok snap" "Pd \<subseteq> set (cs_changedIds (ba_cs b))"
    and "fold (tick_session net snap b) sids (o0, h0) = (out, h)" "out \<noteq> TickThrew"
    and "distinct sids"
    and "synced_by J cap P S h0" "small h0" "\<forall>x \<in> set sids. P x = Pd \<and> S x = old"
  shows "synced_by J cap (\<lambda>x. if x \<in> set sids then changed_between old snap else P x) (\<lambda>x. if x \<in> set sids then snap else S x) h
    \<and> small h \<and> (\<forall>x. attached x h \<longrightarrow> attached x h0)"
  using assms(3,5-8)
proof (induction sids arbitrary: o0 h0 P S)
  case (Cons sid sids)
  obtain o1 h1 where s1: "tick_session net snap b sid (o0, h0) = (o1, h1)" by fastforce
  with Cons.prems(1) have rest: "fold (tick_session net snap b) sids (o1, h1) = (out, h)" by simp
  have "o1 \<noteq> TickThrew"
  proof
    assume "o1 = TickThrew"
    moreover have "fst (fold (tick_session net snap b) sids (TickThrew, h)) = TickThrew" for h
      by (induction sids) (simp_all add: tick_session_def)
    ultimately show False using rest assms(4) by (metis fst_conv)
  qed
  from tick_session_synced [OF assms(1) _ s1 this Cons.prems(3,4)] assms(2) Cons.prems(5)
  have one: "synced_by J cap (P(sid := changed_between old snap)) (S(sid := snap)) h1" "small h1"
      "\<forall>x. attached x h1 \<longrightarrow> attached x h0"
    by auto
  have "\<forall>x \<in> set sids. (P(sid := changed_between old snap)) x = Pd \<and> (S(sid := snap)) x = old"
    using Cons.prems(2,5) by auto
  from Cons.IH [OF rest _ one(1,2) this] Cons.prems(2)
  have *: "synced_by J cap (\<lambda>x. if x \<in> set sids then changed_between old snap else (P(sid := changed_between old snap)) x)
        (\<lambda>x. if x \<in> set sids then snap else (S(sid := snap)) x) h" "small h" "\<forall>x. attached x h \<longrightarrow> attached x h1"
    by auto
  have "(\<lambda>x. if x \<in> set sids then changed_between old snap else (P(sid := changed_between old snap)) x) =
      (\<lambda>x. if x \<in> set (sid # sids) then changed_between old snap else P x)"
    and "(\<lambda>x. if x \<in> set sids then snap else (S(sid := snap)) x) = (\<lambda>x. if x \<in> set (sid # sids) then snap else S x)"
    by (rule ext, simp)+
  with * one(3) show ?case by (metis (no_types, lifting))
qed simp

lemma synced_weaken:
  assumes "synced_by J cap P S h" "\<And>x. attached x h \<Longrightarrow> P x = p \<and> S x = snap"
  shows "synced J cap p snap h"
  unfolding synced_by_def
proof (intro conjI allI)
  fix x show "ok_at J cap p snap x h"
    using assms by (cases "attached x h") (auto simp: synced_by_def intro: ok_at_not_attached)
qed (use assms(1) in \<open>simp add: synced_by_def\<close>)

lemma drain_batch_synced:
  assumes "drain_batch D cs h = (b, h1)"
  shows "ba_cs b = cs" "live h1 = live h" "ho_sessions h1 = ho_sessions h"
    "synced_by J cap P S h1 = synced_by J cap P S h" "drains h1 = Suc (drains h)"
  using assms by (auto simp: drain_batch_def live_def synced_by_def ok_at_def ids_ok_def ho_note_def attached_def drains_def)

lemma synced_shift: "synced J cap P old h \<Longrightarrow> synced J cap (P \<union> changed_between old snap) snap h"
  unfolding synced_by_def ok_at_def using in_step_shift by blast

lemma jm_wf_live: "jm_wf (ho_sessions h) \<Longrightarrow> distinct (live h)"
  by (auto simp: jm_wf_def live_def distinct_map intro: distinct_filter inj_on_subset)

text \<open>A tick brings every session to the snapshot it read; changes that landed since stay pending.\<close>

lemma synced_tick:
  assumes "snapshot_ok snap" "P \<subseteq> set (cs_changedIds cs)" "jm_wf (ho_sessions h)"
    and "tick D net cs snap h = (out, h')" "out \<noteq> TickThrew"
    and "synced J cap P old h" "small h"
  shows "synced J cap (changed_between old snap) snap h' \<and> small h'"
proof (cases "ho_disposed h \<or> live h = []")
  case True
  then have h': "h' = h" using assms(4) by (auto simp: tick_def)
  have "\<not> attached x h" for x
    using True assms(6) not_live [of x h] by (auto simp: synced_by_def ids_ok_def)
  with assms(6,7) show ?thesis unfolding h' by (auto intro: synced_weaken)
next
  case False
  obtain b h1 where b: "drain_batch D cs h = (b, h1)" by fastforce
  note b' = drain_batch_synced [OF b]
  have h1: "synced J cap P old h1" "small h1"
    using b' assms(6,7) by (simp_all add: small_def)
  show ?thesis
  proof (cases "tick_idle snap b h1")
    case True
    then have h': "h' = h1" using False assms(4) b by (simp add: tick_def)
    have "cs_changedIds cs = []" using True b' by (auto simp: tick_idle_def changeSetEmpty_def)
    with assms(2) have "P = {}" by simp
    with synced_shift [OF h1(1), of snap] h1(2) show ?thesis unfolding h' by simp
  next
    case busy: False
    then have f: "fold (tick_session net snap b) (live h1) (TickQuiet, h1) = (out, h')"
      using False assms(4) b by (simp add: tick_def)
    have "distinct (live h1)" using jm_wf_live [OF assms(3)] b' by simp
    moreover have "P \<subseteq> set (cs_changedIds (ba_cs b))" using assms(2) b' by simp
    ultimately have *: "synced_by J cap (\<lambda>x. if x \<in> set (live h1) then changed_between old snap else P)
        (\<lambda>x. if x \<in> set (live h1) then snap else old) h'" "small h'" "\<forall>x. attached x h' \<longrightarrow> attached x h1"
      using tick_sessions_synced [OF assms(1) _ f assms(5) _ h1] by auto
    have "synced J cap (changed_between old snap) snap h'"
      using *(1) by (rule synced_weaken) (use *(3) not_live [of _ h1] in auto)
    with *(2) show ?thesis by simp
  qed
qed

section \<open>Other frames with entries\<close>

lemma held_after_snapshot:
  assumes "applySnapshot J m msg cap = Inr m'" "decodeEntryPayload J (sn_mirror msg) (sn_entriesJson msg) = Inr es"
    and "jm_get (byId m') i = Some e"
  shows "e \<in> set es \<and> ce_id e = i"
proof -
  let ?s1 = "fold store_entry es (fresh_mirror m msg)"
  have b: "byId (fold order_children kvs x) = byId x" for kvs x
    by (induction kvs arbitrary: x) (simp_all add: order_children_def)
  have "byId (fold store_entry es x) = store_all es (byId x)" for x
    by (induction es arbitrary: x) (simp_all add: store_all_def)
  then have s1: "byId ?s1 = store_all es []" by (simp add: fresh_mirror_def)
  from assms(1,2) obtain s4 where m': "m' = evictToCap s4 cap (activeSet s4)" and "byId s4 = byId ?s1"
    by (auto simp: applySnapshot_def Let_def merge_counts_def b)
  with s1 assms(3) have "jm_get (store_all es []) i = Some e" by (simp add: evict_get split: if_splits)
  then show ?thesis by (auto simp: jm_get_store_all split: option.splits dest: find_rev_Some)
qed

lemma held_after_lookup:
  assumes "jm_get (byId (hydrateLookupEntries m es v cap)) i = Some e"
  shows "e \<in> set es \<and> ce_id e = i \<or> jm_get (byId m) i = Some e"
proof (cases "es = []")
  case False
  have f: "byId (fst (fold (\<lambda>e (s, act). (store_entry e s, jset_add (ce_id e) act)) es (x, a))) = store_all es (byId x)" for x a
    by (induction es arbitrary: x a) (simp_all add: store_all_def)
  obtain s2 act where s2: "fold (\<lambda>e (s, act). (store_entry e s, jset_add (ce_id e) act)) es
      (m\<lparr>treeVersion := max (treeVersion m) v, projectionVersion := projectionVersion m + 1\<rparr>,
       activeSet (m\<lparr>treeVersion := max (treeVersion m) v, projectionVersion := projectionVersion m + 1\<rparr>)) = (s2, act)"
    by fastforce
  with f have "byId s2 = store_all es (byId m)" by (metis (no_types, lifting) fst_conv mirror.select_convs(1) mirror.surjective mirror.update_convs(10) mirror.update_convs(11))
  moreover have "hydrateLookupEntries m es v cap = evictToCap s2 cap act"
    using False s2 by (simp add: hydrateLookupEntries_def Let_def)
  ultimately have "jm_get (store_all es (byId m)) i = Some e"
    using assms by (simp add: evict_get split: if_splits)
  then show ?thesis by (auto simp: jm_get_store_all split: option.splits dest: find_rev_Some)
qed (use assms in \<open>simp add: hydrateLookupEntries_def\<close>)

lemma root_entries_ok:
  assumes "snapshot_ok snap" "e \<in> set (root_entries snap)"
  shows "agrees snap e \<and> safe_entry e"
  using assms get_agrees [OF assms(1)] by (auto simp: root_entries_def map_filter_def)

lemma handshake_synced:
  assumes "snapshot_ok snap" "synced J cap P snap h" "attached sid h"
  shows "synced J cap P snap (handleHandshake net snap sid prefetch packed h)"
proof -
  have "ok_at J cap P snap sid h" using assms(2) by (simp add: synced_by_def)
  then obtain s where s: "jm_get (ho_sessions h) sid = Some s" "se_attached s" using assms(3) by (rule ok_at_attached)
  let ?es = "root_entries snap"
  define s' where "s' = s\<lparr>se_handshook := True, se_packedChildLists := packed,
      se_prefetchRows := grant_prefetch (se_context s) prefetch,
      se_knownIds := fold (\<lambda>e. jset_add (ce_id e)) ?es (se_knownIds s), se_lastRootIds := ns_roots snap\<rparr>"
  have known: "set (se_knownIds s') = ce_id ` set ?es \<union> set (se_knownIds s)" by (simp add: s'_def set_fold_known)
  have "length ?es \<le> length (ns_roots snap)"
    by (simp add: root_entries_def map_filter_def)
  then have len: "length ?es < 2 ^ 32" using assms(1) by (simp add: snapshot_ok_def)
  have safe: "list_all safe_entry ?es" using root_entries_ok [OF assms(1)] by (simp add: list_all_iff)
  then have enc: "encodeClientEntries ?es = Inr (enc_vec enc_entry ?es)"
    using len safe_entry_encodable by (auto simp: encodeClientEntries_eq safe_nat_def MAX_SAFE_def list_all_iff)
  define eb where "eb = (if ?es = [] then None else Some (enc_vec enc_entry ?es))"
  have eb: "encode_entries ?es = Some eb" by (simp add: encode_entries_def enc eb_def)
  define msg where "msg = \<lparr>sn_version = ns_treeVersion snap, sn_roots = ns_roots snap, sn_mirror = eb, sn_entriesJson = None,
      sn_directChildCounts = object_of (fold (\<lambda>e. add_count snap (ce_id e)) ?es []),
      sn_visibleCount = int (length ?es), sn_visibility = Some (snap_visibility snap)\<rparr>"
  have dec: "decodeEntryPayload J (sn_mirror msg) (sn_entriesJson msg) = Inr ?es"
    using decodeClientEntries_enc [OF len safe]
    by (simp add: decodeEntryPayload_def msg_def eb_def decodeEntries_def lift_error_def)
  then obtain m' where m': "applySnapshot J m msg cap = Inr m'" if "m = mirror_of J cap sid (ho_log h)" for m
    by (simp add: applySnapshot_def Let_def)
  have "in_step P snap s' (receive J cap (InSnapshot msg) (mirror_of J cap sid (ho_log h)))"
    using held_after_snapshot [OF m' [OF refl] dec] root_entries_ok [OF assms(1)] known
    by (auto simp: receive_def m' in_step_def)
  then have "synced_by J cap ((\<lambda>_. P)(sid := P)) ((\<lambda>_. snap)(sid := snap)) (host_send net sid (InSnapshot msg) (upd_session sid (\<lambda>_. s') h))"
    using assms(2) s by (intro synced_data) (auto simp: is_result_def s'_def)
  then have *: "synced J cap P snap (host_send net sid (InSnapshot msg) (upd_session sid (\<lambda>_. s') h))"
    by (simp add: fun_upd_idem)
  have eq: "handleHandshake net snap sid prefetch packed h =
      (let h2 = host_send net sid (InSnapshot msg) (upd_session sid (\<lambda>_. s') h)
       in if requested_prefetch prefetch \<noteq> grant_prefetch (se_context s) prefetch
          then clamp_warning net sid (WClampPrefetch (requested_prefetch prefetch) (grant_prefetch (se_context s) prefetch)
                 (viewportRowCap (se_context s))) h2
          else h2)"
    using s(1) eb by (simp add: handleHandshake_def Let_def s'_def msg_def)
  show ?thesis unfolding eq Let_def clamp_warning_def
    using * synced_calm [OF calm_send [OF keeps_simps(2)]] by simp
qed

section \<open>Good steps\<close>

definition host_inv :: "json_parsers \<Rightarrow> nat \<Rightarrow> int set \<Rightarrow> native_snapshot \<Rightarrow> host \<Rightarrow> bool" where
  "host_inv J cap P snap h \<longleftrightarrow> synced J cap P snap h \<and> small h \<and> jm_wf (ho_sessions h)"

text \<open>What is pending after a step: nothing when the step drained the changes.\<close>

definition moved :: "int set \<Rightarrow> host \<Rightarrow> host \<Rightarrow> int set" where
  "moved P h h' = (if drains h' = drains h then P else {})"

text \<open>Sessions that shook hands stay so.\<close>

definition steady :: "host \<Rightarrow> host \<Rightarrow> bool" where
  "steady h h' \<longleftrightarrow> (\<forall>sid s. jm_get (ho_sessions h) sid = Some s \<and> se_handshook s \<longrightarrow>
     (\<exists>s'. jm_get (ho_sessions h') sid = Some s' \<and> se_handshook s'))"

lemma steady_refl [simp]: "steady h h"
  by (simp add: steady_def)

lemma steady_trans: "steady h1 h2 \<Longrightarrow> steady h2 h3 \<Longrightarrow> steady h1 h3"
  unfolding steady_def by blast

lemma steady_fold: "(\<And>x h. steady h (f x h)) \<Longrightarrow> steady h (fold f xs h)"
  by (induction xs arbitrary: h) (auto intro: steady_trans)

lemma steady_calm: "calm J cap h h' \<Longrightarrow> steady h h'"
  unfolding steady_def calm_def calm_at_def by (metis option.exhaust option.inject option.simps(3))

lemma steady_upd:
  assumes "\<And>s. jm_get (ho_sessions h) sid = Some s \<Longrightarrow> se_handshook s \<Longrightarrow> se_handshook (f s)"
  shows "steady h (upd_session sid f h)"
  using assms by (auto simp: steady_def get_upd_session)

lemma get_send_none: "jm_get (ho_sessions (host_send net sid f h)) x = None \<longleftrightarrow> jm_get (ho_sessions h) x = None"
  by (simp add: host_send_def Let_def get_detach split: send_outcome.split option.split)

lemma steady_send: "steady h (host_send net sid f h)"
  unfolding steady_def using get_send get_send_none by (metis option.exhaust option.inject option.simps(3))

text \<open>\<open>C\<close> are the ids the change sets drained in the step report.\<close>

definition good :: "json_parsers \<Rightarrow> nat \<Rightarrow> native_snapshot \<Rightarrow> int set \<Rightarrow> host \<Rightarrow> host \<Rightarrow> bool" where
  "good J cap snap C h h' \<longleftrightarrow> drains h \<le> drains h' \<and> steady h h'
     \<and> (\<forall>P \<subseteq> C. host_inv J cap P snap h \<longrightarrow> host_inv J cap (moved P h h') snap h')"

lemma good_refl [simp]: "good J cap snap C h h"
  by (simp add: good_def moved_def)

lemma good_trans:
  assumes "good J cap snap C h1 h2" "good J cap snap C h2 h3"
  shows "good J cap snap C h1 h3"
proof -
  have d: "drains h1 \<le> drains h2" "drains h2 \<le> drains h3" using assms by (simp_all add: good_def)
  then have m: "moved P h1 h3 = moved (moved P h1 h2) h2 h3" for P by (auto simp: moved_def)
  have sub: "P \<subseteq> C \<Longrightarrow> moved P h1 h2 \<subseteq> C" for P by (auto simp: moved_def)
  show ?thesis unfolding good_def
  proof (intro conjI allI impI)
    fix P assume P: "P \<subseteq> C" "host_inv J cap P snap h1"
    then have "host_inv J cap (moved P h1 h2) snap h2" using assms(1) by (simp add: good_def)
    with sub [OF P(1)] have "host_inv J cap (moved (moved P h1 h2) h2 h3) snap h3" using assms(2) by (simp add: good_def)
    then show "host_inv J cap (moved P h1 h3) snap h3" unfolding m .
  next
    show "steady h1 h3" using assms by (auto simp: good_def intro: steady_trans)
  qed (use d in linarith)
qed

lemma small_calm: "calm J cap h h' \<Longrightarrow> small h \<Longrightarrow> small h'"
  unfolding calm_def calm_at_def small_def by metis

lemma good_calm:
  assumes "calm J cap h h'"
  shows "good J cap snap C h h'"
proof -
  have "drains h' = drains h" using assms by (simp add: calm_def)
  moreover have "host_inv J cap P snap h'" if "host_inv J cap P snap h" for P
    using that synced_calm [OF assms] small_calm [OF assms] assms by (simp add: host_inv_def calm_def)
  ultimately show ?thesis using steady_calm [OF assms] by (simp add: good_def moved_def)
qed

lemma good_fold: "(\<And>x h. x \<in> set xs \<Longrightarrow> good J cap snap C h (f x h)) \<Longrightarrow> good J cap snap C h (fold f xs h)"
  by (induction xs arbitrary: h) (auto intro: good_trans)

lemma drains_simps [simp]:
  "drains (upd_session sid f h) = drains h" "drains (h\<lparr>ho_sends := n\<rparr>) = drains h"
  by (auto simp: drains_def upd_session_def split: option.split)

lemma drains_detach [simp]: "drains (detachSession sid h) = drains h"
  using calm_detach [of undefined 0 h sid] by (simp add: calm_def)

lemma drains_send [simp]: "drains (host_send net sid f h) = drains h"
proof -
  have "drains (ho_note (Posted sid g) x) = drains x" for g x by (simp add: drains_def ho_note_def)
  then show ?thesis by (auto simp: host_send_def Let_def split: send_outcome.split option.split)
qed

lemma wf_upd_session: "jm_wf (ho_sessions h) \<Longrightarrow> jm_wf (ho_sessions (upd_session sid f h))"
  by (auto simp: upd_session_def split: option.split)

lemma wf_host_send: "jm_wf (ho_sessions h) \<Longrightarrow> jm_wf (ho_sessions (host_send net sid f h))"
proof -
  assume "jm_wf (ho_sessions h)"
  moreover have "jm_wf (ho_sessions x) \<Longrightarrow> jm_wf (ho_sessions (detachSession s x))" for s x
    using calm_detach [of undefined 0 x s] by (simp add: calm_def)
  ultimately show ?thesis by (auto simp: host_send_def Let_def split: send_outcome.split option.split)
qed

text \<open>A data frame to one session, seen from the whole host.\<close>

lemma good_data:
  assumes "jm_get (ho_sessions h) sid = Some s"
    and "se_attached s' = se_attached s" "se_expanded s' = se_expanded s" "se_handshook s'"
    and "(\<forall>n. net n = SendOk) \<or> \<not> is_result f"
    and "\<And>P m. in_step P snap s m \<Longrightarrow> in_step P snap s' (receive J cap f m)"
  shows "good J cap snap C h (host_send net sid f (upd_session sid (\<lambda>_. s') h))"
proof (cases "se_attached s")
  case True
  show ?thesis unfolding good_def
  proof (intro conjI allI impI)
    fix P assume inv: "host_inv J cap P snap h"
    then have "in_step P snap s (mirror_of J cap sid (ho_log h))"
      using assms(1) True by (auto simp: host_inv_def synced_by_def ok_at_def)
    with inv True assms have "synced_by J cap ((\<lambda>_. P)(sid := P)) ((\<lambda>_. snap)(sid := snap))
        (host_send net sid f (upd_session sid (\<lambda>_. s') h))"
      by (intro synced_data) (auto simp: host_inv_def)
    moreover have "small (upd_session sid (\<lambda>_. s') h)"
      using inv assms(1,3) by (auto simp: host_inv_def small_def get_upd_session)
    ultimately show "host_inv J cap (moved P h (host_send net sid f (upd_session sid (\<lambda>_. s') h))) snap
        (host_send net sid f (upd_session sid (\<lambda>_. s') h))"
      using inv wf_host_send wf_upd_session small_host_send by (simp add: moved_def host_inv_def fun_upd_idem)
  next
    show "steady h (host_send net sid f (upd_session sid (\<lambda>_. s') h))"
      using assms(4) by (intro steady_trans [OF steady_upd steady_send]) simp
  qed simp
next
  case False
  have "\<not> attached sid (upd_session sid (\<lambda>_. s') h)"
    using assms(1,2) False by (simp add: attached_def get_upd_session)
  then have eq: "host_send net sid f (upd_session sid (\<lambda>_. s') h) = upd_session sid (\<lambda>_. s') h"
    by (simp add: host_send_def)
  have "host_inv J cap P snap (upd_session sid (\<lambda>_. s') h)" if inv: "host_inv J cap P snap h" for P
  proof -
    have "ok_at J cap P snap x (upd_session sid (\<lambda>_. s') h)" for x
      using inv False assms(1,2)
      by (cases "x = sid") (auto simp: host_inv_def synced_by_def ok_at_def get_upd_session upd_session_def)
    moreover have "attached x (upd_session sid (\<lambda>_. s') h) = attached x h" for x
      using assms(1,2) False by (simp add: attached_def get_upd_session)
    moreover have "(jm_get (ho_sessions (upd_session sid (\<lambda>_. s') h)) x = None) = (jm_get (ho_sessions h) x = None)" for x
      using assms(1) by (simp add: get_upd_session)
    moreover have "ho_log (upd_session sid (\<lambda>_. s') h) = ho_log h" "ho_disposed (upd_session sid (\<lambda>_. s') h) = ho_disposed h"
        "ho_nextSessionId (upd_session sid (\<lambda>_. s') h) = ho_nextSessionId h"
      using assms(1) by (simp_all add: upd_session_def)
    moreover have "small (upd_session sid (\<lambda>_. s') h)"
      using inv assms(1,3) by (auto simp: host_inv_def small_def get_upd_session)
    ultimately show ?thesis using inv wf_upd_session by (simp add: host_inv_def synced_by_def ids_ok_def)
  qed
  moreover have "steady h (upd_session sid (\<lambda>_. s') h)" using assms(4) by (intro steady_upd) simp
  ultimately show ?thesis unfolding eq by (simp add: good_def moved_def)
qed

end
