(* ===== verification/Host_Reach.thy ===== *)
theory Host_Reach
  imports Host_Sync
begin

text \<open>
  Every operation of the host is a \<open>good\<close> step: it keeps each client in step with the native tree. The
  operations are taken one by one, up to the whole server, whose reachable states the last part describes.
\<close>

section \<open>Ticks and viewports\<close>

lemma drains_tick_session [simp]: "drains (snd (tick_session net snap b sid oh)) = drains (snd oh)"
  by (cases oh) (auto simp: tick_session_def Let_def split: prod.split option.split)

lemma drains_tick_sessions: "drains (snd (fold (tick_session net snap b) sids oh)) = drains (snd oh)"
  by (induction sids arbitrary: oh) simp_all

lemma wf_tick_session: "jm_wf (ho_sessions (snd oh)) \<Longrightarrow> jm_wf (ho_sessions (snd (tick_session net snap b sid oh)))"
  by (cases oh) (auto simp: tick_session_def Let_def split: prod.split option.split intro: wf_host_send wf_upd_session)

lemma wf_tick_sessions:
  "jm_wf (ho_sessions (snd oh)) \<Longrightarrow> jm_wf (ho_sessions (snd (fold (tick_session net snap b) sids oh)))"
  by (induction sids arbitrary: oh) (simp_all add: wf_tick_session)

lemma tick_drains:
  assumes "tick D net cs snap h = (out, h')"
  shows "h' = h \<or> drains h' = Suc (drains h)" "jm_wf (ho_sessions h) \<Longrightarrow> jm_wf (ho_sessions h')"
proof -
  obtain b h1 where b: "drain_batch D cs h = (b, h1)" by fastforce
  note b' = drain_batch_synced(3,5) [OF b]
  have *: "drains (snd (fold (tick_session net snap b) (live h1) (TickQuiet, h1))) = Suc (drains h)"
    using b' by (simp add: drains_tick_sessions)
  with assms b b' show "h' = h \<or> drains h' = Suc (drains h)"
    by (auto simp: tick_def split: if_splits dest: arg_cong [of _ _ snd])
  assume "jm_wf (ho_sessions h)"
  with b'(1) have "jm_wf (ho_sessions (snd (fold (tick_session net snap b) (live h1) (TickQuiet, h1))))"
    by (intro wf_tick_sessions) simp
  with assms b b' \<open>jm_wf (ho_sessions h)\<close> show "jm_wf (ho_sessions h')"
    by (auto simp: tick_def split: if_splits dest: arg_cong [of _ _ snd])
qed

lemma steady_tick_session: "steady (snd oh) (snd (tick_session net snap b sid oh))"
proof -
  obtain out h where oh: "oh = (out, h)" by fastforce
  show ?thesis
  proof (cases "out = TickThrew \<or> \<not> attached sid h \<or> \<not> se_handshook (the (jm_get (ho_sessions h) sid))")
    case False
    then obtain s where s: "jm_get (ho_sessions h) sid = Some s" by (auto simp: attached_def split: option.splits)
    obtain p u where ps: "plan_delta snap b s = (p, u)" by fastforce
    have "steady h (upd_session sid (\<lambda>_. u) h)" using s plan_delta_frame(3) [OF ps] by (intro steady_upd) simp
    then show ?thesis using False s ps
      by (auto simp: oh tick_session_def Let_def split: option.split intro: steady_trans steady_send)
  qed (auto simp: oh tick_session_def Let_def)
qed

lemma steady_tick: "steady h (snd (tick D net cs snap h))"
proof -
  have f: "steady (snd oh) (snd (fold (tick_session net snap b) sids oh))" for b sids oh
  proof (induction sids arbitrary: oh)
    case (Cons sid sids)
    show ?case using steady_trans [OF steady_tick_session Cons.IH] by simp
  qed simp
  obtain b h1 where b: "drain_batch D cs h = (b, h1)" by fastforce
  have "steady h h1" using drain_batch_synced(3) [OF b] by (simp add: steady_def)
  with f [of "(TickQuiet, h1)" b "live h1"] b show ?thesis by (auto simp: tick_def intro: steady_trans)
qed

lemma good_tick:
  assumes "snapshot_ok snap" "C \<subseteq> set (cs_changedIds cs)" "tick D net cs snap h = (out, h')" "out \<noteq> TickThrew"
  shows "good J cap snap C h h'"
proof (cases "h' = h")
  case False
  then have d: "drains h' = Suc (drains h)" using tick_drains(1) [OF assms(3)] by simp
  have "host_inv J cap {} snap h'" if "P \<subseteq> C" "host_inv J cap P snap h" for P
  proof -
    have "P \<subseteq> set (cs_changedIds cs)" using that(1) assms(2) by blast
    with that(2) synced_tick [OF assms(1) _ _ assms(3,4), of P J cap snap] tick_drains(2) [OF assms(3)]
    show ?thesis by (simp add: host_inv_def changed_between_def)
  qed
  moreover have "steady h h'" using steady_tick assms(3) by (metis snd_conv)
  ultimately show ?thesis using d by (simp add: good_def moved_def)
qed simp

lemma calm_replace:
  assumes "jm_get (ho_sessions h) sid = Some s" "se_attached s' \<longrightarrow> se_attached s"
    and "set (se_knownIds s) \<subseteq> set (se_knownIds s')" "se_handshook s \<longrightarrow> se_handshook s'" "se_expanded s' = se_expanded s"
  shows "calm J cap h (upd_session sid (\<lambda>_. s') h)"
  using assms by (auto simp: calm_def calm_at_def upd_session_def drains_def)

lemma collect_keeps:
  assumes "collectViewportPatch snap s = (p, s')"
  shows "se_attached s' = se_attached s" "se_expanded s' = se_expanded s" "se_handshook s' = se_handshook s"
    "se_packedChildLists s' = se_packedChildLists s" "set (se_knownIds s) \<subseteq> set (se_knownIds s')"
  using assms by (auto simp: collectViewportPatch_def Let_def set_fold_known)

lemma calm_session:
  assumes "calm J cap h h'" "jm_get (ho_sessions h) sid = Some s"
  obtains s' where "jm_get (ho_sessions h') sid = Some s'" "se_handshook s \<longrightarrow> se_handshook s'" "se_expanded s' = se_expanded s"
  using assms unfolding calm_def calm_at_def by (metis option.exhaust option.inject option.simps(3))

lemma in_step_known: "in_step P snap s m \<Longrightarrow> se_knownIds s' = se_knownIds s \<Longrightarrow> in_step P snap s' m"
  by (simp add: in_step_def)

lemma patch_delta_frame [simp]: "unsealed (patch_delta v p None)" "de_removedIds (patch_delta v p eb) = []"
  by (simp_all add: patch_delta_def unsealed_def)

lemma good_viewport:
  assumes "snapshot_ok snap" "se_handshook (the (jm_get (ho_sessions h) sid))"
  shows "good J cap snap C h (handleSetViewport net snap sid off limit over h)"
proof (cases "jm_get (ho_sessions h) sid")
  case (Some s)
  obtain granted clamped where g: "grant_viewport (se_context s) off limit over = (granted, clamped)" by fastforce
  let ?req = "\<lparr>vp_offset = normalize_row off, vp_limit = normalize_row limit,
     vp_overscan = normalize_row (case over of Some v \<Rightarrow> v | None \<Rightarrow> Finite 0)\<rparr>"
  define h1 where "h1 = (if clamped then clamp_warning net sid (WClampViewport ?req granted (viewportRowCap (se_context s))) h else h)"
  have calm1: "calm J cap h h1" by (simp add: h1_def clamp_warning_def calm_send)
  from calm_session [OF calm1 Some] obtain s1 where s1: "jm_get (ho_sessions h1) sid = Some s1" "se_handshook s1"
    using assms(2) Some by auto
  obtain p s' where p: "collectViewportPatch snap (s1\<lparr>se_viewport := granted\<rparr>) = (p, s')" by fastforce
  note keep = collect_keeps [OF p]
  let ?h2 = "upd_session sid (\<lambda>_. s') h1"
  have eq: "handleSetViewport net snap sid off limit over h =
      (case encode_entries (pa_entries p) of
         None \<Rightarrow> ?h2
       | Some eb \<Rightarrow> host_send net sid (InDelta (patch_delta (ns_treeVersion snap) p eb) False None) ?h2)"
    using Some g p s1(1) unfolding handleSetViewport_def Let_def h1_def by (cases clamped) simp_all
  have "calm J cap h1 ?h2" using s1 keep by (intro calm_replace) simp_all
  then have c2: "good J cap snap C h1 ?h2" by (rule good_calm)
  have "good J cap snap C h1 (host_send net sid (InDelta (patch_delta (ns_treeVersion snap) p eb) False None) ?h2)"
    if eb: "encode_entries (pa_entries p) = Some eb" for eb
  proof (rule good_data [OF s1(1)])
    let ?q = "\<lparr>dp_entries = pa_entries p, dp_lists = [], dp_frame = patch_delta (ns_treeVersion snap) p None\<rparr>"
    have seal: "seal_delta False ?q = Some (patch_delta (ns_treeVersion snap) p eb)"
      using eb by (simp add: seal_delta_def encode_lists_def patch_delta_def)
    fix P m assume "in_step P snap s1 m"
    then have "in_step P snap (s1\<lparr>se_viewport := granted\<rparr>) m" by (rule in_step_known) simp
    with patch_in_step [OF assms(1) p _ _ _ seal, of P m J cap]
    show "in_step P snap s' (receive J cap (InDelta (patch_delta (ns_treeVersion snap) p eb) False None) m)"
      by (auto simp: receive_def)
  qed (use keep s1(2) in \<open>simp_all add: is_result_def\<close>)
  with c2 have "good J cap snap C h1 (handleSetViewport net snap sid off limit over h)"
    unfolding eq by (simp split: option.split)
  then show ?thesis by (rule good_trans [OF good_calm [OF calm1]])
qed (simp add: handleSetViewport_def)

section \<open>Expansion\<close>

lemma expansion_lists_props:
  assumes "\<And>q. length (ns_projectedChildrenOf snap q) < 2 ^ 32"
  shows "jm_wf (expansion_lists snap add)" "fst ` set (expansion_lists snap add) \<subseteq> set add"
    "list_all (\<lambda>(k, ids). length ids < 2 ^ 32) (expansion_lists snap add)"
proof -
  let ?f = "\<lambda>i. if sortedChildIds snap i \<noteq> [] \<or> ns_projectedChildCount snap i = Some 0
               then jm_set i (sortedChildIds snap i) else (\<lambda>ls. ls)"
  have "jm_wf ls \<longrightarrow> jm_wf (fold ?f add ls)" for ls by (induction add arbitrary: ls) auto
  then show "jm_wf (expansion_lists snap add)" by (simp add: expansion_lists_def)
  have "fst ` set (fold ?f add ls) \<subseteq> fst ` set ls \<union> set add" for ls
  proof (induction add arbitrary: ls)
    case (Cons i add)
    from Cons [of "?f i ls"] show ?case by (auto split: if_splits)
  qed simp
  from this [of "[]"] show "fst ` set (expansion_lists snap add) \<subseteq> set add" by (simp add: expansion_lists_def)
  have "list_all (\<lambda>(k, ids). length ids < 2 ^ 32) ls \<longrightarrow> list_all (\<lambda>(k, ids). length ids < 2 ^ 32) (fold ?f add ls)" for ls
  proof (induction add arbitrary: ls)
    case (Cons i add)
    have "list_all (\<lambda>(k, ids). length ids < 2 ^ 32) ls \<Longrightarrow> list_all (\<lambda>(k, ids). length ids < 2 ^ 32) (?f i ls)"
      using assms [of i] set_jm_set_subset [of i "sortedChildIds snap i" ls] by (auto simp: list_all_iff sortedChildIds_def)
    with Cons show ?case by simp
  qed simp
  from this [of "[]"] show "list_all (\<lambda>(k, ids). length ids < 2 ^ 32) (expansion_lists snap add)"
    by (simp add: expansion_lists_def)
qed

lemma good_expand_reply:
  assumes "snapshot_ok snap" "\<And>s. jm_get (ho_sessions h) sid = Some s \<Longrightarrow> se_handshook s"
    and "set add \<subseteq> set xs" "length xs < 2 ^ 32"
  shows "good J cap snap C h (snd (expand_reply net snap version sid add h))"
proof (cases "jm_get (ho_sessions h) sid")
  case (Some s)
  obtain p s' where p: "collectViewportPatch snap s = (p, s')" by fastforce
  note keep = collect_keeps [OF p]
  let ?h1 = "upd_session sid (\<lambda>_. s') h" and ?q = "expansion_delta snap version add p"
  have eq: "snd (expand_reply net snap version sid add h) =
      (case seal_delta (se_packedChildLists s) ?q of None \<Rightarrow> ?h1 | Some d \<Rightarrow> host_send net sid (InDelta d False None) ?h1)"
    using Some p by (simp add: expand_reply_def split: option.split)
  have hs: "se_handshook s" using assms(2) Some by simp
  have "calm J cap h ?h1" using Some keep by (intro calm_replace) simp_all
  then have c1: "good J cap snap C h ?h1" by (rule good_calm)
  have pc: "length (ns_projectedChildrenOf snap q) < 2 ^ 32" for q using assms(1) by (simp add: snapshot_ok_def)
  note el = expansion_lists_props [OF pc, of add]
  have "length (expansion_lists snap add) < 2 ^ 32"
    using map_length_le [OF el(1) subset_trans [OF el(2) assms(3)]] assms(4) by linarith
  then have q: "dp_entries ?q = pa_entries p" "unsealed (dp_frame ?q)" "de_removedIds (dp_frame ?q) = []"
      "jm_wf (dp_lists ?q)" "length (dp_lists ?q) < 2 ^ 32" "list_all (\<lambda>(k, ids). length ids < 2 ^ 32) (dp_lists ?q)"
    using el by (simp_all add: expansion_delta_def unsealed_def patch_delta_def)
  have "good J cap snap C h (host_send net sid (InDelta d False None) ?h1)"
    if "seal_delta (se_packedChildLists s) ?q = Some d" for d
  proof (rule good_data [OF Some])
    fix P m assume "in_step P snap s m"
    with patch_in_step [OF assms(1) p q(1-3) that q(4-6), of P m J cap]
    show "in_step P snap s' (receive J cap (InDelta d False None) m)" by (auto simp: receive_def)
  qed (use keep hs in \<open>simp_all add: is_result_def\<close>)
  with c1 show ?thesis unfolding eq by (simp split: option.split)
qed (simp add: expand_reply_def)

text \<open>The part of \<open>handleSetExpanded\<close> that changes the expansion sets.\<close>

definition quasi :: "json_parsers \<Rightarrow> nat \<Rightarrow> int set \<Rightarrow> native_snapshot \<Rightarrow> nat \<Rightarrow> host \<Rightarrow> bool" where
  "quasi J cap P snap d h \<longleftrightarrow> synced J cap P snap h \<and> jm_wf (ho_sessions h) \<and> drains h = d"

lemma quasi_calm: "calm J cap h h' \<Longrightarrow> quasi J cap P snap d h \<Longrightarrow> quasi J cap P snap d h'"
  unfolding quasi_def using synced_calm by (metis calm_def)

lemma synced_expanded:
  assumes "synced J cap P snap h"
  shows "synced J cap P snap (upd_session sid (\<lambda>s. s\<lparr>se_expanded := F s\<rparr>) h)"
proof (cases "jm_get (ho_sessions h) sid")
  case (Some s)
  let ?h = "upd_session sid (\<lambda>s. s\<lparr>se_expanded := F s\<rparr>) h"
  have same: "ho_log ?h = ho_log h" "ho_nextSessionId ?h = ho_nextSessionId h" "ho_disposed ?h = ho_disposed h"
    using Some by (simp_all add: upd_session_def)
  have ok: "ok_at J cap P snap x h" for x using assms by (simp add: synced_by_def)
  have "ok_at J cap P snap x ?h" for x
    unfolding ok_at_def same
  proof (intro allI impI)
    fix t assume t: "jm_get (ho_sessions ?h) x = Some t \<and> se_attached t"
    then obtain u where u: "jm_get (ho_sessions h) x = Some u" "se_attached u" "se_knownIds t = se_knownIds u"
        "se_handshook t = se_handshook u"
      by (auto simp: get_upd_session split: if_splits)
    with ok [of x] show "in_step P snap t (mirror_of J cap x (ho_log h))
        \<and> (\<not> se_handshook t \<longrightarrow> byId (mirror_of J cap x (ho_log h)) = [])"
      using in_step_known [of P snap u _ t] by (simp add: ok_at_def)
  qed
  moreover have "attached x ?h = attached x h" for x using Some by (simp add: attached_def get_upd_session)
  moreover have "(jm_get (ho_sessions ?h) x = None) = (jm_get (ho_sessions h) x = None)" for x
    using Some by (simp add: get_upd_session)
  ultimately show ?thesis using assms by (simp add: synced_by_def ids_ok_def same)
qed (use assms in \<open>simp add: upd_session_def\<close>)

lemma quasi_expanded: "quasi J cap P snap d h \<Longrightarrow> quasi J cap P snap d (upd_session sid (\<lambda>s. s\<lparr>se_expanded := F s\<rparr>) h)"
  by (simp add: quasi_def synced_expanded wf_upd_session)

lemma calm_load_message: "calm J cap h (sendDirectoryLoad net sid i g st e h)"
  unfolding sendDirectoryLoad_def by (rule calm_send) simp

lemma calm_release: "calm J cap h (releaseDirectoryLoad net sid i h)"
  unfolding releaseDirectoryLoad_def Let_def
  by (auto split: option.split intro: calm_trans [OF calm_trans [OF calm_upd_task calm_load_message] calm_leave_load])

lemma quasi_expand_one: "quasi J cap P snap d h \<Longrightarrow> quasi J cap P snap d (expand_one sid i h)"
  unfolding expand_one_def Let_def
  by (auto intro: quasi_expanded quasi_calm [OF calm_same quasi_expanded])

lemma quasi_collapse_one: "quasi J cap P snap d h \<Longrightarrow> quasi J cap P snap d (collapse_one net sid i h)"
  unfolding collapse_one_def by (rule quasi_calm [OF calm_release quasi_expanded])

lemma calm_default_viewport: "calm J cap h (default_viewport sid add h)"
  unfolding default_viewport_def by (rule calm_upd_session) simp

lemma quasi_fold: "(\<And>x h. quasi J cap P snap d h \<Longrightarrow> quasi J cap P snap d (f x h)) \<Longrightarrow> quasi J cap P snap d h \<Longrightarrow> quasi J cap P snap d (fold f xs h)"
  by (induction xs arbitrary: h) auto

lemma drains_head [simp]: "drains (set_expanded_head net sid add remove h) = drains h"
proof -
  have "drains (expand_one s i x) = drains x" for s i x
    by (auto simp: expand_one_def Let_def drains_def upd_session_def split: option.split)
  then have a: "drains (fold (expand_one sid) add x) = drains x" for x by (induction add arbitrary: x) simp_all
  have "drains (collapse_one net sid i x) = drains x" for i x
    using calm_release [of undefined 0 "upd_session sid (\<lambda>s. s\<lparr>se_expanded := jset_del i (se_expanded s)\<rparr>) x" net sid i]
    by (simp add: collapse_one_def calm_def)
  then have b: "drains (fold (collapse_one net sid) remove x) = drains x" for x by (induction remove arbitrary: x) simp_all
  show ?thesis by (simp add: set_expanded_head_def default_viewport_def a b)
qed

lemma steady_head: "steady h (set_expanded_head net sid add remove h)"
proof -
  have e: "steady x (expand_one sid i x)" for i x
    unfolding expand_one_def Let_def
    using steady_upd [of x sid "\<lambda>s. s\<lparr>se_expanded := jset_add i (se_expanded s)\<rparr>"] by (auto simp: steady_def)
  have c: "steady x (collapse_one net sid i x)" for i x
    unfolding collapse_one_def by (rule steady_trans [OF steady_upd steady_calm [OF calm_release]]) simp
  show ?thesis unfolding set_expanded_head_def
    by (intro steady_trans [OF steady_trans [OF steady_fold steady_fold] steady_calm [OF calm_default_viewport]] e c)
qed

lemma good_head:
  assumes "small (set_expanded_head net sid add remove h)"
  shows "good J cap snap C h (set_expanded_head net sid add remove h)"
proof -
  have q: "quasi J cap P snap d (set_expanded_head net sid add remove h)" if "quasi J cap P snap d h" for P d
    unfolding set_expanded_head_def
    by (intro quasi_calm [OF calm_default_viewport] quasi_fold quasi_collapse_one quasi_expand_one that)
  show ?thesis
    unfolding good_def moved_def drains_head
    using q assms steady_head by (auto simp: host_inv_def quasi_def)
qed

text \<open>What the head does to a session besides its expansion set.\<close>

lemma head_session:
  assumes "jm_get (ho_sessions (set_expanded_head net sid add remove h)) x = Some s'"
  obtains s where "jm_get (ho_sessions h) x = Some s" "se_handshook s' = se_handshook s"
    "x \<noteq> sid \<Longrightarrow> se_expanded s' = se_expanded s"
proof -
  define R :: "host \<Rightarrow> host \<Rightarrow> bool" where "R h h' \<longleftrightarrow> (\<forall>s'. jm_get (ho_sessions h') x = Some s' \<longrightarrow> (\<exists>s. jm_get (ho_sessions h) x = Some s
      \<and> se_handshook s' = se_handshook s \<and> (x \<noteq> sid \<longrightarrow> se_expanded s' = se_expanded s)))" for h h'
  have trans: "R a b \<Longrightarrow> R b c \<Longrightarrow> R a c" for a b c unfolding R_def by metis
  have refl: "R a a" for a by (simp add: R_def)
  have fold: "(\<And>y h. R h (f y h)) \<Longrightarrow> R h (fold f ys h)" for f :: "int \<Rightarrow> host \<Rightarrow> host" and ys h
    by (induction ys arbitrary: h) (auto intro: refl trans)
  have upd: "R h (upd_session sid f h)" if "\<And>s. se_handshook (f s) = se_handshook s" for f h
    using that by (auto simp: R_def get_upd_session)
  have same: "ho_sessions b = ho_sessions a \<Longrightarrow> R a b" for a b by (simp add: R_def)
  have send: "R h (host_send net s f h)" for s f h unfolding R_def using get_send [of net s f h x] by metis
  have e: "R h (expand_one sid i h)" for i h
  proof -
    let ?u = "upd_session sid (\<lambda>s. s\<lparr>se_expanded := jset_add i (se_expanded s)\<rparr>) h"
    have "R h ?u" by (rule upd) simp
    moreover have "R ?u (?u\<lparr>ho_watchGapExpansions := w\<rparr>)" for w by (rule same) simp
    ultimately show ?thesis unfolding expand_one_def Let_def by (auto intro: trans)
  qed
  have task: "R a (upd_task g f a)" and leave: "R a (leave_load sid g a)" for a g f by (rule same, simp)+
  have rel: "R h (releaseDirectoryLoad net sid i h)" for i h
    unfolding releaseDirectoryLoad_def Let_def sendDirectoryLoad_def
    by (auto split: option.split intro: refl trans [OF trans [OF task send] leave])
  have c: "R h (collapse_one net sid i h)" for i h
    unfolding collapse_one_def by (rule trans [OF upd rel]) simp
  have "R h (set_expanded_head net sid add remove h)"
    unfolding set_expanded_head_def default_viewport_def
    by (rule trans [OF trans [OF fold fold] upd]) (auto intro: e c)
  with assms that show ?thesis unfolding R_def by blast
qed

lemma good_republish:
  assumes "snapshot_ok snap" "\<And>s. jm_get (ho_sessions h) sid = Some s \<Longrightarrow> se_handshook s"
    and "set add \<subseteq> set xs" "length xs < 2 ^ 32" "small (set_expanded_head net sid add [] h)"
  shows "good J cap snap C h (snd (republish net snap version sid add h))"
  unfolding republish_def
proof (rule good_trans [OF good_head [OF assms(5)] good_expand_reply [OF assms(1) _ assms(3,4)]])
  fix s assume "jm_get (ho_sessions (set_expanded_head net sid add [] h)) sid = Some s"
  then show "se_handshook s" by (rule head_session) (use assms(2) in auto)
qed

text \<open>Expanding what is expanded already keeps the sets.\<close>

lemma small_head_again:
  assumes "small h" "\<And>s. jm_get (ho_sessions h) sid = Some s \<Longrightarrow> set add \<subseteq> set (se_expanded s)"
  shows "small (set_expanded_head net sid add [] h)"
proof -
  have one: "map_option se_expanded (jm_get (ho_sessions (fold (expand_one sid) is h)) x) =
      map_option se_expanded (jm_get (ho_sessions h) x)"
    if "\<And>s. jm_get (ho_sessions h) sid = Some s \<Longrightarrow> set is \<subseteq> set (se_expanded s)" for "is" h x
    using that
  proof (induction "is" arbitrary: h)
    case (Cons i "is")
    have get: "jm_get (ho_sessions (expand_one sid i h)) y =
        (if y = sid then map_option (\<lambda>s. s\<lparr>se_expanded := jset_add i (se_expanded s)\<rparr>) (jm_get (ho_sessions h) sid)
         else jm_get (ho_sessions h) y)" for y
      by (simp add: expand_one_def Let_def get_upd_session)
    have same: "jset_add i (se_expanded s) = se_expanded s" if "jm_get (ho_sessions h) sid = Some s" for s
      using Cons.prems [OF that] by (simp add: jset_add_def)
    have "map_option se_expanded (jm_get (ho_sessions (fold (expand_one sid) is (expand_one sid i h))) x) =
        map_option se_expanded (jm_get (ho_sessions (expand_one sid i h)) x)"
      using Cons.prems same by (intro Cons.IH) (auto simp: get)
    also have "\<dots> = map_option se_expanded (jm_get (ho_sessions h) x)"
      using same by (cases "jm_get (ho_sessions h) sid") (auto simp: get)
    finally show ?case by simp
  qed simp
  have "small (fold (expand_one sid) add h)"
    unfolding small_def
  proof (intro allI impI)
    fix x s assume "jm_get (ho_sessions (fold (expand_one sid) add h)) x = Some s"
    with one [where x = x, OF assms(2)] obtain t where "jm_get (ho_sessions h) x = Some t" "se_expanded s = se_expanded t"
      by (metis map_option_eq_Some option.simps(9))
    with assms(1) show "length (se_expanded s) < 2 ^ 32 \<and> list_all is_id (se_expanded s)" by (auto simp: small_def)
  qed
  then have "small (default_viewport sid add (fold (expand_one sid) add h))"
    unfolding default_viewport_def by (rule small_upd) simp
  then show ?thesis by (simp add: set_expanded_head_def)
qed

lemma drains_expand_reply [simp]: "drains (snd (expand_reply net snap version sid add h)) = drains h"
  by (auto simp: expand_reply_def Let_def split: option.split prod.split)

text \<open>The invariant may be assumed when a step is shown to be good.\<close>

lemma good_if_small:
  assumes "drains h \<le> drains h'" "steady h h'" "small h \<Longrightarrow> good J cap snap C h h'"
  shows "good J cap snap C h h'"
  using assms by (auto simp: good_def host_inv_def)

lemma steady_expand_reply: "steady h (snd (expand_reply net snap version sid add h))"
proof (cases "jm_get (ho_sessions h) sid")
  case (Some s)
  obtain p s' where p: "collectViewportPatch snap s = (p, s')" by fastforce
  have "steady h (upd_session sid (\<lambda>_. s') h)" using Some collect_keeps(3) [OF p] by (intro steady_upd) simp
  then show ?thesis using Some p
    by (auto simp: expand_reply_def Let_def split: option.split intro: steady_trans steady_send)
qed (simp add: expand_reply_def)

lemma good_republish_again:
  assumes "snapshot_ok snap" "\<And>s. jm_get (ho_sessions h) sid = Some s \<Longrightarrow> se_handshook s \<and> set add \<subseteq> set (se_expanded s)"
  shows "good J cap snap C h (snd (republish net snap version sid add h))"
proof (rule good_if_small)
  assume small: "small h"
  show "good J cap snap C h (snd (republish net snap version sid add h))"
  proof (cases "jm_get (ho_sessions h) sid")
    case (Some s)
    then have "length (se_expanded s) < 2 ^ 32" "set add \<subseteq> set (se_expanded s)"
      using small assms(2) by (auto simp: small_def)
    with assms small show ?thesis by (intro good_republish) (auto intro: small_head_again)
  next
    case None
    have "jm_get (ho_sessions (set_expanded_head net sid add [] h)) sid = None"
    proof (rule ccontr)
      assume "jm_get (ho_sessions (set_expanded_head net sid add [] h)) sid \<noteq> None"
      then obtain t where "jm_get (ho_sessions (set_expanded_head net sid add [] h)) sid = Some t" by blast
      then show False by (rule head_session) (use None in simp)
    qed
    then have "snd (republish net snap version sid add h) = set_expanded_head net sid add [] h"
      by (simp add: republish_def expand_reply_def)
    moreover have "good J cap snap C h (set_expanded_head net sid add [] h)"
      using small None by (intro good_head small_head_again) simp_all
    ultimately show ?thesis by simp
  qed
qed (auto simp: republish_def intro: steady_trans [OF steady_head steady_expand_reply])

end
