(* ===== verification/Host_Steps.thy ===== *)
theory Host_Steps
  imports Host_Reach
begin

text \<open>
  The remaining operations of the host are \<open>good\<close> steps: loads and their completion, expansion, lookups and
  searches, decorations, acknowledgements, warnings, sessions that come and go.
\<close>

section \<open>No tick throws\<close>

lemma tick_session_total:
  assumes "snapshot_ok snap" "small (snd oh)" "fst oh \<noteq> TickThrew"
  shows "fst (tick_session net snap b sid oh) \<noteq> TickThrew \<and> small (snd (tick_session net snap b sid oh))"
proof -
  obtain out h where oh: "oh = (out, h)" by fastforce
  show ?thesis
  proof (cases "\<not> attached sid h \<or> \<not> se_handshook (the (jm_get (ho_sessions h) sid))")
    case True
    with assms(2,3) show ?thesis by (auto simp: oh tick_session_def Let_def)
  next
    case False
    then obtain s where s: "jm_get (ho_sessions h) sid = Some s" "se_handshook s"
      by (auto simp: attached_def split: option.splits)
    obtain p s' where ps: "plan_delta snap b s = (p, s')" by fastforce
    have "length (se_expanded s) < 2 ^ 32" "list_all is_id (se_expanded s)"
      using assms(2) s(1) by (auto simp: oh small_def)
    from plan_sealed [OF assms(1) ps this] obtain d where d: "seal_delta (se_packedChildLists s) p = Some d" by blast
    have "small (upd_session sid (\<lambda>_. s') h)"
      using assms(2) s(1) plan_delta_frame(4) [OF ps] by (auto simp: oh small_def get_upd_session)
    then show ?thesis using False assms(3) s ps d small_host_send by (simp add: oh tick_session_def Let_def)
  qed
qed

lemma tick_total:
  assumes "snapshot_ok snap" "small h"
  shows "fst (tick D net cs snap h) \<noteq> TickThrew" "small (snd (tick D net cs snap h))"
proof -
  have f: "fst oh \<noteq> TickThrew \<Longrightarrow> small (snd oh) \<Longrightarrow>
      fst (fold (tick_session net snap b) sids oh) \<noteq> TickThrew \<and> small (snd (fold (tick_session net snap b) sids oh))" for b sids oh
    using tick_session_total [OF assms(1)] by (induction sids arbitrary: oh) auto
  obtain b h1 where b: "drain_batch D cs h = (b, h1)" by fastforce
  have "small h1" using drain_batch_synced(3) [OF b] assms(2) by (simp add: small_def)
  with f [of "(TickQuiet, h1)" b "live h1"] assms(2) b
  show "fst (tick D net cs snap h) \<noteq> TickThrew" "small (snd (tick D net cs snap h))"
    by (auto simp: tick_def)
qed

lemma good_tick_any:
  assumes "snapshot_ok snap" "C \<subseteq> set (cs_changedIds cs)"
  shows "good J cap snap C h (snd (tick D net cs snap h))"
proof (rule good_if_small)
  obtain out h' where t: "tick D net cs snap h = (out, h')" by fastforce
  show "drains h \<le> drains (snd (tick D net cs snap h))" using tick_drains(1) [OF t] t by auto
  show "steady h (snd (tick D net cs snap h))" by (rule steady_tick)
  assume "small h"
  with tick_total(1) [OF assms(1)] have "out \<noteq> TickThrew" by (metis fst_conv t)
  with good_tick [OF assms t] show "good J cap snap C h (snd (tick D net cs snap h))" by (simp add: t)
qed

section \<open>Joining and ending loads\<close>

lemma calm_join_peer: "calm J cap h (join_peer net i g sid h)"
  by (auto simp: join_peer_def intro: calm_trans [OF calm_upd_task calm_load_message])

lemma calm_joinDirectoryLoad: "calm J cap h (joinDirectoryLoad net sid i chained h)"
  unfolding joinDirectoryLoad_def Let_def
  by (auto split: option.split intro: calm_trans [OF calm_upd_task calm_load_message]
        intro!: calm_trans [OF calm_same calm_fold] calm_join_peer)

lemma calm_load_one: "calm J cap (snd ch) (snd (load_one net snap sid i ch))"
  by (cases ch) (auto simp: load_one_def split: option.split intro: calm_load_message calm_joinDirectoryLoad)

lemma calm_load_all: "calm J cap (snd ch) (snd (fold (load_one net snap sid) is ch))"
proof (induction "is" arbitrary: ch)
  case (Cons i "is")
  show ?case using calm_trans [OF calm_load_one Cons.IH] by simp
qed simp

lemma calm_supersede: "calm J cap h (supersede i h)"
proof -
  have "calm J cap h ((upd_task g f h)\<lparr>ho_directoryLoads := d\<rparr>)" for g f d
    by (rule calm_trans [OF calm_upd_task calm_same]) simp_all
  then show ?thesis unfolding supersede_def Let_def
    by (auto split: option.split intro: calm_trans [OF _ calm_cancel_native])
qed

lemma calm_forget_load: "calm J cap h (forget_load g t h)"
  by (auto simp: forget_load_def intro: calm_same)

lemma calm_tell_failed: "calm J cap h (tell_failed net g t cancelled err sid h)"
  by (simp add: tell_failed_def calm_load_message)

lemma calm_fail_load: "calm J cap h (fail_load net g cancelled err h)"
  by (auto simp: fail_load_def split: option.split intro!: calm_trans [OF calm_fold calm_forget_load] calm_tell_failed)

lemma calm_load_advance: "calm J cap h (snd (load_advance g t opname pr h))"
  by (auto simp: load_advance_def split: load_progress.split intro: calm_forget_load calm_upd_task)

lemma calm_start_load: "calm J cap h (snd (start_load opname snap g h))"
  by (auto simp: start_load_def split: option.split intro: calm_load_advance)

lemma calm_read_done: "calm J cap h (snd (read_done opname snap g current n h))"
  by (auto simp: read_done_def Let_def split: option.split intro: calm_trans [OF calm_upd_task] calm_load_advance calm_upd_task)

lemma calm_load_messages: "calm J cap h (fold (\<lambda>i. sendDirectoryLoad net sid i g st e) is h)"
  by (rule calm_fold) (rule calm_load_message)

lemma good_complete_session:
  assumes "snapshot_ok snap"
  shows "good J cap snap C h (snd (complete_session net snap version ids refreshed g sid h))"
proof (cases "attached sid h")
  case True
  then obtain s where s: "jm_get (ho_sessions h) sid = Some s" by (auto simp: attached_def split: option.splits)
  let ?c = "filter (\<lambda>i. i \<in> set (se_expanded s)) ids"
  have "good J cap snap C h (snd (republish net snap version sid ?c h))" if "se_handshook s"
    using s that by (intro good_republish_again [OF assms]) auto
  then show ?thesis using True s
    by (auto simp: complete_session_def Let_def split: prod.split
          intro!: good_trans [OF _ good_calm [OF calm_load_messages]] good_calm [OF calm_load_messages])
qed (simp add: complete_session_def)

lemma good_unless:
  assumes "\<And>h. good J cap snap C h (snd (f h))"
  shows "good J cap snap C (snd th) (snd (unless_threw f th))"
  using assms by (simp add: unless_threw_def)

lemma good_fold_unless:
  assumes "\<And>x h. good J cap snap C h (snd (f x h))"
  shows "good J cap snap C (snd th) (snd (fold (\<lambda>x. unless_threw (f x)) xs th))"
proof (induction xs arbitrary: th)
  case (Cons x xs)
  show ?case using good_trans [OF good_unless [OF assms] Cons.IH] by simp
qed simp

lemma good_completeDirectoryLoads:
  assumes "snapshot_ok snap"
  shows "good J cap snap C h (snd (completeDirectoryLoads net snap version ids refreshed h))"
proof (cases "ids = []")
  case False
  let ?h1 = "fold supersede ids h"
  let ?h2 = "?h1\<lparr>ho_nextGeneration := ho_nextGeneration ?h1 + 1\<rparr>"
  have "calm J cap h ?h2"
    by (rule calm_trans [OF calm_fold calm_same]) (simp_all add: calm_supersede)
  moreover have "good J cap snap C (snd (False, ?h2))
      (snd (fold (\<lambda>sid. unless_threw (complete_session net snap version ids refreshed (ho_nextGeneration ?h1) sid)) (live ?h2) (False, ?h2)))"
    by (rule good_fold_unless) (rule good_complete_session [OF assms])
  ultimately show ?thesis using False
    by (simp add: completeDirectoryLoads_def Let_def) (blast intro: good_trans good_calm)
qed (simp add: completeDirectoryLoads_def)

lemma good_afterResync:
  assumes "snapshot_ok snap" "completeDirectoryLoadsAfterResync net snap version rootIds recursive h = Some r"
  shows "good J cap snap C h (snd r)"
  using assms good_completeDirectoryLoads [OF assms(1)] by (auto simp: completeDirectoryLoadsAfterResync_def)

lemma good_tell_complete:
  assumes "snapshot_ok snap"
  shows "good J cap snap C h (snd (tell_complete net snap version g t sid h))"
proof (cases "attached sid h")
  case True
  then obtain s where s: "jm_get (ho_sessions h) sid = Some s" by (auto simp: attached_def split: option.splits)
  have "good J cap snap C h (snd (republish net snap version sid [lt_rootId t] h))"
    if "se_handshook s" "lt_rootId t \<in> set (se_expanded s)"
    using s that by (intro good_republish_again [OF assms]) auto
  then show ?thesis using True s
    by (auto simp: tell_complete_def Let_def split: prod.split
          intro!: good_trans [OF _ good_calm [OF calm_load_message]] good_calm [OF calm_load_message])
qed (simp add: tell_complete_def)

lemma good_finish_load:
  assumes "snapshot_ok snap"
  shows "good J cap snap C h (snd (finish_load net snap version g h))"
proof (cases "jm_get (ho_tasks h) g")
  case (Some t)
  let ?r = "fold (\<lambda>sid. unless_threw (tell_complete net snap version g t sid)) (lt_interestedSessions t) (False, h)"
  have "good J cap snap C (snd (False, h)) (snd ?r)"
    by (rule good_fold_unless) (rule good_tell_complete [OF assms])
  then have "good J cap snap C h (snd ?r)" by simp
  with Some show ?thesis
    by (auto simp: finish_load_def Let_def split: prod.split
          intro: good_calm [OF calm_forget_load] good_trans [OF _ good_calm [OF calm_forget_load]])
qed (simp add: finish_load_def)

section \<open>Handshake and expansion\<close>

lemma small_replace:
  assumes "jm_get (ho_sessions h) sid = Some s" "se_expanded s' = se_expanded s" "small h"
  shows "small (upd_session sid (\<lambda>_. s') h)"
  using assms by (auto simp: small_def get_upd_session)

lemma good_handshake:
  assumes "snapshot_ok snap" "attached sid h"
  shows "good J cap snap C h (handleHandshake net snap sid prefetch packed h)" (is "good J cap snap C h ?h'")
proof -
  obtain s where s: "jm_get (ho_sessions h) sid = Some s" using assms(2) by (auto simp: attached_def split: option.splits)
  have rest: "drains ?h' = drains h" "small h \<Longrightarrow> small ?h'" "jm_wf (ho_sessions h) \<Longrightarrow> jm_wf (ho_sessions ?h')"
    using s by (auto simp: handleHandshake_def clamp_warning_def Let_def split: option.split
        intro!: small_host_send small_replace [OF s] wf_host_send wf_upd_session)
  have "steady h ?h'"
    using s by (auto simp: handleHandshake_def clamp_warning_def Let_def split: option.split
        intro!: steady_trans [OF _ steady_send] steady_upd)
  then show ?thesis using rest handshake_synced [OF assms(1) _ assms(2)]
    by (auto simp: good_def moved_def host_inv_def)
qed

lemma tick_session_handshook:
  assumes "jm_get (ho_sessions (snd (tick_session net snap b sid oh))) x = Some s'"
  shows "\<exists>s. jm_get (ho_sessions (snd oh)) x = Some s \<and> se_handshook s' = se_handshook s"
proof -
  obtain out h where oh: "oh = (out, h)" by fastforce
  show ?thesis
  proof (cases "out = TickThrew \<or> \<not> attached sid h \<or> \<not> se_handshook (the (jm_get (ho_sessions h) sid))")
    case True
    with assms show ?thesis by (auto simp: oh tick_session_def Let_def split: if_splits)
  next
    case False
    then obtain s where s: "jm_get (ho_sessions h) sid = Some s" by (auto simp: attached_def split: option.splits)
    obtain p u where ps: "plan_delta snap b s = (p, u)" by fastforce
    have upd: "\<exists>t. jm_get (ho_sessions h) x = Some t \<and> se_handshook r = se_handshook t"
      if "jm_get (ho_sessions (upd_session sid (\<lambda>_. u) h)) x = Some r" for r
      using that s plan_delta_frame(3) [OF ps] by (auto simp: get_upd_session split: if_splits)
    show ?thesis
    proof (cases "seal_delta (se_packedChildLists s) p")
      case None
      with assms False s ps have "jm_get (ho_sessions (upd_session sid (\<lambda>_. u) h)) x = Some s'"
        by (simp add: oh tick_session_def Let_def)
      with upd show ?thesis by (simp add: oh)
    next
      case (Some d)
      with assms False s ps
      have "jm_get (ho_sessions (host_send net sid (InDelta d (ba_ackId b \<noteq> None) (ba_ackId b)) (upd_session sid (\<lambda>_. u) h))) x = Some s'"
        by (simp add: oh tick_session_def Let_def)
      from get_send [OF this] upd show ?thesis by (auto simp: oh)
    qed
  qed
qed

lemma tick_handshook:
  assumes "jm_get (ho_sessions (snd (tick D net cs snap h))) x = Some s'"
  shows "\<exists>s. jm_get (ho_sessions h) x = Some s \<and> se_handshook s' = se_handshook s"
proof -
  have f: "jm_get (ho_sessions (snd (fold (tick_session net snap b) sids oh))) x = Some s' \<Longrightarrow>
      \<exists>s. jm_get (ho_sessions (snd oh)) x = Some s \<and> se_handshook s' = se_handshook s" for b sids oh
  proof (induction sids arbitrary: oh)
    case (Cons sid sids)
    from Cons.prems have "jm_get (ho_sessions (snd (fold (tick_session net snap b) sids (tick_session net snap b sid oh)))) x = Some s'"
      by simp
    from Cons.IH [OF this] tick_session_handshook show ?case by metis
  qed simp
  obtain b h1 where b: "drain_batch D cs h = (b, h1)" by fastforce
  show ?thesis
    using assms b f [of b "live h1" "(TickQuiet, h1)"] drain_batch_synced(3) [OF b]
    by (auto simp: tick_def split: if_splits)
qed

lemma good_setExpanded:
  assumes "snapshot_ok snap" "C \<subseteq> set (cs_changedIds cs)" "length add < 2 ^ 32"
    and "\<And>s. jm_get (ho_sessions h) sid = Some s \<Longrightarrow> se_handshook s"
    and "small (set_expanded_head net sid add remove h)"
  shows "good J cap snap C h (snd (handleSetExpanded D net snap (cs, snap) version sid add remove h))"
proof -
  let ?h1 = "set_expanded_head net sid add remove h"
  obtain completed h2 where l: "fold (load_one net snap sid) add ([], ?h1) = (completed, h2)" by fastforce
  obtain out h3 where t: "(if completed \<noteq> [] then tick D net cs snap h2 else (TickQuiet, h2)) = (out, h3)" by fastforce
  have eq: "handleSetExpanded D net snap (cs, snap) version sid add remove h =
      (if out = TickThrew then (True, h3)
       else unless_threw (completeDirectoryLoads net snap version completed (Some sid)) (expand_reply net snap version sid add h3))"
    using l t by (cases "completed = []") (auto simp: handleSetExpanded_def)
  have c2: "calm J cap ?h1 h2" using calm_load_all [of J cap "([], ?h1)" net snap sid add] l by simp
  have g3: "good J cap snap C h2 h3"
    using good_tick_any [OF assms(1,2), where h = h2 and D = D and net = net and J = J and cap = cap] t by (auto split: if_splits)
  have hs3: "se_handshook s3" if s3: "jm_get (ho_sessions h3) sid = Some s3" for s3
  proof -
    obtain s2 where s2: "jm_get (ho_sessions h2) sid = Some s2" "se_handshook s3 = se_handshook s2"
      using t s3 tick_handshook [of D net cs snap h2 sid s3] by (auto split: if_splits)
    with c2 obtain s1 where "jm_get (ho_sessions ?h1) sid = Some s1" "se_handshook s1 \<longrightarrow> se_handshook s2"
      unfolding calm_def calm_at_def by metis
    with head_session assms(4) s2(2) show ?thesis by metis
  qed
  have "good J cap snap C h h3"
    using good_trans [OF good_head [OF assms(5)] good_trans [OF good_calm [OF c2] g3]] .
  moreover have "good J cap snap C h3 (snd (expand_reply net snap version sid add h3))"
    by (rule good_expand_reply [OF assms(1) hs3 subset_refl assms(3)])
  moreover have "good J cap snap C (snd (expand_reply net snap version sid add h3))
      (snd (unless_threw (completeDirectoryLoads net snap version completed (Some sid)) (expand_reply net snap version sid add h3)))"
    by (rule good_unless) (rule good_completeDirectoryLoads [OF assms(1)])
  ultimately have "good J cap snap C h
      (snd (unless_threw (completeDirectoryLoads net snap version completed (Some sid)) (expand_reply net snap version sid add h3)))"
    by (blast intro: good_trans)
  with \<open>good J cap snap C h h3\<close> show ?thesis unfolding eq by simp
qed

section \<open>Lookups and searches\<close>

text \<open>A reply whose entries are entries of the snapshot that the session has learnt.\<close>

definition plain_reply :: "reply \<Rightarrow> bool" where
  "plain_reply v = (case v of RObj ob \<Rightarrow> ro_entries ob = None | _ \<Rightarrow> True)"

lemma plain_reply_simps [simp]: "plain_reply RNull" "plain_reply (RNumber n)" "plain_reply (RBool b)"
  by (simp_all add: plain_reply_def)

lemma keeps_result: "plain_reply v \<or> err \<noteq> None \<Longrightarrow> keeps_entries J cap (InResult r v err)"
  by (cases v; cases err) (auto simp: keeps_entries_def receive_def plain_reply_def)

lemma good_result:
  assumes "jm_get (ho_sessions h) sid = Some s" "se_handshook s"
    and "\<And>e. e \<in> set es \<Longrightarrow> agrees snap e"
    and "ro_entries ob = Some es" "ro_version ob = Some v" "ids = map ce_id es"
  shows "good J cap snap C h (host_send net sid (InResult r (RObj ob) None) (learn sid ids h))"
proof -
  let ?f = "InResult r (RObj ob) None"
  define s' where "s' = s\<lparr>se_knownIds := fold jset_add ids (se_knownIds s)\<rparr>"
  have eq: "learn sid ids h = upd_session sid (\<lambda>_. s') h" using assms(1) by (simp add: learn_def upd_session_def s'_def)
  have known: "set (se_knownIds s') = ce_id ` set es \<union> set (se_knownIds s)"
    using set_fold_known [where f = "\<lambda>x. x" and rows = ids and s = "se_knownIds s"] assms(6) by (simp add: s'_def)
  have calm1: "calm J cap h (upd_session sid (\<lambda>_. s') h)"
    using assms(1) known by (intro calm_replace) (auto simp: s'_def)
  have step: "in_step P snap s' (receive J cap ?f m)" if "in_step P snap s m" for P m
    unfolding in_step_def
  proof (intro allI impI)
    fix i e assume "jm_get (byId (receive J cap ?f m)) i = Some e"
    then have "jm_get (byId (hydrateLookupEntries m es v cap)) i = Some e" using assms(4,5) by (simp add: receive_def)
    from held_after_lookup [OF this] that assms(3) known
    show "i \<in> set (se_knownIds s') \<and> ce_id e = i \<and> (i \<in> P \<or> agrees snap e)" unfolding in_step_def by blast
  qed
  show ?thesis
  proof (cases "attached sid (upd_session sid (\<lambda>_. s') h)")
    case False
    then show ?thesis using good_calm [OF calm1] by (simp add: eq host_send_def)
  next
    case True
    then have att: "se_attached s" using assms(1) by (simp add: attached_def get_upd_session s'_def)
    show ?thesis unfolding eq
    proof (cases rule: host_send_cases [OF True, where net = net and f = ?f and J = J and cap = cap])
      case 2
      then show "good J cap snap C h (host_send net sid ?f (upd_session sid (\<lambda>_. s') h))"
        using good_trans [OF good_calm [OF calm1] good_calm] by blast
    next
      case (1 n)
      let ?h1 = "upd_session sid (\<lambda>_. s') h" and ?ok = "\<lambda>_::nat. SendOk"
      have "good J cap snap C h (host_send ?ok sid ?f ?h1)"
        using assms(1,2) step by (intro good_data) (auto simp: s'_def)
      moreover have "host_send ?ok sid ?f ?h1 = ho_note (Posted sid ?f) (?h1\<lparr>ho_sends := ho_sends ?h1 + 1\<rparr>)"
        using True by (simp add: host_send_def)
      moreover have "host_send net sid ?f ?h1 = (ho_note (Posted sid ?f) (?h1\<lparr>ho_sends := ho_sends ?h1 + 1\<rparr>))\<lparr>ho_sends := n\<rparr>"
        using 1 by (simp add: ho_note_def)
      ultimately show "good J cap snap C h (host_send net sid ?f ?h1)"
        by (metis good_calm [OF calm_sends] good_trans)
    qed
  qed
qed

text \<open>A reply to a session that is gone, or that shook hands.\<close>

lemma calm_result: "plain_reply v \<or> err \<noteq> None \<Longrightarrow> calm J cap h (host_send net sid (InResult r v err) h)"
  by (rule calm_send) (rule keeps_result)

lemma ancestor_chain_ok:
  assumes "snapshot_ok snap" "e \<in> set (ancestor_chain n snap c)"
  shows "agrees snap e"
  using assms(2) get_agrees [OF assms(1)] by (induction n arbitrary: c) (auto split: option.splits)

lemma good_lookup:
  assumes "snapshot_ok snap" "\<And>s. jm_get (ho_sessions h) sid = Some s \<Longrightarrow> se_handshook s"
    and "lookup_answer snap sid found h = (v, h1)"
  shows "good J cap snap C h (host_send net sid (InResult r v None) h1)"
proof (cases "v = RNull")
  case True
  then have "h1 = h" using assms(3) by (auto simp: lookup_answer_def lookup_obj_def Let_def split: option.splits if_splits)
  then show ?thesis using True good_calm [OF calm_result] by simp
next
  case False
  then obtain i where v: "v = lookup_obj i (ns_treeVersion snap) (ancestor_chain 10000 snap (Some i))"
    and h1: "h1 = learn sid (map ce_id (ancestor_chain 10000 snap (Some i))) h"
    using assms(3) by (auto simp: lookup_answer_def Let_def split: option.splits if_splits)
  show ?thesis
  proof (cases "jm_get (ho_sessions h) sid")
    case None
    then show ?thesis by (simp add: h1 learn_def upd_session_def host_send_def attached_def)
  next
    case (Some s)
    then show ?thesis unfolding v h1 lookup_obj_def
      using assms(2) ancestor_chain_ok [OF assms(1)] by (intro good_result) auto
  qed
qed

definition keyed :: "native_snapshot \<Rightarrow> (int, client_entry) jmap \<Rightarrow> bool" where
  "keyed snap acc \<longleftrightarrow> list_all (\<lambda>(k, e). ce_id e = k \<and> agrees snap e) acc"

lemma keyed_fresh_chain: "snapshot_ok snap \<Longrightarrow> keyed snap acc \<Longrightarrow> keyed snap (fresh_chain n snap c acc)"
proof (induction n arbitrary: c acc)
  case (Suc n)
  have "keyed snap (jm_set i e acc)" if "ns_getById snap i = Some e" for i e
    using that Suc.prems get_agrees [OF Suc.prems(1) that] set_jm_set_subset [of i e acc]
    by (auto simp: keyed_def list_all_iff)
  with Suc show ?case by (auto split: option.split)
qed simp

lemma keyed_search_page:
  "snapshot_ok snap \<Longrightarrow> keyed snap acc \<Longrightarrow> keyed snap (snd (search_page snap restr limit found hits acc))"
  by (induction snap restr limit found hits acc rule: search_page.induct) (auto simp: keyed_fresh_chain)

lemma good_search:
  assumes "snapshot_ok snap" "\<And>s. jm_get (ho_sessions h) sid = Some s \<Longrightarrow> se_handshook s"
    and "search_answer snap sid limit found h = (v, h1)"
  shows "good J cap snap C h (host_send net sid (InResult r v None) h1)"
proof -
  obtain hits acc where p: "search_page snap (restricted (the (jm_get (ho_sessions h) sid))) limit found [] [] = (hits, acc)"
    by fastforce
  have "keyed snap []" by (simp add: keyed_def)
  from keyed_search_page [OF assms(1) this] p have "keyed snap acc" by (metis snd_conv)
  then have acc: "jm_keys acc = map ce_id (map snd acc)" "\<And>e. e \<in> set (map snd acc) \<Longrightarrow> agrees snap e"
    by (auto simp: keyed_def list_all_iff)
  have v: "v = RObj \<lparr>ro_id = None, ro_version = Some (ns_treeVersion snap), ro_entries = Some (map snd acc),
      ro_hits = Some hits, ro_clipped = int (length found) > limit\<rparr>" and h1: "h1 = learn sid (jm_keys acc) h"
    using assms(3) p by (simp_all add: search_answer_def)
  show ?thesis
  proof (cases "jm_get (ho_sessions h) sid")
    case None
    then show ?thesis by (simp add: h1 learn_def upd_session_def host_send_def attached_def)
  next
    case (Some s)
    then show ?thesis unfolding v h1 using assms(2) acc by (intro good_result) auto
  qed
qed

section \<open>The other frames and sessions that come and go\<close>

lemma calm_store: "calm J cap h (h\<lparr>ho_store := st, ho_pendingDecorations := d, ho_ticking := b\<rparr>)" "calm J cap h (h\<lparr>ho_store := st\<rparr>)"
  by (rule calm_same; simp)+

lemma calm_handleDecorations: "calm J cap h (handleDecorations net sid pid ts replaceAll h)"
  by (auto simp: handleDecorations_def sendError_def Let_def calm_send calm_store split: verdict.split option.split prod.split)

lemma calm_handleAck: "calm J cap h (handleAck sid v a h)"
  by (auto simp: handleAck_def calm_upd_session split: option.split)

lemma calm_forwardWarning: "calm J cap h (forwardWarning net code detail op h)"
proof -
  have "calm J cap h (host_send net sid (InWarning c d) h)" for sid c d h by (simp add: calm_send)
  then show ?thesis unfolding forwardWarning_def Let_def
    by (auto split: option.split intro: calm_fold calm_trans [OF _ calm_upd_session])
qed

lemma calm_marks:
  "calm J cap h (markSubtreeCoarse i h)" "calm J cap h (markSubtreeDirty i h)" "calm J cap h (markSubtreeResynced i h)"
  by (simp_all add: markSubtreeCoarse_def markSubtreeDirty_def markSubtreeResynced_def calm_same)

text \<open>A new session has a fresh id, an empty mirror and has not shaken hands.\<close>

lemma attach_keeps:
  assumes "host_inv J cap P snap h"
  shows "host_inv J cap P snap (attachChannel context h)" "steady h (attachChannel context h)"
    "drains (attachChannel context h) = drains h"
proof -
  let ?n = "ho_nextSessionId h" and ?h = "attachChannel context h"
  have ids: "ids_ok h" "\<And>sid. ok_at J cap P snap sid h" "small h" "jm_wf (ho_sessions h)"
    using assms by (auto simp: host_inv_def synced_by_def)
  then have fresh: "jm_get (ho_sessions h) ?n = None" "frames_for ?n (ho_log h) = []" by (auto simp: ids_ok_def)
  then have "byId (mirror_of J cap ?n (ho_log h)) = []" by (simp add: mirror_of_def createMirror_def)
  then have "ok_at J cap P snap sid ?h" for sid
    using ids(2) [of sid] by (auto simp: attachChannel_def ok_at_def new_session_def in_step_empty)
  moreover have "ids_ok ?h"
    using ids(1) by (auto simp: attachChannel_def ids_ok_def)
  moreover have "small ?h" "jm_wf (ho_sessions ?h)"
    using ids(3,4) by (auto simp: attachChannel_def small_def new_session_def)
  ultimately show "host_inv J cap P snap ?h" by (simp add: host_inv_def synced_by_def)
  show "steady h ?h" using fresh(1) by (auto simp: steady_def attachChannel_def)
  show "drains ?h = drains h" by (simp add: drains_def attachChannel_def)
qed

lemma attached_calm: "calm J cap h h' \<Longrightarrow> attached x h' \<Longrightarrow> attached x h"
  unfolding calm_def calm_at_def attached_def by (fastforce split: option.splits)

lemma detach_all: "attached x (fold detachSession sids h) \<Longrightarrow> attached x h \<and> x \<notin> set sids"
proof (induction sids arbitrary: h)
  case (Cons sid sids)
  then have "attached x (detachSession sid h) \<and> x \<notin> set sids" by simp
  then show ?case using attached_calm [OF calm_detach [of undefined 0 h sid]] not_attached_detach [of sid h] by auto
qed simp

lemma good_dispose: "good J cap snap C h (dispose_host h)"
proof (cases "ho_disposed h")
  case False
  let ?h1 = "h\<lparr>ho_disposed := True, ho_ticking := False\<rparr>"
  let ?h2 = "fold detachSession (live h) ?h1"
  have eq: "dispose_host h = ?h2\<lparr>ho_directoryLoads := []\<rparr>" using False by (simp add: dispose_host_def)
  have "calm J cap ?h1 ?h2" by (rule calm_fold) (rule calm_detach)
  then have c: "calm J cap ?h1 (dispose_host h)"
    unfolding eq by (rule calm_trans) (rule calm_same; simp)
  have none: "\<not> attached x (dispose_host h)" for x
    unfolding eq using detach_all [of x "live h" ?h1] not_live [of x h] by (auto simp: attached_def)
  have "host_inv J cap P snap (dispose_host h)" if inv: "host_inv J cap P snap h" for P
  proof -
    have ids: "ids_ok (?h1\<lparr>ho_disposed := False\<rparr>)" "small ?h1" "jm_wf (ho_sessions ?h1)"
      using inv by (simp_all add: host_inv_def synced_by_def ids_ok_def small_def)
    have get: "jm_get (ho_sessions (dispose_host h)) x = None \<longleftrightarrow> jm_get (ho_sessions h) x = None" for x
      using c unfolding calm_def calm_at_def by (metis host.select_convs(1) host.surjective host.update_convs(3,9) option.exhaust option.simps(3))
    have log: "frames_for x (ho_log (dispose_host h)) = frames_for x (ho_log h)" if "jm_get (ho_sessions h) x = None" for x
      using c that by (simp add: calm_def calm_at_def)
    have "ids_ok (dispose_host h)"
      using ids(1) get log none c by (simp add: ids_ok_def calm_def)
    then show ?thesis using none ids(2,3) c small_calm [OF c] ok_at_not_attached
      by (simp add: host_inv_def synced_by_def calm_def)
  qed
  moreover have "drains (dispose_host h) = drains h" using c by (simp add: calm_def drains_def)
  moreover have "steady h (dispose_host h)" using steady_calm [OF c] by (simp add: steady_def)
  ultimately show ?thesis by (simp add: good_def moved_def)
qed (simp add: dispose_host_def)

end
