(* ===== verification/Host_Runs.thy ===== *)
theory Host_Runs
  imports Host_Steps
begin

text \<open>
  The runs of a host: every interleaving of frames, ticks, native changes, loads, mutations, calls, timeouts and
  sessions that come and go. In all of them the mirror of each attached client is in step with the native
  tree.
\<close>

section \<open>The server\<close>

definition safe_answer :: "answer \<Rightarrow> bool" where
  "safe_answer a \<longleftrightarrow> plain_reply (an_result a) \<or> an_error a \<noteq> None"

text \<open>Waiting replies carry no entries, and a call in flight belongs to a session that shook hands.\<close>

definition server_ok :: "server \<Rightarrow> bool" where
  "server_ok sv \<longleftrightarrow> (\<forall>w \<in> set (sv_waiters sv). safe_answer (wt_answer w))
     \<and> (\<forall>(sid, r, c) \<in> set (sv_calls sv). \<exists>s. jm_get (ho_sessions (sv_host sv)) sid = Some s \<and> se_handshook s)"

definition served :: "json_parsers \<Rightarrow> nat \<Rightarrow> int set \<Rightarrow> native_snapshot \<Rightarrow> server \<Rightarrow> bool" where
  "served J cap P snap sv \<longleftrightarrow> host_inv J cap P snap (sv_host sv) \<and> server_ok sv"

definition fine :: "json_parsers \<Rightarrow> nat \<Rightarrow> native_snapshot \<Rightarrow> int set \<Rightarrow> server \<Rightarrow> server \<Rightarrow> bool" where
  "fine J cap snap C sv sv' \<longleftrightarrow> server_ok sv \<longrightarrow> good J cap snap C (sv_host sv) (sv_host sv') \<and> server_ok sv'"

lemma fine_refl [simp]: "fine J cap snap C sv sv"
  by (simp add: fine_def)

lemma fine_trans: "fine J cap snap C sv1 sv2 \<Longrightarrow> fine J cap snap C sv2 sv3 \<Longrightarrow> fine J cap snap C sv1 sv3"
  unfolding fine_def using good_trans by blast

lemma fine_fold: "(\<And>x sv. x \<in> set xs \<Longrightarrow> fine J cap snap C sv (f x sv)) \<Longrightarrow> fine J cap snap C sv (fold f xs sv)"
  by (induction xs arbitrary: sv) (auto intro: fine_trans)

text \<open>A step on the host; the queue, the running mutation and the native log do not matter.\<close>

lemma fine_host:
  assumes "good J cap snap C (sv_host sv) (sv_host sv')"
    and "\<And>w. w \<in> set (sv_waiters sv') \<Longrightarrow> w \<in> set (sv_waiters sv) \<or> safe_answer (wt_answer w)"
    and "set (sv_calls sv') \<subseteq> set (sv_calls sv)"
  shows "fine J cap snap C sv sv'"
proof -
  have "steady (sv_host sv) (sv_host sv')" using assms(1) by (simp add: good_def)
  then show ?thesis using assms unfolding fine_def server_ok_def steady_def by blast
qed

lemma served_fine:
  assumes "served J cap P snap sv" "P \<subseteq> C" "fine J cap snap C sv sv'"
  shows "served J cap (moved P (sv_host sv) (sv_host sv')) snap sv'"
  using assms by (auto simp: served_def fine_def good_def)

lemma host_inv_mono:
  assumes "host_inv J cap P snap h" "P \<subseteq> Q"
  shows "host_inv J cap Q snap h"
proof -
  have "ok_at J cap P snap sid h \<Longrightarrow> ok_at J cap Q snap sid h" for sid
    using assms(2) unfolding ok_at_def in_step_def by blast
  with assms(1) show ?thesis by (simp add: host_inv_def synced_by_def)
qed

lemma served_mono: "served J cap P snap sv \<Longrightarrow> P \<subseteq> Q \<Longrightarrow> served J cap Q snap sv"
  using host_inv_mono by (auto simp: served_def)

section \<open>Synchronization points\<close>

lemma fine_settle: "safe_answer a \<Longrightarrow> fine J cap snap C sv (settle_answer net a sv)"
proof (rule fine_host)
  assume "safe_answer a"
  then have "calm J cap (sv_host sv) (host_send net (an_session a) (InResult (an_reqId a) (an_result a) (an_error a)) (sv_host sv))"
    by (intro calm_result) (simp add: safe_answer_def)
  then have "calm J cap (sv_host sv) (sv_host (settle_answer net a sv))"
    by (auto simp: settle_answer_def Let_def split: option.split elim!: calm_trans intro!: calm_upd_session)
  then show "good J cap snap C (sv_host sv) (sv_host (settle_answer net a sv))" by (rule good_calm)
qed (auto simp: settle_answer_def Let_def split: if_splits)

lemma calm_ack_fields: "calm J cap h (h\<lparr>ho_nextAckId := n, ho_ackIdForNextTick := a\<rparr>)" "calm J cap h (h\<lparr>ho_ackIdForNextTick := a\<rparr>)"
  by (rule calm_same; simp)+

lemma fine_flush:
  assumes "snapshot_ok snap" "C \<subseteq> set (cs_changedIds cs)" "safe_answer a"
  shows "fine J cap snap C sv (snd (flushTickAcked D net cs snap target a sv))"
proof (rule fine_host)
  note t = good_tick_any [OF assms(1,2), where J = J and cap = cap and D = D and net = net]
  let ?h = "(sv_host sv)\<lparr>ho_nextAckId := ho_nextAckId (sv_host sv) + 1, ho_ackIdForNextTick := Some (ho_nextAckId (sv_host sv))\<rparr>"
  have "good J cap snap C (sv_host sv) ((snd (tick D net cs snap ?h))\<lparr>ho_ackIdForNextTick := None\<rparr>)"
    by (rule good_trans [OF good_calm [OF calm_ack_fields(1)] good_trans [OF t good_calm [OF calm_ack_fields(2)]]])
  with t [of "sv_host sv"] show "good J cap snap C (sv_host sv) (sv_host (snd (flushTickAcked D net cs snap target a sv)))"
    by (auto simp: flushTickAcked_def Let_def split: prod.split)
qed (use assms(3) in \<open>auto simp: flushTickAcked_def Let_def split: prod.splits if_splits\<close>)

lemma flush_no_throw:
  assumes "snapshot_ok snap" "small (sv_host sv)"
  shows "\<not> fst (flushTickAcked D net cs snap target a sv)"
proof -
  let ?h = "(sv_host sv)\<lparr>ho_nextAckId := ho_nextAckId (sv_host sv) + 1, ho_ackIdForNextTick := Some (ho_nextAckId (sv_host sv))\<rparr>"
  have "small ?h" using assms(2) by (simp add: small_def)
  from tick_total(1) [OF assms(1) this, of D net cs] tick_total(1) [OF assms, of D net cs]
  show ?thesis by (auto simp: flushTickAcked_def Let_def split: prod.splits)
qed

lemma fine_finish:
  assumes "set ws \<subseteq> set (sv_waiters sv)"
  shows "fine J cap snap C sv (finish_waits net ws sv)"
proof -
  let ?sv = "sv\<lparr>sv_waiters := filter (\<lambda>w. w \<notin> set ws) (sv_waiters sv)\<rparr>"
  have safe: "server_ok sv \<Longrightarrow> w \<in> set ws \<Longrightarrow> safe_answer (wt_answer w)" for w
    using assms by (auto simp: server_ok_def)
  have "fine J cap snap C sv ?sv" by (rule fine_host) simp_all
  moreover have "fine J cap snap C ?sv (finish_waits net ws sv)" if "server_ok sv"
    unfolding finish_waits_def by (rule fine_fold) (use safe [OF that] in \<open>simp add: fine_settle\<close>)
  ultimately show ?thesis unfolding fine_def using good_trans by blast
qed

lemma fine_notify: "fine J cap snap C sv (notifyAckWaiters net sv)"
  unfolding notifyAckWaiters_def by (rule fine_finish) auto

lemma fine_immediates: "fine J cap snap C sv (run_immediates net sv)"
  unfolding run_immediates_def by (rule fine_finish) auto

lemma fine_time_out: "fine J cap snap C sv (time_out net w sv)"
proof -
  let ?f = "\<lambda>sid. upd_session sid (\<lambda>s. s\<lparr>se_ackCapable := False\<rparr>)"
  let ?sv = "sv\<lparr>sv_host := fold ?f (outstanding (sv_host sv) w) (sv_host sv)\<rparr>"
  have "calm J cap h (?f sid h)" for sid h by (rule calm_upd_session) simp
  then have "good J cap snap C (sv_host sv) (sv_host ?sv)" by (auto intro: good_calm calm_fold)
  then have "fine J cap snap C sv ?sv" by (rule fine_host) simp_all
  moreover have "w \<in> set (sv_waiters sv) \<Longrightarrow> fine J cap snap C ?sv (finish_waits net [w] ?sv)"
    by (rule fine_finish) simp
  ultimately show ?thesis by (auto simp: time_out_def intro: fine_trans)
qed

section \<open>Mutations and calls\<close>

lemma calm_claim: "claim sid args h = Inr (c, h1) \<Longrightarrow> calm J cap h h1"
  by (auto simp: claim_def split: sum.splits prod.splits option.splits if_splits intro!: calm_upd_session)

lemma calm_admit: "calm J cap h (snd (snd (admit_mutation snap sid op args h)))"
  by (auto simp: admit_mutation_def Let_def split: verdict.split sum.split prod.split intro: calm_claim)

text \<open>What the native side hands back for a mutation or a plain call carries no entries.\<close>

lemma served_flush_mutation:
  assumes "snapshot_ok snap" "P \<subseteq> set (cs_changedIds (fst css))" "\<And>v. result = Inr v \<Longrightarrow> plain_reply v"
    and "served J cap P snap sv"
  shows "served J cap (moved P (sv_host sv) (sv_host (flush_mutation D net css snap target r result sv))) snap
    (flush_mutation D net css snap target r result sv)"
proof -
  define a where "a = \<lparr>an_session = rn_session r, an_reqId = rn_reqId r,
      an_result = (case result of Inl e \<Rightarrow> RNull | Inr v \<Rightarrow> v), an_error = (case result of Inl e \<Rightarrow> Some e | Inr v \<Rightarrow> None),
      an_claimed = rn_claimed r, an_mutation = True\<rparr>"
  let ?sv0 = "sv\<lparr>sv_flushing := True\<rparr>"
  have safe: "safe_answer a" using assms(3) by (auto simp: safe_answer_def a_def split: sum.split)
  have "small (sv_host ?sv0)" using assms(4) by (simp add: served_def host_inv_def)
  then have "\<not> fst (flushTickAcked D net (fst css) snap target a ?sv0)" by (rule flush_no_throw [OF assms(1)])
  then have eq: "flush_mutation D net css snap target r result sv = snd (flushTickAcked D net (fst css) snap target a ?sv0)"
    by (cases result) (auto simp: flush_mutation_def Let_def a_def split: prod.split)
  have "fine J cap snap P sv ?sv0" by (rule fine_host) simp_all
  then have "fine J cap snap P sv (snd (flushTickAcked D net (fst css) snap target a ?sv0))"
    by (rule fine_trans) (rule fine_flush [OF assms(1,2) safe])
  then show ?thesis unfolding eq by (rule served_fine [OF assms(4) subset_refl])
qed

lemma served_start_mutation:
  assumes "snapshot_ok snap" "P \<subseteq> set (cs_changedIds (fst css))" "served J cap P snap sv"
  shows "served J cap (moved P (sv_host sv) (sv_host (start_mutation D net css snap target sv))) snap
    (start_mutation D net css snap target sv)"
proof (cases "sv_running sv = None \<and> sv_queue sv \<noteq> []")
  case True
  then obtain sid reqId op args rest where q: "sv_queue sv = (sid, reqId, op, args) # rest" "sv_running sv = None"
    by (metis list.exhaust prod.exhaust)
  obtain verdict claimed h1 where a: "admit_mutation snap sid op args (sv_host sv) = (verdict, claimed, h1)" by (metis prod.exhaust)
  let ?r = "\<lparr>rn_session = sid, rn_reqId = reqId, rn_op = op, rn_claimed = claimed\<rparr>"
  let ?sv1 = "sv\<lparr>sv_host := h1, sv_queue := rest, sv_running := Some ?r\<rparr>"
  have "calm J cap (sv_host sv) h1" using calm_admit [of J cap "sv_host sv" snap sid op args] a by simp
  then have d: "drains h1 = drains (sv_host sv)" and "good J cap snap P (sv_host sv) h1"
    by (simp_all add: calm_def good_calm)
  then have "fine J cap snap P sv ?sv1" by (intro fine_host) simp_all
  from served_fine [OF assms(3) subset_refl this] d have s1: "served J cap P snap ?sv1" by (simp add: moved_def)
  show ?thesis
  proof (cases verdict)
    case (Inl e)
    have "start_mutation D net css snap target sv = flush_mutation D net css snap target ?r (Inl e) ?sv1"
      using q a Inl by (simp add: start_mutation_def Let_def)
    with served_flush_mutation [OF assms(1,2) _ s1, where result = "Inl e" and r = ?r and D = D and net = net and target = target] d
    show ?thesis by (simp add: moved_def)
  next
    case (Inr u)
    have "start_mutation D net css snap target sv = ?sv1\<lparr>sv_native := sv_native ?sv1 @ [NativeMutation sid op args]\<rparr>"
      using q a Inr by (simp add: start_mutation_def Let_def)
    with s1 d show ?thesis by (simp add: served_def server_ok_def moved_def)
  qed
qed (use assms(3) in \<open>auto simp: start_mutation_def moved_def split: option.split list.split\<close>)

lemma served_mutation_done:
  assumes "snapshot_ok snap" "P \<subseteq> set (cs_changedIds (fst css))" "\<And>v n. result = Inr (v, n) \<Longrightarrow> plain_reply v"
    and "served J cap P snap sv"
  shows "served J cap (moved P (sv_host sv) (sv_host (mutation_done D net css snap target result sv))) snap
    (mutation_done D net css snap target result sv)"
proof (cases "sv_running sv")
  case (Some r)
  obtain checked where c: "mutation_done D net css snap target result sv =
      (if sv_flushing sv then sv else flush_mutation D net css snap target r checked sv)" "\<And>v. checked = Inr v \<Longrightarrow> plain_reply v"
    using Some assms(3) by (force simp: mutation_done_def Let_def split: sum.splits option.splits if_splits)
  then show ?thesis using assms(4) served_flush_mutation [OF assms(1,2) c(2) assms(4)] by (simp add: moved_def)
qed (use assms(4) in \<open>simp add: mutation_done_def moved_def\<close>)

lemma fine_call_error: "fine J cap snap C sv (call_error net sid reqId e sv)"
  by (rule fine_host) (simp_all add: call_error_def good_calm calm_result)

lemma fine_call_reply: "plain_reply v \<Longrightarrow> fine J cap snap C sv (call_reply net sid reqId v sv)"
  by (rule fine_host) (simp_all add: call_reply_def good_calm calm_result)

lemma calm_admit_call: "calm J cap h (snd (admit_call now sid c h))"
  by (auto simp: admit_call_def Let_def split: host_call.split sum.split prod.split verdict.split intro: calm_upd_session)

lemma fine_handleCall:
  assumes "jm_get (ho_sessions (sv_host sv)) sid = Some s" "se_handshook s"
  shows "fine J cap snap C sv (handleCall net now sid reqId method args sv)"
proof (cases "authorizeCall (se_context (the (jm_get (ho_sessions (sv_host sv)) sid))) method")
  case Allowed
  show ?thesis
  proof (cases "parse_call method args")
    case (Inr c)
    obtain v h1 where a: "admit_call now sid c (sv_host sv) = (v, h1)" by fastforce
    have c: "calm J cap (sv_host sv) h1" using calm_admit_call [of J cap "sv_host sv" now sid c] a by simp
    have f1: "fine J cap snap C sv (sv\<lparr>sv_host := h1\<rparr>)" by (rule fine_host) (simp_all add: good_calm [OF c])
    show ?thesis
    proof (cases v)
      case (Inl e)
      with Allowed Inr a have "handleCall net now sid reqId method args sv = call_error net sid reqId e (sv\<lparr>sv_host := h1\<rparr>)"
        by (simp add: handleCall_def)
      with f1 fine_call_error show ?thesis by (metis fine_trans)
    next
      case (Inr u)
      with Allowed \<open>parse_call method args = Inr c\<close> a
      have eq: "handleCall net now sid reqId method args sv = sv\<lparr>sv_host := h1, sv_calls := sv_calls sv @ [(sid, reqId, c)],
          sv_native := sv_native sv @ [NativeCall sid c]\<rparr>" by (simp add: handleCall_def)
      have "\<exists>s. jm_get (ho_sessions h1) sid = Some s \<and> se_handshook s"
        using steady_calm [OF c] assms by (auto simp: steady_def)
      then show ?thesis unfolding eq using f1 by (auto simp: fine_def server_ok_def)
    qed
  qed (use Allowed in \<open>simp add: handleCall_def fine_call_error\<close>)
qed (simp add: handleCall_def fine_call_error)

lemma fine_flush_call:
  assumes "snapshot_ok snap" "C \<subseteq> set (cs_changedIds cs)"
  shows "fine J cap snap C sv (flush_call D net cs snap target sid reqId version sv)"
proof -
  let ?a = "\<lparr>an_session = sid, an_reqId = reqId, an_result = RNumber version, an_error = None, an_claimed = None, an_mutation = False\<rparr>"
  have "fine J cap snap C sv (snd (flushTickAcked D net cs snap target ?a sv))"
    by (rule fine_flush [OF assms]) (simp add: safe_answer_def)
  then show ?thesis by (auto simp: flush_call_def split: prod.split intro: fine_trans [OF _ fine_call_error])
qed

text \<open>After a tick nothing is pending.\<close>

lemma changed_same [simp]: "changed_between snap snap = {}"
  by (simp add: changed_between_def)

lemma tick_clears:
  assumes "snapshot_ok snap'" "P \<subseteq> set (cs_changedIds cs)" "host_inv J cap P snap h"
  shows "host_inv J cap (changed_between snap snap') snap' (snd (tick D net cs snap' h))"
proof -
  obtain out h' where t: "tick D net cs snap' h = (out, h')" by fastforce
  have "small h" "synced J cap P snap h" "jm_wf (ho_sessions h)" using assms(3) by (simp_all add: host_inv_def)
  moreover have "out \<noteq> TickThrew" using tick_total(1) [OF assms(1) \<open>small h\<close>, of D net cs] t by simp
  ultimately show ?thesis
    using synced_tick [OF assms(1,2) _ t] tick_drains(2) [OF t] t by (simp add: host_inv_def)
qed

lemma served_tick:
  assumes "snapshot_ok snap'" "P \<subseteq> set (cs_changedIds cs)" "served J cap P snap sv"
  shows "served J cap (changed_between snap snap') snap' (sv\<lparr>sv_host := snd (tick D net cs snap' (sv_host sv))\<rparr>)"
proof -
  have "steady (sv_host sv) (snd (tick D net cs snap' (sv_host sv)))" by (rule steady_tick)
  then have "server_ok (sv\<lparr>sv_host := snd (tick D net cs snap' (sv_host sv))\<rparr>)"
    using assms(3) unfolding served_def server_ok_def steady_def by auto
  with assms show ?thesis by (simp add: served_def tick_clears)
qed

lemma served_resync_done:
  assumes "snapshot_ok snap" "P \<subseteq> set (cs_changedIds (fst css))" "served J cap P snap sv"
  shows "served J cap Q snap (resync_done D net css snap target sid reqId version markers recursive sv)"
proof -
  obtain out h1 where t: "tick D net (fst css) snap (sv_host sv) = (out, h1)" by fastforce
  let ?sv1 = "sv\<lparr>sv_host := h1\<rparr>"
  have s1: "served J cap {} snap ?sv1"
    using served_tick [OF assms, of D net] t by simp
  have "fine J cap snap {} ?sv1 (resync_done D net css snap target sid reqId version markers recursive sv)"
  proof (cases "completeDirectoryLoadsAfterResync net snap target markers recursive h1")
    case None
    then show ?thesis using t fine_call_error by (simp add: resync_done_def)
  next
    case (Some r)
    obtain threw h2 where r: "r = (threw, h2)" by fastforce
    have g2: "good J cap snap {} h1 h2" using good_afterResync [OF assms(1) Some] r by simp
    then have f2: "fine J cap snap {} ?sv1 (sv\<lparr>sv_host := h2\<rparr>)" by (intro fine_host) simp_all
    have "calm J cap h2 (fold markSubtreeResynced markers h2)" by (rule calm_fold) (rule calm_marks)
    then have f3: "fine J cap snap {} (sv\<lparr>sv_host := h2\<rparr>) (sv\<lparr>sv_host := fold markSubtreeResynced markers h2\<rparr>)"
      by (intro fine_host) (simp_all add: good_calm)
    have f4: "fine J cap snap {} sv' (flush_call D net (snd css) snap target sid reqId version sv')" for sv'
      by (rule fine_flush_call [OF assms(1)]) simp
    have "resync_done D net css snap target sid reqId version markers recursive sv =
        (if out = TickThrew then call_error net sid reqId (plain_error ''EUNKNOWN'' ''encoding failed'') ?sv1
         else if threw then call_error net sid reqId (plain_error ''EUNKNOWN'' ''encoding failed'') (sv\<lparr>sv_host := h2\<rparr>)
         else flush_call D net (snd css) snap target sid reqId version (sv\<lparr>sv_host := fold markSubtreeResynced markers h2\<rparr>))"
      using t Some r by (simp add: resync_done_def)
    then show ?thesis
      by (simp only: fine_call_error fine_trans [OF f2 fine_call_error] fine_trans [OF fine_trans [OF f2 f3] f4] split: if_split) simp
  qed
  from served_fine [OF s1 subset_refl this]
  have "served J cap {} snap (resync_done D net css snap target sid reqId version markers recursive sv)" by (simp add: moved_def)
  then show ?thesis by (rule served_mono) simp
qed

text \<open>The native answer to a call that the session made.\<close>

lemma served_call_done:
  assumes "snapshot_ok snap" "P \<subseteq> set (cs_changedIds (fst css))" "\<And>v. ans = NaValue v \<Longrightarrow> plain_reply v"
    and "served J cap P snap sv"
  shows "served J cap (moved P (sv_host sv) (sv_host (call_done D net css snap target caps requested startRoots call ans sv))) snap
    (call_done D net css snap target caps requested startRoots call ans sv)" (is "served J cap (moved P _ (sv_host ?sv')) snap _")
proof (cases "call \<in> set (sv_calls sv)")
  case True
  obtain sid reqId c where call: "call = (sid, reqId, c)" by (metis prod.exhaust)
  let ?sv1 = "sv\<lparr>sv_calls := remove1 call (sv_calls sv)\<rparr>"
  have f1: "fine J cap snap P sv ?sv1" by (rule fine_host) (simp_all add: set_remove1_subset)
  from served_fine [OF assms(4) subset_refl f1] have s1: "served J cap P snap ?sv1" by (simp add: moved_def)
  obtain s where "jm_get (ho_sessions (sv_host sv)) sid = Some s" "se_handshook s"
    using assms(4) True call by (fastforce simp: served_def server_ok_def)
  then have hs: "\<And>s. jm_get (ho_sessions (sv_host ?sv1)) sid = Some s \<Longrightarrow> se_handshook s" by simp
  have lookup: "fine J cap snap P ?sv1 (let (v, h1) = lookup_answer snap sid found (sv_host ?sv1) in call_reply net sid reqId v (?sv1\<lparr>sv_host := h1\<rparr>))" for found
    using good_lookup [OF assms(1) hs] by (auto simp: call_reply_def split: prod.split intro!: fine_host)
  have search: "fine J cap snap P ?sv1 (let (v, h1) = search_answer snap sid limit found (sv_host ?sv1) in call_reply net sid reqId v (?sv1\<lparr>sv_host := h1\<rparr>))" for limit found
    using good_search [OF assms(1) hs] by (auto simp: call_reply_def split: prod.split intro!: fine_host)
  note fine_facts = fine_call_error fine_call_reply lookup [unfolded Let_def] search [unfolded Let_def] fine_flush_call [OF assms(1,2)]
  consider "fine J cap snap P ?sv1 ?sv'"
    | v markers recursive where "?sv' = resync_done D net css snap target sid reqId v markers recursive ?sv1"
    using True call assms(3) fine_facts
    unfolding call_done_def Let_def
    by (cases c; cases ans; simp; blast)
  then show ?thesis
  proof cases
    case 1
    from served_fine [OF s1 subset_refl 1] show ?thesis by (simp add: moved_def)
  next
    case 2
    then show ?thesis using served_resync_done [OF assms(1,2) s1] by simp
  qed
qed (use assms(4) in \<open>simp add: call_done_def moved_def\<close>)

section \<open>Frames\<close>

text \<open>A client's expansion set stays a set of fewer than \<open>2 ^ 32\<close> ids.\<close>

definition frame_fits :: "(nat \<Rightarrow> send_outcome) \<Rightarrow> nat \<Rightarrow> client_frame \<Rightarrow> server \<Rightarrow> bool" where
  "frame_fits net sid f sv =
     (case f of CSetExpanded add remove \<Rightarrow> length add < 2 ^ 32 \<and> small (set_expanded_head net sid add remove (sv_host sv))
      | _ \<Rightarrow> True)"

lemma fine_on_host: "good J cap snap C (sv_host sv) (f (sv_host sv)) \<Longrightarrow> fine J cap snap C sv (on_host f sv)"
  by (rule fine_host) (simp_all add: on_host_def)

lemma fine_message:
  assumes "snapshot_ok snap" "C \<subseteq> set (cs_changedIds cs)" "frame_fits net sid f sv"
  shows "fine J cap snap C sv (host_message D net snap (cs, snap) version now sid f sv)"
proof (cases "attached sid (sv_host sv)")
  case att: True
  then obtain s where s: "jm_get (ho_sessions (sv_host sv)) sid = Some s" by (auto simp: attached_def split: option.splits)
  have err: "fine J cap snap C sv (on_host (sendError net sid code msg) sv)" for code msg
    by (rule fine_on_host) (simp add: sendError_def good_calm calm_send)
  show ?thesis
  proof (cases "se_handshook s \<or> f = CMalformed \<or> (\<exists>v. f = CVersion v) \<or> (\<exists>p q. f = CHandshake p q)")
    case False
    then show ?thesis using att s err by (cases f) (simp_all add: host_message_def Let_def)
  next
    case True
    then have hs: "se_handshook s" if "f \<noteq> CMalformed" "\<And>v. f \<noteq> CVersion v" "\<And>p q. f \<noteq> CHandshake p q"
      using that by blast
    show ?thesis
    proof (cases f)
      case (CHandshake p q)
      then show ?thesis using att s good_handshake [OF assms(1) att]
        by (simp add: host_message_def Let_def fine_on_host)
    next
      case (CSetExpanded add remove)
      then have "good J cap snap C (sv_host sv) (snd (handleSetExpanded D net snap (cs, snap) version sid add remove (sv_host sv)))"
        using assms hs s by (intro good_setExpanded) (auto simp: frame_fits_def)
      then show ?thesis using att s CSetExpanded hs by (simp add: host_message_def Let_def fine_on_host)
    next
      case (CSetViewport off limit over)
      then show ?thesis using att s hs good_viewport [OF assms(1)]
        by (simp add: host_message_def Let_def fine_on_host)
    next
      case (CMutate r op args)
      then show ?thesis using att s hs by (auto simp: host_message_def Let_def fine_def server_ok_def)
    next
      case (CCall r m args)
      then show ?thesis using att s hs fine_handleCall [OF s] by (simp add: host_message_def Let_def)
    next
      case (CAck v a)
      have "fine J cap snap C sv (notifyAckWaiters net (on_host (handleAck sid v a) sv))"
        by (rule fine_trans [OF fine_on_host fine_notify]) (simp add: good_calm calm_handleAck)
      then show ?thesis using att s hs CAck by (auto simp: host_message_def Let_def split: option.split)
    next
      case CDispose
      then show ?thesis using att s hs by (auto simp: host_message_def Let_def intro: fine_on_host good_calm calm_detach)
    next
      case (CDecorations pid ts r)
      then show ?thesis using att s hs
        by (auto simp: host_message_def Let_def intro: fine_on_host good_calm calm_handleDecorations)
    qed (use att s hs err in \<open>simp_all add: host_message_def Let_def\<close>)
  qed
qed (simp add: host_message_def)

section \<open>Runs\<close>

text \<open>
  A run with the snapshot it has reached and the ids whose change is not drained yet. What the native side
  promises: its snapshots are consistent (\<open>snapshot_ok\<close>), a change set names every id that changed since the
  last one, and what it hands back for mutations and plain calls holds no entries. The native tree may
  change between any two tasks of the host, and within a tick between the draining of the changes and the
  reading of the snapshot; within the other tasks it stands still.
\<close>

inductive runs ::
  "((int, decoration list) jmap \<Rightarrow> string) \<Rightarrow> (nat \<Rightarrow> send_outcome) \<Rightarrow> native_snapshot \<Rightarrow> int set \<Rightarrow> server \<Rightarrow> bool"
  for D net
where
  run_start: "snapshot_ok snap \<Longrightarrow> runs D net snap {} new_server"
| run_native: "runs D net snap P sv \<Longrightarrow> snapshot_ok snap' \<Longrightarrow> runs D net snap' (P \<union> changed_between snap snap') sv"
| run_tick: "runs D net snap P sv \<Longrightarrow> snapshot_ok snap' \<Longrightarrow> P \<subseteq> set (cs_changedIds cs) \<Longrightarrow>
    runs D net snap' (changed_between snap snap') (on_host (\<lambda>h. snd (tick D net cs snap' h)) sv)"
| run_attach: "runs D net snap P sv \<Longrightarrow> runs D net snap P (on_host (attachChannel context) sv)"
| run_closed: "runs D net snap P sv \<Longrightarrow> runs D net snap P (on_host (detachSession sid) sv)"
| run_dispose: "runs D net snap P sv \<Longrightarrow> runs D net snap P (on_host dispose_host sv)"
| run_message: "runs D net snap P sv \<Longrightarrow> P \<subseteq> set (cs_changedIds cs) \<Longrightarrow> frame_fits net sid f sv \<Longrightarrow>
    sv' = host_message D net snap (cs, snap) version now sid f sv \<Longrightarrow>
    runs D net snap (moved P (sv_host sv) (sv_host sv')) sv'"
| run_warning: "runs D net snap P sv \<Longrightarrow> runs D net snap P (on_host (forwardWarning net code detail op) sv)"
| run_overflow: "runs D net snap P sv \<Longrightarrow> runs D net snap P (on_host (markSubtreeCoarse i) sv)"
| run_watching: "runs D net snap P sv \<Longrightarrow> runs D net snap P (on_host (\<lambda>h. snd (watch_started h)) sv)"
| run_provider: "runs D net snap P sv \<Longrightarrow> runs D net snap P (on_host (host_provider_changed pid updates) sv)"
| run_provider_gone: "runs D net snap P sv \<Longrightarrow> runs D net snap P (on_host (host_provider_disposed pid) sv)"
| run_load: "runs D net snap P sv \<Longrightarrow> runs D net snap P (on_host (\<lambda>h. snd (start_load opname snap g h)) sv)"
| run_read: "runs D net snap P sv \<Longrightarrow> runs D net snap P (on_host (\<lambda>h. snd (read_done opname snap g current n h)) sv)"
| run_loaded: "runs D net snap P sv \<Longrightarrow> sv' = on_host (\<lambda>h. snd (finish_load net snap version g h)) sv \<Longrightarrow>
    runs D net snap (moved P (sv_host sv) (sv_host sv')) sv'"
| run_load_failed: "runs D net snap P sv \<Longrightarrow> runs D net snap P (on_host (fail_load net g cancelled err) sv)"
| run_immediates: "runs D net snap P sv \<Longrightarrow> sv' = run_immediates net sv \<Longrightarrow> runs D net snap (moved P (sv_host sv) (sv_host sv')) sv'"
| run_timeout: "runs D net snap P sv \<Longrightarrow> sv' = time_out net w sv \<Longrightarrow> runs D net snap (moved P (sv_host sv) (sv_host sv')) sv'"
| run_mutation: "runs D net snap P sv \<Longrightarrow> P \<subseteq> set (cs_changedIds (fst css)) \<Longrightarrow>
    sv' = start_mutation D net css snap target sv \<Longrightarrow> runs D net snap (moved P (sv_host sv) (sv_host sv')) sv'"
| run_mutated: "runs D net snap P sv \<Longrightarrow> P \<subseteq> set (cs_changedIds (fst css)) \<Longrightarrow> (\<And>v n. result = Inr (v, n) \<Longrightarrow> plain_reply v) \<Longrightarrow>
    sv' = mutation_done D net css snap target result sv \<Longrightarrow> runs D net snap (moved P (sv_host sv) (sv_host sv')) sv'"
| run_called: "runs D net snap P sv \<Longrightarrow> P \<subseteq> set (cs_changedIds (fst css)) \<Longrightarrow> (\<And>v. ans = NaValue v \<Longrightarrow> plain_reply v) \<Longrightarrow>
    sv' = call_done D net css snap target caps requested startRoots call ans sv \<Longrightarrow>
    runs D net snap (moved P (sv_host sv) (sv_host sv')) sv'"

lemma served_calm:
  assumes "served J cap P snap sv" "calm J cap (sv_host sv) (f (sv_host sv))"
  shows "served J cap P snap (on_host f sv)"
proof -
  have "fine J cap snap P sv (on_host f sv)" by (rule fine_on_host) (rule good_calm [OF assms(2)])
  from served_fine [OF assms(1) subset_refl this] assms(2) show ?thesis by (simp add: moved_def on_host_def calm_def)
qed

lemma served_native: "served J cap P snap sv \<Longrightarrow> served J cap (P \<union> changed_between snap snap') snap' sv"
  using synced_shift by (auto simp: served_def host_inv_def)

lemma served_attach:
  assumes "served J cap P snap sv"
  shows "served J cap P snap (on_host (attachChannel context) sv)"
  using assms attach_keeps [of J cap P snap "sv_host sv" "context"]
  unfolding served_def server_ok_def on_host_def steady_def by auto

lemma served_dispose:
  assumes "served J cap P snap sv"
  shows "served J cap P snap (on_host dispose_host sv)"
proof -
  have "fine J cap snap P sv (on_host dispose_host sv)" by (rule fine_on_host) (rule good_dispose)
  from served_fine [OF assms subset_refl this]
  have "served J cap (moved P (sv_host sv) (sv_host (on_host dispose_host sv))) snap (on_host dispose_host sv)" .
  then show ?thesis by (rule served_mono) (auto simp: moved_def)
qed

lemma calm_watch_started: "calm J cap h (snd (watch_started h))"
  by (simp add: watch_started_def calm_same)

lemma calm_publish: "calm J cap h (publish_decorations changed st h)"
  by (auto simp: publish_decorations_def intro: calm_same)

lemma calm_providers: "calm J cap h (host_provider_changed pid updates h)" "calm J cap h (host_provider_disposed pid h)"
  by (auto simp: host_provider_changed_def host_provider_disposed_def calm_publish split: prod.split)

lemma served_new: "served J cap {} snap new_server"
  by (auto simp: served_def new_server_def new_host_def server_ok_def host_inv_def synced_by_def ok_at_def ids_ok_def
      small_def attached_def jm_wf_def)

lemma runs_served:
  assumes "runs D net snap P sv"
  shows "snapshot_ok snap \<and> served J cap P snap sv"
  using assms
proof (induction rule: runs.induct)
  case (run_tick snap P sv snap' cs)
  then show ?case using served_tick [of snap' P cs J cap snap sv D net] by (simp add: on_host_def)
next
  case (run_message snap P sv cs sid f sv' version now)
  then show ?case
    using served_fine [OF _ _ fine_message, of J cap P snap sv "set (cs_changedIds cs)" cs net sid f D version now] by blast
next
  case (run_loaded snap P sv sv' version g)
  have "fine J cap snap P sv sv'" unfolding run_loaded.hyps
    using run_loaded.IH by (intro fine_on_host good_finish_load) blast
  with run_loaded.IH show ?case using served_fine by blast
next
  case (run_immediates snap P sv sv')
  then show ?case using served_fine [OF _ subset_refl fine_immediates] by blast
next
  case (run_timeout snap P sv sv' w)
  then show ?case using served_fine [OF _ subset_refl fine_time_out] by blast
next
  case (run_mutation snap P sv css sv' target)
  then show ?case using served_start_mutation by blast
next
  case (run_mutated snap P sv css result sv' target)
  then show ?case using served_mutation_done by blast
next
  case (run_called snap P sv css ans sv' target caps requested startRoots call)
  then show ?case using served_call_done by blast
qed (auto intro: served_new served_native served_attach served_dispose served_calm calm_detach calm_forwardWarning
       calm_marks calm_watch_started calm_providers calm_start_load calm_read_done calm_fail_load)

section \<open>A small run\<close>

text \<open>One directory; a client attaches and shakes hands.\<close>

definition demo_snapshot :: native_snapshot where
  "demo_snapshot = \<lparr>ns_treeVersion = 1, ns_roots = [1],
     ns_getById = (\<lambda>i. if i = 1 then Some (plain_entry 1 None 1) else None), ns_childrenOf = (\<lambda>_. []),
     ns_projectedChildrenOf = (\<lambda>_. []), ns_projectedChildCount = (\<lambda>_. None), ns_directoryChildrenLoaded = (\<lambda>_. False),
     ns_visibleRows = (\<lambda>expd off limit. if off \<le> 0 \<and> 1 \<le> limit then [plain_entry 1 None 1] else []),
     ns_showHiddenFiles = True, ns_showIgnoredFiles = True, ns_compactFolders = False\<rparr>"

definition no_changes :: change_set where
  "no_changes = \<lparr>cs_changedIds = [], cs_subtreeRootsChanged = [], cs_childSetChanged = [],
     cs_projectionChanged = None, cs_reparentedIds = [], cs_fromVersion = 1, cs_toVersion = 1\<rparr>"

definition demo_session :: session where
  "demo_session = (new_session (resolveSessionContext None))\<lparr>se_handshook := True, se_knownIds := [1], se_lastRootIds := [1]\<rparr>"

definition demo_server :: server where
  "demo_server = host_message (\<lambda>_. []) (\<lambda>_. SendOk) demo_snapshot (no_changes, demo_snapshot) 1 0 1 (CHandshake None False)
     (on_host (attachChannel None) new_server)"

lemma plain_entry_safe [simp]: "safe_entry (plain_entry 1 None 1)"
  by (simp add: plain_entry_def safe_entry_def safe_nat_def safe_int_def safe_string_def
        text_safe_def MAX_SAFE_def js_def high_surrogate_def low_surrogate_def text_encode_def utf8_char_def)

lemma demo_snapshot_ok: "snapshot_ok demo_snapshot"
  by (auto simp: snapshot_ok_def demo_snapshot_def agrees_def plain_entry_def [symmetric] split: if_splits) (auto simp: plain_entry_def)

lemma demo_run: "runs (\<lambda>_. []) (\<lambda>_. SendOk) demo_snapshot {} demo_server"
proof -
  have "runs (\<lambda>_. []) (\<lambda>_. SendOk) demo_snapshot {} (on_host (attachChannel None) new_server)"
    by (intro run_attach run_start demo_snapshot_ok)
  from run_message [OF this, where cs = no_changes and sid = 1 and f = "CHandshake None False" and version = 1 and now = 0, OF _ _ refl]
  show ?thesis by (simp add: frame_fits_def moved_def demo_server_def)
qed

lemma demo_log:
  "ho_sessions (sv_host demo_server) = [(1, demo_session)]"
  "jm_get (byId (mirror_of no_json 10 1 (ho_log (sv_host demo_server)))) 1 = Some (plain_entry 1 None 1)"
proof -
  have enc: "encode_entries [plain_entry 1 None 1] = Some (Some (enc_vec enc_entry [plain_entry 1 None 1]))"
    using safe_entry_encodable [OF plain_entry_safe] by (simp add: encode_entries_def encodeClientEntries_eq safe_nat_def MAX_SAFE_def)
  have dec: "decodeClientEntries (enc_vec enc_entry [plain_entry 1 None 1]) = Inr [plain_entry 1 None 1]"
    by (rule decodeClientEntries_enc) simp_all
  have roots: "root_entries demo_snapshot = [plain_entry 1 None 1]"
    by (simp add: root_entries_def demo_snapshot_def map_filter_def)
  have [simp]: "ce_id (plain_entry 1 None 1) = 1" "ce_parentId (plain_entry 1 None 1) = None" by (simp_all add: plain_entry_def)
  have cap: "viewportRowCap (resolveSessionContext None) = None"
    by (simp add: viewportRowCap_def resolveSessionContext_def LOCAL_ADMIN_POLICY_def)
  define msg where "msg = \<lparr>sn_version = 1, sn_roots = [1], sn_mirror = Some (enc_vec enc_entry [plain_entry 1 None 1]),
      sn_entriesJson = None, sn_directChildCounts = [], sn_visibleCount = 1, sn_visibility = Some (snap_visibility demo_snapshot)\<rparr>"
  have "sv_host demo_server = (attachChannel None new_host)\<lparr>ho_sessions := [(1, demo_session)], ho_sends := 1, ho_log := [Posted 1 (InSnapshot msg)]\<rparr>"
    by (simp add: demo_server_def host_message_def on_host_def new_server_def attachChannel_def new_host_def attached_def
          handleHandshake_def roots enc cap grant_prefetch_def requested_prefetch_def new_session_def host_send_def ho_note_def
          upd_session_def Let_def demo_session_def add_count_def msg_def object_of_def jset_add_def, simp add: demo_snapshot_def)
  then show "ho_sessions (sv_host demo_server) = [(1, demo_session)]"
    "jm_get (byId (mirror_of no_json 10 1 (ho_log (sv_host demo_server)))) 1 = Some (plain_entry 1 None 1)"
    by (simp_all add: mirror_of_def frames_for_def map_filter_def receive_def applySnapshot_def msg_def decodeEntryPayload_def
         decodeEntries_def dec lift_error_def store_entry_def touch_def evictToCap_def merge_counts_def fresh_mirror_def createMirror_def add_child_def order_children_def Let_def)
qed

section \<open>Properties\<close>



end
