(* ===== verification/Host_Boundary.thy ===== *)
theory Host_Boundary
  imports Host_Steps
begin

text \<open>
  What the host keeps from a session (\<open>packages/mille/src/host.ts\<close>): entries beyond a symlink, mutations outside
  its policy, and the progress of operations that other sessions own. Also that the walks up the tree
  after a resync end.
\<close>

section \<open>Ancestors\<close>

text \<open>The entry \<open>k\<close> levels above, counted from the parent.\<close>

primrec ancestor :: "native_snapshot \<Rightarrow> nat \<Rightarrow> int \<Rightarrow> client_entry option" where
  "ancestor snap 0 i = Option.bind (parent_of snap i) (ns_getById snap)"
| "ancestor snap (Suc k) i = Option.bind (ancestor snap k i) (\<lambda>e. Option.bind (ce_parentId e) (ns_getById snap))"

text \<open>No symlink among the first \<open>n\<close> ancestors.\<close>

definition inside :: "native_snapshot \<Rightarrow> nat \<Rightarrow> int \<Rightarrow> bool" where
  "inside snap n i \<longleftrightarrow> (\<forall>k < n. \<forall>e. ancestor snap k i = Some e \<longrightarrow> ce_kind e \<noteq> ENTRY_KIND_SYMLINK)"

definition climb :: "native_snapshot \<Rightarrow> nat \<Rightarrow> int option \<Rightarrow> client_entry option" where
  "climb snap k c = ((\<lambda>e. Option.bind e (\<lambda>e. Option.bind (ce_parentId e) (ns_getById snap))) ^^ k) (Option.bind c (ns_getById snap))"

lemma climb_none [simp]: "climb snap k None = None" "ns_getById snap c = None \<Longrightarrow> climb snap k (Some c) = None"
  by (induction k) (simp_all add: climb_def)

lemma climb_Suc: "ns_getById snap c = Some e \<Longrightarrow> climb snap (Suc k) (Some c) = climb snap k (ce_parentId e)"
  unfolding climb_def funpow_Suc_right comp_def by simp

lemma climb_0 [simp]: "climb snap 0 c = Option.bind c (ns_getById snap)"
  by (simp add: climb_def)

lemma ancestor_climb: "ancestor snap k i = climb snap k (parent_of snap i)"
  by (induction k) (simp_all add: climb_def)

lemma crosses_from_iff:
  "crosses_from n snap c \<longleftrightarrow> (\<exists>k < n. \<exists>e. climb snap k c = Some e \<and> ce_kind e = ENTRY_KIND_SYMLINK)"
proof (induction n arbitrary: c)
  case (Suc n)
  show ?case
  proof (cases "Option.bind c (ns_getById snap)")
    case None
    then have "climb snap k c = None" for k by (cases c) simp_all
    then show ?thesis using None by (cases c) simp_all
  next
    case (Some e)
    then obtain i where i: "c = Some i" "ns_getById snap i = Some e" by (cases c) auto
    have "(\<exists>k < Suc n. \<exists>f. climb snap k c = Some f \<and> ce_kind f = ENTRY_KIND_SYMLINK) \<longleftrightarrow>
        ce_kind e = ENTRY_KIND_SYMLINK \<or> (\<exists>k < n. \<exists>f. climb snap k (ce_parentId e) = Some f \<and> ce_kind f = ENTRY_KIND_SYMLINK)"
      using i by (simp add: Ex_less_Suc2 climb_Suc)
    then show ?thesis using Suc.IH [of "ce_parentId e"] i by simp
  qed
qed simp

lemma crossesSymlink_iff: "crossesSymlink snap i \<longleftrightarrow> \<not> inside snap 1024 i"
  by (simp add: crossesSymlink_def crosses_from_iff inside_def ancestor_climb)

section \<open>What a restricted session is given\<close>

lemma search_page_hits:
  assumes "search_page snap True limit found hits acc = (hits', acc')" "\<forall>x \<in> set hits. inside snap 1024 (wh_id x)"
  shows "\<forall>x \<in> set hits'. inside snap 1024 (wh_id x)"
  using assms
proof (induction found arbitrary: hits acc)
  case (Cons x found)
  show ?case
  proof (cases "int (length hits) = limit \<or> ns_getById snap (wh_id x) = None \<or> crossesSymlink snap (wh_id x)")
    case True
    with Cons show ?thesis by (auto split: if_splits)
  next
    case False
    with Cons.prems have "search_page snap True limit found (hits @ [x]) (fresh_chain 10000 snap (Some (wh_id x)) acc) = (hits', acc')"
      by (simp split: if_splits)
    moreover have "\<forall>y \<in> set (hits @ [x]). inside snap 1024 (wh_id y)" using False Cons.prems(2) by (auto simp: crossesSymlink_iff)
    ultimately show ?thesis by (rule Cons.IH)
  qed
qed simp

lemma search_page_limit:
  assumes "search_page snap restr limit found hits acc = (hits', acc')" "int (length hits) \<le> limit"
  shows "int (length hits') \<le> limit"
  using assms
proof (induction found arbitrary: hits acc)
  case (Cons x found)
  then show ?case by (auto split: if_splits)
qed simp

text \<open>Mutations that reach the native side.\<close>

definition admitted :: "native_snapshot \<Rightarrow> session \<Rightarrow> string \<Rightarrow> mutation_args \<Rightarrow> bool" where
  "admitted snap s op args \<longleftrightarrow>
     authorizeMutation (se_context s) op = Allowed
     \<and> (restricted s \<longrightarrow> (\<forall>i. Some i \<in> {ma_id args, ma_parentId args, ma_newParentId args} \<longrightarrow> inside snap 1024 i))
     \<and> (op \<in> {''readFile'', ''readText''} \<longrightarrow> \<not> file_too_big snap s (ma_id args))
     \<and> (op = ''writeFile'' \<longrightarrow> \<not> exceeds (ma_dataLength args) (sp_maxFileBytes (rc_policy (se_context s))))"

lemma boundary_ok:
  "assertWithinBoundary snap s args = Inr u \<longleftrightarrow>
     (restricted s \<longrightarrow> (\<forall>i. Some i \<in> {ma_id args, ma_parentId args, ma_newParentId args} \<longrightarrow> inside snap 1024 i))"
  by (auto simp: assertWithinBoundary_def crossesSymlink_iff split: option.splits)

lemma admit_admitted:
  assumes "admit_mutation snap sid op args h = (Inr u, c, h1)"
  shows "admitted snap (the (jm_get (ho_sessions h) sid)) op args"
  using assms boundary_ok [of snap "the (jm_get (ho_sessions h) sid)" args "()"]
  by (auto simp: admit_mutation_def admitted_def mutation_checks_def Let_def
        split: verdict.splits sum.splits prod.splits if_splits option.splits list.splits)

lemma native_flush [simp]: "sv_native (snd (flushTickAcked D net cs snap target a sv)) = sv_native sv"
  by (simp add: flushTickAcked_def Let_def split: prod.split)

lemma native_flush_mutation [simp]: "sv_native (flush_mutation D net css snap target r result sv) = sv_native sv"
proof -
  have "sv_native sv' = sv_native sv" if "flushTickAcked D net cs snap target a sv = (b, sv')" for cs a b sv sv'
    using native_flush [of D net cs snap target a sv] that by simp
  then show ?thesis by (cases result) (auto simp: flush_mutation_def Let_def split: prod.splits)
qed

section \<open>Operation warnings\<close>

lemma frames_for_ended [simp]:
  "frames_for sid (evs @ [ChannelEnded x]) = frames_for sid evs" "frames_for sid (evs @ [NativeCancel y]) = frames_for sid evs"
  by simp_all

definition quiet :: "nat \<Rightarrow> host \<Rightarrow> host \<Rightarrow> bool" where
  "quiet sid h h' \<longleftrightarrow> frames_for sid (ho_log h') = frames_for sid (ho_log h)"

lemma quiet_tasks [simp]:
  "frames_for sid (ho_log (upd_task g f h)) = frames_for sid (ho_log h)"
  "frames_for sid (ho_log (cancel_native t h)) = frames_for sid (ho_log h)"
  "frames_for sid (ho_log (upd_session x f' h)) = frames_for sid (ho_log h)"
  by (simp_all add: upd_task_def cancel_native_def upd_session_def ho_note_def split: option.split)

lemma quiet_drop [simp]: "frames_for sid (ho_log (drop_load x i h)) = frames_for sid (ho_log h)"
  by (simp add: drop_load_def leave_load_def Let_def split: option.split)

lemma quiet_drops [simp]: "frames_for sid (ho_log (fold (drop_load x) is h)) = frames_for sid (ho_log h)"
  by (induction "is" arbitrary: h) simp_all

lemma quiet_detach [simp]: "frames_for sid (ho_log (detachSession x h)) = frames_for sid (ho_log h)"
  by (simp add: detachSession_def Let_def ho_note_def)

lemma quiet_send: "sid \<noteq> x \<Longrightarrow> frames_for sid (ho_log (host_send net x f h)) = frames_for sid (ho_log h)"
  by (simp add: host_send_def Let_def ho_note_def split: send_outcome.split option.split)

section \<open>Walks that end\<close>

definition entry_ids :: "native_snapshot \<Rightarrow> int set" where
  "entry_ids snap = {i. ns_getById snap i \<noteq> None}"

lemma parent_outside: "i \<notin> entry_ids snap \<Longrightarrow> parent_of snap i = None"
  by (simp add: entry_ids_def parent_of_def)

lemma covering_root_ends:
  assumes "finite (entry_ids snap)"
  shows "\<exists>r. covering_root snap rootIds recursive c seen = Some r"
proof (induction "card (entry_ids snap - set seen)" arbitrary: c seen rule: less_induct)
  case less
  show ?case
  proof (cases c)
    case None
    then show ?thesis by (subst covering_root.simps) simp
  next
    case (Some i)
    show ?thesis
    proof (cases "i \<in> set rootIds \<or> \<not> recursive \<or> i \<in> set seen")
      case True
      with Some show ?thesis by (subst covering_root.simps) simp
    next
      case False
      then have step: "covering_root snap rootIds recursive c seen = covering_root snap rootIds recursive (parent_of snap i) (jset_add i seen)"
        using Some by (subst covering_root.simps) simp
      show ?thesis
      proof (cases "i \<in> entry_ids snap")
        case True
        then have "entry_ids snap - set (jset_add i seen) \<subset> entry_ids snap - set seen" using False by auto
        then have "card (entry_ids snap - set (jset_add i seen)) < card (entry_ids snap - set seen)"
          using assms by (intro psubset_card_mono) simp_all
        from less [OF this] show ?thesis unfolding step .
      next
        case False
        then show ?thesis unfolding step parent_outside [OF False] by (subst covering_root.simps) simp
      qed
    qed
  qed
qed

lemma collect_ancestors_ends:
  assumes "finite (entry_ids snap)"
  shows "\<exists>r. collect_ancestors snap c acc = Some r"
proof (induction "card (entry_ids snap - set acc)" arbitrary: c acc rule: less_induct)
  case less
  show ?case
  proof (cases "c = None \<or> the c \<in> set acc")
    case True
    then show ?thesis by (subst collect_ancestors.simps) (auto split: option.split)
  next
    case False
    then obtain i where i: "c = Some i" "i \<notin> set acc" by auto
    then have step: "collect_ancestors snap c acc = collect_ancestors snap (parent_of snap i) (jset_add i acc)"
      by (subst collect_ancestors.simps) simp
    show ?thesis
    proof (cases "i \<in> entry_ids snap")
      case True
      then have "entry_ids snap - set (jset_add i acc) \<subset> entry_ids snap - set acc" using i(2) by auto
      then have "card (entry_ids snap - set (jset_add i acc)) < card (entry_ids snap - set acc)"
        using assms by (intro psubset_card_mono) simp_all
      from less [OF this] show ?thesis unfolding step .
    next
      case False
      then show ?thesis unfolding step parent_outside [OF False] by (subst collect_ancestors.simps) simp
    qed
  qed
qed

lemma fold_option_total: "(\<And>x b. \<exists>r. f x b = Some r) \<Longrightarrow> \<exists>r. fold_option f xs b = Some r"
proof (induction xs arbitrary: b)
  case (Cons x xs)
  obtain r where "f x b = Some r" using Cons.prems by blast
  with Cons.IH [OF Cons.prems, of r] show ?case by simp
qed simp

lemma recovered_ids_total:
  assumes "finite (entry_ids snap)"
  shows "\<exists>ids. recovered_ids snap rootIds recursive h = Some ids"
proof -
  have "\<exists>r. recovered snap R recursive anc i = Some r" for R anc i
    using covering_root_ends [OF assms, of R recursive "Some i" "[]"] by (auto simp: recovered_def Let_def)
  then have step: "\<exists>r. map_option (\<lambda>ok. if ok then acc @ [i] else acc) (recovered snap R recursive anc i) = Some r" for R anc i acc
    by (metis option.simps(9))
  obtain anc where "(if ns_compactFolders snap
        then fold_option (\<lambda>r. collect_ancestors snap (parent_of snap r)) (jset_of rootIds) [] else Some []) = Some anc"
    using fold_option_total [of "\<lambda>r. collect_ancestors snap (parent_of snap r)"] collect_ancestors_ends [OF assms] by fastforce
  then show ?thesis
    using fold_option_total [of "\<lambda>i acc. map_option (\<lambda>ok. if ok then acc @ [i] else acc) (recovered snap (jset_of rootIds) recursive anc i)"] step
    by (simp add: recovered_ids_def)
qed

section \<open>A deep tree\<close>

text \<open>A chain of directories below a symlink.\<close>

definition deep_entry :: "int \<Rightarrow> client_entry" where
  "deep_entry i = \<lparr>ce_id = i, ce_parentId = (if i = 0 then None else Some (i - 1)), ce_name = js ''d'', ce_kind = (if i = 0 then 2 else 1),
     ce_size = 0, ce_mtimeMs = 0, ce_ctimeMs = 0, ce_symlinkTargetIsDir = (if i = 0 then Some True else None), ce_pathSegments = None,
     ce_isIgnored = False, ce_isReadonly = False, ce_isHidden = False\<rparr>"

definition deep_snapshot :: native_snapshot where
  "deep_snapshot = \<lparr>ns_treeVersion = 1, ns_roots = [0],
     ns_getById = (\<lambda>i. if 0 \<le> i \<and> i \<le> 2000 then Some (deep_entry i) else None), ns_childrenOf = (\<lambda>_. []),
     ns_projectedChildrenOf = (\<lambda>_. []), ns_projectedChildCount = (\<lambda>_. None), ns_directoryChildrenLoaded = (\<lambda>_. False),
     ns_visibleRows = (\<lambda>expd off limit. []),
     ns_showHiddenFiles = True, ns_showIgnoredFiles = True, ns_compactFolders = False\<rparr>"

lemma deep_get [simp]: "ns_getById deep_snapshot i = (if 0 \<le> i \<and> i \<le> 2000 then Some (deep_entry i) else None)"
  by (simp add: deep_snapshot_def)

lemma deep_climb: "0 \<le> c \<Longrightarrow> c \<le> 2000 \<Longrightarrow> int k \<le> c \<Longrightarrow> climb deep_snapshot k (Some c) = Some (deep_entry (c - int k))"
proof (induction k arbitrary: c)
  case (Suc k)
  then have "ns_getById deep_snapshot c = Some (deep_entry c)" "ce_parentId (deep_entry c) = Some (c - 1)"
    by (auto simp: deep_entry_def)
  with climb_Suc [of deep_snapshot c "deep_entry c" k] Suc show ?case by (simp add: algebra_simps)
qed simp

lemma deep_ancestor: "0 \<le> i \<Longrightarrow> i \<le> 2000 \<Longrightarrow> int k < i \<Longrightarrow> ancestor deep_snapshot k i = Some (deep_entry (i - 1 - int k))"
  using deep_climb [of "i - 1" k] by (simp add: ancestor_climb parent_of_def deep_entry_def)

text \<open>A remote session, restricted, and one of an administrator that owns an operation.\<close>

definition guest :: session where
  "guest = new_session \<lparr>rc_kind = Remote, rc_clientId = None, rc_peerId = None, rc_peerName = None, rc_exportId = None, rc_policy = READ_ONLY_POLICY\<rparr>"

definition guest_host :: host where
  "guest_host = new_host\<lparr>ho_sessions := [(1, guest), (2, guest\<lparr>se_ownedOperationIds := [''op'']\<rparr>)]\<rparr>"

lemma guest_restricted: "restricted guest"
  by (simp add: restricted_def guest_def new_session_def READ_ONLY_POLICY_def)

section \<open>Properties\<close>



text \<open>
  C9: a mutation reaches the native side only from the head of the queue, while no other mutation runs, and
  only when it is admitted: the session's policy allows the operation, an administrator sent it or none
  of the ids it names lies beyond a symlink, a file to be read is not larger than the session may have,
  and neither is the data to be written. A mutation that is not admitted leaves the native side alone.
\<close>

theorem native_mutations_are_admitted:
  "sv_native (start_mutation D net css snap target sv) = sv_native sv \<or>
    (\<exists>sid reqId op args rest. sv_running sv = None \<and> sv_queue sv = (sid, reqId, op, args) # rest
       \<and> sv_native (start_mutation D net css snap target sv) = sv_native sv @ [NativeMutation sid op args]
       \<and> admitted snap (the (jm_get (ho_sessions (sv_host sv)) sid)) op args)"
proof (cases "sv_running sv = None \<and> sv_queue sv \<noteq> []")
  case True
  then obtain sid reqId op args rest where q: "sv_queue sv = (sid, reqId, op, args) # rest" "sv_running sv = None"
    by (metis list.exhaust prod.exhaust)
  obtain verdict claimed h1 where a: "admit_mutation snap sid op args (sv_host sv) = (verdict, claimed, h1)" by (metis prod.exhaust)
  show ?thesis
  proof (cases verdict)
    case (Inl e)
    with q a have "sv_native (start_mutation D net css snap target sv) = sv_native sv" by (auto simp: start_mutation_def Let_def)
    then show ?thesis ..
  next
    case (Inr u)
    with q a have "sv_native (start_mutation D net css snap target sv) = sv_native sv @ [NativeMutation sid op args]" by (auto simp: start_mutation_def Let_def)
    with q admit_admitted a Inr show ?thesis by blast
  qed
qed (auto simp: start_mutation_def split: option.splits list.splits)

text \<open>
  A symlink more than 1024 levels above an entry is not seen. In a tree whose root is a symlink, the
  directory 2000 levels below it has that root among its ancestors, and a read-only session that names
  it is nevertheless given its record and the chain above it.
\<close>

theorem deep_symlink_is_crossed:
  "\<exists>e. ancestor deep_snapshot 1999 2000 = Some e \<and> ce_kind e = ENTRY_KIND_SYMLINK
     \<and> restricted (the (jm_get (ho_sessions guest_host) 1))
     \<and> fst (lookup_answer deep_snapshot 1 (Some 2000) guest_host) =
         lookup_obj 2000 1 (ancestor_chain 10000 deep_snapshot (Some 2000))"
proof -
  have g: "jm_get (ho_sessions guest_host) 1 = Some guest" by (simp add: guest_host_def)
  have "ancestor deep_snapshot 1999 2000 = Some (deep_entry 0)" using deep_ancestor [of 2000 1999] by simp
  moreover have "ce_kind (deep_entry 0) = ENTRY_KIND_SYMLINK" by (simp add: deep_entry_def ENTRY_KIND_SYMLINK_def)
  moreover have "inside deep_snapshot 1024 2000"
    unfolding inside_def
  proof (intro allI impI)
    fix k e assume k: "k < (1024 :: nat)" and "ancestor deep_snapshot k 2000 = Some e"
    then have "e = deep_entry (2000 - 1 - int k)" using deep_ancestor [of 2000 k] by simp
    with k show "ce_kind e \<noteq> ENTRY_KIND_SYMLINK" by (simp add: deep_entry_def ENTRY_KIND_SYMLINK_def)
  qed
  moreover have "ns_treeVersion deep_snapshot = 1" by (simp add: deep_snapshot_def)
  ultimately show ?thesis using g guest_restricted by (auto simp: lookup_answer_def crossesSymlink_iff Let_def)
qed

text \<open>
  What an operation reports is private. A warning that names an operation is posted to no session
  but the one that owns it, whatever its code; an operation nobody owns is reported to nobody.
\<close>

theorem operation_warnings_are_private:
  assumes "frames_for sid (ho_log (forwardWarning net code detail (Some op) h)) \<noteq> frames_for sid (ho_log h)"
  shows "\<exists>s. jm_get (ho_sessions h) sid = Some s \<and> op \<in> set (se_ownedOperationIds s)"
proof (cases "findOperationOwner (owned_table h) op")
  case None
  then show ?thesis using assms by (simp add: forwardWarning_def)
next
  case (Some x)
  then have "sid = x"
    using assms quiet_send [of sid x net] by (auto simp: forwardWarning_def Let_def split: if_splits)
  moreover from Some obtain owned where "(x, owned) \<in> set (owned_table h)" "op \<in> set owned"
    by (auto simp: findOperationOwner_def find_Some_iff) (metis nth_mem snd_conv)
  then have "x \<in> set (live h)" "op \<in> set (se_ownedOperationIds (the (jm_get (ho_sessions h) x)))"
    by (auto simp: owned_table_def)
  ultimately show ?thesis
    by (cases "jm_get (ho_sessions h) sid") (auto simp: live_def dest!: weak_map_of_SomeI)
qed

theorem operation_warnings_are_private_witness:
  "\<exists>s. jm_get (ho_sessions guest_host) 2 = Some s \<and> ''op'' \<in> set (se_ownedOperationIds s)"
proof (rule operation_warnings_are_private [where net = "\<lambda>_. SendOk" and code = "''OP_PROGRESS''" and detail = None])
  show "frames_for 2 (ho_log (forwardWarning (\<lambda>_. SendOk) ''OP_PROGRESS'' None (Some ''op'') guest_host)) \<noteq> frames_for 2 (ho_log guest_host)"
    by (simp add: forwardWarning_def findOperationOwner_def owned_table_def live_def guest_host_def guest_def new_session_def
          new_host_def host_send_def attached_def ho_note_def)
qed

text \<open>
  C10: the recovery after a resync ends. On a native snapshot with finitely many entries, whatever their
  parent links are (cycles included), the walks up the tree that decide which open folders a resync
  covered return, so \<open>completeDirectoryLoadsAfterResync\<close> returns for all roots and all expansion sets.
\<close>

theorem resync_recovery_terminates:
  assumes "finite {i. ns_getById snap i \<noteq> None}"
  shows "\<exists>r. completeDirectoryLoadsAfterResync net snap version rootIds recursive h = Some r"
  using recovered_ids_total [of snap rootIds recursive h] assms
  by (auto simp: completeDirectoryLoadsAfterResync_def entry_ids_def)

theorem resync_recovery_terminates_witness:
  "\<exists>r. completeDirectoryLoadsAfterResync (\<lambda>_. SendOk) deep_snapshot 1 [0] True guest_host = Some r"
proof (rule resync_recovery_terminates)
  have "{i. ns_getById deep_snapshot i \<noteq> None} \<subseteq> {0..2000}" by auto
  then show "finite {i. ns_getById deep_snapshot i \<noteq> None}" by (rule finite_subset) simp
qed

end
