(* ===== verification/Close_Codes.thy ===== *)
theory Close_Codes
  imports Channel_Contract Text_Encoding
begin

text \<open>
  WebSocket close codes and the channel's close reasons
  (\<open>packages/mille/src/websocket/close-codes.ts\<close>): the code one side sends for a reason, the reason the
  other side reads from it, and the trimming of the text that goes with it.
\<close>

section \<open>The tables\<close>

definition WS_NORMAL :: nat where
  "WS_NORMAL = 1000"

definition WS_PROTOCOL_ERROR :: nat where
  "WS_PROTOCOL_ERROR = 4002"

definition WS_UNSUPPORTED_DATA :: nat where
  "WS_UNSUPPORTED_DATA = 4003"

definition WS_AUTH_REJECTED :: nat where
  "WS_AUTH_REJECTED = 4008"

definition WS_MESSAGE_TOO_BIG :: nat where
  "WS_MESSAGE_TOO_BIG = 4009"

definition WS_TRANSPORT_ERROR :: nat where
  "WS_TRANSPORT_ERROR = 4011"

definition WS_BACKPRESSURE :: nat where
  "WS_BACKPRESSURE = 4013"

lemmas ws_codes = WS_NORMAL_def WS_PROTOCOL_ERROR_def WS_UNSUPPORTED_DATA_def WS_AUTH_REJECTED_def
  WS_MESSAGE_TOO_BIG_def WS_TRANSPORT_ERROR_def WS_BACKPRESSURE_def

datatype protocol_error_detail = Malformed | TextMessage | Oversize

fun webSocketCloseCodeFor :: "close_code \<Rightarrow> protocol_error_detail option \<Rightarrow> nat" where
  "webSocketCloseCodeFor LOCAL_CLOSE detail = WS_NORMAL"
| "webSocketCloseCodeFor REMOTE_CLOSE detail = WS_NORMAL"
| "webSocketCloseCodeFor PROTOCOL_ERROR detail =
     (if detail = Some TextMessage then WS_UNSUPPORTED_DATA
      else if detail = Some Oversize then WS_MESSAGE_TOO_BIG
      else WS_PROTOCOL_ERROR)"
| "webSocketCloseCodeFor AUTH_REJECTED detail = WS_AUTH_REJECTED"
| "webSocketCloseCodeFor BACKPRESSURE detail = WS_BACKPRESSURE"
| "webSocketCloseCodeFor TRANSPORT_ERROR detail = WS_TRANSPORT_ERROR"

definition explorerCloseCodeFor :: "nat \<Rightarrow> close_code" where
  "explorerCloseCodeFor code =
     (if code \<in> {1002, 1003, 1007, 1009, 1010, WS_PROTOCOL_ERROR, WS_UNSUPPORTED_DATA, WS_MESSAGE_TOO_BIG}
      then PROTOCOL_ERROR
      else if code \<in> {1008, WS_AUTH_REJECTED} then AUTH_REJECTED
      else if code = WS_BACKPRESSURE then BACKPRESSURE
      else if code \<in> {1006, 1011, 1014, 1015, WS_TRANSPORT_ERROR} then TRANSPORT_ERROR
      else REMOTE_CLOSE)"

text \<open>What a browser's \<open>WebSocket.close\<close> accepts: any other code throws.\<close>

definition browser_may_close_with :: "nat \<Rightarrow> bool" where
  "browser_may_close_with code \<longleftrightarrow> code = 1000 \<or> 3000 \<le> code \<and> code \<le> 4999"

section \<open>The reason text\<close>

definition MAX_CLOSE_REASON_BYTES :: nat where
  "MAX_CLOSE_REASON_BYTES = 123"

text \<open>The strings a \<open>for ... of\<close> loop over a string visits: its code points.\<close>

fun code_points :: "jstring \<Rightarrow> jstring list" where
  "code_points [] = []"
| "code_points [u] = [[u]]"
| "code_points (u # v # us) =
     (if high_surrogate u \<and> low_surrogate v then [u, v] # code_points us
      else [u] # code_points (v # us))"

fun trim_loop :: "jstring list \<Rightarrow> jstring \<Rightarrow> nat \<Rightarrow> jstring" where
  "trim_loop [] out bytes = out"
| "trim_loop (ch # chs) out bytes =
     (let n = length (text_encode ch)
      in if bytes + n > MAX_CLOSE_REASON_BYTES then out
         else trim_loop chs (out @ ch) (bytes + n))"

definition closeReasonForWire :: "jstring option \<Rightarrow> jstring" where
  "closeReasonForWire reason =
     (case reason of
        None \<Rightarrow> []
      | Some r \<Rightarrow>
        if r = [] then []
        else if length (text_encode r) \<le> MAX_CLOSE_REASON_BYTES then r
        else trim_loop (code_points r) [] 0)"

section \<open>Lemmas\<close>

lemma concat_code_points [simp]: "concat (code_points s) = s"
  by (induction s rule: code_points.induct) auto

text \<open>
  What the loop keeps is its input up to some code point, and each code point of that prefix is
  encoded as it is in the whole.
\<close>

definition at_boundary :: "jstring \<Rightarrow> jstring \<Rightarrow> bool" where
  "at_boundary p s \<longleftrightarrow> (\<exists>k. p = concat (take k (code_points s)))"

definition encoded_size :: "jstring list \<Rightarrow> nat" where
  "encoded_size chs = sum_list (map (\<lambda>ch. length (text_encode ch)) chs)"

lemma trim_loop_take:
  "\<exists>k. trim_loop chs out b = out @ concat (take k chs)
     \<and> (b \<le> MAX_CLOSE_REASON_BYTES \<longrightarrow> b + encoded_size (take k chs) \<le> MAX_CLOSE_REASON_BYTES)
     \<and> (k < length chs \<longrightarrow> b + encoded_size (take (Suc k) chs) > MAX_CLOSE_REASON_BYTES)"
proof (induction chs arbitrary: out b)
  case (Cons ch chs)
  let ?n = "length (text_encode ch)"
  show ?case
  proof (cases "b + ?n > MAX_CLOSE_REASON_BYTES")
    case True
    then show ?thesis by (intro exI [of _ 0]) (simp add: Let_def encoded_size_def)
  next
    case False
    from Cons [of "out @ ch" "b + ?n"] obtain k where
      "trim_loop chs (out @ ch) (b + ?n) = (out @ ch) @ concat (take k chs)"
      "b + ?n + encoded_size (take k chs) \<le> MAX_CLOSE_REASON_BYTES"
      "k < length chs \<longrightarrow> b + ?n + encoded_size (take (Suc k) chs) > MAX_CLOSE_REASON_BYTES"
      using False by auto
    with False show ?thesis by (intro exI [of _ "Suc k"]) (simp add: Let_def encoded_size_def add.assoc)
  qed
qed (simp add: encoded_size_def)

lemma text_encode_cons:
  "\<not> (high_surrogate u \<and> us \<noteq> [] \<and> low_surrogate (List.hd us)) \<Longrightarrow>
   text_encode (u # us) = text_encode [u] @ text_encode us"
  by (cases us) (simp_all add: text_encode_def)

lemma text_encode_after:
  "\<not> (high_surrogate u \<and> low_surrogate v) \<Longrightarrow> us = [] \<or> List.hd us = v \<Longrightarrow>
   text_encode (u # us) = text_encode [u] @ text_encode us"
  by (rule text_encode_cons) auto

lemma well_formed_cons:
  "\<not> high_surrogate u \<Longrightarrow> \<not> low_surrogate u \<Longrightarrow> well_formed us \<Longrightarrow> well_formed (u # us)"
  by (cases us) simp_all

lemma text_encode_pair:
  "high_surrogate u \<Longrightarrow> low_surrogate v \<Longrightarrow> text_encode (u # v # us) = text_encode [u, v] @ text_encode us"
  by (simp add: text_encode_def)

lemma take_code_points_hd:
  "concat (take k (code_points (v # us))) = [] \<or> List.hd (concat (take k (code_points (v # us)))) = v"
  by (cases k; cases us) auto

lemma text_encode_take:
  "length (text_encode (concat (take k (code_points s)))) = encoded_size (take k (code_points s))"
proof (induction s arbitrary: k rule: code_points.induct)
  case (3 u v us)
  show ?case
  proof (cases k)
    case (Suc k')
    show ?thesis
    proof (cases "high_surrogate u \<and> low_surrogate v")
      case True
      with 3(1) [OF True, of k'] Suc text_encode_pair [of u v "concat (take k' (code_points us))"]
      show ?thesis by (simp add: encoded_size_def)
    next
      case False
      let ?t = "concat (take k' (code_points (v # us)))"
      have "text_encode (u # ?t) = text_encode [u] @ text_encode ?t"
        using False take_code_points_hd [of k' v us] by (blast intro: text_encode_after)
      with 3(2) [OF False, of k'] Suc False show ?thesis by (auto simp: encoded_size_def)
    qed
  qed (simp add: encoded_size_def text_encode_def)
next
  case (2 u)
  then show ?case by (cases k) (simp_all add: encoded_size_def text_encode_def)
qed (simp add: encoded_size_def text_encode_def)

lemma well_formed_take:
  "well_formed s \<Longrightarrow> well_formed (concat (take k (code_points s)))"
proof (induction s arbitrary: k rule: code_points.induct)
  case (2 u)
  then show ?case by (cases k) simp_all
next
  case (3 u v us)
  show ?case
  proof (cases k)
    case (Suc k')
    show ?thesis
    proof (cases "high_surrogate u \<and> low_surrogate v")
      case False
      with 3(3) have "\<not> high_surrogate u" "\<not> low_surrogate u" "well_formed (v # us)" by (auto split: if_splits)
      with well_formed_cons [OF this(1,2) 3(2) [OF False this(3), of k']] Suc False show ?thesis by simp
    qed (use 3 Suc in auto)
  qed simp
qed simp

text \<open>A trimmed reason is a longest prefix of whole code points that fits.\<close>

lemma trimmed_reason:
  assumes "r \<noteq> []" "length (text_encode r) > MAX_CLOSE_REASON_BYTES"
  obtains k where "closeReasonForWire (Some r) = concat (take k (code_points r))"
    "encoded_size (take k (code_points r)) \<le> MAX_CLOSE_REASON_BYTES"
    "encoded_size (take (Suc k) (code_points r)) > MAX_CLOSE_REASON_BYTES"
proof -
  obtain k where k: "trim_loop (code_points r) [] 0 = concat (take k (code_points r))"
    "encoded_size (take k (code_points r)) \<le> MAX_CLOSE_REASON_BYTES"
    "k < length (code_points r) \<longrightarrow> encoded_size (take (Suc k) (code_points r)) > MAX_CLOSE_REASON_BYTES"
    using trim_loop_take [of "code_points r" "[]" 0] by auto
  have "k < length (code_points r)"
  proof (rule ccontr)
    assume "\<not> ?thesis"
    with k(2) text_encode_take [of k r] assms(2) show False by simp
  qed
  with k assms that show ?thesis by (simp add: closeReasonForWire_def)
qed

lemma short_reason: "length (text_encode r) \<le> 123 \<Longrightarrow> closeReasonForWire (Some r) = r"
  by (simp add: closeReasonForWire_def MAX_CLOSE_REASON_BYTES_def)

lemma cut_reason:
  assumes "length (text_encode r) > 123"
  shows "\<exists>k. closeReasonForWire (Some r) = concat (take k (code_points r))
    \<and> length (text_encode (closeReasonForWire (Some r))) \<le> 123
    \<and> length (text_encode (concat (take (Suc k) (code_points r)))) > 123"
proof -
  have "r \<noteq> []" using assms by (auto simp: text_encode_def)
  with assms show ?thesis
    using trimmed_reason [of r] by (metis MAX_CLOSE_REASON_BYTES_def text_encode_take)
qed

lemma reason_size: "length (text_encode (closeReasonForWire reason)) \<le> 123"
proof (cases reason)
  case (Some r)
  then show ?thesis using cut_reason [of r] short_reason [of r] by (cases "length (text_encode r) \<le> 123") auto
qed (simp add: closeReasonForWire_def text_encode_def)

lemma letters_fit:
  "length (text_encode (replicate n 0x61)) = n \<and> well_formed (replicate n 0x61)"
proof (induction n)
  case (Suc n)
  have a: "\<not> high_surrogate 0x61" "\<not> low_surrogate 0x61" "length (text_encode [0x61]) = 1"
    by (simp_all add: high_surrogate_def low_surrogate_def text_encode_def utf8_char_def)
  with Suc text_encode_cons [of "0x61" "replicate n 0x61"] show ?case by (simp add: well_formed_cons)
qed (simp add: text_encode_def)

section \<open>Properties\<close>

text \<open>
  The two close-code tables agree: whatever reason one side shuts a session down for, and with
  whatever detail, the peer that receives the code reads that same reason, a local close being read as
  the peer's; and every code sent is one a browser's \<open>close()\<close> accepts, so shutting down never throws
  for the code.
\<close>

theorem close_codes_round_trip:
  "explorerCloseCodeFor (webSocketCloseCodeFor c detail) = (if c = LOCAL_CLOSE then REMOTE_CLOSE else c)
   \<and> browser_may_close_with (webSocketCloseCodeFor c detail)"
  by (cases c) (simp_all add: explorerCloseCodeFor_def browser_may_close_with_def ws_codes)

text \<open>
  A close reason sent on the wire always fits a close frame: it is at most 123 bytes of UTF-8. A
  reason that fits is sent as it is; a longer one is cut after a whole number of its code points, the
  next one would no longer fit, and a reason without lone surrogates keeps having none.
\<close>

theorem close_reason_fits:
  "length (text_encode (closeReasonForWire reason)) \<le> 123
   \<and> (length (text_encode r) \<le> 123 \<longrightarrow> closeReasonForWire (Some r) = r)
   \<and> (length (text_encode r) > 123 \<longrightarrow>
       (\<exists>k. closeReasonForWire (Some r) = concat (take k (code_points r))
          \<and> length (text_encode (concat (take (Suc k) (code_points r)))) > 123))
   \<and> (well_formed r \<longrightarrow> well_formed (closeReasonForWire (Some r)))"
proof (intro conjI impI)
  show "length (text_encode (closeReasonForWire reason)) \<le> 123" by (rule reason_size)
  show "closeReasonForWire (Some r) = r" if "length (text_encode r) \<le> 123"
    using that by (rule short_reason)
  show "\<exists>k. closeReasonForWire (Some r) = concat (take k (code_points r))
      \<and> length (text_encode (concat (take (Suc k) (code_points r)))) > 123"
    if "length (text_encode r) > 123"
    using cut_reason [OF that] by blast
  show "well_formed (closeReasonForWire (Some r))" if "well_formed r"
    using cut_reason [of r] short_reason [of r] well_formed_take [OF that] that
    by (cases "length (text_encode r) \<le> 123") auto
qed

theorem close_reason_fits_witness:
  "length (text_encode (replicate 200 0x61)) > 123 \<and> well_formed (replicate 200 0x61)
   \<and> length (text_encode (replicate 8 0x61)) \<le> 123
   \<and> closeReasonForWire (Some (replicate 8 0x61)) = replicate 8 0x61
   \<and> length (text_encode (closeReasonForWire (Some (replicate 200 0x61)))) \<le> 123
   \<and> well_formed (closeReasonForWire (Some (replicate 200 0x61)))
   \<and> (\<exists>k. closeReasonForWire (Some (replicate 200 0x61)) = concat (take k (code_points (replicate 200 0x61))))"
proof -
  have "length (text_encode (replicate 200 0x61)) = 200" using letters_fit by (rule conjunct1)
  then have long: "length (text_encode (replicate 200 0x61)) > 123" by linarith
  have wf: "well_formed (replicate 200 0x61)" using letters_fit by (rule conjunct2)
  have short: "length (text_encode (replicate 8 0x61)) \<le> 123" using letters_fit [of 8, THEN conjunct1] by linarith
  show ?thesis
    using long wf short close_reason_fits [of "Some (replicate 200 0x61)" "replicate 200 0x61"]
      close_reason_fits [of None "replicate 8 0x61"]
    by blast
qed

end
