(* ===== verification/WebSocket_Channel.thy ===== *)
theory WebSocket_Channel
  imports Framed_Channel Close_Codes
begin

text \<open>
  The WebSocket transport (\<open>packages/mille/src/websocket/channel.ts\<close>) with its two adapters
  (\<open>websocket/client.ts\<close>, \<open>websocket/host.ts\<close>). The socket itself is the platform's: what it has sent,
  what it still buffers and whether its calls throw are inputs. \<open>bufferedAmount\<close> counts at least the
  bytes handed over and not yet sent; the excess is framing overhead.
\<close>

section \<open>State\<close>

datatype ready_state = CONNECTING | OPEN | CLOSING | CLOSED

text \<open>What the channel asks of the socket: one frame, a close frame, or dropping the connection.\<close>

datatype socket_action = SendFrame bytes | CloseFrame nat jstring | Terminate

type_synonym ws_event = "(socket_action, jsval) channel_event"

text \<open>
  The socket: its ready state, the bytes it was handed, those that have left it and the framing overhead
  counted in \<open>bufferedAmount\<close>; whether \<open>terminate\<close> exists, whether closing throws, and whether it is a
  standard socket behind the client's adapter or a server's behind the host's.
\<close>

record web_socket =
  sk_readyState :: ready_state
  sk_handed :: nat
  sk_sent :: nat
  sk_overhead :: nat
  sk_canTerminate :: bool
  sk_closeThrows :: bool
  sk_standard :: bool

definition bufferedAmount :: "web_socket \<Rightarrow> nat" where
  "bufferedAmount k = sk_handed k - sk_sent k + sk_overhead k"

record ws_channel =
  ws_limits :: limits
  ws_pending :: "bytes list"
  ws_pendingBytes :: nat
  ws_sentTotal :: nat
  ws_drainWaiters :: "(nat \<times> nat) list"
  ws_drainTimer :: bool
  ws_softWarned :: bool
  ws_state :: channel_state
  ws_closeEvent :: "(close_code \<times> jstring option) option"
  ws_messages :: "int jset"
  ws_closes :: "int jset"
  ws_socket :: web_socket
  ws_sends :: nat
  ws_log :: "ws_event list"

text \<open>The \<open>n\<close>-th \<open>socket.send\<close> throws, or takes the frame; then some bytes may have left at once.\<close>

datatype send_result = SendThrows | SendTakes nat nat

text \<open>An error as \<open>describe\<close> and \<open>#onError\<close> look at it: its \<open>message\<close> and \<open>code\<close>, where they are strings.\<close>

record socket_error =
  se_message :: "jstring option"
  se_code :: "jstring option"

definition ws_describe :: "socket_error \<Rightarrow> jstring \<Rightarrow> jstring" where
  "ws_describe e fallback = (case se_message e of Some m \<Rightarrow> if m \<noteq> [] then m else fallback | None \<Rightarrow> fallback)"

definition show_nat :: "nat \<Rightarrow> jstring" where
  "show_nat n = stringify (JNum (int n))"

section \<open>Inbound messages\<close>

datatype message_data =
    DString jstring | DUint8Array bytes | DView bytes | DArrayBuffer bytes | DFragments "bytes list" | DOther

datatype message_kind = KText | KBytes bytes | KNull

definition set_at :: "bytes \<Rightarrow> nat \<Rightarrow> bytes \<Rightarrow> bytes" where
  "set_at out off part = take off out @ part @ drop (off + length part) out"

fun copy_parts :: "bytes list \<Rightarrow> nat \<Rightarrow> bytes \<Rightarrow> bytes" where
  "copy_parts [] off out = out"
| "copy_parts (p # ps) off out = copy_parts ps (off + length p) (set_at out off p)"

fun messageBytes :: "message_data \<Rightarrow> bool option \<Rightarrow> message_kind" where
  "messageBytes (DString s) isBinary = KText"
| "messageBytes data (Some False) = KText"
| "messageBytes (DUint8Array bs) isBinary = KBytes bs"
| "messageBytes (DView bs) isBinary = KBytes bs"
| "messageBytes (DArrayBuffer bs) isBinary = KBytes bs"
| "messageBytes (DFragments parts) isBinary =
     (let total = fold (\<lambda>part t. t + length part) parts 0
      in KBytes (copy_parts parts 0 (replicate total 0)))"
| "messageBytes DOther isBinary = KNull"

text \<open>A message is exactly one frame.\<close>

definition decodeMessageFrame :: "bytes \<Rightarrow> limits \<Rightarrow> frame_error + jsval" where
  "decodeMessageFrame bs L =
     (if length bs < FRAME_HEADER_BYTES then Inl ShortHeader
      else rbind (parseHeader (take FRAME_HEADER_BYTES bs) L) (\<lambda>header.
        if fh_totalLength header \<noteq> length bs then Inl BodyLength
        else decodeFrame bs header))"

section \<open>The channel\<close>

definition new_ws_channel :: "web_socket \<Rightarrow> limits_input \<Rightarrow> limits_error option + ws_channel" where
  "new_ws_channel k options =
     (if sk_readyState k \<noteq> CONNECTING \<and> sk_readyState k \<noteq> OPEN then Inl None
      else case resolveLimits options of
        Inl e \<Rightarrow> Inl (Some e)
      | Inr L \<Rightarrow> Inr \<lparr>
          ws_limits = L, ws_pending = [], ws_pendingBytes = 0, ws_sentTotal = 0, ws_drainWaiters = [],
          ws_drainTimer = False, ws_softWarned = False, ws_state = Open, ws_closeEvent = None,
          ws_messages = [], ws_closes = [], ws_socket = k, ws_sends = 0, ws_log = [] \<rparr>)"

definition ws_note :: "ws_event list \<Rightarrow> ws_channel \<Rightarrow> ws_channel" where
  "ws_note es s = s\<lparr>ws_log := ws_log s @ es\<rparr>"

definition bufferedBytes :: "ws_channel \<Rightarrow> nat" where
  "bufferedBytes s = (if ws_state s \<noteq> Open then 0 else ws_pendingBytes s + bufferedAmount (ws_socket s))"

definition ws_overSoftWatermark :: "ws_channel \<Rightarrow> bool" where
  "ws_overSoftWatermark s \<longleftrightarrow> bufferedBytes s \<ge> outboundSoftBytes (ws_limits s)"

text \<open>
  \<open>#shutdown\<close>. The action asked of the socket is logged even where it throws, and then a warning is too.
\<close>

definition close_socket :: "close_code \<Rightarrow> jstring option \<Rightarrow> protocol_error_detail option \<Rightarrow> ws_channel \<Rightarrow> ws_channel"
where
  "close_socket code reason detail s =
     (let action = (if code = TRANSPORT_ERROR \<and> sk_canTerminate (ws_socket s) then Terminate
                    else CloseFrame (webSocketCloseCodeFor code detail) (closeReasonForWire reason))
      in ws_note (Posted action # (if sk_closeThrows (ws_socket s) then [Warned] else [])) s)"

definition ws_shutdown ::
  "close_code \<Rightarrow> jstring option \<Rightarrow> bool \<Rightarrow> protocol_error_detail option \<Rightarrow> ws_channel \<Rightarrow> ws_channel"
where
  "ws_shutdown code reason peerClosed detail s =
     (if ws_state s \<noteq> Open then s
      else let s1 = s\<lparr>ws_state := Closing, ws_closeEvent := Some (code, reason)\<rparr>;
               s2 = s1\<lparr>ws_pending := [], ws_pendingBytes := 0\<rparr>;
               s3 = (if \<not> peerClosed then close_socket code reason detail s2 else s2);
               s4 = s3\<lparr>ws_state := Closed, ws_drainTimer := False\<rparr>;
               waiters = ws_drainWaiters s4;
               s5 = ws_note (map (\<lambda>w. DrainResolved (snd w)) waiters) (s4\<lparr>ws_drainWaiters := []\<rparr>);
               s6 = ws_note [CloseEmitted code] s5
           in s6\<lparr>ws_closes := [], ws_messages := []\<rparr>)"

definition scheduleDrainCheck :: "ws_channel \<Rightarrow> ws_channel" where
  "scheduleDrainCheck s =
     (if ws_drainTimer s \<or> length (ws_drainWaiters s) = 0 then s else s\<lparr>ws_drainTimer := True\<rparr>)"

text \<open>\<open>buffered <= this.#sentTotal - w.mark\<close>, in JavaScript's numbers.\<close>

definition mark_reached :: "nat \<Rightarrow> ws_channel \<Rightarrow> (nat \<times> nat) \<Rightarrow> bool" where
  "mark_reached buffered s w \<longleftrightarrow> int buffered \<le> int (ws_sentTotal s) - int (fst w)"

definition checkDrain :: "ws_channel \<Rightarrow> ws_channel" where
  "checkDrain s =
     (if length (ws_drainWaiters s) = 0 then s
      else let buffered = bufferedBytes s;
               ready = filter (mark_reached buffered s) (ws_drainWaiters s);
               s1 = (if length ready > 0
                     then ws_note (map (\<lambda>w. DrainResolved (snd w)) ready)
                            (s\<lparr>ws_drainWaiters := filter (\<lambda>w. \<not> mark_reached buffered s w) (ws_drainWaiters s)\<rparr>)
                     else s)
           in scheduleDrainCheck s1)"

text \<open>
  \<open>#write\<close> (True: the socket threw). The client's adapter calls \<open>onSent\<close> before \<open>send\<close> returns, the
  host's passes it to the socket, which calls it later.
\<close>

definition socket_takes :: "nat \<Rightarrow> nat \<Rightarrow> nat \<Rightarrow> web_socket \<Rightarrow> web_socket" where
  "socket_takes n flushed overhead k =
     k\<lparr>sk_handed := sk_handed k + n, sk_sent := min (sk_handed k + n) (sk_sent k + flushed),
       sk_overhead := overhead\<rparr>"

definition ws_write :: "(nat \<Rightarrow> send_result) \<Rightarrow> bytes \<Rightarrow> ws_channel \<Rightarrow> bool \<times> ws_channel" where
  "ws_write sends frame s =
     (case sends (ws_sends s) of
        SendThrows \<Rightarrow>
          (True, ws_shutdown TRANSPORT_ERROR (Some (js ''WebSocket send threw'')) False None
             (s\<lparr>ws_sends := ws_sends s + 1\<rparr>))
      | SendTakes flushed overhead \<Rightarrow>
          let s1 = ws_note [Posted (SendFrame frame)]
                     (s\<lparr>ws_sends := ws_sends s + 1,
                        ws_socket := socket_takes (length frame) flushed overhead (ws_socket s)\<rparr>)
          in (False, if sk_standard (ws_socket s) then checkDrain s1 else s1))"

datatype ws_send_error = WsNotOpen channel_state | WsEncodeFailed frame_error | WsHardLimit | WsSocketThrew

definition soft_warning :: "nat \<Rightarrow> ws_channel \<Rightarrow> ws_channel" where
  "soft_warning n s =
     (if n \<ge> outboundSoftBytes (ws_limits s)
      then if \<not> ws_softWarned s then ws_note [Warned] (s\<lparr>ws_softWarned := True\<rparr>) else s
      else s\<lparr>ws_softWarned := False\<rparr>)"

definition ws_send ::
  "(nat \<Rightarrow> send_result) \<Rightarrow> jsval \<Rightarrow> ws_channel \<Rightarrow> ws_send_error option \<times> ws_channel"
where
  "ws_send sends message s =
     (if ws_state s \<noteq> Open then (Some (WsNotOpen (ws_state s)), s)
      else case encodeFrame message (ws_limits s) of
        Inl e \<Rightarrow> (Some (WsEncodeFailed e), s)
      | Inr frame \<Rightarrow>
        let queued = bufferedBytes s in
        if queued + length frame > outboundHardBytes (ws_limits s)
        then (Some WsHardLimit,
              ws_shutdown BACKPRESSURE (Some (js ''outbound hard limit exceeded'')) False None s)
        else let s1 = s\<lparr>ws_sentTotal := ws_sentTotal s + length frame\<rparr>
             in if sk_readyState (ws_socket s1) = CONNECTING
                then (None, soft_warning (queued + length frame)
                        (s1\<lparr>ws_pending := ws_pending s1 @ [frame],
                            ws_pendingBytes := ws_pendingBytes s1 + length frame\<rparr>))
                else case ws_write sends frame s1 of
                       (True, s2) \<Rightarrow> (Some WsSocketThrew, s2)
                     | (False, s2) \<Rightarrow> (None, soft_warning (queued + length frame) s2))"

definition ws_drain :: "nat \<Rightarrow> ws_channel \<Rightarrow> ws_channel" where
  "ws_drain w s =
     (if ws_state s \<noteq> Open \<or> bufferedBytes s = 0 then ws_note [DrainResolved w] s
      else scheduleDrainCheck (s\<lparr>ws_drainWaiters := ws_drainWaiters s @ [(ws_sentTotal s, w)]\<rparr>))"

definition ws_closeAs :: "close_code \<Rightarrow> jstring option \<Rightarrow> ws_channel \<Rightarrow> ws_channel" where
  "ws_closeAs code reason s =
     ws_shutdown (if code = REMOTE_CLOSE then LOCAL_CLOSE else code) reason False None s"

definition ws_close :: "jstring option \<Rightarrow> ws_channel \<Rightarrow> ws_channel" where
  "ws_close reason s = ws_shutdown LOCAL_CLOSE reason False None s"

definition ws_dispose :: "ws_channel \<Rightarrow> ws_channel" where
  "ws_dispose s = ws_close (Some (js ''disposed'')) s"

definition ws_subscribe_message :: "int \<Rightarrow> ws_channel \<Rightarrow> ws_channel" where
  "ws_subscribe_message l s = s\<lparr>ws_messages := jset_add l (ws_messages s)\<rparr>"

definition ws_subscribe_close :: "int \<Rightarrow> ws_channel \<Rightarrow> ws_channel" where
  "ws_subscribe_close l s =
     (if ws_state s = Closed
      then ws_note [CloseReplayed l (case ws_closeEvent s of Some (c, r) \<Rightarrow> c | None \<Rightarrow> LOCAL_CLOSE)] s
      else s\<lparr>ws_closes := jset_add l (ws_closes s)\<rparr>)"

section \<open>Socket events\<close>

fun flush_pending :: "(nat \<Rightarrow> send_result) \<Rightarrow> bytes list \<Rightarrow> ws_channel \<Rightarrow> ws_channel" where
  "flush_pending sends [] s = s"
| "flush_pending sends (f # fs) s =
     (case ws_write sends f s of (threw, s1) \<Rightarrow> if threw then s1 else flush_pending sends fs s1)"

definition ws_onOpen :: "(nat \<Rightarrow> send_result) \<Rightarrow> ws_channel \<Rightarrow> ws_channel" where
  "ws_onOpen sends s =
     (if ws_state s \<noteq> Open then s
      else flush_pending sends (ws_pending s) (s\<lparr>ws_pending := [], ws_pendingBytes := 0\<rparr>))"

text \<open>What a listener may do to its channel while a message is dispatched, and anyone at any time.\<close>

datatype ws_client_op =
    WSend jsval | WDrain nat | WClose "jstring option" | WCloseAs close_code "jstring option" | WDispose

definition ws_client :: "(nat \<Rightarrow> send_result) \<Rightarrow> ws_client_op \<Rightarrow> ws_channel \<Rightarrow> ws_channel" where
  "ws_client sends op s =
     (case op of
        WSend m \<Rightarrow> snd (ws_send sends m s)
      | WDrain w \<Rightarrow> ws_drain w s
      | WClose reason \<Rightarrow> ws_close reason s
      | WCloseAs code reason \<Rightarrow> ws_closeAs code reason s
      | WDispose \<Rightarrow> ws_dispose s)"

definition ws_emit ::
  "(nat \<Rightarrow> send_result) \<Rightarrow> (int \<Rightarrow> jsval \<Rightarrow> ws_client_op list) \<Rightarrow> jsval \<Rightarrow> ws_channel \<Rightarrow> ws_channel"
where
  "ws_emit sends react m s =
     emit_to (ws_messages s)
       (\<lambda>l t. fold (ws_client sends) (react l m) (ws_note [Heard l m] t)) (ws_note [Emit m] s)"

text \<open>\<open>message_of\<close> gives the text of a frame error.\<close>

definition ws_onMessage ::
  "(frame_error \<Rightarrow> jstring) \<Rightarrow> (nat \<Rightarrow> send_result) \<Rightarrow> (int \<Rightarrow> jsval \<Rightarrow> ws_client_op list)
   \<Rightarrow> message_data \<Rightarrow> bool option \<Rightarrow> ws_channel \<Rightarrow> ws_channel"
where
  "ws_onMessage message_of sends react data isBinary s =
     (if ws_state s \<noteq> Open then s
      else case messageBytes data isBinary of
        KText \<Rightarrow> ws_shutdown PROTOCOL_ERROR (Some (js ''text message; the mille protocol is binary''))
                   False (Some TextMessage) s
      | KNull \<Rightarrow> ws_shutdown PROTOCOL_ERROR (Some (js ''unsupported message payload'')) False None s
      | KBytes bs \<Rightarrow>
        if length bs > maxFrameBytes (ws_limits s)
        then ws_shutdown PROTOCOL_ERROR
               (Some (js ''message of '' @ show_nat (length bs) @ js '' bytes exceeds limit ''
                  @ show_nat (maxFrameBytes (ws_limits s)))) False (Some Oversize) s
        else case decodeMessageFrame bs (ws_limits s) of
          Inl e \<Rightarrow> ws_shutdown PROTOCOL_ERROR
                     (Some (ws_describe \<lparr>se_message = Some (message_of e), se_code = None\<rparr>
                        (js ''malformed frame''))) False None s
        | Inr m \<Rightarrow> ws_emit sends react m s)"

definition ws_onClose :: "nat \<Rightarrow> jstring \<Rightarrow> ws_channel \<Rightarrow> ws_channel" where
  "ws_onClose code reason s =
     ws_shutdown (explorerCloseCodeFor code)
       (Some (if length reason > 0 then reason else js ''peer closed with code '' @ show_nat code))
       True None s"

definition starts_with_js :: "jstring \<Rightarrow> jstring \<Rightarrow> bool" where
  "starts_with_js p s \<longleftrightarrow> take (length p) s = p"

definition ws_onError :: "socket_error \<Rightarrow> ws_channel \<Rightarrow> ws_channel" where
  "ws_onError e s =
     (case se_code e of
        Some code \<Rightarrow>
          if starts_with_js (js ''WS_ERR_'') code
          then ws_shutdown PROTOCOL_ERROR (Some (ws_describe e code)) True None s
          else ws_shutdown TRANSPORT_ERROR (Some (ws_describe e (js ''WebSocket error''))) False None s
      | None \<Rightarrow> ws_shutdown TRANSPORT_ERROR (Some (ws_describe e (js ''WebSocket error''))) False None s)"

definition ws_onLateError :: "ws_channel \<Rightarrow> ws_channel" where
  "ws_onLateError s = ws_note [Warned] s"

definition ws_timer :: "ws_channel \<Rightarrow> ws_channel" where
  "ws_timer s = (if ws_drainTimer s then checkDrain (s\<lparr>ws_drainTimer := False\<rparr>) else s)"

section \<open>The adapters\<close>

text \<open>
  \<open>client.ts\<close> and \<open>host.ts\<close> turn platform events into the handlers' arguments; \<open>None\<close> stands for a
  value of another type. The handlers are attached while the channel is open; afterwards an error
  reaches \<open>lateError\<close> and nothing else reaches the channel.
\<close>

datatype close_text = TString jstring | TBytes bytes | TOther

definition reasonText :: "close_text \<Rightarrow> jstring" where
  "reasonText t = (case t of TString s \<Rightarrow> s | TBytes bs \<Rightarrow> text_decode bs | TOther \<Rightarrow> [])"

definition standard_close_args :: "nat option \<Rightarrow> close_text \<Rightarrow> nat \<times> jstring" where
  "standard_close_args code reason =
     ((case code of Some c \<Rightarrow> c | None \<Rightarrow> 1005), case reason of TString s \<Rightarrow> s | _ \<Rightarrow> [])"

definition server_close_args :: "nat option \<Rightarrow> close_text \<Rightarrow> nat \<times> jstring" where
  "server_close_args code reason = ((case code of Some c \<Rightarrow> c | None \<Rightarrow> 1005), reasonText reason)"

datatype ws_op =
    WClient ws_client_op | WOnMessage int | WOnClose int
  | SockOpened | SockMessage message_data "bool option" | SockClosed "nat option" close_text
  | SockError socket_error | SockSent | SockTimer | SockReady ready_state | SockFlushed nat nat

definition run_ws ::
  "(frame_error \<Rightarrow> jstring) \<Rightarrow> (nat \<Rightarrow> send_result) \<Rightarrow> (int \<Rightarrow> jsval \<Rightarrow> ws_client_op list)
   \<Rightarrow> ws_op \<Rightarrow> ws_channel \<Rightarrow> ws_channel"
where
  "run_ws message_of sends react op s =
     (case op of
        WClient c \<Rightarrow> ws_client sends c s
      | WOnMessage l \<Rightarrow> ws_subscribe_message l s
      | WOnClose l \<Rightarrow> ws_subscribe_close l s
      | SockOpened \<Rightarrow> ws_onOpen sends (s\<lparr>ws_socket := (ws_socket s)\<lparr>sk_readyState := OPEN\<rparr>\<rparr>)
      | SockMessage data isBinary \<Rightarrow>
          ws_onMessage message_of sends react data
            (if sk_standard (ws_socket s) then None else isBinary) s
      | SockClosed code reason \<Rightarrow>
          (case (if sk_standard (ws_socket s) then standard_close_args else server_close_args) code reason
           of (c, r) \<Rightarrow> ws_onClose c r s)
      | SockError e \<Rightarrow> if ws_state s = Open then ws_onError e s else ws_onLateError s
      | SockSent \<Rightarrow> checkDrain s
      | SockTimer \<Rightarrow> ws_timer s
      | SockReady r \<Rightarrow> if r = CLOSING \<or> r = CLOSED then s\<lparr>ws_socket := (ws_socket s)\<lparr>sk_readyState := r\<rparr>\<rparr> else s
      | SockFlushed n overhead \<Rightarrow> s\<lparr>ws_socket := socket_takes 0 n overhead (ws_socket s)\<rparr>)"

definition ws_open :: "ws_channel \<Rightarrow> bool" where
  "ws_open s \<longleftrightarrow> ws_state s = Open"

section \<open>The contract holds\<close>

abbreviation ws_ext :: "ws_channel \<Rightarrow> ws_channel \<Rightarrow> bool" where
  "ws_ext \<equiv> log_extends ws_open ws_log"

lemma ws_note_fields [simp]:
  "ws_state (ws_note es s) = ws_state s" "ws_log (ws_note es s) = ws_log s @ es"
  "ws_limits (ws_note es s) = ws_limits s" "ws_pending (ws_note es s) = ws_pending s"
  "ws_pendingBytes (ws_note es s) = ws_pendingBytes s" "ws_sentTotal (ws_note es s) = ws_sentTotal s"
  "ws_drainWaiters (ws_note es s) = ws_drainWaiters s" "ws_drainTimer (ws_note es s) = ws_drainTimer s"
  "ws_socket (ws_note es s) = ws_socket s" "ws_sends (ws_note es s) = ws_sends s"
  "ws_messages (ws_note es s) = ws_messages s"
  by (simp_all add: ws_note_def)

definition ws_quiet :: "ws_event list \<Rightarrow> bool" where
  "ws_quiet es = list_all (\<lambda>e. \<not> is_emit e \<and> \<not> is_close e) es"

lemma ws_quiet_step: "ws_quiet es \<Longrightarrow> step_events b b es"
  by (induction es) (auto simp: ws_quiet_def)

lemma ws_quiet_events [simp]:
  "ws_quiet []" "ws_quiet (e # es) \<longleftrightarrow> \<not> is_emit e \<and> \<not> is_close e \<and> ws_quiet es"
  "ws_quiet (es @ es') \<longleftrightarrow> ws_quiet es \<and> ws_quiet es'" "ws_quiet (map (\<lambda>w. DrainResolved (f w)) ws)"
  by (auto simp: ws_quiet_def list_all_iff)

lemma ws_ext_quiet:
  "ws_state t = ws_state s \<Longrightarrow> ws_log t = ws_log s @ es \<Longrightarrow> ws_quiet es \<Longrightarrow> ws_ext s t"
  by (auto simp: log_extends_def ws_open_def intro!: ws_quiet_step)

lemmas ws_ext_silent = ws_ext_quiet [where es = "[]", simplified]

lemma ws_ext_after: "ws_state t = ws_state s \<Longrightarrow> ws_log t = ws_log s \<Longrightarrow> ws_ext t u \<Longrightarrow> ws_ext s u"
  by (rule log_extends_trans [OF ws_ext_silent])

lemma ws_ext_then: "ws_ext s t \<Longrightarrow> ws_state u = ws_state t \<Longrightarrow> ws_log u = ws_log t \<Longrightarrow> ws_ext s u"
  by (rule log_extends_trans [OF _ ws_ext_silent])

lemma close_socket_fields [simp]:
  "ws_state (close_socket c r d s) = ws_state s" "ws_limits (close_socket c r d s) = ws_limits s"
  "ws_pending (close_socket c r d s) = ws_pending s" "ws_sentTotal (close_socket c r d s) = ws_sentTotal s"
  "ws_drainWaiters (close_socket c r d s) = ws_drainWaiters s" "ws_socket (close_socket c r d s) = ws_socket s"
  "ws_pendingBytes (close_socket c r d s) = ws_pendingBytes s"
  by (simp_all add: close_socket_def Let_def)

lemma ws_ext_shutdown: "ws_ext s (ws_shutdown code reason peerClosed detail s)"
proof (cases "ws_state s = Open")
  case True
  let ?s2 = "s\<lparr>ws_state := Closing, ws_closeEvent := Some (code, reason), ws_pending := [], ws_pendingBytes := 0\<rparr>"
  define es where "es = (if \<not> peerClosed then drop (length (ws_log s)) (ws_log (close_socket code reason detail ?s2)) else [])"
  have es: "ws_quiet es" by (simp add: es_def close_socket_def Let_def)
  have "ws_quiet xs \<Longrightarrow> step_events True False (xs @ [CloseEmitted code])" for xs
    by (induction xs) auto
  from this [of "es @ map (\<lambda>w. DrainResolved (snd w)) (ws_drainWaiters s)"] es
  have "step_events True False (es @ map (\<lambda>w. DrainResolved (snd w)) (ws_drainWaiters s) @ [CloseEmitted code])" by simp
  moreover have "ws_log (ws_shutdown code reason peerClosed detail s)
    = ws_log s @ es @ map (\<lambda>w. DrainResolved (snd w)) (ws_drainWaiters s) @ [CloseEmitted code]"
    using True by (simp add: ws_shutdown_def Let_def es_def close_socket_def)
  moreover have "\<not> ws_open (ws_shutdown code reason peerClosed detail s)"
    using True by (simp add: ws_shutdown_def Let_def ws_open_def)
  ultimately show ?thesis using True by (auto simp: log_extends_def ws_open_def)
qed (simp add: ws_shutdown_def log_extends_refl)

lemma schedule_fields [simp]:
  "ws_state (scheduleDrainCheck s) = ws_state s" "ws_log (scheduleDrainCheck s) = ws_log s"
  "ws_limits (scheduleDrainCheck s) = ws_limits s" "ws_pending (scheduleDrainCheck s) = ws_pending s"
  "ws_pendingBytes (scheduleDrainCheck s) = ws_pendingBytes s" "ws_sentTotal (scheduleDrainCheck s) = ws_sentTotal s"
  "ws_drainWaiters (scheduleDrainCheck s) = ws_drainWaiters s" "ws_socket (scheduleDrainCheck s) = ws_socket s"
  "ws_drainTimer (scheduleDrainCheck s) \<longleftrightarrow> ws_drainTimer s \<or> ws_drainWaiters s \<noteq> []"
  "ws_messages (scheduleDrainCheck s) = ws_messages s"
  by (simp_all add: scheduleDrainCheck_def)

lemma check_fields [simp]:
  "ws_state (checkDrain s) = ws_state s" "ws_limits (checkDrain s) = ws_limits s"
  "ws_pending (checkDrain s) = ws_pending s" "ws_pendingBytes (checkDrain s) = ws_pendingBytes s"
  "ws_sentTotal (checkDrain s) = ws_sentTotal s" "ws_socket (checkDrain s) = ws_socket s"
  "ws_drainWaiters (checkDrain s) = filter (\<lambda>w. \<not> mark_reached (bufferedBytes s) s w) (ws_drainWaiters s)"
  "ws_log (checkDrain s) = ws_log s
     @ map (\<lambda>w. DrainResolved (snd w)) (filter (mark_reached (bufferedBytes s) s) (ws_drainWaiters s))"
  "ws_drainTimer (checkDrain s) \<longleftrightarrow> ws_drainTimer s \<or> ws_drainWaiters (checkDrain s) \<noteq> []"
  by (auto simp: checkDrain_def Let_def filter_empty_conv)

lemma ws_ext_check: "ws_ext s (checkDrain s)"
  by (rule ws_ext_quiet [where es = "drop (length (ws_log s)) (ws_log (checkDrain s))"]) simp_all

lemma soft_warning_fields [simp]:
  "ws_state (soft_warning n s) = ws_state s" "ws_limits (soft_warning n s) = ws_limits s"
  "ws_pending (soft_warning n s) = ws_pending s" "ws_pendingBytes (soft_warning n s) = ws_pendingBytes s"
  "ws_sentTotal (soft_warning n s) = ws_sentTotal s" "ws_socket (soft_warning n s) = ws_socket s"
  "ws_drainWaiters (soft_warning n s) = ws_drainWaiters s" "ws_drainTimer (soft_warning n s) = ws_drainTimer s"
  by (simp_all add: soft_warning_def)

lemma ws_ext_soft_warning: "ws_ext s (soft_warning n s)"
  by (rule ws_ext_quiet [where es = "drop (length (ws_log s)) (ws_log (soft_warning n s))"])
     (simp_all add: soft_warning_def)

lemma ws_ext_write: "ws_ext s (snd (ws_write sends f s))"
proof (cases "sends (ws_sends s)")
  case SendThrows
  then show ?thesis
    using ws_ext_after [OF _ _ ws_ext_shutdown, of "s\<lparr>ws_sends := ws_sends s + 1\<rparr>" s] by (simp add: ws_write_def)
next
  case (SendTakes n ov)
  let ?s1 = "ws_note [Posted (SendFrame f)] (s\<lparr>ws_sends := ws_sends s + 1,
     ws_socket := socket_takes (length f) n ov (ws_socket s)\<rparr>)"
  have "ws_ext s ?s1" by (rule ws_ext_quiet [where es = "[Posted (SendFrame f)]"]) simp_all
  with log_extends_trans [OF this ws_ext_check] SendTakes show ?thesis
    by (simp add: ws_write_def Let_def)
qed

lemma ws_ext_send: "ws_ext s (snd (ws_send sends m s))"
proof -
  have pend: "ws_ext s (soft_warning n (s\<lparr>ws_sentTotal := a, ws_pending := b, ws_pendingBytes := c\<rparr>))" for n a b c
    by (rule ws_ext_after [OF _ _ ws_ext_soft_warning]) simp_all
  have wr: "ws_ext s (snd (ws_write sends f (s\<lparr>ws_sentTotal := a\<rparr>)))" for f a
    by (rule ws_ext_after [OF _ _ ws_ext_write]) simp_all
  have "ws_ext s (soft_warning n (snd (ws_write sends f (s\<lparr>ws_sentTotal := a\<rparr>))))" for n f a
    by (rule log_extends_trans [OF wr ws_ext_soft_warning])
  then show ?thesis
    using pend wr
    by (auto simp: ws_send_def Let_def log_extends_refl ws_ext_shutdown split: sum.split prod.split bool.split)
       (metis snd_conv)+
qed


lemma ws_ext_drain: "ws_ext s (ws_drain w s)"
  by (rule ws_ext_quiet [where es = "drop (length (ws_log s)) (ws_log (ws_drain w s))"])
     (auto simp: ws_drain_def)

lemma ws_ext_client: "ws_ext s (ws_client sends op s)"
  by (cases op)
     (simp_all add: ws_client_def ws_ext_send ws_ext_drain ws_ext_shutdown ws_close_def ws_closeAs_def ws_dispose_def)

lemma ws_ext_emit:
  assumes "ws_state s = Open"
  shows "ws_ext s (ws_emit sends react m s)"
proof -
  have "ws_ext t (fold (ws_client sends) ops (ws_note [Heard l m] t))" for t l ops
    by (rule log_extends_trans [OF ws_ext_quiet [where es = "[Heard l m]"] log_extends_fold [OF ws_ext_client]])
       simp_all
  then have "ws_ext (ws_note [Emit m] s) (ws_emit sends react m s)"
    unfolding ws_emit_def by (rule log_extends_emit_to)
  moreover have "ws_ext s (ws_note [Emit m] s)"
    using assms by (auto simp: log_extends_def ws_open_def)
  ultimately show ?thesis by (rule log_extends_trans [rotated])
qed

lemma ws_ext_flush: "ws_ext s (flush_pending sends fs s)"
proof (induction fs arbitrary: s)
  case (Cons f fs)
  show ?case
    using ws_ext_write [of s sends f] log_extends_trans [OF ws_ext_write Cons.IH]
    by (auto split: prod.split) (metis snd_conv)+
qed (simp add: log_extends_refl)

lemma ws_ext_open: "ws_ext s (ws_onOpen sends s)"
  using ws_ext_after [OF _ _ ws_ext_flush, of "s\<lparr>ws_pending := [], ws_pendingBytes := 0\<rparr>" s]
  by (simp add: ws_onOpen_def log_extends_refl)

lemma ws_ext_message: "ws_ext s (ws_onMessage message_of sends react data isBinary s)"
  by (auto simp: ws_onMessage_def log_extends_refl ws_ext_shutdown ws_ext_emit split: message_kind.split sum.split)

lemma ws_ext_run: "ws_ext s (run_ws message_of sends react op s)"
proof (cases op)
  case SockOpened
  then show ?thesis
    using ws_ext_after [OF _ _ ws_ext_open, of "s\<lparr>ws_socket := (ws_socket s)\<lparr>sk_readyState := OPEN\<rparr>\<rparr>" s]
    by (simp add: run_ws_def)
next
  case (WOnClose l)
  show ?thesis unfolding WOnClose run_ws_def ws_op.case
    by (rule ws_ext_quiet [where es = "drop (length (ws_log s)) (ws_log (ws_subscribe_close l s))"])
       (auto simp: ws_subscribe_close_def)
next
  case (SockError e)
  have "ws_ext s (ws_onLateError s)"
    by (rule ws_ext_quiet [where es = "[Warned]"]) (simp_all add: ws_onLateError_def)
  with SockError show ?thesis
    by (auto simp: run_ws_def ws_onError_def ws_ext_shutdown split: option.split)
next
  case SockTimer
  then show ?thesis
    using ws_ext_after [OF _ _ ws_ext_check, of "s\<lparr>ws_drainTimer := False\<rparr>" s]
    by (simp add: run_ws_def ws_timer_def log_extends_refl)
next
  case (SockReady r)
  have "ws_ext s (s\<lparr>ws_socket := (ws_socket s)\<lparr>sk_readyState := r\<rparr>\<rparr>)" by (rule ws_ext_silent) simp_all
  with SockReady show ?thesis by (simp add: run_ws_def log_extends_refl)
next
  case (SockFlushed n ov)
  show ?thesis unfolding SockFlushed run_ws_def ws_op.case by (rule ws_ext_silent) simp_all
next
  case (WOnMessage l)
  show ?thesis unfolding WOnMessage run_ws_def ws_op.case
    by (rule ws_ext_silent) (simp_all add: ws_subscribe_message_def)
qed (simp_all add: run_ws_def ws_ext_client ws_ext_message ws_onClose_def ws_ext_shutdown ws_ext_check split: prod.split)

interpretation web: explorer_channel "run_ws message_of sends react" ws_open ws_log for message_of sends react
  by unfold_locales (use ws_ext_run in \<open>auto simp: log_extends_def\<close>)

section \<open>Pending drains\<close>

text \<open>
  The books: what was handed to the socket, what is held back and what is about to be handed over (\<open>rest\<close>)
  is what was sent, on top of what the socket carried before (\<open>base\<close>). While the channel is open every
  pending \<open>drain()\<close> is being polled; a closed channel holds nothing back.
\<close>

definition ws_wf :: "nat \<Rightarrow> nat \<Rightarrow> ws_channel \<Rightarrow> bool" where
  "ws_wf base rest s \<longleftrightarrow>
     ws_pendingBytes s = total_bytes (ws_pending s)
     \<and> sk_sent (ws_socket s) \<le> sk_handed (ws_socket s)
     \<and> (\<forall>w\<in>set (ws_drainWaiters s). fst w \<le> ws_sentTotal s)
     \<and> (if ws_state s = Open
        then sk_handed (ws_socket s) + ws_pendingBytes s + rest = ws_sentTotal s + base
          \<and> (ws_drainWaiters s \<noteq> [] \<longrightarrow> ws_drainTimer s)
        else ws_state s = Closed \<and> ws_drainWaiters s = [] \<and> ws_pending s = [] \<and> \<not> ws_drainTimer s)"

text \<open>A host's channel, or one that holds nothing back because its socket was open from the start.\<close>

definition ws_direct :: "ws_channel \<Rightarrow> bool" where
  "ws_direct s \<longleftrightarrow> \<not> sk_standard (ws_socket s)
     \<or> sk_readyState (ws_socket s) \<noteq> CONNECTING \<and> ws_pending s = []"

text \<open>
  One state follows another, keeping the books, and the drains released in between, with the channel
  still open, are those whose bytes have left the socket.
\<close>

definition drains_kept :: "nat \<Rightarrow> ws_channel \<Rightarrow> ws_channel \<Rightarrow> bool" where
  "drains_kept base s t \<longleftrightarrow>
     sk_sent (ws_socket s) \<le> sk_sent (ws_socket t)
     \<and> (ws_state t = Open \<longrightarrow> ws_state s = Open
        \<and> (\<forall>w\<in>set (ws_drainWaiters s). w \<notin> set (ws_drainWaiters t) \<longrightarrow>
              base + fst w \<le> sk_sent (ws_socket t)))"

definition ws_follows :: "nat \<Rightarrow> ws_channel \<Rightarrow> ws_channel \<Rightarrow> bool" where
  "ws_follows base s t \<longleftrightarrow>
     (ws_wf base 0 s \<longrightarrow> ws_wf base 0 t \<and> (ws_direct s \<longrightarrow> ws_direct t \<and> drains_kept base s t))"

lemma drains_kept_refl: "drains_kept base s s"
  by (simp add: drains_kept_def)

lemma drains_kept_trans: "drains_kept base s t \<Longrightarrow> drains_kept base t u \<Longrightarrow> drains_kept base s u"
  unfolding drains_kept_def by (meson le_trans)

lemma follows_refl: "ws_follows base s s"
  by (simp add: ws_follows_def drains_kept_refl)

lemma follows_trans: "ws_follows base s t \<Longrightarrow> ws_follows base t u \<Longrightarrow> ws_follows base s u"
  unfolding ws_follows_def using drains_kept_trans by blast

lemma follows_fold: "(\<And>x s. ws_follows base s (f x s)) \<Longrightarrow> ws_follows base s (fold f xs s)"
  by (induction xs arbitrary: s) (auto intro: follows_refl follows_trans)

lemma follows_emit_to: "(\<And>l s. ws_follows base s (react l s)) \<Longrightarrow> ws_follows base s (emit_to ls react s)"
  by (induction ls arbitrary: s) (auto intro: follows_refl follows_trans)

text \<open>What the books read.\<close>

lemma same_books:
  assumes "ws_pending t = ws_pending s" "ws_pendingBytes t = ws_pendingBytes s" "ws_socket t = ws_socket s"
    "ws_state t = ws_state s" "ws_sentTotal t = ws_sentTotal s" "ws_drainWaiters t = ws_drainWaiters s"
    "ws_drainTimer t = ws_drainTimer s"
  shows "ws_wf base rest t = ws_wf base rest s \<and> ws_direct t = ws_direct s \<and> drains_kept base s t"
  using assms by (simp add: ws_wf_def ws_direct_def drains_kept_def)

lemma follows_same:
  assumes "ws_pending t = ws_pending s" "ws_pendingBytes t = ws_pendingBytes s" "ws_socket t = ws_socket s"
    "ws_state t = ws_state s" "ws_sentTotal t = ws_sentTotal s" "ws_drainWaiters t = ws_drainWaiters s"
    "ws_drainTimer t = ws_drainTimer s"
  shows "ws_follows base s t"
  using same_books [OF assms] by (simp add: ws_follows_def)

lemma shutdown_closed:
  assumes "ws_state s = Open" "sk_sent (ws_socket s) \<le> sk_handed (ws_socket s)"
  shows "ws_wf base rest (ws_shutdown c r p d s)" "ws_state (ws_shutdown c r p d s) = Closed"
    "ws_socket (ws_shutdown c r p d s) = ws_socket s" "ws_pending (ws_shutdown c r p d s) = []"
    "ws_drainWaiters (ws_shutdown c r p d s) = []"
  using assms by (simp_all add: ws_shutdown_def Let_def ws_wf_def)

lemma follows_shutdown: "ws_follows base s (ws_shutdown c r p d s)"
proof (cases "ws_state s = Open")
  case True
  have "sk_sent (ws_socket s) \<le> sk_handed (ws_socket s)" if "ws_wf base 0 s"
    using that by (simp add: ws_wf_def)
  with True show ?thesis
    by (auto simp: ws_follows_def drains_kept_def ws_direct_def shutdown_closed)
qed (simp add: ws_shutdown_def follows_refl)

text \<open>A drain found ready has its bytes out of the socket, as long as nothing else is due to it.\<close>

lemma mark_reached_sent:
  assumes "ws_wf base 0 s" "ws_state s = Open" "mark_reached (bufferedBytes s) s w"
  shows "base + fst w \<le> sk_sent (ws_socket s)"
  using assms by (auto simp: ws_wf_def mark_reached_def bufferedBytes_def bufferedAmount_def)

lemma check_books:
  assumes "ws_wf base rest s"
  shows "ws_wf base rest (checkDrain s)" "rest = 0 \<longrightarrow> drains_kept base s (checkDrain s)"
  using assms mark_reached_sent [of base s] by (auto simp: drains_kept_def ws_wf_def)

lemma follows_check: "ws_follows base s (checkDrain s)"
  using check_books [of base 0 s] by (auto simp: ws_follows_def ws_direct_def)

lemma socket_takes_fields [simp]:
  "sk_readyState (socket_takes n fl ov k) = sk_readyState k" "sk_standard (socket_takes n fl ov k) = sk_standard k"
  "sk_handed (socket_takes n fl ov k) = sk_handed k + n"
  "sk_sent (socket_takes n fl ov k) \<le> sk_handed k + n" "sk_sent (socket_takes 0 fl ov k) \<le> sk_handed k"
  "sk_sent k \<le> sk_handed k \<Longrightarrow> sk_sent k \<le> sk_sent (socket_takes n fl ov k)"
  by (simp_all add: socket_takes_def)

text \<open>Handing one frame over, with \<open>rest\<close> bytes still to follow.\<close>

lemma write_books:
  assumes wf: "ws_wf base (length f + rest) s" and op: "ws_state s = Open"
    and w: "ws_write sends f s = (threw, t)"
  shows "ws_wf base (if threw then 0 else rest) t
    \<and> (\<not> sk_standard (ws_socket s) \<or> rest = 0 \<longrightarrow> drains_kept base s t)
    \<and> ws_state t = (if threw then Closed else Open) \<and> ws_pending t = (if threw then [] else ws_pending s)
    \<and> sk_readyState (ws_socket t) = sk_readyState (ws_socket s)
    \<and> sk_standard (ws_socket t) = sk_standard (ws_socket s)"
proof (cases "sends (ws_sends s)")
  case SendThrows
  let ?s = "s\<lparr>ws_sends := ws_sends s + 1\<rparr>"
  have *: "ws_state ?s = Open" "sk_sent (ws_socket ?s) \<le> sk_handed (ws_socket ?s)"
    using op wf by (simp_all add: ws_wf_def)
  have "threw" "t = ws_shutdown TRANSPORT_ERROR (Some (js ''WebSocket send threw'')) False None ?s"
    using w SendThrows by (simp_all add: ws_write_def)
  with shutdown_closed [OF *] op show ?thesis by (simp add: drains_kept_def)
next
  case (SendTakes fl ov)
  let ?s = "ws_note [Posted (SendFrame f)] (s\<lparr>ws_sends := ws_sends s + 1,
     ws_socket := socket_takes (length f) fl ov (ws_socket s)\<rparr>)"
  have t: "\<not> threw" "t = (if sk_standard (ws_socket s) then checkDrain ?s else ?s)"
    using w SendTakes by (auto simp: ws_write_def Let_def)
  have "ws_wf base rest ?s" "drains_kept base s ?s"
    using wf op by (auto simp: ws_wf_def drains_kept_def)
  moreover have "ws_wf base rest (checkDrain ?s)" "rest = 0 \<longrightarrow> drains_kept base s (checkDrain ?s)"
    using check_books [OF calculation(1)] drains_kept_trans [OF calculation(2)] by simp_all
  ultimately show ?thesis using t op by auto
qed

lemma follows_send: "ws_follows base s (snd (ws_send sends m s))"
proof -
  have *: "ws_follows base s (snd (ws_send sends m s))"
    if op: "ws_state s = Open" and f: "encodeFrame m (ws_limits s) = Inr f"
      and room: "\<not> bufferedBytes s + length f > outboundHardBytes (ws_limits s)" for f
  proof (cases "sk_readyState (ws_socket s) = CONNECTING")
    case True
    then show ?thesis using op f room
      by (auto simp: ws_send_def Let_def ws_follows_def ws_wf_def ws_direct_def drains_kept_def)
  next
    case False
    obtain threw t where w: "ws_write sends f (s\<lparr>ws_sentTotal := ws_sentTotal s + length f\<rparr>) = (threw, t)"
      by force
    have "ws_wf base (length f + 0) (s\<lparr>ws_sentTotal := ws_sentTotal s + length f\<rparr>)" if "ws_wf base 0 s"
      using that op by (auto simp: ws_wf_def)
    note wb = write_books [OF this _ w]
    have "ws_follows base s t"
      using wb op False by (auto simp: ws_follows_def ws_direct_def drains_kept_def split: if_splits)
    moreover have "ws_follows base t (soft_warning n t)" for n by (rule follows_same) simp_all
    ultimately show ?thesis using op f room False w
      by (auto simp: ws_send_def Let_def intro: follows_trans split: bool.split)
  qed
  show ?thesis
  proof (cases "ws_state s = Open")
    case True
    then show ?thesis using *
      by (cases "encodeFrame m (ws_limits s)"; cases "\<forall>f. encodeFrame m (ws_limits s) = Inr f \<longrightarrow> bufferedBytes s + length f > outboundHardBytes (ws_limits s)")
         (auto simp: ws_send_def Let_def follows_refl follows_shutdown)
  qed (simp add: ws_send_def follows_refl)
qed

lemma follows_drain: "ws_follows base s (ws_drain w s)"
  by (auto simp: ws_drain_def ws_follows_def ws_wf_def ws_direct_def drains_kept_def)

lemma follows_client: "ws_follows base s (ws_client sends op s)"
  by (cases op)
     (simp_all add: ws_client_def follows_send follows_drain follows_shutdown ws_close_def ws_closeAs_def ws_dispose_def)

lemma follows_note: "ws_follows base s (ws_note es s)"
  by (rule follows_same) simp_all

lemma follows_emit: "ws_follows base s (ws_emit sends react m s)"
  unfolding ws_emit_def
  by (rule follows_trans [OF follows_note follows_emit_to])
     (rule follows_trans [OF follows_note follows_fold [OF follows_client]])

text \<open>The frames held back, handed over one by one when the socket opens.\<close>

lemma flush_books:
  assumes "ws_wf base (total_bytes fs) s" "ws_state s = Open"
  shows "ws_wf base 0 (flush_pending sends fs s)
    \<and> (\<not> sk_standard (ws_socket s) \<or> fs = [] \<longrightarrow> drains_kept base s (flush_pending sends fs s))
    \<and> (ws_pending s = [] \<longrightarrow> ws_pending (flush_pending sends fs s) = [])
    \<and> sk_readyState (ws_socket (flush_pending sends fs s)) = sk_readyState (ws_socket s)
    \<and> sk_standard (ws_socket (flush_pending sends fs s)) = sk_standard (ws_socket s)"
  using assms
proof (induction fs arbitrary: s)
  case (Cons f fs)
  obtain threw t where w: "ws_write sends f s = (threw, t)" by force
  from Cons.prems have "ws_wf base (length f + total_bytes fs) s" by simp
  from write_books [OF this Cons.prems(2) w] Cons.IH [of t] w show ?case
    by (auto intro: drains_kept_trans)
qed (simp add: drains_kept_refl)

lemma follows_opened:
  "ws_follows base s (ws_onOpen sends (s\<lparr>ws_socket := (ws_socket s)\<lparr>sk_readyState := OPEN\<rparr>\<rparr>))"
proof (cases "ws_state s = Open")
  case True
  let ?s = "s\<lparr>ws_socket := (ws_socket s)\<lparr>sk_readyState := OPEN\<rparr>, ws_pending := [], ws_pendingBytes := 0\<rparr>"
  have "ws_wf base (total_bytes (ws_pending s)) ?s" if "ws_wf base 0 s"
    using that True by (simp add: ws_wf_def)
  note fb = flush_books [OF this, of sends]
  have "drains_kept base s ?s" by (simp add: drains_kept_def)
  with True fb show ?thesis
    by (auto simp: ws_onOpen_def ws_follows_def ws_direct_def intro: drains_kept_trans)
qed (auto simp: ws_onOpen_def ws_follows_def ws_wf_def ws_direct_def drains_kept_def)

lemma follows_run: "ws_follows base s (run_ws message_of sends react op s)"
proof (cases op)
  case (SockMessage data isBinary)
  then show ?thesis
    by (auto simp: run_ws_def ws_onMessage_def follows_refl follows_shutdown follows_emit
        split: message_kind.split sum.split)
next
  case (SockTimer)
  have "ws_follows base s (checkDrain (s\<lparr>ws_drainTimer := False\<rparr>))" 
  proof -
    have "bufferedBytes (s\<lparr>ws_drainTimer := False\<rparr>) = bufferedBytes s" by (simp add: bufferedBytes_def)
    moreover have "mark_reached n (s\<lparr>ws_drainTimer := False\<rparr>) = mark_reached n s" for n
      by (simp add: mark_reached_def fun_eq_iff)
    ultimately show ?thesis
      using mark_reached_sent [of base s]
      by (auto simp: ws_follows_def ws_direct_def drains_kept_def ws_wf_def)
  qed
  with SockTimer show ?thesis by (simp add: run_ws_def ws_timer_def follows_refl)
next
  case (SockFlushed n ov)
  then show ?thesis
    by (auto simp: run_ws_def ws_follows_def ws_wf_def ws_direct_def drains_kept_def)
next
  case (SockReady r)
  then show ?thesis
    by (auto simp: run_ws_def ws_follows_def ws_wf_def ws_direct_def drains_kept_def)
next
  case (WOnMessage l)
  show ?thesis unfolding WOnMessage run_ws_def ws_op.case
    by (rule follows_same) (simp_all add: ws_subscribe_message_def)
next
  case (WOnClose l)
  show ?thesis unfolding WOnClose run_ws_def ws_op.case
    by (rule follows_same) (simp_all add: ws_subscribe_close_def)
qed (auto simp: run_ws_def follows_client follows_opened ws_onClose_def follows_shutdown follows_check
      ws_onError_def ws_onLateError_def follows_note split: prod.split option.split)

lemma new_ws_books:
  assumes "new_ws_channel k options = Inr s" "sk_sent k \<le> sk_handed k"
  shows "ws_wf (sk_handed k) 0 s \<and> ws_socket s = k \<and> ws_state s = Open \<and> ws_log s = []"
  using assms
  by (auto simp: new_ws_channel_def ws_wf_def split: if_splits sum.splits)

lemma new_ws_direct:
  assumes "new_ws_channel k options = Inr s" "\<not> sk_standard k \<or> sk_readyState k = OPEN"
  shows "ws_direct s"
  using assms by (auto simp: new_ws_channel_def ws_direct_def split: if_splits sum.splits)

section \<open>Frames in order\<close>

fun ws_frames :: "ws_event list \<Rightarrow> bytes list" where
  "ws_frames [] = []"
| "ws_frames (Posted (SendFrame f) # es) = f # ws_frames es"
| "ws_frames (_ # es) = ws_frames es"

lemma ws_frames_append [simp]: "ws_frames (es @ es') = ws_frames es @ ws_frames es'"
  by (induction es rule: ws_frames.induct) simp_all

lemma ws_frames_resolved [simp]: "ws_frames (map (\<lambda>w. DrainResolved (f w)) ws) = []"
  by (induction ws) simp_all

text \<open>What has been handed to the socket and what is held back.\<close>

definition ws_outbound :: "ws_channel \<Rightarrow> bytes list" where
  "ws_outbound s = ws_frames (ws_log s) @ ws_pending s"

fun ws_sent_messages :: "limits \<Rightarrow> ws_op list \<Rightarrow> jsval list" where
  "ws_sent_messages L [] = []"
| "ws_sent_messages L (WClient (WSend m) # ops) =
     (case encodeFrame m L of Inl e \<Rightarrow> ws_sent_messages L ops | Inr f \<Rightarrow> m # ws_sent_messages L ops)"
| "ws_sent_messages L (_ # ops) = ws_sent_messages L ops"

fun ws_sent_frames :: "limits \<Rightarrow> ws_op list \<Rightarrow> bytes list" where
  "ws_sent_frames L [] = []"
| "ws_sent_frames L (WClient (WSend m) # ops) =
     (case encodeFrame m L of Inl e \<Rightarrow> ws_sent_frames L ops | Inr f \<Rightarrow> f # ws_sent_frames L ops)"
| "ws_sent_frames L (_ # ops) = ws_sent_frames L ops"

lemma ws_sent_encode:
  "list_all2 (\<lambda>m f. encodeFrame m L = Inr f) (ws_sent_messages L ops) (ws_sent_frames L ops)"
  by (induction L ops rule: ws_sent_frames.induct) (auto split: sum.split)

text \<open>Listeners that only listen, and a socket that does not start to close under its channel.\<close>

definition ws_listens :: "int \<Rightarrow> jsval \<Rightarrow> ws_client_op list" where
  "ws_listens l m = []"

definition keeps_open :: "ws_op \<Rightarrow> bool" where
  "keeps_open op = (case op of SockReady r \<Rightarrow> False | _ \<Rightarrow> True)"

definition held_in_order :: "ws_channel \<Rightarrow> bool" where
  "held_in_order s \<longleftrightarrow> ws_pending s = [] \<or> sk_readyState (ws_socket s) = CONNECTING"

lemma shutdown_not_open [simp]: "ws_state (ws_shutdown c r p d s) \<noteq> Open"
  by (simp add: ws_shutdown_def Let_def)

lemma write_frames:
  assumes "ws_write sends f s = (threw, t)" "ws_state t = Open"
  shows "\<not> threw \<and> ws_state s = Open \<and> ws_pending t = ws_pending s \<and> ws_limits t = ws_limits s
    \<and> ws_frames (ws_log t) = ws_frames (ws_log s) @ [f]
    \<and> sk_readyState (ws_socket t) = sk_readyState (ws_socket s)"
  using assms by (auto simp: ws_write_def Let_def split: send_result.splits if_splits)

lemma flush_frames:
  "ws_state (flush_pending sends fs s) = Open \<Longrightarrow>
   ws_state s = Open \<and> ws_pending (flush_pending sends fs s) = ws_pending s
   \<and> ws_limits (flush_pending sends fs s) = ws_limits s
   \<and> ws_frames (ws_log (flush_pending sends fs s)) = ws_frames (ws_log s) @ fs"
proof (induction fs arbitrary: s)
  case (Cons f fs)
  obtain threw t where w: "ws_write sends f s = (threw, t)" by force
  with Cons.prems have "ws_state (if threw then t else flush_pending sends fs t) = Open" by simp
  then have "ws_state t = Open" using Cons.IH [of t] by (auto split: if_splits)
  from write_frames [OF w this] Cons.IH [of t] Cons.prems w show ?case by auto
qed simp

lemma ws_frames_soft [simp]: "ws_frames (ws_log (soft_warning n s)) = ws_frames (ws_log s)"
  by (simp add: soft_warning_def)

lemma send_frames:
  assumes "ws_state (snd (ws_send sends m s)) = Open" "held_in_order s"
  shows "ws_outbound (snd (ws_send sends m s)) = ws_outbound s @ ws_sent_frames (ws_limits s) [WClient (WSend m)]
    \<and> held_in_order (snd (ws_send sends m s)) \<and> ws_limits (snd (ws_send sends m s)) = ws_limits s"
proof (cases "encodeFrame m (ws_limits s)")
  case (Inl e)
  with assms show ?thesis by (auto simp: ws_send_def)
next
  case (Inr f)
  have op: "ws_state s = Open" using assms(1) by (auto simp: ws_send_def split: if_splits)
  have room: "\<not> bufferedBytes s + length f > outboundHardBytes (ws_limits s)"
    using assms(1) Inr op by (auto simp: ws_send_def split: if_splits)
  show ?thesis
  proof (cases "sk_readyState (ws_socket s) = CONNECTING")
    case True
    with Inr op room show ?thesis by (simp add: ws_send_def Let_def ws_outbound_def held_in_order_def)
  next
    case False
    obtain threw t where w: "ws_write sends f (s\<lparr>ws_sentTotal := ws_sentTotal s + length f\<rparr>) = (threw, t)"
      by force
    have t: "ws_state t = Open"
      using assms(1) Inr op room False w by (auto simp: ws_send_def Let_def split: bool.splits)
    from write_frames [OF w this] False assms(2) Inr op room w show ?thesis
      by (simp add: ws_send_def Let_def ws_outbound_def held_in_order_def)
  qed
qed

lemma quiet_step_frames:
  "ws_log t = ws_log s @ es \<Longrightarrow> ws_frames es = [] \<Longrightarrow> ws_pending t = ws_pending s \<Longrightarrow> ws_limits t = ws_limits s \<Longrightarrow>
   sk_readyState (ws_socket t) = sk_readyState (ws_socket s) \<Longrightarrow> held_in_order s \<Longrightarrow>
   ws_outbound t = ws_outbound s \<and> held_in_order t \<and> ws_limits t = ws_limits s"
  by (simp add: ws_outbound_def held_in_order_def)

lemma listening_emit:
  "ws_emit sends ws_listens m s = ws_note (Emit m # map (\<lambda>l. Heard l m) (ws_messages s)) s"
proof -
  have "emit_to ls (\<lambda>l t. fold (ws_client sends) (ws_listens l m) (ws_note [Heard l m] t)) t
      = ws_note (map (\<lambda>l. Heard l m) ls) t" for ls t
    by (induction ls arbitrary: t) (simp_all add: ws_listens_def ws_note_def)
  then show ?thesis by (simp add: ws_emit_def ws_note_def)
qed

lemma ws_frames_heard [simp]: "ws_frames (map (\<lambda>l. Heard l m) ls) = []"
  by (induction ls) simp_all

lemma message_open:
  "ws_state (ws_onMessage mo sends react data b s) = Open \<Longrightarrow>
   \<exists>m. ws_onMessage mo sends react data b s = ws_emit sends react m s"
  by (auto simp: ws_onMessage_def split: message_kind.splits sum.splits if_splits)

lemma run_frames:
  assumes "ws_state (run_ws mo sends ws_listens op s) = Open" "keeps_open op" "held_in_order s"
  shows "ws_outbound (run_ws mo sends ws_listens op s) = ws_outbound s @ ws_sent_frames (ws_limits s) [op]
    \<and> held_in_order (run_ws mo sends ws_listens op s) \<and> ws_limits (run_ws mo sends ws_listens op s) = ws_limits s"
proof (cases op)
  case (WClient c)
  show ?thesis
  proof (cases c)
    case (WSend m)
    with WClient assms send_frames [of sends m s] show ?thesis by (simp add: run_ws_def ws_client_def)
  next
    case (WDrain w)
    with WClient assms show ?thesis
      by (auto simp: run_ws_def ws_client_def ws_drain_def ws_outbound_def held_in_order_def)
  qed (use WClient assms in \<open>simp_all add: run_ws_def ws_client_def ws_close_def ws_closeAs_def ws_dispose_def\<close>)
next
  case SockOpened
  let ?s = "s\<lparr>ws_socket := (ws_socket s)\<lparr>sk_readyState := OPEN\<rparr>, ws_pending := [], ws_pendingBytes := 0\<rparr>"
  have "ws_state (flush_pending sends (ws_pending s) ?s) = Open \<and> ws_state s = Open"
    using assms(1) SockOpened by (auto simp: run_ws_def ws_onOpen_def split: if_splits)
  with flush_frames [of sends "ws_pending s" ?s] SockOpened show ?thesis
    by (simp add: run_ws_def ws_onOpen_def ws_outbound_def held_in_order_def)
next
  case (SockMessage data b)
  then obtain m where "run_ws mo sends ws_listens op s = ws_emit sends ws_listens m s"
    using assms(1) message_open [of mo sends ws_listens data "if sk_standard (ws_socket s) then None else b" s]
    by (auto simp: run_ws_def)
  with SockMessage assms show ?thesis by (simp add: listening_emit ws_outbound_def held_in_order_def)
next
  case (SockError e)
  with assms show ?thesis
    by (auto simp: run_ws_def ws_onError_def ws_onLateError_def split: if_splits option.splits)
next
  case SockTimer
  have "ws_outbound (checkDrain t) = ws_outbound t \<and> held_in_order (checkDrain t) = held_in_order t" for t
    by (simp add: ws_outbound_def held_in_order_def)
  with SockTimer assms show ?thesis
    by (auto simp: run_ws_def ws_timer_def ws_outbound_def held_in_order_def)
qed (use assms in \<open>auto simp: run_ws_def ws_onClose_def ws_subscribe_message_def ws_subscribe_close_def keeps_open_def
      ws_outbound_def held_in_order_def split: prod.splits\<close>)

lemma session_frames:
  assumes "ws_state (fold (run_ws mo sends ws_listens) ops s) = Open" "list_all keeps_open ops" "held_in_order s"
  shows "ws_outbound (fold (run_ws mo sends ws_listens) ops s) = ws_outbound s @ ws_sent_frames (ws_limits s) ops"
  using assms
proof (induction ops arbitrary: s)
  case (Cons op ops)
  let ?t = "run_ws mo sends ws_listens op s"
  have "ws_state ?t = Open"
    using Cons.prems(1) web.closed_stays_closed [of ?t mo sends ws_listens ops] by (auto simp: ws_open_def)
  from run_frames [OF this] Cons.prems have t: "ws_outbound ?t = ws_outbound s @ ws_sent_frames (ws_limits s) [op]"
    "held_in_order ?t" "ws_limits ?t = ws_limits s" by simp_all
  have "ws_sent_frames L (op # ops) = ws_sent_frames L [op] @ ws_sent_frames L ops" for L
    by (cases "(L, op # ops)" rule: ws_sent_frames.cases) (auto split: sum.split)
  with Cons.IH [of ?t] Cons.prems t show ?case by simp
qed simp

text \<open>The receiving end.\<close>

lemma receive_frame:
  assumes "encodeFrame m L = Inr f" "wire_value m" "maxFrameBytes L < 2 ^ 32"
    and "ws_state t = Open" "ws_limits t = L" "ws_messages t = [l]"
  shows "run_ws mo sends ws_listens (SockMessage (DArrayBuffer f) None) t = ws_note [Emit m, Heard l m] t"
proof -
  obtain h where h: "parseHeader (take 20 f) L = Inr h" "fh_totalLength h = length f" "decodeFrame f h = Inr m"
    using decode_encoded [OF assms(1-3)] by blast
  have "length f \<ge> 20 \<and> length f \<le> maxFrameBytes L"
    using assms(1)
  proof (rule encodeFrame_eq)
    fix j as
    assume "20 + length (text_encode (stringify j)) + length as * 4 + total_bytes as \<le> maxFrameBytes L"
      "f = header_bytes (length (text_encode (stringify j))) (length as) (total_bytes as)
         @ text_encode (stringify j) @ concat (map (\<lambda>a. be_bytes 4 (length a)) as) @ concat as"
    with length_table [of as] length_concat_total [of as] show ?thesis by simp
  qed
  with h assms show ?thesis
    by (simp add: run_ws_def ws_onMessage_def decodeMessageFrame_def FRAME_HEADER_BYTES_def listening_emit)
qed

lemma receive_frames:
  assumes "list_all2 (\<lambda>m f. wire_value m \<and> encodeFrame m L = Inr f) ms fs" "maxFrameBytes L < 2 ^ 32"
    and "ws_state t = Open" "ws_limits t = L" "ws_messages t = [l]"
  shows "heard_by l (ws_log (fold (run_ws mo sends ws_listens) (map (\<lambda>f. SockMessage (DArrayBuffer f) None) fs) t))
    = heard_by l (ws_log t) @ ms"
  using assms
proof (induction ms fs arbitrary: t rule: list_all2_induct)
  case (Cons m ms f fs)
  then have "run_ws mo sends ws_listens (SockMessage (DArrayBuffer f) None) t = ws_note [Emit m, Heard l m] t"
    by (intro receive_frame) simp_all
  with Cons show ?case by simp
qed simp

section \<open>Small sessions\<close>

definition plain_socket :: "ready_state \<Rightarrow> bool \<Rightarrow> web_socket" where
  "plain_socket r std = \<lparr>sk_readyState = r, sk_handed = 0, sk_sent = 0, sk_overhead = 0, sk_canTerminate = False,
     sk_closeThrows = False, sk_standard = std\<rparr>"

definition no_options :: limits_input where
  "no_options = \<lparr>in_maxMetadataBytes = None, in_maxAttachments = None, in_maxFrameBytes = None,
     in_outboundSoftBytes = None, in_outboundHardBytes = None\<rparr>"

definition plain_channel :: "ready_state \<Rightarrow> bool \<Rightarrow> ws_channel" where
  "plain_channel r std = \<lparr>
     ws_limits = DEFAULT_LIMITS, ws_pending = [], ws_pendingBytes = 0, ws_sentTotal = 0, ws_drainWaiters = [],
     ws_drainTimer = False, ws_softWarned = False, ws_state = Open, ws_closeEvent = None,
     ws_messages = [], ws_closes = [], ws_socket = plain_socket r std, ws_sends = 0, ws_log = [] \<rparr>"

text \<open>A socket that takes every frame and sends none of it yet.\<close>

definition takes_all :: "nat \<Rightarrow> send_result" where
  "takes_all n = SendTakes 0 0"

lemma plain_channel_new:
  "r = CONNECTING \<or> r = OPEN \<Longrightarrow> new_ws_channel (plain_socket r std) no_options = Inr (plain_channel r std)"
  by (auto simp: new_ws_channel_def plain_socket_def plain_channel_def no_options_def resolveLimits_def
      positiveInt_def DEFAULT_LIMITS_def MiB_def)

lemma small_encoded: "encodeFrame (VNum 7) DEFAULT_LIMITS = Inr small_bytes"
  using small_frame by (simp add: small_bytes_def)

lemma default_limits_room:
  "outboundSoftBytes DEFAULT_LIMITS = 8388608" "outboundHardBytes DEFAULT_LIMITS = 33554432"
  by (simp_all add: DEFAULT_LIMITS_def MiB_def)

lemmas ws_unfold = run_ws_def ws_client_def ws_send_def ws_drain_def ws_write_def bufferedBytes_def bufferedAmount_def
  soft_warning_def scheduleDrainCheck_def checkDrain_def mark_reached_def socket_takes_def ws_note_def Let_def
  plain_channel_def plain_socket_def takes_all_def small_encoded small_bytes_length default_limits_room
  ws_onOpen_def ws_timer_def

section \<open>Properties\<close>



text \<open>
  A client's channel over a socket that is still connecting resolves \<open>drain()\<close> early. Two messages
  are sent, \<open>drain()\<close> is called, a third is sent, and the socket opens: \<open>#onOpen\<close> drops the count of the
  held bytes before it hands the frames over, and the client's adapter reports the first one sent while
  it is being handed over, so the drain resolves when the second of the two frames it stands for has not
  reached the socket and not one byte has left it.
\<close>

theorem connecting_drain_resolves_early:
  "new_ws_channel (plain_socket CONNECTING True) no_options = Inr (plain_channel CONNECTING True)
   \<and> (let s = fold (run_ws message_of takes_all react)
              [WClient (WSend (VNum 7)), WClient (WSend (VNum 7)), WClient (WDrain 4),
               WClient (WSend (VNum 7)), SockOpened] (plain_channel CONNECTING True)
      in ws_log s = [Posted (SendFrame small_bytes), DrainResolved 4,
                     Posted (SendFrame small_bytes), Posted (SendFrame small_bytes)]
       \<and> ws_state s = Open \<and> sk_sent (ws_socket s) = 0)"
  using plain_channel_new [of CONNECTING True] by (simp add: ws_unfold)

text \<open>
  C19: no \<open>drain()\<close> is forgotten. In every session, a channel with a drain waiting has its poll timer
  armed, and when that fires with nothing held back and nothing buffered every waiting drain resolves.
\<close>

theorem ws_drain_resolves:
  assumes "new_ws_channel k options = Inr s0" "sk_sent k \<le> sk_handed k"
    and "s = fold (run_ws message_of sends react) ops s0" "ws_drainWaiters s \<noteq> []"
  shows "ws_state s = Open \<and> ws_drainTimer s
    \<and> (ws_pending s = [] \<and> bufferedAmount (ws_socket s) = 0 \<longrightarrow>
        ws_drainWaiters (run_ws message_of sends react SockTimer s) = []
        \<and> ws_log (run_ws message_of sends react SockTimer s)
          = ws_log s @ map (\<lambda>w. DrainResolved (snd w)) (ws_drainWaiters s))"
proof -
  have "ws_follows (sk_handed k) s0 s" unfolding assms(3) by (rule follows_fold [OF follows_run])
  with new_ws_books [OF assms(1,2)] have wf: "ws_wf (sk_handed k) 0 s" by (simp add: ws_follows_def)
  with assms(4) have *: "ws_state s = Open" "ws_drainTimer s"
    by (auto simp: ws_wf_def split: if_splits)
  with wf have "filter (mark_reached 0 s) (ws_drainWaiters s) = ws_drainWaiters s"
    by (auto simp: ws_wf_def mark_reached_def intro!: filter_True)
  moreover have "mark_reached 0 (s\<lparr>ws_drainTimer := False\<rparr>) = mark_reached 0 s"
    by (simp add: mark_reached_def fun_eq_iff)
  ultimately show ?thesis
    using wf * by (auto simp: run_ws_def ws_timer_def bufferedBytes_def ws_wf_def filter_empty_conv mark_reached_def)
qed

theorem ws_drain_resolves_witness:
  "let s = fold (run_ws (\<lambda>e. []) takes_all ws_listens)
             [WClient (WSend (VNum 7)), WClient (WDrain 4), SockOpened, SockFlushed 21 0] (plain_channel CONNECTING False)
   in ws_drainTimer s \<and> ws_log (run_ws (\<lambda>e. []) takes_all ws_listens SockTimer s)
        = [Posted (SendFrame small_bytes), DrainResolved 4]"
proof -
  let ?s = "fold (run_ws (\<lambda>e. []) takes_all ws_listens)
    [WClient (WSend (VNum 7)), WClient (WDrain 4), SockOpened, SockFlushed 21 0] (plain_channel CONNECTING False)"
  have s: "ws_drainWaiters ?s = [(21, 4)]" "ws_pending ?s = []" "bufferedAmount (ws_socket ?s) = 0"
    "ws_log ?s = [Posted (SendFrame small_bytes)]"
    by (simp_all add: ws_unfold)
  from ws_drain_resolves [OF plain_channel_new _ refl, of CONNECTING False "\<lambda>e. []" takes_all ws_listens
      "[WClient (WSend (VNum 7)), WClient (WDrain 4), SockOpened, SockFlushed 21 0]"] s
  show ?thesis by (simp only: Let_def) (simp add: plain_socket_def)
qed



text \<open>
  Every WebSocket session is orderly: whatever the socket does and whatever the listeners do from
  inside a dispatch, the close event is dispatched at most once, and exactly once when the channel
  ends, and no message is dispatched after it.
\<close>

theorem ws_session_orderly:
  assumes "new_ws_channel k options = Inr s0"
  shows "let s = fold (run_ws message_of sends react) ops s0
    in orderly (ws_log s) \<and> close_count (ws_log s) = (if ws_open s then 0 else 1)"
proof -
  have "ws_open s0" "ws_log s0 = []"
    using assms by (auto simp: new_ws_channel_def ws_open_def split: if_splits sum.splits)
  from web.session_orderly [OF this] show ?thesis by (simp add: Let_def)
qed

theorem ws_session_orderly_witness:
  "close_count (ws_log (fold (run_ws (\<lambda>e. []) takes_all ws_listens) [SockClosed None TOther] (plain_channel OPEN True))) = 1"
proof -
  have "\<not> ws_open (fold (run_ws (\<lambda>e. []) takes_all ws_listens) [SockClosed None TOther] (plain_channel OPEN True))"
    by (simp add: run_ws_def ws_onClose_def ws_open_def split: prod.split)
  with ws_session_orderly [OF plain_channel_new [of OPEN True], of "\<lambda>e. []" takes_all ws_listens "[SockClosed None TOther]"]
  show ?thesis by (simp add: Let_def)
qed

text \<open>
  The reason a session ends for reaches the peer. When an open channel closes itself with a reason and
  asks its socket to send a close frame, a peer that receives this frame's code and text ends with the
  same reason, a deliberate close being the peer's own to it; only a transport fault on a socket that can
  be dropped sends no close frame.
\<close>

theorem ws_close_reason_crosses:
  assumes "ws_state s = Open" "ws_state t = Open"
  shows "\<exists>action. posted (ws_log (ws_closeAs c reason s)) = posted (ws_log s) @ [action]
    \<and> (action = Terminate \<longleftrightarrow> c = TRANSPORT_ERROR \<and> sk_canTerminate (ws_socket s))
    \<and> (\<forall>code text. action = CloseFrame code text \<longrightarrow>
          browser_may_close_with code \<and> length (text_encode text) \<le> 123
          \<and> (\<exists>r. ws_closeEvent (ws_onClose code text t)
                 = Some (if c = LOCAL_CLOSE \<or> c = REMOTE_CLOSE then REMOTE_CLOSE else c, r)))"
proof -
  have p: "posted (es @ es') = posted es @ posted es'" for es es' :: "ws_event list"
    by (induction es rule: posted.induct) simp_all
  have q: "posted (map (\<lambda>w. DrainResolved (snd w)) ws) = []" for ws :: "(nat \<times> nat) list"
    by (induction ws) simp_all
  show ?thesis
    using assms by (cases c)
      (simp_all add: ws_closeAs_def ws_shutdown_def close_socket_def ws_onClose_def Let_def p q reason_size ws_note_def
         explorerCloseCodeFor_def browser_may_close_with_def ws_codes)
qed

theorem ws_close_reason_crosses_witness:
  "\<exists>text r. posted (ws_log (ws_closeAs AUTH_REJECTED (Some (js ''no'')) (plain_channel OPEN False))) = [CloseFrame 4008 text]
     \<and> ws_closeEvent (ws_onClose 4008 text (plain_channel OPEN True)) = Some (AUTH_REJECTED, r)"
proof -
  have o: "ws_state (plain_channel OPEN b) = Open" "ws_log (plain_channel OPEN b) = []" for b
    by (simp_all add: plain_channel_def)
  have "posted (ws_log (ws_closeAs AUTH_REJECTED (Some (js ''no'')) (plain_channel OPEN False)))
      = [CloseFrame 4008 (closeReasonForWire (Some (js ''no'')))]"
    by (simp add: ws_closeAs_def ws_shutdown_def close_socket_def ws_note_def plain_channel_def plain_socket_def Let_def ws_codes)
  with ws_close_reason_crosses [OF o(1) o(1), of AUTH_REJECTED "Some (js ''no'')" False True] o(2) show ?thesis
    by auto
qed

end
