(* ===== verification/Remote_Session.thy ===== *)
theory Remote_Session
  imports Frame_Codec Session_Policy Channel_Contract "HOL-Library.Sublist"
begin

text \<open>
  The server half of a remote session (\<open>packages/mille/src/remote/server.ts\<close>) and the service messages it
  speaks (\<open>remote/protocol.ts\<close>). An inbound message is a decoded value; of the values a channel
  delivers, the text \<open>String(v)\<close> gives a fractional number is the one it was written as. The embedder's
  \<open>authorize\<close>, its hosts, the identifiers of \<open>randomId\<close>, the clock and the channel's sends are inputs.
\<close>

section \<open>Service messages\<close>

definition REMOTE_SERVICE :: jstring where
  "REMOTE_SERVICE = js ''mille.remote''"

definition REMOTE_SERVICE_VERSION :: int where
  "REMOTE_SERVICE_VERSION = 1"

definition MAX_REMOTE_CREDENTIAL_LENGTH :: nat where
  "MAX_REMOTE_CREDENTIAL_LENGTH = 4096"

datatype remote_access = ReadOnlyAccess | ReadWriteAccess

record open_request =
  or_requestId :: jstring
  or_exportId :: jstring
  or_requestedAccess :: remote_access
  or_credential :: "jstring option"
  or_instanceId :: jstring
  or_name :: "jstring option"
  or_milleVersion :: jstring
  or_milleTruffleVersion :: "jstring option"

datatype reject_code =
    ACCESS_DENIED | VERSION_UNSUPPORTED | INVALID_REQUEST | LIMIT_EXCEEDED | SERVER_SHUTTING_DOWN

definition reject_name :: "reject_code \<Rightarrow> jstring" where
  "reject_name c = js (case c of
     ACCESS_DENIED \<Rightarrow> ''ACCESS_DENIED'' | VERSION_UNSUPPORTED \<Rightarrow> ''VERSION_UNSUPPORTED''
   | INVALID_REQUEST \<Rightarrow> ''INVALID_REQUEST'' | LIMIT_EXCEEDED \<Rightarrow> ''LIMIT_EXCEEDED''
   | SERVER_SHUTTING_DOWN \<Rightarrow> ''SERVER_SHUTTING_DOWN'')"

text \<open>\<open>typeof v === 'object' && v !== null\<close>, and a property of such a value.\<close>

fun is_object :: "jsval \<Rightarrow> bool" where
  "is_object (VObj kvs) = True"
| "is_object (VArr xs) = True"
| "is_object (VBytes bs) = True"
| "is_object VShared = True"
| "is_object VCyclic = True"
| "is_object VExotic = True"
| "is_object _ = False"

fun field_of :: "jsval \<Rightarrow> string \<Rightarrow> jsval" where
  "field_of (VObj kvs) name = (case jm_get kvs (js name) of Some v \<Rightarrow> v | None \<Rightarrow> VUndefined)"
| "field_of _ name = VUndefined"

definition isRemoteServiceMessage :: "jsval \<Rightarrow> bool" where
  "isRemoteServiceMessage v \<longleftrightarrow> is_object v \<and> field_of v ''service'' = VStr REMOTE_SERVICE"

text \<open>
  \<open>String(v)\<close>; \<open>None\<close>: it throws. No received value is a function, so an object with a property
  \<open>toString\<close> of its own has no way to become a primitive. An array joins its elements, null and
  undefined as nothing.
\<close>

fun js_string :: "jsval \<Rightarrow> jstring option"
  and js_join :: "jsval list \<Rightarrow> jstring option"
where
  "js_string VUndefined = Some (js ''undefined'')"
| "js_string VNull = Some (js ''null'')"
| "js_string (VBool b) = Some (if b then js ''true'' else js ''false'')"
| "js_string (VNum i) = Some (int_text i)"
| "js_string (VReal t) = Some t"
| "js_string VNonFinite = Some (js ''NaN'')"
| "js_string (VStr s) = Some s"
| "js_string (VBytes bs) = Some (commas (map (\<lambda>b. digits (unat b)) bs))"
| "js_string (VArr xs) = js_join xs"
| "js_string (VObj kvs) = (if jm_has kvs (js ''toString'') then None else Some (js ''[object Object]''))"
| "js_string _ = Some (js ''[object Object]'')"
| "js_join [] = Some []"
| "js_join (x # xs) =
     (case (if x = VNull \<or> x = VUndefined then Some [] else js_string x) of
        None \<Rightarrow> None
      | Some a \<Rightarrow>
        (case js_join xs of None \<Rightarrow> None | Some b \<Rightarrow> Some (if xs = [] then a else a @ 44 # b)))"

definition isNonEmptyString :: "jsval \<Rightarrow> nat \<Rightarrow> bool" where
  "isNonEmptyString v m = (case v of VStr s \<Rightarrow> length s > 0 \<and> length s \<le> m | _ \<Rightarrow> False)"

fun str_of :: "jsval \<Rightarrow> jstring" where
  "str_of (VStr s) = s"
| "str_of _ = []"

definition opt_str :: "jsval \<Rightarrow> jstring option" where
  "opt_str v = (if v = VUndefined then None else Some (str_of v))"

text \<open>\<open>/^[A-Za-z0-9][A-Za-z0-9._-]{0,63}$/\<close>.\<close>

definition alnum :: "code_unit \<Rightarrow> bool" where
  "alnum u \<longleftrightarrow> (65 \<le> u \<and> u \<le> 90) \<or> (97 \<le> u \<and> u \<le> 122) \<or> (48 \<le> u \<and> u \<le> 57)"

definition export_id_ok :: "jstring \<Rightarrow> bool" where
  "export_id_ok s =
     (case s of
        [] \<Rightarrow> False
      | u # us \<Rightarrow> alnum u \<and> length us \<le> 63 \<and> list_all (\<lambda>u. alnum u \<or> u = 46 \<or> u = 95 \<or> u = 45) us)"

datatype parsed_open = Throws | Problem reject_code jstring | Request open_request

definition invalid :: "string \<Rightarrow> parsed_open" where
  "invalid m = Problem INVALID_REQUEST (js m)"

definition parse_client :: "jsval \<Rightarrow> (jsval \<Rightarrow> parsed_open) \<Rightarrow> parsed_open" where
  "parse_client c k =
     (if \<not> is_object c then invalid ''client block is required''
      else if \<not> isNonEmptyString (field_of c ''instanceId'') 128 then invalid ''client.instanceId is required''
      else if \<not> isNonEmptyString (field_of c ''milleVersion'') 64 then invalid ''client version strings are required''
      else if field_of c ''milleTruffleVersion'' \<noteq> VUndefined \<and> \<not> isNonEmptyString (field_of c ''milleTruffleVersion'') 64
      then invalid ''client version strings are required''
      else if field_of c ''name'' \<noteq> VUndefined \<and> \<not> isNonEmptyString (field_of c ''name'') 128
      then invalid ''client.name must be a non-empty string''
      else k c)"

definition parseOpenRequest :: "jsval \<Rightarrow> parsed_open" where
  "parseOpenRequest v =
     (if \<not> is_object v then invalid ''open request must be an object''
      else if field_of v ''service'' \<noteq> VStr REMOTE_SERVICE then invalid ''not a mille.remote message''
      else if field_of v ''version'' \<noteq> VNum REMOTE_SERVICE_VERSION
      then (case js_string (field_of v ''version'') of
              None \<Rightarrow> Throws
            | Some t \<Rightarrow> Problem VERSION_UNSUPPORTED (js ''service version '' @ t @ js '' is not supported''))
      else if field_of v ''type'' \<noteq> VStr (js ''open'')
      then (case js_string (field_of v ''type'') of
              None \<Rightarrow> Throws
            | Some t \<Rightarrow> Problem INVALID_REQUEST (js ''expected an open request, got '' @ t))
      else if \<not> isNonEmptyString (field_of v ''requestId'') 128 then invalid ''requestId must be a non-empty string''
      else if \<not> isNonEmptyString (field_of v ''exportId'') 64 \<or> \<not> export_id_ok (str_of (field_of v ''exportId''))
      then invalid ''exportId is malformed''
      else if field_of v ''requestedAccess'' \<noteq> VStr (js ''read-only'') \<and> field_of v ''requestedAccess'' \<noteq> VStr (js ''read-write'')
      then invalid ''requestedAccess must be read-only or read-write''
      else if field_of v ''credential'' \<noteq> VUndefined
        \<and> \<not> isNonEmptyString (field_of v ''credential'') MAX_REMOTE_CREDENTIAL_LENGTH
      then Problem INVALID_REQUEST (js ''credential must be a non-empty string of at most ''
             @ digits MAX_REMOTE_CREDENTIAL_LENGTH @ js '' characters'')
      else parse_client (field_of v ''client'') (\<lambda>c. Request \<lparr>
             or_requestId = str_of (field_of v ''requestId''), or_exportId = str_of (field_of v ''exportId''),
             or_requestedAccess =
               (if field_of v ''requestedAccess'' = VStr (js ''read-only'') then ReadOnlyAccess else ReadWriteAccess),
             or_credential = opt_str (field_of v ''credential''),
             or_instanceId = str_of (field_of c ''instanceId''), or_name = opt_str (field_of c ''name''),
             or_milleVersion = str_of (field_of c ''milleVersion''),
             or_milleTruffleVersion = opt_str (field_of c ''milleTruffleVersion'') \<rparr>))"

section \<open>Policy\<close>

definition DEFAULT_REMOTE_MAX_FILE_BYTES :: int where
  "DEFAULT_REMOTE_MAX_FILE_BYTES = 16 * 1024 * 1024"

definition FILE_FRAME_HEADROOM_BYTES :: int where
  "FILE_FRAME_HEADROOM_BYTES = 64 * 1024"

text \<open>
  A grant: the host it names, what attaching to it does, and its policy. \<open>gr_unbounded\<close> says that a
  \<open>maxFileBytes\<close> that is not finite is positive infinity.
\<close>

datatype attach_result = AttachOk | AttachThrows jstring

record remote_grant =
  gr_host :: nat
  gr_attach :: attach_result
  gr_policy :: session_policy
  gr_unbounded :: bool
  gr_label :: "jstring option"
  gr_rootCount :: "nat option"
  gr_hostRoots :: nat
  gr_peerId :: "jstring option"
  gr_peerName :: "jstring option"
  gr_workspaceInstanceId :: "jstring option"

datatype refusable = RefuseDenied | RefuseLimit | RefuseShutdown

fun refusal_code :: "refusable \<Rightarrow> reject_code" where
  "refusal_code RefuseDenied = ACCESS_DENIED"
| "refusal_code RefuseLimit = LIMIT_EXCEEDED"
| "refusal_code RefuseShutdown = SERVER_SHUTTING_DOWN"

datatype authorize_result = Grant remote_grant | Refusal refusable "jstring option" | NoGrant

definition frame_cap :: "limits \<Rightarrow> int" where
  "frame_cap L = max 1 (int (maxFrameBytes L) - FILE_FRAME_HEADROOM_BYTES)"

definition min_cap :: "bool \<Rightarrow> js_float \<Rightarrow> int \<Rightarrow> js_float" where
  "min_cap unbounded v cap =
     (case v of Finite q \<Rightarrow> Finite (min q (of_int cap)) | NonFinite \<Rightarrow> if unbounded then Finite (of_int cap) else NonFinite)"

definition file_cap :: "remote_grant \<Rightarrow> limits \<Rightarrow> js_float" where
  "file_cap g L =
     min_cap (gr_unbounded g)
       (case sp_maxFileBytes (gr_policy g) of Some v \<Rightarrow> v | None \<Rightarrow> Finite (of_int DEFAULT_REMOTE_MAX_FILE_BYTES))
       (frame_cap L)"

definition effectivePolicy :: "remote_grant \<Rightarrow> remote_access \<Rightarrow> limits \<Rightarrow> jstring + session_policy" where
  "effectivePolicy g requested L =
     (let granted = gr_policy g in
      if requested = ReadWriteAccess \<and> sp_access granted = ReadOnly
      then Inl (js ''read-write requested on a read-only grant'')
      else if requested = ReadOnlyAccess \<and> sp_access granted \<noteq> ReadOnly
      then Inr \<lparr>
        sp_access = ReadOnly,
        sp_flags = (\<lambda>f. if f = AllowSearch \<and> (sp_flags granted AllowSearch = Some True \<or> sp_access granted = Admin)
                        then Some True else None),
        sp_maxFileBytes = Some (file_cap g L),
        sp_maxViewportRows = sp_maxViewportRows granted \<rparr>
      else Inr (granted\<lparr>sp_maxFileBytes := Some (file_cap g L)\<rparr>))"

definition reportedAccess :: "access \<Rightarrow> remote_access" where
  "reportedAccess a = (if a = ReadOnly then ReadOnlyAccess else ReadWriteAccess)"

definition GENERIC_MESSAGE :: "reject_code \<Rightarrow> jstring" where
  "GENERIC_MESSAGE c = js (case c of
     ACCESS_DENIED \<Rightarrow> ''access denied'' | LIMIT_EXCEEDED \<Rightarrow> ''session limit reached''
   | SERVER_SHUTTING_DOWN \<Rightarrow> ''server is shutting down'' | INVALID_REQUEST \<Rightarrow> ''invalid open request''
   | VERSION_UNSUPPORTED \<Rightarrow> ''service version not supported'')"

section \<open>Scrubbing\<close>

text \<open>\<open>text.split(credential).join('[credential]')\<close>.\<close>

function split_from :: "jstring \<Rightarrow> jstring \<Rightarrow> jstring \<Rightarrow> jstring list" where
  "split_from c [] acc = [acc]"
| "split_from c (x # xs) acc =
     (if c \<noteq> [] \<and> take (length c) (x # xs) = c then acc # split_from c (drop (length c) (x # xs)) []
      else split_from c xs (acc @ [x]))"
  by pat_completeness auto

termination by (relation "measure (\<lambda>(c, t, acc). length t)") auto

fun join_with :: "jstring \<Rightarrow> jstring list \<Rightarrow> jstring" where
  "join_with sep [] = []"
| "join_with sep [p] = p"
| "join_with sep (p # q # ps) = p @ sep @ join_with sep (q # ps)"

definition scrub :: "jstring \<Rightarrow> jstring option \<Rightarrow> jstring" where
  "scrub text credential =
     (case credential of
        None \<Rightarrow> text
      | Some c \<Rightarrow> if length c = 0 then text else join_with (js ''[credential]'') (split_from c text []))"

section \<open>The session\<close>

datatype remote_state = Opening | Serving | Ended

text \<open>Why an open did not produce a session.\<close>

datatype open_error = OpenRefused reject_code jstring | OpenTimeout | OpenClosed close_code

record accepted_frame =
  ac_requestId :: jstring
  ac_sessionId :: jstring
  ac_workspaceInstanceId :: jstring
  ac_exportId :: jstring
  ac_label :: jstring
  ac_access :: remote_access
  ac_rootCount :: nat
  ac_limits :: limits
  ac_maxFileBytes :: js_float
  ac_heartbeatMs :: int
  ac_idleTimeoutMs :: int
  ac_maxViewportRows :: "int option"

text \<open>What the server puts on the channel: service frames, and the host's own through its view.\<close>

datatype remote_frame =
    PongFrame jsval jsval | PingFrame jstring int | RejectedFrame reject_code jstring "jstring option"
  | AcceptedFrame accepted_frame | HostFrame jsval

text \<open>The context a host is attached with.\<close>

record attach_context =
  at_host :: nat
  at_clientId :: jstring
  at_peerId :: "jstring option"
  at_peerName :: "jstring option"
  at_exportId :: jstring
  at_policy :: session_policy

text \<open>
  The log: \<open>Asked\<close>, \<open>authorize\<close> is called; \<open>Attached\<close>, a host is attached under the grant;
  \<open>Delivered\<close>, a frame reaches the host; \<open>Detached\<close>, the attachment is disposed; the rest are frames
  sent, promises settled, what the logger is told and a rejection nobody handles.
\<close>

datatype remote_event =
    Asked open_request | Attached remote_grant attach_context | Delivered jsval | Detached
  | Sent remote_frame | OpenedResolved | OpenedRejected open_error | ClosedResolved close_code
  | LoggedReason reject_code jstring | UnhandledRejection

record remote_session =
  rm_state :: remote_state
  rm_openSeen :: bool
  rm_waiting :: "open_request option"
  rm_attachment :: bool
  rm_refusal :: "open_error option"
  rm_lastInboundMs :: int
  rm_channelOpen :: bool
  rm_ids :: nat
  rm_instanceIds :: "(nat \<times> jstring) list"
  rm_sends :: nat
  rm_log :: "remote_event list"

text \<open>
  The options, and what the environment decides: whether the channel can close with a code, what its
  \<open>n\<close>-th \<open>send\<close> does (go out, be refused, or break the channel) and the \<open>n\<close>-th identifier.
\<close>

datatype send_outcome = SendGoes | SendRefused | SendBreaks close_code

record remote_options =
  op_limits :: limits
  op_heartbeatMs :: int
  op_idleTimeoutMs :: int
  op_disclose :: bool
  op_canCloseAs :: bool
  op_sends :: "nat \<Rightarrow> send_outcome"
  op_ids :: "nat \<Rightarrow> jstring"

definition new_remote_session :: "int \<Rightarrow> (nat \<times> jstring) list \<Rightarrow> remote_session" where
  "new_remote_session now hosts = \<lparr>
     rm_state = Opening, rm_openSeen = False, rm_waiting = None, rm_attachment = False, rm_refusal = None,
     rm_lastInboundMs = now, rm_channelOpen = True, rm_ids = 1, rm_instanceIds = hosts, rm_sends = 0, rm_log = [] \<rparr>"

definition rm_note :: "remote_event list \<Rightarrow> remote_session \<Rightarrow> remote_session" where
  "rm_note es s = s\<lparr>rm_log := rm_log s @ es\<rparr>"

definition rm_teardown :: "close_code \<Rightarrow> remote_session \<Rightarrow> remote_session" where
  "rm_teardown code s =
     (if rm_state s = Ended then s
      else let wasOpen = (rm_state s = Serving);
               s1 = s\<lparr>rm_state := Ended\<rparr>;
               s2 = (if rm_attachment s1 then rm_note [Detached] (s1\<lparr>rm_attachment := False\<rparr>) else s1);
               s3 = (if \<not> wasOpen
                     then rm_note [OpenedRejected (case rm_refusal s2 of Some e \<Rightarrow> e | None \<Rightarrow> OpenClosed code)] s2
                     else s2)
           in rm_note [ClosedResolved code] s3)"

text \<open>Closing the channel runs its close listeners, \<open>teardown\<close> among them, before it returns.\<close>

definition rm_channel_close :: "close_code \<Rightarrow> remote_session \<Rightarrow> remote_session" where
  "rm_channel_close code s =
     (if \<not> rm_channelOpen s then s else rm_teardown code (s\<lparr>rm_channelOpen := False\<rparr>))"

definition closeChannelAs :: "remote_options \<Rightarrow> close_code \<Rightarrow> remote_session \<Rightarrow> remote_session" where
  "closeChannelAs opts code s = rm_channel_close (if op_canCloseAs opts then code else LOCAL_CLOSE) s"

text \<open>\<open>channel.send\<close>; True: it threw.\<close>

definition rm_channel_send :: "remote_options \<Rightarrow> remote_frame \<Rightarrow> remote_session \<Rightarrow> bool \<times> remote_session" where
  "rm_channel_send opts f s =
     (if \<not> rm_channelOpen s then (True, s)
      else let s1 = s\<lparr>rm_sends := rm_sends s + 1\<rparr>
           in case op_sends opts (rm_sends s) of
                SendGoes \<Rightarrow> (False, rm_note [Sent f] s1)
              | SendRefused \<Rightarrow> (True, s1)
              | SendBreaks code \<Rightarrow> (True, rm_channel_close code s1))"

definition randomId :: "remote_options \<Rightarrow> remote_session \<Rightarrow> jstring \<times> remote_session" where
  "randomId opts s = (op_ids opts (rm_ids s), s\<lparr>rm_ids := rm_ids s + 1\<rparr>)"

definition refuse_close_code :: "reject_code \<Rightarrow> close_code" where
  "refuse_close_code code =
     (if code = ACCESS_DENIED then AUTH_REJECTED
      else if code = INVALID_REQUEST \<or> code = VERSION_UNSUPPORTED then PROTOCOL_ERROR
      else LOCAL_CLOSE)"

definition refuse :: "remote_options \<Rightarrow> reject_code \<Rightarrow> jstring \<Rightarrow> jstring option \<Rightarrow> remote_session \<Rightarrow> remote_session" where
  "refuse opts code internalReason requestId s =
     (if rm_state s \<noteq> Opening then s
      else let s1 = rm_note [LoggedReason code internalReason] s;
               message = (if op_disclose opts then internalReason else GENERIC_MESSAGE code);
               s2 = s1\<lparr>rm_refusal := Some (OpenRefused code message)\<rparr>;
               s3 = snd (rm_channel_send opts (RejectedFrame code message requestId) s2)
           in closeChannelAs opts (refuse_close_code code) s3)"

text \<open>\<open>open\<close> up to its \<open>await\<close>: the request is parsed and \<open>authorize\<close> called.\<close>

definition remote_open :: "remote_options \<Rightarrow> jsval \<Rightarrow> remote_session \<Rightarrow> remote_session" where
  "remote_open opts raw s =
     (case parseOpenRequest raw of
        Throws \<Rightarrow> rm_note [UnhandledRejection] s
      | Problem code message \<Rightarrow> refuse opts code message None s
      | Request r \<Rightarrow> rm_note [Asked r] (s\<lparr>rm_waiting := Some r\<rparr>))"

definition handleService :: "remote_options \<Rightarrow> jsval \<Rightarrow> remote_session \<Rightarrow> remote_session" where
  "handleService opts m s =
     (if field_of m ''type'' = VStr (js ''ping'')
      then snd (rm_channel_send opts (PongFrame (field_of m ''nonce'') (field_of m ''sentAtMs'')) s)
      else if field_of m ''type'' = VStr (js ''open'')
      then if rm_openSeen s then s else remote_open opts m (s\<lparr>rm_openSeen := True\<rparr>)
      else s)"

definition rm_onMessage :: "remote_options \<Rightarrow> int \<Rightarrow> jsval \<Rightarrow> remote_session \<Rightarrow> remote_session" where
  "rm_onMessage opts now m s =
     (if \<not> rm_channelOpen s \<or> rm_state s = Ended then s
      else let s1 = s\<lparr>rm_lastInboundMs := now\<rparr> in
        if isRemoteServiceMessage m then handleService opts m s1
        else if rm_state s1 \<noteq> Serving then closeChannelAs opts PROTOCOL_ERROR s1
        else rm_note [Delivered m] s1)"

definition workspaceInstanceIdFor :: "remote_options \<Rightarrow> nat \<Rightarrow> remote_session \<Rightarrow> jstring \<times> remote_session" where
  "workspaceInstanceIdFor opts host s =
     (case jm_get (rm_instanceIds s) host of
        Some i \<Rightarrow> (i, s)
      | None \<Rightarrow> (case randomId opts s of (i, s1) \<Rightarrow> (i, s1\<lparr>rm_instanceIds := jm_set host i (rm_instanceIds s1)\<rparr>)))"

definition remote_context :: "session_policy \<Rightarrow> session_context" where
  "remote_context p = \<lparr>cx_kind = Some Remote, cx_clientId = None, cx_peerId = None, cx_peerName = None,
     cx_exportId = None, cx_policy = Some p\<rparr>"

text \<open>The session is attached and answered.\<close>

definition rm_accept :: "remote_options \<Rightarrow> open_request \<Rightarrow> remote_grant \<Rightarrow> session_policy \<Rightarrow> remote_session \<Rightarrow> remote_session" where
  "rm_accept opts r g p s =
     (let s1 = rm_note [Attached g \<lparr>at_host = gr_host g, at_clientId = or_instanceId r, at_peerId = gr_peerId g,
                 at_peerName = gr_peerName g, at_exportId = or_exportId r, at_policy = p\<rparr>] s;
          s2 = s1\<lparr>rm_attachment := True, rm_state := Serving\<rparr>;
          (sessionId, s3) = randomId opts s2;
          (instanceId, s4) = (case gr_workspaceInstanceId g of
                                Some i \<Rightarrow> (i, s3) | None \<Rightarrow> workspaceInstanceIdFor opts (gr_host g) s3);
          accepted = \<lparr>ac_requestId = or_requestId r, ac_sessionId = sessionId, ac_workspaceInstanceId = instanceId,
                      ac_exportId = or_exportId r,
                      ac_label = (case gr_label g of Some l \<Rightarrow> l | None \<Rightarrow> or_exportId r),
                      ac_access = reportedAccess (sp_access p),
                      ac_rootCount = (case gr_rootCount g of Some n \<Rightarrow> n | None \<Rightarrow> gr_hostRoots g),
                      ac_limits = op_limits opts,
                      ac_maxFileBytes = (case sp_maxFileBytes p of Some v \<Rightarrow> v
                                         | None \<Rightarrow> Finite (of_int DEFAULT_REMOTE_MAX_FILE_BYTES)),
                      ac_heartbeatMs = op_heartbeatMs opts, ac_idleTimeoutMs = op_idleTimeoutMs opts,
                      ac_maxViewportRows = viewportRowCap (resolveSessionContext (Some (remote_context p)))\<rparr>
      in case rm_channel_send opts (AcceptedFrame accepted) s4 of
           (True, s5) \<Rightarrow> s5
         | (False, s5) \<Rightarrow> rm_note [OpenedResolved] s5)"

text \<open>\<open>open\<close> after its \<open>await\<close>: \<open>authorize\<close> answered, or threw.\<close>

definition rm_authorized :: "remote_options \<Rightarrow> authorize_result \<Rightarrow> remote_session \<Rightarrow> remote_session" where
  "rm_authorized opts verdict s0 =
     (case rm_waiting s0 of
        None \<Rightarrow> s0
      | Some r \<Rightarrow>
        let s = s0\<lparr>rm_waiting := None\<rparr> in
        if rm_state s \<noteq> Opening then s
        else case verdict of
          Grant g \<Rightarrow>
            (case effectivePolicy g (or_requestedAccess r) (op_limits opts) of
               Inl reason \<Rightarrow> refuse opts ACCESS_DENIED reason (Some (or_requestId r)) s
             | Inr p \<Rightarrow>
               (case gr_attach g of
                  AttachThrows detail \<Rightarrow>
                    refuse opts SERVER_SHUTTING_DOWN (js ''host refused the attach: '' @ detail) (Some (or_requestId r)) s
                | AttachOk \<Rightarrow> rm_accept opts r g p s))
        | Refusal c reason \<Rightarrow>
            refuse opts (refusal_code c)
              (scrub (case reason of Some t \<Rightarrow> t | None \<Rightarrow> reject_name (refusal_code c)) (or_credential r))
              (Some (or_requestId r)) s
        | NoGrant \<Rightarrow> refuse opts ACCESS_DENIED (js ''authorize denied the open'') (Some (or_requestId r)) s)"

definition rm_authorize_threw :: "remote_options \<Rightarrow> jstring \<Rightarrow> remote_session \<Rightarrow> remote_session" where
  "rm_authorize_threw opts detail s0 =
     (case rm_waiting s0 of
        None \<Rightarrow> s0
      | Some r \<Rightarrow>
        refuse opts ACCESS_DENIED (scrub (js ''authorize threw: '' @ detail) (or_credential r))
          (Some (or_requestId r)) (s0\<lparr>rm_waiting := None\<rparr>))"

text \<open>The timers.\<close>

definition rm_open_timeout :: "remote_session \<Rightarrow> remote_session" where
  "rm_open_timeout s =
     (if rm_state s \<noteq> Opening then s else rm_channel_close LOCAL_CLOSE (s\<lparr>rm_refusal := Some OpenTimeout\<rparr>))"

definition rm_heartbeat :: "remote_options \<Rightarrow> int \<Rightarrow> remote_session \<Rightarrow> remote_session" where
  "rm_heartbeat opts now s =
     (if op_heartbeatMs opts \<le> 0 \<or> rm_state s \<noteq> Serving then s
      else let idleFor = now - rm_lastInboundMs s in
        if idleFor \<ge> op_idleTimeoutMs opts then rm_channel_close LOCAL_CLOSE s
        else if idleFor \<ge> op_heartbeatMs opts
        then (case randomId opts s of (nonce, s1) \<Rightarrow> snd (rm_channel_send opts (PingFrame nonce now) s1))
        else s)"

datatype remote_op =
    RMessage int jsval | RAuthorized authorize_result | RAuthorizeThrew jstring | ROpenTimeout
  | RHeartbeat int | RPeerClosed close_code | RServerClose | RHostSend jsval | RHostClose

text \<open>The host reaches the channel through its view, which it has while it is attached.\<close>

definition run_remote :: "remote_options \<Rightarrow> remote_op \<Rightarrow> remote_session \<Rightarrow> remote_session" where
  "run_remote opts op s =
     (case op of
        RMessage now m \<Rightarrow> rm_onMessage opts now m s
      | RAuthorized v \<Rightarrow> rm_authorized opts v s
      | RAuthorizeThrew detail \<Rightarrow> rm_authorize_threw opts detail s
      | ROpenTimeout \<Rightarrow> rm_open_timeout s
      | RHeartbeat now \<Rightarrow> rm_heartbeat opts now s
      | RPeerClosed code \<Rightarrow> rm_channel_close code s
      | RServerClose \<Rightarrow> rm_channel_close LOCAL_CLOSE s
      | RHostSend m \<Rightarrow> if rm_attachment s then snd (rm_channel_send opts (HostFrame m) s) else s
      | RHostClose \<Rightarrow> if rm_attachment s then rm_channel_close LOCAL_CLOSE s else s)"

section \<open>The protocol\<close>

text \<open>
  The life of a session as its peers may rely on it, an automaton over the log: first a well-formed
  request, then a grant and the host under the policy it leaves, then explorer frames for that host, and
  at the end the host is let go and \<open>closed\<close> resolves, after \<open>opened\<close> was rejected where no host was
  attached.
\<close>

datatype phase = PFresh | PAsked open_request | PAttached | PServing | PDetached | PRejected | PEnded

fun before_accept :: "phase \<Rightarrow> bool" where
  "before_accept PFresh = True"
| "before_accept (PAsked r) = True"
| "before_accept _ = False"

fun phase_step :: "limits \<Rightarrow> phase \<Rightarrow> remote_event \<Rightarrow> phase option" where
  "phase_step L PFresh (Asked r) = Some (PAsked r)"
| "phase_step L (PAsked r) (Attached g c) =
     (if effectivePolicy g (or_requestedAccess r) L = Inr (at_policy c) \<and> at_exportId c = or_exportId r
         \<and> at_clientId c = or_instanceId r \<and> at_host c = gr_host g
      then Some PAttached else None)"
| "phase_step L PAttached OpenedResolved = Some PServing"
| "phase_step L PAttached Detached = Some PDetached"
| "phase_step L PServing Detached = Some PDetached"
| "phase_step L PFresh (OpenedRejected e) = Some PRejected"
| "phase_step L (PAsked r) (OpenedRejected e) = Some PRejected"
| "phase_step L PDetached (ClosedResolved c) = Some PEnded"
| "phase_step L PRejected (ClosedResolved c) = Some PEnded"
| "phase_step L ph (Delivered m) =
     (if (ph = PAttached \<or> ph = PServing) \<and> \<not> isRemoteServiceMessage m then Some ph else None)"
| "phase_step L ph (Sent f) =
     (if ph = PEnded then None
      else case f of
        HostFrame m \<Rightarrow> if ph = PAttached \<or> ph = PServing then Some ph else None
      | AcceptedFrame a \<Rightarrow> if ph = PAttached then Some ph else None
      | RejectedFrame c m r \<Rightarrow> if before_accept ph then Some ph else None
      | PingFrame n t \<Rightarrow> if ph = PAttached \<or> ph = PServing then Some ph else None
      | PongFrame n t \<Rightarrow> Some ph)"
| "phase_step L ph (LoggedReason c m) = (if before_accept ph then Some ph else None)"
| "phase_step L ph UnhandledRejection = (if ph = PFresh then Some ph else None)"
| "phase_step L ph e = None"

fun phase_run :: "limits \<Rightarrow> phase \<Rightarrow> remote_event list \<Rightarrow> phase option" where
  "phase_run L ph [] = Some ph"
| "phase_run L ph (e # es) = (case phase_step L ph e of None \<Rightarrow> None | Some ph' \<Rightarrow> phase_run L ph' es)"

text \<open>Where a session is in it.\<close>

definition opening_in :: "phase \<Rightarrow> remote_session \<Rightarrow> bool" where
  "opening_in ph s \<longleftrightarrow> rm_state s = Opening \<and> \<not> rm_attachment s \<and> rm_channelOpen s \<and> before_accept ph
     \<and> (rm_openSeen s \<or> ph = PFresh)"

definition serving_in :: "phase \<Rightarrow> remote_session \<Rightarrow> bool" where
  "serving_in ph s \<longleftrightarrow> rm_state s = Serving \<and> rm_attachment s \<and> rm_channelOpen s \<and> rm_openSeen s
     \<and> (ph = PAttached \<or> ph = PServing)"

definition ended_in :: "phase \<Rightarrow> remote_session \<Rightarrow> bool" where
  "ended_in ph s \<longleftrightarrow> rm_state s = Ended \<and> \<not> rm_attachment s \<and> \<not> rm_channelOpen s \<and> ph = PEnded"

definition in_phase :: "phase \<Rightarrow> remote_session \<Rightarrow> bool" where
  "in_phase ph s \<longleftrightarrow>
     (opening_in ph s \<and> ph = (case rm_waiting s of Some r \<Rightarrow> PAsked r | None \<Rightarrow> PFresh))
     \<or> serving_in ph s \<or> ended_in ph s"

definition moves :: "limits \<Rightarrow> phase \<Rightarrow> remote_session \<Rightarrow> phase \<Rightarrow> remote_session \<Rightarrow> bool" where
  "moves L ph s ph' s' \<longleftrightarrow> (\<exists>es. rm_log s' = rm_log s @ es \<and> phase_run L ph es = Some ph')"

lemma phase_run_append:
  "phase_run L ph (es @ es') = (case phase_run L ph es of None \<Rightarrow> None | Some ph' \<Rightarrow> phase_run L ph' es')"
  by (induction es arbitrary: ph) (auto split: option.split)

lemma moves_refl: "rm_log s' = rm_log s \<Longrightarrow> moves L ph s ph s'"
  by (simp add: moves_def)

lemma moves_trans: "moves L ph s ph1 s1 \<Longrightarrow> moves L ph1 s1 ph2 s2 \<Longrightarrow> moves L ph s ph2 s2"
  unfolding moves_def by (auto simp: phase_run_append)

lemma moves_event: "phase_step L ph e = Some ph' \<Longrightarrow> moves L ph s ph' (rm_note [e] s)"
  by (auto simp: moves_def rm_note_def)

lemma rm_note_fields [simp]:
  "rm_state (rm_note es s) = rm_state s" "rm_attachment (rm_note es s) = rm_attachment s"
  "rm_channelOpen (rm_note es s) = rm_channelOpen s" "rm_waiting (rm_note es s) = rm_waiting s"
  "rm_openSeen (rm_note es s) = rm_openSeen s" "rm_log (rm_note es s) = rm_log s @ es"
  "rm_refusal (rm_note es s) = rm_refusal s" "rm_lastInboundMs (rm_note es s) = rm_lastInboundMs s"
  by (simp_all add: rm_note_def)

lemmas phase_defs = opening_in_def serving_in_def ended_in_def

lemma close_moves:
  assumes "opening_in ph s \<or> serving_in ph s"
  shows "moves L ph s PEnded (rm_channel_close c s) \<and> ended_in PEnded (rm_channel_close c s)"
proof (cases "rm_state s = Opening")
  case True
  then have "before_accept ph" using assms by (auto simp: phase_defs)
  then have "phase_step L ph (OpenedRejected e) = Some PRejected" for e by (cases ph) auto
  with assms True show ?thesis
    by (auto simp: rm_channel_close_def rm_teardown_def Let_def moves_def phase_defs)
next
  case False
  then have "phase_step L ph Detached = Some PDetached" using assms by (auto simp: phase_defs)
  with assms False show ?thesis
    by (auto simp: rm_channel_close_def rm_teardown_def Let_def moves_def phase_defs)
qed

lemma send_moves:
  assumes "opening_in ph s \<or> serving_in ph s" "phase_step L ph (Sent f) = Some ph"
  obtains (stays) threw n es where "rm_channel_send opts f s = (threw, s\<lparr>rm_sends := n, rm_log := rm_log s @ es\<rparr>)"
      "phase_run L ph es = Some ph" "es = [] \<or> es = [Sent f]" "threw = (es = [])"
    | (breaks) s' where "rm_channel_send opts f s = (True, s')" "moves L ph s PEnded s'" "ended_in PEnded s'"
proof (cases "op_sends opts (rm_sends s)")
  case SendGoes
  with assms show ?thesis
    by (intro stays [of False "[Sent f]" "rm_sends s + 1"]) (auto simp: rm_channel_send_def phase_defs rm_note_def)
next
  case SendRefused
  with assms show ?thesis
    by (intro stays [of True "[]" "rm_sends s + 1"]) (auto simp: rm_channel_send_def phase_defs)
next
  case (SendBreaks c)
  have "opening_in ph (s\<lparr>rm_sends := n\<rparr>) \<or> serving_in ph (s\<lparr>rm_sends := n\<rparr>)" for n
    using assms(1) by (auto simp: phase_defs)
  from close_moves [OF this] SendBreaks assms show ?thesis
    by (intro breaks [of "rm_channel_close c (s\<lparr>rm_sends := rm_sends s + 1\<rparr>)"])
       (auto simp: rm_channel_send_def phase_defs moves_def)
qed

lemma refuse_moves:
  assumes "opening_in ph s"
  shows "moves L ph s PEnded (refuse opts code reason rid s) \<and> ended_in PEnded (refuse opts code reason rid s)"
proof -
  let ?m = "if op_disclose opts then reason else GENERIC_MESSAGE code"
  let ?s = "(rm_note [LoggedReason code reason] s)\<lparr>rm_refusal := Some (OpenRefused code ?m)\<rparr>"
  have ph: "before_accept ph" using assms by (simp add: phase_defs)
  have s: "opening_in ph ?s" using assms by (simp add: phase_defs)
  have r: "refuse opts code reason rid s
    = closeChannelAs opts (refuse_close_code code) (snd (rm_channel_send opts (RejectedFrame code ?m rid) ?s))"
    using assms by (simp add: refuse_def Let_def phase_defs)
  have l: "moves L ph s ph ?s" using ph by (cases ph) (auto simp: moves_def)
  have "phase_step L ph (Sent (RejectedFrame code ?m rid)) = Some ph" using ph by (cases ph) auto
  with s show ?thesis
  proof (rule send_moves [OF disjI1, where opts = opts])
    fix threw n es
    assume a: "rm_channel_send opts (RejectedFrame code ?m rid) ?s = (threw, ?s\<lparr>rm_sends := n, rm_log := rm_log ?s @ es\<rparr>)"
      "phase_run L ph es = Some ph"
    have o: "opening_in ph (?s\<lparr>rm_sends := n, rm_log := rm_log ?s @ es\<rparr>)" using s by (simp add: phase_defs)
    have "moves L ph ?s ph (?s\<lparr>rm_sends := n, rm_log := rm_log ?s @ es\<rparr>)" using a(2) by (auto simp: moves_def)
    with close_moves [OF disjI1 [OF o], of L] l a(1) show ?thesis
      unfolding r closeChannelAs_def by (auto intro: moves_trans)
  next
    fix s' assume a: "rm_channel_send opts (RejectedFrame code ?m rid) ?s = (True, s')" "moves L ph ?s PEnded s'" "ended_in PEnded s'"
    have "closeChannelAs opts (refuse_close_code code) s' = s'"
      using a(3) by (simp add: closeChannelAs_def rm_channel_close_def phase_defs)
    with a l show ?thesis unfolding r by (auto intro: moves_trans)
  qed
qed

lemma send_keeps_phase:
  assumes "opening_in ph s \<or> serving_in ph s" "phase_step L ph (Sent f) = Some ph" "in_phase ph s"
  shows "\<exists>ph'. moves L ph s ph' (snd (rm_channel_send opts f s)) \<and> in_phase ph' (snd (rm_channel_send opts f s))"
  using assms(1,2)
proof (rule send_moves [where opts = opts])
  fix threw n es
  assume "rm_channel_send opts f s = (threw, s\<lparr>rm_sends := n, rm_log := rm_log s @ es\<rparr>)" "phase_run L ph es = Some ph"
  with assms(3) show ?thesis
    by (intro exI [of _ ph]) (auto simp: moves_def in_phase_def phase_defs)
next
  fix s' assume "rm_channel_send opts f s = (True, s')" "moves L ph s PEnded s'" "ended_in PEnded s'"
  then show ?thesis by (intro exI [of _ PEnded]) (simp add: in_phase_def)
qed

lemma accept_sends:
  assumes "opening_in (PAsked r) s"
  obtains a s4 where
    "rm_accept opts r g p s = (case rm_channel_send opts (AcceptedFrame a) s4 of
       (True, s5) \<Rightarrow> s5 | (False, s5) \<Rightarrow> rm_note [OpenedResolved] s5)"
    "rm_log s4 = rm_log s @ [Attached g \<lparr>at_host = gr_host g, at_clientId = or_instanceId r, at_peerId = gr_peerId g,
                 at_peerName = gr_peerName g, at_exportId = or_exportId r, at_policy = p\<rparr>]"
    "serving_in PAttached s4"
proof -
  define s2 where "s2 = (rm_note [Attached g \<lparr>at_host = gr_host g, at_clientId = or_instanceId r, at_peerId = gr_peerId g,
     at_peerName = gr_peerName g, at_exportId = or_exportId r, at_policy = p\<rparr>] s)\<lparr>rm_attachment := True, rm_state := Serving\<rparr>"
  obtain i s3 where i: "randomId opts s2 = (i, s3)" by force
  obtain w s4 where w: "(case gr_workspaceInstanceId g of
      Some i \<Rightarrow> (i, s3) | None \<Rightarrow> workspaceInstanceIdFor opts (gr_host g) s3) = (w, s4)" by force
  have s3: "s3 = s2\<lparr>rm_ids := rm_ids s2 + 1\<rparr>" using i by (simp add: randomId_def)
  have "rm_log s4 = rm_log s2 \<and> rm_state s4 = rm_state s2 \<and> rm_attachment s4 = rm_attachment s2
      \<and> rm_channelOpen s4 = rm_channelOpen s2 \<and> rm_openSeen s4 = rm_openSeen s2"
    using w by (auto simp: s3 workspaceInstanceIdFor_def randomId_def split: option.splits)
  then have "rm_log s4 = rm_log s2" "serving_in PAttached s4"
    using assms by (simp_all add: s2_def phase_defs)
  with that show ?thesis
    unfolding rm_accept_def s2_def [symmetric] Let_def i prod.case w by (simp add: s2_def)
qed

lemma accept_moves:
  assumes "opening_in (PAsked r) s" "effectivePolicy g (or_requestedAccess r) (op_limits opts) = Inr p"
  shows "\<exists>ph'. moves (op_limits opts) (PAsked r) s ph' (rm_accept opts r g p s) \<and> in_phase ph' (rm_accept opts r g p s)"
proof -
  let ?L = "op_limits opts"
  obtain a s4 where acc: "rm_accept opts r g p s = (case rm_channel_send opts (AcceptedFrame a) s4 of
       (True, s5) \<Rightarrow> s5 | (False, s5) \<Rightarrow> rm_note [OpenedResolved] s5)"
    and log: "rm_log s4 = rm_log s @ [Attached g \<lparr>at_host = gr_host g, at_clientId = or_instanceId r,
      at_peerId = gr_peerId g, at_peerName = gr_peerName g, at_exportId = or_exportId r, at_policy = p\<rparr>]"
    and s4: "serving_in PAttached s4"
    using accept_sends [OF assms(1), of opts g p] by blast
  have m: "moves ?L (PAsked r) s PAttached s4" using assms(2) log by (simp add: moves_def)
  have "phase_step ?L PAttached (Sent (AcceptedFrame a)) = Some PAttached" by simp
  with s4 show ?thesis
  proof (rule send_moves [OF disjI2, where opts = opts])
    fix threw n es
    assume a: "rm_channel_send opts (AcceptedFrame a) s4 = (threw, s4\<lparr>rm_sends := n, rm_log := rm_log s4 @ es\<rparr>)"
      "phase_run ?L PAttached es = Some PAttached" "threw = (es = [])"
    have s5: "moves ?L PAttached s4 PAttached (s4\<lparr>rm_sends := n, rm_log := rm_log s4 @ es\<rparr>)"
      using a(2) by (auto simp: moves_def)
    show ?thesis
    proof (cases threw)
      case True
      with a acc have "rm_accept opts r g p s = s4\<lparr>rm_sends := n, rm_log := rm_log s4 @ es\<rparr>" by simp
      moreover have "in_phase PAttached (s4\<lparr>rm_sends := n, rm_log := rm_log s4 @ es\<rparr>)"
        using s4 by (simp add: in_phase_def phase_defs)
      ultimately show ?thesis using moves_trans [OF m s5] by auto
    next
      case False
      with a acc have e: "rm_accept opts r g p s = rm_note [OpenedResolved] (s4\<lparr>rm_sends := n, rm_log := rm_log s4 @ es\<rparr>)"
        by simp
      moreover have "in_phase PServing (rm_accept opts r g p s)"
        using s4 by (simp add: e in_phase_def phase_defs)
      ultimately show ?thesis
        using moves_trans [OF moves_trans [OF m s5] moves_event [of ?L PAttached OpenedResolved PServing]] by auto
    qed
  next
    fix s' assume "rm_channel_send opts (AcceptedFrame a) s4 = (True, s')" "moves ?L PAttached s4 PEnded s'" "ended_in PEnded s'"
    with acc moves_trans [OF m] show ?thesis by (auto simp: in_phase_def)
  qed
qed

lemma in_phase_touch:
  "in_phase ph s \<Longrightarrow> in_phase ph (s\<lparr>rm_lastInboundMs := t\<rparr>)" "in_phase ph s \<Longrightarrow> in_phase ph (s\<lparr>rm_ids := n\<rparr>)"
  "moves L ph s ph (s\<lparr>rm_lastInboundMs := t\<rparr>)" "moves L ph s ph (s\<lparr>rm_ids := n\<rparr>)"
  by (auto simp: in_phase_def phase_defs moves_def)

lemma moves_after: "rm_log t = rm_log s \<Longrightarrow> moves L ph t ph' u \<Longrightarrow> moves L ph s ph' u"
  by (simp add: moves_def)

lemma moves_after_ex:
  "rm_log t = rm_log s \<Longrightarrow> \<exists>ph'. moves L ph t ph' u \<and> in_phase ph' u \<Longrightarrow> \<exists>ph'. moves L ph s ph' u \<and> in_phase ph' u"
  by (simp add: moves_def)

lemma ended_ex: "moves L ph s PEnded u \<and> ended_in PEnded u \<Longrightarrow> \<exists>ph'. moves L ph s ph' u \<and> in_phase ph' u"
  by (auto simp: in_phase_def)

lemma silent_ex: "rm_log u = rm_log s \<Longrightarrow> in_phase ph u \<Longrightarrow> \<exists>ph'. moves L ph s ph' u \<and> in_phase ph' u"
  by (auto intro: moves_refl)

lemma service_moves:
  assumes "in_phase ph s" "rm_state s \<noteq> Ended"
  shows "\<exists>ph'. moves (op_limits opts) ph s ph' (handleService opts m s) \<and> in_phase ph' (handleService opts m s)"
proof -
  have os: "opening_in ph s \<or> serving_in ph s" using assms by (auto simp: in_phase_def phase_defs)
  have pong: "phase_step L ph (Sent (PongFrame a b)) = Some ph" for L a b
    using os by (cases ph) (auto simp: phase_defs)
  show ?thesis
  proof (cases "field_of m ''type'' = VStr (js ''ping'')")
    case True
    with send_keeps_phase [OF os pong assms(1)] show ?thesis by (simp add: handleService_def)
  next
    case nping: False
    show ?thesis
    proof (cases "field_of m ''type'' = VStr (js ''open'') \<and> \<not> rm_openSeen s")
      case True
      let ?s = "s\<lparr>rm_openSeen := True\<rparr>"
      have h: "handleService opts m s = remote_open opts m ?s" using True nping by (simp add: handleService_def)
      have o: "opening_in PFresh ?s" "ph = PFresh" "rm_waiting s = None"
        using assms True by (auto simp: in_phase_def phase_defs split: option.splits)
      show ?thesis
      proof (cases "parseOpenRequest m")
        case Throws
        then show ?thesis
          using o h by (intro exI [of _ PFresh]) (simp add: remote_open_def moves_def in_phase_def phase_defs)
      next
        case (Problem code t)
        then have "handleService opts m s = refuse opts code t None ?s" using h by (simp add: remote_open_def)
        with moves_after_ex [OF _ ended_ex [OF refuse_moves [OF o(1)]], of s] o(2) show ?thesis by simp
      next
        case (Request r)
        then show ?thesis
          using o h by (intro exI [of _ "PAsked r"]) (simp add: remote_open_def moves_def in_phase_def phase_defs)
      qed
    next
      case False
      then have "handleService opts m s = s" using nping by (simp add: handleService_def)
      then show ?thesis using assms(1) by (auto intro: moves_refl)
    qed
  qed
qed


lemma message_moves:
  assumes "in_phase ph s"
  shows "\<exists>ph'. moves (op_limits opts) ph s ph' (rm_onMessage opts now m s) \<and> in_phase ph' (rm_onMessage opts now m s)"
proof (cases "\<not> rm_channelOpen s \<or> rm_state s = Ended")
  case True
  with assms show ?thesis by (auto simp: rm_onMessage_def intro: moves_refl)
next
  case False
  let ?s = "s\<lparr>rm_lastInboundMs := now\<rparr>"
  have s: "in_phase ph ?s" by (rule in_phase_touch(1) [OF assms])
  show ?thesis
  proof (cases "isRemoteServiceMessage m")
    case True
    then have "rm_onMessage opts now m s = handleService opts m ?s" using False by (simp add: rm_onMessage_def Let_def)
    with moves_after_ex [OF _ service_moves [OF s], of s] False show ?thesis by simp
  next
    case explorer: False
    show ?thesis
    proof (cases "rm_state s = Serving")
      case True
      then have "ph = PAttached \<or> ph = PServing" using assms by (auto simp: in_phase_def phase_defs)
      then have "moves (op_limits opts) ph ?s ph (rm_note [Delivered m] ?s)" "in_phase ph (rm_note [Delivered m] ?s)"
        using explorer s by (auto simp: moves_def in_phase_def phase_defs)
      then have "\<exists>ph'. moves (op_limits opts) ph s ph' (rm_note [Delivered m] ?s) \<and> in_phase ph' (rm_note [Delivered m] ?s)"
        using moves_after_ex [of ?s s "op_limits opts" ph] by (metis in_phase_touch(3) moves_trans)
      with True False explorer show ?thesis by (simp add: rm_onMessage_def Let_def)
    next
      case early: False
      then have "opening_in ph ?s" using s False by (auto simp: in_phase_def phase_defs)
      note ended = moves_after_ex [OF _ ended_ex [OF close_moves [OF disjI1 [OF this]]], of s]
      have "rm_onMessage opts now m s = closeChannelAs opts PROTOCOL_ERROR ?s"
        using early False explorer by (simp add: rm_onMessage_def Let_def)
      with ended show ?thesis by (simp add: closeChannelAs_def)
    qed
  qed
qed

lemma close_any_moves:
  assumes "in_phase ph s"
  shows "\<exists>ph'. moves L ph s ph' (rm_channel_close c s) \<and> in_phase ph' (rm_channel_close c s)"
proof (cases "rm_state s = Ended")
  case True
  with assms show ?thesis by (auto simp: in_phase_def phase_defs rm_channel_close_def intro: moves_refl)
next
  case False
  then have "opening_in ph s \<or> serving_in ph s" using assms by (auto simp: in_phase_def phase_defs)
  from close_moves [OF this] show ?thesis by (auto simp: in_phase_def)
qed

lemma waiting_opening:
  assumes "in_phase ph s" "rm_waiting s = Some r" "rm_state s = Opening"
  shows "opening_in (PAsked r) (s\<lparr>rm_waiting := None\<rparr>)" "ph = PAsked r"
  using assms by (auto simp: in_phase_def phase_defs)

lemma authorized_moves:
  assumes "in_phase ph s"
  shows "\<exists>ph'. moves (op_limits opts) ph s ph' (rm_authorized opts v s) \<and> in_phase ph' (rm_authorized opts v s)"
proof (cases "rm_waiting s")
  case None
  with assms show ?thesis by (auto simp: rm_authorized_def intro: moves_refl)
next
  case (Some r)
  let ?s = "s\<lparr>rm_waiting := None\<rparr>"
  show ?thesis
  proof (cases "rm_state s = Opening")
    case False
    then have "in_phase ph ?s" using assms by (auto simp: in_phase_def phase_defs)
    with silent_ex [of ?s s ph] False Some show ?thesis by (simp add: rm_authorized_def Let_def)
  next
    case True
    note o = waiting_opening [OF assms Some True]
    have refused: "\<exists>ph'. moves (op_limits opts) ph s ph' (refuse opts c t rid ?s) \<and> in_phase ph' (refuse opts c t rid ?s)" for c t rid
      using moves_after_ex [OF _ ended_ex [OF refuse_moves [OF o(1)]], of s] o(2) by simp
    have accepted: "\<exists>ph'. moves (op_limits opts) ph s ph' (rm_accept opts r g p ?s) \<and> in_phase ph' (rm_accept opts r g p ?s)"
      if "effectivePolicy g (or_requestedAccess r) (op_limits opts) = Inr p" for g p
      using moves_after_ex [OF _ accept_moves [OF o(1) that], of s] o(2) by simp
    show ?thesis
      unfolding rm_authorized_def Some option.case Let_def
      using True refused accepted by (auto split: authorize_result.split sum.split attach_result.split)
  qed
qed

lemma run_moves:
  assumes "in_phase ph s"
  shows "\<exists>ph'. moves (op_limits opts) ph s ph' (run_remote opts op s) \<and> in_phase ph' (run_remote opts op s)"
proof (cases op)
  case (RAuthorizeThrew t)
  show ?thesis
  proof (cases "rm_waiting s")
    case (Some r)
    let ?s = "s\<lparr>rm_waiting := None\<rparr>"
    show ?thesis
    proof (cases "rm_state s = Opening")
      case True
      note o = waiting_opening [OF assms Some True]
      show ?thesis
        using moves_after_ex [OF _ ended_ex [OF refuse_moves [OF o(1)]], of s] o(2) RAuthorizeThrew Some
        by (simp add: run_remote_def rm_authorize_threw_def)
    next
      case False
      then have "in_phase ph ?s" using assms by (auto simp: in_phase_def phase_defs)
      with silent_ex [of ?s s ph] False Some RAuthorizeThrew show ?thesis
        by (simp add: run_remote_def rm_authorize_threw_def refuse_def)
    qed
  qed (use assms RAuthorizeThrew in \<open>auto simp: run_remote_def rm_authorize_threw_def intro: moves_refl\<close>)
next
  case ROpenTimeout
  let ?s = "s\<lparr>rm_refusal := Some OpenTimeout\<rparr>"
  have "in_phase ph ?s" using assms by (auto simp: in_phase_def phase_defs)
  from moves_after_ex [OF _ close_any_moves [OF this], of s] ROpenTimeout assms show ?thesis
    by (auto simp: run_remote_def rm_open_timeout_def intro: moves_refl)
next
  case (RHeartbeat now)
  show ?thesis
  proof (cases "rm_state s = Serving")
    case True
    let ?s = "s\<lparr>rm_ids := rm_ids s + 1\<rparr>"
    have ph: "ph = PAttached \<or> ph = PServing" and sv: "serving_in ph ?s"
      using assms True by (auto simp: in_phase_def phase_defs)
    have "phase_step L ph (Sent (PingFrame a b)) = Some ph" for L a b using ph by auto
    from moves_after_ex [OF _ send_keeps_phase [OF disjI2 [OF sv] this in_phase_touch(2) [OF assms]], of s]
    have "\<exists>ph'. moves (op_limits opts) ph s ph' (snd (rm_channel_send opts (PingFrame a b) ?s))
        \<and> in_phase ph' (snd (rm_channel_send opts (PingFrame a b) ?s))" for a b
      by simp
    with True RHeartbeat assms close_any_moves [OF assms] show ?thesis
      by (auto simp: run_remote_def rm_heartbeat_def Let_def randomId_def intro: moves_refl)
  qed (use assms RHeartbeat in \<open>auto simp: run_remote_def rm_heartbeat_def intro: moves_refl\<close>)
next
  case (RHostSend m)
  show ?thesis
  proof (cases "rm_attachment s")
    case True
    then have sv: "serving_in ph s" using assms by (auto simp: in_phase_def phase_defs)
    then have "phase_step (op_limits opts) ph (Sent (HostFrame m)) = Some ph" by (auto simp: phase_defs)
    from send_keeps_phase [OF disjI2 [OF sv] this assms] True RHostSend show ?thesis by (simp add: run_remote_def)
  qed (use assms RHostSend in \<open>auto simp: run_remote_def intro: moves_refl\<close>)
next
  case RHostClose
  with assms close_any_moves [OF assms] show ?thesis by (auto simp: run_remote_def intro: moves_refl)
qed (use message_moves [OF assms] authorized_moves [OF assms] close_any_moves [OF assms] in \<open>simp_all add: run_remote_def\<close>)

lemma session_moves:
  "in_phase ph s \<Longrightarrow>
   \<exists>ph'. moves (op_limits opts) ph s ph' (fold (run_remote opts) ops s) \<and> in_phase ph' (fold (run_remote opts) ops s)"
proof (induction ops arbitrary: ph s)
  case (Cons op ops)
  from run_moves [OF Cons.prems] obtain ph1 where
    "moves (op_limits opts) ph s ph1 (run_remote opts op s)" "in_phase ph1 (run_remote opts op s)" by blast
  with Cons.IH [OF this(2)] show ?case by (auto intro: moves_trans)
qed (auto intro: moves_refl)

section \<open>Scrubbing removes\<close>

lemma sublist_apart:
  assumes "sublist c (xs @ b # ys)" "b \<notin> set c"
  shows "sublist c xs \<or> sublist c ys"
proof -
  obtain p q where e: "xs @ b # ys = p @ c @ q" using assms(1) by (auto simp: sublist_def)
  show ?thesis
  proof (cases "length p + length c \<le> length xs")
    case True
    then have "xs = p @ c @ take (length xs - length p - length c) q"
      using arg_cong [OF e, of "take (length xs)"] by simp
    then show ?thesis by (metis sublist_appendI)
  next
    case False
    have "length p > length xs"
    proof (rule ccontr)
      assume "\<not> ?thesis"
      then have "(p @ c @ q) ! length xs = c ! (length xs - length p)" "length xs - length p < length c"
        using False by (auto simp: nth_append)
      moreover have "(p @ c @ q) ! length xs = b" by (metis e nth_append_length)
      ultimately show False using assms(2) nth_mem by metis
    qed
    then have "drop (Suc (length xs)) (xs @ b # ys) = drop (Suc (length xs)) p @ c @ q" unfolding e by simp
    then have "ys = drop (Suc (length xs)) p @ c @ q" by simp
    then show ?thesis by (metis sublist_appendI)
  qed
qed

definition starts_inside :: "jstring \<Rightarrow> jstring \<Rightarrow> jstring \<Rightarrow> bool" where
  "starts_inside c acc t \<longleftrightarrow> (\<exists>p q. acc @ t = p @ c @ q \<and> length p < length acc)"

lemma piece_clean:
  assumes "c \<noteq> []" "\<not> starts_inside c acc t"
  shows "\<not> sublist c acc"
proof
  assume "sublist c acc"
  then obtain p q where p: "acc = p @ c @ q" by (auto simp: sublist_def)
  then have "acc @ t = p @ c @ (q @ t)" by simp
  moreover have "length p < length acc" using p assms(1) by simp
  ultimately show False using assms(2) unfolding starts_inside_def by blast
qed

lemma pieces_clean:
  "c \<noteq> [] \<Longrightarrow> \<not> starts_inside c acc t \<Longrightarrow> \<forall>p\<in>set (split_from c t acc). \<not> sublist c p"
proof (induction c t acc rule: split_from.induct)
  case (1 c acc)
  then show ?case using piece_clean by simp
next
  case (2 c x xs acc)
  show ?case
  proof (cases "take (length c) (x # xs) = c")
    case True
    have "\<not> starts_inside c [] t" for t by (simp add: starts_inside_def)
    with 2 True piece_clean [OF 2(3,4)] show ?thesis by simp
  next
    case False
    have "\<not> starts_inside c (acc @ [x]) xs"
    proof
      assume "starts_inside c (acc @ [x]) xs"
      then obtain p q where p: "acc @ x # xs = p @ c @ q" "length p \<le> length acc"
        by (auto simp: starts_inside_def)
      show False
      proof (cases "length p = length acc")
        case True
        with p(1) have "x # xs = c @ q" by simp
        with False show False by simp
      next
        case neq: False
        with p 2(4) show False unfolding starts_inside_def by fastforce
      qed
    qed
    with 2 False show ?thesis by simp
  qed
qed

lemma join_clean:
  assumes "91 \<notin> set c" "93 \<notin> set c" "\<not> sublist c (js ''credential'')"
  shows "\<forall>p\<in>set ps. \<not> sublist c p \<Longrightarrow> ps \<noteq> [] \<Longrightarrow> \<not> sublist c (join_with (js ''[credential]'') ps)"
proof (induction "js ''[credential]''" ps rule: join_with.induct)
  case (3 p q ps)
  have sep: "js ''[credential]'' = 91 # js ''credential'' @ [93]" by (simp add: js_def)
  have split: "join_with (js ''[credential]'') (p # q # ps)
    = p @ 91 # (js ''credential'' @ 93 # join_with (js ''[credential]'') (q # ps))"
    by (simp only: join_with.simps sep append_Cons append_assoc append_Nil)
  show ?case
  proof
    assume "sublist c (join_with (js ''[credential]'') (p # q # ps))"
    then have "sublist c p \<or> sublist c (js ''credential'' @ 93 # join_with (js ''[credential]'') (q # ps))"
      unfolding split by (rule sublist_apart) (rule assms(1))
    then have "sublist c p \<or> sublist c (js ''credential'') \<or> sublist c (join_with (js ''[credential]'') (q # ps))"
      using sublist_apart [OF _ assms(2), of "js ''credential''" "join_with (js ''[credential]'') (q # ps)"] by argo
    moreover have "\<not> sublist c (join_with (js ''[credential]'') (q # ps))" using 3 by simp
    ultimately show False using 3(2) assms(3) by simp
  qed
qed simp_all

lemma split_from_nonempty [simp]: "split_from c t acc \<noteq> []"
  by (induction c t acc rule: split_from.induct) auto

section \<open>What a policy leaves\<close>

lemma effective_cases:
  assumes "effectivePolicy g requested L = Inr p"
  shows "sp_maxFileBytes p = Some (file_cap g L) \<and> (requested = ReadOnlyAccess \<longrightarrow> sp_access p = ReadOnly)
    \<and> (requested = ReadWriteAccess \<longrightarrow> sp_access (gr_policy g) \<noteq> ReadOnly)
    \<and> (sp_access p = sp_access (gr_policy g) \<or> sp_access p = ReadOnly)
    \<and> (\<forall>f. sp_flags p f = Some True \<longrightarrow> sp_flags (gr_policy g) f = Some True \<or> sp_access (gr_policy g) = Admin)"
proof (cases "requested = ReadOnlyAccess \<and> sp_access (gr_policy g) \<noteq> ReadOnly")
  case True
  with assms show ?thesis by (auto simp: effectivePolicy_def Let_def split: if_splits)
next
  case False
  with assms have "p = (gr_policy g)\<lparr>sp_maxFileBytes := Some (file_cap g L)\<rparr>"
    "\<not> (requested = ReadWriteAccess \<and> sp_access (gr_policy g) = ReadOnly)"
    by (auto simp: effectivePolicy_def Let_def split: if_splits)
  with False show ?thesis by auto
qed

lemma effective_evaluates:
  assumes "effectivePolicy g requested L = Inr p" "rc_policy ctx = p" "rc_policy ctx' = gr_policy g"
    and "evaluate ctx name gate = Allowed"
  shows "evaluate ctx' name gate = Allowed"
  using effective_cases [OF assms(1)] assms(2-4) unfolding evaluate_allowed by auto

lemma file_cap_bounded:
  assumes "file_cap g L = Finite q"
  shows "q \<le> of_int (frame_cap L)"
  using assms by (auto simp: file_cap_def min_cap_def split: js_float.splits if_splits option.splits)

definition demo_request :: jsval where
  "demo_request = VObj [(js ''service'', VStr REMOTE_SERVICE), (js ''version'', VNum 1), (js ''type'', VStr (js ''open'')),
     (js ''requestId'', VStr (js ''r'')), (js ''exportId'', VStr (js ''e'')), (js ''requestedAccess'', VStr (js ''read-only'')),
     (js ''client'', VObj [(js ''instanceId'', VStr (js ''c'')), (js ''milleVersion'', VStr (js ''1''))])]"

definition demo_open :: open_request where
  "demo_open = \<lparr>or_requestId = js ''r'', or_exportId = js ''e'', or_requestedAccess = ReadOnlyAccess, or_credential = None,
     or_instanceId = js ''c'', or_name = None, or_milleVersion = js ''1'', or_milleTruffleVersion = None\<rparr>"

definition demo_grant :: remote_grant where
  "demo_grant = \<lparr>gr_host = 0, gr_attach = AttachOk, gr_policy = LOCAL_ADMIN_POLICY, gr_unbounded = False, gr_label = None,
     gr_rootCount = Some 1, gr_hostRoots = 1, gr_peerId = None, gr_peerName = None, gr_workspaceInstanceId = Some (js ''w'')\<rparr>"

definition demo_options :: "(nat \<Rightarrow> send_outcome) \<Rightarrow> remote_options" where
  "demo_options sends = \<lparr>op_limits = DEFAULT_LIMITS, op_heartbeatMs = 20000, op_idleTimeoutMs = 60000, op_disclose = False,
     op_canCloseAs = True, op_sends = sends, op_ids = (\<lambda>n. digits n)\<rparr>"

lemma demo_parsed: "parseOpenRequest demo_request = Request demo_open"
  by (simp add: parseOpenRequest_def demo_request_def demo_open_def REMOTE_SERVICE_def REMOTE_SERVICE_VERSION_def
      isNonEmptyString_def export_id_ok_def alnum_def parse_client_def opt_str_def js_def)

section \<open>Properties\<close>

text \<open>
  C7: every remote session follows the protocol. Whatever frames arrive, whatever \<open>authorize\<close> answers and
  when, whatever the timers, the peer, the host and the channel do, in any order: \<open>authorize\<close> is asked at
  most once and only about a well-formed request; a host is attached only after it granted the session,
  once, for the export and client that asked and under exactly the policy the grant leaves; frames reach
  the host only while it is attached, none of them a service frame; and when the channel ends the host is
  let go and \<open>closed\<close> resolves once, \<open>opened\<close> having been rejected where no host was attached.
\<close>

theorem remote_session_protocol:
  "let s = fold (run_remote opts) ops (new_remote_session now hosts)
   in \<exists>ph. phase_run (op_limits opts) PFresh (rm_log s) = Some ph \<and> in_phase ph s"
proof -
  have "in_phase PFresh (new_remote_session now hosts)"
    by (simp add: in_phase_def phase_defs new_remote_session_def)
  from session_moves [OF this, of opts ops] show ?thesis
    by (auto simp: Let_def moves_def new_remote_session_def)
qed



text \<open>
  The credential stays out of logs and refusals. A credential that is not a piece of the word
  \<open>credential\<close> and has no square bracket occurs nowhere in a scrubbed text.
\<close>

theorem scrub_removes_credential:
  assumes "c \<noteq> []" "91 \<notin> set c" "93 \<notin> set c" "\<not> sublist c (js ''credential'')"
  shows "\<not> sublist c (scrub text (Some c))"
proof -
  have "\<not> starts_inside c [] text" by (simp add: starts_inside_def)
  from join_clean [OF assms(2-4) pieces_clean [OF assms(1) this]] assms(1) show ?thesis by (simp add: scrub_def)
qed

theorem scrub_removes_credential_witness:
  "\<not> sublist (js ''t1'') (scrub (js ''bad t1t1!'') (Some (js ''t1'')))"
proof (rule scrub_removes_credential)
  show "\<not> sublist (js ''t1'') (js ''credential'')" by (simp add: js_def sublist_Cons_right)
qed (simp_all add: js_def)

text \<open>
  A credential that is part of the replacement text survives scrubbing, and so do some that have a
  bracket: replacing them makes a new occurrence.
\<close>

theorem scrub_can_restore_credential:
  "sublist (js ''cred'') (scrub (js ''bad cred'') (Some (js ''cred'')))
   \<and> sublist (js ''x['') (scrub (js ''xx[['') (Some (js ''x[''))) "
proof -
  have "scrub (js ''bad cred'') (Some (js ''cred'')) = js ''bad ['' @ js ''cred'' @ js ''ential]''"
    "scrub (js ''xx[['') (Some (js ''x['')) = [] @ js ''x['' @ js ''credential][''"
    by (simp_all add: scrub_def js_def)
  then show ?thesis by (metis sublist_appendI)
qed


text \<open>
  C40: \<open>opened\<close> is left pending for ever when the \<open>accepted\<close> frame cannot be sent. The session is serving
  by then, so the channel's close takes it for one that was opened and neither resolves nor rejects it.
\<close>

theorem failed_accept_strands_opened:
  "let s = fold (run_remote (demo_options (\<lambda>n. SendBreaks BACKPRESSURE)))
             [RMessage t demo_request, RAuthorized (Grant demo_grant)] (new_remote_session now hosts)
   in rm_state s = Ended \<and> OpenedResolved \<notin> set (rm_log s) \<and> (\<forall>e. OpenedRejected e \<notin> set (rm_log s))
      \<and> ClosedResolved BACKPRESSURE \<in> set (rm_log s)"
proof -
  have svc: "isRemoteServiceMessage demo_request" "field_of demo_request ''type'' = VStr (js ''open'')"
    by (simp_all add: isRemoteServiceMessage_def demo_request_def REMOTE_SERVICE_def js_def)
  obtain p where "effectivePolicy demo_grant ReadOnlyAccess DEFAULT_LIMITS = Inr p"
    by (simp add: effectivePolicy_def demo_grant_def LOCAL_ADMIN_POLICY_def)
  then show ?thesis
    by (simp add: run_remote_def rm_onMessage_def svc handleService_def remote_open_def demo_parsed rm_authorized_def
        demo_open_def demo_grant_def demo_options_def rm_accept_def randomId_def rm_channel_send_def rm_channel_close_def
        rm_teardown_def new_remote_session_def rm_note_def Let_def) (simp add: js_def)
qed

end
