(* ===== verification/Explorer_Settings.thy ===== *)
theory Explorer_Settings
  imports Json "HOL-Library.List_Lexorder" "HOL-Library.Multiset"
begin

text \<open>
  The persisted explorer settings (\<open>packages/mille/src/explorer-settings.ts\<close>): parsing of untrusted
  documents into a bounded normal form, serialization, and resolution along global, workspace and root.
  A value is the JSON value it is, an absent property being \<open>undefined\<close>; a property named \<open>__proto__\<close>
  that is assigned sets a prototype and leaves no property. Strings are ordered by code units, as
  \<open>Array.prototype.sort\<close> orders them.
\<close>

section \<open>Settings\<close>

definition SETTINGS_VERSION :: int where
  "SETTINGS_VERSION = 1"

definition limit_workspaces :: nat where
  "limit_workspaces = 128"

definition limit_rootsPerWorkspace :: nat where
  "limit_rootsPerWorkspace = 64"

definition limit_excludeGlobs :: nat where
  "limit_excludeGlobs = 256"

definition limit_nestingPatterns :: nat where
  "limit_nestingPatterns = 256"

definition limit_nestingChildren :: nat where
  "limit_nestingChildren = 64"

definition limit_stringLength :: nat where
  "limit_stringLength = 1024"

datatype sort_by = SortName | SortType | SortModified

type_synonym patterns = "(jstring \<times> jstring list) list"

record resolved_settings =
  rs_sortBy :: sort_by
  rs_caseSensitive :: bool
  rs_locale :: "jstring option"
  rs_foldersOnTop :: bool
  rs_showHiddenFiles :: bool
  rs_showIgnoredFiles :: bool
  rs_compactFolders :: bool
  rs_excludeGlobs :: "jstring list"
  rs_fileNestingPatterns :: patterns

record settings_override =
  so_sortBy :: "sort_by option"
  so_caseSensitive :: "bool option"
  so_locale :: "jstring option option"
  so_foldersOnTop :: "bool option"
  so_showHiddenFiles :: "bool option"
  so_showIgnoredFiles :: "bool option"
  so_compactFolders :: "bool option"
  so_excludeGlobs :: "jstring list option"
  so_fileNestingPatterns :: "patterns option"

record workspace_settings =
  wk_settings :: "settings_override option"
  wk_roots :: "(jstring \<times> settings_override) list"

record settings_document =
  sd_global :: "settings_override option"
  sd_workspaces :: "(jstring \<times> workspace_settings) list"

definition DEFAULT_EXPLORER_SETTINGS :: resolved_settings where
  "DEFAULT_EXPLORER_SETTINGS = \<lparr>
     rs_sortBy = SortName, rs_caseSensitive = False, rs_locale = None, rs_foldersOnTop = True,
     rs_showHiddenFiles = True, rs_showIgnoredFiles = True, rs_compactFolders = True,
     rs_excludeGlobs = [], rs_fileNestingPatterns = [] \<rparr>"

section \<open>Objects\<close>

text \<open>
  Own properties come in a fixed order: array indices ascending, then the other names as they were
  created. \<open>js_order\<close> puts properties created one after the other, with distinct names, into it.
\<close>

definition is_index :: "jstring \<Rightarrow> bool" where
  "is_index k \<longleftrightarrow> k \<noteq> [] \<and> list_all is_digit k \<and> (k = [48] \<or> List.hd k \<noteq> 48) \<and> digit_value k < 4294967295"

definition js_order :: "(jstring \<times> 'a) list \<Rightarrow> (jstring \<times> 'a) list" where
  "js_order kvs = sort_key (\<lambda>kv. digit_value (fst kv)) (filter (\<lambda>kv. is_index (fst kv)) kvs)
     @ filter (\<lambda>kv. \<not> is_index (fst kv)) kvs"

definition proto_name :: jstring where
  "proto_name = js ''__proto__''"

text \<open>\<open>typeof value === 'object' && value !== null && !Array.isArray(value)\<close>.\<close>

fun plain_object :: "json option \<Rightarrow> (jstring \<times> json) list option" where
  "plain_object (Some (JObj kvs)) = Some kvs"
| "plain_object _ = None"

section \<open>Parsing\<close>

fun validString :: "json \<Rightarrow> bool" where
  "validString (JStr s) = (length s > 0 \<and> length s \<le> limit_stringLength \<and> 0 \<notin> set s)"
| "validString _ = False"

fun string_loop :: "nat \<Rightarrow> json list \<Rightarrow> jstring jset \<Rightarrow> jstring jset" where
  "string_loop limit [] out = out"
| "string_loop limit (item # items) out =
     (let out' = (case item of JStr s \<Rightarrow> if validString item then jset_add s out else out | _ \<Rightarrow> out)
      in if length out' \<ge> limit then out' else string_loop limit items out')"

fun stringArray :: "json option \<Rightarrow> nat \<Rightarrow> jstring list option" where
  "stringArray (Some (JArr items)) limit = Some (sort (string_loop limit items []))"
| "stringArray _ limit = None"

text \<open>
  The three loops over the sorted keys of an object: a key that is not a valid string is skipped, as is
  every key once \<open>limit\<close> properties are there; the others are kept where their value parses.
\<close>

fun key_loop :: "nat \<Rightarrow> (json \<Rightarrow> 'a option) \<Rightarrow> (jstring \<times> json) list \<Rightarrow> jstring list \<Rightarrow> (jstring \<times> 'a) list \<Rightarrow> (jstring \<times> 'a) list"
where
  "key_loop limit parse obj [] out = out"
| "key_loop limit parse obj (key # keys) out =
     (if \<not> validString (JStr key) \<or> length out \<ge> limit then key_loop limit parse obj keys out
      else case jm_get obj key of
             None \<Rightarrow> key_loop limit parse obj keys out
           | Some v \<Rightarrow>
             (case parse v of
                None \<Rightarrow> key_loop limit parse obj keys out
              | Some x \<Rightarrow>
                key_loop limit parse obj keys (if key = proto_name then out else out @ [(key, x)])))"

text \<open>\<open>Object.keys\<close>: the names of an object are distinct.\<close>

definition object_keys :: "(jstring \<times> json) list \<Rightarrow> jstring list" where
  "object_keys obj = remdups (map fst obj)"

definition parse_members_of :: "nat \<Rightarrow> (json \<Rightarrow> 'a option) \<Rightarrow> (jstring \<times> json) list \<Rightarrow> (jstring \<times> 'a) list" where
  "parse_members_of limit parse obj = js_order (key_loop limit parse obj (sort (object_keys obj)) [])"

definition nestingPatterns :: "json option \<Rightarrow> patterns option" where
  "nestingPatterns value =
     (case plain_object value of
        None \<Rightarrow> None
      | Some obj \<Rightarrow>
          Some (parse_members_of limit_nestingPatterns (\<lambda>v. stringArray (Some v) limit_nestingChildren) obj))"

definition sort_field :: "json option \<Rightarrow> sort_by option" where
  "sort_field v =
     (if v = Some (JStr (js ''name'')) then Some SortName
      else if v = Some (JStr (js ''type'')) then Some SortType
      else if v = Some (JStr (js ''modified'')) then Some SortModified
      else None)"

fun bool_field :: "json option \<Rightarrow> bool option" where
  "bool_field (Some (JBool b)) = Some b"
| "bool_field _ = None"

fun locale_field :: "json option \<Rightarrow> jstring option option" where
  "locale_field (Some JNull) = Some None"
| "locale_field (Some (JStr s)) = (if validString (JStr s) \<and> length s \<le> 64 then Some (Some s) else None)"
| "locale_field _ = None"

definition override :: "json option \<Rightarrow> settings_override option" where
  "override value =
     (case plain_object value of
        None \<Rightarrow> None
      | Some r \<Rightarrow> Some \<lparr>
          so_sortBy = sort_field (jm_get r (js ''sortBy'')),
          so_caseSensitive = bool_field (jm_get r (js ''caseSensitive'')),
          so_locale = locale_field (jm_get r (js ''locale'')),
          so_foldersOnTop = bool_field (jm_get r (js ''foldersOnTop'')),
          so_showHiddenFiles = bool_field (jm_get r (js ''showHiddenFiles'')),
          so_showIgnoredFiles = bool_field (jm_get r (js ''showIgnoredFiles'')),
          so_compactFolders = bool_field (jm_get r (js ''compactFolders'')),
          so_excludeGlobs = stringArray (jm_get r (js ''excludeGlobs'')) limit_excludeGlobs,
          so_fileNestingPatterns = nestingPatterns (jm_get r (js ''fileNestingPatterns'')) \<rparr>)"

definition workspace :: "json \<Rightarrow> workspace_settings option" where
  "workspace value =
     (case plain_object (Some value) of
        None \<Rightarrow> None
      | Some r \<Rightarrow> Some \<lparr>
          wk_settings = override (jm_get r (js ''settings'')),
          wk_roots =
            (case plain_object (jm_get r (js ''roots'')) of
               None \<Rightarrow> []
             | Some roots \<Rightarrow> parse_members_of limit_rootsPerWorkspace (\<lambda>v. override (Some v)) roots) \<rparr>)"

text \<open>\<open>a ?? b\<close>: null and undefined give way.\<close>

definition nullish :: "json option \<Rightarrow> json option \<Rightarrow> json option" where
  "nullish a b = (case a of None \<Rightarrow> b | Some v \<Rightarrow> if v = JNull then b else Some v)"

definition parse_record :: "(jstring \<times> json) list \<Rightarrow> settings_document option" where
  "parse_record r =
     (let version = jm_get r (js ''version'') in
      if version \<noteq> None \<and> version \<noteq> Some (JNum 0) \<and> version \<noteq> Some (JNum 1) then None
      else Some \<lparr>
        sd_global =
          override (nullish (jm_get r (js ''global''))
            (if version = None \<and> jm_get r (js ''workspaces'') = None then Some (JObj r) else None)),
        sd_workspaces =
          (case plain_object (jm_get r (js ''workspaces'')) of
             None \<Rightarrow> []
           | Some ws \<Rightarrow> parse_members_of limit_workspaces workspace ws) \<rparr>)"

text \<open>A string is parsed first; any other value is taken as it is.\<close>

definition parseExplorerSettings :: "json \<Rightarrow> settings_document option" where
  "parseExplorerSettings input =
     (case (case input of JStr t \<Rightarrow> json_parse t | v \<Rightarrow> Some v) of
        Some (JObj r) \<Rightarrow> parse_record r
      | _ \<Rightarrow> None)"

section \<open>Serialization\<close>

text \<open>The properties a parsed document has, in the order its literals and assignments create them.\<close>

definition field :: "string \<Rightarrow> 'a option \<Rightarrow> ('a \<Rightarrow> json) \<Rightarrow> (jstring \<times> json) list" where
  "field name v f = (case v of None \<Rightarrow> [] | Some x \<Rightarrow> [(js name, f x)])"

definition strings_json :: "jstring list \<Rightarrow> json" where
  "strings_json xs = JArr (map JStr xs)"

definition members_json :: "('a \<Rightarrow> json) \<Rightarrow> (jstring \<times> 'a) list \<Rightarrow> json" where
  "members_json f kvs = JObj (map (\<lambda>(k, x). (k, f x)) kvs)"

definition sort_json :: "sort_by \<Rightarrow> json" where
  "sort_json s = JStr (case s of SortName \<Rightarrow> js ''name'' | SortType \<Rightarrow> js ''type'' | SortModified \<Rightarrow> js ''modified'')"

definition override_json :: "settings_override \<Rightarrow> json" where
  "override_json v =
     JObj (field ''sortBy'' (so_sortBy v) sort_json
       @ field ''caseSensitive'' (so_caseSensitive v) JBool
       @ field ''foldersOnTop'' (so_foldersOnTop v) JBool
       @ field ''showHiddenFiles'' (so_showHiddenFiles v) JBool
       @ field ''showIgnoredFiles'' (so_showIgnoredFiles v) JBool
       @ field ''compactFolders'' (so_compactFolders v) JBool
       @ field ''locale'' (so_locale v) (\<lambda>l. case l of None \<Rightarrow> JNull | Some s \<Rightarrow> JStr s)
       @ field ''excludeGlobs'' (so_excludeGlobs v) strings_json
       @ field ''fileNestingPatterns'' (so_fileNestingPatterns v) (members_json strings_json))"

definition workspace_json :: "workspace_settings \<Rightarrow> json" where
  "workspace_json w =
     JObj (field ''settings'' (wk_settings w) override_json
       @ (if length (wk_roots w) > 0 then [(js ''roots'', members_json override_json (wk_roots w))] else []))"

definition document_json :: "settings_document \<Rightarrow> json" where
  "document_json d =
     JObj ((js ''version'', JNum SETTINGS_VERSION) # field ''global'' (sd_global d) override_json
       @ (if length (sd_workspaces d) > 0
          then [(js ''workspaces'', members_json workspace_json (sd_workspaces d))] else []))"

text \<open>\<open>serializeExplorerSettings\<close>; \<open>None\<close>: it throws.\<close>

definition serializeExplorerSettings :: "json \<Rightarrow> jstring option" where
  "serializeExplorerSettings settings =
     map_option (\<lambda>d. stringify (document_json d)) (parseExplorerSettings settings)"

section \<open>Resolution\<close>

definition merge_patterns :: "patterns \<Rightarrow> patterns \<Rightarrow> patterns" where
  "merge_patterns base next = js_order (fold (\<lambda>(k, v). jm_set k v) next base)"

definition or_else :: "'a option \<Rightarrow> 'a \<Rightarrow> 'a" where
  "or_else v d = (case v of Some x \<Rightarrow> x | None \<Rightarrow> d)"

definition merge_settings :: "resolved_settings \<Rightarrow> settings_override option \<Rightarrow> resolved_settings" where
  "merge_settings base next =
     (case next of
        None \<Rightarrow> base
      | Some n \<Rightarrow> \<lparr>
          rs_sortBy = or_else (so_sortBy n) (rs_sortBy base),
          rs_caseSensitive = or_else (so_caseSensitive n) (rs_caseSensitive base),
          rs_locale = or_else (so_locale n) (rs_locale base),
          rs_foldersOnTop = or_else (so_foldersOnTop n) (rs_foldersOnTop base),
          rs_showHiddenFiles = or_else (so_showHiddenFiles n) (rs_showHiddenFiles base),
          rs_showIgnoredFiles = or_else (so_showIgnoredFiles n) (rs_showIgnoredFiles base),
          rs_compactFolders = or_else (so_compactFolders n) (rs_compactFolders base),
          rs_excludeGlobs = or_else (so_excludeGlobs n) (rs_excludeGlobs base),
          rs_fileNestingPatterns =
            merge_patterns (rs_fileNestingPatterns base) (or_else (so_fileNestingPatterns n) []) \<rparr>)"

text \<open>
  A document is resolved from the value a caller holds: one the parser returned before, or any other.
\<close>

datatype settings_source = NoDocument | Normalized settings_document | RawDocument json

definition resolveExplorerSettings ::
  "settings_source \<Rightarrow> jstring option \<Rightarrow> jstring option \<Rightarrow> resolved_settings"
where
  "resolveExplorerSettings document workspaceKey rootKey =
     (case (case document of
              NoDocument \<Rightarrow> None
            | Normalized d \<Rightarrow> Some d
            | RawDocument v \<Rightarrow> parseExplorerSettings v) of
        None \<Rightarrow> DEFAULT_EXPLORER_SETTINGS
      | Some parsed \<Rightarrow>
        let r1 = merge_settings DEFAULT_EXPLORER_SETTINGS (sd_global parsed);
            selected = (case workspaceKey of None \<Rightarrow> None | Some k \<Rightarrow> jm_get (sd_workspaces parsed) k);
            r2 = merge_settings r1 (case selected of None \<Rightarrow> None | Some w \<Rightarrow> wk_settings w)
        in case rootKey of
             None \<Rightarrow> r2
           | Some k \<Rightarrow> merge_settings r2 (case selected of None \<Rightarrow> None | Some w \<Rightarrow> jm_get (wk_roots w) k))"

section \<open>The normal form\<close>

definition norm_strings :: "nat \<Rightarrow> jstring list \<Rightarrow> bool" where
  "norm_strings limit xs \<longleftrightarrow> sorted xs \<and> distinct xs \<and> length xs \<le> limit \<and> list_all (\<lambda>s. validString (JStr s)) xs"

definition norm_members :: "nat \<Rightarrow> ('a \<Rightarrow> bool) \<Rightarrow> (jstring \<times> 'a) list \<Rightarrow> bool" where
  "norm_members limit ok kvs \<longleftrightarrow>
     kvs = js_order (sort_key fst kvs) \<and> distinct (map fst kvs) \<and> length kvs \<le> limit
     \<and> list_all (\<lambda>(k, x). validString (JStr k) \<and> k \<noteq> proto_name \<and> ok x) kvs"

definition if_present :: "('a \<Rightarrow> bool) \<Rightarrow> 'a option \<Rightarrow> bool" where
  "if_present P v = (case v of None \<Rightarrow> True | Some x \<Rightarrow> P x)"

definition norm_override :: "settings_override \<Rightarrow> bool" where
  "norm_override v \<longleftrightarrow>
     if_present (if_present (\<lambda>s. validString (JStr s) \<and> length s \<le> 64)) (so_locale v)
     \<and> if_present (norm_strings limit_excludeGlobs) (so_excludeGlobs v)
     \<and> if_present (norm_members limit_nestingPatterns (norm_strings limit_nestingChildren)) (so_fileNestingPatterns v)"

definition norm_workspace :: "workspace_settings \<Rightarrow> bool" where
  "norm_workspace w \<longleftrightarrow> if_present norm_override (wk_settings w)
     \<and> norm_members limit_rootsPerWorkspace norm_override (wk_roots w)"

definition norm_document :: "settings_document \<Rightarrow> bool" where
  "norm_document d \<longleftrightarrow> if_present norm_override (sd_global d)
     \<and> norm_members limit_workspaces norm_workspace (sd_workspaces d)"

subsection \<open>What the parser returns is in it\<close>

lemma mset_js_order [simp]: "mset (js_order kvs) = mset kvs"
  unfolding js_order_def by (simp add: multiset_partition [symmetric])

lemma set_js_order [simp]: "set (js_order kvs) = set kvs"
  using mset_js_order by (metis set_mset_mset)

lemma length_js_order [simp]: "length (js_order kvs) = length kvs"
  using mset_js_order by (metis size_mset)

lemma distinct_js_order [simp]: "distinct (map fst (js_order kvs)) = distinct (map fst kvs)"
  using mset_js_order by (metis mset_map mset_eq_imp_distinct_iff)

lemma sort_js_order:
  assumes "sorted (map fst kvs)" "distinct (map fst kvs)"
  shows "sort_key fst (js_order kvs) = kvs"
proof (rule sort_key_inj_key_eq)
  show "inj_on fst (set (js_order kvs))" using assms(2) by (simp add: distinct_map)
qed (use assms in simp_all)

lemma string_loop_props:
  "distinct out \<Longrightarrow> list_all (\<lambda>s. validString (JStr s)) out \<Longrightarrow> length out < limit \<Longrightarrow>
   distinct (string_loop limit items out) \<and> list_all (\<lambda>s. validString (JStr s)) (string_loop limit items out)
   \<and> length (string_loop limit items out) \<le> limit"
proof (induction limit items out rule: string_loop.induct)
  case (2 limit item items out)
  let ?out = "case item of JStr s \<Rightarrow> if validString item then jset_add s out else out | _ \<Rightarrow> out"
  have "distinct ?out \<and> list_all (\<lambda>s. validString (JStr s)) ?out \<and> length ?out \<le> limit"
    using 2 by (auto simp: jset_add_def split: json.split)
  with 2 show ?case by (simp add: Let_def)
qed simp

lemma norm_stringArray:
  assumes "stringArray v limit = Some xs" "0 < limit"
  shows "norm_strings limit xs"
proof -
  obtain items where "xs = sort (string_loop limit items [])"
    using assms(1) by (cases "(v, limit)" rule: stringArray.cases) auto
  with string_loop_props [of "[]" limit items] assms(2) show ?thesis
    by (simp add: norm_strings_def list_all_iff del: validString.simps)
qed

lemma key_loop_props:
  assumes "sorted keys" "distinct keys"
  shows "\<exists>kvs. key_loop limit parse obj keys out = out @ kvs \<and> sorted (map fst kvs) \<and> distinct (map fst kvs)
    \<and> set (map fst kvs) \<subseteq> set keys \<and> (length out \<le> limit \<longrightarrow> length (out @ kvs) \<le> limit)
    \<and> list_all (\<lambda>(k, x). validString (JStr k) \<and> k \<noteq> proto_name \<and> (\<exists>v. parse v = Some x)) kvs"
  using assms
proof (induction keys arbitrary: out)
  case (Cons key keys)
  note IH = Cons.IH [OF sorted_simps(2) [THEN iffD1, OF Cons.prems(1), THEN conjunct2]]
  have keep: ?case if "key_loop limit parse obj (key # keys) out = key_loop limit parse obj keys out"
    using IH [of out] Cons.prems(2) unfolding that by fastforce
  show ?case
  proof (cases "validString (JStr key) \<and> length out < limit \<and> key \<noteq> proto_name")
    case True
    show ?thesis
    proof (cases "Option.bind (jm_get obj key) parse")
      case None
      with True show ?thesis by (intro keep) (auto split: option.split simp: bind_eq_None_conv)
    next
      case (Some x)
      then obtain v where v: "jm_get obj key = Some v" "parse v = Some x" by (auto simp: bind_eq_Some_conv)
      obtain kvs where kvs: "key_loop limit parse obj keys (out @ [(key, x)]) = (out @ [(key, x)]) @ kvs"
        "sorted (map fst kvs)" "distinct (map fst kvs)" "set (map fst kvs) \<subseteq> set keys"
        "length ((out @ [(key, x)]) @ kvs) \<le> limit"
        "list_all (\<lambda>(k, x). validString (JStr k) \<and> k \<noteq> proto_name \<and> (\<exists>v. parse v = Some x)) kvs"
        using IH [of "out @ [(key, x)]"] Cons.prems(2) True by auto
      have "\<forall>k\<in>set (map fst kvs). key \<le> k \<and> key \<noteq> k" using kvs(4) Cons.prems by auto
      with kvs v True show ?thesis
        by (intro exI [of _ "(key, x) # kvs"]) auto
    qed
  next
    case False
    then show ?thesis by (intro keep) (auto split: option.split)
  qed
qed simp

lemma norm_parse_members:
  assumes "\<And>v x. parse v = Some x \<Longrightarrow> ok x"
  shows "norm_members limit ok (parse_members_of limit parse obj)"
proof -
  have "sorted (sort (object_keys obj))" "distinct (sort (object_keys obj))" by (simp_all add: object_keys_def)
  from key_loop_props [OF this, of limit parse obj "[]"] obtain kvs where
    kvs: "key_loop limit parse obj (sort (object_keys obj)) [] = kvs" "sorted (map fst kvs)" "distinct (map fst kvs)"
    "length kvs \<le> limit"
    "list_all (\<lambda>(k, x). validString (JStr k) \<and> k \<noteq> proto_name \<and> (\<exists>v. parse v = Some x)) kvs" by auto
  then show ?thesis
    using assms sort_js_order [OF kvs(2,3)]
    by (auto simp: norm_members_def parse_members_of_def list_all_iff)
qed

lemma norm_nesting: "nestingPatterns v = Some p \<Longrightarrow> norm_members limit_nestingPatterns (norm_strings limit_nestingChildren) p"
  by (auto simp: nestingPatterns_def limit_nestingChildren_def split: option.splits
      intro!: norm_parse_members norm_stringArray)

lemma norm_locale: "locale_field v = Some l \<Longrightarrow> if_present (\<lambda>s. validString (JStr s) \<and> length s \<le> 64) l"
  by (cases v rule: locale_field.cases) (auto simp: if_present_def split: if_splits)

lemma norm_override_parse: "override v = Some x \<Longrightarrow> norm_override x"
  using norm_nesting norm_locale norm_stringArray
  by (auto simp: override_def norm_override_def if_present_def [where v = "locale_field _"]
      if_present_def [where v = "stringArray _ _"] if_present_def [where v = "nestingPatterns _"]
      limit_excludeGlobs_def split: option.splits)

lemma norm_no_members: "norm_members limit ok []"
  by (simp add: norm_members_def js_order_def)

lemma norm_workspace_parse: "workspace v = Some w \<Longrightarrow> norm_workspace w"
  by (auto simp: workspace_def norm_workspace_def if_present_def norm_no_members split: option.splits
      intro!: norm_parse_members norm_override_parse)

lemma norm_parse_record: "parse_record r = Some d \<Longrightarrow> norm_document d"
  by (auto simp: parse_record_def Let_def norm_document_def if_present_def norm_no_members
      split: option.splits if_splits intro!: norm_parse_members norm_override_parse norm_workspace_parse)

lemma parsed_document: "parseExplorerSettings v = Some d \<Longrightarrow> norm_document d"
  by (auto simp: parseExplorerSettings_def split: option.splits json.splits intro: norm_parse_record)

subsection \<open>Parsing a normal form\<close>

lemma string_loop_norm:
  "distinct (out @ xs) \<Longrightarrow> list_all (\<lambda>s. validString (JStr s)) xs \<Longrightarrow> length (out @ xs) \<le> limit \<Longrightarrow>
   string_loop limit (map JStr xs) out = out @ xs"
proof (induction xs arbitrary: out)
  case (Cons x xs)
  then have "string_loop limit (map JStr xs) (out @ [x]) = (out @ [x]) @ xs" by (intro Cons.IH) simp_all
  moreover have "length out + 1 \<ge> limit \<Longrightarrow> xs = []" using Cons.prems(3) by (cases xs) simp_all
  ultimately show ?case using Cons.prems by (auto simp: Let_def jset_add_def)
qed simp

lemma stringArray_norm: "norm_strings limit xs \<Longrightarrow> stringArray (Some (strings_json xs)) limit = Some xs"
  using string_loop_norm [of "[]" xs limit]
  by (simp add: norm_strings_def strings_json_def sorted_sort_id del: validString.simps)

lemma key_loop_norm:
  "list_all (\<lambda>(k, x). validString (JStr k) \<and> k \<noteq> proto_name \<and> Option.bind (jm_get obj k) parse = Some x) kvs \<Longrightarrow>
   length (out @ kvs) \<le> limit \<Longrightarrow> key_loop limit parse obj (map fst kvs) out = out @ kvs"
proof (induction kvs arbitrary: out)
  case (Cons kv kvs)
  obtain k x where kv: "kv = (k, x)" by force
  with Cons.prems obtain v where "jm_get obj k = Some v" "parse v = Some x" by (auto simp: bind_eq_Some_conv)
  with Cons kv show ?case by (simp add: del: validString.simps)
qed simp

lemma parse_members_norm:
  assumes "norm_members limit ok kvs" and "\<And>x. ok x \<Longrightarrow> parse (f x) = Some x"
  shows "\<exists>obj. members_json f kvs = JObj obj \<and> parse_members_of limit parse obj = kvs"
proof -
  let ?obj = "map (\<lambda>(k, x). (k, f x)) kvs"
  let ?kvs = "sort_key fst kvs"
  have d: "distinct (map fst kvs)" and o: "kvs = js_order ?kvs" using assms(1) by (simp_all add: norm_members_def)
  have keys: "map fst ?obj = map fst kvs" by (induction kvs) auto
  have "sort (object_keys ?obj) = map fst ?kvs"
    unfolding object_keys_def keys by (rule properties_for_sort) (use d in \<open>simp_all add: distinct_remdups_id\<close>)
  moreover have "Option.bind (jm_get ?obj k) parse = Some x" if "(k, x) \<in> set kvs" for k x
  proof -
    have "distinct (map fst ?obj)" using d by (simp only: keys)
    then have "jm_get ?obj k = Some (f x)" using that by (intro map_of_is_SomeI) force+
    moreover have "ok x" using that assms(1) by (auto simp: norm_members_def list_all_iff)
    ultimately show ?thesis using assms(2) by simp
  qed
  then have "key_loop limit parse ?obj (map fst ?kvs) [] = [] @ ?kvs"
    using assms(1) by (intro key_loop_norm) (auto simp: norm_members_def list_all_iff simp del: validString.simps)
  ultimately show ?thesis using o by (simp add: members_json_def parse_members_of_def)
qed

lemma code_unit_char [simp]: "(of_char c :: code_unit) = of_char d \<longleftrightarrow> c = d"
proof
  have "(of_char e :: nat) mod 256 < 256" for e by simp
  then have bound: "(of_char e :: nat) < 256" for e by (simp only: of_char_mod_256)
  assume "(of_char c :: code_unit) = of_char d"
  then have "unat (of_nat (of_char c) :: code_unit) = unat (of_nat (of_char d) :: code_unit)"
    by (simp only: of_nat_of_char)
  then have "(of_char c :: nat) = of_char d" using bound [of c] bound [of d] by (simp only: unat_unit)
  then show "c = d" by simp
qed simp

lemma js_eq [simp]: "js a = js b \<longleftrightarrow> a = b"
  unfolding js_def by (rule inj_map_eq_map) (simp add: inj_def)

lemma field_names: "map fst (field n v f) = (if v = None then [] else [js n])"
  by (simp add: field_def split: option.split)

lemma not_field: "n \<noteq> k \<Longrightarrow> js k \<in> set (map fst (field n v f)) \<longleftrightarrow> False"
  by (simp only: field_names) simp

lemma jm_get_field:
  "n \<noteq> k \<Longrightarrow> jm_get (field n v f @ r) (js k) = jm_get r (js k)"
  "js k \<notin> set (map fst r) \<Longrightarrow> jm_get (field k v f @ r) (js k) = map_option f v"
  "jm_get (field n v f) (js k) = (if n = k then map_option f v else None)"
  by (auto simp: field_def map_of_eq_None_iff split: option.split)

lemma field_parsers:
  "sort_field (map_option sort_json s) = s" "bool_field (map_option JBool b) = b"
proof -
  show "sort_field (map_option sort_json s) = s"
  proof (cases s)
    case (Some x)
    then show ?thesis by (cases x) (simp_all add: sort_field_def sort_json_def)
  qed (simp add: sort_field_def)
  show "bool_field (map_option JBool b) = b" by (cases b) simp_all
qed

lemma locale_parser:
  "if_present (if_present (\<lambda>s. validString (JStr s) \<and> length s \<le> 64)) v \<Longrightarrow>
   locale_field (map_option (\<lambda>l. case l of None \<Rightarrow> JNull | Some s \<Rightarrow> JStr s) v) = v"
  by (auto simp: if_present_def split: option.splits)

lemma strings_parser:
  "if_present (norm_strings limit) v \<Longrightarrow> stringArray (map_option strings_json v) limit = v"
  by (cases v) (simp_all add: if_present_def stringArray_norm)

lemma patterns_parser:
  "if_present (norm_members limit_nestingPatterns (norm_strings limit_nestingChildren)) v \<Longrightarrow>
   nestingPatterns (map_option (members_json strings_json) v) = v"
proof (cases v)
  case (Some p)
  assume "if_present (norm_members limit_nestingPatterns (norm_strings limit_nestingChildren)) v"
  with Some have "norm_members limit_nestingPatterns (norm_strings limit_nestingChildren) p"
    by (simp add: if_present_def)
  from parse_members_norm [OF this, of "\<lambda>v. stringArray (Some v) limit_nestingChildren" strings_json]
    stringArray_norm Some show ?thesis
    by (fastforce simp: nestingPatterns_def)
qed (simp add: nestingPatterns_def)

lemma override_norm:
  assumes "norm_override v"
  shows "override (Some (override_json v)) = Some v"
  using assms
  by (simp add: override_def override_json_def jm_get_field field_parsers norm_override_def
      locale_parser strings_parser patterns_parser not_field del: map_of_append set_map)

lemma workspace_norm:
  assumes "norm_workspace w"
  shows "workspace (workspace_json w) = Some w"
proof -
  have "norm_members limit_rootsPerWorkspace norm_override (wk_roots w)" using assms by (simp add: norm_workspace_def)
  from parse_members_norm [OF this override_norm] obtain obj where
    obj: "members_json override_json (wk_roots w) = JObj obj"
      "parse_members_of limit_rootsPerWorkspace (\<lambda>v. override (Some v)) obj = wk_roots w" by blast
  have "override (map_option override_json (wk_settings w)) = wk_settings w"
    using assms override_norm by (cases "wk_settings w") (simp_all add: norm_workspace_def if_present_def override_def)
  with obj show ?thesis
    by (auto simp: workspace_def workspace_json_def jm_get_field not_field simp del: map_of_append set_map split: option.splits)
qed

lemma document_norm:
  assumes "norm_document d"
  shows "parseExplorerSettings (document_json d) = Some d"
proof -
  have "norm_members limit_workspaces norm_workspace (sd_workspaces d)" using assms by (simp add: norm_document_def)
  from parse_members_norm [OF this workspace_norm] obtain obj where
    obj: "members_json workspace_json (sd_workspaces d) = JObj obj"
      "parse_members_of limit_workspaces workspace obj = sd_workspaces d" by blast
  have g: "override (nullish (map_option override_json (sd_global d)) None) = sd_global d"
    using assms override_norm
    by (cases "sd_global d") (simp_all add: norm_document_def if_present_def override_def nullish_def override_json_def)
  from g obj show ?thesis
    by (auto simp: parseExplorerSettings_def document_json_def parse_record_def jm_get_field
        SETTINGS_VERSION_def Let_def not_field simp del: map_of_append set_map split: option.splits)
qed

text \<open>The JSON of a normal form survives the text.\<close>

lemma members_json_ok:
  assumes "norm_members limit ok kvs" "\<And>x. ok x \<Longrightarrow> json_ok (f x)"
  shows "json_ok (members_json f kvs)"
proof -
  have keys: "map fst (map (\<lambda>(k, x). (k, f x)) kvs) = map fst kvs" by (induction kvs) auto
  have "distinct (map fst (map (\<lambda>(k, x). (k, f x)) kvs))" unfolding keys using assms(1) by (simp add: norm_members_def)
  moreover have "list_all (\<lambda>(k, v). json_ok v) (map (\<lambda>(k, x). (k, f x)) kvs)"
    using assms by (auto simp: norm_members_def list_all_iff)
  ultimately show ?thesis by (simp add: members_json_def)
qed

lemma strings_json_ok: "json_ok (strings_json xs)"
  by (simp add: strings_json_def list_all_iff)

lemma field_ok:
  "list_all (\<lambda>(k, v). json_ok v) (field n v f) \<longleftrightarrow> if_present (\<lambda>x. json_ok (f x)) v"
  by (auto simp: field_def if_present_def split: option.split)

lemma override_json_ok:
  assumes "norm_override v"
  shows "json_ok (override_json v)"
proof -
  have "if_present (\<lambda>x. json_ok (members_json strings_json x)) (so_fileNestingPatterns v)"
    using assms strings_json_ok members_json_ok by (fastforce simp: norm_override_def if_present_def split: option.splits)
  moreover have "if_present (\<lambda>l. json_ok (case l of None \<Rightarrow> JNull | Some s \<Rightarrow> JStr s)) x" for x
    by (simp add: if_present_def split: option.split)
  ultimately show ?thesis
    by (simp add: override_json_def field_ok field_names strings_json_ok) (simp add: if_present_def sort_json_def split: option.split)
qed

lemma workspace_json_ok:
  assumes "norm_workspace w"
  shows "json_ok (workspace_json w)"
  using assms members_json_ok [of limit_rootsPerWorkspace norm_override "wk_roots w" override_json]
  by (auto simp: workspace_json_def norm_workspace_def field_ok field_names if_present_def override_json_ok
      simp del: set_map split: option.splits)

lemma document_json_ok:
  assumes "norm_document d"
  shows "json_ok (document_json d)"
  using assms members_json_ok [of limit_workspaces norm_workspace "sd_workspaces d" workspace_json]
  by (auto simp: document_json_def norm_document_def field_ok field_names if_present_def override_json_ok workspace_json_ok
      simp del: set_map split: option.splits)

section \<open>Layers\<close>

text \<open>The overrides that apply, the outermost first.\<close>

definition layers :: "settings_document \<Rightarrow> jstring option \<Rightarrow> jstring option \<Rightarrow> settings_override list" where
  "layers d workspaceKey rootKey =
     (let selected = Option.bind workspaceKey (jm_get (sd_workspaces d))
      in List.map_filter (\<lambda>x. x)
           [sd_global d, Option.bind selected wk_settings,
            Option.bind rootKey (\<lambda>k. Option.bind selected (\<lambda>w. jm_get (wk_roots w) k))])"

text \<open>What the innermost layer that sets something sets it to.\<close>

definition innermost :: "(settings_override \<Rightarrow> 'a option) \<Rightarrow> settings_override list \<Rightarrow> 'a option" where
  "innermost sel ls = Option.bind (find (\<lambda>l. sel l \<noteq> None) (rev ls)) sel"

definition pattern_of :: "jstring \<Rightarrow> settings_override \<Rightarrow> jstring list option" where
  "pattern_of k l = Option.bind (so_fileNestingPatterns l) (\<lambda>p. jm_get p k)"

lemma innermost_simps [simp]:
  "innermost sel [] = None"
  "innermost sel (ls @ [l]) = (case sel l of Some x \<Rightarrow> Some x | None \<Rightarrow> innermost sel ls)"
  by (auto simp: innermost_def split: option.split)

definition merge_all :: "settings_override list \<Rightarrow> resolved_settings" where
  "merge_all ls = fold (\<lambda>l r. merge_settings r (Some l)) ls DEFAULT_EXPLORER_SETTINGS"

lemma resolve_merges: "resolveExplorerSettings (Normalized d) wk rk = merge_all (layers d wk rk)"
  by (auto simp: resolveExplorerSettings_def layers_def merge_all_def Let_def map_filter_def merge_settings_def
      split: option.split)

lemma jm_get_js_order:
  assumes "jm_wf kvs"
  shows "jm_get (js_order kvs) k = jm_get kvs k"
proof (rule option.expand)
  show "(jm_get (js_order kvs) k = None) = (jm_get kvs k = None)" by (simp add: map_of_eq_None_iff)
  assume "jm_get (js_order kvs) k \<noteq> None"
  then obtain v where v: "jm_get (js_order kvs) k = Some v" by blast
  from map_of_SomeD [OF v] assms show "the (jm_get (js_order kvs) k) = the (jm_get kvs k)"
    by (simp add: v jm_wf_def)
qed

lemma jm_wf_js_order [simp]: "jm_wf (js_order kvs) = jm_wf kvs"
  by (simp add: jm_wf_def)

lemma merge_all_snoc: "merge_all (ls @ [l]) = merge_settings (merge_all ls) (Some l)"
  by (simp add: merge_all_def)

lemma or_else_or_else: "or_else v (or_else w d) = or_else (case v of Some x \<Rightarrow> Some x | None \<Rightarrow> w) d"
  by (simp add: or_else_def split: option.split)

lemma merge_all_scalars:
  "rs_sortBy (merge_all ls) = or_else (innermost so_sortBy ls) SortName
   \<and> rs_caseSensitive (merge_all ls) = or_else (innermost so_caseSensitive ls) False
   \<and> rs_locale (merge_all ls) = or_else (innermost so_locale ls) None
   \<and> rs_foldersOnTop (merge_all ls) = or_else (innermost so_foldersOnTop ls) True
   \<and> rs_showHiddenFiles (merge_all ls) = or_else (innermost so_showHiddenFiles ls) True
   \<and> rs_showIgnoredFiles (merge_all ls) = or_else (innermost so_showIgnoredFiles ls) True
   \<and> rs_compactFolders (merge_all ls) = or_else (innermost so_compactFolders ls) True
   \<and> rs_excludeGlobs (merge_all ls) = or_else (innermost so_excludeGlobs ls) []"
proof (induction ls rule: rev_induct)
  case Nil
  then show ?case by (simp add: merge_all_def DEFAULT_EXPLORER_SETTINGS_def or_else_def)
next
  case (snoc l ls)
  then show ?case by (simp add: merge_all_snoc merge_settings_def or_else_or_else)
qed

lemma merge_all_patterns:
  assumes "list_all norm_override ls"
  shows "jm_wf (rs_fileNestingPatterns (merge_all ls))
    \<and> jm_get (rs_fileNestingPatterns (merge_all ls)) k = innermost (pattern_of k) ls"
  using assms
proof (induction ls rule: rev_induct)
  case (snoc l ls)
  let ?base = "rs_fileNestingPatterns (merge_all ls)"
  let ?next = "or_else (so_fileNestingPatterns l) []"
  have d: "distinct (map fst ?next)"
    using snoc.prems by (auto simp: norm_override_def if_present_def norm_members_def or_else_def split: option.split)
  have IH: "jm_wf ?base" "jm_get ?base k = innermost (pattern_of k) ls" using snoc by simp_all
  have "jm_wf (fold (\<lambda>(k, v). jm_set k v) ?next ?base)" using jm_wf_fold_set [OF IH(1)] .
  moreover have "jm_get (fold (\<lambda>(k, v). jm_set k v) ?next ?base) k
      = (case jm_get ?next k of Some v \<Rightarrow> Some v | None \<Rightarrow> innermost (pattern_of k) ls)"
    unfolding jm_get_fold_set [OF d] IH(2) ..
  moreover have "jm_get ?next k = pattern_of k l" by (simp add: pattern_of_def or_else_def split: option.split)
  ultimately show ?case
    by (simp add: merge_all_snoc merge_settings_def merge_patterns_def jm_get_js_order)
qed (simp add: merge_all_def DEFAULT_EXPLORER_SETTINGS_def)

lemma norm_lookup: "norm_members limit ok kvs \<Longrightarrow> jm_get kvs k = Some x \<Longrightarrow> ok x"
  by (auto simp: norm_members_def list_all_iff dest!: map_of_SomeD)

lemma norm_layers: "norm_document d \<Longrightarrow> list_all norm_override (layers d wk rk)"
  by (auto simp: norm_document_def layers_def Let_def map_filter_def norm_workspace_def if_present_def
      bind_eq_Some_conv dest: norm_lookup split: option.splits) (auto dest!: norm_lookup simp: norm_workspace_def if_present_def)

definition sample_settings :: json where
  "sample_settings = JObj [(js ''global'', JObj [(js ''sortBy'', JStr (js ''type'')), (js ''compactFolders'', JBool False)]),
     (js ''workspaces'', JObj [(js ''w'', JObj [(js ''settings'', JObj [(js ''compactFolders'', JBool True)])])])]"

definition plain_override :: settings_override where
  "plain_override = \<lparr>so_sortBy = None, so_caseSensitive = None, so_locale = None, so_foldersOnTop = None,
     so_showHiddenFiles = None, so_showIgnoredFiles = None, so_compactFolders = None, so_excludeGlobs = None,
     so_fileNestingPatterns = None\<rparr>"

definition sample_document :: settings_document where
  "sample_document = \<lparr>sd_global = Some (plain_override\<lparr>so_sortBy := Some SortType, so_compactFolders := Some False\<rparr>),
     sd_workspaces = [(js ''w'', \<lparr>wk_settings = Some (plain_override\<lparr>so_compactFolders := Some True\<rparr>), wk_roots = []\<rparr>)]\<rparr>"

lemma sample_parsed: "parseExplorerSettings sample_settings = Some sample_document"
proof -
  have "validString (JStr (js ''w''))" "js ''w'' \<noteq> proto_name"
    by (simp_all add: js_def limit_stringLength_def proto_name_def)
  then have "key_loop limit_workspaces workspace [(js ''w'', v)] (sort (object_keys [(js ''w'', v)])) []
      = (case workspace v of None \<Rightarrow> [] | Some x \<Rightarrow> [(js ''w'', x)])" for v
    by (simp add: object_keys_def limit_workspaces_def split: option.split)
  moreover have "js_order [(js ''w'', x)] = [(js ''w'', x)]" for x :: workspace_settings by (simp add: js_order_def)
  ultimately show ?thesis
    by (simp add: parseExplorerSettings_def sample_settings_def sample_document_def parse_record_def Let_def nullish_def
        override_def sort_field_def nestingPatterns_def parse_members_of_def workspace_def plain_override_def)
qed

section \<open>Properties\<close>

text \<open>
  C20: settings survive being stored. Whatever was parsed, serializing the result gives a text, and
  parsing that text, or the result itself again, gives the same document: parsing normalizes, and
  normal forms are fixed points of storing and loading.
\<close>

theorem settings_roundtrip:
  assumes "parseExplorerSettings input = Some d"
  shows "parseExplorerSettings (document_json d) = Some d
    \<and> (\<exists>text. serializeExplorerSettings (document_json d) = Some text
         \<and> parseExplorerSettings (JStr text) = Some d)"
proof -
  have n: "norm_document d" by (rule parsed_document [OF assms])
  have p: "parseExplorerSettings (document_json d) = Some d" by (rule document_norm [OF n])
  moreover have "parseExplorerSettings (JStr (stringify (document_json d))) = parseExplorerSettings (document_json d)"
    using json_roundtrip [OF document_json_ok [OF n]] by (simp add: parseExplorerSettings_def document_json_def)
  ultimately show ?thesis by (simp add: serializeExplorerSettings_def)
qed

theorem settings_roundtrip_witness:
  "parseExplorerSettings sample_settings = Some sample_document
   \<and> parseExplorerSettings (document_json sample_document) = Some sample_document"
  using settings_roundtrip [OF sample_parsed] sample_parsed by blast

text \<open>
  A parsed document is bounded whatever was read: at most 128 workspaces of at most 64 roots each,
  every override with at most 256 exclude globs and 256 nesting patterns of at most 64 children,
  sorted, without duplicates, and all of it strings of 1 to 1024 code units without NUL.
\<close>

theorem settings_bounded:
  assumes "parseExplorerSettings input = Some d"
  shows "norm_document d"
  by (rule parsed_document [OF assms])

theorem settings_bounded_witness:
  "norm_document sample_document"
  by (rule settings_bounded [OF sample_parsed])

text \<open>
  Settings resolve from the inside out. With the layers that apply to a workspace and root being the
  global override, the workspace's and the root's, every setting of the resolved settings is that of the
  innermost layer that has it, or the default; nesting patterns do so pattern by pattern.
\<close>

theorem settings_resolve_innermost:
  assumes "parseExplorerSettings input = Some d"
  shows "let r = resolveExplorerSettings (RawDocument input) wk rk; ls = layers d wk rk in
      rs_sortBy r = or_else (innermost so_sortBy ls) SortName
    \<and> rs_caseSensitive r = or_else (innermost so_caseSensitive ls) False
    \<and> rs_locale r = or_else (innermost so_locale ls) None
    \<and> rs_foldersOnTop r = or_else (innermost so_foldersOnTop ls) True
    \<and> rs_showHiddenFiles r = or_else (innermost so_showHiddenFiles ls) True
    \<and> rs_showIgnoredFiles r = or_else (innermost so_showIgnoredFiles ls) True
    \<and> rs_compactFolders r = or_else (innermost so_compactFolders ls) True
    \<and> rs_excludeGlobs r = or_else (innermost so_excludeGlobs ls) []
    \<and> jm_get (rs_fileNestingPatterns r) k = innermost (pattern_of k) ls"
proof -
  have "resolveExplorerSettings (RawDocument input) wk rk = merge_all (layers d wk rk)"
    using assms resolve_merges [of d wk rk] by (simp add: resolveExplorerSettings_def)
  moreover have "list_all norm_override (layers d wk rk)"
    by (rule norm_layers [OF parsed_document [OF assms]])
  ultimately show ?thesis
    using merge_all_scalars [of "layers d wk rk"] merge_all_patterns [of "layers d wk rk" k] by (simp add: Let_def)
qed

theorem settings_resolve_innermost_witness:
  "rs_sortBy (resolveExplorerSettings (RawDocument sample_settings) (Some (js ''w'')) None) = SortType
   \<and> rs_compactFolders (resolveExplorerSettings (RawDocument sample_settings) (Some (js ''w'')) None)"
proof -
  have l: "layers sample_document (Some (js ''w'')) None
     = [plain_override\<lparr>so_sortBy := Some SortType, so_compactFolders := Some False\<rparr>,
        plain_override\<lparr>so_compactFolders := Some True\<rparr>]"
    by (simp add: layers_def sample_document_def map_filter_def)
  let ?r = "resolveExplorerSettings (RawDocument sample_settings) (Some (js ''w'')) None"
  have "rs_sortBy ?r = or_else (innermost so_sortBy (layers sample_document (Some (js ''w'')) None)) SortName"
    "rs_compactFolders ?r = or_else (innermost so_compactFolders (layers sample_document (Some (js ''w'')) None)) True"
    using settings_resolve_innermost [OF sample_parsed, of "Some (js ''w'')" None "[]"] by (simp_all only: Let_def)
  then show ?thesis by (simp add: l innermost_def or_else_def plain_override_def del: split_paired_Ex) auto
qed

text \<open>
  A document that names the pre-release version 0 is accepted and its flat settings are dropped: the
  flat form is read only where no version is named at all.
\<close>

theorem version_zero_settings_dropped:
  "parseExplorerSettings (JObj [(js ''version'', JNum 0), (js ''sortBy'', JStr (js ''type''))])
     = Some \<lparr>sd_global = None, sd_workspaces = []\<rparr>
   \<and> parseExplorerSettings (JObj [(js ''sortBy'', JStr (js ''type''))])
     = Some \<lparr>sd_global = Some (plain_override\<lparr>so_sortBy := Some SortType\<rparr>), sd_workspaces = []\<rparr>"
  by (simp add: parseExplorerSettings_def parse_record_def Let_def nullish_def override_def sort_field_def
      nestingPatterns_def plain_override_def)

end
