(* ===== verification/Tree_Projection.thy ===== *)
theory Tree_Projection
  imports Mirror_Snapshot
begin

text \<open>
  The tree widget's view of a snapshot (\<open>packages/mille-ui/src/hooks/treeProjection.ts\<close>): the
  flattened rows are read in windows, the complete order only on demand, and the position of an id is
  searched in chunks of 256 rows around a hint. The snapshot is the interface
  \<open>FileTreeSnapshotLike\<close> (\<open>components/types.ts\<close>), a record of functions here, with the optional
  methods as options; \<open>mirror_like\<close> is the production snapshot of Mirror_Snapshot behind it.

  Offsets, limits, hints and budgets are integers of either sign (\<open>Math.trunc\<close> of an integer is the
  integer; \<open>NaN\<close> and infinities are left out). The closures of a projection share two mutable
  variables, \<open>cachedWindow\<close> and \<open>cachedAllRows\<close>: they are fields of the record, and every read returns
  the projection it leaves. Sets and engines are compared by identity, which the number beside the
  value stands for.
\<close>

section \<open>The snapshot interface\<close>

record tree_snapshot =
  ts_treeVersion :: int
  ts_projectionVersion :: "int option"
  ts_visibleRowCount :: "int jset \<Rightarrow> nat \<times> int jset"
  ts_visibleRows :: "visible_rows_options \<Rightarrow> snap_row list"
  ts_visibleRowIds :: "(visible_rows_options \<Rightarrow> int list) option"
  ts_visibleRowIndex :: "(int \<Rightarrow> int jset \<Rightarrow> nat option) option"

text \<open>A set object: its identity and its members.\<close>

type_synonym set_ref = "nat \<times> int jset"

record tree_projection =
  tp_snapshot :: tree_snapshot
  tp_source :: "nat option"
  tp_treeVersion :: int
  tp_projectionVersion :: int
  tp_expanded :: set_ref
  tp_known :: nat
  tp_pending :: "int jset"
  tp_cachedWindow :: "(int \<times> int \<times> snap_row list) option"
  tp_cachedAllRows :: "snap_row list option"

definition readTreeProjection ::
  "tree_snapshot \<Rightarrow> set_ref \<Rightarrow> tree_projection option \<Rightarrow> nat option \<Rightarrow> tree_projection" where
  "readTreeProjection snapshot expd previous source =
     (let version = (case ts_projectionVersion snapshot of Some v \<Rightarrow> v | None \<Rightarrow> ts_treeVersion snapshot);
          visibleCount = ts_visibleRowCount snapshot (snd expd);
          fresh = \<lparr> tp_snapshot = snapshot, tp_source = source,
            tp_treeVersion = ts_treeVersion snapshot, tp_projectionVersion = version,
            tp_expanded = expd, tp_known = fst visibleCount, tp_pending = snd visibleCount,
            tp_cachedWindow = None,
            tp_cachedAllRows = (if fst visibleCount = 0 then Some [] else None) \<rparr>
      in case previous of
           None \<Rightarrow> fresh
         | Some p \<Rightarrow>
             if tp_source p = source \<and> tp_treeVersion p = ts_treeVersion snapshot
                \<and> tp_projectionVersion p = version \<and> fst (tp_expanded p) = fst expd
             then p else fresh)"

section \<open>Windows\<close>

definition window_opts :: "tree_projection \<Rightarrow> int \<Rightarrow> int \<Rightarrow> visible_rows_options" where
  "window_opts p offset limit =
     \<lparr> vo_offset = nat offset, vo_limit = nat limit, vo_expanded = snd (tp_expanded p),
       vo_includeIgnored = None \<rparr>"

definition safeOffset :: "tree_projection \<Rightarrow> int \<Rightarrow> int" where
  "safeOffset p offset = max 0 (min (int (tp_known p)) offset)"

definition safeLimit :: "tree_projection \<Rightarrow> int \<Rightarrow> int \<Rightarrow> int" where
  "safeLimit p offset limit = max 0 (min (int (tp_known p) - safeOffset p offset) limit)"

definition slice_rows :: "'a list \<Rightarrow> int \<Rightarrow> int \<Rightarrow> 'a list" where
  "slice_rows rows offset limit = take (nat limit) (drop (nat offset) rows)"

definition readRows :: "tree_projection \<Rightarrow> int \<Rightarrow> int \<Rightarrow> snap_row list \<times> tree_projection" where
  "readRows p offset limit =
     (let off = safeOffset p offset; len = safeLimit p offset limit
      in if len = 0 then ([], p)
         else case tp_cachedAllRows p of
           Some rows \<Rightarrow> (slice_rows rows off len, p)
         | None \<Rightarrow>
             (case tp_cachedWindow p of
                Some (o', l', rows) \<Rightarrow>
                  if o' = off \<and> l' = len then (rows, p)
                  else let rows' = ts_visibleRows (tp_snapshot p) (window_opts p off len)
                       in (rows', p\<lparr>tp_cachedWindow := Some (off, len, rows')\<rparr>)
              | None \<Rightarrow>
                  let rows' = ts_visibleRows (tp_snapshot p) (window_opts p off len)
                  in (rows', p\<lparr>tp_cachedWindow := Some (off, len, rows')\<rparr>)))"

definition readIds :: "tree_projection \<Rightarrow> int \<Rightarrow> int \<Rightarrow> int list \<times> tree_projection" where
  "readIds p offset limit =
     (let off = safeOffset p offset; len = safeLimit p offset limit
      in if len = 0 then ([], p)
         else case tp_cachedAllRows p of
           Some rows \<Rightarrow> (map ce_id (slice_rows rows off len), p)
         | None \<Rightarrow>
             (case ts_visibleRowIds (tp_snapshot p) of
                Some ids \<Rightarrow> (ids (window_opts p off len), p)
              | None \<Rightarrow> map_prod (map ce_id) (\<lambda>q. q) (readRows p off len)))"

definition readAllRows :: "tree_projection \<Rightarrow> snap_row list \<times> tree_projection" where
  "readAllRows p =
     (case tp_cachedAllRows p of
        Some rows \<Rightarrow> (rows, p)
      | None \<Rightarrow>
          let rows = ts_visibleRows (tp_snapshot p) (window_opts p 0 (int (tp_known p)))
          in (rows, p\<lparr>tp_cachedAllRows := Some rows\<rparr>))"

section \<open>Search\<close>

text \<open>\<open>Array.findIndex\<close> on the row ids: the first position, or -1.\<close>

fun findIndex_from :: "int \<Rightarrow> int \<Rightarrow> snap_row list \<Rightarrow> int" where
  "findIndex_from n i [] = -1"
| "findIndex_from n i (row # rows) = (if ce_id row = i then n else findIndex_from (n + 1) i rows)"

definition findIndex :: "int \<Rightarrow> snap_row list \<Rightarrow> int" where
  "findIndex i rows = findIndex_from 0 i rows"

definition chunkSize :: int where "chunkSize = 256"

text \<open>The variables the inner function \<open>probe\<close> shares with the loop.\<close>

record probe_state =
  pb_proj :: tree_projection
  pb_visited :: "int jset"
  pb_probedRows :: int

definition probe :: "int \<Rightarrow> int \<Rightarrow> int \<Rightarrow> probe_state \<Rightarrow> int \<times> probe_state" where
  "probe i maxProbeRows rawStart s =
     (let known = int (tp_known (pb_proj s));
          start = max 0 (min (known - 1) rawStart)
      in if start \<in> set (pb_visited s) \<or> pb_probedRows s \<ge> maxProbeRows then (-1, s)
         else let limit = min (min chunkSize (known - start)) (maxProbeRows - pb_probedRows s);
                  (rows, p) = readRows (pb_proj s) start limit;
                  localIndex = findIndex i rows
              in (if localIndex = -1 then -1 else start + localIndex,
                  \<lparr> pb_proj = p, pb_visited = jset_add start (pb_visited s),
                    pb_probedRows = pb_probedRows s + limit \<rparr>))"

function probe_loop :: "int \<Rightarrow> int \<Rightarrow> int \<Rightarrow> int \<Rightarrow> int \<Rightarrow> probe_state \<Rightarrow> int \<times> probe_state" where
  "probe_loop i maxProbeRows known baseStart distance s =
     (if \<not> pb_probedRows s < maxProbeRows then (-1, s)
      else let (found, s1) = probe i maxProbeRows (baseStart + distance) s
      in if found \<noteq> -1 then (found, s1)
         else let (found, s2) = probe i maxProbeRows (baseStart - distance) s1
      in if found \<noteq> -1 then (found, s2)
         else if baseStart + distance \<ge> known \<and> baseStart - distance \<le> 0 then (-1, s2)
         else probe_loop i maxProbeRows known baseStart (distance + chunkSize) s2)"
  by pat_completeness auto

termination
  by (relation "measure (\<lambda>(i, maxProbeRows, known, baseStart, distance, s).
        nat (max (known - baseStart) baseStart - distance))")
     (auto simp: chunkSize_def)

declare probe_loop.simps [simp del]

definition base_start :: "int \<Rightarrow> int \<Rightarrow> int" where
  "base_start known hintIndex =
     max 0 (min (known - chunkSize) (max 0 (min (known - 1) hintIndex) - chunkSize div 2))"

definition findRowIndex :: "tree_projection \<Rightarrow> int \<Rightarrow> int \<Rightarrow> int \<Rightarrow> int \<times> tree_projection" where
  "findRowIndex p i hintIndex maxProbeRows =
     (if tp_known p = 0 \<or> maxProbeRows \<le> 0 then (-1, p)
      else case tp_cachedAllRows p of
        Some rows \<Rightarrow> (findIndex i rows, p)
      | None \<Rightarrow>
          let known = int (tp_known p); baseStart = base_start known hintIndex;
              (found, s) = probe i maxProbeRows baseStart
                \<lparr> pb_proj = p, pb_visited = [], pb_probedRows = 0 \<rparr>
          in if found \<noteq> -1 then (found, pb_proj s)
             else map_prod (\<lambda>r. r) pb_proj (probe_loop i maxProbeRows known baseStart chunkSize s))"

definition findExactRowIndex :: "tree_projection \<Rightarrow> int \<Rightarrow> int \<Rightarrow> int \<times> tree_projection" where
  "findExactRowIndex p i hintIndex =
     (case tp_cachedAllRows p of
        Some rows \<Rightarrow> (findIndex i rows, p)
      | None \<Rightarrow>
          (case ts_visibleRowIndex (tp_snapshot p) of
             Some index \<Rightarrow>
               (case index i (snd (tp_expanded p)) of Some n \<Rightarrow> int n | None \<Rightarrow> -1, p)
           | None \<Rightarrow> findRowIndex p i hintIndex (int (tp_known p))))"

text \<open>The default of \<open>maxProbeRows\<close>.\<close>

definition defaultProbeRows :: int where "defaultProbeRows = 16384"

text \<open>The calls a component makes on its projection, for statements about sequences of them.\<close>

datatype proj_call =
    ReadRows int int
  | ReadIds int int
  | ReadAllRows
  | FindRow int int int
  | FindExactRow int int

fun proj_step :: "proj_call \<Rightarrow> tree_projection \<Rightarrow> tree_projection" where
  "proj_step (ReadRows offset limit) p = snd (readRows p offset limit)"
| "proj_step (ReadIds offset limit) p = snd (readIds p offset limit)"
| "proj_step ReadAllRows p = snd (readAllRows p)"
| "proj_step (FindRow i hint mx) p = snd (findRowIndex p i hint mx)"
| "proj_step (FindExactRow i hint) p = snd (findExactRowIndex p i hint)"

section \<open>The production snapshot\<close>

text \<open>
  \<open>ClientMirrorSnapshot\<close> behind the interface. Its answers do not depend on the order cache
  (Mirror_Snapshot), so every read starts from an empty one; on a mirror with a cycle the count does
  not return, which the value \<open>(0, [])\<close> only stands in for.
\<close>

definition mirror_like :: "mirror \<Rightarrow> tree_snapshot" where
  "mirror_like m = \<lparr>
     ts_treeVersion = treeVersion m, ts_projectionVersion = Some (projectionVersion m),
     ts_visibleRowCount =
       (\<lambda>expd. case visibleRowCount m expd False of Some c \<Rightarrow> c | None \<Rightarrow> (0, [])),
     ts_visibleRows = (\<lambda>opts. fst (visibleRows m [] opts)),
     ts_visibleRowIds = Some (\<lambda>opts. fst (visibleRowIds m [] opts)),
     ts_visibleRowIndex =
       Some (\<lambda>i expd. case visibleRowIndex m [] i expd False of Some r \<Rightarrow> fst r | None \<Rightarrow> None) \<rparr>"

section \<open>What a projection relies on\<close>

lemma slice_rows_0 [simp]: "slice_rows rows offset 0 = []"
  by (simp add: slice_rows_def)

lemma findIndex_from_shift:
  "findIndex_from n i rows = (if findIndex_from 0 i rows = -1 then -1 else n + findIndex_from 0 i rows)
   \<and> findIndex_from 0 i rows \<ge> -1" if "n \<ge> 0"
  using that
proof (induction rows arbitrary: n)
  case (Cons r rows)
  from Cons.IH [of 1] Cons.IH [OF Cons.prems] Cons.IH [of "n + 1"] Cons.prems show ?case by auto
qed simp

lemma findIndex_Cons:
  "findIndex i (row # rows) =
     (if ce_id row = i then 0 else if findIndex i rows = -1 then -1 else 1 + findIndex i rows)"
  using findIndex_from_shift [of 1 i rows] by (simp add: findIndex_def)

lemma findIndex_Nil [simp]: "findIndex i [] = -1"
  by (simp add: findIndex_def)

lemma findIndex_ge: "findIndex i rows \<ge> -1"
  using findIndex_from_shift [of 0 i rows] by (simp add: findIndex_def)

lemma findIndex_none: "findIndex i rows = -1 \<longleftrightarrow> i \<notin> ce_id ` set rows"
proof (induction rows)
  case (Cons row rows)
  then show ?case using findIndex_ge [of i rows] by (auto simp: findIndex_Cons)
qed simp

lemma findIndex_first:
  "findIndex i rows = (case first_index i (map ce_id rows) of Some n \<Rightarrow> int n | None \<Rightarrow> -1)"
  by (induction rows) (auto simp: findIndex_Cons split: option.splits)

lemma findIndex_some:
  assumes "findIndex i rows \<noteq> -1"
  shows "0 \<le> findIndex i rows \<and> nat (findIndex i rows) < length rows
    \<and> ce_id (rows ! nat (findIndex i rows)) = i"
  using assms
proof (induction rows)
  case (Cons row rows)
  then show ?case using findIndex_ge [of i rows] by (auto simp: findIndex_Cons nat_add_distrib split: if_splits)
qed simp

text \<open>
  The contract of a snapshot: for states the snapshot is sound in, there is one flattened list of rows
  per expanded set; every window is a slice of it, the ids are the ids of the same slice, the index is
  the first position, and the count does not exceed the length.
\<close>

locale flat_snapshot =
  fixes snap :: "'s \<Rightarrow> tree_snapshot"
    and ok :: "'s \<Rightarrow> int jset \<Rightarrow> bool"
    and flat :: "'s \<Rightarrow> int jset \<Rightarrow> snap_row list"
  assumes rows_window: "ok s (vo_expanded opts) \<Longrightarrow> vo_includeIgnored opts = None \<Longrightarrow>
      ts_visibleRows (snap s) opts =
        take (vo_limit opts) (drop (vo_offset opts) (flat s (vo_expanded opts)))"
    and ids_window: "ok s (vo_expanded opts) \<Longrightarrow> vo_includeIgnored opts = None \<Longrightarrow>
      ts_visibleRowIds (snap s) = Some ids \<Longrightarrow>
      ids opts = map ce_id (take (vo_limit opts) (drop (vo_offset opts) (flat s (vo_expanded opts))))"
    and index_first: "ok s expd \<Longrightarrow> ts_visibleRowIndex (snap s) = Some index \<Longrightarrow>
      index i expd = first_index i (map ce_id (flat s expd))"
    and count_bound: "ok s expd \<Longrightarrow> fst (ts_visibleRowCount (snap s) expd) \<le> length (flat s expd)"
begin

text \<open>The rows a projection can show: as many of the flattened rows as the count says.\<close>

definition shown :: "'s \<Rightarrow> tree_projection \<Rightarrow> snap_row list" where
  "shown s p = take (tp_known p) (flat s (snd (tp_expanded p)))"

definition views :: "'s \<Rightarrow> tree_projection \<Rightarrow> bool" where
  "views s p \<longleftrightarrow>
     tp_snapshot p = snap s \<and> ok s (snd (tp_expanded p))
   \<and> tp_known p \<le> length (flat s (snd (tp_expanded p)))
   \<and> (\<forall>rows. tp_cachedAllRows p = Some rows \<longrightarrow> rows = shown s p)
   \<and> (\<forall>off len rows. tp_cachedWindow p = Some (off, len, rows) \<longrightarrow>
        rows = slice_rows (flat s (snd (tp_expanded p))) off len)"

text \<open>Two projections that differ in their caches only.\<close>

definition alike :: "tree_projection \<Rightarrow> tree_projection \<Rightarrow> bool" where
  "alike p q \<longleftrightarrow> tp_snapshot p = tp_snapshot q \<and> tp_source p = tp_source q
     \<and> tp_treeVersion p = tp_treeVersion q \<and> tp_projectionVersion p = tp_projectionVersion q
     \<and> tp_expanded p = tp_expanded q \<and> tp_known p = tp_known q \<and> tp_pending p = tp_pending q"

lemma alike_refl [simp]: "alike p p"
  by (simp add: alike_def)

lemma alike_trans: "alike p q \<Longrightarrow> alike q r \<Longrightarrow> alike p r"
  by (simp add: alike_def)

lemma alike_known: "alike p q \<Longrightarrow> tp_known q = tp_known p"
  by (simp add: alike_def)

lemma alike_shown: "alike p q \<Longrightarrow> shown s q = shown s p"
  by (simp add: alike_def shown_def)

lemma length_shown [simp]: "views s p \<Longrightarrow> length (shown s p) = tp_known p"
  by (simp add: views_def shown_def)

lemma fresh_views:
  "ok s (snd expd) \<Longrightarrow> views s (readTreeProjection (snap s) expd None source)"
  using count_bound [of s "snd expd"]
  by (auto simp: views_def readTreeProjection_def Let_def shown_def)

lemma slice_shown:
  assumes "views s p"
  shows "slice_rows (flat s (snd (tp_expanded p))) (safeOffset p offset) (safeLimit p offset limit) =
    slice_rows (shown s p) (safeOffset p offset) (safeLimit p offset limit)"
proof -
  have "nat (safeLimit p offset limit) \<le> tp_known p - nat (safeOffset p offset)"
    by (auto simp: safeLimit_def safeOffset_def)
  then show ?thesis by (simp add: slice_rows_def shown_def drop_take min_absorb1)
qed

lemma window_rows:
  assumes "views s p"
  shows "ts_visibleRows (tp_snapshot p) (window_opts p off len) =
    slice_rows (flat s (snd (tp_expanded p))) off len"
  using assms rows_window [of s "window_opts p off len"]
  by (simp add: views_def window_opts_def slice_rows_def)

lemma readRows_window:
  assumes "views s p"
  shows "fst (readRows p offset limit) =
      slice_rows (shown s p) (safeOffset p offset) (safeLimit p offset limit)
    \<and> views s (snd (readRows p offset limit)) \<and> alike p (snd (readRows p offset limit))"
    (is "_ = slice_rows _ ?off ?len \<and> _")
proof -
  note fl = slice_shown [OF assms, of offset limit]
  have all: "tp_cachedAllRows p = Some rows \<Longrightarrow> rows = shown s p" for rows
    using assms by (simp add: views_def)
  have win: "tp_cachedWindow p = Some (?off, ?len, rows) \<Longrightarrow> rows = slice_rows (shown s p) ?off ?len"
    for rows using assms fl by (simp add: views_def)
  have new: "ts_visibleRows (tp_snapshot p) (window_opts p ?off ?len) = slice_rows (shown s p) ?off ?len"
    by (simp add: window_rows [OF assms] fl)
  have upd: "views s (p\<lparr>tp_cachedWindow := Some (?off, ?len, slice_rows (shown s p) ?off ?len)\<rparr>)"
    using assms by (auto simp: views_def shown_def fl [unfolded shown_def])
  show ?thesis
    using assms upd all win
    by (auto simp: readRows_def Let_def new alike_def split: option.splits)
qed

lemma readAllRows_shown:
  assumes "views s p"
  shows "fst (readAllRows p) = shown s p \<and> views s (snd (readAllRows p)) \<and> alike p (snd (readAllRows p))"
  using assms window_rows [OF assms, of 0 "int (tp_known p)"]
  by (auto simp: readAllRows_def Let_def views_def shown_def slice_rows_def alike_def split: option.splits)

lemma safeOffset_idem: "safeOffset p (safeOffset p offset) = safeOffset p offset"
  by (simp add: safeOffset_def)

lemma safeLimit_idem:
  "safeLimit p (safeOffset p offset) (safeLimit p offset limit) = safeLimit p offset limit"
  by (auto simp: safeLimit_def safeOffset_idem)

lemma readIds_window:
  assumes "views s p"
  shows "fst (readIds p offset limit) = map ce_id (fst (readRows p offset limit))
    \<and> views s (snd (readIds p offset limit)) \<and> alike p (snd (readIds p offset limit))"
proof -
  let ?off = "safeOffset p offset" and ?len = "safeLimit p offset limit"
  have ids: "ids (window_opts p ?off ?len) = map ce_id (slice_rows (shown s p) ?off ?len)"
    if "ts_visibleRowIds (snap s) = Some ids" for ids
    using assms that ids_window [of s "window_opts p ?off ?len" ids]
    by (simp add: views_def window_opts_def slice_rows_def slice_shown [OF assms, unfolded slice_rows_def])
  have sn: "tp_snapshot p = snap s" "\<And>rows. tp_cachedAllRows p = Some rows \<Longrightarrow> rows = shown s p"
    using assms by (simp_all add: views_def)
  note rr = readRows_window [OF assms, of offset limit]
    readRows_window [OF assms, of "safeOffset p offset" "safeLimit p offset limit"]
  show ?thesis
    using assms rr ids sn
    by (auto simp: readIds_def Let_def safeOffset_idem safeLimit_idem
        split: option.splits)
qed


subsection \<open>The search\<close>

text \<open>No row from \<open>lo\<close> up to \<open>hi\<close> has the id.\<close>

definition absent :: "'s \<Rightarrow> tree_projection \<Rightarrow> int \<Rightarrow> int \<Rightarrow> int \<Rightarrow> bool" where
  "absent s p i lo hi \<longleftrightarrow> (\<forall>j. lo \<le> j \<and> j < hi \<longrightarrow> ce_id (shown s p ! nat j) \<noteq> i)"

definition at_row :: "'s \<Rightarrow> tree_projection \<Rightarrow> int \<Rightarrow> int \<Rightarrow> bool" where
  "at_row s p i r \<longleftrightarrow> 0 \<le> r \<and> r < int (tp_known p) \<and> ce_id (shown s p ! nat r) = i"

lemma readRows_at:
  assumes "views s p" "0 \<le> start" "0 \<le> len" "start + len \<le> int (tp_known p)"
  shows "fst (readRows p start len) = slice_rows (shown s p) start len"
  using assms readRows_window [of s p start len] by (simp add: safeOffset_def safeLimit_def)

lemma slice_at:
  assumes "views s p" "0 \<le> start" "0 \<le> len" "start + len \<le> int (tp_known p)"
  shows "findIndex i (slice_rows (shown s p) start len) = -1 \<longleftrightarrow> absent s p i start (start + len)"
    and "findIndex i (slice_rows (shown s p) start len) \<noteq> -1 \<Longrightarrow>
      at_row s p i (start + findIndex i (slice_rows (shown s p) start len))"
proof -
  let ?rows = "slice_rows (shown s p) start len"
  have len: "length ?rows = nat len"
    using assms by (simp add: slice_rows_def)
  have nth: "?rows ! j = shown s p ! (nat start + j)" if "j < nat len" for j
    using assms that by (simp add: slice_rows_def)
  have "i \<in> ce_id ` set ?rows \<longleftrightarrow> (\<exists>j < nat len. ce_id (shown s p ! (nat start + j)) = i)"
    unfolding set_conv_nth using len nth by (auto simp: image_iff)
  also have "\<dots> \<longleftrightarrow> (\<exists>j. start \<le> j \<and> j < start + len \<and> ce_id (shown s p ! nat j) = i)"
  proof
    assume "\<exists>j < nat len. ce_id (shown s p ! (nat start + j)) = i"
    then obtain j where "j < nat len" "ce_id (shown s p ! (nat start + j)) = i" by blast
    then show "\<exists>j. start \<le> j \<and> j < start + len \<and> ce_id (shown s p ! nat j) = i"
      using assms(2) by (intro exI [of _ "start + int j"]) (simp add: nat_add_distrib)
  next
    assume "\<exists>j. start \<le> j \<and> j < start + len \<and> ce_id (shown s p ! nat j) = i"
    then obtain j where "start \<le> j" "j < start + len" "ce_id (shown s p ! nat j) = i" by blast
    then show "\<exists>j < nat len. ce_id (shown s p ! (nat start + j)) = i"
      using assms(2) by (intro exI [of _ "nat (j - start)"]) (simp add: nat_add_distrib [symmetric])
  qed
  finally show "findIndex i ?rows = -1 \<longleftrightarrow> absent s p i start (start + len)"
    by (auto simp: findIndex_none absent_def)
  assume "findIndex i ?rows \<noteq> -1"
  from findIndex_some [OF this] len nth [of "nat (findIndex i ?rows)"] assms(2,4)
  show "at_row s p i (start + findIndex i ?rows)"
    by (auto simp: at_row_def nat_add_distrib)
qed

definition probe_start :: "int \<Rightarrow> int \<Rightarrow> int" where
  "probe_start known raw = max 0 (min (known - 1) raw)"

definition probe_limit :: "int \<Rightarrow> int \<Rightarrow> int \<Rightarrow> int \<Rightarrow> int" where
  "probe_limit known maxProbe probed start = min (min 256 (known - start)) (maxProbe - probed)"

lemma probe_eq:
  assumes "st = probe_start (int (tp_known (pb_proj b))) raw"
    and "len = probe_limit (int (tp_known (pb_proj b))) mx (pb_probedRows b) st"
    and "rr = readRows (pb_proj b) st len"
  shows "probe i mx raw b =
    (if st \<in> set (pb_visited b) \<or> pb_probedRows b \<ge> mx then (-1, b)
     else (if findIndex i (fst rr) = -1 then -1 else st + findIndex i (fst rr),
           \<lparr> pb_proj = snd rr, pb_visited = jset_add st (pb_visited b),
             pb_probedRows = pb_probedRows b + len \<rparr>))"
  unfolding assms probe_def probe_start_def probe_limit_def chunkSize_def
  by (simp add: Let_def case_prod_beta)

lemma probe_step:
  assumes "views s (pb_proj b)" "tp_known (pb_proj b) > 0" "probe i mx raw b = (r, b')"
    and st: "st = probe_start (int (tp_known (pb_proj b))) raw"
    and len: "len = probe_limit (int (tp_known (pb_proj b))) mx (pb_probedRows b) st"
  shows "views s (pb_proj b') \<and> alike (pb_proj b) (pb_proj b')"
    and "r \<noteq> -1 \<Longrightarrow> at_row s (pb_proj b) i r"
    and "r = -1 \<Longrightarrow>
      (if st \<in> set (pb_visited b) \<or> pb_probedRows b \<ge> mx then b' = b
       else set (pb_visited b') = insert st (set (pb_visited b))
        \<and> pb_probedRows b' = pb_probedRows b + len \<and> absent s (pb_proj b) i st (st + len))"
proof -
  let ?K = "int (tp_known (pb_proj b))" and ?rr = "readRows (pb_proj b) st len"
  have st0: "0 \<le> st" "st < ?K" using assms(2) st by (auto simp: probe_start_def)
  note eq = probe_eq [OF st len refl, of i, unfolded assms(3)]
  note keep = readRows_window [OF assms(1), of st len]
  show "views s (pb_proj b') \<and> alike (pb_proj b) (pb_proj b')"
    using eq keep assms(1) by (cases "st \<in> set (pb_visited b) \<or> pb_probedRows b \<ge> mx") auto
  have found: "findIndex i (fst ?rr) = -1 \<longleftrightarrow> absent s (pb_proj b) i st (st + len)"
      "findIndex i (fst ?rr) \<noteq> -1 \<Longrightarrow> at_row s (pb_proj b) i (st + findIndex i (fst ?rr))"
    if "\<not> pb_probedRows b \<ge> mx"
  proof -
    have "0 \<le> len" "st + len \<le> ?K" using st0 that len by (auto simp: probe_limit_def)
    note s = readRows_at [OF assms(1) st0(1) this] slice_at [OF assms(1) st0(1) this, of i]
    show "findIndex i (fst ?rr) = -1 \<longleftrightarrow> absent s (pb_proj b) i st (st + len)"
      using s by simp
    show "findIndex i (fst ?rr) \<noteq> -1 \<Longrightarrow> at_row s (pb_proj b) i (st + findIndex i (fst ?rr))"
      using s by simp
  qed
  show "at_row s (pb_proj b) i r" if "r \<noteq> -1"
    using that eq found by (auto split: if_splits)
  show "if st \<in> set (pb_visited b) \<or> pb_probedRows b \<ge> mx then b' = b
       else set (pb_visited b') = insert st (set (pb_visited b))
        \<and> pb_probedRows b' = pb_probedRows b + len \<and> absent s (pb_proj b) i st (st + len)"
    if "r = -1"
    using that eq found st0 findIndex_ge [of i "fst ?rr"] by (auto split: if_splits)
qed

lemma alike_at_row: "alike p q \<Longrightarrow> at_row s q i r = at_row s p i r"
  by (simp add: at_row_def alike_shown alike_known)

lemma alike_absent: "alike p q \<Longrightarrow> absent s q i lo hi = absent s p i lo hi"
  by (simp add: absent_def alike_shown)

text \<open>Whatever the budget, an index that is returned is right.\<close>

lemma probe_loop_sound:
  assumes "views s (pb_proj b)" "tp_known (pb_proj b) > 0"
    and "probe_loop i mx known base d b = (r, b')"
  shows "views s (pb_proj b') \<and> alike (pb_proj b) (pb_proj b') \<and> (r \<noteq> -1 \<longrightarrow> at_row s (pb_proj b) i r)"
  using assms
proof (induction i mx known base d b arbitrary: r b' rule: probe_loop.induct)
  case (1 i mx known base d b)
  obtain r1 b1 where p1: "probe i mx (base + d) b = (r1, b1)" by fastforce
  obtain r2 b2 where p2: "probe i mx (base - d) b1 = (r2, b2)" by fastforce
  note s1 = probe_step(1,2) [OF 1(2,3) p1 refl refl]
  have v1: "views s (pb_proj b1)" "tp_known (pb_proj b1) > 0"
    using s1 1(3) alike_known by auto
  note s2 = probe_step(1,2) [OF v1 p2 refl refl]
  have v2: "views s (pb_proj b2)" "tp_known (pb_proj b2) > 0"
    using s2 v1 alike_known by auto
  show ?case
  proof (cases "pb_probedRows b < mx \<and> r1 = -1 \<and> r2 = -1 \<and> \<not> (base + d \<ge> known \<and> base - d \<le> 0)")
    case True
    then have "probe_loop i mx known base (d + chunkSize) b2 = (r, b')"
      using 1(4) p1 p2 by (subst (asm) probe_loop.simps) (auto simp: Let_def split: if_splits)
    with 1(1) [OF _ p1 [symmetric] refl _ p2 [symmetric] refl _ _ v2, of r b'] True
    have "views s (pb_proj b') \<and> alike (pb_proj b2) (pb_proj b') \<and> (r \<noteq> -1 \<longrightarrow> at_row s (pb_proj b2) i r)"
      by simp
    then show ?thesis using s1 s2 by (meson alike_at_row alike_trans)
  next
    case False
    have a2: "alike (pb_proj b) (pb_proj b2)" "at_row s (pb_proj b1) i = at_row s (pb_proj b) i"
      using s1 s2 alike_trans alike_at_row by blast+
    show ?thesis
      using False 1(2,4) p1 p2 s1 s2 a2
      by (subst (asm) probe_loop.simps) (auto simp: Let_def split: if_splits)
  qed
qed

text \<open>
  The rows probed so far make one interval; the budget spent exceeds its length by at most one row at
  the upper end and 255 at the lower end, where the clamped window overlaps.
\<close>

definition covers :: "'s \<Rightarrow> int \<Rightarrow> probe_state \<Rightarrow> int \<Rightarrow> int \<Rightarrow> bool" where
  "covers s i b lo hi \<longleftrightarrow>
     (let K = int (tp_known (pb_proj b)); V = set (pb_visited b) in
        0 \<le> lo \<and> lo < hi \<and> hi \<le> K \<and> absent s (pb_proj b) i lo hi
      \<and> pb_probedRows b \<le> hi - lo + (if K - 1 \<in> V then 1 else 0) + (if 0 \<in> V then 255 else 0)
      \<and> (\<forall>v \<in> V. lo \<le> v \<and> v < hi) \<and> (lo = 0 \<longrightarrow> 0 \<in> V))"

lemma absent_join:
  "absent s p i a b \<Longrightarrow> absent s p i c d \<Longrightarrow> c \<le> b \<Longrightarrow> absent s p i a d"
  unfolding absent_def by (metis le_less_linear order.trans)

lemma covers_up:
  assumes v: "views s (pb_proj b)" "tp_known (pb_proj b) > 0"
    and K: "K = int (tp_known (pb_proj b))" "mx \<ge> K + 256" "0 \<le> raw"
    and c: "covers s i b lo (min K raw)" and p: "probe i mx raw b = (-1, b')"
  shows "covers s i b' lo (min K (raw + 256))"
proof -
  let ?V = "set (pb_visited b)"
  have k: "tp_known (pb_proj b') = tp_known (pb_proj b)"
      "\<And>lo hi. absent s (pb_proj b') i lo hi = absent s (pb_proj b) i lo hi"
    using probe_step(1) [OF v p refl refl] by (simp_all add: alike_known alike_absent)
  note st = probe_step(3) [OF v p refl refl refl, folded K(1)]
  note c' = c [unfolded covers_def Let_def, folded K(1)]
  show ?thesis
  proof (cases "raw < K")
    case True
    with K(3) have start: "probe_start K raw = raw" by (simp add: probe_start_def)
    have new: "raw \<notin> ?V" using c' True by auto
    have len: "probe_limit K mx (pb_probedRows b) raw = min 256 (K - raw)"
      using c' K(2) True by (auto simp: probe_limit_def split: if_splits)
    have "\<not> pb_probedRows b \<ge> mx" using c' K(2) True by (auto split: if_splits)
    with st new have st': "set (pb_visited b') = insert raw ?V"
        "pb_probedRows b' = pb_probedRows b + min 256 (K - raw)"
        "absent s (pb_proj b) i raw (raw + min 256 (K - raw))"
      unfolding start len by auto
    have hi: "min K (raw + 256) = raw + min 256 (K - raw)" using True by auto
    have "absent s (pb_proj b) i lo (raw + min 256 (K - raw))"
      using absent_join [of s "pb_proj b" i lo raw raw] c' True st'(3) by simp
    then show ?thesis unfolding covers_def Let_def k K(1) [symmetric] st' hi using c' True by auto
  next
    case False
    then have hi: "min K raw = K" "min K (raw + 256) = K" by auto
    have start: "probe_start K raw = K - 1" using False v(2) K(1) by (simp add: probe_start_def)
    show ?thesis
    proof (cases "K - 1 \<in> ?V \<or> pb_probedRows b \<ge> mx")
      case True
      then have "b' = b" using st unfolding start by auto
      then show ?thesis using c unfolding hi by simp
    next
      case new: False
      then have "probe_limit K mx (pb_probedRows b) (K - 1) = 1" by (simp add: probe_limit_def)
      with st new have "set (pb_visited b') = insert (K - 1) ?V" "pb_probedRows b' = pb_probedRows b + 1"
        unfolding start by auto
      then show ?thesis unfolding covers_def Let_def k K(1) [symmetric] hi using c' new hi by auto
    qed
  qed
qed

lemma covers_down:
  assumes v: "views s (pb_proj b)" "tp_known (pb_proj b) > 0"
    and K: "K = int (tp_known (pb_proj b))" "mx \<ge> K + 256" "raw + 256 < K"
    and c: "covers s i b (max 0 (raw + 256)) hi" and p: "probe i mx raw b = (-1, b')"
  shows "covers s i b' (max 0 raw) hi"
proof -
  let ?V = "set (pb_visited b)" and ?lo = "max 0 (raw + 256)"
  have k: "tp_known (pb_proj b') = tp_known (pb_proj b)"
      "\<And>lo hi. absent s (pb_proj b') i lo hi = absent s (pb_proj b) i lo hi"
    using probe_step(1) [OF v p refl refl] by (simp_all add: alike_known alike_absent)
  note st = probe_step(3) [OF v p refl refl refl, folded K(1)]
  note c' = c [unfolded covers_def Let_def, folded K(1)]
  have start: "probe_start K raw = max 0 raw" using K v by (simp add: probe_start_def)
  show ?thesis
  proof (cases "max 0 raw \<in> ?V")
    case True
    then have "b' = b" "max 0 raw = ?lo" using st c' unfolding start by (auto split: if_splits)
    then show ?thesis using c by simp
  next
    case new: False
    have pos: "0 < ?lo" using new c' by (auto split: if_splits)
    have len: "probe_limit K mx (pb_probedRows b) (max 0 raw) = min 256 (K - max 0 raw)"
      using c' K pos new by (auto simp: probe_limit_def split: if_splits)
    have "\<not> pb_probedRows b \<ge> mx" using c' K(2) pos by (auto split: if_splits)
    with st new have st': "set (pb_visited b') = insert (max 0 raw) ?V"
        "pb_probedRows b' = pb_probedRows b + min 256 (K - max 0 raw)"
        "absent s (pb_proj b) i (max 0 raw) (max 0 raw + min 256 (K - max 0 raw))"
      unfolding start len by auto
    have "absent s (pb_proj b) i (max 0 raw) hi"
      using absent_join [OF st'(3), of ?lo hi] c' K(3) pos by auto
    then show ?thesis unfolding covers_def Let_def k K(1) [symmetric] st' using c' pos new K(3) by auto
  qed
qed


lemma map_prod_eqE: "map_prod f g x = (a, c) \<Longrightarrow> (\<And>u v. x = (u, v) \<Longrightarrow> f u = a \<Longrightarrow> g v = c \<Longrightarrow> P) \<Longrightarrow> P"
  by (cases x) auto

lemma covers_all:
  assumes "covers s i b lo hi" "lo = 0" "hi = int (tp_known (pb_proj b))"
  shows "absent s (pb_proj b) i 0 (int (tp_known (pb_proj b)))"
  using assms by (simp add: covers_def Let_def)

text \<open>With 256 rows of budget beyond the row count, the loop leaves no row out.\<close>

lemma probe_loop_complete:
  assumes "views s (pb_proj b)" "tp_known (pb_proj b) > 0"
    and "K = int (tp_known (pb_proj b))" "mx \<ge> K + 256" "0 \<le> base" "base < K" "256 \<le> d"
    and "covers s i b (max 0 (base - d + 256)) (min K (base + d))"
    and "probe_loop i mx K base d b = (-1, b')"
  shows "absent s (pb_proj b) i 0 K"
  using assms
proof (induction i mx K base d b arbitrary: b' rule: probe_loop.induct)
  case (1 i mx K base d b)
  note v = 1(2,3) and K = 1(4-7) and d = 1(8) and c = 1(9) and run = 1(10)
  obtain r1 b1 where p1: "probe i mx (base + d) b = (r1, b1)" by fastforce
  obtain r2 b2 where p2: "probe i mx (base - d) b1 = (r2, b2)" by fastforce
  show ?case
  proof (cases "pb_probedRows b < mx")
    case False
    then have "max 0 (base - d + 256) = 0" "min K (base + d) = K"
      using c K by (auto simp: covers_def Let_def split: if_splits)
    then show ?thesis using c K(1) by (auto simp: covers_def Let_def)
  next
    case go: True
    have r: "r1 = -1" "r2 = -1"
      using run go p1 p2 probe_loop.simps [of i mx K base d b] by (auto simp: Let_def split: if_splits)
    note s1 = probe_step(1) [OF v p1 refl refl]
    have v1: "views s (pb_proj b1)" "tp_known (pb_proj b1) > 0" "K = int (tp_known (pb_proj b1))"
      using s1 v K(1) by (auto simp: alike_known)
    note s2 = probe_step(1) [OF v1(1,2) p2 refl refl]
    have v2: "views s (pb_proj b2)" "tp_known (pb_proj b2) > 0" "K = int (tp_known (pb_proj b2))"
      using s2 v1 by (auto simp: alike_known)
    have "covers s i b1 (max 0 (base - d + 256)) (min K (base + d + 256))"
      using covers_up [OF v K(1,2) _ c p1 [unfolded r]] K(3) d by simp
    then have c2: "covers s i b2 (max 0 (base - d)) (min K (base + d + 256))"
      using covers_down [OF v1 K(2) _ _ p2 [unfolded r]] K(4) d by simp
    have same: "absent s (pb_proj b) i lo hi = absent s (pb_proj b2) i lo hi" for lo hi
      using s1 s2 by (metis alike_absent)
    show ?thesis
    proof (cases "base + d \<ge> K \<and> base - d \<le> 0")
      case True
      then show ?thesis using covers_all [OF c2] v2(3) unfolding same by auto
    next
      case False
      then have "probe_loop i mx K base (d + chunkSize) b2 = (-1, b')"
        using run go p1 p2 r probe_loop.simps [of i mx K base d b] by (auto simp: Let_def)
      with 1(1) [OF _ p1 [symmetric] refl _ p2 [symmetric] refl _ _ v2 K(2-4), of b'] False go r c2 d
      show ?thesis unfolding same by (simp add: chunkSize_def add.assoc)
    qed
  qed
qed

lemma base_start_bounds:
  "known > 0 \<Longrightarrow> 0 \<le> base_start known hint \<and> base_start known hint < known"
  by (auto simp: base_start_def chunkSize_def)

lemma covers_first:
  assumes v: "views s p" "tp_known p > 0" and K: "K = int (tp_known p)" "mx \<ge> K + 256" "0 \<le> base" "base < K"
    and p: "probe i mx base \<lparr>pb_proj = p, pb_visited = [], pb_probedRows = 0\<rparr> = (-1, b')"
  shows "covers s i b' base (min K (base + 256))"
proof -
  let ?b = "\<lparr>pb_proj = p, pb_visited = [], pb_probedRows = 0\<rparr>"
  have v': "views s (pb_proj ?b)" "tp_known (pb_proj ?b) > 0" using v by simp_all
  have k: "tp_known (pb_proj b') = tp_known p"
      "\<And>lo hi. absent s (pb_proj b') i lo hi = absent s p i lo hi"
    using probe_step(1) [OF v' p refl refl] by (simp_all add: alike_known alike_absent)
  have start: "probe_start (int (tp_known p)) base = base" using K by (simp add: probe_start_def)
  have len: "probe_limit (int (tp_known p)) mx 0 base = min 256 (K - base)"
    using K by (auto simp: probe_limit_def)
  have "set (pb_visited b') = {base}" "pb_probedRows b' = min 256 (K - base)"
      "absent s p i base (base + min 256 (K - base))"
    using probe_step(3) [OF v' p refl refl refl] K(2-4) by (auto simp: start len)
  moreover have "min K (base + 256) = base + min 256 (K - base)" using K by auto
  ultimately show ?thesis unfolding covers_def Let_def k K(1) [symmetric] using K by auto
qed

lemma findRowIndex_sound:
  assumes "views s p" "findRowIndex p i hint mx = (r, q)"
  shows "views s q \<and> alike p q \<and> (r \<noteq> -1 \<longrightarrow> at_row s p i r)"
proof (cases "tp_known p = 0 \<or> mx \<le> 0 \<or> tp_cachedAllRows p \<noteq> None")
  case True
  then show ?thesis
    using assms findIndex_some [of i "shown s p"]
    by (auto simp: findRowIndex_def views_def at_row_def split: option.splits if_splits)
next
  case False
  let ?b = "\<lparr>pb_proj = p, pb_visited = [], pb_probedRows = 0\<rparr>" and ?K = "int (tp_known p)"
  obtain r1 b1 where p1: "probe i mx (base_start ?K hint) ?b = (r1, b1)" by fastforce
  obtain r2 b2 where p2: "probe_loop i mx ?K (base_start ?K hint) chunkSize b1 = (r2, b2)" by fastforce
  have v': "views s (pb_proj ?b)" "tp_known (pb_proj ?b) > 0" using assms(1) False by simp_all
  note s1 = probe_step(1,2) [OF v' p1 refl refl]
  have v1: "views s (pb_proj b1)" "tp_known (pb_proj b1) > 0" using s1(1) v' by (auto simp: alike_known)
  note s2 = probe_loop_sound [OF v1 p2]
  show ?thesis
  proof (cases "r1 = -1")
    case True
    then have "r = r2" "q = pb_proj b2" using assms(2) False p1 p2 by (auto simp: findRowIndex_def Let_def)
    then show ?thesis using s1(1) s2 by (auto simp: alike_at_row intro: alike_trans)
  next
    case r1: False
    then have "r = r1" "q = pb_proj b1" using assms(2) False p1 by (auto simp: findRowIndex_def Let_def)
    then show ?thesis using s1 by auto
  qed
qed

lemma findRowIndex_complete:
  assumes "views s p" "mx \<ge> int (tp_known p) + 256" "findRowIndex p i hint mx = (-1, q)"
  shows "i \<notin> ce_id ` set (shown s p)"
proof (cases "tp_known p = 0 \<or> tp_cachedAllRows p \<noteq> None")
  case True
  then show ?thesis
    using assms findIndex_none [of i "shown s p"]
    by (auto simp: findRowIndex_def views_def shown_def split: option.splits if_splits)
next
  case False
  let ?b = "\<lparr>pb_proj = p, pb_visited = [], pb_probedRows = 0\<rparr>" and ?K = "int (tp_known p)"
  let ?B = "base_start ?K hint"
  obtain r1 b1 where p1: "probe i mx ?B ?b = (r1, b1)" by fastforce
  have v': "views s (pb_proj ?b)" "tp_known (pb_proj ?b) > 0" using assms(1) False by simp_all
  note s1 = probe_step(1,2) [OF v' p1 refl refl]
  have v1: "views s (pb_proj b1)" "tp_known (pb_proj b1) > 0" "?K = int (tp_known (pb_proj b1))"
    using s1(1) v' by (auto simp: alike_known)
  have r1: "r1 = -1" using assms(2,3) False p1 by (auto simp: findRowIndex_def Let_def split: if_splits)
  have B: "0 \<le> ?B" "?B < ?K" using base_start_bounds [of ?K hint] False by auto
  obtain b2 where p2: "probe_loop i mx ?K ?B 256 b1 = (-1, b2)"
    using assms(2,3) False p1 r1 by (auto simp: findRowIndex_def Let_def chunkSize_def elim!: map_prod_eqE)
  have "covers s i b1 (max 0 (?B - 256 + 256)) (min ?K (?B + 256))"
    using covers_first [OF assms(1) _ refl assms(2) B p1 [unfolded r1]] False B by simp
  moreover have "alike p (pb_proj b1)" using s1(1) by simp
  ultimately have "absent s p i 0 ?K"
    using probe_loop_complete [OF v1 assms(2) B _ _ p2] by (simp add: alike_absent)
  then have "\<forall>j < tp_known p. ce_id (shown s p ! j) \<noteq> i"
    by (metis absent_def nat_int of_nat_0_le_iff of_nat_less_iff)
  then show ?thesis using assms(1) by (auto simp: in_set_conv_nth)
qed

lemma findExactRowIndex_fast:
  assumes "views s p" "ts_visibleRowIndex (snap s) = Some index"
  shows "fst (findExactRowIndex p i hint) =
      findIndex i (if tp_cachedAllRows p = None then flat s (snd (tp_expanded p)) else shown s p)
    \<and> snd (findExactRowIndex p i hint) = p"
  using assms index_first [of s "snd (tp_expanded p)" index i]
  by (auto simp: findExactRowIndex_def views_def findIndex_first split: option.splits)

text \<open>Any run of reads and searches leaves a projection of the same snapshot.\<close>

lemma findExactRowIndex_views:
  assumes "views s p"
  shows "views s (snd (findExactRowIndex p i hint)) \<and> alike p (snd (findExactRowIndex p i hint))"
  using assms findRowIndex_sound [OF assms, of i hint "int (tp_known p)"]
  by (auto simp: findExactRowIndex_def split: option.splits) (metis prod.collapse)+

lemma proj_step_views:
  assumes "views s p" shows "views s (proj_step c p) \<and> alike p (proj_step c p)"
proof (cases c)
  case (FindRow i hint mx)
  then show ?thesis using findRowIndex_sound [OF assms, of i hint mx] by (metis proj_step.simps(4) prod.collapse)
qed (use assms readRows_window readIds_window readAllRows_shown findExactRowIndex_views in simp_all)

lemma proj_run_views:
  assumes "views s p" shows "views s (fold proj_step cs p) \<and> alike p (fold proj_step cs p)"
  using assms
proof (induction cs arbitrary: p)
  case (Cons c cs)
  from proj_step_views [OF Cons.prems, of c] Cons.IH [of "proj_step c p"] alike_trans
  show ?case by auto
qed simp

end

section \<open>The mirror keeps the contract\<close>

text \<open>A state of the interface: a mirror and a height that shows its expanded part has no cycle.\<close>

definition mirror_ok :: "mirror \<times> (int \<Rightarrow> nat) \<Rightarrow> int jset \<Rightarrow> bool" where
  "mirror_ok s expd \<longleftrightarrow> mirror_wf (fst s) \<and> tree_ranked (fst s) expd (snd s)"

definition mirror_flat :: "mirror \<times> (int \<Rightarrow> nat) \<Rightarrow> int jset \<Rightarrow> snap_row list" where
  "mirror_flat s expd = map (render_row (fst s) expd False) (all_rows (fst s) expd False (snd s))"

lemma visibleRows_slice:
  assumes "tree_ranked m (vo_expanded opts) rank" "vo_includeIgnored opts = None"
  shows "fst (visibleRows m [] opts) =
    take (vo_limit opts) (drop (vo_offset opts) (mirror_flat (m, rank) (vo_expanded opts)))"
proof (cases "vo_limit opts = 0")
  case False
  with visibleRows_loop_eq [OF assms(1) cache_ok_Nil, of "[]" "vo_limit opts" 0 "vo_offset opts"] assms(2)
  show ?thesis by (simp add: visibleRows_def Let_def all_rows_stack mirror_flat_def)
qed (simp add: visibleRows_def)

lemma render_row_id: "mirror_wf m \<Longrightarrow> ce_id (render_row m expd incl r) = fst r"
  by (auto simp: render_row_def placeholder_row_def entry_row_def clientEntryToEntry_def Let_def
      dest: mirror_wf_ids split: option.splits)

lemma mirror_flat_ids:
  "mirror_wf m \<Longrightarrow> map ce_id (mirror_flat (m, rank) expd) = map fst (all_rows m expd False rank)"
  by (simp add: mirror_flat_def comp_def render_row_id)

lemma mirror_count:
  assumes "tree_ranked m expd rank"
  shows "fst (ts_visibleRowCount (mirror_like m) expd) =
    length (filter (\<lambda>r. jm_has (byId m) (fst r)) (all_rows m expd False rank))"
  using visible_row_count_spec [OF assms, of False] by (auto simp: mirror_like_def)

lemma mirror_index:
  assumes "mirror_wf m" "tree_ranked m expd rank"
  shows "(case visibleRowIndex m [] i expd False of Some r \<Rightarrow> fst r | None \<Rightarrow> None) =
    first_index i (map ce_id (mirror_flat (m, rank) expd))"
proof -
  obtain cache where "visibleRowIndex m [] i expd False =
      Some (first_index i (map fst (all_rows m expd False rank)), cache)"
    using visible_row_index_position [OF assms(2) cache_ok_Nil, of i False]
    unfolding first_index_def Let_def by blast
  then show ?thesis by (simp add: mirror_flat_ids [OF assms(1)])
qed

interpretation mirror_view: flat_snapshot "\<lambda>s. mirror_like (fst s)" mirror_ok mirror_flat
proof
  fix s :: "mirror \<times> (int \<Rightarrow> nat)" and opts :: visible_rows_options and ids expd i index
  show "ts_visibleRows (mirror_like (fst s)) opts =
      take (vo_limit opts) (drop (vo_offset opts) (mirror_flat s (vo_expanded opts)))"
    if "mirror_ok s (vo_expanded opts)" "vo_includeIgnored opts = None"
    using that visibleRows_slice [of "fst s" opts "snd s"] by (simp add: mirror_ok_def mirror_like_def)
  then show "ids opts = map ce_id (take (vo_limit opts) (drop (vo_offset opts) (mirror_flat s (vo_expanded opts))))"
    if "mirror_ok s (vo_expanded opts)" "vo_includeIgnored opts = None"
      "ts_visibleRowIds (mirror_like (fst s)) = Some ids"
    using that by (auto simp: mirror_like_def mirror_ok_def visible_row_ids_agree)
  show "index i expd = first_index i (map ce_id (mirror_flat s expd))"
    if "mirror_ok s expd" "ts_visibleRowIndex (mirror_like (fst s)) = Some index"
    using that mirror_index [of "fst s" expd "snd s" i] by (auto simp: mirror_like_def mirror_ok_def)
  show "fst (ts_visibleRowCount (mirror_like (fst s)) expd) \<le> length (mirror_flat s expd)"
    if "mirror_ok s expd"
    using that mirror_count [of "fst s" expd "snd s"] by (simp add: mirror_ok_def mirror_flat_def)
qed

text \<open>A mirror's projection after any run of calls.\<close>

lemma mirror_run:
  assumes "mirror_wf m" "tree_ranked m (snd expd) rank"
    and "p = fold proj_step calls (readTreeProjection (mirror_like m) expd None source)"
  shows "mirror_view.views (m, rank) p"
    and "mirror_view.shown (m, rank) p =
      take (length (filter (\<lambda>r. jm_has (byId m) (fst r)) (all_rows m (snd expd) False rank)))
        (mirror_flat (m, rank) (snd expd))"
    and "tp_known p = length (filter (\<lambda>r. jm_has (byId m) (fst r)) (all_rows m (snd expd) False rank))"
proof -
  let ?q = "readTreeProjection (mirror_like m) expd None source"
  have "mirror_view.views (m, rank) ?q"
    using mirror_view.fresh_views [of "(m, rank)" expd source] assms(1,2) by (simp add: mirror_ok_def)
  note run = mirror_view.proj_run_views [OF this, of calls, folded assms(3)]
  then show "mirror_view.views (m, rank) p" by simp
  show "tp_known p = length (filter (\<lambda>r. jm_has (byId m) (fst r)) (all_rows m (snd expd) False rank))"
    using run mirror_view.alike_known [of ?q p] mirror_count [OF assms(2)]
    by (simp add: readTreeProjection_def Let_def)
  then show "mirror_view.shown (m, rank) p =
      take (length (filter (\<lambda>r. jm_has (byId m) (fst r)) (all_rows m (snd expd) False rank)))
        (mirror_flat (m, rank) (snd expd))"
    using run by (simp add: mirror_view.shown_def mirror_view.alike_def readTreeProjection_def Let_def)
qed

lemma readRows_take_drop:
  assumes "mirror_view.views s p"
  shows "fst (readRows p offset limit) = take (nat limit) (drop (nat offset) (mirror_view.shown s p))"
proof -
  let ?xs = "mirror_view.shown s p"
  have len: "length ?xs = tp_known p" using assms by simp
  have d: "drop (nat (safeOffset p offset)) ?xs = drop (nat offset) ?xs"
    using len by (auto simp: safeOffset_def max_def min_def)
  obtain k where k: "safeOffset p offset = int k"
    using nonneg_int_cases [of "safeOffset p offset"] by (auto simp: safeOffset_def)
  have "nat (safeLimit p offset limit) = min (length (drop (nat (safeOffset p offset)) ?xs)) (nat limit)"
    unfolding safeLimit_def length_drop len k by auto
  then have "take (nat (safeLimit p offset limit)) (drop (nat (safeOffset p offset)) ?xs) =
      take (nat limit) (drop (nat (safeOffset p offset)) ?xs)"
    by (simp add: min_def)
  then show ?thesis using mirror_view.readRows_window [OF assms, of offset limit] d
    by (simp add: slice_rows_def)
qed

section \<open>Concrete snapshots\<close>

text \<open>
  A snapshot with the required methods only, over a fixed list of rows: the optional \<open>visibleRowIds\<close>
  and \<open>visibleRowIndex\<close> are missing.
\<close>

definition list_like :: "snap_row list \<Rightarrow> tree_snapshot" where
  "list_like rows = \<lparr>
     ts_treeVersion = 0, ts_projectionVersion = None,
     ts_visibleRowCount = (\<lambda>_. (length rows, [])),
     ts_visibleRows = (\<lambda>opts. take (vo_limit opts) (drop (vo_offset opts) rows)),
     ts_visibleRowIds = None, ts_visibleRowIndex = None \<rparr>"

interpretation list_view: flat_snapshot list_like "\<lambda>_ _. True" "\<lambda>rows _. rows"
  by unfold_locales (simp_all add: list_like_def)

text \<open>\<open>n\<close> placeholder rows with the ids 0, 1, ...\<close>

definition numbered :: "nat \<Rightarrow> snap_row list" where
  "numbered n = map (\<lambda>k. placeholder_row (int k) 0) [0..<n]"

lemma numbered_ids [simp]: "ce_id (placeholder_row i d) = i" "length (numbered n) = n"
  by (simp_all add: numbered_def placeholder_row_def)

lemma numbered_hd: "0 < n \<Longrightarrow> ce_id (hd (numbered n)) = 0"
  by (simp add: numbered_def hd_map placeholder_row_def)

lemma numbered_slice:
  "nat start + nat len \<le> n \<Longrightarrow>
    ce_id ` set (take (nat len) (drop (nat start) (numbered n))) = int ` {nat start ..< nat start + nat len}"
  by (simp add: numbered_def take_map drop_map image_image atLeastLessThan_upt [symmetric])

lemma demo_wf: "mirror_wf demo_mirror"
  by (auto simp: mirror_wf_def jm_wf_def demo_mirror_def createMirror_def demo_entry_def)

lemma demo_held: "jm_has (byId demo_mirror) 1" "jm_has (byId demo_mirror) 2" "\<not> jm_has (byId demo_mirror) 3"
  by (simp_all add: demo_mirror_def createMirror_def jm_has_def)

text \<open>One fruitless probe of a numbered list for the id 0.\<close>

lemma numbered_probe:
  assumes "list_view.views (numbered n) (pb_proj b)" "tp_known (pb_proj b) = n"
    and "st = list_view.probe_start (int n) raw" "len = list_view.probe_limit (int n) mx (pb_probedRows b) st"
    and "0 < st" "0 \<le> len" "st + len \<le> int n" "st \<notin> set (pb_visited b)" "pb_probedRows b < mx"
  shows "\<exists>q. probe 0 mx raw b =
      (-1, \<lparr>pb_proj = q, pb_visited = jset_add st (pb_visited b), pb_probedRows = pb_probedRows b + len\<rparr>)
    \<and> list_view.views (numbered n) q \<and> tp_known q = n"
proof -
  have "fst (readRows (pb_proj b) st len) = slice_rows (list_view.shown (numbered n) (pb_proj b)) st len"
    using assms by (intro list_view.readRows_at) simp_all
  moreover have "list_view.shown (numbered n) (pb_proj b) = numbered n"
    using assms(2) by (simp add: list_view.shown_def)
  moreover have "nat st + nat len \<le> n" using assms(5-7) by linarith
  ultimately have "findIndex 0 (fst (readRows (pb_proj b) st len)) = -1"
    using numbered_slice [of st len n] assms(5) by (auto simp: findIndex_none slice_rows_def)
  then have "probe 0 mx raw b = (-1, \<lparr>pb_proj = snd (readRows (pb_proj b) st len),
      pb_visited = jset_add st (pb_visited b), pb_probedRows = pb_probedRows b + len\<rparr>)"
    using list_view.probe_eq [of st b raw len mx, OF _ _ refl] assms by simp
  moreover note list_view.readRows_window [OF assms(1), of st len]
  ultimately show ?thesis using assms(2) by (auto simp: list_view.alike_known)
qed

lemma numbered_probe_first:
  assumes "list_view.views (numbered 257) p" "tp_known p = 257"
  shows "\<exists>q. probe 0 257 1 \<lparr>pb_proj = p, pb_visited = [], pb_probedRows = 0\<rparr> =
      (-1, \<lparr>pb_proj = q, pb_visited = [1], pb_probedRows = 256\<rparr>)
    \<and> list_view.views (numbered 257) q \<and> tp_known q = 257"
  using numbered_probe [of 257 "\<lparr>pb_proj = p, pb_visited = [], pb_probedRows = 0\<rparr>" 1 1 256 257] assms
  by (simp add: list_view.probe_start_def, simp add: list_view.probe_limit_def, simp add: jset_add_def)

lemma numbered_probe_last:
  assumes "list_view.views (numbered 257) q" "tp_known q = 257"
  shows "\<exists>q'. probe 0 257 257 \<lparr>pb_proj = q, pb_visited = [1], pb_probedRows = 256\<rparr> =
      (-1, \<lparr>pb_proj = q', pb_visited = jset_add 256 [1], pb_probedRows = 257\<rparr>)"
proof -
  let ?b = "\<lparr>pb_proj = q, pb_visited = [1], pb_probedRows = 256\<rparr>"
  have "(256::int) = list_view.probe_start (int 257) 257" by (simp add: list_view.probe_start_def)
  moreover have "1 = list_view.probe_limit (int 257) 257 (pb_probedRows ?b) 256"
    by (simp add: list_view.probe_limit_def)
  ultimately have "\<exists>q'. probe 0 257 257 ?b =
      (-1, \<lparr>pb_proj = q', pb_visited = jset_add 256 (pb_visited ?b), pb_probedRows = pb_probedRows ?b + 1\<rparr>)
    \<and> list_view.views (numbered 257) q' \<and> tp_known q' = 257"
    using assms by (intro numbered_probe) simp_all
  then show ?thesis by auto
qed

section \<open>Properties\<close>

text \<open>
  C28: whatever windows were read, ids listed or positions searched before, a projection of a mirror
  answers every window with the same slice: \<open>readRows\<close>, \<open>readIds\<close> and \<open>readAllRows\<close> agree with one
  list, the rows of the flattened tree cut to as many as the count of rows whose entry is held. The two
  caches are never seen.
\<close>

theorem projection_windows:
  assumes "mirror_wf m" "tree_ranked m (snd expd) rank"
  shows "let p = fold proj_step calls (readTreeProjection (mirror_like m) expd None source);
      rows = take (length (filter (\<lambda>r. jm_has (byId m) (fst r)) (all_rows m (snd expd) False rank)))
        (map (render_row m (snd expd) False) (all_rows m (snd expd) False rank))
    in fst (readRows p offset limit) = take (nat limit) (drop (nat offset) rows)
     \<and> fst (readIds p offset limit) = map ce_id (take (nat limit) (drop (nat offset) rows))
     \<and> fst (readAllRows p) = rows"
proof -
  let ?p = "fold proj_step calls (readTreeProjection (mirror_like m) expd None source)"
  note run = mirror_run [OF assms refl, of calls source]
  show ?thesis
    using readRows_take_drop [OF run(1), of offset limit] mirror_view.readIds_window [OF run(1), of offset limit]
      mirror_view.readAllRows_shown [OF run(1)]
    unfolding Let_def run(2) by (simp add: mirror_flat_def)
qed

theorem projection_windows_witness:
  "map ce_id (fst (readAllRows
     (fold proj_step [ReadRows 0 5, FindRow 2 0 9] (readTreeProjection (mirror_like demo_mirror) (0, [1]) None None))))
   = [1, 3]"
proof -
  note rows = projection_windows [OF demo_wf, of "(0, [1])" "\<lambda>i. if i = 1 then 1 else 0"
      "[ReadRows 0 5, FindRow 2 0 9]" None 0 0]
  show ?thesis
    using rows demo_ranked by (simp add: Let_def demo_rows demo_held render_row_id [OF demo_wf])
qed

text \<open>
  C29: the chunked search around a hint is complete once its budget exceeds the row count by 256: it
  answers -1 exactly when no shown row has the id, and otherwise an index whose row has it, for every
  hint and after any calls. With the default budget of 16384 rows that covers every tree of up to
  16128 rows.
\<close>

theorem find_row_index_complete:
  assumes "mirror_wf m" "tree_ranked m (snd expd) rank"
    and "p = fold proj_step calls (readTreeProjection (mirror_like m) expd None source)"
    and "int (tp_known p) + 256 \<le> maxProbeRows"
  shows "let r = fst (findRowIndex p i hint maxProbeRows); rows = fst (readAllRows p) in
    (r = -1 \<longleftrightarrow> i \<notin> ce_id ` set rows)
    \<and> (r \<noteq> -1 \<longrightarrow> 0 \<le> r \<and> nat r < length rows \<and> ce_id (rows ! nat r) = i)"
proof -
  note v = mirror_run(1) [OF assms(1-3)]
  obtain r q where f: "findRowIndex p i hint maxProbeRows = (r, q)" by fastforce
  note all = mirror_view.readAllRows_shown [OF v]
  from mirror_view.findRowIndex_sound [OF v f]
  have sound: "r \<noteq> -1 \<Longrightarrow> 0 \<le> r \<and> nat r < length (mirror_view.shown (m, rank) p)
      \<and> ce_id (mirror_view.shown (m, rank) p ! nat r) = i"
    using v by (auto simp: mirror_view.at_row_def)
  have complete: "r = -1 \<Longrightarrow> i \<notin> ce_id ` set (mirror_view.shown (m, rank) p)"
    using mirror_view.findRowIndex_complete [OF v assms(4)] f by auto
  have "r \<noteq> -1 \<Longrightarrow> i \<in> ce_id ` set (mirror_view.shown (m, rank) p)"
    using sound by (metis imageI nth_mem)
  with sound complete all f show ?thesis by (auto simp: Let_def)
qed

theorem find_row_index_complete_witness:
  "fst (findRowIndex (readTreeProjection (mirror_like demo_mirror) (0, [1]) None None) 3 9 16384) \<noteq> -1"
proof -
  let ?p = "readTreeProjection (mirror_like demo_mirror) (0, [1]) None None"
  have rk: "tree_ranked demo_mirror (snd (0, [1])) (\<lambda>i. if i = 1 then 1 else 0)" using demo_ranked by simp
  have p: "?p = fold proj_step [] ?p" by simp
  have known: "tp_known ?p = 2" using mirror_run(3) [OF demo_wf rk p] by (simp add: demo_rows demo_held)
  have all: "map ce_id (fst (readAllRows ?p)) = [1, 3]"
    using mirror_view.readAllRows_shown [OF mirror_run(1) [OF demo_wf rk p]] mirror_run(2) [OF demo_wf rk p]
    by (simp add: mirror_flat_def demo_rows demo_held render_row_id [OF demo_wf])
  have "ce_id ` set (fst (readAllRows ?p)) = {1, 3}" using arg_cong [OF all, of set] by simp
  then show ?thesis
    using find_row_index_complete [OF demo_wf rk p, of 16384 3 9] known by (simp add: Let_def)
qed

text \<open>
  C30: the exact search is not exact for a snapshot without \<open>visibleRowIndex\<close>: its budget is the row
  count, and a start clamped to the last row spends one row of it twice. In a tree of 257 rows searched
  from the last one, the first row is reported as missing.
\<close>

theorem exact_search_misses_a_row:
  "ce_id (hd (fst (readAllRows (readTreeProjection (list_like (numbered 257)) expd None source)))) = 0
   \<and> fst (findExactRowIndex (readTreeProjection (list_like (numbered 257)) expd None source) 0 256) = -1"
proof -
  let ?p = "readTreeProjection (list_like (numbered 257)) expd None source"
  let ?b = "\<lparr>pb_proj = ?p, pb_visited = [], pb_probedRows = 0\<rparr>"
  have v: "list_view.views (numbered 257) ?p" "tp_known ?p = 257" "tp_cachedAllRows ?p = None"
      "ts_visibleRowIndex (tp_snapshot ?p) = None"
    using list_view.fresh_views [of "numbered 257" expd source]
    by (simp_all add: readTreeProjection_def list_like_def Let_def)
  have "ce_id (hd (fst (readAllRows ?p))) = 0"
    using list_view.readAllRows_shown [OF v(1)] v(2)
    by (simp add: list_view.shown_def numbered_hd)
  moreover obtain q where 1: "probe 0 257 1 ?b = (-1, \<lparr>pb_proj = q, pb_visited = [1], pb_probedRows = 256\<rparr>)"
      and q: "list_view.views (numbered 257) q" "tp_known q = 257"
    using numbered_probe_first [OF v(1,2)] by blast
  obtain q' where 2: "probe 0 257 257 \<lparr>pb_proj = q, pb_visited = [1], pb_probedRows = 256\<rparr> =
      (-1, \<lparr>pb_proj = q', pb_visited = jset_add 256 [1], pb_probedRows = 257\<rparr>)"
    using numbered_probe_last [OF q] by blast
  have 3: "probe 0 257 (- 255) \<lparr>pb_proj = q', pb_visited = jset_add 256 [1], pb_probedRows = 257\<rparr> =
      (-1, \<lparr>pb_proj = q', pb_visited = jset_add 256 [1], pb_probedRows = 257\<rparr>)"
    by (simp add: probe_def Let_def)
  have 4: "fst (probe_loop 0 257 257 1 256 \<lparr>pb_proj = q, pb_visited = [1], pb_probedRows = 256\<rparr>) = -1"
    using 2 3 by (subst probe_loop.simps) (simp add: Let_def)
  have "base_start 257 256 = 1" by (simp add: base_start_def chunkSize_def)
  then have "fst (findRowIndex ?p 0 256 257) = -1"
    using v 1 4 by (simp add: findRowIndex_def Let_def chunkSize_def)
  then have "fst (findExactRowIndex ?p 0 256) = -1" using v by (simp add: findExactRowIndex_def)
  ultimately show ?thesis by simp
qed

text \<open>
  A row whose entry has not arrived costs the tree its last row. The count leaves placeholder rows
  out while the windows contain them, so a projection shows all but as many trailing rows as there are
  placeholders: every row that is cut sits behind them, though its entry may be held.
\<close>

theorem pending_rows_cut_the_tail:
  assumes "mirror_wf m" "tree_ranked m (snd expd) rank"
    and "p = fold proj_step calls (readTreeProjection (mirror_like m) expd None source)"
  shows "map ce_id (fst (readAllRows p)) @
      map fst (drop (length (filter (\<lambda>r. jm_has (byId m) (fst r)) (all_rows m (snd expd) False rank)))
        (all_rows m (snd expd) False rank)) = map fst (all_rows m (snd expd) False rank)
    \<and> length (all_rows m (snd expd) False rank) - length (fst (readAllRows p)) =
        length (filter (\<lambda>r. \<not> jm_has (byId m) (fst r)) (all_rows m (snd expd) False rank))"
proof -
  let ?rows = "all_rows m (snd expd) False rank"
  note run = mirror_run [OF assms(1-3)]
  have all: "fst (readAllRows p) = take (length (filter (\<lambda>r. jm_has (byId m) (fst r)) ?rows))
      (mirror_flat (m, rank) (snd expd))"
    using mirror_view.readAllRows_shown [OF run(1)] run(2) by simp
  have "map ce_id (fst (readAllRows p)) = map fst (take (length (filter (\<lambda>r. jm_has (byId m) (fst r)) ?rows)) ?rows)"
    unfolding all take_map [symmetric] mirror_flat_ids [OF assms(1)] by (simp add: take_map)
  moreover have "length (fst (readAllRows p)) = length (filter (\<lambda>r. jm_has (byId m) (fst r)) ?rows)"
    unfolding all by (simp add: mirror_flat_def)
  moreover have "length (filter (\<lambda>r. jm_has (byId m) (fst r)) ?rows) +
      length (filter (\<lambda>r. \<not> jm_has (byId m) (fst r)) ?rows) = length ?rows"
    by (rule sum_length_filter_compl)
  ultimately show ?thesis by (auto simp: map_append [symmetric] simp del: map_append)
qed

theorem pending_rows_cut_the_tail_witness:
  "map ce_id (fst (readAllRows (readTreeProjection (mirror_like demo_mirror) (0, [1]) None None))) @ [2] = [1, 3, 2]
   \<and> jm_has (byId demo_mirror) 2"
proof -
  let ?p = "readTreeProjection (mirror_like demo_mirror) (0, [1]) None None"
  have rk: "tree_ranked demo_mirror (snd (0, [1])) (\<lambda>i. if i = 1 then 1 else 0)" using demo_ranked by simp
  have "?p = fold proj_step [] ?p" by simp
  from pending_rows_cut_the_tail [OF demo_wf rk this] show ?thesis
    by (simp add: demo_rows demo_held)
qed

end
