(* ===== verification/Viewport_Anchor.thy ===== *)
theory Viewport_Anchor
  imports Complex_Main Tree_Projection
begin

text \<open>
  Keeping the viewport still while the tree changes
  (\<open>packages/mille-ui/src/hooks/viewportAnchor.ts\<close>): the top row is captured with its distance from the
  viewport's edge, and found again, or replaced by a surviving neighbour, in the next projection. There
  is one resolver over windows and one over complete row lists; pixels are real numbers. The windowed
  functions read two projections, which they return as the reads leave them.
\<close>

record viewport_anchor =
  va_id :: int
  va_index :: int
  va_viewportOffsetPx :: real

record anchor_resolution =
  ar_id :: int
  ar_index :: int
  ar_scrollOffsetPx :: real
  ar_usedFallback :: bool

section \<open>Windowed\<close>

definition top_index :: "int \<Rightarrow> real \<Rightarrow> real \<Rightarrow> int" where
  "top_index rowCount scrollOffsetPx rowHeight =
     min (rowCount - 1) (max 0 \<lfloor>scrollOffsetPx / rowHeight\<rfloor>)"

definition captureWindowedViewportAnchor ::
  "tree_projection \<Rightarrow> real \<Rightarrow> real \<Rightarrow> viewport_anchor option \<times> tree_projection" where
  "captureWindowedViewportAnchor p scrollOffsetPx rowHeight =
     (if tp_known p = 0 \<or> rowHeight \<le> 0 then (None, p)
      else let index = top_index (int (tp_known p)) scrollOffsetPx rowHeight;
               (rows, p') = readRows p index 1
      in (case rows of
            [] \<Rightarrow> None
          | row # _ \<Rightarrow> Some \<lparr> va_id = ce_id row, va_index = index,
              va_viewportOffsetPx = of_int index * rowHeight - scrollOffsetPx \<rparr>, p'))"

text \<open>The inner loop over the candidates of one distance: the first that the next projection has.\<close>

fun first_surviving ::
  "int \<Rightarrow> nat \<Rightarrow> snap_row list \<Rightarrow> tree_projection \<Rightarrow> (nat \<times> int \<times> int) option \<times> tree_projection" where
  "first_surviving hint k [] nxt = (None, nxt)"
| "first_surviving hint k (candidate # rest) nxt =
     (let (candidateIndex, nxt') = findRowIndex nxt (ce_id candidate) hint defaultProbeRows
      in if candidateIndex = -1 then first_surviving hint (k + 1) rest nxt'
         else (Some (k, ce_id candidate, candidateIndex), nxt'))"

text \<open>
  The outer loop over the distances: the id, its old and its new index. \<open>candidate === candidates[0]\<close>
  compares row objects; the two candidates are different rows, so it is the position that counts.
\<close>

fun windowed_fallback ::
  "viewport_anchor \<Rightarrow> int list \<Rightarrow> tree_projection \<Rightarrow> tree_projection
    \<Rightarrow> (int \<times> int \<times> int) option \<times> tree_projection \<times> tree_projection" where
  "windowed_fallback anchor [] previous nxt = (None, previous, nxt)"
| "windowed_fallback anchor (distance # ds) previous nxt =
     (let afterIndex = va_index anchor + distance;
          beforeIndex = va_index anchor - distance;
          known = int (tp_known previous);
          (after, previous1) = (if afterIndex < known then readRows previous afterIndex 1 else ([], previous));
          (before, previous2) = (if beforeIndex \<ge> 0 then readRows previous1 beforeIndex 1 else ([], previous1));
          (hit, nxt1) = first_surviving (va_index anchor) 0 (after @ before) nxt
      in case hit of
           Some (k, i, nextIndex) \<Rightarrow>
             (Some (i, if k = 0 \<and> afterIndex < known then afterIndex else beforeIndex, nextIndex),
              previous2, nxt1)
         | None \<Rightarrow> windowed_fallback anchor ds previous2 nxt1)"

definition anchored :: "viewport_anchor \<Rightarrow> real \<Rightarrow> bool \<Rightarrow> int \<Rightarrow> int \<Rightarrow> int \<Rightarrow> anchor_resolution" where
  "anchored anchor rowHeight usedFallback i oldIndex nextIndex =
     \<lparr> ar_id = i, ar_index = nextIndex,
       ar_scrollOffsetPx = max 0 (of_int nextIndex * rowHeight
         - (va_viewportOffsetPx anchor + of_int (oldIndex - va_index anchor) * rowHeight)),
       ar_usedFallback = usedFallback \<rparr>"

definition resolveWindowedViewportAnchor ::
  "viewport_anchor \<Rightarrow> tree_projection \<Rightarrow> tree_projection \<Rightarrow> real
    \<Rightarrow> anchor_resolution option \<times> tree_projection \<times> tree_projection" where
  "resolveWindowedViewportAnchor anchor previous nxt rowHeight =
     (if tp_known nxt = 0 \<or> rowHeight \<le> 0 then (None, previous, nxt)
      else let (nextIndex, nxt1) = findRowIndex nxt (va_id anchor) (va_index anchor) defaultProbeRows
      in if nextIndex \<noteq> -1
         then (Some (anchored anchor rowHeight False (va_id anchor) (va_index anchor) nextIndex), previous, nxt1)
         else let (hit, previous1, nxt2) = windowed_fallback anchor [1..32] previous nxt1
              in (map_option (\<lambda>(i, oldIndex, nextIndex). anchored anchor rowHeight True i oldIndex nextIndex) hit,
                  previous1, nxt2))"

section \<open>On complete row lists\<close>

text \<open>\<open>rows[index]\<close>: out of range, also below zero, it is \<open>undefined\<close>.\<close>

definition row_at :: "snap_row list \<Rightarrow> int \<Rightarrow> snap_row option" where
  "row_at rows index = (if 0 \<le> index \<and> index < int (length rows) then Some (rows ! nat index) else None)"

definition captureViewportAnchor :: "snap_row list \<Rightarrow> real \<Rightarrow> real \<Rightarrow> viewport_anchor option" where
  "captureViewportAnchor rows scrollOffsetPx rowHeight =
     (if rows = [] \<or> rowHeight \<le> 0 then None
      else let index = top_index (int (length rows)) scrollOffsetPx rowHeight
      in map_option (\<lambda>row. \<lparr> va_id = ce_id row, va_index = index,
           va_viewportOffsetPx = of_int index * rowHeight - scrollOffsetPx \<rparr>) (row_at rows index))"

text \<open>\<open>nextIndexById\<close>: a later row with the same id replaces an earlier one.\<close>

definition nextIndexById :: "snap_row list \<Rightarrow> (int, int) jmap" where
  "nextIndexById rows = fold (\<lambda>index. jm_set (ce_id (rows ! index)) (int index)) [0..<length rows] []"

fun full_fallback ::
  "viewport_anchor \<Rightarrow> int list \<Rightarrow> snap_row list \<Rightarrow> (int, int) jmap \<Rightarrow> (int \<times> int \<times> int) option" where
  "full_fallback anchor [] previousRows index = None"
| "full_fallback anchor (distance # ds) previousRows index =
     (let afterIndex = va_index anchor + distance;
          beforeIndex = va_index anchor - distance;
          after = row_at previousRows afterIndex;
          before = row_at previousRows beforeIndex;
          usesAfter = (case after of Some row \<Rightarrow> jm_has index (ce_id row) | None \<Rightarrow> False);
          candidate = (if usesAfter then after else before)
      in case candidate of
           None \<Rightarrow> full_fallback anchor ds previousRows index
         | Some row \<Rightarrow>
             (case jm_get index (ce_id row) of
                None \<Rightarrow> full_fallback anchor ds previousRows index
              | Some nextIndex \<Rightarrow>
                  Some (ce_id row, if usesAfter then afterIndex else beforeIndex, nextIndex)))"

definition resolveViewportAnchor ::
  "viewport_anchor \<Rightarrow> snap_row list \<Rightarrow> snap_row list \<Rightarrow> real \<Rightarrow> anchor_resolution option" where
  "resolveViewportAnchor anchor previousRows nextRows rowHeight =
     (if nextRows = [] \<or> rowHeight \<le> 0 then None
      else let nextIndex = findIndex (va_id anchor) nextRows
      in if nextIndex \<noteq> -1
         then Some (anchored anchor rowHeight False (va_id anchor) (va_index anchor) nextIndex)
         else map_option (\<lambda>(i, oldIndex, nextIndex). anchored anchor rowHeight True i oldIndex nextIndex)
                (full_fallback anchor [1..int (length previousRows) - 1] previousRows (nextIndexById nextRows)))"

section \<open>Lemmas\<close>

lemma nextIndexById_upto:
  "jm_get (fold (\<lambda>index. jm_set (ce_id (rows ! index)) (int index)) [0..<n] []) i =
     (if \<exists>j < n. ce_id (rows ! j) = i then Some (int (Max {j. j < n \<and> ce_id (rows ! j) = i})) else None)"
proof (induction n)
  case (Suc n)
  have new: "Max {j. j < Suc n \<and> ce_id (rows ! j) = i} = n" if "ce_id (rows ! n) = i"
    using that by (intro Max_eqI) auto
  have "{j. j < Suc n \<and> ce_id (rows ! j) = i} = {j. j < n \<and> ce_id (rows ! j) = i}"
    if "ce_id (rows ! n) \<noteq> i" using that by (auto simp: less_Suc_eq)
  then show ?case using Suc new by (auto simp: less_Suc_eq)
qed simp

lemma nextIndexById_has: "jm_has (nextIndexById rows) i \<longleftrightarrow> i \<in> ce_id ` set rows"
proof -
  have "i \<in> ce_id ` set rows \<longleftrightarrow> (\<exists>j < length rows. ce_id (rows ! j) = i)"
    by (metis (no_types, lifting) imageE imageI in_set_conv_nth)
  then show ?thesis
    using nextIndexById_upto [of rows "length rows" i] by (simp add: jm_has_def nextIndexById_def)
qed

lemma nextIndexById_get:
  assumes "distinct (map ce_id rows)" "r < length rows" "ce_id (rows ! r) = i"
  shows "jm_get (nextIndexById rows) i = Some (int r)"
proof -
  have "{j. j < length rows \<and> ce_id (rows ! j) = i} = {r}"
    using assms by (auto simp: distinct_conv_nth)
  then show ?thesis
    using nextIndexById_upto [of rows "length rows" i] assms(2,3) by (auto simp: nextIndexById_def)
qed

lemma full_fallback_append:
  "full_fallback a (xs @ ys) rows index =
     (case full_fallback a xs rows index of Some h \<Rightarrow> Some h | None \<Rightarrow> full_fallback a ys rows index)"
  by (induction xs) (auto simp: Let_def split: option.splits)

lemma full_fallback_far:
  assumes "0 \<le> va_index a" "va_index a < int (length rows)" "\<forall>d \<in> set ds. int (length rows) \<le> d"
  shows "full_fallback a ds rows index = None"
  using assms by (induction ds) (auto simp: Let_def row_at_def split: option.splits)

lemma full_fallback_32:
  assumes "0 \<le> va_index a" "va_index a < int (length rows)"
  shows "length rows \<le> 33 \<Longrightarrow>
      full_fallback a [1..int (length rows) - 1] rows index = full_fallback a [1..32] rows index"
    and "full_fallback a [1..32] rows index = Some h \<Longrightarrow>
      full_fallback a [1..int (length rows) - 1] rows index = Some h"
proof -
  let ?n = "int (length rows)"
  show short: "full_fallback a [1..?n - 1] rows index = full_fallback a [1..32] rows index"
    if "length rows \<le> 33"
  proof -
    have "[1..32] = [1..?n - 1] @ [?n..32]" using that assms upto_split2 [of 1 "?n - 1" 32] by (cases "length rows = 1") auto
    then show ?thesis using full_fallback_far [OF assms, of "[?n..32]" index]
      by (simp add: full_fallback_append split: option.splits)
  qed
  show "full_fallback a [1..?n - 1] rows index = Some h" if "full_fallback a [1..32] rows index = Some h"
  proof (cases "length rows \<le> 33")
    case True
    then show ?thesis using short that by simp
  next
    case False
    then have "[1..?n - 1] = [1..32] @ [33..?n - 1]" using upto_split2 [of 1 32 "?n - 1"] by simp
    then show ?thesis using that by (simp add: full_fallback_append)
  qed
qed

lemma all_nth_Cons:
  "Suc k \<le> n \<Longrightarrow> (\<forall>j < n - k. P ((c # cs) ! j)) \<longleftrightarrow> P c \<and> (\<forall>j < n - Suc k. P (cs ! j))"
  using All_less_Suc2 [of "n - Suc k" "\<lambda>j. P ((c # cs) ! j)"] by (simp add: Suc_diff_Suc)

context flat_snapshot
begin

lemma readRows_one:
  assumes "views s p" "0 \<le> k" "k < int (tp_known p)"
  shows "fst (readRows p k 1) = [shown s p ! nat k]"
proof -
  have "nat k < length (shown s p)" using assms by simp
  then show ?thesis
    using readRows_at [OF assms(1,2), of 1] assms(3)
    by (simp add: slice_rows_def Cons_nth_drop_Suc [symmetric])
qed

lemma capture_spec:
  assumes "views s p" "captureWindowedViewportAnchor p scroll h = (Some a, p')"
  shows "views s p' \<and> alike p p' \<and> row_at (shown s p) (va_index a) \<noteq> None
    \<and> captureViewportAnchor (shown s p) scroll h = Some a
    \<and> va_viewportOffsetPx a = of_int (va_index a) * h - scroll \<and> 0 < h"
proof -
  let ?k = "top_index (int (tp_known p)) scroll h"
  from assms(2) have pos: "tp_known p > 0" "h > 0"
    by (auto simp: captureWindowedViewportAnchor_def split: if_splits)
  then have k: "0 \<le> ?k" "?k < int (tp_known p)" by (auto simp: top_index_def)
  have a: "a = \<lparr>va_id = ce_id (shown s p ! nat ?k), va_index = ?k,
      va_viewportOffsetPx = of_int ?k * h - scroll\<rparr>" "p' = snd (readRows p ?k 1)"
    using assms(2) pos readRows_one [OF assms(1) k]
    by (auto simp: captureWindowedViewportAnchor_def Let_def split: prod.splits)
  have "shown s p \<noteq> []" using assms(1) pos(1) by (metis length_shown length_greater_0_conv)
  then show ?thesis
    using readRows_window [OF assms(1), of ?k 1] k pos assms(1)
    unfolding a by (simp add: captureViewportAnchor_def Let_def row_at_def)
qed

lemma capture_total:
  assumes "views s p" "tp_known p > 0" "0 < h"
  shows "\<exists>a p'. captureWindowedViewportAnchor p scroll h = (Some a, p')"
proof -
  let ?k = "top_index (int (tp_known p)) scroll h"
  have "0 \<le> ?k" "?k < int (tp_known p)" using assms(2) by (auto simp: top_index_def)
  from readRows_one [OF assms(1) this] assms(2,3) show ?thesis
    by (auto simp: captureWindowedViewportAnchor_def Let_def split: prod.splits)
qed

lemma first_surviving_spec:
  assumes "views t nxt" "first_surviving hint k cs nxt = (hit, nxt')"
  shows "views t nxt' \<and> alike nxt nxt' \<and>
    (case hit of
       Some (k', i, r) \<Rightarrow> k \<le> k' \<and> k' - k < length cs \<and> i = ce_id (cs ! (k' - k)) \<and> at_row t nxt i r
         \<and> (int (tp_known nxt) + 256 \<le> defaultProbeRows \<longrightarrow>
             (\<forall>j < k' - k. ce_id (cs ! j) \<notin> ce_id ` set (shown t nxt)))
     | None \<Rightarrow> int (tp_known nxt) + 256 \<le> defaultProbeRows \<longrightarrow>
         (\<forall>c \<in> set cs. ce_id c \<notin> ce_id ` set (shown t nxt)))"
  using assms
proof (induction cs arbitrary: k nxt)
  case (Cons c cs)
  obtain r n1 where f: "findRowIndex nxt (ce_id c) hint defaultProbeRows = (r, n1)" by fastforce
  note sound = findRowIndex_sound [OF Cons.prems(1) f]
  show ?case
  proof (cases "r = -1")
    case False
    then show ?thesis using Cons.prems(2) f sound by (auto simp: Let_def)
  next
    case True
    have gone: "int (tp_known nxt) + 256 \<le> defaultProbeRows \<Longrightarrow> ce_id c \<notin> ce_id ` set (shown t nxt)"
      using findRowIndex_complete [OF Cons.prems(1)] f True by blast
    have al: "alike nxt n1" using sound by simp
    have "first_surviving hint (Suc k) cs n1 = (hit, nxt')" using Cons.prems(2) f True by simp
    from Cons.IH [OF _ this] sound have "views t nxt' \<and> alike n1 nxt' \<and>
      (case hit of
         Some (k', i, r) \<Rightarrow> Suc k \<le> k' \<and> k' - Suc k < length cs \<and> i = ce_id (cs ! (k' - Suc k)) \<and> at_row t n1 i r
           \<and> (int (tp_known n1) + 256 \<le> defaultProbeRows \<longrightarrow>
               (\<forall>j < k' - Suc k. ce_id (cs ! j) \<notin> ce_id ` set (shown t n1)))
       | None \<Rightarrow> int (tp_known n1) + 256 \<le> defaultProbeRows \<longrightarrow>
           (\<forall>c \<in> set cs. ce_id c \<notin> ce_id ` set (shown t n1)))" by simp
    note rest = this [unfolded alike_known [OF al] alike_shown [OF al] alike_at_row [OF al]]
    show ?thesis
    proof (cases hit)
      case None
      then show ?thesis using rest gone alike_trans [OF al] by auto
    next
      case (Some x)
      then obtain k' i r where hit: "hit = Some (k', i, r)" by (cases x) auto
      have "Suc k \<le> k'" using rest hit by simp
      note all = all_nth_Cons [OF this, of "\<lambda>c. ce_id c \<notin> ce_id ` set (shown t nxt)" c cs]
      have "(c # cs) ! (k' - k) = cs ! (k' - Suc k)" "k' - k < length (c # cs)"
        using rest hit by (auto simp: nth_Cons')
      then show ?thesis using rest gone alike_trans [OF al] hit unfolding hit option.case prod.case all by auto
    qed
  qed
qed simp

lemma read_neighbours:
  assumes "views s p" "0 \<le> va_index a" "va_index a < int (tp_known p)" "0 < d"
    and "(if va_index a + d < int (tp_known p) then readRows p (va_index a + d) 1 else ([], p)) = (after, p1)"
    and "(if 0 \<le> va_index a - d then readRows p1 (va_index a - d) 1 else ([], p1)) = (before, p2)"
  shows "after = (case row_at (shown s p) (va_index a + d) of Some row \<Rightarrow> [row] | None \<Rightarrow> [])"
    and "before = (case row_at (shown s p) (va_index a - d) of Some row \<Rightarrow> [row] | None \<Rightarrow> [])"
    and "views s p2 \<and> alike p p2"
proof -
  have 1: "after = (case row_at (shown s p) (va_index a + d) of Some row \<Rightarrow> [row] | None \<Rightarrow> [])
      \<and> views s p1 \<and> alike p p1"
    using assms readRows_one [OF assms(1), of "va_index a + d"] readRows_window [OF assms(1), of "va_index a + d" 1]
    by (auto simp: row_at_def split: if_splits)
  have v: "views s p1" "alike p p1" "shown s p1 = shown s p" "tp_known p1 = tp_known p"
    using 1 by (auto simp: alike_shown alike_known)
  have "before = (case row_at (shown s p) (va_index a - d) of Some row \<Rightarrow> [row] | None \<Rightarrow> [])
      \<and> views s p2 \<and> alike p1 p2"
    using assms(1-4,6) v readRows_one [OF v(1), of "va_index a - d"] readRows_window [OF v(1), of "va_index a - d" 1]
    by (auto simp: row_at_def split: if_splits)
  with 1 alike_trans [OF v(2)]
  show "after = (case row_at (shown s p) (va_index a + d) of Some row \<Rightarrow> [row] | None \<Rightarrow> [])"
    and "before = (case row_at (shown s p) (va_index a - d) of Some row \<Rightarrow> [row] | None \<Rightarrow> [])"
    and "views s p2 \<and> alike p p2" by auto
qed

text \<open>One distance: which neighbour is taken, and that the full resolver takes the same one.\<close>

lemma neighbour_step:
  assumes v: "views t n" and "0 \<le> va_index a" "va_index a < int K" "0 < d" "length rows = K"
    and fs: "first_surviving hint 0
        ((case row_at rows (va_index a + d) of Some row \<Rightarrow> [row] | None \<Rightarrow> []) @
         (case row_at rows (va_index a - d) of Some row \<Rightarrow> [row] | None \<Rightarrow> [])) n = (hit, n')"
    and big: "wide \<longrightarrow> int (tp_known n) + 256 \<le> defaultProbeRows \<and> distinct (map ce_id (shown t n))"
  shows "case hit of
      Some (k, i, r) \<Rightarrow> at_row t n i r
        \<and> (\<exists>row. row_at rows (if k = 0 \<and> va_index a + d < int K then va_index a + d else va_index a - d) = Some row
             \<and> ce_id row = i)
        \<and> (wide \<longrightarrow> full_fallback a (d # ds) rows (nextIndexById (shown t n)) =
             Some (i, if k = 0 \<and> va_index a + d < int K then va_index a + d else va_index a - d, r))
    | None \<Rightarrow> wide \<longrightarrow> full_fallback a (d # ds) rows (nextIndexById (shown t n)) =
        full_fallback a ds rows (nextIndexById (shown t n))"
proof -
  note spec = first_surviving_spec [OF v fs]
  have get: "jm_get (nextIndexById (shown t n)) i = Some r" if "wide" "at_row t n i r" for i r
    using that big v nextIndexById_get [of "shown t n" "nat r" i] by (auto simp: at_row_def)
  have none: "jm_get (nextIndexById (shown t n)) i = None" if "i \<notin> ce_id ` set (shown t n)" for i
    using that nextIndexById_has [of "shown t n" i] by (simp add: jm_has_def)
  have off: "row_at rows (va_index a + d) = None \<longleftrightarrow> \<not> va_index a + d < int K"
    using assms(2-5) by (simp add: row_at_def)
  show ?thesis
  proof (cases hit)
    case None
    then show ?thesis using spec big none
      by (auto simp: Let_def jm_has_def split: option.splits)
  next
    case (Some x)
    then obtain k i r where x: "hit = Some (k, i, r)" by (cases x) auto
    let ?ra = "row_at rows (va_index a + d)" and ?rb = "row_at rows (va_index a - d)"
    let ?ix = "nextIndexById (shown t n)"
    have at: "at_row t n i r" using spec unfolding x option.case prod.case by blast
    consider (after) row where "?ra = Some row" "k = 0" "i = ce_id row"
      | (before) row where "?rb = Some row" "i = ce_id row" "\<not> (k = 0 \<and> va_index a + d < int K)"
          "wide \<longrightarrow> (case ?ra of Some row' \<Rightarrow> ce_id row' \<notin> ce_id ` set (shown t n) | None \<Rightarrow> True)"
      using spec big off unfolding x option.case prod.case by (cases ?ra; cases ?rb; cases k) auto
    then show ?thesis
    proof cases
      case after
      then show ?thesis using x at off get [OF _ at]
        by (auto simp: Let_def jm_has_def)
    next
      case before
      then have "wide \<longrightarrow> \<not> (case ?ra of Some row \<Rightarrow> jm_has ?ix (ce_id row) | None \<Rightarrow> False)"
        using none by (auto simp: jm_has_def split: option.splits)
      then show ?thesis using before(1-3) x at get [OF _ at] by (auto simp: Let_def)
    qed
  qed
qed

lemma windowed_fallback_spec:
  assumes "views s p" "views t n" "0 \<le> va_index a" "va_index a < int (tp_known p)"
    and "\<forall>d \<in> set ds. 0 < d" "windowed_fallback a ds p n = (hit, p', n')"
    and "wide \<longrightarrow> int (tp_known n) + 256 \<le> defaultProbeRows \<and> distinct (map ce_id (shown t n))"
  shows "(wide \<longrightarrow> hit = full_fallback a ds (shown s p) (nextIndexById (shown t n)))
    \<and> (\<forall>i oldIndex r. hit = Some (i, oldIndex, r) \<longrightarrow>
         at_row t n i r \<and> (\<exists>row. row_at (shown s p) oldIndex = Some row \<and> ce_id row = i))"
  using assms
proof (induction ds arbitrary: p n)
  case (Cons d ds)
  let ?K = "int (tp_known p)"
  obtain after p1 where 1: "(if va_index a + d < ?K then readRows p (va_index a + d) 1 else ([], p)) = (after, p1)"
    by fastforce
  obtain before p2 where 2: "(if 0 \<le> va_index a - d then readRows p1 (va_index a - d) 1 else ([], p1)) = (before, p2)"
    by fastforce
  obtain h n1 where 3: "first_surviving (va_index a) 0 (after @ before) n = (h, n1)" by fastforce
  have d: "0 < d" using Cons.prems(5) by simp
  note rows = read_neighbours [OF Cons.prems(1,3,4) d 1 2]
  have step: "windowed_fallback a (d # ds) p n =
      (case h of
         Some (k, i, r) \<Rightarrow> (Some (i, if k = 0 \<and> va_index a + d < ?K then va_index a + d else va_index a - d, r), p2, n1)
       | None \<Rightarrow> windowed_fallback a ds p2 n1)"
    using 1 2 3 by (simp add: Let_def)
  have fs: "views t n1 \<and> alike n n1" using first_surviving_spec [OF Cons.prems(2) 3] by simp
  note nb = neighbour_step [OF Cons.prems(2,3,4) d length_shown [OF Cons.prems(1)] 3 [unfolded rows(1,2)]
      Cons.prems(7), of ds]
  show ?case
  proof (cases h)
    case None
    have al: "alike p p2" "alike n n1" using rows(3) fs by auto
    have "windowed_fallback a ds p2 n1 = (hit, p', n')" using Cons.prems(6) step None by simp
    from Cons.IH [OF _ _ Cons.prems(3) _ _ this] Cons.prems(4,5,7) rows(3) fs
    have "(wide \<longrightarrow> hit = full_fallback a ds (shown s p) (nextIndexById (shown t n)))
      \<and> (\<forall>i oldIndex r. hit = Some (i, oldIndex, r) \<longrightarrow>
         at_row t n i r \<and> (\<exists>row. row_at (shown s p) oldIndex = Some row \<and> ce_id row = i))"
      by (simp add: alike_known [OF al(1)] alike_known [OF al(2)] alike_shown [OF al(1)] alike_shown [OF al(2)]
          alike_at_row [OF al(2)])
    then show ?thesis using nb None by simp
  next
    case (Some x)
    then obtain k i r where "h = Some (k, i, r)" by (cases x) auto
    then show ?thesis using nb Cons.prems(6) step by auto
  qed
qed simp

lemma at_row_findIndex:
  assumes "views t q" "distinct (map ce_id (shown t q))" "at_row t q i r"
  shows "findIndex i (shown t q) = r"
proof -
  let ?rows = "shown t q" and ?f = "findIndex i (shown t q)"
  have r: "0 \<le> r" "nat r < length ?rows" "ce_id (?rows ! nat r) = i" using assms by (auto simp: at_row_def)
  then have "i \<in> ce_id ` set ?rows" by (metis imageI nth_mem)
  then have f: "?f \<noteq> -1" by (simp add: findIndex_none)
  from findIndex_some [OF this] r assms(2) have "nat ?f = nat r" by (auto simp: distinct_conv_nth)
  then show ?thesis using findIndex_some [OF f] r(1) by linarith
qed

lemma resolve_spec:
  assumes "views s p" "views t q" "0 \<le> va_index a" "va_index a < int (tp_known p)"
    and "resolveWindowedViewportAnchor a p q h = (res, p', q')"
    and "wide \<longrightarrow> int (tp_known q) + 256 \<le> defaultProbeRows \<and> distinct (map ce_id (shown t q))"
  shows "(\<forall>r. res = Some r \<longrightarrow> (\<exists>k row. row_at (shown s p) k = Some row
        \<and> (ar_usedFallback r \<longrightarrow> ce_id row = ar_id r)
        \<and> (\<not> ar_usedFallback r \<longrightarrow> k = va_index a \<and> ar_id r = va_id a)
        \<and> at_row t q (ar_id r) (ar_index r)
        \<and> ar_scrollOffsetPx r = max 0 (of_int (ar_index r) * h
            - (va_viewportOffsetPx a + of_int (k - va_index a) * h))))
    \<and> (wide \<longrightarrow> res = (if shown t q = [] \<or> h \<le> 0 then None
        else if findIndex (va_id a) (shown t q) \<noteq> -1
        then Some (anchored a h False (va_id a) (va_index a) (findIndex (va_id a) (shown t q)))
        else map_option (\<lambda>(i, oldIndex, nextIndex). anchored a h True i oldIndex nextIndex)
               (full_fallback a [1..32] (shown s p) (nextIndexById (shown t q)))))"
proof (cases "tp_known q = 0 \<or> h \<le> 0")
  case True
  then show ?thesis using assms(5) length_shown [OF assms(2)]
    by (auto simp: resolveWindowedViewportAnchor_def)
next
  case False
  obtain r q1 where f: "findRowIndex q (va_id a) (va_index a) defaultProbeRows = (r, q1)" by fastforce
  note sound = findRowIndex_sound [OF assms(2) f]
  have ne: "shown t q \<noteq> []" using False length_shown [OF assms(2)] by auto
  have top: "row_at (shown s p) (va_index a) \<noteq> None" using assms(1,3,4) by (simp add: row_at_def)
  show ?thesis
  proof (cases "r = -1")
    case found: False
    then have res: "res = Some (anchored a h False (va_id a) (va_index a) r)"
      using assms(5) False f by (auto simp: resolveWindowedViewportAnchor_def)
    have at: "at_row t q (va_id a) r" using sound found by simp
    have "wide \<longrightarrow> findIndex (va_id a) (shown t q) = r" using at_row_findIndex [OF assms(2) _ at] assms(6) by simp
    then show ?thesis using res at top found ne False by (auto simp: anchored_def)
  next
    case True
    obtain hit p1 q2 where w: "windowed_fallback a [1..32] p q1 = (hit, p1, q2)" by (metis prod_cases3)
    then have res: "res = map_option (\<lambda>(i, oldIndex, nextIndex). anchored a h True i oldIndex nextIndex) hit"
      using assms(5) False f True by (auto simp: resolveWindowedViewportAnchor_def)
    have v1: "views t q1" "alike q q1" using sound by auto
    have fb: "(wide \<longrightarrow> hit = full_fallback a [1..32] (shown s p) (nextIndexById (shown t q)))
      \<and> (\<forall>i oldIndex r. hit = Some (i, oldIndex, r) \<longrightarrow>
         at_row t q i r \<and> (\<exists>row. row_at (shown s p) oldIndex = Some row \<and> ce_id row = i))"
      using windowed_fallback_spec [OF assms(1) v1(1) assms(3,4) _ w, of wide] assms(6)
      by (simp add: alike_known [OF v1(2)] alike_shown [OF v1(2)] alike_at_row [OF v1(2)])
    have gone: "wide \<longrightarrow> findIndex (va_id a) (shown t q) = -1"
      using findRowIndex_complete [OF assms(2) _ f [unfolded True]] assms(6) by (simp add: findIndex_none)
    show ?thesis
    proof (intro conjI allI impI)
      fix r assume "res = Some r"
      then obtain i oldIndex n where hit: "hit = Some (i, oldIndex, n)" "r = anchored a h True i oldIndex n"
        using res by auto
      with fb obtain row where "row_at (shown s p) oldIndex = Some row" "ce_id row = i" "at_row t q i n" by blast
      with hit(2) show "\<exists>k row. row_at (shown s p) k = Some row
        \<and> (ar_usedFallback r \<longrightarrow> ce_id row = ar_id r)
        \<and> (\<not> ar_usedFallback r \<longrightarrow> k = va_index a \<and> ar_id r = va_id a)
        \<and> at_row t q (ar_id r) (ar_index r)
        \<and> ar_scrollOffsetPx r = max 0 (of_int (ar_index r) * h
            - (va_viewportOffsetPx a + of_int (k - va_index a) * h))"
        by (intro exI [of _ oldIndex] exI [of _ row]) (simp add: anchored_def)
    qed (use fb gone res ne False in simp)
  qed
qed

end

section \<open>Concrete instances\<close>

text \<open>The demonstration tree after its first child, still a placeholder, was removed.\<close>

definition shrunk_mirror :: mirror where
  "shrunk_mirror = demo_mirror\<lparr>children := [(1, [2])]\<rparr>"

lemma shrunk_wf: "mirror_wf shrunk_mirror"
  by (auto simp: mirror_wf_def jm_wf_def shrunk_mirror_def demo_mirror_def createMirror_def demo_entry_def)

lemma shrunk_ranked: "tree_ranked shrunk_mirror [1] (\<lambda>i. if i = 1 then 1 else 0)"
  by (simp add: tree_ranked_def shrunk_mirror_def demo_mirror_def createMirror_def)

lemma shrunk_rows:
  "all_rows shrunk_mirror [1] False (\<lambda>i. if i = 1 then 1 else 0) = [(1, 0), (2, 1)]"
  by (simp add: all_rows_def rows_below_def shrunk_mirror_def demo_mirror_def createMirror_def
      shown_children_def display_children_def entry_visible_def isVisibleEntry_def demo_entry_def js_def)

abbreviation demo_view :: tree_projection where
  "demo_view \<equiv> readTreeProjection (mirror_like demo_mirror) (0, [1]) None None"

abbreviation shrunk_view :: tree_projection where
  "shrunk_view \<equiv> readTreeProjection (mirror_like shrunk_mirror) (2, [1]) None None"

abbreviation demo_rank :: "int \<Rightarrow> nat" where
  "demo_rank \<equiv> \<lambda>i. if i = 1 then 1 else 0"

lemma demo_view_run:
  "demo_view = fold proj_step [] demo_view" "tree_ranked demo_mirror (snd (0, [1])) demo_rank"
  using demo_ranked by simp_all

lemma shrunk_view_run:
  "shrunk_view = fold proj_step [] shrunk_view" "tree_ranked shrunk_mirror (snd (2, [1])) demo_rank"
  using shrunk_ranked by simp_all

lemma shrunk_held: "jm_has (byId shrunk_mirror) 1" "jm_has (byId shrunk_mirror) 2"
  by (simp_all add: shrunk_mirror_def demo_held)

lemma demo_view_rows: "map ce_id (fst (readAllRows demo_view)) = [1, 3]" "tp_known demo_view = 2"
  using mirror_view.readAllRows_shown [OF mirror_run(1) [OF demo_wf demo_view_run(2,1)]]
    mirror_run(2,3) [OF demo_wf demo_view_run(2,1)]
  by (simp_all add: mirror_flat_def demo_rows demo_held render_row_id [OF demo_wf])

lemma shrunk_view_rows: "map ce_id (fst (readAllRows shrunk_view)) = [1, 2]" "tp_known shrunk_view = 2"
  using mirror_view.readAllRows_shown [OF mirror_run(1) [OF shrunk_wf shrunk_view_run(2,1)]]
    mirror_run(2,3) [OF shrunk_wf shrunk_view_run(2,1)]
  by (simp_all add: mirror_flat_def shrunk_rows shrunk_held render_row_id [OF shrunk_wf])

text \<open>The second row, whose id is gone, is the top row at a scroll offset of 25 pixels.\<close>

lemma demo_capture: "\<exists>a p'. captureWindowedViewportAnchor demo_view 25 20 = (Some a, p')
    \<and> (\<exists>r. fst (resolveWindowedViewportAnchor a p' shrunk_view 20) = Some r)"
proof -
  note v = mirror_run(1) [OF demo_wf demo_view_run(2,1)] and w = mirror_run(1) [OF shrunk_wf shrunk_view_run(2,1)]
  let ?Q = "mirror_view.shown (shrunk_mirror, demo_rank) shrunk_view"
  obtain a p' where cap: "captureWindowedViewportAnchor demo_view 25 20 = (Some a, p')"
    using mirror_view.capture_total [OF v] demo_view_rows(2) by (metis zero_less_numeral)
  note c = mirror_view.capture_spec [OF v cap]
  have P: "map ce_id (mirror_view.shown (demo_mirror, demo_rank) demo_view) = [1, 3]"
    using mirror_view.readAllRows_shown [OF v] demo_view_rows(1) by simp
  then obtain x y where xy: "mirror_view.shown (demo_mirror, demo_rank) demo_view = [x, y]" "ce_id x = 1" "ce_id y = 3"
    by auto
  have "\<lfloor>25 / 20 :: real\<rfloor> = 1" by (simp add: floor_eq_iff)
  then have a: "va_id a = 3" "va_index a = 1" using c unfolding xy
    by (auto simp: captureViewportAnchor_def Let_def top_index_def row_at_def xy)
  have Q: "map ce_id ?Q = [1, 2]"
    using mirror_view.readAllRows_shown [OF w] shrunk_view_rows(1) by simp
  have al: "mirror_view.alike demo_view p'" using c by blast
  have v': "mirror_view.views (demo_mirror, demo_rank) p'" "tp_known p' = 2"
      "mirror_view.shown (demo_mirror, demo_rank) p' = [x, y]"
    using c mirror_view.alike_known [OF al] mirror_view.alike_shown [OF al] xy(1) demo_view_rows(2) by simp_all
  obtain res p'' q' where res: "resolveWindowedViewportAnchor a p' shrunk_view 20 = (res, p'', q')"
    by (metis prod_cases3)
  from Q obtain u z where uz: "?Q = [u, z]" "ce_id u = 1" "ce_id z = 2" by auto
  have "res = (if ?Q = [] \<or> (20::real) \<le> 0 then None
        else if findIndex (va_id a) ?Q \<noteq> -1
        then Some (anchored a 20 False (va_id a) (va_index a) (findIndex (va_id a) ?Q))
        else map_option (\<lambda>(i, oldIndex, nextIndex). anchored a 20 True i oldIndex nextIndex)
               (full_fallback a [1..32] [x, y] (nextIndexById ?Q)))"
    using mirror_view.resolve_spec [OF v'(1) w _ _ res, of True] a v' shrunk_view_rows(2) uz
    by (simp add: defaultProbeRows_def)
  moreover have "findIndex 3 ?Q = -1" by (simp add: findIndex_none uz)
  moreover have "full_fallback a [1..32] [x, y] (nextIndexById ?Q) = Some (1, 0, 0)"
    using a uz xy by (simp add: upto_rec1 [of 1 32] Let_def row_at_def nextIndexById_def jm_has_def)
  ultimately show ?thesis using cap res a uz by auto
qed

section \<open>Properties\<close>

text \<open>
  C31: re-anchoring keeps a row where it is on the screen. The resolution names a row of the next
  projection; the same row, at index \<open>k\<close> of the previous one, was \<open>k * rowHeight - scroll\<close> below the
  viewport's top edge, and the new scroll offset puts it there again unless that would scroll above the
  first row. The captured row itself is used when the search finds it, a neighbour otherwise.
\<close>

theorem anchor_row_stays_put:
  assumes "mirror_wf m" "tree_ranked m (snd expd) rank"
    and "p = fold proj_step calls (readTreeProjection (mirror_like m) expd None source)"
    and "mirror_wf m'" "tree_ranked m' (snd expd') rank'"
    and "q = fold proj_step calls' (readTreeProjection (mirror_like m') expd' None source')"
    and "captureWindowedViewportAnchor p scroll rowHeight = (Some a, p')"
    and "fst (resolveWindowedViewportAnchor a p' q rowHeight) = Some r"
  shows "\<exists>k row row'. row_at (fst (readAllRows p)) k = Some row \<and> ce_id row = ar_id r
    \<and> row_at (fst (readAllRows q)) (ar_index r) = Some row' \<and> ce_id row' = ar_id r
    \<and> ar_scrollOffsetPx r = max 0 (of_int (ar_index r) * rowHeight - (of_int k * rowHeight - scroll))
    \<and> (\<not> ar_usedFallback r \<longrightarrow> k = va_index a \<and> ar_id r = va_id a)"
proof -
  note v = mirror_run(1) [OF assms(1-3)] and w = mirror_run(1) [OF assms(4-6)]
  note cap = mirror_view.capture_spec [OF v assms(7)]
  let ?P = "mirror_view.shown (m, rank) p" and ?Q = "mirror_view.shown (m', rank') q"
  have v': "mirror_view.views (m, rank) p'" "mirror_view.shown (m, rank) p' = ?P" "tp_known p' = tp_known p"
    using cap mirror_view.alike_shown mirror_view.alike_known by auto
  have idx: "0 \<le> va_index a" "va_index a < int (tp_known p')"
    using cap v v'(3) by (auto simp: row_at_def split: if_splits)
  obtain p'' q' where res: "resolveWindowedViewportAnchor a p' q rowHeight = (Some r, p'', q')"
    using assms(8) by (metis prod.collapse)
  from mirror_view.resolve_spec [OF v'(1) w idx res, of False] obtain k row where k:
    "row_at ?P k = Some row" "ar_usedFallback r \<longrightarrow> ce_id row = ar_id r"
    "\<not> ar_usedFallback r \<longrightarrow> k = va_index a \<and> ar_id r = va_id a"
    "mirror_view.at_row (m', rank') q (ar_id r) (ar_index r)"
    "ar_scrollOffsetPx r = max 0 (of_int (ar_index r) * rowHeight
       - (va_viewportOffsetPx a + of_int (k - va_index a) * rowHeight))"
    unfolding v'(2) by auto
  have "va_id a = ce_id row" if "k = va_index a"
    using cap k(1) that by (auto simp: captureViewportAnchor_def Let_def split: if_splits)
  then have "ce_id row = ar_id r" using k(2,3) by auto
  moreover have "of_int (ar_index r) * rowHeight - (va_viewportOffsetPx a + of_int (k - va_index a) * rowHeight)
      = of_int (ar_index r) * rowHeight - (of_int k * rowHeight - scroll)"
    using cap by (simp add: algebra_simps)
  moreover have "row_at ?Q (ar_index r) = Some (?Q ! nat (ar_index r))" "ce_id (?Q ! nat (ar_index r)) = ar_id r"
    using k(4) w by (auto simp: mirror_view.at_row_def row_at_def)
  moreover have "fst (readAllRows p) = ?P" "fst (readAllRows q) = ?Q"
    using mirror_view.readAllRows_shown [OF v] mirror_view.readAllRows_shown [OF w] by auto
  ultimately show ?thesis using k(1,3,5) by (intro exI [of _ k] exI [of _ row] exI [of _ "?Q ! nat (ar_index r)"]) simp
qed

theorem anchor_row_stays_put_witness:
  "\<exists>(r :: anchor_resolution) k row row'. row_at (fst (readAllRows demo_view)) k = Some row \<and> ce_id row = ar_id r
    \<and> row_at (fst (readAllRows shrunk_view)) (ar_index r) = Some row' \<and> ce_id row' = ar_id r
    \<and> ar_scrollOffsetPx r = max 0 (of_int (ar_index r) * 20 - (of_int k * 20 - 25))"
proof -
  from demo_capture obtain a p' r where "captureWindowedViewportAnchor demo_view 25 20 = (Some a, p')"
    "fst (resolveWindowedViewportAnchor a p' shrunk_view 20) = Some r" by blast
  from anchor_row_stays_put [OF demo_wf demo_view_run(2,1) shrunk_wf shrunk_view_run(2,1) this] show ?thesis by blast
qed



end
