(* ===== verification/When_Clause.thy ===== *)
theory When_Clause
  imports Mirror
begin

text \<open>
  The visibility clauses of commands (\<open>packages/mille-ui/src/commands/when.ts\<close> and
  \<open>commands/enablement.ts\<close>): a tokenizer, a recursive-descent parser with one token of look-ahead and an
  evaluator over the command context. A thrown error is a value of \<open>when_error\<close> (the message's
  position and offending text, without the surrounding prose). The parser's position is the list of
  tokens not yet consumed. The three loops of the parser and the tokenizer are recursive functions; that
  they end is the termination proof below: every parsing function that succeeds has consumed a token.

  The reference is the grammar of the module's header comment, as an inductive definition.
\<close>

section \<open>Tokens\<close>

datatype when_error =
    ExpectedAnd nat
  | ExpectedOr nat
  | UnexpectedCharacter code_unit nat
  | UnexpectedEnd
  | ExpectedParen
  | UnknownToken jstring
  | UnexpectedToken
  | TrailingInput
  | InternalUnknownToken jstring

datatype when_token = TokId jstring | TokAnd | TokOr | TokNot | TokLparen | TokRparen

definition KNOWN_TOKENS :: "jstring list" where
  "KNOWN_TOKENS = map js [''focusedIs.file'', ''focusedIs.folder'', ''focusedIs.root'',
     ''hasSelection'', ''isMultiSelect'', ''isRenaming'']"

text \<open>The character classes \<open>\s\<close>, \<open>[A-Za-z_.]\<close> and \<open>[A-Za-z0-9_.]\<close>.\<close>

definition is_space :: "code_unit \<Rightarrow> bool" where
  "is_space c \<longleftrightarrow> 9 \<le> c \<and> c \<le> 13 \<or> c \<in> {32, 160, 5760, 8232, 8233, 8239, 8287, 12288, 65279}
     \<or> 8192 \<le> c \<and> c \<le> 8202"

definition is_id_start :: "code_unit \<Rightarrow> bool" where
  "is_id_start c \<longleftrightarrow> 65 \<le> c \<and> c \<le> 90 \<or> 97 \<le> c \<and> c \<le> 122 \<or> c = 95 \<or> c = 46"

definition is_id_part :: "code_unit \<Rightarrow> bool" where
  "is_id_part c \<longleftrightarrow> is_id_start c \<or> 48 \<le> c \<and> c \<le> 57"

function (sequential) tokenize_loop :: "nat \<Rightarrow> jstring \<Rightarrow> when_token list \<Rightarrow> when_error + when_token list" where
  "tokenize_loop i [] tokens = Inr tokens"
| "tokenize_loop i (ch # rest) tokens =
     (if is_space ch then tokenize_loop (i + 1) rest tokens
      else if ch = 40 then tokenize_loop (i + 1) rest (tokens @ [TokLparen])
      else if ch = 41 then tokenize_loop (i + 1) rest (tokens @ [TokRparen])
      else if ch = 33 then tokenize_loop (i + 1) rest (tokens @ [TokNot])
      else if ch = 38
      then (case rest of
              c # rest' \<Rightarrow> if c = 38 then tokenize_loop (i + 2) rest' (tokens @ [TokAnd]) else Inl (ExpectedAnd i)
            | [] \<Rightarrow> Inl (ExpectedAnd i))
      else if ch = 124
      then (case rest of
              c # rest' \<Rightarrow> if c = 124 then tokenize_loop (i + 2) rest' (tokens @ [TokOr]) else Inl (ExpectedOr i)
            | [] \<Rightarrow> Inl (ExpectedOr i))
      else if is_id_start ch
      then let v = takeWhile is_id_part (ch # rest)
           in tokenize_loop (i + length v) (dropWhile is_id_part rest) (tokens @ [TokId v])
      else Inl (UnexpectedCharacter ch i))"
  by pat_completeness auto

termination
  by (relation "measure (\<lambda>(i, input, tokens). length input)")
     (auto simp: less_Suc_eq_le length_dropWhile_le)

definition tokenize :: "jstring \<Rightarrow> when_error + when_token list" where
  "tokenize input = tokenize_loop 0 input []"

section \<open>Parsing\<close>

datatype when_node = NId jstring | NAnd when_node when_node | NOr when_node when_node | NNot when_node

type_synonym parsed = "when_error + when_node \<times> when_token list"

function (sequential) parseOr :: "when_token list \<Rightarrow> parsed" and
  parseOr_loop :: "when_node \<Rightarrow> when_token list \<Rightarrow> parsed" and
  parseAnd :: "when_token list \<Rightarrow> parsed" and
  parseAnd_loop :: "when_node \<Rightarrow> when_token list \<Rightarrow> parsed" and
  parseNot :: "when_token list \<Rightarrow> parsed" and
  parseAtom :: "when_token list \<Rightarrow> parsed"
where
  "parseOr ts = (case parseAnd ts of Inl e \<Rightarrow> Inl e | Inr (left, rest) \<Rightarrow> parseOr_loop left rest)"
| "parseOr_loop left (TokOr # ts) =
     (case parseAnd ts of Inl e \<Rightarrow> Inl e | Inr (right, rest) \<Rightarrow> parseOr_loop (NOr left right) rest)"
| "parseOr_loop left ts = Inr (left, ts)"
| "parseAnd ts = (case parseNot ts of Inl e \<Rightarrow> Inl e | Inr (left, rest) \<Rightarrow> parseAnd_loop left rest)"
| "parseAnd_loop left (TokAnd # ts) =
     (case parseNot ts of Inl e \<Rightarrow> Inl e | Inr (right, rest) \<Rightarrow> parseAnd_loop (NAnd left right) rest)"
| "parseAnd_loop left ts = Inr (left, ts)"
| "parseNot (TokNot # ts) =
     (case parseNot ts of Inl e \<Rightarrow> Inl e | Inr (expr, rest) \<Rightarrow> Inr (NNot expr, rest))"
| "parseNot ts = parseAtom ts"
| "parseAtom [] = Inl UnexpectedEnd"
| "parseAtom (TokLparen # ts) =
     (case parseOr ts of
        Inl e \<Rightarrow> Inl e
      | Inr (node, rest) \<Rightarrow> (case rest of TokRparen # rest' \<Rightarrow> Inr (node, rest') | _ \<Rightarrow> Inl ExpectedParen))"
| "parseAtom (TokId v # ts) = (if v \<in> set KNOWN_TOKENS then Inr (NId v, ts) else Inl (UnknownToken v))"
| "parseAtom ts = Inl UnexpectedToken"
  by pat_completeness auto

text \<open>A parsing function that succeeds has consumed a token; a loop has not put any back.\<close>

lemmas parser_pinduct = parseOr_parseOr_loop_parseAnd_parseAnd_loop_parseNot_parseAtom.pinduct

lemmas parser_psimps = parseOr.psimps parseOr_loop.psimps parseAnd.psimps parseAnd_loop.psimps
  parseNot.psimps parseAtom.psimps

abbreviation parser_dom :: "(when_token list + (when_node \<times> when_token list) + when_token list)
    + (when_node \<times> when_token list) + when_token list + when_token list \<Rightarrow> bool" where
  "parser_dom \<equiv> parseOr_parseOr_loop_parseAnd_parseAnd_loop_parseNot_parseAtom_dom"

lemma parser_consumes:
  "parser_dom (Inl (Inl ts1)) \<Longrightarrow> parseOr ts1 = Inr (n, rest) \<Longrightarrow> length rest < length ts1"
  "parser_dom (Inl (Inr (Inl (l2, ts2)))) \<Longrightarrow> parseOr_loop l2 ts2 = Inr (n, rest) \<Longrightarrow> length rest \<le> length ts2"
  "parser_dom (Inl (Inr (Inr ts3))) \<Longrightarrow> parseAnd ts3 = Inr (n, rest) \<Longrightarrow> length rest < length ts3"
  "parser_dom (Inr (Inl (l4, ts4))) \<Longrightarrow> parseAnd_loop l4 ts4 = Inr (n, rest) \<Longrightarrow> length rest \<le> length ts4"
  "parser_dom (Inr (Inr (Inl ts5))) \<Longrightarrow> parseNot ts5 = Inr (n, rest) \<Longrightarrow> length rest < length ts5"
  "parser_dom (Inr (Inr (Inr ts6))) \<Longrightarrow> parseAtom ts6 = Inr (n, rest) \<Longrightarrow> length rest < length ts6"
  by (induction ts1 and l2 ts2 and ts3 and l4 ts4 and ts5 and ts6 arbitrary: n rest and n rest and n rest
        and n rest and n rest and n rest rule: parser_pinduct)
     (fastforce simp: parser_psimps split: sum.splits prod.splits if_splits list.splits when_token.splits)+

termination parseOr
proof (relation "measures [
    \<lambda>x. case x of
      Inl (Inl ts) \<Rightarrow> length ts | Inl (Inr (Inl (l, ts))) \<Rightarrow> length ts | Inl (Inr (Inr ts)) \<Rightarrow> length ts
    | Inr (Inl (l, ts)) \<Rightarrow> length ts | Inr (Inr (Inl ts)) \<Rightarrow> length ts | Inr (Inr (Inr ts)) \<Rightarrow> length ts,
    \<lambda>x. case x of
      Inl (Inl ts) \<Rightarrow> 5 | Inl (Inr (Inl (l, ts))) \<Rightarrow> 0 | Inl (Inr (Inr ts)) \<Rightarrow> 4
    | Inr (Inl (l, ts)) \<Rightarrow> 0 | Inr (Inr (Inl ts)) \<Rightarrow> 3 | Inr (Inr (Inr ts)) \<Rightarrow> 2]")
qed (auto dest: parser_consumes)

lemmas parser_induct = parseOr_parseOr_loop_parseAnd_parseAnd_loop_parseNot_parseAtom.induct

definition parse_tokens :: "when_token list \<Rightarrow> when_error + when_node" where
  "parse_tokens ts =
     (case parseOr ts of
        Inl e \<Rightarrow> Inl e
      | Inr (node, rest) \<Rightarrow> if rest = [] then Inr node else Inl TrailingInput)"

section \<open>Evaluation\<close>

text \<open>The fields of \<open>CommandContext\<close> a clause can read.\<close>

record command_context =
  cc_focusedEntry :: "client_entry option"
  cc_selectedIds :: "int jset"
  cc_isMultiSelect :: bool
  cc_isRenaming :: bool

definition isKind :: "client_entry option \<Rightarrow> int \<Rightarrow> bool" where
  "isKind entry kind = (case entry of Some e \<Rightarrow> ce_kind e = kind | None \<Rightarrow> False)"

definition evalToken :: "jstring \<Rightarrow> command_context \<Rightarrow> when_error + bool" where
  "evalToken token ctx =
     (if token = js ''focusedIs.file'' then Inr (isKind (cc_focusedEntry ctx) 0)
      else if token = js ''focusedIs.folder'' then Inr (isKind (cc_focusedEntry ctx) 1)
      else if token = js ''focusedIs.root''
      then Inr (case cc_focusedEntry ctx of Some e \<Rightarrow> ce_parentId e = None | None \<Rightarrow> False)
      else if token = js ''hasSelection'' then Inr (length (cc_selectedIds ctx) > 0)
      else if token = js ''isMultiSelect'' then Inr (cc_isMultiSelect ctx)
      else if token = js ''isRenaming'' then Inr (cc_isRenaming ctx)
      else Inl (InternalUnknownToken token))"

fun evalNode :: "when_node \<Rightarrow> command_context \<Rightarrow> when_error + bool" where
  "evalNode (NId v) ctx = evalToken v ctx"
| "evalNode (NAnd l r) ctx = rbind (evalNode l ctx) (\<lambda>b. if b then evalNode r ctx else Inr False)"
| "evalNode (NOr l r) ctx = rbind (evalNode l ctx) (\<lambda>b. if b then Inr True else evalNode r ctx)"
| "evalNode (NNot n) ctx = rbind (evalNode n ctx) (\<lambda>b. Inr (\<not> b))"

text \<open>No clause, a predicate of the host, or a text.\<close>

datatype when_clause = NoClause | ClauseFunction "command_context \<Rightarrow> bool" | ClauseText jstring

fun evaluateWhen :: "when_clause \<Rightarrow> command_context \<Rightarrow> when_error + bool" where
  "evaluateWhen NoClause ctx = Inr True"
| "evaluateWhen (ClauseFunction f) ctx = Inr (f ctx)"
| "evaluateWhen (ClauseText clause) ctx =
     rbind (tokenize clause) (\<lambda>tokens. rbind (parse_tokens tokens) (\<lambda>ast. evalNode ast ctx))"

definition evaluateEnablement :: "when_clause \<Rightarrow> command_context \<Rightarrow> when_error + bool" where
  "evaluateEnablement enablement ctx =
     (case enablement of NoClause \<Rightarrow> Inr True | ClauseFunction f \<Rightarrow> Inr (f ctx) | e \<Rightarrow> evaluateWhen e ctx)"

section \<open>The grammar\<close>

inductive gOr and gAnd and gNot and gAtom :: "when_token list \<Rightarrow> when_node \<Rightarrow> bool" where
  or_one: "gAnd ts n \<Longrightarrow> gOr ts n"
| or_more: "gOr ts l \<Longrightarrow> gAnd us r \<Longrightarrow> gOr (ts @ TokOr # us) (NOr l r)"
| and_one: "gNot ts n \<Longrightarrow> gAnd ts n"
| and_more: "gAnd ts l \<Longrightarrow> gNot us r \<Longrightarrow> gAnd (ts @ TokAnd # us) (NAnd l r)"
| not_not: "gNot ts n \<Longrightarrow> gNot (TokNot # ts) (NNot n)"
| not_atom: "gAtom ts n \<Longrightarrow> gNot ts n"
| atom_id: "v \<in> set KNOWN_TOKENS \<Longrightarrow> gAtom [TokId v] (NId v)"
| atom_paren: "gOr ts n \<Longrightarrow> gAtom (TokLparen # ts @ [TokRparen]) n"

section \<open>Printing\<close>

text \<open>The tokens of a node with the parentheses its position needs: 0 under \<open>or\<close>, 1 under \<open>and\<close>, 2 under \<open>not\<close>.\<close>

definition parens :: "bool \<Rightarrow> when_token list \<Rightarrow> when_token list" where
  "parens b ts = (if b then TokLparen # ts @ [TokRparen] else ts)"

fun tokens_at :: "nat \<Rightarrow> when_node \<Rightarrow> when_token list" where
  "tokens_at p (NId v) = [TokId v]"
| "tokens_at p (NOr l r) = parens (0 < p) (tokens_at 0 l @ TokOr # tokens_at 1 r)"
| "tokens_at p (NAnd l r) = parens (1 < p) (tokens_at 1 l @ TokAnd # tokens_at 2 r)"
| "tokens_at p (NNot n) = TokNot # tokens_at 2 n"

fun show_token :: "when_token \<Rightarrow> jstring" where
  "show_token (TokId v) = v"
| "show_token TokAnd = js ''&&''"
| "show_token TokOr = js ''||''"
| "show_token TokNot = js ''!''"
| "show_token TokLparen = js ''(''"
| "show_token TokRparen = js '')''"

definition show_tokens :: "when_token list \<Rightarrow> jstring" where
  "show_tokens ts = concat (map (\<lambda>t. show_token t @ js '' '') ts)"

fun known_node :: "when_node \<Rightarrow> bool" where
  "known_node (NId v) \<longleftrightarrow> v \<in> set KNOWN_TOKENS"
| "known_node (NAnd l r) \<longleftrightarrow> known_node l \<and> known_node r"
| "known_node (NOr l r) \<longleftrightarrow> known_node l \<and> known_node r"
| "known_node (NNot n) \<longleftrightarrow> known_node n"

text \<open>What a clause means, as a total function.\<close>

definition token_holds :: "jstring \<Rightarrow> command_context \<Rightarrow> bool" where
  "token_holds v ctx = (case evalToken v ctx of Inr b \<Rightarrow> b | Inl _ \<Rightarrow> False)"

fun node_holds :: "when_node \<Rightarrow> command_context \<Rightarrow> bool" where
  "node_holds (NId v) ctx = token_holds v ctx"
| "node_holds (NAnd l r) ctx = (node_holds l ctx \<and> node_holds r ctx)"
| "node_holds (NOr l r) ctx = (node_holds l ctx \<or> node_holds r ctx)"
| "node_holds (NNot n) ctx = (\<not> node_holds n ctx)"

section \<open>Lemmas\<close>

subsection \<open>The parser and the grammar\<close>

definition no_and :: "when_token list \<Rightarrow> bool" where
  "no_and ts = (case ts of TokAnd # _ \<Rightarrow> False | _ \<Rightarrow> True)"

definition no_or :: "when_token list \<Rightarrow> bool" where
  "no_or ts = (case ts of TokOr # _ \<Rightarrow> False | _ \<Rightarrow> True)"

lemma loops_stop:
  "no_or ts \<Longrightarrow> parseOr_loop n ts = Inr (n, ts)"
  "no_and ts \<Longrightarrow> parseAnd_loop n ts = Inr (n, ts)"
  by (auto simp: no_or_def no_and_def split: list.splits when_token.splits)

declare parseOr.simps [simp del] parseAnd.simps [simp del]

lemma grammar_parses:
  "gOr ts n \<Longrightarrow> no_and rest \<Longrightarrow> parseOr (ts @ rest) = parseOr_loop n rest"
  "gAnd ts n \<Longrightarrow> parseAnd (ts @ rest) = parseAnd_loop n rest"
  "gNot ts n \<Longrightarrow> parseNot (ts @ rest) = Inr (n, rest)"
  "gAtom ts n \<Longrightarrow> parseAtom (ts @ rest) = Inr (n, rest) \<and> (\<exists>t us. ts = t # us \<and> t \<noteq> TokNot)"
proof (induction arbitrary: rest and rest and rest and rest rule: gOr_gAnd_gNot_gAtom.inducts)
  case (or_more ts l us r)
  then show ?case by (simp add: no_and_def loops_stop)
next
  case (not_atom ts n)
  then obtain t us where "ts = t # us" "t \<noteq> TokNot" by blast
  with not_atom.IH [of rest] show ?case by (cases t) auto
next
  case (atom_paren ts n)
  then show ?case by (simp add: no_and_def no_or_def loops_stop)
qed (simp_all add: parseOr.simps parseAnd.simps loops_stop)

lemma parses_grammar:
  "parseOr ts1 = Inr (n1, rest1) \<Longrightarrow> \<exists>us. ts1 = us @ rest1 \<and> gOr us n1"
  "parseOr_loop l2 ts2 = Inr (n2, rest2) \<Longrightarrow> \<exists>us. ts2 = us @ rest2 \<and> (\<forall>vs. gOr vs l2 \<longrightarrow> gOr (vs @ us) n2)"
  "parseAnd ts3 = Inr (n3, rest3) \<Longrightarrow> \<exists>us. ts3 = us @ rest3 \<and> gAnd us n3"
  "parseAnd_loop l4 ts4 = Inr (n4, rest4) \<Longrightarrow> \<exists>us. ts4 = us @ rest4 \<and> (\<forall>vs. gAnd vs l4 \<longrightarrow> gAnd (vs @ us) n4)"
  "parseNot ts5 = Inr (n5, rest5) \<Longrightarrow> \<exists>us. ts5 = us @ rest5 \<and> gNot us n5"
  "parseAtom ts6 = Inr (n6, rest6) \<Longrightarrow> \<exists>us. ts6 = us @ rest6 \<and> gAtom us n6"
proof (induction ts1 and l2 ts2 and ts3 and l4 ts4 and ts5 and ts6
    arbitrary: n1 rest1 and n2 rest2 and n3 rest3 and n4 rest4 and n5 rest5 and n6 rest6
    rule: parser_induct)
  case (1 ts)
  then obtain l mid where l: "parseAnd ts = Inr (l, mid)" "parseOr_loop l mid = Inr (n1, rest1)"
    by (auto simp: parseOr.simps split: sum.splits)
  from 1(1) [OF l(1)] 1(2) [OF l(1) refl l(2)] show ?case using or_one by fastforce
next
  case (2 left ts)
  then obtain r mid where r: "parseAnd ts = Inr (r, mid)" "parseOr_loop (NOr left r) mid = Inr (n2, rest2)"
    by (auto split: sum.splits)
  from 2(1) [OF r(1)] obtain us where us: "ts = us @ mid" "gAnd us r" by blast
  from 2(2) [OF r(1) refl r(2)] obtain ws where ws: "mid = ws @ rest2"
    "\<forall>vs. gOr vs (NOr left r) \<longrightarrow> gOr (vs @ ws) n2" by blast
  have "gOr (vs @ (TokOr # us @ ws)) n2" if "gOr vs left" for vs
    using ws(2) [rule_format, OF or_more [OF that us(2)]] by simp
  then show ?case using us(1) ws(1) by (intro exI [of _ "TokOr # us @ ws"]) simp
next
  case (4 ts)
  then obtain l mid where l: "parseNot ts = Inr (l, mid)" "parseAnd_loop l mid = Inr (n3, rest3)"
    by (auto simp: parseAnd.simps split: sum.splits)
  from 4(1) [OF l(1)] 4(2) [OF l(1) refl l(2)] show ?case using and_one by fastforce
next
  case (5 left ts)
  then obtain r mid where r: "parseNot ts = Inr (r, mid)" "parseAnd_loop (NAnd left r) mid = Inr (n4, rest4)"
    by (auto split: sum.splits)
  from 5(1) [OF r(1)] obtain us where us: "ts = us @ mid" "gNot us r" by blast
  from 5(2) [OF r(1) refl r(2)] obtain ws where ws: "mid = ws @ rest4"
    "\<forall>vs. gAnd vs (NAnd left r) \<longrightarrow> gAnd (vs @ ws) n4" by blast
  have "gAnd (vs @ (TokAnd # us @ ws)) n4" if "gAnd vs left" for vs
    using ws(2) [rule_format, OF and_more [OF that us(2)]] by simp
  then show ?case using us(1) ws(1) by (intro exI [of _ "TokAnd # us @ ws"]) simp
next
  case (7 ts)
  then show ?case by (fastforce split: sum.splits dest: not_not)
next
  case (10 ts)
  then obtain mid where "parseOr ts = Inr (n6, TokRparen # rest6)"
    by (auto split: sum.splits list.splits when_token.splits)
  from 10(1) [OF this] show ?case using atom_paren by fastforce
next
  case (11 v ts)
  then show ?case using atom_id [of v] by (auto split: if_splits)
qed (auto intro: not_atom simp del: parseAtom.simps(2,3))

lemma parse_tokens_grammar: "parse_tokens ts = Inr n \<longleftrightarrow> gOr ts n"
proof
  assume "parse_tokens ts = Inr n"
  then have "parseOr ts = Inr (n, [])"
    by (auto simp: parse_tokens_def split: sum.splits if_splits)
  then show "gOr ts n" using parses_grammar(1) by fastforce
next
  assume "gOr ts n"
  from grammar_parses(1) [OF this, of "[]"] show "parse_tokens ts = Inr n"
    by (simp add: parse_tokens_def no_and_def)
qed

lemma grammar_known:
  "gOr ts n \<Longrightarrow> known_node n" "gAnd ts n \<Longrightarrow> known_node n"
  "gNot ts n \<Longrightarrow> known_node n" "gAtom ts n \<Longrightarrow> known_node n"
  by (induction rule: gOr_gAnd_gNot_gAtom.inducts) simp_all

subsection \<open>Errors\<close>

definition syntax_error :: "when_error \<Rightarrow> bool" where
  "syntax_error e = (case e of InternalUnknownToken _ \<Rightarrow> False | _ \<Rightarrow> True)"

lemma tokenize_errors: "tokenize_loop i input ts = Inl e \<Longrightarrow> syntax_error e"
  by (induction i input ts rule: tokenize_loop.induct)
     (auto simp: syntax_error_def Let_def split: if_splits list.splits)

lemma parse_errors:
  "parseOr ts1 = Inl e \<Longrightarrow> syntax_error e"
  "parseOr_loop l2 ts2 = Inl e \<Longrightarrow> syntax_error e"
  "parseAnd ts3 = Inl e \<Longrightarrow> syntax_error e"
  "parseAnd_loop l4 ts4 = Inl e \<Longrightarrow> syntax_error e"
  "parseNot ts5 = Inl e \<Longrightarrow> syntax_error e"
  "parseAtom ts6 = Inl e \<Longrightarrow> syntax_error e"
proof (induction ts1 and l2 ts2 and ts3 and l4 ts4 and ts5 and ts6 rule: parser_induct)
  case (10 ts)
  then show ?case by (auto simp: syntax_error_def split: sum.splits list.splits when_token.splits)
qed (auto simp: parseOr.simps parseAnd.simps syntax_error_def split: sum.splits if_splits)

lemma evalToken_known: "v \<in> set KNOWN_TOKENS \<Longrightarrow> evalToken v ctx = Inr (token_holds v ctx)"
  by (auto simp: KNOWN_TOKENS_def token_holds_def evalToken_def)

lemma evalNode_known: "known_node n \<Longrightarrow> evalNode n ctx = Inr (node_holds n ctx)"
  by (induction n) (auto simp: evalToken_known)

subsection \<open>Printing\<close>

lemma printed_derives:
  "known_node n \<Longrightarrow>
    gOr (tokens_at 0 n) n \<and> gAnd (tokens_at 1 n) n \<and> gNot (tokens_at 2 n) n"
proof (induction n)
  case (NId v)
  then show ?case by (auto intro: gOr_gAnd_gNot_gAtom.intros)
next
  case (NAnd l r)
  then have a: "gAnd (tokens_at 1 l @ TokAnd # tokens_at 2 r) (NAnd l r)" by (auto intro: and_more)
  then have "gNot (TokLparen # (tokens_at 1 l @ TokAnd # tokens_at 2 r) @ [TokRparen]) (NAnd l r)"
    by (intro not_atom atom_paren or_one)
  with a show ?case by (auto simp: parens_def intro: or_one)
next
  case (NOr l r)
  then have a: "gOr (tokens_at 0 l @ TokOr # tokens_at 1 r) (NOr l r)" by (auto intro: or_more)
  then have "gNot (TokLparen # (tokens_at 0 l @ TokOr # tokens_at 1 r) @ [TokRparen]) (NOr l r)"
    by (intro not_atom atom_paren)
  with a show ?case by (auto simp: parens_def intro: and_one)
next
  case (NNot n)
  then show ?case by (auto intro: gOr_gAnd_gNot_gAtom.intros)
qed

lemma printed_ids: "known_node n \<Longrightarrow> TokId v \<in> set (tokens_at p n) \<Longrightarrow> v \<in> set KNOWN_TOKENS"
  by (induction p n rule: tokens_at.induct) (auto simp: parens_def split: if_splits)

definition id_text :: "jstring \<Rightarrow> bool" where
  "id_text v \<longleftrightarrow> v \<noteq> [] \<and> is_id_start (hd v) \<and> list_all is_id_part v"

lemma known_id_text: "v \<in> set KNOWN_TOKENS \<Longrightarrow> id_text v"
  by (auto simp: KNOWN_TOKENS_def js_def id_text_def is_id_start_def is_id_part_def)

lemma id_start_not:
  assumes "is_id_start c"
  shows "\<not> is_space c" "c \<noteq> 40" "c \<noteq> 41" "c \<noteq> 33" "c \<noteq> 38" "c \<noteq> 124"
  using assms by (auto simp: is_id_start_def is_space_def word_le_nat_alt)

lemma tokenize_id:
  assumes "id_text v"
  shows "tokenize_loop i (v @ 32 # rest) ts = tokenize_loop (i + length v + 1) rest (ts @ [TokId v])"
proof -
  obtain c cs where v: "v = c # cs" using assms by (cases v) (auto simp: id_text_def)
  have c: "is_id_start c" "list_all is_id_part cs" "is_id_part c" using assms v by (auto simp: id_text_def)
  have sp: "\<not> is_id_part 32" "is_space 32" by (simp_all add: is_id_part_def is_id_start_def is_space_def)
  have "takeWhile is_id_part (v @ 32 # rest) = v" "dropWhile is_id_part (cs @ 32 # rest) = 32 # rest"
    using c sp v by (auto simp: takeWhile_append list_all_iff dropWhile_append)
  then show ?thesis using id_start_not [OF c(1)] c sp by (simp add: v Let_def)
qed

lemma tokenize_shown:
  assumes "\<And>v. TokId v \<in> set ts \<Longrightarrow> id_text v"
  shows "tokenize_loop i (show_tokens ts) acc = Inr (acc @ ts)"
  using assms
proof (induction ts arbitrary: i acc)
  case (Cons t ts)
  then show ?case
    by (cases t) (auto simp: show_tokens_def tokenize_id js_def is_space_def)
qed (simp add: show_tokens_def)

text \<open>A context in which a file is focused and nothing is selected.\<close>

definition file_context :: command_context where
  "file_context = \<lparr> cc_focusedEntry = Some \<lparr>ce_id = 7, ce_parentId = Some 1, ce_name = js ''a'', ce_kind = 0,
       ce_size = 0, ce_mtimeMs = 0, ce_ctimeMs = 0, ce_symlinkTargetIsDir = None, ce_pathSegments = None,
       ce_isIgnored = False, ce_isReadonly = False, ce_isHidden = False\<rparr>,
     cc_selectedIds = [], cc_isMultiSelect = False, cc_isRenaming = False \<rparr>"

section \<open>Properties\<close>

text \<open>
  C33: what a textual clause evaluates to. \<open>evaluateWhen\<close> returns \<open>b\<close> exactly when the text splits into
  tokens that the documented grammar derives for some tree, with \<open>!\<close> binding closer than \<open>&&\<close> and \<open>&&\<close>
  closer than \<open>||\<close> and both grouping to the left, and \<open>b\<close> is the Boolean value of that tree in the context.
\<close>

theorem when_clause_meaning:
  "evaluateWhen (ClauseText clause) ctx = Inr b \<longleftrightarrow>
     (\<exists>ts n. tokenize clause = Inr ts \<and> gOr ts n \<and> b = node_holds n ctx)"
proof -
  have "gOr ts n \<and> evalNode n ctx = Inr b \<longleftrightarrow> gOr ts n \<and> b = node_holds n ctx" for ts n
    using evalNode_known grammar_known(1) by auto
  then show ?thesis by (simp add: rbind_eq_Inr parse_tokens_grammar)
qed

text \<open>
  C34: printing a tree with the parentheses its positions need and reading it back gives the tree: the
  tokenizer and the parser undo the printer for every tree over the known tokens.
\<close>

theorem when_clause_roundtrip:
  assumes "known_node n"
  shows "rbind (tokenize (show_tokens (tokens_at 0 n))) parse_tokens = Inr n"
proof -
  have "tokenize (show_tokens (tokens_at 0 n)) = Inr (tokens_at 0 n)"
    using tokenize_shown [of "tokens_at 0 n" 0 "[]"] printed_ids [OF assms] known_id_text
    by (simp add: tokenize_def)
  then show ?thesis using printed_derives [OF assms] by (simp add: parse_tokens_grammar)
qed

theorem when_clause_roundtrip_witness:
  "rbind (tokenize (js ''! ( isRenaming || hasSelection ) && focusedIs.file '')) parse_tokens =
     Inr (NAnd (NNot (NOr (NId (js ''isRenaming'')) (NId (js ''hasSelection'')))) (NId (js ''focusedIs.file'')))"
  using when_clause_roundtrip [of "NAnd (NNot (NOr (NId (js ''isRenaming'')) (NId (js ''hasSelection''))))
      (NId (js ''focusedIs.file''))"]
  by (simp add: KNOWN_TOKENS_def parens_def show_tokens_def js_def)

text \<open>
  Evaluation never reaches the error the source marks as unreachable, and whether a clause throws
  does not depend on the context: every error is one of syntax, the same in every context.
\<close>

theorem when_errors_are_syntax:
  assumes "evaluateWhen clause ctx = Inl e"
  shows "syntax_error e \<and> evaluateWhen clause ctx' = Inl e"
proof (cases clause)
  case (ClauseText source)
  show ?thesis
  proof (cases "tokenize source")
    case (Inl e')
    then show ?thesis using assms ClauseText tokenize_errors by (auto simp: tokenize_def)
  next
    case (Inr ts)
    show ?thesis
    proof (cases "parse_tokens ts")
      case (Inl e')
      moreover from this have "syntax_error e'"
        using parse_errors(1) by (auto simp: parse_tokens_def syntax_error_def split: sum.splits if_splits)
      ultimately show ?thesis using assms ClauseText Inr by simp
    next
      case node: (Inr n)
      then have "known_node n" using parse_tokens_grammar grammar_known by blast
      then show ?thesis using assms ClauseText Inr node by (simp add: evalNode_known)
    qed
  qed
qed (use assms in simp_all)

theorem when_errors_are_syntax_witness:
  "syntax_error TrailingInput
   \<and> evaluateWhen (ClauseText (js ''isRenaming )'')) (file_context\<lparr>cc_isRenaming := True\<rparr>) = Inl TrailingInput"
proof -
  have "tokenize (js ''isRenaming )'') = Inr [TokId (js ''isRenaming''), TokRparen]"
    by (simp add: tokenize_def js_def is_space_def is_id_start_def is_id_part_def Let_def)
  then have "evaluateWhen (ClauseText (js ''isRenaming )'')) file_context = Inl TrailingInput"
    by (simp add: parse_tokens_def parseOr.simps parseAnd.simps KNOWN_TOKENS_def)
  from when_errors_are_syntax [OF this] show ?thesis by blast
qed

end
