(* ===== verification/Keybinding.thy ===== *)
theory Keybinding
  imports When_Clause Json
begin

text \<open>
  Keyboard shortcuts (\<open>packages/mille-ui/src/commands/keybinding.ts\<close>): the parser of binding strings,
  the matcher against key events and the display form. The platform test \<open>isMac\<close> is an argument.
  \<open>toLowerCase\<close> and \<open>toUpperCase\<close> are a parameter too, since their tables are Unicode's; what the
  statements use of them is their effect on ASCII text (\<open>ascii_case\<close>). \<open>trim\<close> removes the characters of
  \<open>\s\<close>.
\<close>

section \<open>Keys\<close>

record case_maps =
  toLowerCase :: "jstring \<Rightarrow> jstring"
  toUpperCase :: "jstring \<Rightarrow> jstring"

definition raise_case :: "code_unit \<Rightarrow> code_unit" where
  "raise_case c = (if 97 \<le> c \<and> c \<le> 122 then c - 32 else c)"

definition ascii :: "jstring \<Rightarrow> bool" where
  "ascii s = list_all (\<lambda>c. c < 128) s"

definition ascii_case :: "case_maps \<Rightarrow> bool" where
  "ascii_case cm \<longleftrightarrow> (\<forall>s. ascii s \<longrightarrow>
     toLowerCase cm s = map fold_case s \<and> toUpperCase cm s = map raise_case s)"

record parsed_keybinding =
  pk_cmd :: bool
  pk_ctrl :: bool
  pk_alt :: bool
  pk_shift :: bool
  pk_key :: jstring

datatype keybinding_error =
    EmptyKeybinding
  | MalformedKeybinding
  | UnknownModifier jstring
  | MissingKey

definition is_letter :: "code_unit \<Rightarrow> bool" where
  "is_letter c \<longleftrightarrow> 65 \<le> c \<and> c \<le> 90 \<or> 97 \<le> c \<and> c \<le> 122"

definition key_names :: "(jstring \<times> jstring) list" where
  "key_names = map (map_prod js js)
     [(''up'', ''ArrowUp''), (''down'', ''ArrowDown''), (''left'', ''ArrowLeft''), (''right'', ''ArrowRight''),
      (''esc'', ''Escape''), (''escape'', ''Escape''), (''enter'', ''Enter''), (''return'', ''Enter''),
      (''tab'', ''Tab''), (''space'', '' ''), (''spacebar'', '' ''), (''del'', ''Delete''),
      (''delete'', ''Delete''), (''backspace'', ''Backspace''), (''home'', ''Home''), (''end'', ''End''),
      (''pageup'', ''PageUp''), (''pagedown'', ''PageDown''), (''arrowup'', ''ArrowUp''),
      (''arrowdown'', ''ArrowDown''), (''arrowleft'', ''ArrowLeft''), (''arrowright'', ''ArrowRight'')]"

text \<open>\<open>/^f(\d{1,2})$/i\<close>.\<close>

definition is_function_key :: "jstring \<Rightarrow> bool" where
  "is_function_key t \<longleftrightarrow>
     (case t of f # ds \<Rightarrow> (f = 102 \<or> f = 70) \<and> (length ds = 1 \<or> length ds = 2) \<and> list_all is_digit ds
      | [] \<Rightarrow> False)"

definition normalizeKey :: "case_maps \<Rightarrow> jstring \<Rightarrow> jstring" where
  "normalizeKey cm token =
     (if length token = 1 then (if is_letter (hd token) then toUpperCase cm token else token)
      else case map_of key_names (toLowerCase cm token) of
        Some name \<Rightarrow> name
      | None \<Rightarrow> if is_function_key token then js ''F'' @ digits (nat (digit_value (tl token))) else token)"

section \<open>Parsing\<close>

fun split_plus :: "jstring \<Rightarrow> jstring list" where
  "split_plus [] = [[]]"
| "split_plus (c # cs) =
     (if c = 43 then [] # split_plus cs
      else case split_plus cs of part # parts \<Rightarrow> (c # part) # parts | [] \<Rightarrow> [[c]])"

definition js_trim :: "jstring \<Rightarrow> jstring" where
  "js_trim s = rev (dropWhile is_space (rev (dropWhile is_space s)))"

definition apply_modifier ::
  "case_maps \<Rightarrow> bool \<Rightarrow> jstring \<Rightarrow> parsed_keybinding \<Rightarrow> keybinding_error + parsed_keybinding" where
  "apply_modifier cm mac tok m =
     (let lower = toLowerCase cm tok
      in if lower = js ''mod'' then Inr (if mac then m\<lparr>pk_cmd := True\<rparr> else m\<lparr>pk_ctrl := True\<rparr>)
         else if lower \<in> {js ''cmd'', js ''meta'', js ''super''} then Inr (m\<lparr>pk_cmd := True\<rparr>)
         else if lower \<in> {js ''ctrl'', js ''control''} then Inr (m\<lparr>pk_ctrl := True\<rparr>)
         else if lower \<in> {js ''alt'', js ''option'', js ''opt''} then Inr (m\<lparr>pk_alt := True\<rparr>)
         else if lower = js ''shift'' then Inr (m\<lparr>pk_shift := True\<rparr>)
         else Inl (UnknownModifier tok))"

text \<open>The loop over the tokens; the key token is set by the last one unless the string ended in \<open>+\<close>.\<close>

fun keybinding_tokens :: "case_maps \<Rightarrow> bool \<Rightarrow> jstring list \<Rightarrow> jstring option \<Rightarrow> parsed_keybinding
    \<Rightarrow> keybinding_error + jstring option \<times> parsed_keybinding" where
  "keybinding_tokens cm mac [] keyToken m = Inr (keyToken, m)"
| "keybinding_tokens cm mac (tok # rest) keyToken m =
     (if tok = [] then Inl MalformedKeybinding
      else if rest \<noteq> [] \<or> keyToken \<noteq> None
      then rbind (apply_modifier cm mac tok m) (keybinding_tokens cm mac rest keyToken)
      else keybinding_tokens cm mac rest (Some tok) m)"

definition no_modifiers :: parsed_keybinding where
  "no_modifiers = \<lparr>pk_cmd = False, pk_ctrl = False, pk_alt = False, pk_shift = False, pk_key = []\<rparr>"

definition parseKeybinding :: "case_maps \<Rightarrow> bool \<Rightarrow> jstring \<Rightarrow> keybinding_error + parsed_keybinding" where
  "parseKeybinding cm mac str =
     (if str = [] then Inl EmptyKeybinding
      else let parts = split_plus (js_trim str);
               lastEmpty = (length parts \<ge> 2 \<and> last parts = []);
               tokens = (if lastEmpty then butlast parts else parts)
      in rbind (keybinding_tokens cm mac tokens (if lastEmpty then Some (js ''+'') else None) no_modifiers)
           (\<lambda>(keyToken, m). case keyToken of
              None \<Rightarrow> Inl MissingKey
            | Some key \<Rightarrow> Inr (m\<lparr>pk_key := normalizeKey cm key\<rparr>)))"

section \<open>Matching and display\<close>

record keyboard_event =
  ke_key :: jstring
  ke_meta :: bool
  ke_ctrl :: bool
  ke_alt :: bool
  ke_shift :: bool

definition matchKeybinding :: "case_maps \<Rightarrow> keyboard_event \<Rightarrow> parsed_keybinding \<Rightarrow> bool" where
  "matchKeybinding cm event p =
     (if ke_meta event \<noteq> pk_cmd p then False
      else if ke_ctrl event \<noteq> pk_ctrl p then False
      else if ke_alt event \<noteq> pk_alt p then False
      else if ke_shift event \<noteq> pk_shift p then False
      else if length (pk_key p) = 1 \<and> length (ke_key event) = 1
      then toUpperCase cm (pk_key p) = toUpperCase cm (ke_key event)
      else pk_key p = ke_key event)"

definition formatKeyToken :: "jstring \<Rightarrow> jstring" where
  "formatKeyToken key =
     (if key = js '' '' then js ''Space''
      else if key = js ''ArrowUp'' then [8593]
      else if key = js ''ArrowDown'' then [8595]
      else if key = js ''ArrowLeft'' then [8592]
      else if key = js ''ArrowRight'' then [8594]
      else key)"

fun join_plus :: "jstring list \<Rightarrow> jstring" where
  "join_plus [] = []"
| "join_plus [part] = part"
| "join_plus (part # parts) = part @ js ''+'' @ join_plus parts"

definition formatKeybinding :: "bool \<Rightarrow> parsed_keybinding \<Rightarrow> jstring" where
  "formatKeybinding mac p =
     (if mac
      then (if pk_ctrl p then [8963] else []) @ (if pk_alt p then [8997] else [])
        @ (if pk_shift p then [8679] else []) @ (if pk_cmd p then [8984] else []) @ formatKeyToken (pk_key p)
      else join_plus ((if pk_ctrl p then [js ''Ctrl''] else []) @ (if pk_cmd p then [js ''Meta''] else [])
        @ (if pk_alt p then [js ''Alt''] else []) @ (if pk_shift p then [js ''Shift''] else [])
        @ [formatKeyToken (pk_key p)]))"

section \<open>Lemmas\<close>

lemma js_eq_Nil [simp]: "js s = [] \<longleftrightarrow> s = []"
  by (simp add: js_def)

lemma split_plus_ne [simp]: "split_plus s \<noteq> []"
  by (induction s) (auto split: list.splits)

lemma split_plus_Cons:
  "c \<noteq> 43 \<Longrightarrow> split_plus (c # cs) = (c # hd (split_plus cs)) # tl (split_plus cs)"
  by (simp split: list.splits)

lemma split_plus_part:
  "43 \<notin> set p \<Longrightarrow> split_plus (p @ s) = (p @ hd (split_plus s)) # tl (split_plus s)"
  by (induction p) (auto simp: split_plus_Cons simp del: split_plus.simps(2))

lemma split_join_plus:
  "ps \<noteq> [] \<Longrightarrow> \<forall>p \<in> set ps. 43 \<notin> set p \<Longrightarrow> split_plus (join_plus ps) = ps"
proof (induction ps rule: join_plus.induct)
  case (2 part)
  then show ?case using split_plus_part [of part "[]"] by simp
next
  case (3 part q parts)
  then show ?case using split_plus_part [of part "43 # join_plus (q # parts)"] by (simp add: js_def)
qed simp

lemma split_plus_tail: "split_plus (s @ [43, 43]) = split_plus s @ [[], []]"
proof (induction s)
  case (Cons c s)
  then show ?case by (cases "split_plus s") auto
qed simp

lemma empty_token_rejected:
  "[] \<in> set ts \<Longrightarrow> \<exists>e. keybinding_tokens cm mac ts k m = Inl e"
proof (induction ts arbitrary: k m)
  case (Cons t ts)
  show ?case
  proof (cases "t = []")
    case False
    then have "[] \<in> set ts" using Cons.prems by simp
    with Cons.IH False show ?thesis by (cases "apply_modifier cm mac t m") auto
  qed simp
qed simp

lemma js_trim_id:
  assumes "s \<noteq> []" "\<not> is_space (hd s)" "\<not> is_space (last s)"
  shows "js_trim s = s"
proof -
  have "dropWhile is_space s = s" using assms(1,2) by (cases s) auto
  moreover have "dropWhile is_space (rev s) = rev s" using assms(1,3) by (cases s rule: rev_cases) auto
  ultimately show ?thesis by (simp add: js_trim_def)
qed

lemma lower_ascii: "ascii_case cm \<Longrightarrow> ascii s \<Longrightarrow> toLowerCase cm s = map fold_case s"
  by (simp add: ascii_case_def)

lemma upper_ascii: "ascii_case cm \<Longrightarrow> ascii s \<Longrightarrow> toUpperCase cm s = map raise_case s"
  by (simp add: ascii_case_def)

lemma printed_modifiers:
  assumes "ascii_case cm"
  shows "apply_modifier cm mac (js ''Ctrl'') m = Inr (m\<lparr>pk_ctrl := True\<rparr>)"
    "apply_modifier cm mac (js ''Meta'') m = Inr (m\<lparr>pk_cmd := True\<rparr>)"
    "apply_modifier cm mac (js ''Alt'') m = Inr (m\<lparr>pk_alt := True\<rparr>)"
    "apply_modifier cm mac (js ''Shift'') m = Inr (m\<lparr>pk_shift := True\<rparr>)"
  using assms
  by (simp_all add: apply_modifier_def Let_def lower_ascii ascii_def js_def fold_case_def)

text \<open>Keys whose display form can be read back.\<close>

definition readable_key :: "case_maps \<Rightarrow> jstring \<Rightarrow> bool" where
  "readable_key cm k \<longleftrightarrow> k = js '' '' \<or>
     k \<noteq> [] \<and> normalizeKey cm k = k \<and> 43 \<notin> set k \<and> \<not> is_space (hd k) \<and> \<not> is_space (last k)
     \<and> k \<notin> {js ''ArrowUp'', js ''ArrowDown'', js ''ArrowLeft'', js ''ArrowRight''}"

lemma readable_token:
  assumes "ascii_case cm" "readable_key cm k"
  shows "formatKeyToken k \<noteq> []" "43 \<notin> set (formatKeyToken k)" "\<not> is_space (hd (formatKeyToken k))"
    "\<not> is_space (last (formatKeyToken k))" "normalizeKey cm (formatKeyToken k) = k"
proof -
  have "formatKeyToken k \<noteq> [] \<and> 43 \<notin> set (formatKeyToken k) \<and> \<not> is_space (hd (formatKeyToken k))
    \<and> \<not> is_space (last (formatKeyToken k)) \<and> normalizeKey cm (formatKeyToken k) = k"
  proof (cases "k = js '' ''")
    case True
    have "normalizeKey cm (js ''Space'') = js '' ''"
      using assms(1) by (simp add: normalizeKey_def lower_ascii ascii_def js_def fold_case_def key_names_def)
    then show ?thesis using True by (simp add: formatKeyToken_def) (simp add: js_def is_space_def)
  next
    case False
    then have "formatKeyToken k = k" using assms(2) by (simp add: formatKeyToken_def readable_key_def)
    then show ?thesis using False assms(2) by (simp add: readable_key_def)
  qed
  then show "formatKeyToken k \<noteq> []" "43 \<notin> set (formatKeyToken k)" "\<not> is_space (hd (formatKeyToken k))"
    "\<not> is_space (last (formatKeyToken k))" "normalizeKey cm (formatKeyToken k) = k" by blast+
qed

definition printed_mods :: "parsed_keybinding \<Rightarrow> jstring list" where
  "printed_mods p = (if pk_ctrl p then [js ''Ctrl''] else []) @ (if pk_cmd p then [js ''Meta''] else [])
     @ (if pk_alt p then [js ''Alt''] else []) @ (if pk_shift p then [js ''Shift''] else [])"

lemma printed_mods_parts:
  assumes "t \<in> set (printed_mods p)"
  shows "t \<noteq> []" "43 \<notin> set t" "\<not> is_space (hd t)"
  using assms by (auto simp: printed_mods_def js_def is_space_def split: if_splits)

lemma printed_mods_read:
  assumes "ascii_case cm" "tok \<noteq> []"
  shows "keybinding_tokens cm mac (printed_mods p @ [tok]) None no_modifiers =
    Inr (Some tok, p\<lparr>pk_key := []\<rparr>)"
  using assms(2) printed_modifiers [OF assms(1)]
  by (cases p) (auto simp: printed_mods_def no_modifiers_def)

lemma join_plus_ends:
  assumes "tok \<noteq> []" "\<forall>t \<in> set ms. t \<noteq> []"
  shows "join_plus (ms @ [tok]) \<noteq> []" "hd (join_plus (ms @ [tok])) = hd (hd (ms @ [tok]))"
    "last (join_plus (ms @ [tok])) = last tok"
proof -
  have "join_plus (ms @ [tok]) \<noteq> [] \<and> hd (join_plus (ms @ [tok])) = hd (hd (ms @ [tok]))
    \<and> last (join_plus (ms @ [tok])) = last tok" using assms
  proof (induction ms)
    case (Cons m ms)
    obtain q qs where q: "ms @ [tok] = q # qs" by (cases ms) auto
    then have "join_plus ((m # ms) @ [tok]) = m @ js ''+'' @ join_plus (ms @ [tok])" by simp
    then show ?case using Cons by simp
  qed simp
  then show "join_plus (ms @ [tok]) \<noteq> []" "hd (join_plus (ms @ [tok])) = hd (hd (ms @ [tok]))"
    "last (join_plus (ms @ [tok])) = last tok" by auto
qed

lemma key_names_fixed:
  assumes "ascii_case cm" "name \<in> set (map snd key_names)"
  shows "normalizeKey cm name = name"
proof -
  have "list_all (\<lambda>n. normalizeKey cm n = n) (map snd key_names)"
    using assms(1)
    by (simp add: key_names_def) (simp add: normalizeKey_def lower_ascii ascii_def js_def fold_case_def key_names_def is_letter_def)
  then show ?thesis using assms(2) by (simp only: list_all_iff)
qed

lemma function_key_fixed:
  assumes "ascii_case cm" "is_function_key t"
  shows "normalizeKey cm (js ''F'' @ digits (nat (digit_value (tl t)))) = js ''F'' @ digits (nat (digit_value (tl t)))"
proof -
  let ?n = "nat (digit_value (tl t))" and ?ds = "digits (nat (digit_value (tl t)))"
  have t: "list_all is_digit (tl t)" "length (tl t) \<le> 2"
    using assms(2) by (auto simp: is_function_key_def split: list.splits)
  have "(10::int) ^ length (tl t) \<le> 100" using power_increasing [OF t(2), of "10::int"] by simp
  then have "digit_value (tl t) < 100" using digit_value_bounds [OF t(1)] by linarith
  then have n: "?n < 100" by simp
  have ds: "list_all is_digit ?ds" "length ?ds = 1 \<or> length ?ds = 2"
    using n by (simp add: digits_all, auto simp: digits.simps)
  have asc: "ascii (js ''F'' @ ?ds)" and low: "fold_case 70 = 102"
    using ds(1) by (auto simp: ascii_def js_def list_all_iff is_digit_def fold_case_def word_le_nat_alt word_less_nat_alt)
  have "list_all (\<lambda>k. hd k \<noteq> 102) (map fst key_names)" by (simp add: key_names_def js_def)
  then have "map_of key_names (102 # ds') = None" for ds'
    by (fastforce simp: map_of_eq_None_iff list_all_iff)
  then have "map_of key_names (toLowerCase cm (js ''F'' @ ?ds)) = None"
    using lower_ascii [OF assms(1) asc] low by (simp add: js_def)
  moreover have "is_function_key (js ''F'' @ ?ds)" using ds by (simp add: is_function_key_def js_def)
  moreover have "length (js ''F'' @ ?ds) \<noteq> 1" by (simp add: js_def)
  ultimately show ?thesis by (simp add: normalizeKey_def digit_value_digits js_def del: One_nat_def)
qed

lemma upper_letter:
  assumes "ascii_case cm" "is_letter c"
  shows "toUpperCase cm [c] = [raise_case c]" "is_letter (raise_case c)" "raise_case (raise_case c) = raise_case c"
proof -
  have "ascii [c]" using assms(2) by (auto simp: ascii_def is_letter_def word_le_nat_alt word_less_nat_alt)
  then show "toUpperCase cm [c] = [raise_case c]" using upper_ascii [OF assms(1)] by simp
  have "unat (c - 32) = unat c - 32" if "97 \<le> c"
    using that by (subst unat_sub) (auto simp: word_le_nat_alt)
  then show "is_letter (raise_case c)" "raise_case (raise_case c) = raise_case c"
    using assms(2) by (auto simp: is_letter_def raise_case_def word_le_nat_alt)
qed

text \<open>A key that was normalized is its own normal form.\<close>

lemma normalizeKey_idem:
  assumes "ascii_case cm"
  shows "normalizeKey cm (normalizeKey cm t) = normalizeKey cm t"
proof (cases "length t = 1")
  case True
  then obtain c where t: "t = [c]" by (cases t) auto
  then show ?thesis using upper_letter [OF assms, of c] upper_letter [OF assms, of "raise_case c"]
    by (auto simp: normalizeKey_def)
next
  case False
  show ?thesis
  proof (cases "map_of key_names (toLowerCase cm t)")
    case None
    then show ?thesis using False function_key_fixed [OF assms, of t]
      by (cases "is_function_key t") (auto simp: normalizeKey_def)
  next
    case (Some name)
    then have "name \<in> set (map snd key_names)"
      using map_of_SomeD by force
    from key_names_fixed [OF assms this] Some False show ?thesis by (simp add: normalizeKey_def)
  qed
qed

lemma tokens_key:
  "keybinding_tokens cm mac ts k m = Inr (k', m') \<Longrightarrow> ts \<noteq> [] \<or> k \<noteq> None \<Longrightarrow> k' \<noteq> None"
proof (induction ts arbitrary: k m)
  case (Cons t ts)
  then show ?case by (auto simp: rbind_eq_Inr split: if_splits)
qed simp

lemma apply_modifier_errors: "apply_modifier cm mac tok m \<noteq> Inl MissingKey"
  by (auto simp: apply_modifier_def Let_def split: if_splits)

lemma tokens_errors: "keybinding_tokens cm mac ts k m \<noteq> Inl MissingKey"
  by (induction ts arbitrary: k m) (auto simp: rbind_eq_Inl apply_modifier_errors)

lemma js_trim_plus: "\<exists>u. js_trim (s @ [43, 43]) = u @ [43, 43]"
proof -
  have np: "\<not> is_space 43" by (simp add: is_space_def)
  have "\<exists>u. dropWhile is_space (s @ [43, 43]) = u @ [43, 43]"
    by (induction s) (auto simp: np)
  then show ?thesis using np by (auto simp: js_trim_def)
qed

definition ascii_maps :: case_maps where
  "ascii_maps = \<lparr>toLowerCase = map fold_case, toUpperCase = map raise_case\<rparr>"

lemma ascii_maps_ok: "ascii_case ascii_maps"
  by (simp add: ascii_case_def ascii_maps_def)

section \<open>Properties\<close>



text \<open>
  What a parsed shortcut looks like. Its key is in normal form, so that \<open>Mod+f2\<close> and \<open>Mod+F02\<close> are
  the same shortcut; and a string that passes the token loop always has a key, so that the error for a
  missing one is never raised.
\<close>

theorem parsed_key_is_normal:
  assumes "ascii_case cm"
  shows "case parseKeybinding cm mac str of
      Inr p \<Rightarrow> normalizeKey cm (pk_key p) = pk_key p
    | Inl e \<Rightarrow> e \<noteq> MissingKey"
proof (cases "parseKeybinding cm mac str")
  case (Inl e)
  have "butlast (split_plus t) \<noteq> []" if "length (split_plus t) \<ge> 2" for t
    using that by (cases "split_plus t" rule: rev_cases) auto
  with Inl tokens_key [of cm mac _ _ no_modifiers None] show ?thesis
    by (fastforce simp: parseKeybinding_def Let_def rbind_eq_Inl tokens_errors split: if_splits option.splits)
next
  case (Inr p)
  then show ?thesis using normalizeKey_idem [OF assms]
    by (auto simp: parseKeybinding_def Let_def rbind_eq_Inr split: if_splits option.splits)
qed

theorem parsed_key_is_normal_witness:
  "case parseKeybinding ascii_maps True (js ''Mod+up'') of
      Inr p \<Rightarrow> normalizeKey ascii_maps (pk_key p) = pk_key p
    | Inl e \<Rightarrow> e \<noteq> MissingKey"
  by (rule parsed_key_is_normal [OF ascii_maps_ok])

text \<open>
  C0: \<open>+\<close> cannot be bound the way the source says. The comment gives \<open>Mod++\<close> as the form that is
  supported; every string that ends in \<open>++\<close> is rejected, and so is \<open>+\<close> alone. The string that does bind
  the key is \<open>Mod+\<close>, a trailing separator, which the function's comment says it throws on.
\<close>

theorem plus_key_is_rejected:
  "(\<exists>e. parseKeybinding cm mac (s @ js ''++'') = Inl e)
   \<and> parseKeybinding cm mac (js ''+'') = Inl MalformedKeybinding
   \<and> parseKeybinding ascii_maps False (js ''Mod+'') =
       Inr \<lparr>pk_cmd = False, pk_ctrl = True, pk_alt = False, pk_shift = False, pk_key = js ''+''\<rparr>"
proof -
  obtain u where u: "js_trim (s @ [43, 43]) = u @ [43, 43]" using js_trim_plus by blast
  have "last (split_plus u @ [[], []]) = []" "butlast (split_plus u @ [[], []]) = split_plus u @ [[]]"
    by (simp_all add: butlast_append)
  moreover obtain e where "keybinding_tokens cm mac (split_plus u @ [[]]) (Some [43]) no_modifiers = Inl e"
    using empty_token_rejected [of "split_plus u @ [[]]" cm mac "Some [43]" no_modifiers] by auto
  ultimately have "\<exists>e. parseKeybinding cm mac (s @ js ''++'') = Inl e"
    using u by (simp add: parseKeybinding_def Let_def split_plus_tail js_def)
  moreover have "parseKeybinding cm mac (js ''+'') = Inl MalformedKeybinding"
    by (simp add: parseKeybinding_def js_def js_trim_def is_space_def)
  moreover have "parseKeybinding ascii_maps False (js ''Mod+'') =
       Inr \<lparr>pk_cmd = False, pk_ctrl = True, pk_alt = False, pk_shift = False, pk_key = js ''+''\<rparr>"
    by (simp add: parseKeybinding_def js_def js_trim_def is_space_def apply_modifier_def ascii_maps_def
        fold_case_def no_modifiers_def normalizeKey_def is_letter_def)
  ultimately show ?thesis by blast
qed

end
