(* ===== verification/Command_Registry.thy ===== *)
theory Command_Registry
  imports Keybinding
begin

text \<open>
  The command registry (\<open>packages/mille-ui/src/commands/registry.ts\<close>) and the contribution layer over it
  (\<open>commands/contribution.ts\<close>): registration with shadowing, dispatch, shortcut lookup with its cache of
  parsed bindings, contributed packages of commands, menu partition and the lifecycle of a dispatch.

  Command objects and the functions in them are compared by identity, which a number beside them stands
  for (\<open>cm_ref\<close>, the first component of a clause); strings are compared by value. A disposable is its
  number in the table of registrations. \<open>run\<close> is opaque. \<open>localeCompare\<close> is a parameter, a comparator.
\<close>

section \<open>Commands\<close>

datatype command_visibility = VisibleUnset | VisibleBool bool | VisibleFunction "command_context \<Rightarrow> bool"

record command =
  cm_ref :: nat
  cm_id :: jstring
  cm_keybinding :: "jstring list"
  cm_when :: "nat \<times> when_clause"
  cm_enablement :: "nat \<times> when_clause"
  cm_visible :: "nat \<times> command_visibility"
  cm_group :: "jstring option"
  cm_submenu :: "jstring option"
  cm_submenuLabel :: "jstring option"
  cm_order :: "int option"

text \<open>\<open>===\<close> on clauses and visibilities.\<close>

fun same_clause :: "nat \<times> when_clause \<Rightarrow> nat \<times> when_clause \<Rightarrow> bool" where
  "same_clause (_, NoClause) (_, NoClause) = True"
| "same_clause (_, ClauseText s) (_, ClauseText t) = (s = t)"
| "same_clause (r, ClauseFunction _) (q, ClauseFunction _) = (r = q)"
| "same_clause _ _ = False"

fun same_visibility :: "nat \<times> command_visibility \<Rightarrow> nat \<times> command_visibility \<Rightarrow> bool" where
  "same_visibility (_, VisibleUnset) (_, VisibleUnset) = True"
| "same_visibility (_, VisibleBool s) (_, VisibleBool t) = (s = t)"
| "same_visibility (r, VisibleFunction _) (q, VisibleFunction _) = (r = q)"
| "same_visibility _ _ = False"

section \<open>The registry\<close>

text \<open>An entry: the active command and the stack it shadows, the newest last.\<close>

type_synonym command_entries = "(jstring, command \<times> command list) jmap"

record command_registry =
  cr_entries :: command_entries
  cr_parsedCache :: "(jstring, parsed_keybinding list) jmap"
  cr_contextProvider :: "command_context option"
  cr_handles :: "(command \<times> bool) list"

datatype command_error =
    UnknownCommand jstring
  | NoContextProvider
  | BadEnablement when_error
  | BadKeybinding keybinding_error

definition install_entries :: "command \<Rightarrow> command_entries \<Rightarrow> command_entries" where
  "install_entries c es =
     (case jm_get es (cm_id c) of
        Some (cur, shadow) \<Rightarrow> jm_set (cm_id c) (c, shadow @ [cur]) es
      | None \<Rightarrow> jm_set (cm_id c) (c, []) es)"

definition install :: "command \<Rightarrow> command_registry \<Rightarrow> command_registry" where
  "install c r = r\<lparr>cr_entries := install_entries c (cr_entries r),
     cr_parsedCache := jm_delete (cm_id c) (cr_parsedCache r)\<rparr>"

definition createCommandRegistry :: "command list \<Rightarrow> command_registry" where
  "createCommandRegistry commands = fold install commands
     \<lparr>cr_entries = [], cr_parsedCache = [], cr_contextProvider = None, cr_handles = []\<rparr>"

definition get_command :: "command_registry \<Rightarrow> jstring \<Rightarrow> command option" where
  "get_command r i = map_option fst (jm_get (cr_entries r) i)"

definition register_command :: "command \<Rightarrow> command_registry \<Rightarrow> nat \<times> command_registry" where
  "register_command c r =
     (length (cr_handles r), (install c r)\<lparr>cr_handles := cr_handles r @ [(c, False)]\<rparr>)"

text \<open>\<open>shadow.lastIndexOf(command)\<close> and \<open>splice(idx, 1)\<close>: the last occurrence is removed.\<close>

fun remove_last_ref :: "nat \<Rightarrow> command list \<Rightarrow> command list" where
  "remove_last_ref ref [] = []"
| "remove_last_ref ref (c # cs) =
     (if cm_ref c = ref \<and> (\<forall>d \<in> set cs. cm_ref d \<noteq> ref) then cs else c # remove_last_ref ref cs)"

text \<open>Dispose on the entries; the second component says whether the cached bindings are dropped.\<close>

definition dispose_entries :: "command \<Rightarrow> command_entries \<Rightarrow> command_entries \<times> bool" where
  "dispose_entries c es =
     (case jm_get es (cm_id c) of
        None \<Rightarrow> (es, False)
      | Some (cur, shadow) \<Rightarrow>
          if cm_ref cur \<noteq> cm_ref c
          then (jm_set (cm_id c) (cur, remove_last_ref (cm_ref c) shadow) es, False)
          else if shadow \<noteq> [] then (jm_set (cm_id c) (last shadow, butlast shadow) es, True)
          else (jm_delete (cm_id c) es, True))"

definition dispose_command :: "nat \<Rightarrow> command_registry \<Rightarrow> command_registry" where
  "dispose_command n r =
     (if n < length (cr_handles r) \<and> \<not> snd (cr_handles r ! n)
      then let c = fst (cr_handles r ! n); (es, drop_cache) = dispose_entries c (cr_entries r)
           in r\<lparr>cr_entries := es,
                cr_parsedCache := (if drop_cache then jm_delete (cm_id c) (cr_parsedCache r) else cr_parsedCache r),
                cr_handles := (cr_handles r)[n := (c, True)]\<rparr>
      else r)"

text \<open>What a dispatch does when nothing is thrown.\<close>

datatype dispatch_outcome = Ran command command_context | NotEnabled

definition runIfEnabled :: "command \<Rightarrow> command_context \<Rightarrow> command_error + dispatch_outcome" where
  "runIfEnabled c ctx =
     (case evaluateEnablement (snd (cm_enablement c)) ctx of
        Inl e \<Rightarrow> Inl (BadEnablement e)
      | Inr b \<Rightarrow> Inr (if b then Ran c ctx else NotEnabled))"

definition requireEntry :: "command_registry \<Rightarrow> jstring \<Rightarrow> command_error + command" where
  "requireEntry r i = (case jm_get (cr_entries r) i of Some (c, _) \<Rightarrow> Inr c | None \<Rightarrow> Inl (UnknownCommand i))"

definition getContext :: "command_registry \<Rightarrow> command_error + command_context" where
  "getContext r = (case cr_contextProvider r of Some ctx \<Rightarrow> Inr ctx | None \<Rightarrow> Inl NoContextProvider)"

definition dispatch :: "command_registry \<Rightarrow> jstring \<Rightarrow> command_error + dispatch_outcome" where
  "dispatch r i = rbind (requireEntry r i) (\<lambda>c. rbind (getContext r) (runIfEnabled c))"

definition dispatchWithContext ::
  "command_registry \<Rightarrow> jstring \<Rightarrow> command_context \<Rightarrow> command_error + dispatch_outcome" where
  "dispatchWithContext r i ctx = rbind (requireEntry r i) (\<lambda>c. runIfEnabled c ctx)"

definition all_commands :: "command_registry \<Rightarrow> command list" where
  "all_commands r = map (\<lambda>(_, c, _). c) (cr_entries r)"

definition setContextProvider :: "command_context \<Rightarrow> command_registry \<Rightarrow> command_registry" where
  "setContextProvider ctx r = r\<lparr>cr_contextProvider := Some ctx\<rparr>"

section \<open>Shortcuts\<close>

fun parse_bindings :: "case_maps \<Rightarrow> bool \<Rightarrow> jstring list \<Rightarrow> keybinding_error + parsed_keybinding list" where
  "parse_bindings cm mac [] = Inr []"
| "parse_bindings cm mac (s # ss) =
     rbind (parseKeybinding cm mac s) (\<lambda>p. rbind (parse_bindings cm mac ss) (\<lambda>ps. Inr (p # ps)))"

definition getParsed :: "case_maps \<Rightarrow> bool \<Rightarrow> command \<Rightarrow> command_registry
    \<Rightarrow> keybinding_error + parsed_keybinding list \<times> command_registry" where
  "getParsed cm mac c r =
     (case jm_get (cr_parsedCache r) (cm_id c) of
        Some cached \<Rightarrow> Inr (cached, r)
      | None \<Rightarrow> rbind (parse_bindings cm mac (cm_keybinding c))
          (\<lambda>ps. Inr (ps, r\<lparr>cr_parsedCache := jm_set (cm_id c) ps (cr_parsedCache r)\<rparr>)))"

text \<open>The loop over the entries, for either kind of key.\<close>

fun find_binding :: "case_maps \<Rightarrow> bool \<Rightarrow> (parsed_keybinding \<Rightarrow> bool) \<Rightarrow> command list \<Rightarrow> command_registry
    \<Rightarrow> keybinding_error + command option \<times> command_registry" where
  "find_binding cm mac hit [] r = Inr (None, r)"
| "find_binding cm mac hit (c # cs) r =
     rbind (getParsed cm mac c r) (\<lambda>(bindings, r').
       if \<exists>b \<in> set bindings. hit b then Inr (Some c, r') else find_binding cm mac hit cs r')"

datatype key_or_event = KeyText jstring | KeyEvent keyboard_event

definition getBinding :: "case_maps \<Rightarrow> bool \<Rightarrow> key_or_event \<Rightarrow> command_registry
    \<Rightarrow> keybinding_error + command option \<times> command_registry" where
  "getBinding cm mac k r =
     (case k of
        KeyText str \<Rightarrow> rbind (parseKeybinding cm mac str)
          (\<lambda>p. find_binding cm mac (\<lambda>b. b = p) (all_commands r) r)
      | KeyEvent ev \<Rightarrow> find_binding cm mac (matchKeybinding cm ev) (all_commands r) r)"

section \<open>Contributed commands\<close>

record menu_contribution =
  mc_command :: jstring
  mc_group :: "jstring option"
  mc_submenu :: "jstring option"
  mc_submenuLabel :: "jstring option"
  mc_order :: "int option"
  mc_when :: "(nat \<times> when_clause) option"
  mc_visible :: "(nat \<times> command_visibility) option"

definition override_with :: "'a option \<Rightarrow> 'a \<Rightarrow> 'a" where
  "override_with new old = (case new of Some x \<Rightarrow> x | None \<Rightarrow> old)"

text \<open>The spread of the base with the fields the item sets: a new object, \<open>ref\<close> its identity.\<close>

definition wrap_command :: "nat \<Rightarrow> command \<Rightarrow> menu_contribution \<Rightarrow> command" where
  "wrap_command ref base item = base\<lparr>
     cm_ref := ref,
     cm_group := (if mc_group item = None then cm_group base else mc_group item),
     cm_submenu := (if mc_submenu item = None then cm_submenu base else mc_submenu item),
     cm_submenuLabel := (if mc_submenuLabel item = None then cm_submenuLabel base else mc_submenuLabel item),
     cm_order := (if mc_order item = None then cm_order base else mc_order item),
     cm_when := override_with (mc_when item) (cm_when base),
     cm_visible := override_with (mc_visible item) (cm_visible base)\<rparr>"

definition placement_differs :: "command \<Rightarrow> command \<Rightarrow> bool" where
  "placement_differs wrapped base \<longleftrightarrow>
     cm_group wrapped \<noteq> cm_group base \<or> cm_submenu wrapped \<noteq> cm_submenu base
   \<or> cm_order wrapped \<noteq> cm_order base \<or> \<not> same_clause (cm_when wrapped) (cm_when base)
   \<or> \<not> same_visibility (cm_visible wrapped) (cm_visible base)
   \<or> cm_submenuLabel wrapped \<noteq> cm_submenuLabel base"

fun contribute_commands :: "command list \<Rightarrow> nat list \<Rightarrow> command_registry \<Rightarrow> nat list \<times> command_registry" where
  "contribute_commands [] hs r = (hs, r)"
| "contribute_commands (c # cs) hs r =
     (let (h, r') = register_command c r in contribute_commands cs (hs @ [h]) r')"

text \<open>\<open>ref\<close> is the identity the next new object gets.\<close>

fun contribute_menus :: "nat \<Rightarrow> menu_contribution list \<Rightarrow> nat list \<Rightarrow> command_registry \<Rightarrow> nat list \<times> command_registry" where
  "contribute_menus ref [] hs r = (hs, r)"
| "contribute_menus ref (item # items) hs r =
     (case get_command r (mc_command item) of
        None \<Rightarrow> contribute_menus ref items hs r
      | Some base \<Rightarrow>
          let wrapped = wrap_command ref base item
          in if placement_differs wrapped base
             then let (h, r') = register_command wrapped r in contribute_menus (ref + 1) items (hs @ [h]) r'
             else contribute_menus (ref + 1) items hs r)"

definition contributeCommands ::
  "nat \<Rightarrow> command list \<Rightarrow> menu_contribution list \<Rightarrow> command_registry \<Rightarrow> nat list \<times> command_registry" where
  "contributeCommands ref commands items r =
     (let (hs, r') = contribute_commands commands [] r in contribute_menus ref items hs r')"

definition dispose_contribution :: "nat list \<Rightarrow> command_registry \<Rightarrow> command_registry" where
  "dispose_contribution hs r = fold dispose_command (rev hs) r"

section \<open>Menus\<close>

record menu_bucket =
  mb_items :: "command list"
  mb_submenus :: "(jstring, jstring \<times> command list) jmap"

record menu_group =
  mg_key :: jstring
  mg_items :: "command list"
  mg_submenus :: "(jstring \<times> jstring \<times> command list) list"

definition menu_cmp :: "(jstring \<Rightarrow> jstring \<Rightarrow> int) \<Rightarrow> command \<Rightarrow> command \<Rightarrow> int" where
  "menu_cmp lc a b =
     (let ao = (case cm_order a of Some n \<Rightarrow> n | None \<Rightarrow> 0);
          bo = (case cm_order b of Some n \<Rightarrow> n | None \<Rightarrow> 0)
      in if ao \<noteq> bo then ao - bo else lc (cm_id a) (cm_id b))"

definition group_key :: "command \<Rightarrow> jstring" where
  "group_key c = (case cm_group c of Some g \<Rightarrow> g | None \<Rightarrow> js ''9_custom'')"

text \<open>A submenu counts only when it is a non-empty string.\<close>

definition submenu_key :: "command \<Rightarrow> jstring option" where
  "submenu_key c = (if cm_submenu c = Some [] then None else cm_submenu c)"

definition add_to_submenu :: "command \<Rightarrow> jstring \<Rightarrow> menu_bucket \<Rightarrow> menu_bucket" where
  "add_to_submenu c sid b =
     (let sub = (case jm_get (mb_submenus b) sid of
            None \<Rightarrow> (case cm_submenuLabel c of Some l \<Rightarrow> l | None \<Rightarrow> sid, [])
          | Some (label, items) \<Rightarrow>
              (case cm_submenuLabel c of
                 Some l \<Rightarrow> (if l \<noteq> [] \<and> label = sid then l else label, items)
               | None \<Rightarrow> (label, items)))
      in b\<lparr>mb_submenus := jm_set sid (fst sub, snd sub @ [c]) (mb_submenus b)\<rparr>)"

definition add_to_bucket :: "command \<Rightarrow> (jstring, menu_bucket) jmap \<Rightarrow> (jstring, menu_bucket) jmap" where
  "add_to_bucket c buckets =
     (let b = (case jm_get buckets (group_key c) of Some b \<Rightarrow> b | None \<Rightarrow> \<lparr>mb_items = [], mb_submenus = []\<rparr>)
      in jm_set (group_key c)
           (case submenu_key c of
              Some sid \<Rightarrow> add_to_submenu c sid b
            | None \<Rightarrow> b\<lparr>mb_items := mb_items b @ [c]\<rparr>) buckets)"

definition menu_of_bucket ::
  "(jstring \<Rightarrow> jstring \<Rightarrow> int) \<Rightarrow> (jstring, menu_bucket) jmap \<Rightarrow> jstring \<Rightarrow> menu_group list" where
  "menu_of_bucket lc buckets k =
     (case jm_get buckets k of
        None \<Rightarrow> []
      | Some b \<Rightarrow>
          let submenus = js_sort (\<lambda>x y. lc (fst x) (fst y))
                (filter (\<lambda>(i, label, items). items \<noteq> []) (mb_submenus b))
          in if mb_items b \<noteq> [] \<or> submenus \<noteq> []
             then [\<lparr>mg_key = k, mg_items = mb_items b, mg_submenus = submenus\<rparr>] else [])"

definition partitionCommandsForMenu ::
  "(jstring \<Rightarrow> jstring \<Rightarrow> int) \<Rightarrow> command list \<Rightarrow> menu_group list" where
  "partitionCommandsForMenu lc commands =
     (let buckets = fold add_to_bucket (js_sort (menu_cmp lc) commands) []
      in concat (map (menu_of_bucket lc buckets) (js_sort lc (jm_keys buckets))))"

section \<open>The lifecycle of a dispatch\<close>

text \<open>An error value: its \<open>code\<close>, and its message when it is an \<open>Error\<close>.\<close>

record error_value =
  ev_code :: "jstring option"
  ev_message :: "jstring option"

text \<open>\<open>/cancel/i\<close> on a message is a parameter of the lifecycle, as is the text of an error.\<close>

definition isCanceledError :: "(jstring \<Rightarrow> bool) \<Rightarrow> error_value \<Rightarrow> bool" where
  "isCanceledError cancelish e \<longleftrightarrow>
     (case ev_code e of Some c \<Rightarrow> c = js ''ECANCELED'' \<or> c = js ''ABORT_ERR'' | None \<Rightarrow> False)
   \<or> (case ev_message e of Some m \<Rightarrow> cancelish m | None \<Rightarrow> False)"

datatype progress_phase = Preparing | Running | Completed | Failed | Cancelled

datatype lifecycle_event =
    TelemetryStart | TelemetrySuccess | TelemetryFailure error_value | TelemetryCancel
  | Progress progress_phase
  | NotifyError error_value

text \<open>How \<open>run\<close> ends: a throw, a plain return, or a promise that settles.\<close>

datatype run_result = RunThrows error_value | RunReturns | RunFulfils | RunRejects error_value

datatype lifecycle_outcome = DispatchResolved | DispatchRejected error_value

record lifecycle_run =
  lr_abortedBefore :: bool
  lr_context :: "error_value + command_context"
  lr_enabled :: "command_context \<Rightarrow> error_value + bool"
  lr_run :: run_result
  lr_abortedAfter :: bool
  lr_awaitResult :: bool

definition lifecycle_catch :: "(jstring \<Rightarrow> bool) \<Rightarrow> bool \<Rightarrow> error_value \<Rightarrow> lifecycle_event list \<times> lifecycle_outcome" where
  "lifecycle_catch cancelish aborted e =
     (if aborted \<or> isCanceledError cancelish e
      then ([TelemetryCancel, Progress Cancelled], DispatchResolved)
      else ([TelemetryFailure e, Progress Failed, NotifyError e], DispatchRejected e))"

definition success_events :: "lifecycle_event list" where
  "success_events = [TelemetrySuccess, Progress Completed]"

definition lifecycle_settle ::
  "(jstring \<Rightarrow> bool) \<Rightarrow> lifecycle_run \<Rightarrow> lifecycle_event list \<times> lifecycle_outcome" where
  "lifecycle_settle cancelish l =
     (if \<not> lr_awaitResult l
      then (case lr_run l of
              RunThrows e \<Rightarrow> lifecycle_catch cancelish (lr_abortedAfter l) e
            | RunRejects e \<Rightarrow> ([TelemetryFailure e, Progress Failed, NotifyError e], DispatchResolved)
            | _ \<Rightarrow> (success_events, DispatchResolved))
      else (case lr_run l of
              RunThrows e \<Rightarrow> lifecycle_catch cancelish (lr_abortedAfter l) e
            | RunRejects e \<Rightarrow> lifecycle_catch cancelish (lr_abortedAfter l) e
            | _ \<Rightarrow> if lr_abortedAfter l then ([TelemetryCancel, Progress Cancelled], DispatchResolved)
                   else (success_events, DispatchResolved)))"

definition dispatchWithLifecycle ::
  "(jstring \<Rightarrow> bool) \<Rightarrow> lifecycle_run \<Rightarrow> lifecycle_event list \<times> lifecycle_outcome" where
  "dispatchWithLifecycle cancelish l =
     map_prod ((@) [TelemetryStart, Progress Preparing]) (\<lambda>x. x)
       (if lr_abortedBefore l then ([TelemetryCancel, Progress Cancelled], DispatchResolved)
        else case lr_context l of
          Inl e \<Rightarrow> lifecycle_catch cancelish (lr_abortedBefore l) e
        | Inr ctx \<Rightarrow>
            (case lr_enabled l ctx of
               Inl e \<Rightarrow> lifecycle_catch cancelish (lr_abortedBefore l) e
             | Inr False \<Rightarrow> ([Progress Cancelled], DispatchResolved)
             | Inr True \<Rightarrow> map_prod ((#) (Progress Running)) (\<lambda>x. x) (lifecycle_settle cancelish l)))"

section \<open>Lemmas\<close>

subsection \<open>Unwinding\<close>

lemma jm_set_same: "jm_get m k = Some v \<Longrightarrow> jm_set k v m = m"
  by (induction m) (auto split: if_splits)

lemma jm_delete_new: "jm_get m k = None \<Longrightarrow> jm_delete k (jm_set k v m) = m"
  by (induction m) (auto split: if_splits)

lemma jm_set_set: "jm_set k v (jm_set k w m) = jm_set k v m"
  by (induction m) auto

lemma dispose_install: "dispose_entries c (install_entries c es) = (es, True)"
  by (auto simp: dispose_entries_def install_entries_def jm_set_same jm_delete_new jm_set_set
      split: option.splits)

text \<open>
  The registrations \<open>hs\<close> lead from \<open>r\<close> to \<open>r'\<close>: disposing them newest first, from any registry that has
  the entries of \<open>r'\<close> and these registrations still live, brings the entries of \<open>r\<close> back.
\<close>

definition unwinds :: "command_registry \<Rightarrow> nat list \<Rightarrow> command_registry \<Rightarrow> bool" where
  "unwinds r hs r' \<longleftrightarrow>
     (\<forall>h \<in> set hs. h < length (cr_handles r')) \<and>
     (\<forall>q. cr_entries q = cr_entries r' \<and>
          (\<forall>h \<in> set hs. h < length (cr_handles q) \<and> cr_handles q ! h = cr_handles r' ! h) \<longrightarrow>
          cr_entries (fold dispose_command (rev hs) q) = cr_entries r)"

lemma unwinds_Nil: "unwinds r [] r"
  by (simp add: unwinds_def)

lemma unwinds_register:
  assumes "unwinds r hs r'" "register_command c r' = (h, r'')"
  shows "unwinds r (hs @ [h]) r''"
proof -
  have h: "h = length (cr_handles r')" "cr_handles r'' = cr_handles r' @ [(c, False)]"
    "cr_entries r'' = install_entries c (cr_entries r')"
    using assms(2) by (auto simp: register_command_def install_def)
  have lt: "\<forall>k \<in> set hs. k < length (cr_handles r')" using assms(1) by (simp add: unwinds_def)
  have "cr_entries (fold dispose_command (rev (hs @ [h])) q) = cr_entries r"
    if q: "cr_entries q = cr_entries r''"
      "\<forall>k \<in> set (hs @ [h]). k < length (cr_handles q) \<and> cr_handles q ! k = cr_handles r'' ! k" for q
  proof -
    have live: "h < length (cr_handles q)" "cr_handles q ! h = (c, False)" using q(2) h by auto
    have d: "cr_entries (dispose_command h q) = cr_entries r'"
        "cr_handles (dispose_command h q) = (cr_handles q)[h := (c, True)]"
      using live q(1) h(3) by (simp_all add: dispose_command_def dispose_install)
    have "\<forall>k \<in> set hs. k < length (cr_handles (dispose_command h q))
        \<and> cr_handles (dispose_command h q) ! k = cr_handles r' ! k"
      unfolding d(2) using q(2) lt h(1,2) by (auto simp: nth_append)
    with d(1) assms(1) show ?thesis by (simp add: unwinds_def)
  qed
  with lt h(1,2) show ?thesis by (auto simp: unwinds_def less_Suc_eq)
qed

lemma unwinds_commands:
  "unwinds r hs r' \<Longrightarrow> contribute_commands cs hs r' = (hs', r'') \<Longrightarrow> unwinds r hs' r''"
proof (induction cs arbitrary: hs r')
  case (Cons c cs)
  obtain h q where "register_command c r' = (h, q)" by fastforce
  with Cons.IH [OF unwinds_register [OF Cons.prems(1)]] Cons.prems(2) show ?case by simp
qed simp

lemma unwinds_menus:
  "unwinds r hs r' \<Longrightarrow> contribute_menus ref items hs r' = (hs', r'') \<Longrightarrow> unwinds r hs' r''"
proof (induction items arbitrary: ref hs r')
  case (Cons item items)
  show ?case
  proof (cases "get_command r' (mc_command item)")
    case None
    then show ?thesis using Cons by simp
  next
    case (Some base)
    obtain h q where "register_command (wrap_command ref base item) r' = (h, q)" by fastforce
    with Cons.IH [OF unwinds_register [OF Cons.prems(1)]] Cons.IH [OF Cons.prems(1)] Cons.prems(2) Some
    show ?thesis by (auto simp: Let_def split: if_splits)
  qed
qed simp

subsection \<open>The cache of parsed shortcuts\<close>

definition entries_keyed :: "command_entries \<Rightarrow> bool" where
  "entries_keyed es \<longleftrightarrow> jm_wf es \<and>
     (\<forall>i c shadow. (i, c, shadow) \<in> set es \<longrightarrow> cm_id c = i \<and> (\<forall>d \<in> set shadow. cm_id d = i))"

definition bindings_cached :: "case_maps \<Rightarrow> bool \<Rightarrow> command_registry \<Rightarrow> bool" where
  "bindings_cached cm mac r \<longleftrightarrow> entries_keyed (cr_entries r) \<and>
     (\<forall>i ps. jm_get (cr_parsedCache r) i = Some ps \<longrightarrow>
        (\<exists>c shadow. jm_get (cr_entries r) i = Some (c, shadow)
           \<and> parse_bindings cm mac (cm_keybinding c) = Inr ps))"

text \<open>The lookup without a cache.\<close>

fun find_plain :: "case_maps \<Rightarrow> bool \<Rightarrow> (parsed_keybinding \<Rightarrow> bool) \<Rightarrow> command list
    \<Rightarrow> keybinding_error + command option" where
  "find_plain cm mac hit [] = Inr None"
| "find_plain cm mac hit (c # cs) =
     rbind (parse_bindings cm mac (cm_keybinding c)) (\<lambda>ps.
       if \<exists>b \<in> set ps. hit b then Inr (Some c) else find_plain cm mac hit cs)"

datatype registry_call =
    RegisterCommand command
  | DisposeCommand nat
  | SetContext command_context
  | LookUp key_or_event

definition do_registry_call :: "case_maps \<Rightarrow> bool \<Rightarrow> registry_call \<Rightarrow> command_registry \<Rightarrow> command_registry" where
  "do_registry_call cm mac call r =
     (case call of
        RegisterCommand c \<Rightarrow> snd (register_command c r)
      | DisposeCommand n \<Rightarrow> dispose_command n r
      | SetContext ctx \<Rightarrow> setContextProvider ctx r
      | LookUp k \<Rightarrow> (case getBinding cm mac k r of Inr (_, r') \<Rightarrow> r' | Inl _ \<Rightarrow> r))"

lemma entries_keyed_set:
  assumes "entries_keyed es" "cm_id c = i" "\<forall>d \<in> set shadow. cm_id d = i"
  shows "entries_keyed (jm_set i (c, shadow) es)"
  using assms set_jm_set_subset [of i "(c, shadow)" es] by (auto simp: entries_keyed_def)

lemma entries_keyed_delete: "entries_keyed es \<Longrightarrow> entries_keyed (jm_delete i es)"
  using jm_wf_delete [of es i] by (auto simp: entries_keyed_def AList.delete_eq)

lemma entries_keyed_get:
  assumes "entries_keyed es" "jm_get es i = Some (c, shadow)"
  shows "cm_id c = i" and "d \<in> set shadow \<Longrightarrow> cm_id d = i"
  using assms by (auto simp: entries_keyed_def dest!: map_of_SomeD)

lemma entries_keyed_install: "entries_keyed es \<Longrightarrow> entries_keyed (install_entries c es)"
  by (auto simp: install_entries_def dest: entries_keyed_get intro!: entries_keyed_set split: option.splits)

lemma set_remove_last_ref: "set (remove_last_ref ref cs) \<subseteq> set cs"
  by (induction cs) auto

lemma entries_keyed_dispose: "entries_keyed es \<Longrightarrow> entries_keyed (fst (dispose_entries c es))"
  using set_remove_last_ref [of "cm_ref c"]
  by (auto simp: dispose_entries_def dest: entries_keyed_get in_set_butlastD last_in_set
      intro!: entries_keyed_set entries_keyed_delete split: option.splits)

lemma dispose_entries_other:
  "i \<noteq> cm_id c \<Longrightarrow> jm_get (fst (dispose_entries c es)) i = jm_get es i"
  by (auto simp: dispose_entries_def split: option.splits)

lemma dispose_entries_top:
  "\<not> snd (dispose_entries c es) \<Longrightarrow> map_option fst (jm_get (fst (dispose_entries c es)) i) = map_option fst (jm_get es i)"
  by (auto simp: dispose_entries_def split: option.splits if_splits)

lemma cached_register:
  assumes "bindings_cached cm mac r" shows "bindings_cached cm mac (snd (register_command c r))"
proof -
  have get: "jm_get (install_entries c (cr_entries r)) i = jm_get (cr_entries r) i" if "i \<noteq> cm_id c" for i
    using that by (simp add: install_entries_def split: option.splits prod.splits)
  show ?thesis
    using assms entries_keyed_install [of "cr_entries r" c]
    by (auto simp: bindings_cached_def register_command_def install_def get split: if_splits)
qed

lemma cached_dispose:
  assumes "bindings_cached cm mac r" shows "bindings_cached cm mac (dispose_command n r)"
proof (cases "n < length (cr_handles r) \<and> \<not> snd (cr_handles r ! n)")
  case True
  let ?c = "fst (cr_handles r ! n)"
  obtain es dc where d: "dispose_entries ?c (cr_entries r) = (es, dc)" by fastforce
  have keyed: "entries_keyed es" using entries_keyed_dispose [of "cr_entries r" ?c] assms d
    by (simp add: bindings_cached_def)
  have top: "\<exists>sh. jm_get es i = Some (c, sh)"
    if "jm_get (cr_entries r) i = Some (c, shadow)" "dc \<longrightarrow> i \<noteq> cm_id ?c" for i c shadow
    using that dispose_entries_other [of i ?c "cr_entries r"] dispose_entries_top [of ?c "cr_entries r" i] d
    by (cases "i = cm_id ?c") (auto simp: map_option_eq_Some)
  have "\<exists>c sh. jm_get es i = Some (c, sh) \<and> parse_bindings cm mac (cm_keybinding c) = Inr ps"
    if ps: "jm_get (if dc then jm_delete (cm_id ?c) (cr_parsedCache r) else cr_parsedCache r) i = Some ps" for i ps
  proof -
    from ps have i: "jm_get (cr_parsedCache r) i = Some ps" "dc \<longrightarrow> i \<noteq> cm_id ?c" by (auto split: if_splits)
    with assms obtain c sh where "jm_get (cr_entries r) i = Some (c, sh)"
        "parse_bindings cm mac (cm_keybinding c) = Inr ps"
      unfolding bindings_cached_def by blast
    with top i(2) show ?thesis by blast
  qed
  with keyed True d show ?thesis by (auto simp: bindings_cached_def dispose_command_def Let_def)
next
  case False
  then show ?thesis using assms by (auto simp: dispose_command_def)
qed

lemma cached_parsed:
  assumes "bindings_cached cm mac r" "jm_get (cr_entries r) (cm_id c) = Some (c, shadow)"
  shows "case getParsed cm mac c r of
      Inl e \<Rightarrow> parse_bindings cm mac (cm_keybinding c) = Inl e
    | Inr (ps, r') \<Rightarrow> parse_bindings cm mac (cm_keybinding c) = Inr ps \<and> bindings_cached cm mac r'
        \<and> cr_entries r' = cr_entries r"
proof (cases "jm_get (cr_parsedCache r) (cm_id c)")
  case None
  then show ?thesis using assms
    by (cases "parse_bindings cm mac (cm_keybinding c)") (auto simp: getParsed_def bindings_cached_def)
next
  case (Some ps)
  with assms obtain c' sh where "jm_get (cr_entries r) (cm_id c) = Some (c', sh)"
      "parse_bindings cm mac (cm_keybinding c') = Inr ps"
    unfolding bindings_cached_def by blast
  then show ?thesis using assms Some by (simp add: getParsed_def)
qed

lemma cached_find:
  assumes "bindings_cached cm mac r"
    and "\<forall>c \<in> set cs. \<exists>shadow. jm_get (cr_entries r) (cm_id c) = Some (c, shadow)"
  shows "case find_binding cm mac hit cs r of
      Inl e \<Rightarrow> find_plain cm mac hit cs = Inl e
    | Inr (found, r') \<Rightarrow> find_plain cm mac hit cs = Inr found \<and> bindings_cached cm mac r'
        \<and> cr_entries r' = cr_entries r"
  using assms
proof (induction cs arbitrary: r)
  case (Cons c cs)
  then obtain shadow where "jm_get (cr_entries r) (cm_id c) = Some (c, shadow)" by auto
  note p = cached_parsed [OF Cons.prems(1) this]
  show ?case
  proof (cases "getParsed cm mac c r")
    case (Inl e)
    then show ?thesis using p by simp
  next
    case (Inr x)
    then obtain ps r' where x: "getParsed cm mac c r = Inr (ps, r')" by (cases x) auto
    with p have r': "parse_bindings cm mac (cm_keybinding c) = Inr ps" "bindings_cached cm mac r'"
      "cr_entries r' = cr_entries r" by auto
    with Cons.IH [OF r'(2)] Cons.prems(2) x show ?thesis by (auto split: sum.splits prod.splits)
  qed
qed simp

lemma all_commands_entries:
  assumes "entries_keyed (cr_entries r)" "c \<in> set (all_commands r)"
  shows "\<exists>shadow. jm_get (cr_entries r) (cm_id c) = Some (c, shadow)"
proof -
  from assms(2) obtain i shadow where "(i, c, shadow) \<in> set (cr_entries r)" by (auto simp: all_commands_def)
  with assms(1) show ?thesis by (auto simp: entries_keyed_def jm_wf_def)
qed

lemma cached_lookup:
  assumes "bindings_cached cm mac r"
  shows "case getBinding cm mac k r of
      Inl e \<Rightarrow> True | Inr (found, r') \<Rightarrow> bindings_cached cm mac r' \<and> cr_entries r' = cr_entries r"
proof -
  have "\<forall>c \<in> set (all_commands r). \<exists>shadow. jm_get (cr_entries r) (cm_id c) = Some (c, shadow)"
    using all_commands_entries assms by (simp add: bindings_cached_def)
  note f = cached_find [OF assms this]
  show ?thesis
  proof (cases k)
    case (KeyText str)
    show ?thesis
    proof (cases "parseKeybinding cm mac str")
      case (Inr p)
      then show ?thesis using f [of "\<lambda>b. b = p"] KeyText by (auto simp: getBinding_def split: sum.splits prod.splits)
    qed (simp add: getBinding_def KeyText)
  next
    case (KeyEvent ev)
    then show ?thesis using f [of "matchKeybinding cm ev"] by (auto simp: getBinding_def split: sum.splits prod.splits)
  qed
qed

lemma cached_call: "bindings_cached cm mac r \<Longrightarrow> bindings_cached cm mac (do_registry_call cm mac call r)"
proof (cases call)
  case (LookUp k)
  assume "bindings_cached cm mac r"
  from cached_lookup [OF this, of k] this LookUp show ?thesis
    by (auto simp: do_registry_call_def split: sum.splits prod.splits)
next
  case (SetContext ctx)
  assume "bindings_cached cm mac r"
  with SetContext show ?thesis by (simp add: do_registry_call_def bindings_cached_def setContextProvider_def)
qed (auto simp: do_registry_call_def cached_register cached_dispose)

lemma cached_install: "bindings_cached cm mac r \<Longrightarrow> bindings_cached cm mac (install c r)"
  using cached_register [of cm mac r c] by (simp add: register_command_def bindings_cached_def)

lemma cached_installs: "bindings_cached cm mac r \<Longrightarrow> bindings_cached cm mac (fold install cs r)"
  by (induction cs arbitrary: r) (simp_all add: cached_install)

lemma cached_create: "bindings_cached cm mac (createCommandRegistry commands)"
  unfolding createCommandRegistry_def
  by (rule cached_installs) (simp add: bindings_cached_def entries_keyed_def)

lemma cached_run:
  "bindings_cached cm mac r \<Longrightarrow> bindings_cached cm mac (fold (do_registry_call cm mac) calls r)"
  by (induction calls arbitrary: r) (simp_all add: cached_call)

subsection \<open>Menus\<close>

definition in_menu :: "jstring \<Rightarrow> jstring option \<Rightarrow> command \<Rightarrow> bool" where
  "in_menu k sub c \<longleftrightarrow> group_key c = k \<and> submenu_key c = sub"

text \<open>The bucket of a group once the commands \<open>xs\<close> were added.\<close>

definition bucket_of :: "command list \<Rightarrow> jstring \<Rightarrow> menu_bucket \<Rightarrow> bool" where
  "bucket_of xs k b \<longleftrightarrow> mb_items b = filter (in_menu k None) xs \<and> jm_wf (mb_submenus b)
     \<and> (\<forall>sid. map_option snd (jm_get (mb_submenus b) sid) =
          (if filter (in_menu k (Some sid)) xs = [] then None else Some (filter (in_menu k (Some sid)) xs)))"

definition buckets_of :: "command list \<Rightarrow> (jstring, menu_bucket) jmap \<Rightarrow> bool" where
  "buckets_of xs bs \<longleftrightarrow> jm_wf bs \<and> set (jm_keys bs) = group_key ` set xs
     \<and> (\<forall>k b. jm_get bs k = Some b \<longrightarrow> bucket_of xs k b)"

lemma bucket_submenu_add:
  assumes "bucket_of xs (group_key c) b" "submenu_key c = Some sid"
  shows "bucket_of (xs @ [c]) (group_key c) (add_to_submenu c sid b)"
proof -
  have sub: "map_option snd (jm_get (mb_submenus b) t) =
      (if filter (in_menu (group_key c) (Some t)) xs = [] then None
       else Some (filter (in_menu (group_key c) (Some t)) xs))" for t
    using assms(1) by (simp add: bucket_of_def)
  obtain l where add: "add_to_submenu c sid b = b\<lparr>mb_submenus :=
      jm_set sid (l, filter (in_menu (group_key c) (Some sid)) xs @ [c]) (mb_submenus b)\<rparr>"
    using sub [of sid]
    by (cases "jm_get (mb_submenus b) sid"; cases "cm_submenuLabel c")
       (auto simp: add_to_submenu_def Let_def split: if_splits)
  have "map_option snd (jm_get (mb_submenus (add_to_submenu c sid b)) t) =
      (if filter (in_menu (group_key c) (Some t)) (xs @ [c]) = [] then None
       else Some (filter (in_menu (group_key c) (Some t)) (xs @ [c])))" for t
    using sub [of t] assms(2) unfolding add by (cases "t = sid") (auto simp: in_menu_def)
  moreover have "mb_items (add_to_submenu c sid b) = filter (in_menu (group_key c) None) (xs @ [c])"
      "jm_wf (mb_submenus (add_to_submenu c sid b))"
    using assms unfolding add by (auto simp: bucket_of_def in_menu_def)
  ultimately show ?thesis unfolding bucket_of_def by blast
qed

lemma bucket_item_add:
  "bucket_of xs (group_key c) b \<Longrightarrow> submenu_key c = None \<Longrightarrow>
    bucket_of (xs @ [c]) (group_key c) (b\<lparr>mb_items := mb_items b @ [c]\<rparr>)"
  by (auto simp: bucket_of_def in_menu_def)

lemma bucket_other:
  "bucket_of xs k b \<Longrightarrow> group_key c \<noteq> k \<Longrightarrow> bucket_of (xs @ [c]) k b"
  by (simp add: bucket_of_def in_menu_def)

lemma bucket_new:
  assumes "k \<notin> group_key ` set xs"
  shows "bucket_of xs k \<lparr>mb_items = [], mb_submenus = []\<rparr>"
proof -
  have "filter (in_menu k sub) xs = []" for sub using assms by (auto simp: filter_empty_conv in_menu_def)
  then show ?thesis by (simp add: bucket_of_def)
qed

lemma buckets_add:
  assumes "buckets_of xs bs" shows "buckets_of (xs @ [c]) (add_to_bucket c bs)"
proof -
  let ?b = "case jm_get bs (group_key c) of Some b \<Rightarrow> b | None \<Rightarrow> \<lparr>mb_items = [], mb_submenus = []\<rparr>"
  let ?b' = "case submenu_key c of Some sid \<Rightarrow> add_to_submenu c sid ?b | None \<Rightarrow> ?b\<lparr>mb_items := mb_items ?b @ [c]\<rparr>"
  have "jm_get bs (group_key c) = None \<Longrightarrow> group_key c \<notin> group_key ` set xs"
    using assms by (simp add: buckets_of_def map_of_eq_None_iff)
  then have old: "bucket_of xs (group_key c) ?b"
    using assms bucket_new by (auto simp: buckets_of_def split: option.splits)
  then have new: "bucket_of (xs @ [c]) (group_key c) ?b'"
    by (cases "submenu_key c") (simp_all only: option.case bucket_submenu_add bucket_item_add)
  have eq: "add_to_bucket c bs = jm_set (group_key c) ?b' bs" by (simp add: add_to_bucket_def Let_def)
  show ?thesis
    unfolding eq buckets_of_def using assms new bucket_other
    by (auto simp: buckets_of_def split: if_splits simp del: image_insert)
qed

lemma buckets_fold: "buckets_of xs (fold add_to_bucket xs [])"
proof (induction xs rule: rev_induct)
  case (snoc c xs)
  then show ?case using buckets_add by simp
qed (simp add: buckets_of_def)

lemma menu_of_bucket_eq:
  assumes "buckets_of xs bs" "k \<in> set (jm_keys bs)"
  shows "\<exists>g. menu_of_bucket lc bs k = [g] \<and> mg_key g = k \<and> mg_items g = filter (in_menu k None) xs
    \<and> distinct (map fst (mg_submenus g)) \<and> fst ` set (mg_submenus g) = {sid. \<exists>c \<in> set xs. in_menu k (Some sid) c}
    \<and> (\<forall>(sid, label, items) \<in> set (mg_submenus g). items = filter (in_menu k (Some sid)) xs)"
proof -
  obtain b where b: "jm_get bs k = Some b"
    using assms(2) by (metis jm_has_def jm_has_iff option.exhaust)
  then have bk: "mb_items b = filter (in_menu k None) xs" "jm_wf (mb_submenus b)"
      "\<And>sid. map_option snd (jm_get (mb_submenus b) sid) =
        (if filter (in_menu k (Some sid)) xs = [] then None else Some (filter (in_menu k (Some sid)) xs))"
    using assms(1) by (auto simp: buckets_of_def bucket_of_def)
  have items: "items = filter (in_menu k (Some sid)) xs \<and> items \<noteq> []" if "(sid, label, items) \<in> set (mb_submenus b)"
    for sid label items
    using that bk(2) bk(3) [of sid] map_of_is_SomeI [of "mb_submenus b" sid "(label, items)"]
    by (auto simp: jm_wf_def split: if_splits)
  then have all: "filter (\<lambda>(i, label, items). items \<noteq> []) (mb_submenus b) = mb_submenus b"
    by (auto simp: filter_id_conv)
  have keys: "fst ` set (mb_submenus b) = {sid. \<exists>c \<in> set xs. in_menu k (Some sid) c}"
  proof (intro set_eqI)
    fix sid
    have "sid \<in> fst ` set (mb_submenus b) \<longleftrightarrow> jm_get (mb_submenus b) sid \<noteq> None"
      using map_of_eq_None_iff [of "mb_submenus b" sid] by simp
    also have "\<dots> \<longleftrightarrow> filter (in_menu k (Some sid)) xs \<noteq> []"
      using bk(3) [of sid] by (auto split: if_splits)
    finally show "sid \<in> fst ` set (mb_submenus b) \<longleftrightarrow> sid \<in> {sid. \<exists>c \<in> set xs. in_menu k (Some sid) c}"
      by (auto simp: filter_empty_conv)
  qed
  let ?subs = "js_sort (\<lambda>x y. lc (fst x) (fst y)) (mb_submenus b)"
  have "mset (map fst ?subs) = mset (map fst (mb_submenus b))" by simp
  then have dist: "distinct (map fst ?subs)" using bk(2) mset_eq_imp_distinct_iff by (fastforce simp: jm_wf_def)
  obtain c where c: "c \<in> set xs" "group_key c = k"
    using assms by (auto simp: buckets_of_def)
  then have "in_menu k (submenu_key c) c" by (simp add: in_menu_def)
  then have "mb_items b \<noteq> [] \<or> ?subs \<noteq> []"
  proof (cases "submenu_key c")
    case None
    then have "c \<in> set (mb_items b)" using c by (simp add: bk(1) in_menu_def)
    then show ?thesis by auto
  next
    case (Some sid)
    then have "sid \<in> fst ` set (mb_submenus b)" using c unfolding keys by (auto simp: in_menu_def)
    then have "set ?subs \<noteq> {}" by auto
    then show ?thesis by (metis set_empty)
  qed
  then have "menu_of_bucket lc bs k = [\<lparr>mg_key = k, mg_items = mb_items b, mg_submenus = ?subs\<rparr>]"
    using b all by (simp add: menu_of_bucket_def Let_def)
  then show ?thesis using bk(1) dist keys items by auto
qed

subsection \<open>Lifecycle events\<close>

definition ends_progress :: "lifecycle_event \<Rightarrow> bool" where
  "ends_progress e \<longleftrightarrow> e \<in> {Progress Completed, Progress Failed, Progress Cancelled}"

definition ends_telemetry :: "lifecycle_event \<Rightarrow> bool" where
  "ends_telemetry e = (case e of TelemetrySuccess \<Rightarrow> True | TelemetryFailure _ \<Rightarrow> True | TelemetryCancel \<Rightarrow> True | _ \<Rightarrow> False)"

definition found_disabled :: "lifecycle_run \<Rightarrow> bool" where
  "found_disabled l \<longleftrightarrow> \<not> lr_abortedBefore l
     \<and> (case lr_context l of Inr ctx \<Rightarrow> lr_enabled l ctx = Inr False | Inl _ \<Rightarrow> False)"

lemma settle_ends_once:
  "length (filter ends_progress (fst (lifecycle_settle cancelish l))) = 1
   \<and> length (filter ends_telemetry (fst (lifecycle_settle cancelish l))) = 1"
  by (simp add: lifecycle_settle_def lifecycle_catch_def success_events_def ends_progress_def ends_telemetry_def
      split: run_result.split)

subsection \<open>Concrete commands\<close>

definition demo_command :: "nat \<Rightarrow> string \<Rightarrow> string list \<Rightarrow> command" where
  "demo_command ref i keys = \<lparr>cm_ref = ref, cm_id = js i, cm_keybinding = map js keys, cm_when = (0, NoClause),
     cm_enablement = (0, NoClause), cm_visible = (0, VisibleUnset), cm_group = None, cm_submenu = None,
     cm_submenuLabel = None, cm_order = None\<rparr>"

section \<open>Properties\<close>

text \<open>
  C36: disposing a contribution undoes it. Whatever commands a package registers, over existing ones or
  twice the same, and whatever menu placements it adds on top, disposing it right away leaves every
  entry of the registry as it was: the active command of each id, the commands it shadows and their order.
\<close>

theorem contribution_unwinds:
  "let (hs, r') = contributeCommands ref commands items r
   in cr_entries (dispose_contribution hs r') = cr_entries r"
proof -
  obtain hs1 r1 where 1: "contribute_commands commands [] r = (hs1, r1)" by fastforce
  obtain hs r' where 2: "contribute_menus ref items hs1 r1 = (hs, r')" by fastforce
  have "unwinds r hs r'" using unwinds_menus [OF unwinds_commands [OF unwinds_Nil 1] 2] .
  then have "cr_entries (fold dispose_command (rev hs) r') = cr_entries r" unfolding unwinds_def by blast
  then show ?thesis using 1 2 by (simp add: contributeCommands_def dispose_contribution_def)
qed


text \<open>
  C38: the menu partition loses and repeats nothing. The groups are those of the commands, each once;
  a group's items are exactly its commands without a submenu, in the order of the sort by \<open>order\<close> and id;
  its submenus are those its commands name, each once, with exactly the commands that name it.
\<close>

theorem menu_partition_spec:
  "let sorted = js_sort (menu_cmp lc) commands; gs = partitionCommandsForMenu lc commands
   in distinct (map mg_key gs) \<and> set (map mg_key gs) = group_key ` set commands
    \<and> (\<forall>g \<in> set gs. mg_items g = filter (in_menu (mg_key g) None) sorted
        \<and> distinct (map fst (mg_submenus g))
        \<and> fst ` set (mg_submenus g) = {sid. \<exists>c \<in> set commands. in_menu (mg_key g) (Some sid) c}
        \<and> (\<forall>(sid, label, items) \<in> set (mg_submenus g). items = filter (in_menu (mg_key g) (Some sid)) sorted))"
proof -
  let ?xs = "js_sort (menu_cmp lc) commands"
  let ?bs = "fold add_to_bucket ?xs []" and ?ks = "js_sort lc (jm_keys (fold add_to_bucket ?xs []))"
  note B = buckets_fold [of ?xs]
  have dist: "distinct ?ks" "set ?ks = group_key ` set commands"
    using B by (auto simp: buckets_of_def jm_wf_def)
  define g where "g k = hd (menu_of_bucket lc ?bs k)" for k
  have g: "menu_of_bucket lc ?bs k = [g k] \<and> mg_key (g k) = k \<and> mg_items (g k) = filter (in_menu k None) ?xs
      \<and> distinct (map fst (mg_submenus (g k)))
      \<and> fst ` set (mg_submenus (g k)) = {sid. \<exists>c \<in> set commands. in_menu k (Some sid) c}
      \<and> (\<forall>(sid, label, items) \<in> set (mg_submenus (g k)). items = filter (in_menu k (Some sid)) ?xs)"
    if "k \<in> set ?ks" for k
  proof -
    from that have "k \<in> set (jm_keys ?bs)" by (simp only: set_js_sort)
    from menu_of_bucket_eq [OF B this, of lc, unfolded set_js_sort] obtain g0 where
      g0: "menu_of_bucket lc ?bs k = [g0] \<and> mg_key g0 = k \<and> mg_items g0 = filter (in_menu k None) ?xs
      \<and> distinct (map fst (mg_submenus g0))
      \<and> fst ` set (mg_submenus g0) = {sid. \<exists>c \<in> set commands. in_menu k (Some sid) c}
      \<and> (\<forall>(sid, label, items) \<in> set (mg_submenus g0). items = filter (in_menu k (Some sid)) ?xs)" by blast
    then have "g k = g0" by (simp add: g_def)
    then show ?thesis using g0 unfolding \<open>g k = g0\<close> by blast
  qed
  have "concat (map (menu_of_bucket lc ?bs) ks) = map g ks" if "set ks \<subseteq> set ?ks" for ks
    using that g by (induction ks) auto
  then have gs: "partitionCommandsForMenu lc commands = map g ?ks"
    by (simp add: partitionCommandsForMenu_def Let_def)
  have "map mg_key (map g ?ks) = ?ks" unfolding map_map by (rule map_idI) (use g in simp)
  then have keys: "distinct (map mg_key (map g ?ks)) \<and> set (map mg_key (map g ?ks)) = group_key ` set commands"
    using dist by (simp only: simp_thms)
  have each: "mg_items h = filter (in_menu (mg_key h) None) ?xs
        \<and> distinct (map fst (mg_submenus h))
        \<and> fst ` set (mg_submenus h) = {sid. \<exists>c \<in> set commands. in_menu (mg_key h) (Some sid) c}
        \<and> (\<forall>(sid, label, items) \<in> set (mg_submenus h). items = filter (in_menu (mg_key h) (Some sid)) ?xs)"
    if "h \<in> set (map g ?ks)" for h
  proof -
    from that obtain k where "k \<in> set ?ks" "h = g k" unfolding set_map by blast
    with g [of k] have "mg_key h = k" and "mg_items h = filter (in_menu k None) ?xs
        \<and> distinct (map fst (mg_submenus h))
        \<and> fst ` set (mg_submenus h) = {sid. \<exists>c \<in> set commands. in_menu k (Some sid) c}
        \<and> (\<forall>(sid, label, items) \<in> set (mg_submenus h). items = filter (in_menu k (Some sid)) ?xs)"
      by blast+
    then show ?thesis by blast
  qed
  show ?thesis unfolding gs Let_def
    by (rule conjI [OF keys [THEN conjunct1]], rule conjI [OF keys [THEN conjunct2]], rule ballI, rule each)
qed

theorem menu_partition_spec_witness:
  "mg_items (hd (partitionCommandsForMenu (\<lambda>_ _. 0) [demo_command 1 ''b'' [], demo_command 2 ''a'' []])) =
     [demo_command 1 ''b'' [], demo_command 2 ''a'' []]"
proof -
  let ?cs = "[demo_command 1 ''b'' [], demo_command 2 ''a'' []]"
  have sorted: "js_sort (menu_cmp (\<lambda>_ _. 0)) ?cs = ?cs" by (simp add: menu_cmp_def demo_command_def)
  have key: "group_key c = js ''9_custom''" "submenu_key c = None" if "c \<in> set ?cs" for c
    using that by (auto simp: group_key_def submenu_key_def demo_command_def)
  note spec = menu_partition_spec [of "\<lambda>_ _. 0" ?cs, unfolded Let_def sorted]
  then have "set (map mg_key (partitionCommandsForMenu (\<lambda>_ _. 0) ?cs)) = {js ''9_custom''}"
    using key by simp
  then obtain g gs where g: "partitionCommandsForMenu (\<lambda>_ _. 0) ?cs = g # gs" "mg_key g = js ''9_custom''"
    by (cases "partitionCommandsForMenu (\<lambda>_ _. 0) ?cs") auto
  with spec have "mg_items g = filter (in_menu (js ''9_custom'') None) ?cs" by auto
  then show ?thesis using g key by (simp add: in_menu_def)
qed

text \<open>
  Every dispatch with a lifecycle ends exactly once: one of the phases completed, failed and
  cancelled is reported, once, and one closing telemetry event, except that a dispatch that finds the
  command disabled reports cancelled and never closes its \<open>command.start\<close>. The promise is rejected only
  with an error that was also notified.
\<close>

theorem lifecycle_ends_once:
  "let (evs, outcome) = dispatchWithLifecycle cancelish l
   in length (filter ends_progress evs) = 1
    \<and> length (filter ends_telemetry evs) = (if found_disabled l then 0 else 1)
    \<and> (case outcome of DispatchRejected e \<Rightarrow> NotifyError e \<in> set evs | DispatchResolved \<Rightarrow> True)"
proof -
  have base: "ends_progress (Progress Cancelled)" "ends_progress (Progress Failed)" "\<not> ends_progress TelemetryStart"
      "\<not> ends_progress (Progress Preparing)" "\<not> ends_progress (Progress Running)" "\<not> ends_progress TelemetryCancel"
      "\<not> ends_progress (TelemetryFailure e)" "\<not> ends_progress (NotifyError e)"
      "ends_telemetry TelemetryCancel" "ends_telemetry (TelemetryFailure e)" "\<not> ends_telemetry TelemetryStart"
      "\<not> ends_telemetry (Progress p)" "\<not> ends_telemetry (NotifyError e)" for e p
    by (simp_all add: ends_progress_def ends_telemetry_def)
  have rej: "case snd (lifecycle_settle cancelish l) of
      DispatchRejected e \<Rightarrow> NotifyError e \<in> set (fst (lifecycle_settle cancelish l)) | DispatchResolved \<Rightarrow> True"
    by (simp add: lifecycle_settle_def lifecycle_catch_def split: run_result.split)
  show ?thesis
    using settle_ends_once [of cancelish l] rej
    by (auto simp: dispatchWithLifecycle_def lifecycle_catch_def found_disabled_def base case_prod_beta
        split: sum.split bool.split lifecycle_outcome.splits)
qed

text \<open>
  A command object registered twice is removed from the wrong place. Registered, shadowed by another
  and registered again it is the active command; disposing its first registration makes the other one
  active, although the latest registration was not disposed.
\<close>

theorem command_registered_twice:
  assumes "cm_ref a \<noteq> cm_ref b" "cm_id a = cm_id b"
  shows "get_command (fold (do_registry_call cm mac)
      [RegisterCommand a, RegisterCommand b, RegisterCommand a, DisposeCommand 0] (createCommandRegistry [])) (cm_id a)
    = Some b"
  using assms
  by (simp add: do_registry_call_def register_command_def install_def install_entries_def dispose_command_def
      dispose_entries_def createCommandRegistry_def get_command_def)

theorem command_registered_twice_witness:
  "get_command (fold (do_registry_call ascii_maps False)
     [RegisterCommand (demo_command 1 ''x'' []), RegisterCommand (demo_command 2 ''x'' []),
      RegisterCommand (demo_command 1 ''x'' []), DisposeCommand 0] (createCommandRegistry [])) (js ''x'') =
   Some (demo_command 2 ''x'' [])"
  using command_registered_twice [of "demo_command 1 ''x'' []" "demo_command 2 ''x'' []" ascii_maps False]
  by (simp add: demo_command_def)

end
