(* ===== verification/Provider_Capabilities.thy ===== *)
theory Provider_Capabilities
  imports Protocol Uri_Paths
begin

text \<open>
  What a filesystem provider can do (\<open>packages/mille/src/provider/capabilities.ts\<close>, with the bits and the
  operations of \<open>provider/types.ts\<close>) and the wrappers that check it before each call
  (\<open>provider/wrap.ts\<close>). A provider is an object: its scheme, its capability mask, the optional methods
  it has, and what a call does. The state \<open>'s\<close> and the replies \<open>'r\<close> of the wrapped provider are its own.
\<close>

unbundle bit_operations_syntax

section \<open>Capability bits\<close>

abbreviation CapNone :: "32 word" where "CapNone \<equiv> 0"
definition CapReadWrite :: "32 word" where "CapReadWrite = push_bit 0 1"
definition CapCaseSensitive :: "32 word" where "CapCaseSensitive = push_bit 1 1"
definition CapReadonly :: "32 word" where "CapReadonly = push_bit 2 1"
definition CapTrash :: "32 word" where "CapTrash = push_bit 3 1"
definition CapAtomicWrite :: "32 word" where "CapAtomicWrite = push_bit 4 1"
definition CapWatch :: "32 word" where "CapWatch = push_bit 5 1"
definition CapStream :: "32 word" where "CapStream = push_bit 6 1"
definition CapClone :: "32 word" where "CapClone = push_bit 7 1"
definition CapRealpath :: "32 word" where "CapRealpath = push_bit 8 1"
definition CapFileLock :: "32 word" where "CapFileLock = push_bit 9 1"

lemmas cap_defs = CapReadWrite_def CapCaseSensitive_def CapReadonly_def CapTrash_def CapAtomicWrite_def
  CapWatch_def CapStream_def CapClone_def CapRealpath_def CapFileLock_def

datatype provider_operation =
  OpStat | OpReadDirectory | OpReadFile | OpWriteFile | OpCreateDirectory | OpDelete | OpRename | OpCopy
  | OpWatch | OpStream | OpTrash | OpAtomicWrite

fun OP_REQUIREMENTS :: "provider_operation \<Rightarrow> 32 word \<times> string" where
  "OP_REQUIREMENTS OpStat = (CapNone, ''stat'')"
| "OP_REQUIREMENTS OpReadDirectory = (CapNone, ''read directory'')"
| "OP_REQUIREMENTS OpReadFile = (CapNone, ''read file'')"
| "OP_REQUIREMENTS OpWriteFile = (CapReadWrite, ''write file'')"
| "OP_REQUIREMENTS OpCreateDirectory = (CapReadWrite, ''create directory'')"
| "OP_REQUIREMENTS OpDelete = (CapReadWrite, ''delete'')"
| "OP_REQUIREMENTS OpRename = (CapReadWrite, ''rename'')"
| "OP_REQUIREMENTS OpCopy = (CapClone OR CapReadWrite, ''copy'')"
| "OP_REQUIREMENTS OpWatch = (CapWatch, ''watch'')"
| "OP_REQUIREMENTS OpStream = (CapStream, ''stream read'')"
| "OP_REQUIREMENTS OpTrash = (CapTrash, ''move to trash'')"
| "OP_REQUIREMENTS OpAtomicWrite = (CapAtomicWrite, ''atomic write'')"

text \<open>The optional methods of a provider object.\<close>

datatype provider_method =
  MWriteFile | MCreateDirectory | MDelete | MRename | MCopy | MWatch | MReadFileStream

fun OP_METHOD :: "provider_operation \<Rightarrow> provider_method option" where
  "OP_METHOD OpWriteFile = Some MWriteFile"
| "OP_METHOD OpCreateDirectory = Some MCreateDirectory"
| "OP_METHOD OpDelete = Some MDelete"
| "OP_METHOD OpRename = Some MRename"
| "OP_METHOD OpCopy = Some MCopy"
| "OP_METHOD OpWatch = Some MWatch"
| "OP_METHOD OpStream = Some MReadFileStream"
| "OP_METHOD _ = None"

definition hasCapability :: "32 word \<Rightarrow> 32 word \<Rightarrow> bool" where
  "hasCapability capabilities b \<longleftrightarrow> b = CapNone \<or> capabilities AND b = b"

definition hasAnyCapability :: "32 word \<Rightarrow> 32 word \<Rightarrow> bool" where
  "hasAnyCapability capabilities bits \<longleftrightarrow> bits = CapNone \<or> capabilities AND bits \<noteq> 0"

definition isReadonlyProvider :: "32 word \<Rightarrow> bool" where
  "isReadonlyProvider capabilities = hasCapability capabilities CapReadonly"

definition isCaseSensitiveProvider :: "32 word \<Rightarrow> bool" where
  "isCaseSensitiveProvider capabilities = hasCapability capabilities CapCaseSensitive"

definition capabilityBitsAllow :: "32 word \<Rightarrow> provider_operation \<Rightarrow> bool" where
  "capabilityBitsAllow capabilities operation =
     (if operation \<in> {OpStat, OpReadDirectory, OpReadFile} then True
      else if isReadonlyProvider capabilities
        \<and> operation \<in> {OpWriteFile, OpCreateDirectory, OpDelete, OpRename, OpCopy, OpTrash, OpAtomicWrite} then False
      else if operation = OpCopy
      then hasCapability capabilities CapClone \<or> hasCapability capabilities CapReadWrite
      else if operation = OpTrash then hasCapability capabilities CapTrash
      else if operation = OpAtomicWrite then hasCapability capabilities CapAtomicWrite
      else hasCapability capabilities (fst (OP_REQUIREMENTS operation)))"

text \<open>The object as the checks see it. \<open>None\<close> stands for \<open>null\<close> and \<open>undefined\<close>.\<close>

record provider_shape =
  po_scheme :: string
  po_capabilities :: "32 word"
  po_methods :: "provider_method list"

definition providerHasMethod :: "provider_shape option \<Rightarrow> provider_operation \<Rightarrow> bool" where
  "providerHasMethod provider operation =
     (let has = (\<lambda>m. case provider of Some p \<Rightarrow> m \<in> set (po_methods p) | None \<Rightarrow> False)
      in if operation \<in> {OpStat, OpReadDirectory, OpReadFile} then True
         else if operation = OpTrash then has MDelete
         else if operation = OpAtomicWrite then has MWriteFile
         else (case OP_METHOD operation of None \<Rightarrow> True | Some m \<Rightarrow> has m))"

definition providerSupports :: "32 word \<Rightarrow> provider_operation \<Rightarrow> provider_shape option \<Rightarrow> bool" where
  "providerSupports capabilities operation provider =
     (if \<not> capabilityBitsAllow capabilities operation then False
      else if provider \<noteq> None then providerHasMethod provider operation else True)"

definition providerSupportsOperation :: "provider_shape \<Rightarrow> provider_operation \<Rightarrow> bool" where
  "providerSupportsOperation provider operation = providerSupports (po_capabilities provider) operation (Some provider)"

text \<open>\<open>Number.prototype.toString(16)\<close> of a natural number.\<close>

definition hex_char :: "nat \<Rightarrow> char" where
  "hex_char n = ''0123456789abcdef'' ! n"

fun to_hex :: "nat \<Rightarrow> string" where
  "to_hex n = (if n < 16 then [hex_char n] else to_hex (n div 16) @ [hex_char (n mod 16)])"

declare to_hex.simps [simp del]

record unsupported_info =
  ui_operation :: provider_operation
  ui_code :: string
  ui_message :: string
  ui_required :: "32 word"
  ui_actual :: "32 word"

definition describeUnsupported :: "32 word \<Rightarrow> provider_operation \<Rightarrow> provider_shape option \<Rightarrow> unsupported_info" where
  "describeUnsupported capabilities operation provider =
     (let (bits, label) = OP_REQUIREMENTS operation;
          message =
            (if isReadonlyProvider capabilities \<and> \<not> capabilityBitsAllow capabilities operation
             then ''Provider is read-only; cannot '' @ label
             else if provider \<noteq> None \<and> capabilityBitsAllow capabilities operation
               \<and> \<not> providerHasMethod provider operation
             then ''Provider does not implement '' @ label
             else ''Provider does not support '' @ label @ '' (missing capability bits 0x'' @ to_hex (unat bits) @ '')'')
      in \<lparr>ui_operation = operation, ui_code = ''EUNSUPPORTED'', ui_message = message, ui_required = bits,
          ui_actual = capabilities\<rparr>)"

definition requireCapability :: "provider_shape \<Rightarrow> provider_operation \<Rightarrow> fs_error + unit" where
  "requireCapability provider operation =
     (if providerSupportsOperation provider operation then Inr ()
      else let info = describeUnsupported (po_capabilities provider) operation (Some provider)
           in Inl (FileSystemError (ui_code info)
                (ui_message info @ '' [scheme='' @ po_scheme provider @ '']'') None))"

definition capabilityLabels :: "32 word \<Rightarrow> string list" where
  "capabilityLabels capabilities =
     map snd (filter (\<lambda>(b, label). hasCapability capabilities b)
       [(CapReadWrite, ''readWrite''), (CapCaseSensitive, ''caseSensitive''), (CapReadonly, ''readonly''),
        (CapTrash, ''trash''), (CapAtomicWrite, ''atomicWrite''), (CapWatch, ''watch''), (CapStream, ''stream''),
        (CapClone, ''clone''), (CapRealpath, ''realpath''), (CapFileLock, ''fileLock'')])"

section \<open>Entries and events\<close>

record provider_entry =
  pe_id :: int
  pe_parentId :: "int option"
  pe_name :: string
  pe_kind :: int
  pe_size :: int
  pe_mtimeMs :: int
  pe_ctimeMs :: int
  pe_path :: string
  pe_isReadonly :: bool

abbreviation KindFile :: int where "KindFile \<equiv> 0"
abbreviation KindDirectory :: int where "KindDirectory \<equiv> 1"

datatype event_type = EvCreated | EvChanged | EvDeleted | EvRenamed

record fs_event =
  ev_type :: event_type
  ev_uri :: uri
  ev_oldUri :: "uri option"

section \<open>Calls and providers\<close>

text \<open>A method call with its arguments; the flags are the options of the call.\<close>

datatype provider_call =
    CStat uri | CReadDirectory uri | CReadFile uri
  | CWriteFile uri bytes bool
  | CCreateDirectory uri
  | CDelete uri bool bool
  | CRename uri uri
  | CCopy uri uri bool
  | CWatch uri bool "string list" "string list"
  | CReadFileStream uri

text \<open>The method a call goes to, when it is an optional one.\<close>

fun call_method :: "provider_call \<Rightarrow> provider_method option" where
  "call_method (CStat u) = None"
| "call_method (CReadDirectory u) = None"
| "call_method (CReadFile u) = None"
| "call_method (CWriteFile u d atomic) = Some MWriteFile"
| "call_method (CCreateDirectory u) = Some MCreateDirectory"
| "call_method (CDelete u recursive trash) = Some MDelete"
| "call_method (CRename u v) = Some MRename"
| "call_method (CCopy u v overwrite) = Some MCopy"
| "call_method (CWatch u r i e) = Some MWatch"
| "call_method (CReadFileStream u) = Some MReadFileStream"

text \<open>
  A provider object. A call answers \<open>None\<close> when the object has no such method: then there is
  nothing to call. Otherwise it throws or returns, and the state it leaves is kept either way.
\<close>

record ('s, 'r) provider_object =
  ob_shape :: provider_shape
  ob_call :: "provider_call \<Rightarrow> 's \<Rightarrow> (fs_error + 'r) \<times> 's"

definition exposes :: "provider_shape \<Rightarrow> provider_call \<Rightarrow> bool" where
  "exposes p c = (case call_method c of None \<Rightarrow> True | Some m \<Rightarrow> m \<in> set (po_methods p))"

definition invoke :: "('s, 'r) provider_object \<Rightarrow> provider_call \<Rightarrow> 's \<Rightarrow> ((fs_error + 'r) \<times> 's) option" where
  "invoke p c s = (if exposes (ob_shape p) c then Some (ob_call p c s) else None)"

section \<open>Wrappers\<close>

text \<open>The operations a wrapped method gates, in order.\<close>

fun gates :: "provider_call \<Rightarrow> provider_operation list" where
  "gates (CStat u) = []"
| "gates (CReadDirectory u) = []"
| "gates (CReadFile u) = []"
| "gates (CWriteFile u d atomic) = (if atomic then [OpWriteFile, OpAtomicWrite] else [OpWriteFile])"
| "gates (CCreateDirectory u) = [OpCreateDirectory]"
| "gates (CDelete u recursive trash) = (if trash then [OpDelete, OpTrash] else [OpDelete])"
| "gates (CRename u v) = [OpRename]"
| "gates (CCopy u v overwrite) = [OpCopy]"
| "gates (CWatch u r i e) = [OpWatch]"
| "gates (CReadFileStream u) = [OpStream]"

fun run_gates :: "provider_shape \<Rightarrow> provider_operation list \<Rightarrow> fs_error + unit" where
  "run_gates p [] = Inr ()"
| "run_gates p (op # ops) = rbind (requireCapability p op) (\<lambda>_. run_gates p ops)"

definition withCapabilityGate :: "('s, 'r) provider_object \<Rightarrow> ('s, 'r) provider_object" where
  "withCapabilityGate p = p\<lparr>ob_call := \<lambda>c s.
     (case run_gates (ob_shape p) (gates c) of Inl e \<Rightarrow> (Inl e, s) | Inr _ \<Rightarrow> ob_call p c s)\<rparr>"

text \<open>
  \<open>sleep\<close> ends with \<open>ECANCELED\<close> when its signal is aborted before it starts, or while the timer runs. The
  signal is two flags here: aborted at the start, and aborted before the timer fires.
\<close>

definition sleep :: "int \<Rightarrow> bool \<Rightarrow> bool \<Rightarrow> fs_error + unit" where
  "sleep ms aborted abortedMeanwhile =
     (if aborted \<or> (ms > 0 \<and> abortedMeanwhile) then Inl (FileSystemError ''ECANCELED'' ''operation aborted'' None)
      else Inr ())"

record latency_options =
  lo_delayMs :: "int option"
  lo_jitterMs :: "int option"
  lo_aborted :: bool
  lo_abortedMeanwhile :: bool

definition or_zero :: "int option \<Rightarrow> int" where
  "or_zero v = (case v of Some n \<Rightarrow> n | None \<Rightarrow> 0)"

text \<open>\<open>jitter\<close> is \<open>Math.floor(random() * (jitterMs + 1))\<close> for this call.\<close>

definition withLatency :: "int \<Rightarrow> latency_options \<Rightarrow> ('s, 'r) provider_object \<Rightarrow> ('s, 'r) provider_object" where
  "withLatency jitter options p = p\<lparr>ob_call := \<lambda>c s.
     (case c of
        CWatch _ _ _ _ \<Rightarrow> ob_call p c s
      | CReadFileStream _ \<Rightarrow> ob_call p c s
      | _ \<Rightarrow> (case sleep (or_zero (lo_delayMs options) + (if or_zero (lo_jitterMs options) > 0 then jitter else 0))
                (lo_aborted options) (lo_abortedMeanwhile options) of
                Inl e \<Rightarrow> (Inl e, s)
              | Inr _ \<Rightarrow> ob_call p c s))\<rparr>"

text \<open>The offline switch is one more bit of state.\<close>

definition offline_error :: "provider_shape \<Rightarrow> fs_error" where
  "offline_error p = FileSystemError ''EBUSY'' (''Provider \"'' @ po_scheme p @ ''\" is offline'') None"

definition withOfflineGate :: "('s, 'r) provider_object \<Rightarrow> (bool \<times> 's, 'r) provider_object" where
  "withOfflineGate p = \<lparr>ob_shape = ob_shape p, ob_call = \<lambda>c (offline, s).
     if offline then (Inl (offline_error (ob_shape p)), offline, s)
     else (let (r, s') = ob_call p c s in (r, offline, s'))\<rparr>"

definition setOffline :: "bool \<Rightarrow> bool \<times> 's \<Rightarrow> bool \<times> 's" where
  "setOffline v st = (v, snd st)"

text \<open>Which events of an inner watcher reach the listener of a wrapped one.\<close>

definition offline_forward :: "bool \<Rightarrow> 'ev \<Rightarrow> 'ev option" where
  "offline_forward offline event = (if offline then None else Some event)"

definition hardenProvider :: "int \<Rightarrow> latency_options \<Rightarrow> ('s, 'r) provider_object \<Rightarrow> ('s, 'r) provider_object" where
  "hardenProvider jitter options p =
     (let q = withCapabilityGate p
      in if or_zero (lo_delayMs options) > 0 \<or> or_zero (lo_jitterMs options) > 0 then withLatency jitter options q else q)"

section \<open>Properties\<close>

text \<open>The calls that change what the provider stores.\<close>

fun mutates :: "provider_call \<Rightarrow> bool" where
  "mutates (CWriteFile u d atomic) = True"
| "mutates (CCreateDirectory u) = True"
| "mutates (CDelete u recursive trash) = True"
| "mutates (CRename u v) = True"
| "mutates (CCopy u v overwrite) = True"
| "mutates _ = False"

lemma requireCapability_ok: "requireCapability p op = Inr () \<longleftrightarrow> providerSupportsOperation p op"
  by (simp add: requireCapability_def Let_def)

lemma requireCapability_error:
  "\<not> providerSupportsOperation p op \<Longrightarrow> \<exists>e. requireCapability p op = Inl e \<and> er_code e = ''EUNSUPPORTED''"
  by (simp add: requireCapability_def Let_def describeUnsupported_def FileSystemError_def case_prod_beta)

lemma run_gates_spec:
  "if list_all (providerSupportsOperation p) ops then run_gates p ops = Inr ()
   else \<exists>e. run_gates p ops = Inl e \<and> er_code e = ''EUNSUPPORTED''"
proof (induction ops)
  case (Cons op ops)
  then show ?case
    using requireCapability_ok [of p op] requireCapability_error [of p op]
    by (cases "providerSupportsOperation p op") auto
qed simp

lemma readonly_gates:
  assumes "isReadonlyProvider (po_capabilities p)" "mutates c"
  shows "\<not> list_all (providerSupportsOperation p) (gates c)"
  using assms by (cases c) (auto simp: providerSupportsOperation_def providerSupports_def capabilityBitsAllow_def)


text \<open>A provider that counts its calls and advertises everything but is read-only.\<close>

definition counting_provider :: "(nat, unit) provider_object" where
  "counting_provider = \<lparr>ob_shape = \<lparr>po_scheme = ''x'', po_capabilities = CapReadWrite OR CapReadonly,
     po_methods = [MWriteFile]\<rparr>, ob_call = \<lambda>c n. (Inr (), Suc n)\<rparr>"

definition some_uri :: uri where
  "some_uri = createUri ''x'' ''/f'' None None None"


end
