(* ===== verification/Memory_FS.thy ===== *)
theory Memory_FS
  imports Provider_Capabilities
begin

text \<open>
  The in-memory filesystem provider (\<open>packages/mille/src/provider/memfs.ts\<close>).

  The nodes are objects that several tables refer to and that operations change in place, so they live
  in a heap: a reference is the id of the node, which is never reused. \<open>mf_nodes\<close> is the map from path
  keys to nodes, \<open>mf_idToPath\<close> the map back, \<open>mf_watchers\<close> the set of watchers with their listeners.
  Operations return an error or a value together with the state they leave. An operation that calls
  itself on children runs to its end before another one starts; fuel bounds the depth of such calls,
  and \<open>None\<close> says that it ran out. The environment holds what the closure of the provider fixes:
  its scheme and capabilities, \<open>toLowerCase\<close>, \<open>localeCompare\<close>, the successive readings of the clock, and which
  listeners throw. Listeners do not call back into the provider.
\<close>

section \<open>State\<close>

record mem_env =
  me_scheme :: string
  me_capabilities :: "32 word"
  me_lower :: "string \<Rightarrow> string"
  me_compare :: "string \<Rightarrow> string \<Rightarrow> int"
  me_now :: "nat \<Rightarrow> int"
  me_throws :: "nat \<Rightarrow> fs_event \<Rightarrow> bool"

definition caseSensitive :: "mem_env \<Rightarrow> bool" where
  "caseSensitive env \<longleftrightarrow> me_capabilities env AND CapCaseSensitive \<noteq> 0"

definition readonly_fs :: "mem_env \<Rightarrow> bool" where
  "readonly_fs env \<longleftrightarrow> me_capabilities env AND CapReadonly \<noteq> 0"

record mem_node =
  mn_id :: int
  mn_parentId :: "int option"
  mn_name :: string
  mn_kind :: int
  mn_content :: bytes
  mn_mtimeMs :: int
  mn_ctimeMs :: int
  mn_children :: "(string, string) jmap"

record mem_watcher =
  mw_ref :: nat
  mw_scope :: string
  mw_recursive :: bool
  mw_includes :: "string list"
  mw_excludes :: "string list"
  mw_listeners :: "nat jset"

text \<open>\<open>mf_reads\<close> counts the readings of the clock, \<open>mf_events\<close> logs the events emitted and \<open>mf_delivered\<close> the calls of listeners.\<close>

record memfs =
  mf_nextId :: int
  mf_heap :: "int \<Rightarrow> mem_node"
  mf_nodes :: "string \<rightharpoonup> int"
  mf_idToPath :: "int \<rightharpoonup> string"
  mf_watchers :: "mem_watcher list"
  mf_nextRef :: nat
  mf_reads :: nat
  mf_events :: "fs_event list"
  mf_delivered :: "(nat \<times> fs_event) list"

type_synonym 'a mem_result = "(fs_error + 'a) \<times> memfs"

definition blank_node :: mem_node where
  "blank_node = \<lparr>mn_id = 0, mn_parentId = None, mn_name = [], mn_kind = KindFile, mn_content = [], mn_mtimeMs = 0,
     mn_ctimeMs = 0, mn_children = []\<rparr>"

definition empty_memfs :: memfs where
  "empty_memfs = \<lparr>mf_nextId = 1, mf_heap = \<lambda>_. blank_node, mf_nodes = Map.empty, mf_idToPath = Map.empty,
     mf_watchers = [], mf_nextRef = 0, mf_reads = 0, mf_events = [], mf_delivered = []\<rparr>"

definition mbind :: "'a mem_result \<Rightarrow> ('a \<Rightarrow> memfs \<Rightarrow> 'b mem_result) \<Rightarrow> 'b mem_result" where
  "mbind m f = (case m of (Inl e, st) \<Rightarrow> (Inl e, st) | (Inr x, st) \<Rightarrow> f x st)"

definition update_node :: "int \<Rightarrow> (mem_node \<Rightarrow> mem_node) \<Rightarrow> memfs \<Rightarrow> memfs" where
  "update_node n f st = st\<lparr>mf_heap := (mf_heap st)(n := f (mf_heap st n))\<rparr>"

definition set_child :: "int \<Rightarrow> string \<Rightarrow> string \<Rightarrow> memfs \<Rightarrow> memfs" where
  "set_child n name key st = update_node n (mn_children_update (jm_set name key)) st"

definition delete_child :: "int \<Rightarrow> string \<Rightarrow> memfs \<Rightarrow> memfs" where
  "delete_child n name st = update_node n (mn_children_update (jm_delete name)) st"

definition now :: "mem_env \<Rightarrow> memfs \<Rightarrow> int \<times> memfs" where
  "now env st = (me_now env (mf_reads st), st\<lparr>mf_reads := Suc (mf_reads st)\<rparr>)"

section \<open>Paths\<close>

definition pathKey :: "mem_env \<Rightarrow> string \<Rightarrow> string" where
  "pathKey env path = (let n = normalizeUriPath path in if caseSensitive env then n else me_lower env n)"

definition child_name :: "mem_env \<Rightarrow> string \<Rightarrow> string" where
  "child_name env name = (if caseSensitive env then name else me_lower env name)"

definition uriFor :: "mem_env \<Rightarrow> string \<Rightarrow> uri" where
  "uriFor env path = createUri (me_scheme env) path None None None"

definition getNode :: "mem_env \<Rightarrow> string \<Rightarrow> memfs \<Rightarrow> int option" where
  "getNode env path st = mf_nodes st (pathKey env path)"

definition ensureNode :: "mem_env \<Rightarrow> string \<Rightarrow> memfs \<Rightarrow> fs_error + int" where
  "ensureNode env path st =
     (case getNode env path st of
        None \<Rightarrow> Inl (FileSystemError ''ENOENT'' ''No such file or directory'' (Some path))
      | Some n \<Rightarrow> Inr n)"

definition startsWith :: "string \<Rightarrow> string \<Rightarrow> bool" where
  "startsWith s prefix \<longleftrightarrow> take (length prefix) s = prefix"

definition isPathUnder :: "string \<Rightarrow> string \<Rightarrow> bool" where
  "isPathUnder path ancestor =
     (let p = normalizeUriPath path; a = normalizeUriPath ancestor
      in if p = a then True
         else if a = ''/'' then startsWith p ''/''
         else startsWith p (a @ ''/''))"

definition child_path :: "string \<Rightarrow> string \<Rightarrow> string" where
  "child_path path name = (if path = ''/'' then slash # name else path @ slash # name)"

section \<open>Watch filters\<close>

text \<open>
  The regular expression a pattern with a star becomes: literals, \<open>[^/]*\<close> and \<open>.*\<close>. A question mark of the
  pattern is not escaped, so it is a quantifier: it makes the literal before it optional, a second one, or
  one after a star, makes the quantifier lazy, which does not change what matches; where there is nothing
  to repeat the constructor throws (\<open>None\<close>).
\<close>

datatype glob_item = GLit char bool | GStar | GDeep

fun replace_deep :: "string \<Rightarrow> string" where
  "replace_deep [] = []"
| "replace_deep [c] = [c]"
| "replace_deep (c # d # cs) =
     (if c = CHR ''*'' \<and> d = CHR ''*'' then ''::DS::'' @ replace_deep cs else c # replace_deep (d # cs))"

text \<open>The second argument says what a question mark may still follow: nothing, a literal, or a quantifier.\<close>

datatype repeatable = RepNothing | RepLiteral | RepQuantifier

function (sequential) glob_items :: "glob_item list \<Rightarrow> repeatable \<Rightarrow> string \<Rightarrow> glob_item list option" where
  "glob_items acc r [] = Some (rev acc)"
| "glob_items acc r (c # cs) =
     (if take 6 (c # cs) = ''::DS::'' then glob_items (GDeep # acc) RepQuantifier (drop 6 (c # cs))
      else if c = CHR ''*'' then glob_items (GStar # acc) RepQuantifier cs
      else if c = CHR ''?''
      then (case r of
              RepNothing \<Rightarrow> None
            | RepLiteral \<Rightarrow> (case acc of GLit d _ # acc' \<Rightarrow> glob_items (GLit d True # acc') RepQuantifier cs | _ \<Rightarrow> None)
            | RepQuantifier \<Rightarrow> glob_items acc RepNothing cs)
      else glob_items (GLit c False # acc) RepLiteral cs)"
  by pat_completeness auto
termination glob_items by (relation "measure (\<lambda>(acc, r, cs). length cs)") auto

definition newline :: "char \<Rightarrow> bool" where
  "newline c \<longleftrightarrow> c = CHR 0x0A \<or> c = CHR 0x0D"

fun glob_match :: "glob_item list \<Rightarrow> string \<Rightarrow> bool" where
  "glob_match [] s \<longleftrightarrow> s = []"
| "glob_match (GLit c opt # items) [] \<longleftrightarrow> opt \<and> glob_match items []"
| "glob_match (GLit c opt # items) (d # s) \<longleftrightarrow> (c = d \<and> glob_match items s) \<or> (opt \<and> glob_match items (d # s))"
| "glob_match (GStar # items) [] \<longleftrightarrow> glob_match items []"
| "glob_match (GStar # items) (d # s) \<longleftrightarrow> glob_match items (d # s) \<or> (d \<noteq> slash \<and> glob_match (GStar # items) s)"
| "glob_match (GDeep # items) [] \<longleftrightarrow> glob_match items []"
| "glob_match (GDeep # items) (d # s) \<longleftrightarrow> glob_match items (d # s) \<or> (\<not> newline d \<and> glob_match (GDeep # items) s)"

text \<open>\<open>None\<close> is the exception of the \<open>RegExp\<close> constructor.\<close>

definition matchSimpleGlob :: "string \<Rightarrow> string \<Rightarrow> bool option" where
  "matchSimpleGlob path pattern =
     (let p = normalizeUriPath path; g = posix_slashes pattern
      in if length g \<ge> 3 \<and> drop (length g - 3) g = ''/**''
         then (let prefix = take (length g - 3) g in Some (isPathUnder p (if prefix = [] then ''/'' else prefix)))
         else if CHR ''*'' \<in> set g
         then map_option (\<lambda>items. glob_match items p) (glob_items [] RepNothing (replace_deep g))
         else Some (p = normalizeUriPath g \<or> isPathUnder p g))"

text \<open>\<open>Array.prototype.some\<close> with a callback that may throw.\<close>

fun some_glob :: "string \<Rightarrow> string list \<Rightarrow> bool option" where
  "some_glob p [] = Some False"
| "some_glob p (g # gs) =
     (case matchSimpleGlob p g of None \<Rightarrow> None | Some b \<Rightarrow> if b then Some True else some_glob p gs)"

definition pathMatchesWatch :: "string \<Rightarrow> string \<Rightarrow> bool \<Rightarrow> bool" where
  "pathMatchesWatch path scope recursive =
     (let p = normalizeUriPath path; s = normalizeUriPath scope
      in if p = s then True
         else if \<not> isPathUnder p s then False
         else if recursive then True
         else dirnameUriPath p = s)"

fun paths_in_scope :: "string list \<Rightarrow> string \<Rightarrow> bool \<Rightarrow> string list \<Rightarrow> string list \<Rightarrow> bool option" where
  "paths_in_scope [] scope recursive includes excludes = Some False"
| "paths_in_scope (raw # paths) scope recursive includes excludes =
     (let p = normalizeUriPath raw
      in if \<not> pathMatchesWatch p scope recursive then paths_in_scope paths scope recursive includes excludes
         else (case some_glob p excludes of
                 None \<Rightarrow> None
               | Some True \<Rightarrow> paths_in_scope paths scope recursive includes excludes
               | Some False \<Rightarrow>
                 if includes = [] then Some True
                 else (case some_glob p includes of
                         None \<Rightarrow> None
                       | Some False \<Rightarrow> paths_in_scope paths scope recursive includes excludes
                       | Some True \<Rightarrow> Some True)))"

definition eventInWatchScope :: "fs_event \<Rightarrow> string \<Rightarrow> bool \<Rightarrow> string list \<Rightarrow> string list \<Rightarrow> bool option" where
  "eventInWatchScope event scope recursive includes excludes =
     paths_in_scope (u_path (ev_uri event) # (case ev_oldUri event of None \<Rightarrow> [] | Some u \<Rightarrow> [u_path u]))
       scope recursive includes excludes"

text \<open>A watcher calls its listeners in order until one throws.\<close>

fun call_listeners :: "mem_env \<Rightarrow> fs_event \<Rightarrow> nat list \<Rightarrow> (nat \<times> fs_event) list" where
  "call_listeners env event [] = []"
| "call_listeners env event (l # ls) = (l, event) # (if me_throws env l event then [] else call_listeners env event ls)"

definition forward :: "mem_env \<Rightarrow> fs_event \<Rightarrow> mem_watcher \<Rightarrow> (nat \<times> fs_event) list" where
  "forward env event w =
     (case eventInWatchScope event (mw_scope w) (mw_recursive w) (mw_includes w) (mw_excludes w) of
        Some True \<Rightarrow> call_listeners env event (mw_listeners w)
      | _ \<Rightarrow> [])"

definition emit_event :: "mem_env \<Rightarrow> fs_event \<Rightarrow> memfs \<Rightarrow> memfs" where
  "emit_event env event st = st\<lparr>mf_events := mf_events st @ [event],
     mf_delivered := mf_delivered st @ concat (map (forward env event) (mf_watchers st))\<rparr>"

section \<open>Creation\<close>

definition toEntry :: "mem_env \<Rightarrow> mem_node \<Rightarrow> string \<Rightarrow> provider_entry" where
  "toEntry env node path = \<lparr>
     pe_id = mn_id node, pe_parentId = mn_parentId node, pe_name = mn_name node, pe_kind = mn_kind node,
     pe_size = (if mn_kind node = KindFile then int (length (mn_content node)) else 0),
     pe_mtimeMs = mn_mtimeMs node, pe_ctimeMs = mn_ctimeMs node,
     pe_path = (let p = normalizeUriPath path in if startsWith p ''/'' then drop 1 p else p),
     pe_isReadonly = readonly_fs env\<rparr>"

text \<open>Allocate an id, build the node and enter it in both tables.\<close>

definition add_node :: "int option \<Rightarrow> string \<Rightarrow> int \<Rightarrow> bytes \<Rightarrow> int \<Rightarrow> string \<Rightarrow> memfs \<Rightarrow> int \<times> memfs" where
  "add_node parentId name kind content t key st =
     (let n = mf_nextId st
      in (n, st\<lparr>mf_nextId := n + 1,
            mf_heap := (mf_heap st)(n := \<lparr>mn_id = n, mn_parentId = parentId, mn_name = name, mn_kind = kind,
              mn_content = content, mn_mtimeMs = t, mn_ctimeMs = t, mn_children = []\<rparr>),
            mf_nodes := (mf_nodes st)(key \<mapsto> n),
            mf_idToPath := (mf_idToPath st)(n \<mapsto> key)\<rparr>))"

definition make_directory :: "mem_env \<Rightarrow> int option \<Rightarrow> string \<Rightarrow> string \<Rightarrow> memfs \<Rightarrow> int mem_result" where
  "make_directory env parentId name key st =
     (let (t, st) = now env st; (n, st) = add_node parentId name KindDirectory [] t key st in (Inr n, st))"

function mkdirp :: "mem_env \<Rightarrow> string \<Rightarrow> memfs \<Rightarrow> int mem_result" where
  "mkdirp env path st =
     (let key = pathKey env path
      in case mf_nodes st key of
           Some existing \<Rightarrow>
             if mn_kind (mf_heap st existing) \<noteq> KindDirectory
             then (Inl (FileSystemError ''ENOTDIR'' ''Not a directory'' (Some path)), st)
             else (Inr existing, st)
         | None \<Rightarrow>
             if normalizeUriPath path \<noteq> ''/''
             then (case mkdirp env (dirnameUriPath path) st of
                     (Inl e, st') \<Rightarrow> (Inl e, st')
                   | (Inr parent, st') \<Rightarrow>
                     let name = basenameUriPath path
                     in make_directory env (Some (mn_id (mf_heap st' parent))) name key
                          (set_child parent (child_name env name) key st'))
             else make_directory env None [] key st)"
  by pat_completeness auto

lemma segments_dirname: "segments (dirnameUriPath p) = butlast (segments p)"
  using segments_ok [of p] by (simp add: dirname_basename segments_path_of list_all_iff in_set_butlastD)

lemma not_root: "normalizeUriPath p \<noteq> ''/'' \<longleftrightarrow> segments p \<noteq> []"
  by (simp add: normalize_render path_of_root segments_ok)

termination mkdirp
  by (relation "measure (\<lambda>(env, path, st). length (segments path))") (auto simp: segments_dirname not_root)

declare mkdirp.simps [simp del]

definition seed_file :: "mem_env \<Rightarrow> string \<Rightarrow> bytes \<Rightarrow> memfs \<Rightarrow> unit mem_result" where
  "seed_file env p data st =
     (let path = normalizeUriPath p
      in mbind (mkdirp env (dirnameUriPath path) st) (\<lambda>_ st.
           case ensureNode env (dirnameUriPath path) st of
             Inl e \<Rightarrow> (Inl e, st)
           | Inr parent \<Rightarrow>
             let name = basenameUriPath path; key = pathKey env path
             in if mf_nodes st key \<noteq> None then (Inl (FileSystemError ''EEXIST'' ''File exists'' (Some path)), st)
                else (let (t, st) = now env st;
                          (n, st) = add_node (Some (mn_id (mf_heap st parent))) name KindFile data t key st;
                          st = set_child parent (child_name env name) key st
                      in (Inr (), update_node parent (mn_mtimeMs_update (\<lambda>_. t)) st))))"

fun seed_directories :: "mem_env \<Rightarrow> string list \<Rightarrow> memfs \<Rightarrow> unit mem_result" where
  "seed_directories env [] st = (Inr (), st)"
| "seed_directories env (d # ds) st = mbind (mkdirp env d st) (\<lambda>_ st. seed_directories env ds st)"

fun seed_files :: "mem_env \<Rightarrow> (string \<times> bytes) list \<Rightarrow> memfs \<Rightarrow> unit mem_result" where
  "seed_files env [] st = (Inr (), st)"
| "seed_files env ((p, data) # fs) st = mbind (seed_file env p data st) (\<lambda>_ st. seed_files env fs st)"

definition createMemoryFileSystemProvider ::
  "mem_env \<Rightarrow> string list \<Rightarrow> (string \<times> bytes) list \<Rightarrow> fs_error + memfs" where
  "createMemoryFileSystemProvider env directories files =
     (case mbind (mkdirp env ''/'' empty_memfs) (\<lambda>_ st.
        mbind (seed_directories env directories st) (\<lambda>_ st. seed_files env files st)) of
        (Inl e, st) \<Rightarrow> Inl e
      | (Inr _, st) \<Rightarrow> Inr st)"

definition default_capabilities :: "32 word" where
  "default_capabilities = CapReadWrite OR CapCaseSensitive OR CapWatch OR CapClone OR CapAtomicWrite"

section \<open>Reading\<close>

definition assertWritable :: "mem_env \<Rightarrow> fs_error + unit" where
  "assertWritable env =
     (if readonly_fs env then Inl (FileSystemError ''EROFS'' ''Read-only file system'' None) else Inr ())"

definition assertSameScheme :: "mem_env \<Rightarrow> uri \<Rightarrow> fs_error + unit" where
  "assertSameScheme env u =
     (if u_scheme u \<noteq> me_scheme env
      then Inl (FileSystemError ''EINVAL''
             (''URI scheme \"'' @ u_scheme u @ ''\" does not match provider \"'' @ me_scheme env @ ''\"'') (Some (u_path u)))
      else Inr ())"

definition stat :: "mem_env \<Rightarrow> memfs \<Rightarrow> uri \<Rightarrow> fs_error + provider_entry" where
  "stat env st u =
     rbind (assertSameScheme env u) (\<lambda>_. rbind (ensureNode env (u_path u) st) (\<lambda>n.
       Inr (toEntry env (mf_heap st n) (u_path u))))"

definition list_children :: "mem_env \<Rightarrow> memfs \<Rightarrow> string \<Rightarrow> string list \<Rightarrow> provider_entry list" where
  "list_children env st path keys =
     concat (map (\<lambda>key. case mf_nodes st key of
         None \<Rightarrow> []
       | Some c \<Rightarrow> [toEntry env (mf_heap st c) (child_path (normalizeUriPath path) (mn_name (mf_heap st c)))]) keys)"

definition readDirectory :: "mem_env \<Rightarrow> memfs \<Rightarrow> uri \<Rightarrow> fs_error + provider_entry list" where
  "readDirectory env st u =
     rbind (assertSameScheme env u) (\<lambda>_. rbind (ensureNode env (u_path u) st) (\<lambda>n.
       if mn_kind (mf_heap st n) \<noteq> KindDirectory
       then Inl (FileSystemError ''ENOTDIR'' ''Not a directory'' (Some (u_path u)))
       else Inr (js_sort (\<lambda>a b. me_compare env (pe_name a) (pe_name b))
              (list_children env st (u_path u) (map snd (mn_children (mf_heap st n)))))))"

definition readFile :: "mem_env \<Rightarrow> memfs \<Rightarrow> uri \<Rightarrow> fs_error + bytes" where
  "readFile env st u =
     rbind (assertSameScheme env u) (\<lambda>_. rbind (ensureNode env (u_path u) st) (\<lambda>n.
       if mn_kind (mf_heap st n) \<noteq> KindFile
       then Inl (FileSystemError ''EISDIR'' ''Is a directory'' (Some (u_path u)))
       else Inr (mn_content (mf_heap st n))))"

section \<open>Writing\<close>

definition file_event :: "mem_env \<Rightarrow> event_type \<Rightarrow> string \<Rightarrow> fs_event" where
  "file_event env ty path = \<lparr>ev_type = ty, ev_uri = uriFor env path, ev_oldUri = None\<rparr>"

text \<open>The checks at the start of a mutation.\<close>

definition writable_at :: "mem_env \<Rightarrow> uri \<Rightarrow> fs_error + string" where
  "writable_at env u =
     rbind (assertWritable env) (\<lambda>_. rbind (assertSameScheme env u) (\<lambda>_. Inr (normalizeUriPath (u_path u))))"

definition parent_directory :: "mem_env \<Rightarrow> string \<Rightarrow> memfs \<Rightarrow> fs_error + int" where
  "parent_directory env parentPath st =
     rbind (ensureNode env parentPath st) (\<lambda>parent.
       if mn_kind (mf_heap st parent) \<noteq> KindDirectory
       then Inl (FileSystemError ''ENOTDIR'' ''Not a directory'' (Some parentPath)) else Inr parent)"

definition writeFile :: "mem_env \<Rightarrow> uri \<Rightarrow> bytes \<Rightarrow> memfs \<Rightarrow> unit mem_result" where
  "writeFile env u data st =
     (case writable_at env u of
        Inl e \<Rightarrow> (Inl e, st)
      | Inr path \<Rightarrow>
        let (t, st) = now env st
        in case getNode env path st of
             Some existing \<Rightarrow>
               if mn_kind (mf_heap st existing) \<noteq> KindFile
               then (Inl (FileSystemError ''EISDIR'' ''Is a directory'' (Some path)), st)
               else (Inr (), emit_event env (file_event env EvChanged path)
                      (update_node existing (\<lambda>nd. nd\<lparr>mn_content := data, mn_mtimeMs := t\<rparr>) st))
           | None \<Rightarrow>
               (case parent_directory env (dirnameUriPath path) st of
                  Inl e \<Rightarrow> (Inl e, st)
                | Inr parent \<Rightarrow>
                  let name = basenameUriPath path; key = pathKey env path;
                      (n, st) = add_node (Some (mn_id (mf_heap st parent))) name KindFile data t key st;
                      st = set_child parent (child_name env name) key st;
                      st = update_node parent (mn_mtimeMs_update (\<lambda>_. t)) st
                  in (Inr (), emit_event env (file_event env EvCreated path) st)))"

definition createDirectory :: "mem_env \<Rightarrow> uri \<Rightarrow> memfs \<Rightarrow> unit mem_result" where
  "createDirectory env u st =
     (case writable_at env u of
        Inl e \<Rightarrow> (Inl e, st)
      | Inr path \<Rightarrow>
        if getNode env path st \<noteq> None then (Inl (FileSystemError ''EEXIST'' ''File exists'' (Some path)), st)
        else (case parent_directory env (dirnameUriPath path) st of
                Inl e \<Rightarrow> (Inl e, st)
              | Inr _ \<Rightarrow> mbind (mkdirp env path st) (\<lambda>_ st.
                  (Inr (), emit_event env (file_event env EvCreated path) st))))"

section \<open>Deleting\<close>

text \<open>\<open>for (const childKey of [...])\<close> with an awaited call on the path of each child that is still there.\<close>

fun for_children ::
  "(string \<Rightarrow> memfs \<Rightarrow> unit mem_result option) \<Rightarrow> string \<Rightarrow> string list \<Rightarrow> memfs \<Rightarrow> unit mem_result option" where
  "for_children call path [] st = Some (Inr (), st)"
| "for_children call path (key # keys) st =
     (case mf_nodes st key of
        None \<Rightarrow> for_children call path keys st
      | Some c \<Rightarrow>
        (case call (child_path path (mn_name (mf_heap st c))) st of
           None \<Rightarrow> None
         | Some (Inl e, st') \<Rightarrow> Some (Inl e, st')
         | Some (Inr _, st') \<Rightarrow> for_children call path keys st'))"

definition unlink :: "mem_env \<Rightarrow> string \<Rightarrow> int \<Rightarrow> memfs \<Rightarrow> memfs" where
  "unlink env path n st =
     (let st = (case getNode env (dirnameUriPath path) st of
                  None \<Rightarrow> st
                | Some parent \<Rightarrow>
                  let st = delete_child parent (child_name env (mn_name (mf_heap st n))) st; (t, st) = now env st
                  in update_node parent (mn_mtimeMs_update (\<lambda>_. t)) st);
          st = st\<lparr>mf_nodes := (mf_nodes st)(pathKey env path := None),
                 mf_idToPath := (mf_idToPath st)(mn_id (mf_heap st n) := None)\<rparr>
      in emit_event env (file_event env EvDeleted path) st)"

fun delete_entry :: "nat \<Rightarrow> mem_env \<Rightarrow> uri \<Rightarrow> bool \<Rightarrow> memfs \<Rightarrow> unit mem_result option" where
  "delete_entry 0 env u recursive st = None"
| "delete_entry (Suc f) env u recursive st =
     (case writable_at env u of
        Inl e \<Rightarrow> Some (Inl e, st)
      | Inr path \<Rightarrow>
        if path = ''/'' then Some (Inl (FileSystemError ''EACCES'' ''Cannot delete root'' (Some path)), st)
        else (case ensureNode env path st of
                Inl e \<Rightarrow> Some (Inl e, st)
              | Inr n \<Rightarrow>
                let node = mf_heap st n
                in if mn_kind node = KindDirectory \<and> mn_children node \<noteq> []
                   then if \<not> recursive
                        then Some (Inl (FileSystemError ''EINVAL'' ''Directory not empty'' (Some path)), st)
                        else (case for_children (\<lambda>p st. delete_entry f env (uriFor env p) True st) path
                                (map snd (mn_children node)) st of
                                None \<Rightarrow> None
                              | Some (Inl e, st') \<Rightarrow> Some (Inl e, st')
                              | Some (Inr _, st') \<Rightarrow> Some (Inr (), unlink env path n st'))
                   else Some (Inr (), unlink env path n st)))"

section \<open>Renaming\<close>

definition invalid_segment :: "string \<Rightarrow> fs_error" where
  "invalid_segment name = plain_error [] (''invalid path segment: '' @ name)"

text \<open>The loop of \<open>walk\<close> over a copy of the entries of a directory; \<open>rec\<close> is the call on a child directory.\<close>

fun walk_children ::
  "(string \<Rightarrow> int \<Rightarrow> memfs \<Rightarrow> unit mem_result option) \<Rightarrow> mem_env \<Rightarrow> string \<Rightarrow> int \<Rightarrow> (string \<times> string) list
     \<Rightarrow> memfs \<Rightarrow> unit mem_result option" where
  "walk_children rec env dirPath dir [] st = Some (Inr (), st)"
| "walk_children rec env dirPath dir ((childName, childKey) # entries) st =
     (case mf_nodes st childKey of
        None \<Rightarrow> walk_children rec env dirPath dir entries st
      | Some child \<Rightarrow>
        (case joinUriPath dirPath (mn_name (mf_heap st child)) of
           None \<Rightarrow> Some (Inl (invalid_segment (mn_name (mf_heap st child))), st)
         | Some childPath \<Rightarrow>
           let expectedKey = pathKey env childPath;
               st = (if childKey \<noteq> expectedKey
                     then set_child dir childName expectedKey
                            (st\<lparr>mf_nodes := ((mf_nodes st)(childKey := None))(expectedKey \<mapsto> child),
                               mf_idToPath := (mf_idToPath st)(mn_id (mf_heap st child) \<mapsto> expectedKey)\<rparr>)
                     else st)
           in if mn_kind (mf_heap st child) = KindDirectory
              then (case rec childPath child st of
                      None \<Rightarrow> None
                    | Some (Inl e, st') \<Rightarrow> Some (Inl e, st')
                    | Some (Inr _, st') \<Rightarrow> walk_children rec env dirPath dir entries st')
              else walk_children rec env dirPath dir entries st))"

fun walk :: "nat \<Rightarrow> mem_env \<Rightarrow> string \<Rightarrow> int \<Rightarrow> memfs \<Rightarrow> unit mem_result option" where
  "walk 0 env dirPath dir st = None"
| "walk (Suc f) env dirPath dir st =
     walk_children (\<lambda>p d st. walk f env p d st) env dirPath dir (mn_children (mf_heap st dir)) st"

definition rekeyDescendants :: "nat \<Rightarrow> mem_env \<Rightarrow> string \<Rightarrow> memfs \<Rightarrow> unit mem_result option" where
  "rekeyDescendants f env newPrefix st =
     (let newP = normalizeUriPath newPrefix
      in case mf_nodes st (pathKey env newP) of
           None \<Rightarrow> Some (Inr (), st)
         | Some moved \<Rightarrow>
           if mn_kind (mf_heap st moved) \<noteq> KindDirectory then Some (Inr (), st) else walk f env newP moved st)"

definition rename_event :: "mem_env \<Rightarrow> string \<Rightarrow> string \<Rightarrow> fs_event" where
  "rename_event env from to = \<lparr>ev_type = EvRenamed, ev_uri = uriFor env to, ev_oldUri = Some (uriFor env from)\<rparr>"

text \<open>The move of the node itself, between the checks and the walk over its descendants.\<close>

definition relink :: "mem_env \<Rightarrow> string \<Rightarrow> string \<Rightarrow> int \<Rightarrow> int \<Rightarrow> memfs \<Rightarrow> memfs" where
  "relink env from to n newParent st =
     (let st = (case getNode env (dirnameUriPath from) st of
                  None \<Rightarrow> st
                | Some oldParent \<Rightarrow> delete_child oldParent (child_name env (mn_name (mf_heap st n))) st);
          st = st\<lparr>mf_nodes := (mf_nodes st)(pathKey env from := None)\<rparr>;
          newName = basenameUriPath to;
          parentId = mn_id (mf_heap st newParent);
          (t, st) = now env st;
          st = update_node n (\<lambda>nd. nd\<lparr>mn_name := newName, mn_parentId := Some parentId, mn_mtimeMs := t\<rparr>) st;
          newKey = pathKey env to;
          st = st\<lparr>mf_nodes := (mf_nodes st)(newKey \<mapsto> n), mf_idToPath := (mf_idToPath st)(mn_id (mf_heap st n) \<mapsto> newKey)\<rparr>;
          st = set_child newParent (child_name env newName) newKey st
      in update_node newParent (mn_mtimeMs_update (\<lambda>_. t)) st)"

definition finish_rename :: "nat \<Rightarrow> mem_env \<Rightarrow> string \<Rightarrow> string \<Rightarrow> int \<Rightarrow> memfs \<Rightarrow> unit mem_result option" where
  "finish_rename f env from to n st =
     (case (if mn_kind (mf_heap st n) = KindDirectory then rekeyDescendants f env to st else Some (Inr (), st)) of
        None \<Rightarrow> None
      | Some (Inl e, st') \<Rightarrow> Some (Inl e, st')
      | Some (Inr _, st') \<Rightarrow> Some (Inr (), emit_event env (rename_event env from to) st'))"

definition rename :: "nat \<Rightarrow> mem_env \<Rightarrow> uri \<Rightarrow> uri \<Rightarrow> memfs \<Rightarrow> unit mem_result option" where
  "rename f env oldUri newUri st =
     (case rbind (assertWritable env) (\<lambda>_. rbind (assertSameScheme env oldUri) (\<lambda>_. assertSameScheme env newUri)) of
        Inl e \<Rightarrow> Some (Inl e, st)
      | Inr _ \<Rightarrow>
        let from = normalizeUriPath (u_path oldUri); to = normalizeUriPath (u_path newUri)
        in if from = ''/'' then Some (Inl (FileSystemError ''EACCES'' ''Cannot rename root'' (Some from)), st)
           else if from = to then Some (Inr (), st)
           else (case ensureNode env from st of
                   Inl e \<Rightarrow> Some (Inl e, st)
                 | Inr n \<Rightarrow>
                   if isPathUnder to from
                   then Some (Inl (FileSystemError ''EINVAL''
                          (''Cannot move \"'' @ from @ ''\" into itself or a descendant'') (Some to)), st)
                   else if getNode env to st \<noteq> None
                   then Some (Inl (FileSystemError ''EEXIST'' ''File exists'' (Some to)), st)
                   else (case parent_directory env (dirnameUriPath to) st of
                           Inl e \<Rightarrow> Some (Inl e, st)
                         | Inr newParent \<Rightarrow>
                           finish_rename f env from to n (relink env from to n newParent st))))"

section \<open>Copying\<close>

text \<open>
  The loop over the children of the source reads the live map. Copying never removes a child, and a
  new one goes to the end, so a position in the map is an iterator.
\<close>

function (sequential)
  copy :: "nat \<Rightarrow> mem_env \<Rightarrow> uri \<Rightarrow> uri \<Rightarrow> bool \<Rightarrow> memfs \<Rightarrow> unit mem_result option" and
  copy_children :: "nat \<Rightarrow> mem_env \<Rightarrow> string \<Rightarrow> string \<Rightarrow> bool \<Rightarrow> int \<Rightarrow> nat \<Rightarrow> memfs \<Rightarrow> unit mem_result option"
where
  "copy 0 env source destination overwrite st = None"
| "copy (Suc f) env source destination overwrite st =
     (case rbind (assertWritable env) (\<lambda>_. rbind (assertSameScheme env source) (\<lambda>_. assertSameScheme env destination)) of
        Inl e \<Rightarrow> Some (Inl e, st)
      | Inr _ \<Rightarrow>
        let from = normalizeUriPath (u_path source); to = normalizeUriPath (u_path destination)
        in if from = to \<or> isPathUnder to from
           then Some (Inl (FileSystemError ''EINVAL''
                  (''Cannot copy \"'' @ from @ ''\" into itself or a descendant'') (Some to)), st)
           else (case ensureNode env from st of
                   Inl e \<Rightarrow> Some (Inl e, st)
                 | Inr src \<Rightarrow>
                   let existing = getNode env to st
                   in if existing \<noteq> None \<and> \<not> overwrite
                      then Some (Inl (FileSystemError ''EEXIST'' ''File exists'' (Some to)), st)
                      else if mn_kind (mf_heap st src) = KindFile
                      then (case existing of
                              Some ex \<Rightarrow>
                                if mn_kind (mf_heap st ex) \<noteq> KindFile
                                then Some (Inl (FileSystemError ''EISDIR'' ''Is a directory'' (Some to)), st)
                                else Some (writeFile env destination (mn_content (mf_heap st src)) st)
                            | None \<Rightarrow> Some (writeFile env destination (mn_content (mf_heap st src)) st))
                      else (case existing of
                              None \<Rightarrow>
                                (case createDirectory env destination st of
                                   (Inl e, st') \<Rightarrow> Some (Inl e, st')
                                 | (Inr _, st') \<Rightarrow> copy_children f env from to overwrite src 0 st')
                            | Some ex \<Rightarrow>
                                if mn_kind (mf_heap st ex) \<noteq> KindDirectory
                                then Some (Inl (FileSystemError ''ENOTDIR'' ''Not a directory'' (Some to)), st)
                                else copy_children f env from to overwrite src 0 st)))"
| "copy_children 0 env from to overwrite src i st = None"
| "copy_children (Suc f) env from to overwrite src i st =
     (let children = mn_children (mf_heap st src)
      in if length children \<le> i then Some (Inr (), st)
         else (case mf_nodes st (snd (children ! i)) of
                 None \<Rightarrow> copy_children f env from to overwrite src (Suc i) st
               | Some child \<Rightarrow>
                 (let name = mn_name (mf_heap st child)
                  in case joinUriPath to name of
                       None \<Rightarrow> Some (Inl (invalid_segment name), st)
                     | Some childDst \<Rightarrow>
                       (case copy f env (uriFor env (child_path from name)) (uriFor env childDst) overwrite st of
                          None \<Rightarrow> None
                        | Some (Inl e, st') \<Rightarrow> Some (Inl e, st')
                        | Some (Inr _, st') \<Rightarrow> copy_children f env from to overwrite src (Suc i) st'))))"
  by pat_completeness auto
termination copy
  by (relation "measure (\<lambda>x. case x of Inl (f, _) \<Rightarrow> f | Inr (f, _) \<Rightarrow> f)") auto

section \<open>Watching\<close>

definition watch :: "mem_env \<Rightarrow> uri \<Rightarrow> bool option \<Rightarrow> string list \<Rightarrow> string list \<Rightarrow> memfs \<Rightarrow> nat mem_result" where
  "watch env u recursive includes excludes st =
     (case assertSameScheme env u of
        Inl e \<Rightarrow> (Inl e, st)
      | Inr _ \<Rightarrow>
        (Inr (mf_nextRef st), st\<lparr>mf_nextRef := Suc (mf_nextRef st), mf_watchers := mf_watchers st @
          [\<lparr>mw_ref = mf_nextRef st, mw_scope = normalizeUriPath (u_path u), mw_recursive = recursive \<noteq> Some False,
            mw_includes = includes, mw_excludes = excludes, mw_listeners = []\<rparr>]\<rparr>))"

definition update_watcher :: "nat \<Rightarrow> (mem_watcher \<Rightarrow> mem_watcher) \<Rightarrow> memfs \<Rightarrow> memfs" where
  "update_watcher ref f st = st\<lparr>mf_watchers := map (\<lambda>w. if mw_ref w = ref then f w else w) (mf_watchers st)\<rparr>"

definition watcher_onDidChange :: "nat \<Rightarrow> nat \<Rightarrow> memfs \<Rightarrow> memfs" where
  "watcher_onDidChange ref listener st = update_watcher ref (mw_listeners_update (jset_add listener)) st"

definition watcher_unlisten :: "nat \<Rightarrow> nat \<Rightarrow> memfs \<Rightarrow> memfs" where
  "watcher_unlisten ref listener st = update_watcher ref (mw_listeners_update (jset_del listener)) st"

definition watcher_dispose :: "nat \<Rightarrow> memfs \<Rightarrow> memfs" where
  "watcher_dispose ref st = st\<lparr>mf_watchers := filter (\<lambda>w. mw_ref w \<noteq> ref) (mf_watchers st)\<rparr>"

end
