(* ===== verification/Memory_FS_Refinement.thy ===== *)
theory Memory_FS_Refinement
  imports Memory_FS "HOL-Library.Sublist"
begin

text \<open>
  The case-sensitive in-memory filesystem implements a map from segment lists to files and directories:
  the invariant of its tables, and what each operation does to that map.
\<close>

section \<open>The tree\<close>

abbreviation ok_segs :: "string list \<Rightarrow> bool" where "ok_segs ss \<equiv> list_all seg_ok ss"

text \<open>The node at a list of segments, and the key table of such a tree.\<close>

definition node_at :: "memfs \<Rightarrow> string list \<Rightarrow> int option" where
  "node_at st ss = (if ok_segs ss then mf_nodes st (path_of ss) else None)"

definition key_table :: "(string list \<Rightarrow> int option) \<Rightarrow> string \<Rightarrow> int option" where
  "key_table t k = (if k = path_of (segments k) then t (segments k) else None)"

abbreviation is_dir :: "memfs \<Rightarrow> int \<Rightarrow> bool" where "is_dir st n \<equiv> mn_kind (mf_heap st n) = KindDirectory"
abbreviation kids :: "memfs \<Rightarrow> int \<Rightarrow> (string, string) jmap" where "kids st n \<equiv> mn_children (mf_heap st n)"

definition node_ok :: "memfs \<Rightarrow> string list \<Rightarrow> int \<Rightarrow> bool" where
  "node_ok st ss n \<longleftrightarrow>
     mn_id (mf_heap st n) = n \<and> n < mf_nextId st \<and> mf_idToPath st n = Some (path_of ss)
     \<and> mn_name (mf_heap st n) = (if ss = [] then [] else last ss)
     \<and> mn_kind (mf_heap st n) \<in> {KindFile, KindDirectory}
     \<and> (mn_kind (mf_heap st n) = KindFile \<longrightarrow> kids st n = []) \<and> jm_wf (kids st n)"

definition fs_ok :: "memfs \<Rightarrow> bool" where
  "fs_ok st \<longleftrightarrow>
     mf_nodes st = key_table (node_at st) \<and> finite (dom (node_at st))
     \<and> (\<exists>r. node_at st [] = Some r \<and> is_dir st r)
     \<and> (\<forall>ss n. node_at st ss = Some n \<longrightarrow> node_ok st ss n)
     \<and> (\<forall>ss s n. node_at st (ss @ [s]) = Some n \<longrightarrow>
          (\<exists>p. node_at st ss = Some p \<and> is_dir st p \<and> mn_parentId (mf_heap st n) = Some p
             \<and> (s, path_of (ss @ [s])) \<in> set (kids st p)))
     \<and> (\<forall>ss p s k. node_at st ss = Some p \<longrightarrow> (s, k) \<in> set (kids st p) \<longrightarrow>
          k = path_of (ss @ [s]) \<and> node_at st (ss @ [s]) \<noteq> None)"

text \<open>What the provider stores, as a map.\<close>

datatype stored = StoredFile bytes | StoredDir

definition stored_node :: "mem_node \<Rightarrow> stored" where
  "stored_node nd = (if mn_kind nd = KindFile then StoredFile (mn_content nd) else StoredDir)"

definition contents :: "memfs \<Rightarrow> string list \<Rightarrow> stored option" where
  "contents st ss = map_option (\<lambda>n. stored_node (mf_heap st n)) (node_at st ss)"

lemma path_of_inj: "ok_segs ss \<Longrightarrow> ok_segs ts \<Longrightarrow> path_of ss = path_of ts \<longleftrightarrow> ss = ts"
  using segments_path_of by metis

lemma key_table_path_of: "ok_segs ss \<Longrightarrow> key_table t (path_of ss) = t ss"
  by (simp add: key_table_def segments_path_of)

lemma key_table_update: "ok_segs ss \<Longrightarrow> (key_table t)(path_of ss := v) = key_table (t(ss := v))"
  by (rule ext) (auto simp: key_table_def segments_path_of)

lemma node_at_ok: "node_at st ss = Some n \<Longrightarrow> ok_segs ss"
  by (simp add: node_at_def split: if_splits)

lemma key_table_node_at: "key_table (node_at st) = key_table (\<lambda>ss. mf_nodes st (path_of ss))"
  by (rule ext) (simp add: key_table_def node_at_def segments_ok)

lemma node_at_key_table: "mf_nodes st = key_table t \<Longrightarrow> node_at st ss = (if ok_segs ss then t ss else None)"
  by (simp add: node_at_def key_table_path_of)

lemma pathKey_segments: "caseSensitive env \<Longrightarrow> pathKey env p = path_of (segments p)"
  by (simp add: pathKey_def normalize_render Let_def)

lemma getNode_segments: "caseSensitive env \<Longrightarrow> getNode env p st = node_at st (segments p)"
  by (simp add: getNode_def pathKey_segments node_at_def segments_ok)

lemma child_name_id [simp]: "caseSensitive env \<Longrightarrow> child_name env s = s"
  by (simp add: child_name_def)

subsection \<open>Using the invariant\<close>

lemma fs_ok_nodes: "fs_ok st \<Longrightarrow> mf_nodes st = key_table (node_at st)"
  by (simp add: fs_ok_def)

lemma fs_ok_root: "fs_ok st \<Longrightarrow> \<exists>r. node_at st [] = Some r \<and> is_dir st r"
  by (simp add: fs_ok_def)

lemma fs_ok_node: "fs_ok st \<Longrightarrow> node_at st ss = Some n \<Longrightarrow> node_ok st ss n"
  by (simp add: fs_ok_def)

lemma fs_ok_parent:
  assumes "fs_ok st" "node_at st (ss @ [s]) = Some n"
  obtains p where "node_at st ss = Some p" "is_dir st p" "mn_parentId (mf_heap st n) = Some p"
    "(s, path_of (ss @ [s])) \<in> set (kids st p)"
  using assms unfolding fs_ok_def by blast

lemma fs_ok_child:
  assumes "fs_ok st" "node_at st ss = Some p" "(s, k) \<in> set (kids st p)"
  shows "k = path_of (ss @ [s])" "node_at st (ss @ [s]) \<noteq> None"
  using assms by (auto simp: fs_ok_def)

lemma fs_ok_child_in:
  "fs_ok st \<Longrightarrow> node_at st ss = Some p \<Longrightarrow> node_at st (ss @ [s]) = Some n \<Longrightarrow> (s, path_of (ss @ [s])) \<in> set (kids st p)"
  by (elim fs_ok_parent) auto

lemma fs_ok_inj: "fs_ok st \<Longrightarrow> node_at st ss = Some n \<Longrightarrow> node_at st ts = Some n \<Longrightarrow> ss = ts"
  by (metis fs_ok_node node_at_ok node_ok_def option.inject path_of_inj)

lemma fs_ok_prefix: "fs_ok st \<Longrightarrow> node_at st (ss @ q) \<noteq> None \<Longrightarrow> node_at st ss \<noteq> None"
proof (induction q rule: rev_induct)
  case (snoc s q)
  then show ?case by (metis append_assoc fs_ok_parent not_None_eq)
qed simp

lemma fs_ok_ancestor_dir:
  assumes "fs_ok st" "node_at st (ss @ q) \<noteq> None" "q \<noteq> []"
  obtains p where "node_at st ss = Some p" "is_dir st p"
proof -
  obtain s q' where q: "q = s # q'" using assms(3) by (cases q) auto
  with assms have "node_at st ((ss @ [s]) @ q') \<noteq> None" by simp
  then have "node_at st (ss @ [s]) \<noteq> None" by (rule fs_ok_prefix [OF assms(1)])
  then obtain n where "node_at st (ss @ [s]) = Some n" by blast
  then show ?thesis using fs_ok_parent [OF assms(1)] that by metis
qed

lemma fs_ok_file_leaf:
  assumes "fs_ok st" "node_at st ss = Some n" "\<not> is_dir st n" "q \<noteq> []"
  shows "node_at st (ss @ q) = None"
  using fs_ok_ancestor_dir [OF assms(1) _ assms(4), of ss] assms(2,3) by fastforce

lemma contents_None: "contents st ss = None \<longleftrightarrow> node_at st ss = None"
  by (simp add: contents_def)

lemma contents_dir:
  assumes "fs_ok st"
  shows "contents st ss = Some StoredDir \<longleftrightarrow> (\<exists>n. node_at st ss = Some n \<and> is_dir st n)"
proof (cases "node_at st ss")
  case (Some n)
  with fs_ok_node [OF assms] show ?thesis by (auto simp: contents_def stored_node_def node_ok_def)
qed (simp add: contents_def)

lemma contents_file:
  "contents st ss = Some (StoredFile d) \<longleftrightarrow>
     (\<exists>n. node_at st ss = Some n \<and> mn_kind (mf_heap st n) = KindFile \<and> mn_content (mf_heap st n) = d)"
  by (auto simp: contents_def stored_node_def)

section \<open>Adding and removing a leaf\<close>

text \<open>The two changes of shape; the time stamps do not matter.\<close>

lemma add_leaf:
  assumes ok: "fs_ok st" and p: "node_at st ss = Some p" "is_dir st p" and s: "seg_ok s"
    and free: "node_at st (ss @ [s]) = None" and kind: "mn_kind nd \<in> {KindFile, KindDirectory}"
    and nd: "mn_id nd = mf_nextId st" "mn_parentId nd = Some p" "mn_name nd = s" "mn_children nd = []"
    and st': "mf_nextId st' = mf_nextId st + 1" "mf_nodes st' = (mf_nodes st)(path_of (ss @ [s]) \<mapsto> mf_nextId st)"
      "mf_idToPath st' = (mf_idToPath st)(mf_nextId st \<mapsto> path_of (ss @ [s]))"
      "mf_heap st' = (mf_heap st)(mf_nextId st := nd,
         p := (mf_heap st p)\<lparr>mn_mtimeMs := t, mn_children := jm_set s (path_of (ss @ [s])) (kids st p)\<rparr>)"
  shows "fs_ok st'" "node_at st' = (node_at st)(ss @ [s] \<mapsto> mf_nextId st)"
    "contents st' = (contents st)(ss @ [s] \<mapsto> stored_node nd)"
proof -
  have oks: "ok_segs (ss @ [s])" using s node_at_ok [OF p(1)] by simp
  show at: "node_at st' = (node_at st)(ss @ [s] \<mapsto> mf_nextId st)"
  proof (rule ext)
    fix q
    show "node_at st' q = ((node_at st)(ss @ [s] \<mapsto> mf_nextId st)) q"
      using oks path_of_inj [of q "ss @ [s]"] by (simp add: node_at_def st')
  qed
  have old: "n < mf_nextId st" if "node_at st q = Some n" for q n
    using fs_ok_node [OF ok that] by (simp add: node_ok_def)
  then have neq: "n \<noteq> mf_nextId st" if "node_at st q = Some n" for q n using that by fastforce
  note np = neq [OF p(1)]
  have pp: "n = p \<longleftrightarrow> q = ss" if "node_at st q = Some n" for q n
    using fs_ok_inj [OF ok] p(1) that by (metis option.inject)
  have fresh: "\<not> jm_has (kids st p) s"
    using fs_ok_child(2) [OF ok p(1)] free by (force simp: jm_has_iff)
  note kids_p = jm_set_fresh [OF fresh]
  show "contents st' = (contents st)(ss @ [s] \<mapsto> stored_node nd)"
  proof (rule ext)
    fix q
    show "contents st' q = ((contents st)(ss @ [s] \<mapsto> stored_node nd)) q"
      using neq [of q] np by (cases "node_at st q") (auto simp: contents_def at st' stored_node_def)
  qed
  have nodes: "mf_nodes st' = key_table (node_at st')"
    using fs_ok_nodes [OF ok] key_table_update [OF oks, of "node_at st"] by (simp add: st' at)
  have fin: "finite (dom (node_at st'))" using ok by (simp add: at fs_ok_def)
  obtain r where r: "node_at st [] = Some r" "is_dir st r" using fs_ok_root [OF ok] by blast
  have root: "\<exists>r. node_at st' [] = Some r \<and> is_dir st' r"
    using r neq [OF r(1)] by (auto simp: at st')
  have node: "node_ok st' q n" if "node_at st' q = Some n" for q n
  proof (cases "q = ss @ [s]")
    case True
    with that show ?thesis using kind nd np by (auto simp: at node_ok_def st')
  next
    case False
    with that have q: "node_at st q = Some n" by (simp add: at)
    from fs_ok_node [OF ok q] neq [OF q] p(2) show ?thesis
      by (auto simp: node_ok_def st' jm_wf_set)
  qed
  have parent: "\<exists>p'. node_at st' q = Some p' \<and> is_dir st' p' \<and> mn_parentId (mf_heap st' n) = Some p'
      \<and> (x, path_of (q @ [x])) \<in> set (kids st' p')" if "node_at st' (q @ [x]) = Some n" for q x n
  proof (cases "q @ [x] = ss @ [s]")
    case True
    with that have "n = mf_nextId st" "q = ss" "x = s" by (simp_all add: at)
    with p np nd show ?thesis by (auto simp: at st' kids_p)
  next
    case False
    with that have q: "node_at st (q @ [x]) = Some n" by (auto simp: at split: if_splits)
    from fs_ok_parent [OF ok q] obtain p' where p': "node_at st q = Some p'" "is_dir st p'"
      "mn_parentId (mf_heap st n) = Some p'" "(x, path_of (q @ [x])) \<in> set (kids st p')" by metis
    have "q \<noteq> ss @ [s]" using p'(1) free by auto
    with p' neq [OF q] neq [OF p'(1)] show ?thesis by (auto simp: at st' kids_p)
  qed
  have child: "k = path_of (q @ [x]) \<and> node_at st' (q @ [x]) \<noteq> None"
    if "node_at st' q = Some p'" "(x, k) \<in> set (kids st' p')" for q p' x k
  proof (cases "q = ss @ [s]")
    case True
    with that nd np show ?thesis by (auto simp: at st')
  next
    case False
    with that(1) have q: "node_at st q = Some p'" by (simp add: at)
    show ?thesis
    proof (cases "p' = p \<and> x = s \<and> k = path_of (ss @ [s])")
      case True
      with q pp [OF q] show ?thesis by (simp add: at)
    next
      case False
      with that(2) neq [OF q] have "(x, k) \<in> set (kids st p')" by (auto simp: st' kids_p split: if_splits)
      from fs_ok_child [OF ok q this] show ?thesis by (simp add: at)
    qed
  qed
  show "fs_ok st'"
    unfolding fs_ok_def using nodes fin root node parent child by blast
qed

lemma remove_leaf:
  assumes ok: "fs_ok st" and p: "node_at st ss = Some p" and n: "node_at st (ss @ [s]) = Some n" and leaf: "kids st n = []"
    and st': "mf_nextId st' = mf_nextId st" "mf_nodes st' = (mf_nodes st)(path_of (ss @ [s]) := None)"
      "mf_idToPath st' = (mf_idToPath st)(n := None)"
      "mf_heap st' = (mf_heap st)(p := (mf_heap st p)\<lparr>mn_mtimeMs := t, mn_children := jm_delete s (kids st p)\<rparr>)"
  shows "fs_ok st'" "node_at st' = (node_at st)(ss @ [s] := None)" "contents st' = (contents st)(ss @ [s] := None)"
proof -
  have oks: "ok_segs (ss @ [s])" using node_at_ok [OF n] by simp
  show at: "node_at st' = (node_at st)(ss @ [s] := None)"
  proof (rule ext)
    fix q
    show "node_at st' q = ((node_at st)(ss @ [s] := None)) q"
      using oks path_of_inj [of q "ss @ [s]"] by (simp add: node_at_def st')
  qed
  have same: "mn_kind (mf_heap st' m) = mn_kind (mf_heap st m)" "mn_content (mf_heap st' m) = mn_content (mf_heap st m)"
    "mn_name (mf_heap st' m) = mn_name (mf_heap st m)" "mn_id (mf_heap st' m) = mn_id (mf_heap st m)"
    "mn_parentId (mf_heap st' m) = mn_parentId (mf_heap st m)"
    "kids st' m = (if m = p then jm_delete s (kids st p) else kids st m)" for m
    by (simp_all add: st')
  show "contents st' = (contents st)(ss @ [s] := None)"
    by (rule ext) (simp add: contents_def at same stored_node_def cong: if_cong)
  have other: "m \<noteq> n" if "node_at st q = Some m" "q \<noteq> ss @ [s]" for q m
    using fs_ok_inj [OF ok _ n] that by metis
  have pp: "m = p \<longleftrightarrow> q = ss" if "node_at st q = Some m" for q m
    using fs_ok_inj [OF ok] p that by (metis option.inject)
  have nodes: "mf_nodes st' = key_table (node_at st')"
    using fs_ok_nodes [OF ok] key_table_update [OF oks, of "node_at st"] by (simp add: st' at)
  have fin: "finite (dom (node_at st'))" using ok by (simp add: at fs_ok_def)
  have root: "\<exists>r. node_at st' [] = Some r \<and> is_dir st' r"
    using fs_ok_root [OF ok] by (auto simp: at same)
  have node: "node_ok st' q m" if "node_at st' q = Some m" for q m
  proof -
    from that have q: "node_at st q = Some m" "q \<noteq> ss @ [s]" by (auto simp: at split: if_splits)
    from fs_ok_node [OF ok q(1)] other [OF q] show ?thesis
      by (auto simp: node_ok_def same st'(1,3))
  qed
  have parent: "\<exists>p'. node_at st' q = Some p' \<and> is_dir st' p' \<and> mn_parentId (mf_heap st' m) = Some p'
      \<and> (x, path_of (q @ [x])) \<in> set (kids st' p')" if m': "node_at st' (q @ [x]) = Some m" for q x m
  proof -
    from m' have q: "node_at st (q @ [x]) = Some m" and ne: "q @ [x] \<noteq> ss @ [s]" by (auto simp: at split: if_splits)
    from fs_ok_parent [OF ok q] obtain p' where p': "node_at st q = Some p'" "is_dir st p'"
      "mn_parentId (mf_heap st m) = Some p'" "(x, path_of (q @ [x])) \<in> set (kids st p')" by metis
    have "q \<noteq> ss @ [s]"
    proof
      assume "q = ss @ [s]"
      with p'(1,4) n leaf show False by simp
    qed
    moreover have "(x, path_of (q @ [x])) \<in> set (kids st' p')"
      using p'(4) ne pp [OF p'(1)] by (auto simp: same delete_conv AList.delete_eq)
    ultimately show ?thesis using p' by (auto simp: at same(1,5))
  qed
  have child: "k = path_of (q @ [x]) \<and> node_at st' (q @ [x]) \<noteq> None"
    if m': "node_at st' q = Some m" and xk: "(x, k) \<in> set (kids st' m)" for q m x k
  proof -
    from m' have q: "node_at st q = Some m" by (auto simp: at split: if_splits)
    from xk have xk': "(x, k) \<in> set (kids st m)" "m = p \<Longrightarrow> x \<noteq> s"
      by (auto simp: same AList.delete_eq split: if_splits)
    from fs_ok_child [OF ok q xk'(1)] xk'(2) pp [OF q] show ?thesis by (auto simp: at)
  qed
  show "fs_ok st'"
    unfolding fs_ok_def using nodes fin root node parent child by blast
qed

text \<open>A change of a node that keeps its identity, kind, name, parent and children.\<close>

lemma touch_node:
  assumes ok: "fs_ok st"
    and st': "mf_nextId st' = mf_nextId st" "mf_nodes st' = mf_nodes st" "mf_idToPath st' = mf_idToPath st"
      "\<And>m. mn_id (mf_heap st' m) = mn_id (mf_heap st m) \<and> mn_kind (mf_heap st' m) = mn_kind (mf_heap st m)
         \<and> mn_name (mf_heap st' m) = mn_name (mf_heap st m) \<and> mn_parentId (mf_heap st' m) = mn_parentId (mf_heap st m)
         \<and> kids st' m = kids st m"
  shows "fs_ok st'" "node_at st' = node_at st"
proof -
  show at: "node_at st' = node_at st" by (rule ext) (simp add: node_at_def st')
  show "fs_ok st'" using ok unfolding fs_ok_def node_ok_def at by (simp add: st')
qed

section \<open>Files and directories\<close>

text \<open>The environments in scope: writable and case-sensitive, and URIs of their scheme.\<close>

definition writable_env :: "mem_env \<Rightarrow> bool" where
  "writable_env env \<longleftrightarrow> caseSensitive env \<and> \<not> readonly_fs env"

definition uri_segments :: "mem_env \<Rightarrow> uri \<Rightarrow> string list \<Rightarrow> bool" where
  "uri_segments env u ss \<longleftrightarrow> u_scheme u = me_scheme env \<and> segments (u_path u) = ss"

lemma uri_segments_ok: "uri_segments env u ss \<Longrightarrow> ok_segs ss"
  using segments_ok by (auto simp: uri_segments_def)

lemma uriFor_segments: "uri_segments env (uriFor env p) (segments p)"
  by (simp add: uri_segments_def uriFor_def createUri_def normalize_render segments_path_of segments_ok)

lemma writable_at_ok: "writable_env env \<Longrightarrow> uri_segments env u ss \<Longrightarrow> writable_at env u = Inr (path_of ss)"
  by (auto simp: writable_env_def uri_segments_def writable_at_def assertWritable_def assertSameScheme_def normalize_render)

lemma write_checks: "writable_env env \<Longrightarrow> uri_segments env u ss \<Longrightarrow> assertWritable env = Inr () \<and> assertSameScheme env u = Inr ()"
  by (simp add: writable_env_def uri_segments_def assertWritable_def assertSameScheme_def)

lemma path_facts:
  assumes "ok_segs ss"
  shows "normalizeUriPath (path_of ss) = path_of ss" "dirnameUriPath (path_of ss) = path_of (butlast ss)"
    "ss \<noteq> [] \<Longrightarrow> basenameUriPath (path_of ss) = last ss" "path_of ss = ''/'' \<longleftrightarrow> ss = []"
    "caseSensitive env \<Longrightarrow> getNode env (path_of ss) st = node_at st ss"
    "caseSensitive env \<Longrightarrow> pathKey env (path_of ss) = path_of ss"
  using assms by (simp_all add: normalize_render dirname_basename segments_path_of getNode_segments pathKey_segments path_of_root)

lemma ok_butlast: "ok_segs ss \<Longrightarrow> ok_segs (butlast ss)"
  by (auto simp: list_all_iff dest: in_set_butlastD)

text \<open>Where a new entry can go: nothing is there, and its parent is a directory.\<close>

definition free_slot :: "memfs \<Rightarrow> string list \<Rightarrow> bool" where
  "free_slot st ss \<longleftrightarrow> ss \<noteq> [] \<and> contents st ss = None \<and> contents st (butlast ss) = Some StoredDir"

lemma parent_directory_ok:
  assumes "fs_ok st" "caseSensitive env" "ok_segs ss"
  shows "parent_directory env (path_of ss) st =
     (case contents st ss of
        None \<Rightarrow> Inl (FileSystemError ''ENOENT'' ''No such file or directory'' (Some (path_of ss)))
      | Some (StoredFile d) \<Rightarrow> Inl (FileSystemError ''ENOTDIR'' ''Not a directory'' (Some (path_of ss)))
      | Some StoredDir \<Rightarrow> Inr (the (node_at st ss)))"
proof (cases "node_at st ss")
  case None
  with assms show ?thesis by (simp add: parent_directory_def ensureNode_def path_facts contents_def)
next
  case (Some n)
  from fs_ok_node [OF assms(1) Some] have "mn_kind (mf_heap st n) \<in> {KindFile, KindDirectory}" by (simp add: node_ok_def)
  with Some assms(2,3) show ?thesis
    by (auto simp: parent_directory_def ensureNode_def path_facts contents_def stored_node_def)
qed

lemma not_root_if_free: "fs_ok st \<Longrightarrow> node_at st ss = None \<Longrightarrow> ss \<noteq> []"
  using fs_ok_root by force

lemma free_slot_parent:
  assumes "fs_ok st" "free_slot st ss"
  obtains pp s p where "ss = pp @ [s]" "node_at st pp = Some p" "is_dir st p" "node_at st ss = None"
proof -
  from assms(2) obtain pp s where ss: "ss = pp @ [s]" by (cases ss rule: rev_cases) (auto simp: free_slot_def)
  with assms show ?thesis using that by (auto simp: free_slot_def contents_dir contents_None)
qed

text \<open>The frame: existing nodes other than the parent keep everything, the parent keeps all but its listing.\<close>

definition only_listing :: "memfs \<Rightarrow> memfs \<Rightarrow> string list \<Rightarrow> bool" where
  "only_listing st st' pp \<longleftrightarrow>
     (\<forall>q n. node_at st q = Some n \<longrightarrow> q \<noteq> pp \<longrightarrow> mf_heap st' n = mf_heap st n)
     \<and> (\<forall>q n. node_at st q = Some n \<longrightarrow> mn_kind (mf_heap st' n) = mn_kind (mf_heap st n)
          \<and> mn_content (mf_heap st' n) = mn_content (mf_heap st n) \<and> mn_name (mf_heap st' n) = mn_name (mf_heap st n))"

lemma emit_event_fields [simp]:
  "mf_nodes (emit_event env ev st) = mf_nodes st" "mf_heap (emit_event env ev st) = mf_heap st"
  "mf_nextId (emit_event env ev st) = mf_nextId st" "mf_idToPath (emit_event env ev st) = mf_idToPath st"
  by (simp_all add: emit_event_def)

lemma writeFile_new:
  assumes env: "writable_env env" and u: "uri_segments env u ss" and ok: "fs_ok st" and free: "free_slot st ss"
  shows "\<exists>st'. writeFile env u data st = (Inr (), st') \<and> fs_ok st' \<and> contents st' = (contents st)(ss \<mapsto> StoredFile data)
    \<and> node_at st' = (node_at st)(ss \<mapsto> mf_nextId st) \<and> only_listing st st' (butlast ss)"
proof -
  obtain pp s p where ss: "ss = pp @ [s]" and p: "node_at st pp = Some p" "is_dir st p" and none: "node_at st ss = None"
    using free_slot_parent [OF ok free] .
  have cs: "caseSensitive env" using env by (simp add: writable_env_def)
  have oks: "ok_segs ss" by (rule uri_segments_ok [OF u])
  have s: "seg_ok s" "ok_segs pp" using oks ss by simp_all
  have pid: "mn_id (mf_heap st p) = p" "p < mf_nextId st" using fs_ok_node [OF ok p(1)] by (simp_all add: node_ok_def)
  define t where "t = me_now env (mf_reads st)"
  define st1 where "st1 = st\<lparr>mf_reads := Suc (mf_reads st)\<rparr>"
  define nd where "nd = \<lparr>mn_id = mf_nextId st, mn_parentId = Some p, mn_name = s, mn_kind = KindFile, mn_content = data,
    mn_mtimeMs = t, mn_ctimeMs = t, mn_children = []\<rparr>"
  define st' where "st' = snd (writeFile env u data st)"
  have par: "parent_directory env (path_of pp) st1 = Inr p"
    using p cs s(2) by (simp add: parent_directory_def ensureNode_def path_facts st1_def node_at_def)
  have wf: "writeFile env u data st = (Inr (), st')"
    using none par cs oks s(2) ss
    by (simp add: st'_def writeFile_def writable_at_ok [OF env u] now_def Let_def path_facts(1-4,6) getNode_segments segments_path_of
        node_at_def st1_def t_def add_node_def split: prod.splits)
  have fields: "mf_nextId st' = mf_nextId st + 1" "mf_nodes st' = (mf_nodes st)(path_of (pp @ [s]) \<mapsto> mf_nextId st)"
      "mf_idToPath st' = (mf_idToPath st)(mf_nextId st \<mapsto> path_of (pp @ [s]))"
      "mf_heap st' = (mf_heap st)(mf_nextId st := nd,
         p := (mf_heap st p)\<lparr>mn_mtimeMs := t, mn_children := jm_set s (path_of (pp @ [s])) (kids st p)\<rparr>)"
    using none par cs oks s(2) ss pid
    by (simp_all add: st'_def writeFile_def writable_at_ok [OF env u] now_def Let_def path_facts(1-4,6) getNode_segments segments_path_of
        node_at_def st1_def t_def add_node_def set_child_def update_node_def nd_def fun_eq_iff)
  have leaf: "fs_ok st'" "node_at st' = (node_at st)(ss \<mapsto> mf_nextId st)" "contents st' = (contents st)(ss \<mapsto> stored_node nd)"
    using add_leaf [OF ok p s(1) _ _ _ _ _ _ fields] none ss by (simp_all add: nd_def)
  have "only_listing st st' pp"
    using fs_ok_node [OF ok] fs_ok_inj [OF ok p(1)] pid(2)
    by (auto simp: only_listing_def fields node_ok_def nd_def)
  with wf leaf show ?thesis by (auto simp: nd_def stored_node_def ss)
qed

section \<open>The abstract filesystem\<close>

type_synonym fs_map = "string list \<Rightarrow> stored option"

text \<open>Each operation on the map: the code of its error, or the new map.\<close>

definition spec_parent :: "fs_map \<Rightarrow> string list \<Rightarrow> fs_map \<Rightarrow> string + fs_map" where
  "spec_parent m ss m' =
     (case m (butlast ss) of None \<Rightarrow> Inl ''ENOENT'' | Some (StoredFile d) \<Rightarrow> Inl ''ENOTDIR'' | Some StoredDir \<Rightarrow> Inr m')"

definition spec_write :: "string list \<Rightarrow> bytes \<Rightarrow> fs_map \<Rightarrow> string + fs_map" where
  "spec_write ss data m =
     (case m ss of
        Some StoredDir \<Rightarrow> Inl ''EISDIR''
      | Some (StoredFile d) \<Rightarrow> Inr (m(ss \<mapsto> StoredFile data))
      | None \<Rightarrow> spec_parent m ss (m(ss \<mapsto> StoredFile data)))"

definition spec_mkdir :: "string list \<Rightarrow> fs_map \<Rightarrow> string + fs_map" where
  "spec_mkdir ss m = (if m ss \<noteq> None then Inl ''EEXIST'' else spec_parent m ss (m(ss \<mapsto> StoredDir)))"

definition spec_delete :: "string list \<Rightarrow> bool \<Rightarrow> fs_map \<Rightarrow> string + fs_map" where
  "spec_delete ss recursive m =
     (if ss = [] then Inl ''EACCES''
      else if m ss = None then Inl ''ENOENT''
      else if \<not> recursive \<and> (\<exists>s. m (ss @ [s]) \<noteq> None) then Inl ''EINVAL''
      else Inr (\<lambda>q. if prefix ss q then None else m q))"

definition spec_rename :: "string list \<Rightarrow> string list \<Rightarrow> fs_map \<Rightarrow> string + fs_map" where
  "spec_rename from to m =
     (if from = [] then Inl ''EACCES''
      else if from = to then Inr m
      else if m from = None then Inl ''ENOENT''
      else if prefix from to then Inl ''EINVAL''
      else if m to \<noteq> None then Inl ''EEXIST''
      else spec_parent m to (\<lambda>q. if prefix to q then m (from @ drop (length to) q) else if prefix from q then None else m q))"

definition spec_copy :: "string list \<Rightarrow> string list \<Rightarrow> fs_map \<Rightarrow> string + fs_map" where
  "spec_copy from to m =
     (if prefix from to then Inl ''EINVAL''
      else if m from = None then Inl ''ENOENT''
      else if m to \<noteq> None then Inl ''EEXIST''
      else spec_parent m to (\<lambda>q. if prefix to q then m (from @ drop (length to) q) else m q))"

text \<open>An operation that implements its specification also keeps the invariant.\<close>

definition implements :: "memfs \<Rightarrow> unit mem_result \<Rightarrow> string + fs_map \<Rightarrow> bool" where
  "implements st res spec \<longleftrightarrow> fs_ok (snd res) \<and>
     (case spec of
        Inl code \<Rightarrow> (\<exists>e. fst res = Inl e \<and> er_code e = code) \<and> contents (snd res) = contents st
      | Inr m \<Rightarrow> fst res = Inr () \<and> contents (snd res) = m)"

lemma er_code_FileSystemError [simp]: "er_code (FileSystemError code message path) = code"
  by (simp add: FileSystemError_def)

lemma clock_read:
  "fs_ok (st\<lparr>mf_reads := k\<rparr>) = fs_ok st" "contents (st\<lparr>mf_reads := k\<rparr>) = contents st" "node_at (st\<lparr>mf_reads := k\<rparr>) = node_at st"
proof -
  show at: "node_at (st\<lparr>mf_reads := k\<rparr>) = node_at st" by (simp add: fun_eq_iff node_at_def)
  show "contents (st\<lparr>mf_reads := k\<rparr>) = contents st" by (simp add: fun_eq_iff contents_def at)
  show "fs_ok (st\<lparr>mf_reads := k\<rparr>) = fs_ok st" by (simp add: fs_ok_def node_ok_def at)
qed

lemma emit_keeps:
  "fs_ok (emit_event env ev st) = fs_ok st" "contents (emit_event env ev st) = contents st" "node_at (emit_event env ev st) = node_at st"
proof -
  show at: "node_at (emit_event env ev st) = node_at st" by (simp add: fun_eq_iff node_at_def)
  show "contents (emit_event env ev st) = contents st" by (simp add: fun_eq_iff contents_def at)
  show "fs_ok (emit_event env ev st) = fs_ok st" by (simp add: fs_ok_def node_ok_def at)
qed

lemma parent_missing:
  assumes "fs_ok st" "caseSensitive env" "ok_segs ss" "contents st (butlast ss) \<noteq> Some StoredDir"
  shows "\<exists>e. parent_directory env (path_of (butlast ss)) st = Inl e \<and> (\<forall>m. spec_parent (contents st) ss m = Inl (er_code e))"
  using parent_directory_ok [OF assms(1,2) ok_butlast [OF assms(3)]] assms(4)
  by (cases "contents st (butlast ss)") (auto simp: spec_parent_def split: stored.splits)

lemma writeFile_over:
  assumes env: "writable_env env" and u: "uri_segments env u ss" and ok: "fs_ok st"
    and n: "node_at st ss = Some n" "mn_kind (mf_heap st n) = KindFile"
  shows "\<exists>st'. writeFile env u data st = (Inr (), st') \<and> fs_ok st' \<and> contents st' = (contents st)(ss \<mapsto> StoredFile data)"
proof -
  have cs: "caseSensitive env" using env by (simp add: writable_env_def)
  have oks: "ok_segs ss" by (rule uri_segments_ok [OF u])
  define st' where "st' = snd (writeFile env u data st)"
  have wf: "writeFile env u data st = (Inr (), st')"
    and fields: "mf_nextId st' = mf_nextId st" "mf_nodes st' = mf_nodes st" "mf_idToPath st' = mf_idToPath st"
      "mf_heap st' = (mf_heap st)(n := (mf_heap st n)\<lparr>mn_content := data, mn_mtimeMs := me_now env (mf_reads st)\<rparr>)"
    using n cs oks by (simp_all add: st'_def writeFile_def writable_at_ok [OF env u] now_def path_facts clock_read update_node_def)
  have keep: "fs_ok st'" "node_at st' = node_at st"
    by (rule touch_node [OF ok fields(1-3)], simp add: fields)+
  have "contents st' = (contents st)(ss \<mapsto> StoredFile data)"
  proof (rule ext)
    fix q
    show "contents st' q = ((contents st)(ss \<mapsto> StoredFile data)) q"
    proof (cases "q = ss")
      case False
      with fs_ok_inj [OF ok n(1), of q] have "node_at st q \<noteq> Some n" by blast
      with False show ?thesis by (cases "node_at st q") (simp_all add: contents_def keep fields)
    qed (simp add: contents_def keep fields n stored_node_def)
  qed
  with wf keep show ?thesis by blast
qed

lemma writeFile_implements:
  assumes env: "writable_env env" and u: "uri_segments env u ss" and ok: "fs_ok st"
  shows "implements st (writeFile env u data st) (spec_write ss data (contents st))"
proof -
  have cs: "caseSensitive env" using env by (simp add: writable_env_def)
  have oks: "ok_segs ss" by (rule uri_segments_ok [OF u])
  note unfold = writeFile_def writable_at_ok [OF env u] now_def path_facts(1,2,3,4,6) [OF oks] path_facts(5) [OF oks cs] clock_read
  consider (over) n where "node_at st ss = Some n" "mn_kind (mf_heap st n) = KindFile"
    | (folder) n where "node_at st ss = Some n" "mn_kind (mf_heap st n) \<noteq> KindFile"
    | (free) "free_slot st ss" | (orphan) "node_at st ss = None" "contents st (butlast ss) \<noteq> Some StoredDir"
    using not_root_if_free [OF ok, of ss] by (cases "node_at st ss") (auto simp: free_slot_def contents_None)
  then show ?thesis
  proof cases
    case over
    with writeFile_over [OF env u ok over, of data] show ?thesis
      by (auto simp: implements_def spec_write_def contents_def stored_node_def)
  next
    case folder
    then show ?thesis using ok by (simp add: unfold implements_def spec_write_def contents_def stored_node_def clock_read)
  next
    case free
    with writeFile_new [OF env u ok free, of data] show ?thesis
      by (auto simp: implements_def spec_write_def spec_parent_def free_slot_def)
  next
    case orphan
    then have "contents st ss = None" by (simp add: contents_None)
    with orphan show ?thesis using ok parent_directory_ok [of "st\<lparr>mf_reads := Suc (mf_reads st)\<rparr>", OF _ cs ok_butlast [OF oks]]
      by (auto simp: unfold implements_def spec_write_def spec_parent_def clock_read split: option.splits stored.splits)
  qed
qed

lemma mkdirp_existing_parent:
  assumes "caseSensitive env" "ok_segs (pp @ [s])" "node_at st pp = Some p" "is_dir st p" "node_at st (pp @ [s]) = None"
  shows "mkdirp env (path_of (pp @ [s])) st =
    make_directory env (Some (mn_id (mf_heap st p))) s (path_of (pp @ [s])) (set_child p s (path_of (pp @ [s])) st)"
proof -
  have ok: "ok_segs pp" using assms(2) by simp
  have "mkdirp env (path_of pp) st = (Inr p, st)"
    using assms ok by (subst mkdirp.simps) (simp add: path_facts node_at_def)
  then show ?thesis
    using assms(1,2,5) by (subst mkdirp.simps) (simp add: path_facts [OF assms(2)] node_at_def Let_def)
qed

lemma createDirectory_new:
  assumes env: "writable_env env" and u: "uri_segments env u ss" and ok: "fs_ok st" and free: "free_slot st ss"
  shows "\<exists>st'. createDirectory env u st = (Inr (), st') \<and> fs_ok st' \<and> contents st' = (contents st)(ss \<mapsto> StoredDir)
    \<and> node_at st' = (node_at st)(ss \<mapsto> mf_nextId st) \<and> only_listing st st' (butlast ss)"
proof -
  obtain pp s p where ss: "ss = pp @ [s]" and p: "node_at st pp = Some p" "is_dir st p" and none: "node_at st ss = None"
    using free_slot_parent [OF ok free] .
  have cs: "caseSensitive env" using env by (simp add: writable_env_def)
  have u': "uri_segments env u (pp @ [s])" and none': "node_at st (pp @ [s]) = None" using u none ss by simp_all
  have oks: "ok_segs (pp @ [s])" by (rule uri_segments_ok [OF u'])
  then have s: "seg_ok s" "ok_segs pp" by simp_all
  have pid: "mn_id (mf_heap st p) = p" "p < mf_nextId st" using fs_ok_node [OF ok p(1)] by (simp_all add: node_ok_def)
  define t where "t = me_now env (mf_reads st)"
  define nd where "nd = \<lparr>mn_id = mf_nextId st, mn_parentId = Some p, mn_name = s, mn_kind = KindDirectory, mn_content = [],
    mn_mtimeMs = t, mn_ctimeMs = t, mn_children = []\<rparr>"
  define st' where "st' = snd (createDirectory env u st)"
  have par: "parent_directory env (path_of pp) st = Inr p"
    using p cs s(2) by (simp add: parent_directory_def ensureNode_def path_facts)
  note unfold = createDirectory_def writable_at_ok [OF env u'] path_facts(2) [OF oks] path_facts(5) [OF oks cs] none'
    mkdirp_existing_parent [OF cs oks p none'] mbind_def make_directory_def now_def add_node_def Let_def
  have wf: "createDirectory env u st = (Inr (), st')"
    using par by (simp add: st'_def unfold)
  have fields: "mf_nextId st' = mf_nextId st + 1" "mf_nodes st' = (mf_nodes st)(path_of (pp @ [s]) \<mapsto> mf_nextId st)"
      "mf_idToPath st' = (mf_idToPath st)(mf_nextId st \<mapsto> path_of (pp @ [s]))"
      "mf_heap st' = (mf_heap st)(mf_nextId st := nd,
         p := (mf_heap st p)\<lparr>mn_mtimeMs := mn_mtimeMs (mf_heap st p), mn_children := jm_set s (path_of (pp @ [s])) (kids st p)\<rparr>)"
    using par pid by (simp_all add: st'_def unfold t_def set_child_def update_node_def nd_def fun_eq_iff)
  have leaf: "fs_ok st'" "node_at st' = (node_at st)(ss \<mapsto> mf_nextId st)" "contents st' = (contents st)(ss \<mapsto> stored_node nd)"
    using add_leaf [OF ok p s(1) _ _ _ _ _ _ fields] none ss by (simp_all add: nd_def)
  have "only_listing st st' pp"
    using fs_ok_node [OF ok] fs_ok_inj [OF ok p(1)] pid(2)
    by (auto simp: only_listing_def fields node_ok_def nd_def)
  with wf leaf show ?thesis by (auto simp: nd_def stored_node_def ss)
qed

lemma createDirectory_implements:
  assumes env: "writable_env env" and u: "uri_segments env u ss" and ok: "fs_ok st"
  shows "implements st (createDirectory env u st) (spec_mkdir ss (contents st))"
proof -
  have cs: "caseSensitive env" using env by (simp add: writable_env_def)
  have oks: "ok_segs ss" by (rule uri_segments_ok [OF u])
  note unfold = createDirectory_def writable_at_ok [OF env u] path_facts(2) [OF oks] path_facts(5) [OF oks cs]
  consider (there) "node_at st ss \<noteq> None" | (free) "free_slot st ss"
    | (orphan) "node_at st ss = None" "contents st (butlast ss) \<noteq> Some StoredDir"
    using not_root_if_free [OF ok, of ss] by (cases "node_at st ss") (auto simp: free_slot_def contents_None)
  then show ?thesis
  proof cases
    case there
    then show ?thesis using ok by (simp add: unfold implements_def spec_mkdir_def contents_None)
  next
    case free
    with createDirectory_new [OF env u ok free] show ?thesis
      by (auto simp: implements_def spec_mkdir_def spec_parent_def free_slot_def)
  next
    case orphan
    then have "contents st ss = None" by (simp add: contents_None)
    with orphan show ?thesis using ok parent_directory_ok [OF ok cs ok_butlast [OF oks]]
      by (auto simp: unfold implements_def spec_mkdir_def spec_parent_def split: option.splits stored.splits)
  qed
qed

section \<open>Deleting\<close>

text \<open>The nodes outside a subtree keep what they store.\<close>

definition stored_outside :: "memfs \<Rightarrow> memfs \<Rightarrow> string list \<Rightarrow> bool" where
  "stored_outside st st' ss \<longleftrightarrow>
     (\<forall>q m. node_at st q = Some m \<longrightarrow> \<not> prefix ss q \<longrightarrow> stored_node (mf_heap st' m) = stored_node (mf_heap st m))"

definition pruned :: "memfs \<Rightarrow> memfs \<Rightarrow> string list \<Rightarrow> bool" where
  "pruned st st' ss \<longleftrightarrow> fs_ok st' \<and> node_at st' = (\<lambda>q. if prefix ss q then None else node_at st q) \<and> stored_outside st st' ss"

lemma pruned_contents:
  assumes "pruned st st' ss"
  shows "contents st' = (\<lambda>q. if prefix ss q then None else contents st q)"
proof (rule ext)
  fix q
  show "contents st' q = (if prefix ss q then None else contents st q)"
    using assms by (cases "node_at st q") (auto simp: pruned_def contents_def stored_outside_def)
qed

lemma no_children:
  assumes "fs_ok st" "node_at st ss = Some n"
  shows "kids st n = [] \<longleftrightarrow> (\<forall>s. node_at st (ss @ [s]) = None)"
proof
  assume "kids st n = []"
  with assms show "\<forall>s. node_at st (ss @ [s]) = None"
    using fs_ok_child_in by (metis empty_iff empty_set not_None_eq)
next
  assume none: "\<forall>s. node_at st (ss @ [s]) = None"
  show "kids st n = []"
  proof (rule ccontr)
    assume "kids st n \<noteq> []"
    then obtain s k where "(s, k) \<in> set (kids st n)" by (cases "kids st n") auto
    from fs_ok_child(2) [OF assms this] none show False by simp
  qed
qed

lemma unlink_leaf:
  assumes cs: "caseSensitive env" and ok: "fs_ok st" and n: "node_at st ss = Some n" and ss: "ss \<noteq> []" and leaf: "kids st n = []"
  shows "pruned st (unlink env (path_of ss) n st) ss"
proof -
  obtain pp s where ps: "ss = pp @ [s]" using ss by (cases ss rule: rev_cases) auto
  from n ps have n': "node_at st (pp @ [s]) = Some n" by simp
  from fs_ok_parent [OF ok n'] obtain p where p: "node_at st pp = Some p" by metis
  have oks: "ok_segs (pp @ [s])" "ok_segs pp" using node_at_ok [OF n'] by simp_all
  have nm: "mn_name (mf_heap st n) = s" "mn_id (mf_heap st n) = n" using fs_ok_node [OF ok n'] by (simp_all add: node_ok_def)
  have np: "n \<noteq> p" using fs_ok_inj [OF ok n', of pp] p by auto
  define st' where "st' = unlink env (path_of ss) n st"
  have fields: "mf_nextId st' = mf_nextId st" "mf_nodes st' = (mf_nodes st)(path_of (pp @ [s]) := None)"
      "mf_idToPath st' = (mf_idToPath st)(n := None)"
      "mf_heap st' = (mf_heap st)(p := (mf_heap st p)\<lparr>mn_mtimeMs := me_now env (mf_reads st), mn_children := jm_delete s (kids st p)\<rparr>)"
    using cs oks p nm np path_facts(2,6) [OF oks(1)] path_facts(5) [OF oks(2) cs]
    by (simp_all add: st'_def unlink_def ps delete_child_def now_def update_node_def Let_def fun_eq_iff)
  have st': "fs_ok st'" "node_at st' = (node_at st)(ss := None)" "contents st' = (contents st)(ss := None)"
    using remove_leaf [OF ok p n' leaf fields] ps by simp_all
  have below: "prefix ss q \<longleftrightarrow> q = ss" if "node_at st q \<noteq> None" for q
  proof
    assume "prefix ss q"
    then obtain r where q: "q = ss @ r" by (rule prefixE)
    have "r = []"
    proof (rule ccontr)
      assume "r \<noteq> []"
      then obtain x r' where "r = x # r'" by (cases r) auto
      then have "node_at st ((ss @ [x]) @ r') \<noteq> None" using that q by simp
      then have "node_at st (ss @ [x]) \<noteq> None" by (rule fs_ok_prefix [OF ok])
      with leaf no_children [OF ok n] show False by simp
    qed
    with q show "q = ss" by simp
  qed simp
  have "node_at st' = (\<lambda>q. if prefix ss q then None else node_at st q)"
  proof (rule ext)
    fix q
    show "node_at st' q = (if prefix ss q then None else node_at st q)"
      using below [of q] by (cases "node_at st q") (auto simp: st'(2))
  qed
  moreover have "stored_outside st st' ss" by (auto simp: stored_outside_def fields stored_node_def)
  ultimately show ?thesis using st'(1) by (simp add: pruned_def st'_def)
qed

lemma child_path_of: "ok_segs (ss @ [s]) \<Longrightarrow> child_path (path_of ss) s = path_of (ss @ [s])"
  by (auto simp: child_path_def path_of_root) (simp_all add: path_of_def)

lemma delete_children:
  assumes call: "\<And>st s. fs_ok st \<Longrightarrow> s \<in> set names \<Longrightarrow> node_at st (ss @ [s]) \<noteq> None \<Longrightarrow>
      (\<forall>q. node_at st q \<noteq> None \<longrightarrow> node_at st0 q \<noteq> None) \<Longrightarrow>
      \<exists>st'. call (path_of (ss @ [s])) st = Some (Inr (), st') \<and> pruned st st' (ss @ [s])"
    and ok: "fs_ok st" and there: "\<forall>s\<in>set names. node_at st (ss @ [s]) \<noteq> None" and dist: "distinct names"
    and sub: "\<forall>q. node_at st q \<noteq> None \<longrightarrow> node_at st0 q \<noteq> None"
  shows "\<exists>st'. for_children call (path_of ss) (map (\<lambda>s. path_of (ss @ [s])) names) st = Some (Inr (), st') \<and> fs_ok st'
    \<and> node_at st' = (\<lambda>q. if \<exists>s\<in>set names. prefix (ss @ [s]) q then None else node_at st q)
    \<and> (\<forall>q m. node_at st' q = Some m \<longrightarrow> stored_node (mf_heap st' m) = stored_node (mf_heap st m))"
  using assms
proof (induction names arbitrary: st)
  case Nil
  then show ?case by simp
next
  case (Cons s names)
  from Cons.prems(3) obtain c where c: "node_at st (ss @ [s]) = Some c" by auto
  have name: "mn_name (mf_heap st c) = s" using fs_ok_node [OF Cons.prems(2) c] by (simp add: node_ok_def)
  have oks: "ok_segs (ss @ [s])" by (rule node_at_ok [OF c])
  then have key: "mf_nodes st (path_of (ss @ [s])) = Some c" using c by (simp add: node_at_def)
  obtain st1 where st1: "call (path_of (ss @ [s])) st = Some (Inr (), st1)" "pruned st st1 (ss @ [s])"
    using Cons.prems(1) [OF Cons.prems(2) _ _ Cons.prems(5), of s] c by auto
  have at1: "node_at st1 = (\<lambda>q. if prefix (ss @ [s]) q then None else node_at st q)" and ok1: "fs_ok st1"
    and out1: "stored_outside st st1 (ss @ [s])"
    using st1(2) by (simp_all add: pruned_def)
  have there1: "\<forall>x\<in>set names. node_at st1 (ss @ [x]) \<noteq> None"
    using Cons.prems(3,4) by (auto simp: at1)
  have sub1: "\<forall>q. node_at st1 q \<noteq> None \<longrightarrow> node_at st0 q \<noteq> None" using Cons.prems(5) by (auto simp: at1)
  have dist1: "distinct names" using Cons.prems(4) by simp
  have call1: "\<exists>st'. call (path_of (ss @ [x])) st = Some (Inr (), st') \<and> pruned st st' (ss @ [x])"
    if "fs_ok st" "x \<in> set names" "node_at st (ss @ [x]) \<noteq> None" "\<forall>q. node_at st q \<noteq> None \<longrightarrow> node_at st0 q \<noteq> None" for st x
    using Cons.prems(1) [of st x] that by simp
  obtain st2 where st2: "for_children call (path_of ss) (map (\<lambda>s. path_of (ss @ [s])) names) st1 = Some (Inr (), st2)" "fs_ok st2"
    "node_at st2 = (\<lambda>q. if \<exists>s\<in>set names. prefix (ss @ [s]) q then None else node_at st1 q)"
    "\<forall>q m. node_at st2 q = Some m \<longrightarrow> stored_node (mf_heap st2 m) = stored_node (mf_heap st1 m)"
    using Cons.IH [OF call1 ok1 there1 dist1 sub1] by blast
  have "stored_node (mf_heap st2 m) = stored_node (mf_heap st m)" if m: "node_at st2 q = Some m" for q m
  proof -
    from m have "node_at st q = Some m" "\<not> prefix (ss @ [s]) q" by (auto simp: st2(3) at1 split: if_splits)
    with st2(4) m out1 show ?thesis by (auto simp: stored_outside_def)
  qed
  moreover have "node_at st2 = (\<lambda>q. if \<exists>x\<in>set (s # names). prefix (ss @ [x]) q then None else node_at st q)"
    by (auto simp: st2(3) at1 fun_eq_iff)
  ultimately show ?case
    using key name st1(1) st2(1,2) by (simp add: child_path_of [OF oks])
qed

lemma delete_subtree:
  assumes env: "writable_env env"
  shows "uri_segments env u ss \<Longrightarrow> fs_ok st \<Longrightarrow> node_at st ss = Some n \<Longrightarrow> ss \<noteq> [] \<Longrightarrow>
    (\<And>q. node_at st (ss @ q) \<noteq> None \<Longrightarrow> length q < f) \<Longrightarrow> recursive \<or> kids st n = [] \<Longrightarrow>
    \<exists>st'. delete_entry f env u recursive st = Some (Inr (), st') \<and> pruned st st' ss"
proof (induction f arbitrary: u ss st n recursive)
  case 0
  from "0.prems"(5) [of "[]"] "0.prems"(3) show ?case by simp
next
  case (Suc f)
  note u = Suc.prems(1) and ok = Suc.prems(2) and n = Suc.prems(3)
  have cs: "caseSensitive env" using env by (simp add: writable_env_def)
  have oks: "ok_segs ss" by (rule uri_segments_ok [OF u])
  have start: "writable_at env u = Inr (path_of ss)" "path_of ss \<noteq> ''/''" "ensureNode env (path_of ss) st = Inr n"
    using writable_at_ok [OF env u] path_facts(4) [OF oks] Suc.prems(4) n path_facts(5) [OF oks cs]
    by (simp_all add: ensureNode_def)
  show ?case
  proof (cases "kids st n = []")
    case True
    then show ?thesis using start unlink_leaf [OF cs ok n Suc.prems(4) True] by simp
  next
    case False
    have nok: "node_ok st ss n" by (rule fs_ok_node [OF ok n])
    with False have dir: "mn_kind (mf_heap st n) = KindDirectory" by (auto simp: node_ok_def)
    define names where "names = map fst (kids st n)"
    have keys: "map snd (kids st n) = map (\<lambda>s. path_of (ss @ [s])) names"
      using fs_ok_child(1) [OF ok n] by (auto simp: names_def)
    have there: "\<forall>s\<in>set names. node_at st (ss @ [s]) \<noteq> None"
      using fs_ok_child(2) [OF ok n] by (auto simp: names_def)
    have dist: "distinct names" using nok by (simp add: names_def node_ok_def jm_wf_def)
    have call: "\<exists>st'. delete_entry f env (uriFor env (path_of (ss @ [s]))) True st1 = Some (Inr (), st') \<and> pruned st1 st' (ss @ [s])"
      if "fs_ok st1" "s \<in> set names" "node_at st1 (ss @ [s]) \<noteq> None" "\<forall>q. node_at st1 q \<noteq> None \<longrightarrow> node_at st q \<noteq> None" for st1 s
    proof -
      from that(3) obtain c where c: "node_at st1 (ss @ [s]) = Some c" by blast
      have "uri_segments env (uriFor env (path_of (ss @ [s]))) (ss @ [s])"
        using uriFor_segments [of env "path_of (ss @ [s])"] node_at_ok [OF c] by (simp add: segments_path_of)
      moreover have "length q < f" if q: "node_at st1 ((ss @ [s]) @ q) \<noteq> None" for q
      proof -
        from q \<open>\<forall>q. node_at st1 q \<noteq> None \<longrightarrow> node_at st q \<noteq> None\<close> have "node_at st (ss @ s # q) \<noteq> None" by simp
        from Suc.prems(5) [OF this] show ?thesis by simp
      qed
      ultimately show ?thesis using Suc.IH [OF _ that(1) c] by blast
    qed
    obtain st1 where st1: "for_children (\<lambda>p st. delete_entry f env (uriFor env p) True st) (path_of ss)
        (map (\<lambda>s. path_of (ss @ [s])) names) st = Some (Inr (), st1)" "fs_ok st1"
      "node_at st1 = (\<lambda>q. if \<exists>s\<in>set names. prefix (ss @ [s]) q then None else node_at st q)"
      "\<forall>q m. node_at st1 q = Some m \<longrightarrow> stored_node (mf_heap st1 m) = stored_node (mf_heap st m)"
      using delete_children [OF call ok there dist] by blast
    have n1: "node_at st1 ss = Some n" using n by (auto simp: st1(3))
    have "node_at st1 (ss @ [s]) = None" for s
      using fs_ok_child_in [OF ok n, of s] by (cases "node_at st (ss @ [s])") (force simp: st1(3) names_def)+
    then have leaf: "kids st1 n = []" using no_children [OF st1(2) n1] by simp
    have pr: "pruned st1 (unlink env (path_of ss) n st1) ss" by (rule unlink_leaf [OF cs st1(2) n1 Suc.prems(4) leaf])
    have "node_at (unlink env (path_of ss) n st1) = (\<lambda>q. if prefix ss q then None else node_at st q)"
      using pr by (auto simp: pruned_def st1(3) fun_eq_iff dest: append_prefixD)
    moreover have "stored_outside st (unlink env (path_of ss) n st1) ss"
      unfolding stored_outside_def
    proof (intro allI impI)
      fix q m assume q: "node_at st q = Some m" "\<not> prefix ss q"
      then have "node_at st1 q = Some m" by (auto simp: st1(3) dest: append_prefixD)
      with pr q(2) st1(4) show "stored_node (mf_heap (unlink env (path_of ss) n st1) m) = stored_node (mf_heap st m)"
        by (auto simp: pruned_def stored_outside_def)
    qed
    ultimately have "pruned st (unlink env (path_of ss) n st1) ss" using pr by (simp add: pruned_def)
    then show ?thesis using start dir False Suc.prems(6) st1(1) by (simp add: Let_def keys)
  qed
qed

text \<open>Fuel that is enough for every walk over the tree.\<close>

definition deep_enough :: "nat \<Rightarrow> memfs \<Rightarrow> bool" where
  "deep_enough f st \<longleftrightarrow> (\<forall>q. node_at st q \<noteq> None \<longrightarrow> length q < f)"

lemma deep_enough_exists: "fs_ok st \<Longrightarrow> \<exists>N. \<forall>f\<ge>N. deep_enough f st"
proof -
  assume "fs_ok st"
  then have fin: "finite (length ` dom (node_at st))" by (simp add: fs_ok_def)
  have "deep_enough f st" if "f \<ge> Suc (Max (length ` dom (node_at st)))" for f
    unfolding deep_enough_def
  proof (intro allI impI)
    fix q assume "node_at st q \<noteq> None"
    then have "length q \<in> length ` dom (node_at st)" by blast
    from Max_ge [OF fin this] that show "length q < f" by linarith
  qed
  then show ?thesis by blast
qed

lemma delete_implements:
  assumes env: "writable_env env" and u: "uri_segments env u ss" and ok: "fs_ok st" and deep: "deep_enough f st"
  shows "\<exists>res. delete_entry f env u recursive st = Some res \<and> implements st res (spec_delete ss recursive (contents st))"
proof -
  have cs: "caseSensitive env" using env by (simp add: writable_env_def)
  have oks: "ok_segs ss" by (rule uri_segments_ok [OF u])
  obtain f' where f: "f = Suc f'" using deep fs_ok_root [OF ok] by (cases f) (auto simp: deep_enough_def)
  note start = writable_at_ok [OF env u] path_facts(4) [OF oks] path_facts(5) [OF oks cs] ensureNode_def
  consider (root) "ss = []" | (missing) "ss \<noteq> []" "node_at st ss = None"
    | (full) n where "ss \<noteq> []" "node_at st ss = Some n" "\<not> recursive" "kids st n \<noteq> []"
    | (good) n where "ss \<noteq> []" "node_at st ss = Some n" "recursive \<or> kids st n = []"
    by (cases "node_at st ss") auto
  then show ?thesis
  proof cases
    case root
    with ok show ?thesis using path_facts(4) [of "[]"] by (simp add: f start implements_def spec_delete_def)
  next
    case missing
    with ok show ?thesis by (simp add: f start implements_def spec_delete_def contents_None)
  next
    case full
    have "mn_kind (mf_heap st n) = KindDirectory" using fs_ok_node [OF ok full(2)] full(4) by (auto simp: node_ok_def)
    moreover have "\<exists>s. contents st (ss @ [s]) \<noteq> None" using no_children [OF ok full(2)] full(4) by (simp add: contents_None)
    ultimately show ?thesis using full ok by (simp add: f start implements_def spec_delete_def contents_None Let_def)
  next
    case good
    have "length q < f" if "node_at st (ss @ q) \<noteq> None" for q
      using deep that by (auto simp: deep_enough_def dest: spec [of _ "ss @ q"])
    from delete_subtree [OF env u ok good(2,1) this good(3)]
    obtain st' where st': "delete_entry f env u recursive st = Some (Inr (), st')" "pruned st st' ss" by blast
    have "\<not> (\<not> recursive \<and> (\<exists>s. contents st (ss @ [s]) \<noteq> None))"
      using good(3) no_children [OF ok good(2)] by (auto simp: contents_None)
    with st' good pruned_contents [OF st'(2)] show ?thesis
      by (simp add: implements_def spec_delete_def contents_None pruned_def)
  qed
qed

end
