(* ===== verification/Memory_FS_Rename.thy ===== *)
theory Memory_FS_Rename
  imports Memory_FS_Refinement
begin

text \<open>
  Renaming in the in-memory filesystem. The node is moved first; the walk over its descendants then
  changes their keys one by one, parents before children. In between the tables hold the tree with
  some relative paths \<open>S\<close> moved and the others not.
\<close>

section \<open>Half-moved trees\<close>

definition move_tree :: "(string list \<Rightarrow> int option) \<Rightarrow> string list \<Rightarrow> string list \<Rightarrow> string list set \<Rightarrow> string list \<Rightarrow> int option" where
  "move_tree t from to S ss =
     (if \<exists>q\<in>S. ss = from @ q then None
      else if \<exists>q\<in>S. ss = to @ q then t (from @ drop (length to) ss)
      else t ss)"

definition moved_kids :: "string list \<Rightarrow> string list \<Rightarrow> string list set \<Rightarrow> string list \<Rightarrow> (string, string) jmap \<Rightarrow> (string, string) jmap" where
  "moved_kids from to S q ks = map (\<lambda>(s, k). (s, path_of ((if q @ [s] \<in> S then to else from) @ q @ [s]))) ks"

definition moving :: "memfs \<Rightarrow> memfs \<Rightarrow> string list \<Rightarrow> string list \<Rightarrow> string list set \<Rightarrow> memfs \<Rightarrow> bool" where
  "moving st0 st1 from to S st \<longleftrightarrow>
     mf_nodes st = key_table (move_tree (node_at st0) from to S) \<and> mf_nextId st = mf_nextId st0
     \<and> (\<forall>n. (\<forall>q. node_at st0 (from @ q) \<noteq> Some n) \<longrightarrow> mf_heap st n = mf_heap st1 n \<and> mf_idToPath st n = mf_idToPath st1 n)
     \<and> (\<forall>q n. node_at st0 (from @ q) = Some n \<longrightarrow>
          mf_heap st n = (mf_heap st1 n)\<lparr>mn_children := moved_kids from to S q (kids st0 n)\<rparr>
          \<and> mf_idToPath st n = Some (path_of ((if q \<in> S then to else from) @ q)))"

text \<open>The parts of a rename that are fixed while the walk runs.\<close>

definition rename_setup :: "memfs \<Rightarrow> memfs \<Rightarrow> string list \<Rightarrow> string list \<Rightarrow> bool" where
  "rename_setup st0 st1 from to \<longleftrightarrow> fs_ok st0 \<and> parallel from to \<and> ok_segs from \<and> ok_segs to
     \<and> (\<forall>q n. node_at st0 (from @ q) = Some n \<longrightarrow> q \<noteq> [] \<longrightarrow> mf_heap st1 n = mf_heap st0 n)
     \<and> (\<forall>n. mn_kind (mf_heap st1 n) = mn_kind (mf_heap st0 n) \<and> mn_id (mf_heap st1 n) = mn_id (mf_heap st0 n))
     \<and> (\<forall>q. node_at st0 (from @ q) \<noteq> None \<longrightarrow> ''.'' \<notin> set q \<and> ''..'' \<notin> set q)"

lemma parallel_append_neq: "parallel F G \<Longrightarrow> F @ a \<noteq> G @ b"
  by (metis parallelE prefix_append prefix_same_cases prefixI)

lemma move_tree_insert:
  assumes "parallel F G" "q \<notin> S"
  shows "(move_tree t F G S)(F @ q := None, G @ q := t (F @ q)) = move_tree t F G (insert q S)"
proof (rule ext)
  fix ss
  show "((move_tree t F G S)(F @ q := None, G @ q := t (F @ q))) ss = move_tree t F G (insert q S) ss"
    using parallel_append_neq [OF assms(1)] parallel_append_neq [OF assms(1), THEN not_sym]
    by (auto simp: move_tree_def)
qed

lemma join_plain:
  assumes "ok_segs (ss @ [s])" "s \<noteq> ''.''" "s \<noteq> ''..''"
  shows "joinUriPath (path_of ss) s = Some (path_of (ss @ [s]))"
proof -
  have s: "s \<noteq> []" "slash \<notin> set s" "backslash \<notin> set s" using assms(1) by (auto simp: seg_ok_def)
  then have "dropWhile (\<lambda>c. c = slash) s = s" by (cases s) auto
  with s assms show ?thesis
    by (simp add: joinUriPath_def Let_def posix_slashes_id path_facts(1,4) child_path_of [unfolded child_path_def, symmetric])
qed

lemma moved_kids_insert:
  assumes "jm_wf ks" "s \<in> fst ` set ks"
  shows "jm_set s (path_of (G @ q @ [s])) (moved_kids F G S q ks) = moved_kids F G (insert (q @ [s]) S) q ks"
  using assms
proof (induction ks)
  case (Cons x ks)
  obtain a k where x: "x = (a, k)" by (cases x)
  show ?case
  proof (cases "a = s")
    case True
    with Cons.prems x have "s \<notin> fst ` set ks" by (simp add: jm_wf_def)
    then have "moved_kids F G S q ks = moved_kids F G (insert (q @ [s]) S) q ks"
      by (force simp: moved_kids_def)
    with True x show ?thesis by (simp add: moved_kids_def)
  next
    case False
    with Cons x have "jm_set s (path_of (G @ q @ [s])) (moved_kids F G S q ks) = moved_kids F G (insert (q @ [s]) S) q ks"
      by (simp add: jm_wf_def)
    with False x show ?thesis by (simp add: moved_kids_def)
  qed
qed simp

lemma moved_kids_other: "q' \<noteq> q \<Longrightarrow> moved_kids F G (insert (q @ [s]) S) q' ks = moved_kids F G S q' ks"
  by (simp add: moved_kids_def)

text \<open>Moving one child.\<close>

lemma move_child:
  assumes ren: "rename_setup st0 st1 F G" and mid: "moving st0 st1 F G S st"
    and dir: "node_at st0 (F @ q) = Some d" and c: "node_at st0 (F @ q @ [s]) = Some c" and fresh: "q @ [s] \<notin> S"
  shows "moving st0 st1 F G (insert (q @ [s]) S)
    (set_child d s (path_of (G @ q @ [s])) (st\<lparr>
       mf_nodes := ((mf_nodes st)(path_of (F @ q @ [s]) := None))(path_of (G @ q @ [s]) \<mapsto> c),
       mf_idToPath := (mf_idToPath st)(mn_id (mf_heap st c) \<mapsto> path_of (G @ q @ [s]))\<rparr>))"
    (is "moving _ _ _ _ _ ?st")
proof -
  have ok: "fs_ok st0" and par: "parallel F G" and okG: "ok_segs G" using ren by (simp_all add: rename_setup_def)
  have oks: "ok_segs (F @ q @ [s])" "ok_segs (G @ q @ [s])" using node_at_ok [OF c] okG by simp_all
  have nodes: "mf_nodes st = key_table (move_tree (node_at st0) F G S)" using mid by (simp add: moving_def)
  have "((mf_nodes st)(path_of (F @ q @ [s]) := None))(path_of (G @ q @ [s]) \<mapsto> c)
      = key_table ((move_tree (node_at st0) F G S)(F @ q @ [s] := None, G @ q @ [s] \<mapsto> c))"
    by (simp add: nodes key_table_update [OF oks(1)] key_table_update [OF oks(2)])
  then have nodes': "mf_nodes ?st = key_table (move_tree (node_at st0) F G (insert (q @ [s]) S))"
    using move_tree_insert [OF par fresh, of "node_at st0"] by (simp add: set_child_def update_node_def c)
  have idc: "mn_id (mf_heap st c) = c"
    using mid c ren fs_ok_node [OF ok c] by (auto simp: moving_def rename_setup_def node_ok_def)
  have inside: "mf_heap st n = (mf_heap st1 n)\<lparr>mn_children := moved_kids F G S r (kids st0 n)\<rparr>
      \<and> mf_idToPath st n = Some (path_of ((if r \<in> S then G else F) @ r))" if "node_at st0 (F @ r) = Some n" for r n
    using mid that by (auto simp: moving_def)
  have uniq: "n = d \<longleftrightarrow> r = q" "n = c \<longleftrightarrow> r = q @ [s]" if "node_at st0 (F @ r) = Some n" for r n
    using fs_ok_inj [OF ok that, of "F @ q"] fs_ok_inj [OF ok that, of "F @ q @ [s]"] dir c that by auto
  have kd: "jm_wf (kids st0 d)" "s \<in> fst ` set (kids st0 d)"
    using fs_ok_node [OF ok dir] fs_ok_child_in [OF ok dir, of s] c by (force simp: node_ok_def)+
  have heap: "mf_heap ?st n = (mf_heap st1 n)\<lparr>mn_children := moved_kids F G (insert (q @ [s]) S) r (kids st0 n)\<rparr>
      \<and> mf_idToPath ?st n = Some (path_of ((if r \<in> insert (q @ [s]) S then G else F) @ r))" if r: "node_at st0 (F @ r) = Some n" for r n
    using inside [OF r] uniq [OF r] moved_kids_insert [OF kd, of G q F S] idc moved_kids_other [of r q F G s S]
    by (cases "r = q") (auto simp: set_child_def update_node_def)
  have outside: "mf_heap ?st n = mf_heap st1 n \<and> mf_idToPath ?st n = mf_idToPath st1 n"
    if "\<forall>r. node_at st0 (F @ r) \<noteq> Some n" for n
  proof -
    have "n \<noteq> d" "n \<noteq> c" using that dir c by auto
    with mid that idc show ?thesis by (simp add: moving_def set_child_def update_node_def)
  qed
  have "mf_nextId ?st = mf_nextId st0" using mid by (simp add: moving_def set_child_def update_node_def)
  with nodes' heap outside show ?thesis unfolding moving_def by blast
qed

section \<open>The walk\<close>

definition below :: "memfs \<Rightarrow> string list \<Rightarrow> string list \<Rightarrow> string list set" where
  "below st0 F q = {q @ r |r. r \<noteq> [] \<and> node_at st0 (F @ q @ r) \<noteq> None}"

lemma walk_children_moves:
  assumes rec: "\<And>S st s c. moving st0 st1 F G S st \<Longrightarrow> s \<in> set names \<Longrightarrow> node_at st0 (F @ q @ [s]) = Some c \<Longrightarrow>
      is_dir st0 c \<Longrightarrow> q @ [s] \<in> S \<Longrightarrow> S \<inter> below st0 F (q @ [s]) = {} \<Longrightarrow>
      \<exists>st'. rec (path_of (G @ q @ [s])) c st = Some (Inr (), st') \<and> moving st0 st1 F G (S \<union> below st0 F (q @ [s])) st'"
    and cs: "caseSensitive env" and ren: "rename_setup st0 st1 F G" and mid: "moving st0 st1 F G S st"
    and dir: "node_at st0 (F @ q) = Some d" and names: "\<forall>s\<in>set names. node_at st0 (F @ q @ [s]) \<noteq> None" "distinct names"
    and fresh: "\<forall>s\<in>set names. S \<inter> {q @ s # r |r. node_at st0 (F @ q @ s # r) \<noteq> None} = {}"
  shows "\<exists>st'. walk_children rec env (path_of (G @ q)) d (map (\<lambda>s. (s, path_of (F @ q @ [s]))) names) st = Some (Inr (), st')
    \<and> moving st0 st1 F G (S \<union> {q @ s # r |s r. s \<in> set names \<and> node_at st0 (F @ q @ s # r) \<noteq> None}) st'"
  using rec mid names fresh
proof (induction names arbitrary: S st)
  case Nil
  then show ?case by simp
next
  case (Cons s names)
  have ok: "fs_ok st0" and par: "parallel F G" and okG: "ok_segs G" using ren by (simp_all add: rename_setup_def)
  from Cons.prems(3) obtain c where c: "node_at st0 (F @ q @ [s]) = Some c" by auto
  have oks: "ok_segs (F @ q @ [s])" "ok_segs ((G @ q) @ [s])" using node_at_ok [OF c] okG by simp_all
  have plain: "s \<noteq> ''.''" "s \<noteq> ''..''" using ren c by (auto simp: rename_setup_def dest: spec [of _ "q @ [s]"])
  have notS: "q @ [s] \<notin> S" "S \<inter> {q @ s # r |r. node_at st0 (F @ q @ s # r) \<noteq> None} = {}"
    using Cons.prems(5) c by auto
  have key: "mf_nodes st (path_of (F @ q @ [s])) = Some c"
  proof -
    have "mf_nodes st (path_of (F @ q @ [s])) = move_tree (node_at st0) F G S (F @ q @ [s])"
      using Cons.prems(2) by (simp add: moving_def key_table_path_of [OF oks(1)])
    then show ?thesis using notS(1) c parallel_append_neq [OF par, of "q @ [s]"] by (auto simp: move_tree_def)
  qed
  have heapc: "mf_heap st c = (mf_heap st0 c)\<lparr>mn_children := moved_kids F G S (q @ [s]) (kids st0 c)\<rparr>"
    using Cons.prems(2) ren c unfolding moving_def rename_setup_def by force
  have name: "mn_name (mf_heap st c) = s" using fs_ok_node [OF ok c] heapc by (simp add: node_ok_def)
  have join: "joinUriPath (path_of (G @ q)) s = Some (path_of (G @ q @ [s]))"
    using join_plain [OF oks(2) plain] by simp
  have expected: "pathKey env (path_of (G @ q @ [s])) = path_of (G @ q @ [s])"
    using path_facts(6) [of "G @ q @ [s]" env] cs oks(2) by simp
  have keys: "path_of (F @ q @ [s]) \<noteq> path_of (G @ q @ [s])"
    using path_of_inj [of "F @ q @ [s]" "G @ q @ [s]"] oks parallel_append_neq [OF par, of "q @ [s]" "q @ [s]"] by auto
  define st2 where "st2 = set_child d s (path_of (G @ q @ [s])) (st\<lparr>
       mf_nodes := ((mf_nodes st)(path_of (F @ q @ [s]) := None))(path_of (G @ q @ [s]) \<mapsto> c),
       mf_idToPath := (mf_idToPath st)(mn_id (mf_heap st c) \<mapsto> path_of (G @ q @ [s]))\<rparr>)"
  have mid2: "moving st0 st1 F G (insert (q @ [s]) S) st2"
    unfolding st2_def by (rule move_child [OF ren Cons.prems(2) dir c notS(1)])
  have dc: "d \<noteq> c" using fs_ok_inj [OF ok dir, of "F @ q @ [s]"] c by auto
  then have kindc: "mn_kind (mf_heap st2 c) = mn_kind (mf_heap st0 c)"
    using heapc by (simp add: st2_def set_child_def update_node_def)
  define S2 where "S2 = S \<union> {q @ s # r |r. node_at st0 (F @ q @ s # r) \<noteq> None}"
  have "\<exists>st3. (if is_dir st2 c then rec (path_of (G @ q @ [s])) c st2 else Some (Inr (), st2)) = Some (Inr (), st3)
      \<and> moving st0 st1 F G S2 st3"
  proof (cases "is_dir st0 c")
    case True
    have "S2 = insert (q @ [s]) S \<union> below st0 F (q @ [s])"
      using c by (auto simp: S2_def below_def)
    moreover have "insert (q @ [s]) S \<inter> below st0 F (q @ [s]) = {}"
      using notS(2) by (auto simp: below_def)
    ultimately show ?thesis using Cons.prems(1) [OF mid2 _ c True] True kindc by auto
  next
    case False
    have "node_at st0 (F @ q @ s # r) = None" if "r \<noteq> []" for r
      using fs_ok_file_leaf [OF ok c False that] by simp
    then have "S2 = insert (q @ [s]) S" using c by (force simp: S2_def)
    with mid2 False kindc show ?thesis by simp
  qed
  then obtain st3 where st3: "(if is_dir st2 c then rec (path_of (G @ q @ [s])) c st2 else Some (Inr (), st2)) = Some (Inr (), st3)"
    "moving st0 st1 F G S2 st3" by blast
  have fresh3: "\<forall>x\<in>set names. S2 \<inter> {q @ x # r |r. node_at st0 (F @ q @ x # r) \<noteq> None} = {}"
    using Cons.prems(4,5) by (auto simp: S2_def disjoint_iff)
  have rec3: "\<exists>st'. rec (path_of (G @ q @ [x])) c st = Some (Inr (), st') \<and> moving st0 st1 F G (S \<union> below st0 F (q @ [x])) st'"
    if "moving st0 st1 F G S st" "x \<in> set names" "node_at st0 (F @ q @ [x]) = Some c" "is_dir st0 c" "q @ [x] \<in> S"
      "S \<inter> below st0 F (q @ [x]) = {}" for S st x c
    using Cons.prems(1) [OF that(1) _ that(3-6)] that(2) by simp
  have names3: "\<forall>s\<in>set names. node_at st0 (F @ q @ [s]) \<noteq> None" "distinct names" using Cons.prems(3,4) by simp_all
  obtain st' where st': "walk_children rec env (path_of (G @ q)) d (map (\<lambda>s. (s, path_of (F @ q @ [s]))) names) st3 = Some (Inr (), st')"
    "moving st0 st1 F G (S2 \<union> {q @ s # r |s r. s \<in> set names \<and> node_at st0 (F @ q @ s # r) \<noteq> None}) st'"
    using Cons.IH [OF rec3 st3(2) names3 fresh3] by blast
  have "S2 \<union> {q @ s # r |s r. s \<in> set names \<and> node_at st0 (F @ q @ s # r) \<noteq> None}
      = S \<union> {q @ x # r |x r. x \<in> set (s # names) \<and> node_at st0 (F @ q @ x # r) \<noteq> None}"
    by (auto simp: S2_def)
  with st' st3(1) show ?case
    by (cases "is_dir st2 c") (simp_all add: key name join expected keys Let_def flip: st2_def)
qed

lemma moved_kids_none:
  assumes "\<And>s k. (s, k) \<in> set ks \<Longrightarrow> q @ [s] \<notin> S"
  shows "moved_kids F G S q ks = map (\<lambda>s. (s, path_of (F @ q @ [s]))) (map fst ks)"
  using assms by (auto simp: moved_kids_def)

lemma walk_moves:
  assumes cs: "caseSensitive env" and ren: "rename_setup st0 st1 F G"
  shows "moving st0 st1 F G S st \<Longrightarrow> node_at st0 (F @ q) = Some n \<Longrightarrow> q \<in> S \<Longrightarrow> S \<inter> below st0 F q = {} \<Longrightarrow>
    (\<And>r. node_at st0 (F @ q @ r) \<noteq> None \<Longrightarrow> length r < f) \<Longrightarrow>
    \<exists>st'. walk f env (path_of (G @ q)) n st = Some (Inr (), st') \<and> moving st0 st1 F G (S \<union> below st0 F q) st'"
proof (induction f arbitrary: S st q n)
  case 0
  from "0.prems"(5) [of "[]"] "0.prems"(2) show ?case by simp
next
  case (Suc f)
  have ok: "fs_ok st0" using ren by (simp add: rename_setup_def)
  note mid = Suc.prems(1) and n = Suc.prems(2)
  define names where "names = map fst (kids st0 n)"
  have there: "\<forall>s\<in>set names. node_at st0 (F @ q @ [s]) \<noteq> None"
    using fs_ok_child(2) [OF ok n] by (auto simp: names_def)
  have dist: "distinct names" using fs_ok_node [OF ok n] by (simp add: names_def node_ok_def jm_wf_def)
  have clear: "q @ s # r \<notin> S" if "node_at st0 (F @ q @ s # r) \<noteq> None" for s r
    using Suc.prems(4) that by (auto simp: below_def)
  have "kids st n = moved_kids F G S q (kids st0 n)"
    using mid n by (auto simp: moving_def)
  also have "\<dots> = map (\<lambda>s. (s, path_of (F @ q @ [s]))) names"
    unfolding names_def using fs_ok_child(2) [OF ok n] clear by (intro moved_kids_none) simp
  finally have kids: "kids st n = map (\<lambda>s. (s, path_of (F @ q @ [s]))) names" .
  have fresh: "\<forall>s\<in>set names. S \<inter> {q @ s # r |r. node_at st0 (F @ q @ s # r) \<noteq> None} = {}"
    using clear by auto
  have rec: "\<exists>st'. walk f env (path_of (G @ q @ [s])) c st = Some (Inr (), st') \<and> moving st0 st1 F G (S \<union> below st0 F (q @ [s])) st'"
    if "moving st0 st1 F G S st" "s \<in> set names" "node_at st0 (F @ q @ [s]) = Some c" "is_dir st0 c" "q @ [s] \<in> S"
      "S \<inter> below st0 F (q @ [s]) = {}" for S st s c
  proof -
    have "length r < f" if "node_at st0 (F @ (q @ [s]) @ r) \<noteq> None" for r
      using Suc.prems(5) [of "s # r"] that by simp
    from Suc.IH [OF that(1,3,5,6) this] show ?thesis by simp
  qed
  have "\<exists>st'. walk_children (\<lambda>p d st. walk f env p d st) env (path_of (G @ q)) n (map (\<lambda>s. (s, path_of (F @ q @ [s]))) names) st = Some (Inr (), st')
    \<and> moving st0 st1 F G (S \<union> {q @ s # r |s r. s \<in> set names \<and> node_at st0 (F @ q @ s # r) \<noteq> None}) st'"
    using walk_children_moves [OF rec cs ren mid n there dist fresh] .
  moreover have "{q @ s # r |s r. s \<in> set names \<and> node_at st0 (F @ q @ s # r) \<noteq> None} = below st0 F q"
  proof -
    have "s \<in> set names" if "node_at st0 (F @ q @ s # r) \<noteq> None" for s r
    proof -
      have "node_at st0 ((F @ q @ [s]) @ r) \<noteq> None" using that by simp
      then have "node_at st0 ((F @ q) @ [s]) \<noteq> None" using fs_ok_prefix [OF ok] by fastforce
      then show ?thesis using fs_ok_child_in [OF ok n, of s] by (force simp: names_def)
    qed
    moreover have "\<exists>s r'. q @ r = q @ s # r' \<and> node_at st0 (F @ q @ s # r') \<noteq> None"
      if "r \<noteq> []" "node_at st0 (F @ q @ r) \<noteq> None" for r
      using that by (cases r) auto
    ultimately show ?thesis by (auto simp: below_def) blast+
  qed
  ultimately show ?case by (simp add: kids)
qed

section \<open>The move\<close>

text \<open>The listing of a node outside the moved subtree.\<close>

definition relisted :: "int \<Rightarrow> string \<Rightarrow> int \<Rightarrow> string list \<Rightarrow> int \<Rightarrow> (string, string) jmap \<Rightarrow> (string, string) jmap" where
  "relisted oldParent a newParent to m ks =
     (let ks = (if m = oldParent then jm_delete a ks else ks)
      in if m = newParent then jm_set (last to) (path_of to) ks else ks)"

lemma relink_fields:
  assumes cs: "caseSensitive env" and ok: "fs_ok st0" and n: "node_at st0 (fp @ [a]) = Some n" and op: "node_at st0 fp = Some op"
    and np: "node_at st0 gp = Some np" and ren: "\<not> prefix (fp @ [a]) (gp @ [b])" and b: "seg_ok b"
  defines "F \<equiv> fp @ [a]" and "G \<equiv> gp @ [b]"
  defines "st1 \<equiv> relink env (path_of F) (path_of G) n np st0"
  shows "mf_nextId st1 = mf_nextId st0" "mf_nodes st1 = ((mf_nodes st0)(path_of F := None))(path_of G \<mapsto> n)"
    "mf_idToPath st1 = (mf_idToPath st0)(n \<mapsto> path_of G)"
    "mf_heap st1 n = (mf_heap st0 n)\<lparr>mn_name := b, mn_parentId := Some np, mn_mtimeMs := me_now env (mf_reads st0)\<rparr>"
    "m \<noteq> n \<Longrightarrow> kids st1 m = relisted op a np G m (kids st0 m)"
    "m \<noteq> n \<Longrightarrow> mn_name (mf_heap st1 m) = mn_name (mf_heap st0 m) \<and> mn_parentId (mf_heap st1 m) = mn_parentId (mf_heap st0 m)"
    "mn_kind (mf_heap st1 m) = mn_kind (mf_heap st0 m) \<and> mn_id (mf_heap st1 m) = mn_id (mf_heap st0 m)
       \<and> mn_content (mf_heap st1 m) = mn_content (mf_heap st0 m)"
    "m \<noteq> op \<Longrightarrow> m \<noteq> np \<Longrightarrow> m \<noteq> n \<Longrightarrow> mf_heap st1 m = mf_heap st0 m"
proof -
  have oks: "ok_segs F" "ok_segs G" "ok_segs fp" "ok_segs gp"
    using node_at_ok [OF n] node_at_ok [OF np] b by (simp_all add: F_def G_def)
  have nop: "n \<noteq> op" using fs_ok_inj [OF ok n, of fp] op by auto
  have nnp: "n \<noteq> np" using fs_ok_inj [OF ok n, of gp] np ren by auto
  have nm: "mn_name (mf_heap st0 n) = a" "mn_id (mf_heap st0 n) = n" using fs_ok_node [OF ok n] by (simp_all add: node_ok_def)
  have npid: "mn_id (mf_heap st0 np) = np" using fs_ok_node [OF ok np] by (simp add: node_ok_def)
  have pf: "dirnameUriPath (path_of F) = path_of fp" "basenameUriPath (path_of G) = b" "pathKey env (path_of F) = path_of F"
    "pathKey env (path_of G) = path_of G" "getNode env (path_of fp) st0 = Some op"
    using path_facts(2) [OF oks(1)] path_facts(3) [OF oks(2)] path_facts(6) [OF oks(1) cs] path_facts(6) [OF oks(2) cs]
      path_facts(5) [OF oks(3) cs] op by (simp_all add: F_def G_def)
  have lastG: "last G = b" by (simp add: G_def)
  note unfold = st1_def relink_def pf nm npid now_def delete_child_def set_child_def update_node_def child_name_id [OF cs] Let_def
  show "mf_nextId st1 = mf_nextId st0" by (simp add: unfold)
  show "mf_nodes st1 = ((mf_nodes st0)(path_of F := None))(path_of G \<mapsto> n)" by (simp add: unfold)
  show "mf_idToPath st1 = (mf_idToPath st0)(n \<mapsto> path_of G)" using nop nnp by (simp add: unfold)
  show "mf_heap st1 n = (mf_heap st0 n)\<lparr>mn_name := b, mn_parentId := Some np, mn_mtimeMs := me_now env (mf_reads st0)\<rparr>"
    using nop nnp npid by (cases "np = op") (simp_all add: unfold)
  show "m \<noteq> n \<Longrightarrow> kids st1 m = relisted op a np G m (kids st0 m)"
    using nnp lastG by (simp add: unfold relisted_def)
  show "m \<noteq> n \<Longrightarrow> mn_name (mf_heap st1 m) = mn_name (mf_heap st0 m) \<and> mn_parentId (mf_heap st1 m) = mn_parentId (mf_heap st0 m)"
    using nnp by (simp add: unfold)
  show "mn_kind (mf_heap st1 m) = mn_kind (mf_heap st0 m) \<and> mn_id (mf_heap st1 m) = mn_id (mf_heap st0 m)
       \<and> mn_content (mf_heap st1 m) = mn_content (mf_heap st0 m)"
    by (simp add: unfold)
  show "m \<noteq> op \<Longrightarrow> m \<noteq> np \<Longrightarrow> m \<noteq> n \<Longrightarrow> mf_heap st1 m = mf_heap st0 m" by (simp add: unfold)
qed

text \<open>The tree after the walk.\<close>

definition moved_tree :: "(string list \<Rightarrow> 'a option) \<Rightarrow> string list \<Rightarrow> string list \<Rightarrow> string list \<Rightarrow> 'a option" where
  "moved_tree t F G ss = (if prefix G ss then t (F @ drop (length G) ss) else if prefix F ss then None else t ss)"

lemma move_tree_all:
  assumes "parallel F G" "\<And>q. t (G @ q) = None"
  shows "move_tree t F G {q. t (F @ q) \<noteq> None} = moved_tree t F G"
proof (rule ext)
  fix ss
  consider (new) q where "ss = G @ q" | (old) q where "ss = F @ q" | (other) "\<not> prefix F ss" "\<not> prefix G ss"
    by (auto simp: prefix_def)
  then show "move_tree t F G {q. t (F @ q) \<noteq> None} ss = moved_tree t F G ss"
  proof cases
    case new
    have "G @ q \<noteq> F @ r" for r using parallel_append_neq [OF assms(1), of r q] by metis
    with new assms(2) show ?thesis by (auto simp: move_tree_def moved_tree_def)
  next
    case old
    have "\<not> prefix G (F @ q)" using parallel_append_neq [OF assms(1)] by (metis prefixE)
    with old show ?thesis using parallel_append_neq [OF assms(1)] by (auto simp: move_tree_def moved_tree_def)
  next
    case other
    then show ?thesis by (auto simp: move_tree_def moved_tree_def)
  qed
qed

lemma relisted_wf: "jm_wf ks \<Longrightarrow> jm_wf (relisted op a np G m ks)"
  by (simp add: relisted_def Let_def)

lemma set_jm_set: "jm_wf ks \<Longrightarrow> set (jm_set s v ks) = insert (s, v) {(x, k) \<in> set ks. x \<noteq> s}"
  by (induction ks) (auto simp: jm_wf_def rev_image_eqI)

lemma set_relisted:
  "jm_wf ks \<Longrightarrow> (x, k) \<in> set (relisted op a np G m ks) \<longleftrightarrow>
     (m = np \<and> x = last G \<and> k = path_of G) \<or> ((x, k) \<in> set ks \<and> (m = op \<longrightarrow> x \<noteq> a) \<and> (m = np \<longrightarrow> x \<noteq> last G))"
proof -
  assume wf: "jm_wf ks"
  have "set (jm_delete a ks) = {(x, k) \<in> set ks. x \<noteq> a}" by (auto simp: AList.delete_eq)
  with wf show ?thesis using set_jm_set [OF jm_wf_delete [OF wf]] set_jm_set [OF wf]
    by (auto simp: relisted_def Let_def)
qed

lemma moved_ok:
  assumes ok: "fs_ok st0" and n: "node_at st0 F = Some n" and F: "F = fp @ [a]" and op: "node_at st0 fp = Some op"
    and G: "G = gp @ [b]" "ok_segs G" and np: "node_at st0 gp = Some np" "is_dir st0 np" and free: "node_at st0 G = None" and par: "parallel F G"
    and st1: "mf_idToPath st1 = (mf_idToPath st0)(n \<mapsto> path_of G)"
      "mn_name (mf_heap st1 n) = b" "mn_parentId (mf_heap st1 n) = Some np"
      "\<And>m. m \<noteq> n \<Longrightarrow> kids st1 m = relisted op a np G m (kids st0 m)"
      "\<And>m. m \<noteq> n \<Longrightarrow> mn_name (mf_heap st1 m) = mn_name (mf_heap st0 m) \<and> mn_parentId (mf_heap st1 m) = mn_parentId (mf_heap st0 m)"
      "\<And>m. mn_kind (mf_heap st1 m) = mn_kind (mf_heap st0 m) \<and> mn_id (mf_heap st1 m) = mn_id (mf_heap st0 m)
         \<and> mn_content (mf_heap st1 m) = mn_content (mf_heap st0 m)"
    and mid: "moving st0 st1 F G {q. node_at st0 (F @ q) \<noteq> None} st'"
  shows "fs_ok st'" "contents st' = moved_tree (contents st0) F G"
proof -
  have noG: "node_at st0 (G @ q) = None" for q using fs_ok_prefix [OF ok, of G q] free by blast
  have nodes: "mf_nodes st' = key_table (moved_tree (node_at st0) F G)"
    using mid move_tree_all [of F G "node_at st0", OF par noG] by (simp add: moving_def)
  have at: "node_at st' ss = moved_tree (node_at st0) F G ss" for ss
  proof -
    have "ok_segs ss" if "moved_tree (node_at st0) F G ss \<noteq> None"
      using that node_at_ok G(2) by (fastforce simp: moved_tree_def prefix_def split: if_splits)
    then show ?thesis using node_at_key_table [OF nodes, of ss]
      by (cases "moved_tree (node_at st0) F G ss") (auto split: if_splits)
  qed
  have inside: "node_at st' (G @ q) = node_at st0 (F @ q)" for q by (simp add: at moved_tree_def)
  have outside: "node_at st' ss = node_at st0 ss" if "\<not> prefix F ss" "\<not> prefix G ss" for ss using that by (simp add: at moved_tree_def)
  have gone: "node_at st' (F @ q) = None" for q
  proof -
    have "\<not> prefix G (F @ q)" using parallel_append_neq [OF par] by (metis prefixE)
    then show ?thesis by (simp add: at moved_tree_def)
  qed
  have region: "(\<exists>q. ss = G @ q \<and> node_at st0 (F @ q) = Some m) \<or> (\<not> prefix F ss \<and> \<not> prefix G ss \<and> node_at st0 ss = Some m)"
    if "node_at st' ss = Some m" for ss m
    using that by (auto simp: at moved_tree_def prefix_def split: if_splits)
  have hin: "mf_heap st' m = (mf_heap st1 m)\<lparr>mn_children := map (\<lambda>(s, k). (s, path_of (G @ q @ [s]))) (kids st0 m)\<rparr>"
    "mf_idToPath st' m = Some (path_of (G @ q))" if m: "node_at st0 (F @ q) = Some m" for q m
  proof -
    have "node_at st0 (F @ q @ [s]) \<noteq> None" if "(s, k) \<in> set (kids st0 m)" for s k
      using fs_ok_child(2) [OF ok m that] by simp
    then have "moved_kids F G {q. node_at st0 (F @ q) \<noteq> None} q (kids st0 m) = map (\<lambda>(s, k). (s, path_of (G @ q @ [s]))) (kids st0 m)"
      by (auto simp: moved_kids_def)
    moreover have "mf_heap st' m = (mf_heap st1 m)\<lparr>mn_children := moved_kids F G {q. node_at st0 (F @ q) \<noteq> None} q (kids st0 m)\<rparr>"
      "mf_idToPath st' m = Some (path_of (G @ q))"
      using mid m by (simp_all add: moving_def)
    ultimately show "mf_heap st' m = (mf_heap st1 m)\<lparr>mn_children := map (\<lambda>(s, k). (s, path_of (G @ q @ [s]))) (kids st0 m)\<rparr>"
      "mf_idToPath st' m = Some (path_of (G @ q))" by simp_all
  qed
  have notin: "node_at st0 (F @ q) \<noteq> Some m" if "node_at st0 ss = Some m" "\<not> prefix F ss" for ss m q
    using fs_ok_inj [OF ok that(1), of "F @ q"] that(2) by auto
  have hout: "mf_heap st' m = mf_heap st1 m" "mf_idToPath st' m = mf_idToPath st1 m" "m \<noteq> n" if "node_at st0 ss = Some m" "\<not> prefix F ss" for ss m
    using mid notin [OF that] notin [OF that, of "[]"] n by (auto simp: moving_def)
  have kindkeep: "mn_kind (mf_heap st' m) = mn_kind (mf_heap st0 m) \<and> mn_content (mf_heap st' m) = mn_content (mf_heap st0 m)
      \<and> mn_id (mf_heap st' m) = mn_id (mf_heap st0 m)" for m
  proof (cases "\<exists>q. node_at st0 (F @ q) = Some m")
    case True
    then show ?thesis using hin(1) st1(6) by auto
  next
    case False
    then have "mf_heap st' m = mf_heap st1 m" using mid by (auto simp: moving_def)
    then show ?thesis using st1(6) by simp
  qed
  have fpout: "\<not> prefix F fp" "\<not> prefix F gp" "\<not> prefix G gp"
    using par by (auto simp: F G dest: prefix_length_le prefix_prefix [of F gp "[b]"])
  show "contents st' = moved_tree (contents st0) F G"
    by (rule ext) (simp add: contents_def at moved_tree_def kindkeep stored_node_def cong: if_cong)
  have fin: "finite (dom (node_at st'))"
  proof (rule finite_subset)
    show "dom (node_at st') \<subseteq> dom (node_at st0) \<union> (\<lambda>ss. G @ drop (length F) ss) ` dom (node_at st0)"
    proof
      fix ss assume "ss \<in> dom (node_at st')"
      then obtain m where "node_at st' ss = Some m" by blast
      from region [OF this] consider q where "ss = G @ drop (length F) (F @ q)" "F @ q \<in> dom (node_at st0)" | "ss \<in> dom (node_at st0)"
        by (auto simp: dom_def)
      then show "ss \<in> dom (node_at st0) \<union> (\<lambda>ss. G @ drop (length F) ss) ` dom (node_at st0)"
        by cases (blast intro: imageI)+
    qed
    show "finite (dom (node_at st0) \<union> (\<lambda>ss. G @ drop (length F) ss) ` dom (node_at st0))" using ok by (simp add: fs_ok_def)
  qed
  have root: "\<exists>r. node_at st' [] = Some r \<and> is_dir st' r"
    using fs_ok_root [OF ok] outside [of "[]"] kindkeep F G by auto
  have wf0: "jm_wf (kids st0 m)" if "node_at st0 ss = Some m" for ss m using fs_ok_node [OF ok that] by (simp add: node_ok_def)
  have node: "node_ok st' ss m" if m: "node_at st' ss = Some m" for ss m
    using region [OF m]
  proof (elim disjE exE conjE)
    fix q assume q: "ss = G @ q" "node_at st0 (F @ q) = Some m"
    have name: "mn_name (mf_heap st1 m) = (if q = [] then b else mn_name (mf_heap st0 m))"
    proof (cases "q = []")
      case True
      with q n st1(2) show ?thesis by simp
    next
      case False
      then have "m \<noteq> n" using fs_ok_inj [OF ok q(2), of F] n by auto
      with False st1(5) show ?thesis by simp
    qed
    have "jm_wf (kids st' m)" using wf0 [OF q(2)] by (simp add: hin [OF q(2)] jm_wf_def case_prod_beta comp_def)
    then show ?thesis using fs_ok_node [OF ok q(2)] kindkeep [of m] name hin [OF q(2)] G mid q(1)
      by (auto simp: node_ok_def moving_def)
  next
    assume s: "\<not> prefix F ss" "node_at st0 ss = Some m"
    have kids: "kids st' m = relisted op a np G m (kids st0 m)" using hout [OF s(2,1)] st1(4) by simp
    have "relisted op a np G m (kids st0 m) = []" if "mn_kind (mf_heap st0 m) = KindFile"
      using that np(2) fs_ok_node [OF ok s(2)] by (auto simp: relisted_def node_ok_def)
    with kids have "mn_kind (mf_heap st' m) = KindFile \<longrightarrow> kids st' m = []" using kindkeep [of m] by simp
    moreover have "jm_wf (kids st' m)" using kids relisted_wf [OF wf0 [OF s(2)]] by simp
    moreover have "mf_nextId st' = mf_nextId st0" using mid by (simp add: moving_def)
    ultimately show ?thesis
      using fs_ok_node [OF ok s(2)] kindkeep [of m] hout [OF s(2,1)] st1(1) st1(5) [of m] by (simp add: node_ok_def)
  qed
  have parent: "\<exists>p. node_at st' ss = Some p \<and> is_dir st' p \<and> mn_parentId (mf_heap st' m) = Some p
      \<and> (x, path_of (ss @ [x])) \<in> set (kids st' p)" if m: "node_at st' (ss @ [x]) = Some m" for ss x m
    using region [OF m]
  proof (elim disjE exE conjE)
    fix q assume q: "ss @ [x] = G @ q" "node_at st0 (F @ q) = Some m"
    show ?thesis
    proof (cases q rule: rev_cases)
      case Nil
      then have "ss = gp" "x = b" "m = n" using q n G by simp_all
      moreover have "kids st' np = relisted op a np G np (kids st0 np)"
        using hout [OF np(1) fpout(2)] st1(4) by simp
      ultimately show ?thesis
        using outside [OF fpout(2,3)] np kindkeep hin(1) [OF q(2)] st1(3) wf0 [OF np(1)] by (simp add: set_relisted G)
    next
      case (snoc q' y)
      with q have ss: "ss = G @ q'" "y = x" by simp_all
      with q(2) snoc have m0: "node_at st0 ((F @ q') @ [x]) = Some m" by simp
      from fs_ok_parent [OF ok m0] obtain p where p: "node_at st0 (F @ q') = Some p" "is_dir st0 p"
        "mn_parentId (mf_heap st0 m) = Some p" "(x, path_of ((F @ q') @ [x])) \<in> set (kids st0 p)" by metis
      have "m \<noteq> n" using fs_ok_inj [OF ok m0, of F] n by auto
      then have "mn_parentId (mf_heap st' m) = Some p" using p(3) st1(5) hin(1) [OF q(2)] by simp
      moreover have "(x, path_of (ss @ [x])) \<in> set (kids st' p)"
        using p(4) hin(1) [OF p(1)] by (force simp: ss image_iff)
      ultimately show ?thesis using p(1,2) kindkeep inside ss by simp
    qed
  next
    assume s: "\<not> prefix F (ss @ [x])" "\<not> prefix G (ss @ [x])" "node_at st0 (ss @ [x]) = Some m"
    from fs_ok_parent [OF ok s(3)] obtain p where p: "node_at st0 ss = Some p" "is_dir st0 p"
      "mn_parentId (mf_heap st0 m) = Some p" "(x, path_of (ss @ [x])) \<in> set (kids st0 p)" by metis
    have out: "\<not> prefix F ss" "\<not> prefix G ss" using s(1,2) by (auto simp: prefix_def)
    have "p = op \<longrightarrow> x \<noteq> a" using fs_ok_inj [OF ok p(1), of fp] op s(1) F by auto
    moreover have "p = np \<longrightarrow> x \<noteq> last G" using fs_ok_inj [OF ok p(1), of gp] np(1) s(2) G by auto
    ultimately have "(x, path_of (ss @ [x])) \<in> set (kids st' p)"
      using p(4) hout [OF p(1) out(1)] st1(4) [of p] wf0 [OF p(1)] by (simp add: set_relisted)
    moreover have "mn_parentId (mf_heap st' m) = Some p" using p(3) hout [OF s(3,1)] st1(5) by simp
    ultimately show ?thesis using p(1,2) kindkeep outside [OF out] by simp
  qed
  have child: "k = path_of (ss @ [x]) \<and> node_at st' (ss @ [x]) \<noteq> None"
    if m: "node_at st' ss = Some m" and xk: "(x, k) \<in> set (kids st' m)" for ss m x k
    using region [OF m]
  proof (elim disjE exE conjE)
    fix q assume q: "ss = G @ q" "node_at st0 (F @ q) = Some m"
    from xk obtain k' where "(x, k') \<in> set (kids st0 m)" "k = path_of (G @ q @ [x])" by (auto simp: hin(1) [OF q(2)])
    with fs_ok_child(2) [OF ok q(2)] inside [of "q @ [x]"] show ?thesis by (simp add: q)
  next
    assume s: "\<not> prefix F ss" "\<not> prefix G ss" "node_at st0 ss = Some m"
    from xk have "(x, k) \<in> set (relisted op a np G m (kids st0 m))" using hout [OF s(3,1)] st1(4) by simp
    then consider (placed) "m = np" "x = b" "k = path_of G"
      | (kept) "(x, k) \<in> set (kids st0 m)" "m = op \<longrightarrow> x \<noteq> a" "m = np \<longrightarrow> x \<noteq> b"
      using set_relisted [OF wf0 [OF s(3)]] G by auto
    then show ?thesis
    proof cases
      case placed
      then have "ss = gp" using fs_ok_inj [OF ok s(3), of gp] np by simp
      with placed show ?thesis using inside [of "[]"] n G by simp
    next
      case kept
      note c = fs_ok_child [OF ok s(3) kept(1)]
      have "ss @ [x] \<noteq> F" using fs_ok_inj [OF ok s(3), of fp] op kept(2) F s(3) by auto
      moreover have "ss @ [x] \<noteq> G" using np kept(3) G s(3) by auto
      ultimately have "\<not> prefix F (ss @ [x])" "\<not> prefix G (ss @ [x])" using s(1,2) by (auto simp: prefix_snoc)
      with outside c show ?thesis by simp
    qed
  qed
  have nodes': "mf_nodes st' = key_table (node_at st')" using nodes at by (simp add: fun_eq_iff key_table_def)
  show "fs_ok st'"
    unfolding fs_ok_def using nodes' fin root node parent child by blast
qed

section \<open>Paths below a path\<close>

lemma segs_render_slash: "ok_segs aa \<Longrightarrow> segs (render aa @ slash # rest) = aa @ segs rest"
proof (induction aa)
  case (Cons a aa)
  then have a: "a \<noteq> []" "slash \<notin> set a" by (simp_all add: seg_ok_def)
  show ?case
  proof (cases aa)
    case Nil
    then show ?thesis using segs_word [OF a] by simp
  next
    case (Cons b bb)
    with segs_word [OF a, of "b @ render bb @ slash # rest"] Cons.IH Cons.prems show ?thesis by simp
  qed
qed simp

lemma startsWith_prefix:
  assumes "ok_segs ss" "ok_segs aa" "aa \<noteq> []" "ss \<noteq> aa"
  shows "startsWith (path_of ss) (path_of aa @ ''/'') \<longleftrightarrow> prefix aa ss"
proof
  assume "startsWith (path_of ss) (path_of aa @ ''/'')"
  then have "path_of ss = (path_of aa @ ''/'') @ drop (length (path_of aa @ ''/'')) (path_of ss)"
    by (metis append_take_drop_id startsWith_def)
  then obtain rest where "path_of ss = path_of aa @ slash # rest" by simp
  moreover from this have "ss \<noteq> []" using assms(3) by (cases aa) (auto simp: path_of_def)
  ultimately have "render ss = render aa @ slash # rest" using assms(3) by (simp add: path_of_def)
  then have "segs (render ss) = aa @ segs rest" using segs_render_slash [OF assms(2)] by simp
  with segs_render [OF assms(1)] show "prefix aa ss" by (metis prefixI)
next
  assume "prefix aa ss"
  then obtain r where r: "ss = aa @ r" by (rule prefixE)
  with assms obtain x r' where "r = x # r'" by (cases r) auto
  with r assms(3) show "startsWith (path_of ss) (path_of aa @ ''/'')"
    by (simp add: startsWith_def path_of_def)
qed

lemma isPathUnder_prefix: "isPathUnder p a \<longleftrightarrow> prefix (segments a) (segments p)"
proof -
  have ok: "ok_segs (segments p)" "ok_segs (segments a)" by (rule segments_ok)+
  have "startsWith (path_of (segments p)) ''/''"
    by (cases "segments p") (simp_all add: startsWith_def path_of_def)
  then show ?thesis
    using startsWith_prefix [OF ok] path_of_inj [OF ok] path_of_root [OF ok(2)]
    by (auto simp: isPathUnder_def normalize_render Let_def)
qed

section \<open>Renaming\<close>

definition plain_below :: "memfs \<Rightarrow> string list \<Rightarrow> bool" where
  "plain_below st F \<longleftrightarrow> (\<forall>q. node_at st (F @ q) \<noteq> None \<longrightarrow> ''.'' \<notin> set q \<and> ''..'' \<notin> set q)"

lemma rekey_subtree:
  assumes cs: "caseSensitive env" and ok: "fs_ok st0" and n: "node_at st0 F = Some n" and np: "node_at st0 gp = Some np" "is_dir st0 np"
    and F: "F \<noteq> []" and G: "G = gp @ [b]" "ok_segs G" and free: "node_at st0 G = None" and out: "\<not> prefix F G"
    and deep: "deep_enough f st0" and plain: "plain_below st0 F"
  defines "st1 \<equiv> relink env (path_of F) (path_of G) n np st0"
  shows "\<exists>st'. (if is_dir st1 n then rekeyDescendants f env (path_of G) st1 else Some (Inr (), st1)) = Some (Inr (), st')
    \<and> fs_ok st' \<and> contents st' = moved_tree (contents st0) F G"
proof -
  obtain fp a where Fa: "F = fp @ [a]" using F by (cases F rule: rev_cases) auto
  have n': "node_at st0 (fp @ [a]) = Some n" using n Fa by simp
  from fs_ok_parent [OF ok n'] obtain op where op: "node_at st0 fp = Some op" by metis
  have "\<not> prefix G F"
  proof
    assume "prefix G F"
    then obtain r where "F = G @ r" by (rule prefixE)
    with n fs_ok_prefix [OF ok, of G r] free show False by simp
  qed
  with out have par: "parallel F G" by (simp add: parallel_def)
  have oks: "ok_segs F" "ok_segs G" using node_at_ok [OF n] G by simp_all
  have b: "seg_ok b" using G by simp
  have out': "\<not> prefix (fp @ [a]) (gp @ [b])" using out Fa G by simp
  note fields = relink_fields [OF cs ok n' op np(1) out' b, folded Fa G(1), folded st1_def]
  have inner: "mf_heap st1 m = mf_heap st0 m" if m: "node_at st0 (F @ q) = Some m" "q \<noteq> []" for q m
  proof -
    have "m \<noteq> n" using fs_ok_inj [OF ok m(1), of F] n m(2) by auto
    moreover have "m \<noteq> op" using fs_ok_inj [OF ok m(1), of fp] op Fa by auto
    moreover have "m \<noteq> np" using fs_ok_inj [OF ok m(1), of gp] np(1) out G by auto
    ultimately show ?thesis using fields(8) by blast
  qed
  have ren: "rename_setup st0 st1 F G"
    using ok par oks inner fields(7) plain by (auto simp: rename_setup_def plain_below_def)
  have nn: "node_at st0 (F @ []) = Some n" using n by simp
  have kidsn: "kids st1 n = kids st0 n" by (simp add: fields(4))
  have mk: "moved_kids F G {[]} q ks = ks" if "node_at st0 (F @ q) = Some m" "ks = kids st0 m" for q m ks
    using fs_ok_child(1) [OF ok that(1)] that(2) by (auto simp: moved_kids_def intro!: map_idI)
  have mid: "moving st0 st1 F G {[]} st1"
    unfolding moving_def
  proof (intro conjI allI impI)
    show "mf_nodes st1 = key_table (move_tree (node_at st0) F G {[]})"
    proof -
      have "mf_nodes st1 = key_table ((node_at st0)(F := None, G \<mapsto> n))"
        using fields(2) fs_ok_nodes [OF ok] by (simp add: key_table_update oks)
      also have "(node_at st0)(F := None, G \<mapsto> n) = move_tree (node_at st0) F G {[]}"
        using par n by (auto simp: move_tree_def fun_eq_iff parallel_def)
      finally show ?thesis .
    qed
    show "mf_nextId st1 = mf_nextId st0" by (rule fields(1))
  next
    fix m assume "\<forall>q. node_at st0 (F @ q) \<noteq> Some m"
    show "mf_heap st1 m = mf_heap st1 m" "mf_idToPath st1 m = mf_idToPath st1 m" by simp_all
  next
    fix q m assume m: "node_at st0 (F @ q) = Some m"
    have k: "kids st1 m = kids st0 m" using inner [OF m] m n kidsn by (cases "q = []") simp_all
    show "mf_heap st1 m = (mf_heap st1 m)\<lparr>mn_children := moved_kids F G {[]} q (kids st0 m)\<rparr>"
      using mk [OF m refl] k by simp
    show "mf_idToPath st1 m = Some (path_of ((if q \<in> {[]} then G else F) @ q))"
    proof (cases "q = []")
      case True
      with m n show ?thesis by (simp add: fields(3))
    next
      case False
      then have "m \<noteq> n" using fs_ok_inj [OF ok m, of F] n by auto
      with False fs_ok_node [OF ok m] show ?thesis by (simp add: fields(3) node_ok_def)
    qed
  qed
  have all: "{[]} \<union> below st0 F [] = {q. node_at st0 (F @ q) \<noteq> None}" using n by (auto simp: below_def)
  have "\<exists>st'. (if is_dir st1 n then rekeyDescendants f env (path_of G) st1 else Some (Inr (), st1)) = Some (Inr (), st')
    \<and> moving st0 st1 F G {q. node_at st0 (F @ q) \<noteq> None} st'"
  proof (cases "is_dir st1 n")
    case True
    have "length r < f" if "node_at st0 (F @ [] @ r) \<noteq> None" for r
      using deep that by (auto simp: deep_enough_def dest: spec [of _ "F @ r"])
    from walk_moves [OF cs ren mid nn _ _ this] obtain st' where
      st': "walk f env (path_of G) n st1 = Some (Inr (), st')" "moving st0 st1 F G ({[]} \<union> below st0 F []) st'"
      by (auto simp: below_def)
    have "mf_nodes st1 (path_of G) = Some n" by (simp add: fields(2))
    then show ?thesis using st' [unfolded all] True path_facts(1,6) [OF oks(2)] cs by (auto simp: rekeyDescendants_def)
  next
    case False
    have "\<not> is_dir st0 n" using False fields(7) by simp
    then have "below st0 F [] = {}" using fs_ok_file_leaf [OF ok n] by (fastforce simp: below_def)
    with all have "{q. node_at st0 (F @ q) \<noteq> None} = {[]}" by simp
    with False mid show ?thesis by metis
  qed
  then obtain st' where st': "(if is_dir st1 n then rekeyDescendants f env (path_of G) st1 else Some (Inr (), st1)) = Some (Inr (), st')"
    "moving st0 st1 F G {q. node_at st0 (F @ q) \<noteq> None} st'" by blast
  have "fs_ok st'" "contents st' = moved_tree (contents st0) F G"
    by (rule moved_ok [OF ok n Fa op G np free par fields(3) _ _ fields(5,6,7) st'(2)], simp_all add: fields(4))+
  with st'(1) show ?thesis by blast
qed

lemma rename_implements:
  assumes env: "writable_env env" and u: "uri_segments env u F" and v: "uri_segments env v G" and ok: "fs_ok st"
    and deep: "deep_enough f st" and plain: "plain_below st F"
  shows "\<exists>res. rename f env u v st = Some res \<and> implements st res (spec_rename F G (contents st))"
proof -
  have cs: "caseSensitive env" using env by (simp add: writable_env_def)
  have oks: "ok_segs F" "ok_segs G" using uri_segments_ok [OF u] uri_segments_ok [OF v] .
  have under: "isPathUnder (path_of G) (path_of F) \<longleftrightarrow> prefix F G" by (simp add: isPathUnder_prefix segments_path_of oks)
  have norm: "normalizeUriPath (u_path u) = path_of F" "normalizeUriPath (u_path v) = path_of G"
    using u v by (simp_all add: uri_segments_def normalize_render)
  note start = rename_def norm path_facts(4) [OF oks(1)] path_of_inj [OF oks] under ensureNode_def
    path_facts(5) [OF oks(1) cs] path_facts(5) [OF oks(2) cs] path_facts(2) [OF oks(2)] Let_def implements_def spec_rename_def contents_None
  have chk: "assertWritable env = Inr ()" "assertSameScheme env u = Inr ()" "assertSameScheme env v = Inr ()"
    using write_checks [OF env u] write_checks [OF env v] by simp_all
  consider (early) "F = [] \<or> F = G \<or> node_at st F = None \<or> prefix F G \<or> node_at st G \<noteq> None"
    | (orphan) n where "F \<noteq> []" "F \<noteq> G" "node_at st F = Some n" "\<not> prefix F G" "node_at st G = None" "contents st (butlast G) \<noteq> Some StoredDir"
    | (good) n where "F \<noteq> []" "F \<noteq> G" "node_at st F = Some n" "\<not> prefix F G" "free_slot st G"
    using not_root_if_free [OF ok, of G] by (cases "node_at st F"; cases "node_at st G") (auto simp: free_slot_def contents_None)
  then show ?thesis
  proof cases
    case early
    then show ?thesis using ok chk by (auto simp: start split: option.splits)
  next
    case orphan
    from parent_missing [OF ok cs oks(2) orphan(6)] obtain e where
      "parent_directory env (path_of (butlast G)) st = Inl e" "\<And>m. spec_parent (contents st) G m = Inl (er_code e)" by blast
    with orphan show ?thesis using ok chk by (simp add: start)
  next
    case good
    obtain gp b np where G: "G = gp @ [b]" and np: "node_at st gp = Some np" "is_dir st np" and free: "node_at st G = None"
      using free_slot_parent [OF ok good(5)] .
    from rekey_subtree [OF cs ok good(3) np good(1) G oks(2) free good(4) deep plain]
    obtain st' where st': "(if is_dir (relink env (path_of F) (path_of G) n np st) n
        then rekeyDescendants f env (path_of G) (relink env (path_of F) (path_of G) n np st)
        else Some (Inr (), relink env (path_of F) (path_of G) n np st)) = Some (Inr (), st')"
      "fs_ok st'" "contents st' = moved_tree (contents st) F G" by blast
    have par: "parent_directory env (dirnameUriPath (path_of G)) st = Inr np"
      using parent_directory_ok [OF ok cs ok_butlast [OF oks(2)]] good(5) np G path_facts(2) [OF oks(2)]
      by (simp add: free_slot_def)
    have "contents st (butlast G) = Some StoredDir" using good(5) by (simp add: free_slot_def)
    with good free chk par st' show ?thesis
      by (simp add: start spec_parent_def emit_keeps moved_tree_def [abs_def] finish_rename_def)
  qed
qed

end
