(* ===== verification/Memory_FS_Copy.thy ===== *)
theory Memory_FS_Copy
  imports Memory_FS_Rename
begin

text \<open>
  Copying in the in-memory filesystem, and the properties of the provider as a whole.
\<close>

section \<open>Copying\<close>

definition copied_tree :: "(string list \<Rightarrow> 'a option) \<Rightarrow> string list \<Rightarrow> string list \<Rightarrow> string list \<Rightarrow> 'a option" where
  "copied_tree t F G q = (if prefix G q then t (F @ drop (length G) q) else t q)"

text \<open>A state in which the children \<open>done\<close> of the source have been copied.\<close>

definition copying :: "memfs \<Rightarrow> string list \<Rightarrow> string list \<Rightarrow> string set \<Rightarrow> memfs \<Rightarrow> bool" where
  "copying st F G S st' \<longleftrightarrow> fs_ok st' \<and> only_listing st st' (butlast G)
     \<and> (\<forall>q. \<not> prefix G q \<longrightarrow> node_at st' q = node_at st q)
     \<and> contents st' G = Some StoredDir
     \<and> (\<forall>s r. contents st' (G @ s # r) = (if s \<in> S then contents st (F @ s # r) else None))"

definition copied :: "memfs \<Rightarrow> string list \<Rightarrow> string list \<Rightarrow> memfs \<Rightarrow> bool" where
  "copied st F G st' \<longleftrightarrow> fs_ok st' \<and> only_listing st st' (butlast G)
     \<and> (\<forall>q. \<not> prefix G q \<longrightarrow> node_at st' q = node_at st q) \<and> (\<forall>r. contents st' (G @ r) = contents st (F @ r))"

lemma only_listing_contents:
  assumes "only_listing st st' pp" "node_at st' q = node_at st q"
  shows "contents st' q = contents st q"
  using assms by (cases "node_at st q") (auto simp: contents_def stored_node_def only_listing_def)

lemma copied_contents: "copied st F G st' \<Longrightarrow> contents st' = copied_tree (contents st) F G"
  using only_listing_contents [of st st' "butlast G"] by (auto simp: copied_def copied_tree_def fun_eq_iff prefix_def)

lemma only_listing_trans:
  assumes "only_listing st st1 pp" "only_listing st1 st2 G" "\<And>q. node_at st q \<noteq> None \<Longrightarrow> node_at st1 q = node_at st q"
    "node_at st G = None"
  shows "only_listing st st2 pp"
  unfolding only_listing_def
proof (intro conjI allI impI)
  fix q n assume q: "node_at st q = Some n"
  then have q1: "node_at st1 q = Some n" and qG: "q \<noteq> G" using assms(3,4) by fastforce+
  from q1 qG assms(2) have same: "mf_heap st2 n = mf_heap st1 n" by (auto simp: only_listing_def)
  show "mf_heap st2 n = mf_heap st n" if "q \<noteq> pp" using same assms(1) q that by (auto simp: only_listing_def)
  show "mn_kind (mf_heap st2 n) = mn_kind (mf_heap st n)" "mn_content (mf_heap st2 n) = mn_content (mf_heap st n)"
    "mn_name (mf_heap st2 n) = mn_name (mf_heap st n)"
    using same assms(1) q by (auto simp: only_listing_def)
qed

lemma not_butlast: "\<not> prefix F G \<Longrightarrow> F \<noteq> butlast G"
  by (metis append_butlast_last_id butlast.simps(1) prefixI prefix_Nil)

lemma copy_loop:
  assumes cs: "caseSensitive env" and ok: "fs_ok st" and F: "node_at st F = Some n" "\<not> prefix F G" and G: "node_at st G = None" "ok_segs G"
    and plain: "plain_below st F"
    and call: "\<And>S s sti. copying st F G S sti \<Longrightarrow> s \<in> fst ` set (kids st n) \<Longrightarrow> s \<notin> S \<Longrightarrow>
      \<exists>N st'. (\<forall>f\<ge>N. copy f env (uriFor env (path_of (F @ [s]))) (uriFor env (path_of (G @ [s]))) ov sti = Some (Inr (), st'))
        \<and> copying st F G (insert s S) st'"
    and mid: "copying st F G (set (map fst (take i (kids st n)))) sti" and i: "i \<le> length (kids st n)"
  shows "\<exists>N st'. (\<forall>f\<ge>N. copy_children f env (path_of F) (path_of G) ov n i sti = Some (Inr (), st'))
    \<and> copying st F G (fst ` set (kids st n)) st'"
  using mid i
proof (induction "length (kids st n) - i" arbitrary: i sti)
  case 0
  have heap: "mf_heap sti n = mf_heap st n"
    using "0.prems"(1) F(1) not_butlast [OF F(2)] by (auto simp: copying_def only_listing_def)
  from 0 have "i = length (kids st n)" by simp
  then have "\<forall>f\<ge>1. copy_children f env (path_of F) (path_of G) ov n i sti = Some (Inr (), sti)"
    by (auto simp: Suc_le_D heap dest!: Suc_le_D)
  with 0 \<open>i = length (kids st n)\<close> show ?case by auto
next
  case (Suc k)
  have heap: "mf_heap sti n = mf_heap st n"
    using Suc.prems(1) F(1) not_butlast [OF F(2)] by (auto simp: copying_def only_listing_def)
  have ilt: "i < length (kids st n)" using Suc(2) by simp
  obtain s key where e: "kids st n ! i = (s, key)" by (cases "kids st n ! i")
  with ilt have mem: "(s, key) \<in> set (kids st n)" by (metis nth_mem)
  have key: "key = path_of (F @ [s])" "node_at st (F @ [s]) \<noteq> None" using fs_ok_child [OF ok F(1) mem] .
  then obtain c where c: "node_at st (F @ [s]) = Some c" by blast
  have wf: "distinct (map fst (kids st n))" using fs_ok_node [OF ok F(1)] by (simp add: node_ok_def jm_wf_def)
  have fresh: "s \<notin> set (map fst (take i (kids st n)))"
  proof
    assume "s \<in> set (map fst (take i (kids st n)))"
    then obtain j where "j < i" "fst (kids st n ! j) = s" using ilt by (auto simp: in_set_conv_nth)
    with nth_eq_iff_index_eq [OF wf, of j i] ilt e show False by simp
  qed
  have "\<not> prefix G (F @ [s])"
  proof
    assume "prefix G (F @ [s])"
    then have "G = F @ [s] \<or> prefix G F" by simp
    with F(2) have "prefix G F" by auto
    then show False using fs_ok_prefix [OF ok] F(1) G(1) by (metis option.distinct(1) prefixE)
  qed
  then have ci: "node_at sti (F @ [s]) = Some c" using Suc.prems(1) c by (simp add: copying_def)
  have oks: "ok_segs (F @ [s])" "ok_segs (G @ [s])" using node_at_ok [OF c] G(2) by simp_all
  have ni: "mf_nodes sti key = Some c" using ci oks(1) key(1) by (simp add: node_at_def)
  have okt: "fs_ok sti" using Suc.prems(1) by (simp add: copying_def)
  have name: "mn_name (mf_heap sti c) = s" using fs_ok_node [OF okt ci] by (simp add: node_ok_def)
  have pl: "s \<noteq> ''.''" "s \<noteq> ''..''" using plain c by (auto simp: plain_below_def)
  from call [OF Suc.prems(1) _ fresh] mem obtain N1 st1 where
    st1: "\<forall>f\<ge>N1. copy f env (uriFor env (path_of (F @ [s]))) (uriFor env (path_of (G @ [s]))) ov sti = Some (Inr (), st1)"
      "copying st F G (insert s (set (map fst (take i (kids st n))))) st1" by force
  have "insert s (set (map fst (take i (kids st n)))) = set (map fst (take (Suc i) (kids st n)))"
    using ilt e by (simp add: take_Suc_conv_app_nth)
  moreover have "k = length (kids st n) - Suc i" using Suc(2) by linarith
  ultimately obtain N2 st' where
    st': "\<forall>f\<ge>N2. copy_children f env (path_of F) (path_of G) ov n (Suc i) st1 = Some (Inr (), st')"
      "copying st F G (fst ` set (kids st n)) st'"
    using Suc(1) [of "Suc i" st1] st1(2) ilt by auto
  have "copy_children f env (path_of F) (path_of G) ov n i sti = Some (Inr (), st')" if big: "f \<ge> Suc (max N1 N2)" for f
  proof -
    obtain f' where f: "f = Suc f'" using big by (cases f) auto
    with big have "f' \<ge> N1" "f' \<ge> N2" by simp_all
    with st1(1) st'(1) show ?thesis
      using ilt e ni name join_plain [OF oks(2) pl] key(1)
      by (simp add: f heap Let_def child_path_of [OF oks(1)])
  qed
  with st'(2) show ?case by blast
qed

lemma copy_file:
  assumes env: "writable_env env" and u: "uri_segments env u F" and v: "uri_segments env v G" and ok: "fs_ok st"
    and F: "node_at st F = Some n" "mn_kind (mf_heap st n) = KindFile" "\<not> prefix F G" and free: "free_slot st G"
  shows "\<exists>st'. (\<forall>f\<ge>1. copy f env u v ov st = Some (Inr (), st')) \<and> copied st F G st'"
proof -
  have cs: "caseSensitive env" using env by (simp add: writable_env_def)
  have oks: "ok_segs F" "ok_segs G" using uri_segments_ok [OF u] uri_segments_ok [OF v] .
  have under: "\<not> isPathUnder (path_of G) (path_of F)" using F(3) by (simp add: isPathUnder_prefix segments_path_of oks)
  have norm: "normalizeUriPath (u_path u) = path_of F" "normalizeUriPath (u_path v) = path_of G"
    using u v by (simp_all add: uri_segments_def normalize_render)
  have FG: "path_of F \<noteq> path_of G" using F(3) path_of_inj [OF oks] by auto
  have Gnone: "node_at st G = None" using free by (simp add: free_slot_def contents_None)
  have chk: "assertWritable env = Inr ()" "assertSameScheme env u = Inr ()" "assertSameScheme env v = Inr ()"
    using write_checks [OF env u] write_checks [OF env v] by simp_all
  obtain st' where st': "writeFile env v (mn_content (mf_heap st n)) st = (Inr (), st')" "fs_ok st'"
    "contents st' = (contents st)(G \<mapsto> StoredFile (mn_content (mf_heap st n)))" "node_at st' = (node_at st)(G \<mapsto> mf_nextId st)"
    "only_listing st st' (butlast G)"
    using writeFile_new [OF env v ok free] by blast
  have "\<forall>f\<ge>1. copy f env u v ov st = Some (Inr (), st')"
    using chk under norm FG F Gnone st'(1) path_facts(5) [OF oks(1) cs] path_facts(5) [OF oks(2) cs]
    by (auto simp: ensureNode_def Let_def dest!: Suc_le_D)
  moreover have "contents st' (G @ r) = contents st (F @ r)" for r
  proof (cases "r = []")
    case True
    then show ?thesis using F by (simp add: st'(3) contents_def stored_node_def)
  next
    case False
    then have "node_at st (F @ r) = None" using fs_ok_file_leaf [OF ok F(1) _ False] F(2) by simp
    moreover have "node_at st (G @ r) = None" using fs_ok_prefix [OF ok, of G r] Gnone by blast
    ultimately have "node_at st (F @ r) = None" "node_at st (G @ r) = None" .
    with False show ?thesis by (simp add: st'(3) contents_def)
  qed
  ultimately show ?thesis using st' by (auto simp: copied_def)
qed

lemma copy_subtree:
  assumes env: "writable_env env"
  shows "uri_segments env u F \<Longrightarrow> uri_segments env v G \<Longrightarrow> fs_ok st \<Longrightarrow> node_at st F = Some n \<Longrightarrow> \<not> prefix F G \<Longrightarrow>
    free_slot st G \<Longrightarrow> plain_below st F \<Longrightarrow> (\<And>q. node_at st (F @ q) \<noteq> None \<Longrightarrow> length q < d) \<Longrightarrow>
    \<exists>N st'. (\<forall>f\<ge>N. copy f env u v ov st = Some (Inr (), st')) \<and> copied st F G st'"
proof (induction d arbitrary: u v F G st n)
  case 0
  from "0.prems"(8) [of "[]"] "0.prems"(4) show ?case by simp
next
  case (Suc d)
  note u = Suc.prems(1) and v = Suc.prems(2) and ok = Suc.prems(3) and n = Suc.prems(4) and FG = Suc.prems(5)
    and free = Suc.prems(6) and plain = Suc.prems(7)
  show ?case
  proof (cases "mn_kind (mf_heap st n) = KindFile")
    case True
    from copy_file [OF env u v ok n True FG free] show ?thesis by blast
  next
    case False
    have cs: "caseSensitive env" using env by (simp add: writable_env_def)
    have oks: "ok_segs F" "ok_segs G" using uri_segments_ok [OF u] uri_segments_ok [OF v] .
    have Gnone: "node_at st G = None" using free by (simp add: free_slot_def contents_None)
    have noG: "node_at st (G @ q) = None" for q using fs_ok_prefix [OF ok, of G q] Gnone by blast
    have notG: "\<not> prefix G q" if "node_at st q \<noteq> None" for q using noG that by (auto simp: prefix_def)
    obtain st1 where st1: "createDirectory env v st = (Inr (), st1)" "fs_ok st1" "contents st1 = (contents st)(G \<mapsto> StoredDir)"
      "node_at st1 = (node_at st)(G \<mapsto> mf_nextId st)" "only_listing st st1 (butlast G)"
      using createDirectory_new [OF env v ok free] by blast
    have par: "parallel F G" using FG notG n by (auto simp: parallel_def)
    have mid: "copying st F G (set (map fst (take 0 (kids st n)))) st1"
      using st1 noG by (auto simp: copying_def contents_None)
    have call: "\<exists>N st'. (\<forall>f\<ge>N. copy f env (uriFor env (path_of (F @ [s]))) (uriFor env (path_of (G @ [s]))) ov sti = Some (Inr (), st'))
        \<and> copying st F G (insert s S) st'"
      if mid: "copying st F G S sti" and s: "s \<in> fst ` set (kids st n)" and new: "s \<notin> S" for S s sti
    proof -
      have sti: "fs_ok sti" "only_listing st sti (butlast G)" "\<And>q. \<not> prefix G q \<Longrightarrow> node_at sti q = node_at st q"
        "contents sti G = Some StoredDir" "\<And>s r. contents sti (G @ s # r) = (if s \<in> S then contents st (F @ s # r) else None)"
        using mid by (simp_all add: copying_def)
      from s obtain k where "(s, k) \<in> set (kids st n)" by auto
      from fs_ok_child(2) [OF ok n this] obtain c where c: "node_at st (F @ [s]) = Some c" by blast
      have same: "node_at sti (F @ q) = node_at st (F @ q)" for q
      proof (rule sti(3))
        show "\<not> prefix G (F @ q)" using parallel_append_neq [OF par] by (metis prefixE)
      qed
      have oks': "ok_segs (F @ [s])" "ok_segs (G @ [s])" using node_at_ok [OF c] oks by simp_all
      have uris: "uri_segments env (uriFor env (path_of (F @ [s]))) (F @ [s])" "uri_segments env (uriFor env (path_of (G @ [s]))) (G @ [s])"
        using uriFor_segments [of env "path_of (F @ [s])"] uriFor_segments [of env "path_of (G @ [s])"] oks'
        by (simp_all add: segments_path_of)
      have "\<not> prefix (F @ [s]) (G @ [s])" using par parallel_append_neq [OF par] by (metis append_assoc prefixE)
      moreover have "free_slot sti (G @ [s])" using sti(4) sti(5) [of s "[]"] new by (simp add: free_slot_def)
      moreover have "plain_below sti (F @ [s])" using plain same by (auto simp: plain_below_def)
      moreover have "length q < d" if "node_at sti ((F @ [s]) @ q) \<noteq> None" for q
        using Suc.prems(8) [of "s # q"] that same [of "s # q"] by simp
      ultimately obtain N st' where st': "\<forall>f\<ge>N. copy f env (uriFor env (path_of (F @ [s]))) (uriFor env (path_of (G @ [s]))) ov sti = Some (Inr (), st')"
        "copied sti (F @ [s]) (G @ [s]) st'"
        using Suc.IH [OF uris sti(1)] c same [of "[s]"] by metis
      have cp: "fs_ok st'" "only_listing sti st' G" "\<And>q. \<not> prefix (G @ [s]) q \<Longrightarrow> node_at st' q = node_at sti q"
        "\<And>r. contents st' (G @ s # r) = contents sti (F @ s # r)"
        using st'(2) by (simp_all add: copied_def)
      have "only_listing st st' (butlast G)"
      proof (rule only_listing_trans [OF sti(2) cp(2)])
        show "node_at st G = None" by (rule Gnone)
        show "node_at sti q = node_at st q" if "node_at st q \<noteq> None" for q using sti(3) notG [OF that] by simp
      qed
      moreover have "node_at st' q = node_at st q" if "\<not> prefix G q" for q
        using that cp(3) [of q] sti(3) [of q] by (auto simp: prefix_def)
      moreover have "contents st' G = Some StoredDir"
        using only_listing_contents [OF cp(2) cp(3) [of G]] sti(4) by (simp add: prefix_def)
      moreover have "contents st' (G @ x # r) = (if x \<in> insert s S then contents st (F @ x # r) else None)" for x r
      proof (cases "x = s")
        case True
        have "contents sti (F @ s # r) = contents st (F @ s # r)"
          using only_listing_contents [OF sti(2) same [of "s # r"]] .
        with True cp(4) show ?thesis by simp
      next
        case False
        then have "\<not> prefix (G @ [s]) (G @ x # r)" by simp
        from only_listing_contents [OF cp(2) cp(3) [OF this]] sti(5) [of x r] False show ?thesis by simp
      qed
      ultimately have "copying st F G (insert s S) st'" using cp(1) by (simp add: copying_def)
      with st'(1) show ?thesis by blast
    qed
    obtain N st' where st': "\<forall>f\<ge>N. copy_children f env (path_of F) (path_of G) ov n 0 st1 = Some (Inr (), st')"
      "copying st F G (fst ` set (kids st n)) st'"
      using copy_loop [OF cs ok n FG Gnone oks(2) plain call mid] by auto
    have under: "\<not> isPathUnder (path_of G) (path_of F)" using FG by (simp add: isPathUnder_prefix segments_path_of oks)
    have norm: "normalizeUriPath (u_path u) = path_of F" "normalizeUriPath (u_path v) = path_of G"
      using u v by (simp_all add: uri_segments_def normalize_render)
    have ne: "path_of F \<noteq> path_of G" using FG path_of_inj [OF oks] by auto
    have chk: "assertWritable env = Inr ()" "assertSameScheme env u = Inr ()" "assertSameScheme env v = Inr ()"
      using write_checks [OF env u] write_checks [OF env v] by simp_all
    have run: "copy (Suc f) env u v ov st = Some (Inr (), st')" if "f \<ge> N" for f
      using chk under norm ne n False Gnone st1(1) st'(1) that path_facts(5) [OF oks(1) cs] path_facts(5) [OF oks(2) cs]
      by (simp add: ensureNode_def Let_def)
    then have run': "\<forall>f\<ge>Suc N. copy f env u v ov st = Some (Inr (), st')" by (metis Suc_le_D Suc_le_mono)
    have "contents st' (G @ r) = contents st (F @ r)" for r
    proof (cases r)
      case Nil
      have "is_dir st n" using fs_ok_node [OF ok n] False by (simp add: node_ok_def)
      with Nil st'(2) n show ?thesis by (simp add: copying_def contents_def stored_node_def)
    next
      case (Cons s r')
      have "contents st (F @ s # r') = None" if "s \<notin> fst ` set (kids st n)"
      proof -
        have "node_at st (F @ [s]) = None" using fs_ok_child_in [OF ok n, of s] that by force
        then have "node_at st ((F @ [s]) @ r') = None" using fs_ok_prefix [OF ok, of "F @ [s]" r'] by blast
        then show ?thesis by (simp add: contents_None)
      qed
      with Cons st'(2) show ?thesis by (simp add: copying_def)
    qed
    with st'(2) have "copied st F G st'" by (simp add: copying_def copied_def)
    with run' show ?thesis by blast
  qed
qed

lemma copy_implements:
  assumes env: "writable_env env" and u: "uri_segments env u F" and v: "uri_segments env v G" and ok: "fs_ok st" and plain: "plain_below st F"
  shows "\<exists>N res. (\<forall>f\<ge>N. copy f env u v False st = Some res) \<and> implements st res (spec_copy F G (contents st))"
proof -
  have cs: "caseSensitive env" using env by (simp add: writable_env_def)
  have oks: "ok_segs F" "ok_segs G" using uri_segments_ok [OF u] uri_segments_ok [OF v] .
  have under: "isPathUnder (path_of G) (path_of F) \<longleftrightarrow> prefix F G" by (simp add: isPathUnder_prefix segments_path_of oks)
  have norm: "normalizeUriPath (u_path u) = path_of F" "normalizeUriPath (u_path v) = path_of G"
    using u v by (simp_all add: uri_segments_def normalize_render)
  have chk: "assertWritable env = Inr ()" "assertSameScheme env u = Inr ()" "assertSameScheme env v = Inr ()"
    using write_checks [OF env u] write_checks [OF env v] by simp_all
  consider (early) "prefix F G \<or> node_at st F = None \<or> node_at st G \<noteq> None"
    | (orphan) n where "node_at st F = Some n" "\<not> prefix F G" "node_at st G = None" "contents st (butlast G) \<noteq> Some StoredDir"
    | (good) n where "node_at st F = Some n" "\<not> prefix F G" "free_slot st G"
    using not_root_if_free [OF ok, of G] by (cases "node_at st F"; cases "node_at st G") (auto simp: free_slot_def contents_None)
  then show ?thesis
  proof cases
    case early
    define res where "res = the (copy 1 env u v False st)"
    have "\<forall>f\<ge>1. copy f env u v False st = Some res" "implements st res (spec_copy F G (contents st))"
      using early ok chk norm under path_of_inj [OF oks] path_facts(5) [OF oks(1) cs] path_facts(5) [OF oks(2) cs]
      by (auto simp: res_def ensureNode_def Let_def implements_def spec_copy_def contents_None dest!: Suc_le_D split: option.splits)
    then show ?thesis by blast
  next
    case orphan
    from parent_missing [OF ok cs oks(2) orphan(4)] obtain e where
      "parent_directory env (path_of (butlast G)) st = Inl e" and e: "\<forall>m. spec_parent (contents st) G m = Inl (er_code e)" by blast
    have none: "contents st G = None" using orphan(3) by (simp add: contents_None)
    have wr: "implements st (writeFile env v data st) (Inl (er_code e))" for data
      using writeFile_implements [OF env v ok, of data] none e by (simp add: spec_write_def)
    have mk: "implements st (createDirectory env v st) (Inl (er_code e))"
      using createDirectory_implements [OF env v ok] none e by (simp add: spec_mkdir_def)
    define res where "res = the (copy 1 env u v False st)"
    have ne: "path_of F \<noteq> path_of G" using orphan(2) path_of_inj [OF oks] by auto
    have "(\<forall>f\<ge>1. copy f env u v False st = Some res) \<and> implements st res (Inl (er_code e))"
    proof (cases "mn_kind (mf_heap st n) = KindFile")
      case True
      then show ?thesis using orphan wr chk norm under ne path_facts(5) [OF oks(1) cs] path_facts(5) [OF oks(2) cs]
        by (auto simp: res_def ensureNode_def Let_def dest!: Suc_le_D)
    next
      case False
      obtain r st' where cd: "createDirectory env v st = (r, st')" by (cases "createDirectory env v st")
      with mk obtain e' where "r = Inl e'" by (auto simp: implements_def)
      with cd False show ?thesis using orphan mk chk norm under ne path_facts(5) [OF oks(1) cs] path_facts(5) [OF oks(2) cs]
        by (auto simp: res_def ensureNode_def Let_def dest!: Suc_le_D)
    qed
    moreover have "spec_copy F G (contents st) = Inl (er_code e)" using orphan none e by (simp add: spec_copy_def contents_None)
    ultimately show ?thesis by metis
  next
    case good
    obtain d where deep: "deep_enough d st" using deep_enough_exists [OF ok] by blast
    have "length q < d" if "node_at st (F @ q) \<noteq> None" for q
      using deep that by (auto simp: deep_enough_def dest: spec [of _ "F @ q"])
    from copy_subtree [OF env u v ok good(1,2,3) plain this] obtain N st' where
      "\<forall>f\<ge>N. copy f env u v False st = Some (Inr (), st')" and cp: "copied st F G st'" by blast
    moreover have "implements st (Inr (), st') (spec_copy F G (contents st))"
      using good cp copied_contents [OF cp]
      by (auto simp: implements_def spec_copy_def spec_parent_def free_slot_def contents_None copied_def copied_tree_def [abs_def])
    ultimately show ?thesis by blast
  qed
qed

end
