(* ===== verification/Memory_FS_Runs.thy ===== *)
theory Memory_FS_Runs
  imports Memory_FS_Copy
begin

text \<open>
  The in-memory filesystem as a whole: a fresh provider and every sequence of operations on it implement
  the map of \<open>Memory_FS_Refinement\<close>; and the two inputs on which renaming goes wrong.
\<close>

section \<open>Creation\<close>

lemma mkdirp_root:
  assumes "caseSensitive env"
  shows "\<exists>st. mkdirp env ''/'' empty_memfs = (Inr 1, st) \<and> fs_ok st \<and> contents st = [[] \<mapsto> StoredDir]"
proof -
  have key: "pathKey env ''/'' = path_of []" "normalizeUriPath ''/'' = ''/''"
    using assms path_facts(1) [of "[]"] path_facts(6) [of "[]"] by (simp_all add: path_of_def)
  define st where "st = snd (mkdirp env ''/'' empty_memfs)"
  have run: "mkdirp env ''/'' empty_memfs = (Inr 1, st)"
    and nodes: "mf_nodes st = [path_of [] \<mapsto> 1]" and ids: "mf_idToPath st = [1 \<mapsto> path_of []]" and next_id: "mf_nextId st = 2"
    and heap: "mf_heap st 1 = \<lparr>mn_id = 1, mn_parentId = None, mn_name = [], mn_kind = KindDirectory, mn_content = [],
      mn_mtimeMs = me_now env 0, mn_ctimeMs = me_now env 0, mn_children = []\<rparr>"
    by (simp_all add: st_def mkdirp.simps [of env "''/''"] key make_directory_def now_def add_node_def empty_memfs_def Let_def)
  have at: "node_at st = [[] \<mapsto> 1]"
  proof (rule ext)
    fix q
    show "node_at st q = [[] \<mapsto> 1] q"
      using path_of_inj [of q "[]"] by (auto simp: node_at_def nodes)
  qed
  have "mf_nodes st = key_table (node_at st)"
  proof -
    have "key_table (\<lambda>_. None) = (\<lambda>_. None)" by (simp add: key_table_def fun_eq_iff)
    with key_table_update [of "[]" "\<lambda>_. None" "Some 1"] show ?thesis by (simp add: nodes at)
  qed
  then have "fs_ok st" by (simp add: fs_ok_def at node_ok_def heap ids next_id)
  moreover have "contents st = [[] \<mapsto> StoredDir]" by (auto simp: contents_def at heap stored_node_def fun_eq_iff)
  ultimately show ?thesis using run by blast
qed

text \<open>Making all missing directories of a path.\<close>

lemma add_directory:
  assumes cs: "caseSensitive env" and ok: "fs_ok st" and p: "node_at st pp = Some p" "is_dir st p" and s: "seg_ok s"
    and free: "node_at st (pp @ [s]) = None"
  shows "\<exists>st'. make_directory env (Some (mn_id (mf_heap st p))) s (path_of (pp @ [s])) (set_child p s (path_of (pp @ [s])) st)
      = (Inr (mf_nextId st), st') \<and> fs_ok st' \<and> contents st' = (contents st)(pp @ [s] \<mapsto> StoredDir)
      \<and> node_at st' = (node_at st)(pp @ [s] \<mapsto> mf_nextId st)"
proof -
  have pid: "mn_id (mf_heap st p) = p" "p < mf_nextId st" using fs_ok_node [OF ok p(1)] by (simp_all add: node_ok_def)
  define t where "t = me_now env (mf_reads st)"
  define nd where "nd = \<lparr>mn_id = mf_nextId st, mn_parentId = Some p, mn_name = s, mn_kind = KindDirectory, mn_content = [],
    mn_mtimeMs = t, mn_ctimeMs = t, mn_children = []\<rparr>"
  define res where "res = make_directory env (Some (mn_id (mf_heap st p))) s (path_of (pp @ [s])) (set_child p s (path_of (pp @ [s])) st)"
  note unfold = res_def make_directory_def now_def add_node_def Let_def set_child_def update_node_def nd_def t_def pid(1)
  have fields: "fst res = Inr (mf_nextId st)" "mf_nextId (snd res) = mf_nextId st + 1"
      "mf_nodes (snd res) = (mf_nodes st)(path_of (pp @ [s]) \<mapsto> mf_nextId st)"
      "mf_idToPath (snd res) = (mf_idToPath st)(mf_nextId st \<mapsto> path_of (pp @ [s]))"
      "mf_heap (snd res) = (mf_heap st)(mf_nextId st := nd,
         p := (mf_heap st p)\<lparr>mn_mtimeMs := mn_mtimeMs (mf_heap st p), mn_children := jm_set s (path_of (pp @ [s])) (kids st p)\<rparr>)"
    using pid(2) by (simp_all add: unfold fun_eq_iff)
  have "fs_ok (snd res)" "node_at (snd res) = (node_at st)(pp @ [s] \<mapsto> mf_nextId st)"
    "contents (snd res) = (contents st)(pp @ [s] \<mapsto> stored_node nd)"
    using add_leaf [OF ok p s free _ _ _ _ _ fields(2-5)] by (simp_all add: nd_def)
  then show ?thesis using fields(1) unfolding res_def [symmetric] by (intro exI [of _ "snd res"]) (simp add: nd_def stored_node_def prod_eq_iff)
qed

lemma mkdirp_ok:
  assumes "caseSensitive env"
  shows "fs_ok st \<Longrightarrow> mkdirp env path st = (r, st') \<Longrightarrow> fs_ok st' \<and>
    (\<forall>q. \<not> prefix q (segments path) \<longrightarrow> node_at st' q = node_at st q) \<and>
    (case r of Inl e \<Rightarrow> er_code e = ''ENOTDIR'' | Inr n \<Rightarrow> node_at st' (segments path) = Some n \<and> is_dir st' n)"
  using assms
proof (induction env path st arbitrary: r st' rule: mkdirp.induct)
  case (1 env path st)
  have key: "pathKey env path = path_of (segments path)" by (rule pathKey_segments [OF "1.prems"(3)])
  have nodes: "mf_nodes st (path_of (segments path)) = node_at st (segments path)" by (simp add: node_at_def segments_ok)
  show ?case
  proof (cases "node_at st (segments path)")
    case (Some n)
    with "1.prems" show ?thesis by (auto simp: mkdirp.simps [of env path] key nodes Let_def split: if_splits)
  next
    case None
    with fs_ok_root [OF "1.prems"(1)] have nr: "segments path \<noteq> []" by auto
    then obtain pp s where ps: "segments path = pp @ [s]" by (cases "segments path" rule: rev_cases) auto
    have oks: "seg_ok s" using segments_ok [of path] ps by simp
    obtain r1 st1 where rec: "mkdirp env (dirnameUriPath path) st = (r1, st1)" by fastforce
    have sd: "segments (dirnameUriPath path) = pp" by (simp add: segments_dirname ps)
    have none: "mf_nodes st (pathKey env path) = None" using None by (simp add: key nodes)
    have IH: "fs_ok st1 \<and> (\<forall>q. \<not> prefix q pp \<longrightarrow> node_at st1 q = node_at st q)
        \<and> (case r1 of Inl e \<Rightarrow> er_code e = ''ENOTDIR'' | Inr n \<Rightarrow> node_at st1 pp = Some n \<and> is_dir st1 n)"
      using "1.IH" [OF refl none _ "1.prems"(1) rec "1.prems"(3)] nr by (simp add: not_root sd cong: sum.case_cong)
    show ?thesis
    proof (cases r1)
      case (Inl e)
      with IH "1.prems"(2) none nr rec ps show ?thesis
        by (auto simp: mkdirp.simps [of env path] not_root Let_def prefix_append)
    next
      case (Inr p)
      with IH have p: "fs_ok st1" "node_at st1 pp = Some p" "is_dir st1 p" by simp_all
      have free: "node_at st1 (pp @ [s]) = None" using IH None ps by (auto dest: prefix_length_le)
      from add_directory [OF "1.prems"(3) p oks free] obtain st2 where
        st2: "make_directory env (Some (mn_id (mf_heap st1 p))) s (path_of (pp @ [s])) (set_child p s (path_of (pp @ [s])) st1)
          = (Inr (mf_nextId st1), st2)" "fs_ok st2" "contents st2 = (contents st1)(pp @ [s] \<mapsto> StoredDir)"
          "node_at st2 = (node_at st1)(pp @ [s] \<mapsto> mf_nextId st1)" by blast
      have base: "basenameUriPath path = s" by (simp add: dirname_basename ps)
      have res: "r = Inr (mf_nextId st1)" "st' = st2"
        using "1.prems"(2,3) none nr rec Inr st2(1) base key ps by (simp_all add: mkdirp.simps [of env path] not_root Let_def)
      have "contents st2 (pp @ [s]) = Some StoredDir" by (simp add: st2(3))
      then have "is_dir st2 (mf_nextId st1)" using st2(4) by (auto simp: contents_dir [OF st2(2)])
      with st2 IH ps show ?thesis by (auto simp: res prefix_append)
    qed
  qed
qed

lemma seed_file_ok:
  assumes cs: "caseSensitive env" and ok: "fs_ok st" and run: "seed_file env p data st = (r, st')"
  shows "fs_ok st'"
proof -
  define ss where "ss = segments p"
  have norm: "normalizeUriPath p = path_of ss" "ok_segs ss" by (simp_all add: normalize_render ss_def segments_ok)
  have dir: "dirnameUriPath (path_of ss) = path_of (butlast ss)" by (rule path_facts(2) [OF norm(2)])
  obtain r1 st1 where mk: "mkdirp env (path_of (butlast ss)) st = (r1, st1)" by fastforce
  note m = mkdirp_ok [OF cs ok mk, unfolded segments_path_of [OF ok_butlast [OF norm(2)]]]
  show ?thesis
  proof (cases r1)
    case (Inl e)
    with run m mk show ?thesis by (simp add: seed_file_def norm dir mbind_def Let_def)
  next
    case (Inr pn)
    with m have st1: "fs_ok st1" "node_at st1 (butlast ss) = Some pn" "is_dir st1 pn" by simp_all
    have en: "ensureNode env (path_of (butlast ss)) st1 = Inr pn"
      using path_facts(5) [OF ok_butlast [OF norm(2)] cs] st1(2) by (simp add: ensureNode_def)
    note unfold = seed_file_def norm(1) dir mbind_def mk Inr en Let_def path_facts(6) [OF norm(2) cs] child_name_id [OF cs]
    show ?thesis
    proof (cases "mf_nodes st1 (path_of ss)")
      case (Some x)
      with run st1(1) show ?thesis by (simp add: unfold)
    next
      case None
      then have free: "node_at st1 ss = None" by (simp add: node_at_def)
      then have "ss \<noteq> []" by (rule not_root_if_free [OF st1(1)])
      then obtain pp s where ps: "ss = pp @ [s]" by (cases ss rule: rev_cases) auto
      have pid: "mn_id (mf_heap st1 pn) = pn" "pn < mf_nextId st1" using fs_ok_node [OF st1(1,2)] by (simp_all add: node_ok_def)
      define t where "t = me_now env (mf_reads st1)"
      define nd where "nd = \<lparr>mn_id = mf_nextId st1, mn_parentId = Some pn, mn_name = s, mn_kind = KindFile, mn_content = data,
        mn_mtimeMs = t, mn_ctimeMs = t, mn_children = []\<rparr>"
      have base: "basenameUriPath (path_of ss) = s" using path_facts(3) [OF norm(2)] ps by simp
      have fields: "mf_nextId st' = mf_nextId st1 + 1" "mf_nodes st' = (mf_nodes st1)(path_of ss \<mapsto> mf_nextId st1)"
          "mf_idToPath st' = (mf_idToPath st1)(mf_nextId st1 \<mapsto> path_of ss)"
          "mf_heap st' = (mf_heap st1)(mf_nextId st1 := nd,
             pn := (mf_heap st1 pn)\<lparr>mn_mtimeMs := t, mn_children := jm_set s (path_of ss) (kids st1 pn)\<rparr>)"
        using run None pid base
        by (auto simp: unfold now_def add_node_def set_child_def update_node_def nd_def t_def fun_eq_iff)
      show ?thesis
        using add_leaf(1) [OF st1(1) _ st1(3) _ _ _ _ _ _ _ fields [unfolded ps]] st1(2) free norm(2) ps by (simp add: nd_def)
    qed
  qed
qed

lemma create_ok:
  assumes cs: "caseSensitive env" and run: "createMemoryFileSystemProvider env dirs files = Inr st"
  shows "fs_ok st"
proof -
  have dirs: "fs_ok st \<Longrightarrow> seed_directories env ds st = (r, st') \<Longrightarrow> fs_ok st'" for ds st r st'
  proof (induction ds arbitrary: st)
    case (Cons d ds)
    obtain r1 st1 where "mkdirp env d st = (r1, st1)" by fastforce
    with mkdirp_ok [OF cs Cons.prems(1) this] Cons show ?case by (cases r1) (auto simp: mbind_def)
  qed simp
  have files: "fs_ok st \<Longrightarrow> seed_files env fs st = (r, st') \<Longrightarrow> fs_ok st'" for fs st r st'
  proof (induction fs arbitrary: st)
    case (Cons x fs)
    obtain p data where x: "x = (p, data)" by (cases x)
    obtain r1 st1 where s: "seed_file env p data st = (r1, st1)" by fastforce
    with seed_file_ok [OF cs Cons.prems(1) s] Cons x show ?case by (cases r1) (auto simp: mbind_def)
  qed simp
  obtain st0 where st0: "mkdirp env ''/'' empty_memfs = (Inr 1, st0)" "fs_ok st0" using mkdirp_root [OF cs] by blast
  obtain r1 st1 where d: "seed_directories env dirs st0 = (r1, st1)" by fastforce
  obtain r2 st2 where f: "seed_files env files st1 = (r2, st2)" by fastforce
  from run st0(1) d f have "st = st2"
    by (cases r1; cases r2) (simp_all add: createMemoryFileSystemProvider_def mbind_def)
  with files [OF dirs [OF st0(2) d] f] show ?thesis by simp
qed

section \<open>More fuel gives the same result\<close>

lemma for_children_mono:
  assumes "\<And>p st r. call p st = Some r \<Longrightarrow> call' p st = Some r"
  shows "for_children call path keys st = Some r \<Longrightarrow> for_children call' path keys st = Some r"
  by (induction keys arbitrary: st) (auto split: option.splits sum.splits dest: assms)

lemma delete_entry_mono: "delete_entry f env u recursive st = Some r \<Longrightarrow> f \<le> f' \<Longrightarrow> delete_entry f' env u recursive st = Some r"
proof (induction f arbitrary: f' u recursive st r)
  case (Suc f)
  then obtain g where g: "f' = Suc g" "f \<le> g" by (cases f') auto
  have loop: "for_children (\<lambda>p st. delete_entry f env (uriFor env p) True st) path keys s = Some x \<Longrightarrow>
      for_children (\<lambda>p st. delete_entry g env (uriFor env p) True st) path keys s = Some x" for path keys s x
    using for_children_mono [of "\<lambda>p st. delete_entry f env (uriFor env p) True st" "\<lambda>p st. delete_entry g env (uriFor env p) True st"]
      Suc.IH [OF _ g(2)] by blast
  show ?case using Suc.prems(1) unfolding g(1)
    by (auto simp: Let_def split: sum.splits option.splits if_splits dest!: loop)
qed simp

lemma walk_children_mono:
  assumes "\<And>p d st r. rec p d st = Some r \<Longrightarrow> rec' p d st = Some r"
  shows "walk_children rec env dirPath dir entries st = Some r \<Longrightarrow> walk_children rec' env dirPath dir entries st = Some r"
proof (induction entries arbitrary: st)
  case (Cons e entries)
  obtain nm key where e: "e = (nm, key)" by (cases e)
  show ?case
  proof (cases "mf_nodes st key")
    case None
    with Cons e show ?thesis by simp
  next
    case (Some c)
    show ?thesis
    proof (cases "joinUriPath dirPath (mn_name (mf_heap st c))")
      case None
      with Cons.prems Some e show ?thesis by simp
    next
      case (Some cp)
      define st2 where "st2 = (if key \<noteq> pathKey env cp
        then set_child dir nm (pathKey env cp) (st\<lparr>mf_nodes := ((mf_nodes st)(key := None))(pathKey env cp \<mapsto> c),
               mf_idToPath := (mf_idToPath st)(mn_id (mf_heap st c) \<mapsto> pathKey env cp)\<rparr>)
        else st)"
      have step: "walk_children q env dirPath dir (e # entries) st =
          (if is_dir st2 c then (case q cp c st2 of None \<Rightarrow> None | Some (Inl x, st') \<Rightarrow> Some (Inl x, st')
             | Some (Inr _, st') \<Rightarrow> walk_children q env dirPath dir entries st')
           else walk_children q env dirPath dir entries st2)" for q
        by (simp only: e walk_children.simps \<open>mf_nodes st key = Some c\<close> Some option.case Let_def st2_def [symmetric])
      show ?thesis
      proof (cases "is_dir st2 c")
        case True
        with Cons.prems obtain r1 st3 where rec: "rec cp c st2 = Some (r1, st3)" unfolding step by (cases "rec cp c st2") auto
        from assms [OF rec] True Cons rec show ?thesis unfolding step by (cases r1) auto
      next
        case False
        with Cons show ?thesis unfolding step by simp
      qed
    qed
  qed
qed simp

lemma walk_mono: "walk f env p d st = Some r \<Longrightarrow> f \<le> f' \<Longrightarrow> walk f' env p d st = Some r"
proof (induction f arbitrary: f' p d st r)
  case (Suc f)
  then obtain g where g: "f' = Suc g" "f \<le> g" by (cases f') auto
  have "walk_children (\<lambda>p d st. walk f env p d st) env p d es st = Some x \<Longrightarrow>
      walk_children (\<lambda>p d st. walk g env p d st) env p d es st = Some x" for p d es st x
    using walk_children_mono [of "\<lambda>p d st. walk f env p d st" "\<lambda>p d st. walk g env p d st"] Suc.IH [OF _ g(2)] by blast
  with Suc.prems(1) show ?case by (simp add: g(1))
qed simp

lemma finish_rename_mono:
  assumes "finish_rename f env from to n st = Some r" "f \<le> f'"
  shows "finish_rename f' env from to n st = Some r"
proof -
  have "rekeyDescendants f' env to st = Some x" if "rekeyDescendants f env to st = Some x" for x
    using that by (auto simp: rekeyDescendants_def Let_def split: option.splits if_splits dest: walk_mono [OF _ assms(2)])
  then show ?thesis using assms(1)
    by (cases "rekeyDescendants f env to st") (auto simp: finish_rename_def split: if_splits)
qed

lemma rename_mono:
  assumes "rename f env u v st = Some r" "f \<le> f'"
  shows "rename f' env u v st = Some r"
  using assms(1) unfolding rename_def Let_def
  by (auto split: sum.splits if_splits intro: finish_rename_mono [OF _ assms(2)])

section \<open>Runs\<close>

datatype mem_op = OpWrite uri bytes | OpMkdir uri | OpRemove uri bool | OpMove uri uri | OpDuplicate uri uri

fun apply_op :: "nat \<Rightarrow> mem_env \<Rightarrow> mem_op \<Rightarrow> memfs \<Rightarrow> unit mem_result option" where
  "apply_op f env (OpWrite u data) st = Some (writeFile env u data st)"
| "apply_op f env (OpMkdir u) st = Some (createDirectory env u st)"
| "apply_op f env (OpRemove u recursive) st = delete_entry f env u recursive st"
| "apply_op f env (OpMove u v) st = rename f env u v st"
| "apply_op f env (OpDuplicate u v) st = copy f env u v False st"

fun spec_op :: "mem_op \<Rightarrow> fs_map \<Rightarrow> string + fs_map" where
  "spec_op (OpWrite u data) m = spec_write (segments (u_path u)) data m"
| "spec_op (OpMkdir u) m = spec_mkdir (segments (u_path u)) m"
| "spec_op (OpRemove u recursive) m = spec_delete (segments (u_path u)) recursive m"
| "spec_op (OpMove u v) m = spec_rename (segments (u_path u)) (segments (u_path v)) m"
| "spec_op (OpDuplicate u v) m = spec_copy (segments (u_path u)) (segments (u_path v)) m"

text \<open>The outcome of each call (\<open>None\<close>, or the code of its error) and the final state.\<close>

fun run_ops :: "nat \<Rightarrow> mem_env \<Rightarrow> mem_op list \<Rightarrow> memfs \<Rightarrow> (string option list \<times> memfs) option" where
  "run_ops f env [] st = Some ([], st)"
| "run_ops f env (op # ops) st =
     (case apply_op f env op st of
        None \<Rightarrow> None
      | Some (r, st') \<Rightarrow>
        map_option (\<lambda>(cs, st''). ((case r of Inl e \<Rightarrow> Some (er_code e) | Inr _ \<Rightarrow> None) # cs, st'')) (run_ops f env ops st'))"

fun spec_run :: "mem_op list \<Rightarrow> fs_map \<Rightarrow> string option list \<times> fs_map" where
  "spec_run [] m = ([], m)"
| "spec_run (op # ops) m =
     (case spec_op op m of
        Inl code \<Rightarrow> (let (cs, m') = spec_run ops m in (Some code # cs, m'))
      | Inr m1 \<Rightarrow> (let (cs, m') = spec_run ops m1 in (None # cs, m')))"

definition plain_segments :: "string list \<Rightarrow> bool" where
  "plain_segments ss \<longleftrightarrow> ''.'' \<notin> set ss \<and> ''..'' \<notin> set ss"

definition plain_uri :: "mem_env \<Rightarrow> uri \<Rightarrow> bool" where
  "plain_uri env u \<longleftrightarrow> u_scheme u = me_scheme env \<and> plain_segments (segments (u_path u))"

fun op_ok :: "mem_env \<Rightarrow> mem_op \<Rightarrow> bool" where
  "op_ok env (OpWrite u data) \<longleftrightarrow> plain_uri env u"
| "op_ok env (OpMkdir u) \<longleftrightarrow> plain_uri env u"
| "op_ok env (OpRemove u recursive) \<longleftrightarrow> plain_uri env u"
| "op_ok env (OpMove u v) \<longleftrightarrow> plain_uri env u \<and> plain_uri env v"
| "op_ok env (OpDuplicate u v) \<longleftrightarrow> plain_uri env u \<and> plain_uri env v"

definition plain_map :: "fs_map \<Rightarrow> bool" where
  "plain_map m \<longleftrightarrow> (\<forall>q. m q \<noteq> None \<longrightarrow> plain_segments q)"

lemma plain_map_below: "plain_map (contents st) \<Longrightarrow> plain_below st F"
  by (auto simp: plain_map_def plain_below_def plain_segments_def contents_None)

lemma apply_op_implements:
  assumes env: "writable_env env" and ok: "fs_ok st" and plain: "plain_map (contents st)" and op: "op_ok env op"
  shows "\<exists>N res. (\<forall>f\<ge>N. apply_op f env op st = Some res) \<and> implements st res (spec_op op (contents st))"
proof (cases op)
  case (OpWrite u data)
  with op writeFile_implements [OF env _ ok, of u "segments (u_path u)" data] show ?thesis
    by (intro exI [of _ 0] exI [of _ "writeFile env u data st"]) (simp add: uri_segments_def plain_uri_def)
next
  case (OpMkdir u)
  with op createDirectory_implements [OF env _ ok, of u "segments (u_path u)"] show ?thesis
    by (intro exI [of _ 0] exI [of _ "createDirectory env u st"]) (simp add: uri_segments_def plain_uri_def)
next
  case (OpRemove u recursive)
  obtain N where N: "deep_enough N st" using deep_enough_exists [OF ok] by blast
  have "uri_segments env u (segments (u_path u))" using op OpRemove by (simp add: uri_segments_def plain_uri_def)
  from delete_implements [OF env this ok N, of recursive] obtain res where
    "delete_entry N env u recursive st = Some res" "implements st res (spec_op op (contents st))" using OpRemove by auto
  then show ?thesis using delete_entry_mono OpRemove by (metis apply_op.simps(3))
next
  case (OpMove u v)
  obtain N where N: "deep_enough N st" using deep_enough_exists [OF ok] by blast
  have "uri_segments env u (segments (u_path u))" "uri_segments env v (segments (u_path v))"
    using op OpMove by (simp_all add: uri_segments_def plain_uri_def)
  from rename_implements [OF env this ok N plain_map_below [OF plain]] obtain res where
    "rename N env u v st = Some res" "implements st res (spec_op op (contents st))" using OpMove by auto
  then show ?thesis using rename_mono OpMove by (metis apply_op.simps(4))
next
  case (OpDuplicate u v)
  have "uri_segments env u (segments (u_path u))" "uri_segments env v (segments (u_path v))"
    using op OpDuplicate by (simp_all add: uri_segments_def plain_uri_def)
  from copy_implements [OF env this ok plain_map_below [OF plain]] OpDuplicate show ?thesis by auto
qed

lemma plain_graft: "plain_segments G \<Longrightarrow> plain_segments (F @ r) \<Longrightarrow> plain_segments (G @ r)"
  by (auto simp: plain_segments_def)

lemma plain_maps:
  assumes "plain_map m"
  shows "plain_segments ss \<Longrightarrow> plain_map (m(ss \<mapsto> v))" "plain_map (\<lambda>q. if prefix ss q then None else m q)"
    "plain_segments G \<Longrightarrow> plain_map (\<lambda>q. if prefix G q then m (F @ drop (length G) q) else if prefix F q then None else m q)"
    "plain_segments G \<Longrightarrow> plain_map (\<lambda>q. if prefix G q then m (F @ drop (length G) q) else m q)"
proof -
  have graft: "plain_segments q" if "plain_segments G" "prefix G q" "m (F @ drop (length G) q) \<noteq> None" for q G F
  proof -
    from that(2) obtain r where "q = G @ r" by (rule prefixE)
    with that assms plain_graft [of G F r] show ?thesis by (simp add: plain_map_def)
  qed
  show "plain_segments ss \<Longrightarrow> plain_map (m(ss \<mapsto> v))" using assms by (simp add: plain_map_def)
  show "plain_map (\<lambda>q. if prefix ss q then None else m q)" using assms by (simp add: plain_map_def)
  show "plain_segments G \<Longrightarrow> plain_map (\<lambda>q. if prefix G q then m (F @ drop (length G) q) else if prefix F q then None else m q)"
    "plain_segments G \<Longrightarrow> plain_map (\<lambda>q. if prefix G q then m (F @ drop (length G) q) else m q)"
    using assms graft [of G] unfolding plain_map_def by (auto split: if_splits)
qed

lemma spec_parent_Inr: "spec_parent m ss m1 = Inr m' \<Longrightarrow> m' = m1"
  by (auto simp: spec_parent_def split: option.splits stored.splits)

lemma spec_op_plain:
  assumes "plain_map m" "op_ok env op" "spec_op op m = Inr m'"
  shows "plain_map m'"
proof (cases op)
  case (OpWrite u data)
  with assms plain_maps(1) [OF assms(1)] show ?thesis
    by (auto simp: spec_write_def plain_uri_def dest!: spec_parent_Inr split: option.splits stored.splits)
next
  case (OpMkdir u)
  with assms plain_maps(1) [OF assms(1)] show ?thesis
    by (auto simp: spec_mkdir_def plain_uri_def dest!: spec_parent_Inr split: if_splits)
next
  case (OpRemove u recursive)
  with assms plain_maps(2) [OF assms(1)] show ?thesis by (auto simp: spec_delete_def split: if_splits)
next
  case (OpMove u v)
  with assms plain_maps(3) [OF assms(1)] show ?thesis
    by (auto simp: spec_rename_def plain_uri_def dest!: spec_parent_Inr split: if_splits)
next
  case (OpDuplicate u v)
  with assms plain_maps(4) [OF assms(1)] show ?thesis
    by (auto simp: spec_copy_def plain_uri_def dest!: spec_parent_Inr split: if_splits)
qed

lemma run_implements:
  assumes env: "writable_env env"
  shows "fs_ok st \<Longrightarrow> plain_map (contents st) \<Longrightarrow> list_all (op_ok env) ops \<Longrightarrow>
    \<exists>N cs st'. (\<forall>f\<ge>N. run_ops f env ops st = Some (cs, st')) \<and> fs_ok st' \<and> spec_run ops (contents st) = (cs, contents st')"
proof (induction ops arbitrary: st)
  case Nil
  then show ?case by auto
next
  case (Cons op ops)
  from apply_op_implements [OF env Cons.prems(1,2)] Cons.prems(3) obtain N1 r st1 where
    N1: "\<forall>f\<ge>N1. apply_op f env op st = Some (r, st1)" and imp: "implements st (r, st1) (spec_op op (contents st))" by fastforce
  have ok1: "fs_ok st1" using imp by (simp add: implements_def)
  have plain1: "plain_map (contents st1)"
    using imp Cons.prems spec_op_plain [of "contents st" env op] by (auto simp: implements_def split: sum.splits)
  from Cons.IH [OF ok1 plain1] Cons.prems(3) obtain N2 cs st2 where
    N2: "\<forall>f\<ge>N2. run_ops f env ops st1 = Some (cs, st2)" "fs_ok st2" "spec_run ops (contents st1) = (cs, contents st2)" by auto
  define c where "c = (case r of Inl e \<Rightarrow> Some (er_code e) | Inr _ \<Rightarrow> None)"
  have "\<forall>f\<ge>max N1 N2. run_ops f env (op # ops) st = Some (c # cs, st2)"
    using N1 N2(1) by (simp add: c_def)
  moreover have "spec_run (op # ops) (contents st) = (c # cs, contents st2)"
    using imp N2(3) by (auto simp: implements_def c_def split: sum.splits)
  ultimately show ?case using N2(2) by blast
qed

section \<open>Reading\<close>

lemma readFile_contents:
  assumes "caseSensitive env" "fs_ok st" "u_scheme u = me_scheme env"
  shows "readFile env st u = Inr d \<longleftrightarrow> contents st (segments (u_path u)) = Some (StoredFile d)"
  using assms
  by (auto simp: readFile_def assertSameScheme_def ensureNode_def getNode_segments contents_file split: option.splits)

lemma list_children_eq:
  assumes cs: "caseSensitive env" and ok: "fs_ok st" and n: "node_at st ss = Some n" and p: "normalizeUriPath p = path_of ss"
  shows "list_children env st p (map snd (kids st n)) =
    map (\<lambda>s. toEntry env (mf_heap st (the (node_at st (ss @ [s])))) (path_of (ss @ [s]))) (map fst (kids st n))"
proof -
  have "(case mf_nodes st k of None \<Rightarrow> []
      | Some c \<Rightarrow> [toEntry env (mf_heap st c) (child_path (path_of ss) (mn_name (mf_heap st c)))])
    = [toEntry env (mf_heap st (the (node_at st (ss @ [s])))) (path_of (ss @ [s]))]" if "(s, k) \<in> set (kids st n)" for s k
  proof -
    from fs_ok_child [OF ok n that] obtain c where k: "k = path_of (ss @ [s])" and c: "node_at st (ss @ [s]) = Some c" by blast
    have oks: "ok_segs (ss @ [s])" by (rule node_at_ok [OF c])
    then have "mf_nodes st k = Some c" using c k by (simp add: node_at_def)
    moreover have "mn_name (mf_heap st c) = s" using fs_ok_node [OF ok c] by (simp add: node_ok_def)
    ultimately show ?thesis using c by (simp add: child_path_of [OF oks])
  qed
  then have "set ks \<subseteq> set (kids st n) \<Longrightarrow>
      concat (map (\<lambda>k. case mf_nodes st k of None \<Rightarrow> []
        | Some c \<Rightarrow> [toEntry env (mf_heap st c) (child_path (path_of ss) (mn_name (mf_heap st c)))]) (map snd ks))
      = map (\<lambda>s. toEntry env (mf_heap st (the (node_at st (ss @ [s])))) (path_of (ss @ [s]))) (map fst ks)" for ks
    by (induction ks) auto
  then show ?thesis by (simp only: list_children_def p subset_refl)
qed

lemma readDirectory_eq:
  assumes "caseSensitive env" "fs_ok st" "u_scheme u = me_scheme env" "node_at st (segments (u_path u)) = Some n" "is_dir st n"
  shows "readDirectory env st u = Inr (js_sort (\<lambda>a b. me_compare env (pe_name a) (pe_name b))
    (map (\<lambda>s. toEntry env (mf_heap st (the (node_at st (segments (u_path u) @ [s])))) (path_of (segments (u_path u) @ [s])))
      (map fst (kids st n))))"
  using assms list_children_eq [OF assms(1,2,4), of "u_path u"]
  by (simp add: readDirectory_def assertSameScheme_def ensureNode_def getNode_segments normalize_render)

lemma child_entry:
  assumes "fs_ok st" "node_at st ss = Some n" "s \<in> fst ` set (kids st n)"
  obtains c where "node_at st (ss @ [s]) = Some c" "mn_name (mf_heap st c) = s" "seg_ok s"
proof -
  from assms(3) obtain k where "(s, k) \<in> set (kids st n)" by auto
  from fs_ok_child(2) [OF assms(1,2) this] obtain c where c: "node_at st (ss @ [s]) = Some c" by blast
  with fs_ok_node [OF assms(1) c] node_at_ok [OF c] show ?thesis using that by (simp add: node_ok_def)
qed

lemma readDirectory_names:
  assumes cs: "caseSensitive env" and ok: "fs_ok st" and u: "u_scheme u = me_scheme env" and es: "readDirectory env st u = Inr es"
  shows "set (map pe_name es) = {s. contents st (segments (u_path u) @ [s]) \<noteq> None}" "distinct (map pe_name es)"
proof -
  define ss where "ss = segments (u_path u)"
  from es cs u obtain n where n: "node_at st ss = Some n" "is_dir st n"
    by (auto simp: readDirectory_def assertSameScheme_def ensureNode_def getNode_segments ss_def split: option.splits if_splits)
  define entry where "entry = (\<lambda>s. toEntry env (mf_heap st (the (node_at st (ss @ [s])))) (path_of (ss @ [s])))"
  have "Inr es = (Inr (js_sort (\<lambda>a b. me_compare env (pe_name a) (pe_name b)) (map entry (map fst (kids st n)))) :: fs_error + _)"
    unfolding es [symmetric] entry_def ss_def by (rule readDirectory_eq [OF cs ok u n [unfolded ss_def]])
  then have es': "es = js_sort (\<lambda>a b. me_compare env (pe_name a) (pe_name b)) (map entry (map fst (kids st n)))"
    by (rule sum.inject(2) [THEN iffD1])
  have name: "pe_name (entry s) = s" if s: "s \<in> fst ` set (kids st n)" for s
  proof -
    obtain c where "node_at st (ss @ [s]) = Some c" "mn_name (mf_heap st c) = s" using child_entry [OF ok n(1) s] .
    then show ?thesis by (simp add: entry_def toEntry_def)
  qed
  have "mset (map pe_name es) = mset (map pe_name (map entry (map fst (kids st n))))"
    by (simp only: es' mset_map mset_js_sort)
  also have "map pe_name (map entry (map fst (kids st n))) = map fst (kids st n)"
    using name by (auto simp: comp_def)
  finally have m: "mset (map pe_name es) = mset (map fst (kids st n))" .
  then have "set (map pe_name es) = fst ` set (kids st n)" by (metis mset_eq_setD set_map)
  moreover have "fst ` set (kids st n) = {s. contents st (ss @ [s]) \<noteq> None}"
  proof (intro equalityI subsetI)
    fix s assume "s \<in> fst ` set (kids st n)"
    then obtain c where "node_at st (ss @ [s]) = Some c" using child_entry [OF ok n(1)] by metis
    then show "s \<in> {s. contents st (ss @ [s]) \<noteq> None}" by (simp add: contents_None)
  next
    fix s assume "s \<in> {s. contents st (ss @ [s]) \<noteq> None}"
    then obtain c where "node_at st (ss @ [s]) = Some c" by (auto simp: contents_None)
    from fs_ok_child_in [OF ok n(1) this] show "s \<in> fst ` set (kids st n)" by force
  qed
  ultimately show "set (map pe_name es) = {s. contents st (segments (u_path u) @ [s]) \<noteq> None}" by (simp add: ss_def)
  show "distinct (map pe_name es)"
    using mset_eq_imp_distinct_iff [OF m] fs_ok_node [OF ok n(1)] by (simp add: node_ok_def jm_wf_def)
qed

section \<open>Concrete providers\<close>

definition demo_env :: "32 word \<Rightarrow> (string \<Rightarrow> string) \<Rightarrow> mem_env" where
  "demo_env capabilities lower = \<lparr>me_scheme = ''memfs'', me_capabilities = capabilities, me_lower = lower,
     me_compare = (\<lambda>a b. int (length a) - int (length b)), me_now = int, me_throws = (\<lambda>l e. False)\<rparr>"

definition ascii_lower :: "string \<Rightarrow> string" where
  "ascii_lower = map (\<lambda>c. let n = (of_char c :: nat) in if 65 \<le> n \<and> n \<le> 90 then char_of (n + 32) else c)"

definition mem_uri :: "string \<Rightarrow> uri" where
  "mem_uri p = createUri ''memfs'' p None None None"

definition demo_ops :: "mem_op list" where
  "demo_ops = [OpMkdir (mem_uri ''/a''), OpWrite (mem_uri ''/a/f'') [7], OpMove (mem_uri ''/a'') (mem_uri ''/b''),
     OpDuplicate (mem_uri ''/b'') (mem_uri ''/c''), OpRemove (mem_uri ''/b'') True]"

definition fresh_memfs :: "mem_env \<Rightarrow> memfs" where
  "fresh_memfs env = snd (mkdirp env ''/'' empty_memfs)"

lemma create_fresh:
  assumes "caseSensitive env"
  shows "createMemoryFileSystemProvider env [] [] = Inr (fresh_memfs env)"
  using mkdirp_root [OF assms] by (auto simp: createMemoryFileSystemProvider_def fresh_memfs_def mbind_def)

lemma demo_writable: "writable_env (demo_env default_capabilities lower)"
  by (simp add: writable_env_def caseSensitive_def readonly_fs_def demo_env_def default_capabilities_def cap_defs)

subsection \<open>A directory that is its own child\<close>

definition fold_env :: mem_env where "fold_env = demo_env CapReadWrite ascii_lower"

definition fold_start :: memfs where
  "fold_start = snd (createDirectory fold_env (mem_uri ''/A'') (fresh_memfs fold_env))"

abbreviation nested_path :: "nat \<Rightarrow> string" where "nested_path m \<equiv> path_of (''a'' # replicate (Suc m) ''b'')"

lemma nested_ok: "ok_segs (''a'' # replicate m ''b'')"
  by (induction m) (simp_all add: seg_ok_def backslash_def)

lemma fold_key: "pathKey fold_env (nested_path m) = nested_path m"
proof -
  have "ascii_lower (render (replicate k ''b'')) = render (replicate k ''b'')" for k
    by (induction k) (simp_all add: ascii_lower_def)
  then have "ascii_lower (nested_path m) = nested_path m"
    by (simp add: path_of_def ascii_lower_def)
  moreover have "\<not> caseSensitive fold_env" "me_lower fold_env = ascii_lower" by (simp_all add: fold_env_def demo_env_def caseSensitive_def cap_defs)
  ultimately show ?thesis using path_facts(1) [OF nested_ok [of "Suc m"]] by (simp add: pathKey_def)
qed

lemma fold_walk:
  "mf_nodes st (nested_path m) = Some 2 \<Longrightarrow> kids st 2 = [(''b'', nested_path m)] \<Longrightarrow> mn_name (mf_heap st 2) = ''b'' \<Longrightarrow>
   is_dir st 2 \<Longrightarrow> walk f fold_env (nested_path m) 2 st = None"
proof (induction f arbitrary: m st)
  case (Suc f)
  have longer: "(''a'' # replicate (Suc m) ''b'') @ [''b''] = ''a'' # replicate (Suc (Suc m)) ''b''"
    by (simp add: replicate_append_same)
  have join: "joinUriPath (nested_path m) ''b'' = Some (nested_path (Suc m))"
    using join_plain [of "''a'' # replicate (Suc m) ''b''" "''b''"] nested_ok [of "Suc (Suc m)"] unfolding longer by simp
  have ne: "nested_path m \<noteq> nested_path (Suc m)"
    using path_of_inj [OF nested_ok nested_ok, of "Suc m" "Suc (Suc m)"] by (auto dest: arg_cong [of _ _ length])
  define st' where "st' = set_child 2 ''b'' (nested_path (Suc m))
    (st\<lparr>mf_nodes := ((mf_nodes st)(nested_path m := None))(nested_path (Suc m) \<mapsto> 2),
       mf_idToPath := (mf_idToPath st)(mn_id (mf_heap st 2) \<mapsto> nested_path (Suc m))\<rparr>)"
  have "walk f fold_env (nested_path (Suc m)) 2 st' = None"
    using Suc.prems by (intro Suc.IH) (simp_all add: st'_def set_child_def update_node_def)
  moreover have "is_dir st' 2" using Suc.prems by (simp add: st'_def set_child_def update_node_def)
  ultimately show ?case
    using Suc.prems join ne fold_key [of "Suc m"] by (simp add: Let_def flip: st'_def del: replicate.simps)
qed simp

subsection \<open>A file named with two dots\<close>

definition dot_env :: mem_env where "dot_env = demo_env default_capabilities ascii_lower"

definition dot_start :: memfs where
  "dot_start = snd (writeFile dot_env (mem_uri ''/d/..'') [7]
     (snd (createDirectory dot_env (mem_uri ''/d'') (fresh_memfs dot_env))))"

section \<open>Properties\<close>



text \<open>
  C39: moving a directory into itself is rejected by comparing the paths as they are written. On a
  case-insensitive provider \<open>/A\<close> and \<open>/a\<close> are the same directory, so moving \<open>/A\<close> to \<open>/a/b\<close> passes the check,
  the directory becomes its own child, and the walk over its descendants never ends.
\<close>

theorem case_folded_rename_never_returns:
  "\<forall>f. rename f fold_env (mem_uri ''/A'') (mem_uri ''/a/b'') fold_start = None"
proof
  fix f
  let ?st = "relink fold_env ''/A'' ''/a/b'' 2 2 fold_start"
  have path: "nested_path 0 = ''/a/b''" by (simp add: path_of_def)
  have "mf_nodes ?st ''/a/b'' = Some 2 \<and> kids ?st 2 = [(''b'', ''/a/b'')] \<and> mn_name (mf_heap ?st 2) = ''b'' \<and> is_dir ?st 2
      \<and> normalizeUriPath ''/a/b'' = ''/a/b'' \<and> assertWritable fold_env = Inr () \<and> assertSameScheme fold_env (mem_uri ''/A'') = Inr ()
      \<and> assertSameScheme fold_env (mem_uri ''/a/b'') = Inr () \<and> normalizeUriPath (u_path (mem_uri ''/A'')) = ''/A''
      \<and> normalizeUriPath (u_path (mem_uri ''/a/b'')) = ''/a/b'' \<and> ensureNode fold_env ''/A'' fold_start = Inr 2
      \<and> \<not> isPathUnder ''/a/b'' ''/A'' \<and> getNode fold_env ''/a/b'' fold_start = None
      \<and> parent_directory fold_env (dirnameUriPath ''/a/b'') fold_start = Inr 2"
    by code_simp
  then have facts: "mf_nodes ?st ''/a/b'' = Some 2" "kids ?st 2 = [(''b'', ''/a/b'')]" "mn_name (mf_heap ?st 2) = ''b''" "is_dir ?st 2"
      "normalizeUriPath ''/a/b'' = ''/a/b''" "assertWritable fold_env = Inr ()" "assertSameScheme fold_env (mem_uri ''/A'') = Inr ()"
      "assertSameScheme fold_env (mem_uri ''/a/b'') = Inr ()" "normalizeUriPath (u_path (mem_uri ''/A'')) = ''/A''"
      "normalizeUriPath (u_path (mem_uri ''/a/b'')) = ''/a/b''" "ensureNode fold_env ''/A'' fold_start = Inr 2"
      "\<not> isPathUnder ''/a/b'' ''/A''" "getNode fold_env ''/a/b'' fold_start = None"
      "parent_directory fold_env (dirnameUriPath ''/a/b'') fold_start = Inr 2" by blast+
  from fold_walk [of ?st 0, unfolded path, OF facts(1-4), of f]
  have walk: "walk f fold_env ''/a/b'' 2 ?st = None" .
  have "pathKey fold_env ''/a/b'' = ''/a/b''" using fold_key [of 0] path by simp
  with walk facts have rekey: "rekeyDescendants f fold_env ''/a/b'' ?st = None" by (simp add: rekeyDescendants_def)
  show "rename f fold_env (mem_uri ''/A'') (mem_uri ''/a/b'') fold_start = None"
    using rekey facts(4,6-14) by (simp add: rename_def finish_rename_def)
qed

text \<open>
  A file can be named \<open>..\<close>, since paths are not resolved, but a directory that holds it cannot be
  renamed: the rename throws after it has moved the directory. The file stays under the old path,
  which has no directory any more, and no event is emitted.
\<close>

theorem dot_name_breaks_rename:
  "map_option (\<lambda>(r, st). (r, length (mf_events st), map_sum er_code pe_kind (stat dot_env st (mem_uri ''/d'')),
       readFile dot_env st (mem_uri ''/d/..''), map_sum er_code pe_kind (stat dot_env st (mem_uri ''/e''))))
     (rename 9 dot_env (mem_uri ''/d'') (mem_uri ''/e'') dot_start)
   = Some (Inl (invalid_segment ''..''), length (mf_events dot_start), Inl ''ENOENT'', Inr [7], Inr KindDirectory)"
  by code_simp

end
