(* ===== verification/Spec2Isabelle.thy ===== *)
theory Spec2Isabelle
  imports Natural_Sort Bincode Child_Lists Mirror_Invariant Mirror_Snapshot Session_Delta Decoration_Store
    Framed_Channel Port_Channel Session_Policy Provider_Registry Port_Explorer_Proofs Host_Runs Host_Boundary
    WebSocket_Channel Remote_Session Explorer_Settings Viewport_Anchor Command_Registry
    Memory_FS_Runs
begin

text \<open>
  \<^bold>\<open>A model of the mille file explorer.\<close>

  mille indexes a workspace in a native engine and shows it in clients that run elsewhere: a renderer
  process, a browser tab, another machine. A host (\<open>packages/mille/src/host.ts\<close>) owns the engine and
  keeps one session per client. A client (\<open>client-port.ts\<close>) keeps a bounded mirror of the part of the tree
  it looks at. Host and client talk over a channel (\<open>channel/types.ts\<close>), which is a message port
  (\<open>channel/message-port.ts\<close>), a byte stream cut into frames (\<open>stream/\<close>) or a WebSocket (\<open>websocket/\<close>); a
  client on another machine opens its session with a credential first (\<open>remote/\<close>). The development models the
  TypeScript side of this: what crosses the channel, what the client holds, and what a session may do; and, of
  the tree view built on the client (\<open>packages/mille-ui\<close>), the part that computes without React.

  \<^bold>\<open>Theories and sources.\<close> Definitions keep the names of the code; a field or a helper that the code has no
  name for is described where it is declared.

  \<^item> \<open>Mille_Prelude\<close>: insertion-ordered maps and sets (\<open>Map\<close> and \<open>Set\<close> of the language), results, words,
    lemma collections.
  \<^item> \<open>Natural_Sort\<close> (\<open>natural-sort.ts\<close>), \<open>Text_Encoding\<close> (UTF-8 and UTF-16 as \<open>TextEncoder\<close> and
    \<open>TextDecoder\<close> use them), \<open>Wire_Bytes\<close> and \<open>Bincode\<close> (\<open>entry-codec.ts\<close>, \<open>decode.ts\<close>), \<open>Child_Lists\<close>
    (\<open>child-list-codec.ts\<close>): the binary payloads of snapshots and deltas.
  \<^item> \<open>Mirror\<close> (\<open>mirror.ts\<close>), \<open>Mirror_Reducer\<close> (\<open>mirror-reducer.ts\<close>), \<open>Mirror_Snapshot\<close>
    (\<open>mirror-snapshot.ts\<close>), \<open>Child_Order\<close> (sibling order): the client's mirror, its update by frames, its
    eviction and the rows a tree view reads from it. \<open>Mirror_Invariant\<close> holds the invariant of the mirror and
    what each frame does.
  \<^item> \<open>Session_Delta\<close> (\<open>delta.ts\<close>) and \<open>Decoration_Store\<close> (\<open>decorations.ts\<close>): the per-session filter of a change set
    and the host's decoration slots.
  \<^item> \<open>Channel_Contract\<close> (\<open>channel/types.ts\<close>, \<open>channel/emitter.ts\<close>): the contract of a channel as a locale,
    interpreted by \<open>Port_Channel\<close> (\<open>channel/message-port.ts\<close>) and \<open>Framed_Channel\<close>
    (\<open>stream/framed-channel.ts\<close>). Below the latter: \<open>Stream_Limits\<close> (\<open>stream/limits.ts\<close>), \<open>Json\<close> (the
    \<open>JSON.stringify\<close> and \<open>JSON.parse\<close> of messages), \<open>Frame_Codec\<close> (\<open>stream/codec.ts\<close>), \<open>Frame_Decoder\<close>
    (\<open>stream/decoder.ts\<close>). \<open>WebSocket_Channel\<close> (\<open>websocket/channel.ts\<close> and its adapters \<open>client.ts\<close>, \<open>host.ts\<close>) is
    the third interpretation, over \<open>Close_Codes\<close> (\<open>websocket/close-codes.ts\<close>).
  \<^item> \<open>Remote_Session\<close> (\<open>remote/server.ts\<close>, \<open>remote/protocol.ts\<close>): the server half of a remote session as a
    state machine, and the automaton of events it implements.
  \<^item> \<open>Explorer_Settings\<close> (\<open>explorer-settings.ts\<close>): the stored settings documents.
  \<^item> \<open>Protocol\<close> (\<open>protocol.ts\<close>, the error value of \<open>errors.ts\<close>): the messages of both directions and their envelope.
  \<^item> \<open>Port_Explorer\<close> (\<open>client-port.ts\<close>): the client as a state machine over API calls, frames and transport
    failures; \<open>Port_Explorer_Proofs\<close> its invariants.
  \<^item> \<open>Session_Policy\<close> (\<open>channel/policy.ts\<close>, and the budgets of \<open>host.ts\<close>): what a session is allowed to do.
  \<^item> The host (\<open>host.ts\<close>): \<open>Host\<close> (its state, sending, detaching, viewport patches), \<open>Host_Fanout\<close> (\<open>tick\<close>,
    \<open>handleHandshake\<close>, \<open>handleSetViewport\<close>), \<open>Host_Loads\<close> (\<open>handleSetExpanded\<close> and the directory loads),
    \<open>Host_Requests\<close> (the symlink boundary, lookups, searches, decorations, acknowledgements, warnings),
    \<open>Host_Server\<close> (the mutation queue, calls, synchronization points, the dispatch of frames). Each
    definition is one task of the event loop. The proofs: \<open>Host_Client\<close> takes a delta from the host to the
    mirror, \<open>Host_Sync\<close>, \<open>Host_Reach\<close> and \<open>Host_Steps\<close> carry the invariant through every operation, \<open>Host_Runs\<close>
    through every run; \<open>Host_Boundary\<close> shows what a session is not given.
  \<^item> \<open>Uri_Paths\<close> (\<open>provider/uri.ts\<close>), \<open>Provider_Registry\<close> (\<open>provider/registry.ts\<close>): virtual file systems.
  \<^item> \<open>Provider_Capabilities\<close> (\<open>provider/capabilities.ts\<close>, \<open>provider/wrap.ts\<close>, \<open>provider/types.ts\<close>): what a provider can
    do, and the wrappers around it. \<open>Memory_FS\<close> (\<open>provider/memfs.ts\<close>) is the in-memory provider, with its nodes in
    a heap; \<open>Memory_FS_Refinement\<close> holds its invariant and the abstract filesystem, \<open>Memory_FS_Rename\<close> and
    \<open>Memory_FS_Copy\<close> the two operations on subtrees, \<open>Memory_FS_Runs\<close> sequences of operations.
  \<^item> \<open>Tree_Projection\<close> and \<open>Viewport_Anchor\<close> (\<open>mille-ui/src/hooks\<close>): the windowed reads of a snapshot that the
    tree view scrolls over, and the anchors that keep its rows in place across changes.
  \<^item> \<open>When_Clause\<close>, \<open>Keybinding\<close> and \<open>Command_Registry\<close> (\<open>mille-ui/src/commands\<close>): the conditions and shortcuts of
    commands, the registry with its shadowing, contributions, menus and the dispatch of a command.

  \<^bold>\<open>What is shown.\<close> The codecs are round trips on every value the encoder accepts, truncated or
  ill-formed input is refused, and what a successful decode of arbitrary bytes can contain is bounded.
  The frame decoder reassembles messages from any chunking, in bounded memory; the framed channel
  delivers what was sent, in order, for every way the operating system splits writes and reads. All
  channels tell their listeners about the close once and then fall silent; a WebSocket carries the reason
  of a close to the peer, delivers messages whole and in order, and resolves a drain when its bytes have
  left, except for the case shown by \<open>connecting_drain_resolves_early\<close>. A remote session attaches a host
  only under a grant, once, with a policy no wider than the grant and the request, and gives it explorer
  frames only. Stored settings are bounded, survive storing and loading, and resolve innermost first. Every mirror that frames can
  produce is well formed; deltas and snapshots put into it what they carry; eviction spares the active
  entries and stops at the cap. The row iterators agree with a recursive reference definition of the
  visible tree. The client publishes exactly its mirror, settles every promise when the connection goes,
  and answers each request with its own reply. In every run of the host, with any number of clients and
  any interleaving of their frames with ticks, loads, mutations and native changes, the mirror of each
  attached client holds only entries of the native tree, up to changes that are not drained yet.
  Restricted sessions see and change nothing within 1024 levels below a symlink. Policies, budgets, paths and the registry follow
  abstract specifications (segment lists, a stack of live registrations, sliding windows).
  Every window of the tree view is a slice of one list of rows; the chunked search finds an id exactly
  when it is shown, given a budget of the row count plus 256; an anchor puts its row back at the same
  offset, and the windowed resolver agrees with the full one. When clauses mean what their grammar says and
  read back what is printed, as do shortcuts; contributions unwind to the registry they started from, the
  cache of parsed shortcuts is never stale, menus hold each command once, and a dispatch ends once.
  The in-memory provider implements a map from segment lists to files and directories under any sequence
  of operations when it is case-sensitive and no segment is a dot name; without these conditions renaming
  can loop or throw half way. The capability gate never lets an unsupported call through.

  \<^bold>\<open>Loops and fuel.\<close> Loops are recursive functions with termination proofs: the frame decoder by the bytes
  buffered, the pump by the queue, eviction by the candidates, the row walks by a rank of the tree. Walks
  over child lists that may be cyclic are partial functions with the value \<open>None\<close> for not returning, and
  the theorems about them prove that they return on well-formed mirrors. The JSON parser runs on fuel
  twice the length of its input plus two, and \<open>Json\<close> proves that this is enough for every printed value.
  \<open>hit_path\<close> keeps the source's own guard of 10000 steps. The parser of when clauses terminates because
  each of its functions consumes a token before it calls itself again. The recursive operations of the
  in-memory provider run on fuel; fuel above the depth of the tree is enough for deleting and renaming,
  some fuel is enough for copying, and more never changes the result.

  \<^bold>\<open>Numbers and text.\<close> Ids, versions and counters of the code are doubles that hold integers; they are \<open>int\<close>
  where the code checks or relies on safe integers, with the check written out. Bytes are 8-bit words,
  capability masks 32-bit words. Strings are lists of UTF-16 code units where their encoding matters.

  \<^bold>\<open>Parameters.\<close> \<open>JSON.parse\<close> of the legacy string payloads of snapshots and deltas, the case folding of
  providers, the outcome of each transport write, what a WebSocket buffers and sends, the answers of
  \<open>authorize\<close> and of the hosts it names, decoration providers, the case maps and \<open>localeCompare\<close> of the
  language, the platform test of shortcuts and the match of \<open>/cancel/i\<close> are arguments of the
  definitions that use them. The native explorer is a parameter of the host: a snapshot is a record of the
  functions the host calls on it, and the change set a tick drains, the answers of native operations and
  the clock are arguments of the tasks that read them. What the host relies on is \<open>snapshot_ok\<close> and that a
  change set names every id that changed since the last one.

  \<^bold>\<open>Not modelled.\<close> The engine is Rust code behind a native binding; its results are inputs here. The native
  client, git and drive services only forward to it. The client half of a remote session and the message
  port relay forward frames between two channels. Of the virtual
  providers the tree session (\<open>provider/tree.ts\<close>) and the parsing of host paths are left out, and the recursive
  operations of the in-memory one do not interleave with others. React components and the hooks
  that hold React state render; the default commands call hooks of the embedding application; icon tables
  are data. Of \<open>host.ts\<close> the reconcile pass after the watcher's registration is left out; a run assumes that the
  native tree stands still within a task other than the tick. Listeners of the client do not call back
  into it, decoration providers answer synchronously, and abort signals are left out.
\<close>

end
